(* ===== verification/Ast.thy ===== *)
theory Ast
  imports Xlog_Prelude
begin

text \<open>
  The abstract syntax of XLOG programs (\<open>crates/xlog-logic/src/ast.rs\<close>) and the scalar types
  of relation columns (\<open>crates/xlog-core/src/types.rs\<close>): terms, arithmetic expressions, atoms,
  body literals and rules with the traversals the compiler runs on them, and the part of a
  program that the dependency analysis reads.
  Floating-point literals are kept as their IEEE 754 bit patterns (\<open>u64\<close>).
\<close>

section \<open>Scalar types\<close>

datatype scalar_type = TyU32 | TyU64 | TyI32 | TyI64 | TyF32 | TyF64 | TyBool | TySymbol

fun size_bytes :: "scalar_type \<Rightarrow> nat" where
  "size_bytes TyU32 = 4"
| "size_bytes TyI32 = 4"
| "size_bytes TyF32 = 4"
| "size_bytes TySymbol = 4"
| "size_bytes TyU64 = 8"
| "size_bytes TyI64 = 8"
| "size_bytes TyF64 = 8"
| "size_bytes TyBool = 1"

fun to_code :: "scalar_type \<Rightarrow> u8" where
  "to_code TyU32 = 0"
| "to_code TyU64 = 1"
| "to_code TyI32 = 2"
| "to_code TyI64 = 3"
| "to_code TyF32 = 4"
| "to_code TyF64 = 5"
| "to_code TyBool = 6"
| "to_code TySymbol = 7"

definition from_code :: "u8 \<Rightarrow> scalar_type option" where
  "from_code code =
     (if code = 0 then Some TyU32 else if code = 1 then Some TyU64
      else if code = 2 then Some TyI32 else if code = 3 then Some TyI64
      else if code = 4 then Some TyF32 else if code = 5 then Some TyF64
      else if code = 6 then Some TyBool else if code = 7 then Some TySymbol
      else None)"

definition is_numeric :: "scalar_type \<Rightarrow> bool" where
  "is_numeric ty = (ty \<noteq> TyBool \<and> ty \<noteq> TySymbol)"

definition dlpack_compatible :: "scalar_type \<Rightarrow> scalar_type \<Rightarrow> bool" where
  "dlpack_compatible self other =
     (if self = other then True
      else (self, other) \<in> {(TyU32, TyI32), (TyI32, TyU32), (TyU64, TyI64), (TyI64, TyU64),
                             (TySymbol, TyU32), (TySymbol, TyI32)})"

lemma from_code_to_code: "from_code (to_code ty) = Some ty"
  by (cases ty) (simp_all add: from_code_def)

lemma to_code_from_code: "from_code c = Some ty \<Longrightarrow> to_code ty = c"
  by (auto simp: from_code_def split: if_splits)

lemma dlpack_same_size: "dlpack_compatible a b \<Longrightarrow> size_bytes a = size_bytes b"
  by (auto simp: dlpack_compatible_def split: if_splits)

section \<open>Terms\<close>

datatype agg_op = AggCount | AggSum | AggMin | AggMax | AggLogSumExp

record agg_expr =
  agg_op :: agg_op
  agg_variable :: string

datatype ast_term =
    Variable string
  | Anonymous
  | Integer i64
  | Float u64
  | Str string
  | Symbol u32
  | ListTerm "ast_term list"
  | ConsTerm ast_term ast_term
  | Compound string "ast_term list"
  | PredRef string
  | Aggregate agg_expr

definition is_variable :: "ast_term \<Rightarrow> bool" where
  "is_variable t = (case t of Variable _ \<Rightarrow> True | _ \<Rightarrow> False)"

definition is_anonymous :: "ast_term \<Rightarrow> bool" where
  "is_anonymous t = (case t of Anonymous \<Rightarrow> True | _ \<Rightarrow> False)"

definition is_any_variable :: "ast_term \<Rightarrow> bool" where
  "is_any_variable t = (case t of Variable _ \<Rightarrow> True | Anonymous \<Rightarrow> True | _ \<Rightarrow> False)"

definition is_constant :: "ast_term \<Rightarrow> bool" where
  "is_constant t =
     (\<not> is_any_variable t \<and>
      (case t of Aggregate _ \<Rightarrow> False | ListTerm _ \<Rightarrow> False | ConsTerm _ _ \<Rightarrow> False
       | Compound _ _ \<Rightarrow> False | PredRef _ \<Rightarrow> False | _ \<Rightarrow> True))"

definition variable_name :: "ast_term \<Rightarrow> string option" where
  "variable_name t = (case t of Variable name \<Rightarrow> Some name | _ \<Rightarrow> None)"

definition result_type_for_input :: "agg_expr \<Rightarrow> scalar_type \<Rightarrow> scalar_type option" where
  "result_type_for_input agg input =
     (case agg_op agg of
        AggCount \<Rightarrow> Some TyU64
      | AggSum \<Rightarrow> if input = TyU32 \<or> input = TyU64 then Some TyU64 else None
      | AggMin \<Rightarrow> if input = TyU32 \<or> input = TyU64 then Some input else None
      | AggMax \<Rightarrow> if input = TyU32 \<or> input = TyU64 then Some input else None
      | AggLogSumExp \<Rightarrow> if input = TyF64 then Some TyF64 else None)"

definition input_independent_result_type :: "agg_expr \<Rightarrow> scalar_type option" where
  "input_independent_result_type agg =
     (case agg_op agg of
        AggCount \<Rightarrow> Some TyU64 | AggSum \<Rightarrow> Some TyU64 | AggLogSumExp \<Rightarrow> Some TyF64
      | AggMin \<Rightarrow> None | AggMax \<Rightarrow> None)"

definition default_result_type :: "agg_expr \<Rightarrow> scalar_type" where
  "default_result_type agg =
     (case input_independent_result_type agg of Some ty \<Rightarrow> ty | None \<Rightarrow> TyU64)"

definition inferred_scalar_type :: "ast_term \<Rightarrow> scalar_type" where
  "inferred_scalar_type t =
     (case t of
        Variable _ \<Rightarrow> TyU64 | Anonymous \<Rightarrow> TyU64
      | Integer value \<Rightarrow>
          if 0 \<le> sint value \<and> sint value \<le> 4294967295 then TyU32 else TyI64
      | Float _ \<Rightarrow> TyF64
      | Str _ \<Rightarrow> TySymbol | Symbol _ \<Rightarrow> TySymbol
      | ListTerm _ \<Rightarrow> TyU64 | ConsTerm _ _ \<Rightarrow> TyU64 | Compound _ _ \<Rightarrow> TyU64 | PredRef _ \<Rightarrow> TyU64
      | Aggregate agg \<Rightarrow> default_result_type agg)"

text \<open>
  \<open>visit_variables\<close> calls its visitor on every named variable in source order; the visits are
  the list of names, which is what \<open>variables\<close> collects.
\<close>

fun term_variables :: "ast_term \<Rightarrow> string list" where
  "term_variables (Variable name) = [name]"
| "term_variables (ListTerm items) = concat (map term_variables items)"
| "term_variables (ConsTerm h t) = term_variables h @ term_variables t"
| "term_variables (Compound _ args) = concat (map term_variables args)"
| "term_variables Anonymous = []"
| "term_variables (Integer _) = []"
| "term_variables (Float _) = []"
| "term_variables (Str _) = []"
| "term_variables (Symbol _) = []"
| "term_variables (PredRef _) = []"
| "term_variables (Aggregate _) = []"

section \<open>Expressions, atoms and literals\<close>

datatype comp_op = Eq | Ne | Lt | Le | Gt | Ge

datatype arith_expr =
    AVariable string
  | AInteger i64
  | AFloat u64
  | Add arith_expr arith_expr
  | Sub arith_expr arith_expr
  | Mul arith_expr arith_expr
  | Div arith_expr arith_expr
  | Mod arith_expr arith_expr
  | Abs arith_expr
  | AMin arith_expr arith_expr
  | AMax arith_expr arith_expr
  | Pow arith_expr arith_expr
  | Cast arith_expr scalar_type
  | FuncCall string "arith_expr list"
  | Conditional arith_expr comp_op arith_expr arith_expr arith_expr

fun arith_variables :: "arith_expr \<Rightarrow> string list" where
  "arith_variables (AVariable name) = [name]"
| "arith_variables (AInteger _) = []"
| "arith_variables (AFloat _) = []"
| "arith_variables (Add l r) = arith_variables l @ arith_variables r"
| "arith_variables (Sub l r) = arith_variables l @ arith_variables r"
| "arith_variables (Mul l r) = arith_variables l @ arith_variables r"
| "arith_variables (Div l r) = arith_variables l @ arith_variables r"
| "arith_variables (Mod l r) = arith_variables l @ arith_variables r"
| "arith_variables (AMin l r) = arith_variables l @ arith_variables r"
| "arith_variables (AMax l r) = arith_variables l @ arith_variables r"
| "arith_variables (Pow l r) = arith_variables l @ arith_variables r"
| "arith_variables (Abs e) = arith_variables e"
| "arith_variables (Cast e _) = arith_variables e"
| "arith_variables (FuncCall _ args) = concat (map arith_variables args)"
| "arith_variables (Conditional cl _ cr t e) =
     arith_variables cl @ arith_variables cr @ arith_variables t @ arith_variables e"

record is_expr =
  is_target :: string
  is_rhs :: arith_expr

record atom =
  predicate :: string
  terms :: "ast_term list"

definition atom_arity :: "atom \<Rightarrow> nat" where
  "atom_arity a = length (terms a)"

definition atom_variables :: "atom \<Rightarrow> string list" where
  "atom_variables a = concat (map term_variables (terms a))"

datatype epistemic_op = Know | Possible

record epistemic_literal =
  epi_op :: epistemic_op
  epi_negated :: bool
  epi_atom :: atom

record comparison =
  cmp_left :: ast_term
  cmp_op :: comp_op
  cmp_right :: ast_term

record univ =
  univ_term :: ast_term
  univ_parts :: ast_term

datatype body_literal =
    Positive atom
  | Negated atom
  | Epistemic epistemic_literal
  | Comparison comparison
  | IsExpr is_expr
  | Univ univ

definition is_positive :: "body_literal \<Rightarrow> bool" where
  "is_positive l = (case l of Positive _ \<Rightarrow> True | _ \<Rightarrow> False)"

definition is_negated :: "body_literal \<Rightarrow> bool" where
  "is_negated l = (case l of Negated _ \<Rightarrow> True | _ \<Rightarrow> False)"

definition literal_atom :: "body_literal \<Rightarrow> atom option" where
  "literal_atom l =
     (case l of
        Positive a \<Rightarrow> Some a | Negated a \<Rightarrow> Some a | Epistemic lit \<Rightarrow> Some (epi_atom lit)
      | Comparison _ \<Rightarrow> None | IsExpr _ \<Rightarrow> None | Univ _ \<Rightarrow> None)"

definition literal_variables :: "body_literal \<Rightarrow> string list" where
  "literal_variables l =
     (case l of
        Positive a \<Rightarrow> atom_variables a
      | Negated a \<Rightarrow> atom_variables a
      | Epistemic lit \<Rightarrow> atom_variables (epi_atom lit)
      | Comparison c \<Rightarrow> term_variables (cmp_left c) @ term_variables (cmp_right c)
      | IsExpr e \<Rightarrow> arith_variables (is_rhs e) @ [is_target e]
      | Univ u \<Rightarrow> term_variables (univ_term u) @ term_variables (univ_parts u))"

section \<open>Rules\<close>

record rule =
  head :: atom
  body :: "body_literal list"

definition is_fact :: "rule \<Rightarrow> bool" where
  "is_fact r = (body r = [])"

definition has_negation :: "rule \<Rightarrow> bool" where
  "has_negation r = list_ex is_negated (body r)"

definition is_aggregate :: "ast_term \<Rightarrow> bool" where
  "is_aggregate t = (case t of Aggregate _ \<Rightarrow> True | _ \<Rightarrow> False)"

definition has_aggregation :: "rule \<Rightarrow> bool" where
  "has_aggregation r = list_ex is_aggregate (terms (head r))"

definition body_predicates :: "rule \<Rightarrow> string list" where
  "body_predicates r = List.map_filter (\<lambda>l. map_option predicate (literal_atom l)) (body r)"

definition head_variables :: "rule \<Rightarrow> string list" where
  "head_variables r = atom_variables (head r)"

definition body_variables :: "rule \<Rightarrow> string list" where
  "body_variables r = concat (map literal_variables (body r))"

text \<open>
  \<open>inferred_head_variable_type\<close> walks the ordinary body atoms in source order and returns the
  first type the column look-up knows for an occurrence of the variable. The look-up of the
  compilation context is a parameter, as in the code.
\<close>

fun first_known_column ::
    "(atom \<Rightarrow> nat \<Rightarrow> bool \<Rightarrow> scalar_type option) \<Rightarrow> string \<Rightarrow> atom \<Rightarrow> bool \<Rightarrow> (nat \<times> ast_term) list
     \<Rightarrow> scalar_type option" where
  "first_known_column column_type x a neg [] = None"
| "first_known_column column_type x a neg ((i, t) # ts) =
     (if t = Variable x
      then (case column_type a i neg of
              Some ty \<Rightarrow> Some ty
            | None \<Rightarrow> first_known_column column_type x a neg ts)
      else first_known_column column_type x a neg ts)"

fun inferred_type_in_body ::
    "(atom \<Rightarrow> nat \<Rightarrow> bool \<Rightarrow> scalar_type option) \<Rightarrow> string \<Rightarrow> body_literal list
     \<Rightarrow> scalar_type option" where
  "inferred_type_in_body column_type x [] = None"
| "inferred_type_in_body column_type x (l # ls) =
     (case (case l of
              Positive a \<Rightarrow> first_known_column column_type x a False (indexed (terms a))
            | Negated a \<Rightarrow> first_known_column column_type x a True (indexed (terms a))
            | _ \<Rightarrow> None) of
        Some ty \<Rightarrow> Some ty
      | None \<Rightarrow> inferred_type_in_body column_type x ls)"

definition inferred_head_variable_type ::
    "rule \<Rightarrow> string \<Rightarrow> (atom \<Rightarrow> nat \<Rightarrow> bool \<Rightarrow> scalar_type option) \<Rightarrow> scalar_type option" where
  "inferred_head_variable_type r x column_type = inferred_type_in_body column_type x (body r)"

lemma first_known_column_Some:
  assumes "first_known_column ct x a neg its = Some ty"
  shows "\<exists>i. (i, Variable x) \<in> set its \<and> ct a i neg = Some ty"
  using assms by (induction ct x a neg its rule: first_known_column.induct)
    (auto split: if_splits option.splits)

text \<open>An inferred type is always the type of a column at which the variable occurs.\<close>

definition typed_occurrence ::
    "(atom \<Rightarrow> nat \<Rightarrow> bool \<Rightarrow> scalar_type option) \<Rightarrow> string \<Rightarrow> body_literal \<Rightarrow> scalar_type \<Rightarrow> bool"
  where
  "typed_occurrence ct x l ty =
     (\<exists>a neg i. (l = Positive a \<and> \<not> neg \<or> l = Negated a \<and> neg)
        \<and> i < length (terms a) \<and> terms a ! i = Variable x \<and> ct a i neg = Some ty)"

lemma typed_occurrenceI:
  assumes "first_known_column ct x a neg (indexed (terms a)) = Some ty"
    and "l = Positive a \<and> \<not> neg \<or> l = Negated a \<and> neg"
  shows "typed_occurrence ct x l ty"
proof -
  obtain i where "i < length (terms a)" "terms a ! i = Variable x" "ct a i neg = Some ty"
    using first_known_column_Some [OF assms(1)] by (auto simp: in_indexed_iff)
  with assms(2) show ?thesis unfolding typed_occurrence_def by blast
qed

lemma inferred_type_in_body_Some:
  assumes "inferred_type_in_body ct x ls = Some ty"
  shows "\<exists>l \<in> set ls. typed_occurrence ct x l ty"
  using assms
proof (induction ls)
  case (Cons l ls)
  show ?case
  proof (cases "typed_occurrence ct x l ty")
    case False
    then have "inferred_type_in_body ct x ls = Some ty"
      using Cons.prems
      by (cases l) (auto intro: typed_occurrenceI split: option.splits)
    with Cons.IH show ?thesis by auto
  qed simp
qed simp

section \<open>Programs\<close>

datatype prob_engine = ExactDdnnf | Mc

datatype prob_cache = On | Off

datatype epistemic_mode = G91 | Faeel

datatype prob_method = Rejection | EvidenceClamping

datatype magic_sets_mode = MsAuto | MsOn | MsOff

record directives =
  prob_engine :: "prob_engine option"
  prob_cache :: "prob_cache option"
  prob_samples :: "nat option"
  prob_seed :: "u64 option"
  prob_confidence :: "u64 option"
  prob_method :: "prob_method option"
  prob_max_nonmonotone_iterations :: "nat option"
  max_recursion_depth :: "u32 option"
  epistemic_mode :: "epistemic_mode option"
  magic_sets :: "magic_sets_mode option"

definition set_pragma_names :: "directives \<Rightarrow> string list" where
  "set_pragma_names d =
     (if prob_engine d \<noteq> None then [''prob_engine''] else [])
     @ (if prob_cache d \<noteq> None then [''prob_cache''] else [])
     @ (if prob_samples d \<noteq> None then [''prob_samples''] else [])
     @ (if prob_seed d \<noteq> None then [''prob_seed''] else [])
     @ (if prob_confidence d \<noteq> None then [''prob_confidence''] else [])
     @ (if prob_method d \<noteq> None then [''prob_method''] else [])
     @ (if prob_max_nonmonotone_iterations d \<noteq> None
        then [''prob_max_nonmonotone_iterations''] else [])
     @ (if max_recursion_depth d \<noteq> None then [''max_recursion_depth''] else [])
     @ (if epistemic_mode d \<noteq> None then [''epistemic_mode''] else [])
     @ (if magic_sets d \<noteq> None then [''magic_sets''] else [])"

record query =
  q_atom :: atom

record prob_fact =
  pf_prob :: u64
  pf_atom :: atom

record learnable_rule =
  mask_name :: string
  lr_head :: atom
  lr_body :: "body_literal list"

record annotated_disjunction =
  choices :: "prob_fact list"

record evidence =
  ev_atom :: atom
  ev_value :: bool

record prob_query =
  pq_atom :: atom

text \<open>
  The fields of \<open>Program\<close> that the modelled analyses read; imports, functions, domains,
  predicate declarations, constraints and neural declarations are not among them.
\<close>

record program =
  rules :: "rule list"
  queries :: "query list"
  prob_facts :: "prob_fact list"
  annotated_disjunctions :: "annotated_disjunction list"
  evidence_stmts :: "evidence list"
  prob_queries :: "prob_query list"
  learnable_rules :: "learnable_rule list"
  directives :: directives

definition is_probabilistic_profile :: "program \<Rightarrow> bool" where
  "is_probabilistic_profile p =
     (prob_facts p \<noteq> []
      \<or> annotated_disjunctions p \<noteq> []
      \<or> evidence_stmts p \<noteq> []
      \<or> prob_queries p \<noteq> []
      \<or> prob_engine (directives p) \<noteq> None
      \<or> prob_cache (directives p) \<noteq> None
      \<or> prob_samples (directives p) \<noteq> None
      \<or> prob_seed (directives p) \<noteq> None
      \<or> prob_confidence (directives p) \<noteq> None
      \<or> prob_method (directives p) \<noteq> None
      \<or> prob_max_nonmonotone_iterations (directives p) \<noteq> None)"

end
