(* ===== verification/Hypergraph_IR.thy ===== *)
theory Hypergraph_IR
  imports Ast
begin

text \<open>
  The hypergraph of a rule body (\<open>hypergraph/ir.rs\<close>): named variables are vertices, numbered in
  first-appearance order; positive atoms are hyperedges. The construction threads the vertex
  vector and the name table as the code does; the lemmas give the closed form of the result,
  which the evaluator and the planner rest on.
\<close>

type_synonym vertex_id = nat

record vertex =
  vertex_name :: string

record hyperedge =
  edge_predicate :: string
  vertex_positions :: "vertex_id option list"

definition edge_arity :: "hyperedge \<Rightarrow> nat" where
  "edge_arity e = length (vertex_positions e)"

fun edge_vertices_from :: "vertex_id option list \<Rightarrow> vertex_id list \<Rightarrow> vertex_id list" where
  "edge_vertices_from [] seen = seen"
| "edge_vertices_from (None # ps) seen = edge_vertices_from ps seen"
| "edge_vertices_from (Some v # ps) seen =
     edge_vertices_from ps (if v \<in> set seen then seen else seen @ [v])"

definition edge_vertices :: "hyperedge \<Rightarrow> vertex_id list" where
  "edge_vertices e = edge_vertices_from (vertex_positions e) []"

record hypergraph_rule =
  head_predicate :: string
  vertices :: "vertex list"
  hyperedges :: "hyperedge list"
  head_has_aggregation :: bool
  hg_has_negation :: bool
  hg_has_is_expr :: bool
  comparison_count :: nat
  hg_is_fact :: bool

definition vertex_count :: "hypergraph_rule \<Rightarrow> nat" where
  "vertex_count hg = length (vertices hg)"

definition hyperedge_count :: "hypergraph_rule \<Rightarrow> nat" where
  "hyperedge_count hg = length (hyperedges hg)"

text \<open>\<open>vertex\<close> panics on an identifier out of range: \<open>None\<close>.\<close>

definition vertex_at :: "hypergraph_rule \<Rightarrow> vertex_id \<Rightarrow> vertex option" where
  "vertex_at hg v = get (vertices hg) v"

definition vertex_ids :: "hypergraph_rule \<Rightarrow> vertex_id list" where
  "vertex_ids hg = [0..<length (vertices hg)]"

section \<open>Construction\<close>

type_synonym vertex_table = "vertex list \<times> (string \<rightharpoonup> vertex_id)"

fun build_position :: "ast_term \<Rightarrow> vertex_table \<Rightarrow> vertex_id option \<times> vertex_table" where
  "build_position (Variable x) (vs, name_to_id) =
     (case name_to_id x of
        Some v \<Rightarrow> (Some v, (vs, name_to_id))
      | None \<Rightarrow> (Some (length vs),
                 (vs @ [\<lparr>vertex_name = x\<rparr>], name_to_id(x \<mapsto> length vs))))"
| "build_position _ tab = (None, tab)"

fun build_positions :: "ast_term list \<Rightarrow> vertex_table \<Rightarrow> vertex_id option list \<times> vertex_table"
  where
  "build_positions [] tab = ([], tab)"
| "build_positions (t # ts) tab =
     (let (p, tab1) = build_position t tab; (ps, tab2) = build_positions ts tab1
      in (p # ps, tab2))"

definition build_hyperedge :: "atom \<Rightarrow> vertex_table \<Rightarrow> hyperedge \<times> vertex_table" where
  "build_hyperedge a tab =
     (let (ps, tab') = build_positions (terms a) tab
      in (\<lparr>edge_predicate = predicate a, vertex_positions = ps\<rparr>, tab'))"

record from_rule_state =
  fr_table :: vertex_table
  fr_hyperedges :: "hyperedge list"
  fr_has_negation :: bool
  fr_has_is_expr :: bool
  fr_comparison_count :: nat

definition from_rule_literal :: "body_literal \<Rightarrow> from_rule_state \<Rightarrow> from_rule_state" where
  "from_rule_literal literal s =
     (case literal of
        Positive a \<Rightarrow>
          (let (e, tab) = build_hyperedge a (fr_table s)
           in s\<lparr>fr_table := tab, fr_hyperedges := fr_hyperedges s @ [e]\<rparr>)
      | Negated _ \<Rightarrow> s\<lparr>fr_has_negation := True\<rparr>
      | Epistemic _ \<Rightarrow> s\<lparr>fr_has_negation := True\<rparr>
      | Comparison _ \<Rightarrow> s\<lparr>fr_comparison_count := fr_comparison_count s + 1\<rparr>
      | IsExpr _ \<Rightarrow> s\<lparr>fr_has_is_expr := True\<rparr>
      | Univ _ \<Rightarrow> s\<lparr>fr_comparison_count := fr_comparison_count s + 1\<rparr>)"

definition from_rule :: "rule \<Rightarrow> hypergraph_rule" where
  "from_rule r =
     (let s = fold from_rule_literal (body r)
                \<lparr>fr_table = ([], Map.empty), fr_hyperedges = [], fr_has_negation = False,
                 fr_has_is_expr = False, fr_comparison_count = 0\<rparr>
      in \<lparr>head_predicate = predicate (head r),
          vertices = fst (fr_table s),
          hyperedges = fr_hyperedges s,
          head_has_aggregation = has_aggregation r,
          hg_has_negation = fr_has_negation s,
          hg_has_is_expr = fr_has_is_expr s,
          comparison_count = fr_comparison_count s,
          hg_is_fact = is_fact r\<rparr>)"

section \<open>The closed form of the construction\<close>

definition positive_atoms :: "rule \<Rightarrow> atom list" where
  "positive_atoms r =
     List.map_filter (\<lambda>l. case l of Positive a \<Rightarrow> Some a | _ \<Rightarrow> None) (body r)"

definition comparisons :: "rule \<Rightarrow> comparison list" where
  "comparisons r =
     List.map_filter (\<lambda>l. case l of Comparison c \<Rightarrow> Some c | _ \<Rightarrow> None) (body r)"

definition vid :: "vertex list \<Rightarrow> string \<Rightarrow> vertex_id option" where
  "vid vs x = position (\<lambda>v. vertex_name v = x) vs"

definition term_vid :: "vertex list \<Rightarrow> ast_term \<Rightarrow> vertex_id option" where
  "term_vid vs t = (case t of Variable x \<Rightarrow> vid vs x | _ \<Rightarrow> None)"

definition arg_names :: "ast_term list \<Rightarrow> string set" where
  "arg_names ts = {x. Variable x \<in> set ts}"

definition names :: "vertex list \<Rightarrow> string list" where
  "names vs = map vertex_name vs"

lemma position_append:
  "position p (xs @ ys) =
     (case position p xs of Some i \<Rightarrow> Some i
      | None \<Rightarrow> map_option (\<lambda>i. length xs + i) (position p ys))"
  by (induction xs) (cases "position p ys", auto split: option.splits)+

lemma vid_Some: "vid vs x = Some i \<Longrightarrow> i < length vs \<and> names vs ! i = x"
  by (auto simp: vid_def names_def dest!: position_Some)

lemma vid_None: "vid vs x = None \<longleftrightarrow> x \<notin> set (names vs)"
  by (auto simp: vid_def names_def position_None)

lemma vid_nth: "distinct (names vs) \<Longrightarrow> i < length vs \<Longrightarrow> vid vs (names vs ! i) = Some i"
proof (induction vs arbitrary: i)
  case (Cons v vs)
  then show ?case by (cases i) (auto simp: vid_def names_def)
qed simp

lemma vid_iff:
  "distinct (names vs) \<Longrightarrow> vid vs x = Some i \<longleftrightarrow> i < length vs \<and> names vs ! i = x"
  using vid_Some vid_nth by blast

lemma vid_extend: "vid vs x = Some i \<Longrightarrow> vid (vs @ ws) x = Some i"
  by (simp add: vid_def position_append)

definition table_ok :: "vertex_table \<Rightarrow> bool" where
  "table_ok tab = (distinct (names (fst tab)) \<and> snd tab = vid (fst tab))"

lemma build_position_ok:
  assumes "table_ok tab" and "build_position t tab = (p, tab')"
  shows "table_ok tab' \<and> (\<exists>ws. fst tab' = fst tab @ ws)
    \<and> set (names (fst tab')) = set (names (fst tab)) \<union> arg_names [t]
    \<and> p = term_vid (fst tab') t"
proof (cases t)
  case (Variable x)
  show ?thesis
  proof (cases "vid (fst tab) x")
    case None
    then have "x \<notin> set (names (fst tab))" by (simp add: vid_None)
    moreover have "(vid (fst tab))(x \<mapsto> length (fst tab))
        = vid (fst tab @ [\<lparr>vertex_name = x\<rparr>])"
      using None by (auto simp: fun_eq_iff vid_def position_append split: option.splits)
    ultimately show ?thesis
      using assms Variable None
      by (cases tab) (auto simp: table_ok_def names_def arg_names_def term_vid_def
          vid_def position_append)
  next
    case (Some i)
    then have "x \<in> set (names (fst tab))" using vid_None by (metis option.simps(3))
    then show ?thesis
      using assms Variable Some
      by (cases tab) (auto simp: table_ok_def arg_names_def term_vid_def)
  qed
qed (use assms in \<open>auto simp: arg_names_def term_vid_def\<close>)

lemma term_vid_extend:
  "arg_names [t] \<subseteq> set (names vs) \<Longrightarrow> term_vid (vs @ ws) t = term_vid vs t"
  by (cases t; cases "case t of Variable x \<Rightarrow> vid vs x | _ \<Rightarrow> None")
    (auto simp: term_vid_def arg_names_def vid_None intro: vid_extend dest: vid_None [THEN iffD1])

lemma build_positions_ok:
  assumes "table_ok tab" and "build_positions ts tab = (ps, tab')"
  shows "table_ok tab' \<and> (\<exists>ws. fst tab' = fst tab @ ws)
    \<and> set (names (fst tab')) = set (names (fst tab)) \<union> arg_names ts
    \<and> ps = map (term_vid (fst tab')) ts"
  using assms
proof (induction ts arbitrary: tab ps tab')
  case Nil
  then show ?case by (auto simp: arg_names_def)
next
  case (Cons t ts)
  obtain p tab1 where p: "build_position t tab = (p, tab1)" by (cases "build_position t tab")
  obtain qs tab2 where qs: "build_positions ts tab1 = (qs, tab2)"
    by (cases "build_positions ts tab1")
  note t = build_position_ok [OF Cons.prems(1) p]
  note rest = Cons.IH [OF conjunct1 [OF t] qs]
  obtain ws where ws: "fst tab2 = fst tab1 @ ws" using rest by blast
  have "arg_names [t] \<subseteq> set (names (fst tab1))" using t by blast
  then have "term_vid (fst tab2) t = p" using t ws term_vid_extend by metis
  moreover have "arg_names (t # ts) = arg_names [t] \<union> arg_names ts"
    by (auto simp: arg_names_def)
  ultimately show ?case
    using Cons.prems(2) p qs t rest ws by (auto simp: Let_def)
qed

lemma arg_names_Nil [simp]: "arg_names [] = {}"
  by (simp add: arg_names_def)

lemma map_term_vid_extend:
  "arg_names ts \<subseteq> set (names vs) \<Longrightarrow> map (term_vid (vs @ ws)) ts = map (term_vid vs) ts"
  by (auto simp: arg_names_def intro!: term_vid_extend)

definition edge_of :: "vertex list \<Rightarrow> atom \<Rightarrow> hyperedge" where
  "edge_of vs a =
     \<lparr>edge_predicate = predicate a, vertex_positions = map (term_vid vs) (terms a)\<rparr>"

definition fr_ok :: "atom list \<Rightarrow> from_rule_state \<Rightarrow> bool" where
  "fr_ok as s =
     (table_ok (fr_table s)
      \<and> set (names (fst (fr_table s))) = (\<Union>a \<in> set as. arg_names (terms a))
      \<and> fr_hyperedges s = map (edge_of (fst (fr_table s))) as)"

lemma fr_ok_positive:
  assumes "fr_ok as s"
  shows "fr_ok (as @ [a]) (from_rule_literal (Positive a) s)"
proof -
  obtain ps tab where ps: "build_positions (terms a) (fr_table s) = (ps, tab)"
    by (cases "build_positions (terms a) (fr_table s)")
  have ok: "table_ok (fr_table s)" using assms by (simp add: fr_ok_def)
  note b = build_positions_ok [OF ok ps]
  obtain ws where ws: "fst tab = fst (fr_table s) @ ws" using b by blast
  have "edge_of (fst tab) a' = edge_of (fst (fr_table s)) a'" if "a' \<in> set as" for a'
    using map_term_vid_extend [of "terms a'" "fst (fr_table s)" ws] that assms ws
    by (auto simp: fr_ok_def edge_of_def)
  then have "map (edge_of (fst tab)) as = map (edge_of (fst (fr_table s))) as" by simp
  then show ?thesis
    using assms b ps
    by (auto simp: fr_ok_def from_rule_literal_def build_hyperedge_def edge_of_def)
qed

lemma fr_ok_other:
  assumes "fr_ok as s" and "\<And>a. l \<noteq> Positive a"
  shows "fr_ok as (from_rule_literal l s)"
  using assms by (cases l) (auto simp: fr_ok_def from_rule_literal_def)

lemma map_filter_Cons:
  "List.map_filter f (x # xs) =
     (case f x of None \<Rightarrow> List.map_filter f xs | Some y \<Rightarrow> y # List.map_filter f xs)"
  by (simp add: List.map_filter_def split: option.splits)

lemma fr_ok_fold:
  assumes "fr_ok as s"
  shows "fr_ok (as @ List.map_filter (\<lambda>l. case l of Positive a \<Rightarrow> Some a | _ \<Rightarrow> None) ls)
           (fold from_rule_literal ls s)"
  using assms
proof (induction ls arbitrary: as s)
  case Nil
  then show ?case by (simp add: List.map_filter_def)
next
  case (Cons l ls)
  show ?case
  proof (cases "\<exists>a. l = Positive a")
    case True
    then obtain a where "l = Positive a" by blast
    with Cons.IH [OF fr_ok_positive [OF Cons.prems]] show ?thesis
      by (simp add: map_filter_Cons)
  next
    case False
    with Cons.IH [OF fr_ok_other [OF Cons.prems]] show ?thesis
      by (cases l) (auto simp: map_filter_Cons)
  qed
qed

lemma from_rule_ok:
  "distinct (names (vertices (from_rule r)))
   \<and> set (names (vertices (from_rule r))) = (\<Union>a \<in> set (positive_atoms r). arg_names (terms a))
   \<and> hyperedges (from_rule r) = map (edge_of (vertices (from_rule r))) (positive_atoms r)"
proof -
  let ?s = "\<lparr>fr_table = ([], Map.empty), fr_hyperedges = [], fr_has_negation = False,
                 fr_has_is_expr = False, fr_comparison_count = 0\<rparr>"
  have "fr_ok [] ?s"
    by (simp add: fr_ok_def table_ok_def names_def vid_def fun_eq_iff)
  from fr_ok_fold [OF this, of "body r"] show ?thesis
    by (simp add: fr_ok_def from_rule_def Let_def positive_atoms_def table_ok_def)
qed

lemmas from_rule_distinct = conjunct1 [OF from_rule_ok]
lemmas from_rule_names = conjunct1 [OF conjunct2 [OF from_rule_ok]]
lemmas from_rule_hyperedges = conjunct2 [OF conjunct2 [OF from_rule_ok]]

text \<open>The flags record which kinds of literal the body has.\<close>

lemma fold_flags:
  "fr_has_negation (fold from_rule_literal ls s) =
     (fr_has_negation s \<or> (\<exists>a. Negated a \<in> set ls) \<or> (\<exists>e. Epistemic e \<in> set ls))"
  "fr_has_is_expr (fold from_rule_literal ls s) =
     (fr_has_is_expr s \<or> (\<exists>e. IsExpr e \<in> set ls))"
  by (induction ls arbitrary: s)
    (auto simp: from_rule_literal_def build_hyperedge_def Let_def
      split: body_literal.splits prod.splits)

lemma from_rule_flags [simp]:
  "hg_has_negation (from_rule r) \<longleftrightarrow>
     (\<exists>a. Negated a \<in> set (body r)) \<or> (\<exists>e. Epistemic e \<in> set (body r))"
  "hg_has_is_expr (from_rule r) \<longleftrightarrow> (\<exists>e. IsExpr e \<in> set (body r))"
  "hg_is_fact (from_rule r) \<longleftrightarrow> body r = []"
  "head_has_aggregation (from_rule r) = has_aggregation r"
  "head_predicate (from_rule r) = predicate (head r)"
  by (simp_all add: from_rule_def Let_def fold_flags is_fact_def)

lemma edge_vertices_from_set:
  "set (edge_vertices_from ps seen) = set seen \<union> {v. Some v \<in> set ps}"
  by (induction ps seen rule: edge_vertices_from.induct) auto

lemma edge_vertices_from_distinct:
  "distinct seen \<Longrightarrow> distinct (edge_vertices_from ps seen)"
  by (induction ps seen rule: edge_vertices_from.induct) auto

lemma edge_vertices_set [simp]: "set (edge_vertices e) = {v. Some v \<in> set (vertex_positions e)}"
  by (simp add: edge_vertices_def edge_vertices_from_set)

lemma edge_vertices_distinct [simp]: "distinct (edge_vertices e)"
  by (simp add: edge_vertices_def edge_vertices_from_distinct)

lemma vertex_in_some_atom:
  assumes "v < vertex_count (from_rule r)"
  shows "\<exists>a \<in> set (positive_atoms r). Variable (names (vertices (from_rule r)) ! v) \<in> set (terms a)"
proof -
  have "names (vertices (from_rule r)) ! v \<in> set (names (vertices (from_rule r)))"
    using assms by (simp add: vertex_count_def names_def)
  then show ?thesis by (auto simp: from_rule_names arg_names_def)
qed

end
