(* ===== verification/Eligibility.thy ===== *)
theory Eligibility
  imports Hypergraph_IR
begin

text \<open>
  Eligibility of a rule for multiway planning (\<open>hypergraph/eligibility.rs\<close>): the boundaries
  that force the binary fallback, in the order the analyser reports them, and the typed
  variant that also rejects join keys of unsupported types.
\<close>

definition BINARY_FALLBACK_KEY_LIMIT :: nat where
  "BINARY_FALLBACK_KEY_LIMIT = 4"

definition WCOJ_ELIGIBLE_KEY_LIMIT :: nat where
  "WCOJ_ELIGIBLE_KEY_LIMIT = 8"

datatype executor_context = HashFallback | WcojEligible

fun join_key_limit :: "executor_context \<Rightarrow> nat" where
  "join_key_limit HashFallback = BINARY_FALLBACK_KEY_LIMIT"
| "join_key_limit WcojEligible = WCOJ_ELIGIBLE_KEY_LIMIT"

datatype boundary =
    GroundFact
  | HeadAggregation
  | BodyNegation
  | BodyIsExpr
  | InsufficientPositiveAtoms (positive_count: nat)
  | JoinKeysExceedBinaryFallbackLimit executor_context (jk_count: nat) (jk_limit: nat)
  | UnsupportedKeyType (uk_var: string) (uk_ty: scalar_type)

datatype eligibility = Eligible | Ineligible "boundary list"

fun boundaries :: "eligibility \<Rightarrow> boundary list" where
  "boundaries Eligible = []"
| "boundaries (Ineligible bs) = bs"

text \<open>Each vertex counts at most once per hyperedge.\<close>

definition bump :: "vertex_id \<Rightarrow> nat list \<Rightarrow> nat list" where
  "bump v occ = occ[v := occ ! v + 1]"

definition bump_edge :: "hyperedge \<Rightarrow> nat list \<Rightarrow> nat list" where
  "bump_edge e = fold bump (edge_vertices e)"

definition occurrences :: "hypergraph_rule \<Rightarrow> nat list" where
  "occurrences hg = fold bump_edge (hyperedges hg) (replicate (vertex_count hg) 0)"

definition count_join_keys :: "hypergraph_rule \<Rightarrow> nat" where
  "count_join_keys hg = length (filter (\<lambda>c. 2 \<le> c) (occurrences hg))"

definition join_key_vertex_ids :: "hypergraph_rule \<Rightarrow> vertex_id list" where
  "join_key_vertex_ids hg = map fst (filter (\<lambda>(i, c). 2 \<le> c) (indexed (occurrences hg)))"

definition analyze :: "hypergraph_rule \<Rightarrow> executor_context \<Rightarrow> eligibility" where
  "analyze hg context =
     (let positive_count = hyperedge_count hg;
          join_key_count = count_join_keys hg;
          bs = (if hg_is_fact hg then [GroundFact] else [])
             @ (if head_has_aggregation hg then [HeadAggregation] else [])
             @ (if hg_has_negation hg then [BodyNegation] else [])
             @ (if hg_has_is_expr hg then [BodyIsExpr] else [])
             @ (if \<not> hg_is_fact hg \<and> positive_count < 2
                then [InsufficientPositiveAtoms positive_count] else [])
             @ (if join_key_limit context < join_key_count
                then [JoinKeysExceedBinaryFallbackLimit context join_key_count
                        (join_key_limit context)] else [])
      in if bs = [] then Eligible else Ineligible bs)"

definition is_eligible :: "hypergraph_rule \<Rightarrow> executor_context \<Rightarrow> bool" where
  "is_eligible hg context = (analyze hg context = Eligible)"

definition WCOJ_SUPPORTED_KEY_TYPES :: "scalar_type list" where
  "WCOJ_SUPPORTED_KEY_TYPES = [TyU32, TyU64, TySymbol]"

definition unsupported_key :: "hypergraph_rule \<Rightarrow> (string \<rightharpoonup> scalar_type) \<Rightarrow> vertex_id \<Rightarrow> boundary option"
  where
  "unsupported_key hg vertex_types v =
     (let x = names (vertices hg) ! v
      in case vertex_types x of
           None \<Rightarrow> None
         | Some ty \<Rightarrow>
             if ty \<in> set WCOJ_SUPPORTED_KEY_TYPES then None else Some (UnsupportedKeyType x ty))"

definition analyze_typed ::
    "hypergraph_rule \<Rightarrow> (string \<rightharpoonup> scalar_type) \<Rightarrow> executor_context \<Rightarrow> eligibility" where
  "analyze_typed hg vertex_types context =
     (let bs = boundaries (analyze hg context)
             @ List.map_filter (unsupported_key hg vertex_types) (join_key_vertex_ids hg)
      in if bs = [] then Eligible else Ineligible bs)"

section \<open>Join keys are the variables shared by two hyperedges\<close>

lemma fold_bump_length [simp]: "length (fold bump vs occ) = length occ"
  by (induction vs arbitrary: occ) (auto simp: bump_def)

lemma fold_bump_edge_length [simp]: "length (fold bump_edge es occ) = length occ"
  by (induction es arbitrary: occ) (auto simp: bump_edge_def)

lemma fold_bump_nth:
  assumes "distinct vs" and "i < length occ"
  shows "fold bump vs occ ! i = occ ! i + of_bool (i \<in> set vs)"
  using assms by (induction vs arbitrary: occ) (auto simp: bump_def nth_list_update)

lemma fold_edges_nth:
  assumes "i < length occ"
  shows "fold bump_edge es occ ! i
    = occ ! i + length (filter (\<lambda>e. Some i \<in> set (vertex_positions e)) es)"
  using assms
proof (induction es arbitrary: occ)
  case (Cons e es)
  have "bump_edge e occ ! i = occ ! i + of_bool (Some i \<in> set (vertex_positions e))"
    using Cons.prems by (simp add: bump_edge_def fold_bump_nth)
  moreover have "i < length (bump_edge e occ)"
    using Cons.prems by (simp add: bump_edge_def)
  ultimately show ?case using Cons.IH by auto
qed simp

definition edges_with :: "hypergraph_rule \<Rightarrow> vertex_id \<Rightarrow> nat" where
  "edges_with hg v = length (filter (\<lambda>e. Some v \<in> set (vertex_positions e)) (hyperedges hg))"

definition positions_ok :: "hypergraph_rule \<Rightarrow> bool" where
  "positions_ok hg =
     (\<forall>e \<in> set (hyperedges hg). \<forall>v. Some v \<in> set (vertex_positions e) \<longrightarrow> v < vertex_count hg)"

lemma term_vid_bound: "term_vid vs t = Some v \<Longrightarrow> v < length vs"
  by (auto simp: term_vid_def dest: vid_Some split: ast_term.splits)

text \<open>The identifiers a built hypergraph uses index its vertex vector: no read by identifier panics.\<close>

lemma from_rule_positions_ok: "positions_ok (from_rule r)"
  by (auto simp: positions_ok_def from_rule_hyperedges edge_of_def vertex_count_def
      dest!: term_vid_bound [OF sym])

lemma length_occurrences [simp]: "length (occurrences hg) = vertex_count hg"
  by (simp add: occurrences_def)

lemma occurrences_eq: "occurrences hg = map (edges_with hg) [0..<vertex_count hg]"
  by (rule nth_equalityI) (simp_all add: occurrences_def fold_edges_nth edges_with_def)

lemma join_key_vertex_ids_eq:
  "join_key_vertex_ids hg = filter (\<lambda>v. 2 \<le> edges_with hg v) [0..<vertex_count hg]"
proof -
  have "indexed (map f [0..<n]) = map (\<lambda>i. (i, f i)) [0..<n]" for f :: "nat \<Rightarrow> nat" and n
    by (rule nth_equalityI) simp_all
  then show ?thesis
    by (simp add: join_key_vertex_ids_def occurrences_eq filter_map comp_def)
qed

lemma count_join_keys_eq:
  "count_join_keys hg = length (join_key_vertex_ids hg)"
  by (simp add: count_join_keys_def join_key_vertex_ids_eq occurrences_eq filter_map comp_def)

section \<open>The verdict\<close>

lemma analyze_Eligible_iff:
  "analyze hg context = Eligible \<longleftrightarrow>
     \<not> hg_is_fact hg \<and> \<not> head_has_aggregation hg \<and> \<not> hg_has_negation hg \<and> \<not> hg_has_is_expr hg
     \<and> 2 \<le> hyperedge_count hg \<and> count_join_keys hg \<le> join_key_limit context"
  by (auto simp: analyze_def Let_def)

lemma analyze_Ineligible_nonempty: "analyze hg context = Ineligible bs \<Longrightarrow> bs \<noteq> []"
  by (auto simp: analyze_def Let_def split: if_splits)

lemma analyze_typed_Eligible_iff:
  "analyze_typed hg tys context = Eligible \<longleftrightarrow>
     analyze hg context = Eligible
     \<and> (\<forall>v \<in> set (join_key_vertex_ids hg). unsupported_key hg tys v = None)"
proof -
  have "List.map_filter f xs = [] \<longleftrightarrow> (\<forall>x \<in> set xs. f x = None)" for f :: "nat \<Rightarrow> boundary option" and xs
    by (induction xs) (auto simp: map_filter_Cons List.map_filter_def split: option.splits)
  moreover have "boundaries (analyze hg context) = [] \<longleftrightarrow> analyze hg context = Eligible"
    by (cases "analyze hg context") (auto dest: analyze_Ineligible_nonempty)
  ultimately show ?thesis by (auto simp: analyze_typed_def Let_def)
qed

lemma analyze_typed_Eligible_imp: "analyze_typed hg tys context = Eligible \<Longrightarrow> analyze hg context = Eligible"
  by (simp add: analyze_typed_Eligible_iff)

lemma analyze_typed_Ineligible_nonempty:
  "analyze_typed hg tys context = Ineligible bs \<Longrightarrow> bs \<noteq> []"
  by (auto simp: analyze_typed_def Let_def split: if_splits)

text \<open>No map of types at all: the typed verdict is the structural one.\<close>

lemma analyze_typed_empty: "analyze_typed hg Map.empty context = analyze hg context"
proof -
  have "List.map_filter (unsupported_key hg Map.empty) vs = []" for vs
    by (induction vs) (auto simp: map_filter_Cons List.map_filter_def unsupported_key_def)
  then show ?thesis
    by (cases "analyze hg context")
      (auto simp: analyze_typed_def Let_def dest: analyze_Ineligible_nonempty)
qed

text \<open>Widening the executor context never makes an eligible rule ineligible.\<close>

lemma hash_eligible_imp_wcoj:
  "analyze hg HashFallback = Eligible \<Longrightarrow> analyze hg WcojEligible = Eligible"
  by (simp add: analyze_Eligible_iff BINARY_FALLBACK_KEY_LIMIT_def WCOJ_ELIGIBLE_KEY_LIMIT_def)

end
