(* ===== verification/Var_Order.thy ===== *)
theory Var_Order
  imports Eligibility
begin

text \<open>
  Variable orders and clique shapes (\<open>hypergraph/var_order.rs\<close>). The trait \<open>VariableOrder\<close> is the
  locale \<open>variable_order\<close>: its contract, that an order lists every vertex exactly once, is what
  the reference evaluator relies on. \<open>AppearanceOrder\<close> implements it. The second half models the
  binary-edge shapes of the full-variable planner with their relation identifiers at 32 bits and
  the permutation of the edges by the time they become bound; the floating-point cost model that
  chooses among orders is not modelled.
\<close>

section \<open>The interface\<close>

locale variable_order =
  fixes order :: "hypergraph_rule \<Rightarrow> vertex_id list"
  assumes order_distinct: "distinct (order hg)"
    and order_set: "set (order hg) = {..<vertex_count hg}"
begin

lemma order_length: "length (order hg) = vertex_count hg"
  using distinct_card [OF order_distinct, of hg] by (simp add: order_set)

lemma order_in: "v \<in> set (order hg) \<longleftrightarrow> v < vertex_count hg"
  by (simp add: order_set)

end

definition appearance_order :: "hypergraph_rule \<Rightarrow> vertex_id list" where
  "appearance_order hg = vertex_ids hg"

interpretation appearance: variable_order appearance_order
  by unfold_locales (auto simp: appearance_order_def vertex_ids_def vertex_count_def)

text \<open>
  Any strategy that permutes the appearance order, such as the reverse of it, satisfies the
  contract too.
\<close>

definition reverse_order :: "hypergraph_rule \<Rightarrow> vertex_id list" where
  "reverse_order hg = rev (vertex_ids hg)"

interpretation reversed: variable_order reverse_order
  by unfold_locales (auto simp: reverse_order_def vertex_ids_def vertex_count_def)

section \<open>Clique shapes\<close>

record k_clique_edge =
  rel_id :: u32
  kc_left :: vertex_id
  kc_right :: vertex_id
  left_col :: nat
  right_col :: nat

definition touches :: "k_clique_edge \<Rightarrow> k_clique_edge \<Rightarrow> bool" where
  "touches e f =
     (kc_left e = kc_left f \<or> kc_left e = kc_right f
      \<or> kc_right e = kc_left f \<or> kc_right e = kc_right f)"

definition endpoint_col :: "k_clique_edge \<Rightarrow> vertex_id \<Rightarrow> nat option" where
  "endpoint_col e v =
     (if kc_left e = v then Some (left_col e)
      else if kc_right e = v then Some (right_col e) else None)"

definition other_endpoint :: "k_clique_edge \<Rightarrow> vertex_id \<Rightarrow> vertex_id option" where
  "other_endpoint e v =
     (if kc_left e = v then Some (kc_right e)
      else if kc_right e = v then Some (kc_left e) else None)"

record k_clique_shape =
  variable_count :: u8
  shape_edges :: "k_clique_edge list"

definition valid_variable_count :: "u8 \<Rightarrow> bool" where
  "valid_variable_count n = (2 \<le> n \<and> n \<le> 8)"

definition checked_add :: "u32 \<Rightarrow> nat \<Rightarrow> u32 option" where
  "checked_add a n = (if unat a + n < 2 ^ 32 then Some (a + of_nat n) else None)"

text \<open>The pairs the two nested loops of \<open>complete\<close> visit.\<close>

definition clique_pairs :: "nat \<Rightarrow> (nat \<times> nat) list" where
  "clique_pairs n = concat (map (\<lambda>l. map (\<lambda>r. (l, r)) [l + 1..<n]) [0..<n])"

fun push_clique_edges ::
    "(nat \<times> nat) list \<Rightarrow> u32 \<Rightarrow> k_clique_edge list \<Rightarrow> k_clique_edge list option" where
  "push_clique_edges [] next_rel edges = Some edges"
| "push_clique_edges ((l, r) # ps) next_rel edges =
     (case checked_add next_rel 1 of
        None \<Rightarrow> None
      | Some next \<Rightarrow>
          push_clique_edges ps next
            (edges @ [\<lparr>rel_id = next_rel, kc_left = l, kc_right = r,
                       left_col = 0, right_col = 1\<rparr>]))"

definition complete :: "u8 \<Rightarrow> u32 \<Rightarrow> k_clique_shape option" where
  "complete n first_rel_id =
     (if \<not> valid_variable_count n then None
      else case push_clique_edges (clique_pairs (unat n)) first_rel_id [] of
             None \<Rightarrow> None
           | Some edges \<Rightarrow> Some \<lparr>variable_count = n, shape_edges = edges\<rparr>)"

definition from_edges :: "u8 \<Rightarrow> k_clique_edge list \<Rightarrow> k_clique_shape option" where
  "from_edges n edges =
     (if \<not> valid_variable_count n then None
      else if edges = [] then None
      else Some \<lparr>variable_count = n, shape_edges = edges\<rparr>)"

fun push_cycle_edges :: "u32 \<Rightarrow> (nat \<times> nat \<times> nat) list \<Rightarrow> k_clique_edge list option" where
  "push_cycle_edges first [] = Some []"
| "push_cycle_edges first ((i, l, r) # ps) =
     (case checked_add first i of
        None \<Rightarrow> None
      | Some rel \<Rightarrow>
          map_option (Cons \<lparr>rel_id = rel, kc_left = l, kc_right = r, left_col = 0, right_col = 1\<rparr>)
            (push_cycle_edges first ps))"

definition cycle4 :: "u32 \<Rightarrow> k_clique_shape option" where
  "cycle4 first_rel_id =
     map_option (\<lambda>edges. \<lparr>variable_count = 4, shape_edges = edges\<rparr>)
       (push_cycle_edges first_rel_id [(0, 0, 1), (1, 1, 2), (2, 2, 3), (3, 3, 0)])"

definition shape_variables :: "k_clique_shape \<Rightarrow> vertex_id list" where
  "shape_variables shape = [0..<unat (variable_count shape)]"

text \<open>
  \<open>edge_permutation\<close> panics (\<open>None\<close>) when the order or an edge names a variable outside the shape.
\<close>

fun order_positions :: "nat list \<Rightarrow> nat \<Rightarrow> nat list \<Rightarrow> nat list option" where
  "order_positions positions pos [] = Some positions"
| "order_positions positions pos (v # vs) =
     (if v < length positions then order_positions (positions[v := pos]) (pos + 1) vs else None)"

definition bound_key :: "nat list \<Rightarrow> k_clique_edge \<Rightarrow> nat \<times> nat \<times> u32" where
  "bound_key positions e =
     (let l = positions ! kc_left e; r = positions ! kc_right e
      in (max l r, min l r, rel_id e))"

definition edge_permutation :: "k_clique_shape \<Rightarrow> vertex_id list \<Rightarrow> nat list option" where
  "edge_permutation shape order =
     (case order_positions (replicate (unat (variable_count shape)) 0) 0 order of
        None \<Rightarrow> None
      | Some positions \<Rightarrow>
          if list_all (\<lambda>e. kc_left e < length positions \<and> kc_right e < length positions)
               (shape_edges shape)
          then Some (map fst (sort_key (\<lambda>(i, e). bound_key positions e)
                                (indexed (shape_edges shape))))
          else None)"

definition clique_edge_idx_for_vars :: "k_clique_shape \<Rightarrow> vertex_id \<Rightarrow> vertex_id \<Rightarrow> nat option" where
  "clique_edge_idx_for_vars shape left right =
     (let (l, r) = (if left \<le> right then (left, right) else (right, left))
      in position (\<lambda>e. kc_left e = l \<and> kc_right e = r) (shape_edges shape))"

section \<open>Shapes are what their names say\<close>

lemma other_endpoint_col:
  "other_endpoint e v \<noteq> None \<longleftrightarrow> endpoint_col e v \<noteq> None"
  by (simp add: other_endpoint_def endpoint_col_def)

lemma touches_sym: "touches e f = touches f e"
  by (auto simp: touches_def)

lemma set_clique_pairs: "set (clique_pairs n) = {(l, r). l < r \<and> r < n}"
  by (auto simp: clique_pairs_def image_iff)

lemma distinct_clique_pairs: "distinct (clique_pairs n)"
proof -
  have "distinct (concat (map (\<lambda>l. map (\<lambda>r. (l, r)) [l + 1..<n]) ls))" if "distinct ls" for ls
    using that by (induction ls) (auto simp: distinct_map intro: inj_onI)
  then show ?thesis by (simp add: clique_pairs_def)
qed

definition clique_edge :: "u32 \<Rightarrow> nat \<times> nat \<times> nat \<Rightarrow> k_clique_edge" where
  "clique_edge first = (\<lambda>(i, l, r).
     \<lparr>rel_id = first + of_nat i, kc_left = l, kc_right = r, left_col = 0, right_col = 1\<rparr>)"

lemma checked_add_Some:
  "checked_add a n = Some b \<longleftrightarrow> unat a + n < 2 ^ 32 \<and> b = a + of_nat n"
  by (auto simp: checked_add_def)

lemma unat_checked_add:
  assumes "unat (a :: u32) + n < 2 ^ 32"
  shows "unat (a + of_nat n) = unat a + n"
proof -
  have n: "unat (of_nat n :: u32) = n" using assms by (simp add: unat_of_nat)
  have "unat a + unat (of_nat n :: u32) < 2 ^ LENGTH(32)"
    using assms n by simp
  then show ?thesis using n by (simp add: unat_add_lem [THEN iffD1])
qed

text \<open>
  \<open>push_clique_edges\<close> numbers the pairs from \<open>next_rel\<close> and succeeds exactly when the identifier
  after the last edge still exists.
\<close>

lemma push_clique_edges_eq:
  "push_clique_edges ps next edges =
     (if ps = [] \<or> unat next + length ps < 2 ^ 32
      then Some (edges @ map (clique_edge next) (indexed ps)) else None)"
proof (induction ps arbitrary: "next" edges)
  case Nil
  then show ?case by (simp add: indexed_def)
next
  case (Cons p ps)
  obtain l r where p: "p = (l, r)" by (cases p)
  show ?case
  proof (cases "unat next + 1 < 2 ^ 32")
    case True
    then have u: "unat (next + 1) = unat next + 1"
      using unat_checked_add [of "next" 1] by simp
    have c: "checked_add next 1 = Some (next + 1)"
      using True by (simp add: checked_add_def)
    have "indexed (p # ps) = (0, p) # map (\<lambda>(i, q). (i + 1, q)) (indexed ps)"
      by (rule nth_equalityI) (auto simp: nth_Cons split: nat.splits)
    then have "map (clique_edge next) (indexed (p # ps)) =
        clique_edge next (0, p) # map (clique_edge (next + 1)) (indexed ps)"
      by (auto simp: clique_edge_def algebra_simps)
    then show ?thesis
      using u c True by (simp add: p Cons.IH clique_edge_def)
  next
    case False
    then show ?thesis by (simp add: p checked_add_def)
  qed
qed

lemma complete_eq:
  "complete n first =
     (if valid_variable_count n \<and> unat first + length (clique_pairs (unat n)) < 2 ^ 32
      then Some \<lparr>variable_count = n,
                 shape_edges = map (clique_edge first) (indexed (clique_pairs (unat n)))\<rparr>
      else None)"
proof (cases "valid_variable_count n")
  case True
  then have "2 \<le> unat n" by (simp add: valid_variable_count_def word_le_nat_alt)
  then have "(0, 1) \<in> set (clique_pairs (unat n))" by (simp add: set_clique_pairs)
  then have "clique_pairs (unat n) \<noteq> []" by auto
  with True show ?thesis by (simp add: complete_def push_clique_edges_eq)
qed (simp add: complete_def)

lemma position_SomeI:
  assumes "i < length xs" "p (xs ! i)" "\<And>j. j < i \<Longrightarrow> \<not> p (xs ! j)"
  shows "position p xs = Some i"
  using assms
proof (induction xs arbitrary: i)
  case (Cons x xs)
  show ?case
  proof (cases i)
    case 0
    then show ?thesis using Cons.prems by simp
  next
    case (Suc k)
    then have "\<not> p x" using Cons.prems(3) [of 0] by simp
    moreover have "position p xs = Some k"
      using Cons.IH [of k] Cons.prems Suc by force
    ultimately show ?thesis using Suc by simp
  qed
qed simp

text \<open>The code's own use of \<open>checked_add\<close> makes the last identifier of the type unusable.\<close>

lemma complete_last_id_unused: "complete 2 (2 ^ 32 - 1) = None"
  by (simp add: complete_eq clique_pairs_def upt_rec)

text \<open>In a complete shape every pair of distinct variables has its edge, found from both sides.\<close>

lemma complete_edge_lookup:
  assumes "complete n first = Some shape"
    and "u < unat n" "v < unat n" "u \<noteq> v"
  shows "\<exists>i. clique_edge_idx_for_vars shape u v = Some i
    \<and> i < length (shape_edges shape)
    \<and> kc_left (shape_edges shape ! i) = min u v \<and> kc_right (shape_edges shape ! i) = max u v
    \<and> unat (rel_id (shape_edges shape ! i)) = unat first + i"
proof -
  let ?ps = "clique_pairs (unat n)"
  have shape: "shape_edges shape = map (clique_edge first) (indexed ?ps)"
    and fits: "unat first + length ?ps < 2 ^ 32"
    using assms(1) by (auto simp: complete_eq split: if_splits)
  have "(min u v, max u v) \<in> set ?ps"
    using assms(2-4) by (auto simp: set_clique_pairs)
  then obtain i where i: "i < length ?ps" "?ps ! i = (min u v, max u v)"
    by (auto simp: in_set_conv_nth)
  have "?ps ! j \<noteq> (min u v, max u v)" if "j < i" for j
    using that i nth_eq_iff_index_eq [OF distinct_clique_pairs [of "unat n"], of j i] by auto
  then have "position (\<lambda>e. kc_left e = min u v \<and> kc_right e = max u v) (shape_edges shape) = Some i"
    using i by (intro position_SomeI)
      (auto simp: shape clique_edge_def split: prod.splits)
  then have "clique_edge_idx_for_vars shape u v = Some i"
    using assms(4) by (auto simp: clique_edge_idx_for_vars_def min_def max_def)
  moreover have "unat (first + of_nat i) = unat first + i"
    using fits i by (intro unat_checked_add) linarith
  ultimately show ?thesis
    using i by (auto simp: shape clique_edge_def)
qed

text \<open>The edge permutation is a permutation, ordered by binding time.\<close>

lemma edge_permutation_perm:
  assumes "edge_permutation shape order = Some p"
  shows "distinct p" and "set p = {..<length (shape_edges shape)}"
  using assms
  by (auto simp: edge_permutation_def distinct_map set_indexed split: option.splits if_splits
      intro!: inj_onI)
    (force simp: set_indexed indexed_def distinct_zipI1)+

end
