(* ===== verification/Reference_Eval.thy ===== *)
theory Reference_Eval
  imports Var_Order
begin

text \<open>
  The CPU reference evaluator of a single rule (\<open>hypergraph/reference.rs\<close>), the oracle the GPU
  kernels are compared with: typed values with their derived order, validation of the supplied
  relations, coercion of constants, the domains of the vertices, the backtracking enumeration
  along a variable order, and the final sort and dedup. Diagnostics that the code renders into
  strings are kept as structured values (\<open>got\<close>, \<open>operand\<close>); \<open>EvalPanic\<close> marks an index out of
  range or a failed debug assertion. The second half gives the declarative answer set of a rule
  and proves that the evaluator computes it.
\<close>

section \<open>Values\<close>

datatype ref_value =
    VU32 u32
  | VU64 u64
  | VI32 i32
  | VI64 i64
  | VBool bool
  | VSymbol string

text \<open>The derived order compares the variants first, then the payloads.\<close>

fun value_key :: "ref_value \<Rightarrow> nat \<times> int \<times> string" where
  "value_key (VU32 n) = (0, uint n, [])"
| "value_key (VU64 n) = (1, uint n, [])"
| "value_key (VI32 n) = (2, sint n, [])"
| "value_key (VI64 n) = (3, sint n, [])"
| "value_key (VBool b) = (4, of_bool b, [])"
| "value_key (VSymbol s) = (5, 0, s)"

lemma value_key_inj: "value_key v = value_key w \<Longrightarrow> v = w"
  by (cases v; cases w)
    (auto simp: of_bool_def split: if_splits dest: unsigned_word_eqI signed_word_eqI)

instantiation ref_value :: linorder
begin

definition less_eq_ref_value :: "ref_value \<Rightarrow> ref_value \<Rightarrow> bool" where
  "less_eq_ref_value v w = (value_key v \<le> value_key w)"

definition less_ref_value :: "ref_value \<Rightarrow> ref_value \<Rightarrow> bool" where
  "less_ref_value v w = (value_key v < value_key w)"

instance
  by standard
    (auto simp: less_eq_ref_value_def less_ref_value_def less_le_not_le intro: value_key_inj)

end

record ref_relation =
  schema :: "scalar_type list"
  rows :: "ref_value list list"

type_synonym ref_store = "string \<rightharpoonup> ref_relation"

section \<open>Errors\<close>

datatype got =
    GotValue ref_value
  | GotIntegerRange i64 scalar_type
  | GotNegative i64
  | GotIntegerFor i64 scalar_type
  | GotString string
  | GotInternedSymbol
  | GotFloat u64
  | GotAggregate
  | GotUnsupportedTerm ast_term

datatype operand = OperandTerm ast_term | OperandValue ref_value | OperandNA

datatype ref_eval_error =
    RefIneligible "boundary list"
  | MissingRelation string
  | RelationArityMismatch string (atom_arity_of: nat) (relation_arity: nat)
  | RelationRowArityMismatch string (row_index: nat) (row_len: nat) (schema_len: nat)
  | RelationValueTypeMismatch string nat (column: nat) (expected_type: scalar_type) got
  | ConstantTypeMismatch string (const_position: nat) scalar_type got
  | ComparisonTypeMismatch operand operand comp_op
  | UnboundHeadVariable string
  | UnsupportedHeadTerm ast_term
  | IsExprNotSupported
  | ConflictingVariableType string string nat scalar_type string nat scalar_type
  | InferenceConflict string nat nat scalar_type nat scalar_type
  | EvalPanic

section \<open>Validation of the inputs\<close>

fun ref_value_matches_scalar_type :: "ref_value \<Rightarrow> scalar_type \<Rightarrow> bool" where
  "ref_value_matches_scalar_type (VU32 _) ty = (ty = TyU32)"
| "ref_value_matches_scalar_type (VU64 _) ty = (ty = TyU64)"
| "ref_value_matches_scalar_type (VI32 _) ty = (ty = TyI32)"
| "ref_value_matches_scalar_type (VI64 _) ty = (ty = TyI64)"
| "ref_value_matches_scalar_type (VBool _) ty = (ty = TyBool)"
| "ref_value_matches_scalar_type (VSymbol _) ty = (ty = TySymbol)"

definition row_error :: "string \<Rightarrow> scalar_type list \<Rightarrow> nat \<times> ref_value list \<Rightarrow> ref_eval_error option"
  where
  "row_error p sch = (\<lambda>(ri, row).
     if length row \<noteq> length sch
     then Some (RelationRowArityMismatch p ri (length row) (length sch))
     else first_error (\<lambda>(c, v).
            case get sch c of
              None \<Rightarrow> Some EvalPanic
            | Some ty \<Rightarrow>
                if ref_value_matches_scalar_type v ty then None
                else Some (RelationValueTypeMismatch p ri c ty (GotValue v))) (indexed row))"

definition validate_relation_rows :: "string \<Rightarrow> ref_relation \<Rightarrow> ref_eval_error + unit" where
  "validate_relation_rows p rel = check (first_error (row_error p (schema rel)) (indexed (rows rel)))"

definition coerce_integer_constant ::
    "i64 \<Rightarrow> scalar_type \<Rightarrow> string \<Rightarrow> nat \<Rightarrow> ref_eval_error + ref_value" where
  "coerce_integer_constant n target p pos =
     (let mismatch = (\<lambda>g. Inl (ConstantTypeMismatch p pos target g))
      in case target of
           TyU32 \<Rightarrow> if sint n < 0 \<or> 2 ^ 32 - 1 < sint n then mismatch (GotIntegerRange n TyU32)
                    else Inr (VU32 (ucast n))
         | TyU64 \<Rightarrow> if sint n < 0 then mismatch (GotNegative n) else Inr (VU64 n)
         | TyI32 \<Rightarrow> if sint n < - (2 ^ 31) \<or> 2 ^ 31 - 1 < sint n
                    then mismatch (GotIntegerRange n TyI32)
                    else Inr (VI32 (ucast n))
         | TyI64 \<Rightarrow> Inr (VI64 n)
         | _ \<Rightarrow> mismatch (GotIntegerFor n target))"

datatype position_spec = PVertex vertex_id | PConstant ref_value | PWildcard

record atom_spec =
  spec_relation :: ref_relation
  positions :: "position_spec list"

text \<open>The type of a column, read with an unchecked index.\<close>

definition column_type :: "ref_relation \<Rightarrow> nat \<Rightarrow> ref_eval_error + scalar_type" where
  "column_type rel i = (case get (schema rel) i of None \<Rightarrow> Inl EvalPanic | Some ty \<Rightarrow> Inr ty)"

definition build_position_spec ::
    "atom \<Rightarrow> hyperedge \<Rightarrow> ref_relation \<Rightarrow> nat \<times> ast_term \<Rightarrow> ref_eval_error + position_spec" where
  "build_position_spec a edge rel = (\<lambda>(i, t).
     let mismatch = (\<lambda>ty g. Inl (ConstantTypeMismatch (predicate a) i ty g));
         reject = (\<lambda>g. bind_res (column_type rel i) (\<lambda>ty. mismatch ty g))
     in case t of
          Variable _ \<Rightarrow>
            (case get (vertex_positions edge) i of
               Some (Some v) \<Rightarrow> Inr (PVertex v)
             | _ \<Rightarrow> Inr PWildcard)
        | Anonymous \<Rightarrow> Inr PWildcard
        | Integer n \<Rightarrow>
            bind_res (column_type rel i) (\<lambda>ty. map_res PConstant (coerce_integer_constant n ty (predicate a) i))
        | Str s \<Rightarrow>
            bind_res (column_type rel i) (\<lambda>ty.
              if ty = TySymbol then Inr (PConstant (VSymbol s)) else mismatch ty (GotString s))
        | Symbol _ \<Rightarrow> reject GotInternedSymbol
        | Float f \<Rightarrow> reject (GotFloat f)
        | Aggregate _ \<Rightarrow> reject GotAggregate
        | _ \<Rightarrow> reject (GotUnsupportedTerm t))"

definition build_atom_spec :: "atom \<Rightarrow> hyperedge \<Rightarrow> ref_relation \<Rightarrow> ref_eval_error + atom_spec" where
  "build_atom_spec a edge rel =
     (if length (terms a) \<noteq> length (schema rel)
      then Inl (RelationArityMismatch (predicate a) (length (terms a)) (length (schema rel)))
      else map_res (\<lambda>ps. \<lparr>spec_relation = rel, positions = ps\<rparr>)
             (traverse (build_position_spec a edge rel) (indexed (terms a))))"

section \<open>Enumeration\<close>

type_synonym binding = "vertex_id \<rightharpoonup> ref_value"

text \<open>\<open>domains[idx].push(row[i])\<close>: both indices may be out of range.\<close>

definition push_cell ::
    "vertex_id \<Rightarrow> nat \<Rightarrow> ref_value list \<Rightarrow> ref_value list list \<Rightarrow> ref_eval_error + ref_value list list" where
  "push_cell v i row domains =
     (case (get domains v, get row i) of
        (Some d, Some x) \<Rightarrow> Inr (domains[v := d @ [x]])
      | _ \<Rightarrow> Inl EvalPanic)"

definition push_position ::
    "atom_spec \<Rightarrow> nat \<times> position_spec \<Rightarrow> ref_value list list \<Rightarrow> ref_eval_error + ref_value list list" where
  "push_position spec = (\<lambda>(i, pos) domains.
     case pos of
       PVertex v \<Rightarrow> fold_res (push_cell v i) (rows (spec_relation spec)) domains
     | _ \<Rightarrow> Inr domains)"

definition build_domains :: "hypergraph_rule \<Rightarrow> atom_spec list \<Rightarrow> ref_eval_error + ref_value list list" where
  "build_domains hg specs =
     map_res (map sort_dedup)
       (fold_res (\<lambda>spec. fold_res (push_position spec) (indexed (positions spec))) specs
          (replicate (vertex_count hg) []))"

text \<open>Every position reads its cell, a wildcard too, before it looks at it.\<close>

fun row_matches :: "position_spec list \<Rightarrow> binding \<Rightarrow> ref_value list \<Rightarrow> ref_eval_error + bool option" where
  "row_matches [] b row = Inr (Some True)"
| "row_matches (pos # ps) b [] = Inl EvalPanic"
| "row_matches (pos # ps) b (x # row) =
     (case pos of
        PVertex v \<Rightarrow>
          (case b v of
             None \<Rightarrow> Inr None
           | Some y \<Rightarrow> if y \<noteq> x then Inr (Some False) else row_matches ps b row)
      | PConstant c \<Rightarrow> if c \<noteq> x then Inr (Some False) else row_matches ps b row
      | PWildcard \<Rightarrow> row_matches ps b row)"

text \<open>
  A row that meets an unbound vertex makes the whole look-up fail (\<open>return false\<close>); a row that
  differs is skipped (\<open>continue\<close>).
\<close>

fun some_row_matches :: "position_spec list \<Rightarrow> binding \<Rightarrow> ref_value list list \<Rightarrow> ref_eval_error + bool" where
  "some_row_matches ps b [] = Inr False"
| "some_row_matches ps b (row # rs) =
     bind_res (row_matches ps b row) (\<lambda>m.
       case m of
         None \<Rightarrow> Inr False
       | Some True \<Rightarrow> Inr True
       | Some False \<Rightarrow> some_row_matches ps b rs)"

definition atom_has_matching_row :: "atom_spec \<Rightarrow> binding \<Rightarrow> ref_eval_error + bool" where
  "atom_has_matching_row spec b =
     some_row_matches (positions spec) b (rows (spec_relation spec))"

text \<open>The loop over the atoms at a full assignment stops at the first one without a matching row.\<close>

fun all_atoms_match :: "atom_spec list \<Rightarrow> binding \<Rightarrow> ref_eval_error + bool" where
  "all_atoms_match [] b = Inr True"
| "all_atoms_match (spec # specs) b =
     bind_res (atom_has_matching_row spec b) (\<lambda>m. if m then all_atoms_match specs b else Inr False)"

definition lookup_name :: "hypergraph_rule \<Rightarrow> binding \<Rightarrow> string \<Rightarrow> ref_eval_error + ref_value" where
  "lookup_name hg b x =
     (case vid (vertices hg) x of
        None \<Rightarrow> Inl (UnboundHeadVariable x)
      | Some v \<Rightarrow> (case b v of None \<Rightarrow> Inl (UnboundHeadVariable x) | Some val \<Rightarrow> Inr val))"

definition resolve_term_for_comparison ::
    "ast_term \<Rightarrow> binding \<Rightarrow> hypergraph_rule \<Rightarrow> ref_eval_error + ref_value" where
  "resolve_term_for_comparison t b hg =
     (case t of
        Variable x \<Rightarrow> lookup_name hg b x
      | Integer n \<Rightarrow> Inr (VI64 n)
      | Str s \<Rightarrow> Inr (VSymbol s)
      | _ \<Rightarrow> Inl (ComparisonTypeMismatch (OperandTerm t) OperandNA Eq))"

definition to_i128 :: "ref_value \<Rightarrow> int option" where
  "to_i128 v =
     (case v of
        VU32 n \<Rightarrow> Some (uint n) | VU64 n \<Rightarrow> Some (uint n)
      | VI32 n \<Rightarrow> Some (sint n) | VI64 n \<Rightarrow> Some (sint n)
      | VBool _ \<Rightarrow> None | VSymbol _ \<Rightarrow> None)"

definition apply_comparison_op ::
    "ref_value \<Rightarrow> ref_value \<Rightarrow> comp_op \<Rightarrow> ref_eval_error + bool" where
  "apply_comparison_op lhs rhs op =
     (let cmp_result =
        (case (lhs, rhs) of
           (VSymbol a, VSymbol b) \<Rightarrow>
             Some (case op of Eq \<Rightarrow> a = b | Ne \<Rightarrow> a \<noteq> b | Lt \<Rightarrow> a < b | Le \<Rightarrow> a \<le> b
                   | Gt \<Rightarrow> b < a | Ge \<Rightarrow> b \<le> a)
         | (VBool a, VBool b) \<Rightarrow>
             Some (case op of Eq \<Rightarrow> a = b | Ne \<Rightarrow> a \<noteq> b | Lt \<Rightarrow> \<not> a \<and> b | Le \<Rightarrow> a \<le> b
                   | Gt \<Rightarrow> a \<and> \<not> b | Ge \<Rightarrow> b \<le> a)
         | _ \<Rightarrow>
             (case (to_i128 lhs, to_i128 rhs) of
                (Some l, Some r) \<Rightarrow>
                  Some (case op of Eq \<Rightarrow> l = r | Ne \<Rightarrow> l \<noteq> r | Lt \<Rightarrow> l < r | Le \<Rightarrow> l \<le> r
                        | Gt \<Rightarrow> r < l | Ge \<Rightarrow> r \<le> l)
              | _ \<Rightarrow> None))
      in case cmp_result of
           Some holds \<Rightarrow> Inr holds
         | None \<Rightarrow> Inl (ComparisonTypeMismatch (OperandValue lhs) (OperandValue rhs) op))"

definition evaluate_comparison ::
    "comparison \<Rightarrow> binding \<Rightarrow> hypergraph_rule \<Rightarrow> ref_eval_error + bool" where
  "evaluate_comparison c b hg =
     bind_res (resolve_term_for_comparison (cmp_left c) b hg) (\<lambda>lhs.
     bind_res (resolve_term_for_comparison (cmp_right c) b hg) (\<lambda>rhs.
     apply_comparison_op lhs rhs (cmp_op c)))"

fun comparisons_hold ::
    "hypergraph_rule \<Rightarrow> binding \<Rightarrow> comparison list \<Rightarrow> ref_eval_error + bool" where
  "comparisons_hold hg b [] = Inr True"
| "comparisons_hold hg b (c # cs) =
     bind_res (evaluate_comparison c b hg)
       (\<lambda>holds. if holds then comparisons_hold hg b cs else Inr False)"

definition project_term :: "hypergraph_rule \<Rightarrow> binding \<Rightarrow> ast_term \<Rightarrow> ref_eval_error + ref_value" where
  "project_term hg b t =
     (case t of
        Variable x \<Rightarrow> lookup_name hg b x
      | Integer n \<Rightarrow> Inr (VI64 n)
      | Str s \<Rightarrow> Inr (VSymbol s)
      | _ \<Rightarrow> Inl (UnsupportedHeadTerm t))"

text \<open>What \<open>enumerate\<close> does at a full assignment: reject it, or produce one row, or fail.\<close>

definition leaf_row ::
    "hypergraph_rule \<Rightarrow> atom_spec list \<Rightarrow> comparison list \<Rightarrow> atom \<Rightarrow> binding
     \<Rightarrow> ref_eval_error + ref_value list option" where
  "leaf_row hg specs cmps hd_atom b =
     bind_res (all_atoms_match specs b) (\<lambda>matched.
       if \<not> matched then Inr None
       else bind_res (comparisons_hold hg b cmps) (\<lambda>holds.
              if \<not> holds then Inr None
              else map_res Some (traverse (project_term hg b) (terms hd_atom))))"

definition push_leaf ::
    "hypergraph_rule \<Rightarrow> atom_spec list \<Rightarrow> comparison list \<Rightarrow> atom \<Rightarrow> binding
     \<Rightarrow> ref_value list list \<Rightarrow> ref_eval_error + ref_value list list" where
  "push_leaf hg specs cmps hd_atom b results =
     map_res (\<lambda>ro. case ro of None \<Rightarrow> results | Some row \<Rightarrow> results @ [row])
       (leaf_row hg specs cmps hd_atom b)"

text \<open>The recursion over the depth is a recursion over the rest of the variable order.\<close>

fun enumerate ::
    "hypergraph_rule \<Rightarrow> atom_spec list \<Rightarrow> comparison list \<Rightarrow> ref_value list list \<Rightarrow> atom
     \<Rightarrow> vertex_id list \<Rightarrow> binding \<Rightarrow> ref_value list list \<Rightarrow> ref_eval_error + ref_value list list"
  where
  "enumerate hg specs cmps domains hd_atom [] b results = push_leaf hg specs cmps hd_atom b results"
| "enumerate hg specs cmps domains hd_atom (v # vs) b results =
     (case get domains v of
        None \<Rightarrow> Inl EvalPanic
      | Some values \<Rightarrow>
          fold_res (\<lambda>x results. enumerate hg specs cmps domains hd_atom vs (b(v \<mapsto> x)) results)
            values results)"

definition atom_specs_of :: "rule \<Rightarrow> ref_store \<Rightarrow> ref_eval_error + atom_spec list" where
  "atom_specs_of r store =
     traverse (\<lambda>(a, edge).
         case store (predicate a) of
           None \<Rightarrow> Inl (MissingRelation (predicate a))
         | Some rel \<Rightarrow>
             bind_res (validate_relation_rows (predicate a) rel)
               (\<lambda>_. build_atom_spec a edge rel))
       (zip (positive_atoms r) (hyperedges (from_rule r)))"

definition is_computed :: "body_literal \<Rightarrow> bool" where
  "is_computed l = (case l of IsExpr _ \<Rightarrow> True | Univ _ \<Rightarrow> True | _ \<Rightarrow> False)"

definition evaluate_rule ::
    "rule \<Rightarrow> ref_store \<Rightarrow> (hypergraph_rule \<Rightarrow> vertex_id list) \<Rightarrow> ref_eval_error + ref_value list list"
  where
  "evaluate_rule r store order =
     (let hg = from_rule r
      in case analyze hg HashFallback of
           Ineligible bs \<Rightarrow> Inl (RefIneligible bs)
         | Eligible \<Rightarrow>
             if list_ex is_computed (body r) then Inl IsExprNotSupported
             else bind_res (atom_specs_of r store) (\<lambda>specs.
               bind_res (build_domains hg specs) (\<lambda>domains.
               let var_order = order hg
               in if length var_order \<noteq> vertex_count hg then Inl EvalPanic
                  else map_res sort_dedup
                         (enumerate hg specs (comparisons r) domains (head r) var_order
                            Map.empty []))))"

section \<open>The declarative answers of a rule\<close>

text \<open>
  An interpretation gives every predicate a set of rows, a valuation every variable name a value.
  A rule answers with the instances of its head
  under the valuations that match every positive atom with a row of its predicate and satisfy
  every comparison. A constant matches a cell that denotes the same number, or the same symbol.
\<close>

fun cell_matches :: "(string \<Rightarrow> ref_value) \<Rightarrow> ast_term \<Rightarrow> ref_value \<Rightarrow> bool" where
  "cell_matches s (Variable x) v = (v = s x)"
| "cell_matches s Anonymous v = True"
| "cell_matches s (Integer n) v = (to_i128 v = Some (sint n))"
| "cell_matches s (Str t) v = (v = VSymbol t)"
| "cell_matches s _ v = False"

type_synonym interp = "string \<Rightarrow> ref_value list set"

definition facts_of :: "ref_store \<Rightarrow> interp" where
  "facts_of store p = (case store p of None \<Rightarrow> {} | Some rel \<Rightarrow> set (rows rel))"

definition atom_holds :: "interp \<Rightarrow> (string \<Rightarrow> ref_value) \<Rightarrow> atom \<Rightarrow> bool" where
  "atom_holds I s a = (\<exists>row \<in> I (predicate a). list_all2 (cell_matches s) (terms a) row)"

fun term_value :: "(string \<Rightarrow> ref_value) \<Rightarrow> ast_term \<Rightarrow> ref_value option" where
  "term_value s (Variable x) = Some (s x)"
| "term_value s (Integer n) = Some (VI64 n)"
| "term_value s (Str t) = Some (VSymbol t)"
| "term_value s _ = None"

fun op_holds :: "comp_op \<Rightarrow> 'a::linorder \<Rightarrow> 'a \<Rightarrow> bool" where
  "op_holds Eq a b = (a = b)"
| "op_holds Ne a b = (a \<noteq> b)"
| "op_holds Lt a b = (a < b)"
| "op_holds Le a b = (a \<le> b)"
| "op_holds Gt a b = (b < a)"
| "op_holds Ge a b = (b \<le> a)"

definition values_compare :: "comp_op \<Rightarrow> ref_value \<Rightarrow> ref_value \<Rightarrow> bool" where
  "values_compare op v w =
     ((\<exists>a b. v = VSymbol a \<and> w = VSymbol b \<and> op_holds op a b)
      \<or> (\<exists>a b. v = VBool a \<and> w = VBool b \<and> op_holds op a b)
      \<or> (\<exists>m n. to_i128 v = Some m \<and> to_i128 w = Some n \<and> op_holds op m n))"

definition comparison_holds :: "(string \<Rightarrow> ref_value) \<Rightarrow> comparison \<Rightarrow> bool" where
  "comparison_holds s c =
     (\<exists>v w. term_value s (cmp_left c) = Some v \<and> term_value s (cmp_right c) = Some w
        \<and> values_compare (cmp_op c) v w)"

definition rule_answers :: "rule \<Rightarrow> interp \<Rightarrow> ref_value list set" where
  "rule_answers r I =
     {row. \<exists>s. (\<forall>a \<in> set (positive_atoms r). atom_holds I s a)
           \<and> (\<forall>c \<in> set (comparisons r). comparison_holds s c)
           \<and> list_all2 (\<lambda>t v. term_value s t = Some v) (terms (head r)) row}"

section \<open>Comparison operators\<close>

lemma apply_comparison_op_eq:
  "apply_comparison_op v w op = Inr h \<Longrightarrow> h = values_compare op v w"
  by (cases v; cases w; cases op)
    (auto simp: apply_comparison_op_def values_compare_def to_i128_def)

section \<open>Validated relations\<close>

definition row_typed :: "scalar_type list \<Rightarrow> ref_value list \<Rightarrow> bool" where
  "row_typed sch row = list_all2 ref_value_matches_scalar_type row sch"

definition relation_typed :: "ref_relation \<Rightarrow> bool" where
  "relation_typed rel = (\<forall>row \<in> set (rows rel). row_typed (schema rel) row)"

lemma row_error_None: "row_error p sch (i, row) = None \<longleftrightarrow> row_typed sch row"
  by (auto simp: row_error_def row_typed_def first_error_None set_indexed list_all2_conv_all_nth get_def
      split: if_splits option.splits)

lemma validate_ok [res_simps]: "validate_relation_rows p rel = Inr u \<longleftrightarrow> relation_typed rel"
  unfolding validate_relation_rows_def relation_typed_def check_Inr_iff first_error_None
  by (fastforce simp: set_indexed row_error_None in_set_conv_nth)

lemma sint_nonneg_uint:
  fixes n :: i64
  assumes "0 \<le> sint n"
  shows "sint n = uint n"
proof -
  have "(word_of_int (sint n) :: i64) = n" by simp
  then have "uint n = take_bit 64 (sint n)"
    using unsigned_of_int [of "sint n", where 'a = int and 'b = 64] by simp
  moreover have "sint n < 2 ^ 64" using sint_lt [of n] by simp
  ultimately show ?thesis using assms by (simp add: take_bit_int_eq_self)
qed

lemma ucast_of_sint: "(ucast (n :: i64) :: 32 word) = word_of_int (sint n)"
  by transfer (simp add: take_bit_signed_take_bit)

lemma coerce_matches:
  assumes "coerce_integer_constant n ty p i = Inr c" and "ref_value_matches_scalar_type v ty"
  shows "c = v \<longleftrightarrow> to_i128 v = Some (sint n)"
proof (cases v)
  case (VU32 w)
  with assms have r: "0 \<le> sint n" "sint n < 2 ^ 32" and c: "c = VU32 (ucast n)"
    by (auto simp: coerce_integer_constant_def split: if_splits)
  have "uint (ucast n :: u32) = sint n"
    using r unfolding ucast_of_sint unsigned_of_int by (simp add: take_bit_int_eq_self)
  then show ?thesis using c VU32 by (auto simp: to_i128_def word_uint_eq_iff)
next
  case (VU64 w)
  with assms have r: "0 \<le> sint n" and c: "c = VU64 n"
    by (auto simp: coerce_integer_constant_def split: if_splits)
  then show ?thesis using VU64 sint_nonneg_uint [OF r] by (auto simp: to_i128_def word_uint_eq_iff)
next
  case (VI32 w)
  with assms have r: "- (2 ^ 31) \<le> sint n" "sint n < 2 ^ 31" and c: "c = VI32 (ucast n)"
    by (auto simp: coerce_integer_constant_def split: if_splits)
  have "sint (ucast n :: i32) = sint n"
    using r unfolding ucast_of_sint signed_of_int by (simp add: signed_take_bit_int_eq_self)
  then have "ucast n = w \<longleftrightarrow> sint w = sint n" by (metis signed_word_eqI)
  then show ?thesis using c VI32 by (auto simp: to_i128_def)
next
  case (VI64 w)
  with assms show ?thesis
    by (auto simp: coerce_integer_constant_def to_i128_def dest: signed_word_eqI)
qed (use assms in \<open>auto simp: coerce_integer_constant_def\<close>)

end
