(* ===== verification/Reference_Correct.thy ===== *)
theory Reference_Correct
  imports Reference_Eval
begin

text \<open>
  Correctness of the reference evaluator: along every lawful variable order the enumeration
  visits exactly the full bindings over the domains, a binding passes the leaf check exactly when
  it is a valuation that satisfies the rule body, and therefore a successful evaluation returns
  the sorted list of the rule's declarative answers, whichever order was used.
\<close>

section \<open>The enumeration visits every full binding\<close>

fun assignments :: "ref_value list list \<Rightarrow> vertex_id list \<Rightarrow> binding \<Rightarrow> binding list" where
  "assignments domains [] b = [b]"
| "assignments domains (v # vs) b =
     concat (map (\<lambda>x. assignments domains vs (b(v \<mapsto> x))) (domains ! v))"

lemma fold_res_concat_map:
  "fold_res f (concat (map g xs)) s = fold_res (\<lambda>x. fold_res f (g x)) xs s"
proof (induction xs arbitrary: s)
  case (Cons x xs)
  then show ?case by (cases "fold_res f (g x) s") (auto simp: fold_res_append)
qed simp

lemma fold_res_cong:
  assumes "\<And>x s. x \<in> set xs \<Longrightarrow> f x s = g x s"
  shows "fold_res f xs s = fold_res g xs s"
  using assms
proof (induction xs arbitrary: s)
  case (Cons x xs)
  then show ?case by (cases "g x s") auto
qed simp

lemma enumerate_eq:
  assumes "\<forall>v \<in> set vs. v < length domains"
  shows "enumerate hg specs cmps domains h vs b results =
    fold_res (push_leaf hg specs cmps h) (assignments domains vs b) results"
  using assms
proof (induction vs arbitrary: b results)
  case Nil
  then show ?case
    by (cases "push_leaf hg specs cmps h b results") auto
next
  case (Cons v vs)
  then have "get domains v = Some (domains ! v)" by (simp add: get_def)
  moreover have "fold_res (\<lambda>x results. enumerate hg specs cmps domains h vs (b(v \<mapsto> x)) results)
      xs results
    = fold_res (\<lambda>x. fold_res (push_leaf hg specs cmps h) (assignments domains vs (b(v \<mapsto> x))))
      xs results" for xs
    using Cons by (intro fold_res_cong) auto
  ultimately show ?case by (simp add: fold_res_concat_map)
qed

definition full_bindings :: "ref_value list list \<Rightarrow> vertex_id set \<Rightarrow> binding set" where
  "full_bindings domains V =
     {b. (\<forall>v \<in> V. \<exists>x \<in> set (domains ! v). b v = Some x) \<and> (\<forall>v. v \<notin> V \<longrightarrow> b v = None)}"

lemma set_assignments:
  assumes "distinct vs"
  shows "set (assignments domains vs b) =
    {b'. (\<forall>v \<in> set vs. \<exists>x \<in> set (domains ! v). b' v = Some x)
       \<and> (\<forall>v. v \<notin> set vs \<longrightarrow> b' v = b v)}"
  using assms
proof (induction vs arbitrary: b)
  case Nil
  then show ?case by (auto simp: fun_eq_iff)
next
  case (Cons v vs)
  have "b' \<in> (\<Union>x \<in> set (domains ! v). set (assignments domains vs (b(v \<mapsto> x)))) \<longleftrightarrow>
      (\<forall>u \<in> set (v # vs). \<exists>x \<in> set (domains ! u). b' u = Some x)
      \<and> (\<forall>u. u \<notin> set (v # vs) \<longrightarrow> b' u = b u)" for b'
    using Cons by (auto split: if_splits)
  then show ?case by auto
qed

lemma set_assignments_full:
  "distinct vs \<Longrightarrow> set (assignments domains vs Map.empty) = full_bindings domains (set vs)"
  by (simp add: set_assignments full_bindings_def)

section \<open>Collecting the rows of the leaves\<close>

lemma fold_push_leaf_Inr:
  assumes "fold_res (push_leaf hg specs cmps h) bs results = Inr rs"
  shows "(\<forall>b \<in> set bs. is_ok (leaf_row hg specs cmps h b))
    \<and> set rs = set results \<union> {row. \<exists>b \<in> set bs. leaf_row hg specs cmps h b = Inr (Some row)}"
  using assms
proof (induction bs arbitrary: results)
  case (Cons b bs)
  then obtain ro where ro: "leaf_row hg specs cmps h b = Inr ro"
    by (cases "leaf_row hg specs cmps h b") (auto simp: push_leaf_def)
  then have "fold_res (push_leaf hg specs cmps h) bs
      (case ro of None \<Rightarrow> results | Some row \<Rightarrow> results @ [row]) = Inr rs"
    using Cons.prems by (simp add: push_leaf_def [of _ _ _ _ b])
  from Cons.IH [OF this] ro show ?case by (cases ro) auto
qed simp

lemma fold_push_leaf_ok:
  assumes "\<forall>b \<in> set bs. is_ok (leaf_row hg specs cmps h b)"
  shows "is_ok (fold_res (push_leaf hg specs cmps h) bs results)"
  using assms
proof (induction bs arbitrary: results)
  case (Cons b bs)
  then show ?case by (cases "leaf_row hg specs cmps h b") (auto simp: push_leaf_def)
qed simp

lemma is_ok_fold_push_leaf:
  "is_ok (fold_res (push_leaf hg specs cmps h) bs results)
    \<longleftrightarrow> (\<forall>b \<in> set bs. is_ok (leaf_row hg specs cmps h b))"
  using fold_push_leaf_ok fold_push_leaf_Inr unfolding is_ok_iff [of "fold_res _ _ _"] by blast

lemma fold_push_leaf_Inl:
  "fold_res (push_leaf hg specs cmps h) bs results = Inl e
    \<Longrightarrow> \<exists>b \<in> set bs. leaf_row hg specs cmps h b = Inl e"
proof (induction bs arbitrary: results)
  case (Cons b bs)
  then show ?case by (cases "leaf_row hg specs cmps h b") (auto simp: push_leaf_def)
qed simp

section \<open>Domains\<close>

text \<open>Writing one column into the domains when every index is in range.\<close>

definition place_column :: "atom_spec \<Rightarrow> nat \<times> position_spec \<Rightarrow> ref_value list list \<Rightarrow> ref_value list list"
  where
  "place_column spec = (\<lambda>(i, pos) ds.
     case pos of
       PVertex v \<Rightarrow> ds[v := ds ! v @ map (\<lambda>row. row ! i) (rows (spec_relation spec))]
     | _ \<Rightarrow> ds)"

definition domain_lists :: "hypergraph_rule \<Rightarrow> atom_spec list \<Rightarrow> ref_value list list" where
  "domain_lists hg specs =
     map sort_dedup
       (fold (\<lambda>spec. fold (place_column spec) (indexed (positions spec))) specs
          (replicate (vertex_count hg) []))"

lemma length_place_column [simp]: "length (place_column spec ip ds) = length ds"
  by (auto simp: place_column_def split: prod.splits position_spec.splits)

lemma length_fold_place_column [simp]: "length (fold (place_column spec) ips ds) = length ds"
  by (induction ips arbitrary: ds) auto

lemma length_fold_specs [simp]:
  "length (fold (\<lambda>spec. fold (place_column spec) (indexed (positions spec))) specs ds) = length ds"
  by (induction specs arbitrary: ds) auto

lemma length_domain_lists [simp]: "length (domain_lists hg specs) = vertex_count hg"
  by (simp add: domain_lists_def)

text \<open>The indices a specification uses: vertices of the rule, and columns that its rows have.\<close>

definition spec_in_range :: "nat \<Rightarrow> atom_spec \<Rightarrow> bool" where
  "spec_in_range n spec =
     (\<forall>i v. i < length (positions spec) \<and> positions spec ! i = PVertex v \<longrightarrow>
        v < n \<and> (\<forall>row \<in> set (rows (spec_relation spec)). i < length row))"

lemma fold_push_cell:
  assumes "v < length ds" and "\<forall>row \<in> set rws. i < length row"
  shows "fold_res (push_cell v i) rws ds = Inr (ds[v := ds ! v @ map (\<lambda>row. row ! i) rws])"
  using assms
proof (induction rws arbitrary: ds)
  case (Cons row rws)
  then have "push_cell v i row ds = Inr (ds[v := ds ! v @ [row ! i]])"
    by (simp add: push_cell_def get_def)
  with Cons show ?case by simp
qed simp

lemma fold_res_pure:
  assumes "\<And>x s. x \<in> set xs \<Longrightarrow> P s \<Longrightarrow> f x s = Inr (g x s)"
    and "\<And>x s. P s \<Longrightarrow> P (g x s)" and "P s"
  shows "fold_res f xs s = Inr (fold g xs s)"
  using assms by (induction xs arbitrary: s) auto

lemma push_position_in_range:
  assumes "spec_in_range n spec" and "ip \<in> set (indexed (positions spec))" and "length ds = n"
  shows "push_position spec ip ds = Inr (place_column spec ip ds)"
  using assms
  by (auto simp: push_position_def place_column_def spec_in_range_def in_indexed_iff fold_push_cell
      split: prod.splits position_spec.splits)

lemma build_domains_in_range:
  assumes "\<forall>spec \<in> set specs. spec_in_range (vertex_count hg) spec"
  shows "build_domains hg specs = Inr (domain_lists hg specs)"
proof -
  have "fold_res (push_position spec) (indexed (positions spec)) ds
      = Inr (fold (place_column spec) (indexed (positions spec)) ds)"
    if "spec \<in> set specs" and "length ds = vertex_count hg" for spec ds
    using that assms push_position_in_range [of "vertex_count hg" spec]
    by (intro fold_res_pure [where P = "\<lambda>ds. length ds = vertex_count hg"]) auto
  then have "fold_res (\<lambda>spec. fold_res (push_position spec) (indexed (positions spec))) specs
      (replicate (vertex_count hg) [])
    = Inr (fold (\<lambda>spec. fold (place_column spec) (indexed (positions spec))) specs
        (replicate (vertex_count hg) []))"
    by (rule fold_res_pure [where P = "\<lambda>ds. length ds = vertex_count hg"]) auto
  then show ?thesis by (simp add: build_domains_def domain_lists_def)
qed

definition column_values :: "atom_spec \<Rightarrow> nat \<Rightarrow> ref_value set" where
  "column_values spec i = (\<lambda>row. row ! i) ` set (rows (spec_relation spec))"

lemma set_place_columns:
  assumes "v < length ds"
  shows "set (fold (place_column spec) ips ds ! v) =
    set (ds ! v) \<union> (\<Union>i \<in> {i. (i, PVertex v) \<in> set ips}. column_values spec i)"
  using assms
proof (induction ips arbitrary: ds)
  case (Cons ip ips)
  obtain i pos where ip: "ip = (i, pos)" by (cases ip)
  have "set (place_column spec ip ds ! v) =
      set (ds ! v) \<union> (if pos = PVertex v then column_values spec i else {})"
    using Cons.prems
    by (auto simp: ip place_column_def column_values_def nth_list_update split: position_spec.splits)
  with Cons show ?case by (auto simp: ip)
qed simp

lemma set_fold_specs:
  assumes "v < length ds"
  shows "set (fold (\<lambda>spec. fold (place_column spec) (indexed (positions spec))) specs ds ! v) =
    set (ds ! v) \<union> (\<Union>spec \<in> set specs.
       \<Union>i \<in> {i. (i, PVertex v) \<in> set (indexed (positions spec))}. column_values spec i)"
  using assms
  by (induction specs arbitrary: ds) (auto simp: set_place_columns)

lemma domain_lists_nth:
  assumes "v < vertex_count hg"
  shows "set (domain_lists hg specs ! v) =
    (\<Union>spec \<in> set specs. \<Union>i \<in> {i. i < length (positions spec) \<and> positions spec ! i = PVertex v}.
       column_values spec i)"
  using assms by (simp add: domain_lists_def set_fold_specs in_indexed_iff)

section \<open>Atom specifications\<close>

lemma traverse_zip_map:
  "traverse f (zip xs (map g xs)) = traverse (\<lambda>x. f (x, g x)) xs"
  by (induction xs) auto

lemma edge_position:
  assumes "a \<in> set (positive_atoms r)" and "terms a ! i = Variable x" and "i < length (terms a)"
  shows "\<exists>v. vid (vertices (from_rule r)) x = Some v
    \<and> get (vertex_positions (edge_of (vertices (from_rule r)) a)) i = Some (Some v)"
proof -
  have "x \<in> set (names (vertices (from_rule r)))"
    using assms nth_mem by (fastforce simp: from_rule_names arg_names_def)
  then obtain v where "vid (vertices (from_rule r)) x = Some v"
    using vid_None by (metis option.exhaust)
  then show ?thesis using assms by (simp add: edge_of_def get_def term_vid_def)
qed

text \<open>What a successfully built specification says about its atom.\<close>

definition spec_for :: "rule \<Rightarrow> ref_store \<Rightarrow> atom \<Rightarrow> atom_spec \<Rightarrow> bool" where
  "spec_for r store a spec =
     (store (predicate a) = Some (spec_relation spec)
      \<and> relation_typed (spec_relation spec)
      \<and> length (terms a) = length (schema (spec_relation spec))
      \<and> length (positions spec) = length (terms a)
      \<and> (\<forall>i < length (terms a).
           build_position_spec a (edge_of (vertices (from_rule r)) a) (spec_relation spec)
             (i, terms a ! i) = Inr (positions spec ! i)))"

lemma build_atom_spec_Inr:
  assumes "build_atom_spec a edge rel = Inr spec"
  shows "spec_relation spec = rel \<and> length (terms a) = length (schema rel)
    \<and> length (positions spec) = length (terms a)
    \<and> (\<forall>i < length (terms a).
         build_position_spec a edge rel (i, terms a ! i) = Inr (positions spec ! i))"
  using assms
  by (auto simp: build_atom_spec_def map_res_Inr_iff traverse_Inr_iff list_all2_conv_all_nth
      split: if_splits)

lemma atom_specs_of_Inr:
  assumes "atom_specs_of r store = Inr specs"
  shows "list_all2 (spec_for r store) (positive_atoms r) specs"
proof -
  have "list_all2 (\<lambda>a spec. (case store (predicate a) of
         None \<Rightarrow> Inl (MissingRelation (predicate a))
       | Some rel \<Rightarrow> bind_res (validate_relation_rows (predicate a) rel)
           (\<lambda>_. build_atom_spec a (edge_of (vertices (from_rule r)) a) rel)) = Inr spec)
      (positive_atoms r) specs"
    using assms unfolding atom_specs_of_def
    by (subst (asm) from_rule_hyperedges) (simp add: traverse_zip_map traverse_Inr_iff)
  then show ?thesis
    by (rule list_all2_mono)
      (auto simp: spec_for_def bind_res_Inr_iff validate_ok split: option.splits
        dest!: build_atom_spec_Inr)
qed

lemma specs_of_atom:
  assumes "list_all2 (spec_for r store) as specs" and "a \<in> set as"
  shows "\<exists>spec \<in> set specs. spec_for r store a spec"
  using assms by (metis in_set_conv_nth list_all2_conv_all_nth)

lemma column_type_in_range: "i < length (schema rel) \<Longrightarrow> column_type rel i = Inr (schema rel ! i)"
  by (simp add: column_type_def get_def)

lemma atom_of_spec:
  assumes "list_all2 (spec_for r store) as specs" and "spec \<in> set specs"
  shows "\<exists>a \<in> set as. spec_for r store a spec"
  using assms by (metis in_set_conv_nth list_all2_conv_all_nth)

text \<open>Every row read during matching and domain building is as long as the positions.\<close>

lemma spec_row_length:
  assumes "spec_for r store a spec" and "row \<in> set (rows (spec_relation spec))"
  shows "length row = length (positions spec)"
  using assms by (auto simp: spec_for_def relation_typed_def row_typed_def list_all2_conv_all_nth)

section \<open>A leaf is a valuation\<close>

definition agrees :: "hypergraph_rule \<Rightarrow> binding \<Rightarrow> (string \<Rightarrow> ref_value) \<Rightarrow> bool" where
  "agrees hg b s = (\<forall>x v. vid (vertices hg) x = Some v \<longrightarrow> b v = Some (s x))"

fun pos_cell :: "binding \<Rightarrow> position_spec \<Rightarrow> ref_value \<Rightarrow> bool" where
  "pos_cell b (PVertex v) x = (b v = Some x)"
| "pos_cell b (PConstant c) x = (c = x)"
| "pos_cell b PWildcard x = True"

lemma row_matches_eq:
  assumes "length ps = length row" and "\<forall>v. PVertex v \<in> set ps \<longrightarrow> b v \<noteq> None"
  shows "row_matches ps b row = Inr (Some (list_all2 (pos_cell b) ps row))"
  using assms
proof (induction ps row rule: list_induct2)
  case (Cons p ps x xs)
  then show ?case by (cases p) auto
qed simp

lemma some_row_matches_eq:
  assumes "\<forall>row \<in> set rs. length row = length ps"
    and "\<forall>v. PVertex v \<in> set ps \<longrightarrow> b v \<noteq> None"
  shows "some_row_matches ps b rs = Inr (\<exists>row \<in> set rs. list_all2 (pos_cell b) ps row)"
  using assms
  by (induction rs) (auto simp: row_matches_eq split: bool.splits)

lemma pos_cell_iff:
  assumes spec: "spec_for r store a spec" and a: "a \<in> set (positive_atoms r)"
    and b: "agrees (from_rule r) b s" and i: "i < length (terms a)"
    and row: "row \<in> set (rows (spec_relation spec))"
  shows "pos_cell b (positions spec ! i) (row ! i) = cell_matches s (terms a ! i) (row ! i)"
proof -
  let ?rel = "spec_relation spec"
  have built: "build_position_spec a (edge_of (vertices (from_rule r)) a) ?rel (i, terms a ! i)
      = Inr (positions spec ! i)"
    and typed: "ref_value_matches_scalar_type (row ! i) (schema ?rel ! i)"
    using spec i row
    by (auto simp: spec_for_def relation_typed_def row_typed_def list_all2_conv_all_nth)
  have ct: "column_type ?rel i = Inr (schema ?rel ! i)"
    using spec i by (simp add: spec_for_def column_type_in_range)
  show ?thesis
  proof (cases "terms a ! i")
    case (Variable x)
    obtain v where "vid (vertices (from_rule r)) x = Some v"
      and "get (vertex_positions (edge_of (vertices (from_rule r)) a)) i = Some (Some v)"
      using edge_position [OF a Variable i] by blast
    then show ?thesis
      using built b Variable
      by (auto simp: build_position_spec_def agrees_def dest!: sym [of "PVertex _"])
  next
    case (Integer n)
    then obtain c where "coerce_integer_constant n (schema ?rel ! i) (predicate a) i = Inr c"
      and "positions spec ! i = PConstant c"
      using built ct by (auto simp: build_position_spec_def Let_def map_res_Inr_iff)
    then show ?thesis using coerce_matches [OF _ typed] Integer by simp
  qed (use built ct in \<open>auto simp: build_position_spec_def Let_def split: if_splits
         dest!: sym [of "PConstant _"] sym [of PWildcard]\<close>)
qed

lemma spec_positions_bound:
  assumes spec: "spec_for r store a spec" and a: "a \<in> set (positive_atoms r)"
    and i: "i < length (positions spec)" and pos: "positions spec ! i = PVertex v"
  shows "\<exists>x. terms a ! i = Variable x \<and> vid (vertices (from_rule r)) x = Some v"
proof -
  have i': "i < length (terms a)" using spec i by (simp add: spec_for_def)
  have built: "build_position_spec a (edge_of (vertices (from_rule r)) a) (spec_relation spec)
      (i, terms a ! i) = Inr (PVertex v)"
    using spec i' pos by (simp add: spec_for_def)
  show ?thesis
  proof (cases "terms a ! i")
    case (Variable x)
    then show ?thesis using edge_position [OF a Variable i'] built
      by (auto simp: build_position_spec_def)
  qed (use built in \<open>auto simp: build_position_spec_def Let_def map_res_Inr_iff bind_res_Inr_iff
      split: if_splits\<close>)
qed

lemma atom_has_matching_row_iff:
  assumes spec: "spec_for r store a spec" and a: "a \<in> set (positive_atoms r)"
    and b: "agrees (from_rule r) b s"
  shows "atom_has_matching_row spec b = Inr (atom_holds (facts_of store) s a)"
proof -
  have "\<forall>v. PVertex v \<in> set (positions spec) \<longrightarrow> b v \<noteq> None"
    using spec_positions_bound [OF spec a] b unfolding in_set_conv_nth agrees_def by fastforce
  then have "atom_has_matching_row spec b = Inr
      (\<exists>row \<in> set (rows (spec_relation spec)). list_all2 (pos_cell b) (positions spec) row)"
    unfolding atom_has_matching_row_def
    using spec_row_length [OF spec] by (intro some_row_matches_eq) auto
  moreover have "list_all2 (pos_cell b) (positions spec) row = list_all2 (cell_matches s) (terms a) row"
    if "row \<in> set (rows (spec_relation spec))" for row
    using pos_cell_iff [OF spec a b _ that] spec
    by (auto simp: list_all2_conv_all_nth spec_for_def)
  ultimately show ?thesis using spec by (auto simp: atom_holds_def facts_of_def spec_for_def)
qed

lemma all_atoms_match_iff:
  assumes "list_all2 (spec_for r store) as specs" and "set as \<subseteq> set (positive_atoms r)"
    and "agrees (from_rule r) b s"
  shows "all_atoms_match specs b = Inr (\<forall>a \<in> set as. atom_holds (facts_of store) s a)"
  using assms
proof (induction as specs rule: list_all2_induct)
  case (Cons a as spec specs)
  then have "atom_has_matching_row spec b = Inr (atom_holds (facts_of store) s a)"
    by (intro atom_has_matching_row_iff) auto
  with Cons show ?case by auto
qed simp

lemma spec_for_in_range:
  assumes spec: "spec_for r store a spec" and a: "a \<in> set (positive_atoms r)"
  shows "spec_in_range (vertex_count (from_rule r)) spec"
  unfolding spec_in_range_def
proof (intro allI impI, elim conjE)
  fix i v assume i: "i < length (positions spec)" and v: "positions spec ! i = PVertex v"
  obtain x where "vid (vertices (from_rule r)) x = Some v"
    using spec_positions_bound [OF spec a i v] by blast
  then have "v < vertex_count (from_rule r)" by (auto simp: vertex_count_def dest: vid_Some)
  with i show "v < vertex_count (from_rule r)
      \<and> (\<forall>row \<in> set (rows (spec_relation spec)). i < length row)"
    using spec_row_length [OF spec] by simp
qed

lemma build_domains_specs:
  assumes "list_all2 (spec_for r store) (positive_atoms r) specs"
  shows "build_domains (from_rule r) specs = Inr (domain_lists (from_rule r) specs)"
  using atom_of_spec [OF assms] spec_for_in_range by (intro build_domains_in_range) blast

lemma lookup_name_value:
  "agrees hg b s \<Longrightarrow> lookup_name hg b x = Inr v \<Longrightarrow> v = s x"
  by (auto simp: lookup_name_def agrees_def split: option.splits)

lemma resolve_value:
  "agrees hg b s \<Longrightarrow> resolve_term_for_comparison t b hg = Inr v \<Longrightarrow> term_value s t = Some v"
  by (cases t) (auto simp: resolve_term_for_comparison_def dest: lookup_name_value)

lemma project_value:
  "agrees hg b s \<Longrightarrow> project_term hg b t = Inr v \<Longrightarrow> term_value s t = Some v"
  by (cases t) (auto simp: project_term_def dest: lookup_name_value)

lemma evaluate_comparison_value:
  assumes "agrees hg b s" and "evaluate_comparison c b hg = Inr h"
  shows "h = comparison_holds s c"
proof -
  obtain v w where "resolve_term_for_comparison (cmp_left c) b hg = Inr v"
    and "resolve_term_for_comparison (cmp_right c) b hg = Inr w"
    and "apply_comparison_op v w (cmp_op c) = Inr h"
    using assms(2) by (auto simp: evaluate_comparison_def bind_res_Inr_iff)
  then show ?thesis
    using resolve_value [OF assms(1)] apply_comparison_op_eq
    by (simp add: comparison_holds_def)
qed

lemma comparisons_hold_value:
  "agrees hg b s \<Longrightarrow> comparisons_hold hg b cs = Inr h \<Longrightarrow> h = (\<forall>c \<in> set cs. comparison_holds s c)"
proof (induction cs arbitrary: h)
  case (Cons c cs)
  then obtain h1 where "evaluate_comparison c b hg = Inr h1"
    and "(if h1 then comparisons_hold hg b cs else Inr False) = Inr h"
    by (auto simp: bind_res_Inr_iff)
  with Cons evaluate_comparison_value show ?case by (fastforce split: if_splits)
qed simp

lemma project_values:
  "agrees hg b s \<Longrightarrow> traverse (project_term hg b) ts = Inr row
    \<Longrightarrow> list_all2 (\<lambda>t v. term_value s t = Some v) ts row"
  unfolding traverse_Inr_iff by (erule list_all2_mono) (rule project_value)

lemma term_values_unique:
  "list_all2 (\<lambda>t v. term_value s t = Some v) ts row
    \<Longrightarrow> list_all2 (\<lambda>t v. term_value s t = Some v) ts row' \<Longrightarrow> row = row'"
  by (auto simp: list_all2_conv_all_nth intro!: nth_equalityI)

definition satisfies :: "rule \<Rightarrow> interp \<Rightarrow> (string \<Rightarrow> ref_value) \<Rightarrow> bool" where
  "satisfies r I s =
     ((\<forall>a \<in> set (positive_atoms r). atom_holds I s a)
      \<and> (\<forall>c \<in> set (comparisons r). comparison_holds s c))"

lemma rule_answers_alt:
  "rule_answers r I =
     {row. \<exists>s. satisfies r I s
           \<and> list_all2 (\<lambda>t v. term_value s t = Some v) (terms (head r)) row}"
  by (simp add: rule_answers_def satisfies_def)

lemma leaf_row_value:
  assumes specs: "list_all2 (spec_for r store) (positive_atoms r) specs"
    and b: "agrees (from_rule r) b s"
    and leaf: "leaf_row (from_rule r) specs (comparisons r) (head r) b = Inr ro"
  shows "case ro of
      None \<Rightarrow> \<not> satisfies r (facts_of store) s
    | Some row \<Rightarrow> satisfies r (facts_of store) s
        \<and> list_all2 (\<lambda>t v. term_value s t = Some v) (terms (head r)) row"
proof -
  have "all_atoms_match specs b
      = Inr (\<forall>a \<in> set (positive_atoms r). atom_holds (facts_of store) s a)"
    using all_atoms_match_iff [OF specs _ b] by simp
  moreover have "h = (\<forall>c \<in> set (comparisons r). comparison_holds s c)"
    if "comparisons_hold (from_rule r) b (comparisons r) = Inr h" for h
    using comparisons_hold_value [OF b that] .
  ultimately show ?thesis
    using leaf project_values [OF b]
    by (cases ro) (fastforce simp: leaf_row_def satisfies_def bind_res_Inr_iff map_res_Inr_iff
        split: if_splits)+
qed

section \<open>Valuations and full bindings\<close>

definition valuation_of :: "hypergraph_rule \<Rightarrow> binding \<Rightarrow> string \<Rightarrow> ref_value" where
  "valuation_of hg b x = the (b (the (vid (vertices hg) x)))"

lemma valuation_of_agrees:
  assumes "b \<in> full_bindings domains {..<vertex_count hg}"
  shows "agrees hg b (valuation_of hg b)"
  unfolding agrees_def
proof (intro allI impI)
  fix x v assume v: "vid (vertices hg) x = Some v"
  then have "v < vertex_count hg" by (auto simp: vertex_count_def dest: vid_Some)
  then obtain y where "b v = Some y" using assms by (auto simp: full_bindings_def)
  with v show "b v = Some (valuation_of hg b x)" by (simp add: valuation_of_def)
qed

definition binding_of :: "hypergraph_rule \<Rightarrow> (string \<Rightarrow> ref_value) \<Rightarrow> binding" where
  "binding_of hg s v = (if v < vertex_count hg then Some (s (names (vertices hg) ! v)) else None)"

lemma binding_of_agrees: "agrees hg (binding_of hg s) s"
  by (auto simp: agrees_def binding_of_def vertex_count_def dest: vid_Some)

lemma binding_of_full:
  assumes specs: "list_all2 (spec_for r store) (positive_atoms r) specs"
    and sat: "satisfies r (facts_of store) s"
  shows "binding_of (from_rule r) s
    \<in> full_bindings (domain_lists (from_rule r) specs) {..<vertex_count (from_rule r)}"
proof -
  let ?hg = "from_rule r"
  have "s (names (vertices ?hg) ! v) \<in> set (domain_lists ?hg specs ! v)"
    if v: "v < vertex_count ?hg" for v
  proof -
    let ?x = "names (vertices ?hg) ! v"
    obtain a where a: "a \<in> set (positive_atoms r)" and x: "Variable ?x \<in> set (terms a)"
      using vertex_in_some_atom [OF v] by blast
    obtain i where i: "i < length (terms a)" "terms a ! i = Variable ?x"
      using x by (auto simp: in_set_conv_nth)
    obtain spec where spec: "spec \<in> set specs" "spec_for r store a spec"
      using specs_of_atom [OF specs a] by blast
    obtain row where row: "row \<in> set (rows (spec_relation spec))"
      and m: "list_all2 (cell_matches s) (terms a) row"
      using sat a spec(2) by (auto simp: satisfies_def atom_holds_def facts_of_def spec_for_def)
    have "row ! i = s ?x" using m i by (auto simp: list_all2_conv_all_nth)
    moreover have "vid (vertices ?hg) ?x = Some v"
      using vid_nth [OF from_rule_distinct] v by (simp add: vertex_count_def)
    then have "positions spec ! i = PVertex v"
      using edge_position [OF a i(2,1)] spec(2) i
      by (auto simp: spec_for_def build_position_spec_def)
    moreover have "i < length (positions spec)" using spec(2) i by (simp add: spec_for_def)
    ultimately show ?thesis
      using v spec(1) row by (force simp: domain_lists_nth column_values_def)
  qed
  then show ?thesis by (auto simp: full_bindings_def binding_of_def)
qed

lemma leaf_rows_are_answers:
  assumes specs: "list_all2 (spec_for r store) (positive_atoms r) specs"
    and B: "B = full_bindings (domain_lists (from_rule r) specs) {..<vertex_count (from_rule r)}"
    and ok: "\<forall>b \<in> B. is_ok (leaf_row (from_rule r) specs (comparisons r) (head r) b)"
  shows "{row. \<exists>b \<in> B. leaf_row (from_rule r) specs (comparisons r) (head r) b = Inr (Some row)}
    = rule_answers r (facts_of store)" (is "?L = _")
proof (intro equalityI subsetI)
  fix row assume "row \<in> ?L"
  then obtain b where "b \<in> B"
    and leaf: "leaf_row (from_rule r) specs (comparisons r) (head r) b = Inr (Some row)" by blast
  then have "agrees (from_rule r) b (valuation_of (from_rule r) b)"
    using B valuation_of_agrees by blast
  from leaf_row_value [OF specs this leaf] show "row \<in> rule_answers r (facts_of store)"
    by (auto simp: rule_answers_alt)
next
  fix row assume "row \<in> rule_answers r (facts_of store)"
  then obtain s where sat: "satisfies r (facts_of store) s"
    and row: "list_all2 (\<lambda>t v. term_value s t = Some v) (terms (head r)) row"
    by (auto simp: rule_answers_alt)
  let ?b = "binding_of (from_rule r) s"
  have b: "?b \<in> B" using binding_of_full [OF specs sat] B by blast
  then obtain ro where leaf: "leaf_row (from_rule r) specs (comparisons r) (head r) ?b = Inr ro"
    using ok by (auto simp: is_ok_iff)
  from leaf_row_value [OF specs binding_of_agrees leaf] sat row
  have "ro = Some row" by (auto split: option.splits dest: term_values_unique)
  with leaf b show "row \<in> ?L" by blast
qed

section \<open>The evaluator\<close>

definition leaves_ok :: "rule \<Rightarrow> atom_spec list \<Rightarrow> bool" where
  "leaves_ok r specs =
     (\<forall>b \<in> full_bindings (domain_lists (from_rule r) specs) {..<vertex_count (from_rule r)}.
        is_ok (leaf_row (from_rule r) specs (comparisons r) (head r) b))"

definition no_computed :: "rule \<Rightarrow> bool" where
  "no_computed r = (\<not> list_ex is_computed (body r))"

lemma leaf_row_no_panic:
  assumes "is_ok (all_atoms_match specs b)"
  shows "leaf_row hg specs cmps h b \<noteq> Inl EvalPanic"
proof -
  obtain m where m: "all_atoms_match specs b = Inr m" using assms by (auto simp: is_ok_iff)
  have look: "lookup_name hg b x \<noteq> Inl EvalPanic" for x
    by (auto simp: lookup_name_def split: option.splits)
  have cmp: "evaluate_comparison c b hg \<noteq> Inl EvalPanic" for c
    by (auto simp: evaluate_comparison_def bind_res_Inl_iff resolve_term_for_comparison_def look
        apply_comparison_op_def Let_def split: ast_term.splits option.splits)
  have "comparisons_hold hg b cs \<noteq> Inl EvalPanic" for cs
    using cmp by (induction cs) (auto simp: bind_res_Inl_iff split: if_splits)
  moreover have "traverse (project_term hg b) ts \<noteq> Inl EvalPanic" for ts
    using look by (induction ts)
      (auto simp: bind_res_Inl_iff project_term_def split: ast_term.splits)
  ultimately show ?thesis
    by (cases "traverse (project_term hg b) (terms h)") (auto simp: leaf_row_def m bind_res_Inl_iff)
qed

lemma first_error_not: "(\<And>x. x \<in> set xs \<Longrightarrow> f x \<noteq> Some e) \<Longrightarrow> first_error f xs \<noteq> Some e"
  by (induction xs) (auto split: option.splits)

lemma traverse_not_Inl: "(\<And>x. x \<in> set xs \<Longrightarrow> f x \<noteq> Inl e) \<Longrightarrow> traverse f xs \<noteq> Inl e"
  by (induction xs) (auto simp: bind_res_Inl_iff)

lemma traverse_never: "(\<And>x. f x \<noteq> Inl e) \<Longrightarrow> traverse f xs \<noteq> Inl e"
  by (rule traverse_not_Inl)

text \<open>The row length is compared before a schema column is read, the arity before a constant is
  coerced to the type of its column.\<close>

lemma row_error_no_panic: "row_error p sch (ri, row) \<noteq> Some EvalPanic"
  unfolding row_error_def
  by (auto split: option.splits if_splits simp: set_indexed get_def dest!: first_error_Some)

lemma validate_no_panic: "validate_relation_rows p rel \<noteq> Inl EvalPanic"
proof -
  have "first_error (row_error p (schema rel)) (indexed (rows rel)) \<noteq> Some EvalPanic"
    by (rule first_error_not) (auto simp: row_error_no_panic)
  then show ?thesis by (auto simp: validate_relation_rows_def check_def split: option.splits)
qed

lemma build_position_no_panic:
  assumes "i < length (schema rel)"
  shows "build_position_spec a e rel (i, t) \<noteq> Inl EvalPanic"
proof -
  have c: "coerce_integer_constant n ty p j \<noteq> Inl EvalPanic" for n ty p j
    by (cases ty) (auto simp: coerce_integer_constant_def)
  from column_type_in_range [OF assms] show ?thesis
    using c by (cases t) (auto simp: build_position_spec_def Let_def map_res_Inl_iff
        split: option.splits)
qed

lemma build_atom_spec_no_panic: "build_atom_spec a e rel \<noteq> Inl EvalPanic"
proof (cases "length (terms a) = length (schema rel)")
  case True
  then have "traverse (build_position_spec a e rel) (indexed (terms a)) \<noteq> Inl EvalPanic"
    by (intro traverse_not_Inl) (auto simp: set_indexed build_position_no_panic)
  with True show ?thesis by (simp add: build_atom_spec_def map_res_Inl_iff)
qed (simp add: build_atom_spec_def)

lemma atom_specs_no_panic: "atom_specs_of r store \<noteq> Inl EvalPanic"
  unfolding atom_specs_of_def
  by (intro traverse_not_Inl)
    (auto simp: bind_res_Inl_iff validate_no_panic build_atom_spec_no_panic split: option.splits)

context variable_order
begin

lemma evaluate_rule_unfold:
  assumes "analyze (from_rule r) HashFallback = Eligible" and "no_computed r"
    and "atom_specs_of r store = Inr specs"
  shows "evaluate_rule r store order = map_res sort_dedup
    (fold_res (push_leaf (from_rule r) specs (comparisons r) (head r))
      (assignments (domain_lists (from_rule r) specs) (order (from_rule r)) Map.empty) [])"
  using assms build_domains_specs [OF atom_specs_of_Inr [OF assms(3)]]
  by (auto simp: evaluate_rule_def Let_def no_computed_def order_length enumerate_eq order_in)

lemma assignments_order:
  "set (assignments (domain_lists hg specs) (order hg) Map.empty)
    = full_bindings (domain_lists hg specs) {..<vertex_count hg}"
  by (simp add: set_assignments_full order_distinct order_set)

lemma evaluate_rule_ok_iff:
  "is_ok (evaluate_rule r store order) \<longleftrightarrow>
     analyze (from_rule r) HashFallback = Eligible \<and> no_computed r
     \<and> (\<exists>specs. atom_specs_of r store = Inr specs \<and> leaves_ok r specs)"
proof (cases "analyze (from_rule r) HashFallback = Eligible \<and> no_computed r
    \<and> is_ok (atom_specs_of r store)")
  case True
  then obtain specs where s: "atom_specs_of r store = Inr specs" by (auto simp: is_ok_iff)
  show ?thesis
    using True s by (simp add: evaluate_rule_unfold is_ok_fold_push_leaf assignments_order
        leaves_ok_def)
next
  case False
  then show ?thesis
    by (cases "analyze (from_rule r) HashFallback"; cases "atom_specs_of r store")
      (auto simp: evaluate_rule_def Let_def no_computed_def)
qed

lemma evaluate_rule_set:
  assumes "evaluate_rule r store order = Inr rs"
  shows "set rs = rule_answers r (facts_of store)"
proof -
  have "is_ok (evaluate_rule r store order)" using assms by simp
  then obtain specs where e: "analyze (from_rule r) HashFallback = Eligible" "no_computed r"
    and s: "atom_specs_of r store = Inr specs" and ok: "leaves_ok r specs"
    unfolding evaluate_rule_ok_iff by blast
  let ?bs = "assignments (domain_lists (from_rule r) specs) (order (from_rule r)) Map.empty"
  obtain rs0 where rs0: "fold_res (push_leaf (from_rule r) specs (comparisons r) (head r)) ?bs []
      = Inr rs0" and rs: "rs = sort_dedup rs0"
    using assms evaluate_rule_unfold [OF e s] by (auto simp: map_res_Inr_iff)
  show ?thesis
    using fold_push_leaf_Inr [OF rs0] rs
      leaf_rows_are_answers [OF atom_specs_of_Inr [OF s] refl] ok
    by (simp add: assignments_order leaves_ok_def)
qed

lemma evaluate_rule_sorted:
  assumes "evaluate_rule r store order = Inr rs"
  shows "sorted rs" "distinct rs"
  using assms
  by (auto simp: evaluate_rule_def Let_def map_res_Inr_iff bind_res_Inr_iff
      split: eligibility.splits if_splits)

lemma evaluate_rule_answers:
  assumes "evaluate_rule r store order = Inr rs"
  shows "rs = sorted_list_of_set (rule_answers r (facts_of store))"
  using evaluate_rule_set [OF assms] evaluate_rule_sorted [OF assms]
  by (metis sorted_list_of_set.idem_if_sorted_distinct)

lemma evaluate_rule_no_panic: "evaluate_rule r store order \<noteq> Inl EvalPanic"
proof (cases "analyze (from_rule r) HashFallback = Eligible \<and> no_computed r
    \<and> is_ok (atom_specs_of r store)")
  case True
  then obtain specs where s: "atom_specs_of r store = Inr specs" by (auto simp: is_ok_iff)
  let ?bs = "assignments (domain_lists (from_rule r) specs) (order (from_rule r)) Map.empty"
  have "leaf_row (from_rule r) specs (comparisons r) (head r) b \<noteq> Inl EvalPanic" if "b \<in> set ?bs" for b
  proof (rule leaf_row_no_panic)
    have "agrees (from_rule r) b (valuation_of (from_rule r) b)"
      using that valuation_of_agrees by (simp add: assignments_order)
    from all_atoms_match_iff [OF atom_specs_of_Inr [OF s] _ this]
    show "is_ok (all_atoms_match specs b)" by simp
  qed
  then show ?thesis
    using True evaluate_rule_unfold [OF _ _ s]
    by (auto simp: map_res_Inl_iff dest!: fold_push_leaf_Inl)
next
  case False
  then show ?thesis
    using atom_specs_no_panic [of r store]
    by (cases "analyze (from_rule r) HashFallback"; cases "atom_specs_of r store")
      (auto simp: evaluate_rule_def Let_def no_computed_def)
qed

end

text \<open>Two lawful orders succeed on the same inputs and return the same rows.\<close>

lemma evaluate_rule_order_irrelevant:
  assumes "variable_order o1" and "variable_order o2"
    and "evaluate_rule r store o1 = Inr rs"
  shows "evaluate_rule r store o2 = Inr rs"
proof -
  have "is_ok (evaluate_rule r store o2)"
    using assms variable_order.evaluate_rule_ok_iff by (metis is_ok_simps(2))
  then obtain rs' where "evaluate_rule r store o2 = Inr rs'" by (auto simp: is_ok_iff)
  then show ?thesis
    using assms variable_order.evaluate_rule_answers by metis
qed

section \<open>Answers grow with the interpretation\<close>

lemma atom_holds_mono: "I \<le> J \<Longrightarrow> atom_holds I s a \<Longrightarrow> atom_holds J s a"
  unfolding atom_holds_def le_fun_def by blast

lemma rule_answers_mono: "I \<le> J \<Longrightarrow> rule_answers r I \<subseteq> rule_answers r J"
  unfolding rule_answers_def using atom_holds_mono by blast

lemma mono_rule_answers: "mono (rule_answers r)"
  by (rule monoI) (rule rule_answers_mono)

section \<open>Properties of the evaluator\<close>

text \<open>A two-hop rule with a comparison, a constant and a wildcard, for the witnesses.\<close>

definition hop_rule :: rule where
  "hop_rule =
     \<lparr>head = \<lparr>predicate = ''hop'', terms = [Variable ''X'', Variable ''Z'', Integer 7]\<rparr>,
      body = [Positive \<lparr>predicate = ''edge'', terms = [Variable ''X'', Variable ''Y'']\<rparr>,
              Positive \<lparr>predicate = ''edge'', terms = [Variable ''Y'', Variable ''Z'']\<rparr>,
              Positive \<lparr>predicate = ''node'', terms = [Variable ''Z'', Anonymous, Str ''on'']\<rparr>,
              Comparison \<lparr>cmp_left = Variable ''X'', cmp_op = Lt, cmp_right = Variable ''Z''\<rparr>]\<rparr>"

definition hop_store :: ref_store where
  "hop_store =
     [''edge'' \<mapsto> \<lparr>schema = [TyU32, TyU32],
        rows = [[VU32 1, VU32 2], [VU32 2, VU32 3], [VU32 3, VU32 1]]\<rparr>,
      ''node'' \<mapsto> \<lparr>schema = [TyU32, TyBool, TySymbol],
        rows = [[VU32 3, VBool True, VSymbol ''on''], [VU32 1, VBool False, VSymbol ''on'']]\<rparr>]"

lemma hop_run: "evaluate_rule hop_rule hop_store appearance_order = Inr [[VU32 1, VU32 3, VI64 7]]"
  by code_simp

text \<open>C11: along any lawful variable order, a successful evaluation of a rule returns exactly the
  rule's declarative answers over the supplied relations, sorted and without duplicates.\<close>

theorem evaluate_rule_correct:
  assumes "variable_order order" and "evaluate_rule r store order = Inr rs"
  shows "rs = sorted_list_of_set (rule_answers r (facts_of store))"
  using variable_order.evaluate_rule_answers assms .

theorem evaluate_rule_correct_witness:
  "[[VU32 1, VU32 3, VI64 7]] = sorted_list_of_set (rule_answers hop_rule (facts_of hop_store))"
  by (rule evaluate_rule_correct [OF appearance.variable_order_axioms hop_run])

text \<open>The variable order is an efficiency knob only: if one lawful order succeeds, every lawful
  order succeeds and returns the same rows.\<close>

theorem evaluate_rule_any_order:
  assumes "variable_order o1" and "variable_order o2" and "evaluate_rule r store o1 = Inr rs"
  shows "evaluate_rule r store o2 = Inr rs"
  using evaluate_rule_order_irrelevant assms .

theorem evaluate_rule_any_order_witness:
  "evaluate_rule hop_rule hop_store reverse_order = Inr [[VU32 1, VU32 3, VI64 7]]"
  by (rule evaluate_rule_any_order [OF appearance.variable_order_axioms
        reversed.variable_order_axioms hop_run])

text \<open>A store with a row shorter than its schema and a row of another type.\<close>

definition ragged_store :: ref_store where
  "ragged_store =
     hop_store(''edge'' \<mapsto> \<lparr>schema = [TyU32, TyU32], rows = [[VU32 1, VU32 2], [VU32 2]]\<rparr>)"

text \<open>C19: along any lawful variable order no evaluation panics, whatever the rule and the relations
  are: no row is read past its end, no schema past its width, no domain past the number of vertices,
  and the debug assertion on the length of the order holds. Ragged rows and atoms of another arity
  are reported as errors before any of these reads.\<close>

theorem evaluate_rule_never_panics:
  assumes "variable_order order"
  shows "evaluate_rule r store order \<noteq> Inl EvalPanic"
  using variable_order.evaluate_rule_no_panic assms .

theorem evaluate_rule_never_panics_witness:
  "evaluate_rule hop_rule ragged_store appearance_order \<noteq> Inl EvalPanic"
  by (rule evaluate_rule_never_panics [OF appearance.variable_order_axioms])

end
