(* ===== verification/Fixpoint_Eval.thy ===== *)
theory Fixpoint_Eval
  imports Reference_Correct
begin

text \<open>
  The naive fixpoint evaluators over a single target predicate (\<open>hypergraph/fixpoint.rs\<close>) and over
  a strongly connected component of predicates (\<open>hypergraph/scc.rs\<close>). The loops of at most
  \<open>max_iterations\<close> rounds are recursions on the number of rounds left. A \<open>BTreeMap\<close> of rules is its
  list of entries in key order. The abstract specification is the least model of the rules over
  the base relations, the least fixpoint of the immediate-consequence operator; both evaluators
  compute it when they converge, and the iteration cap is hit only by models with at least that
  many rows.
\<close>

section \<open>The evaluator for one predicate\<close>

record fixpoint_config =
  max_iterations :: nat

definition default_config :: fixpoint_config where
  "default_config = \<lparr>max_iterations = 32\<rparr>"

datatype fixpoint_error =
    RuleNotForTarget nat string string
  | FixHeadArityMismatch nat nat nat
  | TargetPredicateInBaseRelations string
  | FixRuleEval (fix_rule_index: nat) (fix_source: ref_eval_error)
  | FixMaxIterationsExceeded (fix_limit: nat) (fix_observed_size: nat)
  | TargetSchemaIndeterminable
  | FixInvalidMaxIterations

fun value_type :: "ref_value \<Rightarrow> scalar_type" where
  "value_type (VU32 _) = TyU32"
| "value_type (VU64 _) = TyU64"
| "value_type (VI32 _) = TyI32"
| "value_type (VI64 _) = TyI64"
| "value_type (VBool _) = TyBool"
| "value_type (VSymbol _) = TySymbol"

definition infer_schema :: "ref_value list \<Rightarrow> scalar_type list" where
  "infer_schema row = map value_type row"

definition head_arity :: "rule \<Rightarrow> nat" where
  "head_arity r = length (terms (head r))"

text \<open>The arity of the first rule with a non-empty head.\<close>

definition first_head_arity :: "rule list \<Rightarrow> nat option" where
  "first_head_arity rs = map_option head_arity (find (\<lambda>r. terms (head r) \<noteq> []) rs)"

definition target_error :: "string \<Rightarrow> nat \<times> rule \<Rightarrow> fixpoint_error option" where
  "target_error target = (\<lambda>(i, r).
     if predicate (head r) \<noteq> target then Some (RuleNotForTarget i (predicate (head r)) target)
     else None)"

definition arity_error :: "nat \<Rightarrow> nat \<times> rule \<Rightarrow> fixpoint_error option" where
  "arity_error arity = (\<lambda>(i, r).
     if terms (head r) = [] then None
     else if head_arity r \<noteq> arity then Some (FixHeadArityMismatch i (head_arity r) arity)
     else None)"

definition schema_or_placeholder :: "scalar_type list option \<Rightarrow> nat \<Rightarrow> scalar_type list" where
  "schema_or_placeholder sch arity = (case sch of Some s \<Rightarrow> s | None \<Rightarrow> replicate arity TyU32)"

definition freeze_schema ::
    "scalar_type list option \<Rightarrow> ref_value list list \<Rightarrow> scalar_type list option" where
  "freeze_schema sch rs =
     (case sch of
        Some s \<Rightarrow> Some s
      | None \<Rightarrow> (case rs of [] \<Rightarrow> None | row # _ \<Rightarrow> Some (infer_schema row)))"

text \<open>One pass over the rules: the rows they produce, in rule order.\<close>

definition run_rules ::
    "rule list \<Rightarrow> ref_store \<Rightarrow> (hypergraph_rule \<Rightarrow> vertex_id list)
     \<Rightarrow> (nat \<times> ref_eval_error) + ref_value list list" where
  "run_rules rs store order =
     map_res concat
       (traverse (\<lambda>(i, r). map_err (\<lambda>e. (i, e)) (evaluate_rule r store order)) (indexed rs))"

fun fixpoint_loop ::
    "rule list \<Rightarrow> ref_store \<Rightarrow> string \<Rightarrow> (hypergraph_rule \<Rightarrow> vertex_id list) \<Rightarrow> nat \<Rightarrow> nat
     \<Rightarrow> nat \<Rightarrow> scalar_type list option \<Rightarrow> ref_value list list \<Rightarrow> fixpoint_error + ref_relation"
  where
  "fixpoint_loop rs base target order arity limit 0 sch derived =
     Inl (FixMaxIterationsExceeded limit (length derived))"
| "fixpoint_loop rs base target order arity limit (Suc left) sch derived =
     (let store = base(target \<mapsto> \<lparr>schema = schema_or_placeholder sch arity, rows = derived\<rparr>)
      in bind_res (map_err (\<lambda>(i, e). FixRuleEval i e) (run_rules rs store order)) (\<lambda>produced.
        let new_rows = sort_dedup (derived @ produced);
            sch' = freeze_schema sch new_rows
        in if new_rows = derived
           then Inr \<lparr>schema = schema_or_placeholder sch' arity, rows = derived\<rparr>
           else fixpoint_loop rs base target order arity limit left sch' new_rows))"

definition evaluate_fixpoint ::
    "rule list \<Rightarrow> ref_store \<Rightarrow> string \<Rightarrow> (hypergraph_rule \<Rightarrow> vertex_id list) \<Rightarrow> fixpoint_config
     \<Rightarrow> fixpoint_error + ref_relation" where
  "evaluate_fixpoint rs base target order config =
     (if max_iterations config = 0 then Inl FixInvalidMaxIterations
      else if base target \<noteq> None then Inl (TargetPredicateInBaseRelations target)
      else bind_res (check (first_error (target_error target) (indexed rs))) (\<lambda>_.
        case first_head_arity rs of
          None \<Rightarrow> Inl TargetSchemaIndeterminable
        | Some arity \<Rightarrow>
            bind_res (check (first_error (arity_error arity) (indexed rs))) (\<lambda>_.
              fixpoint_loop rs base target order arity (max_iterations config)
                (max_iterations config) None [])))"

section \<open>The evaluator for a component of predicates\<close>

datatype scc_fixpoint_error =
    RuleHeadPredicateMismatch string nat string
  | SccHeadArityMismatch string nat nat nat
  | InconsistentHeadValueTypes string nat scalar_type got
  | PredicateInBaseRelations string
  | SccRuleEval (scc_predicate: string) (scc_rule_index: nat) (scc_source: ref_eval_error)
  | SccMaxIterationsExceeded (scc_limit: nat) (scc_predicate_count: nat) (scc_total_rows: nat)
  | SchemaIndeterminable string
  | SccInvalidMaxIterations

type_synonym rule_groups = "(string \<times> rule list) list"

definition group_head_error :: "string \<Rightarrow> nat \<times> rule \<Rightarrow> scc_fixpoint_error option" where
  "group_head_error p = (\<lambda>(i, r).
     if predicate (head r) \<noteq> p then Some (RuleHeadPredicateMismatch p i (predicate (head r)))
     else None)"

definition group_arity_error :: "string \<Rightarrow> nat \<Rightarrow> nat \<times> rule \<Rightarrow> scc_fixpoint_error option" where
  "group_arity_error p arity = (\<lambda>(i, r).
     if terms (head r) = [] then None
     else if head_arity r \<noteq> arity then Some (SccHeadArityMismatch p i (head_arity r) arity)
     else None)"

definition group_arity ::
    "ref_store \<Rightarrow> string \<times> rule list \<Rightarrow> scc_fixpoint_error + (string \<times> nat)" where
  "group_arity base = (\<lambda>(p, rs).
     if base p \<noteq> None then Inl (PredicateInBaseRelations p)
     else bind_res (check (first_error (group_head_error p) (indexed rs))) (\<lambda>_.
       case first_head_arity rs of
         None \<Rightarrow> Inl (SchemaIndeterminable p)
       | Some arity \<Rightarrow>
           bind_res (check (first_error (group_arity_error p arity) (indexed rs))) (\<lambda>_.
             Inr (p, arity))))"

definition column_mismatch :: "nat \<times> ref_value \<times> scalar_type \<Rightarrow> (nat \<times> scalar_type \<times> got) option"
  where
  "column_mismatch = (\<lambda>(i, v, ty).
     if ref_value_matches_scalar_type v ty then None else Some (i, ty, GotValue v))"

definition first_type_mismatch ::
    "ref_value list \<Rightarrow> scalar_type list \<Rightarrow> (nat \<times> scalar_type \<times> got) option" where
  "first_type_mismatch row sch = first_error column_mismatch (indexed (zip row sch))"

definition head_type_error ::
    "string \<Rightarrow> scalar_type list \<Rightarrow> ref_value list \<Rightarrow> scc_fixpoint_error option" where
  "head_type_error p sch row =
     (case first_type_mismatch row sch of
        None \<Rightarrow> None
      | Some (c, ty, g) \<Rightarrow> Some (InconsistentHeadValueTypes p c ty g))"

text \<open>
  The frozen schemas and the derived rows are total functions of the predicate: \<open>None\<close> and \<open>[]\<close>
  are the values every key of the rules is given before the loop.
\<close>

type_synonym scc_state = "(string \<Rightarrow> scalar_type list option) \<times> (string \<Rightarrow> ref_value list list)"

definition scc_relation ::
    "(string \<rightharpoonup> nat) \<Rightarrow> scc_state \<Rightarrow> string \<Rightarrow> ref_relation" where
  "scc_relation arities st p =
     \<lparr>schema = schema_or_placeholder (fst st p) (the (arities p)), rows = snd st p\<rparr>"

definition scc_store ::
    "rule_groups \<Rightarrow> ref_store \<Rightarrow> (string \<rightharpoonup> nat) \<Rightarrow> scc_state \<Rightarrow> ref_store" where
  "scc_store groups base arities st =
     base ++ map_of (map (\<lambda>(p, _). (p, scc_relation arities st p)) groups)"

definition run_group ::
    "ref_store \<Rightarrow> (hypergraph_rule \<Rightarrow> vertex_id list) \<Rightarrow> string \<times> rule list \<Rightarrow> scc_state
     \<Rightarrow> scc_fixpoint_error + scc_state" where
  "run_group store order = (\<lambda>(p, rs) (frozen, target).
     bind_res (map_err (\<lambda>(i, e). SccRuleEval p i e) (run_rules rs store order)) (\<lambda>produced.
       let frozen' = frozen(p := freeze_schema (frozen p) produced)
       in bind_res
            (case frozen' p of
               None \<Rightarrow> Inr ()
             | Some sch \<Rightarrow> check (first_error (head_type_error p sch) produced))
            (\<lambda>_. Inr (frozen', target(p := sort_dedup (target p @ produced))))))"

fun scc_loop ::
    "rule_groups \<Rightarrow> ref_store \<Rightarrow> (hypergraph_rule \<Rightarrow> vertex_id list) \<Rightarrow> (string \<rightharpoonup> nat) \<Rightarrow> nat
     \<Rightarrow> nat \<Rightarrow> scc_state \<Rightarrow> scc_fixpoint_error + ref_store" where
  "scc_loop groups base order arities limit 0 st =
     Inl (SccMaxIterationsExceeded limit (length groups)
           (sum_list (map (\<lambda>(p, _). length (snd st p)) groups)))"
| "scc_loop groups base order arities limit (Suc left) st =
     bind_res (fold_res (run_group (scc_store groups base arities st) order) groups st) (\<lambda>st'.
       if list_all (\<lambda>(p, _). snd st' p = snd st p) groups
       then Inr (map_of (map (\<lambda>(p, _). (p, scc_relation arities (fst st', snd st) p)) groups))
       else scc_loop groups base order arities limit left st')"

definition evaluate_scc_fixpoint ::
    "rule_groups \<Rightarrow> ref_store \<Rightarrow> (hypergraph_rule \<Rightarrow> vertex_id list) \<Rightarrow> fixpoint_config
     \<Rightarrow> scc_fixpoint_error + ref_store" where
  "evaluate_scc_fixpoint groups base order config =
     (if max_iterations config = 0 then Inl SccInvalidMaxIterations
      else bind_res (traverse (group_arity base) groups) (\<lambda>arities.
        scc_loop groups base order (map_of arities) (max_iterations config)
          (max_iterations config) (\<lambda>_. None, \<lambda>_. [])))"

section \<open>The least model\<close>

definition consequence :: "rule_groups \<Rightarrow> interp \<Rightarrow> interp \<Rightarrow> interp" where
  "consequence groups base I p =
     (case map_of groups p of
        Some rs \<Rightarrow> (\<Union>r \<in> set rs. rule_answers r I)
      | None \<Rightarrow> base p)"

definition least_model :: "rule_groups \<Rightarrow> interp \<Rightarrow> interp" where
  "least_model groups base = lfp (consequence groups base)"

lemma consequence_mono: "I \<le> J \<Longrightarrow> consequence groups base I \<le> consequence groups base J"
proof (rule le_funI)
  fix p assume "I \<le> J"
  then show "consequence groups base I p \<le> consequence groups base J p"
    using rule_answers_mono [of I J]
    by (cases "map_of groups p") (auto simp: consequence_def)
qed

lemma mono_consequence: "mono (consequence groups base)"
  by (rule monoI) (rule consequence_mono)

lemma least_model_unfold:
  "least_model groups base = consequence groups base (least_model groups base)"
  unfolding least_model_def by (rule lfp_unfold [OF mono_consequence])

lemma least_model_least: "consequence groups base I \<le> I \<Longrightarrow> least_model groups base \<le> I"
  unfolding least_model_def by (rule lfp_lowerbound)

text \<open>
  A sound state: the base relations as they are, and only derivable rows for the predicates of the
  rules. A sound state that is closed under the rules is the least model.
\<close>

definition sound_state :: "rule_groups \<Rightarrow> interp \<Rightarrow> interp \<Rightarrow> bool" where
  "sound_state groups base I = (I \<le> least_model groups base)"

lemma sound_consequence:
  "sound_state groups base I \<Longrightarrow> consequence groups base I \<le> least_model groups base"
  unfolding sound_state_def
  by (subst least_model_unfold) (rule consequence_mono)

lemma closed_sound_state:
  assumes "sound_state groups base I" and "consequence groups base I \<le> I"
  shows "I = least_model groups base"
  using assms least_model_least by (metis antisym sound_state_def)

section \<open>One pass over the rules\<close>

lemma set_run_rules:
  assumes "variable_order order" and "run_rules rs store order = Inr produced"
  shows "set produced = (\<Union>r \<in> set rs. rule_answers r (facts_of store))"
proof -
  obtain yss where yss: "traverse (\<lambda>(i, r). map_err (\<lambda>e. (i, e)) (evaluate_rule r store order))
      (indexed rs) = Inr yss" and p: "produced = concat yss"
    using assms(2) by (auto simp: run_rules_def map_res_Inr_iff)
  have len: "length yss = length rs" using traverse_length [OF yss] by simp
  have "set (yss ! i) = rule_answers (rs ! i) (facts_of store)" if "i < length rs" for i
    using traverse_nth [OF yss, of i] that variable_order.evaluate_rule_set [OF assms(1)]
    by (simp add: map_err_Inr_iff)
  then have "(\<Union>ys \<in> set yss. set ys) = (\<Union>r \<in> set rs. rule_answers r (facts_of store))"
    using len by (auto simp: in_set_conv_nth) (metis in_set_conv_nth nth_mem)+
  then show ?thesis by (simp add: p)
qed

lemma sort_dedup_id_iff:
  assumes "sorted xs" and "distinct xs"
  shows "sort_dedup (xs @ ys) = xs \<longleftrightarrow> set ys \<subseteq> set xs"
proof -
  have "sort_dedup xs = xs"
    using assms by (simp add: sort_dedup_eq sorted_list_of_set.idem_if_sorted_distinct)
  then show ?thesis using sort_dedup_eq_iff [of "xs @ ys" xs] by auto
qed

lemma sort_dedup_grows:
  assumes "sorted xs" and "distinct xs" and "sort_dedup (xs @ ys) \<noteq> xs"
  shows "length xs < length (sort_dedup (xs @ ys))"
proof -
  have "set xs \<subset> set (sort_dedup (xs @ ys))"
    using assms sort_dedup_id_iff [of xs ys] by auto
  then have "card (set xs) < card (set (sort_dedup (xs @ ys)))"
    by (intro psubset_card_mono) auto
  then show ?thesis using assms by (simp add: distinct_card del: set_sort_dedup)
qed

lemma facts_of_upd: "facts_of (store(p \<mapsto> rel)) = (facts_of store)(p := set (rows rel))"
  by (simp add: fun_eq_iff facts_of_def)

section \<open>The single-target loop computes the least model\<close>

lemma consequence_one:
  "consequence [(target, rs)] base I =
     base(target := (\<Union>r \<in> set rs. rule_answers r I))"
  by (auto simp: consequence_def fun_eq_iff)

lemma fixpoint_loop_result:
  assumes order: "variable_order order"
    and lm: "lm = least_model [(target, rs)] (facts_of base)"
    and sound: "(facts_of base)(target := set derived) \<le> lm"
    and derived: "sorted derived" "distinct derived"
  shows "case fixpoint_loop rs base target order arity limit left sch derived of
      Inr rel \<Rightarrow> rows rel = sorted_list_of_set (lm target)
    | Inl e \<Rightarrow> (\<forall>l n. e = FixMaxIterationsExceeded l n \<longrightarrow>
        l = limit \<and> length derived + left \<le> n
        \<and> (\<exists>found. set found \<subseteq> lm target \<and> distinct found \<and> length found = n))"
  using sound derived
proof (induction left arbitrary: sch derived)
  case 0
  then have "set derived \<subseteq> lm target" by (simp add: le_fun_def split: if_splits)
  with 0 show ?case by auto
next
  case (Suc left)
  let ?store = "base(target \<mapsto> \<lparr>schema = schema_or_placeholder sch arity, rows = derived\<rparr>)"
  let ?I = "(facts_of base)(target := set derived)"
  show ?case
  proof (cases "run_rules rs ?store order")
    case (Inl ie)
    then show ?thesis by (cases ie) simp
  next
    case (Inr produced)
    have set_p: "set produced = (\<Union>r \<in> set rs. rule_answers r ?I)"
      using set_run_rules [OF order Inr] by (simp add: facts_of_upd)
    let ?new = "sort_dedup (derived @ produced)"
    have C: "consequence [(target, rs)] (facts_of base) ?I
        = (facts_of base)(target := set produced)"
      by (simp add: consequence_one set_p)
    show ?thesis
    proof (cases "?new = derived")
      case True
      then have "set produced \<subseteq> set derived"
        using Suc.prems by (simp add: sort_dedup_id_iff)
      then have "consequence [(target, rs)] (facts_of base) ?I \<le> ?I"
        unfolding C by (simp add: le_fun_def)
      moreover have "sound_state [(target, rs)] (facts_of base) ?I"
        using Suc.prems(1) unfolding lm sound_state_def .
      ultimately have "?I = lm" unfolding lm by (rule closed_sound_state [rotated])
      then have "lm target = set derived" by (metis fun_upd_same)
      then have "derived = sorted_list_of_set (lm target)"
        using Suc.prems(2,3) by (simp add: sorted_list_of_set.idem_if_sorted_distinct)
      then show ?thesis using True Inr by (simp add: Let_def)
    next
      case False
      have "(facts_of base)(target := set produced) \<le> lm"
        using sound_consequence [of "[(target, rs)]" "facts_of base" ?I] Suc.prems(1)
        unfolding lm C sound_state_def by simp
      then have "(facts_of base)(target := set ?new) \<le> lm"
        using Suc.prems(1) by (auto simp: le_fun_def split: if_splits)
      from Suc.IH [OF this, of "freeze_schema sch ?new"] Inr False
        sort_dedup_grows [OF Suc.prems(2,3) False]
      show ?thesis by (auto simp: Let_def split: sum.splits)
    qed
  qed
qed

lemma bottom_le_least_model:
  assumes "base target = None"
  shows "(facts_of base)(target := {}) \<le> least_model [(target, rs)] (facts_of base)"
proof -
  have "(facts_of base)(target := {}) = facts_of base"
    using assms by (auto simp: facts_of_def fun_eq_iff)
  moreover have "facts_of base \<le> least_model [(target, rs)] (facts_of base)"
    using assms by (subst least_model_unfold) (auto simp: consequence_one le_fun_def facts_of_def)
  ultimately show ?thesis by simp
qed

lemma evaluate_fixpoint_loop:
  assumes "evaluate_fixpoint rs base target order config = res"
    and "(\<exists>rel. res = Inr rel) \<or> (\<exists>l n. res = Inl (FixMaxIterationsExceeded l n))"
  shows "base target = None \<and> (\<exists>arity. res = fixpoint_loop rs base target order arity
    (max_iterations config) (max_iterations config) None [])"
proof -
  have t: "first_error (target_error target) xs \<noteq> Some (FixMaxIterationsExceeded l n)" for xs l n
    by (auto simp: target_error_def dest!: first_error_Some split: if_splits)
  have a: "first_error (arity_error arity) xs \<noteq> Some (FixMaxIterationsExceeded l n)" for arity xs l n
    by (auto simp: arity_error_def dest!: first_error_Some split: if_splits)
  show ?thesis
    using assms t a
    by (auto simp: evaluate_fixpoint_def check_def bind_res_Inr_iff bind_res_Inl_iff
        split: if_splits option.splits)
qed

section \<open>The component loop computes the least model\<close>

definition state_interp :: "rule_groups \<Rightarrow> interp \<Rightarrow> (string \<Rightarrow> ref_value list list) \<Rightarrow> interp" where
  "state_interp groups base target p =
     (if p \<in> fst ` set groups then set (target p) else base p)"

lemma facts_of_scc_store:
  "facts_of (scc_store groups base arities st) = state_interp groups (facts_of base) (snd st)"
proof -
  have "map_of (map (\<lambda>(p, _). (p, scc_relation arities st p)) gs) q =
      (if q \<in> fst ` set gs then Some (scc_relation arities st q) else None)" for gs :: rule_groups and q
    by (induction gs) auto
  then show ?thesis
    by (auto simp: fun_eq_iff facts_of_def scc_store_def map_add_def state_interp_def
        scc_relation_def)
qed

lemma run_group_result:
  assumes order: "variable_order order"
    and run: "run_group store order (p, rs) st = Inr st'"
  shows "\<exists>produced. set produced = (\<Union>r \<in> set rs. rule_answers r (facts_of store))
    \<and> snd st' = (snd st)(p := sort_dedup (snd st p @ produced))"
proof -
  obtain produced where "run_rules rs store order = Inr produced"
    and "snd st' = (snd st)(p := sort_dedup (snd st p @ produced))"
    using run by (cases st) (auto simp: run_group_def bind_res_Inr_iff map_err_Inr_iff Let_def)
  with set_run_rules [OF order] show ?thesis by blast
qed

lemma run_groups_result:
  assumes order: "variable_order order"
    and run: "fold_res (run_group store order) gs st = Inr st'"
    and dist: "distinct (map fst gs)"
  shows "\<exists>prod. (\<forall>(p, rs) \<in> set gs. set (prod p) = (\<Union>r \<in> set rs. rule_answers r (facts_of store)))
    \<and> (\<forall>p. snd st' p = (if p \<in> fst ` set gs then sort_dedup (snd st p @ prod p) else snd st p))"
  using run dist
proof (induction gs arbitrary: st)
  case (Cons g gs)
  obtain p rs where g: "g = (p, rs)" by (cases g)
  obtain st1 where st1: "run_group store order (p, rs) st = Inr st1"
    and rest: "fold_res (run_group store order) gs st1 = Inr st'"
    using Cons.prems(1) by (auto simp: g bind_res_Inr_iff)
  obtain produced where pr: "set produced = (\<Union>r \<in> set rs. rule_answers r (facts_of store))"
    and s1: "snd st1 = (snd st)(p := sort_dedup (snd st p @ produced))"
    using run_group_result [OF order st1] by blast
  obtain prod where prod: "\<forall>(p, rs) \<in> set gs. set (prod p) =
      (\<Union>r \<in> set rs. rule_answers r (facts_of store))"
    and s': "\<forall>p. snd st' p = (if p \<in> fst ` set gs then sort_dedup (snd st1 p @ prod p) else snd st1 p)"
    using Cons.IH [OF rest] Cons.prems(2) by auto
  have fresh: "p \<notin> fst ` set gs" using Cons.prems(2) by (simp add: g)
  show ?case
  proof (intro exI conjI)
    show "\<forall>(q, rs) \<in> set (g # gs). set ((prod(p := produced)) q) =
        (\<Union>r \<in> set rs. rule_answers r (facts_of store))"
    proof (intro ballI, clarify)
      fix q rs' assume q: "(q, rs') \<in> set (g # gs)"
      show "set ((prod(p := produced)) q) = (\<Union>r \<in> set rs'. rule_answers r (facts_of store))"
      proof (cases "(q, rs') = (p, rs)")
        case True
        then show ?thesis using pr by simp
      next
        case False
        then have "(q, rs') \<in> set gs" using q by (auto simp: g)
        moreover from this have "q \<noteq> p" using fresh by force
        ultimately show ?thesis using bspec [OF prod, of "(q, rs')"] by simp
      qed
    qed
    show "\<forall>q. snd st' q = (if q \<in> fst ` set (g # gs) then sort_dedup (snd st q @ (prod(p := produced)) q)
        else snd st q)"
      using s' s1 fresh by (auto simp: g)
  qed
qed simp

definition total_rows :: "rule_groups \<Rightarrow> (string \<Rightarrow> ref_value list list) \<Rightarrow> nat" where
  "total_rows groups target = sum_list (map (\<lambda>(p, _). length (target p)) groups)"

lemma total_rows_Nil: "total_rows groups (\<lambda>_. []) = 0"
  by (simp add: total_rows_def case_prod_unfold)

lemma total_rows_sum:
  "distinct (map fst groups) \<Longrightarrow> total_rows groups t = (\<Sum>p \<in> fst ` set groups. length (t p))"
proof -
  assume d: "distinct (map fst groups)"
  have "total_rows groups t = sum_list (map (\<lambda>p. length (t p)) (map fst groups))"
    by (simp add: total_rows_def case_prod_unfold comp_def)
  with d show ?thesis by (simp only: sum_list_distinct_conv_sum_set) simp
qed

lemma consequence_groups:
  assumes "distinct (map fst groups)"
    and "\<forall>(p, rs) \<in> set groups. set (made p) = (\<Union>r \<in> set rs. rule_answers r I)"
  shows "consequence groups base I p =
    (if p \<in> fst ` set groups then set (made p) else base p)"
proof (cases "p \<in> fst ` set groups")
  case True
  then obtain rs where rs: "(p, rs) \<in> set groups" by auto
  then have "map_of groups p = Some rs" using assms(1) by simp
  moreover have "set (made p) = (\<Union>r \<in> set rs. rule_answers r I)"
    using bspec [OF assms(2), of "(p, rs)"] rs by simp
  ultimately show ?thesis using True by (simp add: consequence_def)
next
  case False
  then have "map_of groups p = None" by (simp add: map_of_eq_None_iff)
  then show ?thesis using False by (simp add: consequence_def)
qed

lemma map_of_groups:
  "map_of (map (\<lambda>(p, _). (p, f p)) gs) q = (if q \<in> fst ` set gs then Some (f q) else None)"
  by (induction gs) auto

text \<open>One round of the component loop, seen as a step of interpretations.\<close>

lemma scc_round:
  assumes order: "variable_order order"
    and dist: "distinct (map fst groups)"
    and sorted: "\<forall>p \<in> fst ` set groups. sorted (snd st p) \<and> distinct (snd st p)"
    and run: "fold_res (run_group (scc_store groups base arities st) order) groups st = Inr st'"
  shows "\<forall>p \<in> fst ` set groups. sorted (snd st' p) \<and> distinct (snd st' p)"
    and "state_interp groups (facts_of base) (snd st') =
      (\<lambda>p. state_interp groups (facts_of base) (snd st) p
         \<union> consequence groups (facts_of base) (state_interp groups (facts_of base) (snd st)) p)"
    and "\<not> list_all (\<lambda>(p, _). snd st' p = snd st p) groups
      \<Longrightarrow> total_rows groups (snd st) < total_rows groups (snd st')"
proof -
  let ?I = "state_interp groups (facts_of base) (snd st)"
  obtain prod where prod: "\<forall>(p, rs) \<in> set groups. set (prod p) = (\<Union>r \<in> set rs. rule_answers r ?I)"
    and st': "\<forall>p. snd st' p = (if p \<in> fst ` set groups then sort_dedup (snd st p @ prod p) else snd st p)"
    using run_groups_result [OF order run dist] by (auto simp: facts_of_scc_store)
  show s': "\<forall>p \<in> fst ` set groups. sorted (snd st' p) \<and> distinct (snd st' p)"
    using st' by simp
  show "state_interp groups (facts_of base) (snd st') = (\<lambda>p. ?I p \<union> consequence groups (facts_of base) ?I p)"
    using st' by (auto simp: fun_eq_iff consequence_groups [OF dist prod] state_interp_def)
  assume "\<not> list_all (\<lambda>(p, _). snd st' p = snd st p) groups"
  then obtain p where p: "p \<in> fst ` set groups" "snd st' p \<noteq> snd st p"
    by (force simp: list_all_iff)
  have le: "length (snd st q) \<le> length (snd st' q) \<and> (snd st' q \<noteq> snd st q \<longrightarrow>
      length (snd st q) < length (snd st' q))" if "q \<in> fst ` set groups" for q
    using sorted st' that sort_dedup_grows [of "snd st q" "prod q"]
    by (cases "snd st' q = snd st q") auto
  then have "(\<Sum>q \<in> fst ` set groups. length (snd st q)) < (\<Sum>q \<in> fst ` set groups. length (snd st' q))"
    using p by (intro sum_strict_mono_ex1) auto
  then show "total_rows groups (snd st) < total_rows groups (snd st')"
    by (simp add: total_rows_sum [OF dist])
qed

lemma scc_loop_result:
  assumes order: "variable_order order"
    and dist: "distinct (map fst groups)"
    and lm: "lm = least_model groups (facts_of base)"
    and sound: "state_interp groups (facts_of base) (snd st) \<le> lm"
    and sorted: "\<forall>p \<in> fst ` set groups. sorted (snd st p) \<and> distinct (snd st p)"
  shows "case scc_loop groups base order arities limit left st of
      Inr out \<Rightarrow> dom out = fst ` set groups
        \<and> (\<forall>p \<in> fst ` set groups. \<exists>rel. out p = Some rel \<and> rows rel = sorted_list_of_set (lm p))
    | Inl e \<Rightarrow> (\<forall>l k n. e = SccMaxIterationsExceeded l k n \<longrightarrow>
        l = limit \<and> k = length groups \<and> total_rows groups (snd st) + left \<le> n
        \<and> (\<exists>found. (\<forall>p \<in> fst ` set groups. set (found p) \<subseteq> lm p \<and> distinct (found p))
              \<and> total_rows groups found = n))"
  using sound sorted
proof (induction left arbitrary: st)
  case 0
  then have "\<forall>p \<in> fst ` set groups. set (snd st p) \<subseteq> lm p"
    by (auto simp: le_fun_def state_interp_def split: if_splits)
  with 0 show ?case by (auto simp: total_rows_def)
next
  case (Suc left)
  let ?I = "state_interp groups (facts_of base) (snd st)"
  show ?case
  proof (cases "fold_res (run_group (scc_store groups base arities st) order) groups st")
    case (Inl e)
    have "e \<noteq> SccMaxIterationsExceeded l k n" for l k n
    proof -
      have h: "head_type_error p sch row \<noteq> Some (SccMaxIterationsExceeded l k n)" for p sch row
        by (auto simp: head_type_error_def split: option.splits)
      have "run_group store order g st \<noteq> Inl (SccMaxIterationsExceeded l k n)" for store g st
        by (cases g; cases "run_rules (snd g) store order"; cases st)
          (auto simp: run_group_def Let_def bind_res_Inl_iff check_def h
            split: option.splits dest!: first_error_Some)
      then have "fold_res (run_group store order) gs st \<noteq> Inl (SccMaxIterationsExceeded l k n)"
        for store gs st
        by (induction gs arbitrary: st) (auto simp: bind_res_Inl_iff)
      with Inl show ?thesis by metis
    qed
    with Inl show ?thesis by auto
  next
    case (Inr st')
    note round = scc_round [OF order dist Suc.prems(2) Inr]
    show ?thesis
    proof (cases "list_all (\<lambda>(p, _). snd st' p = snd st p) groups")
      case True
      then have "state_interp groups (facts_of base) (snd st') = ?I"
        by (force simp: fun_eq_iff state_interp_def list_all_iff)
      then have eq: "(\<lambda>p. ?I p \<union> consequence groups (facts_of base) ?I p) = ?I"
        unfolding round(2) .
      have "consequence groups (facts_of base) ?I \<le> ?I"
      proof (rule le_funI)
        fix p show "consequence groups (facts_of base) ?I p \<le> ?I p"
          using fun_cong [OF eq, of p] by blast
      qed
      moreover have "sound_state groups (facts_of base) ?I"
        using Suc.prems(1) unfolding lm sound_state_def .
      ultimately have "?I = lm" unfolding lm by (rule closed_sound_state [rotated])
      then have "lm p = set (snd st p)" if "p \<in> fst ` set groups" for p
        using that by (metis state_interp_def)
      then have "snd st p = sorted_list_of_set (lm p)" if "p \<in> fst ` set groups" for p
        using bspec [OF Suc.prems(2) that] that
        by (simp add: sorted_list_of_set.idem_if_sorted_distinct)
      then show ?thesis
        using True Inr
        by (auto simp: map_of_groups scc_relation_def dom_def split: if_splits)
    next
      case False
      have "consequence groups (facts_of base) ?I \<le> lm"
        using sound_consequence Suc.prems(1) unfolding lm sound_state_def by blast
      then have "state_interp groups (facts_of base) (snd st') \<le> lm"
        using Suc.prems(1) unfolding round(2) by (simp add: le_fun_def)
      from Suc.IH [OF this round(1)] round(3) [OF False] Inr False
      show ?thesis by (auto split: sum.splits)
    qed
  qed
qed

lemma evaluate_scc_fixpoint_loop:
  assumes "evaluate_scc_fixpoint groups base order config = res"
    and "(\<exists>out. res = Inr out) \<or> (\<exists>l k n. res = Inl (SccMaxIterationsExceeded l k n))"
  shows "(\<forall>p \<in> fst ` set groups. base p = None)
    \<and> (\<exists>arities. res = scc_loop groups base order arities
    (max_iterations config) (max_iterations config) (\<lambda>_. None, \<lambda>_. []))"
proof -
  have no: "group_arity base g \<noteq> Inl (SccMaxIterationsExceeded l k n)" for g l k n
    by (cases g) (auto simp: group_arity_def group_head_error_def group_arity_error_def check_def
        bind_res_Inl_iff split: option.splits if_splits dest!: first_error_Some)
  have ok: "base (fst g) = None" if "group_arity base g = Inr x" for g x
    using that by (cases g) (auto simp: group_arity_def split: if_splits)
  show ?thesis
  proof (cases "traverse (group_arity base) groups")
    case (Inl e)
    then show ?thesis
      using assms no traverse_never [of "group_arity base"]
      by (auto simp: evaluate_scc_fixpoint_def split: if_splits)
  next
    case (Inr ars)
    then have "\<forall>g \<in> set groups. is_ok (group_arity base g)"
      using is_ok_traverse by (metis is_ok_simps(2))
    then have "\<forall>p \<in> fst ` set groups. base p = None"
      using ok by (auto simp: is_ok_iff)
    then show ?thesis
      using Inr assms by (auto simp: evaluate_scc_fixpoint_def split: if_splits)
  qed
qed

lemma scc_bottom_sound:
  assumes "\<forall>p \<in> fst ` set groups. base p = None"
  shows "state_interp groups (facts_of base) (\<lambda>_. []) \<le> least_model groups (facts_of base)"
proof (rule le_funI)
  fix p
  show "state_interp groups (facts_of base) (\<lambda>_. []) p \<le> least_model groups (facts_of base) p"
  proof (cases "p \<in> fst ` set groups")
    case False
    then have "map_of groups p = None" by (simp add: map_of_eq_None_iff)
    then show ?thesis
      using False by (subst least_model_unfold) (simp add: consequence_def state_interp_def)
  qed (simp add: state_interp_def)
qed

section \<open>Properties of the fixpoint evaluators\<close>

definition tc_rules :: "rule list" where
  "tc_rules =
     [\<lparr>head = \<lparr>predicate = ''tc'', terms = [Variable ''X'', Variable ''Z'']\<rparr>,
       body = [Positive \<lparr>predicate = ''edge'', terms = [Variable ''X'', Variable ''Y'']\<rparr>,
               Positive \<lparr>predicate = ''edge'', terms = [Variable ''Y'', Variable ''Z'']\<rparr>]\<rparr>,
      \<lparr>head = \<lparr>predicate = ''tc'', terms = [Variable ''X'', Variable ''Z'']\<rparr>,
       body = [Positive \<lparr>predicate = ''tc'', terms = [Variable ''X'', Variable ''Y'']\<rparr>,
               Positive \<lparr>predicate = ''edge'', terms = [Variable ''Y'', Variable ''Z'']\<rparr>]\<rparr>]"

definition tc_base :: ref_store where
  "tc_base = [''edge'' \<mapsto> \<lparr>schema = [TyU32, TyU32],
     rows = [[VU32 1, VU32 2], [VU32 2, VU32 3], [VU32 3, VU32 4]]\<rparr>]"

definition tc_rows :: "ref_value list list" where
  "tc_rows = [[VU32 1, VU32 3], [VU32 1, VU32 4], [VU32 2, VU32 4]]"

lemma tc_run: "evaluate_fixpoint tc_rules tc_base ''tc'' appearance_order default_config =
    Inr \<lparr>schema = [TyU32, TyU32], rows = tc_rows\<rparr>"
  by code_simp

lemma tc_capped: "evaluate_fixpoint tc_rules tc_base ''tc'' appearance_order \<lparr>max_iterations = 2\<rparr> =
    Inl (FixMaxIterationsExceeded 2 3)"
  by code_simp

lemma tc_scc_run:
  "map_res (\<lambda>out. out ''tc'') (evaluate_scc_fixpoint [(''tc'', tc_rules)] tc_base appearance_order default_config)
   = Inr (Some \<lparr>schema = [TyU32, TyU32], rows = tc_rows\<rparr>)"
  by code_simp

lemma tc_scc_capped_run:
  "(case evaluate_scc_fixpoint [(''tc'', tc_rules)] tc_base appearance_order \<lparr>max_iterations = 1\<rparr> of
      Inl e \<Rightarrow> Some e | Inr _ \<Rightarrow> None) = Some (SccMaxIterationsExceeded 1 1 2)"
  by code_simp

lemma tc_scc_capped:
  "evaluate_scc_fixpoint [(''tc'', tc_rules)] tc_base appearance_order \<lparr>max_iterations = 1\<rparr>
   = Inl (SccMaxIterationsExceeded 1 1 2)"
  using tc_scc_capped_run by (simp split: sum.splits)

lemma fixpoint_run_result:
  assumes "variable_order order"
    and "evaluate_fixpoint rs base target order config = res"
    and "(\<exists>rel. res = Inr rel) \<or> (\<exists>l n. res = Inl (FixMaxIterationsExceeded l n))"
  shows "case res of
      Inr rel \<Rightarrow> rows rel = sorted_list_of_set (least_model [(target, rs)] (facts_of base) target)
    | Inl e \<Rightarrow> (\<forall>l n. e = FixMaxIterationsExceeded l n \<longrightarrow>
        l = max_iterations config \<and> max_iterations config \<le> n
        \<and> (\<exists>found. set found \<subseteq> least_model [(target, rs)] (facts_of base) target
              \<and> distinct found \<and> length found = n))"
proof -
  obtain arity where b: "base target = None" and l: "res = fixpoint_loop rs base target order
      arity (max_iterations config) (max_iterations config) None []"
    using evaluate_fixpoint_loop [OF assms(2,3)] by auto
  have "(facts_of base)(target := set []) \<le> least_model [(target, rs)] (facts_of base)"
    using bottom_le_least_model [of base target, OF b] by simp
  from fixpoint_loop_result [OF assms(1) refl this, where arity = arity and
      limit = "max_iterations config" and left = "max_iterations config" and sch = None]
  show ?thesis unfolding l [symmetric] by (simp only: list.size(3) add_0 sorted0 distinct.simps simp_thms)
qed

text \<open>C12: when the single-target fixpoint converges, its rows are exactly the least model of the
  rules over the base relations at the target predicate, sorted and without duplicates.\<close>

theorem evaluate_fixpoint_least_model:
  assumes "variable_order order"
    and "evaluate_fixpoint rs base target order config = Inr rel"
  shows "rows rel = sorted_list_of_set (least_model [(target, rs)] (facts_of base) target)"
  using fixpoint_run_result [OF assms] by simp

theorem evaluate_fixpoint_least_model_witness:
  "tc_rows = sorted_list_of_set (least_model [(''tc'', tc_rules)] (facts_of tc_base) ''tc'')"
  using evaluate_fixpoint_least_model [OF appearance.variable_order_axioms tc_run] by simp

text \<open>C20: the single-target fixpoint gives up only when the least model really has at least
  \<open>max_iterations\<close> rows: the reported limit is the configured one, every round added a row, and all
  the rows counted are rows of the least model. A model with fewer rows than the cap always
  converges (or fails with a rule error), and is never cut short.\<close>

theorem evaluate_fixpoint_cap:
  assumes "variable_order order"
    and "evaluate_fixpoint rs base target order config = Inl (FixMaxIterationsExceeded l n)"
  shows "l = max_iterations config \<and> l \<le> n
    \<and> (\<exists>found. set found \<subseteq> least_model [(target, rs)] (facts_of base) target
          \<and> distinct found \<and> length found = n)"
  using fixpoint_run_result [OF assms] by simp

theorem evaluate_fixpoint_cap_witness:
  "\<exists>found. set found \<subseteq> least_model [(''tc'', tc_rules)] (facts_of tc_base) ''tc''
     \<and> distinct found \<and> length found = 3"
  using evaluate_fixpoint_cap [OF appearance.variable_order_axioms tc_capped] by blast

lemma scc_run_result:
  assumes "variable_order order" and "distinct (map fst groups)"
    and "evaluate_scc_fixpoint groups base order config = res"
    and "(\<exists>out. res = Inr out) \<or> (\<exists>l k n. res = Inl (SccMaxIterationsExceeded l k n))"
  shows "case res of
      Inr out \<Rightarrow> dom out = fst ` set groups
        \<and> (\<forall>p \<in> fst ` set groups. \<exists>rel. out p = Some rel
              \<and> rows rel = sorted_list_of_set (least_model groups (facts_of base) p))
    | Inl e \<Rightarrow> (\<forall>l k n. e = SccMaxIterationsExceeded l k n \<longrightarrow>
        l = max_iterations config \<and> k = length groups \<and> max_iterations config \<le> n
        \<and> (\<exists>found. (\<forall>p \<in> fst ` set groups. set (found p) \<subseteq> least_model groups (facts_of base) p
                \<and> distinct (found p)) \<and> total_rows groups found = n))"
proof -
  obtain arities where b: "\<forall>p \<in> fst ` set groups. base p = None"
    and l: "res = scc_loop groups base order arities (max_iterations config)
      (max_iterations config) (\<lambda>_. None, \<lambda>_. [])"
    using evaluate_scc_fixpoint_loop [OF assms(3,4)] by auto
  let ?st = "(\<lambda>_. None, \<lambda>_. []) :: scc_state"
  have bot: "state_interp groups (facts_of base) (snd ?st) \<le> least_model groups (facts_of base)"
    using scc_bottom_sound [OF b] by simp
  have srt: "\<forall>p \<in> fst ` set groups. sorted (snd ?st p) \<and> distinct (snd ?st p)" by simp
  show ?thesis
    using scc_loop_result [OF assms(1,2) refl bot srt, where arities = arities and
        left = "max_iterations config" and limit = "max_iterations config"]
    unfolding l [symmetric] by (simp only: snd_conv total_rows_Nil add_0)
qed

text \<open>C1: when the component fixpoint converges, it returns a relation for exactly the predicates of
  the rule groups, and the rows of each are the least model of all the groups together.\<close>

theorem evaluate_scc_fixpoint_least_model:
  assumes "variable_order order" and "distinct (map fst groups)"
    and "evaluate_scc_fixpoint groups base order config = Inr out"
  shows "dom out = fst ` set groups \<and> (\<forall>p rel. out p = Some rel
    \<longrightarrow> rows rel = sorted_list_of_set (least_model groups (facts_of base) p))"
proof -
  have d: "dom out = fst ` set groups"
    and r: "\<forall>p \<in> fst ` set groups. \<exists>rel. out p = Some rel
      \<and> rows rel = sorted_list_of_set (least_model groups (facts_of base) p)"
    using scc_run_result [OF assms] by simp_all
  have "rows rel = sorted_list_of_set (least_model groups (facts_of base) p)"
    if "out p = Some rel" for p rel
    using bspec [OF r, of p] that d by (auto simp: dom_def)
  with d show ?thesis by blast
qed

theorem evaluate_scc_fixpoint_least_model_witness:
  "tc_rows = sorted_list_of_set (least_model [(''tc'', tc_rules)] (facts_of tc_base) ''tc'')"
proof -
  obtain out where run: "evaluate_scc_fixpoint [(''tc'', tc_rules)] tc_base appearance_order
      default_config = Inr out" and "out ''tc'' = Some \<lparr>schema = [TyU32, TyU32], rows = tc_rows\<rparr>"
    using tc_scc_run by (auto simp: map_res_Inr_iff)
  then show ?thesis
    using evaluate_scc_fixpoint_least_model [OF appearance.variable_order_axioms _ run]
    by fastforce
qed

text \<open>The component fixpoint gives up only when the least model has at least \<open>max_iterations\<close>
  rows over its predicates: the total it reports counts rows of the least model, without
  repetition.\<close>

theorem evaluate_scc_fixpoint_cap:
  assumes "variable_order order" and "distinct (map fst groups)"
    and "evaluate_scc_fixpoint groups base order config = Inl (SccMaxIterationsExceeded l k n)"
  shows "l = max_iterations config \<and> k = length groups \<and> l \<le> n
    \<and> (\<exists>found. (\<forall>p \<in> fst ` set groups. set (found p) \<subseteq> least_model groups (facts_of base) p
          \<and> distinct (found p)) \<and> total_rows groups found = n)"
  using scc_run_result [OF assms] by auto

theorem evaluate_scc_fixpoint_cap_witness:
  "\<exists>found. set (found ''tc'') \<subseteq> least_model [(''tc'', tc_rules)] (facts_of tc_base) ''tc''
     \<and> distinct (found ''tc'') \<and> length (found ''tc'') = 2"
  using evaluate_scc_fixpoint_cap [OF appearance.variable_order_axioms _ tc_scc_capped]
  by (auto simp: total_rows_def)

text \<open>The two evaluators agree: a single-target run and the run of the one-group component return
  the same rows whenever both converge, whatever their caps and variable orders.\<close>

theorem fixpoint_evaluators_agree:
  assumes "variable_order o1" and "variable_order o2"
    and "evaluate_fixpoint rs base target o1 c1 = Inr rel"
    and "evaluate_scc_fixpoint [(target, rs)] base o2 c2 = Inr out"
  shows "map_option rows (out target) = Some (rows rel)"
  using fixpoint_run_result [OF assms(1,3)] scc_run_result [OF assms(2) _ assms(4)] by auto

theorem fixpoint_evaluators_agree_witness:
  "\<exists>out. evaluate_scc_fixpoint [(''tc'', tc_rules)] tc_base appearance_order default_config = Inr out
     \<and> map_option rows (out ''tc'') = Some tc_rows"
proof -
  obtain out where run: "evaluate_scc_fixpoint [(''tc'', tc_rules)] tc_base appearance_order
      default_config = Inr out"
    using tc_scc_run by (auto simp: map_res_Inr_iff)
  then show ?thesis
    using fixpoint_evaluators_agree [OF appearance.variable_order_axioms
        appearance.variable_order_axioms tc_run run] by simp
qed

end
