(* ===== verification/Type_Inference.thy ===== *)
theory Type_Inference
  imports Fixpoint_Eval
begin

text \<open>
  Transitive type inference over the predicates of a rule group (\<open>hypergraph/inference.rs\<close>): the
  types of body variables, read from the base schemas and the schemas inferred so far, are
  propagated into the head columns until a round changes nothing. The code bounds the rounds by
  the number of columns plus one and asserts convergence; \<open>InferPanic\<close> is the failed assertion.
  The lemmas show that the bound is enough and that the result is a fixpoint of the propagation.
\<close>

datatype inference_error =
    ConflictingPredicateColumnType (conflict_predicate: string) (conflict_column: nat)
      (first_rule: nat) (first_type: scalar_type) (second_rule: nat) (second_type: scalar_type)
  | InferPanic

type_synonym inferred_schemas = "string \<rightharpoonup> scalar_type option list"

record inference_state =
  inf_schemas :: inferred_schemas
  inf_origins :: "string \<times> nat \<rightharpoonup> nat"
  inf_changed :: bool

definition group_width :: "rule list \<Rightarrow> nat" where
  "group_width rs = (case first_head_arity rs of Some n \<Rightarrow> n | None \<Rightarrow> 0)"

definition initial_schemas :: "rule_groups \<Rightarrow> inferred_schemas" where
  "initial_schemas groups = map_of (map (\<lambda>(p, rs). (p, replicate (group_width rs) None)) groups)"

text \<open>The column look-up: the base relation first, then the schema inferred so far.\<close>

definition known_column ::
    "ref_store \<Rightarrow> inferred_schemas \<Rightarrow> atom \<Rightarrow> nat \<Rightarrow> bool \<Rightarrow> scalar_type option" where
  "known_column base schemas a i negated =
     (if negated then None
      else case Option.bind (base (predicate a)) (\<lambda>rel. get (schema rel) i) of
             Some ty \<Rightarrow> Some ty
           | None \<Rightarrow> Option.bind (schemas (predicate a)) (\<lambda>sch. Option.bind (get sch i) id))"

text \<open>One head term of one rule: propose a type for its column.\<close>

definition propagate_term ::
    "ref_store \<Rightarrow> string \<times> nat \<times> rule \<times> nat \<times> ast_term \<Rightarrow> inference_state
     \<Rightarrow> inference_error + inference_state" where
  "propagate_term base = (\<lambda>(p, ri, r, col, t) st.
     case t of
       Variable x \<Rightarrow>
         (case inferred_head_variable_type r x (known_column base (inf_schemas st)) of
            None \<Rightarrow> Inr st
          | Some derived \<Rightarrow>
              (case inf_schemas st p of
                 None \<Rightarrow> Inl InferPanic
               | Some sch \<Rightarrow>
                   if length sch \<le> col then Inr st
                   else (case sch ! col of
                           None \<Rightarrow>
                             Inr (st\<lparr>inf_schemas := (inf_schemas st)(p \<mapsto> sch[col := Some derived]),
                                    inf_origins := (inf_origins st)((p, col) \<mapsto> ri),
                                    inf_changed := True\<rparr>)
                         | Some existing \<Rightarrow>
                             if existing = derived then Inr st
                             else Inl (ConflictingPredicateColumnType p col
                                    (case inf_origins st (p, col) of Some i \<Rightarrow> i | None \<Rightarrow> 0)
                                    existing ri derived))))
     | _ \<Rightarrow> Inr st)"

text \<open>The three nested loops: groups in key order, rules in group order, head terms in order.\<close>

definition head_sites :: "rule_groups \<Rightarrow> (string \<times> nat \<times> rule \<times> nat \<times> ast_term) list" where
  "head_sites groups =
     concat (map (\<lambda>(p, rs).
       concat (map (\<lambda>(ri, r).
         map (\<lambda>(col, t). (p, ri, r, col, t)) (indexed (terms (head r)))) (indexed rs))) groups)"

definition infer_round ::
    "rule_groups \<Rightarrow> ref_store \<Rightarrow> inference_state \<Rightarrow> inference_error + inference_state" where
  "infer_round groups base st =
     fold_res (propagate_term base) (head_sites groups) (st\<lparr>inf_changed := False\<rparr>)"

fun infer_loop ::
    "rule_groups \<Rightarrow> ref_store \<Rightarrow> nat \<Rightarrow> inference_state \<Rightarrow> inference_error + inferred_schemas" where
  "infer_loop groups base 0 st = Inl InferPanic"
| "infer_loop groups base (Suc left) st =
     bind_res (infer_round groups base st) (\<lambda>st'.
       if inf_changed st' then infer_loop groups base left st' else Inr (inf_schemas st'))"

definition total_columns :: "rule_groups \<Rightarrow> nat" where
  "total_columns groups = sum_list (map (\<lambda>(_, rs). group_width rs) groups)"

definition infer_scc_predicate_schemas ::
    "rule_groups \<Rightarrow> ref_store \<Rightarrow> inference_error + inferred_schemas" where
  "infer_scc_predicate_schemas groups base =
     infer_loop groups base (total_columns groups + 1)
       \<lparr>inf_schemas = initial_schemas groups, inf_origins = Map.empty, inf_changed = False\<rparr>"

section \<open>The invariant of the propagation\<close>

text \<open>Every group keeps its schema, at its width.\<close>

definition widths_ok :: "rule_groups \<Rightarrow> inferred_schemas \<Rightarrow> bool" where
  "widths_ok groups schemas =
     (dom schemas = fst ` set groups
      \<and> (\<forall>(p, rs) \<in> set groups. map_option length (schemas p) = Some (group_width rs)))"

text \<open>Columns whose type is not known yet: the variant of the loop.\<close>

definition unknown :: "scalar_type option list \<Rightarrow> nat" where
  "unknown sch = length (filter (\<lambda>c. c = None) sch)"

definition unknown_columns :: "rule_groups \<Rightarrow> inferred_schemas \<Rightarrow> nat" where
  "unknown_columns groups schemas =
     (\<Sum>p \<in> fst ` set groups. unknown (case schemas p of Some s \<Rightarrow> s | None \<Rightarrow> []))"

definition schema_le :: "inferred_schemas \<Rightarrow> inferred_schemas \<Rightarrow> bool" where
  "schema_le s t =
     (\<forall>p sch i ty. s p = Some sch \<and> i < length sch \<and> sch ! i = Some ty \<longrightarrow>
        (\<exists>sch'. t p = Some sch' \<and> i < length sch' \<and> sch' ! i = Some ty))"

lemma schema_le_refl [simp]: "schema_le s s"
  by (simp add: schema_le_def)

lemma schema_le_trans: "schema_le s t \<Longrightarrow> schema_le t u \<Longrightarrow> schema_le s u"
  unfolding schema_le_def by metis

lemma unknown_update:
  "i < length sch \<Longrightarrow> sch ! i = None \<Longrightarrow> Suc (unknown (sch[i := Some ty])) = unknown sch"
proof (induction sch arbitrary: i)
  case (Cons c sch)
  then show ?case by (cases i) (auto simp: unknown_def)
qed simp

lemma unknown_columns_update:
  assumes "p \<in> fst ` set groups" and "schemas p = Some sch" and "i < length sch" and "sch ! i = None"
  shows "unknown_columns groups (schemas(p \<mapsto> sch[i := Some ty])) < unknown_columns groups schemas"
  unfolding unknown_columns_def
proof (rule sum_strict_mono_ex1)
  show "\<forall>q \<in> fst ` set groups.
      unknown (case (schemas(p \<mapsto> sch[i := Some ty])) q of Some s \<Rightarrow> s | None \<Rightarrow> [])
      \<le> unknown (case schemas q of Some s \<Rightarrow> s | None \<Rightarrow> [])"
    using unknown_update [OF assms(3,4), of ty] assms(2) by auto
  show "\<exists>q \<in> fst ` set groups.
      unknown (case (schemas(p \<mapsto> sch[i := Some ty])) q of Some s \<Rightarrow> s | None \<Rightarrow> [])
      < unknown (case schemas q of Some s \<Rightarrow> s | None \<Rightarrow> [])"
    using unknown_update [OF assms(3,4), of ty] assms(1,2) by (intro bexI [of _ p]) auto
qed simp

text \<open>What one proposal does to the state.\<close>

definition proposal :: "ref_store \<Rightarrow> inferred_schemas \<Rightarrow> rule \<Rightarrow> ast_term \<Rightarrow> scalar_type option" where
  "proposal base schemas r t =
     (case t of Variable x \<Rightarrow> inferred_head_variable_type r x (known_column base schemas) | _ \<Rightarrow> None)"

lemma propagate_term_eq:
  "propagate_term base (p, ri, r, col, t) st =
     (case proposal base (inf_schemas st) r t of
        None \<Rightarrow> Inr st
      | Some derived \<Rightarrow>
          (case inf_schemas st p of
             None \<Rightarrow> Inl InferPanic
           | Some sch \<Rightarrow>
               if length sch \<le> col then Inr st
               else (case sch ! col of
                       None \<Rightarrow>
                         Inr (st\<lparr>inf_schemas := (inf_schemas st)(p \<mapsto> sch[col := Some derived]),
                                inf_origins := (inf_origins st)((p, col) \<mapsto> ri),
                                inf_changed := True\<rparr>)
                     | Some existing \<Rightarrow>
                         if existing = derived then Inr st
                         else Inl (ConflictingPredicateColumnType p col
                                (case inf_origins st (p, col) of Some i \<Rightarrow> i | None \<Rightarrow> 0)
                                existing ri derived))))"
  by (cases t) (auto simp: propagate_term_def proposal_def split: option.splits)

text \<open>Either the state is unchanged and the column agrees, or one unknown column is filled.\<close>

lemma propagate_term_cases:
  assumes "propagate_term base (p, ri, r, col, t) st = Inr st'"
  obtains
    (same) "st' = st"
      "\<forall>ty sch. proposal base (inf_schemas st) r t = Some ty \<and> inf_schemas st p = Some sch
        \<and> col < length sch \<longrightarrow> sch ! col = Some ty"
  | (fill) sch ty where "inf_schemas st p = Some sch" "col < length sch" "sch ! col = None"
      "proposal base (inf_schemas st) r t = Some ty"
      "inf_schemas st' = (inf_schemas st)(p \<mapsto> sch[col := Some ty])" "inf_changed st'"
  using assms unfolding propagate_term_eq
  by (auto split: option.splits if_splits)

lemma head_site_group:
  "(p, ri, r, col, t) \<in> set (head_sites groups) \<Longrightarrow>
     \<exists>rs. (p, rs) \<in> set groups \<and> ri < length rs \<and> rs ! ri = r
        \<and> col < length (terms (head r)) \<and> terms (head r) ! col = t"
  by (auto simp: head_sites_def in_indexed_iff)

lemma head_site_intro:
  assumes "(p, rs) \<in> set groups" and "r \<in> set rs" and "col < length (terms (head r))"
  shows "\<exists>ri. (p, ri, r, col, terms (head r) ! col) \<in> set (head_sites groups)"
proof -
  obtain ri where "ri < length rs" "rs ! ri = r" using assms(2) by (auto simp: in_set_conv_nth)
  then have "(p, ri, r, col, terms (head r) ! col) \<in> set (head_sites groups)"
    using assms(1,3) unfolding head_sites_def
    by (auto simp: in_indexed_iff intro!: bexI [of _ "(p, rs)"] bexI [of _ "(ri, r)"])
  then show ?thesis ..
qed

lemma propagate_term_step:
  assumes site: "(p, ri, r, col, t) \<in> set (head_sites groups)"
    and ok: "widths_ok groups (inf_schemas st)"
    and run: "propagate_term base (p, ri, r, col, t) st = Inr st'"
  shows "widths_ok groups (inf_schemas st')
    \<and> schema_le (inf_schemas st) (inf_schemas st')
    \<and> (st' = st \<or> inf_changed st'
        \<and> unknown_columns groups (inf_schemas st') < unknown_columns groups (inf_schemas st))"
  using run
proof (cases rule: propagate_term_cases)
  case (fill sch ty)
  have p: "p \<in> fst ` set groups" using head_site_group [OF site] by force
  have "map_option length (inf_schemas st' q) = map_option length (inf_schemas st q)" for q
    using fill(1,5) by simp
  moreover have "dom (inf_schemas st') = dom (inf_schemas st)"
    using fill(1,5) by auto
  ultimately have "widths_ok groups (inf_schemas st')"
    using ok by (simp add: widths_ok_def)
  moreover have "schema_le (inf_schemas st) (inf_schemas st')"
    using fill by (auto simp: schema_le_def nth_list_update)
  ultimately show ?thesis
    using unknown_columns_update [of p groups "inf_schemas st" sch col, OF p fill(1-3)] fill
    by auto
qed (use ok in auto)

lemma fold_propagate:
  assumes "set sites \<subseteq> set (head_sites groups)"
    and "widths_ok groups (inf_schemas st)"
    and "fold_res (propagate_term base) sites st = Inr st'"
  shows "widths_ok groups (inf_schemas st')
    \<and> schema_le (inf_schemas st) (inf_schemas st')
    \<and> (inf_changed st \<longrightarrow> inf_changed st')
    \<and> (st' = st \<or> inf_changed st'
        \<and> unknown_columns groups (inf_schemas st') < unknown_columns groups (inf_schemas st))"
  using assms
proof (induction sites arbitrary: st)
  case (Cons site sites)
  obtain p ri r col t where site: "site = (p, ri, r, col, t)" by (cases site) auto
  obtain st1 where st1: "propagate_term base site st = Inr st1"
    and rest: "fold_res (propagate_term base) sites st1 = Inr st'"
    using Cons.prems(3) by (auto simp: bind_res_Inr_iff)
  have s: "(p, ri, r, col, t) \<in> set (head_sites groups)" using Cons.prems(1) site by simp
  note step = propagate_term_step [OF s Cons.prems(2) st1 [unfolded site]]
  have "set sites \<subseteq> set (head_sites groups)" using Cons.prems(1) by simp
  note ih = Cons.IH [OF this conjunct1 [OF step] rest]
  have "schema_le (inf_schemas st) (inf_schemas st')"
    using ih step by (blast intro: schema_le_trans)
  moreover have "inf_changed st \<longrightarrow> inf_changed st'" using ih step by blast
  moreover have "st' = st \<or> inf_changed st'
      \<and> unknown_columns groups (inf_schemas st') < unknown_columns groups (inf_schemas st)"
    using ih step by auto
  ultimately show ?case using ih by blast
qed simp

text \<open>A round that changes nothing has checked every site against the same schemas.\<close>

lemma fold_propagate_unchanged:
  assumes "fold_res (propagate_term base) sites st = Inr st" and "\<not> inf_changed st"
    and "set sites \<subseteq> set (head_sites groups)" and "widths_ok groups (inf_schemas st)"
    and "(p, ri, r, col, t) \<in> set sites"
    and "proposal base (inf_schemas st) r t = Some ty"
    and "inf_schemas st p = Some sch" and "col < length sch"
  shows "sch ! col = Some ty"
  using assms
proof (induction sites)
  case (Cons site sites)
  obtain st1 where st1: "propagate_term base site st = Inr st1"
    and rest: "fold_res (propagate_term base) sites st1 = Inr st"
    using Cons.prems(1) by (auto simp: bind_res_Inr_iff)
  obtain p' ri' r' col' t' where site: "site = (p', ri', r', col', t')" by (cases site) auto
  have "widths_ok groups (inf_schemas st1) \<and> (st1 = st \<or> inf_changed st1)"
    using propagate_term_step [of p' ri' r' col' t' groups st base st1] st1 Cons.prems(3,4)
    by (auto simp: site)
  moreover from this have "inf_changed st1 \<longrightarrow> inf_changed st"
    using fold_propagate [OF _ _ rest, of groups] Cons.prems(3) by auto
  ultimately have eq: "st1 = st" using Cons.prems(2) by blast
  show ?case
  proof (cases "(p, ri, r, col, t) = site")
    case True
    from st1 [unfolded eq] show ?thesis
      unfolding True [symmetric]
      by (cases rule: propagate_term_cases) (use Cons.prems in auto)
  next
    case False
    then show ?thesis using Cons.IH Cons.prems rest eq by auto
  qed
qed simp

section \<open>Definedness grows with the schemas\<close>

lemma known_column_mono:
  assumes "schema_le s t" and "known_column base s a i neg \<noteq> None"
  shows "known_column base t a i neg \<noteq> None"
  using assms
  by (auto simp: known_column_def get_def schema_le_def bind_eq_Some_conv
      split: option.splits if_splits) (metis option.simps(3))+

lemma first_known_column_def_iff:
  "first_known_column ct x a neg its \<noteq> None \<longleftrightarrow>
     (\<exists>i. (i, Variable x) \<in> set its \<and> ct a i neg \<noteq> None)"
  by (induction ct x a neg its rule: first_known_column.induct) (auto split: option.splits)

lemma first_known_mono:
  assumes "\<And>i. ct a i neg \<noteq> None \<Longrightarrow> ct' a i neg \<noteq> None"
  shows "first_known_column ct x a neg its \<noteq> None \<Longrightarrow> first_known_column ct' x a neg its \<noteq> None"
  using assms unfolding first_known_column_def_iff by blast

lemma inferred_mono:
  assumes "\<And>a i neg. ct a i neg \<noteq> None \<Longrightarrow> ct' a i neg \<noteq> None"
  shows "inferred_type_in_body ct x ls \<noteq> None \<Longrightarrow> inferred_type_in_body ct' x ls \<noteq> None"
proof (induction ls)
  case (Cons l ls)
  note m = first_known_mono [of ct _ _ ct', OF assms]
  show ?case
  proof (cases l)
    case (Positive a)
    then show ?thesis using Cons m [of a False x "indexed (terms a)"]
      by (auto split: option.splits)
  next
    case (Negated a)
    then show ?thesis using Cons m [of a True x "indexed (terms a)"]
      by (auto split: option.splits)
  qed (use Cons in \<open>auto split: option.splits\<close>)
qed simp

lemma proposal_mono:
  assumes "schema_le s t" and "proposal base s r tm \<noteq> None"
  shows "proposal base t r tm \<noteq> None"
proof (cases tm)
  case (Variable x)
  have "known_column base s a i neg \<noteq> None \<Longrightarrow> known_column base t a i neg \<noteq> None" for a i neg
    using known_column_mono [OF assms(1)] .
  from inferred_mono [OF this, where x = x and ls = "body r"] assms(2) Variable show ?thesis
    by (auto simp: proposal_def inferred_head_variable_type_def)
qed (use assms in \<open>auto simp: proposal_def\<close>)

section \<open>The loop\<close>

definition agrees_with_rules :: "rule_groups \<Rightarrow> ref_store \<Rightarrow> inferred_schemas \<Rightarrow> bool" where
  "agrees_with_rules groups base schemas =
     (\<forall>p rs r col ty sch. (p, rs) \<in> set groups \<and> r \<in> set rs \<and> col < length (terms (head r))
        \<and> proposal base schemas r (terms (head r) ! col) = Some ty
        \<and> schemas p = Some sch \<and> col < length sch \<longrightarrow> sch ! col = Some ty)"

definition supported :: "rule_groups \<Rightarrow> ref_store \<Rightarrow> inferred_schemas \<Rightarrow> bool" where
  "supported groups base schemas =
     (\<forall>p sch col ty. schemas p = Some sch \<and> col < length sch \<and> sch ! col = Some ty \<longrightarrow>
        (\<exists>rs r. (p, rs) \<in> set groups \<and> r \<in> set rs \<and> col < length (terms (head r))
           \<and> proposal base schemas r (terms (head r) ! col) \<noteq> None))"

lemma supported_step:
  assumes site: "(p, ri, r, col, t) \<in> set (head_sites groups)"
    and ok: "widths_ok groups (inf_schemas st)"
    and run: "propagate_term base (p, ri, r, col, t) st = Inr st'"
    and sup: "supported groups base (inf_schemas st)"
  shows "supported groups base (inf_schemas st')"
proof -
  have le: "schema_le (inf_schemas st) (inf_schemas st')"
    using propagate_term_step [OF site ok run] by blast
  show ?thesis
    using run
  proof (cases rule: propagate_term_cases)
    case same
    then show ?thesis using sup by simp
  next
    case (fill sch ty)
    have new: "\<exists>rs r. (p, rs) \<in> set groups \<and> r \<in> set rs \<and> col < length (terms (head r))
        \<and> proposal base (inf_schemas st') r (terms (head r) ! col) \<noteq> None"
      using head_site_group [OF site] fill(4) proposal_mono [OF le, of base r t] nth_mem by fastforce
    have "\<exists>rs r. (q, rs) \<in> set groups \<and> r \<in> set rs \<and> i < length (terms (head r))
        \<and> proposal base (inf_schemas st') r (terms (head r) ! i) \<noteq> None"
      if q: "inf_schemas st' q = Some sch'" "i < length sch'" "sch' ! i = Some ty'" for q sch' i ty'
    proof (cases "q = p \<and> i = col")
      case False
      then obtain sch0 where "inf_schemas st q = Some sch0" "i < length sch0" "sch0 ! i = Some ty'"
        using q fill by (auto split: if_splits)
      then show ?thesis
        using sup proposal_mono [OF le] unfolding supported_def by meson
    qed (use new in blast)
    then show ?thesis unfolding supported_def by blast
  qed
qed

lemma fold_supported:
  assumes "set sites \<subseteq> set (head_sites groups)" and "widths_ok groups (inf_schemas st)"
    and "fold_res (propagate_term base) sites st = Inr st'"
    and "supported groups base (inf_schemas st)"
  shows "supported groups base (inf_schemas st')"
  using assms
proof (induction sites arbitrary: st)
  case (Cons site sites)
  obtain p ri r col t where site: "site = (p, ri, r, col, t)" by (cases site) auto
  obtain st1 where st1: "propagate_term base site st = Inr st1"
    and rest: "fold_res (propagate_term base) sites st1 = Inr st'"
    using Cons.prems(3) by (auto simp: bind_res_Inr_iff)
  have s: "(p, ri, r, col, t) \<in> set (head_sites groups)" using Cons.prems(1) site by simp
  have "supported groups base (inf_schemas st1)" "widths_ok groups (inf_schemas st1)"
    using supported_step [OF s Cons.prems(2) st1 [unfolded site] Cons.prems(4)]
      propagate_term_step [OF s Cons.prems(2) st1 [unfolded site]] by blast+
  then show ?case using Cons.IH rest Cons.prems(1) by auto
qed simp

lemma fold_no_panic:
  assumes "set sites \<subseteq> set (head_sites groups)" and "widths_ok groups (inf_schemas st)"
  shows "fold_res (propagate_term base) sites st \<noteq> Inl InferPanic"
  using assms
proof (induction sites arbitrary: st)
  case (Cons site sites)
  obtain p ri r col t where site: "site = (p, ri, r, col, t)" by (cases site) auto
  have s: "(p, ri, r, col, t) \<in> set (head_sites groups)" using Cons.prems(1) site by simp
  have "p \<in> dom (inf_schemas st)"
    using head_site_group [OF s] Cons.prems(2) unfolding widths_ok_def by force
  then have "propagate_term base site st \<noteq> Inl InferPanic"
    by (auto simp: site propagate_term_eq split: option.splits if_splits)
  moreover have "fold_res (propagate_term base) sites st1 \<noteq> Inl InferPanic"
    if "propagate_term base site st = Inr st1" for st1
    using Cons.IH propagate_term_step [OF s Cons.prems(2) that [unfolded site]] Cons.prems(1) by auto
  ultimately show ?case by (auto simp: bind_res_Inl_iff)
qed simp

lemma infer_loop_result:
  assumes "widths_ok groups (inf_schemas st)" and "supported groups base (inf_schemas st)"
    and "unknown_columns groups (inf_schemas st) < left"
  shows "infer_loop groups base left st \<noteq> Inl InferPanic
    \<and> (\<forall>schemas. infer_loop groups base left st = Inr schemas \<longrightarrow>
         widths_ok groups schemas \<and> supported groups base schemas
         \<and> agrees_with_rules groups base schemas)"
  using assms
proof (induction left arbitrary: st)
  case (Suc left)
  let ?st = "st\<lparr>inf_changed := False\<rparr>"
  have w: "widths_ok groups (inf_schemas ?st)" and sp: "supported groups base (inf_schemas ?st)"
    using Suc.prems by simp_all
  show ?case
  proof (cases "infer_round groups base st")
    case (Inl e)
    then show ?thesis
      using fold_no_panic [OF subset_refl w, of base] by (auto simp: infer_round_def)
  next
    case (Inr st')
    then have run: "fold_res (propagate_term base) (head_sites groups) ?st = Inr st'"
      by (simp add: infer_round_def)
    note f = fold_propagate [OF subset_refl w run]
    have sup': "supported groups base (inf_schemas st')"
      by (rule fold_supported [OF subset_refl w run sp])
    show ?thesis
    proof (cases "inf_changed st'")
      case True
      then have "unknown_columns groups (inf_schemas st') < left"
        using f Suc.prems(3) by auto
      then show ?thesis using Suc.IH [of st'] f sup' Inr True by simp
    next
      case False
      then have eq: "st' = ?st" using f by blast
      have "agrees_with_rules groups base (inf_schemas ?st)"
        unfolding agrees_with_rules_def
      proof (intro allI impI, elim conjE)
        fix p rs r col ty sch
        assume a: "(p, rs) \<in> set groups" "r \<in> set rs" "col < length (terms (head r))"
          "proposal base (inf_schemas ?st) r (terms (head r) ! col) = Some ty"
          "inf_schemas ?st p = Some sch" "col < length sch"
        obtain ri where "(p, ri, r, col, terms (head r) ! col) \<in> set (head_sites groups)"
          using head_site_intro [OF a(1-3)] by blast
        from fold_propagate_unchanged [OF run [unfolded eq] _ subset_refl w this a(4-6)]
        show "sch ! col = Some ty" by simp
      qed
      then show ?thesis using Inr False eq sup' w by simp
    qed
  qed
qed simp

lemma unknown_replicate [simp]: "unknown (replicate n None) = n"
  by (simp add: unknown_def)

lemma initial_schemas_eq:
  assumes "distinct (map fst groups)" and "(p, rs) \<in> set groups"
  shows "initial_schemas groups p = Some (replicate (group_width rs) None)"
proof -
  have "map_of groups p = Some rs" using assms by simp
  moreover have "initial_schemas groups p = map_option (\<lambda>rs. replicate (group_width rs) None) (map_of groups p)"
    unfolding initial_schemas_def by (induction groups) auto
  ultimately show ?thesis by simp
qed

lemma initial_ok:
  assumes "distinct (map fst groups)"
  shows "widths_ok groups (initial_schemas groups)"
    and "supported groups base (initial_schemas groups)"
    and "unknown_columns groups (initial_schemas groups) = total_columns groups"
proof -
  have dom: "dom (initial_schemas groups) = fst ` set groups"
    by (simp add: initial_schemas_def dom_map_of_conv_image_fst image_image case_prod_unfold)
  then show "widths_ok groups (initial_schemas groups)"
    using initial_schemas_eq [OF assms] by (auto simp: widths_ok_def)
  have none: "sch ! i = None" if "initial_schemas groups p = Some sch" "i < length sch" for p sch i
  proof -
    have "p \<in> fst ` set groups" using dom that(1) by blast
    then obtain rs where "(p, rs) \<in> set groups" by auto
    then show ?thesis using initial_schemas_eq [OF assms] that by auto
  qed
  then show "supported groups base (initial_schemas groups)"
    by (auto simp: supported_def)
  have "unknown_columns groups (initial_schemas groups)
      = (\<Sum>p \<in> set (map fst groups). group_width (the (map_of groups p)))"
    unfolding unknown_columns_def
  proof (rule sum.cong)
    fix p assume "p \<in> set (map fst groups)"
    then obtain rs where "(p, rs) \<in> set groups" by auto
    then show "unknown (case initial_schemas groups p of Some s \<Rightarrow> s | None \<Rightarrow> [])
        = group_width (the (map_of groups p))"
      using initial_schemas_eq [OF assms] assms by simp
  qed simp
  also have "\<dots> = sum_list (map (\<lambda>p. group_width (the (map_of groups p))) (map fst groups))"
    using assms by (simp only: sum_list_distinct_conv_sum_set)
  also have "\<dots> = total_columns groups"
    unfolding total_columns_def
  proof (rule arg_cong [where f = sum_list])
    show "map (\<lambda>p. group_width (the (map_of groups p))) (map fst groups)
        = map (\<lambda>(_, rs). group_width rs) groups"
      using assms by (auto simp: case_prod_unfold)
  qed
  finally show "unknown_columns groups (initial_schemas groups) = total_columns groups" .
qed

lemma infer_result:
  assumes "distinct (map fst groups)"
  shows "infer_scc_predicate_schemas groups base \<noteq> Inl InferPanic
    \<and> (\<forall>schemas. infer_scc_predicate_schemas groups base = Inr schemas \<longrightarrow>
         widths_ok groups schemas \<and> supported groups base schemas
         \<and> agrees_with_rules groups base schemas)"
proof -
  let ?st = "\<lparr>inf_schemas = initial_schemas groups, inf_origins = Map.empty, inf_changed = False\<rparr>"
  have "unknown_columns groups (inf_schemas ?st) < total_columns groups + 1"
    using initial_ok(3) [OF assms] by simp
  from infer_loop_result [of groups ?st base, OF _ _ this] initial_ok(1,2) [OF assms]
  show ?thesis by (simp add: infer_scc_predicate_schemas_def)
qed

section \<open>Properties\<close>

text \<open>Two mutually recursive predicates, typed only through a base relation of the second.\<close>

definition ab_groups :: rule_groups where
  "ab_groups =
     [(''a'', [\<lparr>head = \<lparr>predicate = ''a'', terms = [Variable ''X'']\<rparr>,
                body = [Positive \<lparr>predicate = ''b'', terms = [Variable ''X'']\<rparr>]\<rparr>]),
      (''b'', [\<lparr>head = \<lparr>predicate = ''b'', terms = [Variable ''X'']\<rparr>,
                body = [Positive \<lparr>predicate = ''a'', terms = [Variable ''X'']\<rparr>]\<rparr>,
              \<lparr>head = \<lparr>predicate = ''b'', terms = [Variable ''Y'']\<rparr>,
                body = [Positive \<lparr>predicate = ''base'', terms = [Variable ''Y'']\<rparr>]\<rparr>])]"

definition ab_base :: ref_store where
  "ab_base = [''base'' \<mapsto> \<lparr>schema = [TyU32], rows = [[VU32 5]]\<rparr>]"

lemma ab_infer:
  "map_res (\<lambda>m. (m ''a'', m ''b'')) (infer_scc_predicate_schemas ab_groups ab_base)
   = Inr (Some [Some TyU32], Some [Some TyU32])"
  by code_simp

text \<open>C21: type inference always converges within the code's bound of one round more than there are
  columns: the assertion after the loop never fails, and no look-up of a group's schema misses.\<close>

theorem inference_converges:
  assumes "distinct (map fst groups)"
  shows "infer_scc_predicate_schemas groups base \<noteq> Inl InferPanic"
  using infer_result [OF assms] by blast

theorem inference_converges_witness:
  "infer_scc_predicate_schemas ab_groups Map.empty \<noteq> Inl InferPanic"
  by (rule inference_converges) (simp add: ab_groups_def)

text \<open>C22: inferred schemas are exactly what the rules say under these schemas: a column of a group has
  type \<open>ty\<close> if and only if some rule of the group has, in that head position, a variable that its
  body types as \<open>ty\<close>. In particular no two rules of the group disagree on the column.\<close>

theorem inference_fixpoint:
  assumes "distinct (map fst groups)"
    and "infer_scc_predicate_schemas groups base = Inr schemas"
    and "(p, rs) \<in> set groups" and "col < group_width rs"
  shows "\<exists>sch. schemas p = Some sch \<and> length sch = group_width rs
    \<and> (sch ! col = Some ty \<longleftrightarrow>
         (\<exists>r \<in> set rs. col < length (terms (head r))
            \<and> proposal base schemas r (terms (head r) ! col) = Some ty))"
proof -
  have w: "widths_ok groups schemas" and sup: "supported groups base schemas"
    and agr: "agrees_with_rules groups base schemas"
    using infer_result [OF assms(1)] assms(2) by blast+
  have "map_option length (schemas p) = Some (group_width rs)"
    using w assms(3) by (auto simp: widths_ok_def)
  then obtain sch where sch: "schemas p = Some sch" "length sch = group_width rs" by auto
  have agr_at: "sch ! col = Some ty'" if "r \<in> set rs" and "col < length (terms (head r))"
      and "proposal base schemas r (terms (head r) ! col) = Some ty'" for r ty'
    using agr assms(3,4) sch that unfolding agrees_with_rules_def by metis
  moreover have "\<exists>r \<in> set rs. col < length (terms (head r))
      \<and> proposal base schemas r (terms (head r) ! col) = Some ty" if ty: "sch ! col = Some ty"
  proof -
    obtain rs' r where r: "(p, rs') \<in> set groups" "r \<in> set rs'" "col < length (terms (head r))"
      and pr: "proposal base schemas r (terms (head r) ! col) \<noteq> None"
      using sup sch assms(4) ty unfolding supported_def by metis
    then obtain ty' where ty': "proposal base schemas r (terms (head r) ! col) = Some ty'" by blast
    have "rs' = rs" using assms(1,3) r(1) eq_key_imp_eq_value by fast
    then show ?thesis using agr_at [of r ty'] r ty' ty by auto
  qed
  ultimately show ?thesis using sch by blast
qed

theorem inference_fixpoint_witness:
  "\<exists>schemas sch. infer_scc_predicate_schemas ab_groups ab_base = Inr schemas
     \<and> schemas ''a'' = Some sch \<and> length sch = 1
     \<and> (sch ! 0 = Some TyU32 \<longleftrightarrow>
          (\<exists>r \<in> set (snd (ab_groups ! 0)). 0 < length (terms (head r))
             \<and> proposal ab_base schemas r (terms (head r) ! 0) = Some TyU32))"
proof -
  obtain schemas where run: "infer_scc_predicate_schemas ab_groups ab_base = Inr schemas"
    using ab_infer by (auto simp: map_res_Inr_iff)
  have "distinct (map fst ab_groups)" and "(''a'', snd (ab_groups ! 0)) \<in> set ab_groups"
    and w: "group_width (snd (ab_groups ! 0)) = 1"
    by (simp_all add: ab_groups_def group_width_def first_head_arity_def head_arity_def)
  from inference_fixpoint [OF this(1) run this(2), of 0 TyU32] w run
  show ?thesis by auto
qed

text \<open>
  A conflict can also arise within one rule: when an earlier body atom becomes typed in a later
  round, the rule disagrees with the type it gave its own column before, and the report names the
  same rule twice.
\<close>

definition drift_groups :: rule_groups where
  "drift_groups =
     [(''a'', [\<lparr>head = \<lparr>predicate = ''a'', terms = [Variable ''X'']\<rparr>,
                body = [Positive \<lparr>predicate = ''b'', terms = [Variable ''X'']\<rparr>,
                        Positive \<lparr>predicate = ''base'', terms = [Variable ''X'']\<rparr>]\<rparr>]),
      (''b'', [\<lparr>head = \<lparr>predicate = ''b'', terms = [Variable ''X'']\<rparr>,
                body = [Positive \<lparr>predicate = ''name'', terms = [Variable ''X'']\<rparr>]\<rparr>])]"

lemma same_rule_conflict:
  "map_res (\<lambda>_. ()) (infer_scc_predicate_schemas drift_groups
      (ab_base(''name'' \<mapsto> \<lparr>schema = [TySymbol], rows = []\<rparr>)))
   = Inl (ConflictingPredicateColumnType ''a'' 0 0 TyU32 0 TySymbol)"
  by code_simp

end
