(* ===== verification/Typed_Gate.thy ===== *)
theory Typed_Gate
  imports Type_Inference
begin

text \<open>
  The typed gate in front of the reference evaluators (\<open>hypergraph/typed.rs\<close>, with the
  inference-aware type derivation of \<open>hypergraph/inference.rs\<close>): variable types are unified over
  the positive body atoms, conflicts are reported before eligibility boundaries, and the structural
  evaluator is run only when the gate passes. The lemmas characterise the derived types, and give
  a static condition under which the gated evaluation of a rule succeeds.
\<close>

section \<open>Deriving the types of the variables\<close>

record first_site =
  site_predicate :: string
  site_position :: nat
  site_type :: scalar_type

type_synonym sites = "string \<rightharpoonup> first_site"

definition record_site ::
    "string \<Rightarrow> nat \<Rightarrow> string \<Rightarrow> scalar_type \<Rightarrow> sites \<Rightarrow> ref_eval_error + sites" where
  "record_site p pos x ty sites =
     (case sites x of
        None \<Rightarrow> Inr (sites(x \<mapsto> \<lparr>site_predicate = p, site_position = pos, site_type = ty\<rparr>))
      | Some prior \<Rightarrow>
          if site_type prior = ty then Inr sites
          else Inl (ConflictingVariableType x (site_predicate prior) (site_position prior)
                      (site_type prior) p pos ty))"

definition type_term ::
    "string \<Rightarrow> (nat \<Rightarrow> scalar_type option) \<Rightarrow> nat \<times> ast_term \<Rightarrow> sites \<Rightarrow> ref_eval_error + sites"
  where
  "type_term p coltype = (\<lambda>(pos, t) sites.
     case t of
       Variable x \<Rightarrow>
         (case coltype pos of None \<Rightarrow> Inr sites | Some ty \<Rightarrow> record_site p pos x ty sites)
     | _ \<Rightarrow> Inr sites)"

definition type_literal ::
    "(string \<Rightarrow> (nat \<Rightarrow> scalar_type option) option) \<Rightarrow> body_literal \<Rightarrow> sites
     \<Rightarrow> ref_eval_error + sites" where
  "type_literal columns l sites =
     (case l of
        Positive a \<Rightarrow>
          (case columns (predicate a) of
             None \<Rightarrow> Inr sites
           | Some coltype \<Rightarrow> fold_res (type_term (predicate a) coltype) (indexed (terms a)) sites)
      | _ \<Rightarrow> Inr sites)"

definition derive_with ::
    "(string \<Rightarrow> (nat \<Rightarrow> scalar_type option) option) \<Rightarrow> rule
     \<Rightarrow> ref_eval_error + (string \<rightharpoonup> scalar_type)" where
  "derive_with columns r =
     map_res (\<lambda>sites x. map_option site_type (sites x))
       (fold_res (type_literal columns) (body r) Map.empty)"

text \<open>Positions past the end of the schema do not type anything (\<open>get\<close>).\<close>

definition base_columns :: "ref_store \<Rightarrow> string \<Rightarrow> (nat \<Rightarrow> scalar_type option) option" where
  "base_columns relations p = map_option (\<lambda>rel. get (schema rel)) (relations p)"

definition derive_vertex_types ::
    "rule \<Rightarrow> ref_store \<Rightarrow> ref_eval_error + (string \<rightharpoonup> scalar_type)" where
  "derive_vertex_types r relations = derive_with (base_columns relations) r"

definition inferred_columns ::
    "ref_store \<Rightarrow> inferred_schemas \<Rightarrow> string \<Rightarrow> (nat \<Rightarrow> scalar_type option) option" where
  "inferred_columns base inferred p =
     (case base p of
        Some rel \<Rightarrow> Some (get (schema rel))
      | None \<Rightarrow> map_option (\<lambda>sch i. Option.bind (get sch i) id) (inferred p))"

definition derive_vertex_types_with_inference ::
    "rule \<Rightarrow> ref_store \<Rightarrow> inferred_schemas \<Rightarrow> ref_eval_error + (string \<rightharpoonup> scalar_type)" where
  "derive_vertex_types_with_inference r base inferred = derive_with (inferred_columns base inferred) r"

section \<open>The gate and the typed evaluators\<close>

definition gate_verdict :: "rule \<Rightarrow> (string \<rightharpoonup> scalar_type) \<Rightarrow> ref_eval_error + unit" where
  "gate_verdict r types =
     (case analyze_typed (from_rule r) types HashFallback of
        Ineligible bs \<Rightarrow> Inl (RefIneligible bs)
      | Eligible \<Rightarrow> Inr ())"

definition typed_gate :: "rule \<Rightarrow> ref_store \<Rightarrow> ref_eval_error + unit" where
  "typed_gate r relations = bind_res (derive_vertex_types r relations) (gate_verdict r)"

definition typed_gate_with_inference ::
    "rule \<Rightarrow> ref_store \<Rightarrow> inferred_schemas \<Rightarrow> ref_eval_error + unit" where
  "typed_gate_with_inference r base inferred =
     bind_res (derive_vertex_types_with_inference r base inferred) (gate_verdict r)"

definition evaluate_rule_typed ::
    "rule \<Rightarrow> ref_store \<Rightarrow> (hypergraph_rule \<Rightarrow> vertex_id list) \<Rightarrow> ref_eval_error + ref_value list list"
  where
  "evaluate_rule_typed r relations order =
     bind_res (typed_gate r relations) (\<lambda>_. evaluate_rule r relations order)"

fun nth_rule_index_from :: "nat \<Rightarrow> rule list \<Rightarrow> string \<Rightarrow> nat \<Rightarrow> nat \<Rightarrow> nat" where
  "nth_rule_index_from idx [] target n counter = 0"
| "nth_rule_index_from idx (r # rs) target n counter =
     (if predicate (head r) = target
      then (if counter = n then idx else nth_rule_index_from (idx + 1) rs target n (counter + 1))
      else nth_rule_index_from (idx + 1) rs target n counter)"

definition nth_rule_index_with_head :: "rule list \<Rightarrow> string \<Rightarrow> nat \<Rightarrow> nat" where
  "nth_rule_index_with_head rs target n = nth_rule_index_from 0 rs target n 0"

text \<open>
  An inference conflict becomes a rule error that names the second rule. A failed convergence
  assertion stays a panic.
\<close>

definition inference_failure :: "inference_error \<Rightarrow> string \<times> nat \<times> ref_eval_error" where
  "inference_failure e =
     (case e of
        ConflictingPredicateColumnType p col i1 t1 i2 t2 \<Rightarrow>
          (p, i2, InferenceConflict p col i1 t1 i2 t2)
      | InferPanic \<Rightarrow> ([], 0, EvalPanic))"

definition gate_rules ::
    "rule list \<Rightarrow> ref_store \<Rightarrow> inferred_schemas \<Rightarrow> (nat \<times> ref_eval_error) option" where
  "gate_rules rs base inferred =
     first_error (\<lambda>(i, r).
        case typed_gate_with_inference r base inferred of Inl e \<Rightarrow> Some (i, e) | Inr _ \<Rightarrow> None)
       (indexed rs)"

definition evaluate_fixpoint_typed ::
    "rule list \<Rightarrow> ref_store \<Rightarrow> string \<Rightarrow> (hypergraph_rule \<Rightarrow> vertex_id list) \<Rightarrow> fixpoint_config
     \<Rightarrow> fixpoint_error + ref_relation" where
  "evaluate_fixpoint_typed rs base target order config =
     (if list_ex (\<lambda>r. predicate (head r) \<noteq> target) rs
      then evaluate_fixpoint rs base target order config
      else case infer_scc_predicate_schemas [(target, rs)] base of
             Inl e \<Rightarrow>
               (case inference_failure e of
                  (_, i, src) \<Rightarrow> Inl (FixRuleEval (nth_rule_index_with_head rs target i) src))
           | Inr inferred \<Rightarrow>
               (case gate_rules rs base inferred of
                  Some (i, src) \<Rightarrow> Inl (FixRuleEval i src)
                | None \<Rightarrow> evaluate_fixpoint rs base target order config))"

definition evaluate_scc_fixpoint_typed ::
    "rule_groups \<Rightarrow> ref_store \<Rightarrow> (hypergraph_rule \<Rightarrow> vertex_id list) \<Rightarrow> fixpoint_config
     \<Rightarrow> scc_fixpoint_error + ref_store" where
  "evaluate_scc_fixpoint_typed groups base order config =
     (if list_ex (\<lambda>(p, rs). list_ex (\<lambda>r. predicate (head r) \<noteq> p) rs) groups
      then evaluate_scc_fixpoint groups base order config
      else case infer_scc_predicate_schemas groups base of
             Inl e \<Rightarrow> (case inference_failure e of (p, i, src) \<Rightarrow> Inl (SccRuleEval p i src))
           | Inr inferred \<Rightarrow>
               (case first_error (\<lambda>(p, rs).
                        map_option (\<lambda>(i, src). SccRuleEval p i src) (gate_rules rs base inferred))
                       groups of
                  Some e \<Rightarrow> Inl e
                | None \<Rightarrow> evaluate_scc_fixpoint groups base order config))"

section \<open>What the derived types say\<close>

text \<open>The typed occurrences of a variable in the positive atoms of a body.\<close>

definition types_var ::
    "(string \<Rightarrow> (nat \<Rightarrow> scalar_type option) option) \<Rightarrow> body_literal list \<Rightarrow> string \<Rightarrow> scalar_type \<Rightarrow> bool"
  where
  "types_var columns ls x ty =
     (\<exists>a coltype i. Positive a \<in> set ls \<and> columns (predicate a) = Some coltype
        \<and> i < length (terms a) \<and> terms a ! i = Variable x \<and> coltype i = Some ty)"

definition sites_type :: "sites \<Rightarrow> string \<Rightarrow> scalar_type option" where
  "sites_type sites x = map_option site_type (sites x)"

text \<open>
  Unification over a list of observations (variable, type): success means the observations agree
  with each other and with what was known, and the result knows exactly the union.
\<close>

lemma type_term_sites:
  assumes "type_term p coltype (pos, t) sites = Inr sites'"
  shows "sites_type sites' x = Some ty \<longleftrightarrow>
    sites_type sites x = Some ty \<or> (t = Variable x \<and> coltype pos = Some ty)"
  using assms
  by (cases t) (auto simp: type_term_def record_site_def sites_type_def
      split: option.splits if_splits)

lemma type_term_error:
  assumes "type_term p coltype (pos, t) sites = Inl e"
  shows "\<exists>x ty ty'. sites_type sites x = Some ty \<and> t = Variable x \<and> coltype pos = Some ty' \<and> ty \<noteq> ty'"
  using assms
  by (cases t) (auto simp: type_term_def record_site_def sites_type_def
      split: option.splits if_splits)

lemma fold_type_term:
  assumes "fold_res (type_term p coltype) its sites = Inr sites'"
  shows "sites_type sites' x = Some ty \<longleftrightarrow>
    sites_type sites x = Some ty \<or> (\<exists>i. (i, Variable x) \<in> set its \<and> coltype i = Some ty)"
  using assms
proof (induction its arbitrary: sites)
  case (Cons it its)
  then obtain pos t sites1 where "it = (pos, t)" "type_term p coltype (pos, t) sites = Inr sites1"
    and "fold_res (type_term p coltype) its sites1 = Inr sites'"
    by (cases it) (auto simp: bind_res_Inr_iff)
  with Cons.IH [of sites1] type_term_sites [of p coltype pos t sites sites1] show ?case by auto
qed simp

lemma fold_type_term_error:
  assumes "fold_res (type_term p coltype) its sites = Inl e"
  shows "\<exists>x ty ty'. ty \<noteq> ty'
    \<and> (sites_type sites x = Some ty \<or> (\<exists>i. (i, Variable x) \<in> set its \<and> coltype i = Some ty))
    \<and> (\<exists>i. (i, Variable x) \<in> set its \<and> coltype i = Some ty')"
  using assms
proof (induction its arbitrary: sites)
  case (Cons it its)
  obtain pos t where it: "it = (pos, t)" by (cases it)
  show ?case
  proof (cases "type_term p coltype (pos, t) sites")
    case (Inl e')
    with type_term_error [OF Inl] show ?thesis by (auto simp: it)
  next
    case (Inr sites1)
    then have "fold_res (type_term p coltype) its sites1 = Inl e" using Cons.prems it by simp
    from Cons.IH [OF this] obtain x ty ty' where ne: "ty \<noteq> ty'"
      and one: "sites_type sites1 x = Some ty \<or> (\<exists>i. (i, Variable x) \<in> set its \<and> coltype i = Some ty)"
      and two: "\<exists>i. (i, Variable x) \<in> set its \<and> coltype i = Some ty'" by blast
    have "sites_type sites x = Some ty \<or> (\<exists>i. (i, Variable x) \<in> set (it # its) \<and> coltype i = Some ty)"
      using one type_term_sites [OF Inr, of x ty] by (auto simp: it)
    moreover have "\<exists>i. (i, Variable x) \<in> set (it # its) \<and> coltype i = Some ty'"
      using two by auto
    ultimately show ?thesis using ne by blast
  qed
qed simp

lemma types_var_Cons:
  "types_var columns (l # ls) x ty \<longleftrightarrow>
     types_var columns [l] x ty \<or> types_var columns ls x ty"
  by (auto simp: types_var_def)

lemma types_var_Positive:
  "types_var columns [Positive a] x ty \<longleftrightarrow>
     (\<exists>coltype i. columns (predicate a) = Some coltype \<and> (i, Variable x) \<in> set (indexed (terms a))
        \<and> coltype i = Some ty)"
  by (auto simp: types_var_def in_indexed_iff)

lemma types_var_other: "(\<And>a. l \<noteq> Positive a) \<Longrightarrow> \<not> types_var columns [l] x ty"
  by (auto simp: types_var_def)

lemma type_literal_sites:
  assumes "type_literal columns l sites = Inr sites'"
  shows "sites_type sites' x = Some ty \<longleftrightarrow>
    sites_type sites x = Some ty \<or> types_var columns [l] x ty"
proof (cases "\<exists>a. l = Positive a")
  case True
  then show ?thesis
    using assms by (auto simp: type_literal_def types_var_Positive fold_type_term
        split: option.splits)
next
  case False
  then show ?thesis
    using assms types_var_other [of l columns x ty]
    by (cases l) (auto simp: type_literal_def)
qed

lemma type_literal_error:
  assumes "type_literal columns l sites = Inl e"
  shows "\<exists>x ty ty'. ty \<noteq> ty' \<and> (sites_type sites x = Some ty \<or> types_var columns [l] x ty)
    \<and> types_var columns [l] x ty'"
proof -
  obtain a coltype where l: "l = Positive a" "columns (predicate a) = Some coltype"
    and "fold_res (type_term (predicate a) coltype) (indexed (terms a)) sites = Inl e"
    using assms by (cases l) (auto simp: type_literal_def split: option.splits)
  from fold_type_term_error [OF this(3)] l show ?thesis
    unfolding l(1) types_var_Positive by (metis option.inject)
qed

lemma fold_type_literal:
  assumes "fold_res (type_literal columns) ls sites = Inr sites'"
  shows "sites_type sites' x = Some ty \<longleftrightarrow> sites_type sites x = Some ty \<or> types_var columns ls x ty"
  using assms
proof (induction ls arbitrary: sites)
  case Nil
  then show ?case by (auto simp: types_var_def)
next
  case (Cons l ls)
  then obtain sites1 where "type_literal columns l sites = Inr sites1"
    and "fold_res (type_literal columns) ls sites1 = Inr sites'"
    by (auto simp: bind_res_Inr_iff)
  with Cons.IH [of sites1] type_literal_sites [of columns l sites sites1] show ?case
    by (auto simp: types_var_Cons [of _ l ls])
qed

lemma fold_type_literal_error:
  assumes "fold_res (type_literal columns) ls sites = Inl e"
  shows "\<exists>x ty ty'. ty \<noteq> ty' \<and> (sites_type sites x = Some ty \<or> types_var columns ls x ty)
    \<and> types_var columns ls x ty'"
  using assms
proof (induction ls arbitrary: sites)
  case (Cons l ls)
  show ?case
  proof (cases "type_literal columns l sites")
    case (Inl e')
    from type_literal_error [OF Inl] show ?thesis by (auto simp: types_var_Cons [of _ l ls])
  next
    case (Inr sites1)
    then have "fold_res (type_literal columns) ls sites1 = Inl e" using Cons.prems by simp
    from Cons.IH [OF this] type_literal_sites [OF Inr] show ?thesis
      by (auto simp: types_var_Cons [of _ l ls])
  qed
qed simp

lemma derive_with_Inr:
  assumes "derive_with columns r = Inr types"
  shows "types x = Some ty \<longleftrightarrow> types_var columns (body r) x ty"
proof -
  obtain sites where run: "fold_res (type_literal columns) (body r) Map.empty = Inr sites"
    and "(\<lambda>x. map_option site_type (sites x)) = types"
    using assms by (auto simp: derive_with_def map_res_Inr_iff)
  then have types: "types = sites_type sites" by (simp add: sites_type_def fun_eq_iff)
  show ?thesis
    unfolding types fold_type_literal [OF run] by (simp add: sites_type_def)
qed

lemma derive_with_ok_iff:
  "is_ok (derive_with columns r) \<longleftrightarrow>
     (\<forall>x ty ty'. types_var columns (body r) x ty \<and> types_var columns (body r) x ty' \<longrightarrow> ty = ty')"
proof (cases "derive_with columns r")
  case (Inl e)
  then have "fold_res (type_literal columns) (body r) Map.empty = Inl e"
    by (simp add: derive_with_def map_res_Inl_iff)
  from fold_type_literal_error [OF this] Inl show ?thesis
    by (auto simp: sites_type_def)
next
  case (Inr types)
  then show ?thesis using derive_with_Inr [OF Inr] by (metis is_ok_simps(2) option.inject)
qed

section \<open>The gate\<close>

lemma count_atoms_with:
  assumes "v < vertex_count (from_rule r)"
  shows "edges_with (from_rule r) v =
    length (filter (\<lambda>a. Variable (names (vertices (from_rule r)) ! v) \<in> set (terms a)) (positive_atoms r))"
proof -
  let ?vs = "vertices (from_rule r)"
  have "Some v = term_vid ?vs t \<longleftrightarrow> t = Variable (names ?vs ! v)" for t
    using vid_iff [OF from_rule_distinct, of r _ v] assms
    by (cases t) (auto simp: term_vid_def vertex_count_def eq_commute [of "Some v"])
  then have "Some v \<in> set (vertex_positions (edge_of ?vs a))
      \<longleftrightarrow> Variable (names ?vs ! v) \<in> set (terms a)" for a
    by (simp add: edge_of_def image_iff)
  then show ?thesis
    unfolding edges_with_def by (subst from_rule_hyperedges) (simp add: filter_map comp_def)
qed

definition shared_variable :: "rule \<Rightarrow> string \<Rightarrow> bool" where
  "shared_variable r x = (2 \<le> length (filter (\<lambda>a. Variable x \<in> set (terms a)) (positive_atoms r)))"

lemma shared_variable_name:
  assumes "shared_variable r x"
  shows "\<exists>v < vertex_count (from_rule r). names (vertices (from_rule r)) ! v = x"
proof -
  have "filter (\<lambda>a. Variable x \<in> set (terms a)) (positive_atoms r) \<noteq> []"
    using assms by (auto simp: shared_variable_def)
  then have "x \<in> set (names (vertices (from_rule r)))"
    by (auto simp: from_rule_names arg_names_def filter_empty_conv)
  then obtain v where "v < length (names (vertices (from_rule r)))"
    and "names (vertices (from_rule r)) ! v = x"
    unfolding in_set_conv_nth by blast
  moreover have "length (names (vertices (from_rule r))) = vertex_count (from_rule r)"
    by (simp add: names_def vertex_count_def)
  ultimately show ?thesis by metis
qed

lemma gate_verdict_iff:
  "gate_verdict r types = Inr () \<longleftrightarrow>
     analyze (from_rule r) HashFallback = Eligible
     \<and> (\<forall>x ty. shared_variable r x \<and> types x = Some ty \<longrightarrow> ty \<in> set WCOJ_SUPPORTED_KEY_TYPES)"
proof -
  have keys: "(\<forall>v \<in> set (join_key_vertex_ids (from_rule r)). unsupported_key (from_rule r) types v = None)
      \<longleftrightarrow> (\<forall>x ty. shared_variable r x \<and> types x = Some ty \<longrightarrow> ty \<in> set WCOJ_SUPPORTED_KEY_TYPES)"
    (is "?L = ?R")
  proof
    assume L: ?L
    show ?R
    proof (intro allI impI, elim conjE)
      fix x ty assume x: "shared_variable r x" "types x = Some ty"
      obtain v where v: "v < vertex_count (from_rule r)" "names (vertices (from_rule r)) ! v = x"
        using shared_variable_name [OF x(1)] by blast
      then have "v \<in> set (join_key_vertex_ids (from_rule r))"
        using x(1) by (simp add: join_key_vertex_ids_eq count_atoms_with shared_variable_def)
      then show "ty \<in> set WCOJ_SUPPORTED_KEY_TYPES"
        using L v x(2) by (auto simp: unsupported_key_def split: if_splits)
    qed
  next
    assume R: ?R
    show ?L
    proof
      fix v assume v: "v \<in> set (join_key_vertex_ids (from_rule r))"
      then have "shared_variable r (names (vertices (from_rule r)) ! v)"
        by (auto simp: join_key_vertex_ids_eq count_atoms_with shared_variable_def)
      then show "unsupported_key (from_rule r) types v = None"
        using R by (auto simp: unsupported_key_def Let_def split: option.splits)
    qed
  qed
  have "gate_verdict r types = Inr () \<longleftrightarrow> analyze_typed (from_rule r) types HashFallback = Eligible"
    by (simp add: gate_verdict_def split: eligibility.splits)
  then show ?thesis unfolding analyze_typed_Eligible_iff keys .
qed

definition typing_consistent ::
    "(string \<Rightarrow> (nat \<Rightarrow> scalar_type option) option) \<Rightarrow> rule \<Rightarrow> bool" where
  "typing_consistent columns r =
     (\<forall>x ty ty'. types_var columns (body r) x ty \<and> types_var columns (body r) x ty' \<longrightarrow> ty = ty')"

definition keys_supported ::
    "(string \<Rightarrow> (nat \<Rightarrow> scalar_type option) option) \<Rightarrow> rule \<Rightarrow> bool" where
  "keys_supported columns r =
     (\<forall>x ty. shared_variable r x \<and> types_var columns (body r) x ty \<longrightarrow> ty \<in> {TyU32, TyU64, TySymbol})"

lemma typed_gate_ok:
  "bind_res (derive_with columns r) (gate_verdict r) = Inr () \<longleftrightarrow>
     typing_consistent columns r \<and> analyze (from_rule r) HashFallback = Eligible
     \<and> keys_supported columns r"
proof (cases "derive_with columns r")
  case (Inl e)
  then have "\<not> is_ok (derive_with columns r)" by simp
  then show ?thesis using Inl unfolding derive_with_ok_iff typing_consistent_def by simp
next
  case (Inr types)
  then have "is_ok (derive_with columns r)" by simp
  then have "typing_consistent columns r" unfolding derive_with_ok_iff typing_consistent_def .
  then show ?thesis
    using Inr derive_with_Inr [OF Inr]
    by (simp add: gate_verdict_iff keys_supported_def WCOJ_SUPPORTED_KEY_TYPES_def)
qed

section \<open>A static condition for success\<close>

datatype value_kind = KNumber | KBool | KSymbol

fun kind_of_type :: "scalar_type \<Rightarrow> value_kind" where
  "kind_of_type TyBool = KBool"
| "kind_of_type TySymbol = KSymbol"
| "kind_of_type _ = KNumber"

fun kind_of_value :: "ref_value \<Rightarrow> value_kind" where
  "kind_of_value (VBool _) = KBool"
| "kind_of_value (VSymbol _) = KSymbol"
| "kind_of_value _ = KNumber"

fun kind_of_term :: "(string \<rightharpoonup> scalar_type) \<Rightarrow> ast_term \<Rightarrow> value_kind option" where
  "kind_of_term types (Variable x) = map_option kind_of_type (types x)"
| "kind_of_term types (Integer _) = Some KNumber"
| "kind_of_term types (Str _) = Some KSymbol"
| "kind_of_term types _ = None"

text \<open>The constants a column of the type can hold.\<close>

fun integer_fits :: "int \<Rightarrow> scalar_type \<Rightarrow> bool" where
  "integer_fits n TyU32 = (0 \<le> n \<and> n < 4294967296)"
| "integer_fits n TyU64 = (0 \<le> n)"
| "integer_fits n TyI32 = (- 2147483648 \<le> n \<and> n < 2147483648)"
| "integer_fits n TyI64 = True"
| "integer_fits n _ = False"

fun term_fits :: "scalar_type \<Rightarrow> ast_term \<Rightarrow> bool" where
  "term_fits ty (Variable x) = True"
| "term_fits ty Anonymous = True"
| "term_fits ty (Integer n) = integer_fits (sint n) ty"
| "term_fits ty (Str s) = (ty = TySymbol)"
| "term_fits ty _ = False"

definition atom_supported :: "ref_store \<Rightarrow> atom \<Rightarrow> bool" where
  "atom_supported store a =
     (case store (predicate a) of
        None \<Rightarrow> False
      | Some rel \<Rightarrow>
          list_all (row_typed (schema rel)) (rows rel)
          \<and> list_all2 term_fits (schema rel) (terms a))"

definition comparison_supported :: "(string \<rightharpoonup> scalar_type) \<Rightarrow> comparison \<Rightarrow> bool" where
  "comparison_supported types c =
     (kind_of_term types (cmp_left c) \<noteq> None
      \<and> kind_of_term types (cmp_left c) = kind_of_term types (cmp_right c))"

definition rule_supported :: "rule \<Rightarrow> ref_store \<Rightarrow> (string \<rightharpoonup> scalar_type) \<Rightarrow> bool" where
  "rule_supported r store types =
     (no_computed r
      \<and> list_all (atom_supported store) (positive_atoms r)
      \<and> list_all (\<lambda>t. kind_of_term types t \<noteq> None) (terms (head r))
      \<and> list_all (comparison_supported types) (comparisons r))"

lemma coerce_fits: "is_ok (coerce_integer_constant n ty p i) \<longleftrightarrow> integer_fits (sint n) ty"
  by (cases ty) (auto simp: coerce_integer_constant_def)

lemma position_fits:
  assumes "i < length (schema rel)"
  shows "is_ok (build_position_spec a edge rel (i, t)) \<longleftrightarrow> term_fits (schema rel ! i) t"
  using column_type_in_range [of i rel] assms
  by (cases t) (auto simp: build_position_spec_def coerce_fits Let_def split: option.splits)

lemma atom_spec_fits:
  "is_ok (build_atom_spec a edge rel) \<longleftrightarrow> list_all2 term_fits (schema rel) (terms a)"
proof (cases "length (terms a) = length (schema rel)")
  case True
  then have "is_ok (build_atom_spec a edge rel) \<longleftrightarrow>
      (\<forall>i < length (terms a). term_fits (schema rel ! i) (terms a ! i))"
    by (auto simp: build_atom_spec_def is_ok_traverse set_indexed position_fits)
  then show ?thesis using True by (simp add: list_all2_conv_all_nth)
qed (auto simp: build_atom_spec_def dest: list_all2_lengthD)

lemma atom_supported_iff:
  "atom_supported store a \<longleftrightarrow>
     (\<exists>rel. store (predicate a) = Some rel \<and> relation_typed rel
        \<and> is_ok (build_atom_spec a (edge_of (vertices (from_rule r)) a) rel))"
  by (auto simp: atom_supported_def atom_spec_fits relation_typed_def list_all_iff split: option.splits)

lemma kind_of_matching: "ref_value_matches_scalar_type v ty \<Longrightarrow> kind_of_value v = kind_of_type ty"
  by (cases v) auto

lemma apply_comparison_op_ok:
  "kind_of_value v = kind_of_value w \<Longrightarrow> is_ok (apply_comparison_op v w op)"
  by (cases v; cases w) (auto simp: apply_comparison_op_def to_i128_def)

lemma positive_atoms_iff: "a \<in> set (positive_atoms r) \<longleftrightarrow> Positive a \<in> set (body r)"
proof -
  have "a \<in> set (List.map_filter (\<lambda>l. case l of Positive a \<Rightarrow> Some a | _ \<Rightarrow> None) ls)
      \<longleftrightarrow> Positive a \<in> set ls" for ls
    by (induction ls) (auto simp: map_filter_Cons List.map_filter_def split: body_literal.splits)
  then show ?thesis by (simp add: positive_atoms_def)
qed

text \<open>Under a full binding a typed variable is bound to a value of its type.\<close>

lemma bound_value_kind:
  assumes types: "derive_vertex_types r store = Inr types"
    and specs: "list_all2 (spec_for r store) (positive_atoms r) specs"
    and b: "b \<in> full_bindings (domain_lists (from_rule r) specs) {..<vertex_count (from_rule r)}"
    and x: "types x = Some ty"
  shows "\<exists>v. lookup_name (from_rule r) b x = Inr v \<and> kind_of_value v = kind_of_type ty"
proof -
  let ?hg = "from_rule r"
  have tv: "types z = Some ty' \<longleftrightarrow> types_var (base_columns store) (body r) z ty'" for z ty'
    using derive_with_Inr types unfolding derive_vertex_types_def by blast
  have "types_var (base_columns store) (body r) x ty" using x tv by blast
  then obtain a i where a: "a \<in> set (positive_atoms r)" "i < length (terms a)"
      "terms a ! i = Variable x"
    unfolding types_var_def positive_atoms_iff by blast
  obtain v where v: "vid (vertices ?hg) x = Some v"
    using edge_position [OF a(1,3,2)] by blast
  have vx: "v < vertex_count ?hg" "names (vertices ?hg) ! v = x"
    using vid_Some [OF v] by (simp_all add: vertex_count_def)
  obtain val where val: "b v = Some val" "val \<in> set (domain_lists ?hg specs ! v)"
    using b vx(1) by (auto simp: full_bindings_def)
  obtain spec j where spec: "spec \<in> set specs" "j < length (positions spec)"
      "positions spec ! j = PVertex v" "val \<in> column_values spec j"
    using val(2) by (auto simp: domain_lists_nth [OF vx(1)])
  obtain a' where a': "a' \<in> set (positive_atoms r)" "spec_for r store a' spec"
    using atom_of_spec [OF specs spec(1)] by blast
  obtain x' where x': "terms a' ! j = Variable x'" "vid (vertices ?hg) x' = Some v"
    using spec_positions_bound [OF a'(2,1) spec(2,3)] by blast
  have xx: "x' = x" using vid_Some [OF x'(2)] vx(2) by simp
  let ?sch = "schema (spec_relation spec)"
  have j: "j < length ?sch" "j < length (terms a')" using a'(2) spec(2) by (auto simp: spec_for_def)
  have "types_var (base_columns store) (body r) x (?sch ! j)"
    using a' j x'(1) xx unfolding types_var_def positive_atoms_iff
    by (intro exI [of _ a'] exI [of _ "get ?sch"] exI [of _ j])
      (auto simp: base_columns_def spec_for_def get_def)
  then have sty: "?sch ! j = ty" using tv x by (metis option.inject)
  have "ref_value_matches_scalar_type val (?sch ! j)"
    using a'(2) spec(4) j
    by (auto simp: column_values_def spec_for_def relation_typed_def row_typed_def
        list_all2_conv_all_nth)
  then show ?thesis
    using v val(1) sty kind_of_matching by (auto simp: lookup_name_def)
qed

lemma leaf_row_supported:
  assumes types: "derive_vertex_types r store = Inr types"
    and specs: "list_all2 (spec_for r store) (positive_atoms r) specs"
    and sup: "rule_supported r store types"
  shows "leaves_ok r specs"
  unfolding leaves_ok_def
proof
  let ?hg = "from_rule r"
  fix b assume b: "b \<in> full_bindings (domain_lists ?hg specs) {..<vertex_count ?hg}"
  note bound = bound_value_kind [OF types specs b]
  have resolve: "\<exists>v. resolve_term_for_comparison t b ?hg = Inr v \<and> kind_of_value v = k"
    if "kind_of_term types t = Some k" for t k
    using that bound by (cases t) (auto simp: resolve_term_for_comparison_def)
  have "is_ok (evaluate_comparison c b ?hg)" if "c \<in> set (comparisons r)" for c
  proof -
    have ks: "kind_of_term types (cmp_left c) \<noteq> None"
        "kind_of_term types (cmp_left c) = kind_of_term types (cmp_right c)"
      using sup that unfolding rule_supported_def comparison_supported_def list_all_iff by blast+
    then obtain k where k: "kind_of_term types (cmp_left c) = Some k"
        "kind_of_term types (cmp_right c) = Some k" by auto
    from resolve [OF k(1)] resolve [OF k(2)] show ?thesis
      by (auto simp: evaluate_comparison_def apply_comparison_op_ok)
  qed
  then have cs: "is_ok (comparisons_hold ?hg b cs)" if "set cs \<subseteq> set (comparisons r)" for cs
    using that
  proof (induction cs)
    case (Cons c cs)
    then have "is_ok (evaluate_comparison c b ?hg)" by simp
    then obtain h where "evaluate_comparison c b ?hg = Inr h" by (auto simp: is_ok_iff)
    with Cons show ?case by (cases h) auto
  qed simp
  have "is_ok (project_term ?hg b t)" if t: "t \<in> set (terms (head r))" for t
  proof -
    have "kind_of_term types t \<noteq> None" using sup t unfolding rule_supported_def list_all_iff by blast
    then show ?thesis using bound by (cases t) (fastforce simp: project_term_def)+
  qed
  then have "is_ok (traverse (project_term ?hg b) (terms (head r)))"
    by (simp add: is_ok_traverse)
  moreover have "is_ok (all_atoms_match specs b)"
    using all_atoms_match_iff [OF specs subset_refl valuation_of_agrees [OF b]] by simp
  ultimately show "is_ok (leaf_row ?hg specs (comparisons r) (head r) b)"
    using cs [OF subset_refl] by (auto simp: leaf_row_def is_ok_iff)
qed

lemma atom_specs_supported:
  assumes "rule_supported r store types"
  shows "\<exists>specs. atom_specs_of r store = Inr specs"
proof -
  have "\<forall>a \<in> set (positive_atoms r). is_ok (case store (predicate a) of
         None \<Rightarrow> Inl (MissingRelation (predicate a))
       | Some rel \<Rightarrow> bind_res (validate_relation_rows (predicate a) rel)
           (\<lambda>_. build_atom_spec a (edge_of (vertices (from_rule r)) a) rel))"
  proof
    fix a assume "a \<in> set (positive_atoms r)"
    then obtain rel where "store (predicate a) = Some rel" "relation_typed rel"
        "is_ok (build_atom_spec a (edge_of (vertices (from_rule r)) a) rel)"
      using assms by (auto simp: rule_supported_def list_all_iff atom_supported_iff [of _ _ r])
    moreover have "validate_relation_rows (predicate a) rel = Inr ()"
      using calculation(2) by (simp add: validate_ok)
    ultimately show "is_ok (case store (predicate a) of
         None \<Rightarrow> Inl (MissingRelation (predicate a))
       | Some rel \<Rightarrow> bind_res (validate_relation_rows (predicate a) rel)
           (\<lambda>_. build_atom_spec a (edge_of (vertices (from_rule r)) a) rel))"
      by simp
  qed
  then have "is_ok (atom_specs_of r store)"
    unfolding atom_specs_of_def
    by (subst from_rule_hyperedges) (simp add: traverse_zip_map is_ok_traverse)
  then show ?thesis by (simp add: is_ok_iff)
qed

section \<open>Properties\<close>

text \<open>The typed gate lets a rule through exactly when every variable has one type at all its
  occurrences under known columns, the rule is structurally eligible, and every variable shared by
  two positive atoms whose type is known has one of the supported key types.\<close>

theorem typed_gate_characterised:
  "typed_gate r relations = Inr () \<longleftrightarrow>
     typing_consistent (base_columns relations) r
     \<and> analyze (from_rule r) HashFallback = Eligible
     \<and> keys_supported (base_columns relations) r"
  unfolding typed_gate_def derive_vertex_types_def by (rule typed_gate_ok)

text \<open>C16: well-typed rules do not fail: if the gate accepts a rule over well-formed relations, its
  head and comparison terms are typed variables, integers or strings, its constants fit their
  columns and its comparisons are between terms of one kind, then the typed evaluation along any
  lawful order succeeds with the sorted declarative answers.\<close>

theorem typed_rule_succeeds:
  assumes "variable_order order" and "typed_gate r store = Inr ()"
    and "derive_vertex_types r store = Inr types" and "rule_supported r store types"
  shows "evaluate_rule_typed r store order = Inr (sorted_list_of_set (rule_answers r (facts_of store)))"
proof -
  have elig: "analyze (from_rule r) HashFallback = Eligible"
    using assms(2) unfolding typed_gate_def derive_vertex_types_def typed_gate_ok by blast
  obtain specs where specs: "atom_specs_of r store = Inr specs"
    using atom_specs_supported [OF assms(4)] by blast
  have "leaves_ok r specs"
    by (rule leaf_row_supported [OF assms(3) atom_specs_of_Inr [OF specs] assms(4)])
  moreover have "no_computed r" using assms(4) by (simp add: rule_supported_def)
  ultimately have "is_ok (evaluate_rule r store order)"
    unfolding variable_order.evaluate_rule_ok_iff [OF assms(1)] using elig specs by blast
  then obtain rs where rs: "evaluate_rule r store order = Inr rs" by (auto simp: is_ok_iff)
  have "evaluate_rule_typed r store order = Inr rs"
    using assms(2) rs by (simp add: evaluate_rule_typed_def)
  then show ?thesis using variable_order.evaluate_rule_answers [OF assms(1) rs] by simp
qed

theorem typed_rule_succeeds_witness:
  "evaluate_rule_typed hop_rule hop_store appearance_order =
     Inr (sorted_list_of_set (rule_answers hop_rule (facts_of hop_store)))"
proof -
  have gate: "typed_gate hop_rule hop_store = Inr ()" by code_simp
  have "is_ok (derive_vertex_types hop_rule hop_store)" by code_simp
  then obtain types where types: "derive_vertex_types hop_rule hop_store = Inr types"
    by (auto simp: is_ok_iff)
  have "case derive_vertex_types hop_rule hop_store of
      Inl _ \<Rightarrow> False | Inr types \<Rightarrow> rule_supported hop_rule hop_store types"
    by code_simp
  then have "rule_supported hop_rule hop_store types" by (simp add: types)
  from typed_rule_succeeds [OF appearance.variable_order_axioms gate types this] show ?thesis .
qed

end
