(* ===== verification/Rule_Plan.thy ===== *)
theory Rule_Plan
  imports Typed_Gate "HOL-Library.Multiset"
begin

text \<open>
  The plan contract (\<open>hypergraph/plan.rs\<close>): every rule is dispatched to the multiway path or to
  the binary fallback, or planning fails on a type conflict. \<open>PlanUnreachable\<close> is the
  \<open>unreachable!\<close> arm of the code. The lemmas relate the planner to the typed gate of the
  evaluators, and the canonical explain output to the multiset of plans. The derived \<open>Debug\<close>
  rendering of a boundary list is a parameter of the explain functions.
\<close>

datatype rule_plan =
    MultiwayCandidate (plan_head: string) hypergraph_rule "vertex_id list"
  | BinaryFallback (plan_head: string) "boundary list"

datatype plan_error =
    PlanConflictingVariableType string string nat scalar_type string nat scalar_type
  | PlanInferenceConflict string nat nat scalar_type nat scalar_type
  | PlanRuleHeadPredicateMismatch string nat string
  | PlanUnreachable

definition plan_of_eval_error :: "ref_eval_error \<Rightarrow> plan_error" where
  "plan_of_eval_error e =
     (case e of
        ConflictingVariableType x p1 i1 t1 p2 i2 t2 \<Rightarrow>
          PlanConflictingVariableType x p1 i1 t1 p2 i2 t2
      | _ \<Rightarrow> PlanUnreachable)"

definition plan_with_types :: "rule \<Rightarrow> (string \<rightharpoonup> scalar_type) \<Rightarrow> rule_plan" where
  "plan_with_types r types =
     (let hg = from_rule r
      in case analyze_typed hg types HashFallback of
           Eligible \<Rightarrow> MultiwayCandidate (predicate (head r)) hg (appearance_order hg)
         | Ineligible bs \<Rightarrow> BinaryFallback (predicate (head r)) bs)"

definition plan_rule :: "rule \<Rightarrow> ref_store \<Rightarrow> plan_error + rule_plan" where
  "plan_rule r base =
     map_res (plan_with_types r) (map_err plan_of_eval_error (derive_vertex_types r base))"

definition plan_rules :: "rule list \<Rightarrow> ref_store \<Rightarrow> plan_error + rule_plan list" where
  "plan_rules rs base = traverse (\<lambda>r. plan_rule r base) rs"

definition misgrouped :: "string \<times> rule list \<Rightarrow> plan_error option" where
  "misgrouped = (\<lambda>(p, rs). first_error (\<lambda>(i, r).
     if predicate (head r) \<noteq> p then Some (PlanRuleHeadPredicateMismatch p i (predicate (head r)))
     else None) (indexed rs))"

definition plan_of_inference_error :: "inference_error \<Rightarrow> plan_error" where
  "plan_of_inference_error e =
     (case e of
        ConflictingPredicateColumnType p c i1 t1 i2 t2 \<Rightarrow> PlanInferenceConflict p c i1 t1 i2 t2
      | InferPanic \<Rightarrow> PlanUnreachable)"

definition plan_group ::
    "ref_store \<Rightarrow> inferred_schemas \<Rightarrow> string \<times> rule list
     \<Rightarrow> plan_error + (string \<times> rule_plan list)" where
  "plan_group base inferred = (\<lambda>(p, rs).
     map_res (Pair p)
       (traverse (\<lambda>r. map_res (plan_with_types r)
           (map_err plan_of_eval_error (derive_vertex_types_with_inference r base inferred))) rs))"

definition plan_scc_rules ::
    "rule_groups \<Rightarrow> ref_store \<Rightarrow> plan_error + (string \<times> rule_plan list) list" where
  "plan_scc_rules groups base =
     bind_res (check (first_error misgrouped groups)) (\<lambda>_.
       bind_res (map_err plan_of_inference_error (infer_scc_predicate_schemas groups base))
         (\<lambda>inferred. traverse (plan_group base inferred) groups))"

section \<open>Explain output\<close>

fun join_names :: "string \<Rightarrow> string list \<Rightarrow> string" where
  "join_names sep [] = []"
| "join_names sep [s] = s"
| "join_names sep (s # ss) = s @ sep @ join_names sep ss"

fun show_nat :: "nat \<Rightarrow> string" where
  "show_nat n =
     (if n < 10 then [char_of (48 + n)] else show_nat (n div 10) @ [char_of (48 + n mod 10)])"

declare show_nat.simps [simp del]

definition render_body :: "(boundary list \<Rightarrow> string) \<Rightarrow> rule_plan \<Rightarrow> string" where
  "render_body debug plan =
     (case plan of
        MultiwayCandidate _ hg order \<Rightarrow>
          ''multiway vars=['' @ join_names '', '' (map (\<lambda>v. names (vertices hg) ! v) order) @ '']''
      | BinaryFallback _ bs \<Rightarrow> ''binary-fallback boundaries='' @ debug bs)"

fun explain_lines :: "string option \<Rightarrow> nat \<Rightarrow> (string \<times> string) list \<Rightarrow> string" where
  "explain_lines last_head rank [] = []"
| "explain_lines last_head rank ((h, b) # bodies) =
     (let rank' = (if last_head = Some h then rank + 1 else 0)
      in h @ ''/'' @ show_nat rank' @ '': '' @ b @ [CHR 0x0A]
         @ explain_lines (Some h) rank' bodies)"

definition explain_plans :: "(boundary list \<Rightarrow> string) \<Rightarrow> rule_plan list \<Rightarrow> string" where
  "explain_plans debug plans =
     explain_lines None 0 (sort (map (\<lambda>p. (plan_head p, render_body debug p)) plans))"

section \<open>The planner and the gate\<close>

lemma derive_with_error:
  assumes "derive_with columns r = Inl e"
  shows "\<exists>x p1 i1 t1 p2 i2 t2. e = ConflictingVariableType x p1 i1 t1 p2 i2 t2 \<and> t1 \<noteq> t2"
proof -
  let ?conf = "\<lambda>e. \<exists>x p1 i1 t1 p2 i2 t2. e = ConflictingVariableType x p1 i1 t1 p2 i2 t2 \<and> t1 \<noteq> t2"
  have t: "?conf e" if "type_term p c it sites = Inl e" for p c it sites e
    using that by (cases it; cases "snd it")
      (auto simp: type_term_def record_site_def split: option.splits if_splits)
  have l: "?conf e" if lit: "type_literal columns l sites = Inl e" for l sites e
  proof -
    obtain a :: atom and c where "fold_res (type_term (predicate a) c) (indexed (terms a)) sites = Inl e"
      using lit by (cases l) (auto simp: type_literal_def split: option.splits)
    from fold_res_Inl [OF this] t show ?thesis by metis
  qed
  have "?conf e" if "fold_res (type_literal columns) ls sites = Inl e" for ls sites
    using fold_res_Inl [OF that] l by metis
  then show ?thesis using assms by (auto simp: derive_with_def map_res_Inl_iff)
qed

lemma gate_verdict_plan:
  "gate_verdict r types = Inr () \<longleftrightarrow>
     plan_with_types r types =
       MultiwayCandidate (predicate (head r)) (from_rule r) (appearance_order (from_rule r))"
  "gate_verdict r types = Inl (RefIneligible bs) \<longleftrightarrow>
     plan_with_types r types = BinaryFallback (predicate (head r)) bs"
  by (auto simp: gate_verdict_def plan_with_types_def Let_def split: eligibility.splits)

lemma gate_verdict_error: "gate_verdict r types = Inl e \<Longrightarrow> \<exists>bs. e = RefIneligible bs"
  by (auto simp: gate_verdict_def split: eligibility.splits)

lemma plan_not_unreachable: "plan_rule r base \<noteq> Inl PlanUnreachable"
proof (cases "derive_with (base_columns base) r")
  case (Inl e)
  then show ?thesis using derive_with_error [OF Inl]
    by (auto simp: plan_rule_def derive_vertex_types_def plan_of_eval_error_def)
qed (simp add: plan_rule_def derive_vertex_types_def)

section \<open>Groups\<close>

lemma misgrouped_None:
  "first_error misgrouped groups = None \<longleftrightarrow>
     \<not> list_ex (\<lambda>(p, rs). list_ex (\<lambda>r. predicate (head r) \<noteq> p) rs) groups"
proof -
  have "misgrouped (p, rs) = None \<longleftrightarrow> \<not> list_ex (\<lambda>r. predicate (head r) \<noteq> p) rs" for p rs
  proof -
    have "misgrouped (p, rs) = None \<longleftrightarrow> (\<forall>i < length rs. predicate (head (rs ! i)) = p)"
      by (auto simp: misgrouped_def first_error_None set_indexed simp del: first_error.simps)
    also have "\<dots> \<longleftrightarrow> (\<forall>r \<in> set rs. predicate (head r) = p)" by (simp add: all_set_conv_all_nth)
    finally show ?thesis by (simp add: list_ex_iff)
  qed
  then show ?thesis by (auto simp: first_error_None list_ex_iff)
qed

definition is_multiway :: "rule_plan \<Rightarrow> bool" where
  "is_multiway plan = (case plan of MultiwayCandidate _ _ _ \<Rightarrow> True | BinaryFallback _ _ \<Rightarrow> False)"

lemma planned_gate:
  assumes "map_res (plan_with_types r)
      (map_err plan_of_eval_error (derive_vertex_types_with_inference r base inferred)) = Inr plan"
  shows "typed_gate_with_inference r base inferred =
    (case plan of MultiwayCandidate _ _ _ \<Rightarrow> Inr () | BinaryFallback _ bs \<Rightarrow> Inl (RefIneligible bs))"
proof -
  obtain types where "derive_vertex_types_with_inference r base inferred = Inr types"
    and "plan_with_types r types = plan"
    using assms by (auto simp: map_res_Inr_iff map_err_Inr_iff)
  then show ?thesis
    by (auto simp: typed_gate_with_inference_def gate_verdict_def plan_with_types_def Let_def
        split: eligibility.splits)
qed

lemma planned_group_gate:
  assumes "plan_group base inferred (p, rs) = Inr (p', plans)" and "list_all is_multiway plans"
  shows "gate_rules rs base inferred = None"
proof -
  have l: "list_all2 (\<lambda>r plan. map_res (plan_with_types r)
      (map_err plan_of_eval_error (derive_vertex_types_with_inference r base inferred)) = Inr plan) rs plans"
    using assms(1) by (auto simp: plan_group_def map_res_Inr_iff [where f = "Pair p"] traverse_Inr_iff)
  have "typed_gate_with_inference (rs ! i) base inferred = Inr ()" if "i < length rs" for i
  proof -
    have pl: "map_res (plan_with_types (rs ! i)) (map_err plan_of_eval_error
        (derive_vertex_types_with_inference (rs ! i) base inferred)) = Inr (plans ! i)"
      and "i < length plans"
      using l that by (auto simp: list_all2_conv_all_nth)
    then have "is_multiway (plans ! i)" using assms(2) by (simp add: list_all_length)
    with planned_gate [OF pl] show ?thesis
      by (auto simp: is_multiway_def split: rule_plan.splits)
  qed
  then show ?thesis by (auto simp: gate_rules_def first_error_None set_indexed)
qed

section \<open>Properties\<close>

text \<open>The planner and the typed gate never disagree on a rule: a multiway plan means the gate
  passes, a fallback lists exactly the boundaries the gate rejects the rule for, a planning error is
  the gate's type conflict, and the \<open>unreachable!\<close> arm is never reached.\<close>

theorem planner_matches_gate:
  "(case plan_rule r base of
      Inr (MultiwayCandidate h hg order) \<Rightarrow>
        typed_gate r base = Inr () \<and> h = predicate (head r) \<and> hg = from_rule r
        \<and> length order = vertex_count hg
    | Inr (BinaryFallback h bs) \<Rightarrow> typed_gate r base = Inl (RefIneligible bs) \<and> bs \<noteq> []
    | Inl e \<Rightarrow> e \<noteq> PlanUnreachable \<and> (\<exists>x p1 i1 t1 p2 i2 t2. t1 \<noteq> t2
        \<and> e = PlanConflictingVariableType x p1 i1 t1 p2 i2 t2
        \<and> typed_gate r base = Inl (ConflictingVariableType x p1 i1 t1 p2 i2 t2)))"
proof (cases "derive_with (base_columns base) r")
  case (Inl e)
  then show ?thesis using derive_with_error [OF Inl]
    by (auto simp: plan_rule_def typed_gate_def derive_vertex_types_def plan_of_eval_error_def)
next
  case (Inr types)
  show ?thesis
  proof (cases "analyze_typed (from_rule r) types HashFallback")
    case Eligible
    then show ?thesis using Inr appearance.order_length [of "from_rule r"]
      by (simp add: plan_rule_def typed_gate_def derive_vertex_types_def plan_with_types_def
          gate_verdict_def Let_def)
  next
    case (Ineligible bs)
    then show ?thesis using Inr analyze_typed_Ineligible_nonempty [OF Ineligible]
      by (simp add: plan_rule_def typed_gate_def derive_vertex_types_def plan_with_types_def
          gate_verdict_def Let_def)
  qed
qed

text \<open>C23: planning a component agrees with evaluating it: if every rule of the groups is planned as
  multiway, the typed component evaluator passes its gates and does exactly what the structural
  evaluator does.\<close>

theorem planned_component_evaluates:
  assumes "plan_scc_rules groups base = Inr plans"
    and "list_all (\<lambda>(_, ps). list_all is_multiway ps) plans"
  shows "evaluate_scc_fixpoint_typed groups base order config
    = evaluate_scc_fixpoint groups base order config"
proof -
  obtain inferred where mis: "first_error misgrouped groups = None"
    and inf: "infer_scc_predicate_schemas groups base = Inr inferred"
    and tr: "traverse (plan_group base inferred) groups = Inr plans"
    using assms(1) by (auto simp: plan_scc_rules_def bind_res_Inr_iff check_Inr_iff map_err_Inr_iff)
  have "gate_rules rs base inferred = None" if g: "(p, rs) \<in> set groups" for p rs
  proof -
    obtain i where i: "i < length groups" "groups ! i = (p, rs)"
      using g by (auto simp: in_set_conv_nth)
    obtain p' ps where ps: "plans ! i = (p', ps)" by (cases "plans ! i")
    have "plan_group base inferred (p, rs) = Inr (p', ps)"
      using traverse_nth [OF tr i(1)] i(2) ps by simp
    moreover have "i < length plans" using traverse_length [OF tr] i(1) by simp
    then have "list_all is_multiway ps" using assms(2) ps by (auto simp: list_all_length)
    ultimately show ?thesis by (rule planned_group_gate)
  qed
  then have "first_error (\<lambda>(p, rs). map_option (\<lambda>(i, src). SccRuleEval p i src)
      (gate_rules rs base inferred)) groups = None"
    by (auto simp: first_error_None)
  then show ?thesis
    using mis inf by (simp add: evaluate_scc_fixpoint_typed_def misgrouped_None)
qed

lemma tc_planned:
  "map_res (list_all (\<lambda>(_, ps). list_all is_multiway ps)) (plan_scc_rules [(''tc'', tc_rules)] tc_base)
   = Inr True"
  by code_simp

theorem planned_component_evaluates_witness:
  "evaluate_scc_fixpoint_typed [(''tc'', tc_rules)] tc_base appearance_order default_config
   = evaluate_scc_fixpoint [(''tc'', tc_rules)] tc_base appearance_order default_config"
proof -
  obtain plans where "plan_scc_rules [(''tc'', tc_rules)] tc_base = Inr plans"
    and "list_all (\<lambda>(_, ps). list_all is_multiway ps) plans"
    using tc_planned by (auto simp: map_res_Inr_iff)
  then show ?thesis by (rule planned_component_evaluates)
qed

text \<open>The explain output depends only on the multiset of plans: any reordering of the rules,
  same-head rules included, is rendered identically.\<close>

theorem explain_canonical:
  assumes "mset plans = mset plans'"
  shows "explain_plans debug plans = explain_plans debug plans'"
proof -
  let ?f = "\<lambda>p. (plan_head p, render_body debug p)"
  have "mset (map ?f plans) = mset (map ?f plans')" using assms by simp
  then have "sort (map ?f plans) = sort (map ?f plans')"
    by (intro properties_for_sort) simp_all
  then show ?thesis by (simp add: explain_plans_def)
qed

theorem explain_canonical_witness:
  "explain_plans (\<lambda>_. ''[]'') [BinaryFallback ''p'' [], BinaryFallback ''a'' [BodyNegation]]
   = explain_plans (\<lambda>_. ''[]'') [BinaryFallback ''a'' [BodyNegation], BinaryFallback ''p'' []]"
  by (rule explain_canonical) simp

text \<open>
  A \<open>Univ\<close> literal is no boundary of the analyser, so such a rule is planned as multiway although
  the reference evaluator rejects it.
\<close>

definition univ_rule :: rule where
  "univ_rule =
     \<lparr>head = \<lparr>predicate = ''p'', terms = [Variable ''X'']\<rparr>,
      body = [Positive \<lparr>predicate = ''edge'', terms = [Variable ''X'', Variable ''Y'']\<rparr>,
              Positive \<lparr>predicate = ''edge'', terms = [Variable ''Y'', Variable ''Z'']\<rparr>,
              Univ \<lparr>univ_term = Variable ''X'', univ_parts = Variable ''Y''\<rparr>]\<rparr>"

lemma univ_planned_but_rejected:
  "map_res is_multiway (plan_rule univ_rule tc_base) = Inr True
   \<and> evaluate_rule univ_rule tc_base appearance_order = Inl IsExprNotSupported"
  by code_simp

end
