(* ===== verification/Tarjan.thy ===== *)
theory Tarjan
  imports Xlog_Prelude
begin

text \<open>
  Tarjan's algorithm as \<open>stratify.rs\<close> runs it (\<open>find_sccs_with_owner\<close>), over any finite directed
  graph given by a successor list. The recursion of \<open>strongconnect\<close> is bounded by a fuel argument;
  \<open>None\<close> is exhausted fuel or the \<open>expect\<close> on an empty stack. The locale \<open>digraph\<close> is the
  interface to the dependency graph: a finite set of vertices closed under successors. Inside it
  the components are proved to be the strongly connected components in dependency order, and fuel
  of one more than the number of vertices to be enough. The vector used as a stack is a list with
  its top at the head.
\<close>

section \<open>The algorithm\<close>

record 'a tarjan_state =
  next_index :: nat
  stack :: "'a list"
  indices :: "'a \<rightharpoonup> nat"
  lowlinks :: "'a \<rightharpoonup> nat"
  on_stack :: "'a set"
  components :: "'a list list"

definition enter :: "'a \<Rightarrow> 'a tarjan_state \<Rightarrow> 'a tarjan_state" where
  "enter v st =
     st\<lparr>indices := (indices st)(v \<mapsto> next_index st),
        lowlinks := (lowlinks st)(v \<mapsto> next_index st),
        next_index := next_index st + 1,
        stack := v # stack st,
        on_stack := insert v (on_stack st)\<rparr>"

definition lower :: "'a \<Rightarrow> nat \<Rightarrow> 'a tarjan_state \<Rightarrow> 'a tarjan_state" where
  "lower v n st = st\<lparr>lowlinks := (lowlinks st)(v \<mapsto> min (the (lowlinks st v)) n)\<rparr>"

fun pop_component :: "'a \<Rightarrow> 'a list \<Rightarrow> 'a set \<Rightarrow> 'a list \<Rightarrow> ('a list \<times> 'a set \<times> 'a list) option"
  where
  "pop_component v [] on component = None"
| "pop_component v (m # ms) on component =
     (if m = v then Some (ms, on - {m}, component @ [m])
      else pop_component v ms (on - {m}) (component @ [m]))"

definition close_component :: "'a \<Rightarrow> 'a tarjan_state \<Rightarrow> 'a tarjan_state option" where
  "close_component v st =
     (if lowlinks st v = indices st v
      then (case pop_component v (stack st) (on_stack st) [] of
              None \<Rightarrow> None
            | Some (ms, on, component) \<Rightarrow>
                Some (st\<lparr>stack := ms, on_stack := on, components := components st @ [component]\<rparr>))
      else Some st)"

function strongconnect ::
    "('a \<Rightarrow> 'a list) \<Rightarrow> nat \<Rightarrow> 'a \<Rightarrow> 'a tarjan_state \<Rightarrow> 'a tarjan_state option"
  and visit_successors ::
    "('a \<Rightarrow> 'a list) \<Rightarrow> nat \<Rightarrow> 'a \<Rightarrow> 'a list \<Rightarrow> 'a tarjan_state \<Rightarrow> 'a tarjan_state option" where
  "strongconnect succs 0 v st = None"
| "strongconnect succs (Suc fuel) v st =
     (case visit_successors succs fuel v (succs v) (enter v st) of
        None \<Rightarrow> None
      | Some st' \<Rightarrow> close_component v st')"
| "visit_successors succs fuel v [] st = Some st"
| "visit_successors succs fuel v (w # ws) st =
     (if indices st w = None
      then (case strongconnect succs fuel w st of
              None \<Rightarrow> None
            | Some st' \<Rightarrow>
                visit_successors succs fuel v ws (lower v (the (lowlinks st' w)) st'))
      else if w \<in> on_stack st
      then visit_successors succs fuel v ws (lower v (the (indices st w)) st)
      else visit_successors succs fuel v ws st)"
  by pat_completeness auto

termination
  by (relation "measures [\<lambda>x. case x of Inl (_, n, _, _) \<Rightarrow> n | Inr (_, n, _, _, _) \<Rightarrow> n,
        \<lambda>x. case x of Inl _ \<Rightarrow> 0 | Inr (_, _, _, ws, _) \<Rightarrow> Suc (length ws)]") auto

definition empty_tarjan :: "'a tarjan_state" where
  "empty_tarjan =
     \<lparr>next_index = 0, stack = [], indices = Map.empty, lowlinks = Map.empty, on_stack = {},
      components = []\<rparr>"

fun connect_all :: "('a \<Rightarrow> 'a list) \<Rightarrow> nat \<Rightarrow> 'a list \<Rightarrow> 'a tarjan_state \<Rightarrow> 'a tarjan_state option" where
  "connect_all succs fuel [] st = Some st"
| "connect_all succs fuel (v # vs) st =
     (if indices st v = None
      then (case strongconnect succs fuel v st of
              None \<Rightarrow> None
            | Some st' \<Rightarrow> connect_all succs fuel vs st')
      else connect_all succs fuel vs st)"

definition tarjan :: "('a \<Rightarrow> 'a list) \<Rightarrow> 'a list \<Rightarrow> 'a list list option" where
  "tarjan succs vs = map_option components (connect_all succs (length vs + 1) vs empty_tarjan)"

section \<open>Reachability\<close>

definition reaches :: "('a \<Rightarrow> 'a list) \<Rightarrow> 'a \<Rightarrow> 'a \<Rightarrow> bool" where
  "reaches succs u v = ((u, v) \<in> rtrancl {(a, b). b \<in> set (succs a)})"

lemma reaches_refl [simp]: "reaches succs v v"
  by (simp add: reaches_def)

lemma reaches_step: "w \<in> set (succs v) \<Longrightarrow> reaches succs v w"
  by (auto simp: reaches_def)

lemma reaches_trans: "reaches succs u v \<Longrightarrow> reaches succs v w \<Longrightarrow> reaches succs u w"
  by (auto simp: reaches_def intro: rtrancl_trans)

lemma reaches_closed:
  assumes "reaches succs u v" and "u \<in> A" and "\<And>x. x \<in> A \<Longrightarrow> set (succs x) \<subseteq> A"
  shows "v \<in> A"
  using assms unfolding reaches_def by (induction rule: rtrancl_induct) auto

text \<open>What the list of components promises: mutually reachable members, and every edge leads into
  the same or an earlier component.\<close>

fun ordered_components :: "('a \<Rightarrow> 'a list) \<Rightarrow> 'a set \<Rightarrow> 'a list list \<Rightarrow> bool" where
  "ordered_components succs earlier [] = True"
| "ordered_components succs earlier (c # cs) =
     ((\<forall>x \<in> set c. \<forall>y \<in> set c. reaches succs x y)
      \<and> (\<forall>x \<in> set c. set (succs x) \<subseteq> earlier \<union> set c)
      \<and> c \<noteq> [] \<and> ordered_components succs (earlier \<union> set c) cs)"

lemma ordered_components_append:
  "ordered_components succs earlier (cs @ ds) \<longleftrightarrow>
     ordered_components succs earlier cs
     \<and> ordered_components succs (earlier \<union> set (concat cs)) ds"
  by (induction cs arbitrary: earlier) (auto simp: Un_assoc)

section \<open>The invariant\<close>

definition visited :: "'a tarjan_state \<Rightarrow> 'a set" where
  "visited st = dom (indices st)"

abbreviation idx :: "'a tarjan_state \<Rightarrow> 'a \<Rightarrow> nat" where
  "idx st v \<equiv> the (indices st v)"

abbreviation low :: "'a tarjan_state \<Rightarrow> 'a \<Rightarrow> nat" where
  "low st v \<equiv> the (lowlinks st v)"

text \<open>
  \<open>G\<close> is the set of vertices whose calls are open. The bookkeeping half of the invariant relates
  the fields to each other, the reachability half relates the stack to the graph.
\<close>

definition book :: "'a set \<Rightarrow> 'a tarjan_state \<Rightarrow> bool" where
  "book V st =
     (distinct (stack st) \<and> on_stack st = set (stack st)
      \<and> visited st \<subseteq> V \<and> set (stack st) \<subseteq> visited st
      \<and> dom (lowlinks st) = visited st
      \<and> (\<forall>v \<in> visited st. idx st v < next_index st)
      \<and> sorted_wrt (\<lambda>a b. idx st b < idx st a) (stack st)
      \<and> distinct (concat (components st))
      \<and> set (concat (components st)) = visited st - set (stack st))"

definition reach_inv :: "('a \<Rightarrow> 'a list) \<Rightarrow> 'a set \<Rightarrow> 'a tarjan_state \<Rightarrow> bool" where
  "reach_inv succs G st =
     (G \<subseteq> set (stack st)
      \<and> (\<forall>x \<in> visited st - G. set (succs x) \<subseteq> visited st)
      \<and> (\<forall>x \<in> visited st - set (stack st). set (succs x) \<subseteq> visited st - set (stack st))
      \<and> (\<forall>g \<in> G. \<forall>x \<in> set (stack st). idx st g \<le> idx st x \<longrightarrow> reaches succs g x)
      \<and> (\<forall>x \<in> set (stack st). \<exists>g \<in> G. idx st g \<le> idx st x \<and> reaches succs x g)
      \<and> ordered_components succs {} (components st))"

text \<open>What a call leaves alone: the old indices, the lowlinks of the old vertices, the old stack.\<close>

definition extends :: "'a list \<Rightarrow> 'a tarjan_state \<Rightarrow> 'a tarjan_state \<Rightarrow> bool" where
  "extends new st st' =
     (visited st \<subseteq> visited st' \<and> (\<forall>x \<in> visited st. indices st' x = indices st x)
      \<and> stack st' = new @ stack st \<and> next_index st \<le> next_index st'
      \<and> set new \<inter> visited st = {})"

definition keeps_lows :: "'a set \<Rightarrow> 'a tarjan_state \<Rightarrow> 'a tarjan_state \<Rightarrow> bool" where
  "keeps_lows A st st' = (\<forall>x \<in> A. lowlinks st' x = lowlinks st x)"

lemma visited_enter: "visited (enter v st) = insert v (visited st)"
  by (auto simp: visited_def enter_def)

lemma enter_simps [simp]:
  "stack (enter v st) = v # stack st"
  "on_stack (enter v st) = insert v (on_stack st)"
  "components (enter v st) = components st"
  "next_index (enter v st) = Suc (next_index st)"
  "indices (enter v st) = (indices st)(v \<mapsto> next_index st)"
  "lowlinks (enter v st) = (lowlinks st)(v \<mapsto> next_index st)"
  by (simp_all add: enter_def)

lemma lower_simps [simp]:
  "stack (lower v n st) = stack st"
  "on_stack (lower v n st) = on_stack st"
  "components (lower v n st) = components st"
  "next_index (lower v n st) = next_index st"
  "indices (lower v n st) = indices st"
  "lowlinks (lower v n st) = (lowlinks st)(v \<mapsto> min (the (lowlinks st v)) n)"
  "visited (lower v n st) = visited st"
  by (simp_all add: lower_def visited_def)

lemma book_lower: "book V st \<Longrightarrow> v \<in> visited st \<Longrightarrow> book V (lower v n st)"
  by (auto simp: book_def)

lemma reach_inv_lower: "reach_inv succs G (lower v n st) = reach_inv succs G st"
  by (simp add: reach_inv_def)

lemma stack_order:
  assumes "book V st" and "stack st = new @ u # base"
  shows "\<forall>x \<in> set new. idx st u < idx st x" and "\<forall>y \<in> set base. idx st y < idx st u"
  using assms by (auto simp: book_def sorted_wrt_append)

lemma pop_component_eq:
  assumes "v \<notin> set new"
  shows "pop_component v (new @ v # base) on c = Some (base, on - set new - {v}, c @ new @ [v])"
  using assms
proof (induction new arbitrary: on c)
  case (Cons m ms)
  have "on - {m} - set ms - {v} = on - set (m # ms) - {v}" by auto
  with Cons show ?case by auto
qed simp

section \<open>Opening a vertex\<close>

lemma book_enter:
  assumes "book V st" and "v \<in> V" and "v \<notin> visited st"
  shows "book V (enter v st)"
proof -
  have st: "distinct (stack st)" "set (stack st) \<subseteq> visited st"
    and srt: "sorted_wrt (\<lambda>a b. idx st b < idx st a) (stack st)"
    and lt: "\<forall>v \<in> visited st. idx st v < next_index st"
    using assms(1) by (auto simp: book_def)
  have neq: "x \<noteq> v" if "x \<in> visited st" for x using that assms(3) by blast
  have "sorted_wrt (\<lambda>a b. idx (enter v st) b < idx (enter v st) a) (stack st)"
    using srt by (rule sorted_wrt_mono_rel [rotated]) (use st(2) neq in auto)
  moreover have "\<forall>x \<in> set (stack st). idx (enter v st) x < next_index st"
    using st(2) lt neq by fastforce
  ultimately have "sorted_wrt (\<lambda>a b. idx (enter v st) b < idx (enter v st) a) (stack (enter v st))"
    by simp
  moreover have "\<forall>x \<in> visited (enter v st). idx (enter v st) x < next_index (enter v st)"
    using lt by (auto simp: visited_enter)
  ultimately show ?thesis
    using assms unfolding book_def visited_enter by auto
qed

lemma reach_inv_enter:
  assumes book: "book V st" and inv: "reach_inv succs G st" and v: "v \<notin> visited st"
    and reach: "\<forall>g \<in> G. reaches succs g v"
  shows "reach_inv succs (insert v G) (enter v st)"
proof -
  have sub: "set (stack st) \<subseteq> visited st" and lt: "\<forall>x \<in> visited st. idx st x < next_index st"
    using book by (auto simp: book_def)
  have old: "idx (enter v st) x = idx st x" if "x \<in> visited st" for x
    using that v by auto
  have G: "G \<subseteq> set (stack st)" using inv by (simp add: reach_inv_def)
  have vs: "v \<notin> set (stack st)" using sub v by blast
  have new: "idx (enter v st) v = next_index st" by simp
  have vis: "visited (enter v st) - set (stack (enter v st)) = visited st - set (stack st)"
    using v by (auto simp: visited_enter)
  have r1: "reaches succs g x" if g: "g \<in> insert v G" and x: "x \<in> set (v # stack st)"
    and le: "idx (enter v st) g \<le> idx (enter v st) x" for g x
  proof (cases "g = v")
    case True
    then have "x = v" using le x sub lt old by (fastforce simp: new)
    then show ?thesis using True by simp
  next
    case False
    then have gG: "g \<in> G" using g by simp
    show ?thesis
    proof (cases "x = v")
      case False
      then have "idx st g \<le> idx st x" using le x gG G sub old by (metis set_ConsD subsetD)
      then show ?thesis using inv gG x False by (auto simp: reach_inv_def)
    qed (use reach gG in simp)
  qed
  have r2: "\<exists>g \<in> insert v G. idx (enter v st) g \<le> idx (enter v st) x \<and> reaches succs x g"
    if x: "x \<in> set (v # stack st)" for x
  proof (cases "x = v")
    case False
    then have "x \<in> set (stack st)" using x by simp
    then obtain g where "g \<in> G" "idx st g \<le> idx st x" "reaches succs x g"
      using inv by (auto simp: reach_inv_def)
    then show ?thesis using old G sub \<open>x \<in> set (stack st)\<close> by (metis insertCI subsetD)
  qed auto
  have "\<forall>x \<in> visited (enter v st) - insert v G. set (succs x) \<subseteq> visited (enter v st)"
    using inv by (auto simp: reach_inv_def visited_enter)
  moreover have "insert v G \<subseteq> set (stack (enter v st))" using G by auto
  moreover have "\<forall>x \<in> visited (enter v st) - set (stack (enter v st)).
      set (succs x) \<subseteq> visited (enter v st) - set (stack (enter v st))"
    unfolding vis using inv by (simp add: reach_inv_def)
  moreover have "ordered_components succs {} (components (enter v st))"
    using inv by (simp add: reach_inv_def)
  ultimately show ?thesis
    unfolding reach_inv_def using r1 r2 by simp
qed

section \<open>The contracts of a call and of the loop over the successors\<close>

definition call_post ::
    "'a set \<Rightarrow> ('a \<Rightarrow> 'a list) \<Rightarrow> 'a set \<Rightarrow> 'a \<Rightarrow> 'a tarjan_state \<Rightarrow> 'a tarjan_state \<Rightarrow> bool" where
  "call_post V succs G v st st' =
     (book V st' \<and> reach_inv succs G st' \<and> keeps_lows (visited st) st st'
      \<and> v \<in> visited st' \<and> next_index st \<le> idx st' v
      \<and> (\<exists>new. extends new st st'
            \<and> (if v \<in> set (stack st')
               then (\<exists>y \<in> set (stack st). idx st y = low st' v \<and> reaches succs v y)
                 \<and> (\<forall>x \<in> set new. \<forall>y \<in> set (succs x) \<inter> set (stack st). low st' v \<le> idx st y)
               else new = [] \<and> low st' v = idx st' v)))"

text \<open>
  In the middle of the loop of \<open>u\<close>: \<open>base\<close> is the stack below \<open>u\<close>, \<open>ds\<close> the successors seen so far.
\<close>

definition mid ::
    "'a set \<Rightarrow> ('a \<Rightarrow> 'a list) \<Rightarrow> 'a set \<Rightarrow> 'a list \<Rightarrow> 'a \<Rightarrow> 'a set \<Rightarrow> 'a list \<Rightarrow> 'a tarjan_state \<Rightarrow> bool"
  where
  "mid V succs G base u ds new st =
     (book V st \<and> reach_inv succs (insert u G) st \<and> G \<subseteq> set base
      \<and> stack st = new @ u # base
      \<and> (\<forall>x \<in> set new. \<forall>y \<in> set (succs x) \<inter> set base. low st u \<le> idx st y)
      \<and> (\<forall>y \<in> ds. y \<in> visited st \<and> (y \<in> set base \<longrightarrow> low st u \<le> idx st y))
      \<and> low st u \<le> idx st u
      \<and> (\<exists>y \<in> set (u # base). idx st y = low st u \<and> reaches succs u y))"

lemma mid_visited:
  assumes "mid V succs G base u ds new st"
  shows "u \<in> visited st" "set base \<subseteq> visited st" "set new \<subseteq> visited st"
    "\<forall>x \<in> set new. idx st u < idx st x" "\<forall>y \<in> set base. idx st y < idx st u"
    "u \<notin> set new" "u \<notin> set base" "set new \<inter> set base = {}"
proof -
  have b: "book V st" and s: "stack st = new @ u # base" using assms by (auto simp: mid_def)
  then have "set (new @ u # base) \<subseteq> visited st" by (metis book_def)
  then show "u \<in> visited st" "set base \<subseteq> visited st" "set new \<subseteq> visited st" by auto
  show "\<forall>x \<in> set new. idx st u < idx st x" "\<forall>y \<in> set base. idx st y < idx st u"
    using stack_order [OF b s] by blast+
  have "distinct (new @ u # base)" using b s by (metis book_def)
  then show "u \<notin> set new" "u \<notin> set base" "set new \<inter> set base = {}" by auto
qed

lemma mid_seen_off_stack:
  assumes "mid V succs G base u ds new st" and "w \<in> visited st" and "w \<notin> on_stack st"
  shows "mid V succs G base u (insert w ds) new st"
proof -
  have "w \<notin> set base"
    using assms(1,3) by (auto simp: mid_def book_def)
  then show ?thesis using assms by (auto simp: mid_def)
qed

text \<open>Lowering to the index of a stack vertex the successor reaches.\<close>

lemma mid_lower:
  assumes m: "mid V succs G base u ds new st" and w: "w \<in> set (succs u)"
    and y: "y \<in> set (stack st)" "n = idx st y" "reaches succs w y"
    and wv: "w \<in> visited st" and wb: "w \<in> set base \<longrightarrow> n \<le> idx st w"
  shows "mid V succs G base u (insert w ds) new (lower u n st)"
proof -
  note v = mid_visited [OF m]
  have reach: "\<exists>z \<in> set (u # base). idx st z = min (low st u) n \<and> reaches succs u z"
  proof (cases "n < low st u")
    case True
    have "low st u \<le> idx st u" using m by (simp add: mid_def)
    then have "y \<notin> set new" using True y(2) v(4) by fastforce
    then have "y \<in> set (u # base)" using m y(1) by (auto simp: mid_def)
    moreover have "reaches succs u y"
      using reaches_step [of w succs u] w y(3) reaches_trans by metis
    ultimately show ?thesis using True y(2) by (metis less_imp_le_nat min.absorb2)
  next
    case False
    then have "min (low st u) n = low st u" by simp
    then show ?thesis using m by (simp add: mid_def)
  qed
  have "book V (lower u n st)" using m v(1) by (auto simp: mid_def intro: book_lower)
  then show ?thesis
    using m reach wv wb unfolding mid_def reach_inv_lower
    by (auto simp: min_le_iff_disj)
qed

text \<open>The state after the call for an unvisited successor.\<close>

lemma mid_after_call:
  assumes m: "mid V succs G base u ds new st" and w: "w \<in> set (succs u)" "w \<notin> visited st"
    and post: "call_post V succs (insert u G) w st st1"
  shows "\<exists>new'. mid V succs G base u (insert w ds) new' (lower u (low st1 w) st1)"
proof -
  note v = mid_visited [OF m]
  have b1: "book V st1" and r1: "reach_inv succs (insert u G) st1"
    and kl: "keeps_lows (visited st) st st1" and wv: "w \<in> visited st1"
    and wi: "next_index st \<le> idx st1 w" using post by (auto simp: call_post_def)
  obtain added where e: "extends added st st1"
    and cond: "if w \<in> set (stack st1)
       then (\<exists>y \<in> set (stack st). idx st y = low st1 w \<and> reaches succs w y)
         \<and> (\<forall>x \<in> set added. \<forall>y \<in> set (succs x) \<inter> set (stack st). low st1 w \<le> idx st y)
       else added = [] \<and> low st1 w = idx st1 w"
    using post by (auto simp: call_post_def)
  have stk: "stack st = new @ u # base" using m by (simp add: mid_def)
  have stk1: "stack st1 = (added @ new) @ u # base" using e stk by (simp add: extends_def)
  have same: "idx st1 x = idx st x" if "x \<in> visited st" for x
    using e that by (auto simp: extends_def)
  have lowu: "low st1 u = low st u" using kl v(1) by (auto simp: keeps_lows_def)
  have lt: "idx st x < next_index st" if "x \<in> visited st" for x
    using m that by (auto simp: mid_def book_def)
  have vis: "visited st \<subseteq> visited st1" using e by (simp add: extends_def)
  have wst: "w \<notin> set base" using w(2) v(2) by blast
  have lu: "low st u \<le> idx st u" using m by (simp add: mid_def)
  show ?thesis
  proof (cases "w \<in> set (stack st1)")
    case True
    then obtain y where y: "y \<in> set (stack st)" "idx st y = low st1 w" "reaches succs w y"
      and comp: "\<forall>x \<in> set added. \<forall>y \<in> set (succs x) \<inter> set (stack st). low st1 w \<le> idx st y"
      using cond by auto
    have yv: "y \<in> visited st" using y(1) v stk by auto
    let ?n = "low st1 w" and ?st = "lower u (low st1 w) st1"
    have l': "low ?st u = min (low st u) ?n" using lowu by simp
    have reach: "\<exists>z \<in> set (u # base). idx st1 z = min (low st u) ?n \<and> reaches succs u z"
    proof (cases "?n < low st u")
      case True
      then have "y \<notin> set new" using y(2) v(4) lu by fastforce
      then have yy: "y \<in> set (u # base)" using y(1) stk by auto
      moreover have "reaches succs u y"
        using reaches_step [of w succs u] w(1) y(3) reaches_trans by metis
      moreover have "idx st1 y = min (low st u) ?n" using True y(2) same [OF yv] by simp
      ultimately show ?thesis by blast
    next
      case False
      then have "min (low st u) ?n = low st u" by simp
      moreover obtain z where "z \<in> set (u # base)" "idx st z = low st u" "reaches succs u z"
        using m unfolding mid_def by blast
      ultimately show ?thesis using same v(1,2) by (metis set_ConsD subsetD)
    qed
    have c1: "\<forall>x \<in> set (added @ new). \<forall>y \<in> set (succs x) \<inter> set base. low ?st u \<le> idx ?st y"
    proof (intro ballI)
      fix x z assume x: "x \<in> set (added @ new)" and z: "z \<in> set (succs x) \<inter> set base"
      then have zs: "idx st1 z = idx st z" "z \<in> set (stack st)" using same v(2) stk by auto
      have "min (low st u) ?n \<le> idx st z"
      proof (cases "x \<in> set new")
        case True
        then have "low st u \<le> idx st z" using m z by (auto simp: mid_def)
        then show ?thesis by (simp add: min.coboundedI1)
      next
        case False
        then have "x \<in> set added" using x by simp
        then have "?n \<le> idx st z" using comp z zs(2) by blast
        then show ?thesis by (simp add: min.coboundedI2)
      qed
      then show "low ?st u \<le> idx ?st z" using l' zs by simp
    qed
    have c2: "\<forall>y \<in> insert w ds. y \<in> visited ?st \<and> (y \<in> set base \<longrightarrow> low ?st u \<le> idx ?st y)"
    proof
      fix z assume z: "z \<in> insert w ds"
      show "z \<in> visited ?st \<and> (z \<in> set base \<longrightarrow> low ?st u \<le> idx ?st z)"
      proof (cases "z = w")
        case False
        then have "z \<in> visited st" "z \<in> set base \<longrightarrow> low st u \<le> idx st z"
          using z m by (auto simp: mid_def)
        then show ?thesis using vis same l' by (auto simp: min.coboundedI1)
      qed (use wv wst in simp)
    qed
    have "book V ?st" using b1 v(1) vis by (intro book_lower) auto
    moreover have "low ?st u \<le> idx ?st u" using l' lu same [OF v(1)] by (simp add: min.coboundedI1)
    moreover have "\<exists>z \<in> set (u # base). idx ?st z = low ?st u \<and> reaches succs u z"
      using reach l' by simp
    ultimately have "mid V succs G base u (insert w ds) (added @ new) ?st"
      using m r1 stk1 c1 c2 unfolding mid_def reach_inv_lower by simp
    then show ?thesis by blast
  next
    case False
    then have added: "added = []" and lw: "low st1 w = idx st1 w" using cond by auto
    have "low st u \<le> low st1 w"
      using lu lt [OF v(1)] wi lw by linarith
    then have l': "low (lower u (low st1 w) st1) u = low st u" using lowu by simp
    have "book V (lower u (low st1 w) st1)" using b1 v(1) vis by (intro book_lower) auto
    moreover have "\<forall>x \<in> set new. \<forall>y \<in> set (succs x) \<inter> set base. low st u \<le> idx st1 y"
      using m same v(2) by (auto simp: mid_def)
    moreover have "\<forall>y \<in> insert w ds. y \<in> visited st1 \<and> (y \<in> set base \<longrightarrow> low st u \<le> idx st1 y)"
      using m same v(2) vis wv wst by (auto simp: mid_def)
    moreover have "\<exists>z \<in> set (u # base). idx st1 z = low st u \<and> reaches succs u z"
    proof -
      obtain z where "z \<in> set (u # base)" "idx st z = low st u" "reaches succs u z"
        using m unfolding mid_def by blast
      then show ?thesis using same v(1,2) by (metis set_ConsD subsetD)
    qed
    moreover have "low st u \<le> idx st1 u" using lu same [OF v(1)] by simp
    ultimately have "mid V succs G base u (insert w ds) new (lower u (low st1 w) st1)"
      using m r1 stk1 l' added unfolding mid_def reach_inv_lower by simp
    then show ?thesis by blast
  qed
qed

section \<open>Closing a component\<close>

lemma component_reaches:
  assumes m: "mid V succs G base u ds new st" and x: "x \<in> set (new @ [u])"
  shows "reaches succs u x" and "reaches succs x u"
proof -
  note v = mid_visited [OF m]
  have s: "stack st = new @ u # base" and inv: "reach_inv succs (insert u G) st"
    and G: "G \<subseteq> set base" using m by (auto simp: mid_def)
  have xs: "x \<in> set (stack st)" using x s by auto
  have "idx st u \<le> idx st x" using x v(4) by (auto simp: less_imp_le)
  then show "reaches succs u x" using inv xs unfolding reach_inv_def by blast
  obtain g where g: "g \<in> insert u G" "reaches succs x g"
    using inv xs unfolding reach_inv_def by blast
  show "reaches succs x u"
  proof (cases "g = u")
    case False
    then have "g \<in> set base" using g(1) G by auto
    then have "idx st g \<le> idx st u" using v(5) by (simp add: less_imp_le)
    then have "reaches succs g u" using inv g(1) s unfolding reach_inv_def by auto
    then show ?thesis using g(2) reaches_trans by metis
  qed (use g(2) in simp)
qed

text \<open>No edge leaves the popped vertices for the stack below when the lowlink is the own index.\<close>

lemma component_closed:
  assumes m: "mid V succs G base u ds new st" and ds: "set (succs u) \<subseteq> ds"
    and low: "low st u = idx st u" and x: "x \<in> set (new @ [u])"
  shows "set (succs x) \<subseteq> (visited st - set (stack st)) \<union> set (new @ [u])"
proof
  fix y assume y: "y \<in> set (succs x)"
  note v = mid_visited [OF m]
  have s: "stack st = new @ u # base" and inv: "reach_inv succs (insert u G) st"
    and G: "G \<subseteq> set base" using m by (auto simp: mid_def)
  have yv: "y \<in> visited st"
  proof (cases "x = u")
    case True
    then show ?thesis using m ds y unfolding mid_def by blast
  next
    case False
    then have xn: "x \<in> set new" using x by simp
    then have "x \<in> visited st - insert u G" using v G False by auto
    then show ?thesis using inv y unfolding reach_inv_def by blast
  qed
  have "y \<notin> set base"
  proof
    assume yb: "y \<in> set base"
    have "low st u \<le> idx st y"
    proof (cases "x = u")
      case True
      then show ?thesis using m ds y yb unfolding mid_def by blast
    next
      case False
      then show ?thesis using m x y yb unfolding mid_def by auto
    qed
    then show False using v(5) yb low by fastforce
  qed
  then show "y \<in> (visited st - set (stack st)) \<union> set (new @ [u])" using yv s by auto
qed

definition entered :: "'a \<Rightarrow> 'a tarjan_state \<Rightarrow> 'a tarjan_state \<Rightarrow> bool" where
  "entered u st0 st =
     (visited (enter u st0) \<subseteq> visited st
      \<and> (\<forall>x \<in> visited (enter u st0). indices st x = indices (enter u st0) x)
      \<and> next_index (enter u st0) \<le> next_index st
      \<and> keeps_lows (visited st0) st0 st
      \<and> (\<forall>x \<in> set (stack st) - set (stack (enter u st0)). x \<notin> visited st0))"

lemma close_ok:
  assumes b0: "book V st0" and i0: "reach_inv succs G st0" and u: "u \<notin> visited st0"
    and m: "mid V succs G (stack st0) u ds new st" and ds: "set (succs u) \<subseteq> ds"
    and ent: "entered u st0 st"
  shows "\<exists>st'. close_component u st = Some st' \<and> call_post V succs G u st0 st'"
proof -
  note v = mid_visited [OF m]
  have book: "book V st" and inv: "reach_inv succs (insert u G) st" and G: "G \<subseteq> set (stack st0)"
    and stk: "stack st = new @ u # stack st0" using m by (auto simp: mid_def)
  have sub0: "visited st0 \<subseteq> visited st" and idx0: "\<forall>x \<in> visited st0. indices st x = indices st0 x"
    and idxu: "idx st u = next_index st0" and ni: "next_index st0 \<le> next_index st"
    and kl: "keeps_lows (visited st0) st0 st"
    using ent u by (auto simp: entered_def visited_enter)
  have fresh: "set (new @ [u]) \<inter> visited st0 = {}"
    using ent u stk v by (auto simp: entered_def)
  have s0v: "set (stack st0) \<subseteq> visited st0" using b0 by (simp add: book_def)
  have doms: "u \<in> dom (lowlinks st)" "u \<in> dom (indices st)"
    using book v(1) by (auto simp: book_def visited_def)
  have same: "idx st x = idx st0 x" if "x \<in> visited st0" for x using idx0 that by simp
  have R2: "\<exists>g \<in> G. idx st g \<le> idx st x \<and> reaches succs x g" if "x \<in> set (stack st0)" for x
  proof -
    obtain g where "g \<in> G" "idx st0 g \<le> idx st0 x" "reaches succs x g"
      using i0 \<open>x \<in> set (stack st0)\<close> unfolding reach_inv_def by blast
    then show ?thesis using same G s0v that by (metis subsetD)
  qed
  have R1: "\<forall>g \<in> G. \<forall>x \<in> set (stack st). idx st g \<le> idx st x \<longrightarrow> reaches succs g x"
    using inv unfolding reach_inv_def by blast
  show ?thesis
  proof (cases "low st u = idx st u")
    case True
    then have lk: "lowlinks st u = indices st u" using doms by auto
    have pop: "pop_component u (stack st) (on_stack st) []
        = Some (stack st0, on_stack st - set new - {u}, new @ [u])"
      unfolding stk using pop_component_eq [OF v(6), of "stack st0" "on_stack st" "[]"] by simp
    let ?st' = "st\<lparr>stack := stack st0, on_stack := on_stack st - set new - {u},
                   components := components st @ [new @ [u]]\<rparr>"
    have close: "close_component u st = Some ?st'"
      using lk pop by (simp add: close_component_def)
    have vis': "visited ?st' = visited st" by (simp add: visited_def)
    have done': "visited st - set (stack st0) = (visited st - set (stack st)) \<union> set (new @ [u])"
      using stk v by auto
    have book': "book V ?st'"
    proof -
      have "distinct (stack st)" and on: "on_stack st = set (stack st)"
        and "sorted_wrt (\<lambda>a b. idx st b < idx st a) (stack st)"
        and dc: "distinct (concat (components st))"
        and sc: "set (concat (components st)) = visited st - set (stack st)"
        using book by (auto simp: book_def)
      then have "distinct (stack st0)" "sorted_wrt (\<lambda>a b. idx st b < idx st a) (stack st0)"
        and dn: "distinct (new @ [u])"
        unfolding stk by (auto simp: sorted_wrt_append)
      moreover have "on_stack st - set new - {u} = set (stack st0)"
        using on stk v by auto
      moreover have "distinct (concat (components st @ [new @ [u]]))"
        using dc dn sc stk by auto
      moreover have "set (concat (components st @ [new @ [u]])) = visited st - set (stack st0)"
        using sc done' by auto
      moreover have "u \<in> set (stack st)" using stk by simp
      ultimately show ?thesis
        using book v(2) unfolding book_def vis' by simp
    qed
    have inv': "reach_inv succs G ?st'"
    proof -
      have "\<forall>x \<in> visited st - G. set (succs x) \<subseteq> visited st"
      proof
        fix x assume x: "x \<in> visited st - G"
        show "set (succs x) \<subseteq> visited st"
        proof (cases "x = u")
          case True
          then show ?thesis using m ds unfolding mid_def by blast
        next
          case False
          then show ?thesis using inv x unfolding reach_inv_def by blast
        qed
      qed
      moreover have "\<forall>x \<in> visited st - set (stack st0). set (succs x) \<subseteq> visited st - set (stack st0)"
      proof
        fix x assume "x \<in> visited st - set (stack st0)"
        then consider "x \<in> visited st - set (stack st)" | "x \<in> set (new @ [u])"
          using done' by blast
        then show "set (succs x) \<subseteq> visited st - set (stack st0)"
        proof cases
          case 1
          then show ?thesis using inv done' unfolding reach_inv_def by blast
        next
          case 2
          then show ?thesis using component_closed [OF m ds True] done' by blast
        qed
      qed
      moreover have "ordered_components succs {} (components st @ [new @ [u]])"
      proof -
        have "set (concat (components st)) = visited st - set (stack st)"
          using book by (simp add: book_def)
        moreover have "reaches succs x y" if "x \<in> set (new @ [u])" "y \<in> set (new @ [u])" for x y
          using component_reaches [OF m] that reaches_trans by metis
        ultimately show ?thesis
          using inv component_closed [OF m ds True]
          unfolding reach_inv_def ordered_components_append by simp
      qed
      ultimately show ?thesis
        using G R1 R2 stk unfolding reach_inv_def vis' by simp
    qed
    have ext: "extends [] st0 ?st'"
      using sub0 idx0 ni unfolding extends_def vis' by simp
    have "u \<notin> set (stack ?st')" using v(7) by simp
    moreover have "keeps_lows (visited st0) st0 ?st'" using kl by (simp add: keeps_lows_def)
    ultimately have "call_post V succs G u st0 ?st'"
      using book' inv' ext v(1) idxu True unfolding call_post_def vis' by auto
    with close show ?thesis by blast
  next
    case False
    then have "lowlinks st u \<noteq> indices st u" by auto
    then have close: "close_component u st = Some st" by (simp add: close_component_def)
    have lt: "low st u < idx st u" using m False by (auto simp: mid_def)
    obtain y where "y \<in> set (u # stack st0)" and yl: "idx st y = low st u" "reaches succs u y"
      using m unfolding mid_def by blast
    then have y: "y \<in> set (stack st0)" using lt by auto
    have R2': "\<exists>g \<in> G. idx st g \<le> idx st x \<and> reaches succs x g" if x: "x \<in> set (stack st)" for x
    proof (cases "x \<in> set (stack st0)")
      case False
      then have xn: "x \<in> set (new @ [u])" using x stk by auto
      obtain g where g: "g \<in> G" "idx st g \<le> idx st y" "reaches succs y g" using R2 [OF y] by blast
      have "idx st u \<le> idx st x" using xn v(4) by (auto simp: less_imp_le)
      then have "idx st g \<le> idx st x" using g(2) yl lt by linarith
      moreover have "reaches succs x g"
        using component_reaches(2) [OF m xn] yl(2) g(3) reaches_trans by metis
      ultimately show ?thesis using g(1) by blast
    qed (use R2 in blast)
    have inv': "reach_inv succs G st"
    proof -
      have "\<forall>x \<in> visited st - G. set (succs x) \<subseteq> visited st"
      proof
        fix x assume x: "x \<in> visited st - G"
        show "set (succs x) \<subseteq> visited st"
        proof (cases "x = u")
          case True
          then show ?thesis using m ds unfolding mid_def by blast
        next
          case False
          then show ?thesis using inv x unfolding reach_inv_def by blast
        qed
      qed
      then show ?thesis
        using inv G R1 R2' stk unfolding reach_inv_def by auto
    qed
    have ext: "extends (new @ [u]) st0 st"
      using sub0 idx0 ni fresh stk unfolding extends_def by simp
    have comp: "\<forall>x \<in> set (new @ [u]). \<forall>z \<in> set (succs x) \<inter> set (stack st0). low st u \<le> idx st0 z"
    proof (intro ballI)
      fix x z assume x: "x \<in> set (new @ [u])" and z: "z \<in> set (succs x) \<inter> set (stack st0)"
      then have "idx st z = idx st0 z" using same s0v by blast
      moreover have "low st u \<le> idx st z"
        using m ds x z unfolding mid_def by auto
      ultimately show "low st u \<le> idx st0 z" by simp
    qed
    have "idx st0 y = low st u" using yl same y s0v by auto
    then have "\<exists>y \<in> set (stack st0). idx st0 y = low st u \<and> reaches succs u y" using y yl by blast
    moreover have "u \<in> set (stack st)" using stk by simp
    moreover have "next_index st0 \<le> idx st u" using idxu by simp
    ultimately have "call_post V succs G u st0 st"
      unfolding call_post_def using book inv' kl v(1) ext comp
      by (intro conjI exI [of _ "new @ [u]"]) simp_all
    with close show ?thesis by blast
  qed
qed

section \<open>The interface and the main theorem\<close>

definition room :: "'a set \<Rightarrow> 'a tarjan_state \<Rightarrow> nat" where
  "room V st = card (V - visited st)"

locale digraph =
  fixes V :: "'a set" and succs :: "'a \<Rightarrow> 'a list"
  assumes finite_V: "finite V"
    and succs_closed: "v \<in> V \<Longrightarrow> set (succs v) \<subseteq> V"
begin

lemma room_mono: "visited st \<subseteq> visited st' \<Longrightarrow> room V st' \<le> room V st"
  unfolding room_def using finite_V by (intro card_mono) auto

lemma room_enter: "v \<in> V \<Longrightarrow> v \<notin> visited st \<Longrightarrow> room V (enter v st) < room V st"
  unfolding room_def visited_enter using finite_V by (intro psubset_card_mono) auto

lemma visit_ok:
  assumes call: "\<And>G v st. book V st \<Longrightarrow> reach_inv succs G st \<Longrightarrow> v \<in> V \<Longrightarrow> v \<notin> visited st
      \<Longrightarrow> \<forall>g \<in> G. reaches succs g v \<Longrightarrow> room V st \<le> fuel
      \<Longrightarrow> \<exists>st'. strongconnect succs fuel v st = Some st' \<and> call_post V succs G v st st'"
    and m: "mid V succs G base u ds new st" and ws: "set ws \<subseteq> set (succs u)"
    and room: "room V st \<le> fuel"
  shows "\<exists>st' new'. visit_successors succs fuel u ws st = Some st'
    \<and> mid V succs G base u (ds \<union> set ws) new' st'
    \<and> visited st \<subseteq> visited st' \<and> (\<forall>x \<in> visited st. indices st' x = indices st x)
    \<and> next_index st \<le> next_index st' \<and> keeps_lows (visited st - {u}) st st'
    \<and> (set new' - set new) \<inter> visited st = {}"
  using m ws room
proof (induction ws arbitrary: ds new st)
  case Nil
  then show ?case by (auto simp: keeps_lows_def)
next
  case (Cons w ws)
  note v = mid_visited [OF Cons.prems(1)]
  have w: "w \<in> set (succs u)" and rest: "set ws \<subseteq> set (succs u)" using Cons.prems(2) by auto
  have b: "book V st" and inv: "reach_inv succs (insert u G) st"
    and stk: "stack st = new @ u # base" and G: "G \<subseteq> set base"
    using Cons.prems(1) by (auto simp: mid_def)
  have uV: "u \<in> V" and wV: "w \<in> V"
    using b v(1) w succs_closed by (auto simp: book_def)
  show ?case
  proof (cases "indices st w = None")
    case True
    then have wn: "w \<notin> visited st" by (auto simp: visited_def)
    have "reaches succs g w" if "g \<in> insert u G" for g
    proof -
      have "idx st g \<le> idx st u" using that G v(5) by (auto simp: less_imp_le)
      then have "reaches succs g u" using inv that stk unfolding reach_inv_def by auto
      then show ?thesis using reaches_step [of w succs u] w reaches_trans by metis
    qed
    then obtain st1 where run: "strongconnect succs fuel w st = Some st1"
      and post: "call_post V succs (insert u G) w st st1"
      using call [OF b inv wV wn _ Cons.prems(3)] by blast
    obtain new1 where m1: "mid V succs G base u (insert w ds) new1 (lower u (low st1 w) st1)"
      using mid_after_call [OF Cons.prems(1) w wn post] by blast
    obtain added where ext: "extends added st st1" and kl: "keeps_lows (visited st) st st1"
      using post by (auto simp: call_post_def)
    have vis: "visited st \<subseteq> visited (lower u (low st1 w) st1)" using ext by (simp add: extends_def)
    have "stack (lower u (low st1 w) st1) = new1 @ u # base" using m1 by (simp add: mid_def)
    then have "added @ new @ u # base = new1 @ u # base"
      using ext stk by (simp add: extends_def)
    then have new1: "new1 = added @ new" by simp
    have "room V (lower u (low st1 w) st1) \<le> fuel"
      using room_mono [OF vis] Cons.prems(3) by simp
    from Cons.IH [OF m1 rest this] obtain st' new' where
      r: "visit_successors succs fuel u ws (lower u (low st1 w) st1) = Some st'"
      and m': "mid V succs G base u (insert w ds \<union> set ws) new' st'"
      and x: "visited st1 \<subseteq> visited st'" "\<forall>x \<in> visited st1. indices st' x = indices st1 x"
        "next_index st1 \<le> next_index st'"
      and kl': "keeps_lows (visited st1 - {u}) (lower u (low st1 w) st1) st'"
      and nw: "(set new' - set new1) \<inter> visited st1 = {}"
      by auto
    have "keeps_lows (visited st - {u}) st st'"
      using kl kl' vis by (auto simp: keeps_lows_def subset_iff)
    moreover have "visited st \<subseteq> visited st'" using x(1) vis by simp
    moreover have "\<forall>x \<in> visited st. indices st' x = indices st x"
      using x(2) ext vis by (auto simp: extends_def)
    moreover have "next_index st \<le> next_index st'" using x(3) ext by (simp add: extends_def)
    moreover have "(set new' - set new) \<inter> visited st = {}"
      using nw new1 ext vis by (auto simp: extends_def)
    moreover have "mid V succs G base u (ds \<union> set (w # ws)) new' st'" using m' by simp
    ultimately show ?thesis using r run True by auto
  next
    case False
    then have wv: "w \<in> visited st" by (auto simp: visited_def)
    show ?thesis
    proof (cases "w \<in> on_stack st")
      case True
      then have "w \<in> set (stack st)" using b by (simp add: book_def)
      then have m1: "mid V succs G base u (insert w ds) new (lower u (idx st w) st)"
        using mid_lower [OF Cons.prems(1) w _ refl _ wv] by simp
      have "room V (lower u (idx st w) st) \<le> fuel" using Cons.prems(3) by (simp add: room_def)
      from Cons.IH [OF m1 rest this] obtain st' new' where
        r: "visit_successors succs fuel u ws (lower u (idx st w) st) = Some st'"
        and m': "mid V succs G base u (insert w ds \<union> set ws) new' st'"
        and x: "visited st \<subseteq> visited st'" "\<forall>x \<in> visited st. indices st' x = indices st x"
          "next_index st \<le> next_index st'" "(set new' - set new) \<inter> visited st = {}"
        and kl': "keeps_lows (visited st - {u}) (lower u (idx st w) st) st'"
        by auto
      have "keeps_lows (visited st - {u}) st st'" using kl' by (auto simp: keeps_lows_def)
      moreover have "mid V succs G base u (ds \<union> set (w # ws)) new' st'" using m' by simp
      ultimately show ?thesis using r x False True by auto
    next
      case off: False
      have m1: "mid V succs G base u (insert w ds) new st"
        by (rule mid_seen_off_stack [OF Cons.prems(1) wv off])
      from Cons.IH [OF m1 rest Cons.prems(3)] show ?thesis using False off by auto
    qed
  qed
qed

lemma strongconnect_ok:
  assumes "book V st" and "reach_inv succs G st" and "v \<in> V" and "v \<notin> visited st"
    and "\<forall>g \<in> G. reaches succs g v" and "room V st \<le> fuel"
  shows "\<exists>st'. strongconnect succs fuel v st = Some st' \<and> call_post V succs G v st st'"
  using assms
proof (induction fuel arbitrary: G v st)
  case 0
  then have "v \<in> V - visited st" by blast
  then have "0 < room V st" unfolding room_def using finite_V by (auto simp: card_gt_0_iff)
  with 0 show ?case by simp
next
  case (Suc fuel)
  let ?e = "enter v st"
  have be: "book V ?e" by (rule book_enter [OF Suc.prems(1,3,4)])
  have ie: "reach_inv succs (insert v G) ?e"
    by (rule reach_inv_enter [OF Suc.prems(1,2,4,5)])
  have G: "G \<subseteq> set (stack st)" using Suc.prems(2) by (simp add: reach_inv_def)
  have m: "mid V succs G (stack st) v {} [] ?e"
    using be ie G by (simp add: mid_def)
  have room: "room V ?e \<le> fuel" using room_enter [OF Suc.prems(3,4)] Suc.prems(6) by simp
  obtain st1 new where run: "visit_successors succs fuel v (succs v) ?e = Some st1"
    and m1: "mid V succs G (stack st) v ({} \<union> set (succs v)) new st1"
    and x: "visited ?e \<subseteq> visited st1" "\<forall>x \<in> visited ?e. indices st1 x = indices ?e x"
      "next_index ?e \<le> next_index st1" "keeps_lows (visited ?e - {v}) ?e st1"
      "(set new - set []) \<inter> visited ?e = {}"
    using visit_ok [OF Suc.IH m subset_refl room] by blast
  have "keeps_lows (visited st) st st1"
    using x(4) Suc.prems(4) by (auto simp: keeps_lows_def visited_enter)
  moreover have "stack st1 = new @ v # stack st" using m1 by (simp add: mid_def)
  ultimately have ent: "entered v st st1"
    using x unfolding entered_def by (auto simp: visited_enter)
  obtain st' where "close_component v st1 = Some st'" "call_post V succs G v st st'"
    using close_ok [OF Suc.prems(1,2,4) m1 _ ent] by auto
  then show ?case using run by auto
qed

lemma connect_all_ok:
  assumes "book V st" and "reach_inv succs {} st" and "set vs \<subseteq> V" and "card V \<le> fuel"
  shows "\<exists>st'. connect_all succs fuel vs st = Some st' \<and> book V st' \<and> reach_inv succs {} st'
    \<and> set vs \<union> visited st \<subseteq> visited st'"
  using assms
proof (induction vs arbitrary: st)
  case (Cons v vs)
  show ?case
  proof (cases "indices st v = None")
    case True
    then have vn: "v \<notin> visited st" by (auto simp: visited_def)
    have "room V st \<le> fuel"
      using card_mono [OF finite_V, of "V - visited st"] Cons.prems(4) by (auto simp: room_def)
    then obtain st1 where run: "strongconnect succs fuel v st = Some st1"
      and post: "call_post V succs {} v st st1"
      using strongconnect_ok [OF Cons.prems(1,2) _ vn] Cons.prems(3) by auto
    then have "book V st1" "reach_inv succs {} st1" "v \<in> visited st1" "visited st \<subseteq> visited st1"
      by (auto simp: call_post_def extends_def)
    then show ?thesis using Cons.IH [of st1] Cons.prems(3,4) run True by fastforce
  next
    case False
    then have "v \<in> visited st" by (auto simp: visited_def)
    then show ?thesis using Cons.IH [of st] Cons.prems False by fastforce
  qed
qed simp

lemma tarjan_components:
  assumes "distinct vs" and "set vs = V"
  shows "\<exists>cs. tarjan succs vs = Some cs \<and> distinct (concat cs) \<and> set (concat cs) = V
    \<and> ordered_components succs {} cs"
proof -
  have "book V empty_tarjan" and "reach_inv succs {} empty_tarjan"
    by (auto simp: book_def reach_inv_def empty_tarjan_def visited_def)
  moreover have "card V \<le> length vs + 1" using assms distinct_card by fastforce
  ultimately obtain st where run: "connect_all succs (length vs + 1) vs empty_tarjan = Some st"
    and b: "book V st" and inv: "reach_inv succs {} st" and vis: "V \<subseteq> visited st"
    using connect_all_ok [of empty_tarjan vs "length vs + 1"] assms(2) by auto
  have "stack st = []"
  proof (rule ccontr)
    assume "stack st \<noteq> []"
    then obtain x where "x \<in> set (stack st)" by (cases "stack st") auto
    then show False using inv unfolding reach_inv_def by blast
  qed
  moreover have "visited st = V" using vis b by (auto simp: book_def)
  ultimately show ?thesis
    using run b inv by (auto simp: tarjan_def book_def reach_inv_def)
qed

end

end
