(* ===== verification/Stratify.thy ===== *)
theory Stratify
  imports Ast Tarjan
begin

text \<open>
  Stratification analysis (\<open>stratify.rs\<close>): the predicate dependency graph with its adjacency index,
  its strongly connected components by Tarjan's algorithm, the test for cycles through negation or
  aggregation, the assignment of strata, and the analysis used for probabilistic programs. The
  allocation accounting that runs beside these steps is not modelled: it never changes their
  result except by failing. \<open>StratifyPanic\<close> stands for exhausted fuel or a failed \<open>expect\<close> in
  Tarjan's algorithm, and is proved impossible.
\<close>

section \<open>The dependency graph\<close>

datatype dep_type = DepPositive | DepNegative | DepAggregate

record dep_edge =
  dep_from :: string
  dep_to :: string
  dep_kind :: dep_type

record dependency_graph =
  dg_predicates :: "string set"
  dg_edges :: "dep_edge list"
  dg_adjacency :: "string \<rightharpoonup> nat list"

definition empty_graph :: dependency_graph where
  "empty_graph = \<lparr>dg_predicates = {}, dg_edges = [], dg_adjacency = Map.empty\<rparr>"

definition add_predicate :: "string \<Rightarrow> dependency_graph \<Rightarrow> dependency_graph" where
  "add_predicate p g = g\<lparr>dg_predicates := insert p (dg_predicates g)\<rparr>"

definition add_edge :: "string \<Rightarrow> string \<Rightarrow> dep_type \<Rightarrow> dependency_graph \<Rightarrow> dependency_graph" where
  "add_edge p q k g =
     g\<lparr>dg_predicates := insert q (insert p (dg_predicates g)),
       dg_adjacency := (dg_adjacency g)(p \<mapsto>
         (case dg_adjacency g p of None \<Rightarrow> [] | Some is \<Rightarrow> is) @ [length (dg_edges g)]),
       dg_edges := dg_edges g @ [\<lparr>dep_from = p, dep_to = q, dep_kind = k\<rparr>]\<rparr>"

definition outgoing :: "dependency_graph \<Rightarrow> string \<Rightarrow> dep_edge list" where
  "outgoing g p = (case dg_adjacency g p of None \<Rightarrow> [] | Some is \<Rightarrow> map (\<lambda>i. dg_edges g ! i) is)"

definition outgoing_len :: "dependency_graph \<Rightarrow> string \<Rightarrow> nat" where
  "outgoing_len g p = (case dg_adjacency g p of None \<Rightarrow> 0 | Some is \<Rightarrow> length is)"

definition add_literal :: "string \<Rightarrow> body_literal \<Rightarrow> dependency_graph \<Rightarrow> dependency_graph" where
  "add_literal h l g =
     (case l of
        Positive a \<Rightarrow> add_edge h (predicate a) DepPositive g
      | Negated a \<Rightarrow> add_edge h (predicate a) DepNegative g
      | Epistemic e \<Rightarrow> add_edge h (predicate (epi_atom e)) DepNegative g
      | Comparison _ \<Rightarrow> g | IsExpr _ \<Rightarrow> g | Univ _ \<Rightarrow> g)"

definition add_aggregate_literal :: "string \<Rightarrow> body_literal \<Rightarrow> dependency_graph \<Rightarrow> dependency_graph"
  where
  "add_aggregate_literal h l g =
     (case l of Positive a \<Rightarrow> add_edge h (predicate a) DepAggregate g | _ \<Rightarrow> g)"

definition add_rule :: "rule \<Rightarrow> dependency_graph \<Rightarrow> dependency_graph" where
  "add_rule r g =
     (let h = predicate (head r);
          g' = fold (add_literal h) (body r) (add_predicate h g)
      in if has_aggregation r then fold (add_aggregate_literal h) (body r) g' else g')"

definition add_learnable_literal ::
    "string \<Rightarrow> body_literal \<Rightarrow> dependency_graph \<Rightarrow> dependency_graph" where
  "add_learnable_literal h l g =
     (case literal_atom l of
        None \<Rightarrow> g
      | Some a \<Rightarrow> add_edge h (predicate a) DepPositive (add_predicate (predicate a) g))"

definition add_learnable :: "learnable_rule \<Rightarrow> dependency_graph \<Rightarrow> dependency_graph" where
  "add_learnable lr g =
     (let h = predicate (lr_head lr)
      in fold (add_learnable_literal h) (lr_body lr) (add_predicate h g))"

definition build_dependency_graph :: "program \<Rightarrow> dependency_graph" where
  "build_dependency_graph p =
     fold add_learnable (learnable_rules p) (fold add_rule (rules p) empty_graph)"

section \<open>Components and strata\<close>

definition successors :: "dependency_graph \<Rightarrow> string \<Rightarrow> string list" where
  "successors g p = map dep_to (outgoing g p)"

definition find_sccs :: "dependency_graph \<Rightarrow> string list list option" where
  "find_sccs g = tarjan (successors g) (sorted_list_of_set (dg_predicates g))"

definition check_scc_for_negation_cycle ::
    "string list \<Rightarrow> dependency_graph \<Rightarrow> string list option" where
  "check_scc_for_negation_cycle scc g =
     (case scc of
        [p] \<Rightarrow>
          if list_ex (\<lambda>e. dep_to e = p \<and> dep_kind e \<noteq> DepPositive) (outgoing g p)
          then Some [p] else None
      | _ \<Rightarrow>
          if list_ex (\<lambda>p. list_ex (\<lambda>e. dep_to e \<in> set scc \<and> dep_kind e \<noteq> DepPositive)
               (outgoing g p)) scc
          then Some scc else None)"

datatype stratify_error = StratificationCycle "string list" | StratifyPanic

record stratum =
  stratum_id :: nat
  stratum_predicates :: "string list"

definition required :: "dep_edge \<Rightarrow> nat \<Rightarrow> nat" where
  "required e dep_stratum = (if dep_kind e = DepPositive then dep_stratum else dep_stratum + 1)"

definition raise_for_edge :: "(string \<rightharpoonup> nat) \<Rightarrow> dep_edge \<Rightarrow> nat \<Rightarrow> nat" where
  "raise_for_edge m e s = (case m (dep_to e) of None \<Rightarrow> s | Some d \<Rightarrow> max s (required e d))"

definition min_stratum :: "dependency_graph \<Rightarrow> (string \<rightharpoonup> nat) \<Rightarrow> string list \<Rightarrow> nat" where
  "min_stratum g m scc = fold (\<lambda>p. fold (raise_for_edge m) (outgoing g p)) scc 0"

definition assign_scc ::
    "dependency_graph \<Rightarrow> string list \<Rightarrow> (string \<rightharpoonup> nat) \<times> nat \<Rightarrow> (string \<rightharpoonup> nat) \<times> nat" where
  "assign_scc g scc = (\<lambda>(m, max_stratum).
     let s = min_stratum g m scc
     in (fold (\<lambda>p m. m(p \<mapsto> s)) scc m, max max_stratum s))"

definition collect_strata :: "string list \<Rightarrow> (string \<rightharpoonup> nat) \<Rightarrow> nat \<Rightarrow> stratum list" where
  "collect_strata preds m max_stratum =
     map (\<lambda>(i, ps). \<lparr>stratum_id = i, stratum_predicates = ps\<rparr>)
       (indexed (filter (\<lambda>ps. ps \<noteq> [])
          (map (\<lambda>s. sort (filter (\<lambda>p. m p = Some s) preds)) [0..<max_stratum + 1])))"

definition stratify :: "program \<Rightarrow> stratify_error + stratum list" where
  "stratify p =
     (let g = build_dependency_graph p
      in case find_sccs g of
           None \<Rightarrow> Inl StratifyPanic
         | Some sccs \<Rightarrow>
             bind_res (check (first_error (\<lambda>scc.
                 case check_scc_for_negation_cycle scc g of
                   None \<Rightarrow> None
                 | Some cycle \<Rightarrow>
                     if is_probabilistic_profile p then None
                     else Some (StratificationCycle cycle)) sccs)) (\<lambda>_.
               let (m, max_stratum) = fold (assign_scc g) sccs (Map.empty, 0)
               in Inr (collect_strata (concat sccs) m max_stratum)))"

record stratification_result =
  sr_sccs :: "string list list"
  non_monotone_sccs :: "nat set"
  sr_strata :: "string \<rightharpoonup> nat"

definition analyze_stratification :: "program \<Rightarrow> stratification_result option" where
  "analyze_stratification p =
     (let g = build_dependency_graph p
      in case find_sccs g of
           None \<Rightarrow> None
         | Some sccs \<Rightarrow>
             let nm = set (map fst (filter (\<lambda>(i, scc). check_scc_for_negation_cycle scc g \<noteq> None)
                         (indexed sccs)));
                 (m, _) = fold (\<lambda>(i, scc) st. if i \<in> nm then st else assign_scc g scc st)
                            (indexed sccs) (Map.empty, 0)
             in Some \<lparr>sr_sccs = sccs, non_monotone_sccs = nm, sr_strata = m\<rparr>)"

section \<open>The dependencies of a program\<close>

text \<open>\<open>depends p a b k\<close>: a rule for \<open>a\<close> uses \<open>b\<close> in a body literal that gives a \<open>k\<close> edge.\<close>

definition literal_depends :: "rule \<Rightarrow> body_literal \<Rightarrow> string \<Rightarrow> dep_type \<Rightarrow> bool" where
  "literal_depends r l q k =
     (case l of
        Positive a \<Rightarrow> predicate a = q \<and> (k = DepPositive \<or> k = DepAggregate \<and> has_aggregation r)
      | Negated a \<Rightarrow> predicate a = q \<and> k = DepNegative
      | Epistemic e \<Rightarrow> predicate (epi_atom e) = q \<and> k = DepNegative
      | _ \<Rightarrow> False)"

definition depends :: "program \<Rightarrow> string \<Rightarrow> string \<Rightarrow> dep_type \<Rightarrow> bool" where
  "depends prog p q k =
     ((\<exists>r \<in> set (rules prog). predicate (head r) = p
         \<and> (\<exists>l \<in> set (body r). literal_depends r l q k))
      \<or> (\<exists>lr \<in> set (learnable_rules prog). predicate (lr_head lr) = p \<and> k = DepPositive
         \<and> (\<exists>l \<in> set (lr_body lr). \<exists>a. literal_atom l = Some a \<and> predicate a = q)))"

definition program_predicates :: "program \<Rightarrow> string set" where
  "program_predicates prog =
     (\<lambda>r. predicate (head r)) ` set (rules prog)
     \<union> (\<lambda>lr. predicate (lr_head lr)) ` set (learnable_rules prog)
     \<union> {q. \<exists>p k. depends prog p q k}"

definition depends_on :: "program \<Rightarrow> string \<Rightarrow> string \<Rightarrow> bool" where
  "depends_on prog p q = ((p, q) \<in> rtrancl {(a, b). \<exists>k. depends prog a b k})"

text \<open>The adjacency index is in sync with the edges, and both endpoints are predicates.\<close>

definition in_sync :: "dependency_graph \<Rightarrow> bool" where
  "in_sync g =
     (finite (dg_predicates g)
      \<and> (\<forall>e \<in> set (dg_edges g). dep_from e \<in> dg_predicates g \<and> dep_to e \<in> dg_predicates g)
      \<and> (\<forall>p. \<forall>is. dg_adjacency g p = Some is \<longrightarrow> (\<forall>i \<in> set is. i < length (dg_edges g)))
      \<and> (\<forall>p. outgoing g p = filter (\<lambda>e. dep_from e = p) (dg_edges g)))"

lemma outgoing_add_predicate [simp]: "outgoing (add_predicate p g) a = outgoing g a"
  by (simp add: outgoing_def add_predicate_def split: option.split)

lemma in_sync_predicate: "in_sync g \<Longrightarrow> in_sync (add_predicate p g)"
  unfolding in_sync_def outgoing_add_predicate by (simp add: add_predicate_def)

lemma in_sync_edge:
  assumes "in_sync g"
  shows "in_sync (add_edge p q k g)"
proof -
  have old: "outgoing (add_edge p q k g) a = outgoing g a" if "a \<noteq> p" for a
  proof -
    have "(dg_edges g @ [\<lparr>dep_from = p, dep_to = q, dep_kind = k\<rparr>]) ! i = dg_edges g ! i"
      if "dg_adjacency g a = Some is" "i \<in> set is" for "is" i
      using assms that by (auto simp: in_sync_def nth_append)
    then show ?thesis
      using \<open>a \<noteq> p\<close> by (auto simp: outgoing_def add_edge_def split: option.splits)
  qed
  have new: "outgoing (add_edge p q k g) p = outgoing g p @ [\<lparr>dep_from = p, dep_to = q, dep_kind = k\<rparr>]"
  proof (cases "dg_adjacency g p")
    case None
    then show ?thesis by (simp add: outgoing_def add_edge_def)
  next
    case (Some "is")
    then have "\<forall>i \<in> set is. i < length (dg_edges g)" using assms by (auto simp: in_sync_def)
    then show ?thesis using Some by (auto simp: outgoing_def add_edge_def nth_append)
  qed
  have "outgoing (add_edge p q k g) a = filter (\<lambda>e. dep_from e = a) (dg_edges (add_edge p q k g))" for a
    using old new assms by (cases "a = p") (auto simp: in_sync_def add_edge_def)
  moreover have "i < length (dg_edges (add_edge p q k g))"
    if "dg_adjacency (add_edge p q k g) a = Some is" "i \<in> set is" for a "is" i
    using that assms
    by (cases "a = p"; cases "dg_adjacency g p") (auto simp: in_sync_def add_edge_def less_Suc_eq)
  ultimately show ?thesis
    using assms by (auto simp: in_sync_def add_edge_def)
qed

lemma fold_invariant: "P g \<Longrightarrow> (\<And>x g. P g \<Longrightarrow> P (f x g)) \<Longrightarrow> P (fold f xs g)"
  by (induction xs arbitrary: g) auto

lemma in_sync_rule: "in_sync g \<Longrightarrow> in_sync (add_rule r g)"
  unfolding add_rule_def Let_def
  by (auto intro!: fold_invariant [where P = in_sync] in_sync_predicate
      simp: add_literal_def add_aggregate_literal_def in_sync_edge split: body_literal.splits)

lemma in_sync_learnable: "in_sync g \<Longrightarrow> in_sync (add_learnable lr g)"
  unfolding add_learnable_def Let_def
  by (auto intro!: fold_invariant [where P = in_sync] in_sync_predicate
      simp: add_learnable_literal_def in_sync_edge in_sync_predicate split: option.splits)

lemma in_sync_build: "in_sync (build_dependency_graph p)"
  unfolding build_dependency_graph_def
  by (intro fold_invariant [where P = in_sync] in_sync_rule in_sync_learnable)
    (simp add: in_sync_def empty_graph_def outgoing_def)

text \<open>The edges of the built graph are exactly the dependencies of the program.\<close>

definition has_edge :: "dependency_graph \<Rightarrow> string \<Rightarrow> string \<Rightarrow> dep_type \<Rightarrow> bool" where
  "has_edge g p q k = (\<lparr>dep_from = p, dep_to = q, dep_kind = k\<rparr> \<in> set (dg_edges g))"

lemma has_edge_simps [simp]:
  "has_edge (add_predicate a g) p q k = has_edge g p q k"
  "has_edge (add_edge a b j g) p q k = (has_edge g p q k \<or> (p = a \<and> q = b \<and> k = j))"
  "\<not> has_edge empty_graph p q k"
  by (auto simp: has_edge_def add_predicate_def add_edge_def empty_graph_def)

lemma fold_has_edge:
  assumes "\<And>x g. has_edge (f x g) p q k = (has_edge g p q k \<or> Q x)"
  shows "has_edge (fold f xs g) p q k = (has_edge g p q k \<or> (\<exists>x \<in> set xs. Q x))"
  using assms by (induction xs arbitrary: g) auto

lemma has_edge_literal:
  "has_edge (add_literal h l g) p q k \<longleftrightarrow>
     has_edge g p q k \<or> (p = h \<and> literal_depends r l q k \<and> k \<noteq> DepAggregate)"
  by (auto simp: add_literal_def literal_depends_def split: body_literal.splits)

lemma has_edge_aggregate:
  "has_edge (add_aggregate_literal h l g) p q k \<longleftrightarrow>
     has_edge g p q k \<or> (p = h \<and> k = DepAggregate \<and> (\<exists>a. l = Positive a \<and> predicate a = q))"
  by (auto simp: add_aggregate_literal_def split: body_literal.splits)

lemma has_edge_rule:
  "has_edge (add_rule r g) p q k \<longleftrightarrow>
     has_edge g p q k \<or> (predicate (head r) = p \<and> (\<exists>l \<in> set (body r). literal_depends r l q k))"
proof -
  have agg: "literal_depends r l q DepAggregate \<longleftrightarrow>
      has_aggregation r \<and> (\<exists>a. l = Positive a \<and> predicate a = q)" for l
    by (cases l) (auto simp: literal_depends_def)
  show ?thesis
    unfolding add_rule_def Let_def
    by (cases "k = DepAggregate")
      (auto simp: fold_has_edge [OF has_edge_literal [where r = r]]
        fold_has_edge [OF has_edge_aggregate] agg)
qed

lemma has_edge_learnable:
  "has_edge (add_learnable lr g) p q k \<longleftrightarrow>
     has_edge g p q k \<or> (predicate (lr_head lr) = p \<and> k = DepPositive
       \<and> (\<exists>l \<in> set (lr_body lr). \<exists>a. literal_atom l = Some a \<and> predicate a = q))"
proof -
  have "has_edge (fold (add_learnable_literal h) ls g) p q k \<longleftrightarrow>
      has_edge g p q k \<or> (\<exists>l \<in> set ls. h = p \<and> k = DepPositive
        \<and> (\<exists>a. literal_atom l = Some a \<and> predicate a = q))" for h ls g
    by (rule fold_has_edge) (auto simp: add_learnable_literal_def split: option.splits)
  then show ?thesis
    by (auto simp: add_learnable_def Let_def)
qed

lemma has_edge_build: "has_edge (build_dependency_graph prog) p q k \<longleftrightarrow> depends prog p q k"
  unfolding build_dependency_graph_def depends_def
  by (simp add: fold_has_edge [OF has_edge_learnable] fold_has_edge [OF has_edge_rule] conj_commute)

lemma outgoing_build:
  "e \<in> set (outgoing (build_dependency_graph prog) p) \<longleftrightarrow>
     dep_from e = p \<and> depends prog p (dep_to e) (dep_kind e)"
proof -
  have "outgoing (build_dependency_graph prog) p =
      filter (\<lambda>e. dep_from e = p) (dg_edges (build_dependency_graph prog))"
    using in_sync_build by (simp add: in_sync_def)
  then show ?thesis by (cases e) (auto simp flip: has_edge_build simp: has_edge_def)
qed

text \<open>The vertices are the heads and the predicates depended on.\<close>

definition node :: "dependency_graph \<Rightarrow> string \<Rightarrow> bool" where
  "node g a = (a \<in> dg_predicates g)"

lemma node_simps [simp]:
  "node (add_predicate b g) a = (node g a \<or> a = b)"
  "node (add_edge b c j g) a = (node g a \<or> a = b \<or> a = c)"
  "\<not> node empty_graph a"
  by (auto simp: node_def add_predicate_def add_edge_def empty_graph_def)

lemma fold_node:
  assumes "\<And>x g. node (f x g) a = (node g a \<or> Q x)"
  shows "node (fold f xs g) a = (node g a \<or> (\<exists>x \<in> set xs. Q x))"
  using assms by (induction xs arbitrary: g) auto

lemma node_literal:
  "node (add_literal h l g) a \<longleftrightarrow> node g a \<or> (\<exists>k. literal_depends r l a k) \<or> (\<exists>b k. literal_depends r l b k) \<and> a = h"
  by (auto simp: add_literal_def literal_depends_def split: body_literal.splits)

lemma node_aggregate:
  "node (add_aggregate_literal h l g) a \<longleftrightarrow> node g a \<or> (\<exists>b. l = Positive b \<and> (a = h \<or> predicate b = a))"
  by (auto simp: add_aggregate_literal_def split: body_literal.splits)

lemma node_rule:
  "node (add_rule r g) a \<longleftrightarrow>
     node g a \<or> predicate (head r) = a \<or> (\<exists>l \<in> set (body r). \<exists>k. literal_depends r l a k)"
proof -
  have "(\<exists>k. literal_depends r (Positive b) a k) = (predicate b = a)" for b
    by (auto simp: literal_depends_def)
  then show ?thesis
    by (auto simp: add_rule_def Let_def fold_node [OF node_literal [where r = r]]
        fold_node [OF node_aggregate])
qed

lemma node_learnable:
  "node (add_learnable lr g) a \<longleftrightarrow>
     node g a \<or> predicate (lr_head lr) = a
     \<or> (\<exists>l \<in> set (lr_body lr). \<exists>b. literal_atom l = Some b \<and> predicate b = a)"
proof -
  have "node (fold (add_learnable_literal h) ls g) a \<longleftrightarrow>
      node g a \<or> (\<exists>l \<in> set ls. \<exists>b. literal_atom l = Some b \<and> (a = h \<or> predicate b = a))" for h ls g
    by (rule fold_node) (auto simp: add_learnable_literal_def split: option.splits)
  then show ?thesis by (auto simp: add_learnable_def Let_def)
qed

lemma node_build: "a \<in> dg_predicates (build_dependency_graph prog) \<longleftrightarrow> a \<in> program_predicates prog"
proof -
  have mem: "a \<in> program_predicates prog \<longleftrightarrow>
      (\<exists>r \<in> set (rules prog). predicate (head r) = a)
      \<or> (\<exists>lr \<in> set (learnable_rules prog). predicate (lr_head lr) = a)
      \<or> (\<exists>r \<in> set (rules prog). \<exists>l \<in> set (body r). \<exists>k. literal_depends r l a k)
      \<or> (\<exists>lr \<in> set (learnable_rules prog). \<exists>l \<in> set (lr_body lr).
            \<exists>b. literal_atom l = Some b \<and> predicate b = a)"
    unfolding program_predicates_def depends_def by blast
  have "node (build_dependency_graph prog) a \<longleftrightarrow> a \<in> program_predicates prog"
    unfolding mem
    by (simp only: build_dependency_graph_def fold_node [OF node_learnable] fold_node [OF node_rule]
        node_simps bex_disj_distrib simp_thms disj_ac)
  then show ?thesis by (simp add: node_def)
qed

section \<open>The components of the dependency graph\<close>

interpretation dep: digraph "dg_predicates (build_dependency_graph prog)"
    "successors (build_dependency_graph prog)" for prog
proof
  show "finite (dg_predicates (build_dependency_graph prog))"
    using in_sync_build by (simp add: in_sync_def)
  fix v
  show "set (successors (build_dependency_graph prog) v) \<subseteq> dg_predicates (build_dependency_graph prog)"
    using in_sync_build by (auto simp: in_sync_def successors_def)
qed

lemma find_sccs_ok:
  "\<exists>cs. find_sccs (build_dependency_graph prog) = Some cs \<and> distinct (concat cs)
     \<and> set (concat cs) = dg_predicates (build_dependency_graph prog)
     \<and> ordered_components (successors (build_dependency_graph prog)) {} cs"
  unfolding find_sccs_def using dep.finite_V by (intro dep.tarjan_components) simp_all

lemma successor_iff: "q \<in> set (successors (build_dependency_graph prog) p) \<longleftrightarrow> (\<exists>k. depends prog p q k)"
proof -
  have "q \<in> set (successors (build_dependency_graph prog) p)
      \<longleftrightarrow> (\<exists>e. e \<in> set (outgoing (build_dependency_graph prog) p) \<and> dep_to e = q)"
    by (auto simp: successors_def)
  also have "\<dots> \<longleftrightarrow> (\<exists>k. depends prog p q k)"
    unfolding outgoing_build by (metis dep_edge.select_convs)
  finally show ?thesis .
qed

lemma reaches_iff: "reaches (successors (build_dependency_graph prog)) p q = depends_on prog p q"
  by (simp add: reaches_def depends_on_def successor_iff)

lemma depends_predicates:
  assumes "depends prog p q k"
  shows "p \<in> dg_predicates (build_dependency_graph prog)" "q \<in> dg_predicates (build_dependency_graph prog)"
proof -
  have "\<lparr>dep_from = p, dep_to = q, dep_kind = k\<rparr> \<in> set (dg_edges (build_dependency_graph prog))"
    using assms by (simp flip: has_edge_build add: has_edge_def)
  then show "p \<in> dg_predicates (build_dependency_graph prog)"
    "q \<in> dg_predicates (build_dependency_graph prog)"
    using in_sync_build [of prog] unfolding in_sync_def by force+
qed

text \<open>In an ordered list of components the mutually reachable vertices share their component.\<close>

lemma ordered_prefix_closed:
  assumes "ordered_components succs E (as @ bs)" and "\<forall>x \<in> E. set (succs x) \<subseteq> E"
  shows "\<forall>x \<in> E \<union> set (concat as). set (succs x) \<subseteq> E \<union> set (concat as)"
  using assms
proof (induction as arbitrary: E)
  case (Cons c as)
  then have "ordered_components succs (E \<union> set c) (as @ bs)"
    and "\<forall>x \<in> E \<union> set c. set (succs x) \<subseteq> E \<union> set c" by auto
  from Cons.IH [OF this] show ?case by (auto simp: Un_assoc)
qed simp

lemma ordered_component_exact:
  assumes ord: "ordered_components succs {} cs" and dist: "distinct (concat cs)"
    and c: "c \<in> set cs" "x \<in> set c" and y: "y \<in> set (concat cs)"
  shows "y \<in> set c \<longleftrightarrow> reaches succs x y \<and> reaches succs y x"
proof -
  have mutual: "reaches succs a b" if "c' \<in> set cs" "a \<in> set c'" "b \<in> set c'" for c' a b
  proof -
    obtain l r where "cs = l @ c' # r" using \<open>c' \<in> set cs\<close> by (auto simp: in_set_conv_decomp)
    then show ?thesis using ord that by (auto simp: ordered_components_append)
  qed
  have later: "\<not> reaches succs a b"
    if cs: "cs = l @ d # r" and a: "a \<in> set (concat l)" and b: "b \<in> set (concat (d # r))" for l d r a b
  proof
    assume "reaches succs a b"
    moreover have "\<forall>x \<in> {} \<union> set (concat l). set (succs x) \<subseteq> {} \<union> set (concat l)"
      using ordered_prefix_closed [of succs "{}" l "d # r"] ord cs by simp
    ultimately have "b \<in> set (concat l)"
      using reaches_closed [OF _ a] by blast
    then show False using dist cs b by auto
  qed
  obtain c' where c': "c' \<in> set cs" "y \<in> set c'" using y by auto
  show ?thesis
  proof (cases "c' = c")
    case True
    then show ?thesis using mutual c c' by blast
  next
    case False
    have "y \<notin> set c"
    proof
      assume "y \<in> set c"
      obtain l r where cs: "cs = l @ c # r" using c(1) by (auto simp: in_set_conv_decomp)
      then have "c' \<in> set l \<union> set r" using c'(1) False by auto
      then show False using dist cs \<open>y \<in> set c\<close> c'(2) by auto
    qed
    moreover have "\<not> (reaches succs x y \<and> reaches succs y x)"
    proof -
      obtain l r where cs: "cs = l @ c # r" using c(1) by (auto simp: in_set_conv_decomp)
      then consider "c' \<in> set l" | "c' \<in> set r" using c'(1) False by auto
      then show ?thesis
      proof cases
        case 1
        then show ?thesis using later [OF cs, of y x] c c' by auto
      next
        case 2
        then obtain r1 r2 where "r = r1 @ c' # r2" by (auto simp: in_set_conv_decomp)
        then have "cs = (l @ c # r1) @ c' # r2" using cs by simp
        from later [OF this, of x y] show ?thesis using c c' by auto
      qed
    qed
    ultimately show ?thesis by blast
  qed
qed

section \<open>Negation cycles\<close>

lemma check_scc_iff:
  assumes "scc \<noteq> []"
  shows "check_scc_for_negation_cycle scc g = None \<longleftrightarrow>
    (\<forall>p \<in> set scc. \<forall>e \<in> set (outgoing g p). dep_to e \<in> set scc \<longrightarrow> dep_kind e = DepPositive)"
  using assms
  by (auto simp: check_scc_for_negation_cycle_def list_ex_iff split: list.splits)

lemma check_scc_Some: "check_scc_for_negation_cycle scc g = Some c \<Longrightarrow> c = scc"
  by (auto simp: check_scc_for_negation_cycle_def split: list.splits if_splits)

text \<open>Some component fails the test exactly when a negative or aggregate dependency is on a cycle.\<close>

lemma negation_cycle_iff:
  assumes "find_sccs (build_dependency_graph prog) = Some cs"
  shows "(\<forall>scc \<in> set cs. check_scc_for_negation_cycle scc (build_dependency_graph prog) = None) \<longleftrightarrow>
    (\<forall>p q k. depends prog p q k \<and> depends_on prog q p \<longrightarrow> k = DepPositive)"
proof -
  let ?g = "build_dependency_graph prog"
  have dist: "distinct (concat cs)" and all: "set (concat cs) = dg_predicates ?g"
    and ord: "ordered_components (successors ?g) {} cs"
    using find_sccs_ok [of prog] assms by auto
  have ne: "scc \<noteq> []" if mem: "scc \<in> set cs" for scc
  proof -
    obtain l r where "cs = l @ scc # r" using mem by (auto simp: in_set_conv_decomp)
    then show ?thesis using ord by (auto simp: ordered_components_append)
  qed
  have dp: "depends_on prog p q" if "depends prog p q k" for p q k
    using that by (auto simp: depends_on_def)
  have same: "q \<in> set scc \<longleftrightarrow> depends_on prog q p"
    if "scc \<in> set cs" "p \<in> set scc" "depends prog p q k" for scc p q k
    using ordered_component_exact [OF ord dist that(1,2), of q] depends_predicates [OF that(3)]
      dp [OF that(3)] unfolding all reaches_iff by blast
  show ?thesis
  proof
    assume L: "\<forall>scc \<in> set cs. check_scc_for_negation_cycle scc ?g = None"
    show "\<forall>p q k. depends prog p q k \<and> depends_on prog q p \<longrightarrow> k = DepPositive"
    proof (intro allI impI, elim conjE)
      fix p q k assume d: "depends prog p q k" "depends_on prog q p"
      obtain scc where scc: "scc \<in> set cs" "p \<in> set scc"
        using depends_predicates(1) [OF d(1)] all by auto
      let ?e = "\<lparr>dep_from = p, dep_to = q, dep_kind = k\<rparr>"
      have "?e \<in> set (outgoing ?g p)" using d(1) by (simp add: outgoing_build)
      moreover have "q \<in> set scc" using same [OF scc d(1)] d(2) by simp
      ultimately show "k = DepPositive"
        using L scc check_scc_iff [OF ne [OF scc(1)], of ?g] by force
    qed
  next
    assume R: "\<forall>p q k. depends prog p q k \<and> depends_on prog q p \<longrightarrow> k = DepPositive"
    show "\<forall>scc \<in> set cs. check_scc_for_negation_cycle scc ?g = None"
    proof
      fix scc assume scc: "scc \<in> set cs"
      show "check_scc_for_negation_cycle scc ?g = None"
        unfolding check_scc_iff [OF ne [OF scc]]
        using R same [OF scc] by (auto simp: outgoing_build)
    qed
  qed
qed

end
