(* ===== verification/Stratify_Correct.thy ===== *)
theory Stratify_Correct
  imports Stratify
begin

text \<open>
  The properties of the stratification analysis: the assigned strata respect every dependency that
  is not on a cycle, a program outside the probabilistic profile is rejected exactly when a negative
  or aggregate dependency is on a cycle, and the list of strata partitions the predicates.
\<close>

section \<open>The strata\<close>

text \<open>Along a cycle the stratum is shared, every other edge is respected.\<close>

definition strata_respect :: "dependency_graph \<Rightarrow> (string \<rightharpoonup> nat) \<Rightarrow> bool" where
  "strata_respect g m =
     (\<forall>p s e d. m p = Some s \<and> e \<in> set (outgoing g p) \<and> m (dep_to e) = Some d
        \<longrightarrow> (if reaches (successors g) (dep_to e) p then d = s else required e d \<le> s))"

lemma fold_raise_ge:
  "s \<le> fold (raise_for_edge m) es s"
proof (induction es arbitrary: s)
  case (Cons e es)
  have "s \<le> raise_for_edge m e s" by (auto simp: raise_for_edge_def split: option.splits)
  also have "\<dots> \<le> fold (raise_for_edge m) es (raise_for_edge m e s)" by (rule Cons.IH)
  finally show ?case by simp
qed simp

lemma fold_raise_edge:
  "e \<in> set es \<Longrightarrow> m (dep_to e) = Some d \<Longrightarrow> required e d \<le> fold (raise_for_edge m) es s"
proof (induction es arbitrary: s)
  case (Cons e' es)
  show ?case
  proof (cases "e = e'")
    case True
    then have "required e d \<le> raise_for_edge m e' s" using Cons.prems by (simp add: raise_for_edge_def)
    then show ?thesis using fold_raise_ge [of "raise_for_edge m e' s" m es] by simp
  qed (use Cons in auto)
qed simp

lemma fold_raise_all_ge: "s \<le> fold (\<lambda>p. fold (raise_for_edge m) (outgoing g p)) ps s"
proof (induction ps arbitrary: s)
  case (Cons p ps)
  show ?case using Cons.IH [of "fold (raise_for_edge m) (outgoing g p) s"]
      fold_raise_ge [of s m "outgoing g p"] by simp
qed simp

lemma min_stratum_ge:
  assumes "p \<in> set scc" and "e \<in> set (outgoing g p)" and "m (dep_to e) = Some d"
  shows "required e d \<le> min_stratum g m scc"
proof -
  have "required e d \<le> fold (\<lambda>p. fold (raise_for_edge m) (outgoing g p)) ps s" if "p \<in> set ps" for ps s
    using that
  proof (induction ps arbitrary: s)
    case (Cons p' ps)
    show ?case
    proof (cases "p = p'")
      case True
      have "required e d \<le> fold (raise_for_edge m) (outgoing g p) s"
        using assms(2,3) by (rule fold_raise_edge)
      then show ?thesis
        using True fold_raise_all_ge [of "fold (raise_for_edge m) (outgoing g p) s" m g ps] by simp
    qed (use Cons in auto)
  qed simp
  then show ?thesis using assms(1) by (simp add: min_stratum_def)
qed

lemma fold_assign: "fold (\<lambda>p m. m(p \<mapsto> s)) scc m p = (if p \<in> set scc then Some s else m p)"
  by (induction scc arbitrary: m) auto

text \<open>
  The components are processed in order; some may be skipped, as the probabilistic analysis does.
\<close>

definition assign_kept ::
    "(string list \<Rightarrow> bool) \<Rightarrow> dependency_graph \<Rightarrow> string list list \<Rightarrow> (string \<rightharpoonup> nat) \<times> nat
     \<Rightarrow> (string \<rightharpoonup> nat) \<times> nat" where
  "assign_kept keep g = fold (\<lambda>scc st. if keep scc then assign_scc g scc st else st)"

lemma assign_scc_respect:
  assumes mutual: "\<forall>x \<in> set c. \<forall>y \<in> set c. reaches (successors g) x y"
    and closed: "\<forall>x \<in> E. set (successors g x) \<subseteq> E" and disj: "E \<inter> set c = {}"
    and step: "\<forall>x \<in> set c. set (successors g x) \<subseteq> E \<union> set c"
    and sub: "dom m \<subseteq> E" and m: "strata_respect g m"
    and that: "m0 = m"
  shows "strata_respect g (fold (\<lambda>p m. m(p \<mapsto> min_stratum g m0 c)) c m)"
  unfolding strata_respect_def
proof (intro allI impI, elim conjE)
  let ?s = "min_stratum g m c"
  fix p s e d
  assume p': "fold (\<lambda>p m. m(p \<mapsto> min_stratum g m0 c)) c m p = Some s"
    and e: "e \<in> set (outgoing g p)"
    and d': "fold (\<lambda>p m. m(p \<mapsto> min_stratum g m0 c)) c m (dep_to e) = Some d"
  have p: "(if p \<in> set c then Some ?s else m p) = Some s"
    and d: "(if dep_to e \<in> set c then Some ?s else m (dep_to e)) = Some d"
    using p' d' that by (simp_all add: fold_assign)
  have succ: "dep_to e \<in> set (successors g p)" using e by (simp add: successors_def)
  show "if reaches (successors g) (dep_to e) p then d = s else required e d \<le> s"
  proof (cases "p \<in> set c")
    case pc: True
    then have s: "s = ?s" using p by simp
    show ?thesis
    proof (cases "dep_to e \<in> set c")
      case True
      then show ?thesis using mutual pc s d by simp
    next
      case False
      then have E: "dep_to e \<in> E" using step pc succ by blast
      have "\<not> reaches (successors g) (dep_to e) p"
        using reaches_closed [OF _ E, of "successors g" p] closed disj pc by blast
      moreover have "required e d \<le> ?s"
        using min_stratum_ge [OF pc e] d False by simp
      ultimately show ?thesis using s by simp
    qed
  next
    case False
    then have mp: "m p = Some s" using p by simp
    then have "dep_to e \<in> E" using sub closed succ by blast
    then have "dep_to e \<notin> set c" using disj by blast
    then have "m (dep_to e) = Some d" using d by simp
    then show ?thesis using m mp e unfolding strata_respect_def by blast
  qed
qed

lemma assign_kept_ok:
  assumes "ordered_components (successors g) E cs" and "distinct (concat cs)"
    and "E \<inter> set (concat cs) = {}" and "\<forall>x \<in> E. set (successors g x) \<subseteq> E"
    and "dom m \<subseteq> E" and "strata_respect g m" and "\<forall>p s. m p = Some s \<longrightarrow> s \<le> mx"
    and "assign_kept keep g cs (m, mx) = (m', mx')"
  shows "dom m' = dom m \<union> set (concat (filter keep cs)) \<and> strata_respect g m'
    \<and> (\<forall>p s. m' p = Some s \<longrightarrow> s \<le> mx')"
  using assms
proof (induction cs arbitrary: E m mx)
  case Nil
  then show ?case by (simp add: assign_kept_def)
next
  case (Cons c cs)
  have closed: "\<forall>x \<in> set c. set (successors g x) \<subseteq> E \<union> set c"
    and mutual: "\<forall>x \<in> set c. \<forall>y \<in> set c. reaches (successors g) x y"
    and ord: "ordered_components (successors g) (E \<union> set c) cs"
    using Cons.prems(1) by auto
  have dist: "distinct (concat cs)" and disj: "(E \<union> set c) \<inter> set (concat cs) = {}"
    and Ec: "E \<inter> set c = {}"
    using Cons.prems(2,3) by auto
  have sub: "dom m \<subseteq> E \<union> set c" using Cons.prems(5) by blast
  have closed': "\<forall>x \<in> E \<union> set c. set (successors g x) \<subseteq> E \<union> set c"
    using closed Cons.prems(4) by blast
  show ?case
  proof (cases "keep c")
    case False
    then have "assign_kept keep g cs (m, mx) = (m', mx')"
      using Cons.prems(8) by (simp add: assign_kept_def)
    from Cons.IH [OF ord dist disj closed' sub Cons.prems(6,7) this]
    show ?thesis using False by simp
  next
    case True
    let ?s = "min_stratum g m c"
    let ?m = "fold (\<lambda>p m. m(p \<mapsto> ?s)) c m"
    have run: "assign_kept keep g cs (?m, max mx ?s) = (m', mx')"
      using Cons.prems(8) True by (simp add: assign_kept_def assign_scc_def Let_def)
    have dom: "dom ?m = dom m \<union> set c" by (auto simp: fold_assign dom_def)
    have resp: "strata_respect g ?m"
      by (rule assign_scc_respect [OF mutual Cons.prems(4) Ec closed Cons.prems(5,6) refl])
    have le: "\<forall>p s. ?m p = Some s \<longrightarrow> s \<le> max mx ?s"
      using Cons.prems(7) by (auto simp: fold_assign le_max_iff_disj)
    have "dom ?m \<subseteq> E \<union> set c" using dom Cons.prems(5) by auto
    from Cons.IH [OF ord dist disj closed' this resp le run]
    show ?thesis using dom True by (simp add: Un_assoc)
  qed
qed

text \<open>The two analyses run the loop over all the components, or over the monotone ones.\<close>

lemma assign_all: "fold (assign_scc g) sccs st = assign_kept (\<lambda>_. True) g sccs st"
  by (simp add: assign_kept_def)

lemma assign_monotone:
  assumes "nm = set (map fst (filter (\<lambda>(i, scc). check_scc_for_negation_cycle scc g \<noteq> None)
                         (indexed sccs)))"
  shows "fold (\<lambda>(i, scc) st. if i \<in> nm then st else assign_scc g scc st) (indexed sccs) st
    = assign_kept (\<lambda>scc. check_scc_for_negation_cycle scc g = None) g sccs st"
proof -
  have "fold (\<lambda>(i, scc) st. if i \<in> nm then st else assign_scc g scc st) (indexed sccs) st
      = fold ((\<lambda>scc st. if check_scc_for_negation_cycle scc g = None then assign_scc g scc st else st) \<circ> snd)
          (indexed sccs) st"
  proof (rule fold_cong)
    fix x assume x: "x \<in> set (indexed sccs)"
    obtain i scc where xi: "x = (i, scc)" by (cases x)
    then have "i \<in> nm \<longleftrightarrow> check_scc_for_negation_cycle scc g \<noteq> None"
      using x unfolding assms by (auto simp: image_iff in_indexed_iff split_def)
    then show "(\<lambda>(i, scc) st. if i \<in> nm then st else assign_scc g scc st) x
        = ((\<lambda>scc st. if check_scc_for_negation_cycle scc g = None then assign_scc g scc st else st) \<circ> snd) x"
      using xi by (auto simp: fun_eq_iff)
  qed simp_all
  also have "\<dots> = fold (\<lambda>scc st. if check_scc_for_negation_cycle scc g = None then assign_scc g scc st else st)
      (map snd (indexed sccs)) st"
    by (simp only: fold_map)
  finally show ?thesis by (simp add: assign_kept_def)
qed

lemma assign_kept_build:
  assumes "find_sccs (build_dependency_graph prog) = Some cs"
    and "assign_kept keep (build_dependency_graph prog) cs (Map.empty, 0) = (m, mx)"
  shows "dom m = set (concat (filter keep cs)) \<and> strata_respect (build_dependency_graph prog) m
    \<and> (\<forall>p s. m p = Some s \<longrightarrow> s \<le> mx)"
proof -
  have "ordered_components (successors (build_dependency_graph prog)) {} cs" "distinct (concat cs)"
    using find_sccs_ok [of prog] assms(1) by auto
  moreover have "strata_respect (build_dependency_graph prog) Map.empty"
    by (simp add: strata_respect_def)
  ultimately show ?thesis using assign_kept_ok [OF _ _ _ _ _ _ _ assms(2), of "{}"] by simp
qed

lemma strata_respect_depends:
  assumes "strata_respect (build_dependency_graph prog) m" and "depends prog a b k"
    and "m a = Some i" and "m b = Some j"
  shows "if depends_on prog b a then j = i else if k = DepPositive then j \<le> i else j < i"
proof -
  let ?e = "\<lparr>dep_from = a, dep_to = b, dep_kind = k\<rparr>"
  have e: "?e \<in> set (outgoing (build_dependency_graph prog) a)"
    using assms(2) by (simp add: outgoing_build)
  have "m a = Some i \<and> ?e \<in> set (outgoing (build_dependency_graph prog) a) \<and> m (dep_to ?e) = Some j"
    using e assms by simp
  from assms(1) [unfolded strata_respect_def, rule_format, OF this]
  show ?thesis by (auto simp: required_def reaches_iff split: if_splits)
qed

section \<open>The list of strata\<close>

lemma filter_take_less:
  assumes "i < length xs" and "P (xs ! i)"
  shows "length (filter P (take i xs)) < length (filter P xs)"
    and "filter P xs ! length (filter P (take i xs)) = xs ! i"
proof -
  have "filter P xs = filter P (take i xs) @ xs ! i # filter P (drop (Suc i) xs)"
    using arg_cong [OF id_take_nth_drop [OF assms(1)], of "filter P"] assms(2) by simp
  then show "length (filter P (take i xs)) < length (filter P xs)"
    "filter P xs ! length (filter P (take i xs)) = xs ! i" by (simp_all add: nth_append)
qed

lemma filter_take_mono:
  assumes "i < j" and "j < length xs" and "P (xs ! i)"
  shows "length (filter P (take i xs)) < length (filter P (take j xs))"
  using filter_take_less(1) [of i "take j xs" P] assms by (simp add: min_def)

text \<open>The position of a stratum number among the non-empty ones.\<close>

definition stratum_index :: "string list \<Rightarrow> (string \<rightharpoonup> nat) \<Rightarrow> nat \<Rightarrow> nat \<Rightarrow> nat" where
  "stratum_index preds m mx s =
     length (filter (\<lambda>ps. ps \<noteq> [])
       (take s (map (\<lambda>s. sort (filter (\<lambda>p. m p = Some s) preds)) [0..<mx + 1])))"

lemma stratum_index_in:
  assumes "m p = Some s" and "p \<in> set preds" and "s \<le> mx"
  shows "stratum_index preds m mx s < length (collect_strata preds m mx)"
    and "stratum_predicates (collect_strata preds m mx ! stratum_index preds m mx s)
      = sort (filter (\<lambda>p. m p = Some s) preds)"
proof -
  let ?xs = "map (\<lambda>s. sort (filter (\<lambda>p. m p = Some s) preds)) [0..<mx + 1]"
  have n: "?xs ! s = sort (filter (\<lambda>p. m p = Some s) preds)" "s < length ?xs"
    using assms(3) by (auto simp del: upt_Suc)
  have "p \<in> set (?xs ! s)" using n(1) assms(1,2) by simp
  then have ne: "?xs ! s \<noteq> []" by (metis empty_iff list.set(1))
  note f = filter_take_less [where P = "\<lambda>ps. ps \<noteq> []", OF n(2) ne]
  show lt: "stratum_index preds m mx s < length (collect_strata preds m mx)"
    using f(1) by (simp add: stratum_index_def collect_strata_def del: upt_Suc)
  show "stratum_predicates (collect_strata preds m mx ! stratum_index preds m mx s)
      = sort (filter (\<lambda>p. m p = Some s) preds)"
    using lt f(2) n(1) by (simp add: stratum_index_def collect_strata_def split_def del: upt_Suc)
qed

lemma stratum_index_less:
  assumes "m p = Some s" and "p \<in> set preds" and "s < t" and "t \<le> mx"
  shows "stratum_index preds m mx s < stratum_index preds m mx t"
proof -
  let ?xs = "map (\<lambda>s. sort (filter (\<lambda>p. m p = Some s) preds)) [0..<mx + 1]"
  have n: "?xs ! s = sort (filter (\<lambda>p. m p = Some s) preds)"
    using assms(3,4) by (auto simp del: upt_Suc)
  have "p \<in> set (?xs ! s)" using n assms(1,2) by simp
  then have ne: "?xs ! s \<noteq> []" by (metis empty_iff list.set(1))
  show ?thesis
    unfolding stratum_index_def
    by (rule filter_take_mono) (use assms ne in \<open>auto simp del: upt_Suc\<close>)
qed

lemma collect_strata_lists:
  "map stratum_predicates (collect_strata preds m mx)
    = filter (\<lambda>ps. ps \<noteq> []) (map (\<lambda>s. sort (filter (\<lambda>p. m p = Some s) preds)) [0..<mx + 1])"
  by (simp add: collect_strata_def split_def comp_def indexed_def del: upt_Suc)

lemma collect_strata_ids:
  "map stratum_id (collect_strata preds m mx) = [0..<length (collect_strata preds m mx)]"
  by (simp add: collect_strata_def split_def comp_def indexed_def del: upt_Suc)

lemma distinct_concat_nth:
  assumes "distinct (concat xss)" and "i < length xss" and "j < length xss" and "i \<noteq> j"
  shows "set (xss ! i) \<inter> set (xss ! j) = {}"
  using assms
proof (induction xss arbitrary: i j)
  case (Cons xs xss)
  have "set (xss ! k) \<inter> set xs = {}" if "k < length xss" for k
    using Cons.prems(1) nth_mem [OF that] by fastforce
  then show ?case using Cons by (cases i; cases j) auto
qed simp

lemma concat_filter_nonempty: "concat (filter (\<lambda>ps. ps \<noteq> []) xss) = concat xss"
  by (induction xss) auto

lemma distinct_levels:
  assumes "distinct preds"
  shows "distinct (concat (map (\<lambda>s. sort (filter (\<lambda>p. m p = Some s) preds)) [0..<n]))"
  using assms by (induction n) auto


section \<open>The runs of the two analyses\<close>

lemma graph_predicates: "dg_predicates (build_dependency_graph prog) = program_predicates prog"
  by (rule set_eqI) (simp add: node_build)

lemma stratify_Inr:
  assumes "stratify prog = Inr strata"
  obtains cs m mx where "find_sccs (build_dependency_graph prog) = Some cs"
    and "\<not> is_probabilistic_profile prog \<longrightarrow>
      (\<forall>scc \<in> set cs. check_scc_for_negation_cycle scc (build_dependency_graph prog) = None)"
    and "dom m = set (concat cs)" and "strata_respect (build_dependency_graph prog) m"
    and "\<forall>p s. m p = Some s \<longrightarrow> s \<le> mx" and "strata = collect_strata (concat cs) m mx"
    and "distinct (concat cs)" and "set (concat cs) = program_predicates prog"
proof -
  let ?g = "build_dependency_graph prog"
  obtain cs where cs: "find_sccs ?g = Some cs" and dist: "distinct (concat cs)"
    and all: "set (concat cs) = program_predicates prog"
    using find_sccs_ok [of prog] by (auto simp: graph_predicates)
  obtain m mx where run: "assign_kept (\<lambda>_. True) ?g cs (Map.empty, 0) = (m, mx)" by fastforce
  have ok: "first_error (\<lambda>scc. case check_scc_for_negation_cycle scc ?g of
              None \<Rightarrow> None
            | Some cycle \<Rightarrow> if is_probabilistic_profile prog then None
                else Some (StratificationCycle cycle)) cs = None"
    and st: "strata = collect_strata (concat cs) m mx"
    using assms run
    by (auto simp: stratify_def Let_def cs assign_all check_def bind_res_def
        split: option.splits)
  have "\<not> is_probabilistic_profile prog \<longrightarrow>
      (\<forall>scc \<in> set cs. check_scc_for_negation_cycle scc ?g = None)"
    using ok by (auto simp: first_error_None split: option.splits if_splits)
  then show thesis
    using that [OF cs _ _ _ _ st dist all] assign_kept_build [OF cs run] by simp
qed

lemma stratify_Inl:
  "stratify prog = Inl e \<longleftrightarrow> \<not> is_probabilistic_profile prog \<and>
     (\<exists>cs. find_sccs (build_dependency_graph prog) = Some cs \<and>
        first_error (\<lambda>scc. map_option StratificationCycle
          (check_scc_for_negation_cycle scc (build_dependency_graph prog))) cs = Some e)"
proof -
  obtain cs where cs: "find_sccs (build_dependency_graph prog) = Some cs"
    using find_sccs_ok [of prog] by auto
  show ?thesis
  proof (cases "is_probabilistic_profile prog")
    case True
    then have "first_error (\<lambda>scc. case check_scc_for_negation_cycle scc (build_dependency_graph prog) of
              None \<Rightarrow> None
            | Some cycle \<Rightarrow> if is_probabilistic_profile prog then None
                else Some (StratificationCycle cycle)) cs = None"
      by (auto simp: first_error_None split: option.split)
    then show ?thesis using True
      by (auto simp: stratify_def Let_def cs check_def bind_res_def split: prod.splits)
  next
    case False
    have "(\<lambda>scc. case check_scc_for_negation_cycle scc (build_dependency_graph prog) of
              None \<Rightarrow> None
            | Some cycle \<Rightarrow> if is_probabilistic_profile prog then None
                else Some (StratificationCycle cycle))
        = (\<lambda>scc. map_option StratificationCycle
          (check_scc_for_negation_cycle scc (build_dependency_graph prog)))"
      using False by (auto simp: fun_eq_iff map_option_case split: option.split)
    then show ?thesis using False
      by (auto simp: stratify_def Let_def cs check_def bind_res_def split: prod.splits option.splits)
  qed
qed

text \<open>Where a predicate is found in the list of strata.\<close>

definition in_stratum :: "stratum list \<Rightarrow> nat \<Rightarrow> string \<Rightarrow> bool" where
  "in_stratum strata i p = (i < length strata \<and> p \<in> set (stratum_predicates (strata ! i)))"

lemma in_stratum_collect:
  assumes "distinct preds" and "set preds = dom m" and "\<forall>p s. m p = Some s \<longrightarrow> s \<le> mx"
  shows "in_stratum (collect_strata preds m mx) i p \<longleftrightarrow>
    (\<exists>s. m p = Some s \<and> i = stratum_index preds m mx s)"
proof
  assume "\<exists>s. m p = Some s \<and> i = stratum_index preds m mx s"
  then obtain s where s: "m p = Some s" "i = stratum_index preds m mx s" by blast
  have "p \<in> set preds" "s \<le> mx" using s(1) assms by auto
  then show "in_stratum (collect_strata preds m mx) i p"
    using stratum_index_in [of m p s preds mx] s by (simp add: in_stratum_def)
next
  assume i: "in_stratum (collect_strata preds m mx) i p"
  let ?c = "collect_strata preds m mx"
  let ?l = "map stratum_predicates ?c"
  have pl: "p \<in> set (?l ! i)" "i < length ?l" using i by (auto simp: in_stratum_def)
  have dist: "distinct (concat ?l)"
    unfolding collect_strata_lists concat_filter_nonempty by (rule distinct_levels [OF assms(1)])
  have "p \<in> set (concat ?l)" using pl nth_mem [OF pl(2)] by fastforce
  then have "p \<in> set preds"
    unfolding collect_strata_lists concat_filter_nonempty by auto
  then obtain s where s: "m p = Some s" using assms(2) by auto
  have j: "stratum_index preds m mx s < length ?l" "p \<in> set (?l ! stratum_index preds m mx s)"
    using stratum_index_in [of m p s preds mx] assms(3) s \<open>p \<in> set preds\<close> by auto
  have "i = stratum_index preds m mx s"
  proof (rule ccontr)
    assume "i \<noteq> stratum_index preds m mx s"
    then have "set (?l ! i) \<inter> set (?l ! stratum_index preds m mx s) = {}"
      by (rule distinct_concat_nth [OF dist pl(2) j(1)])
    then show False using pl(1) j(2) by blast
  qed
  then show "\<exists>s. m p = Some s \<and> i = stratum_index preds m mx s" using s by blast
qed


lemma negation_cycle_none:
  assumes "find_sccs (build_dependency_graph prog) = Some cs"
    and "\<forall>scc \<in> set cs. check_scc_for_negation_cycle scc (build_dependency_graph prog) = None"
    and "depends prog a b k" and "depends_on prog b a"
  shows "k = DepPositive"
  using negation_cycle_iff [OF assms(1)] assms by blast

lemma scc_mutual:
  assumes "find_sccs (build_dependency_graph prog) = Some cs" and "c \<in> set cs" and "x \<in> set c"
  shows "set c = {y. depends_on prog x y \<and> depends_on prog y x}"
proof -
  let ?g = "build_dependency_graph prog"
  have ord: "ordered_components (successors ?g) {} cs" and dist: "distinct (concat cs)"
    and all: "set (concat cs) = dg_predicates ?g"
    using find_sccs_ok [of prog] assms(1) by auto
  have x: "x \<in> dg_predicates ?g" using assms(2,3) all by auto
  have closed: "y \<in> dg_predicates ?g" if "depends_on prog x y" for y
    using reaches_closed [of "successors ?g" x y "dg_predicates ?g"] that x dep.succs_closed
    by (auto simp: reaches_iff)
  show ?thesis
    using ordered_component_exact [OF ord dist assms(2,3)] closed assms(2)
    unfolding all reaches_iff by (auto simp flip: all)
qed

lemma monotone_component:
  assumes "find_sccs (build_dependency_graph prog) = Some cs" and "c \<in> set cs"
  shows "check_scc_for_negation_cycle c (build_dependency_graph prog) \<noteq> None \<longleftrightarrow>
    (\<exists>a b k. a \<in> set c \<and> b \<in> set c \<and> depends prog a b k \<and> k \<noteq> DepPositive)"
proof -
  let ?g = "build_dependency_graph prog"
  have "ordered_components (successors ?g) {} cs"
    using find_sccs_ok [of prog] assms(1) by auto
  then have "c \<noteq> []" using assms(2) by (auto simp: in_set_conv_decomp ordered_components_append)
  note iff = check_scc_iff [OF this, of ?g]
  have "check_scc_for_negation_cycle c ?g \<noteq> None \<longleftrightarrow>
      (\<exists>a \<in> set c. \<exists>e :: dep_edge. dep_from e = a \<and> depends prog a (dep_to e) (dep_kind e)
         \<and> dep_to e \<in> set c \<and> dep_kind e \<noteq> DepPositive)"
    unfolding iff Ball_def Bex_def outgoing_build by (simp only: not_all not_imp conj_assoc)
  also have "\<dots> \<longleftrightarrow> (\<exists>a b k. a \<in> set c \<and> b \<in> set c \<and> depends prog a b k \<and> k \<noteq> DepPositive)"
  proof safe
    fix a b k assume "a \<in> set c" "b \<in> set c" "depends prog a b k" "k \<noteq> DepPositive"
    then show "\<exists>a \<in> set c. \<exists>e :: dep_edge. dep_from e = a \<and> depends prog a (dep_to e) (dep_kind e)
         \<and> dep_to e \<in> set c \<and> dep_kind e \<noteq> DepPositive"
      by (intro bexI [of _ a] exI [of _ "\<lparr>dep_from = a, dep_to = b, dep_kind = k\<rparr>"]) simp_all
  qed blast
  finally show ?thesis .
qed

lemma analyze_run:
  "\<exists>cs m. find_sccs (build_dependency_graph prog) = Some cs
    \<and> analyze_stratification prog = Some \<lparr>sr_sccs = cs,
      non_monotone_sccs = {i. i < length cs
        \<and> check_scc_for_negation_cycle (cs ! i) (build_dependency_graph prog) \<noteq> None},
      sr_strata = m\<rparr>
    \<and> dom m = set (concat (filter (\<lambda>scc.
        check_scc_for_negation_cycle scc (build_dependency_graph prog) = None) cs))
    \<and> strata_respect (build_dependency_graph prog) m"
proof -
  let ?g = "build_dependency_graph prog"
  let ?keep = "\<lambda>scc. check_scc_for_negation_cycle scc ?g = None"
  obtain cs where cs: "find_sccs ?g = Some cs" using find_sccs_ok [of prog] by auto
  let ?nm = "set (map fst (filter (\<lambda>(i, scc). check_scc_for_negation_cycle scc ?g \<noteq> None) (indexed cs)))"
  have nm: "?nm = {i. i < length cs \<and> check_scc_for_negation_cycle (cs ! i) ?g \<noteq> None}"
    by (auto simp: set_indexed image_iff)
  obtain m mx where run: "assign_kept ?keep ?g cs (Map.empty, 0) = (m, mx)" by fastforce
  have "analyze_stratification prog = Some \<lparr>sr_sccs = cs, non_monotone_sccs = ?nm, sr_strata = m\<rparr>"
    unfolding analyze_stratification_def Let_def cs option.case assign_monotone [OF refl] run by simp
  with assign_kept_build [OF cs run] cs show ?thesis unfolding nm by blast
qed

lemma analyze_Some:
  assumes "analyze_stratification prog = Some res"
  shows "\<exists>cs. find_sccs (build_dependency_graph prog) = Some cs \<and> sr_sccs res = cs
    \<and> non_monotone_sccs res = {i. i < length cs
        \<and> check_scc_for_negation_cycle (cs ! i) (build_dependency_graph prog) \<noteq> None}"
  using analyze_run [of prog] assms by auto

lemma components_dependencies_first:
  assumes "find_sccs (build_dependency_graph prog) = Some cs" and "i < length cs"
    and "a \<in> set (cs ! i)" and "depends_on prog a b"
  shows "\<exists>j \<le> i. b \<in> set (cs ! j)"
proof -
  let ?succs = "successors (build_dependency_graph prog)"
  have "ordered_components ?succs {} (take (Suc i) cs @ drop (Suc i) cs)"
    using find_sccs_ok [of prog] assms(1) by auto
  from ordered_prefix_closed [OF this]
  have closed: "\<forall>x \<in> set (concat (take (Suc i) cs)). set (?succs x) \<subseteq> set (concat (take (Suc i) cs))"
    by simp
  have "cs ! i \<in> set (take (Suc i) cs)" using assms(2) by (auto simp: take_Suc_conv_app_nth)
  then have "a \<in> set (concat (take (Suc i) cs))" using assms(3) by auto
  then have "b \<in> set (concat (take (Suc i) cs))"
    using reaches_closed [of ?succs a b] closed assms(4) by (simp only: reaches_iff)
  then show ?thesis by (force simp: in_set_conv_nth less_Suc_eq_le)
qed

section \<open>Properties of the stratification analysis\<close>

definition no_directives :: directives where
  "no_directives = \<lparr>prob_engine = None, prob_cache = None, prob_samples = None, prob_seed = None,
     prob_confidence = None, prob_method = None, prob_max_nonmonotone_iterations = None,
     max_recursion_depth = None, epistemic_mode = None, magic_sets = None\<rparr>"

definition plain_program :: "rule list \<Rightarrow> program" where
  "plain_program rs = \<lparr>rules = rs, queries = [], prob_facts = [], annotated_disjunctions = [],
     evidence_stmts = [], prob_queries = [], learnable_rules = [], directives = no_directives\<rparr>"

definition unary :: "string \<Rightarrow> atom" where
  "unary p = \<lparr>predicate = p, terms = [Variable ''X'']\<rparr>"

text \<open>\<open>reach\<close> is recursive, \<open>cut\<close> negates it.\<close>

definition cut_program :: program where
  "cut_program = plain_program
     [\<lparr>head = unary ''cut'', body = [Positive (unary ''vertex''), Negated (unary ''reach'')]\<rparr>,
      \<lparr>head = unary ''reach'', body = [Positive (unary ''vertex''), Positive (unary ''step'')]\<rparr>,
      \<lparr>head = unary ''step'', body = [Positive (unary ''reach'')]\<rparr>]"

text \<open>\<open>win\<close> negates itself through \<open>lose\<close>.\<close>

definition win_program :: program where
  "win_program = plain_program
     [\<lparr>head = unary ''win'', body = [Positive (unary ''move''), Negated (unary ''lose'')]\<rparr>,
      \<lparr>head = unary ''lose'', body = [Positive (unary ''win'')]\<rparr>]"

definition cut_strata :: "stratum list" where
  "cut_strata =
     [\<lparr>stratum_id = 0, stratum_predicates = [''reach'', ''step'', ''vertex'']\<rparr>,
      \<lparr>stratum_id = 1, stratum_predicates = [''cut'']\<rparr>]"

lemma cut_run: "stratify cut_program = Inr cut_strata"
  by code_simp

lemma win_run: "stratify win_program = Inl (StratificationCycle [''win'', ''lose''])"
  by code_simp

lemma cut_sccs: "find_sccs (build_dependency_graph cut_program)
    = Some [[''vertex''], [''step'', ''reach''], [''cut'']]"
  by code_simp

lemma win_sccs: "find_sccs (build_dependency_graph win_program) = Some [[''move''], [''win'', ''lose'']]"
  by code_simp

lemma win_run_analysis:
  "map_option (\<lambda>res. (sr_sccs res, non_monotone_sccs res, map (sr_strata res) [''move'', ''win'', ''lose'']))
     (analyze_stratification win_program)
   = Some ([[''move''], [''win'', ''lose'']], {1}, [Some 0, None, None])"
  by code_simp

lemma cut_depends: "depends cut_program ''cut'' ''reach'' DepNegative"
  by (simp add: depends_def cut_program_def plain_program_def unary_def literal_depends_def)

lemma win_depends: "depends win_program ''win'' ''lose'' DepNegative"
  by (simp add: depends_def win_program_def plain_program_def unary_def literal_depends_def)


text \<open>C24: Tarjan's algorithm returns, for every program: its components are disjoint and
  together hold exactly the predicates of the program (heads and predicates depended on).\<close>

theorem find_sccs_total:
  "\<exists>cs. find_sccs (build_dependency_graph prog) = Some cs \<and> distinct (concat cs)
     \<and> set (concat cs) = program_predicates prog"
  using find_sccs_ok [of prog] by (auto simp: graph_predicates)

text \<open>C15: the components found are the strongly connected components of the dependency relation:
  the component of \<open>x\<close> holds exactly the predicates that \<open>x\<close> depends on and that depend on \<open>x\<close>.\<close>

theorem find_sccs_exact:
  assumes "find_sccs (build_dependency_graph prog) = Some cs" and "c \<in> set cs" and "x \<in> set c"
  shows "set c = {y. depends_on prog x y \<and> depends_on prog y x}"
  by (rule scc_mutual [OF assms])

theorem find_sccs_exact_witness:
  "set [''step'', ''reach''] = {y. depends_on cut_program ''reach'' y \<and> depends_on cut_program y ''reach''}"
  by (rule find_sccs_exact [OF cut_sccs]) simp_all

text \<open>The components come dependencies first: whatever a predicate of the \<open>i\<close>-th component
  depends on is in that component or an earlier one.\<close>

theorem find_sccs_dependencies_first:
  assumes "find_sccs (build_dependency_graph prog) = Some cs" and "i < length cs"
    and "a \<in> set (cs ! i)" and "depends_on prog a b"
  shows "\<exists>j \<le> i. b \<in> set (cs ! j)"
  by (rule components_dependencies_first [OF assms])

theorem find_sccs_dependencies_first_witness:
  "\<exists>j \<le> 2. ''reach'' \<in> set ([[''vertex''], [''step'', ''reach''], [''cut'']] ! j)"
  by (rule find_sccs_dependencies_first [OF cut_sccs, where a = "''cut''"])
    (use cut_depends in \<open>auto simp: depends_on_def\<close>)

text \<open>C13: outside the probabilistic profile, stratification fails exactly when a negative or
  aggregate dependency lies on a cycle of the program.\<close>

theorem stratify_rejects_iff:
  assumes "\<not> is_probabilistic_profile prog"
  shows "(\<exists>e. stratify prog = Inl e) \<longleftrightarrow>
    (\<exists>a b k. depends prog a b k \<and> depends_on prog b a \<and> k \<noteq> DepPositive)"
proof -
  obtain cs where cs: "find_sccs (build_dependency_graph prog) = Some cs"
    using find_sccs_ok [of prog] by auto
  have "(\<exists>e. stratify prog = Inl e) \<longleftrightarrow>
      \<not> (\<forall>scc \<in> set cs. check_scc_for_negation_cycle scc (build_dependency_graph prog) = None)"
    using first_error_None [of "\<lambda>scc. map_option StratificationCycle
        (check_scc_for_negation_cycle scc (build_dependency_graph prog))" cs] assms
    by (simp add: stratify_Inl cs del: not_None_eq flip: not_None_eq)
  then show ?thesis unfolding negation_cycle_iff [OF cs] by blast
qed

theorem stratify_rejects_iff_witness:
  "\<not> (\<exists>a b k. depends cut_program a b k \<and> depends_on cut_program b a \<and> k \<noteq> DepPositive)"
  using stratify_rejects_iff [of cut_program] cut_run
  by (simp add: is_probabilistic_profile_def cut_program_def plain_program_def no_directives_def)

text \<open>A rejection is a real cycle through negation or aggregation: the only error is
  \<open>StratificationCycle\<close>, the reported predicates are one strongly connected component, and some
  negative or aggregate dependency joins two of them.\<close>

theorem stratify_error_is_cycle:
  assumes "stratify prog = Inl e"
  shows "\<exists>cycle a b k. e = StratificationCycle cycle \<and> a \<in> set cycle \<and> b \<in> set cycle
    \<and> depends prog a b k \<and> k \<noteq> DepPositive
    \<and> set cycle = {y. depends_on prog a y \<and> depends_on prog y a}"
proof -
  obtain cs where cs: "find_sccs (build_dependency_graph prog) = Some cs"
    and err: "first_error (\<lambda>scc. map_option StratificationCycle
          (check_scc_for_negation_cycle scc (build_dependency_graph prog))) cs = Some e"
    using assms by (auto simp: stratify_Inl)
  obtain c cycle where c: "c \<in> set cs" and e: "e = StratificationCycle cycle"
    and chk: "check_scc_for_negation_cycle c (build_dependency_graph prog) = Some cycle"
    using first_error_Some [OF err] by auto
  have [simp]: "cycle = c" using check_scc_Some [OF chk] .
  obtain a b k where "a \<in> set c" "b \<in> set c" "depends prog a b k" "k \<noteq> DepPositive"
    using monotone_component [OF cs c] chk by auto
  moreover have "set c = {y. depends_on prog a y \<and> depends_on prog y a}"
    by (rule scc_mutual [OF cs c]) fact
  ultimately show ?thesis using e by auto
qed

theorem stratify_error_is_cycle_witness:
  "\<exists>cycle a b k. StratificationCycle [''win'', ''lose''] = StratificationCycle cycle
    \<and> a \<in> set cycle \<and> b \<in> set cycle \<and> depends win_program a b k \<and> k \<noteq> DepPositive
    \<and> set cycle = {y. depends_on win_program a y \<and> depends_on win_program y a}"
  by (rule stratify_error_is_cycle [OF win_run])

text \<open>C14: the strata order every dependency: a predicate is never in an earlier stratum than one
  it depends on, and strictly later for a negative or aggregate dependency. Only in a probabilistic
  program may a dependency that closes a cycle stay within one stratum.\<close>

theorem stratify_orders_dependencies:
  assumes "stratify prog = Inr strata" and "depends prog a b k"
    and "in_stratum strata i a" and "in_stratum strata j b"
  shows "if k = DepPositive then j \<le> i
    else j < i \<or> (j = i \<and> is_probabilistic_profile prog \<and> depends_on prog b a)"
proof -
  obtain cs m mx where cs: "find_sccs (build_dependency_graph prog) = Some cs"
    and mono: "\<not> is_probabilistic_profile prog \<longrightarrow>
      (\<forall>scc \<in> set cs. check_scc_for_negation_cycle scc (build_dependency_graph prog) = None)"
    and dom: "dom m = set (concat cs)" and resp: "strata_respect (build_dependency_graph prog) m"
    and le: "\<forall>p s. m p = Some s \<longrightarrow> s \<le> mx" and st: "strata = collect_strata (concat cs) m mx"
    and dist: "distinct (concat cs)"
    using stratify_Inr [OF assms(1)] by metis
  note in_iff = in_stratum_collect [OF dist dom [symmetric] le]
  obtain s where s: "m a = Some s" "i = stratum_index (concat cs) m mx s"
    using assms(3) by (auto simp: st in_iff)
  obtain t where t: "m b = Some t" "j = stratum_index (concat cs) m mx t"
    using assms(4) by (auto simp: st in_iff)
  have b: "b \<in> set (concat cs)" and sm: "s \<le> mx" using dom t(1) le s(1) by blast+
  have less: "j < i" if "t < s"
    using stratum_index_less [of m b t "concat cs" s mx, OF t(1) b that sm] s(2) t(2) by simp
  have "if depends_on prog b a then t = s else if k = DepPositive then t \<le> s else t < s"
    by (rule strata_respect_depends [OF resp assms(2) s(1) t(1)])
  moreover have "is_probabilistic_profile prog" if "depends_on prog b a" "k \<noteq> DepPositive"
    using negation_cycle_none [OF cs _ assms(2) that(1)] mono that(2) by blast
  ultimately show ?thesis
    using less s(2) t(2) by (auto simp: le_less split: if_splits)
qed

theorem stratify_orders_dependencies_witness:
  "if DepNegative = DepPositive then 0 \<le> (1::nat)
    else 0 < (1::nat) \<or> ((0::nat) = 1 \<and> is_probabilistic_profile cut_program
      \<and> depends_on cut_program ''reach'' ''cut'')"
  by (rule stratify_orders_dependencies [OF cut_run cut_depends])
    (simp_all add: in_stratum_def cut_strata_def)

text \<open>The strata are numbered by position, none is empty, each is sorted, and together they
  hold every predicate of the program exactly once.\<close>

theorem stratify_partition:
  assumes "stratify prog = Inr strata"
  shows "map stratum_id strata = [0..<length strata]
    \<and> distinct (concat (map stratum_predicates strata))
    \<and> set (concat (map stratum_predicates strata)) = program_predicates prog
    \<and> list_all (\<lambda>s. stratum_predicates s \<noteq> [] \<and> sorted (stratum_predicates s)) strata"
proof -
  obtain cs m mx where dom: "dom m = set (concat cs)"
    and le: "\<forall>p s. m p = Some s \<longrightarrow> s \<le> mx" and st: "strata = collect_strata (concat cs) m mx"
    and dist: "distinct (concat cs)" and all: "set (concat cs) = program_predicates prog"
    using stratify_Inr [OF assms] by metis
  have levels: "\<exists>s \<in> set [0..<mx + 1]. m p = Some s" if p: "p \<in> set (concat cs)" for p
  proof -
    obtain s where "m p = Some s" using p unfolding dom [symmetric] by blast
    then show ?thesis using le by (intro bexI [of _ s]) (auto simp: less_Suc_eq_le simp del: upt_Suc)
  qed
  have "set (concat (map stratum_predicates strata)) = set (concat cs)"
    unfolding st collect_strata_lists concat_filter_nonempty
    using levels by (auto simp del: upt_Suc)
  moreover have "list_all (\<lambda>ps. ps \<noteq> [] \<and> sorted ps) (map stratum_predicates strata)"
    unfolding st collect_strata_lists by (auto simp: list_all_iff simp del: upt_Suc)
  then have "list_all (\<lambda>s. stratum_predicates s \<noteq> [] \<and> sorted (stratum_predicates s)) strata"
    by (simp add: list.pred_map comp_def)
  moreover have "distinct (concat (map stratum_predicates strata))"
    unfolding st collect_strata_lists concat_filter_nonempty by (rule distinct_levels [OF dist])
  moreover have "map stratum_id strata = [0..<length strata]"
    unfolding st by (rule collect_strata_ids)
  ultimately show ?thesis using all by simp
qed

theorem stratify_partition_witness:
  "map stratum_id cut_strata = [0..<length cut_strata]
    \<and> distinct (concat (map stratum_predicates cut_strata))
    \<and> set (concat (map stratum_predicates cut_strata)) = program_predicates cut_program
    \<and> list_all (\<lambda>s. stratum_predicates s \<noteq> [] \<and> sorted (stratum_predicates s)) cut_strata"
  by (rule stratify_partition [OF cut_run])


text \<open>the probabilistic analysis flags exactly the components with a negative or aggregate
  dependency inside.\<close>

theorem analyze_non_monotone_exact:
  assumes "analyze_stratification prog = Some res"
  shows "i \<in> non_monotone_sccs res \<longleftrightarrow>
    (\<exists>a b k. i < length (sr_sccs res) \<and> a \<in> set (sr_sccs res ! i) \<and> b \<in> set (sr_sccs res ! i)
       \<and> depends prog a b k \<and> k \<noteq> DepPositive)"
proof -
  obtain cs where cs: "find_sccs (build_dependency_graph prog) = Some cs" and res: "sr_sccs res = cs"
    and nm: "non_monotone_sccs res = {i. i < length cs
      \<and> check_scc_for_negation_cycle (cs ! i) (build_dependency_graph prog) \<noteq> None}"
    using analyze_Some [OF assms] by blast
  show ?thesis
  proof (cases "i < length cs")
    case True
    then show ?thesis
      using monotone_component [OF cs nth_mem [OF True]] unfolding nm res by blast
  qed (simp add: nm res)
qed

theorem analyze_non_monotone_exact_witness:
  "(\<exists>a b k. 1 < length [[''move''], [''win'', ''lose'']]
       \<and> a \<in> set ([[''move''], [''win'', ''lose'']] ! 1)
       \<and> b \<in> set ([[''move''], [''win'', ''lose'']] ! 1)
       \<and> depends win_program a b k \<and> k \<noteq> DepPositive)"
proof -
  obtain res where run: "analyze_stratification win_program = Some res"
    and res: "sr_sccs res = [[''move''], [''win'', ''lose'']]" "non_monotone_sccs res = {1}"
    using win_run_analysis by auto
  show ?thesis using analyze_non_monotone_exact [OF run, of 1] unfolding res by blast
qed

text \<open>The probabilistic analysis always answers, gives a stratum to exactly the predicates
  of the components it did not flag, and among them orders every dependency, strictly for negative
  and aggregate ones.\<close>

theorem analyze_stratification_total:
  "\<exists>res. analyze_stratification prog = Some res
     \<and> dom (sr_strata res)
       = {p. \<exists>i < length (sr_sccs res). i \<notin> non_monotone_sccs res \<and> p \<in> set (sr_sccs res ! i)}
     \<and> {(a, b). \<exists>k s t. depends prog a b k \<and> sr_strata res a = Some s \<and> sr_strata res b = Some t
          \<and> \<not> (if k = DepPositive then t \<le> s else t < s)} = {}"
proof -
  obtain cs m where cs: "find_sccs (build_dependency_graph prog) = Some cs"
    and run: "analyze_stratification prog = Some \<lparr>sr_sccs = cs,
      non_monotone_sccs = {i. i < length cs
        \<and> check_scc_for_negation_cycle (cs ! i) (build_dependency_graph prog) \<noteq> None},
      sr_strata = m\<rparr>"
    and dom: "dom m = set (concat (filter (\<lambda>scc.
        check_scc_for_negation_cycle scc (build_dependency_graph prog) = None) cs))"
    and resp: "strata_respect (build_dependency_graph prog) m"
    using analyze_run [of prog] by blast
  have "if k = DepPositive then t \<le> s else t < s"
    if "depends prog a b k" "m a = Some s" "m b = Some t" for a b k s t
  proof -
    have "k = DepPositive" if cyc: "depends_on prog b a"
    proof -
      obtain c where c: "c \<in> set cs" "a \<in> set c"
        "check_scc_for_negation_cycle c (build_dependency_graph prog) = None"
        using dom \<open>m a = Some s\<close> by (auto simp: dom_def)
      have "b \<in> set c" unfolding scc_mutual [OF cs c(1,2)]
        using cyc \<open>depends prog a b k\<close> by (auto simp: depends_on_def)
      then show ?thesis
        using monotone_component [OF cs c(1)] c(2,3) \<open>depends prog a b k\<close> by blast
    qed
    with strata_respect_depends [OF resp that] show ?thesis by (auto split: if_splits)
  qed
  then have "{(a, b). \<exists>k s t. depends prog a b k \<and> m a = Some s \<and> m b = Some t
      \<and> \<not> (if k = DepPositive then t \<le> s else t < s)} = {}" by blast
  moreover have "dom m = {p. \<exists>i < length cs. i \<notin> {i. i < length cs
      \<and> check_scc_for_negation_cycle (cs ! i) (build_dependency_graph prog) \<noteq> None}
      \<and> p \<in> set (cs ! i)}"
    unfolding dom by (auto simp: in_set_conv_nth) blast
  ultimately show ?thesis using run by simp
qed

end
