(* ===== verification/Pir.thy ===== *)
theory Pir
  imports Xlog_Prelude
begin

text \<open>
  The provenance graph of the probabilistic engine (\<open>xlog-prob/src/pir.rs\<close>): an arena of nodes
  named by 32-bit identifiers, its constructors, and \<open>levelize\<close>, which sorts the nodes reachable
  from some roots into levels. A constructor that would need an identifier above the 32-bit range
  panics, here \<open>None\<close>. The meaning of a node under an assignment of the leaves and of the choice
  variables is the least predicate \<open>holds\<close>, so it is also defined on graphs with cycles.
\<close>

type_synonym node_id = u32
type_synonym leaf_id = u32
type_synonym choice_var_id = u32

datatype pir_node =
    PConst bool
  | PLit leaf_id
  | PNegLit leaf_id
  | PAnd "node_id list"
  | POr "node_id list"
  | PDecision choice_var_id node_id node_id

record pir_graph =
  nodes :: "pir_node list"

definition empty_pir :: pir_graph where
  "empty_pir = \<lparr>nodes = []\<rparr>"

definition node :: "pir_graph \<Rightarrow> node_id \<Rightarrow> pir_node option" where
  "node g i = get (nodes g) (unat i)"

definition push_node :: "pir_node \<Rightarrow> pir_graph \<Rightarrow> (node_id \<times> pir_graph) option" where
  "push_node nd g =
     (if int (length (nodes g)) < 2 ^ 32
      then Some (of_nat (length (nodes g)), g\<lparr>nodes := nodes g @ [nd]\<rparr>) else None)"

definition pir_const_true :: "pir_graph \<Rightarrow> (node_id \<times> pir_graph) option" where
  "pir_const_true = push_node (PConst True)"

definition pir_const_false :: "pir_graph \<Rightarrow> (node_id \<times> pir_graph) option" where
  "pir_const_false = push_node (PConst False)"

definition pir_lit :: "leaf_id \<Rightarrow> pir_graph \<Rightarrow> (node_id \<times> pir_graph) option" where
  "pir_lit leaf = push_node (PLit leaf)"

definition pir_neg_lit :: "leaf_id \<Rightarrow> pir_graph \<Rightarrow> (node_id \<times> pir_graph) option" where
  "pir_neg_lit leaf = push_node (PNegLit leaf)"

definition pir_and :: "node_id list \<Rightarrow> pir_graph \<Rightarrow> (node_id \<times> pir_graph) option" where
  "pir_and cs = push_node (PAnd cs)"

definition pir_or :: "node_id list \<Rightarrow> pir_graph \<Rightarrow> (node_id \<times> pir_graph) option" where
  "pir_or cs = push_node (POr cs)"

definition pir_decision ::
    "choice_var_id \<Rightarrow> node_id \<Rightarrow> node_id \<Rightarrow> pir_graph \<Rightarrow> (node_id \<times> pir_graph) option" where
  "pir_decision v f t = push_node (PDecision v f t)"

section \<open>Levels\<close>

datatype level_error = LevelCycle node_id | LevelInvalidNode node_id | LevelFuel

text \<open>The identifiers in progress and the levels found, newest first.\<close>

type_synonym level_state = "node_id set \<times> (node_id \<times> nat) list"

fun max_child_level ::
    "(node_id \<Rightarrow> level_state \<Rightarrow> level_error + nat \<times> level_state) \<Rightarrow> node_id list \<Rightarrow> nat
     \<Rightarrow> level_state \<Rightarrow> level_error + nat \<times> level_state" where
  "max_child_level visit [] max_child st = Inr (max_child, st)"
| "max_child_level visit (c # cs) max_child st =
     bind_res (visit c st) (\<lambda>(lvl, st'). max_child_level visit cs (max max_child lvl) st')"

fun compute_level :: "pir_graph \<Rightarrow> nat \<Rightarrow> node_id \<Rightarrow> level_state \<Rightarrow> level_error + nat \<times> level_state"
  where
  "compute_level g 0 i st = Inl LevelFuel"
| "compute_level g (Suc fuel) i (visiting, levels) =
     (case map_of levels i of
        Some lvl \<Rightarrow> Inr (lvl, (visiting, levels))
      | None \<Rightarrow>
          if i \<in> visiting then Inl (LevelCycle i)
          else
            let visiting' = insert i visiting;
                finish = (\<lambda>(lvl, (vis, lvls)). Inr (lvl, (vis - {i}, (i, lvl) # lvls)))
            in case node g i of
                 None \<Rightarrow> Inl (LevelInvalidNode i)
               | Some nd \<Rightarrow>
                   (case nd of
                      PConst _ \<Rightarrow> finish (0, (visiting', levels))
                    | PLit _ \<Rightarrow> finish (0, (visiting', levels))
                    | PNegLit _ \<Rightarrow> finish (0, (visiting', levels))
                    | PAnd cs \<Rightarrow>
                        bind_res (max_child_level (compute_level g fuel) cs 0 (visiting', levels))
                          (\<lambda>(mx, st). finish (mx + 1, st))
                    | POr cs \<Rightarrow>
                        bind_res (max_child_level (compute_level g fuel) cs 0 (visiting', levels))
                          (\<lambda>(mx, st). finish (mx + 1, st))
                    | PDecision _ f t \<Rightarrow>
                        bind_res (compute_level g fuel f (visiting', levels)) (\<lambda>(lf, st).
                          bind_res (compute_level g fuel t st) (\<lambda>(lt, st').
                            finish (max lf lt + 1, st')))))"

definition levelize :: "pir_graph \<Rightarrow> node_id list \<Rightarrow> level_error + node_id list list" where
  "levelize g roots =
     map_res (\<lambda>(visiting, levels).
         let max_level = fold max (map snd levels) 0;
             ids = sort (map fst levels)
         in map (\<lambda>l. filter (\<lambda>i. map_of levels i = Some l) ids) [0..<max_level + 1])
       (fold_res (\<lambda>root st. map_res snd (compute_level g (length (nodes g) + 1) root st))
         roots ({}, []))"

section \<open>The meaning of a graph\<close>

definition node_children :: "pir_node \<Rightarrow> node_id list" where
  "node_children nd =
     (case nd of PAnd cs \<Rightarrow> cs | POr cs \<Rightarrow> cs | PDecision _ f t \<Rightarrow> [f, t] | _ \<Rightarrow> [])"

inductive holds ::
    "pir_graph \<Rightarrow> (leaf_id \<Rightarrow> bool) \<Rightarrow> (choice_var_id \<Rightarrow> bool) \<Rightarrow> node_id \<Rightarrow> bool"
  for g \<nu> \<chi> where
  holds_const: "node g i = Some (PConst True) \<Longrightarrow> holds g \<nu> \<chi> i"
| holds_lit: "node g i = Some (PLit l) \<Longrightarrow> \<nu> l \<Longrightarrow> holds g \<nu> \<chi> i"
| holds_neg: "node g i = Some (PNegLit l) \<Longrightarrow> \<not> \<nu> l \<Longrightarrow> holds g \<nu> \<chi> i"
| holds_and: "node g i = Some (PAnd cs) \<Longrightarrow> \<forall>c \<in> set cs. holds g \<nu> \<chi> c \<Longrightarrow> holds g \<nu> \<chi> i"
| holds_or: "node g i = Some (POr cs) \<Longrightarrow> c \<in> set cs \<Longrightarrow> holds g \<nu> \<chi> c \<Longrightarrow> holds g \<nu> \<chi> i"
| holds_decision:
    "node g i = Some (PDecision v f t) \<Longrightarrow> holds g \<nu> \<chi> (if \<chi> v then t else f) \<Longrightarrow> holds g \<nu> \<chi> i"

inductive_cases holdsE: "holds g \<nu> \<chi> i"

lemma holds_leaf_simps:
  "node g i = Some (PConst b) \<Longrightarrow> holds g \<nu> \<chi> i = b"
  "node g i = Some (PLit l) \<Longrightarrow> holds g \<nu> \<chi> i = \<nu> l"
  "node g i = Some (PNegLit l) \<Longrightarrow> holds g \<nu> \<chi> i = (\<not> \<nu> l)"
  "node g i = None \<Longrightarrow> \<not> holds g \<nu> \<chi> i"
  by (auto elim: holdsE intro: holds.intros)

lemma holds_and_simp:
  "node g i = Some (PAnd cs) \<Longrightarrow> holds g \<nu> \<chi> i = (\<forall>c \<in> set cs. holds g \<nu> \<chi> c)"
  by (rule iffI, erule holdsE) (auto intro: holds_and)

lemma holds_or_simp:
  "node g i = Some (POr cs) \<Longrightarrow> holds g \<nu> \<chi> i = (\<exists>c \<in> set cs. holds g \<nu> \<chi> c)"
  by (rule iffI, erule holdsE) (auto intro: holds_or)

lemma holds_decision_simp:
  "node g i = Some (PDecision v f t) \<Longrightarrow> holds g \<nu> \<chi> i = holds g \<nu> \<chi> (if \<chi> v then t else f)"
  by (rule iffI, erule holdsE) (auto intro: holds_decision)

lemmas holds_simps = holds_leaf_simps holds_and_simp holds_or_simp holds_decision_simp

lemma node_Some_iff: "node g i = Some nd \<longleftrightarrow> unat i < length (nodes g) \<and> nodes g ! unat i = nd"
  by (simp add: node_def get_Some_iff)

text \<open>Graphs built bottom up: every child is an earlier node.\<close>

definition well_ordered :: "pir_graph \<Rightarrow> bool" where
  "well_ordered g =
     (\<forall>i < length (nodes g). \<forall>c \<in> set (node_children (nodes g ! i)). unat c < i)"

text \<open>\<open>grows g g'\<close>: \<open>g'\<close> only has further nodes.\<close>

definition grows :: "pir_graph \<Rightarrow> pir_graph \<Rightarrow> bool" where
  "grows g g' = (\<exists>ns. nodes g' = nodes g @ ns)"

lemma grows_refl [simp]: "grows g g"
  by (simp add: grows_def)

lemma grows_trans: "grows g g' \<Longrightarrow> grows g' g'' \<Longrightarrow> grows g g''"
  by (auto simp: grows_def)

lemma grows_length: "grows g g' \<Longrightarrow> length (nodes g) \<le> length (nodes g')"
  by (auto simp: grows_def)

lemma grows_node: "grows g g' \<Longrightarrow> unat i < length (nodes g) \<Longrightarrow> node g' i = node g i"
  by (auto simp: grows_def node_def get_def nth_append)

lemma holds_grows:
  assumes "well_ordered g" and "grows g g'" and "unat i < length (nodes g)"
  shows "holds g' \<nu> \<chi> i = holds g \<nu> \<chi> i"
  using assms(3)
proof (induction "unat i" arbitrary: i rule: less_induct)
  case less
  have same: "node g' i = node g i" using grows_node [OF assms(2) less.prems] .
  obtain nd where nd: "node g i = Some nd" using less.prems by (simp add: node_def get_def)
  have child: "holds g' \<nu> \<chi> c = holds g \<nu> \<chi> c" if "c \<in> set (node_children nd)" for c
  proof -
    have "unat c < unat i"
      using assms(1) less.prems nd that by (auto simp: well_ordered_def node_Some_iff)
    then show ?thesis using less by simp
  qed
  show ?case
    using nd same child by (cases nd) (auto simp: holds_simps node_children_def)
qed

lemma push_node_nat:
  "push_node nd g =
     (if length (nodes g) < 2 ^ 32
      then Some (of_nat (length (nodes g)), g\<lparr>nodes := nodes g @ [nd]\<rparr>) else None)"
proof -
  have "int (length (nodes g)) < 2 ^ 32 \<longleftrightarrow> length (nodes g) < 2 ^ 32"
    by (metis of_nat_less_iff of_nat_numeral of_nat_power)
  then show ?thesis by (simp only: push_node_def)
qed

lemma push_node_Some:
  assumes "push_node nd g = Some (i, g')"
  shows "grows g g'" and "unat i = length (nodes g)" and "node g' i = Some nd"
    and "length (nodes g') = Suc (length (nodes g))"
proof -
  have i: "i = of_nat (length (nodes g))" and g': "g' = g\<lparr>nodes := nodes g @ [nd]\<rparr>"
    and lt: "length (nodes g) < 2 ^ 32"
    using assms by (auto simp: push_node_nat split: if_splits)
  show u: "unat i = length (nodes g)" using lt by (simp add: i unat_of_nat)
  show "grows g g'" by (simp add: g' grows_def)
  show "node g' i = Some nd" by (simp add: node_Some_iff u) (simp add: g')
  show "length (nodes g') = Suc (length (nodes g))" by (simp add: g')
qed

lemma push_node_well_ordered:
  assumes "well_ordered g" and "push_node nd g = Some (i, g')"
    and "\<forall>c \<in> set (node_children nd). unat c < length (nodes g)"
  shows "well_ordered g'"
proof -
  have g': "nodes g' = nodes g @ [nd]" using assms(2) by (auto simp: push_node_nat split: if_splits)
  show ?thesis
    using assms(1,3) by (auto simp: well_ordered_def g' nth_append less_Suc_eq)
qed

end
