(* ===== verification/Pir_Builder.thy ===== *)
theory Pir_Builder
  imports Pir
begin

text \<open>
  The hash-consing builder of provenance formulas (\<open>PirBuilder\<close> in \<open>xlog-prob/src/provenance.rs\<close>):
  conjunctions and disjunctions are flattened, stripped of constants, sorted, freed of duplicates,
  shortened by absorption and interned. The locale \<open>formula_arena\<close> is the contract that the clients
  of a formula store rely on; the builder and the plain graph of \<open>Pir\<close> both interpret it, and the
  relation of formulas per tuple (\<open>Relation::insert_or\<close>) is verified over it.
\<close>

section \<open>The builder\<close>

text \<open>\<open>PirKey\<close> has the constructors of \<open>PirNode\<close>, so one type serves for both.\<close>

record pir_builder =
  pir :: pir_graph
  intern :: "pir_node \<rightharpoonup> node_id"
  bconst_true :: node_id
  bconst_false :: node_id
  or_children :: "node_id \<rightharpoonup> node_id list"
  and_children :: "node_id \<rightharpoonup> node_id list"

definition new_builder :: "pir_builder option" where
  "new_builder =
     (case pir_const_true empty_pir of
        None \<Rightarrow> None
      | Some (t, g) \<Rightarrow>
          (case pir_const_false g of
             None \<Rightarrow> None
           | Some (f, g') \<Rightarrow>
               Some \<lparr>pir = g', intern = [PConst True \<mapsto> t, PConst False \<mapsto> f],
                 bconst_true = t, bconst_false = f,
                 or_children = Map.empty, and_children = Map.empty\<rparr>))"

definition intern_node ::
    "pir_node \<Rightarrow> (pir_graph \<Rightarrow> (node_id \<times> pir_graph) option) \<Rightarrow> pir_builder
     \<Rightarrow> (node_id \<times> pir_builder) option" where
  "intern_node key mk b =
     (case intern b key of
        Some i \<Rightarrow> Some (i, b)
      | None \<Rightarrow> map_option (\<lambda>(i, g). (i, b\<lparr>pir := g, intern := (intern b)(key \<mapsto> i)\<rparr>)) (mk (pir b)))"

definition build_lit :: "leaf_id \<Rightarrow> pir_builder \<Rightarrow> (node_id \<times> pir_builder) option" where
  "build_lit leaf = intern_node (PLit leaf) (pir_lit leaf)"

definition build_neg_lit :: "leaf_id \<Rightarrow> pir_builder \<Rightarrow> (node_id \<times> pir_builder) option" where
  "build_neg_lit leaf = intern_node (PNegLit leaf) (pir_neg_lit leaf)"

definition flatten :: "(node_id \<rightharpoonup> node_id list) \<Rightarrow> node_id list \<Rightarrow> node_id list" where
  "flatten subs cs = concat (map (\<lambda>c. case subs c of Some sub \<Rightarrow> sub | None \<Rightarrow> [c]) cs)"

text \<open>\<open>binary_search\<close> on the sorted members is membership.\<close>

definition absorb :: "(node_id \<rightharpoonup> node_id list) \<Rightarrow> node_id list \<Rightarrow> node_id list" where
  "absorb subs members =
     filter (\<lambda>c. case subs c of
               Some sub \<Rightarrow> \<not> list_ex (\<lambda>s. s \<noteq> c \<and> s \<in> set members) sub
             | None \<Rightarrow> True) members"

definition build_and :: "node_id list \<Rightarrow> pir_builder \<Rightarrow> (node_id \<times> pir_builder) option" where
  "build_and children b =
     (let cs = filter (\<lambda>c. c \<noteq> bconst_true b) (flatten (and_children b) children)
      in if bconst_false b \<in> set cs then Some (bconst_false b, b)
         else case cs of
           [] \<Rightarrow> Some (bconst_true b, b)
         | [c] \<Rightarrow> Some (c, b)
         | _ \<Rightarrow>
             let members = sort_dedup cs;
                 kept = (if 1 < length members then absorb (or_children b) members else members)
             in case kept of
                  [c] \<Rightarrow> Some (c, b)
                | _ \<Rightarrow>
                    (case intern b (PAnd kept) of
                       Some i \<Rightarrow> Some (i, b)
                     | None \<Rightarrow>
                         map_option (\<lambda>(i, g). (i, b\<lparr>pir := g,
                             intern := (intern b)(PAnd kept \<mapsto> i),
                             and_children := (and_children b)(i \<mapsto> kept)\<rparr>))
                           (pir_and kept (pir b))))"

definition build_or :: "node_id list \<Rightarrow> pir_builder \<Rightarrow> (node_id \<times> pir_builder) option" where
  "build_or children b =
     (let cs = filter (\<lambda>c. c \<noteq> bconst_false b) (flatten (or_children b) children)
      in if bconst_true b \<in> set cs then Some (bconst_true b, b)
         else case cs of
           [] \<Rightarrow> Some (bconst_false b, b)
         | [c] \<Rightarrow> Some (c, b)
         | _ \<Rightarrow>
             let members = sort_dedup cs;
                 kept = (if 1 < length members then absorb (and_children b) members else members)
             in case kept of
                  [c] \<Rightarrow> Some (c, b)
                | _ \<Rightarrow>
                    (case intern b (POr kept) of
                       Some i \<Rightarrow> Some (i, b)
                     | None \<Rightarrow>
                         map_option (\<lambda>(i, g). (i, b\<lparr>pir := g,
                             intern := (intern b)(POr kept \<mapsto> i),
                             or_children := (or_children b)(i \<mapsto> kept)\<rparr>))
                           (pir_or kept (pir b))))"

definition build_decision ::
    "choice_var_id \<Rightarrow> node_id \<Rightarrow> node_id \<Rightarrow> pir_builder \<Rightarrow> (node_id \<times> pir_builder) option" where
  "build_decision v f t b =
     (if f = t then Some (t, b) else intern_node (PDecision v f t) (pir_decision v f t) b)"

definition choice_lit :: "choice_var_id \<Rightarrow> bool \<Rightarrow> pir_builder \<Rightarrow> (node_id \<times> pir_builder) option"
  where
  "choice_lit v is_true b =
     (if is_true then build_decision v (bconst_false b) (bconst_true b) b
      else build_decision v (bconst_true b) (bconst_false b) b)"

section \<open>The invariant\<close>

definition builder_ok :: "pir_builder \<Rightarrow> bool" where
  "builder_ok b =
     (well_ordered (pir b) \<and> length (nodes (pir b)) \<le> 2 ^ 32
      \<and> node (pir b) (bconst_true b) = Some (PConst True)
      \<and> node (pir b) (bconst_false b) = Some (PConst False)
      \<and> (\<forall>nd i. intern b nd = Some i \<longleftrightarrow> node (pir b) i = Some nd)
      \<and> (\<forall>i cs. and_children b i = Some cs \<longleftrightarrow> node (pir b) i = Some (PAnd cs))
      \<and> (\<forall>i cs. or_children b i = Some cs \<longleftrightarrow> node (pir b) i = Some (POr cs)))"

definition in_graph :: "pir_builder \<Rightarrow> node_id \<Rightarrow> bool" where
  "in_graph b i = (unat i < length (nodes (pir b)))"

lemma in_graph_iff: "in_graph b i \<longleftrightarrow> node (pir b) i \<noteq> None"
  by (auto simp: in_graph_def node_def get_def)

lemma push_node_nodes: "push_node nd g = Some (i, g') \<Longrightarrow> nodes g' = nodes g @ [nd]"
  by (auto simp: push_node_nat split: if_splits)

lemma node_after_push:
  assumes "push_node nd g = Some (i, g')"
  shows "node g' j = (if j = i then Some nd else node g j)"
proof -
  have u: "unat i = length (nodes g)" by (rule push_node_Some(2) [OF assms])
  have "unat j = length (nodes g) \<longleftrightarrow> j = i" by (metis u word_unat_eq_iff)
  then show ?thesis
    by (auto simp: node_def get_def push_node_nodes [OF assms] nth_append)
qed

lemma node_fresh: "push_node nd g = Some (i, g') \<Longrightarrow> node g i = None"
  by (simp add: push_node_Some(2) node_def get_def)

text \<open>A push of a node whose key is new keeps the invariant, once its children are registered.\<close>

lemma builder_ok_push:
  assumes ok: "builder_ok b" and new: "intern b nd = None" and push: "push_node nd (pir b) = Some (i, g)"
    and cs: "\<forall>c \<in> set (node_children nd). in_graph b c"
    and b': "pir b' = g" "intern b' = (intern b)(nd \<mapsto> i)" "bconst_true b' = bconst_true b"
      "bconst_false b' = bconst_false b"
      "and_children b' = (case nd of PAnd cs \<Rightarrow> (and_children b)(i \<mapsto> cs) | _ \<Rightarrow> and_children b)"
      "or_children b' = (case nd of POr cs \<Rightarrow> (or_children b)(i \<mapsto> cs) | _ \<Rightarrow> or_children b)"
  shows "builder_ok b'"
proof -
  note node_g = node_after_push [OF push]
  have fresh: "node (pir b) i = None" by (rule node_fresh [OF push])
  have "well_ordered g"
    using push_node_well_ordered [OF _ push] ok cs by (auto simp: builder_ok_def in_graph_def)
  moreover have "node g (bconst_true b) = Some (PConst True)" "node g (bconst_false b) = Some (PConst False)"
    using ok fresh unfolding node_g builder_ok_def by auto
  moreover have "length (nodes g) \<le> 2 ^ 32"
    using push by (auto simp: push_node_nat split: if_splits)
  moreover have "intern b' nd' = Some j \<longleftrightarrow> node g j = Some nd'" for nd' j
  proof (cases "nd' = nd")
    case True
    have "intern b nd \<noteq> Some j" using new by simp
    then have "node (pir b) j \<noteq> Some nd" using ok unfolding builder_ok_def by blast
    then show ?thesis unfolding node_g b'(2) using True by auto
  next
    case False
    then show ?thesis using ok fresh unfolding node_g b'(2) builder_ok_def by auto
  qed
  moreover have "and_children b' j = Some ds \<longleftrightarrow> node g j = Some (PAnd ds)" for j ds
    using ok fresh unfolding node_g b'(5) builder_ok_def by (auto split: pir_node.splits)
  moreover have "or_children b' j = Some ds \<longleftrightarrow> node g j = Some (POr ds)" for j ds
    using ok fresh unfolding node_g b'(6) builder_ok_def by (auto split: pir_node.splits)
  ultimately show ?thesis unfolding builder_ok_def b' by blast
qed


text \<open>Interned nodes are all different: the graph shares every formula it has.\<close>

lemma builder_ok_distinct:
  assumes ok: "builder_ok b"
  shows "distinct (nodes (pir b))"
  unfolding distinct_conv_nth
proof (intro allI impI)
  fix i j assume ij: "i < length (nodes (pir b))" "j < length (nodes (pir b))" "i \<noteq> j"
  have len: "length (nodes (pir b)) \<le> 2 ^ 32" using ok by (simp add: builder_ok_def)
  have u: "unat (of_nat k :: node_id) = k" if "k < length (nodes (pir b))" for k
    using that len by (simp add: unat_of_nat)
  have n: "node (pir b) (of_nat k) = Some (nodes (pir b) ! k)" if "k < length (nodes (pir b))" for k
    using that by (simp add: node_Some_iff u)
  show "nodes (pir b) ! i \<noteq> nodes (pir b) ! j"
  proof
    assume "nodes (pir b) ! i = nodes (pir b) ! j"
    then have "(of_nat i :: node_id) = of_nat j"
      using n [OF ij(1)] n [OF ij(2)] ok unfolding builder_ok_def by (metis option.inject)
    then show False using u [OF ij(1)] u [OF ij(2)] ij(3) by simp
  qed
qed

section \<open>Meaning\<close>

definition bsem :: "pir_builder \<Rightarrow> (leaf_id \<Rightarrow> bool) \<Rightarrow> (choice_var_id \<Rightarrow> bool) \<Rightarrow> node_id \<Rightarrow> bool" where
  "bsem b = holds (pir b)"

definition bgrows :: "pir_builder \<Rightarrow> pir_builder \<Rightarrow> bool" where
  "bgrows b b' =
     (grows (pir b) (pir b') \<and> bconst_true b' = bconst_true b \<and> bconst_false b' = bconst_false b)"

lemma bgrows_refl [simp]: "bgrows b b"
  by (simp add: bgrows_def)

lemma bgrows_trans: "bgrows b b' \<Longrightarrow> bgrows b' b'' \<Longrightarrow> bgrows b b''"
  by (auto simp: bgrows_def intro: grows_trans)

lemma in_graph_grows: "bgrows b b' \<Longrightarrow> in_graph b i \<Longrightarrow> in_graph b' i"
  by (auto simp: bgrows_def in_graph_def dest: grows_length)

lemma bsem_grows: "builder_ok b \<Longrightarrow> bgrows b b' \<Longrightarrow> in_graph b i \<Longrightarrow> bsem b' \<nu> \<chi> i = bsem b \<nu> \<chi> i"
  by (simp add: bsem_def bgrows_def builder_ok_def in_graph_def holds_grows)

lemma bsem_consts:
  assumes "builder_ok b"
  shows "bsem b \<nu> \<chi> (bconst_true b)" and "\<not> bsem b \<nu> \<chi> (bconst_false b)"
    and "in_graph b (bconst_true b)" and "in_graph b (bconst_false b)"
proof -
  have t: "node (pir b) (bconst_true b) = Some (PConst True)"
    and f: "node (pir b) (bconst_false b) = Some (PConst False)"
    using assms by (simp_all add: builder_ok_def)
  show "bsem b \<nu> \<chi> (bconst_true b)" using holds_leaf_simps(1) [OF t] by (simp add: bsem_def)
  show "\<not> bsem b \<nu> \<chi> (bconst_false b)" using holds_leaf_simps(1) [OF f] by (simp add: bsem_def)
  show "in_graph b (bconst_true b)" "in_graph b (bconst_false b)" using t f by (simp_all add: in_graph_iff)
qed

lemma child_in_graph:
  assumes "builder_ok b" and "node (pir b) i = Some nd" and "c \<in> set (node_children nd)"
  shows "in_graph b c" and "unat c < unat i"
proof -
  have "unat i < length (nodes (pir b))" "nodes (pir b) ! unat i = nd"
    using assms(2) by (simp_all add: node_Some_iff)
  then show "unat c < unat i" using assms(1,3) by (auto simp: builder_ok_def well_ordered_def)
  then show "in_graph b c" using \<open>unat i < _\<close> by (simp add: in_graph_def)
qed

lemma and_children_sem:
  assumes "builder_ok b" and "and_children b c = Some sub"
  shows "bsem b \<nu> \<chi> c = (\<forall>s \<in> set sub. bsem b \<nu> \<chi> s)"
    and "\<forall>s \<in> set sub. in_graph b s \<and> unat s < unat c"
proof -
  have nd: "node (pir b) c = Some (PAnd sub)" using assms by (simp add: builder_ok_def)
  then show "bsem b \<nu> \<chi> c = (\<forall>s \<in> set sub. bsem b \<nu> \<chi> s)" by (simp add: bsem_def holds_simps)
  show "\<forall>s \<in> set sub. in_graph b s \<and> unat s < unat c"
    using child_in_graph [OF assms(1) nd] by (auto simp: node_children_def)
qed

lemma or_children_sem:
  assumes "builder_ok b" and "or_children b c = Some sub"
  shows "bsem b \<nu> \<chi> c = (\<exists>s \<in> set sub. bsem b \<nu> \<chi> s)"
    and "\<forall>s \<in> set sub. in_graph b s \<and> unat s < unat c"
proof -
  have nd: "node (pir b) c = Some (POr sub)" using assms by (simp add: builder_ok_def)
  then show "bsem b \<nu> \<chi> c = (\<exists>s \<in> set sub. bsem b \<nu> \<chi> s)" by (simp add: bsem_def holds_simps)
  show "\<forall>s \<in> set sub. in_graph b s \<and> unat s < unat c"
    using child_in_graph [OF assms(1) nd] by (auto simp: node_children_def)
qed

lemma set_flatten:
  "set (flatten subs cs) = (\<Union>c \<in> set cs. case subs c of Some sub \<Rightarrow> set sub | None \<Rightarrow> {c})"
  by (auto simp: flatten_def split: option.splits)

lemma flatten_in_graph:
  assumes "\<And>c sub. subs c = Some sub \<Longrightarrow> \<forall>s \<in> set sub. in_graph b s" and "\<forall>c \<in> set cs. in_graph b c"
  shows "\<forall>c \<in> set (flatten subs cs). in_graph b c"
  using assms by (fastforce simp: set_flatten split: option.splits)

lemma flatten_and_sem:
  assumes "builder_ok b"
  shows "(\<forall>c \<in> set (flatten (and_children b) cs). bsem b \<nu> \<chi> c) = (\<forall>c \<in> set cs. bsem b \<nu> \<chi> c)"
  using and_children_sem(1) [OF assms] by (fastforce simp: set_flatten split: option.splits)

lemma flatten_or_sem:
  assumes "builder_ok b"
  shows "(\<exists>c \<in> set (flatten (or_children b) cs). bsem b \<nu> \<chi> c) = (\<exists>c \<in> set cs. bsem b \<nu> \<chi> c)"
  using or_children_sem(1) [OF assms] by (fastforce simp: set_flatten split: option.splits)

text \<open>
  Absorption drops a member only for the sake of a member with a smaller identifier, so what it
  keeps decides the formula and is never empty.
\<close>

lemma absorb_reaches_kept:
  assumes lower: "\<And>c sub. subs c = Some sub \<Longrightarrow> \<forall>s \<in> set sub. unat (s :: node_id) < unat c"
    and step: "\<And>c sub s. subs c = Some sub \<Longrightarrow> s \<in> set sub \<Longrightarrow> P c \<Longrightarrow> P s"
    and c: "c \<in> set members" and P: "P c"
  shows "\<exists>k \<in> set (absorb subs members). P k"
  using c P
proof (induction "unat c" arbitrary: c rule: less_induct)
  case less
  show ?case
  proof (cases "c \<in> set (absorb subs members)")
    case False
    then obtain sub s where s: "subs c = Some sub" "s \<in> set sub" "s \<in> set members"
      using less.prems(1) by (auto simp: absorb_def list_ex_iff split: option.splits)
    then have "unat s < unat c" "P s" using lower step less.prems(2) by blast+
    then show ?thesis using less.hyps s(3) by blast
  qed (use less.prems in blast)
qed

lemma absorb_subset: "set (absorb subs members) \<subseteq> set members"
  by (auto simp: absorb_def)

lemma absorb_or_sem:
  assumes "builder_ok b"
  shows "(\<forall>c \<in> set (absorb (or_children b) ms). bsem b \<nu> \<chi> c) = (\<forall>c \<in> set ms. bsem b \<nu> \<chi> c)"
proof
  assume kept: "\<forall>c \<in> set (absorb (or_children b) ms). bsem b \<nu> \<chi> c"
  show "\<forall>c \<in> set ms. bsem b \<nu> \<chi> c"
  proof (rule ccontr)
    assume "\<not> (\<forall>c \<in> set ms. bsem b \<nu> \<chi> c)"
    then obtain c where "c \<in> set ms" "\<not> bsem b \<nu> \<chi> c" by blast
    then have "\<exists>k \<in> set (absorb (or_children b) ms). \<not> bsem b \<nu> \<chi> k"
      by (intro absorb_reaches_kept [where c = c])
        (use or_children_sem [OF assms] in auto)
    then show False using kept by blast
  qed
qed (use absorb_subset in blast)

lemma absorb_and_sem:
  assumes "builder_ok b"
  shows "(\<exists>c \<in> set (absorb (and_children b) ms). bsem b \<nu> \<chi> c) = (\<exists>c \<in> set ms. bsem b \<nu> \<chi> c)"
proof
  assume "\<exists>c \<in> set ms. bsem b \<nu> \<chi> c"
  then obtain c where "c \<in> set ms" "bsem b \<nu> \<chi> c" by blast
  then show "\<exists>c \<in> set (absorb (and_children b) ms). bsem b \<nu> \<chi> c"
    by (intro absorb_reaches_kept [where c = c])
      (use and_children_sem [OF assms] in auto)
qed (use absorb_subset in blast)

section \<open>The contract of a formula store\<close>

locale formula_arena =
  fixes ok :: "'s \<Rightarrow> bool" and extends_to :: "'s \<Rightarrow> 's \<Rightarrow> bool"
    and defined :: "'s \<Rightarrow> node_id \<Rightarrow> bool"
    and sem :: "'s \<Rightarrow> (leaf_id \<Rightarrow> bool) \<Rightarrow> (choice_var_id \<Rightarrow> bool) \<Rightarrow> node_id \<Rightarrow> bool"
    and falsum :: "'s \<Rightarrow> (node_id \<times> 's) option"
    and conj_node disj_node :: "node_id list \<Rightarrow> 's \<Rightarrow> (node_id \<times> 's) option"
  assumes extends_refl: "extends_to s s"
    and extends_trans: "extends_to s s' \<Longrightarrow> extends_to s' s'' \<Longrightarrow> extends_to s s''"
    and defined_extends: "extends_to s s' \<Longrightarrow> defined s i \<Longrightarrow> defined s' i"
    and sem_extends: "ok s \<Longrightarrow> extends_to s s' \<Longrightarrow> defined s i \<Longrightarrow> sem s' \<nu> \<chi> i = sem s \<nu> \<chi> i"
    and falsum_ok: "ok s \<Longrightarrow> falsum s = Some (i, s') \<Longrightarrow>
      ok s' \<and> extends_to s s' \<and> defined s' i \<and> (\<forall>\<nu> \<chi>. \<not> sem s' \<nu> \<chi> i)"
    and conj_ok: "ok s \<Longrightarrow> \<forall>c \<in> set cs. defined s c \<Longrightarrow> conj_node cs s = Some (i, s') \<Longrightarrow>
      ok s' \<and> extends_to s s' \<and> defined s' i
      \<and> (\<forall>\<nu> \<chi>. sem s' \<nu> \<chi> i = (\<forall>c \<in> set cs. sem s \<nu> \<chi> c))"
    and disj_ok: "ok s \<Longrightarrow> \<forall>c \<in> set cs. defined s c \<Longrightarrow> disj_node cs s = Some (i, s') \<Longrightarrow>
      ok s' \<and> extends_to s s' \<and> defined s' i
      \<and> (\<forall>\<nu> \<chi>. sem s' \<nu> \<chi> i = (\<exists>c \<in> set cs. sem s \<nu> \<chi> c))"
begin

text \<open>Adding a disjunct to an entry of a table of formulas, as \<open>or_insert_with(const_false)\<close> and
  \<open>or\<close> do together.\<close>

definition add_disjunct ::
    "('k \<rightharpoonup> node_id) \<Rightarrow> 'k \<Rightarrow> node_id \<Rightarrow> 's \<Rightarrow> (('k \<rightharpoonup> node_id) \<times> 's) option" where
  "add_disjunct table k f s =
     (case (case table k of Some old \<Rightarrow> Some (old, s) | None \<Rightarrow> falsum s) of
        None \<Rightarrow> None
      | Some (old, s') \<Rightarrow> map_option (\<lambda>(i, s''). (table(k \<mapsto> i), s'')) (disj_node [old, f] s'))"

definition table_defined :: "('k \<rightharpoonup> node_id) \<Rightarrow> 's \<Rightarrow> bool" where
  "table_defined table s = (\<forall>k i. table k = Some i \<longrightarrow> defined s i)"

definition table_sem ::
    "('k \<rightharpoonup> node_id) \<Rightarrow> 's \<Rightarrow> (leaf_id \<Rightarrow> bool) \<Rightarrow> (choice_var_id \<Rightarrow> bool) \<Rightarrow> 'k \<Rightarrow> bool" where
  "table_sem table s \<nu> \<chi> k = (case table k of None \<Rightarrow> False | Some i \<Rightarrow> sem s \<nu> \<chi> i)"

lemma table_sem_extends:
  "ok s \<Longrightarrow> extends_to s s' \<Longrightarrow> table_defined table s \<Longrightarrow> table_sem table s' \<nu> \<chi> k = table_sem table s \<nu> \<chi> k"
  by (auto simp: table_sem_def table_defined_def sem_extends split: option.split)

lemma table_defined_extends: "extends_to s s' \<Longrightarrow> table_defined table s \<Longrightarrow> table_defined table s'"
  by (auto simp: table_defined_def intro: defined_extends)

lemma add_disjunct_ok:
  assumes ok: "ok s" and tab: "table_defined table s" and f: "defined s f"
    and run: "add_disjunct table k f s = Some (table', s')"
  shows "ok s' \<and> extends_to s s' \<and> table_defined table' s' \<and> dom table' = insert k (dom table)
    \<and> (\<forall>\<nu> \<chi> k'. table_sem table' s' \<nu> \<chi> k'
          = (table_sem table s \<nu> \<chi> k' \<or> (k' = k \<and> sem s \<nu> \<chi> f)))"
proof -
  obtain old s1 where old: "(case table k of Some old \<Rightarrow> Some (old, s) | None \<Rightarrow> falsum s) = Some (old, s1)"
    and rest: "map_option (\<lambda>(i, s''). (table(k \<mapsto> i), s'')) (disj_node [old, f] s1) = Some (table', s')"
    using run by (auto simp: add_disjunct_def split: option.splits)
  have s1: "ok s1" "extends_to s s1" "defined s1 old"
    and old_sem: "\<forall>\<nu> \<chi>. sem s1 \<nu> \<chi> old = table_sem table s \<nu> \<chi> k"
    using old ok falsum_ok [OF ok] tab
    by (auto simp: table_sem_def table_defined_def extends_refl split: option.splits)
  obtain i where i: "disj_node [old, f] s1 = Some (i, s')" and table': "table' = table(k \<mapsto> i)"
    using rest by auto
  have f1: "defined s1 f" using defined_extends [OF s1(2) f] .
  have d: "ok s'" "extends_to s1 s'" "defined s' i"
    and i_sem: "\<forall>\<nu> \<chi>. sem s' \<nu> \<chi> i = (sem s1 \<nu> \<chi> old \<or> sem s1 \<nu> \<chi> f)"
    using disj_ok [OF s1(1) _ i] s1(3) f1 by auto
  have e: "extends_to s s'" using extends_trans [OF s1(2) d(2)] .
  have "table_sem table' s' \<nu> \<chi> k' = (table_sem table s \<nu> \<chi> k' \<or> (k' = k \<and> sem s \<nu> \<chi> f))" for \<nu> \<chi> k'
  proof (cases "k' = k")
    case True
    then show ?thesis
      using i_sem old_sem sem_extends [OF ok s1(2) f] by (simp add: table' table_sem_def)
  next
    case False
    then show ?thesis
      using table_sem_extends [OF ok e tab] by (simp add: table' table_sem_def)
  qed
  moreover have "table_defined table' s'"
    using table_defined_extends [OF e tab] d(3) by (auto simp: table' table_defined_def)
  ultimately show ?thesis using d(1) e by (auto simp: table')
qed

end

section \<open>The builder keeps the contract\<close>

definition is_junction :: "pir_node \<Rightarrow> bool" where
  "is_junction nd = (case nd of PAnd _ \<Rightarrow> True | POr _ \<Rightarrow> True | _ \<Rightarrow> False)"

definition op_ok :: "pir_builder \<Rightarrow> node_id \<times> pir_builder
    \<Rightarrow> ((leaf_id \<Rightarrow> bool) \<Rightarrow> (choice_var_id \<Rightarrow> bool) \<Rightarrow> bool) \<Rightarrow> bool" where
  "op_ok b res meaning =
     (builder_ok (snd res) \<and> bgrows b (snd res) \<and> in_graph (snd res) (fst res)
      \<and> (\<forall>\<nu> \<chi>. bsem (snd res) \<nu> \<chi> (fst res) = meaning \<nu> \<chi>))"

lemma op_ok_old:
  "builder_ok b \<Longrightarrow> in_graph b i \<Longrightarrow> (\<And>\<nu> \<chi>. bsem b \<nu> \<chi> i = meaning \<nu> \<chi>) \<Longrightarrow> op_ok b (i, b) meaning"
  by (simp add: op_ok_def)

lemma op_ok_interned:
  assumes "builder_ok b" and "intern b nd = Some i"
    and "\<And>\<nu> \<chi>. node (pir b) i = Some nd \<Longrightarrow> bsem b \<nu> \<chi> i = meaning \<nu> \<chi>"
  shows "op_ok b (i, b) meaning"
proof (rule op_ok_old [OF assms(1)])
  have nd: "node (pir b) i = Some nd" using assms(1,2) by (simp add: builder_ok_def)
  then show "in_graph b i" by (simp add: in_graph_iff)
  show "bsem b \<nu> \<chi> i = meaning \<nu> \<chi>" for \<nu> \<chi> by (rule assms(3) [OF nd])
qed

lemma op_ok_pushed:
  assumes "builder_ok b" and "intern b nd = None" and push: "push_node nd (pir b) = Some (i, g)"
    and "\<forall>c \<in> set (node_children nd). in_graph b c"
    and b': "pir b' = g" "intern b' = (intern b)(nd \<mapsto> i)" "bconst_true b' = bconst_true b"
      "bconst_false b' = bconst_false b"
      "and_children b' = (case nd of PAnd cs \<Rightarrow> (and_children b)(i \<mapsto> cs) | _ \<Rightarrow> and_children b)"
      "or_children b' = (case nd of POr cs \<Rightarrow> (or_children b)(i \<mapsto> cs) | _ \<Rightarrow> or_children b)"
    and meaning: "\<And>\<nu> \<chi>. bgrows b b' \<Longrightarrow> node (pir b') i = Some nd \<Longrightarrow> bsem b' \<nu> \<chi> i = meaning \<nu> \<chi>"
  shows "op_ok b (i, b') meaning"
proof -
  have ok: "builder_ok b'" by (rule builder_ok_push [OF assms(1-4) b'])
  have grows: "bgrows b b'" using push_node_Some(1) [OF push] by (simp add: bgrows_def b')
  have nd: "node (pir b') i = Some nd" using push_node_Some(3) [OF push] by (simp add: b')
  show ?thesis using ok grows nd meaning by (simp add: op_ok_def in_graph_iff)
qed

lemma intern_node_ok:
  assumes "builder_ok b" and "intern_node nd (push_node nd) b = Some res"
    and "\<forall>c \<in> set (node_children nd). in_graph b c"
    and "is_junction nd = False"
    and "\<And>b' i \<nu> \<chi>. bgrows b b' \<Longrightarrow> node (pir b') i = Some nd \<Longrightarrow> bsem b' \<nu> \<chi> i = meaning \<nu> \<chi>"
  shows "op_ok b res meaning"
proof (cases "intern b nd")
  case None
  then obtain i g where g: "push_node nd (pir b) = Some (i, g)"
    and res: "res = (i, b\<lparr>pir := g, intern := (intern b)(nd \<mapsto> i)\<rparr>)"
    using assms(2) by (auto simp: intern_node_def)
  show ?thesis unfolding res
    by (rule op_ok_pushed [OF assms(1) None g assms(3)])
      (use assms(4,5) in \<open>auto simp: is_junction_def split: pir_node.splits\<close>)
next
  case (Some i)
  then have "res = (i, b)" using assms(2) by (simp add: intern_node_def)
  then show ?thesis using op_ok_interned [OF assms(1) Some] assms(5) [OF bgrows_refl] by simp
qed

lemma build_lit_ok:
  "builder_ok b \<Longrightarrow> build_lit leaf b = Some res \<Longrightarrow> op_ok b res (\<lambda>\<nu> \<chi>. \<nu> leaf)"
  unfolding build_lit_def pir_lit_def
  by (erule intern_node_ok) (auto simp: node_children_def is_junction_def bsem_def holds_simps)

lemma build_neg_lit_ok:
  "builder_ok b \<Longrightarrow> build_neg_lit leaf b = Some res \<Longrightarrow> op_ok b res (\<lambda>\<nu> \<chi>. \<not> \<nu> leaf)"
  unfolding build_neg_lit_def pir_neg_lit_def
  by (erule intern_node_ok) (auto simp: node_children_def is_junction_def bsem_def holds_simps)

lemma build_decision_ok:
  assumes "builder_ok b" and "in_graph b f" and "in_graph b t" and "build_decision v f t b = Some res"
  shows "op_ok b res (\<lambda>\<nu> \<chi>. bsem b \<nu> \<chi> (if \<chi> v then t else f))"
proof (cases "f = t")
  case True
  then show ?thesis using assms by (auto simp: build_decision_def intro: op_ok_old)
next
  case False
  then have run: "intern_node (PDecision v f t) (push_node (PDecision v f t)) b = Some res"
    using assms(4) by (simp add: build_decision_def pir_decision_def)
  have same: "bsem b' \<nu> \<chi> (if \<chi> v then t else f) = bsem b \<nu> \<chi> (if \<chi> v then t else f)"
    if "bgrows b b'" for b' \<nu> \<chi>
    using bsem_grows [OF assms(1) that] assms(2,3) by simp
  show ?thesis
  proof (rule intern_node_ok [OF assms(1) run])
    fix b' i \<nu> \<chi>
    assume g: "bgrows b b'" and nd: "node (pir b') i = Some (PDecision v f t)"
    show "bsem b' \<nu> \<chi> i = bsem b \<nu> \<chi> (if \<chi> v then t else f)"
      unfolding same [OF g, symmetric] unfolding bsem_def by (rule holds_decision_simp [OF nd])
  qed (use assms(2,3) in \<open>auto simp: node_children_def is_junction_def\<close>)
qed

text \<open>The last step of both junctions: a single member, an interned node or a new one.\<close>

lemma and_step_ok:
  assumes ok: "builder_ok b" and cs: "\<forall>c \<in> set kept. in_graph b c"
    and run: "(case kept of [c] \<Rightarrow> Some (c, b)
          | _ \<Rightarrow> (case intern b (PAnd kept) of
                Some i \<Rightarrow> Some (i, b)
              | None \<Rightarrow> map_option (\<lambda>(i, g). (i, b\<lparr>pir := g, intern := (intern b)(PAnd kept \<mapsto> i),
                  and_children := (and_children b)(i \<mapsto> kept)\<rparr>)) (pir_and kept (pir b)))) = Some res"
  shows "op_ok b res (\<lambda>\<nu> \<chi>. \<forall>c \<in> set kept. bsem b \<nu> \<chi> c)"
proof (cases "\<exists>c. kept = [c]")
  case True
  then show ?thesis using run cs by (auto intro: op_ok_old [OF ok])
next
  case False
  then have run': "(case intern b (PAnd kept) of
        Some i \<Rightarrow> Some (i, b)
      | None \<Rightarrow> map_option (\<lambda>(i, g). (i, b\<lparr>pir := g, intern := (intern b)(PAnd kept \<mapsto> i),
          and_children := (and_children b)(i \<mapsto> kept)\<rparr>)) (pir_and kept (pir b))) = Some res"
    using run by (cases kept; cases "tl kept") auto
  have same: "(\<forall>c \<in> set kept. bsem b' \<nu> \<chi> c) = (\<forall>c \<in> set kept. bsem b \<nu> \<chi> c)"
    if "bgrows b b'" for b' \<nu> \<chi>
    using bsem_grows [OF ok that] cs by simp
  show ?thesis
  proof (cases "intern b (PAnd kept)")
    case None
    then obtain i g where g: "push_node (PAnd kept) (pir b) = Some (i, g)"
      and res: "res = (i, b\<lparr>pir := g, intern := (intern b)(PAnd kept \<mapsto> i),
          and_children := (and_children b)(i \<mapsto> kept)\<rparr>)"
      using run' by (auto simp: pir_and_def)
    show ?thesis unfolding res
    proof (rule op_ok_pushed [OF ok None g])
      fix \<nu> \<chi>
      let ?b = "b\<lparr>pir := g, intern := (intern b)(PAnd kept \<mapsto> i),
          and_children := (and_children b)(i \<mapsto> kept)\<rparr>"
      assume g: "bgrows b ?b" and nd: "node (pir ?b) i = Some (PAnd kept)"
      show "bsem ?b \<nu> \<chi> i = (\<forall>c \<in> set kept. bsem b \<nu> \<chi> c)"
        unfolding same [OF g, symmetric] using holds_and_simp [OF nd] by (simp add: bsem_def)
    qed (use cs in \<open>auto simp: node_children_def\<close>)
  next
    case (Some i)
    then have "res = (i, b)" using run' by simp
    then show ?thesis
      using op_ok_interned [OF ok Some] by (simp add: bsem_def holds_simps)
  qed
qed

lemma list_cases3: "xs = [] \<or> (\<exists>c. xs = [c]) \<or> (\<exists>c d ds. xs = c # d # ds)"
  by (cases xs; cases "tl xs") auto

lemma build_and_ok:
  assumes ok: "builder_ok b" and children: "\<forall>c \<in> set children. in_graph b c"
    and run: "build_and children b = Some res"
  shows "op_ok b res (\<lambda>\<nu> \<chi>. \<forall>c \<in> set children. bsem b \<nu> \<chi> c)"
proof -
  define cs where "cs = filter (\<lambda>c. c \<noteq> bconst_true b) (flatten (and_children b) children)"
  define kept where "kept =
    (if 1 < length (sort_dedup cs) then absorb (or_children b) (sort_dedup cs) else sort_dedup cs)"
  have flat: "\<forall>c \<in> set (flatten (and_children b) children). in_graph b c"
    by (rule flatten_in_graph) (use and_children_sem(2) [OF ok] children in auto)
  have cs_in: "\<forall>c \<in> set cs. in_graph b c" using flat by (simp add: cs_def)
  have sem: "(\<forall>c \<in> set cs. bsem b \<nu> \<chi> c) = (\<forall>c \<in> set children. bsem b \<nu> \<chi> c)" for \<nu> \<chi>
    using flatten_and_sem [OF ok, of children \<nu> \<chi>] bsem_consts(1) [OF ok, of \<nu> \<chi>]
    by (auto simp: cs_def)
  have kept_sem: "(\<forall>c \<in> set kept. bsem b \<nu> \<chi> c) = (\<forall>c \<in> set children. bsem b \<nu> \<chi> c)" for \<nu> \<chi>
    using absorb_or_sem [OF ok, of "sort_dedup cs" \<nu> \<chi>] sem [of \<nu> \<chi>] by (simp add: kept_def)
  have kept_in: "\<forall>c \<in> set kept. in_graph b c"
    using absorb_subset [of "or_children b" "sort_dedup cs"] cs_in by (auto simp: kept_def)
  note run' = run [unfolded build_and_def Let_def, folded cs_def, folded kept_def]
  show ?thesis
  proof (cases "bconst_false b \<in> set cs")
    case True
    then have res: "res = (bconst_false b, b)" using run' by simp
    show ?thesis unfolding res
    proof (rule op_ok_old [OF ok bsem_consts(4) [OF ok]])
      show "bsem b \<nu> \<chi> (bconst_false b) = (\<forall>c \<in> set children. bsem b \<nu> \<chi> c)" for \<nu> \<chi>
        using bsem_consts(2) [OF ok, of \<nu> \<chi>] sem [of \<nu> \<chi>] True by auto
    qed
  next
    case False
    consider "cs = []" | c where "cs = [c]" | c d ds where "cs = c # d # ds"
      using list_cases3 [of cs] by blast
    then show ?thesis
    proof cases
      case 1
      then have res: "res = (bconst_true b, b)" using run' by simp
      show ?thesis unfolding res
        by (rule op_ok_old [OF ok bsem_consts(3) [OF ok]])
          (use bsem_consts(1) [OF ok] sem 1 in simp)
    next
      case 2
      then have res: "res = (c, b)" using run' False by simp
      show ?thesis unfolding res
        by (rule op_ok_old [OF ok]) (use sem 2 cs_in in simp_all)
    next
      case 3
      have "(case kept of [c] \<Rightarrow> Some (c, b)
          | _ \<Rightarrow> (case intern b (PAnd kept) of
                Some i \<Rightarrow> Some (i, b)
              | None \<Rightarrow> map_option (\<lambda>(i, g). (i, b\<lparr>pir := g, intern := (intern b)(PAnd kept \<mapsto> i),
                  and_children := (and_children b)(i \<mapsto> kept)\<rparr>)) (pir_and kept (pir b)))) = Some res"
        using run' False by (simp only: if_False 3 list.case)
      from and_step_ok [OF ok kept_in this] show ?thesis using kept_sem by simp
    qed
  qed
qed

lemma or_step_ok:
  assumes ok: "builder_ok b" and cs: "\<forall>c \<in> set kept. in_graph b c"
    and run: "(case kept of [c] \<Rightarrow> Some (c, b)
          | _ \<Rightarrow> (case intern b (POr kept) of
                Some i \<Rightarrow> Some (i, b)
              | None \<Rightarrow> map_option (\<lambda>(i, g). (i, b\<lparr>pir := g, intern := (intern b)(POr kept \<mapsto> i),
                  or_children := (or_children b)(i \<mapsto> kept)\<rparr>)) (pir_or kept (pir b)))) = Some res"
  shows "op_ok b res (\<lambda>\<nu> \<chi>. \<exists>c \<in> set kept. bsem b \<nu> \<chi> c)"
proof (cases "\<exists>c. kept = [c]")
  case True
  then show ?thesis using run cs by (auto intro: op_ok_old [OF ok])
next
  case False
  then have run': "(case intern b (POr kept) of
        Some i \<Rightarrow> Some (i, b)
      | None \<Rightarrow> map_option (\<lambda>(i, g). (i, b\<lparr>pir := g, intern := (intern b)(POr kept \<mapsto> i),
          or_children := (or_children b)(i \<mapsto> kept)\<rparr>)) (pir_or kept (pir b))) = Some res"
    using run by (cases kept; cases "tl kept") auto
  have same: "(\<exists>c \<in> set kept. bsem b' \<nu> \<chi> c) = (\<exists>c \<in> set kept. bsem b \<nu> \<chi> c)"
    if "bgrows b b'" for b' \<nu> \<chi>
    using bsem_grows [OF ok that] cs by simp
  show ?thesis
  proof (cases "intern b (POr kept)")
    case None
    then obtain i g where g: "push_node (POr kept) (pir b) = Some (i, g)"
      and res: "res = (i, b\<lparr>pir := g, intern := (intern b)(POr kept \<mapsto> i),
          or_children := (or_children b)(i \<mapsto> kept)\<rparr>)"
      using run' by (auto simp: pir_or_def)
    show ?thesis unfolding res
    proof (rule op_ok_pushed [OF ok None g])
      fix \<nu> \<chi>
      let ?b = "b\<lparr>pir := g, intern := (intern b)(POr kept \<mapsto> i),
          or_children := (or_children b)(i \<mapsto> kept)\<rparr>"
      assume g: "bgrows b ?b" and nd: "node (pir ?b) i = Some (POr kept)"
      show "bsem ?b \<nu> \<chi> i = (\<exists>c \<in> set kept. bsem b \<nu> \<chi> c)"
        unfolding same [OF g, symmetric] using holds_or_simp [OF nd] by (simp add: bsem_def)
    qed (use cs in \<open>auto simp: node_children_def\<close>)
  next
    case (Some i)
    then have "res = (i, b)" using run' by simp
    then show ?thesis
      using op_ok_interned [OF ok Some] by (simp add: bsem_def holds_simps)
  qed
qed

lemma build_or_ok:
  assumes ok: "builder_ok b" and children: "\<forall>c \<in> set children. in_graph b c"
    and run: "build_or children b = Some res"
  shows "op_ok b res (\<lambda>\<nu> \<chi>. \<exists>c \<in> set children. bsem b \<nu> \<chi> c)"
proof -
  define cs where "cs = filter (\<lambda>c. c \<noteq> bconst_false b) (flatten (or_children b) children)"
  define kept where "kept =
    (if 1 < length (sort_dedup cs) then absorb (and_children b) (sort_dedup cs) else sort_dedup cs)"
  have flat: "\<forall>c \<in> set (flatten (or_children b) children). in_graph b c"
    by (rule flatten_in_graph) (use or_children_sem(2) [OF ok] children in auto)
  have cs_in: "\<forall>c \<in> set cs. in_graph b c" using flat by (simp add: cs_def)
  have sem: "(\<exists>c \<in> set cs. bsem b \<nu> \<chi> c) = (\<exists>c \<in> set children. bsem b \<nu> \<chi> c)" for \<nu> \<chi>
    using flatten_or_sem [OF ok, of children \<nu> \<chi>] bsem_consts(2) [OF ok, of \<nu> \<chi>]
    by (auto simp: cs_def)
  have kept_sem: "(\<exists>c \<in> set kept. bsem b \<nu> \<chi> c) = (\<exists>c \<in> set children. bsem b \<nu> \<chi> c)" for \<nu> \<chi>
    using absorb_and_sem [OF ok, of "sort_dedup cs" \<nu> \<chi>] sem [of \<nu> \<chi>] by (simp add: kept_def)
  have kept_in: "\<forall>c \<in> set kept. in_graph b c"
    using absorb_subset [of "and_children b" "sort_dedup cs"] cs_in by (auto simp: kept_def)
  note run' = run [unfolded build_or_def Let_def, folded cs_def, folded kept_def]
  show ?thesis
  proof (cases "bconst_true b \<in> set cs")
    case True
    then have res: "res = (bconst_true b, b)" using run' by simp
    show ?thesis unfolding res
    proof (rule op_ok_old [OF ok bsem_consts(3) [OF ok]])
      show "bsem b \<nu> \<chi> (bconst_true b) = (\<exists>c \<in> set children. bsem b \<nu> \<chi> c)" for \<nu> \<chi>
        using bsem_consts(1) [OF ok, of \<nu> \<chi>] sem [of \<nu> \<chi>] True by auto
    qed
  next
    case False
    consider "cs = []" | c where "cs = [c]" | c d ds where "cs = c # d # ds"
      using list_cases3 [of cs] by blast
    then show ?thesis
    proof cases
      case 1
      then have res: "res = (bconst_false b, b)" using run' by simp
      show ?thesis unfolding res
        by (rule op_ok_old [OF ok bsem_consts(4) [OF ok]])
          (use bsem_consts(2) [OF ok] sem 1 in simp)
    next
      case 2
      then have res: "res = (c, b)" using run' False by simp
      show ?thesis unfolding res
        by (rule op_ok_old [OF ok]) (use sem 2 cs_in in simp_all)
    next
      case 3
      have "(case kept of [c] \<Rightarrow> Some (c, b)
          | _ \<Rightarrow> (case intern b (POr kept) of
                Some i \<Rightarrow> Some (i, b)
              | None \<Rightarrow> map_option (\<lambda>(i, g). (i, b\<lparr>pir := g, intern := (intern b)(POr kept \<mapsto> i),
                  or_children := (or_children b)(i \<mapsto> kept)\<rparr>)) (pir_or kept (pir b)))) = Some res"
        using run' False by (simp only: if_False 3 list.case)
      from or_step_ok [OF ok kept_in this] show ?thesis using kept_sem by simp
    qed
  qed
qed

section \<open>The two stores of formulas\<close>

text \<open>The hash-consing builder.\<close>

lemma op_okD:
  "op_ok b (i, b') meaning \<Longrightarrow>
    builder_ok b' \<and> bgrows b b' \<and> in_graph b' i \<and> (\<forall>\<nu> \<chi>. bsem b' \<nu> \<chi> i = meaning \<nu> \<chi>)"
  by (simp add: op_ok_def)

interpretation shared: formula_arena builder_ok bgrows in_graph bsem
    "\<lambda>b. Some (bconst_false b, b)" build_and build_or
proof
  show "bgrows s s" for s by simp
  show "bgrows s s'" if "bgrows s s1" "bgrows s1 s'" for s s1 s' using bgrows_trans that .
  show "in_graph s' i" if "bgrows s s'" "in_graph s i" for s s' i using in_graph_grows that .
  show "bsem s' \<nu> \<chi> i = bsem s \<nu> \<chi> i" if "builder_ok s" "bgrows s s'" "in_graph s i" for s s' \<nu> \<chi> i
    using bsem_grows that .
  show "builder_ok s' \<and> bgrows s s' \<and> in_graph s' i \<and> (\<forall>\<nu> \<chi>. \<not> bsem s' \<nu> \<chi> i)"
    if "builder_ok s" "Some (bconst_false s, s) = Some (i, s')" for s i s'
    using that bsem_consts(2,4) [OF that(1)] by auto
  show "builder_ok s' \<and> bgrows s s' \<and> in_graph s' i
      \<and> (\<forall>\<nu> \<chi>. bsem s' \<nu> \<chi> i = (\<forall>c \<in> set cs. bsem s \<nu> \<chi> c))"
    if "builder_ok s" "\<forall>c \<in> set cs. in_graph s c" "build_and cs s = Some (i, s')" for s cs i s'
    using op_okD [OF build_and_ok [OF that]] .
  show "builder_ok s' \<and> bgrows s s' \<and> in_graph s' i
      \<and> (\<forall>\<nu> \<chi>. bsem s' \<nu> \<chi> i = (\<exists>c \<in> set cs. bsem s \<nu> \<chi> c))"
    if "builder_ok s" "\<forall>c \<in> set cs. in_graph s c" "build_or cs s = Some (i, s')" for s cs i s'
    using op_okD [OF build_or_ok [OF that]] .
qed

text \<open>The plain graph.\<close>

lemma push_arena:
  assumes "well_ordered g" and push: "push_node nd g = Some (i, g')"
    and "\<forall>c \<in> set (node_children nd). unat c < length (nodes g)"
  shows "well_ordered g' \<and> grows g g' \<and> unat i < length (nodes g') \<and> node g' i = Some nd
    \<and> (\<forall>c \<in> set (node_children nd). \<forall>\<nu> \<chi>. holds g' \<nu> \<chi> c = holds g \<nu> \<chi> c)"
proof -
  have "holds g' \<nu> \<chi> c = holds g \<nu> \<chi> c" if "c \<in> set (node_children nd)" for \<nu> \<chi> c
    using holds_grows [OF assms(1) push_node_Some(1) [OF push]] assms(3) that by blast
  moreover have "unat i < length (nodes g')" using push_node_Some(2,4) [OF push] by simp
  ultimately show ?thesis
    using push_node_well_ordered [OF assms] push_node_Some(1,3) [OF push] by blast
qed

interpretation arena: formula_arena well_ordered grows "\<lambda>g i. unat i < length (nodes g)" holds
    pir_const_false pir_and pir_or
proof
  show "grows s s" for s by simp
  show "grows s s'" if "grows s s1" "grows s1 s'" for s s1 s' using grows_trans that .
  show "unat i < length (nodes s')" if "grows s s'" "unat i < length (nodes s)" for s s' i
    using grows_length [OF that(1)] that(2) by simp
  show "holds s' \<nu> \<chi> i = holds s \<nu> \<chi> i"
    if "well_ordered s" "grows s s'" "unat i < length (nodes s)" for s s' \<nu> \<chi> i
    using holds_grows that .
  show "well_ordered s' \<and> grows s s' \<and> unat i < length (nodes s') \<and> (\<forall>\<nu> \<chi>. \<not> holds s' \<nu> \<chi> i)"
    if "well_ordered s" "pir_const_false s = Some (i, s')" for s i s'
    using push_arena [OF that(1), of "PConst False" i s'] that(2)
      holds_leaf_simps(1) [of s' i False]
    by (auto simp: pir_const_false_def node_children_def)
  show "well_ordered s' \<and> grows s s' \<and> unat i < length (nodes s')
      \<and> (\<forall>\<nu> \<chi>. holds s' \<nu> \<chi> i = (\<forall>c \<in> set cs. holds s \<nu> \<chi> c))"
    if "well_ordered s" "\<forall>c \<in> set cs. unat c < length (nodes s)" "pir_and cs s = Some (i, s')" for s cs i s'
    using push_arena [OF that(1), of "PAnd cs" i s'] that(2,3) holds_and_simp [of s' i cs]
    by (auto simp: pir_and_def node_children_def)
  show "well_ordered s' \<and> grows s s' \<and> unat i < length (nodes s')
      \<and> (\<forall>\<nu> \<chi>. holds s' \<nu> \<chi> i = (\<exists>c \<in> set cs. holds s \<nu> \<chi> c))"
    if "well_ordered s" "\<forall>c \<in> set cs. unat c < length (nodes s)" "pir_or cs s = Some (i, s')" for s cs i s'
    using push_arena [OF that(1), of "POr cs" i s'] that(2,3) holds_or_simp [of s' i cs]
    by (auto simp: pir_or_def node_children_def)
qed

section \<open>Relations of formulas\<close>

datatype pvalue = PvI64 i64 | PvF64 u64 | PvSymbol u32 | PvString string

text \<open>The derived order: the variants in their order, each by its payload.\<close>

fun pvalue_key :: "pvalue \<Rightarrow> nat \<times> int \<times> string" where
  "pvalue_key (PvI64 v) = (0, sint v, [])"
| "pvalue_key (PvF64 v) = (1, uint v, [])"
| "pvalue_key (PvSymbol v) = (2, uint v, [])"
| "pvalue_key (PvString v) = (3, 0, v)"

lemma pvalue_key_inject: "pvalue_key a = pvalue_key b \<Longrightarrow> a = b"
  by (cases a; cases b) (simp_all add: unsigned_word_eqI signed_word_eqI)

instantiation pvalue :: linorder
begin

definition less_eq_pvalue :: "pvalue \<Rightarrow> pvalue \<Rightarrow> bool" where
  "a \<le> b \<longleftrightarrow> pvalue_key a \<le> pvalue_key b"

definition less_pvalue :: "pvalue \<Rightarrow> pvalue \<Rightarrow> bool" where
  "a < b \<longleftrightarrow> pvalue_key a < pvalue_key b"

instance
proof
  fix a b c :: pvalue
  show "a < b \<longleftrightarrow> a \<le> b \<and> \<not> b \<le> a"
    unfolding less_eq_pvalue_def less_pvalue_def by (rule less_le_not_le)
  show "a \<le> a" unfolding less_eq_pvalue_def by (rule order_refl)
  show "a \<le> b \<Longrightarrow> b \<le> c \<Longrightarrow> a \<le> c" unfolding less_eq_pvalue_def by (rule order_trans)
  show "a \<le> b \<or> b \<le> a" unfolding less_eq_pvalue_def by (rule linear)
  assume "a \<le> b" and "b \<le> a"
  then have "pvalue_key a = pvalue_key b" unfolding less_eq_pvalue_def by (rule antisym)
  then show "a = b" by (rule pvalue_key_inject)
qed

end

type_synonym formula_relation = "(pvalue list, node_id) btree"

definition insert_or ::
    "formula_relation \<Rightarrow> pvalue list \<Rightarrow> node_id \<Rightarrow> pir_builder \<Rightarrow> (formula_relation \<times> pir_builder) option"
  where
  "insert_or rel tuple formula b =
     (let entry = (case map_of rel tuple of Some i \<Rightarrow> i | None \<Rightarrow> bconst_false b)
      in map_option (\<lambda>(i, b'). (bt_insert tuple i rel, b')) (build_or [entry, formula] b))"

lemma insert_or_arena:
  "insert_or rel tuple formula b = Some (rel', b') \<Longrightarrow>
    shared.add_disjunct (map_of rel) tuple formula b = Some (map_of rel', b') \<and> (bt_ok rel \<longrightarrow> bt_ok rel')"
  by (auto simp: insert_or_def shared.add_disjunct_def Let_def split: option.splits)

section \<open>Sequences of builder operations\<close>

inductive built :: "pir_builder \<Rightarrow> bool" where
  built_new: "new_builder = Some b \<Longrightarrow> built b"
| built_lit: "built b \<Longrightarrow> build_lit leaf b = Some (i, b') \<Longrightarrow> built b'"
| built_neg: "built b \<Longrightarrow> build_neg_lit leaf b = Some (i, b') \<Longrightarrow> built b'"
| built_and: "built b \<Longrightarrow> \<forall>c \<in> set cs. in_graph b c \<Longrightarrow> build_and cs b = Some (i, b') \<Longrightarrow> built b'"
| built_or: "built b \<Longrightarrow> \<forall>c \<in> set cs. in_graph b c \<Longrightarrow> build_or cs b = Some (i, b') \<Longrightarrow> built b'"
| built_decision:
    "built b \<Longrightarrow> in_graph b f \<Longrightarrow> in_graph b t \<Longrightarrow> build_decision v f t b = Some (i, b') \<Longrightarrow> built b'"

lemma new_builder_ok:
  assumes "new_builder = Some b"
  shows "builder_ok b"
proof -
  have b: "b = \<lparr>pir = \<lparr>nodes = [PConst True, PConst False]\<rparr>,
      intern = [PConst True \<mapsto> 0, PConst False \<mapsto> 1], bconst_true = 0, bconst_false = 1,
      or_children = Map.empty, and_children = Map.empty\<rparr>"
    using assms
    by (simp add: new_builder_def pir_const_true_def pir_const_false_def push_node_nat empty_pir_def)
  have n: "node \<lparr>nodes = [PConst True, PConst False]\<rparr> i = Some nd \<longleftrightarrow>
      (i = 0 \<and> nd = PConst True) \<or> (i = 1 \<and> nd = PConst False)" for i nd
  proof -
    have "unat i < 2 \<longleftrightarrow> i = 0 \<or> i = 1"
      by (simp add: word_unat_eq_iff less_2_cases_iff)
    then show ?thesis by (auto simp: node_def get_def numeral_2_eq_2 less_Suc_eq)
  qed
  show ?thesis
    unfolding builder_ok_def b by (auto simp: n well_ordered_def node_children_def less_Suc_eq)
qed

lemma built_ok: "built b \<Longrightarrow> builder_ok b"
proof (induction rule: built.induct)
  case (built_new b)
  then show ?case by (rule new_builder_ok)
qed (auto simp: op_ok_def dest: build_lit_ok build_neg_lit_ok build_and_ok build_or_ok build_decision_ok)

section \<open>The order of the children does not matter\<close>

lemma set_flatten_cong: "set cs = set ds \<Longrightarrow> set (flatten subs cs) = set (flatten subs ds)"
  by (simp add: set_flatten)

lemma sort_dedup_single: "sort_dedup [c] = [c]"
  by (simp add: sort_dedup_def)

text \<open>The early returns for no child and for one child are instances of the general step.\<close>

lemma early_return:
  "(case cs of [] \<Rightarrow> z | [c] \<Rightarrow> f c | _ \<Rightarrow> g (sort_dedup cs))
    = (case sort_dedup cs of [] \<Rightarrow> z | _ \<Rightarrow> g (sort_dedup cs))"
  if "\<And>c. g [c] = f c"
proof -
  consider "cs = []" | c where "cs = [c]" | c d ds where "cs = c # d # ds"
    using list_cases3 [of cs] by blast
  then show ?thesis
  proof cases
    case 3
    have "c \<in> set (sort_dedup cs)" using 3 by simp
    then obtain m ms where "sort_dedup cs = m # ms" by (cases "sort_dedup cs") auto
    then show ?thesis using 3 by simp
  qed (simp_all add: sort_dedup_single that, simp add: sort_dedup_def)
qed

lemma build_and_set:
  assumes "set cs = set ds"
  shows "build_and cs b = build_and ds b"
proof -
  let ?f = "\<lambda>cs. filter (\<lambda>c. c \<noteq> bconst_true b) (flatten (and_children b) cs)"
  let ?g = "\<lambda>members. let kept = if 1 < length members then absorb (or_children b) members else members
      in case kept of
           [c] \<Rightarrow> Some (c, b)
         | _ \<Rightarrow>
             (case intern b (PAnd kept) of
                Some i \<Rightarrow> Some (i, b)
              | None \<Rightarrow> map_option (\<lambda>(i, g). (i, b\<lparr>pir := g, intern := (intern b)(PAnd kept \<mapsto> i),
                  and_children := (and_children b)(i \<mapsto> kept)\<rparr>)) (pir_and kept (pir b)))"
  have one: "?g [c] = Some (c, b)" for c by simp
  have alt: "build_and xs b =
      (if bconst_false b \<in> set (?f xs) then Some (bconst_false b, b)
       else case sort_dedup (?f xs) of [] \<Rightarrow> Some (bconst_true b, b) | _ \<Rightarrow> ?g (sort_dedup (?f xs)))" for xs
    unfolding early_return [where g = ?g and f = "\<lambda>c. Some (c, b)" and z = "Some (bconst_true b, b)"
        and cs = "?f xs", OF one, symmetric]
    by (simp only: build_and_def Let_def)
  have eq: "set (?f cs) = set (?f ds)" using set_flatten_cong [OF assms] by auto
  show ?thesis unfolding alt eq sort_dedup_cong [OF eq] by (rule refl)
qed

lemma build_or_set:
  assumes "set cs = set ds"
  shows "build_or cs b = build_or ds b"
proof -
  let ?f = "\<lambda>cs. filter (\<lambda>c. c \<noteq> bconst_false b) (flatten (or_children b) cs)"
  let ?g = "\<lambda>members. let kept = if 1 < length members then absorb (and_children b) members else members
      in case kept of
           [c] \<Rightarrow> Some (c, b)
         | _ \<Rightarrow>
             (case intern b (POr kept) of
                Some i \<Rightarrow> Some (i, b)
              | None \<Rightarrow> map_option (\<lambda>(i, g). (i, b\<lparr>pir := g, intern := (intern b)(POr kept \<mapsto> i),
                  or_children := (or_children b)(i \<mapsto> kept)\<rparr>)) (pir_or kept (pir b)))"
  have one: "?g [c] = Some (c, b)" for c by simp
  have alt: "build_or xs b =
      (if bconst_true b \<in> set (?f xs) then Some (bconst_true b, b)
       else case sort_dedup (?f xs) of [] \<Rightarrow> Some (bconst_false b, b) | _ \<Rightarrow> ?g (sort_dedup (?f xs)))" for xs
    unfolding early_return [where g = ?g and f = "\<lambda>c. Some (c, b)" and z = "Some (bconst_false b, b)"
        and cs = "?f xs", OF one, symmetric]
    by (simp only: build_or_def Let_def)
  have eq: "set (?f cs) = set (?f ds)" using set_flatten_cong [OF assms] by auto
  show ?thesis unfolding alt eq sort_dedup_cong [OF eq] by (rule refl)
qed

section \<open>Properties of the builder\<close>

definition demo_base :: pir_builder where
  "demo_base = the new_builder"

definition demo_lits :: pir_builder where
  "demo_lits = snd (the (build_lit 1 (snd (the (build_lit 0 demo_base)))))"

definition demo_or :: pir_builder where
  "demo_or = snd (the (build_or [2, 3] demo_lits))"

definition demo_and :: pir_builder where
  "demo_and = snd (the (build_and [2, 4] demo_or))"

lemma the_stepI: "map_option fst r = Some i \<Longrightarrow> r = Some (i, snd (the r))"
  by (cases r) auto

lemma demo_base_run: "new_builder = Some demo_base"
proof -
  have "map_option (\<lambda>_. ()) new_builder = Some ()" by code_simp
  then show ?thesis by (cases new_builder) (simp_all add: demo_base_def)
qed

lemma demo_lit0_run: "build_lit 0 demo_base = Some (2, snd (the (build_lit 0 demo_base)))"
  by (rule the_stepI) code_simp

lemma demo_lits_run: "build_lit 1 (snd (the (build_lit 0 demo_base))) = Some (3, demo_lits)"
  unfolding demo_lits_def by (rule the_stepI) code_simp

lemma demo_or_run: "build_or [2, 3] demo_lits = Some (4, demo_or)"
  unfolding demo_or_def by (rule the_stepI) code_simp

lemma demo_and_run: "build_and [2, 4] demo_or = Some (2, demo_and)"
  unfolding demo_and_def by (rule the_stepI) code_simp

lemma demo_in_graph: "list_all (in_graph demo_lits) [2, 3]" "list_all (in_graph demo_or) [2, 4]"
  by code_simp+

lemma demo_lits_built: "built demo_lits"
  by (rule built_lit [OF built_lit [OF built_new [OF demo_base_run] demo_lit0_run] demo_lits_run])

lemma demo_or_built: "built demo_or"
  by (rule built_or [OF demo_lits_built _ demo_or_run]) (use demo_in_graph(1) in \<open>simp add: list_all_iff\<close>)

text \<open>C18: flattening, constant removal, duplicate removal and absorption keep the meaning: the node
  built for a conjunction holds under an assignment exactly when all the given formulas do.\<close>

theorem build_and_meaning:
  assumes "builder_ok b" and "list_all (in_graph b) cs" and "build_and cs b = Some (i, b')"
  shows "builder_ok b' \<and> in_graph b' i \<and> bsem b' \<nu> \<chi> i = list_all (bsem b \<nu> \<chi>) cs"
  using shared.conj_ok [OF assms(1) _ assms(3)] assms(2) by (simp add: list_all_iff)

theorem build_and_meaning_witness:
  "builder_ok demo_and \<and> in_graph demo_and 2
    \<and> bsem demo_and (\<lambda>l. l = 0) (\<lambda>_. True) 2 = list_all (bsem demo_or (\<lambda>l. l = 0) (\<lambda>_. True)) [2, 4]"
  by (rule build_and_meaning [OF built_ok [OF demo_or_built] demo_in_graph(2) demo_and_run])

text \<open>The node built for a disjunction holds exactly when some of the given formulas does.\<close>

theorem build_or_meaning:
  assumes "builder_ok b" and "list_all (in_graph b) cs" and "build_or cs b = Some (i, b')"
  shows "builder_ok b' \<and> in_graph b' i \<and> bsem b' \<nu> \<chi> i = list_ex (bsem b \<nu> \<chi>) cs"
  using shared.disj_ok [OF assms(1) _ assms(3)] assms(2) by (simp add: list_all_iff list_ex_iff)

theorem build_or_meaning_witness:
  "builder_ok demo_or \<and> in_graph demo_or 4
    \<and> bsem demo_or (\<lambda>l. l = 0) (\<lambda>_. True) 4 = list_ex (bsem demo_lits (\<lambda>l. l = 0) (\<lambda>_. True)) [2, 3]"
  by (rule build_or_meaning [OF built_ok [OF demo_lits_built] demo_in_graph(1) demo_or_run])

text \<open>C26: whatever operations are performed, the builder never holds two equal nodes and every child
  precedes its parent; the interning table maps exactly the nodes held, each to its own identifier;
  the tables of conjunctions and of disjunctions map exactly the identifiers of such nodes, each to
  its children; and the two constants it remembers are the nodes of the constants.\<close>

theorem builder_shares:
  assumes "built b"
  shows "distinct (nodes (pir b)) \<and> well_ordered (pir b)
    \<and> (\<forall>nd i. intern b nd = Some i \<longleftrightarrow> node (pir b) i = Some nd)
    \<and> (\<forall>i cs. and_children b i = Some cs \<longleftrightarrow> node (pir b) i = Some (PAnd cs))
    \<and> (\<forall>i cs. or_children b i = Some cs \<longleftrightarrow> node (pir b) i = Some (POr cs))
    \<and> node (pir b) (bconst_true b) = Some (PConst True)
    \<and> node (pir b) (bconst_false b) = Some (PConst False)"
  using builder_ok_distinct [OF built_ok [OF assms]] built_ok [OF assms] unfolding builder_ok_def by blast

theorem builder_shares_witness:
  "distinct (nodes (pir demo_or)) \<and> well_ordered (pir demo_or)
    \<and> (\<forall>nd i. intern demo_or nd = Some i \<longleftrightarrow> node (pir demo_or) i = Some nd)
    \<and> (\<forall>i cs. and_children demo_or i = Some cs \<longleftrightarrow> node (pir demo_or) i = Some (PAnd cs))
    \<and> (\<forall>i cs. or_children demo_or i = Some cs \<longleftrightarrow> node (pir demo_or) i = Some (POr cs))
    \<and> node (pir demo_or) (bconst_true demo_or) = Some (PConst True)
    \<and> node (pir demo_or) (bconst_false demo_or) = Some (PConst False)"
  by (rule builder_shares [OF demo_or_built])

text \<open>Conjunction and disjunction depend only on the set of the given formulas, so neither the
  order nor the repetition of children can make provenance grow.\<close>

theorem builder_set_canonical:
  assumes "set cs = set ds"
  shows "build_and cs b = build_and ds b \<and> build_or cs b = build_or ds b"
  using build_and_set [OF assms] build_or_set [OF assms] by simp

theorem builder_set_canonical_witness:
  "build_and [3, 2, 3] demo_or = build_and [2, 3] demo_or
    \<and> build_or [3, 2, 3] demo_or = build_or [2, 3] demo_or"
  by (rule builder_set_canonical) auto

definition demo_rel :: "node_id \<Rightarrow> formula_relation" where
  "demo_rel i = [([], i)]"

text \<open>Inserting a formula into a relation adds exactly that alternative to the tuple and leaves
  the meaning of every other tuple as it was.\<close>

theorem insert_or_meaning:
  assumes "builder_ok b" and "shared.table_defined (map_of rel) b" and "in_graph b f"
    and "insert_or rel tuple f b = Some (rel', b')"
  shows "builder_ok b' \<and> shared.table_defined (map_of rel') b'
    \<and> dom (map_of rel') = insert tuple (dom (map_of rel))
    \<and> shared.table_sem (map_of rel') b' \<nu> \<chi> t
      = (shared.table_sem (map_of rel) b \<nu> \<chi> t \<or> (t = tuple \<and> bsem b \<nu> \<chi> f))"
  using shared.add_disjunct_ok [OF assms(1-3)] insert_or_arena [OF assms(4)] by blast

theorem insert_or_meaning_witness:
  "builder_ok demo_or \<and> shared.table_defined (map_of (demo_rel 4)) demo_or
    \<and> dom (map_of (demo_rel 4)) = insert [] (dom (map_of (demo_rel 2)))
    \<and> shared.table_sem (map_of (demo_rel 4)) demo_or (\<lambda>l. l = 1) (\<lambda>_. True) []
      = (shared.table_sem (map_of (demo_rel 2)) demo_lits (\<lambda>l. l = 1) (\<lambda>_. True) []
         \<or> ([] = ([] :: pvalue list) \<and> bsem demo_lits (\<lambda>l. l = 1) (\<lambda>_. True) 3))"
proof (rule insert_or_meaning [OF built_ok [OF demo_lits_built]])
  show "insert_or (demo_rel 2) [] 3 demo_lits = Some (demo_rel 4, demo_or)"
    by (simp add: insert_or_def demo_or_run demo_rel_def)
  show "shared.table_defined (map_of (demo_rel 2)) demo_lits" "in_graph demo_lits 3"
    using demo_in_graph(1) by (simp_all add: shared.table_defined_def demo_rel_def)
qed

end
