(* ===== verification/Wfs.thy ===== *)
theory Wfs
  imports Pir_Builder
begin

text \<open>
  Well-founded semantics of the ground rules of a non-monotone component (\<open>xlog-prob/src/wfs.rs\<close>):
  the alternating iteration of unfounded sets and consequences, with a provenance formula for every
  true atom. Sets of atoms that the code only iterates over to filter are lists without order
  meaning. A hash map is walked in an unspecified order: \<open>order\<close> stands for it, and the properties
  hold for every order. \<open>WfsPanic\<close> is the overflow of node identifiers.
\<close>

section \<open>Atoms, literals and rules\<close>

record wfs_atom =
  wfs_predicate :: string
  wfs_args :: "pvalue list"

datatype truth_value = TvTrue | TvFalse | TvUndefined

definition is_defined :: "truth_value \<Rightarrow> bool" where
  "is_defined v = (v = TvTrue \<or> v = TvFalse)"

datatype wfs_literal = WPositive wfs_atom | WNegative wfs_atom

definition wfs_literal_atom :: "wfs_literal \<Rightarrow> wfs_atom" where
  "wfs_literal_atom l = (case l of WPositive a \<Rightarrow> a | WNegative a \<Rightarrow> a)"

record wfs_rule =
  w_head :: wfs_atom
  w_body :: "wfs_literal list"
  w_provenance :: node_id

fun is_satisfied ::
    "wfs_atom set \<Rightarrow> wfs_atom set \<Rightarrow> wfs_atom list \<Rightarrow> wfs_literal list \<Rightarrow> bool option" where
  "is_satisfied true_set false_set scc [] = Some True"
| "is_satisfied true_set false_set scc (WPositive a # ls) =
     (if a \<in> false_set then Some False
      else if a \<in> true_set then is_satisfied true_set false_set scc ls
      else if a \<in> set scc then None
      else Some False)"
| "is_satisfied true_set false_set scc (WNegative a # ls) =
     (if a \<in> true_set then Some False
      else if a \<in> false_set then is_satisfied true_set false_set scc ls
      else if a \<in> set scc then None
      else is_satisfied true_set false_set scc ls)"

record wfs_result =
  true_prov :: "wfs_atom \<rightharpoonup> node_id"
  false_atoms :: "wfs_atom set"

definition empty_wfs_result :: wfs_result where
  "empty_wfs_result = \<lparr>true_prov = Map.empty, false_atoms = {}\<rparr>"

definition truth_value_of :: "wfs_result \<Rightarrow> wfs_atom \<Rightarrow> truth_value" where
  "truth_value_of res a =
     (if true_prov res a \<noteq> None then TvTrue
      else if a \<in> false_atoms res then TvFalse else TvUndefined)"

definition wfs_provenance :: "wfs_result \<Rightarrow> wfs_atom \<Rightarrow> node_id option" where
  "wfs_provenance res a = true_prov res a"

definition is_undefined :: "wfs_result \<Rightarrow> wfs_atom \<Rightarrow> bool" where
  "is_undefined res a = (true_prov res a = None \<and> a \<notin> false_atoms res)"

definition undefined_atoms :: "wfs_result \<Rightarrow> wfs_atom list \<Rightarrow> wfs_atom list" where
  "undefined_atoms res = filter (is_undefined res)"

record wfs_config =
  wfs_max_iterations :: nat

definition default_wfs_config :: wfs_config where
  "default_wfs_config = \<lparr>wfs_max_iterations = 1000\<rparr>"

record wfs_context =
  ctx_rules :: "wfs_rule list"
  scc_atoms :: "wfs_atom list"
  rules_by_head :: "wfs_atom \<rightharpoonup> nat list"

definition new_context :: "wfs_rule list \<Rightarrow> wfs_context" where
  "new_context rs =
     fold (\<lambda>(i, r) ctx. ctx\<lparr>scc_atoms := List.insert (w_head r) (scc_atoms ctx),
         rules_by_head := (rules_by_head ctx)(w_head r \<mapsto>
           (case rules_by_head ctx (w_head r) of None \<Rightarrow> [] | Some is \<Rightarrow> is) @ [i])\<rparr>)
       (indexed rs) \<lparr>ctx_rules = rs, scc_atoms = [], rules_by_head = Map.empty\<rparr>"

section \<open>Unfounded sets\<close>

fun potentially_supporting ::
    "wfs_atom set \<Rightarrow> wfs_atom set \<Rightarrow> wfs_atom list \<Rightarrow> wfs_atom list \<Rightarrow> wfs_literal list \<Rightarrow> bool" where
  "potentially_supporting true_set false_set unfounded scc [] = True"
| "potentially_supporting true_set false_set unfounded scc (WPositive a # ls) =
     (if a \<in> false_set then False
      else if a \<in> true_set
      then potentially_supporting true_set false_set unfounded scc ls
      else if a \<in> set scc
      then (if a \<in> set unfounded then False
            else potentially_supporting true_set false_set unfounded scc ls)
      else False)"
| "potentially_supporting true_set false_set unfounded scc (WNegative a # ls) =
     (if a \<in> true_set then False
      else potentially_supporting true_set false_set unfounded scc ls)"

definition has_support ::
    "wfs_context \<Rightarrow> wfs_atom set \<Rightarrow> wfs_atom set \<Rightarrow> wfs_atom list \<Rightarrow> wfs_atom \<Rightarrow> bool" where
  "has_support ctx true_set false_set unfounded a =
     (case rules_by_head ctx a of
        None \<Rightarrow> False
      | Some is \<Rightarrow> list_ex (\<lambda>i. potentially_supporting true_set false_set unfounded (scc_atoms ctx)
            (w_body (ctx_rules ctx ! i))) is)"

function unfounded_loop ::
    "wfs_context \<Rightarrow> wfs_atom set \<Rightarrow> wfs_atom set \<Rightarrow> wfs_atom list \<Rightarrow> wfs_atom list" where
  "unfounded_loop ctx true_set false_set unfounded =
     (let to_remove = filter (has_support ctx true_set false_set unfounded) unfounded;
          unfounded' = filter (\<lambda>a. a \<notin> set to_remove) unfounded
      in if to_remove = [] then unfounded'
         else unfounded_loop ctx true_set false_set unfounded')"
  by pat_completeness auto

termination
proof (relation "measure (\<lambda>(_, _, _, unfounded). length unfounded)")
  fix ctx true_set false_set unfounded to_remove unfounded'
  assume r: "to_remove = filter (has_support ctx true_set false_set unfounded) unfounded"
    and u: "unfounded' = filter (\<lambda>a. a \<notin> set to_remove) unfounded" and ne: "to_remove \<noteq> []"
  from ne obtain a where "a \<in> set to_remove" by (cases to_remove) auto
  then have "a \<in> set unfounded" "\<not> a \<notin> set to_remove" using r by auto
  then have "length unfounded' < length unfounded"
    unfolding u by (intro length_filter_less) auto
  then show "((ctx, true_set, false_set, unfounded'), ctx, true_set, false_set, unfounded)
      \<in> measure (\<lambda>(_, _, _, unfounded). length unfounded)" by simp
qed simp

definition compute_unfounded_set ::
    "wfs_context \<Rightarrow> wfs_atom set \<Rightarrow> wfs_atom set \<Rightarrow> wfs_atom list" where
  "compute_unfounded_set ctx true_set false_set =
     unfounded_loop ctx true_set false_set (filter (\<lambda>a. a \<notin> true_set) (scc_atoms ctx))"

section \<open>Consequences\<close>

text \<open>\<open>entry(..).or_insert_with(const_false)\<close> followed by \<open>or\<close>.\<close>

definition pir_add_disjunct ::
    "('k \<rightharpoonup> node_id) \<Rightarrow> 'k \<Rightarrow> node_id \<Rightarrow> pir_graph \<Rightarrow> (('k \<rightharpoonup> node_id) \<times> pir_graph) option" where
  "pir_add_disjunct table k f g =
     (case (case table k of Some old \<Rightarrow> Some (old, g) | None \<Rightarrow> pir_const_false g) of
        None \<Rightarrow> None
      | Some (old, g') \<Rightarrow> map_option (\<lambda>(i, g''). (table(k \<mapsto> i), g'')) (pir_or [old, f] g'))"

text \<open>The new true atoms with their formulas: the keys in order of insertion, and the map.\<close>

type_synonym new_true = "wfs_atom list \<times> (wfs_atom \<rightharpoonup> node_id)"

definition provenance_parts :: "(wfs_atom \<rightharpoonup> node_id) \<Rightarrow> wfs_rule \<Rightarrow> node_id list" where
  "provenance_parts existing r =
     w_provenance r # List.map_filter
       (\<lambda>l. case l of WPositive a \<Rightarrow> existing a | WNegative _ \<Rightarrow> None) (w_body r)"

definition conj_parts :: "node_id list \<Rightarrow> pir_graph \<Rightarrow> (node_id \<times> pir_graph) option" where
  "conj_parts parts g = (case parts of [p] \<Rightarrow> Some (p, g) | _ \<Rightarrow> pir_and parts g)"

definition derive_rule ::
    "wfs_context \<Rightarrow> wfs_atom set \<Rightarrow> wfs_atom set \<Rightarrow> (wfs_atom \<rightharpoonup> node_id) \<Rightarrow> wfs_rule
     \<Rightarrow> new_true \<times> pir_graph \<Rightarrow> (new_true \<times> pir_graph) option" where
  "derive_rule ctx true_set false_set existing r = (\<lambda>((keys, table), g).
     if w_head r \<in> true_set \<or> w_head r \<in> false_set then Some ((keys, table), g)
     else if is_satisfied true_set false_set (scc_atoms ctx) (w_body r) = Some True then
       (case conj_parts (provenance_parts existing r) g of
          None \<Rightarrow> None
        | Some (rule_prov, g') \<Rightarrow>
            map_option (\<lambda>(table', g''). ((List.insert (w_head r) keys, table'), g''))
              (pir_add_disjunct table (w_head r) rule_prov g'))
     else Some ((keys, table), g))"

definition derive_consequences ::
    "wfs_context \<Rightarrow> wfs_atom set \<Rightarrow> wfs_atom set \<Rightarrow> (wfs_atom \<rightharpoonup> node_id) \<Rightarrow> pir_graph
     \<Rightarrow> (new_true \<times> pir_graph) option" where
  "derive_consequences ctx true_set false_set existing g =
     fold_option (derive_rule ctx true_set false_set existing) (ctx_rules ctx) (([], Map.empty), g)"

section \<open>The alternating iteration\<close>

datatype wfs_error = WfsNotConverged nat | WfsPanic

record wfs_state =
  ws_true :: "wfs_atom set"
  ws_prov :: "wfs_atom \<rightharpoonup> node_id"
  ws_false :: "wfs_atom set"
  ws_pir :: pir_graph

definition add_true ::
    "(wfs_atom \<rightharpoonup> node_id) \<Rightarrow> wfs_atom \<Rightarrow> wfs_state \<Rightarrow> wfs_state option" where
  "add_true table a st =
     (if a \<in> ws_true st then Some st
      else map_option (\<lambda>(prov, g). st\<lparr>ws_true := insert a (ws_true st), ws_prov := prov, ws_pir := g\<rparr>)
             (pir_add_disjunct (ws_prov st) a (the (table a)) (ws_pir st)))"

text \<open>One pass: the new state and whether anything was added.\<close>

definition wfs_pass ::
    "(wfs_atom list \<Rightarrow> wfs_atom list) \<Rightarrow> wfs_context \<Rightarrow> wfs_state \<Rightarrow> (wfs_state \<times> bool) option" where
  "wfs_pass order ctx st =
     (let unfounded = compute_unfounded_set ctx (ws_true st) (ws_false st);
          new_false = filter (\<lambda>a. a \<notin> ws_false st) unfounded;
          false_set = ws_false st \<union> set new_false
      in case derive_consequences ctx (ws_true st) false_set (ws_prov st) (ws_pir st) of
           None \<Rightarrow> None
         | Some ((keys, table), g) \<Rightarrow>
             map_option (\<lambda>st'. (st', \<not> (length new_false = 0 \<and> length keys = 0)))
               (fold_option (add_true table) (order keys)
                 (st\<lparr>ws_false := false_set, ws_pir := g\<rparr>)))"

fun wfs_loop ::
    "(wfs_atom list \<Rightarrow> wfs_atom list) \<Rightarrow> wfs_context \<Rightarrow> nat \<Rightarrow> nat \<Rightarrow> wfs_state
     \<Rightarrow> wfs_error + wfs_result \<times> pir_graph" where
  "wfs_loop order ctx limit 0 st =
     Inr (\<lparr>true_prov = ws_prov st, false_atoms = ws_false st\<rparr>, ws_pir st)"
| "wfs_loop order ctx limit (Suc left) st =
     (case wfs_pass order ctx st of
        None \<Rightarrow> Inl WfsPanic
      | Some (st', changed) \<Rightarrow>
          if \<not> changed
          then Inr (\<lparr>true_prov = ws_prov st', false_atoms = ws_false st'\<rparr>, ws_pir st')
          else if left = 0 then Inl (WfsNotConverged limit)
          else wfs_loop order ctx limit left st')"

definition evaluate_wfs_rules ::
    "(wfs_atom list \<Rightarrow> wfs_atom list) \<Rightarrow> wfs_rule list \<Rightarrow> pir_graph \<Rightarrow> wfs_config
     \<Rightarrow> wfs_error + wfs_result \<times> pir_graph" where
  "evaluate_wfs_rules order rs g config =
     (if rs = [] then Inr (empty_wfs_result, g)
      else wfs_loop order (new_context rs) (wfs_max_iterations config) (wfs_max_iterations config)
             \<lparr>ws_true = {}, ws_prov = Map.empty, ws_false = {}, ws_pir = g\<rparr>)"

definition evaluate_wfs_with_rules ::
    "(wfs_atom list \<Rightarrow> wfs_atom list) \<Rightarrow> wfs_rule list \<Rightarrow> pir_graph
     \<Rightarrow> wfs_error + wfs_result \<times> pir_graph" where
  "evaluate_wfs_with_rules order rs g = evaluate_wfs_rules order rs g default_wfs_config"

end
