(* ===== verification/Wfs_Model.thy ===== *)
theory Wfs_Model
  imports Wfs
begin

text \<open>
  The well-founded model of ground rules, stated independently of the program as the least
  pre-fixpoint of the immediate consequences and the greatest unfounded set (Van Gelder, Ross and
  Schlipf), and the facts about it that the verification of \<open>wfs.rs\<close> rests on: consistency along
  the iteration, and the loops over rules and atoms in terms of these operators.
\<close>

section \<open>The well-founded model\<close>

definition literal_blocked :: "wfs_atom set \<Rightarrow> wfs_atom set \<Rightarrow> wfs_atom set \<Rightarrow> wfs_literal \<Rightarrow> bool" where
  "literal_blocked T F U l =
     (case l of WPositive b \<Rightarrow> b \<in> F \<or> b \<in> U | WNegative b \<Rightarrow> b \<in> T)"

definition unfounded_set :: "wfs_rule list \<Rightarrow> wfs_atom set \<Rightarrow> wfs_atom set \<Rightarrow> wfs_atom set \<Rightarrow> bool" where
  "unfounded_set rs T F U =
     (\<forall>r \<in> set rs. w_head r \<in> U \<longrightarrow> (\<exists>l \<in> set (w_body r). literal_blocked T F U l))"

definition greatest_unfounded :: "wfs_rule list \<Rightarrow> wfs_atom set \<Rightarrow> wfs_atom set \<Rightarrow> wfs_atom set" where
  "greatest_unfounded rs T F = \<Union> {U. unfounded_set rs T F U}"

definition literal_true :: "wfs_atom set \<Rightarrow> wfs_atom set \<Rightarrow> wfs_literal \<Rightarrow> bool" where
  "literal_true T F l = (case l of WPositive b \<Rightarrow> b \<in> T | WNegative b \<Rightarrow> b \<in> F)"

definition consequences :: "wfs_rule list \<Rightarrow> wfs_atom set \<Rightarrow> wfs_atom set \<Rightarrow> wfs_atom set" where
  "consequences rs T F =
     {w_head r | r. r \<in> set rs \<and> (\<forall>l \<in> set (w_body r). literal_true T F l)}"

definition pre_model :: "wfs_rule list \<Rightarrow> wfs_atom set \<Rightarrow> wfs_atom set \<Rightarrow> bool" where
  "pre_model rs T F = (consequences rs T F \<subseteq> T \<and> greatest_unfounded rs T F \<subseteq> F)"

definition well_founded_model :: "wfs_rule list \<Rightarrow> wfs_atom set \<Rightarrow> wfs_atom set \<Rightarrow> bool" where
  "well_founded_model rs T F =
     (consequences rs T F = T \<and> greatest_unfounded rs T F = F
      \<and> (\<forall>T' F'. pre_model rs T' F' \<longrightarrow> T \<subseteq> T' \<and> F \<subseteq> F'))"

lemma literal_blocked_mono:
  "literal_blocked T F U l \<Longrightarrow> T \<subseteq> T' \<Longrightarrow> F \<subseteq> F' \<Longrightarrow> U \<subseteq> U' \<Longrightarrow> literal_blocked T' F' U' l"
  by (auto simp: literal_blocked_def split: wfs_literal.splits)

lemma unfounded_set_mono:
  "unfounded_set rs T F U \<Longrightarrow> T \<subseteq> T' \<Longrightarrow> F \<subseteq> F' \<Longrightarrow> unfounded_set rs T' F' U"
  unfolding unfounded_set_def using literal_blocked_mono by blast

lemma greatest_unfounded_mono:
  "T \<subseteq> T' \<Longrightarrow> F \<subseteq> F' \<Longrightarrow> greatest_unfounded rs T F \<subseteq> greatest_unfounded rs T' F'"
  unfolding greatest_unfounded_def using unfounded_set_mono by blast

lemma greatest_unfounded_is_unfounded: "unfounded_set rs T F (greatest_unfounded rs T F)"
proof -
  have "\<exists>l \<in> set (w_body r). literal_blocked T F (greatest_unfounded rs T F) l"
    if r: "r \<in> set rs" "w_head r \<in> greatest_unfounded rs T F" for r
  proof -
    obtain U where U: "unfounded_set rs T F U" "w_head r \<in> U"
      using r(2) by (auto simp: greatest_unfounded_def)
    then obtain l where "l \<in> set (w_body r)" "literal_blocked T F U l"
      using r(1) by (auto simp: unfounded_set_def)
    moreover have "U \<subseteq> greatest_unfounded rs T F" using U(1) by (auto simp: greatest_unfounded_def)
    ultimately show ?thesis using literal_blocked_mono by blast
  qed
  then show ?thesis by (simp add: unfounded_set_def)
qed

lemma unfounded_below: "unfounded_set rs T F U \<Longrightarrow> U \<subseteq> greatest_unfounded rs T F"
  by (auto simp: greatest_unfounded_def)

lemma consequences_mono: "T \<subseteq> T' \<Longrightarrow> F \<subseteq> F' \<Longrightarrow> consequences rs T F \<subseteq> consequences rs T' F'"
  by (fastforce simp: consequences_def literal_true_def split: wfs_literal.splits)

text \<open>Atoms without a rule are unfounded from the start.\<close>

definition ruleless :: "wfs_rule list \<Rightarrow> wfs_atom set" where
  "ruleless rs = - (w_head ` set rs)"

lemma ruleless_unfounded: "ruleless rs \<subseteq> greatest_unfounded rs T F"
  by (rule unfounded_below) (auto simp: unfounded_set_def ruleless_def)

text \<open>A least pre-model is a model, by the argument of Knaster and Tarski.\<close>

lemma least_pre_model:
  assumes "pre_model rs T F" and "\<And>T' F'. pre_model rs T' F' \<Longrightarrow> T \<subseteq> T' \<and> F \<subseteq> F'"
  shows "well_founded_model rs T F"
proof -
  have sub: "consequences rs T F \<subseteq> T" "greatest_unfounded rs T F \<subseteq> F"
    using assms(1) by (auto simp: pre_model_def)
  have "pre_model rs (consequences rs T F) (greatest_unfounded rs T F)"
    unfolding pre_model_def using consequences_mono [OF sub] greatest_unfounded_mono [OF sub] by simp
  then have "T \<subseteq> consequences rs T F" "F \<subseteq> greatest_unfounded rs T F" using assms(2) by blast+
  then show ?thesis using sub assms(2) by (auto simp: well_founded_model_def)
qed

section \<open>Derivability from a set of false atoms\<close>

inductive_set derivable :: "wfs_rule set \<Rightarrow> wfs_atom set \<Rightarrow> wfs_atom set" for R F where
  derivable_rule: "r \<in> R \<Longrightarrow>
    \<forall>b. WPositive b \<in> set (w_body r) \<longrightarrow> b \<in> derivable R F \<Longrightarrow>
    \<forall>b. WNegative b \<in> set (w_body r) \<longrightarrow> b \<in> F \<Longrightarrow>
    w_head r \<in> derivable R F"

lemma derivable_mono:
  assumes "R \<subseteq> R'" and "F \<subseteq> F'"
  shows "derivable R F \<subseteq> derivable R' F'"
proof
  fix a assume "a \<in> derivable R F"
  then show "a \<in> derivable R' F'"
  proof induction
    case (derivable_rule r)
    show ?case
      by (rule derivable.derivable_rule) (use derivable_rule assms in auto)
  qed
qed

lemma derivable_founded:
  assumes "T \<inter> F = {}" and "F \<subseteq> greatest_unfounded rs T F" and "a \<in> derivable (set rs) F"
  shows "a \<notin> greatest_unfounded rs T F"
  using assms(3)
proof induction
  case (derivable_rule r)
  show ?case
  proof
    assume "w_head r \<in> greatest_unfounded rs T F"
    then obtain l where l: "l \<in> set (w_body r)" "literal_blocked T F (greatest_unfounded rs T F) l"
      using greatest_unfounded_is_unfounded [of rs T F] derivable_rule.hyps(1)
      unfolding unfounded_set_def by blast
    show False
    proof (cases l)
      case (WPositive b)
      then show ?thesis using l derivable_rule.IH assms(2) by (auto simp: literal_blocked_def)
    next
      case (WNegative b)
      then show ?thesis using l derivable_rule.hyps assms(1) by (auto simp: literal_blocked_def)
    qed
  qed
qed

text \<open>The invariant of the iteration: \<open>F\<close> includes the atoms without rules.\<close>

definition sound_stage :: "wfs_rule list \<Rightarrow> wfs_atom set \<Rightarrow> wfs_atom set \<Rightarrow> bool" where
  "sound_stage rs T F =
     (T \<subseteq> derivable (set rs) F \<and> F \<subseteq> greatest_unfounded rs T F \<and> T \<inter> F = {} \<and> ruleless rs \<subseteq> F
      \<and> (\<forall>T' F'. pre_model rs T' F' \<longrightarrow> T \<subseteq> T' \<and> F \<subseteq> F'))"

lemma sound_stage_start: "sound_stage rs {} (ruleless rs)"
proof -
  have "ruleless rs \<subseteq> F'" if "pre_model rs T' F'" for T' F'
    using that ruleless_unfounded [of rs T' F'] by (auto simp: pre_model_def)
  then show ?thesis using ruleless_unfounded [of rs "{}" "ruleless rs"] by (simp add: sound_stage_def)
qed

lemma sound_stage_false:
  assumes "sound_stage rs T F"
  shows "sound_stage rs T (greatest_unfounded rs T F)" and "F \<subseteq> greatest_unfounded rs T F"
proof -
  let ?U = "greatest_unfounded rs T F"
  have s: "T \<subseteq> derivable (set rs) F" "F \<subseteq> ?U" "T \<inter> F = {}" "ruleless rs \<subseteq> F"
    and least: "\<And>T' F'. pre_model rs T' F' \<Longrightarrow> T \<subseteq> T' \<and> F \<subseteq> F'"
    using assms by (auto simp: sound_stage_def)
  show "F \<subseteq> ?U" by (rule s(2))
  have "T \<subseteq> derivable (set rs) ?U" using s(1) derivable_mono [OF subset_refl s(2)] by blast
  moreover have "?U \<subseteq> greatest_unfounded rs T ?U" by (rule greatest_unfounded_mono [OF subset_refl s(2)])
  moreover have "T \<inter> ?U = {}" using derivable_founded [OF s(3,2)] s(1) by blast
  moreover have "T \<subseteq> T' \<and> ?U \<subseteq> F'" if "pre_model rs T' F'" for T' F'
    using least [OF that] that greatest_unfounded_mono [of T T' F F' rs] by (auto simp: pre_model_def)
  ultimately show "sound_stage rs T ?U" using s(2,4) unfolding sound_stage_def by blast
qed

lemma sound_stage_true:
  assumes "sound_stage rs T F"
  shows "sound_stage rs (T \<union> consequences rs T F) F" and "consequences rs T F \<inter> F = {}"
proof -
  have s: "T \<subseteq> derivable (set rs) F" "F \<subseteq> greatest_unfounded rs T F" "T \<inter> F = {}" "ruleless rs \<subseteq> F"
    and least: "\<And>T' F'. pre_model rs T' F' \<Longrightarrow> T \<subseteq> T' \<and> F \<subseteq> F'"
    using assms by (auto simp: sound_stage_def)
  have der: "consequences rs T F \<subseteq> derivable (set rs) F"
  proof
    fix a assume "a \<in> consequences rs T F"
    then obtain r where r: "r \<in> set rs" "a = w_head r" "\<forall>l \<in> set (w_body r). literal_true T F l"
      by (auto simp: consequences_def)
    show "a \<in> derivable (set rs) F"
      unfolding r(2) by (rule derivable.derivable_rule)
        (use r(1,3) s(1) in \<open>auto simp: literal_true_def dest!: bspec\<close>)
  qed
  then show disj: "consequences rs T F \<inter> F = {}" using derivable_founded [OF s(3,2)] s(2) by blast
  have "F \<subseteq> greatest_unfounded rs (T \<union> consequences rs T F) F"
    using s(2) greatest_unfounded_mono [of T "T \<union> consequences rs T F" F F rs] by blast
  moreover have "T \<union> consequences rs T F \<subseteq> T' \<and> F \<subseteq> F'" if "pre_model rs T' F'" for T' F'
    using least [OF that] that consequences_mono [of T T' F F' rs] by (auto simp: pre_model_def)
  ultimately show "sound_stage rs (T \<union> consequences rs T F) F"
    using s der disj unfolding sound_stage_def by blast
qed

lemma sound_stage_done:
  assumes "sound_stage rs T F" and "greatest_unfounded rs T F \<subseteq> F" and "consequences rs T F \<subseteq> T"
  shows "well_founded_model rs T F"
  using assms by (intro least_pre_model) (auto simp: sound_stage_def pre_model_def)

section \<open>The context\<close>

definition indices_of :: "(nat \<times> wfs_rule) list \<Rightarrow> wfs_atom \<Rightarrow> nat list" where
  "indices_of ps a = map fst (filter (\<lambda>(i, r). w_head r = a) ps)"

lemma new_context_fold:
  fixes ctx :: wfs_context
  defines "step \<equiv> (\<lambda>(i, r) ctx :: wfs_context. ctx\<lparr>scc_atoms := List.insert (w_head r) (scc_atoms ctx),
         rules_by_head := (rules_by_head ctx)(w_head r \<mapsto>
           (case rules_by_head ctx (w_head r) of None \<Rightarrow> [] | Some is \<Rightarrow> is) @ [i])\<rparr>)"
  shows "ctx_rules (fold step ps ctx) = ctx_rules ctx
    \<and> set (scc_atoms (fold step ps ctx)) = set (scc_atoms ctx) \<union> w_head ` snd ` set ps
    \<and> (distinct (scc_atoms ctx) \<longrightarrow> distinct (scc_atoms (fold step ps ctx)))
    \<and> rules_by_head (fold step ps ctx) a =
        (if indices_of ps a = [] then rules_by_head ctx a
         else Some ((case rules_by_head ctx a of None \<Rightarrow> [] | Some is \<Rightarrow> is) @ indices_of ps a))"
proof (induction ps arbitrary: ctx)
  case Nil
  then show ?case by (simp add: indices_of_def)
next
  case (Cons p ps)
  obtain i r where p: "p = (i, r)" by (cases p)
  show ?case
    using Cons.IH [of "step p ctx"]
    by (auto simp: p step_def indices_of_def split: option.splits)
qed

lemma new_context_rules [simp]: "ctx_rules (new_context rs) = rs"
  using new_context_fold [of "indexed rs"] by (simp add: new_context_def)

lemma new_context_atoms [simp]: "set (scc_atoms (new_context rs)) = w_head ` set rs"
  using new_context_fold [of "indexed rs"] by (simp add: new_context_def flip: set_map)

lemma new_context_distinct [simp]: "distinct (scc_atoms (new_context rs))"
  using new_context_fold [of "indexed rs"] by (simp add: new_context_def)

lemma has_support_iff:
  "has_support (new_context rs) T F us a \<longleftrightarrow>
     (\<exists>r \<in> set rs. w_head r = a
        \<and> potentially_supporting T F us (scc_atoms (new_context rs)) (w_body r))"
proof -
  have by_head: "rules_by_head (new_context rs) a =
      (if indices_of (indexed rs) a = [] then None else Some (indices_of (indexed rs) a))"
    using new_context_fold [of "indexed rs" _ a] by (simp add: new_context_def)
  let ?ok = "\<lambda>r. potentially_supporting T F us (scc_atoms (new_context rs)) (w_body r)"
  have mem: "set (indices_of (indexed rs) a) = {i. i < length rs \<and> w_head (rs ! i) = a}"
    by (auto simp: indices_of_def set_indexed image_iff)
  have "has_support (new_context rs) T F us a \<longleftrightarrow> (\<exists>i \<in> set (indices_of (indexed rs) a). ?ok (rs ! i))"
    by (simp add: has_support_def by_head list_ex_iff)
  also have "\<dots> \<longleftrightarrow> (\<exists>r \<in> set rs. w_head r = a \<and> ?ok r)"
    unfolding mem Bex_def in_set_conv_nth mem_Collect_eq by blast
  finally show ?thesis .
qed

section \<open>The unfounded set computed\<close>

lemma potentially_supporting_iff:
  "potentially_supporting T F us scc ls \<longleftrightarrow>
     (\<forall>l \<in> set ls. case l of
        WPositive b \<Rightarrow> b \<notin> F \<and> (b \<in> T \<or> (b \<in> set scc \<and> b \<notin> set us))
      | WNegative b \<Rightarrow> b \<notin> T)"
  by (induction T F us scc ls rule: potentially_supporting.induct) auto

lemma supporting_not_blocked:
  assumes "T \<subseteq> w_head ` set rs" and "set us \<inter> T = {}"
  shows "potentially_supporting T F us (scc_atoms (new_context rs)) ls \<longleftrightarrow>
    (\<forall>l \<in> set ls. \<not> literal_blocked T (F \<union> ruleless rs) (set us) l)"
  unfolding potentially_supporting_iff
proof (rule ball_cong [OF refl])
  fix l
  show "(case l of
        WPositive b \<Rightarrow> b \<notin> F \<and> (b \<in> T \<or> (b \<in> set (scc_atoms (new_context rs)) \<and> b \<notin> set us))
      | WNegative b \<Rightarrow> b \<notin> T) = (\<not> literal_blocked T (F \<union> ruleless rs) (set us) l)"
    using assms by (cases l) (auto simp: literal_blocked_def ruleless_def)
qed

lemma unfounded_loop_ok:
  assumes "T \<subseteq> w_head ` set rs" and "set us \<inter> T = {}"
  shows "unfounded_set rs T (F \<union> ruleless rs) (set (unfounded_loop (new_context rs) T F us))
    \<and> set (unfounded_loop (new_context rs) T F us) \<subseteq> set us
    \<and> (\<forall>U. unfounded_set rs T (F \<union> ruleless rs) U \<longrightarrow> U \<inter> w_head ` set rs \<subseteq> set us
          \<longrightarrow> U \<inter> w_head ` set rs \<subseteq> set (unfounded_loop (new_context rs) T F us))
    \<and> (distinct us \<longrightarrow> distinct (unfounded_loop (new_context rs) T F us))"
  using assms(2)
proof (induction "length us" arbitrary: us rule: less_induct)
  case less
  let ?rm = "filter (has_support (new_context rs) T F us) us"
  let ?us = "filter (\<lambda>a. a \<notin> set ?rm) us"
  have sup: "has_support (new_context rs) T F us a \<longleftrightarrow>
      (\<exists>r \<in> set rs. w_head r = a
         \<and> (\<forall>l \<in> set (w_body r). \<not> literal_blocked T (F \<union> ruleless rs) (set us) l))" for a
    unfolding has_support_iff supporting_not_blocked [OF assms(1) less.prems] ..
  show ?case
  proof (cases "?rm = []")
    case True
    then have none: "\<forall>a \<in> set us. \<not> has_support (new_context rs) T F us a"
      by (simp add: filter_empty_conv)
    have "unfounded_loop (new_context rs) T F us = ?us"
      by (subst unfounded_loop.simps) (simp only: Let_def True if_True simp_thms)
    also have "?us = us" using True by (simp add: filter_empty_conv)
    finally have run: "unfounded_loop (new_context rs) T F us = us" .
    have "unfounded_set rs T (F \<union> ruleless rs) (set us)"
      unfolding unfounded_set_def using none sup by blast
    then show ?thesis unfolding run by blast
  next
    case False
    have run: "unfounded_loop (new_context rs) T F us = unfounded_loop (new_context rs) T F ?us"
      by (subst unfounded_loop.simps) (simp only: Let_def False if_False)
    have shorter: "length ?us < length us"
    proof -
      from False obtain a where "a \<in> set ?rm" by (cases ?rm) auto
      then show ?thesis by (intro length_filter_less [of a]) auto
    qed
    have disj: "set ?us \<inter> T = {}" using less.prems by auto
    have keep: "U \<inter> w_head ` set rs \<subseteq> set ?us"
      if U: "unfounded_set rs T (F \<union> ruleless rs) U" "U \<inter> w_head ` set rs \<subseteq> set us" for U
    proof
      fix a assume a: "a \<in> U \<inter> w_head ` set rs"
      have "\<not> has_support (new_context rs) T F us a"
      proof
        assume "has_support (new_context rs) T F us a"
        then obtain r where r: "r \<in> set rs" "w_head r = a"
          and nb: "\<forall>l \<in> set (w_body r). \<not> literal_blocked T (F \<union> ruleless rs) (set us) l"
          unfolding sup by blast
        obtain l where l: "l \<in> set (w_body r)" "literal_blocked T (F \<union> ruleless rs) U l"
          using U(1) r a by (auto simp: unfounded_set_def)
        have "literal_blocked T (F \<union> ruleless rs) (set us) l"
          using l(2) U(2) by (cases l) (auto simp: literal_blocked_def ruleless_def)
        then show False using nb l(1) by blast
      qed
      then show "a \<in> set ?us" using a U(2) by auto
    qed
    have ih: "unfounded_set rs T (F \<union> ruleless rs) (set (unfounded_loop (new_context rs) T F ?us))"
      "set (unfounded_loop (new_context rs) T F ?us) \<subseteq> set ?us"
      "\<forall>U. unfounded_set rs T (F \<union> ruleless rs) U \<longrightarrow> U \<inter> w_head ` set rs \<subseteq> set ?us
          \<longrightarrow> U \<inter> w_head ` set rs \<subseteq> set (unfounded_loop (new_context rs) T F ?us)"
      "distinct ?us \<longrightarrow> distinct (unfounded_loop (new_context rs) T F ?us)"
      using less.hyps [OF shorter disj] by (blast, blast, blast, blast)
    show ?thesis
      unfolding run using ih keep by (meson distinct_filter filter_is_subset subset_trans)
  qed
qed

text \<open>For an interpretation met by the iteration the computed set is the greatest unfounded set.\<close>

lemma compute_unfounded_greatest:
  assumes "T \<subseteq> w_head ` set rs" and "greatest_unfounded rs T (F \<union> ruleless rs) \<inter> T = {}"
  shows "set (compute_unfounded_set (new_context rs) T F)
      = greatest_unfounded rs T (F \<union> ruleless rs) \<inter> w_head ` set rs"
    and "distinct (compute_unfounded_set (new_context rs) T F)"
proof -
  let ?start = "filter (\<lambda>a. a \<notin> T) (scc_atoms (new_context rs))"
  have disj: "set ?start \<inter> T = {}" by auto
  note ok = unfounded_loop_ok [OF assms(1) disj, of F, folded compute_unfounded_set_def]
  note ok1 = ok [THEN conjunct1] and ok2 = ok [THEN conjunct2, THEN conjunct1]
    and ok3 = ok [THEN conjunct2, THEN conjunct2, THEN conjunct1]
    and ok4 = ok [THEN conjunct2, THEN conjunct2, THEN conjunct2]
  let ?G = "greatest_unfounded rs T (F \<union> ruleless rs)"
  let ?res = "set (compute_unfounded_set (new_context rs) T F)"
  have "?G \<inter> w_head ` set rs \<subseteq> set ?start" using assms(2) by auto
  then have "?G \<inter> w_head ` set rs \<subseteq> ?res"
    using ok3 greatest_unfounded_is_unfounded by blast
  moreover have "?res \<subseteq> w_head ` set rs" using subset_trans [OF ok2, of "w_head ` set rs"] by auto
  moreover have "?res \<subseteq> ?G" using unfounded_below [OF ok1] .
  ultimately show "?res = ?G \<inter> w_head ` set rs" by blast
  show "distinct (compute_unfounded_set (new_context rs) T F)" using ok4 by simp
qed

end
