(* ===== verification/Wfs_Correct.thy ===== *)
theory Wfs_Correct
  imports Wfs_Model
begin

text \<open>
  The evaluator of \<open>wfs.rs\<close> computes the well-founded model, always converges within one pass more
  than there are atoms, runs out of node identifiers only on graphs near the 32-bit limit, and
  builds provenance that is sound. The provenance is not complete: a derivation of an atom that
  becomes available after the atom is already true is not added (\<open>late_derivation_lost\<close>).
\<close>

definition hash_order :: "(wfs_atom list \<Rightarrow> wfs_atom list) \<Rightarrow> bool" where
  "hash_order order = (\<forall>xs. distinct xs \<longrightarrow> distinct (order xs) \<and> set (order xs) = set xs)"

section \<open>Rules that fire\<close>

lemma is_satisfied_iff:
  assumes "T \<subseteq> w_head ` set rs" and "T \<inter> F = {}"
  shows "is_satisfied T F (scc_atoms (new_context rs)) ls = Some True \<longleftrightarrow>
    (\<forall>l \<in> set ls. literal_true T (F \<union> ruleless rs) l)"
proof (induction ls)
  case (Cons l ls)
  show ?case
  proof (cases l)
    case (WPositive a)
    then show ?thesis using Cons assms by (auto simp: literal_true_def)
  next
    case (WNegative a)
    then show ?thesis using Cons assms by (auto simp: literal_true_def ruleless_def)
  qed
qed simp

definition fires :: "wfs_rule list \<Rightarrow> wfs_atom set \<Rightarrow> wfs_atom set \<Rightarrow> wfs_rule \<Rightarrow> bool" where
  "fires rs T F r =
     (w_head r \<notin> T \<and> w_head r \<notin> F \<and> (\<forall>l \<in> set (w_body r). literal_true T (F \<union> ruleless rs) l))"

lemma pir_add_disjunct_arena: "pir_add_disjunct table k f g = arena.add_disjunct table k f g"
  by (simp add: pir_add_disjunct_def arena.add_disjunct_def)

lemma push_room: "length (nodes g) < 2 ^ 32 \<Longrightarrow> \<exists>i g'. push_node nd g = Some (i, g')"
  by (simp add: push_node_nat)

lemma push_length: "push_node nd g = Some (i, g') \<Longrightarrow> length (nodes g') = Suc (length (nodes g))"
  by (rule push_node_Some(4))

lemma add_disjunct_length:
  assumes "pir_add_disjunct table k f g = Some (table', g')"
  shows "length (nodes g') \<le> length (nodes g) + 2"
  using assms
  by (auto simp: pir_add_disjunct_def pir_const_false_def pir_or_def split: option.splits
      dest!: push_length)

lemma add_disjunct_room:
  assumes "length (nodes g) + 2 \<le> 2 ^ 32"
  shows "pir_add_disjunct table k f g \<noteq> None"
proof (cases "table k")
  case None
  obtain i g1 where g1: "push_node (PConst False) g = Some (i, g1)"
    using push_room [of g "PConst False"] assms by auto
  moreover have "length (nodes g1) < 2 ^ 32" using push_length [OF g1] assms by simp
  ultimately show ?thesis
    using None push_room [of g1 "POr [i, f]"]
    by (auto simp: pir_add_disjunct_def pir_const_false_def pir_or_def)
next
  case (Some old)
  then show ?thesis
    using push_room [of g "POr [old, f]"] assms by (auto simp: pir_add_disjunct_def pir_or_def)
qed

text \<open>The conjunction of the parts of a rule.\<close>

lemma conj_parts_ok:
  assumes "well_ordered g" and "\<forall>p \<in> set parts. unat p < length (nodes g)"
    and run: "conj_parts parts g = Some (i, g')"
  shows "well_ordered g' \<and> grows g g' \<and> unat i < length (nodes g')
    \<and> (\<forall>\<nu> \<chi>. holds g' \<nu> \<chi> i = (\<forall>p \<in> set parts. holds g \<nu> \<chi> p))
    \<and> length (nodes g') \<le> Suc (length (nodes g))"
proof (cases "\<exists>p. parts = [p]")
  case True
  then show ?thesis using assms by (auto simp: conj_parts_def)
next
  case False
  then have run': "pir_and parts g = Some (i, g')"
    using run by (cases parts; cases "tl parts") (auto simp: conj_parts_def)
  then have "length (nodes g') = Suc (length (nodes g))" by (simp add: pir_and_def push_length)
  then show ?thesis using arena.conj_ok [OF assms(1,2) run'] by simp
qed

lemma conj_parts_room: "length (nodes g) < 2 ^ 32 \<Longrightarrow> conj_parts parts g \<noteq> None"
  using push_room [of g "PAnd parts"]
  by (auto simp: conj_parts_def pir_and_def split: list.splits)

lemma set_map_filter: "set (List.map_filter f xs) = {y. \<exists>x \<in> set xs. f x = Some y}"
  by (induction xs) (auto simp: List.map_filter_simps split: option.splits)

lemma provenance_parts_set:
  "p \<in> set (provenance_parts existing r) \<longleftrightarrow>
     p = w_provenance r \<or> (\<exists>b. WPositive b \<in> set (w_body r) \<and> existing b = Some p)"
proof -
  have "(\<exists>l \<in> set (w_body r). (case l of WPositive a \<Rightarrow> existing a | WNegative _ \<Rightarrow> None) = Some p) \<longleftrightarrow>
      (\<exists>b. WPositive b \<in> set (w_body r) \<and> existing b = Some p)"
    (is "?L = ?R")
  proof
    assume ?L
    then obtain l where l: "l \<in> set (w_body r)"
      "(case l of WPositive a \<Rightarrow> existing a | WNegative _ \<Rightarrow> None) = Some p" by blast
    show ?R
    proof (cases l)
      case (WPositive a)
      then show ?thesis using l by auto
    next
      case (WNegative a)
      then show ?thesis using l(2) by simp
    qed
  next
    assume ?R
    then obtain b where "WPositive b \<in> set (w_body r)" "existing b = Some p" by blast
    then show ?L by (intro bexI [of _ "WPositive b"]) simp_all
  qed
  then show ?thesis by (simp add: provenance_parts_def set_map_filter)
qed

text \<open>What a rule instance contributes under an assignment.\<close>

definition supports ::
    "pir_graph \<Rightarrow> (wfs_atom \<rightharpoonup> node_id) \<Rightarrow> (leaf_id \<Rightarrow> bool) \<Rightarrow> (choice_var_id \<Rightarrow> bool) \<Rightarrow> wfs_rule \<Rightarrow> bool"
  where
  "supports g existing \<nu> \<chi> r =
     (holds g \<nu> \<chi> (w_provenance r)
      \<and> (\<forall>b. WPositive b \<in> set (w_body r) \<longrightarrow> arena.table_sem existing g \<nu> \<chi> b))"

lemma parts_supports:
  assumes "\<forall>b. WPositive b \<in> set (w_body r) \<longrightarrow> existing b \<noteq> None"
  shows "(\<forall>p \<in> set (provenance_parts existing r). holds g \<nu> \<chi> p) = supports g existing \<nu> \<chi> r"
  unfolding supports_def Ball_def provenance_parts_set arena.table_sem_def using assms
  by (auto split: option.splits)

section \<open>One round of consequences\<close>

text \<open>The state after the rules \<open>done\<close>, started on the graph \<open>g0\<close>.\<close>

definition derive_inv ::
    "wfs_rule list \<Rightarrow> wfs_atom set \<Rightarrow> wfs_atom set \<Rightarrow> (wfs_atom \<rightharpoonup> node_id) \<Rightarrow> pir_graph \<Rightarrow> wfs_rule list
     \<Rightarrow> new_true \<times> pir_graph \<Rightarrow> bool" where
  "derive_inv rs T F existing g0 processed = (\<lambda>((keys, table), g).
     distinct keys \<and> set keys = w_head ` {r \<in> set processed. fires rs T F r} \<and> dom table = set keys
     \<and> well_ordered g \<and> grows g0 g \<and> arena.table_defined table g
     \<and> length (nodes g) \<le> length (nodes g0) + 3 * length (filter (fires rs T F) processed)
     \<and> (\<forall>\<nu> \<chi> a. arena.table_sem table g \<nu> \<chi> a =
          (\<exists>r \<in> set processed. fires rs T F r \<and> w_head r = a \<and> supports g0 existing \<nu> \<chi> r)))"

lemma derive_rule_eq:
  assumes "T \<subseteq> w_head ` set rs" and "T \<inter> F = {}"
  shows "derive_rule (new_context rs) T F existing r ((keys, table), g) =
    (if fires rs T F r
     then (case conj_parts (provenance_parts existing r) g of
             None \<Rightarrow> None
           | Some (p, g') \<Rightarrow>
               map_option (\<lambda>(table', g''). ((List.insert (w_head r) keys, table'), g''))
                 (pir_add_disjunct table (w_head r) p g'))
     else Some ((keys, table), g))"
  using is_satisfied_iff [OF assms, of "w_body r"]
  by (auto simp: derive_rule_def fires_def)

lemma derive_rule_step:
  assumes T: "T \<subseteq> w_head ` set rs" "T \<inter> F = {}" "dom existing = T"
    and g0: "well_ordered g0" "arena.table_defined existing g0" "unat (w_provenance r) < length (nodes g0)"
    and inv: "derive_inv rs T F existing g0 processed st"
    and run: "derive_rule (new_context rs) T F existing r st = Some st'"
  shows "derive_inv rs T F existing g0 (processed @ [r]) st'"
proof -
  obtain keys table g where st: "st = ((keys, table), g)" by (cases st) auto
  have i: "distinct keys" "set keys = w_head ` {r \<in> set processed. fires rs T F r}" "dom table = set keys"
    "well_ordered g" "grows g0 g" "arena.table_defined table g"
    "length (nodes g) \<le> length (nodes g0) + 3 * length (filter (fires rs T F) processed)"
    and sem: "\<And>\<nu> \<chi> a. arena.table_sem table g \<nu> \<chi> a =
          (\<exists>r \<in> set processed. fires rs T F r \<and> w_head r = a \<and> supports g0 existing \<nu> \<chi> r)"
    using inv by (simp_all add: derive_inv_def st)
  show ?thesis
  proof (cases "fires rs T F r")
    case False
    then have "st' = st" using run by (simp add: st derive_rule_eq [OF T(1,2)])
    then show ?thesis using i sem False by (auto simp: derive_inv_def st)
  next
    case True
    obtain p g1 where p: "conj_parts (provenance_parts existing r) g = Some (p, g1)"
      and rest: "map_option (\<lambda>(table', g''). ((List.insert (w_head r) keys, table'), g''))
                 (pir_add_disjunct table (w_head r) p g1) = Some st'"
      using run True by (auto simp: st derive_rule_eq [OF T(1,2)] split: option.splits)
    obtain table' g2 where d: "pir_add_disjunct table (w_head r) p g1 = Some (table', g2)"
      and st': "st' = ((List.insert (w_head r) keys, table'), g2)"
      using rest by auto
    have body: "\<forall>b. WPositive b \<in> set (w_body r) \<longrightarrow> existing b \<noteq> None"
      using True T(3) by (auto simp: fires_def literal_true_def dest!: bspec)
    have parts0: "unat q < length (nodes g0)" if "q \<in> set (provenance_parts existing r)" for q
      using that g0(2,3) by (auto simp: provenance_parts_set arena.table_defined_def)
    then have parts: "\<forall>q \<in> set (provenance_parts existing r). unat q < length (nodes g)"
      using grows_length [OF i(5)] by (meson less_le_trans)
    note c = conj_parts_ok [OF i(4) parts p]
    have g1: "well_ordered g1" "grows g g1" "unat p < length (nodes g1)" using c by auto
    have p_sem: "holds g1 \<nu> \<chi> p = supports g0 existing \<nu> \<chi> r" for \<nu> \<chi>
    proof -
      have "holds g1 \<nu> \<chi> p = (\<forall>q \<in> set (provenance_parts existing r). holds g \<nu> \<chi> q)" using c by blast
      also have "\<dots> = (\<forall>q \<in> set (provenance_parts existing r). holds g0 \<nu> \<chi> q)"
        using holds_grows [OF g0(1) i(5)] parts0 by blast
      finally show ?thesis using parts_supports [OF body] by simp
    qed
    have tab1: "arena.table_defined table g1" using arena.table_defined_extends [OF g1(2) i(6)] .
    note a = arena.add_disjunct_ok [OF g1(1) tab1 g1(3) d [unfolded pir_add_disjunct_arena]]
    have dom': "dom table' = insert (w_head r) (dom table)" using a by blast
    have sem': "arena.table_sem table' g2 \<nu> \<chi> k =
        (arena.table_sem table g \<nu> \<chi> k \<or> (k = w_head r \<and> supports g0 existing \<nu> \<chi> r))" for \<nu> \<chi> k
      using a p_sem arena.table_sem_extends [OF i(4) g1(2) i(6)] by blast
    have "length (nodes g2) \<le> length (nodes g) + 3"
      using add_disjunct_length [OF d] c by linarith
    then have "length (nodes g2) \<le> length (nodes g0) + 3 * length (filter (fires rs T F) (processed @ [r]))"
      using i(7) True by simp
    moreover have "grows g0 g2" using grows_trans [OF i(5) grows_trans [OF g1(2)]] a by blast
    moreover have "set (List.insert (w_head r) keys)
        = w_head ` {r' \<in> set (processed @ [r]). fires rs T F r'}"
      using i(2) True by auto
    moreover have "arena.table_sem table' g2 \<nu> \<chi> k = (\<exists>r' \<in> set (processed @ [r]).
        fires rs T F r' \<and> w_head r' = k \<and> supports g0 existing \<nu> \<chi> r')" for \<nu> \<chi> k
      unfolding sem' sem using True by auto
    moreover have "dom table' = set (List.insert (w_head r) keys)" using dom' i(3) by simp
    moreover have "distinct (List.insert (w_head r) keys)" using i(1) by simp
    moreover have "well_ordered g2" "arena.table_defined table' g2" using a by blast+
    ultimately show ?thesis unfolding derive_inv_def st' prod.case by blast
  qed
qed

lemma derive_rule_room:
  assumes T: "T \<subseteq> w_head ` set rs" "T \<inter> F = {}"
    and g0: "arena.table_defined existing g0" "unat (w_provenance r) < length (nodes g0)"
    and inv: "derive_inv rs T F existing g0 processed st"
    and room: "length (nodes g0) + 3 * length (filter (fires rs T F) (processed @ [r])) \<le> 2 ^ 32"
  shows "derive_rule (new_context rs) T F existing r st \<noteq> None"
proof -
  obtain keys table g where st: "st = ((keys, table), g)" by (cases st) auto
  have i: "well_ordered g" "grows g0 g"
    and len: "length (nodes g) \<le> length (nodes g0) + 3 * length (filter (fires rs T F) processed)"
    using inv by (simp_all add: derive_inv_def st)
  show ?thesis
  proof (cases "fires rs T F r")
    case True
    then have len3: "length (nodes g) + 3 \<le> 2 ^ 32" using len room by simp
    obtain p g1 where p: "conj_parts (provenance_parts existing r) g = Some (p, g1)"
      using conj_parts_room [of g] len3 by fastforce
    have "\<forall>q \<in> set (provenance_parts existing r). unat q < length (nodes g0)"
      using g0 by (auto simp: provenance_parts_set arena.table_defined_def)
    then have "\<forall>q \<in> set (provenance_parts existing r). unat q < length (nodes g)"
      using grows_length [OF i(2)] by (meson less_le_trans)
    then have "length (nodes g1) \<le> Suc (length (nodes g))" using conj_parts_ok [OF i(1) _ p] by blast
    then have "pir_add_disjunct table (w_head r) p g1 \<noteq> None"
      using len3 by (intro add_disjunct_room) simp
    then show ?thesis using True p by (auto simp: st derive_rule_eq [OF T])
  next
    case False
    then show ?thesis by (simp add: st derive_rule_eq [OF T])
  qed
qed

lemma derive_loop:
  assumes T: "T \<subseteq> w_head ` set rs" "T \<inter> F = {}" "dom existing = T"
    and g0: "well_ordered g0" "arena.table_defined existing g0"
      "\<forall>r \<in> set todo. unat (w_provenance r) < length (nodes g0)"
    and inv: "derive_inv rs T F existing g0 processed st"
  shows "(\<forall>st'. fold_option (derive_rule (new_context rs) T F existing) todo st = Some st'
        \<longrightarrow> derive_inv rs T F existing g0 (processed @ todo) st')
    \<and> (length (nodes g0) + 3 * length (filter (fires rs T F) (processed @ todo)) \<le> 2 ^ 32
        \<longrightarrow> fold_option (derive_rule (new_context rs) T F existing) todo st \<noteq> None)"
  using g0(3) inv
proof (induction todo arbitrary: processed st)
  case (Cons r todo)
  have p: "unat (w_provenance r) < length (nodes g0)" using Cons.prems(1) by simp
  show ?case
  proof (cases "derive_rule (new_context rs) T F existing r st")
    case None
    have "\<not> length (nodes g0) + 3 * length (filter (fires rs T F) (processed @ [r])) \<le> 2 ^ 32"
      using derive_rule_room [OF T(1,2) g0(2) p Cons.prems(2)] None by blast
    then show ?thesis using None by auto
  next
    case (Some st1)
    have "derive_inv rs T F existing g0 (processed @ [r]) st1"
      by (rule derive_rule_step [OF T g0(1,2) p Cons.prems(2) Some])
    from Cons.IH [OF _ this] Cons.prems(1) Some show ?thesis by simp
  qed
qed simp

lemma derive_consequences_ok:
  assumes T: "T \<subseteq> w_head ` set rs" "T \<inter> F = {}" "dom existing = T"
    and g0: "well_ordered g0" "arena.table_defined existing g0"
      "\<forall>r \<in> set rs. unat (w_provenance r) < length (nodes g0)"
  shows "(\<forall>st'. derive_consequences (new_context rs) T F existing g0 = Some st'
        \<longrightarrow> derive_inv rs T F existing g0 rs st')
    \<and> (length (nodes g0) + 3 * length (filter (fires rs T F) rs) \<le> 2 ^ 32
        \<longrightarrow> derive_consequences (new_context rs) T F existing g0 \<noteq> None)"
proof -
  have "derive_inv rs T F existing g0 [] (([], Map.empty), g0)"
    using g0(1) by (simp add: derive_inv_def arena.table_defined_def arena.table_sem_def)
  from derive_loop [OF T g0 this] show ?thesis by (simp add: derive_consequences_def)
qed

section \<open>Taking over the new true atoms\<close>

lemma add_true_loop:
  assumes "distinct keys" and "set keys \<inter> ws_true st = {}" and "set keys \<subseteq> dom table"
    and "well_ordered (ws_pir st)" and "arena.table_defined (ws_prov st) (ws_pir st)"
    and "arena.table_defined table (ws_pir st)"
  shows "(\<forall>st'. fold_option (add_true table) keys st = Some st' \<longrightarrow>
      ws_true st' = ws_true st \<union> set keys \<and> ws_false st' = ws_false st
      \<and> dom (ws_prov st') = dom (ws_prov st) \<union> set keys
      \<and> well_ordered (ws_pir st') \<and> grows (ws_pir st) (ws_pir st')
      \<and> arena.table_defined (ws_prov st') (ws_pir st')
      \<and> length (nodes (ws_pir st')) \<le> length (nodes (ws_pir st)) + 2 * length keys
      \<and> (\<forall>\<nu> \<chi> a. arena.table_sem (ws_prov st') (ws_pir st') \<nu> \<chi> a =
           (arena.table_sem (ws_prov st) (ws_pir st) \<nu> \<chi> a
            \<or> (a \<in> set keys \<and> arena.table_sem table (ws_pir st) \<nu> \<chi> a))))
    \<and> (length (nodes (ws_pir st)) + 2 * length keys \<le> 2 ^ 32
        \<longrightarrow> fold_option (add_true table) keys st \<noteq> None)"
  using assms
proof (induction keys arbitrary: st)
  case (Cons k keys)
  let ?g = "ws_pir st"
  have kT: "k \<notin> ws_true st" and kd: "k \<notin> set keys" using Cons.prems(1,2) by auto
  obtain f where f: "table k = Some f" using Cons.prems(3) by auto
  have fd: "unat f < length (nodes ?g)" using Cons.prems(6) f by (simp add: arena.table_defined_def)
  show ?case
  proof (cases "pir_add_disjunct (ws_prov st) k f ?g")
    case None
    then have "\<not> length (nodes ?g) + 2 \<le> 2 ^ 32"
      using add_disjunct_room [of ?g "ws_prov st" k f] by auto
    then show ?thesis using None kT f by (simp add: add_true_def)
  next
    case (Some r)
    then obtain prov g1 where r: "pir_add_disjunct (ws_prov st) k f ?g = Some (prov, g1)"
      by (cases r) auto
    define st1 where "st1 = st\<lparr>ws_true := insert k (ws_true st), ws_prov := prov, ws_pir := g1\<rparr>"
    have st1: "ws_true st1 = insert k (ws_true st)" "ws_false st1 = ws_false st" "ws_prov st1 = prov"
      "ws_pir st1 = g1" by (simp_all add: st1_def)
    have step: "add_true table k st = Some st1" using kT f r by (simp add: add_true_def st1_def)
    note a = arena.add_disjunct_ok [OF Cons.prems(4,5) fd r [unfolded pir_add_disjunct_arena]]
    have g1: "well_ordered g1" "grows ?g g1" "arena.table_defined prov g1" "dom prov = insert k (dom (ws_prov st))"
      using a by blast+
    have sem1: "arena.table_sem prov g1 \<nu> \<chi> k' =
        (arena.table_sem (ws_prov st) ?g \<nu> \<chi> k' \<or> (k' = k \<and> arena.table_sem table ?g \<nu> \<chi> k))" for \<nu> \<chi> k'
      using a f by (simp add: arena.table_sem_def [of table])
    have tab1: "arena.table_defined table g1" using arena.table_defined_extends [OF g1(2) Cons.prems(6)] .
    have tsem: "arena.table_sem table g1 \<nu> \<chi> k' = arena.table_sem table ?g \<nu> \<chi> k'" for \<nu> \<chi> k'
      using arena.table_sem_extends [OF Cons.prems(4) g1(2) Cons.prems(6)] .
    have len1: "length (nodes g1) \<le> length (nodes ?g) + 2" by (rule add_disjunct_length [OF r])
    have "distinct keys" "set keys \<inter> ws_true st1 = {}" "set keys \<subseteq> dom table" "well_ordered (ws_pir st1)"
      "arena.table_defined (ws_prov st1) (ws_pir st1)" "arena.table_defined table (ws_pir st1)"
      using Cons.prems(1-3) kd g1 tab1 by (auto simp: st1)
    note ih = Cons.IH [OF this, unfolded st1]
    show ?thesis
    proof (intro conjI allI impI)
      fix st' assume "fold_option (add_true table) (k # keys) st = Some st'"
      then have "fold_option (add_true table) keys st1 = Some st'" by (simp add: step)
      note h = ih [THEN conjunct1, rule_format, OF this]
      show "ws_true st' = ws_true st \<union> set (k # keys)" using h by auto
      show "ws_false st' = ws_false st" using h by blast
      show "dom (ws_prov st') = dom (ws_prov st) \<union> set (k # keys)" using h g1(4) by auto
      show "well_ordered (ws_pir st')" using h by blast
      show "grows ?g (ws_pir st')" using h grows_trans [OF g1(2)] by blast
      show "arena.table_defined (ws_prov st') (ws_pir st')" using h by blast
      show "length (nodes (ws_pir st')) \<le> length (nodes ?g) + 2 * length (k # keys)" using h len1 by simp
      show "arena.table_sem (ws_prov st') (ws_pir st') \<nu> \<chi> a =
           (arena.table_sem (ws_prov st) ?g \<nu> \<chi> a \<or> (a \<in> set (k # keys) \<and> arena.table_sem table ?g \<nu> \<chi> a))"
        for \<nu> \<chi> a using h sem1 tsem by auto
    next
      assume "length (nodes ?g) + 2 * length (k # keys) \<le> 2 ^ 32"
      then have "length (nodes g1) + 2 * length keys \<le> 2 ^ 32" using len1 by simp
      then show "fold_option (add_true table) (k # keys) st \<noteq> None" using ih by (simp add: step)
    qed
  qed
qed simp

section \<open>One pass\<close>

definition heads :: "wfs_rule list \<Rightarrow> wfs_atom set" where
  "heads rs = w_head ` set rs"

definition enabled :: "wfs_rule list \<Rightarrow> pir_graph \<Rightarrow> (leaf_id \<Rightarrow> bool) \<Rightarrow> (choice_var_id \<Rightarrow> bool) \<Rightarrow> wfs_rule set"
  where
  "enabled rs g \<nu> \<chi> = {r \<in> set rs. holds g \<nu> \<chi> (w_provenance r)}"

definition stage :: "wfs_rule list \<Rightarrow> pir_graph \<Rightarrow> wfs_state \<Rightarrow> bool" where
  "stage rs g0 st =
     (sound_stage rs (ws_true st) (ws_false st \<union> ruleless rs)
      \<and> ws_true st \<subseteq> w_head ` set rs \<and> ws_false st \<subseteq> w_head ` set rs \<and> dom (ws_prov st) = ws_true st
      \<and> well_ordered (ws_pir st) \<and> grows g0 (ws_pir st) \<and> arena.table_defined (ws_prov st) (ws_pir st)
      \<and> length (nodes (ws_pir st))
          \<le> length (nodes g0) + 5 * length (filter (\<lambda>r. w_head r \<in> ws_true st) rs)
      \<and> (\<forall>\<nu> \<chi> a. arena.table_sem (ws_prov st) (ws_pir st) \<nu> \<chi> a
           \<longrightarrow> a \<in> derivable (enabled rs g0 \<nu> \<chi>) (ws_false st \<union> ruleless rs))
      \<and> (\<forall>\<nu> \<chi> a. enabled rs g0 \<nu> \<chi> = set rs \<longrightarrow> a \<in> ws_true st
           \<longrightarrow> arena.table_sem (ws_prov st) (ws_pir st) \<nu> \<chi> a))"

lemma stage_start:
  assumes "well_ordered g0"
  shows "stage rs g0 \<lparr>ws_true = {}, ws_prov = Map.empty, ws_false = {}, ws_pir = g0\<rparr>"
  using assms sound_stage_start [of rs]
  by (simp add: stage_def arena.table_defined_def arena.table_sem_def)

lemma fires_consequences:
  assumes "T \<inter> (F \<union> ruleless rs) = {}" and "consequences rs T (F \<union> ruleless rs) \<inter> (F \<union> ruleless rs) = {}"
  shows "w_head ` {r \<in> set rs. fires rs T F r} = consequences rs T (F \<union> ruleless rs) - T"
  using assms by (fastforce simp: fires_def consequences_def)

lemma fires_disjoint_count:
  "length (filter (\<lambda>r. w_head r \<in> T) rs) + length (filter (fires rs' T F) rs) \<le> length rs"
  by (induction rs) (auto simp: fires_def)

lemma fires_count:
  assumes "T \<subseteq> T'" and "\<forall>r \<in> set rs. fires rs' T F r \<longrightarrow> w_head r \<in> T'"
  shows "length (filter (\<lambda>r. w_head r \<in> T) rs) + length (filter (fires rs' T F) rs)
    \<le> length (filter (\<lambda>r. w_head r \<in> T') rs)"
  using assms(2)
proof (induction rs)
  case (Cons r rs)
  have "\<not> fires rs' T F r" if "w_head r \<in> T" using that by (simp add: fires_def)
  then show ?case using Cons assms(1) by auto
qed simp

lemma stage_pass:
  assumes order: "hash_order order" and g0: "well_ordered g0"
    and provs: "\<forall>r \<in> set rs. unat (w_provenance r) < length (nodes g0)"
    and st: "stage rs g0 st"
  defines "F' \<equiv> greatest_unfounded rs (ws_true st) (ws_false st \<union> ruleless rs)"
  shows "(\<forall>st' changed. wfs_pass order (new_context rs) st = Some (st', changed) \<longrightarrow>
      stage rs g0 st' \<and> ws_true st' = ws_true st \<union> consequences rs (ws_true st) F'
      \<and> ws_false st' \<union> ruleless rs = F' \<and> ws_false st \<subseteq> ws_false st'
      \<and> (changed \<longleftrightarrow> \<not> (F' \<subseteq> ws_false st \<union> ruleless rs \<and> consequences rs (ws_true st) F' \<subseteq> ws_true st)))
    \<and> (length (nodes g0) + 5 * length rs \<le> 2 ^ 32 \<longrightarrow> wfs_pass order (new_context rs) st \<noteq> None)"
proof -
  let ?T = "ws_true st" and ?F = "ws_false st" and ?g = "ws_pir st" and ?ctx = "new_context rs"
  have sound: "sound_stage rs ?T (?F \<union> ruleless rs)" and TF: "?T \<subseteq> w_head ` set rs" "?F \<subseteq> w_head ` set rs"
    and prov: "dom (ws_prov st) = ?T" and g: "well_ordered ?g" "grows g0 ?g"
    and tab: "arena.table_defined (ws_prov st) ?g"
    and len: "length (nodes ?g) \<le> length (nodes g0) + 5 * length (filter (\<lambda>r. w_head r \<in> ?T) rs)"
    and snd: "\<And>\<nu> \<chi> a. arena.table_sem (ws_prov st) ?g \<nu> \<chi> a
           \<Longrightarrow> a \<in> derivable (enabled rs g0 \<nu> \<chi>) (?F \<union> ruleless rs)"
    and cmp: "\<And>\<nu> \<chi> a. enabled rs g0 \<nu> \<chi> = set rs \<Longrightarrow> a \<in> ?T \<Longrightarrow> arena.table_sem (ws_prov st) ?g \<nu> \<chi> a"
    using st unfolding stage_def by blast+
  define us where "us = compute_unfounded_set ?ctx ?T ?F"
  define new_false where "new_false = filter (\<lambda>a. a \<notin> ?F) us"
  define false_set where "false_set = ?F \<union> set new_false"
  have sound1: "sound_stage rs ?T F'" and FF': "?F \<union> ruleless rs \<subseteq> F'"
    unfolding F'_def by (rule sound_stage_false [OF sound])+
  have disj: "?T \<inter> F' = {}" using sound1 by (simp add: sound_stage_def)
  have us: "set us = F' \<inter> w_head ` set rs"
    unfolding us_def F'_def
    by (rule compute_unfounded_greatest(1) [OF TF(1)]) (use disj in \<open>auto simp: F'_def\<close>)
  have fs: "false_set \<union> ruleless rs = F'" "false_set = F' \<inter> w_head ` set rs"
    using us FF' TF(2) by (auto simp: false_set_def new_false_def ruleless_def)
  have nf: "new_false = [] \<longleftrightarrow> F' \<subseteq> ?F \<union> ruleless rs"
    using us FF' by (auto simp: new_false_def filter_empty_conv ruleless_def)
  have sound2: "sound_stage rs (?T \<union> consequences rs ?T F') F'" and cF: "consequences rs ?T F' \<inter> F' = {}"
    by (rule sound_stage_true [OF sound1])+
  have Tfs: "?T \<inter> false_set = {}" using disj fs by blast
  have provs': "\<forall>r \<in> set rs. unat (w_provenance r) < length (nodes ?g)"
    using provs grows_length [OF g(2)] by (meson less_le_trans)
  note der = derive_consequences_ok [OF TF(1) Tfs prov g(1) tab provs']
  have fire: "w_head ` {r \<in> set rs. fires rs ?T false_set r} = consequences rs ?T F' - ?T"
    using fires_consequences [of ?T false_set rs] disj cF by (simp add: fs(1))
  show ?thesis
  proof (cases "derive_consequences ?ctx ?T false_set (ws_prov st) ?g")
    case None
    have "length (filter (\<lambda>r. w_head r \<in> ?T) rs) + length (filter (fires rs ?T false_set) rs) \<le> length rs"
      using fires_disjoint_count [of ?T rs rs false_set] .
    moreover have "\<not> length (nodes ?g) + 3 * length (filter (fires rs ?T false_set) rs) \<le> 2 ^ 32"
      using der None by blast
    ultimately have "\<not> length (nodes g0) + 5 * length rs \<le> 2 ^ 32" using len by linarith
    moreover have "wfs_pass order ?ctx st = None"
      unfolding wfs_pass_def Let_def us_def [symmetric] new_false_def [symmetric] false_set_def [symmetric]
        None by simp
    ultimately show ?thesis by simp
  next
    case (Some d)
    obtain keys table g1 where d: "d = ((keys, table), g1)" by (cases d) auto
    have inv: "derive_inv rs ?T false_set (ws_prov st) ?g rs ((keys, table), g1)"
      using der Some d by blast
    then have keys: "distinct keys" "set keys = consequences rs ?T F' - ?T" "dom table = set keys"
      and g1: "well_ordered g1" "grows ?g g1" and tab_new: "arena.table_defined table g1"
      and len1: "length (nodes g1) \<le> length (nodes ?g) + 3 * length (filter (fires rs ?T false_set) rs)"
      and sem: "\<And>\<nu> \<chi> a. arena.table_sem table g1 \<nu> \<chi> a =
          (\<exists>r \<in> set rs. fires rs ?T false_set r \<and> w_head r = a \<and> supports ?g (ws_prov st) \<nu> \<chi> r)"
      using fire by (simp_all add: derive_inv_def)
    have ord: "distinct (order keys)" "set (order keys) = set keys"
      using order keys(1) by (simp_all add: hash_order_def)
    have nkeys: "length (order keys) \<le> length (filter (fires rs ?T false_set) rs)"
    proof -
      have "length (order keys) = card (set keys)" using distinct_card [OF ord(1)] ord(2) by simp
      also have "set keys = set (map w_head (filter (fires rs ?T false_set) rs))"
        unfolding keys(2) fire [symmetric] by auto
      also have "card \<dots> \<le> length (map w_head (filter (fires rs ?T false_set) rs))" by (rule card_length)
      finally show ?thesis by simp
    qed
    define st0 where "st0 = st\<lparr>ws_false := false_set, ws_pir := g1\<rparr>"
    have st0: "ws_true st0 = ?T" "ws_false st0 = false_set" "ws_prov st0 = ws_prov st" "ws_pir st0 = g1"
      by (simp_all add: st0_def)
    have pass: "wfs_pass order ?ctx st =
        map_option (\<lambda>st'. (st', \<not> (new_false = [] \<and> keys = []))) (fold_option (add_true table) (order keys) st0)"
      unfolding wfs_pass_def Let_def us_def [symmetric] new_false_def [symmetric] false_set_def [symmetric]
        st0_def Some d by simp
    have tab1: "arena.table_defined (ws_prov st) g1" using arena.table_defined_extends [OF g1(2) tab] .
    have "distinct (order keys)" "set (order keys) \<inter> ws_true st0 = {}" "set (order keys) \<subseteq> dom table"
      "well_ordered (ws_pir st0)" "arena.table_defined (ws_prov st0) (ws_pir st0)"
      "arena.table_defined table (ws_pir st0)"
      using ord keys g1 tab1 tab_new by (auto simp: st0)
    note add = add_true_loop [OF this, unfolded st0]
    have old_sem: "arena.table_sem (ws_prov st) g1 \<nu> \<chi> a = arena.table_sem (ws_prov st) ?g \<nu> \<chi> a" for \<nu> \<chi> a
      using arena.table_sem_extends [OF g(1) g1(2) tab] .
    have base: "holds ?g \<nu> \<chi> (w_provenance r) = holds g0 \<nu> \<chi> (w_provenance r)" if "r \<in> set rs" for \<nu> \<chi> r
      using holds_grows [OF g0 g(2)] provs that by blast
    show ?thesis
    proof (intro conjI allI impI)
      fix st' changed assume "wfs_pass order ?ctx st = Some (st', changed)"
      then have run: "fold_option (add_true table) (order keys) st0 = Some st'"
        and changed: "changed = (\<not> (new_false = [] \<and> keys = []))"
        unfolding pass by auto
      note h = add [THEN conjunct1, rule_format, OF run, unfolded ord(2) old_sem]
      have T': "ws_true st' = ?T \<union> consequences rs ?T F'" using h keys(2) by auto
      have F': "ws_false st' = false_set" using h by blast
      show "ws_true st' = ?T \<union> consequences rs ?T F'" by (rule T')
      show "ws_false st' \<union> ruleless rs = F'" unfolding F' by (rule fs(1))
      show "ws_false st \<subseteq> ws_false st'" unfolding F' by (simp add: false_set_def)
      show "changed \<longleftrightarrow> \<not> (F' \<subseteq> ?F \<union> ruleless rs \<and> consequences rs ?T F' \<subseteq> ?T)"
        using changed nf keys(2) by (cases keys) auto
      have sem': "arena.table_sem (ws_prov st') (ws_pir st') \<nu> \<chi> a =
          (arena.table_sem (ws_prov st) ?g \<nu> \<chi> a \<or>
           (\<exists>r \<in> set rs. fires rs ?T false_set r \<and> w_head r = a \<and> supports ?g (ws_prov st) \<nu> \<chi> r))"
        for \<nu> \<chi> a
      proof -
        have "a \<in> set keys" if "arena.table_sem table g1 \<nu> \<chi> a"
          using that keys(3) by (auto simp: arena.table_sem_def split: option.splits)
        then show ?thesis using h sem by blast
      qed
      show "stage rs g0 st'"
        unfolding stage_def F' fs(1)
      proof (intro conjI allI impI)
        show "sound_stage rs (ws_true st') F'" unfolding T' by (rule sound2)
        show "ws_true st' \<subseteq> w_head ` set rs" unfolding T' using TF(1) by (auto simp: consequences_def)
        show "false_set \<subseteq> w_head ` set rs" using fs(2) by blast
        show "dom (ws_prov st') = ws_true st'" using h prov by blast
        show "well_ordered (ws_pir st')" "arena.table_defined (ws_prov st') (ws_pir st')" using h by blast+
        show "grows g0 (ws_pir st')" using h grows_trans [OF grows_trans [OF g(2) g1(2)]] by blast
        have "length (filter (\<lambda>r. w_head r \<in> ?T) rs) + length (filter (fires rs ?T false_set) rs)
            \<le> length (filter (\<lambda>r. w_head r \<in> ws_true st') rs)"
          by (rule fires_count) (use T' fire in auto)
        moreover have "length (nodes (ws_pir st')) \<le> length (nodes g1) + 2 * length (order keys)"
          using h by blast
        ultimately show "length (nodes (ws_pir st'))
            \<le> length (nodes g0) + 5 * length (filter (\<lambda>r. w_head r \<in> ws_true st') rs)"
          using len len1 nkeys by linarith
      next
        fix \<nu> \<chi> a
        assume "arena.table_sem (ws_prov st') (ws_pir st') \<nu> \<chi> a"
        then consider "arena.table_sem (ws_prov st) ?g \<nu> \<chi> a"
          | r where "r \<in> set rs" "fires rs ?T false_set r" "w_head r = a" "supports ?g (ws_prov st) \<nu> \<chi> r"
          unfolding sem' by blast
        then show "a \<in> derivable (enabled rs g0 \<nu> \<chi>) F'"
        proof cases
          case 1
          then show ?thesis using snd derivable_mono [OF subset_refl FF'] by blast
        next
          case 2
          have "r \<in> enabled rs g0 \<nu> \<chi>"
            using 2(1,4) base by (simp add: enabled_def supports_def)
          moreover have "b \<in> derivable (enabled rs g0 \<nu> \<chi>) F'" if "WPositive b \<in> set (w_body r)" for b
          proof -
            have "arena.table_sem (ws_prov st) ?g \<nu> \<chi> b" using that 2(4) by (simp add: supports_def)
            from snd [OF this] show ?thesis using derivable_mono [OF subset_refl FF'] by blast
          qed
          moreover have "b \<in> F'" if "WNegative b \<in> set (w_body r)" for b
            using that 2(2) by (auto simp: fires_def fs(1) literal_true_def dest!: bspec)
          ultimately show ?thesis unfolding 2(3) [symmetric] by (intro derivable_rule) auto
        qed
      next
        fix \<nu> \<chi> a
        assume en: "enabled rs g0 \<nu> \<chi> = set rs" and a: "a \<in> ws_true st'"
        show "arena.table_sem (ws_prov st') (ws_pir st') \<nu> \<chi> a"
        proof (cases "a \<in> ?T")
          case True
          then have "arena.table_sem (ws_prov st) ?g \<nu> \<chi> a" by (rule cmp [OF en])
          then show ?thesis unfolding sem' by (rule disjI1)
        next
          case False
          then have "a \<in> w_head ` {r \<in> set rs. fires rs ?T false_set r}" using a T' fire by blast
          then obtain r where r: "r \<in> set rs" "fires rs ?T false_set r" "w_head r = a" by blast
          have "r \<in> enabled rs g0 \<nu> \<chi>" using en r(1) by simp
          then have "holds ?g \<nu> \<chi> (w_provenance r)" using base [OF r(1)] by (simp add: enabled_def)
          moreover have "arena.table_sem (ws_prov st) ?g \<nu> \<chi> b" if "WPositive b \<in> set (w_body r)" for b
          proof (rule cmp [OF en])
            show "b \<in> ?T" using that r(2) by (auto simp: fires_def literal_true_def dest!: bspec)
          qed
          ultimately have "supports ?g (ws_prov st) \<nu> \<chi> r" by (simp add: supports_def)
          then show ?thesis unfolding sem' using r by (intro disjI2) blast
        qed
      qed
    next
      assume room: "length (nodes g0) + 5 * length rs \<le> 2 ^ 32"
      have "length (filter (\<lambda>r. w_head r \<in> ?T) rs) + length (filter (fires rs ?T false_set) rs) \<le> length rs"
        using fires_disjoint_count [of ?T rs rs false_set] .
      then have "length (nodes g1) + 2 * length (order keys) \<le> 2 ^ 32"
        using len len1 nkeys room by linarith
      then show "wfs_pass order ?ctx st \<noteq> None" unfolding pass using add by simp
    qed
  qed
qed

section \<open>The iteration\<close>

definition progress :: "wfs_state \<Rightarrow> nat" where
  "progress st = card (ws_true st) + card (ws_false st)"

lemma heads_finite: "finite (w_head ` set rs)"
  by simp

lemma progress_bound:
  assumes "stage rs g0 st"
  shows "progress st \<le> card (w_head ` set rs)"
proof -
  have s: "ws_true st \<subseteq> w_head ` set rs" "ws_false st \<subseteq> w_head ` set rs" "ws_true st \<inter> ws_false st = {}"
    using assms by (auto simp: stage_def sound_stage_def)
  then have "progress st = card (ws_true st \<union> ws_false st)"
    unfolding progress_def by (subst card_Un_disjoint) (auto intro: finite_subset [OF _ heads_finite])
  also have "\<dots> \<le> card (w_head ` set rs)" using s by (intro card_mono) auto
  finally show ?thesis .
qed

lemma wfs_loop_ok:
  assumes order: "hash_order order" and g0: "well_ordered g0"
    and provs: "\<forall>r \<in> set rs. unat (w_provenance r) < length (nodes g0)"
    and "stage rs g0 st" and "0 < left"
  shows "(\<forall>res g. wfs_loop order (new_context rs) limit left st = Inr (res, g) \<longrightarrow>
      (\<exists>st'. stage rs g0 st' \<and> res = \<lparr>true_prov = ws_prov st', false_atoms = ws_false st'\<rparr> \<and> g = ws_pir st'
        \<and> well_founded_model rs (ws_true st') (ws_false st' \<union> ruleless rs)))
    \<and> (card (w_head ` set rs) < left + progress st \<longrightarrow>
        wfs_loop order (new_context rs) limit left st \<noteq> Inl (WfsNotConverged limit))
    \<and> (length (nodes g0) + 5 * length rs \<le> 2 ^ 32 \<longrightarrow>
        wfs_loop order (new_context rs) limit left st \<noteq> Inl WfsPanic)"
  using assms(4,5)
proof (induction left arbitrary: st)
  case (Suc left)
  let ?T = "ws_true st" and ?F = "ws_false st \<union> ruleless rs"
  let ?F' = "greatest_unfounded rs ?T ?F"
  note pass = stage_pass [OF order g0 provs Suc.prems(1)]
  show ?case
  proof (cases "wfs_pass order (new_context rs) st")
    case None
    then show ?thesis using pass [THEN conjunct2] by auto
  next
    case (Some p)
    obtain st' changed where p: "p = (st', changed)" by (cases p)
    note h = pass [THEN conjunct1, rule_format, OF Some [unfolded p]]
    have st': "stage rs g0 st'" and T': "ws_true st' = ?T \<union> consequences rs ?T ?F'"
      and F': "ws_false st' \<union> ruleless rs = ?F'" and Fsub: "ws_false st \<subseteq> ws_false st'"
      and ch: "changed \<longleftrightarrow> \<not> (?F' \<subseteq> ?F \<and> consequences rs ?T ?F' \<subseteq> ?T)"
      using h by blast+
    have sound: "sound_stage rs ?T ?F" using Suc.prems(1) by (simp add: stage_def)
    show ?thesis
    proof (cases changed)
      case False
      then have sub: "?F' \<subseteq> ?F" "consequences rs ?T ?F' \<subseteq> ?T" using ch by blast+
      moreover have "?F \<subseteq> ?F'" by (rule sound_stage_false(2) [OF sound])
      ultimately have eq: "?F' = ?F" "ws_true st' = ?T" using T' by blast+
      have "well_founded_model rs ?T ?F"
        by (rule sound_stage_done [OF sound]) (use sub eq in auto)
      then have "well_founded_model rs (ws_true st') (ws_false st' \<union> ruleless rs)"
        unfolding F' eq .
      then show ?thesis using st' False by (auto simp: Some p)
    next
      case True
      have grow: "progress st < progress st'"
      proof -
        have fin: "finite (ws_true st')" "finite (ws_false st')"
          using st' by (auto simp: stage_def intro: finite_subset [OF _ heads_finite])
        have "?T \<subset> ws_true st' \<or> ws_false st \<subset> ws_false st'"
        proof (cases "?F' \<subseteq> ?F")
          case True
          then show ?thesis using \<open>changed\<close> ch T' by blast
        next
          case False
          then show ?thesis using F' Fsub by blast
        qed
        then show ?thesis
          using psubset_card_mono [OF fin(1)] psubset_card_mono [OF fin(2)]
            card_mono [OF fin(1), of ?T] card_mono [OF fin(2) Fsub] T'
          unfolding progress_def by (metis Un_upper1 add_le_less_mono add_less_le_mono)
      qed
      show ?thesis
      proof (cases "left = 0")
        case True
        then show ?thesis using \<open>changed\<close> grow progress_bound [OF st'] by (auto simp: Some p)
      next
        case False
        then show ?thesis using Suc.IH [OF st'] \<open>changed\<close> grow by (auto simp: Some p)
      qed
    qed
  qed
qed simp

lemma wfs_loop_errors:
  "wfs_loop order ctx limit left st = Inl e \<Longrightarrow> e = WfsNotConverged limit \<or> e = WfsPanic"
  by (induction left arbitrary: st) (auto split: option.splits if_splits)

text \<open>Rules whose formulas are nodes of the graph.\<close>

definition wfs_input_ok :: "wfs_rule list \<Rightarrow> pir_graph \<Rightarrow> bool" where
  "wfs_input_ok rs g = (well_ordered g \<and> list_all (\<lambda>r. unat (w_provenance r) < length (nodes g)) rs)"

lemma evaluate_wfs_stage:
  assumes "hash_order order" and "wfs_input_ok rs g" and "0 < wfs_max_iterations config"
    and "evaluate_wfs_rules order rs g config = Inr (res, g')"
  obtains st where "stage rs g st" and "true_prov res = ws_prov st" and "false_atoms res = ws_false st"
    and "g' = ws_pir st" and "well_founded_model rs (ws_true st) (ws_false st \<union> ruleless rs)"
proof -
  have g: "well_ordered g" and provs: "\<forall>r \<in> set rs. unat (w_provenance r) < length (nodes g)"
    using assms(2) by (auto simp: wfs_input_ok_def list_all_iff)
  show thesis
  proof (cases "rs = []")
    case True
    let ?st = "\<lparr>ws_true = {}, ws_prov = Map.empty, ws_false = {}, ws_pir = g\<rparr>"
    have "well_founded_model rs {} (ruleless rs)"
      by (rule sound_stage_done [OF sound_stage_start]) (simp_all add: True ruleless_def consequences_def)
    moreover have "res = empty_wfs_result" "g' = g"
      using assms(4) True by (simp_all add: evaluate_wfs_rules_def)
    ultimately show thesis
      by (intro that [OF stage_start [OF g]]) (simp_all add: empty_wfs_result_def)
  next
    case False
    then have run: "wfs_loop order (new_context rs) (wfs_max_iterations config) (wfs_max_iterations config)
             \<lparr>ws_true = {}, ws_prov = Map.empty, ws_false = {}, ws_pir = g\<rparr> = Inr (res, g')"
      using assms(4) by (simp add: evaluate_wfs_rules_def)
    from wfs_loop_ok [OF assms(1) g provs stage_start [OF g] assms(3), THEN conjunct1, rule_format, OF run]
    show thesis using that by fastforce
  qed
qed

section \<open>An example\<close>

definition patom :: "string \<Rightarrow> wfs_atom" where
  "patom p = \<lparr>wfs_predicate = p, wfs_args = []\<rparr>"

definition wfs_rule_of :: "string \<Rightarrow> wfs_literal list \<Rightarrow> node_id \<Rightarrow> wfs_rule" where
  "wfs_rule_of p ls i = \<lparr>w_head = patom p, w_body = ls, w_provenance = i\<rparr>"

definition late_graph :: pir_graph where
  "late_graph = \<lparr>nodes = [PConst True, PLit 0, PLit 1]\<rparr>"

text \<open>\<open>p\<close> follows from \<open>a\<close>, and from \<open>c\<close> by way of \<open>b\<close>; \<open>q\<close> negates itself; \<open>s\<close> has no support.\<close>

definition late_rules :: "wfs_rule list" where
  "late_rules =
     [wfs_rule_of ''c'' [] 1, wfs_rule_of ''a'' [] 2, wfs_rule_of ''b'' [WPositive (patom ''c'')] 0,
      wfs_rule_of ''p'' [WPositive (patom ''a'')] 0, wfs_rule_of ''p'' [WPositive (patom ''b'')] 0,
      wfs_rule_of ''q'' [WNegative (patom ''q'')] 0, wfs_rule_of ''s'' [WPositive (patom ''s'')] 0]"

definition late_run :: "wfs_error + wfs_result \<times> pir_graph" where
  "late_run = evaluate_wfs_rules id late_rules late_graph \<lparr>wfs_max_iterations = 10\<rparr>"

definition late_nodes :: "pir_node list" where
  "late_nodes =
     [PConst True, PLit 0, PLit 1, PConst False, POr [3, 1], PConst False, POr [5, 2], PConst False,
      POr [7, 6], PConst False, POr [9, 4], PAnd [0, 10], PConst False, POr [12, 11], PAnd [0, 8],
      PConst False, POr [15, 14], PConst False, POr [17, 16], PConst False, POr [19, 13]]"

lemma late_run_facts:
  "map_res (\<lambda>(res, g). (map (truth_value_of res) (map patom [''a'', ''b'', ''c'', ''p'', ''q'', ''s'']),
       true_prov res (patom ''p''), nodes g)) late_run
   = Inr ([TvTrue, TvTrue, TvTrue, TvTrue, TvUndefined, TvFalse], Some 18, late_nodes)"
  by code_simp

lemma late_run_result:
  obtains res g where "late_run = Inr (res, g)" and "true_prov res (patom ''p'') = Some 18"
    and "nodes g = late_nodes" and "true_prov res (patom ''c'') \<noteq> None" and "true_prov res (patom ''q'') = None"
proof (cases late_run)
  case (Inl e)
  have False using late_run_facts unfolding Inl map_res_simps by simp
  then show ?thesis ..
next
  case (Inr p)
  obtain res g where p: "p = (res, g)" by (cases p)
  note f = late_run_facts [unfolded Inr p map_res_simps prod.case sum.inject prod.inject]
  have "truth_value_of res (patom ''c'') = TvTrue" "truth_value_of res (patom ''q'') = TvUndefined"
    using f by simp_all
  then have "true_prov res (patom ''c'') \<noteq> None" "true_prov res (patom ''q'') = None"
    unfolding truth_value_of_def by (metis truth_value.distinct)+
  then show ?thesis using that [of res g] f by (simp add: Inr p)
qed

lemma late_graph_holds: "holds late_graph (\<lambda>_. True) \<chi> 0" "holds late_graph (\<lambda>_. True) \<chi> 1"
  "holds late_graph (\<lambda>_. True) \<chi> 2"
  by (rule holds_const holds_lit; simp add: node_def get_def late_graph_def)+

lemma late_holds:
  assumes "nodes g = late_nodes"
  shows "holds g \<nu> \<chi> 18 = \<nu> 1"
proof -
  have n: "node g 0 = Some (PConst True)" "node g 2 = Some (PLit 1)" "node g 5 = Some (PConst False)"
    "node g 6 = Some (POr [5, 2])" "node g 7 = Some (PConst False)" "node g 8 = Some (POr [7, 6])"
    "node g 14 = Some (PAnd [0, 8])" "node g 15 = Some (PConst False)" "node g 16 = Some (POr [15, 14])"
    "node g 17 = Some (PConst False)" "node g 18 = Some (POr [17, 16])"
    by (simp_all add: node_def get_def assms late_nodes_def)
  show ?thesis
    by (simp add: holds_simps(1) [OF n(1)] holds_simps(2) [OF n(2)] holds_simps(1) [OF n(3)]
        holds_simps(6) [OF n(4)] holds_simps(1) [OF n(5)] holds_simps(6) [OF n(6)] holds_simps(5) [OF n(7)]
        holds_simps(1) [OF n(8)] holds_simps(6) [OF n(9)] holds_simps(1) [OF n(10)] holds_simps(6) [OF n(11)])
qed

lemma late_input_ok: "wfs_input_ok late_rules late_graph"
  by code_simp

lemma hash_order_id: "hash_order id"
  by (simp add: hash_order_def)

section \<open>The well-founded model is computed\<close>

text \<open>C3: A result of \<open>evaluate_wfs_rules\<close> is the well-founded model of the ground rules: there are
  sets \<open>T\<close> and \<open>F\<close>, the least fixpoint of the immediate consequences and the greatest unfounded set,
  such that the true atoms of the result are \<open>T\<close> and its false atoms are the members of \<open>F\<close> that head a
  rule, whatever the iteration order of the hash map.\<close>

theorem wfs_well_founded:
  assumes "hash_order order" and "wfs_input_ok rs g" and "0 < wfs_max_iterations config"
    and "evaluate_wfs_rules order rs g config = Inr (res, g')"
  shows "\<exists>T F. well_founded_model rs T F \<and> {a. truth_value_of res a = TvTrue} = T
    \<and> {a. truth_value_of res a = TvFalse} = F \<inter> w_head ` set rs"
proof -
  obtain st where st: "stage rs g st" and res: "true_prov res = ws_prov st" "false_atoms res = ws_false st"
    and m: "well_founded_model rs (ws_true st) (ws_false st \<union> ruleless rs)"
    by (rule evaluate_wfs_stage [OF assms])
  have d: "dom (ws_prov st) = ws_true st" and F: "ws_false st \<subseteq> w_head ` set rs"
    and disj: "ws_true st \<inter> ws_false st = {}"
    using st by (auto simp: stage_def sound_stage_def)
  have "{a. truth_value_of res a = TvTrue} = ws_true st"
    unfolding d [symmetric] truth_value_of_def res by auto
  moreover have "{a. truth_value_of res a = TvFalse} = ws_false st"
    using d disj unfolding truth_value_of_def res by (auto simp: dom_def)
  moreover have "ws_false st = (ws_false st \<union> ruleless rs) \<inter> w_head ` set rs"
    using F by (auto simp: ruleless_def)
  ultimately show ?thesis using m by metis
qed

lemma wfs_well_founded_witness:
  "\<exists>T F. well_founded_model late_rules T F \<and> {a. truth_value_of (fst (projr late_run)) a = TvTrue} = T
    \<and> {a. truth_value_of (fst (projr late_run)) a = TvFalse} = F \<inter> w_head ` set late_rules"
proof -
  obtain res g where run: "late_run = Inr (res, g)" by (rule late_run_result)
  then show ?thesis
    using wfs_well_founded [OF hash_order_id late_input_ok _ run [unfolded late_run_def]]
    unfolding run by simp
qed

text \<open>C27: The evaluation converges: with an iteration limit above the number of atoms that head a rule
  and with room for five nodes per rule in the provenance graph, \<open>evaluate_wfs_rules\<close> returns a result,
  whatever the iteration order of the hash map.\<close>

theorem wfs_answers:
  assumes "hash_order order" and "wfs_input_ok rs g"
    and "card (w_head ` set rs) < wfs_max_iterations config"
    and "length (nodes g) + 5 * length rs \<le> 2 ^ 32"
  shows "\<exists>res. evaluate_wfs_rules order rs g config = Inr res"
proof (cases "rs = []")
  case True
  then show ?thesis by (simp add: evaluate_wfs_rules_def)
next
  case False
  have g: "well_ordered g" and provs: "\<forall>r \<in> set rs. unat (w_provenance r) < length (nodes g)"
    using assms(2) by (auto simp: wfs_input_ok_def list_all_iff)
  have pos: "0 < wfs_max_iterations config" using assms(3) by simp
  note ok = wfs_loop_ok [OF assms(1) g provs stage_start [OF g] pos, of "wfs_max_iterations config"]
  let ?run = "wfs_loop order (new_context rs) (wfs_max_iterations config) (wfs_max_iterations config)
      \<lparr>ws_true = {}, ws_prov = Map.empty, ws_false = {}, ws_pir = g\<rparr>"
  have no_limit: "?run \<noteq> Inl (WfsNotConverged (wfs_max_iterations config))"
    using ok [THEN conjunct2, THEN conjunct1] assms(3) by (meson trans_less_add1)
  have no_panic: "?run \<noteq> Inl WfsPanic" using ok [THEN conjunct2, THEN conjunct2] assms(4) by blast
  have "evaluate_wfs_rules order rs g config = ?run" using False by (simp add: evaluate_wfs_rules_def)
  then show ?thesis using no_limit no_panic wfs_loop_errors by (metis sum.exhaust)
qed

lemma wfs_answers_witness:
  "\<exists>res. evaluate_wfs_rules id late_rules late_graph \<lparr>wfs_max_iterations = 10\<rparr> = Inr res"
  by (rule wfs_answers [OF hash_order_id late_input_ok]) (simp_all add: late_rules_def late_graph_def wfs_rule_of_def card_insert_if patom_def)

section \<open>Provenance\<close>

text \<open>The provenance of a true atom is sound: in an assignment that satisfies it, the atom is
  derivable by the rules whose own formulas hold, from the false atoms of the result and the atoms
  without a rule.\<close>

theorem wfs_provenance_sound:
  assumes "hash_order order" and "wfs_input_ok rs g" and "0 < wfs_max_iterations config"
    and "evaluate_wfs_rules order rs g config = Inr (res, g')"
    and "wfs_provenance res a = Some i" and "holds g' \<nu> \<chi> i"
  shows "a \<in> derivable (enabled rs g \<nu> \<chi>) (false_atoms res \<union> ruleless rs)"
proof -
  obtain st where st: "stage rs g st" and res: "true_prov res = ws_prov st" "false_atoms res = ws_false st"
    and g': "g' = ws_pir st"
    by (rule evaluate_wfs_stage [OF assms(1-4)])
  have "arena.table_sem (ws_prov st) (ws_pir st) \<nu> \<chi> a"
    using assms(5,6) by (simp add: arena.table_sem_def wfs_provenance_def res g')
  then show ?thesis using st unfolding stage_def res by blast
qed

lemma wfs_provenance_sound_witness:
  "patom ''p'' \<in> derivable (enabled late_rules late_graph (\<lambda>l. l = 1) (\<lambda>_. False))
     (false_atoms (fst (projr late_run)) \<union> ruleless late_rules)"
proof -
  obtain res g where run: "late_run = Inr (res, g)" and p: "true_prov res (patom ''p'') = Some 18"
    and n: "nodes g = late_nodes" by (rule late_run_result)
  have "holds g (\<lambda>l. l = 1) (\<lambda>_. False) 18"
    by (cases g) (use n in \<open>simp add: late_holds\<close>)
  from wfs_provenance_sound [OF hash_order_id late_input_ok _ run [unfolded late_run_def] _ this, of "patom ''p''"]
  show ?thesis using p unfolding run by (simp add: wfs_provenance_def)
qed

text \<open>Provenance loses nothing when every rule is enabled: in an assignment that satisfies the
  formulas of all the rules, the provenance of every true atom holds.\<close>

theorem wfs_provenance_enabled:
  assumes "hash_order order" and "wfs_input_ok rs g" and "0 < wfs_max_iterations config"
    and "evaluate_wfs_rules order rs g config = Inr (res, g')"
    and "wfs_provenance res a = Some i" and "\<forall>r \<in> set rs. holds g \<nu> \<chi> (w_provenance r)"
  shows "holds g' \<nu> \<chi> i"
proof -
  obtain st where st: "stage rs g st" and res: "true_prov res = ws_prov st" "false_atoms res = ws_false st"
    and g': "g' = ws_pir st"
    by (rule evaluate_wfs_stage [OF assms(1-4)])
  have "enabled rs g \<nu> \<chi> = set rs" using assms(6) by (auto simp: enabled_def)
  moreover have "dom (ws_prov st) = ws_true st" using st unfolding stage_def by blast
  then have "a \<in> ws_true st" using assms(5) by (auto simp: wfs_provenance_def res)
  ultimately have "arena.table_sem (ws_prov st) (ws_pir st) \<nu> \<chi> a" using st unfolding stage_def by blast
  then show ?thesis using assms(5) by (simp add: arena.table_sem_def wfs_provenance_def res g')
qed

lemma wfs_provenance_enabled_witness:
  "holds (snd (projr late_run)) (\<lambda>_. True) (\<lambda>_. False) 18"
proof -
  obtain res g where run: "late_run = Inr (res, g)" and p: "true_prov res (patom ''p'') = Some 18"
    by (rule late_run_result)
  have "\<forall>r \<in> set late_rules. holds late_graph (\<lambda>_. True) (\<lambda>_. False) (w_provenance r)"
    by (simp add: late_rules_def wfs_rule_of_def late_graph_holds)
  from wfs_provenance_enabled [OF hash_order_id late_input_ok _ run [unfolded late_run_def] _ this, of "patom ''p''" 18]
  show ?thesis using p unfolding run by (simp add: wfs_provenance_def)
qed

section \<open>Derivations that are lost\<close>

text \<open>
  The provenance is not complete. \<open>derive_consequences\<close> skips a rule whose head is already true, so a
  derivation whose body becomes true in a later pass is not a disjunct of the head's formula. In
  the example \<open>p\<close> follows from leaf 0 alone, and its formula is false there.\<close>

lemma late_derivation_lost:
  fixes \<nu> :: "leaf_id \<Rightarrow> bool" and \<chi> :: "choice_var_id \<Rightarrow> bool"
  defines "\<nu> \<equiv> \<lambda>l. l = 0" and "\<chi> \<equiv> \<lambda>_. False"
  shows "patom ''p'' \<in> derivable (enabled late_rules late_graph \<nu> \<chi>) {}"
    and "\<exists>res g. late_run = Inr (res, g) \<and> wfs_provenance res (patom ''p'') = Some 18 \<and> \<not> holds g \<nu> \<chi> 18"
proof -
  let ?D = "derivable (enabled late_rules late_graph \<nu> \<chi>) {}"
  have "holds late_graph \<nu> \<chi> 0" "holds late_graph \<nu> \<chi> 1"
    by (rule holds_const holds_lit; simp add: node_def get_def late_graph_def \<nu>_def)+
  then have en: "wfs_rule_of ''c'' [] 1 \<in> enabled late_rules late_graph \<nu> \<chi>"
    "wfs_rule_of ''b'' [WPositive (patom ''c'')] 0 \<in> enabled late_rules late_graph \<nu> \<chi>"
    "wfs_rule_of ''p'' [WPositive (patom ''b'')] 0 \<in> enabled late_rules late_graph \<nu> \<chi>"
    by (simp_all add: enabled_def late_rules_def wfs_rule_of_def)
  have "patom ''c'' \<in> ?D" using derivable_rule [OF en(1)] by (simp add: wfs_rule_of_def)
  then have "patom ''b'' \<in> ?D" using derivable_rule [OF en(2)] by (simp add: wfs_rule_of_def)
  then show "patom ''p'' \<in> ?D" using derivable_rule [OF en(3)] by (simp add: wfs_rule_of_def)
  show "\<exists>res g. late_run = Inr (res, g) \<and> wfs_provenance res (patom ''p'') = Some 18 \<and> \<not> holds g \<nu> \<chi> 18"
  proof -
    obtain res g where "late_run = Inr (res, g)" "true_prov res (patom ''p'') = Some 18"
      and n: "nodes g = late_nodes" by (rule late_run_result)
    moreover have "\<not> holds g \<nu> \<chi> 18" unfolding late_holds [OF n] by (simp add: \<nu>_def)
    ultimately show ?thesis unfolding wfs_provenance_def by blast
  qed
qed

end
