(* ===== verification/Pir_Levels.thy ===== *)
theory Pir_Levels
  imports Pir
begin

text \<open>
  \<open>levelize\<close> is correct: it fails exactly when a cycle or an invalid identifier can be reached from
  the roots, and otherwise lists each reachable node once, children in strictly lower levels. Fuel
  of one more than the number of nodes is enough. A level is at most the number of nodes,
  so the 32-bit arithmetic of the code cannot overflow on graphs of fewer than 2 to the 32 nodes,
  and levels are naturals here.
\<close>

section \<open>Reachability\<close>

definition child_of :: "pir_graph \<Rightarrow> (node_id \<times> node_id) set" where
  "child_of g = {(i, c). \<exists>nd. node g i = Some nd \<and> c \<in> set (node_children nd)}"

definition reachable :: "pir_graph \<Rightarrow> node_id list \<Rightarrow> node_id set" where
  "reachable g roots = {i. \<exists>r \<in> set roots. (r, i) \<in> rtrancl (child_of g)}"

definition is_leaf :: "pir_node \<Rightarrow> bool" where
  "is_leaf nd = (case nd of PAnd _ \<Rightarrow> False | POr _ \<Rightarrow> False | PDecision _ _ _ \<Rightarrow> False | _ \<Rightarrow> True)"

lemma leaf_children: "is_leaf nd \<Longrightarrow> node_children nd = []"
  by (simp add: is_leaf_def node_children_def split: pir_node.splits)

definition finish_level :: "node_id \<Rightarrow> nat \<Rightarrow> level_state \<Rightarrow> level_error + nat \<times> level_state" where
  "finish_level i lvl st = Inr (lvl, (fst st - {i}, (i, lvl) # snd st))"

text \<open>The three branches with children are one.\<close>

lemma max_child_level_two:
  "max_child_level visit [f, t] 0 st =
     bind_res (visit f st) (\<lambda>(lf, st). bind_res (visit t st) (\<lambda>(lt, st'). Inr (max lf lt, st')))"
  by (cases "visit f st") (auto simp: bind_res_def split: sum.splits)

lemma compute_level_step:
  assumes "map_of levels i = None" and "i \<notin> visiting" and "node g i = Some nd"
  shows "compute_level g (Suc fuel) i (visiting, levels) =
    (if is_leaf nd then finish_level i 0 (insert i visiting, levels)
     else bind_res (max_child_level (compute_level g fuel) (node_children nd) 0
            (insert i visiting, levels)) (\<lambda>(mx, st). finish_level i (mx + 1) st))"
  using assms
  by (cases nd) (auto simp: is_leaf_def node_children_def finish_level_def Let_def split_def
      max_child_level_two bind_res_def simp del: max_child_level.simps split: sum.splits)

section \<open>The contract of a call\<close>

definition level_inv :: "pir_graph \<Rightarrow> node_id set \<Rightarrow> (node_id \<times> nat) list \<Rightarrow> bool" where
  "level_inv g visiting levels =
     (distinct (map fst levels) \<and> fst ` set levels \<inter> visiting = {}
      \<and> (\<forall>i l. (i, l) \<in> set levels \<longrightarrow> node g i \<noteq> None \<and> l \<le> length levels
           \<and> (\<forall>c. (i, c) \<in> child_of g \<longrightarrow> (\<exists>m < l. (c, m) \<in> set levels))))"

definition call_ok ::
    "pir_graph \<Rightarrow> node_id set \<Rightarrow> level_state \<Rightarrow> level_error + nat \<times> level_state
     \<Rightarrow> (nat \<Rightarrow> (node_id \<times> nat) list \<Rightarrow> bool) \<Rightarrow> bool" where
  "call_ok g starts st res post =
     (case res of
        Inr (l, visiting, levels) \<Rightarrow>
          visiting = fst st \<and> level_inv g visiting levels \<and> post l levels
          \<and> (\<exists>new. levels = new @ snd st
               \<and> (\<forall>j \<in> fst ` set new. \<exists>s \<in> starts. (s, j) \<in> rtrancl (child_of g)))
      | Inl (LevelCycle j) \<Rightarrow>
          (\<exists>s \<in> starts. (s, j) \<in> rtrancl (child_of g)) \<and> (j, j) \<in> trancl (child_of g)
      | Inl (LevelInvalidNode j) \<Rightarrow>
          (\<exists>s \<in> starts. (s, j) \<in> rtrancl (child_of g)) \<and> node g j = None
      | Inl LevelFuel \<Rightarrow> False)"

definition call_pre :: "pir_graph \<Rightarrow> nat \<Rightarrow> node_id \<Rightarrow> level_state \<Rightarrow> bool" where
  "call_pre g fuel i st =
     (level_inv g (fst st) (snd st) \<and> (\<forall>v \<in> fst st. node g v \<noteq> None \<and> (v, i) \<in> trancl (child_of g))
      \<and> length (nodes g) < fuel + card (fst st))"

lemma call_ok_weaken:
  assumes "call_ok g starts st res post"
    and "\<And>s. s \<in> starts \<Longrightarrow> \<exists>t \<in> starts'. (t, s) \<in> rtrancl (child_of g)"
    and "\<And>l levels. post l levels \<Longrightarrow> post' l levels"
  shows "call_ok g starts' st res post'"
proof -
  have r: "\<exists>t \<in> starts'. (t, j) \<in> rtrancl (child_of g)"
    if "\<exists>s \<in> starts. (s, j) \<in> rtrancl (child_of g)" for j
    using that assms(2) by (meson rtrancl_trans)
  show ?thesis
    using assms(1,3) r unfolding call_ok_def
    by (auto split: sum.splits level_error.splits prod.splits)
qed

lemma level_inv_mono: "level_inv g V levels \<Longrightarrow> W \<subseteq> V \<Longrightarrow> level_inv g W levels"
  by (auto simp: level_inv_def)

lemma valid_card:
  assumes "\<forall>v \<in> V. node g v \<noteq> None"
  shows "card V \<le> length (nodes g)"
proof -
  have "inj_on (unat :: node_id \<Rightarrow> nat) V" by (simp add: inj_on_def word_unat_eq_iff)
  moreover have "unat ` V \<subseteq> {..<length (nodes g)}"
    using assms by (auto simp: node_Some_iff)
  ultimately have "card V \<le> card {..<length (nodes g)}" by (intro card_inj_on_le) auto
  then show ?thesis by simp
qed

text \<open>The loop over the children, given the contract of the calls it makes.\<close>

lemma max_child_level_ok:
  assumes "\<And>c st. c \<in> set cs \<Longrightarrow> fst st = V \<Longrightarrow> level_inv g V (snd st) \<Longrightarrow>
      call_ok g {c} st (visit c st) (\<lambda>l levels. (c, l) \<in> set levels)"
    and "fst st = V" and "level_inv g V (snd st)"
    and "mx \<le> length (snd st)"
  shows "call_ok g (set cs) st (max_child_level visit cs mx st)
    (\<lambda>l levels. mx \<le> l \<and> l \<le> length levels \<and> (\<forall>c \<in> set cs. \<exists>m \<le> l. (c, m) \<in> set levels))"
  using assms
proof (induction cs arbitrary: mx st)
  case Nil
  then show ?case by (cases st) (auto simp: call_ok_def)
next
  case (Cons c cs)
  have here: "call_ok g {c} st (visit c st) (\<lambda>l levels. (c, l) \<in> set levels)"
    using Cons.prems(1) [of c st] Cons.prems(2,3) by simp
  show ?case
  proof (cases "visit c st")
    case (Inl e)
    then show ?thesis using here by (auto simp: call_ok_def split: level_error.splits)
  next
    case (Inr r)
    obtain l levels where r: "r = (l, V, levels)"
      and inv: "level_inv g V levels" and cl: "(c, l) \<in> set levels"
      and new: "\<exists>new. levels = new @ snd st
        \<and> (\<forall>j \<in> fst ` set new. (c, j) \<in> rtrancl (child_of g))"
      using here Inr Cons.prems(2) by (cases r) (auto simp: call_ok_def)
    have bound: "max mx l \<le> length levels"
    proof -
      have "l \<le> length levels" using inv cl by (auto simp: level_inv_def)
      moreover have "length (snd st) \<le> length levels" using new by auto
      ultimately show ?thesis using Cons.prems(4) by auto
    qed
    have rest: "call_ok g (set cs) (V, levels) (max_child_level visit cs (max mx l) (V, levels))
      (\<lambda>l' levels'. max mx l \<le> l' \<and> l' \<le> length levels'
         \<and> (\<forall>c \<in> set cs. \<exists>m \<le> l'. (c, m) \<in> set levels'))"
      using Cons.IH [of "(V, levels)" "max mx l"] Cons.prems(1) inv bound by simp
    have run: "max_child_level visit (c # cs) mx st = max_child_level visit cs (max mx l) (V, levels)"
      by (simp add: Inr r)
    show ?thesis
    proof (cases "max_child_level visit cs (max mx l) (V, levels)")
      case (Inl e)
      then show ?thesis unfolding run using rest by (auto simp: call_ok_def split: level_error.splits)
    next
      case I: (Inr r')
      obtain l' levels' where r': "r' = (l', V, levels')" and inv': "level_inv g V levels'"
        and le: "max mx l \<le> l'" "l' \<le> length levels'"
          "\<forall>c \<in> set cs. \<exists>m \<le> l'. (c, m) \<in> set levels'"
        and new': "\<exists>new. levels' = new @ levels
          \<and> (\<forall>j \<in> fst ` set new. \<exists>s \<in> set cs. (s, j) \<in> rtrancl (child_of g))"
        using rest I by (cases r') (auto simp: call_ok_def)
      obtain n1 n2 where n: "levels = n1 @ snd st" "levels' = n2 @ levels"
        "\<forall>j \<in> fst ` set n1. (c, j) \<in> rtrancl (child_of g)"
        "\<forall>j \<in> fst ` set n2. \<exists>s \<in> set cs. (s, j) \<in> rtrancl (child_of g)"
        using new new' by blast
      have "levels' = (n2 @ n1) @ snd st
          \<and> (\<forall>j \<in> fst ` set (n2 @ n1). \<exists>s \<in> set (c # cs). (s, j) \<in> rtrancl (child_of g))"
        using n by auto
      then have "\<exists>new. levels' = new @ snd st
          \<and> (\<forall>j \<in> fst ` set new. \<exists>s \<in> set (c # cs). (s, j) \<in> rtrancl (child_of g))" by blast
      moreover have "\<forall>c' \<in> set (c # cs). \<exists>m \<le> l'. (c', m) \<in> set levels'"
        using le(1,3) cl n(2) by auto
      ultimately show ?thesis
        unfolding run I r' call_ok_def using inv' le(1,2) Cons.prems(2) by simp
    qed
  qed
qed

lemma level_inv_Cons:
  assumes inv: "level_inv g (insert i V) levels" and "i \<notin> V" and "node g i \<noteq> None"
    and "lvl \<le> Suc (length levels)" and "\<And>c. (i, c) \<in> child_of g \<Longrightarrow> \<exists>m < lvl. (c, m) \<in> set levels"
  shows "level_inv g V ((i, lvl) # levels)"
proof -
  have "distinct (map fst levels)" "fst ` set levels \<inter> insert i V = {}"
    and old: "\<And>j l. (j, l) \<in> set levels \<Longrightarrow> node g j \<noteq> None \<and> l \<le> length levels"
      "\<And>j l c. (j, l) \<in> set levels \<Longrightarrow> (j, c) \<in> child_of g \<Longrightarrow> \<exists>m < l. (c, m) \<in> set levels"
    using inv by (simp_all add: level_inv_def)
  then have "distinct (map fst ((i, lvl) # levels))" "fst ` set ((i, lvl) # levels) \<inter> V = {}"
    using assms(2) by auto
  moreover have "node g j \<noteq> None \<and> l \<le> length ((i, lvl) # levels)
      \<and> (\<forall>c. (j, c) \<in> child_of g \<longrightarrow> (\<exists>m < l. (c, m) \<in> set ((i, lvl) # levels)))"
    if mem: "(j, l) \<in> set ((i, lvl) # levels)" for j l
  proof (cases "(j, l) = (i, lvl)")
    case True
    then show ?thesis using assms(3-5) by auto
  next
    case False
    then have jl: "(j, l) \<in> set levels" using mem by auto
    have "\<exists>m < l. (c, m) \<in> set ((i, lvl) # levels)" if "(j, c) \<in> child_of g" for c
      using old(2) [OF jl that] by (meson list.set_intros(2))
    then show ?thesis using old(1) [OF jl] by (simp add: le_SucI)
  qed
  ultimately show ?thesis unfolding level_inv_def by blast
qed

lemma finish_level_ok:
  assumes "call_ok g starts (insert i V, levels0) res
      (\<lambda>l levels. l \<le> length levels \<and> (\<forall>c. (i, c) \<in> child_of g \<longrightarrow> (\<exists>m \<le> l. (c, m) \<in> set levels)))"
    and "\<forall>s \<in> starts. (i, s) \<in> child_of g" and "i \<notin> V" and "node g i \<noteq> None"
  shows "call_ok g {i} (V, levels0) (bind_res res (\<lambda>(mx, st). finish_level i (mx + 1) st))
    (\<lambda>l levels. (i, l) \<in> set levels)"
proof (cases res)
  case (Inl e)
  have "\<exists>s \<in> {i}. (s, j) \<in> rtrancl (child_of g)"
    if "\<exists>s \<in> starts. (s, j) \<in> rtrancl (child_of g)" for j
    using that assms(2) by (auto intro: converse_rtrancl_into_rtrancl)
  then show ?thesis using assms(1) Inl by (auto simp: call_ok_def split: level_error.splits)
next
  case (Inr r)
  obtain l levels where r: "r = (l, insert i V, levels)" and inv: "level_inv g (insert i V) levels"
    and l: "l \<le> length levels"
    and cs: "\<And>c. (i, c) \<in> child_of g \<Longrightarrow> \<exists>m \<le> l. (c, m) \<in> set levels"
    and new: "\<exists>new. levels = new @ levels0
      \<and> (\<forall>j \<in> fst ` set new. \<exists>s \<in> starts. (s, j) \<in> rtrancl (child_of g))"
    using assms(1) Inr by (cases r) (auto simp: call_ok_def)
  have inv': "level_inv g V ((i, l + 1) # levels)"
    by (rule level_inv_Cons [OF inv assms(3,4)]) (use l cs in \<open>auto simp: less_Suc_eq_le\<close>)
  obtain n where n: "levels = n @ levels0"
    "\<forall>j \<in> fst ` set n. \<exists>s \<in> starts. (s, j) \<in> rtrancl (child_of g)"
    using new by blast
  have "(i, l + 1) # levels = ((i, l + 1) # n) @ levels0
      \<and> (\<forall>j \<in> fst ` set ((i, l + 1) # n). \<exists>s \<in> {i}. (s, j) \<in> rtrancl (child_of g))"
    using n assms(2) by (auto intro: converse_rtrancl_into_rtrancl)
  then have "\<exists>new. (i, l + 1) # levels = new @ levels0
      \<and> (\<forall>j \<in> fst ` set new. \<exists>s \<in> {i}. (s, j) \<in> rtrancl (child_of g))" by blast
  moreover have "insert i V - {i} = V" using assms(3) by simp
  ultimately show ?thesis
    using inv' by (simp add: Inr r finish_level_def call_ok_def)
qed


lemma compute_level_ok:
  assumes "call_pre g fuel i st"
  shows "call_ok g {i} st (compute_level g fuel i st) (\<lambda>l levels. (i, l) \<in> set levels)"
  using assms
proof (induction fuel arbitrary: i st)
  case 0
  then show ?case using valid_card [of "fst st" g] by (auto simp: call_pre_def)
next
  case (Suc fuel)
  obtain V levels where st: "st = (V, levels)" by (cases st)
  have inv: "level_inv g V levels" and path: "\<forall>v \<in> V. node g v \<noteq> None \<and> (v, i) \<in> trancl (child_of g)"
    and fuel: "length (nodes g) < Suc fuel + card V"
    using Suc.prems by (auto simp: call_pre_def st)
  show ?case
  proof (cases "map_of levels i")
    case (Some l)
    then show ?thesis using inv by (auto simp: st call_ok_def map_of_SomeD)
  next
    case None
    show ?thesis
    proof (cases "i \<in> V")
      case True
      then show ?thesis using path None by (simp add: st call_ok_def)
    next
      case iV: False
      show ?thesis
      proof (cases "node g i")
        case None
        then show ?thesis using \<open>map_of levels i = None\<close> iV by (simp add: st call_ok_def)
      next
        case (Some nd)
        note step = compute_level_step [OF None iV Some, of fuel]
        have children: "(i, c) \<in> child_of g \<longleftrightarrow> c \<in> set (node_children nd)" for c
          using Some by (simp add: child_of_def)
        have iL: "level_inv g (insert i V) levels"
          using inv None by (auto simp: level_inv_def map_of_eq_None_iff)
        show ?thesis
        proof (cases "is_leaf nd")
          case True
          have "level_inv g V ((i, 0) # levels)"
            by (rule level_inv_Cons [OF iL iV])
              (use Some children leaf_children [OF True] in auto)
          then show ?thesis using step True iV by (simp add: st finish_level_def call_ok_def)
        next
          case False
          have "finite V" by simp
          then have fuel': "length (nodes g) < fuel + card (insert i V)" using fuel iV by simp
          have "call_ok g {c} st' (compute_level g fuel c st') (\<lambda>l levels. (c, l) \<in> set levels)"
            if c: "c \<in> set (node_children nd)" and st': "fst st' = insert i V"
              "level_inv g (insert i V) (snd st')" for c st'
          proof (rule Suc.IH)
            have ic: "(i, c) \<in> child_of g" using c children by simp
            then have "(v, c) \<in> trancl (child_of g)" if "v \<in> insert i V" for v
              using that path by (auto intro: trancl_into_trancl)
            then show "call_pre g fuel c st'"
              using st' fuel' path Some by (auto simp: call_pre_def)
          qed
          from max_child_level_ok [OF this, where st = "(insert i V, levels)" and mx = 0] iL
          have "call_ok g (set (node_children nd)) (insert i V, levels)
            (max_child_level (compute_level g fuel) (node_children nd) 0 (insert i V, levels))
            (\<lambda>l levels. 0 \<le> l \<and> l \<le> length levels
               \<and> (\<forall>c \<in> set (node_children nd). \<exists>m \<le> l. (c, m) \<in> set levels))"
            by simp
          then have "call_ok g (set (node_children nd)) (insert i V, levels)
            (max_child_level (compute_level g fuel) (node_children nd) 0 (insert i V, levels))
            (\<lambda>l levels. l \<le> length levels
               \<and> (\<forall>c. (i, c) \<in> child_of g \<longrightarrow> (\<exists>m \<le> l. (c, m) \<in> set levels)))"
            by (rule call_ok_weaken) (auto simp: children)
          from finish_level_ok [OF this _ iV] show ?thesis
            using step False Some children by (simp add: st)
        qed
      qed
    qed
  qed
qed

text \<open>The loop over the roots.\<close>

lemma levelize_loop:
  assumes "level_inv g {} levels" and "\<forall>j \<in> fst ` set levels. j \<in> R"
    and "\<And>r j. r \<in> set roots \<Longrightarrow> (r, j) \<in> rtrancl (child_of g) \<Longrightarrow> j \<in> R"
  shows "case fold_res (\<lambda>root st. map_res snd (compute_level g (length (nodes g) + 1) root st))
      roots ({}, levels) of
    Inr (V, levels') \<Rightarrow> level_inv g {} levels' \<and> (\<forall>j \<in> fst ` set levels'. j \<in> R)
      \<and> fst ` set levels \<subseteq> fst ` set levels' \<and> set roots \<subseteq> fst ` set levels'
  | Inl (LevelCycle j) \<Rightarrow> j \<in> R \<and> (j, j) \<in> trancl (child_of g)
  | Inl (LevelInvalidNode j) \<Rightarrow> j \<in> R \<and> node g j = None
  | Inl LevelFuel \<Rightarrow> False"
  using assms
proof (induction roots arbitrary: levels)
  case Nil
  then show ?case by simp
next
  case (Cons r roots)
  have ok: "call_ok g {r} ({}, levels) (compute_level g (length (nodes g) + 1) r ({}, levels))
      (\<lambda>l levels. (r, l) \<in> set levels)"
    by (rule compute_level_ok) (simp add: call_pre_def Cons.prems(1))
  show ?case
  proof (cases "compute_level g (length (nodes g) + 1) r ({}, levels)")
    case (Inl e)
    then show ?thesis using ok Cons.prems(3) [of r]
      by (auto simp: call_ok_def split: level_error.splits)
  next
    case (Inr res)
    obtain l levels1 where res: "res = (l, {}, levels1)" and inv: "level_inv g {} levels1"
      and rl: "(r, l) \<in> set levels1"
      and new: "\<exists>new. levels1 = new @ levels \<and> (\<forall>j \<in> fst ` set new. (r, j) \<in> rtrancl (child_of g))"
      using ok Inr by (cases res) (auto simp: call_ok_def)
    have R: "\<forall>j \<in> fst ` set levels1. j \<in> R"
      using new Cons.prems(2) Cons.prems(3) [of r] by fastforce
    have sub: "fst ` set levels \<subseteq> fst ` set levels1" "r \<in> fst ` set levels1"
    proof -
      show "fst ` set levels \<subseteq> fst ` set levels1" using new by auto
      show "r \<in> fst ` set levels1" using rl by (rule rev_image_eqI) simp
    qed
    let ?f = "\<lambda>root st. map_res snd (compute_level g (length (nodes g) + 1) root st)"
    have run: "fold_res ?f (r # roots) ({}, levels) = fold_res ?f roots ({}, levels1)"
      by (simp only: fold_res.simps Inr res map_res_simps bind_res_simps snd_conv)
    have tail: "j \<in> R" if "r' \<in> set roots" "(r', j) \<in> rtrancl (child_of g)" for r' j
      using Cons.prems(3) [OF _ that(2)] that(1) by simp
    have ih: "case fold_res ?f roots ({}, levels1) of
      Inr (V, levels') \<Rightarrow> level_inv g {} levels' \<and> (\<forall>j \<in> fst ` set levels'. j \<in> R)
        \<and> fst ` set levels1 \<subseteq> fst ` set levels' \<and> set roots \<subseteq> fst ` set levels'
    | Inl (LevelCycle j) \<Rightarrow> j \<in> R \<and> (j, j) \<in> trancl (child_of g)
    | Inl (LevelInvalidNode j) \<Rightarrow> j \<in> R \<and> node g j = None
    | Inl LevelFuel \<Rightarrow> False"
      by (rule Cons.IH [OF inv R tail])
    show ?thesis
    proof (cases "fold_res ?f roots ({}, levels1)")
      case (Inl e)
      then show ?thesis unfolding run using ih by simp
    next
      case (Inr st)
      obtain V levels' where st: "st = (V, levels')" by (cases st)
      have props: "level_inv g {} levels'" "\<forall>j \<in> fst ` set levels'. j \<in> R"
        "fst ` set levels1 \<subseteq> fst ` set levels'" "set roots \<subseteq> fst ` set levels'"
        using ih unfolding Inr st by simp_all
      moreover have "fst ` set levels \<subseteq> fst ` set levels'" "set (r # roots) \<subseteq> fst ` set levels'"
        using sub props(3,4) by (blast, simp add: subset_iff)
      ultimately show ?thesis unfolding run Inr st by simp
    qed
  qed
qed


lemma reachable_child: "i \<in> reachable g roots \<Longrightarrow> (i, c) \<in> child_of g \<Longrightarrow> c \<in> reachable g roots"
  by (auto simp: reachable_def intro: rtrancl_into_rtrancl)

definition buckets_of :: "(node_id \<times> nat) list \<Rightarrow> node_id list list" where
  "buckets_of levels =
     map (\<lambda>l. filter (\<lambda>i. map_of levels i = Some l) (sort (map fst levels)))
       [0..<fold max (map snd levels) 0 + 1]"

lemma levelize_cases:
  "case levelize g roots of
     Inl (LevelCycle j) \<Rightarrow> j \<in> reachable g roots \<and> (j, j) \<in> trancl (child_of g)
   | Inl (LevelInvalidNode j) \<Rightarrow> j \<in> reachable g roots \<and> node g j = None
   | Inl LevelFuel \<Rightarrow> False
   | Inr buckets \<Rightarrow> \<exists>levels. level_inv g {} levels \<and> fst ` set levels = reachable g roots
       \<and> buckets = buckets_of levels"
proof -
  let ?run = "fold_res (\<lambda>root st. map_res snd (compute_level g (length (nodes g) + 1) root st))
      roots ({}, [])"
  have loop: "case ?run of
    Inr (V, levels') \<Rightarrow> level_inv g {} levels' \<and> (\<forall>j \<in> fst ` set levels'. j \<in> reachable g roots)
      \<and> fst ` set ([] :: (node_id \<times> nat) list) \<subseteq> fst ` set levels' \<and> set roots \<subseteq> fst ` set levels'
  | Inl (LevelCycle j) \<Rightarrow> j \<in> reachable g roots \<and> (j, j) \<in> trancl (child_of g)
  | Inl (LevelInvalidNode j) \<Rightarrow> j \<in> reachable g roots \<and> node g j = None
  | Inl LevelFuel \<Rightarrow> False"
    by (rule levelize_loop) (auto simp: level_inv_def reachable_def)
  show ?thesis
  proof (cases ?run)
    case (Inl e)
    then show ?thesis using loop by (auto simp: levelize_def split: level_error.splits)
  next
    case (Inr st)
    obtain V levels where st: "st = (V, levels)" by (cases st)
    have inv: "level_inv g {} levels" and sub: "fst ` set levels \<subseteq> reachable g roots"
      and roots: "set roots \<subseteq> fst ` set levels"
      using loop Inr st by auto
    have "j \<in> fst ` set levels" if "r \<in> set roots" "(r, j) \<in> rtrancl (child_of g)" for r j
      using that(2,1)
    proof (induction rule: rtrancl_induct)
      case base
      then show ?case using roots by blast
    next
      case (step y z)
      then obtain l where "(y, l) \<in> set levels" by auto
      then show ?case using inv step.hyps(2) unfolding level_inv_def by (metis fst_conv image_eqI)
    qed
    then have "fst ` set levels = reachable g roots"
      using sub by (auto simp: reachable_def)
    moreover have "levelize g roots = Inr (buckets_of levels)"
      unfolding levelize_def Inr st by (simp add: Let_def buckets_of_def del: upt_Suc)
    ultimately show ?thesis using inv by auto
  qed
qed

lemma levelize_Inr:
  assumes "levelize g roots = Inr buckets"
  obtains levels where "level_inv g {} levels" and "fst ` set levels = reachable g roots"
    and "buckets = buckets_of levels"
  using levelize_cases [of g roots] assms by auto

lemma level_le_max:
  assumes "(i, l :: nat) \<in> set levels"
  shows "l \<le> fold max (map snd levels) 0"
proof -
  have "snd (i, l) \<in> snd ` set levels" using assms by (rule imageI)
  then have "l \<in> set (0 # map snd levels)" by simp
  then have "l \<le> Max (set (0 # map snd levels))" by (intro Max_ge) simp_all
  then show ?thesis by (simp only: Max.set_eq_fold)
qed

lemma distinct_filters:
  assumes "distinct ids"
  shows "distinct (concat (map (\<lambda>l. filter (\<lambda>i. f i = Some l) ids) [0..<n]))"
  using assms by (induction n) auto

lemma in_bucket:
  assumes "level_inv g {} levels"
  shows "l < length (buckets_of levels) \<and> i \<in> set (buckets_of levels ! l) \<longleftrightarrow> (i, l) \<in> set levels"
proof -
  have "map_of levels i = Some l \<longleftrightarrow> (i, l) \<in> set levels"
    using assms by (simp add: level_inv_def)
  then show ?thesis
    using level_le_max [of i l levels]
    by (auto simp: buckets_of_def less_Suc_eq_le image_iff simp del: upt_Suc) force
qed

section \<open>Properties of levelize\<close>

definition and_or_pir :: pir_graph where
  "and_or_pir = \<lparr>nodes = [PLit 0, PLit 1, PAnd [0, 1], PConst True, POr [2, 0]]\<rparr>"

lemma and_or_levels: "levelize and_or_pir [4] = Inr [[0, 1], [2], [4]]"
  by code_simp

lemma levels_partition:
  assumes "levelize g roots = Inr buckets"
  shows "distinct (concat buckets) \<and> set (concat buckets) = reachable g roots"
proof -
  obtain levels where inv: "level_inv g {} levels" and r: "fst ` set levels = reachable g roots"
    and b: "buckets = buckets_of levels"
    using levelize_Inr [OF assms] .
  have d: "distinct (map fst levels)" using inv by (simp add: level_inv_def)
  have "distinct (concat buckets)"
    unfolding b buckets_of_def by (rule distinct_filters) (simp add: d)
  moreover have "set (concat buckets) = fst ` set levels"
  proof (intro set_eqI iffI)
    fix i assume "i \<in> set (concat buckets)"
    then obtain bk where "bk \<in> set buckets" "i \<in> set bk" by auto
    then obtain k where "k < length buckets" "i \<in> set (buckets ! k)" by (auto simp: in_set_conv_nth [of bk])
    then have "(i, k) \<in> set levels" using in_bucket [OF inv] b by blast
    then show "i \<in> fst ` set levels" by force
  next
    fix i assume "i \<in> fst ` set levels"
    then obtain k where "(i, k) \<in> set levels" by auto
    then have "k < length buckets" "i \<in> set (buckets ! k)" using in_bucket [OF inv] b by blast+
    then show "i \<in> set (concat buckets)" using nth_mem by fastforce
  qed
  ultimately show ?thesis using r by simp
qed

text \<open>The levels list every node reachable from the roots, each exactly once.\<close>

theorem levelize_partition:
  assumes "levelize g roots = Inr buckets"
  shows "distinct (concat buckets) \<and> set (concat buckets) = reachable g roots"
  by (rule levels_partition [OF assms])

theorem levelize_partition_witness:
  "distinct (concat [[0, 1], [2], [4 :: node_id]])
    \<and> set (concat [[0, 1], [2], [4]]) = reachable and_or_pir [4]"
  by (rule levelize_partition [OF and_or_levels])

lemma levels_children_first:
  assumes "levelize g roots = Inr buckets" and "k < length buckets" and "i \<in> set (buckets ! k)"
    and "node g i = Some nd" and "c \<in> set (node_children nd)"
  shows "\<exists>m < k. c \<in> set (buckets ! m)"
proof -
  obtain levels where inv: "level_inv g {} levels" and b: "buckets = buckets_of levels"
    using levelize_Inr [OF assms(1)] .
  have "(i, k) \<in> set levels" using in_bucket [OF inv] assms(2,3) b by blast
  moreover have "(i, c) \<in> child_of g" using assms(4,5) by (auto simp: child_of_def)
  ultimately obtain m where "m < k" "(c, m) \<in> set levels" using inv unfolding level_inv_def by blast
  then show ?thesis using in_bucket [OF inv] b by blast
qed

text \<open>the children of a node stand in strictly lower levels, so evaluating level by level
  finds every child already evaluated.\<close>

theorem levelize_children_first:
  assumes "levelize g roots = Inr buckets" and "k < length buckets" and "i \<in> set (buckets ! k)"
    and "node g i = Some nd" and "c \<in> set (node_children nd)"
  shows "\<exists>m < k. c \<in> set (buckets ! m)"
  by (rule levels_children_first [OF assms])

theorem levelize_children_first_witness:
  "\<exists>m < 2. 2 \<in> set ([[0, 1], [2], [4 :: node_id]] ! m)"
  by (rule levelize_children_first [OF and_or_levels, where i = 4 and nd = "POr [2, 0]"])
    (simp_all add: node_def get_def and_or_pir_def node_children_def)

text \<open>C25: \<open>levelize\<close> refuses a graph only for a reason and accepts it only when it is sound: a cycle
  error names a reachable node that lies on a cycle, an invalid-identifier error names a reachable
  identifier that has no node, and after a success no reachable node is invalid or on a cycle.\<close>

theorem levelize_verdict:
  "case levelize g roots of
     Inl (LevelCycle j) \<Rightarrow> j \<in> reachable g roots \<and> (j, j) \<in> trancl (child_of g)
   | Inl (LevelInvalidNode j) \<Rightarrow> j \<in> reachable g roots \<and> node g j = None
   | Inl LevelFuel \<Rightarrow> False
   | Inr _ \<Rightarrow> {i \<in> reachable g roots. node g i = None \<or> (i, i) \<in> trancl (child_of g)} = {}"
proof (cases "levelize g roots")
  case (Inl e)
  then show ?thesis using levelize_cases [of g roots] by simp
next
  case (Inr buckets)
  obtain levels where inv: "level_inv g {} levels" and r: "fst ` set levels = reachable g roots"
    using levelize_Inr [OF Inr] .
  have "node g i \<noteq> None \<and> (i, i) \<notin> trancl (child_of g)" if "i \<in> reachable g roots" for i
  proof -
    have "i \<in> fst ` set levels" using r that by simp
    then obtain l where il: "(i, l) \<in> set levels" by auto
    have lower: "\<exists>m < l. (c, m) \<in> set levels" if "(i, c) \<in> trancl (child_of g)" for c
      using that
    proof (induction rule: trancl_induct)
      case (base y)
      then show ?case using inv il unfolding level_inv_def by blast
    next
      case (step y z)
      then obtain m where "m < l" "(y, m) \<in> set levels" by blast
      moreover from this(2) obtain m' where "m' < m" "(z, m') \<in> set levels"
        using inv step.hyps(2) unfolding level_inv_def by blast
      ultimately show ?case by (meson less_trans)
    qed
    have "distinct (map fst levels)" using inv by (simp add: level_inv_def)
    then have "m = l" if "(i, m) \<in> set levels" for m
      using that il by (metis map_of_is_SomeI option.inject)
    then show ?thesis using lower [of i] inv il unfolding level_inv_def by blast
  qed
  then have "{i \<in> reachable g roots. node g i = None \<or> (i, i) \<in> trancl (child_of g)} = {}" by blast
  then show ?thesis by (simp add: Inr)
qed

end
