(* ===== verification/Cnf_Encode.thy ===== *)
theory Cnf_Encode
  imports Pir_Levels
begin

text \<open>
  The Tseitin encoding of a provenance graph (\<open>xlog-prob/src/cnf.rs\<close>, \<open>encode_cnf\<close>): a search for the
  reachable leaves, choice variables and nodes, the numbering of the CNF variables, and the clauses
  of every node, emitted level by level. Variable numbers are 32-bit words that wrap, and literals
  are signed 32-bit words. \<open>CnfLevel\<close> is an error of \<open>levelize\<close>; the other errors are the
  formatted messages of the code.
\<close>

section \<open>Formulas\<close>

type_synonym cnf_lit = i32

record cnf_formula =
  cnf_num_vars :: u32
  cnf_clauses :: "cnf_lit list list"

record cnf_encoding =
  enc_cnf :: cnf_formula
  enc_node_var :: "node_id \<rightharpoonup> u32"
  enc_leaf_var :: "leaf_id \<rightharpoonup> u32"
  enc_choice_var :: "choice_var_id \<rightharpoonup> u32"

datatype cnf_error =
    CnfEmptyRoots
  | CnfInvalidNode node_id
  | CnfMissingLeafVar leaf_id node_id
  | CnfMissingNodeVar node_id
  | CnfMissingChildVar node_id node_id
  | CnfMissingChoiceVar choice_var_id node_id
  | CnfLevel level_error

section \<open>The search\<close>

text \<open>The nodes visited, the leaves and the choice variables met. The head of the stack is its top.\<close>

record cnf_visit =
  cv_visited :: "node_id list"
  cv_leaves :: "leaf_id list"
  cv_choices :: "choice_var_id list"

definition visit_node :: "pir_node \<Rightarrow> cnf_visit \<Rightarrow> cnf_visit" where
  "visit_node nd st =
     (case nd of
        PLit l \<Rightarrow> st\<lparr>cv_leaves := List.insert l (cv_leaves st)\<rparr>
      | PNegLit l \<Rightarrow> st\<lparr>cv_leaves := List.insert l (cv_leaves st)\<rparr>
      | PDecision v _ _ \<Rightarrow> st\<lparr>cv_choices := List.insert v (cv_choices st)\<rparr>
      | _ \<Rightarrow> st)"

lemma visit_node_visited [simp]: "cv_visited (visit_node nd st) = cv_visited st"
  by (simp add: visit_node_def split: pir_node.splits)

function visit_loop :: "pir_graph \<Rightarrow> node_id list \<Rightarrow> cnf_visit \<Rightarrow> cnf_error + cnf_visit" where
  "visit_loop g [] st = Inr st"
| "visit_loop g (i # stack) st =
     (if i \<in> set (cv_visited st) then visit_loop g stack st
      else
        let st' = st\<lparr>cv_visited := i # cv_visited st\<rparr>
        in case node g i of
             None \<Rightarrow> Inl (CnfInvalidNode i)
           | Some nd \<Rightarrow> visit_loop g (rev (node_children nd) @ stack) (visit_node nd st'))"
  by pat_completeness auto

termination
proof (relation "measures [\<lambda>(_, _, st). card (- set (cv_visited st)), \<lambda>(_, stack, _). length stack]")
  fix g :: pir_graph and i :: node_id and stack :: "node_id list" and st st' :: cnf_visit and nd
  assume new: "i \<notin> set (cv_visited st)" and st': "st' = st\<lparr>cv_visited := i # cv_visited st\<rparr>"
  have "- set (cv_visited st') \<subset> - set (cv_visited st)" using new by (auto simp: st')
  then have "card (- set (cv_visited st')) < card (- set (cv_visited st))"
    by (intro psubset_card_mono) simp_all
  then show "((g, rev (node_children nd) @ stack, visit_node nd st'), g, i # stack, st)
      \<in> measures [\<lambda>(_, _, st). card (- set (cv_visited st)), \<lambda>(_, stack, _). length stack]"
    by simp
qed simp_all

section \<open>Numbering\<close>

fun number_from :: "'k list \<Rightarrow> u32 \<Rightarrow> ('k \<rightharpoonup> u32) \<Rightarrow> ('k \<rightharpoonup> u32) \<times> u32" where
  "number_from [] v table = (table, v)"
| "number_from (k # ks) v table = number_from ks (v + 1) (table(k \<mapsto> v))"

definition number_node ::
    "pir_graph \<Rightarrow> (leaf_id \<rightharpoonup> u32) \<Rightarrow> node_id \<Rightarrow> (node_id \<rightharpoonup> u32) \<times> u32
     \<Rightarrow> cnf_error + (node_id \<rightharpoonup> u32) \<times> u32" where
  "number_node g leaf_var i = (\<lambda>(table, v).
     case node g i of
       None \<Rightarrow> Inl (CnfInvalidNode i)
     | Some nd \<Rightarrow>
         (case nd of
            PLit l \<Rightarrow>
              (case leaf_var l of
                 None \<Rightarrow> Inl (CnfMissingLeafVar l i)
               | Some x \<Rightarrow> Inr (table(i \<mapsto> x), v))
          | _ \<Rightarrow> Inr (table(i \<mapsto> v), v + 1)))"

section \<open>Clauses\<close>

definition child_var :: "(node_id \<rightharpoonup> u32) \<Rightarrow> node_id \<Rightarrow> node_id \<Rightarrow> cnf_error + cnf_lit" where
  "child_var node_var i c =
     (case node_var c of None \<Rightarrow> Inl (CnfMissingChildVar c i) | Some x \<Rightarrow> Inr x)"

definition node_clauses ::
    "pir_graph \<Rightarrow> (node_id \<rightharpoonup> u32) \<Rightarrow> (leaf_id \<rightharpoonup> u32) \<Rightarrow> (choice_var_id \<rightharpoonup> u32) \<Rightarrow> node_id
     \<Rightarrow> cnf_error + cnf_lit list list" where
  "node_clauses g node_var leaf_var choice_var i =
     (case node g i of
        None \<Rightarrow> Inl (CnfInvalidNode i)
      | Some nd \<Rightarrow>
     (case node_var i of
        None \<Rightarrow> Inl (CnfMissingNodeVar i)
      | Some v \<Rightarrow>
     (case nd of
        PConst b \<Rightarrow> Inr [[if b then v else - v]]
      | PLit _ \<Rightarrow> Inr []
      | PNegLit l \<Rightarrow>
          (case leaf_var l of
             None \<Rightarrow> Inl (CnfMissingLeafVar l i)
           | Some x \<Rightarrow> Inr [[v, x], [- v, - x]])
      | PAnd cs \<Rightarrow>
          if cs = [] then Inr [[v]]
          else bind_res (traverse (child_var node_var i) cs) (\<lambda>xs.
                 Inr (map (\<lambda>c. [- v, c]) xs @ [map uminus xs @ [v]]))
      | POr cs \<Rightarrow>
          if cs = [] then Inr [[- v]]
          else bind_res (traverse (child_var node_var i) cs) (\<lambda>xs.
                 Inr (map (\<lambda>c. [- c, v]) xs @ [- v # xs]))
      | PDecision d f t \<Rightarrow>
          (case choice_var d of
             None \<Rightarrow> Inl (CnfMissingChoiceVar d i)
           | Some x \<Rightarrow>
               bind_res (child_var node_var i f) (\<lambda>xf.
               bind_res (child_var node_var i t) (\<lambda>xt.
               Inr [[- x, - xt, v], [x, - xf, v], [- x, xt, - v], [x, xf, - v]]))))))"

section \<open>The encoding\<close>

definition encode_cnf :: "pir_graph \<Rightarrow> node_id list \<Rightarrow> cnf_error + cnf_encoding" where
  "encode_cnf g roots =
     (if roots = [] then Inl CnfEmptyRoots
      else
        bind_res (visit_loop g (rev roots) \<lparr>cv_visited = [], cv_leaves = [], cv_choices = []\<rparr>) (\<lambda>st.
        let (leaf_var, v1) = number_from (sort (cv_leaves st)) 1 Map.empty;
            (choice_var, v2) = number_from (sort (cv_choices st)) v1 Map.empty
        in bind_res (fold_res (number_node g leaf_var) (sort (cv_visited st)) (Map.empty, v2))
             (\<lambda>(node_var, v3).
        bind_res (map_err CnfLevel (levelize g roots)) (\<lambda>levels.
        bind_res (traverse (node_clauses g node_var leaf_var choice_var) (concat levels)) (\<lambda>css.
        Inr \<lparr>enc_cnf = \<lparr>cnf_num_vars = v3 - 1, cnf_clauses = concat css\<rparr>,
             enc_node_var = node_var, enc_leaf_var = leaf_var, enc_choice_var = choice_var\<rparr>)))))"

end
