(* ===== verification/Cnf_Correct.thy ===== *)
theory Cnf_Correct
  imports Cnf_Encode
begin

text \<open>
  The encoding of \<open>cnf.rs\<close> is correct: it succeeds exactly on non-empty acyclic root sets, every
  satisfying assignment gives each node its meaning, and every assignment of the leaves and choice
  variables extends to exactly one satisfying assignment, so weighted model counts are preserved.
\<close>

section \<open>The search finds the reachable part\<close>

definition leaf_in :: "pir_graph \<Rightarrow> node_id set \<Rightarrow> leaf_id \<Rightarrow> bool" where
  "leaf_in g V l = (\<exists>i \<in> V. node g i = Some (PLit l) \<or> node g i = Some (PNegLit l))"

definition choice_in :: "pir_graph \<Rightarrow> node_id set \<Rightarrow> choice_var_id \<Rightarrow> bool" where
  "choice_in g V d = (\<exists>i \<in> V. \<exists>f t. node g i = Some (PDecision d f t))"

definition visit_inv :: "pir_graph \<Rightarrow> node_id list \<Rightarrow> node_id list \<Rightarrow> cnf_visit \<Rightarrow> bool" where
  "visit_inv g roots stack st =
     (distinct (cv_visited st) \<and> distinct (cv_leaves st) \<and> distinct (cv_choices st)
      \<and> set (cv_visited st) \<union> set stack \<subseteq> reachable g roots
      \<and> set roots \<subseteq> set (cv_visited st) \<union> set stack
      \<and> (\<forall>i \<in> set (cv_visited st). node g i \<noteq> None
           \<and> (\<forall>c. (i, c) \<in> child_of g \<longrightarrow> c \<in> set (cv_visited st) \<union> set stack))
      \<and> (\<forall>l. l \<in> set (cv_leaves st) \<longleftrightarrow> leaf_in g (set (cv_visited st)) l)
      \<and> (\<forall>d. d \<in> set (cv_choices st) \<longleftrightarrow> choice_in g (set (cv_visited st)) d))"

lemma visit_step:
  assumes inv: "visit_inv g roots (i # stack) st" and new: "i \<notin> set (cv_visited st)"
    and nd: "node g i = Some nd"
  shows "visit_inv g roots (rev (node_children nd) @ stack)
    (visit_node nd (st\<lparr>cv_visited := i # cv_visited st\<rparr>))"
proof -
  let ?st = "visit_node nd (st\<lparr>cv_visited := i # cv_visited st\<rparr>)"
  have children: "(i, c) \<in> child_of g \<longleftrightarrow> c \<in> set (node_children nd)" for c
    by (simp add: child_of_def nd)
  have reach: "i \<in> reachable g roots" using inv by (simp add: visit_inv_def)
  then have kids: "set (node_children nd) \<subseteq> reachable g roots"
    using reachable_child children by blast
  have leaves: "l \<in> set (cv_leaves ?st) \<longleftrightarrow> leaf_in g (insert i (set (cv_visited st))) l" for l
    using inv by (cases nd) (auto simp: visit_inv_def visit_node_def leaf_in_def nd)
  have choices: "d \<in> set (cv_choices ?st) \<longleftrightarrow> choice_in g (insert i (set (cv_visited st))) d" for d
    using inv by (cases nd) (auto simp: visit_inv_def visit_node_def choice_in_def nd)
  have "distinct (cv_leaves ?st)" "distinct (cv_choices ?st)"
    using inv by (cases nd; simp add: visit_inv_def visit_node_def)+
  then show ?thesis
    using inv new kids nd leaves choices children unfolding visit_inv_def by auto
qed

lemma visit_loop_ok:
  assumes "visit_inv g roots stack st"
  shows "case visit_loop g stack st of
      Inr st' \<Rightarrow> visit_inv g roots [] st'
    | Inl e \<Rightarrow> \<exists>i \<in> reachable g roots. node g i = None \<and> e = CnfInvalidNode i"
  using assms
proof (induction g stack st rule: visit_loop.induct)
  case (2 g i stack st)
  show ?case
  proof (cases "i \<in> set (cv_visited st)")
    case True
    then have "visit_inv g roots stack st" using "2.prems" by (auto simp: visit_inv_def)
    then show ?thesis using "2.IH"(1) True by simp
  next
    case False
    show ?thesis
    proof (cases "node g i")
      case None
      then show ?thesis using False "2.prems" by (auto simp: visit_inv_def)
    next
      case (Some nd)
      from "2.IH"(2) [OF False refl Some visit_step [OF "2.prems" False Some]] False Some
      show ?thesis by simp
    qed
  qed
qed simp

lemma visit_all:
  assumes "visit_loop g (rev roots) \<lparr>cv_visited = [], cv_leaves = [], cv_choices = []\<rparr> = Inr st"
  shows "set (cv_visited st) = reachable g roots" and "\<forall>i \<in> reachable g roots. node g i \<noteq> None"
    and "distinct (cv_visited st)" and "distinct (cv_leaves st)" and "distinct (cv_choices st)"
    and "set (cv_leaves st) = {l. leaf_in g (reachable g roots) l}"
    and "set (cv_choices st) = {d. choice_in g (reachable g roots) d}"
proof -
  have "visit_inv g roots (rev roots) \<lparr>cv_visited = [], cv_leaves = [], cv_choices = []\<rparr>"
    by (auto simp: visit_inv_def reachable_def leaf_in_def choice_in_def)
  from visit_loop_ok [OF this] assms have inv: "visit_inv g roots [] st" by simp
  have "j \<in> set (cv_visited st)" if "r \<in> set roots" "(r, j) \<in> rtrancl (child_of g)" for r j
    using that(2) by induction (use inv that(1) in \<open>auto simp: visit_inv_def\<close>)
  then have "reachable g roots \<subseteq> set (cv_visited st)" by (auto simp: reachable_def)
  then show eq: "set (cv_visited st) = reachable g roots" using inv by (auto simp: visit_inv_def)
  show "\<forall>i \<in> reachable g roots. node g i \<noteq> None" using inv unfolding eq [symmetric] visit_inv_def by blast
  show "distinct (cv_visited st)" "distinct (cv_leaves st)" "distinct (cv_choices st)"
    "set (cv_leaves st) = {l. leaf_in g (reachable g roots) l}"
    "set (cv_choices st) = {d. choice_in g (reachable g roots) d}"
    using inv unfolding eq [symmetric] visit_inv_def by blast+
qed

section \<open>The numbering is a bijection\<close>

text \<open>\<open>fresh_table ks a b table\<close>: the keys \<open>ks\<close> are numbered one to one with the numbers from \<open>a\<close>
  below \<open>b\<close>.\<close>

definition fresh_table :: "'k set \<Rightarrow> nat \<Rightarrow> nat \<Rightarrow> ('k \<rightharpoonup> u32) \<Rightarrow> bool" where
  "fresh_table ks a b table =
     ((\<forall>k \<in> ks. table k \<noteq> None) \<and> bij_betw (\<lambda>k. unat (the (table k))) ks {a..<b})"

lemma fresh_table_empty [simp]: "fresh_table {} a a table"
  by (simp add: fresh_table_def bij_betw_def)

lemma fresh_table_cong:
  assumes "\<forall>k \<in> ks. table' k = table k"
  shows "fresh_table ks a b table' = fresh_table ks a b table"
proof -
  have "bij_betw (\<lambda>k. unat (the (table' k))) ks {a..<b} = bij_betw (\<lambda>k. unat (the (table k))) ks {a..<b}"
    by (rule bij_betw_cong) (use assms in simp)
  then show ?thesis using assms by (simp add: fresh_table_def)
qed

lemma fresh_table_insert:
  assumes "fresh_table ks a b table" and "k \<notin> ks" and "unat v = b" and "a \<le> b"
  shows "fresh_table (insert k ks) a (Suc b) (table(k \<mapsto> v))"
proof -
  have "bij_betw (\<lambda>k'. unat (the ((table(k \<mapsto> v)) k'))) ks {a..<b}"
    by (rule bij_betw_cong [THEN iffD1, of ks "\<lambda>k. unat (the (table k))"])
      (use assms(1,2) in \<open>auto simp: fresh_table_def\<close>)
  then have "bij_betw (\<lambda>k'. unat (the ((table(k \<mapsto> v)) k'))) (ks \<union> {k}) ({a..<b} \<union> {b})"
    by (rule bij_betw_combine) (use assms in auto)
  moreover have "{a..<b} \<union> {b} = {a..<Suc b}" using assms(4) by auto
  ultimately show ?thesis using assms by (auto simp: fresh_table_def)
qed

lemma unat_Suc: "unat v < 2 ^ 32 - 1 \<Longrightarrow> unat (v + 1 :: u32) = Suc (unat v)"
  by (subst unat_plus_simple [THEN iffD1]) (auto simp: word_le_nat_alt unat_word_ariths)

lemma number_from_ok:
  assumes "fresh_table ks0 a (unat v) table" and "a \<le> unat v" and "distinct ks" and "set ks \<inter> ks0 = {}"
    and "unat v + length ks < 2 ^ 32"
  shows "case number_from ks v table of (table', v') \<Rightarrow>
    fresh_table (ks0 \<union> set ks) a (unat v') table' \<and> unat v' = unat v + length ks
    \<and> (\<forall>k. k \<notin> set ks \<longrightarrow> table' k = table k)"
  using assms
proof (induction ks arbitrary: ks0 v table)
  case (Cons k ks)
  have v: "unat (v + 1) = Suc (unat v)" using Cons.prems(5) by (intro unat_Suc) simp
  have "fresh_table (insert k ks0) a (unat (v + 1)) (table(k \<mapsto> v))"
    unfolding v by (rule fresh_table_insert) (use Cons.prems in auto)
  from Cons.IH [OF this] Cons.prems v
  have ih: "case number_from ks (v + 1) (table(k \<mapsto> v)) of (table', v') \<Rightarrow>
      fresh_table (insert k ks0 \<union> set ks) a (unat v') table' \<and> unat v' = unat (v + 1) + length ks
      \<and> (\<forall>k'. k' \<notin> set ks \<longrightarrow> table' k' = (table(k \<mapsto> v)) k')"
    by (simp del: fun_upd_apply)
  obtain table' v' where r: "number_from ks (v + 1) (table(k \<mapsto> v)) = (table', v')"
    by (cases "number_from ks (v + 1) (table(k \<mapsto> v))")
  show ?case unfolding number_from.simps r using ih v by (auto simp: r)
qed simp

lemma number_from_start:
  assumes "distinct ks" and "unat v + length ks < 2 ^ 32" and "number_from ks v Map.empty = (table, v')"
  shows "fresh_table (set ks) (unat v) (unat v') table" and "unat v' = unat v + length ks"
    and "dom table = set ks"
  using number_from_ok [OF fresh_table_empty [of "unat v" Map.empty], of ks] assms
  by (auto simp: fresh_table_def)

definition is_lit_node :: "pir_graph \<Rightarrow> node_id \<Rightarrow> bool" where
  "is_lit_node g i = (\<exists>l. node g i = Some (PLit l))"

definition leaf_of :: "pir_graph \<Rightarrow> node_id \<Rightarrow> leaf_id" where
  "leaf_of g i = (case node g i of Some (PLit l) \<Rightarrow> l | _ \<Rightarrow> 0)"

lemma number_from_upd:
  assumes "i \<notin> set ks"
  shows "number_from ks v (table(i := x)) =
    ((fst (number_from ks v table))(i := x), snd (number_from ks v table))"
  using assms
proof (induction ks arbitrary: v table)
  case (Cons k ks)
  then have "table(i := x, k \<mapsto> v) = (table(k \<mapsto> v))(i := x)" by (auto simp: fun_upd_twist)
  then show ?case using Cons by (simp del: fun_upd_apply)
qed simp

lemma number_nodes:
  assumes "distinct is" and "\<forall>i \<in> set is. node g i \<noteq> None"
    and "\<forall>i \<in> set is. is_lit_node g i \<longrightarrow> leaf_var (leaf_of g i) \<noteq> None"
  shows "fold_res (number_node g leaf_var) is (table, v) =
    (case number_from (filter (\<lambda>i. \<not> is_lit_node g i) is) v table of (t, v') \<Rightarrow>
       Inr (\<lambda>i. if i \<in> set is \<and> is_lit_node g i then leaf_var (leaf_of g i) else t i, v'))"
  using assms
proof (induction "is" arbitrary: table v)
  case (Cons i "is")
  obtain nd where nd: "node g i = Some nd" using Cons.prems(2) by auto
  let ?ks = "filter (\<lambda>i. \<not> is_lit_node g i) is"
  have prem: "distinct is" "\<forall>i \<in> set is. node g i \<noteq> None"
    "\<forall>i \<in> set is. is_lit_node g i \<longrightarrow> leaf_var (leaf_of g i) \<noteq> None" and new: "i \<notin> set is"
    using Cons.prems by auto
  show ?case
  proof (cases "is_lit_node g i")
    case True
    then obtain l where l: "nd = PLit l" using nd by (auto simp: is_lit_node_def)
    have leaf: "leaf_of g i = l" by (simp add: leaf_of_def nd l)
    obtain x where x: "leaf_var l = Some x" using Cons.prems(3) True leaf by auto
    have "number_node g leaf_var i (table, v) = Inr (table(i \<mapsto> x), v)"
      by (simp add: number_node_def nd l x)
    then show ?thesis
      using Cons.IH [OF prem, of "table(i \<mapsto> x)" v] True new leaf x
        number_from_upd [of i ?ks v table "Some x"]
      by (simp add: split_beta del: fun_upd_apply) (auto simp: fun_eq_iff)
  next
    case False
    then have "number_node g leaf_var i (table, v) = Inr (table(i \<mapsto> v), v + 1)"
      using nd by (cases nd) (auto simp: number_node_def is_lit_node_def)
    then show ?thesis using Cons.IH [OF prem, of "table(i \<mapsto> v)" "v + 1"] False
      by (simp add: split_beta del: fun_upd_apply) (auto simp: fun_eq_iff)
  qed
qed simp

text \<open>The three blocks of variables: leaves, then choice variables, then nodes.\<close>

definition numbered ::
    "pir_graph \<Rightarrow> node_id set \<Rightarrow> (node_id \<rightharpoonup> u32) \<Rightarrow> (leaf_id \<rightharpoonup> u32) \<Rightarrow> (choice_var_id \<rightharpoonup> u32)
     \<Rightarrow> nat \<Rightarrow> nat \<Rightarrow> nat \<Rightarrow> bool" where
  "numbered g R node_var leaf_var choice_var a b n =
     (1 \<le> a \<and> a \<le> b \<and> b \<le> n
      \<and> dom leaf_var = {l. leaf_in g R l} \<and> fresh_table {l. leaf_in g R l} 1 a leaf_var
      \<and> dom choice_var = {d. choice_in g R d} \<and> fresh_table {d. choice_in g R d} a b choice_var
      \<and> dom node_var = R \<and> fresh_table {i \<in> R. \<not> is_lit_node g i} b n node_var
      \<and> (\<forall>i \<in> R. \<forall>l. node g i = Some (PLit l) \<longrightarrow> node_var i = leaf_var l))"

lemma leaves_card:
  assumes "finite R"
  shows "finite {l. leaf_in g R l}" and "card {l. leaf_in g R l} + card {d. choice_in g R d} \<le> card R"
proof -
  let ?A = "{i \<in> R. \<exists>l. node g i = Some (PLit l) \<or> node g i = Some (PNegLit l)}"
  let ?B = "{i \<in> R. \<exists>d f t. node g i = Some (PDecision d f t)}"
  let ?lf = "\<lambda>i. case node g i of Some (PLit l) \<Rightarrow> l | Some (PNegLit l) \<Rightarrow> l | _ \<Rightarrow> 0"
  let ?ch = "\<lambda>i. case node g i of Some (PDecision d _ _) \<Rightarrow> d | _ \<Rightarrow> 0"
  have l: "{l. leaf_in g R l} \<subseteq> ?lf ` ?A"
  proof
    fix l assume "l \<in> {l. leaf_in g R l}"
    then obtain i where i: "i \<in> R" "node g i = Some (PLit l) \<or> node g i = Some (PNegLit l)"
      by (auto simp: leaf_in_def)
    then have "i \<in> ?A" "?lf i = l" by auto
    then show "l \<in> ?lf ` ?A" by blast
  qed
  have d: "{d. choice_in g R d} \<subseteq> ?ch ` ?B"
  proof
    fix d assume "d \<in> {d. choice_in g R d}"
    then obtain i f t where i: "i \<in> R" "node g i = Some (PDecision d f t)"
      by (auto simp: choice_in_def)
    then have "i \<in> ?B" "?ch i = d" by auto
    then show "d \<in> ?ch ` ?B" by blast
  qed
  have fin: "finite ?A" "finite ?B" using assms by simp_all
  show "finite {l. leaf_in g R l}" by (rule finite_subset [OF l]) (simp add: fin)
  have "card {l. leaf_in g R l} \<le> card ?A" "card {d. choice_in g R d} \<le> card ?B"
    by (rule order_trans [OF card_mono [OF _ l] card_image_le], simp_all add: fin)
      (rule order_trans [OF card_mono [OF _ d] card_image_le], simp_all add: fin)
  moreover have "card ?A + card ?B = card (?A \<union> ?B)" by (rule card_Un_disjoint [symmetric]) (use fin in auto)
  moreover have "card (?A \<union> ?B) \<le> card R" by (rule card_mono) (use assms in auto)
  ultimately show "card {l. leaf_in g R l} + card {d. choice_in g R d} \<le> card R" by linarith
qed

lemma reachable_card:
  assumes "\<forall>i \<in> reachable g roots. node g i \<noteq> None"
  shows "card (reachable g roots) \<le> length (nodes g)"
  using valid_card [OF assms] .

text \<open>The numbering of the code satisfies this.\<close>

lemma numbering_ok:
  assumes visit: "visit_loop g (rev roots) \<lparr>cv_visited = [], cv_leaves = [], cv_choices = []\<rparr> = Inr st"
    and small: "2 * length (nodes g) < 2 ^ 31"
    and lv: "number_from (sort (cv_leaves st)) 1 Map.empty = (leaf_var, v1)"
    and cv: "number_from (sort (cv_choices st)) v1 Map.empty = (choice_var, v2)"
  shows "\<exists>node_var v3. fold_res (number_node g leaf_var) (sort (cv_visited st)) (Map.empty, v2)
      = Inr (node_var, v3)
    \<and> numbered g (reachable g roots) node_var leaf_var choice_var (unat v1) (unat v2) (unat v3)
    \<and> unat v3 \<le> 2 ^ 31"
proof -
  let ?R = "reachable g roots" and ?is = "sort (cv_visited st)"
  let ?ks = "filter (\<lambda>i. \<not> is_lit_node g i) ?is"
  note v = visit_all [OF visit]
  have R: "card ?R \<le> length (nodes g)" by (rule reachable_card [OF v(2)])
  have lens: "length (cv_leaves st) + length (cv_choices st) \<le> card ?R"
    using leaves_card(2) [of ?R g] distinct_card [OF v(4)] distinct_card [OF v(5)] by (simp add: v(6,7))
  have len: "length (cv_visited st) = card ?R" using distinct_card [OF v(3)] by (simp add: v(1))
  have d: "distinct (sort (cv_leaves st))" "distinct (sort (cv_choices st))" "distinct ?is" "distinct ?ks"
    using v(3-5) by simp_all
  have one: "unat (1 :: u32) = 1" by simp
  note L = number_from_start [OF d(1) _ lv, unfolded one]
  have L': "fresh_table {l. leaf_in g ?R l} 1 (unat v1) leaf_var" "dom leaf_var = {l. leaf_in g ?R l}"
    and v1: "unat v1 = 1 + length (cv_leaves st)"
    using L lens R small by (simp_all add: v(6))
  note C = number_from_start [OF d(2) _ cv]
  have C': "fresh_table {d. choice_in g ?R d} (unat v1) (unat v2) choice_var"
      "dom choice_var = {d. choice_in g ?R d}"
    and v2: "unat v2 = unat v1 + length (cv_choices st)"
    using C v1 lens R small by (simp_all add: v(7))
  obtain t v3 where r: "number_from ?ks v2 Map.empty = (t, v3)" by fastforce
  have ks: "length ?ks \<le> card ?R" using len by (metis length_filter_le length_sort)
  note N = number_from_start [OF d(4) _ r]
  have N': "fresh_table {i \<in> ?R. \<not> is_lit_node g i} (unat v2) (unat v3) t"
      "dom t = {i \<in> ?R. \<not> is_lit_node g i}"
    and v3: "unat v3 = unat v2 + length ?ks"
    using N v1 v2 lens R small ks by (simp_all add: v(1))
  let ?nv = "\<lambda>i. if i \<in> set ?is \<and> is_lit_node g i then leaf_var (leaf_of g i) else t i"
  have leaf: "leaf_var (leaf_of g i) \<noteq> None" if "i \<in> ?R" "is_lit_node g i" for i
  proof -
    obtain l where l: "node g i = Some (PLit l)" using \<open>is_lit_node g i\<close> by (auto simp: is_lit_node_def)
    then have "leaf_in g ?R l" using \<open>i \<in> ?R\<close> by (auto simp: leaf_in_def)
    then have "l \<in> dom leaf_var" using L'(2) by blast
    then show ?thesis using l by (auto simp: leaf_of_def)
  qed
  have run: "fold_res (number_node g leaf_var) ?is (Map.empty, v2) = Inr (?nv, v3)"
    using number_nodes [OF d(3), of g leaf_var Map.empty v2] v(1,2) leaf by (simp add: r)
  have "numbered g ?R ?nv leaf_var choice_var (unat v1) (unat v2) (unat v3)"
    unfolding numbered_def
  proof (intro conjI)
    show "1 \<le> unat v1" "unat v1 \<le> unat v2" "unat v2 \<le> unat v3" using v1 v2 v3 by simp_all
    show "dom leaf_var = {l. leaf_in g ?R l}" "fresh_table {l. leaf_in g ?R l} 1 (unat v1) leaf_var"
      by (rule L')+
    show "dom choice_var = {d. choice_in g ?R d}"
      "fresh_table {d. choice_in g ?R d} (unat v1) (unat v2) choice_var" by (rule C')+
    show "dom ?nv = ?R" using N'(2) leaf by (auto simp: v(1) dom_def split: if_splits)
    show "fresh_table {i \<in> ?R. \<not> is_lit_node g i} (unat v2) (unat v3) ?nv"
      using N'(1) by (subst fresh_table_cong) auto
    show "\<forall>i \<in> ?R. \<forall>l. node g i = Some (PLit l) \<longrightarrow> ?nv i = leaf_var l"
      by (auto simp: v(1) is_lit_node_def leaf_of_def)
  qed
  moreover have "unat v3 \<le> 2 ^ 31" using v1 v2 v3 lens R ks small by simp
  ultimately show ?thesis using run by blast
qed

section \<open>The clauses of a node\<close>

text \<open>A literal is a signed variable number.\<close>

definition lit_true :: "(u32 \<Rightarrow> bool) \<Rightarrow> cnf_lit \<Rightarrow> bool" where
  "lit_true \<sigma> l = (if 0 <s l then \<sigma> l else \<not> \<sigma> (- l))"

definition clause_true :: "(u32 \<Rightarrow> bool) \<Rightarrow> cnf_lit list \<Rightarrow> bool" where
  "clause_true \<sigma> c = (\<exists>l \<in> set c. lit_true \<sigma> l)"

definition models :: "(u32 \<Rightarrow> bool) \<Rightarrow> cnf_lit list list \<Rightarrow> bool" where
  "models \<sigma> cs = (\<forall>c \<in> set cs. clause_true \<sigma> c)"

lemma clause_true_simps [simp]:
  "clause_true \<sigma> [] = False" "clause_true \<sigma> (l # c) = (lit_true \<sigma> l \<or> clause_true \<sigma> c)"
  "clause_true \<sigma> (c @ c') = (clause_true \<sigma> c \<or> clause_true \<sigma> c')"
  by (auto simp: clause_true_def)

lemma models_simps [simp]:
  "models \<sigma> [] = True" "models \<sigma> (c # cs) = (clause_true \<sigma> c \<and> models \<sigma> cs)"
  "models \<sigma> (cs @ cs') = (models \<sigma> cs \<and> models \<sigma> cs')"
  by (auto simp: models_def)

definition small_var :: "u32 \<Rightarrow> bool" where
  "small_var v = (0 < unat v \<and> unat v < 2 ^ 31)"

lemma lit_true_var:
  assumes "small_var v"
  shows "lit_true \<sigma> v = \<sigma> v" and "lit_true \<sigma> (- v) = (\<not> \<sigma> v)"
proof -
  have v: "unat v < 2 ^ 31" "0 < unat v" using assms by (simp_all add: small_var_def)
  have "0 <s v" unfolding word_sless_alt sint_small [OF v(1)] using v(2) by (simp del: of_nat_unat)
  then show "lit_true \<sigma> v = \<sigma> v" by (simp add: lit_true_def)
  have "\<not> 0 <s - v" unfolding word_sless_alt sint_minus_small [OF v(1)] using v(2) by (simp del: of_nat_unat)
  then show "lit_true \<sigma> (- v) = (\<not> \<sigma> v)" by (simp add: lit_true_def)
qed

lemma fresh_small:
  assumes "fresh_table ks a b table" and "1 \<le> a" and "b \<le> 2 ^ 31" and "k \<in> ks"
  obtains v where "table k = Some v" and "small_var v"
proof -
  obtain v where v: "table k = Some v" using assms(1,4) by (auto simp: fresh_table_def)
  have "unat (the (table k)) \<in> {a..<b}"
    using assms(1,4) unfolding fresh_table_def bij_betw_def by blast
  then show thesis using that v assms(2,3) by (simp add: small_var_def)
qed

text \<open>The value the clauses of a node give its variable.\<close>

definition local_value ::
    "(node_id \<rightharpoonup> u32) \<Rightarrow> (leaf_id \<rightharpoonup> u32) \<Rightarrow> (choice_var_id \<rightharpoonup> u32) \<Rightarrow> (u32 \<Rightarrow> bool) \<Rightarrow> pir_node \<Rightarrow> bool"
  where
  "local_value node_var leaf_var choice_var \<sigma> nd =
     (case nd of
        PConst b \<Rightarrow> b
      | PLit l \<Rightarrow> \<sigma> (the (leaf_var l))
      | PNegLit l \<Rightarrow> \<not> \<sigma> (the (leaf_var l))
      | PAnd cs \<Rightarrow> \<forall>c \<in> set cs. \<sigma> (the (node_var c))
      | POr cs \<Rightarrow> \<exists>c \<in> set cs. \<sigma> (the (node_var c))
      | PDecision d f t \<Rightarrow> \<sigma> (the (node_var (if \<sigma> (the (choice_var d)) then t else f))))"

lemma children_vars:
  assumes "\<forall>c \<in> set cs. \<exists>x. node_var c = Some x"
  shows "traverse (child_var node_var i) cs = Inr (map (\<lambda>c. the (node_var c)) cs)"
  using assms by (induction cs) (auto simp: child_var_def)

lemma models_and:
  assumes "small_var v" and "\<forall>x \<in> set xs. small_var x"
  shows "models \<sigma> (map (\<lambda>c. [- v, c]) xs @ [map uminus xs @ [v]]) \<longleftrightarrow> \<sigma> v = (\<forall>x \<in> set xs. \<sigma> x)"
proof -
  have "models \<sigma> (map (\<lambda>c. [- v, c]) xs) \<longleftrightarrow> (\<forall>x \<in> set xs. \<sigma> v \<longrightarrow> \<sigma> x)"
    using assms(2) by (induction xs) (auto simp: lit_true_var assms(1))
  moreover have "clause_true \<sigma> (map uminus xs) \<longleftrightarrow> (\<exists>x \<in> set xs. \<not> \<sigma> x)"
    using assms(2) by (induction xs) (simp_all add: lit_true_var)
  ultimately show ?thesis by (auto simp: lit_true_var assms(1))
qed

lemma models_or:
  assumes "small_var v" and "\<forall>x \<in> set xs. small_var x"
  shows "models \<sigma> (map (\<lambda>c. [- c, v]) xs @ [- v # xs]) \<longleftrightarrow> \<sigma> v = (\<exists>x \<in> set xs. \<sigma> x)"
proof -
  have "models \<sigma> (map (\<lambda>c. [- c, v]) xs) \<longleftrightarrow> (\<forall>x \<in> set xs. \<sigma> x \<longrightarrow> \<sigma> v)"
    using assms(2) by (induction xs) (auto simp: lit_true_var assms(1))
  moreover have "clause_true \<sigma> xs \<longleftrightarrow> (\<exists>x \<in> set xs. \<sigma> x)"
    using assms(2) by (induction xs) (simp_all add: lit_true_var)
  ultimately show ?thesis by (auto simp: lit_true_var assms(1))
qed

lemma node_clauses_ok:
  assumes num: "numbered g R node_var leaf_var choice_var a b n" and n: "n \<le> 2 ^ 31"
    and i: "i \<in> R" and nd: "node g i = Some nd" and kids: "set (node_children nd) \<subseteq> R"
  shows "\<exists>css. node_clauses g node_var leaf_var choice_var i = Inr css
    \<and> (\<forall>\<sigma>. models \<sigma> css \<longleftrightarrow> \<sigma> (the (node_var i)) = local_value node_var leaf_var choice_var \<sigma> nd)"
proof -
  have ab: "1 \<le> a" "a \<le> b" "b \<le> n"
    and fl: "fresh_table {l. leaf_in g R l} 1 a leaf_var"
    and fc: "fresh_table {d. choice_in g R d} a b choice_var"
    and fn: "fresh_table {i \<in> R. \<not> is_lit_node g i} b n node_var"
    and lit: "\<forall>i \<in> R. \<forall>l. node g i = Some (PLit l) \<longrightarrow> node_var i = leaf_var l"
    using num by (simp_all add: numbered_def)
  have small: "a \<le> 2 ^ 31" "b \<le> 2 ^ 31" "1 \<le> b" using ab n by linarith+
  have leaf: "\<exists>v. leaf_var l = Some v \<and> small_var v" if "leaf_in g R l" for l
    by (rule fresh_small [OF fl order_refl small(1), of l]) (use that in blast)+
  have choice: "\<exists>v. choice_var d = Some v \<and> small_var v" if "choice_in g R d" for d
    by (rule fresh_small [OF fc ab(1) small(2), of d]) (use that in blast)+
  have var: "\<exists>v. node_var j = Some v \<and> small_var v" if j: "j \<in> R" for j
  proof (cases "is_lit_node g j")
    case True
    then obtain l where l: "node g j = Some (PLit l)" by (auto simp: is_lit_node_def)
    then have "leaf_in g R l" using j by (auto simp: leaf_in_def)
    then show ?thesis using leaf lit l j by auto
  next
    case False
    show ?thesis by (rule fresh_small [OF fn small(3) n, of j]) (use False j in blast)+
  qed
  obtain v where v: "node_var i = Some v" "small_var v" using var [OF i] by blast
  have small_kids: "\<forall>x \<in> set (map (\<lambda>c. the (node_var c)) (node_children nd)). small_var x"
  proof
    fix x assume "x \<in> set (map (\<lambda>c. the (node_var c)) (node_children nd))"
    then obtain c where c: "c \<in> set (node_children nd)" "x = the (node_var c)" by auto
    then obtain y where "node_var c = Some y" "small_var y" using var kids by blast
    then show "small_var x" using c(2) by simp
  qed
  have tr: "traverse (child_var node_var i) (node_children nd)
      = Inr (map (\<lambda>c. the (node_var c)) (node_children nd))"
    by (rule children_vars) (use var kids in blast)
  show ?thesis
  proof (cases nd)
    case (PConst c)
    then show ?thesis using v by (simp add: node_clauses_def nd local_value_def lit_true_var)
  next
    case (PLit l)
    then have "leaf_var l = Some v" using lit i nd v by auto
    then show ?thesis using v PLit by (simp add: node_clauses_def nd local_value_def)
  next
    case (PNegLit l)
    then have "leaf_in g R l" using i nd by (auto simp: leaf_in_def)
    then obtain x where "leaf_var l = Some x" "small_var x" using leaf by blast
    then show ?thesis using v PNegLit by (auto simp: node_clauses_def nd local_value_def lit_true_var)
  next
    case (PAnd cs)
    let ?xs = "map (\<lambda>c. the (node_var c)) cs"
    note k = small_kids [unfolded PAnd node_children_def pir_node.case]
      and tr' = tr [unfolded PAnd node_children_def pir_node.case]
    have val: "local_value node_var leaf_var choice_var \<sigma> nd \<longleftrightarrow> (\<forall>x \<in> set ?xs. \<sigma> x)" for \<sigma>
      by (simp add: local_value_def PAnd)
    show ?thesis
    proof (cases "cs = []")
      case True
      then have "node_clauses g node_var leaf_var choice_var i = Inr [[v]]"
        by (simp add: node_clauses_def nd v(1) PAnd)
      then show ?thesis using val True by (simp add: v lit_true_var)
    next
      case False
      then have "node_clauses g node_var leaf_var choice_var i
          = Inr (map (\<lambda>c. [- v, c]) ?xs @ [map uminus ?xs @ [v]])"
        by (simp only: node_clauses_def nd v(1) PAnd option.case pir_node.case if_False tr' bind_res_simps)
      then show ?thesis using models_and [OF v(2) k] unfolding val v(1) option.sel by blast
    qed
  next
    case (POr cs)
    let ?xs = "map (\<lambda>c. the (node_var c)) cs"
    note k = small_kids [unfolded POr node_children_def pir_node.case]
      and tr' = tr [unfolded POr node_children_def pir_node.case]
    have val: "local_value node_var leaf_var choice_var \<sigma> nd \<longleftrightarrow> (\<exists>x \<in> set ?xs. \<sigma> x)" for \<sigma>
      by (simp add: local_value_def POr)
    show ?thesis
    proof (cases "cs = []")
      case True
      then have "node_clauses g node_var leaf_var choice_var i = Inr [[- v]]"
        by (simp add: node_clauses_def nd v(1) POr)
      then show ?thesis using val True by (simp add: v lit_true_var)
    next
      case False
      then have "node_clauses g node_var leaf_var choice_var i
          = Inr (map (\<lambda>c. [- c, v]) ?xs @ [- v # ?xs])"
        by (simp only: node_clauses_def nd v(1) POr option.case pir_node.case if_False tr' bind_res_simps)
      then show ?thesis using models_or [OF v(2) k] unfolding val v(1) option.sel by blast
    qed
  next
    case (PDecision d f t)
    then have "choice_in g R d" using i nd by (auto simp: choice_in_def)
    then obtain x where x: "choice_var d = Some x" "small_var x" using choice by blast
    obtain xf where f: "node_var f = Some xf" "small_var xf" using var kids PDecision by (auto simp: node_children_def)
    obtain xt where t: "node_var t = Some xt" "small_var xt" using var kids PDecision by (auto simp: node_children_def)
    show ?thesis
      using v x f t
      by (auto simp: node_clauses_def nd PDecision child_var_def local_value_def lit_true_var)
  qed
qed

section \<open>The encoding\<close>

definition cnf_start :: cnf_visit where
  "cnf_start = \<lparr>cv_visited = [], cv_leaves = [], cv_choices = []\<rparr>"

text \<open>What a successful encoding consists of.\<close>

definition encodes :: "pir_graph \<Rightarrow> node_id list \<Rightarrow> cnf_encoding \<Rightarrow> nat \<Rightarrow> nat \<Rightarrow> nat \<Rightarrow> bool" where
  "encodes g roots enc a b n =
     (numbered g (reachable g roots) (enc_node_var enc) (enc_leaf_var enc) (enc_choice_var enc) a b n
      \<and> n \<le> 2 ^ 31 \<and> unat (cnf_num_vars (enc_cnf enc)) = n - 1
      \<and> (\<forall>i \<in> reachable g roots. node g i \<noteq> None)
      \<and> (\<forall>\<sigma>. models \<sigma> (cnf_clauses (enc_cnf enc)) \<longleftrightarrow> (\<forall>i \<in> reachable g roots.
           \<sigma> (the (enc_node_var enc i)) = local_value (enc_node_var enc) (enc_leaf_var enc)
             (enc_choice_var enc) \<sigma> (the (node g i)))))"

lemma models_concat: "models \<sigma> (concat css) \<longleftrightarrow> (\<forall>cs \<in> set css. models \<sigma> cs)"
  by (auto simp: models_def)

lemma children_reachable:
  "i \<in> reachable g roots \<Longrightarrow> node g i = Some nd \<Longrightarrow> set (node_children nd) \<subseteq> reachable g roots"
  using reachable_child [of i g roots] by (auto simp: child_of_def)

lemma encode_cnf_cases:
  assumes small: "2 * length (nodes g) < 2 ^ 31" and roots: "roots \<noteq> []"
  shows "case encode_cnf g roots of
      Inr enc \<Rightarrow> is_ok (levelize g roots) \<and> (\<exists>a b n. encodes g roots enc a b n)
    | Inl e \<Rightarrow> (\<exists>i \<in> reachable g roots. node g i = None \<and> e = CnfInvalidNode i)
        \<or> (\<exists>j \<in> reachable g roots. (j, j) \<in> trancl (child_of g) \<and> e = CnfLevel (LevelCycle j))"
proof -
  let ?R = "reachable g roots"
  have start: "visit_inv g roots (rev roots) \<lparr>cv_visited = [], cv_leaves = [], cv_choices = []\<rparr>"
    by (auto simp: visit_inv_def reachable_def leaf_in_def choice_in_def)
  show ?thesis
  proof (cases "visit_loop g (rev roots) \<lparr>cv_visited = [], cv_leaves = [], cv_choices = []\<rparr>")
    case (Inl e)
    then have "encode_cnf g roots = Inl e" using roots by (simp add: encode_cnf_def)
    then show ?thesis using visit_loop_ok [OF start] Inl by simp
  next
    case (Inr st)
    note valid = visit_all(2) [OF Inr]
    obtain leaf_var v1 where lv: "number_from (sort (cv_leaves st)) 1 Map.empty = (leaf_var, v1)" by fastforce
    obtain choice_var v2 where cv: "number_from (sort (cv_choices st)) v1 Map.empty = (choice_var, v2)"
      by fastforce
    obtain node_var v3 where nv: "fold_res (number_node g leaf_var) (sort (cv_visited st)) (Map.empty, v2)
        = Inr (node_var, v3)"
      and num: "numbered g ?R node_var leaf_var choice_var (unat v1) (unat v2) (unat v3)"
      and v3: "unat v3 \<le> 2 ^ 31"
      using numbering_ok [OF Inr small lv cv] by blast
    let ?cl = "node_clauses g node_var leaf_var choice_var"
    have enc: "encode_cnf g roots =
        bind_res (map_err CnfLevel (levelize g roots)) (\<lambda>levels.
        bind_res (traverse ?cl (concat levels)) (\<lambda>css.
        Inr \<lparr>enc_cnf = \<lparr>cnf_num_vars = v3 - 1, cnf_clauses = concat css\<rparr>,
             enc_node_var = node_var, enc_leaf_var = leaf_var, enc_choice_var = choice_var\<rparr>))"
      using roots by (simp add: encode_cnf_def Inr lv cv nv)
    show ?thesis
    proof (cases "levelize g roots")
      case (Inl e)
      then show ?thesis using levelize_cases [of g roots] valid by (cases e) (auto simp: enc)
    next
      case (Inr levels)
      have all: "set (concat levels) = ?R" using levels_partition [OF Inr] by blast
      have clauses: "\<exists>css. ?cl i = Inr css \<and> (\<forall>\<sigma>. models \<sigma> css \<longleftrightarrow>
          \<sigma> (the (node_var i)) = local_value node_var leaf_var choice_var \<sigma> (the (node g i)))"
        if i: "i \<in> ?R" for i
      proof -
        obtain nd where nd: "node g i = Some nd" using valid i by auto
        show ?thesis
          using node_clauses_ok [OF num v3 i nd children_reachable [OF i nd]] by (simp add: nd)
      qed
      have "\<forall>i \<in> set (concat levels). is_ok (?cl i)"
        unfolding all is_ok_iff using clauses by blast
      then have "is_ok (traverse ?cl (concat levels))" by (simp only: is_ok_traverse)
      then obtain css where css: "traverse ?cl (concat levels) = Inr css" by (auto simp: is_ok_iff)
      let ?enc = "\<lparr>enc_cnf = \<lparr>cnf_num_vars = v3 - 1, cnf_clauses = concat css\<rparr>,
             enc_node_var = node_var, enc_leaf_var = leaf_var, enc_choice_var = choice_var\<rparr>"
      have mod: "models \<sigma> (concat css) \<longleftrightarrow> (\<forall>i \<in> ?R.
          \<sigma> (the (node_var i)) = local_value node_var leaf_var choice_var \<sigma> (the (node g i)))" for \<sigma>
        unfolding models_concat all [symmetric]
        using traverse_set [OF css] clauses unfolding all [symmetric] by (metis sum.inject(2))
      have "1 \<le> unat v3" using num by (simp add: numbered_def)
      then have "unat (v3 - 1) = unat v3 - 1" by (subst unat_sub) (simp_all add: word_le_nat_alt)
      then have "encodes g roots ?enc (unat v1) (unat v2) (unat v3)"
        unfolding encodes_def using num v3 valid mod by simp
      then show ?thesis using enc Inr css by auto
    qed
  qed
qed

lemma encode_cnf_encodes:
  assumes "encode_cnf g roots = Inr enc" and "2 * length (nodes g) < 2 ^ 31"
  obtains a b n levels where "encodes g roots enc a b n" and "level_inv g {} levels"
    and "fst ` set levels = reachable g roots"
proof -
  have "roots \<noteq> []" using assms(1) by (auto simp: encode_cnf_def)
  from encode_cnf_cases [OF assms(2) this] assms(1)
  obtain a b n where e: "encodes g roots enc a b n" and "is_ok (levelize g roots)" by auto
  then obtain buckets where "levelize g roots = Inr buckets" by (auto simp: is_ok_iff)
  from levelize_Inr [OF this] obtain levels where "level_inv g {} levels"
    and "fst ` set levels = reachable g roots" by metis
  then show thesis using that e by blast
qed

text \<open>Where the children have their meanings, so does a node by its local equation.\<close>

lemma local_value_holds:
  assumes nd: "node g i = Some nd" and i: "i \<in> R"
    and child: "\<And>c. c \<in> set (node_children nd) \<Longrightarrow> \<sigma> (the (nv c)) = holds g \<nu> \<chi> c"
    and leaves: "\<forall>l. leaf_in g R l \<longrightarrow> \<sigma> (the (lv l)) = \<nu> l"
    and choices: "\<forall>d. choice_in g R d \<longrightarrow> \<sigma> (the (cv d)) = \<chi> d"
  shows "local_value nv lv cv \<sigma> nd = holds g \<nu> \<chi> i"
proof (cases nd)
  case (PConst b)
  then show ?thesis using holds_simps(1) [OF nd [unfolded PConst]] by (simp add: local_value_def)
next
  case (PLit l)
  then have "leaf_in g R l" using i nd by (auto simp: leaf_in_def)
  then show ?thesis
    using leaves holds_simps(2) [OF nd [unfolded PLit]] by (simp add: PLit local_value_def)
next
  case (PNegLit l)
  then have "leaf_in g R l" using i nd by (auto simp: leaf_in_def)
  then show ?thesis
    using leaves holds_simps(3) [OF nd [unfolded PNegLit]] by (simp add: PNegLit local_value_def)
next
  case (PAnd cs)
  then show ?thesis
    using child holds_simps(5) [OF nd [unfolded PAnd]] by (simp add: local_value_def node_children_def)
next
  case (POr cs)
  then show ?thesis
    using child holds_simps(6) [OF nd [unfolded POr]] by (simp add: local_value_def node_children_def)
next
  case (PDecision d f t)
  then have "choice_in g R d" using i nd by (auto simp: choice_in_def)
  then have "\<sigma> (the (cv d)) = \<chi> d" using choices by blast
  then show ?thesis
    using child PDecision holds_simps(7) [OF nd [unfolded PDecision]]
    by (simp add: local_value_def node_children_def)
qed

text \<open>The local equations determine the meaning, from the leaves up.\<close>

lemma local_values_hold:
  assumes inv: "level_inv g {} levels" and all: "fst ` set levels = R"
    and eqs: "\<forall>i \<in> R. \<sigma> (the (nv i)) = local_value nv lv cv \<sigma> (the (node g i))"
    and leaves: "\<forall>l. leaf_in g R l \<longrightarrow> \<sigma> (the (lv l)) = \<nu> l"
    and choices: "\<forall>d. choice_in g R d \<longrightarrow> \<sigma> (the (cv d)) = \<chi> d"
  shows "i \<in> R \<Longrightarrow> \<sigma> (the (nv i)) = holds g \<nu> \<chi> i"
proof -
  have "(i, l) \<in> set levels \<Longrightarrow> \<sigma> (the (nv i)) = holds g \<nu> \<chi> i" for l
  proof (induction l arbitrary: i rule: less_induct)
    case (less l)
    have i: "i \<in> R" using less.prems all by force
    obtain nd where nd: "node g i = Some nd" using inv less.prems unfolding level_inv_def by blast
    have "\<sigma> (the (nv c)) = holds g \<nu> \<chi> c" if "c \<in> set (node_children nd)" for c
    proof -
      have "(i, c) \<in> child_of g" using nd that by (auto simp: child_of_def)
      then obtain m where "m < l" "(c, m) \<in> set levels"
        using inv less.prems unfolding level_inv_def by blast
      then show ?thesis by (rule less.IH)
    qed
    from local_value_holds [OF nd i this leaves choices] show ?case using eqs i nd by force
  qed
  then show "i \<in> R \<Longrightarrow> \<sigma> (the (nv i)) = holds g \<nu> \<chi> i" using all by force
qed

lemma encodes_maps:
  assumes "encodes g roots enc a b n"
  shows "leaf_in g (reachable g roots) l \<longleftrightarrow> (\<exists>v. enc_leaf_var enc l = Some v)"
    and "choice_in g (reachable g roots) d \<longleftrightarrow> (\<exists>v. enc_choice_var enc d = Some v)"
    and "i \<in> reachable g roots \<longleftrightarrow> (\<exists>v. enc_node_var enc i = Some v)"
proof -
  have d: "dom (enc_leaf_var enc) = {l. leaf_in g (reachable g roots) l}"
    "dom (enc_choice_var enc) = {d. choice_in g (reachable g roots) d}"
    "dom (enc_node_var enc) = reachable g roots"
    using assms by (simp_all add: encodes_def numbered_def)
  show "leaf_in g (reachable g roots) l \<longleftrightarrow> (\<exists>v. enc_leaf_var enc l = Some v)"
    using d(1) unfolding dom_def by blast
  show "choice_in g (reachable g roots) d \<longleftrightarrow> (\<exists>v. enc_choice_var enc d = Some v)"
    using d(2) unfolding dom_def by blast
  show "i \<in> reachable g roots \<longleftrightarrow> (\<exists>v. enc_node_var enc i = Some v)"
    using d(3) unfolding dom_def by blast
qed

definition agrees_with ::
    "cnf_encoding \<Rightarrow> (leaf_id \<Rightarrow> bool) \<Rightarrow> (choice_var_id \<Rightarrow> bool) \<Rightarrow> (u32 \<Rightarrow> bool) \<Rightarrow> bool" where
  "agrees_with enc \<nu> \<chi> \<sigma> =
     ((\<forall>l v. enc_leaf_var enc l = Some v \<longrightarrow> \<sigma> v = \<nu> l)
      \<and> (\<forall>d v. enc_choice_var enc d = Some v \<longrightarrow> \<sigma> v = \<chi> d))"

lemma agrees_with_in:
  assumes "encodes g roots enc a b n" and "agrees_with enc \<nu> \<chi> \<sigma>"
  shows "\<forall>l. leaf_in g (reachable g roots) l \<longrightarrow> \<sigma> (the (enc_leaf_var enc l)) = \<nu> l"
    and "\<forall>d. choice_in g (reachable g roots) d \<longrightarrow> \<sigma> (the (enc_choice_var enc d)) = \<chi> d"
  using assms(2) by (auto simp: agrees_with_def encodes_maps [OF assms(1)])

lemma encode_cnf_meaning:
  assumes "encode_cnf g roots = Inr enc" and "2 * length (nodes g) < 2 ^ 31"
    and "models \<sigma> (cnf_clauses (enc_cnf enc))" and "agrees_with enc \<nu> \<chi> \<sigma>" and "i \<in> reachable g roots"
  shows "\<exists>v. enc_node_var enc i = Some v \<and> \<sigma> v = holds g \<nu> \<chi> i"
proof -
  obtain a b n levels where e: "encodes g roots enc a b n" and inv: "level_inv g {} levels"
    and all: "fst ` set levels = reachable g roots"
    using encode_cnf_encodes [OF assms(1,2)] .
  have eqs: "\<forall>i \<in> reachable g roots. \<sigma> (the (enc_node_var enc i)) = local_value (enc_node_var enc)
      (enc_leaf_var enc) (enc_choice_var enc) \<sigma> (the (node g i))"
    using e assms(3) unfolding encodes_def by blast
  obtain v where "enc_node_var enc i = Some v" using encodes_maps(3) [OF e] assms(5) by blast
  then show ?thesis
    using local_values_hold [OF inv all eqs agrees_with_in [OF e assms(4)] assms(5)] by simp
qed

section \<open>An example\<close>

definition mux_pir :: pir_graph where
  "mux_pir = \<lparr>nodes = [PLit 0, PNegLit 1, PAnd [0, 1], PDecision 0 2 1]\<rparr>"

definition mux_enc :: cnf_encoding where
  "mux_enc = projr (encode_cnf mux_pir [3])"

lemma mux_clauses:
  "map_res (\<lambda>enc. (cnf_num_vars (enc_cnf enc), cnf_clauses (enc_cnf enc),
      map (enc_node_var enc) [0, 1, 2, 3])) (encode_cnf mux_pir [3])
   = Inr (6, [[4, 2], [- 4, - 2], [- 5, 1], [- 5, 4], [- 1, - 4, 5],
       [- 3, - 4, 6], [3, - 5, 6], [- 3, 4, - 6], [3, 5, - 6]], map Some [1, 4, 5, 6])"
  by code_simp

lemma mux_ok: "encode_cnf mux_pir [3] = Inr mux_enc"
  using mux_clauses unfolding mux_enc_def by (cases "encode_cnf mux_pir [3]") simp_all

lemma mux_small: "2 * length (nodes mux_pir) < 2 ^ 31"
  by (simp add: mux_pir_def)

lemma mux_models: "models (\<lambda>v. v \<in> {1, 4, 5, 6}) (cnf_clauses (enc_cnf mux_enc))"
proof -
  have "cnf_clauses (enc_cnf mux_enc) = [[4, 2], [- 4, - 2], [- 5, 1], [- 5, 4], [- 1, - 4, 5],
       [- 3, - 4, 6], [3, - 5, 6], [- 3, 4, - 6], [3, 5, - 6]]"
    using mux_clauses by (simp add: mux_ok)
  moreover have "models (\<lambda>v. v \<in> {1, 4, 5, 6}) [[4, 2], [- 4, - 2], [- 5, 1], [- 5, 4], [- 1, - 4, 5],
       [- 3, - 4, 6], [3, - 5, 6], [- 3, 4, - 6], [3, 5, - 6]]"
    by code_simp
  ultimately show ?thesis by simp
qed

text \<open>C4: In every satisfying assignment of the clauses, the variable of each node reachable from the
  roots has the value of the node's formula under the leaves and choices the assignment describes.\<close>

theorem encode_cnf_sound:
  assumes "encode_cnf g roots = Inr enc" and "2 * length (nodes g) < 2 ^ 31"
    and "models \<sigma> (cnf_clauses (enc_cnf enc))" and "agrees_with enc \<nu> \<chi> \<sigma>" and "i \<in> reachable g roots"
  shows "\<exists>v. enc_node_var enc i = Some v \<and> \<sigma> v = holds g \<nu> \<chi> i"
  by (rule encode_cnf_meaning [OF assms])

theorem encode_cnf_sound_witness:
  "\<exists>v. enc_node_var mux_enc 3 = Some v \<and> (v \<in> {1, 4, 5, 6})
    = holds mux_pir (\<lambda>l. the (enc_leaf_var mux_enc l) \<in> {1, 4, 5, 6})
        (\<lambda>d. the (enc_choice_var mux_enc d) \<in> {1, 4, 5, 6}) 3"
  by (rule encode_cnf_sound [OF mux_ok mux_small mux_models])
    (simp_all add: agrees_with_def reachable_def)

lemma fresh_table_decode:
  assumes "fresh_table ks a b table"
  shows "\<exists>f. \<forall>k v. k \<in> ks \<longrightarrow> table k = Some v \<longrightarrow> f v = val k"
proof -
  have "inj_on (\<lambda>k. the (table k)) ks"
    using assms unfolding fresh_table_def bij_betw_def inj_on_def by metis
  then have "val (the_inv_into ks (\<lambda>k. the (table k)) v) = val k"
    if "k \<in> ks" "table k = Some v" for k v
    using that by (metis option.sel the_inv_into_f_f)
  then show ?thesis by (intro exI [of _ "\<lambda>v. val (the_inv_into ks (\<lambda>k. the (table k)) v)"]) blast
qed

lemma fresh_table_range:
  assumes "fresh_table ks a b table"
  shows "k \<in> ks \<Longrightarrow> table k = Some v \<Longrightarrow> a \<le> unat v \<and> unat v < b"
    and "a \<le> unat v \<Longrightarrow> unat v < b \<Longrightarrow> \<exists>k \<in> ks. table k = Some v"
proof -
  have bij: "bij_betw (\<lambda>k. unat (the (table k))) ks {a..<b}" and some: "\<forall>k \<in> ks. table k \<noteq> None"
    using assms by (simp_all add: fresh_table_def)
  show "a \<le> unat v \<and> unat v < b" if "k \<in> ks" "table k = Some v"
    using bij_betwE [OF bij] that by force
  show "\<exists>k \<in> ks. table k = Some v" if "a \<le> unat v" "unat v < b"
  proof -
    have "unat v \<in> (\<lambda>k. unat (the (table k))) ` ks" using bij that by (auto simp: bij_betw_def)
    then obtain k where k: "k \<in> ks" "unat (the (table k)) = unat v" by auto
    then have "the (table k) = v" by (simp add: word_unat_eq_iff)
    then show ?thesis using k(1) some by force
  qed
qed

lemma encodes_block:
  assumes e: "encodes g roots enc a b n" and v: "1 \<le> v" "v \<le> cnf_num_vars (enc_cnf enc)"
  shows "(\<exists>l. enc_leaf_var enc l = Some v) \<or> (\<exists>d. enc_choice_var enc d = Some v)
    \<or> (\<exists>i \<in> reachable g roots. enc_node_var enc i = Some v)"
proof -
  have num: "numbered g (reachable g roots) (enc_node_var enc) (enc_leaf_var enc) (enc_choice_var enc) a b n"
    and n: "unat (cnf_num_vars (enc_cnf enc)) = n - 1"
    using e by (simp_all add: encodes_def)
  have fl: "fresh_table {l. leaf_in g (reachable g roots) l} 1 a (enc_leaf_var enc)"
    and fc: "fresh_table {d. choice_in g (reachable g roots) d} a b (enc_choice_var enc)"
    and fn: "fresh_table {i \<in> reachable g roots. \<not> is_lit_node g i} b n (enc_node_var enc)"
    using num by (simp_all add: numbered_def)
  have "1 \<le> unat v" "unat v < n"
    using v n num by (auto simp: word_le_nat_alt numbered_def)
  then consider "1 \<le> unat v" "unat v < a" | "a \<le> unat v" "unat v < b" | "b \<le> unat v" "unat v < n"
    by linarith
  then show ?thesis
  proof cases
    case 1
    then show ?thesis using fresh_table_range(2) [OF fl] by blast
  next
    case 2
    then show ?thesis using fresh_table_range(2) [OF fc] by blast
  next
    case 3
    then show ?thesis using fresh_table_range(2) [OF fn] by blast
  qed
qed

lemma encodes_extension:
  assumes e: "encodes g roots enc a b n"
  shows "\<exists>\<sigma>. agrees_with enc \<nu> \<chi> \<sigma> \<and> (\<forall>i \<in> reachable g roots. \<sigma> (the (enc_node_var enc i)) = holds g \<nu> \<chi> i)
    \<and> (\<forall>v. \<sigma> v \<longrightarrow> 1 \<le> v \<and> v \<le> cnf_num_vars (enc_cnf enc))"
proof -
  let ?R = "reachable g roots" and ?nv = "enc_node_var enc" and ?lv = "enc_leaf_var enc" and ?cv = "enc_choice_var enc"
  have ab: "1 \<le> a" "a \<le> b" "b \<le> n"
    and fl: "fresh_table {l. leaf_in g ?R l} 1 a ?lv"
    and fc: "fresh_table {d. choice_in g ?R d} a b ?cv"
    and fn: "fresh_table {i \<in> ?R. \<not> is_lit_node g i} b n ?nv"
    and lit: "\<forall>i \<in> ?R. \<forall>l. node g i = Some (PLit l) \<longrightarrow> ?nv i = ?lv l"
    and n: "unat (cnf_num_vars (enc_cnf enc)) = n - 1"
    using e by (simp_all add: encodes_def numbered_def)
  obtain fL where fL: "\<forall>l v. l \<in> {l. leaf_in g ?R l} \<longrightarrow> ?lv l = Some v \<longrightarrow> fL v = \<nu> l"
    using fresh_table_decode [OF fl, of \<nu>] by (elim exE)
  obtain fC where fC: "\<forall>d v. d \<in> {d. choice_in g ?R d} \<longrightarrow> ?cv d = Some v \<longrightarrow> fC v = \<chi> d"
    using fresh_table_decode [OF fc, of \<chi>] by (elim exE)
  obtain fN where fN: "\<forall>i v. i \<in> {i \<in> ?R. \<not> is_lit_node g i} \<longrightarrow> ?nv i = Some v \<longrightarrow> fN v = holds g \<nu> \<chi> i"
    using fresh_table_decode [OF fn, of "holds g \<nu> \<chi>"] by (elim exE)
  define \<sigma> where "\<sigma> = (\<lambda>v :: u32. 1 \<le> unat v \<and> unat v < n \<and>
      (if unat v < a then fL v else if unat v < b then fC v else fN v))"
  have leaf: "\<sigma> v = \<nu> l" if "?lv l = Some v" for l v
  proof -
    have "leaf_in g ?R l" using that encodes_maps(1) [OF e] by blast
    then show ?thesis using that fL fresh_table_range(1) [OF fl, of l v] ab by (auto simp: \<sigma>_def)
  qed
  have choice: "\<sigma> v = \<chi> d" if "?cv d = Some v" for d v
  proof -
    have "choice_in g ?R d" using that encodes_maps(2) [OF e] by blast
    then show ?thesis using that fC fresh_table_range(1) [OF fc, of d v] ab by (auto simp: \<sigma>_def)
  qed
  have node: "\<sigma> (the (?nv i)) = holds g \<nu> \<chi> i" if i: "i \<in> ?R" for i
  proof -
    obtain v where v: "?nv i = Some v" using encodes_maps(3) [OF e] i by blast
    show ?thesis
    proof (cases "is_lit_node g i")
      case True
      then obtain l where l: "node g i = Some (PLit l)" by (auto simp: is_lit_node_def)
      then have "?lv l = Some v" using lit i v by auto
      then show ?thesis using leaf holds_simps(2) [OF l] v by simp
    next
      case False
      then show ?thesis using i v fN fresh_table_range(1) [OF fn, of i v] ab by (auto simp: \<sigma>_def)
    qed
  qed
  have "1 \<le> v \<and> v \<le> cnf_num_vars (enc_cnf enc)" if "\<sigma> v" for v
    using that n by (auto simp: \<sigma>_def word_le_nat_alt)
  then show ?thesis using leaf choice node by (intro exI [of _ \<sigma>]) (auto simp: agrees_with_def)
qed

text \<open>C17: Every assignment of the leaves and choice variables extends to exactly one satisfying
  assignment of the clauses on the variables \<open>1\<close> to \<open>num_vars\<close>, so satisfying assignments and
  assignments of the inputs correspond one to one and weighted model counts are preserved.\<close>

theorem encode_cnf_unique_model:
  assumes "encode_cnf g roots = Inr enc" and "2 * length (nodes g) < 2 ^ 31"
  shows "\<exists>!S. S \<subseteq> {v. 1 \<le> v \<and> v \<le> cnf_num_vars (enc_cnf enc)}
    \<and> models (\<lambda>v. v \<in> S) (cnf_clauses (enc_cnf enc)) \<and> agrees_with enc \<nu> \<chi> (\<lambda>v. v \<in> S)"
proof -
  obtain a b n levels where e: "encodes g roots enc a b n" and inv: "level_inv g {} levels"
    and all: "fst ` set levels = reachable g roots"
    using encode_cnf_encodes [OF assms] .
  let ?P = "\<lambda>S. S \<subseteq> {v. 1 \<le> v \<and> v \<le> cnf_num_vars (enc_cnf enc)}
    \<and> models (\<lambda>v. v \<in> S) (cnf_clauses (enc_cnf enc)) \<and> agrees_with enc \<nu> \<chi> (\<lambda>v. v \<in> S)"
  obtain \<sigma> where ag: "agrees_with enc \<nu> \<chi> \<sigma>"
    and nd: "\<forall>i \<in> reachable g roots. \<sigma> (the (enc_node_var enc i)) = holds g \<nu> \<chi> i"
    and rng: "\<forall>v. \<sigma> v \<longrightarrow> 1 \<le> v \<and> v \<le> cnf_num_vars (enc_cnf enc)"
    using encodes_extension [OF e] by blast
  have eqs: "\<sigma> (the (enc_node_var enc i)) = local_value (enc_node_var enc) (enc_leaf_var enc)
      (enc_choice_var enc) \<sigma> (the (node g i))" if i: "i \<in> reachable g roots" for i
  proof -
    obtain nd' where nd': "node g i = Some nd'" using e i by (auto simp: encodes_def)
    have "\<sigma> (the (enc_node_var enc c)) = holds g \<nu> \<chi> c" if "c \<in> set (node_children nd')" for c
      using nd children_reachable [OF i nd'] that by blast
    from local_value_holds [OF nd' i this agrees_with_in [OF e ag]] show ?thesis using nd i nd' by simp
  qed
  have "models \<sigma> (cnf_clauses (enc_cnf enc))"
    using e eqs unfolding encodes_def by blast
  then have ex: "?P {v. \<sigma> v}" using ag rng by auto
  have val: "v \<in> S \<longleftrightarrow> \<sigma> v" if P: "?P S" and v: "1 \<le> v" "v \<le> cnf_num_vars (enc_cnf enc)" for S v
  proof -
    consider l where "enc_leaf_var enc l = Some v" | d where "enc_choice_var enc d = Some v"
      | i where "i \<in> reachable g roots" "enc_node_var enc i = Some v"
      using encodes_block [OF e v] by blast
    then show ?thesis
    proof cases
      case 1
      then show ?thesis using P ag by (auto simp: agrees_with_def)
    next
      case 2
      then show ?thesis using P ag by (auto simp: agrees_with_def)
    next
      case 3
      have "(v \<in> S) = holds g \<nu> \<chi> i"
        using encode_cnf_meaning [OF assms, of "\<lambda>v. v \<in> S" \<nu> \<chi> i] P 3 by auto
      then show ?thesis using nd 3 by force
    qed
  qed
  show ?thesis
  proof (rule ex1I [of _ "{v. \<sigma> v}"])
    show "?P {v. \<sigma> v}" by (rule ex)
    fix S assume P: "?P S"
    show "S = {v. \<sigma> v}" using P rng val [OF P] by blast
  qed
qed

theorem encode_cnf_unique_model_witness:
  "\<exists>!S. S \<subseteq> {v. 1 \<le> v \<and> v \<le> cnf_num_vars (enc_cnf mux_enc)}
    \<and> models (\<lambda>v. v \<in> S) (cnf_clauses (enc_cnf mux_enc))
    \<and> agrees_with mux_enc (\<lambda>l. l = 0) (\<lambda>_. True) (\<lambda>v. v \<in> S)"
  by (rule encode_cnf_unique_model [OF mux_ok mux_small])

text \<open>C28: The encoding fails only for a reason: there are no roots, a reachable identifier has no
  node, or a reachable node lies on a cycle, and the error names it. In particular the look-ups of
  variables never fail.\<close>

theorem encode_cnf_verdict:
  assumes "2 * length (nodes g) < 2 ^ 31"
  shows "case encode_cnf g roots of
      Inr _ \<Rightarrow> roots \<noteq> [] \<and> is_ok (levelize g roots)
    | Inl CnfEmptyRoots \<Rightarrow> roots = []
    | Inl (CnfInvalidNode i) \<Rightarrow> i \<in> reachable g roots \<and> node g i = None
    | Inl (CnfLevel (LevelCycle i)) \<Rightarrow> i \<in> reachable g roots \<and> (i, i) \<in> trancl (child_of g)
    | Inl _ \<Rightarrow> False"
proof (cases "roots = []")
  case True
  then show ?thesis by (simp add: encode_cnf_def)
next
  case False
  from encode_cnf_cases [OF assms False] False show ?thesis
    by (cases "encode_cnf g roots") auto
qed

theorem encode_cnf_verdict_witness:
  "case encode_cnf and_or_pir [7] of
      Inr _ \<Rightarrow> [7 :: node_id] \<noteq> [] \<and> is_ok (levelize and_or_pir [7])
    | Inl CnfEmptyRoots \<Rightarrow> [7 :: node_id] = []
    | Inl (CnfInvalidNode i) \<Rightarrow> i \<in> reachable and_or_pir [7] \<and> node and_or_pir i = None
    | Inl (CnfLevel (LevelCycle i)) \<Rightarrow> i \<in> reachable and_or_pir [7] \<and> (i, i) \<in> trancl (child_of and_or_pir)
    | Inl _ \<Rightarrow> False"
  by (rule encode_cnf_verdict) (simp add: and_or_pir_def)

end
