(* ===== verification/Cnf_Hash.thy ===== *)
theory Cnf_Hash
  imports Pir_Levels "HOL-Library.Multiset"
begin

unbundle bit_operations_syntax

text \<open>
  The canonical hash of a provenance graph (\<open>xlog-prob/src/cnf.rs\<close>, \<open>canonical_pir_hash\<close>), the key of
  the disk cache. \<open>HashPanic\<close> stands for the \<open>unwrap\<close> of a missing node and for the index of a child
  without a hash; neither happens (\<open>canonical_hashes_ok\<close>). The hash depends only on the structure
  below the roots.
\<close>

section \<open>The hash\<close>

definition fnv_step :: "u64 \<Rightarrow> u64 \<Rightarrow> u64" where
  "fnv_step h w = (h XOR w) * 0x100000001b3"

definition fnv1a :: "u8 list \<Rightarrow> u64" where
  "fnv1a bs = foldl (\<lambda>h b. fnv_step h (ucast b)) 0xcbf29ce484222325 bs"

definition le_bytes :: "nat \<Rightarrow> 'a::len word \<Rightarrow> u8 list" where
  "le_bytes n w = map (\<lambda>k. ucast (drop_bit (8 * k) w)) [0..<n]"

definition hash_children :: "u8 \<Rightarrow> u64 list \<Rightarrow> u64" where
  "hash_children tag hs = fnv1a (tag # concat (map (le_bytes 8) (sort hs)))"

definition node_hash :: "(node_id \<rightharpoonup> u64) \<Rightarrow> pir_node \<Rightarrow> u64 option" where
  "node_hash canon nd =
     (case nd of
        PConst b \<Rightarrow> Some (fnv1a [0, if b then 1 else 0])
      | PLit l \<Rightarrow> Some (fnv1a (1 # le_bytes 4 l))
      | PNegLit l \<Rightarrow> Some (fnv1a (2 # le_bytes 4 l))
      | PAnd cs \<Rightarrow> map_option (hash_children 3) (those (map canon cs))
      | POr cs \<Rightarrow> map_option (hash_children 4) (those (map canon cs))
      | PDecision v f t \<Rightarrow>
          (case (canon f, canon t) of
             (Some hf, Some ht) \<Rightarrow> Some (fnv1a (5 # le_bytes 4 v @ le_bytes 8 hf @ le_bytes 8 ht))
           | _ \<Rightarrow> None))"

datatype hash_error = HashEmptyRoots | HashLevel level_error | HashPanic

definition hash_node :: "pir_graph \<Rightarrow> node_id \<Rightarrow> (node_id \<rightharpoonup> u64) \<Rightarrow> hash_error + (node_id \<rightharpoonup> u64)"
  where
  "hash_node g i canon =
     (case node g i of
        None \<Rightarrow> Inl HashPanic
      | Some nd \<Rightarrow>
          (case node_hash canon nd of None \<Rightarrow> Inl HashPanic | Some h \<Rightarrow> Inr (canon(i \<mapsto> h))))"

definition canonical_hashes :: "pir_graph \<Rightarrow> node_id list list \<Rightarrow> hash_error + (node_id \<rightharpoonup> u64)" where
  "canonical_hashes g levels = fold_res (hash_node g) (concat levels) Map.empty"

definition canonical_pir_hash :: "pir_graph \<Rightarrow> node_id list \<Rightarrow> hash_error + u64" where
  "canonical_pir_hash g roots =
     (if roots = [] then Inl HashEmptyRoots
      else
        bind_res (map_err HashLevel (levelize g roots)) (\<lambda>levels.
        map_res (\<lambda>canon.
            hash_children 0xFF (map (\<lambda>r. case canon r of None \<Rightarrow> 0 | Some h \<Rightarrow> h) roots))
          (canonical_hashes g levels)))"

section \<open>Every node is hashed after its children\<close>

lemma concat_before:
  assumes "\<forall>k < length b. \<forall>i \<in> set (b ! k). \<forall>c \<in> D i. \<exists>m < k. c \<in> set (b ! m)"
    and "concat b = xs @ i # ys"
  shows "D i \<subseteq> set xs"
  using assms
proof (induction b arbitrary: ys rule: rev_induct)
  case (snoc l b)
  have low: "\<forall>k < length b. \<forall>i \<in> set (b ! k). \<forall>c \<in> D i. \<exists>m < k. c \<in> set (b ! m)"
  proof (intro allI impI ballI)
    fix k i c assume k: "k < length b" and "i \<in> set (b ! k)" "c \<in> D i"
    then obtain m where "m < k" "c \<in> set ((b @ [l]) ! m)"
      using snoc.prems(1) [rule_format, of k i c] by (auto simp: nth_append)
    then show "\<exists>m < k. c \<in> set (b ! m)" using k by (auto simp: nth_append)
  qed
  from snoc.prems(2) obtain us where
    "concat b = xs @ us \<and> us @ l = i # ys \<or> concat b @ us = xs \<and> l = us @ i # ys"
    by (auto simp: append_eq_append_conv2)
  then consider zs where "concat b = xs @ i # zs" | us where "xs = concat b @ us" "l = us @ i # ys"
    by (cases us) auto
  then show ?case
  proof cases
    case 1
    then show ?thesis by (rule snoc.IH [OF low])
  next
    case 2
    have "c \<in> set xs" if c: "c \<in> D i" for c
    proof -
      obtain m where "m < length b" "c \<in> set ((b @ [l]) ! m)"
        using snoc.prems(1) [rule_format, of "length b" i c] c 2(2) by auto
      then have "c \<in> set (concat b)" by (auto simp: nth_append)
      then show ?thesis using 2(1) by simp
    qed
    then show ?thesis by blast
  qed
qed simp

lemma those_Some:
  assumes "\<forall>c \<in> set cs. f c \<noteq> None"
  shows "those (map f cs) = Some (map (\<lambda>c. the (f c)) cs)"
  using assms by (induction cs) auto

lemma node_hash_defined:
  assumes "set (node_children nd) \<subseteq> dom canon"
  shows "node_hash canon nd \<noteq> None"
proof -
  have "those (map canon (node_children nd)) = Some (map (\<lambda>c. the (canon c)) (node_children nd))"
    by (rule those_Some) (use assms in blast)
  then show ?thesis using assms by (cases nd) (auto simp: node_hash_def node_children_def)
qed

lemma node_hash_cong:
  assumes "\<forall>c \<in> set (node_children nd). canon' c = canon c"
  shows "node_hash canon' nd = node_hash canon nd"
proof -
  have "map canon' (node_children nd) = map canon (node_children nd)" using assms by simp
  moreover have "canon' c = canon c" if "c \<in> set (node_children nd)" for c using assms that by blast
  ultimately show ?thesis by (cases nd) (auto simp: node_hash_def node_children_def simp del: map_eq_conv split: option.splits)
qed

text \<open>The table of hashes satisfies the defining equation at every node.\<close>

definition hash_table :: "pir_graph \<Rightarrow> node_id set \<Rightarrow> (node_id \<rightharpoonup> u64) \<Rightarrow> bool" where
  "hash_table g R canon =
     (dom canon = R \<and> (\<forall>i \<in> R. \<exists>nd. node g i = Some nd \<and> set (node_children nd) \<subseteq> R
        \<and> node_hash canon nd = canon i))"

lemma hash_loop:
  assumes "distinct xs"
    and "\<And>us i vs. xs = us @ i # vs \<Longrightarrow>
      \<exists>nd. node g i = Some nd \<and> set (node_children nd) \<subseteq> set us"
  shows "\<exists>canon. fold_res (hash_node g) xs Map.empty = Inr canon \<and> hash_table g (set xs) canon"
  using assms
proof (induction xs rule: rev_induct)
  case Nil
  then show ?case by (simp add: hash_table_def)
next
  case (snoc i xs)
  have "\<exists>nd. node g j = Some nd \<and> set (node_children nd) \<subseteq> set us" if "xs = us @ j # vs" for us j vs
    using snoc.prems(2) [of us j "vs @ [i]"] that by simp
  then obtain canon where run: "fold_res (hash_node g) xs Map.empty = Inr canon"
    and tab: "hash_table g (set xs) canon" using snoc.IH snoc.prems(1) by auto
  obtain nd where nd: "node g i = Some nd" "set (node_children nd) \<subseteq> set xs"
    using snoc.prems(2) [of xs i "[]"] by auto
  have "node_hash canon nd \<noteq> None" by (rule node_hash_defined) (use nd(2) tab in \<open>simp add: hash_table_def\<close>)
  then obtain h where h: "node_hash canon nd = Some h" by auto
  let ?canon = "canon(i \<mapsto> h)"
  have "i \<notin> set xs" using snoc.prems(1) by simp
  then have same: "node_hash ?canon nd' = node_hash canon nd'" if "set (node_children nd') \<subseteq> set xs" for nd'
    using that by (intro node_hash_cong) auto
  have "hash_table g (set (xs @ [i])) ?canon"
    unfolding hash_table_def
  proof (intro conjI ballI)
    show "dom ?canon = set (xs @ [i])" using tab by (simp add: hash_table_def)
    fix j assume j: "j \<in> set (xs @ [i])"
    show "\<exists>nd. node g j = Some nd \<and> set (node_children nd) \<subseteq> set (xs @ [i]) \<and> node_hash ?canon nd = ?canon j"
    proof (cases "j = i")
      case True
      then show ?thesis using nd h same [OF nd(2)] by auto
    next
      case False
      then obtain nd' where nd': "node g j = Some nd'" "set (node_children nd') \<subseteq> set xs"
        "node_hash canon nd' = canon j" using tab j by (auto simp: hash_table_def)
      then show ?thesis using same [OF nd'(2)] False by auto
    qed
  qed
  moreover have "fold_res (hash_node g) (xs @ [i]) Map.empty = Inr ?canon"
    by (simp add: fold_res_append run hash_node_def nd h)
  ultimately show ?case by blast
qed

lemma canonical_hashes_ok:
  assumes "levelize g roots = Inr levels"
  shows "\<exists>canon. canonical_hashes g levels = Inr canon \<and> hash_table g (reachable g roots) canon"
proof -
  have part: "distinct (concat levels)" "set (concat levels) = reachable g roots"
    using levels_partition [OF assms] by blast+
  obtain ls where ls: "level_inv g {} ls" "fst ` set ls = reachable g roots"
    using levelize_Inr [OF assms] by metis
  let ?D = "\<lambda>i. case node g i of None \<Rightarrow> {} | Some nd \<Rightarrow> set (node_children nd)"
  have below: "\<forall>k < length levels. \<forall>i \<in> set (levels ! k). \<forall>c \<in> ?D i. \<exists>m < k. c \<in> set (levels ! m)"
    using levels_children_first [OF assms] by (auto split: option.splits)
  have "\<exists>nd. node g i = Some nd \<and> set (node_children nd) \<subseteq> set us" if "concat levels = us @ i # vs" for us i vs
  proof -
    have "i \<in> set (concat levels)" unfolding that by simp
    then have "i \<in> reachable g roots" using part(2) by blast
    then obtain l where "(i, l) \<in> set ls" using ls(2) by force
    then obtain nd where "node g i = Some nd" using ls(1) unfolding level_inv_def by blast
    then show ?thesis using concat_before [OF below that] by simp
  qed
  then show ?thesis
    using hash_loop [OF part(1)] unfolding canonical_hashes_def part(2) by blast
qed

section \<open>Structure below the roots\<close>

text \<open>\<open>same_structure g g' R\<close>: related nodes of the two graphs carry the same operator and related
  children, in any order for conjunctions and disjunctions. Identifiers may differ and sharing
  need not be the same.\<close>

definition same_children :: "(node_id \<Rightarrow> node_id \<Rightarrow> bool) \<Rightarrow> node_id list \<Rightarrow> node_id list \<Rightarrow> bool" where
  "same_children R cs ds = (\<exists>es. mset es = mset ds \<and> list_all2 R cs es)"

fun same_node :: "(node_id \<Rightarrow> node_id \<Rightarrow> bool) \<Rightarrow> pir_node \<Rightarrow> pir_node \<Rightarrow> bool" where
  "same_node R (PConst b) (PConst b') = (b = b')"
| "same_node R (PLit l) (PLit l') = (l = l')"
| "same_node R (PNegLit l) (PNegLit l') = (l = l')"
| "same_node R (PAnd cs) (PAnd ds) = same_children R cs ds"
| "same_node R (POr cs) (POr ds) = same_children R cs ds"
| "same_node R (PDecision v f t) (PDecision v' f' t') = (v = v' \<and> R f f' \<and> R t t')"
| "same_node R _ _ = False"

definition same_structure :: "pir_graph \<Rightarrow> pir_graph \<Rightarrow> (node_id \<Rightarrow> node_id \<Rightarrow> bool) \<Rightarrow> bool" where
  "same_structure g g' R =
     (\<forall>i j. R i j \<longrightarrow> (\<exists>nd nd'. node g i = Some nd \<and> node g' j = Some nd' \<and> same_node R nd nd'))"

lemma same_children_hashes:
  assumes "same_children R cs ds"
    and "\<forall>c \<in> set cs. \<forall>d \<in> set ds. R c d \<longrightarrow> canon c = canon' d"
  shows "mset (map canon cs) = mset (map canon' ds)"
proof -
  obtain es where es: "mset es = mset ds" "list_all2 R cs es" using assms(1) by (auto simp: same_children_def)
  have "set es = set ds" using es(1) by (metis set_mset_mset)
  then have "list_all2 (\<lambda>c e. canon c = canon' e) cs es"
    by (intro list.rel_mono_strong [OF es(2)]) (use assms(2) in blast)
  then have "map canon cs = map canon' es" by (simp add: list_all2_conv_all_nth list_eq_iff_nth_eq)
  then show ?thesis using es(1) by (metis mset_map)
qed

lemma sort_mset_cong: "mset xs = mset ys \<Longrightarrow> sort xs = sort ys"
  by (rule properties_for_sort) simp_all

lemma hash_children_cong:
  assumes "mset (map canon cs) = mset (map canon' ds)" and "set cs \<subseteq> dom canon" and "set ds \<subseteq> dom canon'"
  shows "map_option (hash_children tag) (those (map canon cs)) = map_option (hash_children tag) (those (map canon' ds))"
proof -
  have s: "those (map canon cs) = Some (map (the \<circ> canon) cs)"
    "those (map canon' ds) = Some (map (the \<circ> canon') ds)"
    using assms(2,3) by (auto simp: those_Some subset_iff domIff)
  have "mset (map (the \<circ> canon) cs) = mset (map (the \<circ> canon') ds)"
    using arg_cong [OF assms(1), of "image_mset the"] by (simp add: multiset.map_comp)
  then have "sort (map (the \<circ> canon) cs) = sort (map (the \<circ> canon') ds)"
    by (rule sort_mset_cong)
  then show ?thesis unfolding s by (simp add: hash_children_def)
qed

lemma related_hashes:
  assumes tab: "hash_table g A canon" and tab': "hash_table g' B canon'"
    and R: "same_structure g g' R" and inv: "level_inv g {} levels" and A: "fst ` set levels = A"
  shows "i \<in> A \<Longrightarrow> j \<in> B \<Longrightarrow> R i j \<Longrightarrow> canon i = canon' j"
proof -
  have "(i, l) \<in> set levels \<Longrightarrow> j \<in> B \<Longrightarrow> R i j \<Longrightarrow> canon i = canon' j" for l
  proof (induction l arbitrary: i j rule: less_induct)
    case (less l)
    have i: "i \<in> A" using less.prems(1) A by force
    obtain nd where nd: "node g i = Some nd" "set (node_children nd) \<subseteq> A" "node_hash canon nd = canon i"
      using tab i unfolding hash_table_def by blast
    obtain nd' where nd': "node g' j = Some nd'" "set (node_children nd') \<subseteq> B" "node_hash canon' nd' = canon' j"
      using tab' less.prems(2) unfolding hash_table_def by blast
    have same: "same_node R nd nd'" using R less.prems(3) nd(1) nd'(1) by (fastforce simp: same_structure_def)
    have kids: "canon c = canon' d" if "c \<in> set (node_children nd)" "d \<in> set (node_children nd')" "R c d" for c d
    proof -
      have "(i, c) \<in> child_of g" using nd(1) that(1) by (auto simp: child_of_def)
      then obtain m where "m < l" "(c, m) \<in> set levels"
        using inv less.prems(1) unfolding level_inv_def by blast
      then show ?thesis using less.IH that nd'(2) by blast
    qed
    have dom: "set (node_children nd) \<subseteq> dom canon" "set (node_children nd') \<subseteq> dom canon'"
      using nd(2) nd'(2) tab tab' by (simp_all add: hash_table_def)
    have "node_hash canon nd = node_hash canon' nd'"
    proof (cases "(R, nd, nd')" rule: same_node.cases)
      case (4 R' cs ds)
      then have sc: "same_children R cs ds" and nds: "nd = PAnd cs" "nd' = PAnd ds" using same by simp_all
      have "\<forall>c \<in> set cs. \<forall>d \<in> set ds. R c d \<longrightarrow> canon c = canon' d"
        using kids by (simp add: nds node_children_def)
      note eq = same_children_hashes [OF sc this]
      have "set cs \<subseteq> dom canon" "set ds \<subseteq> dom canon'" using dom by (simp_all add: nds node_children_def)
      from hash_children_cong [OF eq this] show ?thesis by (simp add: nds node_hash_def)
    next
      case (5 R' cs ds)
      then have sc: "same_children R cs ds" and nds: "nd = POr cs" "nd' = POr ds" using same by simp_all
      have "\<forall>c \<in> set cs. \<forall>d \<in> set ds. R c d \<longrightarrow> canon c = canon' d"
        using kids by (simp add: nds node_children_def)
      note eq = same_children_hashes [OF sc this]
      have "set cs \<subseteq> dom canon" "set ds \<subseteq> dom canon'" using dom by (simp_all add: nds node_children_def)
      from hash_children_cong [OF eq this] show ?thesis by (simp add: nds node_hash_def)
    next
      case (6 R' v f t v' f' t')
      then have rel: "R f f'" "R t t'" "v = v'" using same by simp_all
      then have "canon f = canon' f'" "canon t = canon' t'"
        using kids 6 by (simp_all add: node_children_def)
      then show ?thesis using 6 rel(3) by (auto simp: node_hash_def split: option.splits)
    qed (use same in \<open>auto simp: node_hash_def\<close>)
    then show ?case using nd(3) nd'(3) by simp
  qed
  then show "i \<in> A \<Longrightarrow> j \<in> B \<Longrightarrow> R i j \<Longrightarrow> canon i = canon' j" using A by force
qed

lemma canonical_pir_hash_levels:
  assumes "canonical_pir_hash g roots = Inr h"
  obtains levels where "levelize g roots = Inr levels" and "roots \<noteq> []"
proof (cases "levelize g roots")
  case (Inl e)
  then show ?thesis using assms by (simp add: canonical_pir_hash_def split: if_splits)
next
  case (Inr levels)
  moreover have "roots \<noteq> []" using assms by (auto simp: canonical_pir_hash_def)
  ultimately show ?thesis by (rule that)
qed

text \<open>C29: The canonical hash depends only on the structure below the roots: graphs whose roots are
  related by a structural correspondence, which may renumber nodes, reorder children and roots and
  share subgraphs differently, have the same hash.\<close>

theorem canonical_hash_structural:
  assumes "canonical_pir_hash g roots = Inr h" and "canonical_pir_hash g' roots' = Inr h'"
    and "same_structure g g' R" and "same_children R roots roots'"
  shows "h = h'"
proof -
  obtain levels where l: "levelize g roots = Inr levels" and r: "roots \<noteq> []"
    using canonical_pir_hash_levels [OF assms(1)] .
  obtain levels' where l': "levelize g' roots' = Inr levels'" and r': "roots' \<noteq> []"
    using canonical_pir_hash_levels [OF assms(2)] .
  obtain canon where c: "canonical_hashes g levels = Inr canon" "hash_table g (reachable g roots) canon"
    using canonical_hashes_ok [OF l] by blast
  obtain canon' where c': "canonical_hashes g' levels' = Inr canon'" "hash_table g' (reachable g' roots') canon'"
    using canonical_hashes_ok [OF l'] by blast
  obtain ls where ls: "level_inv g {} ls" "fst ` set ls = reachable g roots" using levelize_Inr [OF l] by metis
  have roots: "set roots \<subseteq> reachable g roots" "set roots' \<subseteq> reachable g' roots'" by (auto simp: reachable_def)
  have rel: "\<forall>c \<in> set roots. \<forall>d \<in> set roots'. R c d \<longrightarrow> canon c = canon' d"
    using related_hashes [OF c(2) c'(2) assms(3) ls] roots by blast
  let ?v = "\<lambda>t r. case t r of None \<Rightarrow> 0 | Some h \<Rightarrow> h"
  have "mset (map canon roots) = mset (map canon' roots')"
    by (rule same_children_hashes [OF assms(4) rel])
  from arg_cong [OF this, of "image_mset (\<lambda>x. case x of None \<Rightarrow> 0 | Some h \<Rightarrow> h)"]
  have "mset (map (?v canon) roots) = mset (map (?v canon') roots')" by (simp add: multiset.map_comp comp_def)
  then have "sort (map (?v canon) roots) = sort (map (?v canon') roots')"
    by (rule sort_mset_cong)
  moreover have "h = hash_children 0xFF (map (?v canon) roots)" "h' = hash_children 0xFF (map (?v canon') roots')"
    using assms(1,2) l l' c(1) c'(1) r r' by (simp_all add: canonical_pir_hash_def)
  ultimately show ?thesis by (simp add: hash_children_def)
qed

text \<open>The same conjunction with its nodes in another order and a leaf that is not shared.\<close>

definition hash_left :: pir_graph where
  "hash_left = \<lparr>nodes = [PLit 0, PLit 1, PAnd [0, 1], POr [2, 0]]\<rparr>"

definition hash_right :: pir_graph where
  "hash_right = \<lparr>nodes = [PLit 1, PLit 0, PLit 0, PAnd [0, 1], POr [2, 3]]\<rparr>"

definition hash_pairs :: "(node_id \<times> node_id) list" where
  "hash_pairs = [(0, 1), (0, 2), (1, 0), (2, 3), (3, 4)]"

lemma hash_pairs_same: "same_structure hash_left hash_right (\<lambda>i j. (i, j) \<in> set hash_pairs)"
proof -
  have and_kids: "same_children (\<lambda>i j. (i, j) \<in> set hash_pairs) [0, 1] [0, 1]"
    unfolding same_children_def by (rule exI [of _ "[1, 0]"]) (simp add: hash_pairs_def)
  have or_kids: "same_children (\<lambda>i j. (i, j) \<in> set hash_pairs) [2, 0] [2, 3]"
    unfolding same_children_def by (rule exI [of _ "[3, 2]"]) (simp add: hash_pairs_def)
  show ?thesis
    using and_kids or_kids
    by (auto simp: same_structure_def hash_pairs_def node_def get_def hash_left_def hash_right_def)
qed

theorem canonical_hash_structural_witness:
  "\<exists>h. canonical_pir_hash hash_left [3] = Inr h \<and> canonical_pir_hash hash_right [4] = Inr h"
proof -
  have "is_ok (canonical_pir_hash hash_left [3])" "is_ok (canonical_pir_hash hash_right [4])"
    by code_simp+
  then obtain h h' where h: "canonical_pir_hash hash_left [3] = Inr h" "canonical_pir_hash hash_right [4] = Inr h'"
    by (auto simp: is_ok_iff)
  have "same_children (\<lambda>i j. (i, j) \<in> set hash_pairs) [3] [4]"
    unfolding same_children_def by (rule exI [of _ "[4]"]) (simp add: hash_pairs_def)
  from canonical_hash_structural [OF h hash_pairs_same this] show ?thesis using h by simp
qed

end
