(* ===== verification/Decision_Order.thy ===== *)
theory Decision_Order
  imports Pir_Builder
begin

text \<open>
  The decision-order hint (\<open>xlog-prob/src/decision_order.rs\<close>): leaf and choice variables of a
  provenance result are renumbered by descending fanout. A \<open>BTreeMap\<close> is an association list with
  ascending keys. \<open>None\<close> stands for the panics of the code: a child identifier out of range and a
  side-table key without a new number. Reference counts are 64-bit words that wrap.
\<close>

section \<open>Ordered maps\<close>

fun btree_insert :: "'k::linorder \<Rightarrow> 'v \<Rightarrow> ('k \<times> 'v) list \<Rightarrow> ('k \<times> 'v) list" where
  "btree_insert k v [] = [(k, v)]"
| "btree_insert k v ((k', v') # m) =
     (if k < k' then (k, v) # (k', v') # m
      else if k = k' then (k, v) # m
      else (k', v') # btree_insert k v m)"

definition btree_ok :: "('k::linorder \<times> 'v) list \<Rightarrow> bool" where
  "btree_ok m = (sorted (map fst m) \<and> distinct (map fst m))"

definition btree_collect :: "('k::linorder \<times> 'v) list \<Rightarrow> ('k \<times> 'v) list" where
  "btree_collect kvs = fold (\<lambda>(k, v). btree_insert k v) kvs []"

lemma btree_insert_keys: "fst ` set (btree_insert k v m) = insert k (fst ` set m)"
  by (induction k v m rule: btree_insert.induct) auto

lemma btree_insert_ok: "btree_ok m \<Longrightarrow> btree_ok (btree_insert k v m)"
proof (induction k v m rule: btree_insert.induct)
  case (2 k v k' v' m)
  then have "btree_ok m" "\<forall>x \<in> fst ` set m. k' < x"
    by (auto simp: btree_ok_def order.order_iff_strict)
  then show ?case using 2 by (auto simp: btree_ok_def btree_insert_keys)
qed (simp add: btree_ok_def)

lemma btree_insert_map: "btree_ok m \<Longrightarrow> map_of (btree_insert k v m) = (map_of m)(k \<mapsto> v)"
proof (induction k v m rule: btree_insert.induct)
  case (2 k v k' v' m)
  have "map_of m k = None" if "k < k'"
  proof -
    have "\<forall>x \<in> fst ` set m. k' < x" using "2.prems" by (auto simp: btree_ok_def order.order_iff_strict)
    then have "k \<notin> fst ` set m" using that by auto
    then show ?thesis by (simp add: map_of_eq_None_iff)
  qed
  moreover have "btree_ok m" using "2.prems" by (simp add: btree_ok_def)
  ultimately show ?case using 2 by (auto simp: fun_eq_iff)
qed simp

lemma map_of_rev_keys:
  assumes "distinct (map fst kvs)"
  shows "map_of (rev kvs) = map_of kvs"
proof
  fix k
  show "map_of (rev kvs) k = map_of kvs k"
  proof (cases "map_of kvs k")
    case None
    then have "map_of (rev kvs) k = None" by (simp only: map_of_eq_None_iff set_rev not_False_eq_True)
    then show ?thesis using None by simp
  next
    case (Some v)
    then have "(k, v) \<in> set (rev kvs)" by (simp add: map_of_SomeD)
    moreover have "distinct (map fst (rev kvs))" using assms by (simp flip: rev_map)
    ultimately show ?thesis using Some map_of_is_SomeI by metis
  qed
qed

lemma btree_collect_ok:
  assumes "distinct (map fst kvs)"
  shows "btree_ok (btree_collect kvs)" and "map_of (btree_collect kvs) = map_of kvs"
    and "fst ` set (btree_collect kvs) = fst ` set kvs"
proof -
  have "btree_ok (fold (\<lambda>(k, v). btree_insert k v) xs m)
      \<and> map_of (fold (\<lambda>(k, v). btree_insert k v) xs m) = map_of m ++ map_of (rev xs)
      \<and> fst ` set (fold (\<lambda>(k, v). btree_insert k v) xs m) = fst ` set m \<union> fst ` set xs"
    if "btree_ok m" for xs :: "('a \<times> 'b) list" and m
    using that
  proof (induction xs arbitrary: m)
    case (Cons x xs)
    obtain k v where x: "x = (k, v)" by (cases x)
    show ?case
      using Cons.IH [OF btree_insert_ok [OF Cons.prems, of k v]]
      by (simp add: x btree_insert_map [OF Cons.prems] btree_insert_keys map_add_assoc del: fun_upd_apply)
  qed simp
  from this [of "[]" kvs] assms show "btree_ok (btree_collect kvs)"
    "map_of (btree_collect kvs) = map_of kvs" "fst ` set (btree_collect kvs) = fst ` set kvs"
    by (simp_all add: btree_collect_def btree_ok_def map_of_rev_keys)
qed

section \<open>The hint\<close>

record ground_atom =
  ground_predicate :: string
  ground_args :: "pvalue list"

record choice_source =
  source_choices :: "(ground_atom \<times> u64) list"
  choice_index :: nat
  source_id :: "nat option"

text \<open>The parts of a provenance result the hint reads or writes; a probability is its bit pattern.\<close>

record provenance =
  prov_pir :: pir_graph
  leaf_probs :: "(leaf_id \<times> u64) list"
  choice_probs :: "(choice_var_id \<times> u64 \<times> u64) list"
  tuple_formulas :: "(ground_atom \<times> node_id) list"
  leaf_atoms :: "(leaf_id \<times> ground_atom) list"
  choice_sources :: "(choice_var_id \<times> choice_source) list"

definition add_ref :: "node_id \<Rightarrow> u64 list \<Rightarrow> u64 list option" where
  "add_ref c refs =
     (if unat c < length refs then Some (refs[unat c := refs ! unat c + 1]) else None)"

definition node_refs :: "pir_graph \<Rightarrow> u64 list option" where
  "node_refs g =
     fold_option add_ref (concat (map node_children (nodes g))) (replicate (length (nodes g)) 0)"

definition add_score :: "'k::linorder \<Rightarrow> u64 \<Rightarrow> ('k \<times> u64) list \<Rightarrow> ('k \<times> u64) list" where
  "add_score k n m = btree_insert k ((case map_of m k of None \<Rightarrow> 0 | Some s \<Rightarrow> s) + n) m"

definition score_node :: "u64 list \<Rightarrow> nat \<times> pir_node
    \<Rightarrow> (leaf_id \<times> u64) list \<times> (choice_var_id \<times> u64) list
    \<Rightarrow> (leaf_id \<times> u64) list \<times> (choice_var_id \<times> u64) list" where
  "score_node refs = (\<lambda>(idx, nd) (ls, cs).
     case nd of
       PLit l \<Rightarrow> (add_score l (refs ! idx) ls, cs)
     | PNegLit l \<Rightarrow> (add_score l (refs ! idx) ls, cs)
     | PDecision v _ _ \<Rightarrow> (ls, add_score v (refs ! idx) cs)
     | _ \<Rightarrow> (ls, cs))"

definition scores :: "u64 list \<Rightarrow> provenance \<Rightarrow> (leaf_id \<times> u64) list \<times> (choice_var_id \<times> u64) list" where
  "scores refs p =
     fold (score_node refs) (indexed (nodes (prov_pir p)))
       (fold (\<lambda>l. btree_insert l 0) (map fst (leaf_probs p)) [],
        fold (\<lambda>v. btree_insert v 0) (map fst (choice_probs p)) [])"

text \<open>Keys by descending score, ties by ascending key, numbered from zero.\<close>

definition rank_map :: "(u32 \<times> u64) list \<Rightarrow> u32 \<rightharpoonup> u32" where
  "rank_map m =
     (let ks = sort_key (\<lambda>k. (- int (unat (the (map_of m k))), k)) (map fst m)
      in map_of (zip ks (map of_nat [0..<length ks])))"

definition rename_node :: "(leaf_id \<rightharpoonup> leaf_id) \<Rightarrow> (choice_var_id \<rightharpoonup> choice_var_id) \<Rightarrow> pir_node \<Rightarrow> pir_node"
  where
  "rename_node lm cm nd =
     (case nd of
        PLit l \<Rightarrow> PLit (case lm l of Some l' \<Rightarrow> l' | None \<Rightarrow> l)
      | PNegLit l \<Rightarrow> PNegLit (case lm l of Some l' \<Rightarrow> l' | None \<Rightarrow> l)
      | PDecision v f t \<Rightarrow> PDecision (case cm v of Some v' \<Rightarrow> v' | None \<Rightarrow> v) f t
      | _ \<Rightarrow> nd)"

definition rekey :: "(u32 \<rightharpoonup> u32) \<Rightarrow> (u32 \<times> 'v) list \<Rightarrow> (u32 \<times> 'v) list option" where
  "rekey km m =
     map_option btree_collect (those (map (\<lambda>(k, v). map_option (\<lambda>k'. (k', v)) (km k)) m))"

definition apply_decision_order_hint :: "provenance \<Rightarrow> provenance option" where
  "apply_decision_order_hint p =
     (case node_refs (prov_pir p) of
        None \<Rightarrow> None
      | Some refs \<Rightarrow>
          let (ls, cs) = scores refs p;
              lm = rank_map ls;
              cm = rank_map cs
          in case (rekey lm (leaf_probs p), rekey lm (leaf_atoms p),
                   rekey cm (choice_probs p), rekey cm (choice_sources p)) of
               (Some lp, Some la, Some cp, Some cs') \<Rightarrow>
                 Some (p\<lparr>prov_pir := \<lparr>nodes = map (rename_node lm cm) (nodes (prov_pir p))\<rparr>,
                   leaf_probs := lp, leaf_atoms := la, choice_probs := cp, choice_sources := cs'\<rparr>)
             | _ \<Rightarrow> None)"

section \<open>Scores and ranks\<close>

definition scored :: "('k \<times> u64) list \<Rightarrow> 'k set" where
  "scored m = fst ` set m"

lemma add_score_ok: "btree_ok m \<Longrightarrow> btree_ok (add_score k n m) \<and> scored (add_score k n m) = insert k (scored m)"
  by (simp add: add_score_def scored_def btree_insert_ok btree_insert_keys)

lemma start_scores:
  "btree_ok m \<Longrightarrow> btree_ok (fold (\<lambda>k. btree_insert k 0) ks m)
    \<and> scored (fold (\<lambda>k. btree_insert k 0) ks m) = scored m \<union> set ks"
proof (induction ks arbitrary: m)
  case (Cons k ks)
  from Cons.IH [OF btree_insert_ok [OF Cons.prems, of k 0]] show ?case
    by (simp add: scored_def btree_insert_keys)
qed simp

definition used_leaves :: "pir_node list \<Rightarrow> leaf_id set" where
  "used_leaves nds = {l. PLit l \<in> set nds \<or> PNegLit l \<in> set nds}"

definition used_choices :: "pir_node list \<Rightarrow> choice_var_id set" where
  "used_choices nds = {v. \<exists>f t. PDecision v f t \<in> set nds}"

lemma used_Cons:
  "used_leaves (nd # nds) = used_leaves [nd] \<union> used_leaves nds"
  "used_choices (nd # nds) = used_choices [nd] \<union> used_choices nds"
  by (auto simp: used_leaves_def used_choices_def)

lemma score_nodes_ok:
  assumes "btree_ok ls" and "btree_ok cs"
  shows "case fold (score_node refs) xs (ls, cs) of (ls', cs') \<Rightarrow>
    btree_ok ls' \<and> btree_ok cs' \<and> scored ls' = scored ls \<union> used_leaves (map snd xs)
    \<and> scored cs' = scored cs \<union> used_choices (map snd xs)"
  using assms
proof (induction xs arbitrary: ls cs)
  case Nil
  then show ?case by (simp add: used_leaves_def used_choices_def)
next
  case (Cons x xs)
  obtain idx nd where x: "x = (idx, nd)" by (cases x)
  obtain ls1 cs1 where s: "score_node refs x (ls, cs) = (ls1, cs1)" by fastforce
  have ok: "btree_ok ls1 \<and> btree_ok cs1 \<and> scored ls1 = scored ls \<union> used_leaves [nd]
      \<and> scored cs1 = scored cs \<union> used_choices [nd]"
    using s Cons.prems add_score_ok
    by (cases nd) (auto simp: x score_node_def used_leaves_def used_choices_def)
  then have "case fold (score_node refs) xs (ls1, cs1) of (ls', cs') \<Rightarrow>
    btree_ok ls' \<and> btree_ok cs' \<and> scored ls' = scored ls1 \<union> used_leaves (map snd xs)
    \<and> scored cs' = scored cs1 \<union> used_choices (map snd xs)"
    by (intro Cons.IH) (use ok in blast)+
  moreover have "used_leaves (map snd (x # xs)) = used_leaves [nd] \<union> used_leaves (map snd xs)"
    "used_choices (map snd (x # xs)) = used_choices [nd] \<union> used_choices (map snd xs)"
    using used_Cons [of nd "map snd xs"] by (simp_all add: x)
  ultimately show ?case using ok by (simp add: s split_beta Un_assoc)
qed

lemma scores_ok:
  assumes "scores refs p = (ls, cs)"
  shows "btree_ok ls" and "btree_ok cs"
    and "scored ls = fst ` set (leaf_probs p) \<union> used_leaves (nodes (prov_pir p))"
    and "scored cs = fst ` set (choice_probs p) \<union> used_choices (nodes (prov_pir p))"
proof -
  have e: "btree_ok ([] :: (u32 \<times> u64) list)" "scored ([] :: (u32 \<times> u64) list) = {}"
    by (simp_all add: btree_ok_def scored_def)
  note l = start_scores [OF e(1), of "map fst (leaf_probs p)"]
    and c = start_scores [OF e(1), of "map fst (choice_probs p)"]
  note s = score_nodes_ok [OF l [THEN conjunct1] c [THEN conjunct1], where refs = refs
      and xs = "indexed (nodes (prov_pir p))", folded scores_def, unfolded assms prod.case map_snd_indexed]
  show "btree_ok ls" "btree_ok cs" using s by blast+
  show "scored ls = fst ` set (leaf_probs p) \<union> used_leaves (nodes (prov_pir p))"
    "scored cs = fst ` set (choice_probs p) \<union> used_choices (nodes (prov_pir p))"
    using s l c e(2) by simp_all
qed

text \<open>The ranks number the scored keys from zero without gaps.\<close>

lemma rank_map_ok:
  assumes "btree_ok m"
  shows "dom (rank_map m) = scored m"
    and "bij_betw (\<lambda>k. unat (the (rank_map m k))) (scored m) {..<card (scored m)}"
proof -
  define ks where "ks = sort_key (\<lambda>k. (- int (unat (the (map_of m k))), k)) (map fst m)"
  let ?ranks = "map of_nat [0..<length ks] :: u32 list"
  have d: "distinct ks" using assms by (simp add: ks_def btree_ok_def)
  have set_ks: "set ks = scored m" by (simp add: ks_def scored_def)
  have len: "length ks = card (scored m)" using distinct_card [OF d] set_ks by simp
  have eq: "rank_map m = map_of (zip ks ?ranks)" by (simp add: rank_map_def ks_def Let_def)
  show "dom (rank_map m) = scored m" by (simp add: eq dom_map_of_zip set_ks)
  have "card (set ks) \<le> card (UNIV :: u32 set)" by (intro card_mono) auto
  then have bound: "length ks \<le> 2 ^ 32" using distinct_card [OF d] by (simp add: card_word)
  have at: "unat (the (rank_map m (ks ! i))) = i" if "i < length ks" for i
  proof -
    have "rank_map m (ks ! i) = Some (?ranks ! i)"
      unfolding eq by (rule map_of_zip_nth) (use d that in simp_all)
    then show ?thesis using that bound by (simp add: unat_of_nat)
  qed
  have "bij_betw (\<lambda>k. unat (the (rank_map m k))) (set ks) {..<length ks}"
    unfolding bij_betw_def
  proof (intro conjI)
    show "inj_on (\<lambda>k. unat (the (rank_map m k))) (set ks)"
      by (rule inj_onI) (metis at in_set_conv_nth)
    show "(\<lambda>k. unat (the (rank_map m k))) ` set ks = {..<length ks}"
      using at by (force simp: in_set_conv_nth image_iff)
  qed
  then show "bij_betw (\<lambda>k. unat (the (rank_map m k))) (scored m) {..<card (scored m)}"
    by (simp only: set_ks len)
qed

section \<open>Renaming\<close>

definition rename :: "(u32 \<rightharpoonup> u32) \<Rightarrow> u32 \<Rightarrow> u32" where
  "rename km k = (case km k of Some k' \<Rightarrow> k' | None \<Rightarrow> k)"

lemma rename_node_simps:
  "rename_node lm cm nd = PConst b \<longleftrightarrow> nd = PConst b"
  "rename_node lm cm nd = PLit l \<longleftrightarrow> (\<exists>k. nd = PLit k \<and> l = rename lm k)"
  "rename_node lm cm nd = PNegLit l \<longleftrightarrow> (\<exists>k. nd = PNegLit k \<and> l = rename lm k)"
  "rename_node lm cm nd = PAnd cs \<longleftrightarrow> nd = PAnd cs"
  "rename_node lm cm nd = POr cs \<longleftrightarrow> nd = POr cs"
  "rename_node lm cm nd = PDecision v f t \<longleftrightarrow> (\<exists>w. nd = PDecision w f t \<and> v = rename cm w)"
  by (cases nd; auto simp: rename_node_def rename_def)+

lemma holds_rename:
  assumes "nodes g' = map (rename_node lm cm) (nodes g)"
  shows "holds g' \<nu> \<chi> i = holds g (\<lambda>l. \<nu> (rename lm l)) (\<lambda>v. \<chi> (rename cm v)) i"
proof -
  let ?\<nu> = "\<lambda>l. \<nu> (rename lm l)" and ?\<chi> = "\<lambda>v. \<chi> (rename cm v)"
  have node: "node g' j = Some nd' \<longleftrightarrow> (\<exists>nd. node g j = Some nd \<and> rename_node lm cm nd = nd')" for j nd'
    by (auto simp: node_def get_def assms)
  have "holds g' \<nu> \<chi> i \<Longrightarrow> holds g ?\<nu> ?\<chi> i"
    by (induction rule: holds.induct) (auto simp: node rename_node_simps intro: holds.intros)
  moreover have "holds g \<nu>' \<chi>' i \<Longrightarrow> \<nu>' = ?\<nu> \<Longrightarrow> \<chi>' = ?\<chi> \<Longrightarrow> holds g' \<nu> \<chi> i" for \<nu>' \<chi>'
    by (induction rule: holds.induct) (force simp: node rename_node_simps intro: holds.intros)+
  ultimately show ?thesis by blast
qed

lemma those_map_Some:
  "those (map f xs) = Some ys \<longleftrightarrow> list_all2 (\<lambda>x y. f x = Some y) xs ys"
  by (induction xs arbitrary: ys) (auto simp: list_all2_Cons1 split: option.splits)

lemma rekey_ok:
  assumes "distinct (map fst m)" and "fst ` set m \<subseteq> dom km" and "inj_on (\<lambda>k. the (km k)) (dom km)"
  shows "\<exists>m'. rekey km m = Some m' \<and> btree_ok m' \<and> fst ` set m' = rename km ` fst ` set m
    \<and> (\<forall>k \<in> dom km. map_of m' (rename km k) = map_of m k)"
proof -
  let ?kvs = "map (\<lambda>(k, v). (the (km k), v)) m"
  have "those (map (\<lambda>(k, v). map_option (\<lambda>k'. (k', v)) (km k)) m) = Some ?kvs"
    unfolding those_map_Some using assms(2)
    by (auto simp: list_all2_conv_all_nth split_beta subset_iff dom_def image_iff) (metis nth_mem prod.collapse option.sel)
  then have run: "rekey km m = Some (btree_collect ?kvs)" by (simp add: rekey_def)
  have ren: "rename km k = the (km k)" if "k \<in> dom km" for k using that by (auto simp: rename_def)
  have inj: "inj_on (\<lambda>k. the (km k)) (set (map fst m))" using assms(2,3) by (auto intro: inj_on_subset)
  have keys: "map fst ?kvs = map (\<lambda>k. the (km k)) (map fst m)" by (simp add: split_beta comp_def)
  have d: "distinct (map fst ?kvs)" unfolding keys by (subst distinct_map) (use assms(1) inj in blast)
  note c = btree_collect_ok [OF d]
  have "map_of ?kvs (the (km k)) = map_of m k" if k: "k \<in> dom km" for k
    using assms(2) k
  proof (induction m)
    case (Cons x m)
    have "the (km (fst x)) = the (km k) \<longleftrightarrow> fst x = k"
      using assms(3) Cons.prems by (auto simp: inj_on_def)
    then show ?case using Cons by (auto simp: split_beta)
  qed simp
  moreover have "fst ` set ?kvs = rename km ` fst ` set m"
    using ren assms(2) by (force simp: image_iff)
  ultimately show ?thesis using run c ren by (intro exI [of _ "btree_collect ?kvs"]) auto
qed

section \<open>The hint preserves the distribution\<close>

lemma add_refs_ok:
  assumes "\<forall>c \<in> set cs. unat c < n" and "length refs = n"
  shows "\<exists>refs'. fold_option add_ref cs refs = Some refs'"
  using assms by (induction cs arbitrary: refs) (auto simp: add_ref_def)

definition all_leaves :: "provenance \<Rightarrow> leaf_id set" where
  "all_leaves p = fst ` set (leaf_probs p) \<union> used_leaves (nodes (prov_pir p))"

definition all_choices :: "provenance \<Rightarrow> choice_var_id set" where
  "all_choices p = fst ` set (choice_probs p) \<union> used_choices (nodes (prov_pir p))"

definition provenance_ok :: "provenance \<Rightarrow> bool" where
  "provenance_ok p =
     (list_all (\<lambda>nd. list_all (\<lambda>c. unat c < length (nodes (prov_pir p))) (node_children nd)) (nodes (prov_pir p))
      \<and> btree_ok (leaf_probs p) \<and> btree_ok (leaf_atoms p) \<and> btree_ok (choice_probs p) \<and> btree_ok (choice_sources p)
      \<and> fst ` set (leaf_atoms p) \<subseteq> all_leaves p \<and> fst ` set (choice_sources p) \<subseteq> all_choices p)"

text \<open>\<open>renumbers f h p p'\<close>: \<open>p'\<close> is \<open>p\<close> with leaves renamed by \<open>f\<close> and choice variables by \<open>h\<close>.\<close>

definition renumbers ::
    "(leaf_id \<Rightarrow> leaf_id) \<Rightarrow> (choice_var_id \<Rightarrow> choice_var_id) \<Rightarrow> provenance \<Rightarrow> provenance \<Rightarrow> bool" where
  "renumbers f h p p' =
     ((\<forall>\<nu> \<chi> i. holds (prov_pir p') \<nu> \<chi> i = holds (prov_pir p) (\<lambda>l. \<nu> (f l)) (\<lambda>v. \<chi> (h v)) i)
      \<and> tuple_formulas p' = tuple_formulas p
      \<and> (\<forall>l \<in> all_leaves p. map_of (leaf_probs p') (f l) = map_of (leaf_probs p) l
           \<and> map_of (leaf_atoms p') (f l) = map_of (leaf_atoms p) l)
      \<and> (\<forall>v \<in> all_choices p. map_of (choice_probs p') (h v) = map_of (choice_probs p) v
           \<and> map_of (choice_sources p') (h v) = map_of (choice_sources p) v))"

lemma rank_rename:
  assumes "btree_ok m"
  shows "inj_on (rename (rank_map m)) (scored m)"
    and "(\<lambda>k. unat (rename (rank_map m) k)) ` scored m = {..<card (scored m)}"
    and "inj_on (\<lambda>k. the (rank_map m k)) (dom (rank_map m))"
proof -
  note r = rank_map_ok [OF assms]
  have ren: "rename (rank_map m) k = the (rank_map m k)" if "k \<in> scored m" for k
    using that r(1) by (auto simp: rename_def split: option.splits)
  have inj: "inj_on (\<lambda>k. unat (the (rank_map m k))) (scored m)"
    and img: "(\<lambda>k. unat (the (rank_map m k))) ` scored m = {..<card (scored m)}"
    using r(2) by (simp_all add: bij_betw_def)
  have inj': "inj_on (\<lambda>k. the (rank_map m k)) (scored m)"
    using inj by (auto simp: inj_on_def)
  then show "inj_on (\<lambda>k. the (rank_map m k)) (dom (rank_map m))" by (simp only: r(1))
  show "inj_on (rename (rank_map m)) (scored m)"
    using inj' ren by (auto simp: inj_on_def)
  show "(\<lambda>k. unat (rename (rank_map m) k)) ` scored m = {..<card (scored m)}"
    unfolding img [symmetric] by (rule image_cong) (simp_all add: ren)
qed

text \<open>The decision-order hint never fails on a well-formed provenance result, and what it returns
  is the same distribution under one-to-one renamings of the leaves and choice variables onto the
  first numbers: every formula keeps its meaning, and every variable its probability, atom and
  source.\<close>

theorem decision_hint_preserves:
  assumes "provenance_ok p"
  shows "\<exists>p' f h. apply_decision_order_hint p = Some p' \<and> renumbers f h p p'
    \<and> inj_on f (all_leaves p) \<and> (\<lambda>l. unat (f l)) ` all_leaves p = {..<card (all_leaves p)}
    \<and> inj_on h (all_choices p) \<and> (\<lambda>v. unat (h v)) ` all_choices p = {..<card (all_choices p)}"
proof -
  let ?g = "prov_pir p"
  have ok: "btree_ok (leaf_probs p)" "btree_ok (leaf_atoms p)" "btree_ok (choice_probs p)" "btree_ok (choice_sources p)"
    and sub: "fst ` set (leaf_atoms p) \<subseteq> all_leaves p" "fst ` set (choice_sources p) \<subseteq> all_choices p"
    and kids: "\<forall>c \<in> set (concat (map node_children (nodes ?g))). unat c < length (nodes ?g)"
    using assms by (auto simp: provenance_ok_def list_all_iff)
  obtain refs where refs: "node_refs ?g = Some refs"
    using add_refs_ok [OF kids, of "replicate (length (nodes ?g)) 0"] by (auto simp: node_refs_def)
  obtain ls cs where sc: "scores refs p = (ls, cs)" by fastforce
  note s = scores_ok [OF sc]
  have L: "scored ls = all_leaves p" and C: "scored cs = all_choices p"
    using s(3,4) by (simp_all add: all_leaves_def all_choices_def)
  let ?lm = "rank_map ls" and ?cm = "rank_map cs"
  note l = rank_map_ok(1) [OF s(1), unfolded L] and c = rank_map_ok(1) [OF s(2), unfolded C]
  note rl = rank_rename [OF s(1), unfolded L] and rc = rank_rename [OF s(2), unfolded C]
  have dom: "fst ` set (leaf_probs p) \<subseteq> dom ?lm" "fst ` set (leaf_atoms p) \<subseteq> dom ?lm"
    "fst ` set (choice_probs p) \<subseteq> dom ?cm" "fst ` set (choice_sources p) \<subseteq> dom ?cm"
    using sub by (auto simp: l c all_leaves_def all_choices_def)
  obtain lp where lp: "rekey ?lm (leaf_probs p) = Some lp"
      "\<forall>k \<in> dom ?lm. map_of lp (rename ?lm k) = map_of (leaf_probs p) k"
    using rekey_ok [OF _ dom(1) rl(3)] ok(1) by (auto simp: btree_ok_def)
  obtain la where la: "rekey ?lm (leaf_atoms p) = Some la"
      "\<forall>k \<in> dom ?lm. map_of la (rename ?lm k) = map_of (leaf_atoms p) k"
    using rekey_ok [OF _ dom(2) rl(3)] ok(2) by (auto simp: btree_ok_def)
  obtain cp where cp: "rekey ?cm (choice_probs p) = Some cp"
      "\<forall>k \<in> dom ?cm. map_of cp (rename ?cm k) = map_of (choice_probs p) k"
    using rekey_ok [OF _ dom(3) rc(3)] ok(3) by (auto simp: btree_ok_def)
  obtain cs' where cs': "rekey ?cm (choice_sources p) = Some cs'"
      "\<forall>k \<in> dom ?cm. map_of cs' (rename ?cm k) = map_of (choice_sources p) k"
    using rekey_ok [OF _ dom(4) rc(3)] ok(4) by (auto simp: btree_ok_def)
  let ?p' = "p\<lparr>prov_pir := \<lparr>nodes = map (rename_node ?lm ?cm) (nodes ?g)\<rparr>,
                   leaf_probs := lp, leaf_atoms := la, choice_probs := cp, choice_sources := cs'\<rparr>"
  have run: "apply_decision_order_hint p = Some ?p'"
    by (simp add: apply_decision_order_hint_def refs sc lp(1) la(1) cp(1) cs'(1))
  have "renumbers (rename ?lm) (rename ?cm) p ?p'"
    unfolding renumbers_def using holds_rename [of "prov_pir ?p'" ?lm ?cm ?g] lp(2) la(2) cp(2) cs'(2)
    by (simp add: l c)
  then show ?thesis using run rl(1,2) rc(1,2) by blast
qed

definition hint_demo :: provenance where
  "hint_demo = \<lparr>prov_pir = \<lparr>nodes = [PLit 3, PLit 7, PAnd [0, 1], PDecision 5 1 2, POr [3, 1]]\<rparr>,
     leaf_probs = [(3, 10), (7, 20)], choice_probs = [(5, 30, 40)],
     tuple_formulas = [(\<lparr>ground_predicate = ''q'', ground_args = []\<rparr>, 4)],
     leaf_atoms = [(3, \<lparr>ground_predicate = ''a'', ground_args = []\<rparr>)], choice_sources = []\<rparr>"

lemma hint_demo_run:
  "map_option (\<lambda>p. (nodes (prov_pir p), leaf_probs p, choice_probs p, map fst (leaf_atoms p)))
     (apply_decision_order_hint hint_demo)
   = Some ([PLit 1, PLit 0, PAnd [0, 1], PDecision 0 1 2, POr [3, 1]], [(0, 20), (1, 10)],
       [(0, 30, 40)], [1])"
  by code_simp

theorem decision_hint_preserves_witness:
  "\<exists>p' f h. apply_decision_order_hint hint_demo = Some p' \<and> renumbers f h hint_demo p'
    \<and> inj_on f (all_leaves hint_demo)
    \<and> (\<lambda>l. unat (f l)) ` all_leaves hint_demo = {..<card (all_leaves hint_demo)}
    \<and> inj_on h (all_choices hint_demo)
    \<and> (\<lambda>v. unat (h v)) ` all_choices hint_demo = {..<card (all_choices hint_demo)}"
proof (rule decision_hint_preserves)
  show "provenance_ok hint_demo"
    by (simp add: provenance_ok_def hint_demo_def node_children_def btree_ok_def all_leaves_def all_choices_def)
qed

end
