(* ===== verification/Sat_Instance.thy ===== *)
theory Sat_Instance
  imports Xlog_Prelude
begin

unbundle bit_operations_syntax

text \<open>
  SAT and MaxSAT instances (\<open>xlog-solve/src/instance.rs\<close>): literals with their DIMACS and packed
  encodings, clauses and instances. A read of an assignment out of range panics, here \<open>None\<close>;
  iterators stop where the code's iterators stop, so a clause can be decided before a bad literal
  is read. Weights are the bit patterns of \<open>f64\<close> values.
\<close>

section \<open>Literals\<close>

record literal =
  lit_var :: u32
  lit_negated :: bool

definition lit_positive :: "u32 \<Rightarrow> literal" where
  "lit_positive v = \<lparr>lit_var = v, lit_negated = False\<rparr>"

definition lit_negative :: "u32 \<Rightarrow> literal" where
  "lit_negative v = \<lparr>lit_var = v, lit_negated = True\<rparr>"

definition lit_negate :: "literal \<Rightarrow> literal" where
  "lit_negate l = \<lparr>lit_var = lit_var l, lit_negated = (\<not> lit_negated l)\<rparr>"

definition lit_eval :: "bool list \<Rightarrow> literal \<Rightarrow> bool option" where
  "lit_eval assignment l =
     map_option (\<lambda>v. if lit_negated l then \<not> v else v) (get assignment (unat (lit_var l)))"

definition lit_to_dimacs :: "literal \<Rightarrow> i32" where
  "lit_to_dimacs l =
     (let var_1indexed = lit_var l + 1 in if lit_negated l then - var_1indexed else var_1indexed)"

definition lit_from_dimacs :: "i32 \<Rightarrow> literal option" where
  "lit_from_dimacs d =
     (if d = 0 then None
      else let neg = d <s 0
           in Some \<lparr>lit_var = (if neg then - d else d) - 1, lit_negated = neg\<rparr>)"

definition lit_to_packed :: "literal \<Rightarrow> u32" where
  "lit_to_packed l = (if lit_negated l then lit_var l OR 0x80000000 else lit_var l)"

definition lit_from_packed :: "u32 \<Rightarrow> literal" where
  "lit_from_packed p = \<lparr>lit_var = p AND 0x7FFFFFFF, lit_negated = (p AND 0x80000000 \<noteq> 0)\<rparr>"

section \<open>Clauses\<close>

record sat_clause =
  literals :: "literal list"

definition unit_clause :: "literal \<Rightarrow> sat_clause" where
  "unit_clause l = \<lparr>literals = [l]\<rparr>"

text \<open>\<open>any\<close> and \<open>all\<close> with a test that may panic.\<close>

fun any_opt :: "('a \<Rightarrow> bool option) \<Rightarrow> 'a list \<Rightarrow> bool option" where
  "any_opt p [] = Some False"
| "any_opt p (x # xs) =
     (case p x of None \<Rightarrow> None | Some True \<Rightarrow> Some True | Some False \<Rightarrow> any_opt p xs)"

fun all_opt :: "('a \<Rightarrow> bool option) \<Rightarrow> 'a list \<Rightarrow> bool option" where
  "all_opt p [] = Some True"
| "all_opt p (x # xs) =
     (case p x of None \<Rightarrow> None | Some False \<Rightarrow> Some False | Some True \<Rightarrow> all_opt p xs)"

text \<open>\<open>filter(..).count()\<close>.\<close>

fun count_opt :: "('a \<Rightarrow> bool option) \<Rightarrow> 'a list \<Rightarrow> nat option" where
  "count_opt p [] = Some 0"
| "count_opt p (x # xs) =
     (case p x of
        None \<Rightarrow> None
      | Some b \<Rightarrow> map_option (\<lambda>n. if b then n + 1 else n) (count_opt p xs))"

definition clause_satisfied :: "bool list \<Rightarrow> sat_clause \<Rightarrow> bool option" where
  "clause_satisfied assignment c = any_opt (lit_eval assignment) (literals c)"

definition clause_count_satisfied :: "bool list \<Rightarrow> sat_clause \<Rightarrow> nat option" where
  "clause_count_satisfied assignment c = count_opt (lit_eval assignment) (literals c)"

section \<open>Instances\<close>

datatype sat_objective = Satisfaction | MaxSat | MinUnsat

record solve_instance =
  inst_num_vars :: u32
  inst_clauses :: "sat_clause list"
  inst_weights :: "u64 list option"
  inst_objective :: sat_objective

definition new_instance :: "u32 \<Rightarrow> sat_clause list \<Rightarrow> solve_instance" where
  "new_instance n cs = \<lparr>inst_num_vars = n, inst_clauses = cs, inst_weights = None,
     inst_objective = Satisfaction\<rparr>"

definition with_weights :: "u32 \<Rightarrow> sat_clause list \<Rightarrow> u64 list \<Rightarrow> solve_instance option" where
  "with_weights n cs ws =
     (if length cs = length ws
      then Some \<lparr>inst_num_vars = n, inst_clauses = cs, inst_weights = Some ws, inst_objective = MaxSat\<rparr>
      else None)"

definition f64_one :: u64 where
  "f64_one = 0x3FF0000000000000"

definition add_clause :: "sat_clause \<Rightarrow> solve_instance \<Rightarrow> solve_instance" where
  "add_clause c inst =
     inst\<lparr>inst_clauses := inst_clauses inst @ [c],
          inst_weights := map_option (\<lambda>ws. ws @ [f64_one]) (inst_weights inst)\<rparr>"

definition add_weighted_clause :: "sat_clause \<Rightarrow> u64 \<Rightarrow> solve_instance \<Rightarrow> solve_instance" where
  "add_weighted_clause c w inst =
     (let ws = (case inst_weights inst of
                  None \<Rightarrow> replicate (length (inst_clauses inst)) f64_one
                | Some ws \<Rightarrow> ws)
      in inst\<lparr>inst_clauses := inst_clauses inst @ [c], inst_weights := Some (ws @ [w])\<rparr>)"

definition instance_satisfied :: "bool list \<Rightarrow> solve_instance \<Rightarrow> bool option" where
  "instance_satisfied assignment inst = all_opt (clause_satisfied assignment) (inst_clauses inst)"

definition count_satisfied :: "bool list \<Rightarrow> solve_instance \<Rightarrow> nat option" where
  "count_satisfied assignment inst = count_opt (clause_satisfied assignment) (inst_clauses inst)"

definition validate_instance :: "solve_instance \<Rightarrow> bool" where
  "validate_instance inst =
     list_all (\<lambda>c. list_all (\<lambda>l. lit_var l < inst_num_vars inst) (literals c)) (inst_clauses inst)"

definition max_var :: "solve_instance \<Rightarrow> u32 option" where
  "max_var inst =
     (case concat (map literals (inst_clauses inst)) of
        [] \<Rightarrow> None
      | l # ls \<Rightarrow> Some (fold max (map lit_var ls) (lit_var l)))"

definition total_literals :: "solve_instance \<Rightarrow> nat" where
  "total_literals inst = sum_list (map (\<lambda>c. length (literals c)) (inst_clauses inst))"

section \<open>Meaning\<close>

definition lit_holds :: "bool list \<Rightarrow> literal \<Rightarrow> bool" where
  "lit_holds a l = (a ! unat (lit_var l) \<noteq> lit_negated l)"

definition clause_holds :: "bool list \<Rightarrow> sat_clause \<Rightarrow> bool" where
  "clause_holds a c = (\<exists>l \<in> set (literals c). lit_holds a l)"

definition clause_in_range :: "nat \<Rightarrow> sat_clause \<Rightarrow> bool" where
  "clause_in_range n c = (\<forall>l \<in> set (literals c). unat (lit_var l) < n)"

lemma any_opt_total: "\<forall>x \<in> set xs. p x = Some (q x) \<Longrightarrow> any_opt p xs = Some (\<exists>x \<in> set xs. q x)"
  by (induction xs) (auto split: bool.splits)

lemma all_opt_total: "\<forall>x \<in> set xs. p x = Some (q x) \<Longrightarrow> all_opt p xs = Some (\<forall>x \<in> set xs. q x)"
  by (induction xs) (auto split: bool.splits)

lemma count_opt_total:
  "\<forall>x \<in> set xs. p x = Some (q x) \<Longrightarrow> count_opt p xs = Some (length (filter q xs))"
  by (induction xs) auto

lemma lit_eval_in_range: "unat (lit_var l) < length a \<Longrightarrow> lit_eval a l = Some (lit_holds a l)"
  by (auto simp: lit_eval_def get_def lit_holds_def)

lemma clause_satisfied_in_range:
  "clause_in_range (length a) c \<Longrightarrow> clause_satisfied a c = Some (clause_holds a c)"
  unfolding clause_satisfied_def clause_holds_def
  by (rule any_opt_total) (simp add: clause_in_range_def lit_eval_in_range)

lemma validate_in_range:
  "validate_instance inst \<longleftrightarrow> (\<forall>c \<in> set (inst_clauses inst). clause_in_range (unat (inst_num_vars inst)) c)"
  by (auto simp: validate_instance_def list_all_iff clause_in_range_def word_less_nat_alt)

section \<open>Encodings of literals\<close>

lemma top_bit: "(w AND 0x80000000 \<noteq> 0) = bit (w :: u32) 31"
proof -
  have "(0x80000000 :: u32) = 2 ^ 31" by simp
  then show ?thesis by (simp only: and_exp_eq_0_iff_not_bit not_not)
qed
lemma low_bits: "(w :: u32) AND 0x7FFFFFFF = take_bit 31 w"
proof -
  have "(0x7FFFFFFF :: u32) = mask 31" by (simp add: mask_eq_exp_minus_1)
  then show ?thesis by (simp only: take_bit_eq_mask)
qed
lemma top_or: "(w :: u32) OR 0x80000000 = set_bit 31 w"
proof -
  have "(0x80000000 :: u32) = push_bit 31 1" by simp
  then show ?thesis by (simp only: set_bit_eq_or)
qed
lemma below_top: "unat (w :: u32) < 2147483648 \<longleftrightarrow> take_bit 31 w = w"
proof -
  have "unat w < 2 ^ 31 \<longleftrightarrow> take_bit 31 w = w"
    by (simp only: take_bit_nat_eq_self_iff [symmetric] word_unat_eq_iff unsigned_take_bit_eq)
  then show ?thesis by simp
qed

lemma dimacs_signs:
  assumes "unat (v :: u32) < 2 ^ 31 - 1"
  shows "v + 1 \<noteq> 0" and "\<not> v + 1 <s 0" and "- (v + 1) <s 0"
proof -
  have "unat (v + 1) = Suc (unat v)"
    by (subst unat_plus_simple [THEN iffD1]) (use assms in \<open>auto simp: word_le_nat_alt unat_word_ariths\<close>)
  then have b: "unat (v + 1) < 2 ^ 31" "0 < unat (v + 1)" using assms by simp_all
  then show "v + 1 \<noteq> 0" by auto
  show "\<not> v + 1 <s 0" using sint_small [OF b(1)] by (simp add: word_sless_alt)
  show "- (v + 1) <s 0" unfolding word_sless_alt sint_minus_small [OF b(1)] using b(2) by (simp only: sint_0 neg_less_0_iff_less of_nat_0_less_iff)
qed
lemma take_set_top: "take_bit 31 (set_bit 31 (w :: u32)) = take_bit 31 w"
  by (rule bit_eqI) (auto simp: bit_take_bit_iff bit_set_bit_iff)
lemma set_take_top: "bit (p :: u32) 31 \<Longrightarrow> set_bit 31 (take_bit 31 p) = p"
  by (rule bit_eqI) (auto simp: bit_take_bit_iff bit_set_bit_iff less_Suc_eq dest: bit_imp_le_length)
lemma take_clear_top: "\<not> bit (p :: u32) 31 \<Longrightarrow> take_bit 31 p = p"
proof (rule bit_eqI)
  fix n assume "\<not> bit p 31"
  then show "bit (take_bit 31 p) n = bit p n"
    by (cases "n = 31") (auto simp: bit_take_bit_iff dest: bit_imp_le_length)
qed

text \<open>C30: The DIMACS and packed encodings of a literal round trip: decoding an encoded literal gives
  it back for every variable the format can hold, and encoding a decoded word gives the word back.
  For the packed format the bound on the variable is exact.\<close>

theorem literal_roundtrips:
  "(unat (lit_var l) < 2 ^ 31 - 1 \<longrightarrow> lit_from_dimacs (lit_to_dimacs l) = Some l)
    \<and> (lit_from_dimacs d = Some l' \<longrightarrow> lit_to_dimacs l' = d)
    \<and> (lit_from_packed (lit_to_packed l) = l \<longleftrightarrow> unat (lit_var l) < 2 ^ 31)
    \<and> lit_to_packed (lit_from_packed p) = p"
proof (intro conjI impI)
  assume "unat (lit_var l) < 2 ^ 31 - 1"
  note s = dimacs_signs [OF this]
  show "lit_from_dimacs (lit_to_dimacs l) = Some l"
    using s by (cases l) (auto simp: lit_from_dimacs_def lit_to_dimacs_def Let_def simp del: minus_add_distrib)
next
  assume "lit_from_dimacs d = Some l'"
  then show "lit_to_dimacs l' = d"
    by (auto simp: lit_from_dimacs_def lit_to_dimacs_def Let_def split: if_splits)
next
  show "lit_from_packed (lit_to_packed l) = l \<longleftrightarrow> unat (lit_var l) < 2 ^ 31"
  proof (cases "lit_negated l")
    case True
    then show ?thesis
      by (cases l) (auto simp: lit_from_packed_def lit_to_packed_def top_bit low_bits top_or take_set_top
          below_top bit_set_bit_iff)
  next
    case False
    have "bit (lit_var l) 31 \<Longrightarrow> take_bit 31 (lit_var l) \<noteq> lit_var l"
      by (metis bit_take_bit_iff less_irrefl)
    then show ?thesis
      using False
      by (cases l) (auto simp: lit_from_packed_def lit_to_packed_def top_bit low_bits below_top)
  qed
next
  show "lit_to_packed (lit_from_packed p) = p"
    by (auto simp: lit_from_packed_def lit_to_packed_def top_bit low_bits top_or set_take_top take_clear_top)
qed

theorem literal_roundtrips_witness:
  "lit_from_dimacs (lit_to_dimacs (lit_negative 4)) = Some (lit_negative 4)
    \<and> lit_to_dimacs (lit_negative 4) = - 5
    \<and> lit_from_packed (lit_to_packed (lit_positive 7)) = lit_positive 7"
proof -
  have small: "unat (lit_var (lit_negative 4)) < 2 ^ 31 - 1" "unat (lit_var (lit_positive 7)) < 2 ^ 31"
    by (simp_all add: lit_negative_def lit_positive_def)
  have "lit_from_dimacs (- 5) = Some (lit_negative 4)" by code_simp
  then show ?thesis
    using small literal_roundtrips [of "lit_negative 4" "- 5" "lit_negative 4" 0]
      literal_roundtrips [of "lit_positive 7" "- 5" "lit_negative 4" 0] by blast
qed

end
