(* ===== verification/Sat_Service.thy ===== *)
theory Sat_Service
  imports Sat_Instance
begin

unbundle bit_operations_syntax

text \<open>
  The solver service (\<open>xlog-solve/src/service.rs\<close>): assumptions with tokens, exhaustive and bounded
  search over assignments numbered by 64-bit masks, MaxSAT search, and learned clauses scoped by the
  assumptions they were learned under. The interior mutability of the code is state passing; a panic
  is \<open>None\<close>. The arithmetic of \<open>f64\<close> scores is a parameter \<open>ops\<close>. Shifts wrap as in a release build.
\<close>

section \<open>The service\<close>

datatype service_status = SvcSat | SvcUnsat | SvcUnknown | SvcTimeout | SvcOptimal u64

datatype service_budget = NoSearch | AssignmentLimit u64 | Exhaustive

record service_trace =
  learned_clause_transfers :: nat
  cpu_assignment_enumerations :: u64
  cpu_maxsat_enumerations :: u64

record service_result =
  res_status :: service_status
  res_assignment :: "bool list option"

record scoped_clause =
  sc_clause :: sat_clause
  sc_scope :: "literal list"

record solver_service =
  svc_instance :: solve_instance
  svc_assumptions :: "literal option list"
  svc_learned :: "scoped_clause list"
  svc_trace :: service_trace

definition new_service :: "solve_instance \<Rightarrow> solver_service" where
  "new_service inst =
     \<lparr>svc_instance = inst, svc_assumptions = [], svc_learned = [],
      svc_trace = \<lparr>learned_clause_transfers = 0, cpu_assignment_enumerations = 0,
        cpu_maxsat_enumerations = 0\<rparr>\<rparr>"

definition assume_literal :: "literal \<Rightarrow> solver_service \<Rightarrow> nat \<times> solver_service" where
  "assume_literal l svc =
     (length (svc_assumptions svc), svc\<lparr>svc_assumptions := svc_assumptions svc @ [Some l]\<rparr>)"

definition retract_assumption :: "nat \<Rightarrow> solver_service \<Rightarrow> bool \<times> solver_service" where
  "retract_assumption token svc =
     (case get (svc_assumptions svc) token of
        None \<Rightarrow> (False, svc)
      | Some slot \<Rightarrow> (slot \<noteq> None, svc\<lparr>svc_assumptions := (svc_assumptions svc)[token := None]\<rparr>))"

definition active_assumptions :: "solver_service \<Rightarrow> literal list" where
  "active_assumptions svc = List.map_filter id (svc_assumptions svc)"

definition hard_clauses :: "solver_service \<Rightarrow> sat_clause list" where
  "hard_clauses svc =
     (if inst_objective (svc_instance svc) = MaxSat then [] else inst_clauses (svc_instance svc))
     @ map unit_clause (active_assumptions svc)
     @ map sc_clause (filter (\<lambda>sc. list_all (\<lambda>l. l \<in> set (active_assumptions svc)) (sc_scope sc))
         (svc_learned svc))"

definition record_unsat_learning :: "sat_clause list \<Rightarrow> solver_service \<Rightarrow> solver_service" where
  "record_unsat_learning hard svc =
     (if svc_learned svc = [] \<and> hard \<noteq> []
      then svc\<lparr>svc_learned := [\<lparr>sc_clause = \<lparr>literals = []\<rparr>, sc_scope = active_assumptions svc\<rparr>]\<rparr>
      else svc)"

definition saturating_add :: "u64 \<Rightarrow> u64 \<Rightarrow> u64" where
  "saturating_add a b = (if a \<le> a + b then a + b else - 1)"

definition record_assignments :: "u64 \<Rightarrow> solver_service \<Rightarrow> solver_service" where
  "record_assignments n svc =
     svc\<lparr>svc_trace := (svc_trace svc)\<lparr>cpu_assignment_enumerations :=
       saturating_add (cpu_assignment_enumerations (svc_trace svc)) n\<rparr>\<rparr>"

definition record_maxsat :: "u64 \<Rightarrow> solver_service \<Rightarrow> solver_service" where
  "record_maxsat n svc =
     svc\<lparr>svc_trace := (svc_trace svc)\<lparr>cpu_maxsat_enumerations :=
       saturating_add (cpu_maxsat_enumerations (svc_trace svc)) n\<rparr>\<rparr>"

definition transfer_learned :: "solver_service \<Rightarrow> solver_service \<Rightarrow> nat \<times> solver_service" where
  "transfer_learned src target =
     (let count = length (svc_learned src)
      in (count, target\<lparr>svc_learned := svc_learned target @ svc_learned src,
            svc_trace := (svc_trace target)\<lparr>learned_clause_transfers :=
              learned_clause_transfers (svc_trace target) + count\<rparr>\<rparr>))"

section \<open>Search\<close>

definition assignment_from_mask :: "u32 \<Rightarrow> u64 \<Rightarrow> bool list" where
  "assignment_from_mask n code = map (\<lambda>v. code AND push_bit (v mod 64) 1 \<noteq> 0) [0..<unat n]"

definition all_satisfied :: "sat_clause list \<Rightarrow> bool list \<Rightarrow> bool option" where
  "all_satisfied cs a = all_opt (clause_satisfied a) cs"

text \<open>The first code below \<open>code + left\<close> whose assignment satisfies the clauses.\<close>

fun find_mask :: "u32 \<Rightarrow> sat_clause list \<Rightarrow> nat \<Rightarrow> nat \<Rightarrow> nat option option" where
  "find_mask n hard 0 code = Some None"
| "find_mask n hard (Suc left) code =
     (case all_satisfied hard (assignment_from_mask n (of_nat code)) of
        None \<Rightarrow> None
      | Some True \<Rightarrow> Some (Some code)
      | Some False \<Rightarrow> find_mask n hard left (code + 1))"

text \<open>The operations on \<open>f64\<close> the MaxSAT search uses.\<close>

record 'f f64_ops =
  f_zero :: 'f
  f_add :: "'f \<Rightarrow> 'f \<Rightarrow> 'f"
  f_gt :: "'f \<Rightarrow> 'f \<Rightarrow> bool"
  f_neg_inf :: 'f
  f_of_nat :: "nat \<Rightarrow> 'f"
  f_of_bits :: "u64 \<Rightarrow> 'f"
  f_to_u64 :: "'f \<Rightarrow> u64"

fun satisfied_weights :: "bool list \<Rightarrow> (sat_clause \<times> u64) list \<Rightarrow> u64 list option" where
  "satisfied_weights a [] = Some []"
| "satisfied_weights a ((c, w) # cws) =
     (case clause_satisfied a c of
        None \<Rightarrow> None
      | Some b \<Rightarrow> map_option (\<lambda>ws. if b then w # ws else ws) (satisfied_weights a cws))"

definition weighted_satisfaction :: "'f f64_ops \<Rightarrow> solve_instance \<Rightarrow> bool list \<Rightarrow> 'f option" where
  "weighted_satisfaction ops inst a =
     (case inst_weights inst of
        Some ws \<Rightarrow>
          map_option (\<lambda>sat. foldl (\<lambda>s w. f_add ops s (f_of_bits ops w)) (f_zero ops) sat)
            (satisfied_weights a (zip (inst_clauses inst) ws))
      | None \<Rightarrow> map_option (f_of_nat ops) (count_satisfied a inst))"

type_synonym 'f best = "bool list option \<times> 'f"

definition maxsat_step ::
    "'f f64_ops \<Rightarrow> solve_instance \<Rightarrow> sat_clause list \<Rightarrow> nat \<Rightarrow> 'f best \<Rightarrow> 'f best option" where
  "maxsat_step ops inst hard code = (\<lambda>(best, best_score).
     let a = assignment_from_mask (inst_num_vars inst) (of_nat code)
     in case all_satisfied hard a of
          None \<Rightarrow> None
        | Some False \<Rightarrow> Some (best, best_score)
        | Some True \<Rightarrow>
            map_option (\<lambda>score. if f_gt ops score best_score then (Some a, score) else (best, best_score))
              (weighted_satisfaction ops inst a))"

definition solve_maxsat ::
    "'f f64_ops \<Rightarrow> u64 \<Rightarrow> bool \<Rightarrow> sat_clause list \<Rightarrow> solver_service
     \<Rightarrow> (service_result \<times> solver_service) option" where
  "solve_maxsat ops search_max timed_out hard svc =
     map_option (\<lambda>(best, best_score).
         (if timed_out then \<lparr>res_status = SvcTimeout, res_assignment = None\<rparr>
          else case best of
            Some a \<Rightarrow> \<lparr>res_status = SvcOptimal (f_to_u64 ops best_score), res_assignment = Some a\<rparr>
          | None \<Rightarrow> \<lparr>res_status = SvcUnsat, res_assignment = None\<rparr>,
          record_maxsat search_max svc))
       (fold_option (maxsat_step ops (svc_instance svc) hard) [0..<unat search_max] (None, f_neg_inf ops))"

definition mask_bound :: "u32 \<Rightarrow> u64" where
  "mask_bound n = (if unat n < 64 then push_bit (unat n) 1 else - 1)"

definition solve_assignments ::
    "'f f64_ops \<Rightarrow> u64 option \<Rightarrow> solver_service \<Rightarrow> (service_result \<times> solver_service) option" where
  "solve_assignments ops limit svc =
     (let n = inst_num_vars (svc_instance svc);
          bound = mask_bound n;
          search_max = (case limit of None \<Rightarrow> bound | Some l \<Rightarrow> min l bound);
          hard = hard_clauses svc;
          cut = (limit \<noteq> None \<and> search_max < bound)
      in if inst_objective (svc_instance svc) = MaxSat then solve_maxsat ops search_max cut hard svc
         else case find_mask n hard (unat search_max) 0 of
           None \<Rightarrow> None
         | Some (Some code) \<Rightarrow>
             Some (\<lparr>res_status = SvcSat, res_assignment = Some (assignment_from_mask n (of_nat code))\<rparr>,
               record_assignments (saturating_add (of_nat code) 1) svc)
         | Some None \<Rightarrow>
             let svc' = record_assignments search_max svc
             in if cut then Some (\<lparr>res_status = SvcTimeout, res_assignment = None\<rparr>, svc')
                else Some (\<lparr>res_status = SvcUnsat, res_assignment = None\<rparr>, record_unsat_learning hard svc'))"

definition solve_with_budget ::
    "'f f64_ops \<Rightarrow> service_budget \<Rightarrow> solver_service \<Rightarrow> (service_result \<times> solver_service) option" where
  "solve_with_budget ops budget svc =
     (case budget of
        NoSearch \<Rightarrow> Some (\<lparr>res_status = SvcUnknown, res_assignment = None\<rparr>, svc)
      | AssignmentLimit l \<Rightarrow>
          if l = 0 then Some (\<lparr>res_status = SvcTimeout, res_assignment = None\<rparr>, svc)
          else solve_assignments ops (Some l) svc
      | Exhaustive \<Rightarrow> solve_assignments ops None svc)"

definition solve_service :: "'f f64_ops \<Rightarrow> solver_service \<Rightarrow> (service_result \<times> solver_service) option" where
  "solve_service ops svc = solve_with_budget ops Exhaustive svc"

section \<open>Masks name all assignments\<close>

lemma assignment_length [simp]: "length (assignment_from_mask n code) = unat n"
  by (simp add: assignment_from_mask_def)

lemma assignment_nth:
  assumes "unat n < 64" and "v < unat n"
  shows "assignment_from_mask n code ! v = bit code v"
proof -
  have "(code AND push_bit v 1 \<noteq> 0) = bit code v"
    by (simp add: push_bit_eq_mult and_exp_eq_0_iff_not_bit)
  then show ?thesis using assms by (simp add: assignment_from_mask_def)
qed

lemma every_assignment_masked:
  assumes "unat n < 64" and "length a = unat n"
  shows "\<exists>k < 2 ^ unat n. assignment_from_mask n (of_nat k) = a"
proof -
  define k :: nat where "k = horner_sum of_bool 2 a"
  have "k < 2 ^ unat n" using horner_sum_of_bool_2_less [of a] by (simp add: k_def assms(2))
  moreover have "assignment_from_mask n (of_nat k) = a"
  proof (rule nth_equalityI)
    fix v assume "v < length (assignment_from_mask n (of_nat k))"
    then have v: "v < unat n" by simp
    have "bit (of_nat k :: u64) v = bit k v" using v assms(1) by (simp add: bit_simps)
    also have "\<dots> = a ! v" using v assms(2) by (simp add: k_def bit_horner_sum_bit_iff)
    finally show "assignment_from_mask n (of_nat k) ! v = a ! v" using v assms(1) by (simp add: assignment_nth)
  qed (simp add: assms(2))
  ultimately show ?thesis by blast
qed

lemma mask_bound_unat:
  assumes "unat n < 64"
  shows "unat (mask_bound n) = 2 ^ unat n"
proof -
  have "(2 :: nat) ^ unat n < 2 ^ 64" by (rule power_strict_increasing) (use assms in simp_all)
  then have "take_bit 64 (push_bit (unat n) (1 :: nat)) = 2 ^ unat n"
    using assms by (simp add: push_bit_eq_mult take_bit_nat_eq_self)
  then show ?thesis
    unfolding mask_bound_def if_P [OF assms] unsigned_push_bit_eq unsigned_1 by simp
qed

section \<open>The invariant of a service\<close>

text \<open>What an assignment must satisfy: the clauses unless they are soft, and the assumptions.\<close>

definition hard_part :: "solve_instance \<Rightarrow> sat_clause list" where
  "hard_part inst = (if inst_objective inst = MaxSat then [] else inst_clauses inst)"

definition satisfies_service :: "solver_service \<Rightarrow> bool list \<Rightarrow> bool" where
  "satisfies_service svc a =
     ((\<forall>c \<in> set (hard_part (svc_instance svc)). clause_holds a c)
      \<and> (\<forall>l \<in> set (active_assumptions svc). lit_holds a l))"

text \<open>A learned clause follows from the clauses and the assumptions of its scope.\<close>

definition learned_ok :: "solve_instance \<Rightarrow> scoped_clause \<Rightarrow> bool" where
  "learned_ok inst sc =
     (clause_in_range (unat (inst_num_vars inst)) (sc_clause sc)
      \<and> (\<forall>a. length a = unat (inst_num_vars inst) \<longrightarrow> (\<forall>c \<in> set (hard_part inst). clause_holds a c)
           \<longrightarrow> (\<forall>l \<in> set (sc_scope sc). lit_holds a l) \<longrightarrow> clause_holds a (sc_clause sc)))"

definition service_ok :: "solver_service \<Rightarrow> bool" where
  "service_ok svc =
     (unat (inst_num_vars (svc_instance svc)) < 64 \<and> validate_instance (svc_instance svc)
      \<and> (\<forall>l \<in> set (active_assumptions svc). lit_var l < inst_num_vars (svc_instance svc))
      \<and> (\<forall>sc \<in> set (svc_learned svc). learned_ok (svc_instance svc) sc))"

lemma clause_holds_unit [simp]: "clause_holds a (unit_clause l) = lit_holds a l"
  by (simp add: clause_holds_def unit_clause_def)

lemma hard_clauses_in_range:
  assumes "service_ok svc" and "c \<in> set (hard_clauses svc)"
  shows "clause_in_range (unat (inst_num_vars (svc_instance svc))) c"
proof -
  consider "c \<in> set (inst_clauses (svc_instance svc))"
    | l where "l \<in> set (active_assumptions svc)" "c = unit_clause l"
    | sc where "sc \<in> set (svc_learned svc)" "c = sc_clause sc"
    using assms(2) unfolding hard_clauses_def by (auto split: if_splits)
  then show ?thesis
  proof cases
    case 1
    then show ?thesis using assms(1) by (simp add: service_ok_def validate_in_range)
  next
    case 2
    then show ?thesis
      using assms(1) by (auto simp: service_ok_def clause_in_range_def unit_clause_def word_less_nat_alt)
  next
    case 3
    then show ?thesis using assms(1) by (simp add: service_ok_def learned_ok_def)
  qed
qed

lemma hard_clauses_meaning:
  assumes "service_ok svc" and "length a = unat (inst_num_vars (svc_instance svc))"
  shows "(\<forall>c \<in> set (hard_clauses svc). clause_holds a c) \<longleftrightarrow> satisfies_service svc a"
proof -
  have learned: "clause_holds a (sc_clause sc)"
    if "satisfies_service svc a" "sc \<in> set (svc_learned svc)"
      "list_all (\<lambda>l. l \<in> set (active_assumptions svc)) (sc_scope sc)" for sc
  proof -
    have "learned_ok (svc_instance svc) sc" using assms(1) that(2) by (simp add: service_ok_def)
    then show ?thesis
      using that assms(2) by (auto simp: learned_ok_def satisfies_service_def list_all_iff)
  qed
  have "set (hard_clauses svc) = set (hard_part (svc_instance svc)) \<union> unit_clause ` set (active_assumptions svc)
      \<union> sc_clause ` {sc \<in> set (svc_learned svc). list_all (\<lambda>l. l \<in> set (active_assumptions svc)) (sc_scope sc)}"
    by (simp add: hard_clauses_def hard_part_def Un_assoc)
  then have "(\<forall>c \<in> set (hard_clauses svc). clause_holds a c) \<longleftrightarrow> satisfies_service svc a
      \<and> (\<forall>sc \<in> {sc \<in> set (svc_learned svc).
           list_all (\<lambda>l. l \<in> set (active_assumptions svc)) (sc_scope sc)}. clause_holds a (sc_clause sc))"
    by (simp only: ball_Un ball_simps clause_holds_unit satisfies_service_def conj_assoc)
  then show ?thesis using learned by blast
qed

lemma all_satisfied_hard:
  assumes "service_ok svc" and "length a = unat (inst_num_vars (svc_instance svc))"
  shows "all_satisfied (hard_clauses svc) a = Some (satisfies_service svc a)"
proof -
  have "all_satisfied (hard_clauses svc) a = Some (\<forall>c \<in> set (hard_clauses svc). clause_holds a c)"
    unfolding all_satisfied_def
    by (rule all_opt_total) (use hard_clauses_in_range [OF assms(1)] assms(2) in \<open>simp add: clause_satisfied_in_range\<close>)
  then show ?thesis using hard_clauses_meaning [OF assms] by simp
qed

lemma find_mask_ok:
  assumes "service_ok svc" and n: "n = inst_num_vars (svc_instance svc)"
  shows "case find_mask n (hard_clauses svc) left m of
      None \<Rightarrow> False
    | Some (Some k) \<Rightarrow> m \<le> k \<and> k < m + left \<and> satisfies_service svc (assignment_from_mask n (of_nat k))
    | Some None \<Rightarrow> \<forall>k. m \<le> k \<longrightarrow> k < m + left \<longrightarrow> \<not> satisfies_service svc (assignment_from_mask n (of_nat k))"
proof (induction left arbitrary: m)
  case (Suc left)
  let ?a = "assignment_from_mask n (of_nat m)"
  have a: "all_satisfied (hard_clauses svc) ?a = Some (satisfies_service svc ?a)"
    by (rule all_satisfied_hard [OF assms(1)]) (simp add: n)
  show ?case
  proof (cases "satisfies_service svc ?a")
    case True
    then show ?thesis by (simp add: a)
  next
    case False
    then have step: "find_mask n (hard_clauses svc) (Suc left) m = find_mask n (hard_clauses svc) left (m + 1)"
      by (simp add: a)
    show ?thesis
    proof (cases "find_mask n (hard_clauses svc) left (m + 1)")
      case None
      then show ?thesis using Suc.IH [of "m + 1"] by simp
    next
      case (Some r)
      have "\<not> satisfies_service svc (assignment_from_mask n (of_nat k))"
        if "\<forall>k. m + 1 \<le> k \<longrightarrow> k < m + 1 + left \<longrightarrow> \<not> satisfies_service svc (assignment_from_mask n (of_nat k))"
          "m \<le> k" "k < m + Suc left" for k
        using that False by (cases "k = m") auto
      then show ?thesis using Suc.IH [of "m + 1"] Some step by (cases r) auto
    qed
  qed
qed simp

section \<open>Every operation keeps the invariant\<close>

lemma map_filter_id_set: "x \<in> set (List.map_filter id xs) \<longleftrightarrow> Some x \<in> set xs"
  by (induction xs) (auto simp: List.map_filter_simps split: option.splits)

lemma active_assumptions_iff: "l \<in> set (active_assumptions svc) \<longleftrightarrow> Some l \<in> set (svc_assumptions svc)"
  by (simp add: active_assumptions_def map_filter_id_set)

lemma service_ok_cong:
  assumes "svc_instance svc' = svc_instance svc" and "svc_learned svc' = svc_learned svc"
    and "set (active_assumptions svc') \<subseteq> set (active_assumptions svc)" and "service_ok svc"
  shows "service_ok svc'"
  using assms by (auto simp: service_ok_def)

lemma assume_ok:
  assumes "service_ok svc" and "lit_var l < inst_num_vars (svc_instance svc)"
  shows "service_ok (snd (assume_literal l svc))"
  using assms by (auto simp: service_ok_def assume_literal_def active_assumptions_iff)

lemma retract_ok:
  assumes "service_ok svc"
  shows "service_ok (snd (retract_assumption token svc))"
  using assms
  by (auto simp: retract_assumption_def get_def active_assumptions_iff split: option.splits
      elim!: service_ok_cong [rotated 3] dest!: subsetD [OF set_update_subset_insert])

lemma transfer_ok:
  assumes "service_ok src" and "service_ok target" and "svc_instance src = svc_instance target"
  shows "service_ok (snd (transfer_learned src target))"
  using assms by (auto simp: service_ok_def transfer_learned_def active_assumptions_def Let_def)

lemma record_ok [simp]:
  "service_ok (record_assignments n svc) = service_ok svc"
  "service_ok (record_maxsat n svc) = service_ok svc"
  "hard_clauses (record_assignments n svc) = hard_clauses svc"
  "satisfies_service (record_assignments n svc) = satisfies_service svc"
  "svc_instance (record_assignments n svc) = svc_instance svc"
  by (simp_all add: service_ok_def record_assignments_def record_maxsat_def active_assumptions_def
      hard_clauses_def satisfies_service_def fun_eq_iff)

lemma learning_ok:
  assumes "service_ok svc"
    and "\<forall>a. length a = unat (inst_num_vars (svc_instance svc)) \<longrightarrow> \<not> satisfies_service svc a"
  shows "service_ok (record_unsat_learning hard svc)"
proof (cases "svc_learned svc = [] \<and> hard \<noteq> []")
  case True
  have "learned_ok (svc_instance svc) \<lparr>sc_clause = \<lparr>literals = []\<rparr>, sc_scope = active_assumptions svc\<rparr>"
    using assms(2) by (auto simp: learned_ok_def satisfies_service_def clause_in_range_def)
  then show ?thesis
    using assms(1) True by (simp add: record_unsat_learning_def service_ok_def active_assumptions_def)
next
  case False
  then show ?thesis using assms(1) by (auto simp: record_unsat_learning_def)
qed

section \<open>Satisfiability answers\<close>

definition answer_ok :: "service_budget \<Rightarrow> solver_service \<Rightarrow> service_result \<Rightarrow> bool" where
  "answer_ok budget svc res =
     (let n = unat (inst_num_vars (svc_instance svc)) in
      case res_status res of
        SvcSat \<Rightarrow> (\<exists>a. res_assignment res = Some a \<and> length a = n \<and> satisfies_service svc a)
      | SvcUnsat \<Rightarrow> res_assignment res = None \<and> (\<forall>a. length a = n \<longrightarrow> \<not> satisfies_service svc a)
      | SvcUnknown \<Rightarrow> budget = NoSearch
      | SvcTimeout \<Rightarrow> (\<exists>l. budget = AssignmentLimit l \<and> unat l < 2 ^ n
           \<and> (\<forall>k < unat l. \<not> satisfies_service svc
                (assignment_from_mask (inst_num_vars (svc_instance svc)) (of_nat k))))
      | SvcOptimal _ \<Rightarrow> False)"

lemma solve_assignments_ok:
  assumes ok: "service_ok svc" and sat: "inst_objective (svc_instance svc) \<noteq> MaxSat"
    and budget: "budget = (case limit of None \<Rightarrow> Exhaustive | Some l \<Rightarrow> AssignmentLimit l)"
  shows "\<exists>res svc'. solve_assignments ops limit svc = Some (res, svc') \<and> service_ok svc'
    \<and> svc_instance svc' = svc_instance svc \<and> answer_ok budget svc res"
proof -
  let ?n = "inst_num_vars (svc_instance svc)" and ?hard = "hard_clauses svc"
  define top where "top = (case limit of None \<Rightarrow> mask_bound ?n | Some l \<Rightarrow> min l (mask_bound ?n))"
  define cut where "cut = (limit \<noteq> None \<and> top < mask_bound ?n)"
  have n: "unat ?n < 64" using ok by (simp add: service_ok_def)
  note bound = mask_bound_unat [OF n]
  note f = find_mask_ok [OF ok refl, where left = "unat top" and m = 0]
  have run: "solve_assignments ops limit svc =
      (case find_mask ?n ?hard (unat top) 0 of
           None \<Rightarrow> None
         | Some (Some m) \<Rightarrow>
             Some (\<lparr>res_status = SvcSat, res_assignment = Some (assignment_from_mask ?n (of_nat m))\<rparr>,
               record_assignments (saturating_add (of_nat m) 1) svc)
         | Some None \<Rightarrow>
             let svc' = record_assignments top svc
             in if cut then Some (\<lparr>res_status = SvcTimeout, res_assignment = None\<rparr>, svc')
                else Some (\<lparr>res_status = SvcUnsat, res_assignment = None\<rparr>, record_unsat_learning ?hard svc'))"
    unfolding solve_assignments_def Let_def if_not_P [OF sat] cut_def top_def by (rule refl)
  show ?thesis
  proof (cases "find_mask ?n ?hard (unat top) 0")
    case None
    then show ?thesis using f unfolding None by simp
  next
    case (Some r)
    show ?thesis
    proof (cases r)
      case (Some m)
      then have "satisfies_service svc (assignment_from_mask ?n (of_nat m))"
        using f \<open>find_mask ?n ?hard (unat top) 0 = Some r\<close> by simp
      then show ?thesis
        using run \<open>find_mask ?n ?hard (unat top) 0 = Some r\<close> Some ok by (simp add: answer_ok_def)
    next
      case None
      then have none: "\<not> satisfies_service svc (assignment_from_mask ?n (of_nat k))" if "k < unat top" for k
        using f \<open>find_mask ?n ?hard (unat top) 0 = Some r\<close> that by simp
      show ?thesis
      proof (cases cut)
        case True
        then obtain l where l: "limit = Some l" "top = l" "l < mask_bound ?n"
          by (cases limit) (auto simp: cut_def top_def min_def split: if_splits)
        then have "answer_ok budget svc \<lparr>res_status = SvcTimeout, res_assignment = None\<rparr>"
          using none bound budget by (auto simp: answer_ok_def word_less_nat_alt)
        then show ?thesis
          using run \<open>find_mask ?n ?hard (unat top) 0 = Some r\<close> None True ok by (simp add: Let_def)
      next
        case False
        then have "top = mask_bound ?n"
          by (cases limit) (auto simp: cut_def top_def min_def split: if_splits)
        then have unsat: "\<not> satisfies_service svc a" if "length a = unat ?n" for a
          using every_assignment_masked [OF n that] none bound by metis
        have "service_ok (record_unsat_learning ?hard (record_assignments top svc))"
          by (rule learning_ok) (use ok unsat in simp_all)
        then show ?thesis
          using run \<open>find_mask ?n ?hard (unat top) 0 = Some r\<close> None False unsat
          by (simp add: Let_def answer_ok_def) (simp add: record_unsat_learning_def record_assignments_def)
      qed
    qed
  qed
qed

lemma solve_with_budget_ok:
  assumes "service_ok svc" and "inst_objective (svc_instance svc) \<noteq> MaxSat"
  shows "\<exists>res svc'. solve_with_budget ops budget svc = Some (res, svc') \<and> service_ok svc'
    \<and> svc_instance svc' = svc_instance svc \<and> answer_ok budget svc res"
proof (cases budget)
  case NoSearch
  then show ?thesis using assms(1) by (simp add: solve_with_budget_def answer_ok_def)
next
  case (AssignmentLimit l)
  show ?thesis
  proof (cases "l = 0")
    case True
    then show ?thesis using assms(1) AssignmentLimit by (simp add: solve_with_budget_def answer_ok_def)
  next
    case False
    then show ?thesis
      using solve_assignments_ok [OF assms, of budget "Some l" ops] AssignmentLimit
      by (simp add: solve_with_budget_def)
  qed
next
  case Exhaustive
  then show ?thesis
    using solve_assignments_ok [OF assms, of budget None ops] by (simp add: solve_with_budget_def)
qed

section \<open>MaxSAT answers\<close>

definition scores_comparable :: "'f f64_ops \<Rightarrow> solve_instance \<Rightarrow> bool" where
  "scores_comparable ops inst =
     (transp (f_gt ops) \<and> irreflp (f_gt ops)
      \<and> (\<forall>a. length a = unat (inst_num_vars inst) \<longrightarrow>
           (\<exists>s. weighted_satisfaction ops inst a = Some s \<and> f_gt ops s (f_neg_inf ops))))"

text \<open>The best assignment of the masks below \<open>k\<close>.\<close>

definition best_ok :: "'f f64_ops \<Rightarrow> solver_service \<Rightarrow> nat \<Rightarrow> 'f best \<Rightarrow> bool" where
  "best_ok ops svc k = (\<lambda>(best, score).
     let n = inst_num_vars (svc_instance svc) in
     case best of
       None \<Rightarrow> score = f_neg_inf ops \<and> (\<forall>m < k. \<not> satisfies_service svc (assignment_from_mask n (of_nat m)))
     | Some a \<Rightarrow> length a = unat n \<and> satisfies_service svc a
         \<and> weighted_satisfaction ops (svc_instance svc) a = Some score
         \<and> (\<forall>m < k. \<forall>t. satisfies_service svc (assignment_from_mask n (of_nat m)) \<longrightarrow>
              weighted_satisfaction ops (svc_instance svc) (assignment_from_mask n (of_nat m)) = Some t \<longrightarrow>
              \<not> f_gt ops t score))"

lemma maxsat_step_ok:
  assumes ok: "service_ok svc" and cmp: "scores_comparable ops (svc_instance svc)" and best: "best_ok ops svc k st"
  shows "\<exists>st'. maxsat_step ops (svc_instance svc) (hard_clauses svc) k st = Some st' \<and> best_ok ops svc (Suc k) st'"
proof -
  obtain b sc where st: "st = (b, sc)" by (cases st)
  let ?n = "inst_num_vars (svc_instance svc)"
  let ?a = "assignment_from_mask ?n (of_nat k)"
  have sat: "all_satisfied (hard_clauses svc) ?a = Some (satisfies_service svc ?a)"
    by (rule all_satisfied_hard [OF ok]) simp
  have trans: "f_gt ops x y \<Longrightarrow> f_gt ops y z \<Longrightarrow> f_gt ops x z" and irr: "\<not> f_gt ops x x" for x y z
    using cmp by (auto simp: scores_comparable_def dest: transpD irreflpD)
  obtain s where s: "weighted_satisfaction ops (svc_instance svc) ?a = Some s" "f_gt ops s (f_neg_inf ops)"
  proof -
    have "length ?a = unat ?n" by simp
    then show ?thesis using cmp that unfolding scores_comparable_def by blast
  qed
  show ?thesis
  proof (cases "satisfies_service svc ?a")
    case False
    then have "best_ok ops svc (Suc k) st"
      using best by (auto simp: best_ok_def st Let_def less_Suc_eq split: option.splits)
    then show ?thesis using False by (simp add: maxsat_step_def st sat Let_def)
  next
    case True
    have step: "maxsat_step ops (svc_instance svc) (hard_clauses svc) k st
        = Some (if f_gt ops s sc then (Some ?a, s) else (b, sc))"
      using True by (simp add: maxsat_step_def st sat s Let_def)
    have "best_ok ops svc (Suc k) (if f_gt ops s sc then (Some ?a, s) else (b, sc))"
    proof (cases "f_gt ops s sc")
      case gt: True
      have "\<not> f_gt ops t s" if a: "m < Suc k" "satisfies_service svc (assignment_from_mask ?n (of_nat m))"
        "weighted_satisfaction ops (svc_instance svc) (assignment_from_mask ?n (of_nat m)) = Some t" for m t
      proof (cases "m = k")
        case True
        then show ?thesis using a(3) s irr by simp
      next
        case False
        then have "m < k" using a(1) by simp
        then obtain c where "b = Some c" using best a(2) by (auto simp: best_ok_def st Let_def split: option.splits)
        then have "\<not> f_gt ops t sc" using best \<open>m < k\<close> a(2,3) by (simp add: best_ok_def st Let_def)
        then show ?thesis using trans gt by blast
      qed
      then show ?thesis using gt True s by (simp add: best_ok_def Let_def)
    next
      case False
      then obtain a where b: "b = Some a" using best s by (cases b) (auto simp: best_ok_def st Let_def)
      then show ?thesis using False best s by (auto simp: best_ok_def st Let_def less_Suc_eq)
    qed
    then show ?thesis using step by blast
  qed
qed

lemma maxsat_loop_ok:
  assumes "service_ok svc" and "scores_comparable ops (svc_instance svc)"
  shows "\<exists>st. fold_option (maxsat_step ops (svc_instance svc) (hard_clauses svc)) [0..<k] (None, f_neg_inf ops)
    = Some st \<and> best_ok ops svc k st"
proof (induction k)
  case 0
  then show ?case by (simp add: best_ok_def)
next
  case (Suc k)
  then obtain st where st: "fold_option (maxsat_step ops (svc_instance svc) (hard_clauses svc)) [0..<k]
      (None, f_neg_inf ops) = Some st" "best_ok ops svc k st" by blast
  obtain st' where "maxsat_step ops (svc_instance svc) (hard_clauses svc) k st = Some st'"
    "best_ok ops svc (Suc k) st'" using maxsat_step_ok [OF assms st(2)] by blast
  then show ?case using st(1) by (simp add: fold_option_append)
qed

definition optimum_ok :: "'f f64_ops \<Rightarrow> solver_service \<Rightarrow> service_result \<Rightarrow> bool" where
  "optimum_ok ops svc res =
     (let inst = svc_instance svc; n = unat (inst_num_vars inst) in
      case res_status res of
        SvcOptimal v \<Rightarrow> \<exists>a s. res_assignment res = Some a \<and> length a = n \<and> satisfies_service svc a
          \<and> weighted_satisfaction ops inst a = Some s \<and> v = f_to_u64 ops s
          \<and> (\<forall>b t. length b = n \<longrightarrow> satisfies_service svc b \<longrightarrow>
               weighted_satisfaction ops inst b = Some t \<longrightarrow> \<not> f_gt ops t s)
      | SvcUnsat \<Rightarrow> \<forall>a. length a = n \<longrightarrow> \<not> satisfies_service svc a
      | _ \<Rightarrow> False)"

lemma solve_maxsat_ok:
  assumes ok: "service_ok svc" and max: "inst_objective (svc_instance svc) = MaxSat"
    and cmp: "scores_comparable ops (svc_instance svc)"
  shows "\<exists>res svc'. solve_service ops svc = Some (res, svc') \<and> optimum_ok ops svc res"
proof -
  let ?n = "inst_num_vars (svc_instance svc)"
  have n: "unat ?n < 64" using ok by (simp add: service_ok_def)
  obtain b sc where run: "fold_option (maxsat_step ops (svc_instance svc) (hard_clauses svc))
      [0..<unat (mask_bound ?n)] (None, f_neg_inf ops) = Some (b, sc)"
    and best: "best_ok ops svc (2 ^ unat ?n) (b, sc)"
    using maxsat_loop_ok [OF ok cmp, of "2 ^ unat ?n"] unfolding mask_bound_unat [OF n] by auto
  have solve: "solve_service ops svc = Some
      (case b of Some a \<Rightarrow> \<lparr>res_status = SvcOptimal (f_to_u64 ops sc), res_assignment = Some a\<rparr>
       | None \<Rightarrow> \<lparr>res_status = SvcUnsat, res_assignment = None\<rparr>, record_maxsat (mask_bound ?n) svc)"
    using max by (simp add: solve_service_def solve_with_budget_def solve_assignments_def solve_maxsat_def run Let_def)
  have masked: "\<exists>k < 2 ^ unat ?n. assignment_from_mask ?n (of_nat k) = a" if "length a = unat ?n" for a
    by (rule every_assignment_masked [OF n that])
  show ?thesis
  proof (cases b)
    case None
    then have "\<not> satisfies_service svc a" if "length a = unat ?n" for a
      using masked [OF that] best by (auto simp: best_ok_def Let_def)
    then show ?thesis using solve None by (simp add: optimum_ok_def)
  next
    case (Some a)
    have "\<not> f_gt ops t sc" if "length c = unat ?n" "satisfies_service svc c"
      "weighted_satisfaction ops (svc_instance svc) c = Some t" for c t
      using masked [OF that(1)] best that(2,3) by (auto simp: best_ok_def Let_def Some)
    then show ?thesis using solve Some best by (auto simp: optimum_ok_def best_ok_def Let_def)
  qed
qed

lemma maxsat_state:
  assumes "solve_with_budget ops budget svc = Some (res, svc')" and "inst_objective (svc_instance svc) = MaxSat"
  shows "svc' = svc \<or> (\<exists>n. svc' = record_maxsat n svc)"
  using assms
  by (auto simp: solve_with_budget_def solve_assignments_def solve_maxsat_def Let_def
      split: service_budget.splits if_splits)

section \<open>Sequences of operations\<close>

text \<open>The services over one instance that any sequence of operations can produce.\<close>

inductive service_reachable :: "'f f64_ops \<Rightarrow> solve_instance \<Rightarrow> solver_service \<Rightarrow> bool" for ops inst where
  reach_new: "service_reachable ops inst (new_service inst)"
| reach_assume: "service_reachable ops inst svc \<Longrightarrow> lit_var l < inst_num_vars inst \<Longrightarrow>
    service_reachable ops inst (snd (assume_literal l svc))"
| reach_retract: "service_reachable ops inst svc \<Longrightarrow>
    service_reachable ops inst (snd (retract_assumption token svc))"
| reach_solve: "service_reachable ops inst svc \<Longrightarrow>
    solve_with_budget ops budget svc = Some (res, svc') \<Longrightarrow> service_reachable ops inst svc'"
| reach_transfer: "service_reachable ops inst src \<Longrightarrow> service_reachable ops inst target \<Longrightarrow>
    service_reachable ops inst (snd (transfer_learned src target))"

inductive_cases service_reachableE: "service_reachable ops inst svc"

lemma reachable_ok:
  assumes "service_reachable ops inst svc" and "validate_instance inst" and "unat (inst_num_vars inst) < 64"
  shows "service_ok svc \<and> svc_instance svc = inst"
  using assms
proof (induction rule: service_reachable.induct)
  case reach_new
  then show ?case by (simp add: new_service_def service_ok_def active_assumptions_def List.map_filter_simps)
next
  case (reach_assume svc l)
  then show ?case using assume_ok [of svc l] by (simp add: assume_literal_def)
next
  case (reach_retract svc token)
  then show ?case using retract_ok [of svc token]
    by (simp add: retract_assumption_def split: option.splits)
next
  case (reach_solve svc budget res svc')
  then have ok: "service_ok svc" "svc_instance svc = inst" by simp_all
  show ?case
  proof (cases "inst_objective inst = MaxSat")
    case True
    then show ?thesis using maxsat_state [OF reach_solve.hyps(2)] ok by (auto simp: record_maxsat_def)
      (simp_all add: service_ok_def active_assumptions_def)
  next
    case False
    then show ?thesis using solve_with_budget_ok [of svc ops budget] ok reach_solve.hyps(2) by auto
  qed
next
  case (reach_transfer src target)
  then show ?case using transfer_ok [of src target] by (simp add: transfer_learned_def Let_def)
qed


text \<open>Integer scores, to run the examples.\<close>

definition int_ops :: "int f64_ops" where
  "int_ops = \<lparr>f_zero = 0, f_add = (+), f_gt = (>), f_neg_inf = - 1, f_of_nat = int, f_of_bits = uint,
     f_to_u64 = of_int\<rparr>"





text \<open>C32: The MaxSAT search returns an optimum: when all scores are comparable numbers, an exhaustive
  solve of a service over a MaxSAT instance returns an assignment of maximal score among those that
  satisfy the active assumptions, with its score, or reports that the assumptions contradict each
  other.\<close>

theorem maxsat_optimum:
  assumes "service_reachable ops inst svc" and "validate_instance inst"
    and "unat (inst_num_vars inst) < 64" and "inst_objective inst = MaxSat" and "scores_comparable ops inst"
  shows "\<exists>res svc'. solve_service ops svc = Some (res, svc') \<and> optimum_ok ops svc res"
proof -
  have "service_ok svc" "svc_instance svc = inst" using reachable_ok [OF assms(1-3)] by blast+
  then show ?thesis using solve_maxsat_ok [of svc ops] assms(4,5) by simp
qed

definition max_instance :: solve_instance where
  "max_instance = (new_instance 2
     [\<lparr>literals = [lit_positive 0]\<rparr>, \<lparr>literals = [lit_negative 0]\<rparr>, \<lparr>literals = [lit_positive 1]\<rparr>])
     \<lparr>inst_objective := MaxSat\<rparr>"

lemma max_comparable: "scores_comparable int_ops max_instance"
  unfolding scores_comparable_def
proof (intro conjI allI impI)
  show "transp (f_gt int_ops)" by (auto simp: int_ops_def intro: transpI)
  show "irreflp (f_gt int_ops)" by (auto simp: int_ops_def intro: irreflpI)
  fix a :: "bool list" assume "length a = unat (inst_num_vars max_instance)"
  then have a: "length a = 2" by (simp add: max_instance_def new_instance_def)
  have "\<forall>c \<in> set (inst_clauses max_instance). clause_satisfied a c = Some (clause_holds a c)"
    using a by (simp add: max_instance_def new_instance_def clause_satisfied_in_range clause_in_range_def
        lit_positive_def lit_negative_def)
  then have "count_satisfied a max_instance = Some (length (filter (clause_holds a) (inst_clauses max_instance)))"
    unfolding count_satisfied_def by (rule count_opt_total)
  then show "\<exists>s. weighted_satisfaction int_ops max_instance a = Some s \<and> f_gt int_ops s (f_neg_inf int_ops)"
    by (simp add: weighted_satisfaction_def max_instance_def new_instance_def int_ops_def)
qed

theorem maxsat_optimum_witness:
  "\<exists>res svc'. solve_service int_ops (new_service max_instance) = Some (res, svc')
    \<and> optimum_ok int_ops (new_service max_instance) res"
  by (rule maxsat_optimum [OF reach_new _ _ _ max_comparable]) code_simp+

section \<open>Limits of the service\<close>

text \<open>
  Learned clauses are transferred with the assumptions they depend on, not with the instance. A
  service that found its instance unsatisfiable makes any other service it transfers to answer Unsat,
  here one over an instance without clauses.\<close>

definition unsat_instance :: solve_instance where
  "unsat_instance = new_instance 1 [unit_clause (lit_positive 0), unit_clause (lit_negative 0)]"

definition poisoned_service :: solver_service where
  "poisoned_service =
     snd (transfer_learned (snd (the (solve_service int_ops (new_service unsat_instance))))
       (new_service (new_instance 1 [])))"

lemma transfer_between_instances:
  "map_option (\<lambda>(res, _). res_status res) (solve_service int_ops poisoned_service) = Some SvcUnsat"
  by code_simp

text \<open>With 64 variables the number of masks does not fit and \<open>mask_bound\<close> is one too small: the last
  assignment is never inspected.\<close>

lemma last_assignment_not_inspected: "uint (mask_bound 64) = 2 ^ 64 - 1"
  by code_simp

end
