(* ===== verification/Solve_Proof.thy ===== *)
theory Solve_Proof
  imports Xlog_Prelude
begin

unbundle bit_operations_syntax

text \<open>
  Proof artifacts and results of the solver (\<open>xlog-solve/src/proof.rs\<close>). The checksum of an
  assignment is an FNV-1a hash over words that combine the position and the value; each of its steps
  is injective, so it detects every single flipped value. The ratios in \<open>f64\<close> are not modelled.
\<close>

section \<open>The checksum\<close>

definition checksum_step :: "u64 \<Rightarrow> nat \<times> bool \<Rightarrow> u64" where
  "checksum_step hash = (\<lambda>(i, val).
     (hash XOR (push_bit 32 (of_nat i) OR (if val then 1 else 0))) * 0x100000001b3)"

definition compute_checksum :: "bool list \<Rightarrow> u64" where
  "compute_checksum assignment = foldl checksum_step 0xcbf29ce484222325 (indexed assignment)"

section \<open>Proofs\<close>

datatype solve_proof =
    SatisfyingProof "bool list" u64
  | UnsatisfiableProof u64
  | ApproximateProof "bool list" u32 u32 u32
  | NoProof

definition satisfying_proof :: "bool list \<Rightarrow> solve_proof" where
  "satisfying_proof assignment = SatisfyingProof assignment (compute_checksum assignment)"

definition unsatisfiable_proof :: solve_proof where
  "unsatisfiable_proof = UnsatisfiableProof (compute_checksum [] * 0xDEADBEEFCAFEBABE)"

definition is_satisfying :: "solve_proof \<Rightarrow> bool" where
  "is_satisfying p = (case p of SatisfyingProof _ _ \<Rightarrow> True | _ \<Rightarrow> False)"

definition proof_assignment :: "solve_proof \<Rightarrow> bool list option" where
  "proof_assignment p =
     (case p of SatisfyingProof a _ \<Rightarrow> Some a | ApproximateProof a _ _ _ \<Rightarrow> Some a | _ \<Rightarrow> None)"

definition proof_checksum :: "solve_proof \<Rightarrow> u64 option" where
  "proof_checksum p =
     (case p of SatisfyingProof _ c \<Rightarrow> Some c | UnsatisfiableProof c \<Rightarrow> Some c | _ \<Rightarrow> None)"

definition verify_checksum :: "solve_proof \<Rightarrow> bool option" where
  "verify_checksum p =
     (case p of SatisfyingProof a c \<Rightarrow> Some (compute_checksum a = c) | _ \<Rightarrow> None)"

section \<open>Results\<close>

datatype solve_status = StatusSat | StatusUnsat | StatusUnknown | StatusOptimal u64

definition is_satisfiable :: "solve_status \<Rightarrow> bool" where
  "is_satisfiable s = (case s of StatusSat \<Rightarrow> True | StatusOptimal _ \<Rightarrow> True | _ \<Rightarrow> False)"

definition is_unsatisfiable :: "solve_status \<Rightarrow> bool" where
  "is_unsatisfiable s = (s = StatusUnsat)"

definition is_determined :: "solve_status \<Rightarrow> bool" where
  "is_determined s = (s \<noteq> StatusUnknown)"

definition optimal_value :: "solve_status \<Rightarrow> u64 option" where
  "optimal_value s = (case s of StatusOptimal v \<Rightarrow> Some v | _ \<Rightarrow> None)"

record solve_stats =
  stat_iterations :: u32
  stat_duration_us :: u64
  stat_peak_memory :: u64

definition default_stats :: solve_stats where
  "default_stats = \<lparr>stat_iterations = 0, stat_duration_us = 0, stat_peak_memory = 0\<rparr>"

definition duration_ms :: "solve_stats \<Rightarrow> u64" where
  "duration_ms st = stat_duration_us st div 1000"

record solve_result =
  result_status :: solve_status
  result_proof :: solve_proof
  result_stats :: solve_stats

definition satisfiable_result :: "bool list \<Rightarrow> solve_result" where
  "satisfiable_result a =
     \<lparr>result_status = StatusSat, result_proof = satisfying_proof a, result_stats = default_stats\<rparr>"

definition unsatisfiable_result :: solve_result where
  "unsatisfiable_result =
     \<lparr>result_status = StatusUnsat, result_proof = unsatisfiable_proof, result_stats = default_stats\<rparr>"

definition unknown_result :: "u32 \<Rightarrow> solve_result" where
  "unknown_result n =
     \<lparr>result_status = StatusUnknown, result_proof = NoProof,
      result_stats = default_stats\<lparr>stat_iterations := n\<rparr>\<rparr>"

definition optimal_result :: "bool list \<Rightarrow> u64 \<Rightarrow> solve_result" where
  "optimal_result a v =
     \<lparr>result_status = StatusOptimal v, result_proof = satisfying_proof a, result_stats = default_stats\<rparr>"

definition approximate_result :: "bool list \<Rightarrow> u32 \<Rightarrow> u32 \<Rightarrow> u32 \<Rightarrow> solve_result" where
  "approximate_result a satisfied clauses n =
     \<lparr>result_status = StatusUnknown, result_proof = ApproximateProof a satisfied clauses n,
      result_stats = default_stats\<lparr>stat_iterations := n\<rparr>\<rparr>"

definition result_assignment :: "solve_result \<Rightarrow> bool list option" where
  "result_assignment r = proof_assignment (result_proof r)"

section \<open>Every step of the checksum is injective\<close>

text \<open>The FNV prime is odd, so it has an inverse modulo \<open>2 ^ 64\<close>.\<close>

lemma fnv_prime_inverse: "(0x100000001b3 :: u64) * 14886173955864302971 = 1"
  by simp

lemma fnv_prime_cancel: "x * 0x100000001b3 = y * (0x100000001b3 :: u64) \<longleftrightarrow> x = y"
proof
  assume a: "x * 0x100000001b3 = y * (0x100000001b3 :: u64)"
  have "x = x * (0x100000001b3 * 14886173955864302971)" unfolding fnv_prime_inverse by (rule mult_1_right [symmetric])
  also have "\<dots> = y * (0x100000001b3 * 14886173955864302971)"
    unfolding mult.assoc [symmetric] a ..
  also have "\<dots> = y" unfolding fnv_prime_inverse by (rule mult_1_right)
  finally show "x = y" .
qed (rule arg_cong)

lemma xor_cancel_left: "h XOR x = h XOR (y :: u64) \<longleftrightarrow> x = y"
proof
  assume e: "h XOR x = h XOR y"
  have "x = h XOR (h XOR x)" by (simp only: xor.assoc [symmetric] xor_self_eq xor.left_neutral)
  also have "\<dots> = h XOR (h XOR y)" by (simp only: e)
  also have "\<dots> = y" by (simp only: xor.assoc [symmetric] xor_self_eq xor.left_neutral)
  finally show "x = y" .
qed simp

lemma xor_cancel_right: "x XOR h = y XOR (h :: u64) \<longleftrightarrow> x = y"
  unfolding xor.commute [of _ h] by (rule xor_cancel_left)

lemma checksum_step_state: "checksum_step h x = checksum_step h' x \<longleftrightarrow> h = h'"
  by (cases x) (simp only: checksum_step_def prod.case fnv_prime_cancel xor_cancel_right)

lemma checksum_step_value: "checksum_step h (i, v) = checksum_step h (i, v') \<longleftrightarrow> v = v'"
proof -
  have e: "bit (push_bit 32 (of_nat i) OR (if b then 1 else 0 :: u64)) 0 = b" for b
    by (cases b) (simp_all add: bit_or_iff bit_push_bit_iff del: push_bit_of_nat)
  have "(push_bit 32 (of_nat i) OR (if v then 1 else 0 :: u64))
      = (push_bit 32 (of_nat i) OR (if v' then 1 else 0)) \<longleftrightarrow> v = v'" (is "?x = ?y \<longleftrightarrow> _")
  proof
    assume "?x = ?y"
    then have "bit ?x 0 = bit ?y 0" by (rule arg_cong)
    then show "v = v'" by (simp only: e)
  qed simp
  then show ?thesis by (simp only: checksum_step_def prod.case fnv_prime_cancel xor_cancel_left)
qed

lemma checksum_fold_state: "foldl checksum_step h xs = foldl checksum_step h' xs \<longleftrightarrow> h = h'"
  by (induction xs arbitrary: h h') (simp_all add: checksum_step_state)

lemma indexed_append: "indexed (xs @ y # ys) =
    indexed xs @ (length xs, y) # zip [Suc (length xs)..<Suc (length xs) + length ys] ys"
proof -
  have "[0..<length (xs @ y # ys)] = [0..<length xs] @ [length xs..<Suc (length xs) + length ys]"
    by (metis add_Suc_right add_Suc length_Cons length_append upt_add_eq_append zero_le)
  also have "[length xs..<Suc (length xs) + length ys] = length xs # [Suc (length xs)..<Suc (length xs) + length ys]"
    by (rule upt_conv_Cons) simp
  finally show ?thesis by (simp add: indexed_def)
qed

lemma checksum_flip:
  assumes "i < length a"
  shows "compute_checksum (a[i := \<not> a ! i]) \<noteq> compute_checksum a"
proof -
  define xs ys where "xs = take i a" and "ys = drop (Suc i) a"
  have i: "length xs = i" using assms by (simp add: xs_def)
  have a: "a = xs @ a ! i # ys" using assms by (simp add: xs_def ys_def id_take_nth_drop)
  have a': "a[i := \<not> a ! i] = xs @ (\<not> a ! i) # ys"
    using assms by (simp add: xs_def ys_def upd_conv_take_nth_drop)
  have "compute_checksum (xs @ u # ys) = compute_checksum (xs @ v # ys) \<longleftrightarrow> u = v" for u v
    by (simp add: compute_checksum_def indexed_append checksum_fold_state checksum_step_value)
  then show ?thesis using a a' by metis
qed

text \<open>C31: The checksum of a satisfying proof detects every single corrupted value: the proof the
  solver builds verifies, and after any one value of its assignment is flipped it no longer does.\<close>

theorem checksum_detects_flip:
  assumes "i < length a"
  shows "verify_checksum (satisfying_proof a) = Some True
    \<and> verify_checksum (SatisfyingProof (a[i := \<not> a ! i]) (compute_checksum a)) = Some False"
  using checksum_flip [OF assms] by (simp add: verify_checksum_def satisfying_proof_def)

theorem checksum_detects_flip_witness:
  "verify_checksum (satisfying_proof [True, False, True]) = Some True
    \<and> verify_checksum (SatisfyingProof [True, True, True] (compute_checksum [True, False, True])) = Some False"
  using checksum_detects_flip [of 1 "[True, False, True]"] by simp

end
