(* ===== verification/Magic_Sets.thy ===== *)
theory Magic_Sets
  imports Ast
begin

text \<open>
  The magic-set rewriting of bound recursive queries (\<open>xlog-logic/src/magic_sets.rs\<close>), as the
  entry point without an allocation scope runs it: queries with constants seed a magic predicate,
  the adornments of the recursive calls are collected left to right until nothing new appears, and
  the rules of the queried predicates are guarded by the magic predicates. The custody and
  allocation accounting of the code is not modelled. A hash set or ordered set is a list; the texts
  under which the code looks up seeds and emitted rules are derived renderings of these values, so
  the model compares the values themselves. Messages are kept as the lists and names they show.
\<close>

section \<open>Terms and adornments\<close>

datatype adornment = Adornment (ad_pred: string) (ad_pattern: "bool list")

text \<open>The derived order of the struct: first the predicate, then the pattern.\<close>

instantiation adornment :: linorder
begin

definition less_eq_adornment :: "adornment \<Rightarrow> adornment \<Rightarrow> bool" where
  "a \<le> b \<longleftrightarrow> (ad_pred a, ad_pattern a) \<le> (ad_pred b, ad_pattern b)"

definition less_adornment :: "adornment \<Rightarrow> adornment \<Rightarrow> bool" where
  "a < b \<longleftrightarrow> (ad_pred a, ad_pattern a) < (ad_pred b, ad_pattern b)"

instance
proof
  fix a b c :: adornment
  show "a < b \<longleftrightarrow> a \<le> b \<and> \<not> b \<le> a"
    unfolding less_eq_adornment_def less_adornment_def by (rule less_le_not_le)
  show "a \<le> a" unfolding less_eq_adornment_def by (rule order_refl)
  show "a \<le> b \<Longrightarrow> b \<le> c \<Longrightarrow> a \<le> c" unfolding less_eq_adornment_def by (rule order_trans)
  show "a \<le> b \<or> b \<le> a" unfolding less_eq_adornment_def by (rule linear)
  assume "a \<le> b" and "b \<le> a"
  then have "(ad_pred a, ad_pattern a) = (ad_pred b, ad_pattern b)"
    unfolding less_eq_adornment_def by (rule antisym)
  then show "a = b" by (simp add: adornment.expand)
qed

end

record magic_seed =
  seed_pred :: string
  seed_pattern :: "bool list"
  seed_terms :: "ast_term list"

definition is_supported_magic_term :: "ast_term \<Rightarrow> bool" where
  "is_supported_magic_term t =
     (case t of Integer _ \<Rightarrow> True | Float _ \<Rightarrow> True | Str _ \<Rightarrow> True | Symbol _ \<Rightarrow> True | _ \<Rightarrow> False)"

definition is_seed_term :: "ast_term \<Rightarrow> bool" where
  "is_seed_term t = (is_supported_magic_term t \<and> \<not> is_any_variable t)"

fun term_is_bound :: "string list \<Rightarrow> ast_term \<Rightarrow> bool" where
  "term_is_bound bound (Variable name) = (name \<in> set bound)"
| "term_is_bound bound Anonymous = False"
| "term_is_bound bound (ListTerm items) = list_all (term_is_bound bound) items"
| "term_is_bound bound (ConsTerm h t) = (term_is_bound bound h \<and> term_is_bound bound t)"
| "term_is_bound bound (Compound _ args) = list_all (term_is_bound bound) args"
| "term_is_bound bound (Integer _) = True"
| "term_is_bound bound (Float _) = True"
| "term_is_bound bound (Str _) = True"
| "term_is_bound bound (Symbol _) = True"
| "term_is_bound bound (PredRef _) = True"
| "term_is_bound bound (Aggregate _) = False"

fun term_has_aggregate :: "ast_term \<Rightarrow> bool" where
  "term_has_aggregate (Aggregate _) = True"
| "term_has_aggregate (ListTerm items) = list_ex term_has_aggregate items"
| "term_has_aggregate (ConsTerm h t) = (term_has_aggregate h \<or> term_has_aggregate t)"
| "term_has_aggregate (Compound _ args) = list_ex term_has_aggregate args"
| "term_has_aggregate (Variable _) = False"
| "term_has_aggregate Anonymous = False"
| "term_has_aggregate (Integer _) = False"
| "term_has_aggregate (Float _) = False"
| "term_has_aggregate (Str _) = False"
| "term_has_aggregate (Symbol _) = False"
| "term_has_aggregate (PredRef _) = False"

definition atom_has_aggregate :: "atom \<Rightarrow> bool" where
  "atom_has_aggregate a = list_ex term_has_aggregate (terms a)"

definition body_literal_has_aggregate :: "body_literal \<Rightarrow> bool" where
  "body_literal_has_aggregate l =
     (case l of
        Positive a \<Rightarrow> atom_has_aggregate a
      | Negated a \<Rightarrow> atom_has_aggregate a
      | Epistemic lit \<Rightarrow> atom_has_aggregate (epi_atom lit)
      | Comparison c \<Rightarrow> term_has_aggregate (cmp_left c) \<or> term_has_aggregate (cmp_right c)
      | IsExpr _ \<Rightarrow> False
      | Univ u \<Rightarrow> term_has_aggregate (univ_term u) \<or> term_has_aggregate (univ_parts u))"

definition bound_terms :: "atom \<Rightarrow> bool list \<Rightarrow> ast_term list" where
  "bound_terms a pattern = map fst (filter snd (zip (terms a) pattern))"

definition head_bound_variables :: "atom \<Rightarrow> bool list \<Rightarrow> string list" where
  "head_bound_variables a pattern = concat (map term_variables (bound_terms a pattern))"

definition atom_adornment :: "atom \<Rightarrow> string list \<Rightarrow> bool list" where
  "atom_adornment a bound = map (term_is_bound bound) (terms a)"

definition adornment_key :: "bool list \<Rightarrow> string" where
  "adornment_key pattern = map (\<lambda>b. if b then CHR ''b'' else CHR ''f'') pattern"

definition magic_predicate :: "string \<Rightarrow> bool list \<Rightarrow> string" where
  "magic_predicate pred pattern = ''__xlog_magic_'' @ pred @ ''_'' @ adornment_key pattern"

definition magic_atom_for :: "atom \<Rightarrow> bool list \<Rightarrow> atom" where
  "magic_atom_for a pattern =
     \<lparr>predicate = magic_predicate (predicate a) pattern, terms = bound_terms a pattern\<rparr>"

section \<open>Recursive predicates\<close>

definition rules_for :: "rule list \<Rightarrow> string \<Rightarrow> rule list" where
  "rules_for rs p = filter (\<lambda>r. predicate (head r) = p) rs"

definition dependencies :: "rule list \<Rightarrow> string \<Rightarrow> string list" where
  "dependencies rs p = concat (map body_predicates (rules_for rs p))"

text \<open>
  The depth-first search shares the seen set between the calls, so what remains to be looked at
  after a call returns is the rest of the caller's loop: the model keeps these rests in one list.
\<close>

definition all_dependencies :: "rule list \<Rightarrow> string list" where
  "all_dependencies rs = concat (map body_predicates rs)"

lemma dependencies_subset: "set (dependencies rs p) \<subseteq> set (all_dependencies rs)"
  by (auto simp: dependencies_def all_dependencies_def rules_for_def)

function reaches :: "rule list \<Rightarrow> string \<Rightarrow> string list \<Rightarrow> string list \<Rightarrow> bool" where
  "reaches rs target [] seen = False"
| "reaches rs target (p # ps) seen =
     (if p = target then True
      else if p \<in> set seen then reaches rs target ps seen
      else reaches rs target (dependencies rs p @ ps) (p # seen))"
  by pat_completeness auto

termination
proof (relation "measures
    [\<lambda>(rs, _, ps, seen). card (set (ps @ all_dependencies rs) - set seen), \<lambda>(_, _, ps, _). length ps]")
  fix rs :: "rule list" and target p :: string and ps seen :: "string list"
  have sub: "set (ps @ all_dependencies rs) - set seen \<subseteq> set ((p # ps) @ all_dependencies rs) - set seen"
    by auto
  show "((rs, target, ps, seen), rs, target, p # ps, seen) \<in> measures
    [\<lambda>(rs, _, ps, seen). card (set (ps @ all_dependencies rs) - set seen), \<lambda>(_, _, ps, _). length ps]"
    by (rule measures_lesseq) (use card_mono [OF _ sub] in simp_all)
  assume new: "p \<notin> set seen"
  have "set ((dependencies rs p @ ps) @ all_dependencies rs) - set (p # seen)
      \<subset> set ((p # ps) @ all_dependencies rs) - set seen"
    using new dependencies_subset [of rs p] by auto
  then have "card (set ((dependencies rs p @ ps) @ all_dependencies rs) - set (p # seen))
      < card (set ((p # ps) @ all_dependencies rs) - set seen)"
    by (intro psubset_card_mono) simp_all
  then show "((rs, target, dependencies rs p @ ps, p # seen), rs, target, p # ps, seen) \<in> measures
    [\<lambda>(rs, _, ps, seen). card (set (ps @ all_dependencies rs) - set seen), \<lambda>(_, _, ps, _). length ps]"
    by (intro measures_less) (simp add: Un_assoc)
qed simp

definition recursive_predicates :: "rule list \<Rightarrow> string list" where
  "recursive_predicates rs =
     filter (\<lambda>p. reaches rs p (dependencies rs p) []) (remdups (map (\<lambda>r. predicate (head r)) rs))"

section \<open>Seeds\<close>

definition query_seed :: "string list \<Rightarrow> query \<Rightarrow> magic_seed option" where
  "query_seed recursive q =
     (let a = q_atom q; pattern = map is_seed_term (terms a)
      in if predicate a \<notin> set recursive then None
         else if \<not> list_ex id pattern then None
         else if \<not> list_all (\<lambda>(t, bound). \<not> bound \<or> is_supported_magic_term t) (zip (terms a) pattern)
         then None
         else Some \<lparr>seed_pred = predicate a, seed_pattern = pattern, seed_terms = bound_terms a pattern\<rparr>)"

definition add_new :: "'a \<Rightarrow> 'a list \<Rightarrow> 'a list" where
  "add_new x xs = (if x \<in> set xs then xs else xs @ [x])"

definition collect_query_seeds :: "program \<Rightarrow> string list \<Rightarrow> magic_seed list" where
  "collect_query_seeds p recursive =
     foldl (\<lambda>out q. case query_seed recursive q of None \<Rightarrow> out | Some seed \<Rightarrow> add_new seed out)
       [] (queries p)"

section \<open>Unsupported rules\<close>

definition outside_subset :: string where
  "outside_subset = '' is outside the supported magic_sets subset''"

definition starts_with :: "string \<Rightarrow> string \<Rightarrow> bool" where
  "starts_with p s = (take (length p) s = p)"

definition literal_reasons :: "string list \<Rightarrow> string \<Rightarrow> body_literal \<Rightarrow> string list" where
  "literal_reasons recursive p l =
     (case l of
        Positive a \<Rightarrow>
          (if predicate a \<in> set recursive \<and> predicate a \<noteq> p
           then [''mutual recursion through '' @ predicate a @ outside_subset] else [])
          @ (if starts_with ''__xlog_meta_'' (predicate a) \<or> starts_with ''__xlog_list_'' (predicate a)
             then [''meta/list helper '' @ predicate a @ '' in recursive rule'' @ outside_subset] else [])
      | Negated _ \<Rightarrow> []
      | _ \<Rightarrow> [''non-positive literal in recursive rule for '' @ p @ outside_subset])"

definition rule_reasons :: "string list \<Rightarrow> rule \<Rightarrow> string list" where
  "rule_reasons recursive r =
     (let p = predicate (head r)
      in (if has_negation r then [''negation in recursive rule for '' @ p @ outside_subset] else [])
         @ (if has_aggregation r \<or> list_ex body_literal_has_aggregate (body r)
            then [''aggregation in recursive rule for '' @ p @ outside_subset] else [])
         @ concat (map (literal_reasons recursive p) (body r)))"

definition unsupported_target_reasons :: "rule list \<Rightarrow> string list \<Rightarrow> string list \<Rightarrow> string list" where
  "unsupported_target_reasons rs targets recursive =
     sort_dedup (concat (map (rule_reasons recursive)
       (filter (\<lambda>r. predicate (head r) \<in> set targets) rs)))"

section \<open>Adornments\<close>

datatype magic_error =
    MagicReasons "string list"
  | UnboundRecursiveCall string nat

definition set_insert :: "'a::linorder \<Rightarrow> 'a list \<Rightarrow> 'a list" where
  "set_insert x xs = (if x \<in> set xs then xs else insort x xs)"

definition initial_adornments :: "magic_seed list \<Rightarrow> adornment list" where
  "initial_adornments seeds =
     foldl (\<lambda>out seed. set_insert (Adornment (seed_pred seed) (seed_pattern seed)) out) [] seeds"

fun discover_from ::
    "string list \<Rightarrow> string list \<Rightarrow> body_literal list \<Rightarrow> magic_error + adornment list" where
  "discover_from targets bound [] = Inr []"
| "discover_from targets bound (Positive a # lits) =
     (let rest = discover_from targets (bound @ atom_variables a) lits
      in if predicate a \<in> set targets
         then let pattern = atom_adornment a bound
              in if \<not> list_ex id pattern then Inl (UnboundRecursiveCall (predicate a) (atom_arity a))
                 else map_res (Cons (Adornment (predicate a) pattern)) rest
         else rest)"
| "discover_from targets bound (_ # lits) = discover_from targets bound lits"

definition discover_body_adornments ::
    "rule \<Rightarrow> bool list \<Rightarrow> string list \<Rightarrow> magic_error + adornment list" where
  "discover_body_adornments r pattern targets =
     discover_from targets (head_bound_variables (head r) pattern) (body r)"

definition expand_pass ::
    "rule list \<Rightarrow> string list \<Rightarrow> adornment list \<Rightarrow> magic_error + adornment list" where
  "expand_pass rs targets ads =
     fold_res (\<lambda>ad. fold_res (\<lambda>r acc.
         map_res (\<lambda>found. foldl (\<lambda>s d. set_insert d s) acc found)
           (discover_body_adornments r (ad_pattern ad) targets))
       (rules_for rs (ad_pred ad))) ads ads"

text \<open>Every adornment a pass finds belongs to a body atom of the program, so only finitely many exist.\<close>

definition possible_adornments :: "rule list \<Rightarrow> adornment set" where
  "possible_adornments rs =
     (\<Union>r \<in> set rs. \<Union>l \<in> set (body r). case literal_atom l of
        None \<Rightarrow> {}
      | Some a \<Rightarrow> Adornment (predicate a) ` {pattern. length pattern = atom_arity a})"

lemma finite_possible [simp]: "finite (possible_adornments rs)"
proof -
  have "finite {pattern :: bool list. length pattern = n}" for n
    using finite_lists_length_eq [OF finite, of "UNIV :: bool set" n] by simp
  then show ?thesis
    unfolding possible_adornments_def by (intro finite_UN_I finite_set) (simp split: option.splits)
qed

lemma set_set_insert [simp]: "set (set_insert x xs) = insert x (set xs)"
  by (auto simp: set_insert_def set_insort_key)

lemma set_foldl_set_insert [simp]: "set (foldl (\<lambda>s d. set_insert d s) acc found) = set acc \<union> set found"
  by (induction found arbitrary: acc) auto

lemma discover_from_possible:
  assumes "discover_from targets bound lits = Inr found" and "set lits \<subseteq> set (body r)" and "r \<in> set rs"
  shows "set found \<subseteq> possible_adornments rs"
  using assms(1,2)
proof (induction targets bound lits arbitrary: found rule: discover_from.induct)
  case (2 targets bound a lits)
  obtain rest where rest: "discover_from targets (bound @ atom_variables a) lits = Inr rest"
    using "2.prems"(1) by (auto simp: Let_def map_res_Inr_iff split: if_splits)
  have sub: "set rest \<subseteq> possible_adornments rs" using "2.IH" [OF rest] "2.prems"(2) by simp
  have "Adornment (predicate a) (atom_adornment a bound) \<in> possible_adornments rs"
    unfolding possible_adornments_def
    by (rule UN_I [OF assms(3)], rule UN_I [where a = "Positive a"])
      (use "2.prems"(2) in \<open>auto simp: literal_atom_def atom_adornment_def atom_arity_def\<close>)
  then show ?case using "2.prems"(1) rest sub by (auto simp: Let_def split: if_splits)
qed auto

lemma expand_pass_found:
  assumes "expand_pass rs targets ads = Inr ads'"
  shows "set ads \<subseteq> set ads' \<and> set ads' \<subseteq> set ads \<union> possible_adornments rs"
  using assms unfolding expand_pass_def
proof (rule fold_res_invariant)
  fix ad acc acc'
  assume acc: "set ads \<subseteq> set acc \<and> set acc \<subseteq> set ads \<union> possible_adornments rs"
    and "fold_res (\<lambda>r acc. map_res (\<lambda>found. foldl (\<lambda>s d. set_insert d s) acc found)
      (discover_body_adornments r (ad_pattern ad) targets)) (rules_for rs (ad_pred ad)) acc = Inr acc'"
  then show "set ads \<subseteq> set acc' \<and> set acc' \<subseteq> set ads \<union> possible_adornments rs"
  proof (elim fold_res_invariant)
    fix r s s'
    assume r: "r \<in> set (rules_for rs (ad_pred ad))"
      and s: "set ads \<subseteq> set s \<and> set s \<subseteq> set ads \<union> possible_adornments rs"
      and "map_res (\<lambda>found. foldl (\<lambda>s d. set_insert d s) s found)
        (discover_body_adornments r (ad_pattern ad) targets) = Inr s'"
    then obtain found where "discover_body_adornments r (ad_pattern ad) targets = Inr found"
      and s': "s' = foldl (\<lambda>s d. set_insert d s) s found" by (auto simp: map_res_Inr_iff)
    then have "set found \<subseteq> possible_adornments rs"
      using r unfolding discover_body_adornments_def
      by (intro discover_from_possible [where r = r]) (auto simp: rules_for_def)
    then show "set ads \<subseteq> set s' \<and> set s' \<subseteq> set ads \<union> possible_adornments rs" using s s' by auto
  qed
qed simp

lemma expand_pass_progress:
  assumes "expand_pass rs targets ads = Inr ads'" and "set ads' \<noteq> set ads"
  shows "card (possible_adornments rs - set ads') < card (possible_adornments rs - set ads)"
proof (rule psubset_card_mono)
  show "possible_adornments rs - set ads' \<subset> possible_adornments rs - set ads"
    using expand_pass_found [OF assms(1)] assms(2) by blast
qed simp

text \<open>The loop runs as long as a pass inserts something.\<close>

function expand_adornments ::
    "rule list \<Rightarrow> string list \<Rightarrow> adornment list \<Rightarrow> magic_error + adornment list" where
  "expand_adornments rs targets ads =
     (case expand_pass rs targets ads of
        Inl e \<Rightarrow> Inl e
      | Inr ads' \<Rightarrow> if set ads' = set ads then Inr ads' else expand_adornments rs targets ads')"
  by pat_completeness auto

termination
  by (relation "measure (\<lambda>(rs, _, ads). card (possible_adornments rs - set ads))")
    (simp_all add: expand_pass_progress)

declare expand_adornments.simps [simp del]

section \<open>Rewriting\<close>

text \<open>
  The propagation rules of one rule under one adornment: each call of a target in the body seeds the
  magic predicate of its adornment from the literals before it.\<close>

fun propagation_from ::
    "string list \<Rightarrow> string list \<Rightarrow> body_literal list \<Rightarrow> body_literal list \<Rightarrow> magic_error + rule list" where
  "propagation_from targets bound before [] = Inr []"
| "propagation_from targets bound before (Positive a # lits) =
     (let rest = propagation_from targets (bound @ atom_variables a) (before @ [Positive a]) lits
      in if predicate a \<in> set targets
         then let pattern = atom_adornment a bound; h = magic_atom_for a pattern
              in if \<not> list_ex id pattern then Inl (UnboundRecursiveCall (predicate a) (atom_arity a))
                 else if before = [Positive h] then rest
                 else map_res (Cons \<lparr>head = h, body = before\<rparr>) rest
         else rest)"
| "propagation_from targets bound before (_ # lits) = propagation_from targets bound before lits"

definition propagation_rules :: "rule \<Rightarrow> bool list \<Rightarrow> string list \<Rightarrow> magic_error + rule list" where
  "propagation_rules r pattern targets =
     propagation_from targets (head_bound_variables (head r) pattern)
       [Positive (magic_atom_for (head r) pattern)] (body r)"

definition seed_rule :: "magic_seed \<Rightarrow> rule" where
  "seed_rule seed =
     \<lparr>head = \<lparr>predicate = magic_predicate (seed_pred seed) (seed_pattern seed), terms = seed_terms seed\<rparr>,
      body = []\<rparr>"

definition guarded_rule :: "rule \<Rightarrow> bool list \<Rightarrow> rule" where
  "guarded_rule r pattern =
     \<lparr>head = head r, body = Positive (magic_atom_for (head r) pattern) # body r\<rparr>"

text \<open>
  The rules of other predicates first, then the seeds and propagation rules without duplicates, then
  the guarded rules.\<close>

definition rewrite_rules ::
    "rule list \<Rightarrow> string list \<Rightarrow> adornment list \<Rightarrow> magic_seed list \<Rightarrow> magic_error + rule list" where
  "rewrite_rules rs targets ads seeds =
     map_res (\<lambda>magic.
         filter (\<lambda>r. predicate (head r) \<notin> set targets) rs @ magic
         @ concat (map (\<lambda>ad. map (\<lambda>r. guarded_rule r (ad_pattern ad)) (rules_for rs (ad_pred ad))) ads))
       (fold_res (\<lambda>ad. fold_res (\<lambda>r out.
            map_res (foldl (\<lambda>out r. add_new r out) out) (propagation_rules r (ad_pattern ad) targets))
          (rules_for rs (ad_pred ad))) ads (foldl (\<lambda>out seed. add_new (seed_rule seed) out) [] seeds))"

datatype magic_set_status = MagicDisabled | MagicApplied | MagicDeclined

record magic_set_report =
  ms_status :: magic_set_status
  generated_predicates :: "string list"
  adorned_predicates :: "string list"
  declined_reasons :: "string list"

definition with_status :: "magic_set_status \<Rightarrow> magic_set_report" where
  "with_status status =
     \<lparr>ms_status = status, generated_predicates = [], adorned_predicates = [], declined_reasons = []\<rparr>"

definition decline_or_error ::
    "program \<Rightarrow> magic_sets_mode \<Rightarrow> string list \<Rightarrow> magic_error + (program \<times> magic_set_report)" where
  "decline_or_error p mode reasons =
     (if mode = MsOn then Inl (MagicReasons reasons)
      else Inr (p, (with_status MagicDeclined)\<lparr>declined_reasons := reasons\<rparr>))"

definition magic_targets :: "magic_seed list \<Rightarrow> string list" where
  "magic_targets seeds = sort_dedup (map seed_pred seeds)"

definition applied_report :: "adornment list \<Rightarrow> magic_set_report" where
  "applied_report ads =
     \<lparr>ms_status = MagicApplied,
      generated_predicates = sort_dedup (map (\<lambda>ad. magic_predicate (ad_pred ad) (ad_pattern ad)) ads),
      adorned_predicates = sort_dedup (map (\<lambda>ad. ad_pred ad @ ''/'' @ adornment_key (ad_pattern ad)) ads),
      declined_reasons = []\<rparr>"

definition rewrite_enabled ::
    "program \<Rightarrow> magic_sets_mode \<Rightarrow> magic_error + (program \<times> magic_set_report)" where
  "rewrite_enabled p mode =
     (let recursive = recursive_predicates (rules p);
          seeds = collect_query_seeds p recursive;
          targets = magic_targets seeds;
          unsafe = unsupported_target_reasons (rules p) targets recursive
      in if seeds = [] then decline_or_error p mode [''no bound recursive query eligible for magic_sets'']
         else if is_probabilistic_profile p
         then decline_or_error p mode
           [''probabilistic profiles are handled outside deterministic magic_sets'']
         else if unsafe \<noteq> [] then decline_or_error p mode unsafe
         else bind_res (expand_adornments (rules p) targets (initial_adornments seeds)) (\<lambda>ads.
           map_res (\<lambda>rs. (p\<lparr>rules := rs\<rparr>, applied_report ads))
             (rewrite_rules (rules p) targets ads seeds)))"

definition rewrite_magic_sets :: "program \<Rightarrow> magic_error + (program \<times> magic_set_report)" where
  "rewrite_magic_sets p =
     (case magic_sets (directives p) of
        None \<Rightarrow> Inr (p, with_status MagicDisabled)
      | Some MsOff \<Rightarrow> Inr (p, with_status MagicDisabled)
      | Some mode \<Rightarrow> rewrite_enabled p mode)"

end
