(* ===== verification/Magic_Correct.thy ===== *)
theory Magic_Correct
  imports Magic_Sets
begin

text \<open>
  Magic-set rewriting preserves the answers of the seeded queries when no rewritten predicate reads
  another one through a predicate that is not rewritten. Terms denote values of an arbitrary universe.
  Predicates that depend on no rewritten predicate have given relations: their rules stay as they are.
  The rewritten predicates have the least relations closed under their rules. The predicates that
  depend on a rewritten one without being rewritten may have any relations, different ones before and
  after the rewriting: their rules now read restricted relations. The last section shows that the
  answers are lost when a rewritten predicate reads such a predicate.
\<close>

section \<open>The meaning of rules\<close>

record 'v universe =
  u_const :: "ast_term \<Rightarrow> 'v"
  u_list :: "'v list \<Rightarrow> 'v"
  u_cons :: "'v \<Rightarrow> 'v \<Rightarrow> 'v"
  u_compound :: "string \<Rightarrow> 'v list \<Rightarrow> 'v"

text \<open>The values a term may stand for under a valuation of the variables; a wildcard stands for any.\<close>

fun denotes :: "'v universe \<Rightarrow> (string \<Rightarrow> 'v) \<Rightarrow> ast_term \<Rightarrow> 'v \<Rightarrow> bool" where
  "denotes U s (Variable x) v = (v = s x)"
| "denotes U s Anonymous v = True"
| "denotes U s (ListTerm ts) v = (\<exists>vs. list_all2 (denotes U s) ts vs \<and> v = u_list U vs)"
| "denotes U s (ConsTerm h t) v = (\<exists>a b. denotes U s h a \<and> denotes U s t b \<and> v = u_cons U a b)"
| "denotes U s (Compound f ts) v = (\<exists>vs. list_all2 (denotes U s) ts vs \<and> v = u_compound U f vs)"
| "denotes U s (Aggregate _) v = False"
| "denotes U s (Integer n) v = (v = u_const U (Integer n))"
| "denotes U s (Float x) v = (v = u_const U (Float x))"
| "denotes U s (Str x) v = (v = u_const U (Str x))"
| "denotes U s (Symbol x) v = (v = u_const U (Symbol x))"
| "denotes U s (PredRef x) v = (v = u_const U (PredRef x))"

type_synonym 'v relations = "string \<Rightarrow> 'v list set"

definition literal_true :: "'v universe \<Rightarrow> 'v relations \<Rightarrow> (string \<Rightarrow> 'v) \<Rightarrow> body_literal \<Rightarrow> bool" where
  "literal_true U I s l =
     (case l of
        Positive a \<Rightarrow> \<exists>row \<in> I (predicate a). list_all2 (denotes U s) (terms a) row
      | _ \<Rightarrow> False)"

definition answers :: "'v universe \<Rightarrow> 'v relations \<Rightarrow> rule \<Rightarrow> 'v list set" where
  "answers U I r =
     {row. \<exists>s. (\<forall>l \<in> set (body r). literal_true U I s l) \<and> list_all2 (denotes U s) (terms (head r)) row}"

text \<open>The relations the rules give the predicates in \<open>D\<close>, when the other predicates have those of \<open>B\<close>.\<close>

definition step :: "'v universe \<Rightarrow> rule list \<Rightarrow> string set \<Rightarrow> 'v relations \<Rightarrow> 'v relations \<Rightarrow> 'v relations" where
  "step U rs D B I p = (if p \<in> D then (\<Union>r \<in> set (rules_for rs p). answers U I r) else B p)"

definition model :: "'v universe \<Rightarrow> rule list \<Rightarrow> string set \<Rightarrow> 'v relations \<Rightarrow> 'v relations" where
  "model U rs D B = lfp (step U rs D B)"

definition query_answers :: "'v universe \<Rightarrow> 'v relations \<Rightarrow> atom \<Rightarrow> 'v list set" where
  "query_answers U I a = {row \<in> I (predicate a). \<exists>s. list_all2 (denotes U s) (terms a) row}"

lemma literal_true_mono: "I \<le> J \<Longrightarrow> literal_true U I s l \<Longrightarrow> literal_true U J s l"
  unfolding literal_true_def le_fun_def by (cases l) auto

lemma answers_mono: "I \<le> J \<Longrightarrow> answers U I r \<subseteq> answers U J r"
  unfolding answers_def using literal_true_mono [of I J] by blast

lemma mono_step: "mono (step U rs D B)"
  by (rule monoI, rule le_funI) (use answers_mono in \<open>fastforce simp: step_def\<close>)

lemma model_unfold: "model U rs D B = step U rs D B (model U rs D B)"
  unfolding model_def by (rule lfp_unfold [OF mono_step])

lemma model_least: "step U rs D B I \<le> I \<Longrightarrow> model U rs D B \<le> I"
  unfolding model_def by (rule lfp_lowerbound)

lemma model_given: "p \<notin> D \<Longrightarrow> model U rs D B p = B p"
  by (subst model_unfold) (simp add: step_def)

lemma model_rule:
  assumes "r \<in> set rs" and "predicate (head r) \<in> D" and "row \<in> answers U (model U rs D B) r"
  shows "row \<in> model U rs D B (predicate (head r))"
  by (subst model_unfold) (use assms in \<open>auto simp: step_def rules_for_def\<close>)

lemma model_closed:
  assumes "\<And>r. r \<in> set rs \<Longrightarrow> answers U J r \<subseteq> J (predicate (head r))" and "\<And>p. p \<notin> D \<Longrightarrow> B p \<subseteq> J p"
  shows "model U rs D B p \<subseteq> J p"
proof -
  have "step U rs D B J q \<subseteq> J q" for q using assms by (auto simp: step_def rules_for_def)
  then have "model U rs D B \<le> J" by (intro model_least le_funI)
  then show ?thesis by (rule le_funD)
qed

text \<open>The fixpoint may be taken for some of the predicates only, once the others have their relations.\<close>

lemma model_nested:
  assumes "T \<subseteq> D"
  shows "model U rs T (model U rs D B) = model U rs D B" (is "?K = ?M")
proof (rule antisym)
  have "step U rs T ?M ?M \<le> ?M"
    by (rule le_funI) (use assms model_unfold [of U rs D B] in \<open>auto simp: step_def fun_eq_iff\<close>)
  then show le: "?K \<le> ?M" by (rule model_least)
  have "step U rs D B ?K p \<subseteq> ?K p" for p
  proof (cases "p \<in> T")
    case True
    have "?K p = step U rs T ?M ?K p" using model_unfold [of U rs T ?M] by (rule fun_cong)
    then show ?thesis using True assms by (auto simp: step_def)
  next
    case False
    have "step U rs D B ?K p \<subseteq> step U rs D B ?M p" using monoD [OF mono_step le] by (rule le_funD)
    also have "\<dots> = ?M p" using model_unfold [of U rs D B] by (simp add: fun_eq_iff)
    also have "\<dots> = ?K p" by (rule model_given [OF False, symmetric])
    finally show ?thesis .
  qed
  then show "?M \<le> ?K" by (intro model_least le_funI)
qed

text \<open>Only the given relations that the rules of the computed predicates read matter.\<close>

lemma model_agree:
  assumes reads: "\<And>r a. r \<in> set rs \<Longrightarrow> predicate (head r) \<in> T \<Longrightarrow> Positive a \<in> set (body r) \<Longrightarrow>
      predicate a \<in> T \<or> B' (predicate a) = B (predicate a)"
    and p: "p \<in> T"
  shows "model U rs T B' p \<subseteq> model U rs T B p"
proof -
  let ?M = "model U rs T B"
  define J where "J q = (if q \<in> T then ?M q else B' q)" for q
  have "step U rs T B' J q \<subseteq> J q" for q
  proof (cases "q \<in> T")
    case False
    then show ?thesis by (simp add: step_def J_def)
  next
    case True
    have "answers U J r \<subseteq> ?M q" if r: "r \<in> set rs" "predicate (head r) = q" for r
    proof
      fix row assume row: "row \<in> answers U J r"
      have "literal_true U ?M s l" if l: "l \<in> set (body r)" "literal_true U J s l" for s l
      proof (cases l)
        case (Positive a)
        have "J (predicate a) = ?M (predicate a)"
          using reads [of r a] r True l(1) Positive model_given [of "predicate a" T U rs B]
          by (cases "predicate a \<in> T") (auto simp: J_def)
        then show ?thesis using l(2) Positive by (simp add: literal_true_def)
      qed (use l(2) in \<open>simp_all add: literal_true_def\<close>)
      then have "row \<in> answers U ?M r" using row by (auto simp: answers_def)
      then show "row \<in> ?M q" using model_rule [OF r(1)] True r(2) by auto
    qed
    then show ?thesis using True by (auto simp: step_def J_def rules_for_def)
  qed
  then have "model U rs T B' p \<subseteq> J p" by (metis model_least le_funI le_funD)
  then show ?thesis using p by (simp add: J_def)
qed

lemma model_agree_eq:
  assumes "\<And>r a. r \<in> set rs \<Longrightarrow> predicate (head r) \<in> T \<Longrightarrow> Positive a \<in> set (body r) \<Longrightarrow>
      predicate a \<in> T \<or> B' (predicate a) = B (predicate a)"
    and "p \<in> T"
  shows "model U rs T B' p = model U rs T B p"
  by (rule antisym; rule model_agree) (use assms in \<open>auto dest: sym\<close>)

lemma literal_true_simps [simp]:
  "literal_true U I s (Positive a) = (\<exists>row \<in> I (predicate a). list_all2 (denotes U s) (terms a) row)"
  by (simp add: literal_true_def)

section \<open>Bound terms\<close>

text \<open>A bound term stands for one value at most.\<close>

lemma list_all2_functional:
  assumes "list_all2 R ts vs" and "list_all2 R ts ws"
    and "\<And>t v w. t \<in> set ts \<Longrightarrow> R t v \<Longrightarrow> R t w \<Longrightarrow> v = w"
  shows "vs = ws"
proof (rule nth_equalityI)
  show "length vs = length ws" using assms(1,2) by (metis list_all2_lengthD)
  fix i assume i: "i < length vs"
  then have "ts ! i \<in> set ts" using assms(1) by (simp add: list_all2_lengthD)
  then show "vs ! i = ws ! i"
    using list_all2_nthD2 [OF assms(1)] list_all2_nthD2 [OF assms(2)] i assms(3) \<open>length vs = length ws\<close>
    by metis
qed

lemma denotes_functional:
  "term_is_bound bound t \<Longrightarrow> denotes U s t v \<Longrightarrow> denotes U s t w \<Longrightarrow> v = w"
proof (induction t arbitrary: v w)
  case (ListTerm ts)
  then obtain vs ws where all: "list_all2 (denotes U s) ts vs" "list_all2 (denotes U s) ts ws"
    and vw: "v = u_list U vs" "w = u_list U ws" by auto
  have "vs = ws" by (rule list_all2_functional [OF all]) (use ListTerm in \<open>auto simp: list_all_iff\<close>)
  then show ?case using vw by simp
next
  case (Compound f ts)
  then obtain vs ws where all: "list_all2 (denotes U s) ts vs" "list_all2 (denotes U s) ts ws"
    and vw: "v = u_compound U f vs" "w = u_compound U f ws" by auto
  have "vs = ws" by (rule list_all2_functional [OF all]) (use Compound in \<open>auto simp: list_all_iff\<close>)
  then show ?case using vw by simp
next
  case (ConsTerm h t)
  then show ?case by (auto; metis)
qed auto

definition project :: "bool list \<Rightarrow> 'a list \<Rightarrow> 'a list" where
  "project pattern xs = map fst (filter snd (zip xs pattern))"

lemma bound_terms_project: "bound_terms a pattern = project pattern (terms a)"
  by (simp add: bound_terms_def project_def)

lemma project_simps [simp]:
  "project [] xs = []" "project pattern [] = []"
  "project (b # pattern) (x # xs) = (if b then x # project pattern xs else project pattern xs)"
  by (simp_all add: project_def)

lemma project_denotes: "list_all2 R ts vs \<Longrightarrow> list_all2 R (project pattern ts) (project pattern vs)"
proof (induction pattern arbitrary: ts vs)
  case (Cons b pattern)
  then show ?case by (cases ts) (auto simp: list_all2_Cons1)
qed simp

lemma project_adornment: "t \<in> set (project (map P ts) ts) \<Longrightarrow> P t"
  by (induction ts) (auto split: if_splits)

lemma project_bound:
  assumes "list_all2 (denotes U s) (bound_terms a (atom_adornment a bound)) vs"
    and "list_all2 (denotes U s) (bound_terms a (atom_adornment a bound)) ws"
  shows "vs = ws"
  using assms
proof (rule list_all2_functional)
  fix t v w
  assume "t \<in> set (bound_terms a (atom_adornment a bound))"
  then have "term_is_bound bound t"
    unfolding bound_terms_project atom_adornment_def by (rule project_adornment)
  then show "denotes U s t v \<Longrightarrow> denotes U s t w \<Longrightarrow> v = w" by (rule denotes_functional)
qed

section \<open>What the rewriting produces\<close>

lemma set_add_new [simp]: "set (add_new x xs) = insert x (set xs)"
  by (auto simp: add_new_def)

lemma set_foldl_add_new [simp]: "set (foldl (\<lambda>out r. add_new (f r) out) out rs) = set out \<union> f ` set rs"
  by (induction rs arbitrary: out) auto

lemma set_foldl_add_new_id [simp]: "set (foldl (\<lambda>out r. add_new r out) out rs) = set out \<union> set rs"
  using set_foldl_add_new [of id] by simp

lemma initial_adornments_set [simp]:
  "set (initial_adornments seeds) = (\<lambda>seed. Adornment (seed_pred seed) (seed_pattern seed)) ` set seeds"
proof -
  have "set (foldl (\<lambda>out seed. set_insert (Adornment (seed_pred seed) (seed_pattern seed)) out) acc seeds)
      = set acc \<union> (\<lambda>seed. Adornment (seed_pred seed) (seed_pattern seed)) ` set seeds" for acc
    by (induction seeds arbitrary: acc) auto
  then show ?thesis by (simp add: initial_adornments_def)
qed

text \<open>A loop that only adds: what one step puts into its result stays to the end.\<close>

lemma fold_res_adds:
  assumes "fold_res f xs s = Inr s'" and "\<And>x s s'. f x s = Inr s' \<Longrightarrow> set s \<subseteq> set s'"
  shows "set s \<subseteq> set s' \<and> (\<forall>x \<in> set xs. \<exists>s1 s2. f x s1 = Inr s2 \<and> set s2 \<subseteq> set s')"
  using assms(1)
proof (induction xs arbitrary: s)
  case (Cons x xs)
  then obtain s1 where s1: "f x s = Inr s1" "fold_res f xs s1 = Inr s'" by (auto simp: bind_res_Inr_iff)
  then show ?case using Cons.IH [OF s1(2)] assms(2) [OF s1(1)] by auto
qed simp

lemma fold_res_adds_nested:
  assumes "fold_res (\<lambda>x. fold_res (f x) (ys x)) xs s = Inr s'"
    and add: "\<And>x y s s'. f x y s = Inr s' \<Longrightarrow> \<exists>found. F x y = Inr found \<and> set s' = set s \<union> set found"
    and "x \<in> set xs" and "y \<in> set (ys x)"
  shows "\<exists>found. F x y = Inr found \<and> set found \<subseteq> set s'"
proof -
  have inner: "set s \<subseteq> set s' \<and> (\<forall>y \<in> set (ys x). \<exists>s1 s2. f x y s1 = Inr s2 \<and> set s2 \<subseteq> set s')"
    if "fold_res (f x) (ys x) s = Inr s'" for x s s'
    by (rule fold_res_adds [OF that]) (use add in blast)
  have "\<forall>x \<in> set xs. \<exists>s1 s2. fold_res (f x) (ys x) s1 = Inr s2 \<and> set s2 \<subseteq> set s'"
    using fold_res_adds [OF assms(1)] inner by blast
  then obtain s1 s2 where "fold_res (f x) (ys x) s1 = Inr s2" "set s2 \<subseteq> set s'" using assms(3) by blast
  then obtain t1 t2 where "f x y t1 = Inr t2" "set t2 \<subseteq> set s'" using inner assms(4) by blast
  then show ?thesis using add by (metis Un_subset_iff)
qed

lemma expand_closed:
  assumes "expand_adornments rs targets ads = Inr ads'"
  shows "set ads \<subseteq> set ads' \<and> (\<forall>ad \<in> set ads'. \<forall>r \<in> set (rules_for rs (ad_pred ad)).
    \<exists>found. discover_body_adornments r (ad_pattern ad) targets = Inr found \<and> set found \<subseteq> set ads')"
  using assms
proof (induction rs targets ads rule: expand_adornments.induct)
  case (1 rs targets ads)
  obtain ads1 where pass: "expand_pass rs targets ads = Inr ads1"
    using "1.prems" by (cases "expand_pass rs targets ads") (simp_all add: expand_adornments.simps)
  have found: "\<exists>found. discover_body_adornments r (ad_pattern ad) targets = Inr found \<and> set found \<subseteq> set ads1"
    if "ad \<in> set ads" "r \<in> set (rules_for rs (ad_pred ad))" for ad r
    using pass unfolding expand_pass_def
    by (rule fold_res_adds_nested) (use that in \<open>auto simp: map_res_Inr_iff\<close>)
  show ?case
  proof (cases "set ads1 = set ads")
    case True
    then have "ads' = ads1" using "1.prems" pass by (simp add: expand_adornments.simps)
    then show ?thesis using found True by auto
  next
    case False
    then have "expand_adornments rs targets ads1 = Inr ads'"
      using "1.prems" pass by (simp add: expand_adornments.simps [of rs targets ads])
    then show ?thesis using "1.IH" [OF pass False] expand_pass_found [OF pass] by blast
  qed
qed

lemma discover_targets:
  "discover_from targets bound lits = Inr found \<Longrightarrow> \<forall>ad \<in> set found. ad_pred ad \<in> set targets"
proof (induction targets bound lits arbitrary: found rule: discover_from.induct)
  case (2 targets bound a lits)
  then obtain rest where rest: "discover_from targets (bound @ atom_variables a) lits = Inr rest"
    by (auto simp: Let_def map_res_Inr_iff split: if_splits)
  show ?case using "2.IH" [OF rest] "2.prems" rest by (auto simp: Let_def split: if_splits)
qed auto

lemma expand_pass_targets:
  assumes "expand_pass rs targets ads = Inr ads'" and "\<forall>ad \<in> set ads. ad_pred ad \<in> set targets"
  shows "\<forall>ad \<in> set ads'. ad_pred ad \<in> set targets"
  using assms(1) unfolding expand_pass_def
proof (rule fold_res_invariant)
  fix ad acc acc'
  assume acc: "\<forall>ad \<in> set acc. ad_pred ad \<in> set targets"
    and "fold_res (\<lambda>r acc. map_res (\<lambda>found. foldl (\<lambda>s d. set_insert d s) acc found)
      (discover_body_adornments r (ad_pattern ad) targets)) (rules_for rs (ad_pred ad)) acc = Inr acc'"
  then show "\<forall>ad \<in> set acc'. ad_pred ad \<in> set targets"
    by (elim fold_res_invariant)
      (auto simp: map_res_Inr_iff discover_body_adornments_def dest!: discover_targets)
qed (rule assms(2))

lemma expand_adornments_targets:
  "expand_adornments rs targets ads = Inr ads' \<Longrightarrow> \<forall>ad \<in> set ads. ad_pred ad \<in> set targets \<Longrightarrow>
    \<forall>ad \<in> set ads'. ad_pred ad \<in> set targets"
proof (induction rs targets ads rule: expand_adornments.induct)
  case (1 rs targets ads)
  obtain ads1 where pass: "expand_pass rs targets ads = Inr ads1"
    using "1.prems" by (cases "expand_pass rs targets ads") (simp_all add: expand_adornments.simps)
  have found: "\<forall>ad \<in> set ads1. ad_pred ad \<in> set targets" by (rule expand_pass_targets [OF pass "1.prems"(2)])
  show ?case
  proof (cases "set ads1 = set ads")
    case True
    then show ?thesis using "1.prems" pass found by (simp add: expand_adornments.simps)
  next
    case False
    then have "expand_adornments rs targets ads1 = Inr ads'"
      using "1.prems" pass by (simp add: expand_adornments.simps [of rs targets ads])
    then show ?thesis using "1.IH" [OF pass False _ found] by blast
  qed
qed

definition magic_names :: "adornment list \<Rightarrow> string set" where
  "magic_names ads = (\<lambda>ad. magic_predicate (ad_pred ad) (ad_pattern ad)) ` set ads"

lemma propagation_from_heads:
  assumes "discover_from targets bound lits = Inr found"
  shows "\<exists>rs. propagation_from targets bound before lits = Inr rs
    \<and> (\<forall>r \<in> set rs. predicate (head r) \<in> magic_names found)"
  using assms
proof (induction targets bound lits arbitrary: found before rule: discover_from.induct)
  case (2 targets bound a lits)
  obtain rest where rest: "discover_from targets (bound @ atom_variables a) lits = Inr rest"
    using "2.prems" by (auto simp: Let_def map_res_Inr_iff split: if_splits)
  then obtain rs where rs: "propagation_from targets (bound @ atom_variables a) (before @ [Positive a]) lits = Inr rs"
    and heads: "\<forall>r \<in> set rs. predicate (head r) \<in> magic_names rest" using "2.IH" by blast
  show ?case
  proof (cases "predicate a \<in> set targets")
    case True
    then have found: "found = Adornment (predicate a) (atom_adornment a bound) # rest"
      and "list_ex id (atom_adornment a bound)"
      using "2.prems" rest by (auto simp: Let_def split: if_splits)
    then show ?thesis using True rs heads by (auto simp: Let_def magic_names_def magic_atom_for_def)
  next
    case False
    then show ?thesis using "2.prems" rest rs heads by simp
  qed
qed auto

definition adornments_closed :: "rule list \<Rightarrow> string list \<Rightarrow> adornment list \<Rightarrow> bool" where
  "adornments_closed rs targets ads =
     (\<forall>ad \<in> set ads. \<forall>r \<in> set (rules_for rs (ad_pred ad)).
        \<exists>found. discover_body_adornments r (ad_pattern ad) targets = Inr found \<and> set found \<subseteq> set ads)"

lemma propagation_rules_heads:
  assumes "adornments_closed rs targets ads" and "ad \<in> set ads" and "r \<in> set (rules_for rs (ad_pred ad))"
  shows "\<exists>ps. propagation_rules r (ad_pattern ad) targets = Inr ps
    \<and> (\<forall>q \<in> set ps. predicate (head q) \<in> magic_names ads)"
proof -
  obtain found where "discover_body_adornments r (ad_pattern ad) targets = Inr found" "set found \<subseteq> set ads"
    using assms unfolding adornments_closed_def by blast
  then show ?thesis
    using propagation_from_heads unfolding discover_body_adornments_def propagation_rules_def magic_names_def
    by (meson image_mono subsetD)
qed

lemma rewrite_rules_result:
  assumes closed: "adornments_closed rs targets ads"
    and seeds: "(\<lambda>seed. Adornment (seed_pred seed) (seed_pattern seed)) ` set seeds \<subseteq> set ads"
  shows "\<exists>magic. rewrite_rules rs targets ads seeds = Inr (filter (\<lambda>r. predicate (head r) \<notin> set targets) rs @ magic
      @ concat (map (\<lambda>ad. map (\<lambda>r. guarded_rule r (ad_pattern ad)) (rules_for rs (ad_pred ad))) ads))
    \<and> seed_rule ` set seeds \<subseteq> set magic
    \<and> (\<forall>r \<in> set magic. predicate (head r) \<in> magic_names ads)
    \<and> (\<forall>ad \<in> set ads. \<forall>r \<in> set (rules_for rs (ad_pred ad)).
         \<exists>ps. propagation_rules r (ad_pattern ad) targets = Inr ps \<and> set ps \<subseteq> set magic)"
proof -
  define collect where "collect ad r out = map_res (foldl (\<lambda>out r. add_new r out) out)
    (propagation_rules r (ad_pattern ad) targets)" for ad r out
  define start where "start = foldl (\<lambda>out seed. add_new (seed_rule seed) out) [] seeds"
  have start: "set start = seed_rule ` set seeds" by (simp add: start_def)
  have ok: "\<exists>out'. collect ad r out = Inr out'"
    if "ad \<in> set ads" "r \<in> set (rules_for rs (ad_pred ad))" for ad r out
    using propagation_rules_heads [OF closed that] by (auto simp: collect_def)
  have inner: "\<exists>out'. fold_res (collect ad) xs out = Inr out'"
    if ad: "ad \<in> set ads" and xs: "set xs \<subseteq> set (rules_for rs (ad_pred ad))" for ad xs out
    using xs
  proof (induction xs arbitrary: out)
    case (Cons x xs)
    obtain out' where "collect ad x out = Inr out'" using ok [OF ad, of x] Cons.prems by auto
    then show ?case using Cons by simp
  qed simp
  have "\<exists>magic. fold_res (\<lambda>ad. fold_res (collect ad) (rules_for rs (ad_pred ad))) xs out = Inr magic"
    if "set xs \<subseteq> set ads" for xs out
    using that
  proof (induction xs arbitrary: out)
    case (Cons x xs)
    obtain out' where "fold_res (collect x) (rules_for rs (ad_pred x)) out = Inr out'"
      using inner [of x "rules_for rs (ad_pred x)"] Cons.prems by auto
    then show ?case using Cons by simp
  qed simp
  then obtain magic where run: "fold_res (\<lambda>ad. fold_res (collect ad) (rules_for rs (ad_pred ad))) ads start = Inr magic"
    by blast
  have all: "\<exists>ps. propagation_rules r (ad_pattern ad) targets = Inr ps \<and> set ps \<subseteq> set magic"
    if "ad \<in> set ads" "r \<in> set (rules_for rs (ad_pred ad))" for ad r
    by (rule fold_res_adds_nested [OF run _ that]) (auto simp: collect_def map_res_Inr_iff)
  have heads: "\<forall>r \<in> set magic. predicate (head r) \<in> magic_names ads"
    using run
  proof (rule fold_res_invariant)
    show "\<forall>r \<in> set start. predicate (head r) \<in> magic_names ads"
      using seeds by (force simp: start seed_rule_def magic_names_def)
    fix ad out out'
    assume ad: "ad \<in> set ads" and out: "\<forall>r \<in> set out. predicate (head r) \<in> magic_names ads"
      and "fold_res (collect ad) (rules_for rs (ad_pred ad)) out = Inr out'"
    then show "\<forall>r \<in> set out'. predicate (head r) \<in> magic_names ads"
    proof (elim fold_res_invariant)
      fix r out out'
      assume "r \<in> set (rules_for rs (ad_pred ad))" "\<forall>r \<in> set out. predicate (head r) \<in> magic_names ads"
        "collect ad r out = Inr out'"
      then show "\<forall>r \<in> set out'. predicate (head r) \<in> magic_names ads"
        using propagation_rules_heads [OF closed ad, of r] by (auto simp: collect_def map_res_Inr_iff)
    qed
  qed
  have "set out \<subseteq> set out'" if "collect ad r out = Inr out'" for ad r out out'
    using that by (auto simp: collect_def map_res_Inr_iff)
  then have "set out \<subseteq> set out'" if "fold_res (collect ad) xs out = Inr out'" for ad xs out out'
    using fold_res_adds [OF that] by blast
  then have "set start \<subseteq> set magic" using fold_res_adds [OF run] by blast
  then show ?thesis
    using run all heads unfolding rewrite_rules_def collect_def [abs_def] start_def start [unfolded start_def]
    by (intro exI [of _ magic]) (simp add: start_def)
qed

section \<open>The rewritten rules derive the asked rows\<close>

text \<open>
  Along a body, left to right: what holds of the original relations, restricted to the rows the magic
  predicates ask for, holds of the rewritten ones, because the literals already passed make the
  propagation rules ask for the rows of the next call.\<close>

lemma body_walk:
  fixes N K :: "'v relations"
  assumes "discover_from targets bound lits = Inr found" and "set found \<subseteq> set ads"
    and "propagation_from targets bound before lits = Inr ps"
    and fires: "\<And>r. r \<in> set ps \<Longrightarrow> answers U N r \<subseteq> N (predicate (head r))"
    and "\<forall>l \<in> set before. literal_true U N s l" and "\<forall>l \<in> set lits. literal_true U K s l"
    and given: "\<And>a. Positive a \<in> set lits \<Longrightarrow> predicate a \<notin> set targets \<Longrightarrow> K (predicate a) \<subseteq> N (predicate a)"
    and asked: "\<And>p row pattern. p \<in> set targets \<Longrightarrow> row \<in> K p \<Longrightarrow> Adornment p pattern \<in> set ads \<Longrightarrow>
      length pattern = length row \<Longrightarrow> project pattern row \<in> N (magic_predicate p pattern) \<Longrightarrow> row \<in> N p"
  shows "\<forall>l \<in> set lits. literal_true U N s l"
  using assms
proof (induction targets bound lits arbitrary: found before ps rule: discover_from.induct)
  case (2 targets bound a lits)
  let ?pattern = "atom_adornment a bound"
  let ?h = "magic_atom_for a ?pattern"
  obtain rest where rest: "discover_from targets (bound @ atom_variables a) lits = Inr rest"
    using "2.prems"(1) by (auto simp: Let_def map_res_Inr_iff split: if_splits)
  obtain ps' where ps': "propagation_from targets (bound @ atom_variables a) (before @ [Positive a]) lits = Inr ps'"
    using "2.prems"(3) by (auto simp: Let_def map_res_Inr_iff split: if_splits)
  obtain row where row: "row \<in> K (predicate a)" "list_all2 (denotes U s) (terms a) row"
    using "2.prems"(6) by auto
  have "row \<in> N (predicate a)"
  proof (cases "predicate a \<in> set targets")
    case False
    then show ?thesis using "2.prems"(7) [of a] row(1) by auto
  next
    case True
    have bound: "list_ex id ?pattern" and found: "Adornment (predicate a) ?pattern \<in> set ads"
      using "2.prems"(1,2) rest True by (auto simp: Let_def split: if_splits)
    have proj: "list_all2 (denotes U s) (bound_terms a ?pattern) (project ?pattern row)"
      unfolding bound_terms_project by (rule project_denotes [OF row(2)])
    have "project ?pattern row \<in> N (magic_predicate (predicate a) ?pattern)"
    proof (cases "before = [Positive ?h]")
      case True
      then obtain vs where "vs \<in> N (magic_predicate (predicate a) ?pattern)"
        and "list_all2 (denotes U s) (bound_terms a ?pattern) vs"
        using "2.prems"(5) by (auto simp: magic_atom_for_def)
      then show ?thesis using project_bound [OF proj] by blast
    next
      case False
      then have "\<lparr>head = ?h, body = before\<rparr> \<in> set ps"
        using "2.prems"(3) True bound ps' by (auto simp: Let_def)
      then have "answers U N \<lparr>head = ?h, body = before\<rparr> \<subseteq> N (predicate ?h)" using "2.prems"(4) by fastforce
      moreover have "project ?pattern row \<in> answers U N \<lparr>head = ?h, body = before\<rparr>"
        unfolding answers_def using "2.prems"(5) proj by (auto simp: magic_atom_for_def)
      ultimately show ?thesis by (auto simp: magic_atom_for_def)
    qed
    moreover have "length ?pattern = length row"
      using list_all2_lengthD [OF row(2)] by (simp add: atom_adornment_def)
    ultimately show ?thesis by (intro "2.prems"(8) [OF True row(1) found])
  qed
  then have a: "literal_true U N s (Positive a)" using row(2) by auto
  have sub: "set rest \<subseteq> set ads" and ps: "set ps' \<subseteq> set ps"
    using "2.prems"(1,2,3) rest ps' by (auto simp: Let_def split: if_splits)
  have "\<forall>l \<in> set lits. literal_true U N s l"
  proof (rule "2.IH" [OF rest sub ps'])
    show "\<And>r. r \<in> set ps' \<Longrightarrow> answers U N r \<subseteq> N (predicate (head r))" using "2.prems"(4) ps by blast
    show "\<forall>l \<in> set (before @ [Positive a]). literal_true U N s l" using "2.prems"(5) a by simp
    show "\<forall>l \<in> set lits. literal_true U K s l" using "2.prems"(6) by simp
    show "\<And>a. Positive a \<in> set lits \<Longrightarrow> predicate a \<notin> set targets \<Longrightarrow> K (predicate a) \<subseteq> N (predicate a)"
      by (rule "2.prems"(7)) simp_all
  qed (rule "2.prems"(8))
  then show ?case using a by simp
qed (auto simp: literal_true_def)

definition program_predicates :: "rule list \<Rightarrow> string set" where
  "program_predicates rs =
     (\<Union>r \<in> set rs. insert (predicate (head r)) {predicate a | a. \<exists>l \<in> set (body r). literal_atom l = Some a})"

lemma program_predicate_body:
  "r \<in> set rs \<Longrightarrow> Positive a \<in> set (body r) \<Longrightarrow> predicate a \<in> program_predicates rs"
  unfolding program_predicates_def by (force simp: literal_atom_def)

lemma rules_for_iff: "r \<in> set (rules_for rs p) \<longleftrightarrow> r \<in> set rs \<and> predicate (head r) = p"
  by (auto simp: rules_for_def)

definition rewritten ::
    "rule list \<Rightarrow> string list \<Rightarrow> adornment list \<Rightarrow> magic_seed list \<Rightarrow> rule list \<Rightarrow> bool" where
  "rewritten rs targets ads seeds rs' =
     (adornments_closed rs targets ads
      \<and> (\<lambda>seed. Adornment (seed_pred seed) (seed_pattern seed)) ` set seeds \<subseteq> set ads
      \<and> set targets = seed_pred ` set seeds
      \<and> rewrite_rules rs targets ads seeds = Inr rs'
      \<and> magic_names ads \<inter> (program_predicates rs \<union> set targets) = {})"

lemma rewritten_rules:
  assumes "rewritten rs targets ads seeds rs'"
  shows "(\<forall>r \<in> set rs'. predicate (head r) \<in> set targets \<longrightarrow>
        (\<exists>ad r0. ad \<in> set ads \<and> r0 \<in> set (rules_for rs (ad_pred ad)) \<and> r = guarded_rule r0 (ad_pattern ad)))
    \<and> seed_rule ` set seeds \<subseteq> set rs'
    \<and> (\<forall>ad \<in> set ads. \<forall>r \<in> set (rules_for rs (ad_pred ad)). guarded_rule r (ad_pattern ad) \<in> set rs'
        \<and> (\<exists>ps. propagation_rules r (ad_pattern ad) targets = Inr ps \<and> set ps \<subseteq> set rs'))"
proof -
  obtain magic where rs': "rs' = filter (\<lambda>r. predicate (head r) \<notin> set targets) rs @ magic
      @ concat (map (\<lambda>ad. map (\<lambda>r. guarded_rule r (ad_pattern ad)) (rules_for rs (ad_pred ad))) ads)"
    and magic: "seed_rule ` set seeds \<subseteq> set magic" "\<forall>r \<in> set magic. predicate (head r) \<in> magic_names ads"
      "\<forall>ad \<in> set ads. \<forall>r \<in> set (rules_for rs (ad_pred ad)).
         \<exists>ps. propagation_rules r (ad_pattern ad) targets = Inr ps \<and> set ps \<subseteq> set magic"
    using rewrite_rules_result [of rs targets ads seeds] assms by (auto simp: rewritten_def)
  have "predicate (head r) \<notin> set targets" if "r \<in> set magic" for r
    using magic(2) assms that by (auto simp: rewritten_def)
  then have "\<forall>r \<in> set rs'. predicate (head r) \<in> set targets \<longrightarrow>
        (\<exists>ad r0. ad \<in> set ads \<and> r0 \<in> set (rules_for rs (ad_pred ad)) \<and> r = guarded_rule r0 (ad_pattern ad))"
    unfolding rs' by auto
  moreover have "\<forall>ad \<in> set ads. \<forall>r \<in> set (rules_for rs (ad_pred ad)). guarded_rule r (ad_pattern ad) \<in> set rs'
        \<and> (\<exists>ps. propagation_rules r (ad_pattern ad) targets = Inr ps \<and> set ps \<subseteq> set rs')"
    using magic(3) unfolding rs' by fastforce
  moreover have "seed_rule ` set seeds \<subseteq> set rs'" using magic(1) unfolding rs' by auto
  ultimately show ?thesis by blast
qed

text \<open>The rules of every other predicate stay as they are.\<close>

lemma rewritten_unchanged:
  assumes rw: "rewritten rs targets ads seeds rs'" and ads: "\<forall>ad \<in> set ads. ad_pred ad \<in> set targets"
    and u: "u \<notin> set targets" "u \<notin> magic_names ads"
  shows "rules_for rs' u = rules_for rs u"
proof -
  obtain magic where rs': "rs' = filter (\<lambda>r. predicate (head r) \<notin> set targets) rs @ magic
      @ concat (map (\<lambda>ad. map (\<lambda>r. guarded_rule r (ad_pattern ad)) (rules_for rs (ad_pred ad))) ads)"
    and magic: "\<forall>r \<in> set magic. predicate (head r) \<in> magic_names ads"
    using rewrite_rules_result [of rs targets ads seeds] rw by (auto simp: rewritten_def)
  have "rules_for (filter (\<lambda>r. predicate (head r) \<notin> set targets) rs) u = rules_for rs u"
    using u(1) unfolding rules_for_def filter_filter by (intro filter_cong) auto
  moreover have "rules_for magic u = []" using magic u(2) by (auto simp: rules_for_def filter_empty_conv)
  moreover have "rules_for (concat (map (\<lambda>ad. map (\<lambda>r. guarded_rule r (ad_pattern ad))
      (rules_for rs (ad_pred ad))) ads)) u = []"
    using ads u(1) by (auto simp: rules_for_def filter_empty_conv guarded_rule_def)
  ultimately show ?thesis by (simp add: rs' rules_for_def)
qed

text \<open>The rewritten rules derive nothing new.\<close>

lemma rewritten_sound:
  assumes rw: "rewritten rs targets ads seeds rs'" and p: "p \<in> set targets"
  shows "model U rs' (set targets \<union> magic_names ads) B p \<subseteq> model U rs (set targets) B p"
proof -
  let ?O = "model U rs (set targets) B"
  define J where "J q = (if q \<in> magic_names ads then UNIV else ?O q)" for q
  have disjoint: "magic_names ads \<inter> (program_predicates rs \<union> set targets) = {}"
    using rw unfolding rewritten_def by blast
  have "step U rs' (set targets \<union> magic_names ads) B J \<le> J"
  proof (rule le_funI, rule subsetI)
    fix q row assume row: "row \<in> step U rs' (set targets \<union> magic_names ads) B J q"
    consider "q \<in> magic_names ads" | "q \<in> set targets" "q \<notin> magic_names ads"
      | "q \<notin> set targets" "q \<notin> magic_names ads" by blast
    then show "row \<in> J q"
    proof cases
      case 2
      then obtain r where r: "r \<in> set rs'" "predicate (head r) = q" "row \<in> answers U J r"
        using row by (auto simp: step_def rules_for_iff)
      then obtain ad r0 where r0: "r0 \<in> set (rules_for rs (ad_pred ad))" "r = guarded_rule r0 (ad_pattern ad)"
        using rewritten_rules [OF rw] 2(1) by blast
      then have q: "r0 \<in> set rs" "predicate (head r0) = q" using r(2) by (simp_all add: rules_for_iff guarded_rule_def)
      have "literal_true U ?O s l" if "literal_true U J s l" "l \<in> set (body r0)" for s l
      proof (cases l)
        case (Positive a)
        then have "predicate a \<notin> magic_names ads"
          using program_predicate_body [OF q(1)] that(2) disjoint by blast
        then show ?thesis using that(1) Positive by (simp add: J_def)
      qed (use that(1) in \<open>simp_all add: literal_true_def\<close>)
      then have "row \<in> answers U ?O r0" using r(3) unfolding r0(2) answers_def guarded_rule_def by auto
      then have "row \<in> ?O q" using model_rule [OF q(1)] q(2) 2(1) by auto
      then show ?thesis using 2 by (simp add: J_def)
    next
      case 3
      then show ?thesis using row by (simp add: J_def step_def model_given)
    qed (simp add: J_def)
  qed
  then have "model U rs' (set targets \<union> magic_names ads) B p \<subseteq> J p"
    using model_least by (metis le_funE)
  moreover have "p \<notin> magic_names ads" using p disjoint by blast
  ultimately show ?thesis by (simp add: J_def)
qed

lemma rewritten_complete:
  fixes U :: "'v universe" and B :: "'v relations"
  assumes rw: "rewritten rs targets ads seeds rs'"
  defines "N \<equiv> model U rs' (set targets \<union> magic_names ads) B"
  assumes row: "row \<in> model U rs (set targets) B p" and p: "p \<in> set targets"
    and pattern: "Adornment p pattern \<in> set ads" "length pattern = length row"
    and asked: "project pattern row \<in> N (magic_predicate p pattern)"
  shows "row \<in> N p"
proof -
  define K where "K q = (if q \<in> set targets
      then {row. \<forall>pattern. Adornment q pattern \<in> set ads \<longrightarrow> length pattern = length row \<longrightarrow>
              project pattern row \<in> N (magic_predicate q pattern) \<longrightarrow> row \<in> N q}
      else B q)" for q
  have disjoint: "magic_names ads \<inter> (program_predicates rs \<union> set targets) = {}"
    using rw unfolding rewritten_def by blast
  have fires: "answers U N r \<subseteq> N (predicate (head r))"
    if "r \<in> set rs'" "predicate (head r) \<in> set targets \<union> magic_names ads" for r
    using model_rule [OF that] unfolding N_def by blast
  have "step U rs (set targets) B K \<le> K"
  proof (rule le_funI, rule subsetI)
    fix q row assume row: "row \<in> step U rs (set targets) B K q"
    show "row \<in> K q"
    proof (cases "q \<in> set targets")
      case False
      then show ?thesis using row by (simp add: step_def K_def)
    next
      case True
      then obtain r where r: "r \<in> set rs" "predicate (head r) = q" "row \<in> answers U K r"
        using row by (auto simp: step_def rules_for_iff)
      then obtain s where body: "\<forall>l \<in> set (body r). literal_true U K s l"
        and hd: "list_all2 (denotes U s) (terms (head r)) row" by (auto simp: answers_def)
      have "row \<in> N q" if pat: "Adornment q pattern \<in> set ads"
        and asked: "project pattern row \<in> N (magic_predicate q pattern)" for pattern
      proof -
        let ?m = "Positive (magic_atom_for (head r) pattern)"
        have mine: "r \<in> set (rules_for rs (ad_pred (Adornment q pattern)))" using r by (simp add: rules_for_iff)
        obtain found where found: "discover_body_adornments r pattern targets = Inr found" "set found \<subseteq> set ads"
          using rw pat mine unfolding rewritten_def adornments_closed_def by fastforce
        obtain ps where ps: "propagation_rules r pattern targets = Inr ps" "set ps \<subseteq> set rs'"
          and guarded: "guarded_rule r pattern \<in> set rs'"
          using rewritten_rules [OF rw] pat mine by fastforce
        have heads: "\<forall>q \<in> set ps. predicate (head q) \<in> magic_names ads"
          using propagation_rules_heads [of rs targets ads] rw pat mine ps(1) unfolding rewritten_def
          by (metis Inr_inject adornment.sel(2))
        have m: "literal_true U N s ?m"
          using asked project_denotes [OF hd, of pattern] r(2)
          by (auto simp: magic_atom_for_def bound_terms_project)
        have "\<forall>l \<in> set (body r). literal_true U N s l"
        proof (rule body_walk [OF found(1) [unfolded discover_body_adornments_def] found(2)
              ps(1) [unfolded propagation_rules_def]])
          show "\<And>r. r \<in> set ps \<Longrightarrow> answers U N r \<subseteq> N (predicate (head r))" using fires ps(2) heads by blast
          show "\<forall>l \<in> set [?m]. literal_true U N s l" using m by simp
          show "\<forall>l \<in> set (body r). literal_true U K s l" by (rule body)
          show "K (predicate a) \<subseteq> N (predicate a)"
            if "Positive a \<in> set (body r)" "predicate a \<notin> set targets" for a
          proof -
            have "predicate a \<notin> set targets \<union> magic_names ads"
              using program_predicate_body [OF r(1) that(1)] disjoint that(2) by blast
            then have "N (predicate a) = B (predicate a)" unfolding N_def by (rule model_given)
            then show ?thesis using that(2) by (simp add: K_def)
          qed
        qed (auto simp: K_def)
        then have "row \<in> answers U N (guarded_rule r pattern)"
          unfolding answers_def guarded_rule_def using m hd by auto
        then show ?thesis using fires [OF guarded] True r(2) by (auto simp: guarded_rule_def)
      qed
      then show ?thesis using True by (simp add: K_def)
    qed
  qed
  then have "model U rs (set targets) B p \<subseteq> K p" using model_least by (metis le_funE)
  then show ?thesis using row p pattern asked by (auto simp: K_def)
qed

section \<open>Seeds, targets and recursion\<close>

definition depends_on :: "rule list \<Rightarrow> (string \<times> string) set" where
  "depends_on rs = {(p, q). q \<in> set (dependencies rs p)}"

lemma reaches_sound: "reaches rs t ps seen \<Longrightarrow> \<exists>x \<in> set ps. (x, t) \<in> (depends_on rs)\<^sup>*"
proof (induction rs t ps seen rule: reaches.induct)
  case (2 rs t p ps seen)
  show ?case
  proof (cases "p = t \<or> p \<in> set seen")
    case True
    then show ?thesis using 2 by (auto split: if_splits)
  next
    case False
    then obtain x where "x \<in> set (dependencies rs p @ ps)" "(x, t) \<in> (depends_on rs)\<^sup>*" using 2 by auto
    then show ?thesis by (auto simp: depends_on_def intro: converse_rtrancl_into_rtrancl)
  qed
qed simp

lemma reaches_complete:
  assumes "\<not> reaches rs t ps seen" and "\<forall>y \<in> set seen. set (dependencies rs y) \<subseteq> set seen \<union> set ps"
    and "t \<notin> set seen"
  shows "\<exists>C. set seen \<union> set ps \<subseteq> C \<and> (\<forall>y \<in> C. set (dependencies rs y) \<subseteq> C) \<and> t \<notin> C"
  using assms
proof (induction rs t ps seen rule: reaches.induct)
  case (1 rs t seen)
  then show ?case by (intro exI [of _ "set seen"]) auto
next
  case (2 rs t p ps seen)
  show ?case
  proof (cases "p \<in> set seen")
    case True
    then have "p \<noteq> t" "\<not> reaches rs t ps seen" using "2.prems"(1,3) by (auto split: if_splits)
    moreover have "\<forall>y \<in> set seen. set (dependencies rs y) \<subseteq> set seen \<union> set ps"
      using "2.prems"(2) True by auto
    ultimately have "\<exists>C. set seen \<union> set ps \<subseteq> C \<and> (\<forall>y \<in> C. set (dependencies rs y) \<subseteq> C) \<and> t \<notin> C"
      using "2.IH"(1) [OF _ True] "2.prems"(3) by blast
    moreover have "set seen \<union> set (p # ps) = set seen \<union> set ps" using True by auto
    ultimately show ?thesis by (simp only:)
  next
    case False
    then have "p \<noteq> t" "\<not> reaches rs t (dependencies rs p @ ps) (p # seen)" using "2.prems"(1) by (auto split: if_splits)
    moreover have "\<forall>y \<in> set (p # seen). set (dependencies rs y) \<subseteq> set (p # seen) \<union> set (dependencies rs p @ ps)"
      using "2.prems"(2) by auto
    ultimately obtain C where "set (p # seen) \<union> set (dependencies rs p @ ps) \<subseteq> C"
      and C: "\<forall>y \<in> C. set (dependencies rs y) \<subseteq> C" "t \<notin> C"
      using "2.IH"(2) [OF _ False] "2.prems"(3) by (metis set_ConsD)
    then have "set seen \<union> set (p # ps) \<subseteq> C" by auto
    then show ?thesis using C by blast
  qed
qed


text \<open>A query seeds the rewriting when its predicate is recursive and some argument is a constant.\<close>

definition seeded :: "program \<Rightarrow> query \<Rightarrow> bool" where
  "seeded p q =
     (predicate (q_atom q) \<in> set (recursive_predicates (rules p))
      \<and> list_ex is_seed_term (terms (q_atom q)))"

definition query_targets :: "program \<Rightarrow> string set" where
  "query_targets p = (\<lambda>q. predicate (q_atom q)) ` {q \<in> set (queries p). seeded p q}"

definition the_seed :: "query \<Rightarrow> magic_seed" where
  "the_seed q =
     (let a = q_atom q; pattern = map is_seed_term (terms a)
      in \<lparr>seed_pred = predicate a, seed_pattern = pattern, seed_terms = bound_terms a pattern\<rparr>)"

lemma query_seed_eq:
  "query_seed (recursive_predicates (rules p)) q = (if seeded p q then Some (the_seed q) else None)"
proof -
  have "list_all (\<lambda>(t, bound). \<not> bound \<or> is_supported_magic_term t) (zip ts (map is_seed_term ts))" for ts
    by (induction ts) (auto simp: is_seed_term_def)
  moreover have "list_ex id (map is_seed_term ts) = list_ex is_seed_term ts" for ts
    by (induction ts) simp_all
  ultimately show ?thesis by (simp add: query_seed_def seeded_def the_seed_def Let_def)
qed

lemma collect_query_seeds_set:
  "set (collect_query_seeds p (recursive_predicates (rules p))) = the_seed ` {q \<in> set (queries p). seeded p q}"
proof -
  have "set (foldl (\<lambda>out q. case query_seed (recursive_predicates (rules p)) q of None \<Rightarrow> out
      | Some seed \<Rightarrow> add_new seed out) acc qs) = set acc \<union> the_seed ` {q \<in> set qs. seeded p q}" for acc qs
    by (induction qs arbitrary: acc) (auto simp: query_seed_eq)
  then show ?thesis by (simp add: collect_query_seeds_def)
qed

lemma magic_targets_set:
  "set (magic_targets (collect_query_seeds p (recursive_predicates (rules p)))) = query_targets p"
  by (auto simp: magic_targets_def collect_query_seeds_set query_targets_def the_seed_def Let_def image_image)

lemma expand_adornments_closed:
  "expand_adornments rs targets ads = Inr ads' \<Longrightarrow> set ads \<subseteq> set ads' \<and> adornments_closed rs targets ads'"
  using expand_closed unfolding adornments_closed_def by blast

lemma magic_names_report [simp]: "set (generated_predicates (applied_report ads)) = magic_names ads"
  by (simp add: applied_report_def magic_names_def)

lemma rewrite_enabled_cases:
  assumes "rewrite_enabled p mode = Inr (p', report)"
  shows "p' = p \<and> mode \<noteq> MsOn \<and> ms_status report = MagicDeclined
    \<or> (\<exists>ads. ms_status report = MagicApplied \<and> p' = p\<lparr>rules := rules p'\<rparr> \<and> report = applied_report ads
      \<and> unsupported_target_reasons (rules p)
          (magic_targets (collect_query_seeds p (recursive_predicates (rules p)))) (recursive_predicates (rules p)) = []
      \<and> \<not> is_probabilistic_profile p
      \<and> expand_adornments (rules p) (magic_targets (collect_query_seeds p (recursive_predicates (rules p))))
          (initial_adornments (collect_query_seeds p (recursive_predicates (rules p)))) = Inr ads
      \<and> rewrite_rules (rules p) (magic_targets (collect_query_seeds p (recursive_predicates (rules p)))) ads
          (collect_query_seeds p (recursive_predicates (rules p))) = Inr (rules p'))"
  using assms
  by (auto simp: rewrite_enabled_def Let_def decline_or_error_def with_status_def bind_res_Inr_iff map_res_Inr_iff
      applied_report_def split: if_splits)

lemma applied_rewritten:
  assumes run: "rewrite_magic_sets p = Inr (p', report)" and status: "ms_status report = MagicApplied"
    and fresh: "set (generated_predicates report) \<inter> program_predicates (rules p) = {}"
  obtains ads targets seeds where "rewritten (rules p) targets ads seeds (rules p')"
    and "set targets = query_targets p" and "set (generated_predicates report) = magic_names ads"
    and "set seeds = the_seed ` {q \<in> set (queries p). seeded p q}" and "p' = p\<lparr>rules := rules p'\<rparr>"
    and "\<forall>ad \<in> set ads. ad_pred ad \<in> set targets"
proof -
  obtain mode where "rewrite_enabled p mode = Inr (p', report)"
    using run status by (auto simp: rewrite_magic_sets_def with_status_def split: option.splits magic_sets_mode.splits)
  then obtain ads where ads: "report = applied_report ads" "p' = p\<lparr>rules := rules p'\<rparr>"
      "expand_adornments (rules p) (magic_targets (collect_query_seeds p (recursive_predicates (rules p))))
        (initial_adornments (collect_query_seeds p (recursive_predicates (rules p)))) = Inr ads"
      "rewrite_rules (rules p) (magic_targets (collect_query_seeds p (recursive_predicates (rules p)))) ads
        (collect_query_seeds p (recursive_predicates (rules p))) = Inr (rules p')"
    using rewrite_enabled_cases status by fastforce
  let ?seeds = "collect_query_seeds p (recursive_predicates (rules p))"
  have "query_targets p \<subseteq> program_predicates (rules p)"
    by (auto simp: query_targets_def seeded_def recursive_predicates_def program_predicates_def)
  then have "magic_names ads \<inter> (program_predicates (rules p) \<union> set (magic_targets ?seeds)) = {}"
    using fresh unfolding ads(1) magic_targets_set magic_names_report by blast
  moreover have "set (magic_targets ?seeds) = seed_pred ` set ?seeds" by (simp add: magic_targets_def)
  ultimately have "rewritten (rules p) (magic_targets ?seeds) ads ?seeds (rules p')"
    using expand_adornments_closed [OF ads(3)] ads(4) by (simp add: rewritten_def)
  moreover have "\<forall>ad \<in> set ads. ad_pred ad \<in> set (magic_targets ?seeds)"
    by (rule expand_adornments_targets [OF ads(3)]) (auto simp: magic_targets_def)
  ultimately show ?thesis
    by (intro that [OF _ magic_targets_set _ collect_query_seeds_set ads(2)]) (simp_all add: ads(1))
qed

section \<open>What depends on the rewritten predicates\<close>

text \<open>
  The predicates that call a rewritten one, directly or not, and the condition that a rewritten
  predicate calls no such predicate, except rewritten ones.\<close>

definition affected :: "program \<Rightarrow> string set" where
  "affected p = {u. \<exists>t \<in> query_targets p. (u, t) \<in> (depends_on (rules p))\<^sup>*}"

definition isolated :: "program \<Rightarrow> bool" where
  "isolated p =
     (\<forall>r \<in> set (rules p). predicate (head r) \<in> query_targets p \<longrightarrow>
        set (body_predicates r) \<inter> affected p \<subseteq> query_targets p)"

lemma targets_affected: "query_targets p \<subseteq> affected p"
  by (auto simp: affected_def)

lemma reaches_path_iff: "reaches rs t [u] [] \<longleftrightarrow> (u, t) \<in> (depends_on rs)\<^sup>*"
proof
  assume "reaches rs t [u] []"
  from reaches_sound [OF this] show "(u, t) \<in> (depends_on rs)\<^sup>*" by simp
next
  assume path: "(u, t) \<in> (depends_on rs)\<^sup>*"
  show "reaches rs t [u] []"
  proof (rule ccontr)
    assume "\<not> reaches rs t [u] []"
    then obtain C where C: "u \<in> C" "\<forall>y \<in> C. set (dependencies rs y) \<subseteq> C" "t \<notin> C"
      using reaches_complete [of rs t "[u]" "[]"] by auto
    from path have "t \<in> C"
      by (induction rule: rtrancl_induct) (use C(1,2) in \<open>auto simp: depends_on_def\<close>)
    then show False using C(3) by simp
  qed
qed

lemma affected_iff: "u \<in> affected p \<longleftrightarrow> (\<exists>t \<in> query_targets p. reaches (rules p) t [u] [])"
  unfolding affected_def reaches_path_iff by simp

lemma unaffected_closed: "u \<notin> affected p \<Longrightarrow> set (dependencies (rules p) u) \<inter> affected p = {}"
  unfolding affected_def depends_on_def by (auto intro: converse_rtrancl_into_rtrancl)

lemma body_predicate_in: "Positive a \<in> set (body r) \<Longrightarrow> predicate a \<in> set (body_predicates r)"
proof -
  have "Positive a \<in> set ls \<Longrightarrow>
      predicate a \<in> set (List.map_filter (\<lambda>l. map_option predicate (literal_atom l)) ls)" for ls
    by (induction ls) (auto simp: List.map_filter_simps literal_atom_def split: option.splits)
  then show "Positive a \<in> set (body r) \<Longrightarrow> predicate a \<in> set (body_predicates r)"
    by (simp add: body_predicates_def)
qed

section \<open>Properties of the rewriting\<close>

lemma seeded_query_answers:
  assumes rw: "rewritten (rules p) targets ads seeds rs'"
    and targets: "set targets = query_targets p"
    and seeds: "set seeds = the_seed ` {q \<in> set (queries p). seeded p q}"
    and q: "q \<in> set (queries p)" "seeded p q"
  shows "query_answers U (model U rs' (set targets \<union> magic_names ads) B) (q_atom q)
    = query_answers U (model U (rules p) (set targets) B) (q_atom q)"
proof -
  let ?a = "q_atom q"
  let ?pattern = "map is_seed_term (terms ?a)"
  let ?N = "model U rs' (set targets \<union> magic_names ads) B"
  have target: "predicate ?a \<in> set targets" using q unfolding targets query_targets_def by blast
  have seed: "the_seed q \<in> set seeds" using seeds q by blast
  have pattern: "Adornment (predicate ?a) ?pattern \<in> set ads"
    using rw seed unfolding rewritten_def by (force simp: the_seed_def Let_def)
  have "row \<in> ?N (predicate ?a)"
    if row: "row \<in> model U (rules p) (set targets) B (predicate ?a)" and match: "list_all2 (denotes U s) (terms ?a) row"
    for row s
  proof (rule rewritten_complete [OF rw row target pattern])
    show "length ?pattern = length row" using list_all2_lengthD [OF match] by simp
    have "seed_rule (the_seed q) \<in> set rs'" using rewritten_rules [OF rw] seed by blast
    moreover have "predicate (head (seed_rule (the_seed q))) \<in> set targets \<union> magic_names ads"
      using pattern by (force simp: seed_rule_def the_seed_def Let_def magic_names_def)
    moreover have "project ?pattern row \<in> answers U ?N (seed_rule (the_seed q))"
      using project_denotes [OF match, of ?pattern]
      by (auto simp: answers_def seed_rule_def the_seed_def Let_def bound_terms_project)
    ultimately have "project ?pattern row \<in> ?N (predicate (head (seed_rule (the_seed q))))" by (rule model_rule)
    then show "project ?pattern row \<in> ?N (magic_predicate (predicate ?a) ?pattern)"
      by (simp add: seed_rule_def the_seed_def Let_def)
  qed
  then show ?thesis
    using rewritten_sound [OF rw, of _ U B] target unfolding query_answers_def by blast
qed

text \<open>An isolated target rule reads rewritten predicates, and others that nothing rewritten changes.\<close>

lemma isolated_agree:
  assumes "isolated p" and "G \<inter> program_predicates (rules p) = {}"
    and "\<forall>u. u \<notin> affected p \<union> G \<longrightarrow> B' u = B u" and "t \<in> query_targets p"
  shows "model U (rules p) (query_targets p) B' t = model U (rules p) (query_targets p) B t"
proof (rule model_agree_eq [OF _ assms(4)])
  fix r a assume r: "r \<in> set (rules p)" "predicate (head r) \<in> query_targets p" "Positive a \<in> set (body r)"
  have "predicate a \<in> query_targets p \<or> predicate a \<notin> affected p"
    using assms(1) r body_predicate_in [OF r(3)] unfolding isolated_def by blast
  moreover have "predicate a \<notin> G" using program_predicate_body [OF r(1,3)] assms(2) by blast
  ultimately show "predicate a \<in> query_targets p \<or> B' (predicate a) = B (predicate a)"
    using assms(3) by blast
qed

lemma preserved_given:
  assumes run: "rewrite_magic_sets p = Inr (p', report)" "ms_status report = MagicApplied"
    and fresh: "set (generated_predicates report) \<inter> program_predicates (rules p) = {}"
    and q: "q \<in> set (queries p)" "seeded p q" and iso: "isolated p"
    and agree: "\<forall>u. u \<notin> affected p \<union> set (generated_predicates report) \<longrightarrow> B' u = B u"
  shows "query_answers U (model U (rules p') (query_targets p \<union> set (generated_predicates report)) B') (q_atom q)
      = query_answers U (model U (rules p) (query_targets p) B) (q_atom q)
    \<and> (\<forall>t \<in> query_targets p. model U (rules p') (query_targets p \<union> set (generated_predicates report)) B' t
          \<subseteq> model U (rules p) (query_targets p) B t)"
proof -
  obtain ads targets seeds where rw: "rewritten (rules p) targets ads seeds (rules p')"
    and sets: "set targets = query_targets p" "set (generated_predicates report) = magic_names ads"
    and seeds: "set seeds = the_seed ` {q \<in> set (queries p). seeded p q}"
    by (rule applied_rewritten [OF run fresh])
  have eq: "model U (rules p) (query_targets p) B' t = model U (rules p) (query_targets p) B t"
    if "t \<in> query_targets p" for t
    by (rule isolated_agree [OF iso fresh agree that])
  have target: "predicate (q_atom q) \<in> query_targets p" using q unfolding query_targets_def by blast
  have "query_answers U (model U (rules p) (query_targets p) B') (q_atom q)
      = query_answers U (model U (rules p) (query_targets p) B) (q_atom q)"
    unfolding query_answers_def eq [OF target] by (rule refl)
  then show ?thesis
    using seeded_query_answers [OF rw sets(1) seeds q, of U B'] rewritten_sound [OF rw, of _ U B'] eq
    unfolding sets by simp
qed

text \<open>C5: Let the rewriting be applied to a program in which no rewritten predicate calls, other than
  rewritten predicates, one that depends on a rewritten predicate. Then every query that seeded it has
  the same answers over the rewritten rules as over the original ones, and no rewritten predicate gets
  a row it did not have, for any meaning of constants and terms. The predicates that depend on no
  rewritten one keep their rules and read only each other, so their relations \<open>B\<close> are the same before
  and after. The other predicates that are not rewritten may have any relations, \<open>B\<close> before and \<open>B'\<close>
  after. In particular the answers are the same in the least models of all the predicates that depend
  on the rewritten ones. Nothing but the rules of the program changes.\<close>

theorem magic_preserves_answers:
  assumes "rewrite_magic_sets p = Inr (p', report)" and "ms_status report = MagicApplied"
    and "set (generated_predicates report) \<inter> program_predicates (rules p) = {}"
    and "q \<in> set (queries p)" and "seeded p q" and "isolated p"
    and "\<forall>u. u \<notin> affected p \<union> set (generated_predicates report) \<longrightarrow> B' u = B u"
  shows "query_answers U (model U (rules p') (query_targets p \<union> set (generated_predicates report)) B') (q_atom q)
      = query_answers U (model U (rules p) (query_targets p) B) (q_atom q)
    \<and> (\<forall>t \<in> query_targets p. model U (rules p') (query_targets p \<union> set (generated_predicates report)) B' t
          \<subseteq> model U (rules p) (query_targets p) B t)
    \<and> query_answers U (model U (rules p') (affected p \<union> set (generated_predicates report)) B) (q_atom q)
      = query_answers U (model U (rules p) (affected p) B) (q_atom q)
    \<and> (\<forall>u. u \<notin> query_targets p \<union> set (generated_predicates report) \<longrightarrow>
          rules_for (rules p') u = rules_for (rules p) u)
    \<and> (\<forall>u. u \<notin> affected p \<longrightarrow> set (dependencies (rules p) u) \<inter> affected p = {})
    \<and> p' = p\<lparr>rules := rules p'\<rparr>"
proof -
  let ?G = "set (generated_predicates report)"
  obtain ads targets seeds where rw: "rewritten (rules p) targets ads seeds (rules p')"
    and sets: "set targets = query_targets p" "?G = magic_names ads"
    and p': "p' = p\<lparr>rules := rules p'\<rparr>" and ads: "\<forall>ad \<in> set ads. ad_pred ad \<in> set targets"
    by (rule applied_rewritten [OF assms(1-3)])
  let ?M = "model U (rules p) (affected p) B"
  let ?M' = "model U (rules p') (affected p \<union> ?G) B"
  have "model U (rules p) (query_targets p) ?M = ?M" by (rule model_nested [OF targets_affected])
  moreover have "model U (rules p') (query_targets p \<union> ?G) ?M' = ?M'"
    by (rule model_nested) (use targets_affected in blast)
  moreover have "\<forall>u. u \<notin> affected p \<union> ?G \<longrightarrow> ?M' u = ?M u" by (simp add: model_given)
  ultimately have "query_answers U ?M' (q_atom q) = query_answers U ?M (q_atom q)"
    using preserved_given [OF assms(1-6), of ?M' ?M U] by simp
  moreover have "\<forall>u. u \<notin> query_targets p \<union> ?G \<longrightarrow> rules_for (rules p') u = rules_for (rules p) u"
    using rewritten_unchanged [OF rw ads] unfolding sets by blast
  ultimately show ?thesis
    using preserved_given [OF assms, of U] p' unaffected_closed [of _ p] by blast
qed







section \<open>A bound reachability query\<close>

definition magic_directives :: "magic_sets_mode \<Rightarrow> directives" where
  "magic_directives mode = \<lparr>prob_engine = None, prob_cache = None, prob_samples = None, prob_seed = None,
     prob_confidence = None, prob_method = None, prob_max_nonmonotone_iterations = None,
     max_recursion_depth = None, epistemic_mode = None, magic_sets = Some mode\<rparr>"

definition reach_atom :: "ast_term \<Rightarrow> ast_term \<Rightarrow> atom" where
  "reach_atom s t = \<lparr>predicate = ''reach'', terms = [s, t]\<rparr>"

definition edge_literal :: "string \<Rightarrow> string \<Rightarrow> body_literal" where
  "edge_literal x y = Positive \<lparr>predicate = ''edge'', terms = [Variable x, Variable y]\<rparr>"

definition reach_program :: "magic_sets_mode \<Rightarrow> body_literal list \<Rightarrow> program" where
  "reach_program mode recursive_body =
     \<lparr>rules =
        [\<lparr>head = reach_atom (Variable ''X'') (Variable ''Y''), body = [edge_literal ''X'' ''Y'']\<rparr>,
         \<lparr>head = reach_atom (Variable ''X'') (Variable ''Z''), body = recursive_body\<rparr>],
      queries = [\<lparr>q_atom = reach_atom (Integer 1) (Variable ''Y'')\<rparr>,
        \<lparr>q_atom = reach_atom (Variable ''X'') (Variable ''Y'')\<rparr>],
      prob_facts = [], annotated_disjunctions = [], evidence_stmts = [], prob_queries = [],
      learnable_rules = [], directives = magic_directives mode\<rparr>"

definition left_linear :: "body_literal list" where
  "left_linear = [Positive (reach_atom (Variable ''X'') (Variable ''Y'')), edge_literal ''Y'' ''Z'']"


definition reach_rewritten :: program where
  "reach_rewritten = fst (projr (rewrite_magic_sets (reach_program MsOn left_linear)))"

definition reach_report :: magic_set_report where
  "reach_report = snd (projr (rewrite_magic_sets (reach_program MsOn left_linear)))"

text \<open>The ground terms as their own values, and two edges.\<close>

definition ground_terms :: "ast_term universe" where
  "ground_terms = \<lparr>u_const = id, u_list = ListTerm, u_cons = ConsTerm, u_compound = Compound\<rparr>"

definition two_edges :: "ast_term relations" where
  "two_edges = (\<lambda>_. {})(''edge'' := {[Integer 1, Integer 2], [Integer 3, Integer 4]})"

lemma reach_run: "rewrite_magic_sets (reach_program MsOn left_linear) = Inr (reach_rewritten, reach_report)"
proof -
  have "is_ok (rewrite_magic_sets (reach_program MsOn left_linear))" by code_simp
  then show ?thesis by (auto simp: is_ok_iff reach_rewritten_def reach_report_def)
qed

lemma reach_targets: "query_targets (reach_program MsOn left_linear) = {''reach''}"
proof -
  have "seeded (reach_program MsOn left_linear) \<lparr>q_atom = reach_atom (Integer 1) (Variable ''Y'')\<rparr>"
    and "\<not> seeded (reach_program MsOn left_linear) \<lparr>q_atom = reach_atom (Variable ''X'') (Variable ''Y'')\<rparr>"
    by code_simp+
  then have "{q \<in> set (queries (reach_program MsOn left_linear)). seeded (reach_program MsOn left_linear) q}
      = {\<lparr>q_atom = reach_atom (Integer 1) (Variable ''Y'')\<rparr>}"
    by (auto simp: reach_program_def)
  then show ?thesis by (simp add: query_targets_def reach_atom_def)
qed

lemma reach_isolated: "isolated (reach_program MsOn left_linear)"
proof -
  have "\<not> reaches (rules (reach_program MsOn left_linear)) ''reach'' [''edge''] []" by code_simp
  then have "''edge'' \<notin> affected (reach_program MsOn left_linear)" by (simp add: affected_iff reach_targets)
  moreover have "set (body_predicates r) \<subseteq> {''reach'', ''edge''}"
    if "r \<in> set (rules (reach_program MsOn left_linear))" for r
    using that by (auto simp: reach_program_def left_linear_def edge_literal_def reach_atom_def body_predicates_def
        List.map_filter_simps literal_atom_def)
  ultimately show ?thesis unfolding isolated_def reach_targets by blast
qed

theorem magic_preserves_answers_witness:
  "query_answers ground_terms
      (model ground_terms (rules reach_rewritten) {''reach'', ''__xlog_magic_reach_bf''} two_edges)
      (reach_atom (Integer 1) (Variable ''Y''))
    = query_answers ground_terms
      (model ground_terms (rules (reach_program MsOn left_linear)) {''reach''} two_edges)
      (reach_atom (Integer 1) (Variable ''Y''))
    \<and> generated_predicates reach_report = [''__xlog_magic_reach_bf'']"
proof -
  let ?q = "\<lparr>q_atom = reach_atom (Integer 1) (Variable ''Y'')\<rparr>"
  have status: "ms_status reach_report = MagicApplied" by code_simp
  have gen: "generated_predicates reach_report = [''__xlog_magic_reach_bf'']" by code_simp
  have fresh: "set (generated_predicates reach_report) \<inter> program_predicates (rules (reach_program MsOn left_linear)) = {}"
    by (auto simp: gen program_predicates_def reach_program_def left_linear_def reach_atom_def edge_literal_def literal_atom_def)
  have q: "?q \<in> set (queries (reach_program MsOn left_linear))" by (simp add: reach_program_def)
  have seed: "seeded (reach_program MsOn left_linear) ?q" by code_simp
  show ?thesis
    using magic_preserves_answers
      [OF reach_run status fresh q seed reach_isolated, of two_edges two_edges ground_terms] gen
    by (simp add: reach_targets insert_commute)
qed

section \<open>Limits of the rewriting\<close>

text \<open>
  A query of the same predicate that is not seeded reads the restricted relation: the edge from 3 to 4 is
  an answer of \<open>reach(X, Y)\<close> before the rewriting and none after it, though the rewriting is applied.\<close>

lemma reach_rewritten_rules: "rules reach_rewritten =
   [\<lparr>head = \<lparr>predicate = ''__xlog_magic_reach_bf'', terms = [Integer 1]\<rparr>, body = []\<rparr>,
    \<lparr>head = reach_atom (Variable ''X'') (Variable ''Y''),
     body = [Positive \<lparr>predicate = ''__xlog_magic_reach_bf'', terms = [Variable ''X'']\<rparr>, edge_literal ''X'' ''Y'']\<rparr>,
    \<lparr>head = reach_atom (Variable ''X'') (Variable ''Z''),
     body = Positive \<lparr>predicate = ''__xlog_magic_reach_bf'', terms = [Variable ''X'']\<rparr> # left_linear\<rparr>]"
  by code_simp

lemma unseeded_query_loses_answers:
  "[Integer 3, Integer 4] \<in> query_answers ground_terms
     (model ground_terms (rules (reach_program MsOn left_linear)) {''reach''} two_edges)
     (reach_atom (Variable ''X'') (Variable ''Y''))
   \<and> [Integer 3, Integer 4] \<notin> query_answers ground_terms
     (model ground_terms (rules reach_rewritten) {''reach'', ''__xlog_magic_reach_bf''} two_edges)
     (reach_atom (Variable ''X'') (Variable ''Y''))"
proof
  let ?O = "model ground_terms (rules (reach_program MsOn left_linear)) {''reach''} two_edges"
  let ?N = "model ground_terms (rules reach_rewritten) {''reach'', ''__xlog_magic_reach_bf''} two_edges"
  let ?r = "\<lparr>head = reach_atom (Variable ''X'') (Variable ''Y''), body = [edge_literal ''X'' ''Y'']\<rparr>"
  let ?s = "(\<lambda>x. Integer 4)(''X'' := Integer 3)"
  have "?O ''edge'' = two_edges ''edge''" by (rule model_given) simp
  then have edge: "[Integer 3, Integer 4] \<in> ?O ''edge''" by (simp add: two_edges_def)
  have "[Integer 3, Integer 4] \<in> answers ground_terms ?O ?r"
    unfolding answers_def
    by (rule CollectI, rule exI [of _ ?s]) (auto simp: edge_literal_def reach_atom_def intro: bexI [OF _ edge])
  then have "[Integer 3, Integer 4] \<in> ?O (predicate (head ?r))"
    by (rule model_rule [rotated 2]) (simp_all add: reach_program_def reach_atom_def)
  then show "[Integer 3, Integer 4] \<in> query_answers ground_terms ?O (reach_atom (Variable ''X'') (Variable ''Y''))"
    unfolding query_answers_def by (auto simp: reach_atom_def intro: exI [of _ ?s])
  define J :: "ast_term relations" where "J p = (if p = ''reach'' then {row. hd row = Integer 1}
    else if p = ''__xlog_magic_reach_bf'' then {[Integer 1]} else two_edges p)" for p
  have "step ground_terms (rules reach_rewritten) {''reach'', ''__xlog_magic_reach_bf''} two_edges J \<le> J"
    by (rule le_funI)
      (auto simp: step_def rules_for_iff reach_rewritten_rules answers_def J_def reach_atom_def ground_terms_def
        list_all2_Cons1)
  then have "?N ''reach'' \<subseteq> J ''reach''" using model_least by (metis le_funE)
  then show "[Integer 3, Integer 4] \<notin> query_answers ground_terms ?N (reach_atom (Variable ''X'') (Variable ''Y''))"
    by (auto simp: query_answers_def reach_atom_def J_def)
qed

text \<open>
  Two seeded queries, one of a predicate \<open>far\<close> that reads the other queried predicate \<open>reach\<close> through
  \<open>via\<close>, which is not rewritten: \<open>reach\<close> is restricted to the rows from 1, so \<open>via\<close> shrinks too, and
  the answer \<open>far(3, 4)\<close> is lost though its query seeded the rewriting and the rewriting is applied.\<close>

definition step_atom :: "string \<Rightarrow> string \<Rightarrow> string \<Rightarrow> atom" where
  "step_atom q x y = \<lparr>predicate = q, terms = [Variable x, Variable y]\<rparr>"

definition linear_rules :: "string \<Rightarrow> string \<Rightarrow> rule list" where
  "linear_rules q e =
     [\<lparr>head = step_atom q ''X'' ''Y'', body = [Positive (step_atom e ''X'' ''Y'')]\<rparr>,
      \<lparr>head = step_atom q ''X'' ''Z'',
       body = [Positive (step_atom q ''X'' ''Y''), Positive (step_atom e ''Y'' ''Z'')]\<rparr>]"

definition via_rule :: rule where
  "via_rule = \<lparr>head = step_atom ''via'' ''X'' ''Y'', body = [Positive (step_atom ''reach'' ''X'' ''Y'')]\<rparr>"

definition chained_program :: program where
  "chained_program =
     \<lparr>rules = linear_rules ''reach'' ''edge'' @ [via_rule] @ linear_rules ''far'' ''via'',
      queries = [\<lparr>q_atom = reach_atom (Integer 1) (Variable ''Y'')\<rparr>,
        \<lparr>q_atom = \<lparr>predicate = ''far'', terms = [Integer 3, Variable ''Y'']\<rparr>\<rparr>],
      prob_facts = [], annotated_disjunctions = [], evidence_stmts = [], prob_queries = [],
      learnable_rules = [], directives = magic_directives MsOn\<rparr>"

definition magic_guard :: "string \<Rightarrow> body_literal" where
  "magic_guard q = Positive \<lparr>predicate = ''__xlog_magic_'' @ q @ ''_bf'', terms = [Variable ''X'']\<rparr>"

definition guarded_linear :: "string \<Rightarrow> string \<Rightarrow> rule list" where
  "guarded_linear q e = map (\<lambda>r. r\<lparr>body := magic_guard q # body r\<rparr>) (linear_rules q e)"

lemma guarded_linear_closed:
  assumes "r \<in> set (guarded_linear q e)"
    and base: "\<And>x y. [x] \<in> J (''__xlog_magic_'' @ q @ ''_bf'') \<Longrightarrow> [x, y] \<in> J e \<Longrightarrow> [x, y] \<in> J q"
    and more: "\<And>x y z. [x] \<in> J (''__xlog_magic_'' @ q @ ''_bf'') \<Longrightarrow> [x, y] \<in> J q \<Longrightarrow> [y, z] \<in> J e
      \<Longrightarrow> [x, z] \<in> J q"
  shows "answers U J r \<subseteq> J (predicate (head r))"
proof
  fix row assume row: "row \<in> answers U J r"
  consider "r = \<lparr>head = step_atom q ''X'' ''Y'', body = [magic_guard q, Positive (step_atom e ''X'' ''Y'')]\<rparr>"
    | "r = \<lparr>head = step_atom q ''X'' ''Z'',
        body = [magic_guard q, Positive (step_atom q ''X'' ''Y''), Positive (step_atom e ''Y'' ''Z'')]\<rparr>"
    using assms(1) by (auto simp: guarded_linear_def linear_rules_def)
  then show "row \<in> J (predicate (head r))"
  proof cases
    case 1
    then show ?thesis using row base
      by (auto simp: answers_def magic_guard_def step_atom_def list_all2_Cons1)
  next
    case 2
    then show ?thesis using row more
      by (auto simp: answers_def magic_guard_def step_atom_def list_all2_Cons1)
  qed
qed

definition chained_rewritten :: "rule list" where
  "chained_rewritten =
     [via_rule,
      \<lparr>head = \<lparr>predicate = ''__xlog_magic_reach_bf'', terms = [Integer 1]\<rparr>, body = []\<rparr>,
      \<lparr>head = \<lparr>predicate = ''__xlog_magic_far_bf'', terms = [Integer 3]\<rparr>, body = []\<rparr>]
     @ guarded_linear ''far'' ''via'' @ guarded_linear ''reach'' ''edge''"

lemma chained_run:
  "map_res (\<lambda>(p', report). (rules p', ms_status report, generated_predicates report))
      (rewrite_magic_sets chained_program)
    = Inr (chained_rewritten, MagicApplied, [''__xlog_magic_far_bf'', ''__xlog_magic_reach_bf''])
   \<and> list_all (seeded chained_program) (queries chained_program)"
  by code_simp

lemma seeded_query_loses_answers:
  "[Integer 3, Integer 4] \<in> query_answers ground_terms
     (model ground_terms (rules chained_program) {''reach'', ''via'', ''far''} two_edges)
     \<lparr>predicate = ''far'', terms = [Integer 3, Variable ''Y'']\<rparr>
   \<and> [Integer 3, Integer 4] \<notin> query_answers ground_terms
     (model ground_terms chained_rewritten
       {''reach'', ''via'', ''far'', ''__xlog_magic_reach_bf'', ''__xlog_magic_far_bf''} two_edges)
     \<lparr>predicate = ''far'', terms = [Integer 3, Variable ''Y'']\<rparr>"
proof
  let ?O = "model ground_terms (rules chained_program) {''reach'', ''via'', ''far''} two_edges"
  let ?D = "{''reach'', ''via'', ''far'', ''__xlog_magic_reach_bf'', ''__xlog_magic_far_bf''}"
  let ?N = "model ground_terms chained_rewritten ?D two_edges"
  let ?s = "(\<lambda>x. Integer 4)(''X'' := Integer 3)"
  have copy: "[Integer 3, Integer 4] \<in> ?O q"
    if "[Integer 3, Integer 4] \<in> ?O e" "q \<in> {''reach'', ''via'', ''far''}"
      "\<lparr>head = step_atom q ''X'' ''Y'', body = [Positive (step_atom e ''X'' ''Y'')]\<rparr> \<in> set (rules chained_program)"
    for q e
  proof -
    have "[Integer 3, Integer 4] \<in> answers ground_terms ?O
        \<lparr>head = step_atom q ''X'' ''Y'', body = [Positive (step_atom e ''X'' ''Y'')]\<rparr>"
      unfolding answers_def
      by (rule CollectI, rule exI [of _ ?s]) (auto simp: step_atom_def intro: bexI [OF _ that(1)])
    from model_rule [OF that(3) _ this] that(2) show ?thesis by (simp add: step_atom_def)
  qed
  have "?O ''edge'' = two_edges ''edge''" by (rule model_given) simp
  then have "[Integer 3, Integer 4] \<in> ?O ''edge''" by (simp add: two_edges_def)
  then have "[Integer 3, Integer 4] \<in> ?O ''reach''"
    by (rule copy) (simp_all add: chained_program_def linear_rules_def)
  then have "[Integer 3, Integer 4] \<in> ?O ''via''"
    by (rule copy) (simp_all add: chained_program_def via_rule_def)
  then have "[Integer 3, Integer 4] \<in> ?O ''far''"
    by (rule copy) (simp_all add: chained_program_def linear_rules_def)
  then show "[Integer 3, Integer 4] \<in> query_answers ground_terms ?O \<lparr>predicate = ''far'', terms = [Integer 3, Variable ''Y'']\<rparr>"
    unfolding query_answers_def by (auto simp: ground_terms_def intro: exI [of _ ?s])
  define J :: "ast_term relations" where "J p =
    (if p = ''reach'' \<or> p = ''via'' then {row. hd row = Integer 1} else if p = ''far'' then {}
     else if p = ''__xlog_magic_reach_bf'' then {[Integer 1]}
     else if p = ''__xlog_magic_far_bf'' then {[Integer 3]} else two_edges p)" for p
  have rels: "J ''reach'' = {row. hd row = Integer 1}" "J ''via'' = {row. hd row = Integer 1}" "J ''far'' = {}"
    "J ''__xlog_magic_far_bf'' = {[Integer 3]}" "J ''__xlog_magic_reach_bf'' = {[Integer 1]}"
    by (simp_all add: J_def)
  have reach: "answers ground_terms J r \<subseteq> J (predicate (head r))" if "r \<in> set (guarded_linear ''reach'' ''edge'')" for r
    by (rule guarded_linear_closed [OF that]) (simp_all add: rels)
  have far: "answers ground_terms J r \<subseteq> J (predicate (head r))" if "r \<in> set (guarded_linear ''far'' ''via'')" for r
    by (rule guarded_linear_closed [OF that]) (auto simp: rels)
  have via: "answers ground_terms J via_rule \<subseteq> J (predicate (head via_rule))"
    by (auto simp: via_rule_def step_atom_def answers_def rels list_all2_Cons1)
  have seeds: "answers ground_terms J \<lparr>head = \<lparr>predicate = q, terms = [Integer n]\<rparr>, body = []\<rparr> \<subseteq> {[Integer n]}"
    for q n by (auto simp: answers_def ground_terms_def list_all2_Cons1)
  have "?N ''far'' \<subseteq> J ''far''"
  proof (rule model_closed)
    fix r assume "r \<in> set chained_rewritten"
    then consider "r \<in> set (guarded_linear ''reach'' ''edge'')" | "r \<in> set (guarded_linear ''far'' ''via'')"
      | "r = via_rule" | "r = \<lparr>head = \<lparr>predicate = ''__xlog_magic_reach_bf'', terms = [Integer 1]\<rparr>, body = []\<rparr>"
      | "r = \<lparr>head = \<lparr>predicate = ''__xlog_magic_far_bf'', terms = [Integer 3]\<rparr>, body = []\<rparr>"
      unfolding chained_rewritten_def by auto
    then show "answers ground_terms J r \<subseteq> J (predicate (head r))"
    proof cases
      case 4
      then show ?thesis using seeds [of "''__xlog_magic_reach_bf''" 1] by (simp add: rels)
    next
      case 5
      then show ?thesis using seeds [of "''__xlog_magic_far_bf''" 3] by (simp add: rels)
    qed (use reach far via in simp_all)
  next
    fix p assume "p \<notin> ?D"
    then show "two_edges p \<subseteq> J p" by (simp add: J_def)
  qed
  then show "[Integer 3, Integer 4] \<notin> query_answers ground_terms ?N \<lparr>predicate = ''far'', terms = [Integer 3, Variable ''Y'']\<rparr>"
    by (auto simp: query_answers_def rels)
qed



end
