(* ===== verification/Float_Order.thy ===== *)
theory Float_Order
  imports Xlog_Prelude
begin

unbundle bit_operations_syntax

text \<open>
  Order keys of floating-point values (\<open>xlog-core/src/float_order.rs\<close>), on the bit patterns. The
  reference is the IEEE 754 total order: a pattern with the sign bit set ranks below all others, by
  descending magnitude, the others rank by magnitude.
\<close>

definition f32_total_order_key_from_bits :: "u32 \<Rightarrow> u32" where
  "f32_total_order_key_from_bits bits = bits XOR (if drop_bit 31 bits = 0 then 0x80000000 else - 1)"

definition f64_total_order_key_from_bits :: "u64 \<Rightarrow> u64" where
  "f64_total_order_key_from_bits bits = bits XOR (if drop_bit 63 bits = 0 then 0x8000000000000000 else - 1)"

text \<open>The two functions are one, at both widths.\<close>

definition order_key :: "'a::len word \<Rightarrow> 'a word" where
  "order_key w = w XOR (if bit w (LENGTH('a) - 1) then - 1 else push_bit (LENGTH('a) - 1) 1)"

lemma f32_order_key: "f32_total_order_key_from_bits = order_key"
proof
  fix w :: u32
  have "drop_bit 31 w = 0 \<longleftrightarrow> \<not> bit w 31" using drop_bit_eq_zero_iff_not_bit_last [of w] by simp
  then show "f32_total_order_key_from_bits w = order_key w"
    by (simp add: f32_total_order_key_from_bits_def order_key_def)
qed

lemma f64_order_key: "f64_total_order_key_from_bits = order_key"
proof
  fix w :: u64
  have "drop_bit 63 w = 0 \<longleftrightarrow> \<not> bit w 63" using drop_bit_eq_zero_iff_not_bit_last [of w] by simp
  then show "f64_total_order_key_from_bits w = order_key w"
    by (simp add: f64_total_order_key_from_bits_def order_key_def)
qed

text \<open>The rank of a pattern in the total order: the magnitude, mirrored when the sign bit is set.\<close>

definition float_rank :: "'a::len word \<Rightarrow> int" where
  "float_rank w =
     (let magnitude = uint w mod 2 ^ (LENGTH('a) - 1)
      in if 2 ^ (LENGTH('a) - 1) \<le> uint w then - 1 - magnitude else magnitude)"

lemma top_bit_uint: "bit (w :: 'a::len word) (LENGTH('a) - 1) \<longleftrightarrow> 2 ^ (LENGTH('a) - 1) \<le> uint w"
proof -
  let ?n = "LENGTH('a) - 1"
  have u: "uint w < 2 * 2 ^ ?n" using uint_lt2p [of w] by (simp flip: power_Suc)
  have "bit w ?n = bit (uint w) ?n" by (simp add: bit_uint_iff)
  also have "\<dots> = odd (uint w div 2 ^ ?n)" by (simp add: bit_iff_odd)
  also have "\<dots> = (2 ^ ?n \<le> uint w)"
  proof (cases "2 ^ ?n \<le> uint w")
    case True
    then have "uint w div 2 ^ ?n = 1" using u by (intro int_div_pos_eq [where r = "uint w - 2 ^ ?n"]) simp_all
    then show ?thesis using True by simp
  qed simp
  finally show ?thesis .
qed

lemma uint_below: "uint (w :: 'a::len word) < 2 * 2 ^ (LENGTH('a) - 1)"
  using uint_lt2p [of w] by (simp flip: power_Suc)

lemma float_rank_eq:
  "float_rank (w :: 'a::len word) =
     (if 2 ^ (LENGTH('a) - 1) \<le> uint w then 2 ^ (LENGTH('a) - 1) - 1 - uint w else uint w)"
proof (cases "2 ^ (LENGTH('a) - 1) \<le> uint w")
  case True
  have "uint w mod 2 ^ (LENGTH('a) - 1) = uint w - 2 ^ (LENGTH('a) - 1)"
    using True uint_below [of w] by (intro int_mod_pos_eq [where q = 1]) simp_all
  then show ?thesis unfolding float_rank_def Let_def if_P [OF True] by simp
qed (simp add: float_rank_def)

lemma order_key_rank: "uint (order_key (w :: 'a::len word)) = float_rank w + 2 ^ (LENGTH('a) - 1)"
proof -
  let ?n = "LENGTH('a) - 1"
  show ?thesis
  proof (cases "2 ^ ?n \<le> uint w")
    case True
    have "bit w ?n" using True top_bit_uint [of w] by blast
    then have "order_key w = - 1 - w" by (simp add: order_key_def not_eq_complement)
    also have "uint \<dots> = uint (- 1 :: 'a word) - uint w"
      by (rule uint_sub_lem [THEN iffD1]) (simp add: uint_lt2p unsigned_minus_1_eq_mask mask_eq_exp_minus_1)
    also have "\<dots> = 2 * 2 ^ ?n - 1 - uint w"
      by (simp add: unsigned_minus_1_eq_mask mask_eq_exp_minus_1 flip: power_Suc)
    finally show ?thesis unfolding float_rank_eq if_P [OF True] by simp
  next
    case False
    have low: "\<not> bit w ?n" using False top_bit_uint [of w] by blast
    have "w AND push_bit ?n 1 = 0" using low by (intro bit_word_eqI) (auto simp: bit_simps)
    then have key: "order_key w = w + push_bit ?n 1" using low by (simp add: order_key_def disjunctive_add_eq_xor)
    have "uint (push_bit ?n (1 :: 'a word)) = take_bit LENGTH('a) (push_bit ?n 1)"
      by (simp only: unsigned_push_bit_eq unsigned_1)
    also have "\<dots> = take_bit LENGTH('a) (2 ^ ?n)" by (simp only: push_bit_eq_mult mult_1)
    also have "\<dots> = 2 ^ ?n" by (rule take_bit_int_eq_self) simp_all
    finally have top: "uint (push_bit ?n (1 :: 'a word)) = 2 ^ ?n" .
    have "(2 :: int) ^ LENGTH('a) = 2 * 2 ^ ?n" by (simp flip: power_Suc)
    then have "uint w + uint (push_bit ?n (1 :: 'a word)) < 2 ^ LENGTH('a)" unfolding top using False by linarith
    then have "uint (order_key w) = uint w + uint (push_bit ?n (1 :: 'a word))"
      unfolding key by (rule uint_add_lem [THEN iffD1])
    then show ?thesis unfolding top float_rank_eq if_not_P [OF False] .
  qed
qed

lemma order_key_le: "order_key v \<le> order_key w \<longleftrightarrow> float_rank v \<le> float_rank (w :: 'a::len word)"
  by (simp add: word_le_def order_key_rank)

lemma mirror_inj:
  fixes a b k :: int
  assumes "0 \<le> a" and "0 \<le> b" and "(if k \<le> a then k - 1 - a else a) = (if k \<le> b then k - 1 - b else b)"
  shows "a = b"
  using assms by (cases "k \<le> a"; cases "k \<le> b") simp_all

lemma float_rank_inj: "float_rank v = float_rank w \<longleftrightarrow> v = (w :: 'a::len word)"
proof
  assume "float_rank v = float_rank w"
  then have "uint v = uint w"
    unfolding float_rank_eq by (rule mirror_inj [OF uint_ge_0 uint_ge_0])
  then show "v = w" by (simp only: word_uint_eq_iff)
qed simp

lemma order_key_inj: "order_key v = order_key w \<longleftrightarrow> v = (w :: 'a::len word)"
proof
  assume eq: "order_key v = order_key w"
  have "float_rank v = float_rank w"
    using order_key_rank [of v] order_key_rank [of w] unfolding eq by linarith
  then show "v = w" by (simp only: float_rank_inj)
qed simp

text \<open>C34: The order keys map the patterns of floating-point values one to one and in the order of the
  IEEE 754 total order, at both widths: negative values by descending magnitude, below the others by
  magnitude, so that both zeros and all NaN patterns are told apart.\<close>

theorem order_keys_total_order:
  "(f32_total_order_key_from_bits a \<le> f32_total_order_key_from_bits b) = (float_rank a \<le> float_rank b)
    \<and> (f32_total_order_key_from_bits a = f32_total_order_key_from_bits b) = (a = b)
    \<and> (f64_total_order_key_from_bits c \<le> f64_total_order_key_from_bits d) = (float_rank c \<le> float_rank d)
    \<and> (f64_total_order_key_from_bits c = f64_total_order_key_from_bits d) = (c = d)"
  by (simp add: f32_order_key f64_order_key order_key_le order_key_inj)

end
