(* ===== verification/Arithmetic.thy ===== *)
theory Arithmetic
  imports Ast Float_Order "HOL-Library.Signed_Division"
begin

text \<open>
  Scalar evaluation of arithmetic expressions (\<open>xlog-logic/src/arithmetic_eval.rs\<close>) and the typed
  reading of literals (\<open>term_to_typed_const_value\<close> of \<open>xlog-logic/src/lower.rs\<close>). Values of type
  \<open>f32\<close> and \<open>f64\<close> are bit patterns. What the code does on the patterns is written out (order, NaN
  test, sign, truncation); the rounding operations of the processor are the record \<open>scalar_env\<close>,
  which also holds the symbol table as it stands when the program is evaluated.
\<close>

section \<open>Values\<close>

datatype arith_value =
    AvI32 i32
  | AvI64 i64
  | AvU32 u32
  | AvU64 u64
  | AvF32 u32
  | AvF64 u64
  | AvBool bool
  | AvSymbol u32
  | AvString string

datatype arith_kind = KI32 | KI64 | KU32 | KU64 | KF32 | KF64 | KBool | KSymbol | KString

fun av_kind :: "arith_value \<Rightarrow> arith_kind" where
  "av_kind (AvI32 _) = KI32"
| "av_kind (AvI64 _) = KI64"
| "av_kind (AvU32 _) = KU32"
| "av_kind (AvU64 _) = KU64"
| "av_kind (AvF32 _) = KF32"
| "av_kind (AvF64 _) = KF64"
| "av_kind (AvBool _) = KBool"
| "av_kind (AvSymbol _) = KSymbol"
| "av_kind (AvString _) = KString"

fun kind_scalar_type :: "arith_kind \<Rightarrow> scalar_type option" where
  "kind_scalar_type KI32 = Some TyI32"
| "kind_scalar_type KI64 = Some TyI64"
| "kind_scalar_type KU32 = Some TyU32"
| "kind_scalar_type KU64 = Some TyU64"
| "kind_scalar_type KF32 = Some TyF32"
| "kind_scalar_type KF64 = Some TyF64"
| "kind_scalar_type KBool = Some TyBool"
| "kind_scalar_type KSymbol = Some TySymbol"
| "kind_scalar_type KString = None"

definition av_scalar_type :: "arith_value \<Rightarrow> scalar_type option" where
  "av_scalar_type v = kind_scalar_type (av_kind v)"

datatype binary_operation =
  OpAdd | OpSubtract | OpMultiply | OpDivide | OpModulo | OpMinimum | OpMaximum | OpPower

text \<open>
  Errors by the message the code gives, with \<open>ArithPanic\<close> for its \<open>unreachable!\<close> arms and for an
  unknown symbol.\<close>

datatype arith_error =
    UnboundArith string
  | AnonymousArith
  | NotScalar
  | U64Range
  | NumericTypes
  | AbsInput
  | BranchTypes
  | CompareTypes
  | FloatCastRange
  | UnexpandedCall string
  | EvaluationState
  | LiteralType ast_term scalar_type
  | UnboundScalar
  | ArithPanic

record scalar_env =
  f32_operation :: "binary_operation \<Rightarrow> u32 \<Rightarrow> u32 \<Rightarrow> u32"
  f64_operation :: "binary_operation \<Rightarrow> u64 \<Rightarrow> u64 \<Rightarrow> u64"
  f64_of_int :: "int \<Rightarrow> u64"
  f64_of_f32 :: "u32 \<Rightarrow> u64"
  f32_of_f64 :: "u64 \<Rightarrow> u32"
  symbol_of :: "string \<Rightarrow> u32"
  symbol_text :: "u32 \<Rightarrow> string option"

section \<open>Bit patterns\<close>

definition f32_is_nan :: "u32 \<Rightarrow> bool" where
  "f32_is_nan w = (0x7f800000 < w AND 0x7fffffff)"

definition f64_is_nan :: "u64 \<Rightarrow> bool" where
  "f64_is_nan w = (0x7ff0000000000000 < w AND 0x7fffffffffffffff)"

definition f64_is_finite :: "u64 \<Rightarrow> bool" where
  "f64_is_finite w = (w AND 0x7fffffffffffffff < 0x7ff0000000000000)"

definition normalize_nan_f32 :: "u32 \<Rightarrow> u32" where
  "normalize_nan_f32 w = (if f32_is_nan w then 0x7fc00000 else w)"

definition normalize_nan_f64 :: "u64 \<Rightarrow> u64" where
  "normalize_nan_f64 w = (if f64_is_nan w then 0x7ff8000000000000 else w)"

text \<open>The value of a finite pattern, rounded towards zero: the mantissa scaled by the exponent.\<close>

definition f64_trunc :: "u64 \<Rightarrow> int" where
  "f64_trunc w =
     (let e = uint (drop_bit 52 w AND 0x7ff); m = uint (w AND 0xfffffffffffff);
          magnitude = (if e < 1023 then 0
            else if e < 1075 then (2 ^ 52 + m) div 2 ^ nat (1075 - e)
            else (2 ^ 52 + m) * 2 ^ nat (e - 1075))
      in if bit w 63 then - magnitude else magnitude)"

definition float_to_i64 :: "u64 \<Rightarrow> arith_error + i64" where
  "float_to_i64 w =
     (if \<not> f64_is_finite w \<or> \<not> (- (2 ^ 63) \<le> f64_trunc w \<and> f64_trunc w < 2 ^ 63)
      then Inl FloatCastRange else Inr (word_of_int (f64_trunc w)))"

text \<open>The IEEE comparison of two patterns: nothing is below a NaN and the zeros are equal.\<close>

definition f64_less :: "u64 \<Rightarrow> u64 \<Rightarrow> bool" where
  "f64_less a b =
     (\<not> f64_is_nan a \<and> \<not> f64_is_nan b \<and> (a OR b) AND 0x7fffffffffffffff \<noteq> 0
      \<and> f64_total_order_key_from_bits a < f64_total_order_key_from_bits b)"

section \<open>Conversions\<close>

definition from_term :: "ast_term \<Rightarrow> arith_error + arith_value" where
  "from_term t =
     (case t of
        Integer v \<Rightarrow> Inr (AvI64 v)
      | Float v \<Rightarrow> Inr (AvF64 v)
      | Str v \<Rightarrow> Inr (AvString v)
      | Symbol v \<Rightarrow> Inr (AvSymbol v)
      | Variable name \<Rightarrow> Inl (UnboundArith name)
      | Anonymous \<Rightarrow> Inl AnonymousArith
      | _ \<Rightarrow> Inl NotScalar)"

definition into_term :: "scalar_env \<Rightarrow> arith_value \<Rightarrow> arith_error + ast_term" where
  "into_term env value =
     (case value of
        AvI32 v \<Rightarrow> Inr (Integer (scast v))
      | AvI64 v \<Rightarrow> Inr (Integer v)
      | AvU32 v \<Rightarrow> Inr (Integer (ucast v))
      | AvU64 v \<Rightarrow> if uint v < 2 ^ 63 then Inr (Integer v) else Inl U64Range
      | AvF32 v \<Rightarrow> Inr (Float (f64_of_f32 env v))
      | AvF64 v \<Rightarrow> Inr (Float v)
      | AvBool v \<Rightarrow> Inr (Integer (of_bool v))
      | AvSymbol v \<Rightarrow> Inr (Symbol v)
      | AvString v \<Rightarrow> Inr (Str v))"

definition as_f64 :: "scalar_env \<Rightarrow> arith_value \<Rightarrow> arith_error + u64" where
  "as_f64 env value =
     (case value of
        AvI32 v \<Rightarrow> Inr (f64_of_int env (sint v))
      | AvI64 v \<Rightarrow> Inr (f64_of_int env (sint v))
      | AvU32 v \<Rightarrow> Inr (f64_of_int env (uint v))
      | AvU64 v \<Rightarrow> Inr (f64_of_int env (uint v))
      | AvF32 v \<Rightarrow> Inr (f64_of_f32 env v)
      | AvF64 v \<Rightarrow> Inr v
      | AvBool v \<Rightarrow> Inr (if v then 0x3ff0000000000000 else 0)
      | AvSymbol v \<Rightarrow> Inr (f64_of_int env (uint v))
      | AvString _ \<Rightarrow> Inl NumericTypes)"

definition cast_i64 :: "scalar_env \<Rightarrow> arith_value \<Rightarrow> arith_error + i64" where
  "cast_i64 env value =
     (case value of
        AvI32 v \<Rightarrow> Inr (scast v)
      | AvI64 v \<Rightarrow> Inr v
      | AvU32 v \<Rightarrow> Inr (ucast v)
      | AvU64 v \<Rightarrow> Inr v
      | AvF32 v \<Rightarrow> float_to_i64 (f64_of_f32 env v)
      | AvF64 v \<Rightarrow> float_to_i64 v
      | AvBool v \<Rightarrow> Inr (of_bool v)
      | AvSymbol v \<Rightarrow> Inr (ucast v)
      | AvString _ \<Rightarrow> Inl NumericTypes)"

definition cast_value :: "scalar_env \<Rightarrow> arith_value \<Rightarrow> scalar_type \<Rightarrow> arith_error + arith_value" where
  "cast_value env value target =
     (if av_scalar_type value = Some target then Inr value
      else case target of
        TyI32 \<Rightarrow> map_res (\<lambda>i. AvI32 (ucast i)) (cast_i64 env value)
      | TyI64 \<Rightarrow> map_res AvI64 (cast_i64 env value)
      | TyU32 \<Rightarrow> map_res (\<lambda>i. AvU32 (ucast i)) (cast_i64 env value)
      | TyU64 \<Rightarrow> map_res AvU64 (cast_i64 env value)
      | TyF32 \<Rightarrow> map_res (\<lambda>f. AvF32 (f32_of_f64 env f)) (as_f64 env value)
      | TyF64 \<Rightarrow> map_res AvF64 (as_f64 env value)
      | TyBool \<Rightarrow> map_res (\<lambda>i. AvBool (i \<noteq> 0)) (cast_i64 env value)
      | TySymbol \<Rightarrow> map_res (\<lambda>i. AvSymbol (ucast i)) (cast_i64 env value))"

text \<open>The largest and smallest finite 32-bit values, widened: \<open>f32::MAX as f64\<close>, \<open>f32::MIN as f64\<close>.\<close>

definition f32_max_as_f64 :: u64 where "f32_max_as_f64 = 0x47efffffe0000000"

definition f32_min_as_f64 :: u64 where "f32_min_as_f64 = 0xc7efffffe0000000"

definition outside_f32 :: "u64 \<Rightarrow> bool" where
  "outside_f32 v = (f64_less v f32_min_as_f64 \<or> f64_less f32_max_as_f64 v)"

datatype const_value =
    CvU32 u32 | CvU64 u64 | CvI32 i32 | CvI64 i64 | CvF32 u32 | CvF64 u64 | CvBool bool | CvSymbol string

text \<open>An out-of-range literal and a literal of the wrong type are one error here.\<close>

definition term_to_typed_const_value ::
    "scalar_env \<Rightarrow> ast_term \<Rightarrow> scalar_type \<Rightarrow> arith_error + const_value option" where
  "term_to_typed_const_value env t expected =
     (let bad = Inl (LiteralType t expected)
      in case t of
        Integer i \<Rightarrow>
          (case expected of
             TyU32 \<Rightarrow> if 0 \<le> sint i \<and> sint i \<le> 2 ^ 32 - 1 then Inr (Some (CvU32 (ucast i))) else bad
           | TyU64 \<Rightarrow> if 0 \<le> sint i then Inr (Some (CvU64 i)) else bad
           | TyI32 \<Rightarrow>
               if - (2 ^ 31) \<le> sint i \<and> sint i \<le> 2 ^ 31 - 1 then Inr (Some (CvI32 (ucast i))) else bad
           | TyI64 \<Rightarrow> Inr (Some (CvI64 i))
           | TyF32 \<Rightarrow> let v = f64_of_int env (sint i)
                      in if outside_f32 v then bad else Inr (Some (CvF32 (f32_of_f64 env v)))
           | TyF64 \<Rightarrow> Inr (Some (CvF64 (f64_of_int env (sint i))))
           | TyBool \<Rightarrow> if i = 0 \<or> i = 1 then Inr (Some (CvBool (i = 1))) else bad
           | TySymbol \<Rightarrow> bad)
      | Float f \<Rightarrow>
          (case expected of
             TyF32 \<Rightarrow> if \<not> f64_is_finite f \<or> outside_f32 f then bad
                      else Inr (Some (CvF32 (f32_of_f64 env f)))
           | TyF64 \<Rightarrow> Inr (Some (CvF64 f))
           | _ \<Rightarrow> bad)
      | Str s \<Rightarrow> if expected = TySymbol then Inr (Some (CvSymbol s)) else bad
      | Symbol sid \<Rightarrow>
          (case symbol_text env sid of
             None \<Rightarrow> Inl ArithPanic
           | Some text \<Rightarrow>
               if expected = TySymbol then Inr (Some (CvSymbol text))
               else if expected = TyBool \<and> (text = ''true'' \<or> text = ''false'')
               then Inr (Some (CvBool (text = ''true'')))
               else bad)
      | _ \<Rightarrow> Inr None)"

definition from_typed_term :: "scalar_env \<Rightarrow> ast_term \<Rightarrow> scalar_type \<Rightarrow> arith_error + arith_value" where
  "from_typed_term env t expected =
     bind_res (term_to_typed_const_value env t expected) (\<lambda>c.
       case c of
         None \<Rightarrow> Inl UnboundScalar
       | Some (CvI32 v) \<Rightarrow> Inr (AvI32 v)
       | Some (CvI64 v) \<Rightarrow> Inr (AvI64 v)
       | Some (CvU32 v) \<Rightarrow> Inr (AvU32 v)
       | Some (CvU64 v) \<Rightarrow> Inr (AvU64 v)
       | Some (CvF32 v) \<Rightarrow> Inr (AvF32 v)
       | Some (CvF64 v) \<Rightarrow> Inr (AvF64 v)
       | Some (CvBool v) \<Rightarrow> Inr (AvBool v)
       | Some (CvSymbol s) \<Rightarrow> Inr (AvSymbol (symbol_of env s)))"

section \<open>Operations\<close>

text \<open>
  The macro \<open>integer_operation\<close> at a signed and at an unsigned type; \<open>None\<close> is its unreachable arm
  for \<open>Power\<close>. Division truncates and wraps for the least value divided by \<open>-1\<close>.\<close>

fun signed_operation :: "binary_operation \<Rightarrow> 'a::len word \<Rightarrow> 'a word \<Rightarrow> 'a word option" where
  "signed_operation OpAdd l r = Some (l + r)"
| "signed_operation OpSubtract l r = Some (l - r)"
| "signed_operation OpMultiply l r = Some (l * r)"
| "signed_operation OpDivide l r =
     Some (if r = 0 then word_of_int (2 ^ (LENGTH('a) - 1) - 1) else word_of_int (sint l sdiv sint r))"
| "signed_operation OpModulo l r = Some (if r = 0 then 0 else word_of_int (sint l smod sint r))"
| "signed_operation OpMinimum l r = Some (if sint l \<le> sint r then l else r)"
| "signed_operation OpMaximum l r = Some (if sint l \<le> sint r then r else l)"
| "signed_operation OpPower l r = None"

fun unsigned_operation :: "binary_operation \<Rightarrow> 'a::len word \<Rightarrow> 'a word \<Rightarrow> 'a word option" where
  "unsigned_operation OpAdd l r = Some (l + r)"
| "unsigned_operation OpSubtract l r = Some (l - r)"
| "unsigned_operation OpMultiply l r = Some (l * r)"
| "unsigned_operation OpDivide l r = Some (if r = 0 then - 1 else l div r)"
| "unsigned_operation OpModulo l r = Some (if r = 0 then 0 else l mod r)"
| "unsigned_operation OpMinimum l r = Some (min l r)"
| "unsigned_operation OpMaximum l r = Some (max l r)"
| "unsigned_operation OpPower l r = None"

definition f32_binary :: "scalar_env \<Rightarrow> binary_operation \<Rightarrow> u32 \<Rightarrow> u32 \<Rightarrow> u32 option" where
  "f32_binary env operation l r =
     (let key = f32_total_order_key_from_bits
      in case operation of
        OpMinimum \<Rightarrow> Some (if key l \<le> key r then l else r)
      | OpMaximum \<Rightarrow> Some (if key r \<le> key l then l else r)
      | OpPower \<Rightarrow> None
      | OpDivide \<Rightarrow> Some (normalize_nan_f32 (f32_operation env OpDivide l r))
      | OpModulo \<Rightarrow> Some (normalize_nan_f32 (f32_operation env OpModulo l r))
      | _ \<Rightarrow> Some (f32_operation env operation l r))"

definition f64_binary :: "scalar_env \<Rightarrow> binary_operation \<Rightarrow> u64 \<Rightarrow> u64 \<Rightarrow> u64 option" where
  "f64_binary env operation l r =
     (let key = f64_total_order_key_from_bits
      in case operation of
        OpMinimum \<Rightarrow> Some (if key l \<le> key r then l else r)
      | OpMaximum \<Rightarrow> Some (if key r \<le> key l then l else r)
      | OpPower \<Rightarrow> None
      | OpDivide \<Rightarrow> Some (normalize_nan_f64 (f64_operation env OpDivide l r))
      | OpModulo \<Rightarrow> Some (normalize_nan_f64 (f64_operation env OpModulo l r))
      | _ \<Rightarrow> Some (f64_operation env operation l r))"

definition or_panic :: "('a \<Rightarrow> 'b) \<Rightarrow> 'a option \<Rightarrow> arith_error + 'b" where
  "or_panic f x = (case x of None \<Rightarrow> Inl ArithPanic | Some v \<Rightarrow> Inr (f v))"

definition evaluate_binary ::
    "scalar_env \<Rightarrow> binary_operation \<Rightarrow> arith_value \<Rightarrow> arith_value \<Rightarrow> arith_error + arith_value" where
  "evaluate_binary env operation left right =
     (if operation = OpPower
      then bind_res (as_f64 env left) (\<lambda>l. bind_res (as_f64 env right) (\<lambda>r.
             Inr (AvF64 (normalize_nan_f64 (f64_operation env OpPower l r)))))
      else if av_kind left \<noteq> av_kind right then Inl NumericTypes
      else case (left, right) of
        (AvI32 l, AvI32 r) \<Rightarrow> or_panic AvI32 (signed_operation operation l r)
      | (AvI64 l, AvI64 r) \<Rightarrow> or_panic AvI64 (signed_operation operation l r)
      | (AvU32 l, AvU32 r) \<Rightarrow> or_panic AvU32 (unsigned_operation operation l r)
      | (AvU64 l, AvU64 r) \<Rightarrow> or_panic AvU64 (unsigned_operation operation l r)
      | (AvF32 l, AvF32 r) \<Rightarrow> or_panic AvF32 (f32_binary env operation l r)
      | (AvF64 l, AvF64 r) \<Rightarrow> or_panic AvF64 (f64_binary env operation l r)
      | _ \<Rightarrow> Inl NumericTypes)"

fun evaluate_abs :: "arith_value \<Rightarrow> arith_error + arith_value" where
  "evaluate_abs (AvI32 v) = Inr (AvI32 (word_of_int \<bar>sint v\<bar>))"
| "evaluate_abs (AvI64 v) = Inr (AvI64 (word_of_int \<bar>sint v\<bar>))"
| "evaluate_abs (AvU32 v) = Inr (AvU32 v)"
| "evaluate_abs (AvU64 v) = Inr (AvU64 v)"
| "evaluate_abs (AvF32 v) = Inr (AvF32 (v AND 0x7fffffff))"
| "evaluate_abs (AvF64 v) = Inr (AvF64 (v AND 0x7fffffffffffffff))"
| "evaluate_abs (AvBool _) = Inl AbsInput"
| "evaluate_abs (AvSymbol _) = Inl AbsInput"
| "evaluate_abs (AvString _) = Inl AbsInput"

definition is_float_kind :: "arith_kind \<Rightarrow> bool" where
  "is_float_kind k = (k = KF32 \<or> k = KF64)"

definition is_numeric_kind :: "arith_kind \<Rightarrow> bool" where
  "is_numeric_kind k = (k \<in> {KI32, KI64, KU32, KU64, KF32, KF64})"

fun compare_ordered :: "comp_op \<Rightarrow> 'a::linorder \<Rightarrow> 'a \<Rightarrow> bool" where
  "compare_ordered Eq l r = (l = r)"
| "compare_ordered Ne l r = (l \<noteq> r)"
| "compare_ordered Lt l r = (l < r)"
| "compare_ordered Le l r = (l \<le> r)"
| "compare_ordered Gt l r = (r < l)"
| "compare_ordered Ge l r = (r \<le> l)"

definition compare_f32 :: "u32 \<Rightarrow> comp_op \<Rightarrow> u32 \<Rightarrow> bool" where
  "compare_f32 l op r = compare_ordered op (f32_total_order_key_from_bits l) (f32_total_order_key_from_bits r)"

definition compare_f64 :: "u64 \<Rightarrow> comp_op \<Rightarrow> u64 \<Rightarrow> bool" where
  "compare_f64 l op r = compare_ordered op (f64_total_order_key_from_bits l) (f64_total_order_key_from_bits r)"

definition mixed_float_numeric :: "arith_kind \<Rightarrow> arith_kind \<Rightarrow> bool" where
  "mixed_float_numeric l r =
     (l \<noteq> r \<and> (is_float_kind l \<or> is_float_kind r) \<and> is_numeric_kind l \<and> is_numeric_kind r)"

definition compare_arithmetic_values ::
    "scalar_env \<Rightarrow> arith_value \<Rightarrow> comp_op \<Rightarrow> arith_value \<Rightarrow> arith_error + bool" where
  "compare_arithmetic_values env left op right =
     (if mixed_float_numeric (av_kind left) (av_kind right)
      then bind_res (as_f64 env left) (\<lambda>l. bind_res (as_f64 env right) (\<lambda>r. Inr (compare_f64 l op r)))
      else if av_kind left \<noteq> av_kind right then Inl CompareTypes
      else case (left, right) of
        (AvI32 l, AvI32 r) \<Rightarrow> Inr (compare_ordered op (sint l) (sint r))
      | (AvI64 l, AvI64 r) \<Rightarrow> Inr (compare_ordered op (sint l) (sint r))
      | (AvU32 l, AvU32 r) \<Rightarrow> Inr (compare_ordered op l r)
      | (AvU64 l, AvU64 r) \<Rightarrow> Inr (compare_ordered op l r)
      | (AvF32 l, AvF32 r) \<Rightarrow> Inr (compare_f32 l op r)
      | (AvF64 l, AvF64 r) \<Rightarrow> Inr (compare_f64 l op r)
      | (AvBool l, AvBool r) \<Rightarrow> Inr (compare_ordered op l r)
      | (AvSymbol l, AvSymbol r) \<Rightarrow> Inr (compare_ordered op l r)
      | (AvString l, AvString r) \<Rightarrow> Inr (compare_ordered op l r)
      | _ \<Rightarrow> Inl ArithPanic)"

section \<open>The stack machine\<close>

datatype evaluation_task =
    TaskExpression arith_expr
  | FinishBinary binary_operation
  | FinishAbsoluteValue
  | FinishCast scalar_type
  | FinishComparison comp_op
  | FinishConditional

datatype evaluation_value = EvArithmetic arith_value | EvPredicate bool

definition schedule_binary ::
    "evaluation_task list \<Rightarrow> arith_expr \<Rightarrow> arith_expr \<Rightarrow> binary_operation \<Rightarrow> evaluation_task list" where
  "schedule_binary tasks left right operation =
     TaskExpression left # TaskExpression right # FinishBinary operation # tasks"

definition pop_arithmetic ::
    "evaluation_value list \<Rightarrow> arith_error + arith_value \<times> evaluation_value list" where
  "pop_arithmetic values =
     (case values of EvArithmetic v # rest \<Rightarrow> Inr (v, rest) | _ \<Rightarrow> Inl EvaluationState)"

definition pop_predicate :: "evaluation_value list \<Rightarrow> arith_error + bool \<times> evaluation_value list" where
  "pop_predicate values =
     (case values of EvPredicate p # rest \<Rightarrow> Inr (p, rest) | _ \<Rightarrow> Inl EvaluationState)"

type_synonym arith_bindings = "string \<rightharpoonup> arith_value"

text \<open>One turn of the loop: the popped task changes the two stacks (the top of a stack is the head).\<close>

definition run_expression ::
    "arith_bindings \<Rightarrow> arith_expr \<Rightarrow> evaluation_task list \<Rightarrow> evaluation_value list
     \<Rightarrow> arith_error + evaluation_task list \<times> evaluation_value list" where
  "run_expression bindings expression tasks values =
     (let binary = (\<lambda>l r operation. Inr (schedule_binary tasks l r operation, values))
      in case expression of
        AVariable name \<Rightarrow>
          (case bindings name of
             None \<Rightarrow> Inl (UnboundArith name)
           | Some v \<Rightarrow> Inr (tasks, EvArithmetic v # values))
      | AInteger v \<Rightarrow> Inr (tasks, EvArithmetic (AvI64 v) # values)
      | AFloat v \<Rightarrow> Inr (tasks, EvArithmetic (AvF64 v) # values)
      | Add l r \<Rightarrow> binary l r OpAdd
      | Sub l r \<Rightarrow> binary l r OpSubtract
      | Mul l r \<Rightarrow> binary l r OpMultiply
      | Div l r \<Rightarrow> binary l r OpDivide
      | Mod l r \<Rightarrow> binary l r OpModulo
      | AMin l r \<Rightarrow> binary l r OpMinimum
      | AMax l r \<Rightarrow> binary l r OpMaximum
      | Pow l r \<Rightarrow> binary l r OpPower
      | Abs inner \<Rightarrow> Inr (TaskExpression inner # FinishAbsoluteValue # tasks, values)
      | Cast inner target \<Rightarrow> Inr (TaskExpression inner # FinishCast target # tasks, values)
      | Conditional cond_left cond_op cond_right then_expr else_expr \<Rightarrow>
          Inr (TaskExpression cond_left # TaskExpression cond_right # FinishComparison cond_op
               # TaskExpression then_expr # TaskExpression else_expr # FinishConditional # tasks, values)
      | FuncCall name _ \<Rightarrow> Inl (UnexpandedCall name))"

definition run_finish ::
    "scalar_env \<Rightarrow> evaluation_task \<Rightarrow> evaluation_value list \<Rightarrow> arith_error + evaluation_value list" where
  "run_finish env task values =
     (case task of
        TaskExpression _ \<Rightarrow> Inl ArithPanic
      | FinishBinary operation \<Rightarrow>
          bind_res (pop_arithmetic values) (\<lambda>(right, values).
          bind_res (pop_arithmetic values) (\<lambda>(left, values).
          map_res (\<lambda>v. EvArithmetic v # values) (evaluate_binary env operation left right)))
      | FinishAbsoluteValue \<Rightarrow>
          bind_res (pop_arithmetic values) (\<lambda>(v, values).
          map_res (\<lambda>v. EvArithmetic v # values) (evaluate_abs v))
      | FinishCast target \<Rightarrow>
          bind_res (pop_arithmetic values) (\<lambda>(v, values).
          map_res (\<lambda>v. EvArithmetic v # values) (cast_value env v target))
      | FinishComparison operator \<Rightarrow>
          bind_res (pop_arithmetic values) (\<lambda>(right, values).
          bind_res (pop_arithmetic values) (\<lambda>(left, values).
          map_res (\<lambda>b. EvPredicate b # values) (compare_arithmetic_values env left operator right)))
      | FinishConditional \<Rightarrow>
          bind_res (pop_arithmetic values) (\<lambda>(else_value, values).
          bind_res (pop_arithmetic values) (\<lambda>(then_value, values).
          bind_res (pop_predicate values) (\<lambda>(condition, values).
            if av_kind then_value \<noteq> av_kind else_value then Inl BranchTypes
            else Inr (EvArithmetic (if condition then then_value else else_value) # values)))))"

fun task_weight :: "evaluation_task \<Rightarrow> nat" where
  "task_weight (TaskExpression e) = 6 * size e + 1"
| "task_weight _ = 1"

lemma run_expression_weight:
  "run_expression bindings e tasks values = Inr (tasks', values') \<Longrightarrow>
    sum_list (map task_weight tasks') < sum_list (map task_weight (TaskExpression e # tasks))"
  by (cases e) (auto simp: run_expression_def schedule_binary_def split: option.splits)

function run_tasks ::
    "scalar_env \<Rightarrow> arith_bindings \<Rightarrow> evaluation_task list \<Rightarrow> evaluation_value list
     \<Rightarrow> arith_error + evaluation_value list" where
  "run_tasks env bindings [] values = Inr values"
| "run_tasks env bindings (task # tasks) values =
     (case task of
        TaskExpression e \<Rightarrow>
          (case run_expression bindings e tasks values of
             Inl err \<Rightarrow> Inl err
           | Inr (tasks', values') \<Rightarrow> run_tasks env bindings tasks' values')
      | _ \<Rightarrow>
          (case run_finish env task values of
             Inl err \<Rightarrow> Inl err
           | Inr values' \<Rightarrow> run_tasks env bindings tasks values'))"
  by pat_completeness auto

termination
  by (relation "measure (\<lambda>(_, _, tasks, _). sum_list (map task_weight tasks))")
    (auto simp del: task_weight.simps dest!: run_expression_weight simp: task_weight.simps(2-))

definition evaluate_arithmetic_expression ::
    "scalar_env \<Rightarrow> arith_expr \<Rightarrow> arith_bindings \<Rightarrow> arith_error + arith_value" where
  "evaluate_arithmetic_expression env e bindings =
     bind_res (run_tasks env bindings [TaskExpression e] []) (\<lambda>values.
     bind_res (pop_arithmetic values) (\<lambda>(result, rest).
       if rest = [] then Inr result else Inl EvaluationState))"

end
