(* ===== verification/Arithmetic_Correct.thy ===== *)
theory Arithmetic_Correct
  imports Arithmetic
begin

text \<open>
  The arithmetic evaluator against its two specifications: the stack machine computes the recursive
  left-to-right evaluation, whose errors are the static errors of a typing discipline on kinds, apart
  from the range error of a cast from floating point to an integer.
\<close>

section \<open>Recursive evaluation\<close>

definition combine ::
    "scalar_env \<Rightarrow> binary_operation \<Rightarrow> arith_error + arith_value \<Rightarrow> arith_error + arith_value
     \<Rightarrow> arith_error + arith_value" where
  "combine env operation left right =
     bind_res left (\<lambda>l. bind_res right (\<lambda>r. evaluate_binary env operation l r))"

fun eval_expr :: "scalar_env \<Rightarrow> arith_bindings \<Rightarrow> arith_expr \<Rightarrow> arith_error + arith_value" where
  "eval_expr env \<beta> (AVariable name) =
     (case \<beta> name of None \<Rightarrow> Inl (UnboundArith name) | Some v \<Rightarrow> Inr v)"
| "eval_expr env \<beta> (AInteger v) = Inr (AvI64 v)"
| "eval_expr env \<beta> (AFloat v) = Inr (AvF64 v)"
| "eval_expr env \<beta> (Add l r) = combine env OpAdd (eval_expr env \<beta> l) (eval_expr env \<beta> r)"
| "eval_expr env \<beta> (Sub l r) = combine env OpSubtract (eval_expr env \<beta> l) (eval_expr env \<beta> r)"
| "eval_expr env \<beta> (Mul l r) = combine env OpMultiply (eval_expr env \<beta> l) (eval_expr env \<beta> r)"
| "eval_expr env \<beta> (Div l r) = combine env OpDivide (eval_expr env \<beta> l) (eval_expr env \<beta> r)"
| "eval_expr env \<beta> (Mod l r) = combine env OpModulo (eval_expr env \<beta> l) (eval_expr env \<beta> r)"
| "eval_expr env \<beta> (AMin l r) = combine env OpMinimum (eval_expr env \<beta> l) (eval_expr env \<beta> r)"
| "eval_expr env \<beta> (AMax l r) = combine env OpMaximum (eval_expr env \<beta> l) (eval_expr env \<beta> r)"
| "eval_expr env \<beta> (Pow l r) = combine env OpPower (eval_expr env \<beta> l) (eval_expr env \<beta> r)"
| "eval_expr env \<beta> (Abs e) = bind_res (eval_expr env \<beta> e) evaluate_abs"
| "eval_expr env \<beta> (Cast e target) = bind_res (eval_expr env \<beta> e) (\<lambda>v. cast_value env v target)"
| "eval_expr env \<beta> (FuncCall name _) = Inl (UnexpandedCall name)"
| "eval_expr env \<beta> (Conditional cl op cr te ee) =
     bind_res (eval_expr env \<beta> cl) (\<lambda>l. bind_res (eval_expr env \<beta> cr) (\<lambda>r.
     bind_res (compare_arithmetic_values env l op r) (\<lambda>c.
     bind_res (eval_expr env \<beta> te) (\<lambda>t. bind_res (eval_expr env \<beta> ee) (\<lambda>e.
       if av_kind t \<noteq> av_kind e then Inl BranchTypes else Inr (if c then t else e))))))"

section \<open>The stack machine runs the recursive evaluation\<close>

lemma pop_arithmetic_simp [simp]: "pop_arithmetic (EvArithmetic v # vs) = Inr (v, vs)"
  by (simp add: pop_arithmetic_def)

lemma pop_predicate_simp [simp]: "pop_predicate (EvPredicate p # vs) = Inr (p, vs)"
  by (simp add: pop_predicate_def)

text \<open>What the machine does once the value of the expression on top of the tasks is known.\<close>

definition continue_with ::
    "arith_error + arith_value \<Rightarrow> (arith_value \<Rightarrow> arith_error + evaluation_value list)
     \<Rightarrow> arith_error + evaluation_value list" where
  "continue_with result k = (case result of Inl e \<Rightarrow> Inl e | Inr v \<Rightarrow> k v)"

lemma continue_simps [simp]:
  "continue_with (Inl e) k = Inl e"
  "continue_with (Inr v) k = k v"
  by (simp_all add: continue_with_def)

lemma continue_bind: "continue_with (bind_res x f) k = continue_with x (\<lambda>v. continue_with (f v) k)"
  by (cases x) simp_all

lemma run_finish_binary:
  "run_tasks env \<beta> (FinishBinary operation # tasks) (EvArithmetic r # EvArithmetic l # vs)
    = continue_with (evaluate_binary env operation l r) (\<lambda>v. run_tasks env \<beta> tasks (EvArithmetic v # vs))"
  by (cases "evaluate_binary env operation l r") (simp_all add: run_finish_def)

lemma run_finish_conditional:
  "run_tasks env \<beta> (FinishConditional # tasks)
      (EvArithmetic e # EvArithmetic t # EvPredicate c # vs)
    = (if av_kind t \<noteq> av_kind e then Inl BranchTypes
       else run_tasks env \<beta> tasks (EvArithmetic (if c then t else e) # vs))"
  by (simp add: run_finish_def)

lemma run_finish_comparison:
  "run_tasks env \<beta> (FinishComparison op # tasks) (EvArithmetic r # EvArithmetic l # vs)
    = (case compare_arithmetic_values env l op r of
         Inl e \<Rightarrow> Inl e | Inr c \<Rightarrow> run_tasks env \<beta> tasks (EvPredicate c # vs))"
  by (simp add: run_finish_def split: sum.split)

lemma run_finish_unary:
  "run_tasks env \<beta> (FinishAbsoluteValue # tasks) (EvArithmetic v # vs)
    = continue_with (evaluate_abs v) (\<lambda>v. run_tasks env \<beta> tasks (EvArithmetic v # vs))"
  "run_tasks env \<beta> (FinishCast target # tasks) (EvArithmetic v # vs)
    = continue_with (cast_value env v target) (\<lambda>v. run_tasks env \<beta> tasks (EvArithmetic v # vs))"
  by (simp_all add: run_finish_def continue_with_def split: sum.split)

lemmas run_finish_simps = run_finish_binary run_finish_conditional run_finish_comparison run_finish_unary

lemma run_binary:
  assumes "\<And>tasks vs. run_tasks env \<beta> (TaskExpression l # tasks) vs
      = continue_with (eval_expr env \<beta> l) (\<lambda>v. run_tasks env \<beta> tasks (EvArithmetic v # vs))"
    and "\<And>tasks vs. run_tasks env \<beta> (TaskExpression r # tasks) vs
      = continue_with (eval_expr env \<beta> r) (\<lambda>v. run_tasks env \<beta> tasks (EvArithmetic v # vs))"
    and "\<And>tasks vs. run_expression \<beta> e tasks vs = Inr (schedule_binary tasks l r operation, vs)"
  shows "run_tasks env \<beta> (TaskExpression e # tasks) vs
      = continue_with (combine env operation (eval_expr env \<beta> l) (eval_expr env \<beta> r))
          (\<lambda>v. run_tasks env \<beta> tasks (EvArithmetic v # vs))"
proof -
  have "run_tasks env \<beta> (TaskExpression e # tasks) vs
      = run_tasks env \<beta> (TaskExpression l # TaskExpression r # FinishBinary operation # tasks) vs"
    by (subst run_tasks.simps(2)) (simp add: assms(3) schedule_binary_def del: run_tasks.simps(2))
  then show ?thesis
    by (simp only: assms(1,2) run_finish_binary combine_def continue_bind)
qed

lemma run_tasks_expression:
  "run_tasks env \<beta> (TaskExpression e # tasks) vs
    = continue_with (eval_expr env \<beta> e) (\<lambda>v. run_tasks env \<beta> tasks (EvArithmetic v # vs))"
proof (induction e arbitrary: tasks vs)
  case (Conditional cl op cr te ee)
  have "run_tasks env \<beta> (TaskExpression (Conditional cl op cr te ee) # tasks) vs
      = run_tasks env \<beta> (TaskExpression cl # TaskExpression cr # FinishComparison op
          # TaskExpression te # TaskExpression ee # FinishConditional # tasks) vs"
    by (subst run_tasks.simps(2)) (simp add: run_expression_def del: run_tasks.simps(2))
  then show ?case
    by (simp only: Conditional.IH eval_expr.simps continue_bind run_finish_comparison run_finish_conditional)
      (simp add: continue_with_def bind_res_def del: run_tasks.simps(2) split: sum.split)
next
  case (Abs e)
  have "run_tasks env \<beta> (TaskExpression (Abs e) # tasks) vs
      = run_tasks env \<beta> (TaskExpression e # FinishAbsoluteValue # tasks) vs"
    by (subst run_tasks.simps(2)) (simp add: run_expression_def del: run_tasks.simps(2))
  then show ?case by (simp only: Abs.IH eval_expr.simps continue_bind run_finish_unary)
next
  case (Cast e target)
  have "run_tasks env \<beta> (TaskExpression (Cast e target) # tasks) vs
      = run_tasks env \<beta> (TaskExpression e # FinishCast target # tasks) vs"
    by (subst run_tasks.simps(2)) (simp add: run_expression_def del: run_tasks.simps(2))
  then show ?case by (simp only: Cast.IH eval_expr.simps continue_bind run_finish_unary)
qed (simp_all add: run_binary run_expression_def del: run_tasks.simps(2),
    simp_all add: run_expression_def split: option.split)

lemma evaluate_eval: "evaluate_arithmetic_expression env e \<beta> = eval_expr env \<beta> e"
  unfolding evaluate_arithmetic_expression_def run_tasks_expression by (cases "eval_expr env \<beta> e") simp_all

section \<open>Kinds\<close>

definition binary_kind :: "binary_operation \<Rightarrow> arith_kind \<Rightarrow> arith_kind \<Rightarrow> arith_kind option" where
  "binary_kind operation l r =
     (if operation = OpPower then if l \<noteq> KString \<and> r \<noteq> KString then Some KF64 else None
      else if l = r \<and> is_numeric_kind l then Some l else None)"

fun type_kind :: "scalar_type \<Rightarrow> arith_kind" where
  "type_kind TyI32 = KI32"
| "type_kind TyI64 = KI64"
| "type_kind TyU32 = KU32"
| "type_kind TyU64 = KU64"
| "type_kind TyF32 = KF32"
| "type_kind TyF64 = KF64"
| "type_kind TyBool = KBool"
| "type_kind TySymbol = KSymbol"

definition comparable :: "arith_kind \<Rightarrow> arith_kind \<Rightarrow> bool" where
  "comparable l r = (l = r \<or> mixed_float_numeric l r)"

definition kind2 :: "(arith_kind \<Rightarrow> arith_kind \<Rightarrow> arith_kind option) \<Rightarrow> arith_kind option \<Rightarrow> arith_kind option
    \<Rightarrow> arith_kind option" where
  "kind2 f l r = Option.bind l (\<lambda>l. Option.bind r (f l))"

fun expr_kind :: "(string \<rightharpoonup> arith_kind) \<Rightarrow> arith_expr \<Rightarrow> arith_kind option" where
  "expr_kind \<Gamma> (AVariable name) = \<Gamma> name"
| "expr_kind \<Gamma> (AInteger _) = Some KI64"
| "expr_kind \<Gamma> (AFloat _) = Some KF64"
| "expr_kind \<Gamma> (Add l r) = kind2 (binary_kind OpAdd) (expr_kind \<Gamma> l) (expr_kind \<Gamma> r)"
| "expr_kind \<Gamma> (Sub l r) = kind2 (binary_kind OpSubtract) (expr_kind \<Gamma> l) (expr_kind \<Gamma> r)"
| "expr_kind \<Gamma> (Mul l r) = kind2 (binary_kind OpMultiply) (expr_kind \<Gamma> l) (expr_kind \<Gamma> r)"
| "expr_kind \<Gamma> (Div l r) = kind2 (binary_kind OpDivide) (expr_kind \<Gamma> l) (expr_kind \<Gamma> r)"
| "expr_kind \<Gamma> (Mod l r) = kind2 (binary_kind OpModulo) (expr_kind \<Gamma> l) (expr_kind \<Gamma> r)"
| "expr_kind \<Gamma> (AMin l r) = kind2 (binary_kind OpMinimum) (expr_kind \<Gamma> l) (expr_kind \<Gamma> r)"
| "expr_kind \<Gamma> (AMax l r) = kind2 (binary_kind OpMaximum) (expr_kind \<Gamma> l) (expr_kind \<Gamma> r)"
| "expr_kind \<Gamma> (Pow l r) = kind2 (binary_kind OpPower) (expr_kind \<Gamma> l) (expr_kind \<Gamma> r)"
| "expr_kind \<Gamma> (Abs e) = Option.bind (expr_kind \<Gamma> e) (\<lambda>k. if is_numeric_kind k then Some k else None)"
| "expr_kind \<Gamma> (Cast e target) =
     Option.bind (expr_kind \<Gamma> e) (\<lambda>k. if k = KString then None else Some (type_kind target))"
| "expr_kind \<Gamma> (FuncCall _ _) = None"
| "expr_kind \<Gamma> (Conditional cl op cr te ee) =
     Option.bind (kind2 (\<lambda>l r. if comparable l r then Some l else None) (expr_kind \<Gamma> cl) (expr_kind \<Gamma> cr))
       (\<lambda>_. kind2 (\<lambda>t e. if t = e then Some t else None) (expr_kind \<Gamma> te) (expr_kind \<Gamma> ee))"

text \<open>Casts to a type without fraction, the only ones with a range to leave.\<close>

fun integer_cast :: "arith_expr \<Rightarrow> bool" where
  "integer_cast (AVariable _) = False"
| "integer_cast (AInteger _) = False"
| "integer_cast (AFloat _) = False"
| "integer_cast (Add l r) = (integer_cast l \<or> integer_cast r)"
| "integer_cast (Sub l r) = (integer_cast l \<or> integer_cast r)"
| "integer_cast (Mul l r) = (integer_cast l \<or> integer_cast r)"
| "integer_cast (Div l r) = (integer_cast l \<or> integer_cast r)"
| "integer_cast (Mod l r) = (integer_cast l \<or> integer_cast r)"
| "integer_cast (AMin l r) = (integer_cast l \<or> integer_cast r)"
| "integer_cast (AMax l r) = (integer_cast l \<or> integer_cast r)"
| "integer_cast (Pow l r) = (integer_cast l \<or> integer_cast r)"
| "integer_cast (Abs e) = integer_cast e"
| "integer_cast (Cast e target) = (integer_cast e \<or> target \<noteq> TyF32 \<and> target \<noteq> TyF64)"
| "integer_cast (FuncCall _ _) = False"
| "integer_cast (Conditional cl op cr te ee) =
     (integer_cast cl \<or> integer_cast cr \<or> integer_cast te \<or> integer_cast ee)"

text \<open>A result fits a kind: a value of the kind, a static error for no kind, or a range error.\<close>

definition fits :: "bool \<Rightarrow> arith_error + arith_value \<Rightarrow> arith_kind option \<Rightarrow> bool" where
  "fits casts result kind =
     (case result of
        Inr v \<Rightarrow> kind = Some (av_kind v)
      | Inl e \<Rightarrow> if e = FloatCastRange then casts
                 else kind = None \<and> e \<noteq> EvaluationState \<and> e \<noteq> ArithPanic)"

lemma fits_simps [simp]:
  "fits casts (Inr v) kind \<longleftrightarrow> kind = Some (av_kind v)"
  "fits casts (Inl FloatCastRange) kind \<longleftrightarrow> casts"
  "e \<noteq> FloatCastRange \<Longrightarrow> fits casts (Inl e) kind \<longleftrightarrow> kind = None \<and> e \<noteq> EvaluationState \<and> e \<noteq> ArithPanic"
  by (simp_all add: fits_def)

lemma fits_mono: "fits c result kind \<Longrightarrow> (c \<Longrightarrow> c') \<Longrightarrow> fits c' result kind"
  by (auto simp: fits_def split: sum.splits if_splits)

lemma fits_bind:
  assumes "fits c x k" and "\<And>v. x = Inr v \<Longrightarrow> fits c (f v) (g (av_kind v))"
  shows "fits c (bind_res x f) (Option.bind k g)"
  using assms by (cases x) (auto simp: fits_def split: if_splits)

lemma as_f64_kind: "as_f64 env v = (if av_kind v = KString then Inl NumericTypes else as_f64 env v)"
  by (cases v) (simp_all add: as_f64_def)

lemma as_f64_ok: "av_kind v \<noteq> KString \<Longrightarrow> \<exists>f. as_f64 env v = Inr f"
  by (cases v) (simp_all add: as_f64_def)

lemma cast_i64_cases:
  "av_kind v = KString \<and> cast_i64 env v = Inl NumericTypes
    \<or> av_kind v \<noteq> KString \<and> (cast_i64 env v = Inl FloatCastRange \<or> (\<exists>i. cast_i64 env v = Inr i))"
  by (cases v) (simp_all add: cast_i64_def float_to_i64_def)

lemma fits_binary: "fits c (evaluate_binary env operation l r) (binary_kind operation (av_kind l) (av_kind r))"
proof (cases "operation = OpPower")
  case True
  then show ?thesis
    using as_f64_ok [of l env] as_f64_ok [of r env] as_f64_kind [of env l] as_f64_kind [of env r]
    by (cases "av_kind l = KString"; cases "av_kind r = KString")
      (auto simp: evaluate_binary_def binary_kind_def)
next
  case False
  show ?thesis
  proof (cases "av_kind l = av_kind r")
    case True
    with False show ?thesis
      by (cases l; cases r; cases operation)
        (simp_all add: evaluate_binary_def binary_kind_def is_numeric_kind_def or_panic_def f32_binary_def
          f64_binary_def)
  qed (use False in \<open>simp add: evaluate_binary_def binary_kind_def\<close>)
qed

lemma fits_abs: "fits c (evaluate_abs v) (if is_numeric_kind (av_kind v) then Some (av_kind v) else None)"
  by (cases v) (simp_all add: is_numeric_kind_def)

lemma type_kind_scalar: "kind_scalar_type k = Some ty \<Longrightarrow> type_kind ty = k"
  by (cases k) auto

lemma fits_cast:
  "fits (target \<noteq> TyF32 \<and> target \<noteq> TyF64) (cast_value env v target)
    (if av_kind v = KString then None else Some (type_kind target))"
proof (cases "av_scalar_type v = Some target")
  case True
  then show ?thesis
    using type_kind_scalar [of "av_kind v" target] by (auto simp: cast_value_def av_scalar_type_def)
next
  case False
  then show ?thesis
    using cast_i64_cases [of v env] as_f64_ok [of v env] as_f64_kind [of env v]
    by (cases target) (auto simp: cast_value_def map_res_def)
qed

lemma compare_cases:
  "comparable (av_kind l) (av_kind r) \<and> (\<exists>c. compare_arithmetic_values env l op r = Inr c)
    \<or> \<not> comparable (av_kind l) (av_kind r) \<and> compare_arithmetic_values env l op r = Inl CompareTypes"
proof (cases "mixed_float_numeric (av_kind l) (av_kind r)")
  case True
  then have "av_kind l \<noteq> KString" "av_kind r \<noteq> KString"
    by (auto simp: mixed_float_numeric_def is_numeric_kind_def)
  then show ?thesis
    using as_f64_ok [of l env] as_f64_ok [of r env] True
    by (auto simp: compare_arithmetic_values_def comparable_def)
next
  case False
  then show ?thesis
  proof (cases "av_kind l = av_kind r")
    case True
    with False show ?thesis
      by (cases l; cases r) (simp_all add: compare_arithmetic_values_def comparable_def)
  qed (simp add: compare_arithmetic_values_def comparable_def)
qed

lemma fits_combine:
  assumes "fits a x k" and "fits b y k'"
  shows "fits (a \<or> b) (combine env operation x y) (kind2 (binary_kind operation) k k')"
  unfolding combine_def kind2_def
  by (intro fits_bind fits_mono [OF assms(1)] fits_mono [OF assms(2)] fits_binary) simp_all

lemma eval_fits: "fits (integer_cast e) (eval_expr env \<beta> e) (expr_kind (\<lambda>x. map_option av_kind (\<beta> x)) e)"
proof (induction e)
  case (AVariable name)
  then show ?case by (cases "\<beta> name") simp_all
next
  case (Conditional cl op cr te ee)
  let ?c = "integer_cast (Conditional cl op cr te ee)"
  have cmp: "fits ?c (bind_res (compare_arithmetic_values env l op r) f)
      (Option.bind (if comparable (av_kind l) (av_kind r) then Some (av_kind l) else None) g)"
    if "\<And>b. fits ?c (f b) (g (av_kind l))" for l r f g
    using compare_cases [of l r env op] that by auto
  have bind2: "Option.bind (kind2 h x y) g = Option.bind x (\<lambda>l. Option.bind y (\<lambda>r. Option.bind (h l r) g))" for h x y g
    by (cases x; cases y) (simp_all add: kind2_def)
  show ?case
    unfolding eval_expr.simps expr_kind.simps bind2
    unfolding kind2_def
    by (intro fits_bind cmp fits_mono [OF Conditional.IH(1)] fits_mono [OF Conditional.IH(2)]
        fits_mono [OF Conditional.IH(3)] fits_mono [OF Conditional.IH(4)]) auto
next
  case (Abs e)
  then show ?case by (simp add: fits_bind fits_abs)
next
  case (Cast e target)
  show ?case
    unfolding eval_expr.simps expr_kind.simps integer_cast.simps
    by (intro fits_bind fits_mono [OF Cast.IH] fits_mono [OF fits_cast]) auto
qed (simp_all add: fits_combine)

text \<open>C35: The evaluator with explicit task and value stacks computes the recursive left-to-right
  evaluation of the expression, errors included: the first error met from the left is the error
  returned, both branches of a conditional are evaluated, and the stacks never get out of step.\<close>

theorem stack_machine_evaluates:
  "evaluate_arithmetic_expression env e bindings = eval_expr env bindings e"
  by (rule evaluate_eval)

text \<open>C36: The dynamic type checks are a static type system: a result has the kind the expression has
  under the kinds of the bindings, every error other than the range error of a cast to an integer
  means that the expression has no kind, and neither the invalid-state error nor a panic occurs.\<close>

theorem arithmetic_kinds:
  "case evaluate_arithmetic_expression env e bindings of
     Inr v \<Rightarrow> expr_kind (\<lambda>x. map_option av_kind (bindings x)) e = Some (av_kind v)
   | Inl err \<Rightarrow>
       if err = FloatCastRange then integer_cast e
       else expr_kind (\<lambda>x. map_option av_kind (bindings x)) e = None
         \<and> err \<noteq> EvaluationState \<and> err \<noteq> ArithPanic"
  using eval_fits [of e env bindings] by (simp add: evaluate_eval fits_def)

end
