(* ===== verification/Prob_Values.thy ===== *)
theory Prob_Values
  imports Pir_Builder Arithmetic Stratify Wfs
begin

text \<open>
  Ground values of probabilistic provenance and what one body literal does with them
  (\<open>xlog-prob/src/provenance.rs\<close>): reading terms, unifying an atom with a tuple, materialising heads,
  comparisons and arithmetic over the two sets of bindings, and the canonical form of a tuple under
  the declared column types. A schema is the list of its column types. The binding map, which the
  aggregates sort by key, is an ordered map; the arithmetic bindings are only looked up.
\<close>

type_synonym schemas = "string \<rightharpoonup> scalar_type list"
type_synonym binding = "(string, pvalue) btree"

text \<open>Errors by their message; \<open>ProvPanic\<close> is an exhausted identifier space, a failed \<open>expect\<close> or an
  unreachable arm.\<close>

datatype prov_error =
    ProvArith arith_error
  | ExpectedGround string
  | NonConstantValue
  | UnsupportedTerm string string
  | AtomArity string nat nat
  | AggregateTerm
  | UnboundHead string string
  | AnonymousHead string
  | UnboundComparison string
  | AnonymousComparison
  | MissingSchema string
  | SchemaArity string nat nat
  | MissingColumn string nat
  | NotCorresponding
  | ProvenanceU64Range
  | TargetBound string
  | RowArity string
  | IncompatibleTypes string
  | TypedMismatch scalar_type
  | MissingDelta string
  | UnknownPredicate string
  | EpistemicConstruct string
  | UnivNotNormalized
  | UnsafeVariable string
  | AggregateInput string
  | AggregateState
  | AggregateOverflow string
  | AggregateEmpty string
  | AggregateCap string nat nat
  | NotGroupKey string
  | AnonymousAggregateHead string
  | IterationLimit nat "string list"
  | InvalidProbability string u64
  | EmptyDisjunction
  | DisjunctionSum u64
  | IdOverflow string
  | ProvStratify stratify_error
  | ProvWfs wfs_error
  | ProvPanic

text \<open>What is outside the repository: the floating-point functions and the order of a hash map.\<close>

record prob_env =
  scalars :: scalar_env
  f64_exp :: "u64 \<Rightarrow> u64"
  f64_ln :: "u64 \<Rightarrow> u64"
  hash_order :: "wfs_atom list \<Rightarrow> wfs_atom list"

section \<open>Values\<close>

definition unsupported_term :: "string \<Rightarrow> ast_term \<Rightarrow> prov_error" where
  "unsupported_term place t =
     UnsupportedTerm place
       (case t of ListTerm _ \<Rightarrow> ''list'' | ConsTerm _ _ \<Rightarrow> ''cons'' | Compound _ _ \<Rightarrow> ''compound'' | _ \<Rightarrow> ''predref'')"

definition value_from_term :: "ast_term \<Rightarrow> prov_error + pvalue" where
  "value_from_term t =
     (case t of
        Integer i \<Rightarrow> Inr (PvI64 i)
      | Float f \<Rightarrow> Inr (PvF64 f)
      | Str s \<Rightarrow> Inr (PvString s)
      | Symbol sid \<Rightarrow> Inr (PvSymbol sid)
      | Variable _ \<Rightarrow> Inl NonConstantValue
      | Anonymous \<Rightarrow> Inl NonConstantValue
      | Aggregate _ \<Rightarrow> Inl NonConstantValue
      | _ \<Rightarrow> Inl (unsupported_term ''value conversion'' t))"

fun term_from_public_value :: "pvalue \<Rightarrow> ast_term" where
  "term_from_public_value (PvI64 v) = Integer v"
| "term_from_public_value (PvF64 v) = Float v"
| "term_from_public_value (PvSymbol v) = Symbol v"
| "term_from_public_value (PvString v) = Str v"

fun arithmetic_value_from_provenance :: "pvalue \<Rightarrow> arith_value" where
  "arithmetic_value_from_provenance (PvI64 v) = AvI64 v"
| "arithmetic_value_from_provenance (PvF64 v) = AvF64 v"
| "arithmetic_value_from_provenance (PvSymbol v) = AvSymbol v"
| "arithmetic_value_from_provenance (PvString v) = AvString v"

definition provenance_value_from_arithmetic :: "prob_env \<Rightarrow> arith_value \<Rightarrow> prov_error + pvalue" where
  "provenance_value_from_arithmetic env value =
     (case value of
        AvI32 v \<Rightarrow> Inr (PvI64 (scast v))
      | AvI64 v \<Rightarrow> Inr (PvI64 v)
      | AvU32 v \<Rightarrow> Inr (PvI64 (ucast v))
      | AvU64 v \<Rightarrow> if uint v < 2 ^ 63 then Inr (PvI64 v) else Inl ProvenanceU64Range
      | AvF32 v \<Rightarrow> Inr (PvF64 (f64_of_f32 (scalars env) v))
      | AvF64 v \<Rightarrow> Inr (PvF64 v)
      | AvBool v \<Rightarrow> Inr (PvI64 (of_bool v))
      | AvSymbol v \<Rightarrow> Inr (PvSymbol v)
      | AvString v \<Rightarrow> Inr (PvString v))"

definition arithmetic_value_from_typed_provenance ::
    "prob_env \<Rightarrow> pvalue \<Rightarrow> scalar_type \<Rightarrow> prov_error + arith_value" where
  "arithmetic_value_from_typed_provenance env value ty =
     (case (ty, value) of
        (TyI32, PvI64 v) \<Rightarrow>
          if - (2 ^ 31) \<le> sint v \<and> sint v < 2 ^ 31 then Inr (AvI32 (ucast v)) else Inl (TypedMismatch ty)
      | (TyI64, PvI64 v) \<Rightarrow> Inr (AvI64 v)
      | (TyU32, PvI64 v) \<Rightarrow>
          if 0 \<le> sint v \<and> sint v < 2 ^ 32 then Inr (AvU32 (ucast v)) else Inl (TypedMismatch ty)
      | (TyU64, PvI64 v) \<Rightarrow> if 0 \<le> sint v then Inr (AvU64 v) else Inl (TypedMismatch ty)
      | (TyF32, PvF64 v) \<Rightarrow> Inr (AvF32 (f32_of_f64 (scalars env) v))
      | (TyF64, PvF64 v) \<Rightarrow> Inr (AvF64 v)
      | (TyBool, PvI64 v) \<Rightarrow>
          if v = 0 then Inr (AvBool False) else if v = 1 then Inr (AvBool True) else Inl (TypedMismatch ty)
      | (TySymbol, PvSymbol v) \<Rightarrow> Inr (AvSymbol v)
      | (TySymbol, PvString v) \<Rightarrow> Inr (AvSymbol (symbol_of (scalars env) v))
      | _ \<Rightarrow> Inl (TypedMismatch ty))"

definition canonicalize_public_values ::
    "prob_env \<Rightarrow> schemas \<Rightarrow> string \<Rightarrow> pvalue list \<Rightarrow> prov_error + pvalue list" where
  "canonicalize_public_values env schemas p args =
     (case schemas p of
        None \<Rightarrow> Inl (MissingSchema p)
      | Some schema \<Rightarrow>
          if length schema \<noteq> length args then Inl (SchemaArity p (length schema) (length args))
          else traverse (\<lambda>(ty, v). bind_res (arithmetic_value_from_typed_provenance env v ty)
                 (provenance_value_from_arithmetic env)) (zip schema args))"

section \<open>Unification and heads\<close>

text \<open>The inner \<open>None\<close> is the result \<open>false\<close>.\<close>

fun unify_terms :: "ast_term list \<Rightarrow> pvalue list \<Rightarrow> binding \<Rightarrow> prov_error + binding option" where
  "unify_terms (t # ts) (v # vs) b =
     (case t of
        Variable name \<Rightarrow>
          (case map_of b name of
             Some existing \<Rightarrow> if existing \<noteq> v then Inr None else unify_terms ts vs b
           | None \<Rightarrow> unify_terms ts vs (bt_insert name v b))
      | Anonymous \<Rightarrow> unify_terms ts vs b
      | Aggregate _ \<Rightarrow> Inl AggregateTerm
      | ListTerm _ \<Rightarrow> Inl (unsupported_term ''unification'' t)
      | ConsTerm _ _ \<Rightarrow> Inl (unsupported_term ''unification'' t)
      | Compound _ _ \<Rightarrow> Inl (unsupported_term ''unification'' t)
      | PredRef _ \<Rightarrow> Inl (unsupported_term ''unification'' t)
      | _ \<Rightarrow> bind_res (value_from_term t) (\<lambda>c. if c \<noteq> v then Inr None else unify_terms ts vs b))"
| "unify_terms _ _ b = Inr (Some b)"

definition unify_atom :: "atom \<Rightarrow> pvalue list \<Rightarrow> binding \<Rightarrow> prov_error + binding option" where
  "unify_atom a tuple b =
     (if length (terms a) \<noteq> length tuple then Inl (AtomArity (predicate a) (length (terms a)) (length tuple))
      else unify_terms (terms a) tuple b)"

definition head_value :: "string \<Rightarrow> binding \<Rightarrow> ast_term \<Rightarrow> prov_error + pvalue" where
  "head_value p b t =
     (case t of
        Variable name \<Rightarrow> (case map_of b name of None \<Rightarrow> Inl (UnboundHead name p) | Some v \<Rightarrow> Inr v)
      | Anonymous \<Rightarrow> Inl (AnonymousHead p)
      | Aggregate _ \<Rightarrow> Inl AggregateTerm
      | ListTerm _ \<Rightarrow> Inl (unsupported_term ''head materialization'' t)
      | ConsTerm _ _ \<Rightarrow> Inl (unsupported_term ''head materialization'' t)
      | Compound _ _ \<Rightarrow> Inl (unsupported_term ''head materialization'' t)
      | PredRef _ \<Rightarrow> Inl (unsupported_term ''head materialization'' t)
      | _ \<Rightarrow> value_from_term t)"

definition materialize_head :: "atom \<Rightarrow> binding \<Rightarrow> prov_error + pvalue list" where
  "materialize_head h b = traverse (head_value (predicate h) b) (terms h)"

section \<open>Comparisons and arithmetic\<close>

definition lift_arith :: "arith_error + 'a \<Rightarrow> prov_error + 'a" where
  "lift_arith = map_err ProvArith"

definition resolve_term :: "binding \<Rightarrow> ast_term \<Rightarrow> prov_error + pvalue" where
  "resolve_term b t =
     (case t of
        Variable name \<Rightarrow> (case map_of b name of None \<Rightarrow> Inl (UnboundComparison name) | Some v \<Rightarrow> Inr v)
      | Anonymous \<Rightarrow> Inl AnonymousComparison
      | Aggregate _ \<Rightarrow> Inl AggregateTerm
      | ListTerm _ \<Rightarrow> Inl (unsupported_term ''comparison'' t)
      | ConsTerm _ _ \<Rightarrow> Inl (unsupported_term ''comparison'' t)
      | Compound _ _ \<Rightarrow> Inl (unsupported_term ''comparison'' t)
      | PredRef _ \<Rightarrow> Inl (unsupported_term ''comparison'' t)
      | _ \<Rightarrow> value_from_term t)"

definition bound_arithmetic_value :: "ast_term \<Rightarrow> binding \<Rightarrow> arith_bindings \<Rightarrow> arith_value option" where
  "bound_arithmetic_value t b ab =
     (case t of
        Variable name \<Rightarrow>
          (case ab name of
             Some v \<Rightarrow> Some v
           | None \<Rightarrow> map_option arithmetic_value_from_provenance (map_of b name))
      | _ \<Rightarrow> None)"

definition resolve_comparison_term ::
    "prob_env \<Rightarrow> ast_term \<Rightarrow> binding \<Rightarrow> arith_value option \<Rightarrow> scalar_type option \<Rightarrow> prov_error + arith_value"
  where
  "resolve_comparison_term env t b bound peer =
     (case bound of
        Some v \<Rightarrow> Inr v
      | None \<Rightarrow>
          (case peer of
             Some ty \<Rightarrow> lift_arith (from_typed_term (scalars env) t ty)
           | None \<Rightarrow> map_res arithmetic_value_from_provenance (resolve_term b t)))"

definition eval_comparison ::
    "prob_env \<Rightarrow> comparison \<Rightarrow> binding \<Rightarrow> arith_bindings \<Rightarrow> prov_error + bool" where
  "eval_comparison env c b ab =
     (let left = bound_arithmetic_value (cmp_left c) b ab;
          right = bound_arithmetic_value (cmp_right c) b ab
      in bind_res (resolve_comparison_term env (cmp_left c) b left (Option.bind right av_scalar_type)) (\<lambda>l.
         bind_res (resolve_comparison_term env (cmp_right c) b right (Option.bind left av_scalar_type)) (\<lambda>r.
         lift_arith (compare_arithmetic_values (scalars env) l (cmp_op c) r))))"

definition eval_arithmetic_value ::
    "prob_env \<Rightarrow> arith_expr \<Rightarrow> binding \<Rightarrow> arith_bindings \<Rightarrow> prov_error + arith_value" where
  "eval_arithmetic_value env e b ab =
     lift_arith (evaluate_arithmetic_expression (scalars env) e
       ((\<lambda>name. map_option arithmetic_value_from_provenance (map_of b name)) ++ ab))"

definition bind_arithmetic_result ::
    "prob_env \<Rightarrow> string \<Rightarrow> arith_value \<Rightarrow> binding \<Rightarrow> arith_bindings \<Rightarrow> prov_error + binding \<times> arith_bindings"
  where
  "bind_arithmetic_result env target v b ab =
     (if map_of b target \<noteq> None \<or> ab target \<noteq> None then Inl (TargetBound target)
      else map_res (\<lambda>pv. (bt_insert target pv b, ab(target \<mapsto> v))) (provenance_value_from_arithmetic env v))"

definition bind_column ::
    "prob_env \<Rightarrow> scalar_type \<Rightarrow> ast_term \<Rightarrow> pvalue \<Rightarrow> arith_bindings \<Rightarrow> prov_error + arith_bindings" where
  "bind_column env ty t v ab =
     (case t of
        Variable name \<Rightarrow>
          bind_res (arithmetic_value_from_typed_provenance env v ty) (\<lambda>typed.
            case ab name of
              None \<Rightarrow> Inr (ab(name \<mapsto> typed))
            | Some existing \<Rightarrow>
                if av_scalar_type existing \<noteq> av_scalar_type typed then Inl (IncompatibleTypes name)
                else bind_res (lift_arith (compare_arithmetic_values (scalars env) existing Eq typed)) (\<lambda>same.
                       if same then Inr ab else Inl (IncompatibleTypes name)))
      | _ \<Rightarrow> Inr ab)"

definition extend_arithmetic_bindings ::
    "prob_env \<Rightarrow> schemas \<Rightarrow> atom \<Rightarrow> pvalue list \<Rightarrow> arith_bindings \<Rightarrow> prov_error + arith_bindings" where
  "extend_arithmetic_bindings env schemas a tuple ab =
     (case schemas (predicate a) of
        None \<Rightarrow> Inl (MissingSchema (predicate a))
      | Some schema \<Rightarrow>
          if length (terms a) \<noteq> length tuple \<or> length schema \<noteq> length tuple then Inl (RowArity (predicate a))
          else fold_res (\<lambda>(ty, t, v). bind_column env ty t v) (zip schema (zip (terms a) tuple)) ab)"

section \<open>Program constants\<close>

definition canonicalize_term ::
    "prob_env \<Rightarrow> scalar_type \<Rightarrow> ast_term \<Rightarrow> prov_error + ast_term" where
  "canonicalize_term env ty t =
     (case t of
        Variable _ \<Rightarrow> Inr t
      | Anonymous \<Rightarrow> Inr t
      | ListTerm _ \<Rightarrow> Inr t
      | ConsTerm _ _ \<Rightarrow> Inr t
      | Compound _ _ \<Rightarrow> Inr t
      | PredRef _ \<Rightarrow> Inr t
      | Aggregate _ \<Rightarrow> Inr t
      | _ \<Rightarrow> bind_res (lift_arith (from_typed_term (scalars env) t ty)) (\<lambda>v.
             map_res term_from_public_value (provenance_value_from_arithmetic env v)))"

definition canonicalize_atom_constants :: "prob_env \<Rightarrow> schemas \<Rightarrow> atom \<Rightarrow> prov_error + atom" where
  "canonicalize_atom_constants env schemas a =
     (case schemas (predicate a) of
        None \<Rightarrow> Inl (MissingSchema (predicate a))
      | Some schema \<Rightarrow>
          if length schema \<noteq> length (terms a) then Inl (SchemaArity (predicate a) (length schema) (length (terms a)))
          else map_res (\<lambda>ts. a\<lparr>terms := ts\<rparr>)
                 (traverse (\<lambda>(ty, t). canonicalize_term env ty t) (zip schema (terms a))))"

definition canonicalize_literal :: "prob_env \<Rightarrow> schemas \<Rightarrow> body_literal \<Rightarrow> prov_error + body_literal" where
  "canonicalize_literal env schemas l =
     (case l of
        Positive a \<Rightarrow> map_res Positive (canonicalize_atom_constants env schemas a)
      | Negated a \<Rightarrow> map_res Negated (canonicalize_atom_constants env schemas a)
      | _ \<Rightarrow> Inr l)"

definition canonicalize_rule :: "prob_env \<Rightarrow> schemas \<Rightarrow> rule \<Rightarrow> prov_error + rule" where
  "canonicalize_rule env schemas r =
     bind_res (canonicalize_atom_constants env schemas (head r)) (\<lambda>h.
     map_res (\<lambda>ls. \<lparr>head = h, body = ls\<rparr>) (traverse (canonicalize_literal env schemas) (body r)))"

definition canonicalize_fact :: "prob_env \<Rightarrow> schemas \<Rightarrow> prob_fact \<Rightarrow> prov_error + prob_fact" where
  "canonicalize_fact env schemas pf =
     map_res (\<lambda>a. pf\<lparr>pf_atom := a\<rparr>) (canonicalize_atom_constants env schemas (pf_atom pf))"

definition canonicalize_probabilistic_program ::
    "prob_env \<Rightarrow> schemas \<Rightarrow> program \<Rightarrow> prov_error + program" where
  "canonicalize_probabilistic_program env schemas p =
     bind_res (traverse (canonicalize_rule env schemas) (rules p)) (\<lambda>rs.
     bind_res (traverse (canonicalize_fact env schemas) (prob_facts p)) (\<lambda>pfs.
     bind_res (traverse (\<lambda>ad. map_res (\<lambda>cs. ad\<lparr>choices := cs\<rparr>)
         (traverse (canonicalize_fact env schemas) (choices ad))) (annotated_disjunctions p)) (\<lambda>ads.
     bind_res (traverse (\<lambda>ev. map_res (\<lambda>a. ev\<lparr>ev_atom := a\<rparr>)
         (canonicalize_atom_constants env schemas (ev_atom ev))) (evidence_stmts p)) (\<lambda>evs.
     map_res (\<lambda>qs. p\<lparr>rules := rs, prob_facts := pfs, annotated_disjunctions := ads,
         evidence_stmts := evs, prob_queries := qs\<rparr>)
       (traverse (\<lambda>q. map_res (\<lambda>a. q\<lparr>pq_atom := a\<rparr>)
         (canonicalize_atom_constants env schemas (pq_atom q))) (prob_queries p))))))"

end
