(* ===== verification/Aggregates.thy ===== *)
theory Aggregates
  imports Prob_Values "HOL-Library.Option_ord"
begin

text \<open>
  The states of probabilistic aggregates (\<open>xlog-prob/src/aggregates.rs\<close>). The 128-bit sum is an
  \<open>int\<close>: it would take more than \<open>2 ^ 64\<close> rows to leave the width.
\<close>

datatype agg_state =
    StCount u64
  | StSumI int
  | StSumF u64
  | StMin "pvalue option"
  | StMax "pvalue option"
  | StLogSumExp u64 u64 bool

text \<open>The key orders the states by variant and payload, floating-point values by their patterns.\<close>

type_synonym agg_state_key = "nat \<times> int \<times> int \<times> bool \<times> pvalue option"

fun dp_key :: "agg_state \<Rightarrow> agg_state_key" where
  "dp_key (StCount c) = (0, uint c, 0, False, None)"
| "dp_key (StSumI acc) = (1, acc, 0, False, None)"
| "dp_key (StSumF acc) = (2, uint acc, 0, False, None)"
| "dp_key (StMin v) = (3, 0, 0, False, v)"
| "dp_key (StMax v) = (4, 0, 0, False, v)"
| "dp_key (StLogSumExp mx sumexp started) = (5, uint mx, uint sumexp, started, None)"

lemma dp_key_inject: "dp_key a = dp_key b \<longleftrightarrow> a = b"
  by (cases a; cases b) (auto intro: unsigned_word_eqI)

definition f64_neg_infinity :: u64 where "f64_neg_infinity = 0xfff0000000000000"

definition f64_one :: u64 where "f64_one = 0x3ff0000000000000"

definition new_state :: "agg_op \<Rightarrow> agg_state" where
  "new_state aop =
     (case aop of
        AggCount \<Rightarrow> StCount 0
      | AggSum \<Rightarrow> StSumI 0
      | AggMin \<Rightarrow> StMin None
      | AggMax \<Rightarrow> StMax None
      | AggLogSumExp \<Rightarrow> StLogSumExp f64_neg_infinity 0 False)"

definition value_le :: "pvalue \<Rightarrow> pvalue \<Rightarrow> prov_error + bool" where
  "value_le a b =
     (case (a, b) of
        (PvI64 x, PvI64 y) \<Rightarrow> Inr (sint x \<le> sint y)
      | (PvF64 x, PvF64 y) \<Rightarrow> Inr (f64_total_order_key_from_bits x \<le> f64_total_order_key_from_bits y)
      | (PvSymbol x, PvSymbol y) \<Rightarrow> Inr (x \<le> y)
      | (PvString x, PvString y) \<Rightarrow> Inr (x \<le> y)
      | _ \<Rightarrow> Inl (AggregateInput ''min/max''))"

definition saturating_inc :: "u64 \<Rightarrow> u64" where
  "saturating_inc c = (if c = - 1 then c else c + 1)"

definition update_sum :: "prob_env \<Rightarrow> pvalue \<Rightarrow> agg_state \<Rightarrow> prov_error + agg_state" where
  "update_sum env v st =
     (let add = f64_operation (scalars env) OpAdd; conv = f64_of_int (scalars env)
      in case (st, v) of
        (StSumI acc, PvI64 i) \<Rightarrow> Inr (StSumI (acc + sint i))
      | (StSumI acc, PvF64 f) \<Rightarrow> Inr (StSumF (add (conv acc) f))
      | (StSumI acc, _) \<Rightarrow> Inl (AggregateInput ''sum'')
      | (StSumF acc, PvI64 i) \<Rightarrow> Inr (StSumF (add acc (conv (sint i))))
      | (StSumF acc, PvF64 f) \<Rightarrow> Inr (StSumF (add acc f))
      | (StSumF acc, _) \<Rightarrow> Inl (AggregateInput ''sum'')
      | _ \<Rightarrow> Inl AggregateState)"

definition update_logsumexp :: "prob_env \<Rightarrow> pvalue \<Rightarrow> agg_state \<Rightarrow> prov_error + agg_state" where
  "update_logsumexp env v st =
     (case st of
        StLogSumExp mx sumexp started \<Rightarrow>
          bind_res (case v of PvI64 i \<Rightarrow> Inr (f64_of_int (scalars env) (sint i)) | PvF64 f \<Rightarrow> Inr f
                    | _ \<Rightarrow> Inl (AggregateInput ''logsumexp'')) (\<lambda>x.
            let f = f64_operation (scalars env)
            in if f64_is_nan x then Inl (AggregateInput ''logsumexp NaN'')
               else if \<not> started then Inr (StLogSumExp x f64_one True)
               else if f64_less mx x
               then Inr (StLogSumExp x (f OpAdd (f OpMultiply sumexp (f64_exp env (f OpSubtract mx x))) f64_one)
                       started)
               else Inr (StLogSumExp mx (f OpAdd sumexp (f64_exp env (f OpSubtract x mx))) started))
      | _ \<Rightarrow> Inl AggregateState)"

definition update_state :: "prob_env \<Rightarrow> agg_op \<Rightarrow> pvalue \<Rightarrow> agg_state \<Rightarrow> prov_error + agg_state" where
  "update_state env aop v st =
     (case aop of
        AggCount \<Rightarrow> (case st of StCount c \<Rightarrow> Inr (StCount (saturating_inc c)) | _ \<Rightarrow> Inl AggregateState)
      | AggSum \<Rightarrow> update_sum env v st
      | AggMin \<Rightarrow>
          (case st of
             StMin None \<Rightarrow> Inr (StMin (Some v))
           | StMin (Some c) \<Rightarrow> map_res (\<lambda>le. StMin (Some (if le then v else c))) (value_le v c)
           | _ \<Rightarrow> Inl AggregateState)
      | AggMax \<Rightarrow>
          (case st of
             StMax None \<Rightarrow> Inr (StMax (Some v))
           | StMax (Some c) \<Rightarrow> map_res (\<lambda>le. StMax (Some (if le then v else c))) (value_le c v)
           | _ \<Rightarrow> Inl AggregateState)
      | AggLogSumExp \<Rightarrow> update_logsumexp env v st)"

definition finish_state :: "prob_env \<Rightarrow> agg_op \<Rightarrow> agg_state \<Rightarrow> prov_error + pvalue" where
  "finish_state env aop st =
     (case (aop, st) of
        (AggCount, StCount c) \<Rightarrow> if uint c < 2 ^ 63 then Inr (PvI64 c) else Inl (AggregateOverflow ''count'')
      | (AggSum, StSumI acc) \<Rightarrow>
          if - (2 ^ 63) \<le> acc \<and> acc < 2 ^ 63 then Inr (PvI64 (word_of_int acc)) else Inl (AggregateOverflow ''sum'')
      | (AggSum, StSumF v) \<Rightarrow> Inr (PvF64 v)
      | (AggMin, StMin v) \<Rightarrow> (case v of None \<Rightarrow> Inl (AggregateEmpty ''min'') | Some x \<Rightarrow> Inr x)
      | (AggMax, StMax v) \<Rightarrow> (case v of None \<Rightarrow> Inl (AggregateEmpty ''max'') | Some x \<Rightarrow> Inr x)
      | (AggLogSumExp, StLogSumExp mx sumexp started) \<Rightarrow>
          if \<not> started then Inr (PvF64 f64_neg_infinity)
          else Inr (PvF64 (f64_operation (scalars env) OpAdd mx (f64_ln env sumexp)))
      | _ \<Rightarrow> Inl AggregateState)"

end
