(* ===== verification/Provenance_Eval.thy ===== *)
theory Provenance_Eval
  imports Aggregates Decision_Order Stratify_Correct
begin

text \<open>
  Extraction of provenance formulas from a program (\<open>xlog-prob/src/provenance.rs\<close>): evaluation of one
  rule over relations of formulas, aggregates over uncertain rows, non-recursive, recursive and
  non-monotone components, annotated disjunctions, and the extraction of a whole program. The builder
  of formulas is threaded through every operation.
\<close>

section \<open>Operations of the builder\<close>

definition lift_builder ::
    "(pir_builder \<Rightarrow> ('a \<times> pir_builder) option) \<Rightarrow> pir_builder \<Rightarrow> prov_error + 'a \<times> pir_builder" where
  "lift_builder m bd = (case m bd of None \<Rightarrow> Inl ProvPanic | Some r \<Rightarrow> Inr r)"

fun map_state :: "('a \<Rightarrow> 's \<Rightarrow> ('b \<times> 's) option) \<Rightarrow> 'a list \<Rightarrow> 's \<Rightarrow> ('b list \<times> 's) option" where
  "map_state f [] s = Some ([], s)"
| "map_state f (x # xs) s =
     (case f x s of
        None \<Rightarrow> None
      | Some (y, s') \<Rightarrow> map_option (\<lambda>(ys, s''). (y # ys, s'')) (map_state f xs s'))"

text \<open>
  The recursion of \<open>negate_provenance\<close> descends to children, whose identifiers are smaller than that of
  their node; the fuel is one more than the identifier.\<close>

fun negate_provenance :: "nat \<Rightarrow> node_id \<Rightarrow> pir_builder \<Rightarrow> (node_id \<times> pir_builder) option" where
  "negate_provenance 0 i bd = None"
| "negate_provenance (Suc fuel) i bd =
     (case node (pir bd) i of
        None \<Rightarrow> Some (i, bd)
      | Some (PConst c) \<Rightarrow> Some (if c then bconst_false bd else bconst_true bd, bd)
      | Some (PLit l) \<Rightarrow> build_neg_lit l bd
      | Some (PNegLit l) \<Rightarrow> build_lit l bd
      | Some (PAnd cs) \<Rightarrow>
          (case map_state (\<lambda>c. negate_provenance fuel c) cs bd of
             None \<Rightarrow> None | Some (ns, bd') \<Rightarrow> build_or ns bd')
      | Some (POr cs) \<Rightarrow>
          (case map_state (\<lambda>c. negate_provenance fuel c) cs bd of
             None \<Rightarrow> None | Some (ns, bd') \<Rightarrow> build_and ns bd')
      | Some (PDecision v f t) \<Rightarrow>
          (case negate_provenance fuel f bd of
             None \<Rightarrow> None
           | Some (nf, bd') \<Rightarrow>
               (case negate_provenance fuel t bd' of
                  None \<Rightarrow> None
                | Some (nt, bd'') \<Rightarrow> build_decision v nf nt bd'')))"

definition negate_node :: "node_id \<Rightarrow> pir_builder \<Rightarrow> (node_id \<times> pir_builder) option" where
  "negate_node i = negate_provenance (Suc (unat i)) i"

definition insert_formula ::
    "formula_relation \<Rightarrow> pvalue list \<Rightarrow> node_id \<Rightarrow> pir_builder \<Rightarrow> prov_error + formula_relation \<times> pir_builder"
  where
  "insert_formula rel tuple f = lift_builder (insert_or rel tuple f)"

section \<open>The literals of a rule\<close>

type_synonym prov_state = "binding \<times> arith_bindings \<times> node_id"
type_synonym relation_store = "(string, formula_relation) btree"

definition match_tuple ::
    "prob_env \<Rightarrow> schemas \<Rightarrow> atom \<Rightarrow> prov_state \<Rightarrow> pvalue list \<times> node_id
     \<Rightarrow> prov_state list \<times> pir_builder \<Rightarrow> prov_error + prov_state list \<times> pir_builder" where
  "match_tuple env schemas a = (\<lambda>(b, ab, prov) (tuple, tuple_prov) (out, bd).
     bind_res (unify_atom a tuple b) (\<lambda>m.
       case m of
         None \<Rightarrow> Inr (out, bd)
       | Some b' \<Rightarrow>
           bind_res (extend_arithmetic_bindings env schemas a tuple ab) (\<lambda>ab'.
           bind_res (lift_builder (build_and [prov, tuple_prov]) bd) (\<lambda>(prov', bd').
           Inr (out @ [(b', ab', prov')], bd')))))"

definition eval_positive ::
    "prob_env \<Rightarrow> schemas \<Rightarrow> atom \<Rightarrow> formula_relation \<Rightarrow> prov_state list \<Rightarrow> pir_builder
     \<Rightarrow> prov_error + prov_state list \<times> pir_builder" where
  "eval_positive env schemas a rel states bd =
     fold_res (\<lambda>st. fold_res (match_tuple env schemas a st) rel) states ([], bd)"

definition all_bound :: "atom \<Rightarrow> binding \<Rightarrow> bool" where
  "all_bound a b = list_all (\<lambda>t. case t of Variable v \<Rightarrow> map_of b v \<noteq> None | _ \<Rightarrow> True) (terms a)"

definition collect_match ::
    "atom \<Rightarrow> binding \<Rightarrow> pvalue list \<times> node_id \<Rightarrow> node_id list \<Rightarrow> prov_error + node_id list" where
  "collect_match a b = (\<lambda>(tuple, tuple_prov) out.
     map_res (\<lambda>m. case m of None \<Rightarrow> out | Some _ \<Rightarrow> out @ [tuple_prov]) (unify_atom a tuple b))"

definition negated_state ::
    "atom \<Rightarrow> formula_relation \<Rightarrow> prov_state \<Rightarrow> prov_state list \<times> pir_builder
     \<Rightarrow> prov_error + prov_state list \<times> pir_builder" where
  "negated_state a rel = (\<lambda>(b, ab, prov) (out, bd).
     if \<not> all_bound a b then Inr (out, bd)
     else bind_res (fold_res (collect_match a b) rel []) (\<lambda>matching.
       if matching = [] then Inr (out @ [(b, ab, prov)], bd)
       else bind_res (lift_builder (build_or matching) bd) (\<lambda>(combined, bd).
            bind_res (lift_builder (negate_node combined) bd) (\<lambda>(neg_prov, bd).
            bind_res (lift_builder (build_and [prov, neg_prov]) bd) (\<lambda>(new_prov, bd).
            Inr (out @ [(b, ab, new_prov)], bd))))))"

text \<open>A relation that does not exist is the empty one: every bound instance of the negation succeeds.\<close>

definition eval_negated ::
    "atom \<Rightarrow> formula_relation option \<Rightarrow> prov_state list \<Rightarrow> pir_builder \<Rightarrow> prov_error + prov_state list \<times> pir_builder"
  where
  "eval_negated a rel states bd =
     (case rel of
        None \<Rightarrow> Inr (filter (\<lambda>(b, _). all_bound a b) states, bd)
      | Some r \<Rightarrow> fold_res (negated_state a r) states ([], bd))"

definition eval_comparisons ::
    "prob_env \<Rightarrow> comparison \<Rightarrow> prov_state list \<Rightarrow> prov_error + prov_state list" where
  "eval_comparisons env c states =
     fold_res (\<lambda>(b, ab, prov) out.
       map_res (\<lambda>ok. if ok then out @ [(b, ab, prov)] else out) (eval_comparison env c b ab)) states []"

definition eval_is ::
    "prob_env \<Rightarrow> is_expr \<Rightarrow> prov_state list \<Rightarrow> prov_error + prov_state list" where
  "eval_is env e states =
     traverse (\<lambda>(b, ab, prov).
       bind_res (eval_arithmetic_value env (is_rhs e) b ab) (\<lambda>v.
       map_res (\<lambda>(b', ab'). (b', ab', prov)) (bind_arithmetic_result env (is_target e) v b ab))) states"

definition select_relation ::
    "atom \<Rightarrow> nat \<Rightarrow> relation_store \<Rightarrow> relation_store \<Rightarrow> (nat \<times> relation_store) option
     \<Rightarrow> prov_error + formula_relation" where
  "select_relation a i global full delta =
     (let current = (case map_of full (predicate a) of
            Some rel \<Rightarrow> Inr rel
          | None \<Rightarrow>
              (case map_of global (predicate a) of
                 Some rel \<Rightarrow> Inr rel | None \<Rightarrow> Inl (UnknownPredicate (predicate a))))
      in case delta of
           Some (j, changes) \<Rightarrow>
             if j = i then
               (case map_of changes (predicate a) of
                  Some rel \<Rightarrow> Inr rel | None \<Rightarrow> Inl (MissingDelta (predicate a)))
             else current
         | None \<Rightarrow> current)"

definition eval_literal ::
    "prob_env \<Rightarrow> schemas \<Rightarrow> relation_store \<Rightarrow> relation_store \<Rightarrow> (nat \<times> relation_store) option
     \<Rightarrow> nat \<Rightarrow> body_literal \<Rightarrow> prov_state list \<Rightarrow> pir_builder \<Rightarrow> prov_error + prov_state list \<times> pir_builder"
  where
  "eval_literal env schemas global full delta i l states bd =
     (case l of
        Positive a \<Rightarrow>
          bind_res (select_relation a i global full delta) (\<lambda>rel. eval_positive env schemas a rel states bd)
      | Comparison c \<Rightarrow> map_res (\<lambda>states'. (states', bd)) (eval_comparisons env c states)
      | IsExpr e \<Rightarrow> map_res (\<lambda>states'. (states', bd)) (eval_is env e states)
      | Negated a \<Rightarrow>
          eval_negated a (case map_of full (predicate a) of
              Some rel \<Rightarrow> Some rel | None \<Rightarrow> map_of global (predicate a)) states bd
      | Epistemic _ \<Rightarrow> Inl (EpistemicConstruct ''probabilistic provenance evaluation'')
      | Univ _ \<Rightarrow> Inl UnivNotNormalized)"

fun eval_body ::
    "prob_env \<Rightarrow> schemas \<Rightarrow> relation_store \<Rightarrow> relation_store \<Rightarrow> (nat \<times> relation_store) option
     \<Rightarrow> nat \<Rightarrow> body_literal list \<Rightarrow> prov_state list \<Rightarrow> pir_builder \<Rightarrow> prov_error + prov_state list \<times> pir_builder"
  where
  "eval_body env schemas global full delta i [] states bd = Inr (states, bd)"
| "eval_body env schemas global full delta i (l # ls) states bd =
     bind_res (eval_literal env schemas global full delta i l states bd) (\<lambda>(states', bd').
       if states' = [] then Inr ([], bd')
       else eval_body env schemas global full delta (Suc i) ls states' bd')"

section \<open>Aggregates over uncertain rows\<close>

definition max_agg_uncertain_rows :: nat where "max_agg_uncertain_rows = 16"

definition max_count_lift_rows :: nat where "max_count_lift_rows = 64"

type_synonym agg_row = "binding \<times> node_id"
type_synonym agg_spec = "agg_op \<times> string"

record lift_report =
  lr_predicate :: string
  lr_group_key :: "pvalue list"
  lr_operator :: string
  lr_deterministic :: nat
  lr_uncertain :: nat
  lr_domain_size :: nat
  lr_cap :: nat
  lr_reason :: string
  lr_naive_outcomes :: nat
  lr_dp_states :: nat

fun agg_op_label :: "agg_op \<Rightarrow> string" where
  "agg_op_label AggCount = ''count''"
| "agg_op_label AggSum = ''sum''"
| "agg_op_label AggMin = ''min''"
| "agg_op_label AggMax = ''max''"
| "agg_op_label AggLogSumExp = ''logsumexp''"

definition naive_outcome_count :: "nat \<Rightarrow> nat" where
  "naive_outcome_count n = (if 128 \<le> n then 2 ^ 128 - 1 else 2 ^ n)"

definition count_lift_dp_states :: "nat \<Rightarrow> nat" where
  "count_lift_dp_states n = (n + 1) * (n + 2) div 2"

text \<open>Every report is of a lifting that fired, over grounded body rows; the texts are kept short.\<close>

definition lift_reports ::
    "atom \<Rightarrow> pvalue list \<Rightarrow> agg_spec list \<Rightarrow> nat \<Rightarrow> nat \<Rightarrow> string \<Rightarrow> nat \<Rightarrow> nat \<Rightarrow> lift_report list" where
  "lift_reports h key specs det unc reason cap states =
     map (\<lambda>(aop, _). \<lparr>lr_predicate = predicate h, lr_group_key = key, lr_operator = agg_op_label aop,
         lr_deterministic = det, lr_uncertain = unc, lr_domain_size = det + unc, lr_cap = cap,
         lr_reason = reason, lr_naive_outcomes = naive_outcome_count unc, lr_dp_states = states\<rparr>) specs"

text \<open>The plan of a head: its group variables and its aggregates, without repetition, in order.\<close>

definition plan_term ::
    "string \<Rightarrow> ast_term \<Rightarrow> string list \<times> agg_spec list \<Rightarrow> prov_error + string list \<times> agg_spec list" where
  "plan_term p t = (\<lambda>(keys, specs).
     case t of
       Variable name \<Rightarrow> Inr (if name \<in> set keys then keys else keys @ [name], specs)
     | Aggregate agg \<Rightarrow>
         (let spec = (agg_op agg, agg_variable agg)
          in Inr (keys, if spec \<in> set specs then specs else specs @ [spec]))
     | Integer _ \<Rightarrow> Inr (keys, specs)
     | Float _ \<Rightarrow> Inr (keys, specs)
     | Str _ \<Rightarrow> Inr (keys, specs)
     | Symbol _ \<Rightarrow> Inr (keys, specs)
     | Anonymous \<Rightarrow> Inl (AnonymousAggregateHead p)
     | _ \<Rightarrow> Inl (unsupported_term ''aggregate head planning'' t))"

definition aggregate_head_plan :: "atom \<Rightarrow> prov_error + string list \<times> agg_spec list" where
  "aggregate_head_plan h = fold_res (plan_term (predicate h)) (terms h) ([], [])"

definition dedup_state ::
    "binding \<times> node_id \<Rightarrow> (binding, node_id) btree \<times> pir_builder
     \<Rightarrow> prov_error + (binding, node_id) btree \<times> pir_builder" where
  "dedup_state = (\<lambda>(b, prov) (rows, bd).
     case map_of rows b of
       None \<Rightarrow> Inr (bt_insert b prov rows, bd)
     | Some old \<Rightarrow> map_res (\<lambda>(i, bd'). (bt_insert b i rows, bd')) (lift_builder (build_or [old, prov]) bd))"

definition group_key :: "string list \<Rightarrow> binding \<Rightarrow> prov_error + pvalue list" where
  "group_key keys b =
     traverse (\<lambda>name. case map_of b name of None \<Rightarrow> Inl (UnsafeVariable name) | Some v \<Rightarrow> Inr v) keys"

definition add_group_row ::
    "string list \<Rightarrow> agg_row \<Rightarrow> (pvalue list, agg_row list) btree \<Rightarrow> prov_error + (pvalue list, agg_row list) btree"
  where
  "add_group_row keys row groups =
     map_res (\<lambda>key. bt_insert key ((case map_of groups key of None \<Rightarrow> [] | Some rows \<Rightarrow> rows) @ [row]) groups)
       (group_key keys (fst row))"

definition pir_const_value :: "pir_builder \<Rightarrow> node_id \<Rightarrow> bool option" where
  "pir_const_value bd i = (case node (pir bd) i of Some (PConst c) \<Rightarrow> Some c | _ \<Rightarrow> None)"

text \<open>One row of the counting table: \<open>dp\<close> holds the formulas for each number of selected rows so far.\<close>

fun count_columns ::
    "node_id \<Rightarrow> node_id \<Rightarrow> node_id list \<Rightarrow> nat \<Rightarrow> nat \<Rightarrow> node_id list \<Rightarrow> pir_builder
     \<Rightarrow> prov_error + node_id list \<times> pir_builder" where
  "count_columns present absent dp selected 0 next bd = Inr (next, bd)"
| "count_columns present absent dp selected (Suc left) next bd =
     bind_res (lift_builder (build_and [dp ! selected, absent]) bd) (\<lambda>(absent_case, bd).
     bind_res (lift_builder (build_or [next ! selected, absent_case]) bd) (\<lambda>(keep, bd).
     bind_res (lift_builder (build_and [dp ! selected, present]) bd) (\<lambda>(present_case, bd).
     bind_res (lift_builder (build_or [next ! Suc selected, present_case]) bd) (\<lambda>(more, bd).
     count_columns present absent dp (Suc selected) left (next[selected := keep, Suc selected := more]) bd))))"

definition count_row ::
    "nat \<Rightarrow> nat \<times> agg_row \<Rightarrow> node_id list \<times> pir_builder \<Rightarrow> prov_error + node_id list \<times> pir_builder" where
  "count_row n = (\<lambda>(i, row) (dp, bd).
     bind_res (lift_builder (negate_node (snd row)) bd) (\<lambda>(absent, bd).
     count_columns (snd row) absent dp 0 (Suc i) (replicate (n + 1) (bconst_false bd)) bd))"

definition count_lift_formulas ::
    "agg_row list \<Rightarrow> pir_builder \<Rightarrow> prov_error + node_id list \<times> pir_builder" where
  "count_lift_formulas rows bd =
     fold_res (count_row (length rows)) (indexed rows)
       ((replicate (length rows + 1) (bconst_false bd))[0 := bconst_true bd], bd)"

definition validate_count_lift_rows :: "agg_spec list \<Rightarrow> agg_row list \<Rightarrow> prov_error + unit" where
  "validate_count_lift_rows specs rows =
     check (first_error (\<lambda>(_, var). first_error (\<lambda>(b, _).
       if map_of b var = None then Some (UnsafeVariable var) else None) rows) specs)"

text \<open>A term of an aggregate head; the last argument gives the value of an aggregate.\<close>

definition aggregate_head_value ::
    "string list \<Rightarrow> pvalue list \<Rightarrow> (agg_expr \<Rightarrow> prov_error + pvalue) \<Rightarrow> ast_term \<Rightarrow> prov_error + pvalue" where
  "aggregate_head_value keys key agg_value t =
     (case t of
        Variable name \<Rightarrow>
          (case position (\<lambda>k. k = name) keys of
             None \<Rightarrow> Inl (NotGroupKey name)
           | Some pos \<Rightarrow> (case get key pos of None \<Rightarrow> Inl ProvPanic | Some v \<Rightarrow> Inr v))
      | Aggregate agg \<Rightarrow> agg_value agg
      | Anonymous \<Rightarrow> Inl ProvPanic
      | ListTerm _ \<Rightarrow> Inl (unsupported_term ''aggregate head materialization'' t)
      | ConsTerm _ _ \<Rightarrow> Inl (unsupported_term ''aggregate head materialization'' t)
      | Compound _ _ \<Rightarrow> Inl (unsupported_term ''aggregate head materialization'' t)
      | PredRef _ \<Rightarrow> Inl (unsupported_term ''aggregate head materialization'' t)
      | _ \<Rightarrow> value_from_term t)"

definition materialize_count_lift_tuple ::
    "atom \<Rightarrow> string list \<Rightarrow> pvalue list \<Rightarrow> nat \<Rightarrow> prov_error + pvalue list" where
  "materialize_count_lift_tuple h keys key n =
     (if 2 ^ 63 \<le> n then Inl (AggregateOverflow ''count'')
      else traverse (aggregate_head_value keys key (\<lambda>agg.
             if agg_op agg = AggCount then Inr (PvI64 (of_nat n)) else Inl AggregateState)) (terms h))"

definition materialize_aggregate_tuple ::
    "prob_env \<Rightarrow> atom \<Rightarrow> string list \<Rightarrow> pvalue list \<Rightarrow> agg_spec list \<Rightarrow> agg_state list
     \<Rightarrow> prov_error + pvalue list" where
  "materialize_aggregate_tuple env h keys key specs states =
     traverse (aggregate_head_value keys key (\<lambda>agg.
       case position (\<lambda>spec. spec = (agg_op agg, agg_variable agg)) specs of
         None \<Rightarrow> Inl ProvPanic
       | Some i \<Rightarrow> (case get states i of None \<Rightarrow> Inl ProvPanic | Some st \<Rightarrow> finish_state env (agg_op agg) st)))
     (terms h)"

definition update_aggregate_states ::
    "prob_env \<Rightarrow> agg_spec list \<Rightarrow> binding \<Rightarrow> agg_state list \<Rightarrow> prov_error + agg_state list" where
  "update_aggregate_states env specs b states =
     traverse (\<lambda>((aop, var), st).
       case map_of b var of None \<Rightarrow> Inl (UnsafeVariable var) | Some v \<Rightarrow> update_state env aop v st)
     (zip specs states)"

type_synonym dp_table = "(agg_state_key list \<times> bool, agg_state list \<times> node_id) btree"

definition merge_outcome ::
    "agg_state_key list \<times> bool \<Rightarrow> agg_state list \<Rightarrow> node_id \<Rightarrow> dp_table \<times> pir_builder
     \<Rightarrow> prov_error + dp_table \<times> pir_builder" where
  "merge_outcome key states proof = (\<lambda>(table, bd).
     case map_of table key of
       None \<Rightarrow> Inr (bt_insert key (states, proof) table, bd)
     | Some (old_states, old) \<Rightarrow>
         map_res (\<lambda>(i, bd'). (bt_insert key (old_states, i) table, bd')) (lift_builder (build_or [old, proof]) bd))"

definition fold_outcome ::
    "prob_env \<Rightarrow> agg_spec list \<Rightarrow> agg_row \<Rightarrow> node_id
     \<Rightarrow> (agg_state_key list \<times> bool) \<times> (agg_state list \<times> node_id) \<Rightarrow> dp_table \<times> pir_builder
     \<Rightarrow> prov_error + dp_table \<times> pir_builder" where
  "fold_outcome env specs row absent = (\<lambda>((key, selected_any), (states, proof)) (table, bd).
     bind_res (update_aggregate_states env specs (fst row) states) (\<lambda>present_states.
     bind_res (lift_builder (build_and [proof, snd row]) bd) (\<lambda>(present_proof, bd).
     bind_res (merge_outcome (map dp_key present_states, True) present_states present_proof (table, bd))
       (\<lambda>(table, bd).
     bind_res (lift_builder (build_and [proof, absent]) bd) (\<lambda>(absent_proof, bd).
     merge_outcome (key, selected_any) states absent_proof (table, bd))))))"

definition fold_uncertain_row ::
    "prob_env \<Rightarrow> agg_spec list \<Rightarrow> agg_row \<Rightarrow> dp_table \<times> nat \<times> pir_builder
     \<Rightarrow> prov_error + dp_table \<times> nat \<times> pir_builder" where
  "fold_uncertain_row env specs row = (\<lambda>(dp, dp_states, bd).
     bind_res (lift_builder (negate_node (snd row)) bd) (\<lambda>(absent, bd).
     map_res (\<lambda>(table, bd). (table, dp_states + length table, bd))
       (fold_res (fold_outcome env specs row absent) dp ([], bd))))"

definition factorized_aggregate_outcomes ::
    "prob_env \<Rightarrow> agg_spec list \<Rightarrow> agg_row list \<Rightarrow> agg_row list \<Rightarrow> pir_builder
     \<Rightarrow> prov_error + ((agg_state list \<times> bool \<times> node_id) list \<times> nat) \<times> pir_builder" where
  "factorized_aggregate_outcomes env specs always uncertain bd =
     bind_res (fold_res (\<lambda>(b, _). update_aggregate_states env specs b) always
         (map (\<lambda>(aop, _). new_state aop) specs)) (\<lambda>base.
     map_res (\<lambda>(dp, dp_states, bd').
         ((map (\<lambda>((_, selected_any), (states, proof)). (states, selected_any, proof)) dp, dp_states), bd'))
       (fold_res (fold_uncertain_row env specs) uncertain
          ([((map dp_key base, False), (base, bconst_true bd))], 1, bd)))"

text \<open>The result of a rule, its builder and the reports so far.\<close>

type_synonym rule_output = "formula_relation \<times> pir_builder \<times> lift_report list"

definition output_formula ::
    "pvalue list \<Rightarrow> node_id \<Rightarrow> rule_output \<Rightarrow> prov_error + rule_output" where
  "output_formula tuple proof = (\<lambda>(out, bd, reports).
     map_res (\<lambda>(out', bd'). (out', bd', reports)) (insert_formula out tuple proof bd))"

definition count_lift_group ::
    "atom \<Rightarrow> string list \<Rightarrow> agg_spec list \<Rightarrow> pvalue list \<Rightarrow> agg_row list \<Rightarrow> agg_row list
     \<Rightarrow> rule_output \<Rightarrow> prov_error + rule_output" where
  "count_lift_group h keys specs key always uncertain = (\<lambda>(out, bd, reports).
     if max_count_lift_rows < length uncertain
     then Inl (AggregateCap (predicate h) (length uncertain) max_count_lift_rows)
     else bind_res (validate_count_lift_rows specs (always @ uncertain)) (\<lambda>_.
       let reports' = reports @ lift_reports h key specs (length always) (length uncertain)
             ''finite count domain lifted with exact cardinality dynamic programming''
             max_count_lift_rows (count_lift_dp_states (length uncertain))
       in bind_res (count_lift_formulas uncertain bd) (\<lambda>(formulas, bd').
          fold_res (\<lambda>(selected, proof) acc.
              if always = [] \<and> selected = 0 then Inr acc
              else bind_res (materialize_count_lift_tuple h keys key (length always + selected)) (\<lambda>tuple.
                   output_formula tuple proof acc))
            (indexed formulas) (out, bd', reports'))))"

definition outcome_group ::
    "prob_env \<Rightarrow> atom \<Rightarrow> string list \<Rightarrow> agg_spec list \<Rightarrow> pvalue list \<Rightarrow> agg_row list \<Rightarrow> agg_row list
     \<Rightarrow> rule_output \<Rightarrow> prov_error + rule_output" where
  "outcome_group env h keys specs key always uncertain = (\<lambda>(out, bd, reports).
     if max_agg_uncertain_rows < length uncertain
     then Inl (AggregateCap (predicate h) (length uncertain) max_agg_uncertain_rows)
     else bind_res (factorized_aggregate_outcomes env specs always uncertain bd) (\<lambda>((outcomes, dp_states), bd').
       fold_res (\<lambda>(states, selected_any, proof) acc.
           if always = [] \<and> \<not> selected_any then Inr acc
           else bind_res (materialize_aggregate_tuple env h keys key specs states) (\<lambda>tuple.
                output_formula tuple proof acc))
         outcomes
         (out, bd', reports @ lift_reports h key specs (length always) (length uncertain)
             ''finite outcome domain folded with factorized aggregate-state dynamic programming''
             max_agg_uncertain_rows dp_states)))"

definition eval_aggregate_group ::
    "prob_env \<Rightarrow> atom \<Rightarrow> string list \<Rightarrow> agg_spec list \<Rightarrow> pvalue list \<times> agg_row list
     \<Rightarrow> rule_output \<Rightarrow> prov_error + rule_output" where
  "eval_aggregate_group env h keys specs = (\<lambda>(key, rows) (out, bd, reports).
     let always = filter (\<lambda>row. pir_const_value bd (snd row) = Some True) rows;
         uncertain = filter (\<lambda>row. pir_const_value bd (snd row) = None) rows
     in if always = [] \<and> uncertain = [] then Inr (out, bd, reports)
        else if list_all (\<lambda>(aop, _). aop = AggCount) specs
        then count_lift_group h keys specs key always uncertain (out, bd, reports)
        else outcome_group env h keys specs key always uncertain (out, bd, reports))"

definition eval_aggregate_head_provenance ::
    "prob_env \<Rightarrow> atom \<Rightarrow> (binding \<times> node_id) list \<Rightarrow> pir_builder \<Rightarrow> lift_report list \<Rightarrow> prov_error + rule_output"
  where
  "eval_aggregate_head_provenance env h states bd reports =
     bind_res (aggregate_head_plan h) (\<lambda>(keys, specs).
     bind_res (fold_res dedup_state states ([], bd)) (\<lambda>(deduped, bd').
     bind_res (fold_res (add_group_row keys) deduped []) (\<lambda>groups.
     fold_res (eval_aggregate_group env h keys specs) groups ([], bd', reports))))"

section \<open>One rule\<close>

definition head_output ::
    "atom \<Rightarrow> binding \<times> node_id \<Rightarrow> formula_relation \<times> pir_builder \<Rightarrow> prov_error + formula_relation \<times> pir_builder"
  where
  "head_output h = (\<lambda>(b, prov) (out, bd).
     bind_res (materialize_head h b) (\<lambda>tuple. insert_formula out tuple prov bd))"

definition canonical_output ::
    "prob_env \<Rightarrow> schemas \<Rightarrow> string \<Rightarrow> pvalue list \<times> node_id
     \<Rightarrow> formula_relation \<times> pir_builder \<Rightarrow> prov_error + formula_relation \<times> pir_builder" where
  "canonical_output env schemas p = (\<lambda>(tuple, prov) (out, bd).
     bind_res (canonicalize_public_values env schemas p tuple) (\<lambda>tuple'. insert_formula out tuple' prov bd))"

definition eval_rule ::
    "prob_env \<Rightarrow> schemas \<Rightarrow> rule \<Rightarrow> relation_store \<Rightarrow> relation_store \<Rightarrow> (nat \<times> relation_store) option
     \<Rightarrow> pir_builder \<Rightarrow> lift_report list \<Rightarrow> prov_error + rule_output" where
  "eval_rule env schemas r global full delta bd reports =
     bind_res (eval_body env schemas global full delta 0 (body r) [([], Map.empty, bconst_true bd)] bd)
       (\<lambda>(states, bd).
     let rows = map (\<lambda>(b, _, prov). (b, prov)) states
     in bind_res
          (if has_aggregation r then eval_aggregate_head_provenance env (head r) rows bd reports
           else map_res (\<lambda>(out, bd). (out, bd, reports)) (fold_res (head_output (head r)) rows ([], bd)))
          (\<lambda>(derived, bd, reports).
        map_res (\<lambda>(out, bd). (out, bd, reports))
          (fold_res (canonical_output env schemas (predicate (head r))) derived ([], bd))))"

section \<open>Components without cycles through negation\<close>

definition is_recursive_scc :: "string list \<Rightarrow> rule list \<Rightarrow> bool" where
  "is_recursive_scc scc rs =
     (if 1 < length scc then True
      else case scc of
        [] \<Rightarrow> False
      | p # _ \<Rightarrow> list_ex (\<lambda>r. list_ex (\<lambda>l. case l of Positive a \<Rightarrow> predicate a = p | _ \<Rightarrow> False) (body r)) rs)"

definition store_relation :: "relation_store \<Rightarrow> string \<Rightarrow> formula_relation" where
  "store_relation store p = (case map_of store p of None \<Rightarrow> [] | Some rel \<Rightarrow> rel)"

definition add_tuple ::
    "pvalue list \<times> node_id \<Rightarrow> formula_relation \<times> pir_builder \<Rightarrow> prov_error + formula_relation \<times> pir_builder" where
  "add_tuple = (\<lambda>(tuple, f) (rel, bd). insert_formula rel tuple f bd)"

type_synonym scc_state = "relation_store \<times> pir_builder \<times> lift_report list"

definition eval_rule_into_store ::
    "prob_env \<Rightarrow> schemas \<Rightarrow> rule \<Rightarrow> scc_state \<Rightarrow> prov_error + scc_state" where
  "eval_rule_into_store env schemas r = (\<lambda>(store, bd, reports).
     bind_res (eval_rule env schemas r store [] None bd reports) (\<lambda>(derived, bd, reports).
     map_res (\<lambda>(rel, bd). (bt_insert (predicate (head r)) rel store, bd, reports))
       (fold_res add_tuple derived (store_relation store (predicate (head r)), bd))))"

definition eval_non_recursive_scc ::
    "prob_env \<Rightarrow> schemas \<Rightarrow> rule list \<Rightarrow> scc_state \<Rightarrow> prov_error + scc_state" where
  "eval_non_recursive_scc env schemas = fold_res (eval_rule_into_store env schemas)"

definition max_provenance_iterations :: nat where "max_provenance_iterations = 1024"

text \<open>A derived formula enters the full relation, and the changes when it adds something to it.\<close>

definition merge_derived ::
    "pvalue list \<times> node_id \<Rightarrow> (formula_relation \<times> formula_relation) \<times> pir_builder
     \<Rightarrow> prov_error + (formula_relation \<times> formula_relation) \<times> pir_builder" where
  "merge_derived = (\<lambda>(tuple, proof) ((full_rel, delta_rel), bd).
     let old = (case map_of full_rel tuple of Some i \<Rightarrow> i | None \<Rightarrow> bconst_false bd)
     in bind_res (lift_builder (build_or [old, proof]) bd) (\<lambda>(combined, bd).
          if combined \<noteq> old
          then map_res (\<lambda>(delta_rel', bd'). ((bt_insert tuple combined full_rel, delta_rel'), bd'))
                 (insert_formula delta_rel tuple proof bd)
          else Inr ((full_rel, delta_rel), bd)))"

text \<open>The state of the iteration: full relations, changes, builder and reports.\<close>

type_synonym semi_naive = "relation_store \<times> relation_store \<times> pir_builder \<times> lift_report list"

definition merge_rule_output :: "string \<Rightarrow> rule_output \<Rightarrow> relation_store \<times> relation_store \<Rightarrow> prov_error + semi_naive"
  where
  "merge_rule_output p = (\<lambda>(derived, bd, reports) (full, delta).
     if derived = [] then Inr (full, delta, bd, reports)
     else map_res (\<lambda>((full_rel, delta_rel), bd). (bt_insert p full_rel full, bt_insert p delta_rel delta, bd, reports))
       (fold_res merge_derived derived ((store_relation full p, store_relation delta p), bd)))"

definition seed_rule_delta ::
    "prob_env \<Rightarrow> schemas \<Rightarrow> relation_store \<Rightarrow> rule \<Rightarrow> semi_naive \<Rightarrow> prov_error + semi_naive" where
  "seed_rule_delta env schemas store r = (\<lambda>(full, delta, bd, reports).
     bind_res (eval_rule env schemas r store full None bd reports) (\<lambda>out.
     merge_rule_output (predicate (head r)) out (full, delta)))"

definition changed_literals :: "string list \<Rightarrow> relation_store \<Rightarrow> rule \<Rightarrow> nat list" where
  "changed_literals scc delta r =
     map fst (filter (\<lambda>(i, l). case l of
         Positive a \<Rightarrow> predicate a \<in> set scc \<and> store_relation delta (predicate a) \<noteq> []
       | _ \<Rightarrow> False) (indexed (body r)))"

definition eval_changed_literal ::
    "prob_env \<Rightarrow> schemas \<Rightarrow> rule \<Rightarrow> relation_store \<Rightarrow> relation_store \<Rightarrow> relation_store \<Rightarrow> nat
     \<Rightarrow> rule_output \<Rightarrow> prov_error + rule_output" where
  "eval_changed_literal env schemas r store full_prev delta_prev i = (\<lambda>(out, bd, reports).
     bind_res (eval_rule env schemas r store full_prev (Some (i, delta_prev)) bd reports) (\<lambda>(derived, bd, reports).
     map_res (\<lambda>(out, bd). (out, bd, reports)) (fold_res add_tuple derived (out, bd))))"

definition iterate_rule ::
    "prob_env \<Rightarrow> schemas \<Rightarrow> string list \<Rightarrow> relation_store \<Rightarrow> relation_store \<Rightarrow> relation_store
     \<Rightarrow> rule \<Rightarrow> semi_naive \<Rightarrow> prov_error + semi_naive" where
  "iterate_rule env schemas scc store full_prev delta_prev r = (\<lambda>(full, delta, bd, reports).
     bind_res (fold_res (eval_changed_literal env schemas r store full_prev delta_prev)
         (changed_literals scc delta_prev r) ([], bd, reports)) (\<lambda>out.
     merge_rule_output (predicate (head r)) out (full, delta)))"

fun semi_naive_loop ::
    "prob_env \<Rightarrow> schemas \<Rightarrow> string list \<Rightarrow> rule list \<Rightarrow> relation_store \<Rightarrow> nat \<Rightarrow> semi_naive
     \<Rightarrow> prov_error + relation_store \<times> pir_builder \<times> lift_report list" where
  "semi_naive_loop env schemas scc rs store 0 st = Inl (IterationLimit max_provenance_iterations scc)"
| "semi_naive_loop env schemas scc rs store (Suc left) (full, delta, bd, reports) =
     (if list_all (\<lambda>(_, rel). rel = []) delta then Inr (full, bd, reports)
      else bind_res (fold_res (iterate_rule env schemas scc store full delta) rs (full, [], bd, reports))
             (semi_naive_loop env schemas scc rs store left))"

definition eval_recursive_scc ::
    "prob_env \<Rightarrow> schemas \<Rightarrow> string list \<Rightarrow> rule list \<Rightarrow> scc_state \<Rightarrow> prov_error + scc_state" where
  "eval_recursive_scc env schemas scc rs = (\<lambda>(store, bd, reports).
     let full = foldl (\<lambda>full p. bt_insert p (store_relation store p) full) [] scc
     in bind_res (fold_res (seed_rule_delta env schemas store) rs (full, [], bd, reports)) (\<lambda>seeded.
        map_res (\<lambda>(full', bd', reports').
            (foldl (\<lambda>store (p, rel). bt_insert p rel store) store full', bd', reports'))
          (semi_naive_loop env schemas scc rs store max_provenance_iterations seeded)))"

section \<open>Components with cycles through negation\<close>

text \<open>The literals over the component are kept as a template, with their sign; the others are grounded.\<close>

definition ground_literal ::
    "prob_env \<Rightarrow> schemas \<Rightarrow> relation_store \<Rightarrow> string list \<Rightarrow> body_literal
     \<Rightarrow> prov_state list \<times> (atom \<times> bool) list \<times> pir_builder
     \<Rightarrow> prov_error + prov_state list \<times> (atom \<times> bool) list \<times> pir_builder" where
  "ground_literal env schemas store scc l = (\<lambda>(states, template, bd).
     let keep = map_res (\<lambda>(states', bd'). (states', template, bd'))
     in case l of
       Positive a \<Rightarrow>
         if predicate a \<in> set scc then Inr (states, template @ [(a, True)], bd)
         else keep (eval_positive env schemas a (store_relation store (predicate a)) states bd)
     | Negated a \<Rightarrow>
         if predicate a \<in> set scc then Inr (states, template @ [(a, False)], bd)
         else keep (eval_negated a (map_of store (predicate a)) states bd)
     | Epistemic _ \<Rightarrow> Inl (EpistemicConstruct ''probabilistic WFS grounding'')
     | Comparison c \<Rightarrow> keep (map_res (\<lambda>states'. (states', bd)) (eval_comparisons env c states))
     | IsExpr e \<Rightarrow> keep (map_res (\<lambda>states'. (states', bd)) (eval_is env e states))
     | Univ _ \<Rightarrow> Inl UnivNotNormalized)"

fun ground_body ::
    "prob_env \<Rightarrow> schemas \<Rightarrow> relation_store \<Rightarrow> string list \<Rightarrow> body_literal list
     \<Rightarrow> prov_state list \<times> (atom \<times> bool) list \<times> pir_builder
     \<Rightarrow> prov_error + prov_state list \<times> (atom \<times> bool) list \<times> pir_builder" where
  "ground_body env schemas store scc [] st = Inr st"
| "ground_body env schemas store scc (l # ls) st =
     bind_res (ground_literal env schemas store scc l st) (\<lambda>(states', template', bd').
       if states' = [] then Inr ([], [], bd')
       else ground_body env schemas store scc ls (states', template', bd'))"

text \<open>An unbound variable is skipped, which leaves the argument out.\<close>

definition ground_arguments :: "binding \<Rightarrow> ast_term list \<Rightarrow> prov_error + pvalue list" where
  "ground_arguments b ts =
     map_res concat (traverse (\<lambda>t. case t of
         Variable name \<Rightarrow> Inr (case map_of b name of None \<Rightarrow> [] | Some v \<Rightarrow> [v])
       | _ \<Rightarrow> map_res (\<lambda>v. [v]) (value_from_term t)) ts)"

definition ground_instance ::
    "rule \<Rightarrow> (atom \<times> bool) list \<Rightarrow> prov_state \<Rightarrow> prov_error + wfs_rule" where
  "ground_instance r template = (\<lambda>(b, _, external_prov).
     bind_res (traverse (\<lambda>(a, positive).
         map_res (\<lambda>args. (if positive then WPositive else WNegative)
             \<lparr>wfs_predicate = predicate a, wfs_args = args\<rparr>) (ground_arguments b (terms a))) template) (\<lambda>ls.
     map_res (\<lambda>args. \<lparr>w_head = \<lparr>wfs_predicate = predicate (head r), wfs_args = args\<rparr>, w_body = ls,
         w_provenance = external_prov\<rparr>) (ground_arguments b (terms (head r)))))"

definition ground_rule_for_wfs ::
    "prob_env \<Rightarrow> schemas \<Rightarrow> relation_store \<Rightarrow> string list \<Rightarrow> rule
     \<Rightarrow> wfs_rule list \<times> pir_builder \<Rightarrow> prov_error + wfs_rule list \<times> pir_builder" where
  "ground_rule_for_wfs env schemas store scc r = (\<lambda>(out, bd).
     bind_res (ground_body env schemas store scc (body r) ([([], Map.empty, bconst_true bd)], [], bd))
       (\<lambda>(states, template, bd').
     map_res (\<lambda>rs. (out @ rs, bd')) (traverse (ground_instance r template) states)))"

definition store_wfs_atom ::
    "prob_env \<Rightarrow> schemas \<Rightarrow> (wfs_atom \<rightharpoonup> node_id) \<Rightarrow> wfs_atom \<Rightarrow> relation_store \<times> pir_builder
     \<Rightarrow> prov_error + relation_store \<times> pir_builder" where
  "store_wfs_atom env schemas table a = (\<lambda>(store, bd).
     bind_res (canonicalize_public_values env schemas (wfs_predicate a) (wfs_args a)) (\<lambda>args.
     map_res (\<lambda>(rel, bd'). (bt_insert (wfs_predicate a) rel store, bd'))
       (insert_formula (store_relation store (wfs_predicate a)) args (the (table a)) bd)))"

definition eval_non_monotone_scc_with_wfs ::
    "prob_env \<Rightarrow> schemas \<Rightarrow> string list \<Rightarrow> rule list \<Rightarrow> scc_state \<Rightarrow> prov_error + scc_state" where
  "eval_non_monotone_scc_with_wfs env schemas scc rs = (\<lambda>(store, bd, reports).
     bind_res (fold_res (ground_rule_for_wfs env schemas store scc) rs ([], bd)) (\<lambda>(wfs_rules, bd).
       if wfs_rules = [] then Inr (store, bd, reports)
       else bind_res (map_err ProvWfs
             (evaluate_wfs_rules (hash_order env) wfs_rules (pir bd) default_wfs_config)) (\<lambda>(result, graph).
         let true_atoms = filter (\<lambda>a. true_prov result a \<noteq> None) (scc_atoms (new_context wfs_rules))
         in map_res (\<lambda>(store, bd). (store, bd, reports))
              (fold_res (store_wfs_atom env schemas (true_prov result)) (hash_order env true_atoms)
                (store, bd\<lparr>pir := graph\<rparr>)))))"

section \<open>Facts and annotated disjunctions\<close>

definition atom_key_from_ground_atom :: "atom \<Rightarrow> prov_error + ground_atom" where
  "atom_key_from_ground_atom a =
     map_res (\<lambda>args. \<lparr>ground_predicate = predicate a, ground_args = args\<rparr>)
       (traverse (\<lambda>t. if \<not> is_constant t then Inl (ExpectedGround (predicate a)) else value_from_term t) (terms a))"

definition presentation_value :: "scalar_type option \<times> pvalue \<times> ast_term \<Rightarrow> pvalue" where
  "presentation_value = (\<lambda>(ty, v, source).
     case (ty, v, source) of
       (Some TySymbol, PvSymbol _, Str s) \<Rightarrow> PvString s
     | (Some TySymbol, PvSymbol _, Symbol sid) \<Rightarrow> PvSymbol sid
     | _ \<Rightarrow> v)"

definition presentation_atom_from_canonical ::
    "schemas \<Rightarrow> atom \<Rightarrow> atom \<Rightarrow> prov_error + ground_atom" where
  "presentation_atom_from_canonical schemas source canonical =
     (if predicate source \<noteq> predicate canonical \<or> length (terms source) \<noteq> length (terms canonical)
      then Inl NotCorresponding
      else case schemas (predicate canonical) of
        None \<Rightarrow> Inl (MissingSchema (predicate canonical))
      | Some schema \<Rightarrow>
          map_res (\<lambda>key. key\<lparr>ground_args := map (\<lambda>(i, v, t). presentation_value (get schema i, v, t))
              (indexed (zip (ground_args key) (terms source)))\<rparr>) (atom_key_from_ground_atom canonical))"

text \<open>The IEEE comparison \<open>0.0 <= p <= 1.0\<close>, which no NaN passes.\<close>

definition f64_le :: "u64 \<Rightarrow> u64 \<Rightarrow> bool" where
  "f64_le a b = (\<not> f64_is_nan a \<and> \<not> f64_is_nan b \<and> \<not> f64_less b a)"

definition validate_prob :: "u64 \<Rightarrow> string \<Rightarrow> prov_error + unit" where
  "validate_prob p what =
     (if \<not> (f64_le 0 p \<and> f64_le p f64_one) \<or> f64_is_nan p then Inl (InvalidProbability what p) else Inr ())"

text \<open>The tolerance \<open>1e-12\<close>.\<close>

definition disjunction_eps :: u64 where "disjunction_eps = 0x3d719799812dea11"

text \<open>
  The probabilities of the outcomes, with the one of no outcome at the end when it exceeds the
  tolerance. The sum of an iterator starts at negative zero.\<close>

definition outcome_probs :: "prob_env \<Rightarrow> u64 list \<Rightarrow> prov_error + u64 list" where
  "outcome_probs env ps =
     (let f = f64_operation (scalars env);
          sum = foldl (f OpAdd) 0x8000000000000000 ps;
          rest = f OpSubtract f64_one sum;
          none_prob = (if f64_less 0 rest then rest else 0)
      in if f64_less (f OpAdd f64_one disjunction_eps) sum then Inl (DisjunctionSum sum)
         else Inr (if f64_less disjunction_eps none_prob then ps @ [none_prob] else ps))"

text \<open>The chain of decisions: the state is the next identifier, what remains, and the two tables.\<close>

type_synonym chain_state = "u32 \<times> u64 \<times> (choice_var_id \<times> u64 \<times> u64) list \<times> (choice_var_id \<times> choice_source) list"

definition chain_step ::
    "prob_env \<Rightarrow> (ground_atom \<times> u64) list \<Rightarrow> nat \<times> u64 \<Rightarrow> choice_var_id list \<times> chain_state
     \<Rightarrow> prov_error + choice_var_id list \<times> chain_state" where
  "chain_step env explicit = (\<lambda>(i, p) (vars, next, remaining, probs, sources).
     let f = f64_operation (scalars env);
         cond_true = (if f64_le remaining 0 then 0 else f OpDivide p remaining)
     in bind_res (validate_prob cond_true ''annotated disjunction conditional'') (\<lambda>_.
        if next = - 1 then Inl (IdOverflow ''annotated disjunction choice'')
        else Inr (vars @ [next], next + 1, f OpSubtract remaining p,
          probs @ [(next, cond_true, f OpSubtract f64_one cond_true)],
          sources @ [(next, \<lparr>source_choices = explicit, choice_index = i, source_id = None\<rparr>)])))"

definition outcome_formula ::
    "choice_var_id list \<Rightarrow> nat \<Rightarrow> node_id list \<times> pir_builder \<Rightarrow> prov_error + node_id list \<times> pir_builder" where
  "outcome_formula vars i = (\<lambda>(out, bd).
     bind_res (lift_builder (map_state (\<lambda>(j, v). choice_lit v (j = i)) (take (Suc i) (indexed vars))) bd)
       (\<lambda>(conds, bd). map_res (\<lambda>(f, bd). (out @ [f], bd)) (lift_builder (build_and conds) bd)))"

definition compile_annotated_disjunction ::
    "prob_env \<Rightarrow> schemas \<Rightarrow> annotated_disjunction \<Rightarrow> annotated_disjunction
     \<Rightarrow> u32 \<times> (choice_var_id \<times> u64 \<times> u64) list \<times> (choice_var_id \<times> choice_source) list \<Rightarrow> pir_builder
     \<Rightarrow> prov_error + node_id list \<times>
         (u32 \<times> (choice_var_id \<times> u64 \<times> u64) list \<times> (choice_var_id \<times> choice_source) list) \<times> pir_builder" where
  "compile_annotated_disjunction env schemas ad source = (\<lambda>(next, probs, sources) bd.
     bind_res (traverse (\<lambda>pf. bind_res (validate_prob (pf_prob pf) ''annotated disjunction choice'')
         (\<lambda>_. atom_key_from_ground_atom (pf_atom pf))) (choices ad)) (\<lambda>_.
     bind_res (traverse (\<lambda>(pf, spf). map_res (\<lambda>a. (a, pf_prob pf))
         (presentation_atom_from_canonical schemas (pf_atom spf) (pf_atom pf)))
         (zip (choices ad) (choices source))) (\<lambda>explicit.
     bind_res (outcome_probs env (map pf_prob (choices ad))) (\<lambda>ps.
       if length ps = 1 then Inr ([bconst_true bd], (next, probs, sources), bd)
       else bind_res (fold_res (chain_step env explicit) (indexed (butlast ps)) ([], next, f64_one, probs, sources))
         (\<lambda>(vars, next, _, probs, sources).
         map_res (\<lambda>(out, bd). (out, (next, probs, sources), bd))
           (fold_res (outcome_formula vars) [0..<length (choices ad)] ([], bd)))))))"

section \<open>The whole program\<close>

definition ensure_ground_atom_schema :: "atom \<Rightarrow> schemas \<Rightarrow> schemas" where
  "ensure_ground_atom_schema a schemas =
     (if schemas (predicate a) = None then schemas(predicate a \<mapsto> map inferred_scalar_type (terms a)) else schemas)"

text \<open>
  The schemas the lowerer infers are an argument; evidence and queries add the ones of predicates that
  occur nowhere else.\<close>

definition arithmetic_schemas :: "(program \<Rightarrow> prov_error + schemas) \<Rightarrow> program \<Rightarrow> prov_error + schemas" where
  "arithmetic_schemas infer p =
     map_res (\<lambda>schemas. fold (ensure_ground_atom_schema \<circ> pq_atom) (prob_queries p)
         (fold (ensure_ground_atom_schema \<circ> ev_atom) (evidence_stmts p) schemas)) (infer p)"

definition insert_ground ::
    "ground_atom \<Rightarrow> node_id \<Rightarrow> relation_store \<times> pir_builder \<Rightarrow> prov_error + relation_store \<times> pir_builder" where
  "insert_ground key f = (\<lambda>(store, bd).
     map_res (\<lambda>(rel, bd'). (bt_insert (ground_predicate key) rel store, bd'))
       (insert_formula (store_relation store (ground_predicate key)) (ground_args key) f bd))"

definition add_fact :: "rule \<Rightarrow> relation_store \<times> pir_builder \<Rightarrow> prov_error + relation_store \<times> pir_builder" where
  "add_fact r = (\<lambda>(store, bd).
     bind_res (atom_key_from_ground_atom (head r)) (\<lambda>key. insert_ground key (bconst_true bd) (store, bd)))"

type_synonym leaf_state =
  "u32 \<times> (leaf_id \<times> u64) list \<times> (leaf_id \<times> ground_atom) list \<times> relation_store \<times> pir_builder"

definition add_prob_fact ::
    "schemas \<Rightarrow> prob_fact \<times> prob_fact \<Rightarrow> leaf_state \<Rightarrow> prov_error + leaf_state" where
  "add_prob_fact schemas = (\<lambda>(pf, source) (next, probs, atoms, store, bd).
     bind_res (validate_prob (pf_prob pf) ''probabilistic fact'') (\<lambda>_.
     bind_res (atom_key_from_ground_atom (pf_atom pf)) (\<lambda>key.
       if next = - 1 then Inl (IdOverflow ''probabilistic fact leaf'')
       else bind_res (presentation_atom_from_canonical schemas (pf_atom source) (pf_atom pf)) (\<lambda>shown.
         bind_res (lift_builder (build_lit next) bd) (\<lambda>(f, bd).
         map_res (\<lambda>(store, bd). (next + 1, probs @ [(next, pf_prob pf)], atoms @ [(next, shown)], store, bd))
           (insert_ground key f (store, bd)))))))"

type_synonym choice_state =
  "(u32 \<times> (choice_var_id \<times> u64 \<times> u64) list \<times> (choice_var_id \<times> choice_source) list) \<times> relation_store \<times> pir_builder"

definition add_outcome ::
    "prob_fact \<times> node_id \<Rightarrow> relation_store \<times> pir_builder \<Rightarrow> prov_error + relation_store \<times> pir_builder" where
  "add_outcome = (\<lambda>(pf, f) st. bind_res (atom_key_from_ground_atom (pf_atom pf)) (\<lambda>key. insert_ground key f st))"

definition add_disjunction ::
    "prob_env \<Rightarrow> schemas \<Rightarrow> annotated_disjunction \<times> annotated_disjunction \<Rightarrow> choice_state
     \<Rightarrow> prov_error + choice_state" where
  "add_disjunction env schemas = (\<lambda>(ad, source) (st, store, bd).
     if choices ad = [] then Inl EmptyDisjunction
     else bind_res (compile_annotated_disjunction env schemas ad source st bd) (\<lambda>(formulas, st, bd).
       map_res (\<lambda>(store, bd). (st, store, bd))
         (fold_res add_outcome (zip (choices ad) formulas) (store, bd))))"

definition scc_rules :: "program \<Rightarrow> string list \<Rightarrow> rule list" where
  "scc_rules p scc =
     concat (map (\<lambda>q. filter (\<lambda>r. \<not> is_fact r \<and> predicate (head r) = q) (rules p)) scc)"

definition eval_scc ::
    "prob_env \<Rightarrow> schemas \<Rightarrow> program \<Rightarrow> string set \<Rightarrow> string list \<Rightarrow> scc_state \<Rightarrow> prov_error + scc_state" where
  "eval_scc env schemas p non_monotone scc st =
     (let rs = scc_rules p scc
      in if rs = [] then Inr st
         else if list_ex (\<lambda>q. q \<in> non_monotone) scc then eval_non_monotone_scc_with_wfs env schemas scc rs st
         else if is_recursive_scc scc rs then eval_recursive_scc env schemas scc rs st
         else eval_non_recursive_scc env schemas rs st)"

text \<open>The record of a result, with the fields that the decision-order hint does not touch.\<close>

record extraction = provenance +
  prov_queries :: "ground_atom list"
  prov_evidence :: "(ground_atom \<times> bool) list"
  aggregate_lifting :: "lift_report list"
  prov_schemas :: schemas

definition non_monotone_predicates :: "stratification_result \<Rightarrow> string set" where
  "non_monotone_predicates result =
     (\<Union>i \<in> non_monotone_sccs result. if i < length (sr_sccs result) then set (sr_sccs result ! i) else {})"

definition snapshot_formulas :: "relation_store \<Rightarrow> (ground_atom \<times> node_id) list" where
  "snapshot_formulas store =
     concat (map (\<lambda>(p, rel). map (\<lambda>(tuple, f). (\<lparr>ground_predicate = p, ground_args = tuple\<rparr>, f)) rel) store)"

definition initial_store ::
    "prob_env \<Rightarrow> schemas \<Rightarrow> program \<Rightarrow> program \<Rightarrow> pir_builder
     \<Rightarrow> prov_error + (u32 \<times> (leaf_id \<times> u64) list \<times> (leaf_id \<times> ground_atom) list) \<times> choice_state" where
  "initial_store env schemas source p bd =
     bind_res (fold_res add_fact (filter is_fact (rules p)) ([], bd)) (\<lambda>(store, bd).
     bind_res (fold_res (add_prob_fact schemas) (zip (prob_facts p) (prob_facts source)) (0, [], [], store, bd))
       (\<lambda>(next, probs, atoms, store, bd).
     map_res (\<lambda>st. ((next, probs, atoms), st))
       (fold_res (add_disjunction env schemas)
         (zip (annotated_disjunctions p) (annotated_disjunctions source)) ((0, [], []), store, bd))))"

definition eval_components ::
    "prob_env \<Rightarrow> schemas \<Rightarrow> program \<Rightarrow> relation_store \<times> pir_builder \<Rightarrow> prov_error + scc_state" where
  "eval_components env schemas p = (\<lambda>(store, bd).
     let graph = build_dependency_graph p;
         store' = fold (\<lambda>q store. if map_of store q = None then bt_insert q [] store else store)
           (sorted_list_of_set (dg_predicates graph)) store
     in case (analyze_stratification p, find_sccs graph) of
          (Some result, Some sccs) \<Rightarrow>
            fold_res (eval_scc env schemas p (non_monotone_predicates result)) sccs (store', bd, [])
        | _ \<Rightarrow> Inl ProvPanic)"

definition extract_from_program ::
    "prob_env \<Rightarrow> (program \<Rightarrow> prov_error + schemas) \<Rightarrow> program \<Rightarrow> prov_error + extraction" where
  "extract_from_program env infer source =
     bind_res (map_err ProvStratify (stratify source)) (\<lambda>_.
     bind_res (arithmetic_schemas infer source) (\<lambda>schemas.
     bind_res (canonicalize_probabilistic_program env schemas source) (\<lambda>p.
     case new_builder of
       None \<Rightarrow> Inl ProvPanic
     | Some bd \<Rightarrow>
       bind_res (initial_store env schemas source p bd) (\<lambda>((_, lps, las), (_, cps, css), store, bd).
       bind_res (eval_components env schemas p (store, bd)) (\<lambda>(store, bd, reports).
       bind_res (traverse (\<lambda>(q, sq). presentation_atom_from_canonical schemas (pq_atom sq) (pq_atom q))
           (zip (prob_queries p) (prob_queries source))) (\<lambda>qs.
       bind_res (traverse (\<lambda>(ev, sev). map_res (\<lambda>a. (a, ev_value ev))
             (presentation_atom_from_canonical schemas (ev_atom sev) (ev_atom ev)))
           (zip (evidence_stmts p) (evidence_stmts source))) (\<lambda>evs.
       Inr \<lparr>prov_pir = pir bd, leaf_probs = lps, choice_probs = cps, tuple_formulas = snapshot_formulas store,
         leaf_atoms = las, choice_sources = css, prov_queries = qs, prov_evidence = evs,
         aggregate_lifting = reports, prov_schemas = schemas\<rparr>)))))))"

definition query_formula ::
    "prob_env \<Rightarrow> extraction \<Rightarrow> string \<Rightarrow> pvalue list \<Rightarrow> node_id option" where
  "query_formula env ex p args =
     (case canonicalize_public_values env (prov_schemas ex) p args of
        Inl _ \<Rightarrow> None
      | Inr args' \<Rightarrow> map_of (tuple_formulas ex) \<lparr>ground_predicate = p, ground_args = args'\<rparr>)"

end
