(* ===== verification/Provenance_Rule.thy ===== *)
theory Provenance_Rule
  imports Provenance_Eval
begin

text \<open>
  What the evaluation of one rule means in one world, that is, under one assignment of the leaves and
  choices: the states are the bindings of the ordinary evaluation of the body over the tuples that are
  true in the world, and the formulas of the derived tuples hold in exactly the worlds where the rule
  derives them.
\<close>

section \<open>Worlds\<close>

type_synonym database = "string \<Rightarrow> pvalue list set"

datatype valuation = Valuation (leaf_value: "leaf_id \<Rightarrow> bool") (choice_value: "choice_var_id \<Rightarrow> bool")

definition sat :: "pir_builder \<Rightarrow> valuation \<Rightarrow> node_id \<Rightarrow> bool" where
  "sat bd w i = bsem bd (leaf_value w) (choice_value w) i"

definition rel_ok :: "formula_relation \<Rightarrow> pir_builder \<Rightarrow> bool" where
  "rel_ok rel bd = (bt_ok rel \<and> (\<forall>t i. (t, i) \<in> set rel \<longrightarrow> in_graph bd i))"

definition rel_sem :: "formula_relation \<Rightarrow> pir_builder \<Rightarrow> valuation \<Rightarrow> pvalue list \<Rightarrow> bool" where
  "rel_sem rel bd w t = (\<exists>i. (t, i) \<in> set rel \<and> sat bd w i)"

definition extends :: "pir_builder \<Rightarrow> pir_builder \<Rightarrow> bool" where
  "extends bd bd' = (builder_ok bd' \<and> bgrows bd bd')"

lemma extends_refl [simp]: "builder_ok bd \<Longrightarrow> extends bd bd"
  by (simp add: extends_def)

lemma extends_trans [trans]: "extends bd bd1 \<Longrightarrow> extends bd1 bd2 \<Longrightarrow> extends bd bd2"
  unfolding extends_def using bgrows_trans by blast

lemma extends_ok: "extends bd bd' \<Longrightarrow> builder_ok bd'"
  by (simp add: extends_def)

lemma extends_in_graph: "extends bd bd' \<Longrightarrow> in_graph bd i \<Longrightarrow> in_graph bd' i"
  unfolding extends_def using in_graph_grows by blast

lemma extends_sat: "builder_ok bd \<Longrightarrow> extends bd bd' \<Longrightarrow> in_graph bd i \<Longrightarrow> sat bd' w i = sat bd w i"
  unfolding extends_def sat_def by (rule bsem_grows) simp_all

lemma rel_ok_extends: "rel_ok rel bd \<Longrightarrow> extends bd bd' \<Longrightarrow> rel_ok rel bd'"
  unfolding rel_ok_def using extends_in_graph by fast

lemma rel_sem_extends:
  assumes "builder_ok bd" and "extends bd bd'" and "rel_ok rel bd"
  shows "rel_sem rel bd' w t = rel_sem rel bd w t"
proof -
  have "sat bd' w i = sat bd w i" if "(t, i) \<in> set rel" for i
    using extends_sat [OF assms(1,2)] assms(3) that by (auto simp: rel_ok_def)
  then show ?thesis by (auto simp: rel_sem_def)
qed

lemma rel_ok_Nil [simp]: "rel_ok [] bd"
  by (simp add: rel_ok_def)

lemma rel_sem_Nil [simp]: "\<not> rel_sem [] bd w t"
  by (simp add: rel_sem_def)

section \<open>Formulas\<close>

definition yields :: "pir_builder \<Rightarrow> node_id \<times> pir_builder \<Rightarrow> (valuation \<Rightarrow> bool) \<Rightarrow> bool" where
  "yields bd res meaning =
     (extends bd (snd res) \<and> in_graph (snd res) (fst res) \<and> (\<forall>w. sat (snd res) w (fst res) = meaning w))"

lemma yields_op: "op_ok bd res (\<lambda>\<nu> \<chi>. meaning (Valuation \<nu> \<chi>)) \<Longrightarrow> yields bd res meaning"
  unfolding op_ok_def yields_def extends_def sat_def by (metis valuation.collapse)

lemma lift_builder_Inr [simp]: "lift_builder m bd = Inr r \<longleftrightarrow> m bd = Some r"
  by (auto simp: lift_builder_def split: option.splits)

lemma yields_and:
  "builder_ok bd \<Longrightarrow> \<forall>c \<in> set cs. in_graph bd c \<Longrightarrow> build_and cs bd = Some res \<Longrightarrow>
    yields bd res (\<lambda>w. \<forall>c \<in> set cs. sat bd w c)"
  by (rule yields_op) (simp add: sat_def build_and_ok)

lemma yields_or:
  "builder_ok bd \<Longrightarrow> \<forall>c \<in> set cs. in_graph bd c \<Longrightarrow> build_or cs bd = Some res \<Longrightarrow>
    yields bd res (\<lambda>w. \<exists>c \<in> set cs. sat bd w c)"
  by (rule yields_op) (simp add: sat_def build_or_ok)

lemma yieldsD:
  assumes "yields bd (i, bd') meaning"
  shows "extends bd bd'" and "in_graph bd' i" and "sat bd' w i = meaning w"
  using assms by (simp_all add: yields_def)

lemma yields_self: "builder_ok bd \<Longrightarrow> in_graph bd i \<Longrightarrow> (\<And>w. sat bd w i = meaning w) \<Longrightarrow> yields bd (i, bd) meaning"
  by (simp add: yields_def)

lemma yields_after: "extends bd bd1 \<Longrightarrow> yields bd1 res meaning \<Longrightarrow> (\<And>w. meaning w = meaning' w) \<Longrightarrow> yields bd res meaning'"
  unfolding yields_def using extends_trans by simp

lemma rel_sem_lookup: "rel_ok rel bd \<Longrightarrow> rel_sem rel bd w t = (\<exists>i. map_of rel t = Some i \<and> sat bd w i)"
  by (simp add: rel_ok_def rel_sem_def bt_ok_lookup)

lemma rel_table:
  assumes "rel_ok rel bd"
  shows "shared.table_defined (map_of rel) bd"
    and "shared.table_sem (map_of rel) bd (leaf_value w) (choice_value w) t = rel_sem rel bd w t"
proof -
  show "shared.table_defined (map_of rel) bd"
    using assms bt_ok_lookup [of rel] by (auto simp: rel_ok_def shared.table_defined_def)
  show "shared.table_sem (map_of rel) bd (leaf_value w) (choice_value w) t = rel_sem rel bd w t"
    unfolding rel_sem_lookup [OF assms] by (simp add: shared.table_sem_def sat_def split: option.split)
qed

lemma insert_or_sem:
  assumes ok: "builder_ok bd" and rel: "rel_ok rel bd" and f: "in_graph bd f"
    and run: "insert_or rel tuple f bd = Some (rel', bd')"
  shows "extends bd bd'" and "rel_ok rel' bd'"
    and "rel_sem rel' bd' w t = (rel_sem rel bd w t \<or> t = tuple \<and> sat bd w f)"
proof -
  have bt: "bt_ok rel'" using insert_or_arena [OF run] rel by (simp add: rel_ok_def)
  have a: "builder_ok bd' \<and> bgrows bd bd' \<and> shared.table_defined (map_of rel') bd'
      \<and> dom (map_of rel') = insert tuple (dom (map_of rel))
      \<and> (\<forall>\<nu> \<chi> k'. shared.table_sem (map_of rel') bd' \<nu> \<chi> k'
          = (shared.table_sem (map_of rel) bd \<nu> \<chi> k' \<or> (k' = tuple \<and> bsem bd \<nu> \<chi> f)))"
    using shared.add_disjunct_ok [OF ok rel_table(1) [OF rel] f] insert_or_arena [OF run] by blast
  then show ext: "extends bd bd'" by (simp add: extends_def)
  show ok': "rel_ok rel' bd'"
    using a bt bt_ok_lookup [OF bt] by (simp add: rel_ok_def shared.table_defined_def)
  show "rel_sem rel' bd' w t = (rel_sem rel bd w t \<or> t = tuple \<and> sat bd w f)"
    using a rel_table(2) [OF ok', of w t] rel_table(2) [OF rel, of w t] by (simp add: sat_def)
qed

section \<open>Loops that add\<close>

text \<open>
  Most loops of the evaluation thread the builder and add to an output, whose meaning grows by the
  contribution of each element; the contributions are formulas of the graph at the start.\<close>

lemma fold_additive:
  assumes "fold_res f xs (out, bd) = Inr (out', bd')" and "extends bd0 bd" and "ok out bd"
    and step: "\<And>x out bd out' bd'. x \<in> set xs \<Longrightarrow> extends bd0 bd \<Longrightarrow> ok out bd \<Longrightarrow> f x (out, bd) = Inr (out', bd') \<Longrightarrow>
      extends bd bd' \<and> ok out' bd' \<and> (\<forall>w k. sem out' bd' w k = (sem out bd w k \<or> contrib x w k))"
  shows "extends bd bd' \<and> ok out' bd'
    \<and> (\<forall>w k. sem out' bd' w k = (sem out bd w k \<or> (\<exists>x \<in> set xs. contrib x w k)))"
  using assms
proof (induction xs arbitrary: out bd)
  case Nil
  then show ?case by (simp add: extends_ok)
next
  case (Cons x xs)
  obtain out1 bd1 where one: "f x (out, bd) = Inr (out1, bd1)" and rest: "fold_res f xs (out1, bd1) = Inr (out', bd')"
    using Cons.prems(1) by (auto simp: res_simps)
  have s1: "extends bd bd1" "ok out1 bd1" and m1: "\<And>w k. sem out1 bd1 w k = (sem out bd w k \<or> contrib x w k)"
    using Cons.prems(4) [OF _ Cons.prems(2,3) one] by simp_all
  have e1: "extends bd0 bd1" using Cons.prems(2) s1(1) by (rule extends_trans)
  have "extends bd1 bd' \<and> ok out' bd'
      \<and> (\<forall>w k. sem out' bd' w k = (sem out1 bd1 w k \<or> (\<exists>x \<in> set xs. contrib x w k)))"
    by (rule Cons.IH [OF rest e1 s1(2)]) (rule Cons.prems(4), simp_all)
  then show ?case using extends_trans [OF s1(1)] m1 by auto
qed

section \<open>Negation\<close>

lemma map_state_yields:
  assumes "map_state f cs bd = Some (ns, bd')" and "builder_ok bd" and "\<forall>c \<in> set cs. in_graph bd c"
    and step: "\<And>c bd res. c \<in> set cs \<Longrightarrow> builder_ok bd \<Longrightarrow> in_graph bd c \<Longrightarrow> f c bd = Some res \<Longrightarrow>
      yields bd res (\<lambda>w. \<not> sat bd w c)"
  shows "extends bd bd' \<and> (\<forall>n \<in> set ns. in_graph bd' n)
    \<and> (\<forall>w. (\<exists>n \<in> set ns. sat bd' w n) = (\<exists>c \<in> set cs. \<not> sat bd w c))
    \<and> (\<forall>w. (\<forall>n \<in> set ns. sat bd' w n) = (\<forall>c \<in> set cs. \<not> sat bd w c))"
  using assms
proof (induction cs arbitrary: bd ns)
  case (Cons c cs)
  obtain n bd1 ms where one: "f c bd = Some (n, bd1)" and rest: "map_state f cs bd1 = Some (ms, bd')"
    and ns: "ns = n # ms" using Cons.prems(1) by (auto split: option.splits)
  have y: "yields bd (n, bd1) (\<lambda>w. \<not> sat bd w c)"
    by (rule Cons.prems(4) [OF _ Cons.prems(2) _ one]) (use Cons.prems(3) in simp_all)
  have ok1: "builder_ok bd1" by (rule extends_ok [OF yieldsD(1) [OF y]])
  have cs1: "\<forall>c \<in> set cs. in_graph bd1 c" using Cons.prems(3) extends_in_graph [OF yieldsD(1) [OF y]] by simp
  have same: "sat bd1 w d = sat bd w d" if "d \<in> set cs" for w d
    using extends_sat [OF Cons.prems(2) yieldsD(1) [OF y]] Cons.prems(3) that by simp
  have IH: "extends bd1 bd' \<and> (\<forall>n \<in> set ms. in_graph bd' n)
      \<and> (\<forall>w. (\<exists>n \<in> set ms. sat bd' w n) = (\<exists>c \<in> set cs. \<not> sat bd1 w c))
      \<and> (\<forall>w. (\<forall>n \<in> set ms. sat bd' w n) = (\<forall>c \<in> set cs. \<not> sat bd1 w c))"
    by (rule Cons.IH [OF rest ok1 cs1]) (rule Cons.prems(4), simp_all)
  have n: "in_graph bd' n" "sat bd' w n = (\<not> sat bd w c)" for w
    using extends_in_graph [OF conjunct1 [OF IH] yieldsD(2) [OF y]]
      extends_sat [OF ok1 conjunct1 [OF IH] yieldsD(2) [OF y]] yieldsD(3) [OF y] by simp_all
  show ?case using IH n extends_trans [OF yieldsD(1) [OF y]] same by (auto simp: ns)
qed simp

declare negate_provenance.simps(2) [simp del]

lemma negate_yields:
  "builder_ok bd \<Longrightarrow> in_graph bd i \<Longrightarrow> negate_provenance fuel i bd = Some res \<Longrightarrow>
    yields bd res (\<lambda>w. \<not> sat bd w i)"
proof (induction fuel i bd arbitrary: res rule: negate_provenance.induct)
  case (2 fuel i bd)
  note ok = "2.prems"(1)
  obtain nd where nd: "node (pir bd) i = Some nd" using "2.prems"(2) by (auto simp: in_graph_iff)
  note run = "2.prems"(3) [unfolded negate_provenance.simps nd, simplified]
  have kids: "in_graph bd c" if "c \<in> set (node_children nd)" for c using child_in_graph(1) [OF ok nd that] .
  have sem: "sat bd w i = holds (pir bd) (leaf_value w) (choice_value w) i" for w by (simp add: sat_def bsem_def)
  have child: "sat bd w c = holds (pir bd) (leaf_value w) (choice_value w) c" for w c by (simp add: sat_def bsem_def)
  show ?case
  proof (cases nd)
    case (PConst b)
    then show ?thesis using run bsem_consts [OF ok] holds_leaf_simps(1) [of "pir bd" i b] nd
      by (auto intro!: yields_self ok simp: sat_def) (simp_all add: bsem_def)
  next
    case (PLit l)
    have "yields bd res (\<lambda>w. \<not> leaf_value w l)"
      by (rule yields_op) (use build_neg_lit_ok [OF ok] run PLit in simp)
    then show ?thesis using nd PLit by (simp add: sem holds_leaf_simps)
  next
    case (PNegLit l)
    have "yields bd res (\<lambda>w. leaf_value w l)"
      by (rule yields_op) (use build_lit_ok [OF ok] run PNegLit in simp)
    then show ?thesis using nd PNegLit by (simp add: sem holds_leaf_simps)
  next
    case (PAnd cs)
    obtain ns bd1 where ms: "map_state (\<lambda>c. negate_provenance fuel c) cs bd = Some (ns, bd1)"
      and b: "build_or ns bd1 = Some res" using run PAnd by (auto split: option.splits)
    have m: "extends bd bd1 \<and> (\<forall>n \<in> set ns. in_graph bd1 n)
        \<and> (\<forall>w. (\<exists>n \<in> set ns. sat bd1 w n) = (\<exists>c \<in> set cs. \<not> sat bd w c))
        \<and> (\<forall>w. (\<forall>n \<in> set ns. sat bd1 w n) = (\<forall>c \<in> set cs. \<not> sat bd w c))"
      by (rule map_state_yields [OF ms ok])
        (use kids PAnd "2.IH"(1) [OF nd PAnd] in \<open>auto simp: node_children_def\<close>)
    have kids_sem: "sat bd w i = (\<forall>c \<in> set cs. sat bd w c)" for w
      unfolding sem child by (rule holds_and_simp [OF nd [unfolded PAnd]])
    have "yields bd1 res (\<lambda>w. \<exists>n \<in> set ns. sat bd1 w n)"
      using m by (intro yields_or [OF extends_ok _ b]) auto
    then show ?thesis by (rule yields_after [OF conjunct1 [OF m]]) (use m kids_sem in simp)
  next
    case (POr cs)
    obtain ns bd1 where ms: "map_state (\<lambda>c. negate_provenance fuel c) cs bd = Some (ns, bd1)"
      and b: "build_and ns bd1 = Some res" using run POr by (auto split: option.splits)
    have m: "extends bd bd1 \<and> (\<forall>n \<in> set ns. in_graph bd1 n)
        \<and> (\<forall>w. (\<exists>n \<in> set ns. sat bd1 w n) = (\<exists>c \<in> set cs. \<not> sat bd w c))
        \<and> (\<forall>w. (\<forall>n \<in> set ns. sat bd1 w n) = (\<forall>c \<in> set cs. \<not> sat bd w c))"
      by (rule map_state_yields [OF ms ok])
        (use kids POr "2.IH"(2) [OF nd POr] in \<open>auto simp: node_children_def\<close>)
    have kids_sem: "sat bd w i = (\<exists>c \<in> set cs. sat bd w c)" for w
      unfolding sem child by (rule holds_or_simp [OF nd [unfolded POr]])
    have "yields bd1 res (\<lambda>w. \<forall>n \<in> set ns. sat bd1 w n)"
      using m by (intro yields_and [OF extends_ok _ b]) auto
    then show ?thesis by (rule yields_after [OF conjunct1 [OF m]]) (use m kids_sem in simp)
  next
    case (PDecision v f t)
    obtain nf bd1 nt bd2 where f: "negate_provenance fuel f bd = Some (nf, bd1)"
      and t: "negate_provenance fuel t bd1 = Some (nt, bd2)" and b: "build_decision v nf nt bd2 = Some res"
      using run PDecision by (auto split: option.splits)
    have ft: "in_graph bd f" "in_graph bd t" using kids PDecision by (simp_all add: node_children_def)
    have yf: "yields bd (nf, bd1) (\<lambda>w. \<not> sat bd w f)" using "2.IH"(3) [OF nd PDecision ok ft(1) f] .
    have ok1: "builder_ok bd1" by (rule extends_ok [OF yieldsD(1) [OF yf]])
    have yt: "yields bd1 (nt, bd2) (\<lambda>w. \<not> sat bd1 w t)"
      by (rule "2.IH"(4) [OF nd PDecision f refl ok1 _ t]) (rule extends_in_graph [OF yieldsD(1) [OF yf] ft(2)])
    have ok2: "builder_ok bd2" by (rule extends_ok [OF yieldsD(1) [OF yt]])
    have nf2: "in_graph bd2 nf" by (rule extends_in_graph [OF yieldsD(1) [OF yt] yieldsD(2) [OF yf]])
    have dec: "yields bd2 res (\<lambda>w. sat bd2 w (if choice_value w v then nt else nf))"
      by (rule yields_op) (use build_decision_ok [OF ok2 nf2 yieldsD(2) [OF yt] b] in \<open>simp add: sat_def\<close>)
    moreover have "sat bd2 w nf = (\<not> sat bd w f)" "sat bd2 w nt = (\<not> sat bd w t)" for w
      using extends_sat [OF ok1 yieldsD(1) [OF yt] yieldsD(2) [OF yf]] yieldsD(3) [OF yf] yieldsD(3) [OF yt]
        extends_sat [OF ok yieldsD(1) [OF yf] ft(2)] by simp_all
    moreover have "sat bd w i = sat bd w (if choice_value w v then t else f)" for w
      unfolding sem child by (rule holds_decision_simp [OF nd [unfolded PDecision]])
    ultimately show ?thesis
      by (intro yields_after [OF extends_trans [OF yieldsD(1) [OF yf] yieldsD(1) [OF yt]] dec]) simp
  qed
qed simp

section \<open>The reference evaluation of a body\<close>

text \<open>One world: the tuples that are there, the bindings of a partial evaluation, and no formulas.\<close>

type_synonym bindings = "binding \<times> arith_bindings"

definition match_env :: "prob_env \<Rightarrow> schemas \<Rightarrow> atom \<Rightarrow> bindings \<Rightarrow> pvalue list \<Rightarrow> bindings option" where
  "match_env env schemas a e t =
     (case unify_atom a t (fst e) of
        Inr (Some b) \<Rightarrow>
          (case extend_arithmetic_bindings env schemas a t (snd e) of Inr ab \<Rightarrow> Some (b, ab) | _ \<Rightarrow> None)
      | _ \<Rightarrow> None)"

definition unifies :: "atom \<Rightarrow> binding \<Rightarrow> pvalue list \<Rightarrow> bool" where
  "unifies a b t = (\<exists>b'. unify_atom a t b = Inr (Some b'))"

definition assign_env :: "prob_env \<Rightarrow> is_expr \<Rightarrow> bindings \<Rightarrow> bindings option" where
  "assign_env env x e =
     (case eval_arithmetic_value env (is_rhs x) (fst e) (snd e) of
        Inr v \<Rightarrow> (case bind_arithmetic_result env (is_target x) v (fst e) (snd e) of Inr e' \<Rightarrow> Some e' | _ \<Rightarrow> None)
      | _ \<Rightarrow> None)"

fun ref_literal ::
    "prob_env \<Rightarrow> schemas \<Rightarrow> database \<Rightarrow> database \<Rightarrow> body_literal \<Rightarrow> bindings \<Rightarrow> bindings set" where
  "ref_literal env schemas D N (Positive a) e =
     {e'. \<exists>t \<in> D (predicate a). match_env env schemas a e t = Some e'}"
| "ref_literal env schemas D N (Negated a) e =
     (if all_bound a (fst e) \<and> \<not> (\<exists>t \<in> N (predicate a). unifies a (fst e) t) then {e} else {})"
| "ref_literal env schemas D N (Comparison c) e =
     (if eval_comparison env c (fst e) (snd e) = Inr True then {e} else {})"
| "ref_literal env schemas D N (IsExpr x) e = set_option (assign_env env x e)"
| "ref_literal env schemas D N (Epistemic _) e = {}"
| "ref_literal env schemas D N (Univ _) e = {}"

text \<open>
  The positive literal at position \<open>i\<close> reads the database \<open>D i\<close>, which differs between positions in the
  semi-naive iteration; negation reads \<open>N\<close>.\<close>

fun ref_body ::
    "prob_env \<Rightarrow> schemas \<Rightarrow> (nat \<Rightarrow> database) \<Rightarrow> database \<Rightarrow> nat \<Rightarrow> body_literal list \<Rightarrow> bindings set \<Rightarrow> bindings set"
  where
  "ref_body env schemas D N i [] E = E"
| "ref_body env schemas D N i (l # ls) E =
     ref_body env schemas D N (Suc i) ls (\<Union>e \<in> E. ref_literal env schemas (D i) N l e)"

definition head_tuple :: "prob_env \<Rightarrow> schemas \<Rightarrow> atom \<Rightarrow> binding \<Rightarrow> pvalue list option" where
  "head_tuple env schemas h b =
     (case materialize_head h b of
        Inr t \<Rightarrow> (case canonicalize_public_values env schemas (predicate h) t of Inr t' \<Rightarrow> Some t' | _ \<Rightarrow> None)
      | _ \<Rightarrow> None)"

definition ref_rule ::
    "prob_env \<Rightarrow> schemas \<Rightarrow> (nat \<Rightarrow> database) \<Rightarrow> database \<Rightarrow> rule \<Rightarrow> pvalue list set" where
  "ref_rule env schemas D N r =
     {t. \<exists>e \<in> ref_body env schemas D N 0 (body r) {([], Map.empty)}. head_tuple env schemas (head r) (fst e) = Some t}"

lemma ref_body_empty [simp]: "ref_body env schemas D N i ls {} = {}"
  by (induction ls arbitrary: i) auto

section \<open>The states of an evaluation\<close>

definition states_ok :: "prov_state list \<Rightarrow> pir_builder \<Rightarrow> bool" where
  "states_ok states bd = (\<forall>b ab f. (b, ab, f) \<in> set states \<longrightarrow> in_graph bd f)"

definition states_sem :: "prov_state list \<Rightarrow> pir_builder \<Rightarrow> valuation \<Rightarrow> bindings \<Rightarrow> bool" where
  "states_sem states bd w e = (\<exists>f. (fst e, snd e, f) \<in> set states \<and> sat bd w f)"

lemma states_ok_extends: "states_ok states bd \<Longrightarrow> extends bd bd' \<Longrightarrow> states_ok states bd'"
  unfolding states_ok_def using extends_in_graph by blast

lemma states_sem_extends:
  assumes "builder_ok bd" and "extends bd bd'" and "states_ok states bd"
  shows "states_sem states bd' w e = states_sem states bd w e"
proof -
  have "sat bd' w f = sat bd w f" if "(b, ab, f) \<in> set states" for b ab f
    using extends_sat [OF assms(1,2)] assms(3) that unfolding states_ok_def by blast
  then show ?thesis by (auto simp: states_sem_def)
qed

lemma states_snoc:
  assumes "builder_ok bd" and "extends bd bd'" and "states_ok states bd" and "in_graph bd' f"
  shows "states_ok (states @ [(b, ab, f)]) bd'"
    and "states_sem (states @ [(b, ab, f)]) bd' w e = (states_sem states bd w e \<or> e = (b, ab) \<and> sat bd' w f)"
proof -
  show "states_ok (states @ [(b, ab, f)]) bd'"
    using states_ok_extends [OF assms(3,2)] assms(4) by (auto simp: states_ok_def)
  show "states_sem (states @ [(b, ab, f)]) bd' w e = (states_sem states bd w e \<or> e = (b, ab) \<and> sat bd' w f)"
    using states_sem_extends [OF assms(1-3), of w e] by (cases e) (auto simp: states_sem_def)
qed

subsection \<open>Positive literals\<close>

lemma match_tuple_step:
  assumes ok: "builder_ok bd0" and ext: "extends bd0 bd" and out: "states_ok out bd"
    and f: "in_graph bd0 f" and tf: "in_graph bd0 tf"
    and run: "match_tuple env schemas a (b, ab, f) (t, tf) (out, bd) = Inr (out', bd')"
  shows "extends bd bd' \<and> states_ok out' bd' \<and> (\<forall>w e. states_sem out' bd' w e = (states_sem out bd w e
      \<or> sat bd0 w f \<and> sat bd0 w tf \<and> match_env env schemas a (b, ab) t = Some e))"
proof -
  have okb: "builder_ok bd" using ext by (rule extends_ok)
  show ?thesis
  proof (cases "unify_atom a t b")
    case (Inr m)
    show ?thesis
    proof (cases m)
      case None
      then show ?thesis using run Inr out okb by (auto simp: match_tuple_def match_env_def)
    next
      case (Some b')
      obtain ab' f' where ab': "extend_arithmetic_bindings env schemas a t ab = Inr ab'"
        and b_and: "build_and [f, tf] bd = Some (f', bd')" and out': "out' = out @ [(b', ab', f')]"
        using run Inr Some by (auto simp: match_tuple_def res_simps)
      have fs: "in_graph bd f" "in_graph bd tf" using extends_in_graph [OF ext] f tf by simp_all
      have y: "yields bd (f', bd') (\<lambda>w. \<forall>c \<in> set [f, tf]. sat bd w c)"
        by (rule yields_and [OF okb _ b_and]) (use fs in simp)
      have "sat bd' w f' = (sat bd0 w f \<and> sat bd0 w tf)" for w
        using yieldsD(3) [OF y] extends_sat [OF ok ext f] extends_sat [OF ok ext tf] by simp
      moreover have "match_env env schemas a (b, ab) t = Some (b', ab')"
        by (simp add: match_env_def Inr Some ab')
      ultimately show ?thesis
        unfolding out' using states_snoc [OF okb yieldsD(1) [OF y] out yieldsD(2) [OF y]] yieldsD(1) [OF y]
        by auto
    qed
  qed (use run in \<open>simp add: match_tuple_def\<close>)
qed

lemma eval_positive_sem:
  assumes ok: "builder_ok bd" and rel: "rel_ok rel bd" and st: "states_ok states bd"
    and run: "eval_positive env schemas a rel states bd = Inr (states', bd')"
  shows "extends bd bd' \<and> states_ok states' bd'
    \<and> (\<forall>w e'. states_sem states' bd' w e' = (\<exists>e t. states_sem states bd w e \<and> rel_sem rel bd w t
          \<and> match_env env schemas a e t = Some e'))"
proof -
  let ?C = "\<lambda>(b, ab, f) w e'. \<exists>(t, tf) \<in> set rel. sat bd w f \<and> sat bd w tf \<and> match_env env schemas a (b, ab) t = Some e'"
  have "extends bd bd' \<and> states_ok states' bd'
      \<and> (\<forall>w e'. states_sem states' bd' w e' = (states_sem [] bd w e' \<or> (\<exists>x \<in> set states. ?C x w e')))"
  proof (rule fold_additive [where ok = states_ok and sem = states_sem and contrib = ?C])
    show "fold_res (\<lambda>st. fold_res (match_tuple env schemas a st) rel) states ([], bd) = Inr (states', bd')"
      using run by (simp add: eval_positive_def)
    show "extends bd bd" "states_ok [] bd" using ok by (simp_all add: states_ok_def)
    fix x out bd1 out' bd1'
    assume x: "x \<in> set states" and e1: "extends bd bd1" and o1: "states_ok out bd1"
      and run1: "fold_res (match_tuple env schemas a x) rel (out, bd1) = Inr (out', bd1')"
    obtain b ab f where xs: "x = (b, ab, f)" by (cases x) auto
    have f: "in_graph bd f" using st x xs by (auto simp: states_ok_def)
    have "extends bd1 bd1' \<and> states_ok out' bd1' \<and> (\<forall>w e'. states_sem out' bd1' w e' = (states_sem out bd1 w e'
        \<or> (\<exists>y \<in> set rel. sat bd w f \<and> sat bd w (snd y) \<and> match_env env schemas a (b, ab) (fst y) = Some e')))"
    proof (rule fold_additive [where ok = states_ok and sem = states_sem
          and contrib = "\<lambda>y w e'. sat bd w f \<and> sat bd w (snd y) \<and> match_env env schemas a (b, ab) (fst y) = Some e'",
          OF run1 e1 o1])
      fix y out2 bd2 out2' bd2'
      assume y: "y \<in> set rel" and e2: "extends bd bd2" and o2: "states_ok out2 bd2"
        and run2: "match_tuple env schemas a x y (out2, bd2) = Inr (out2', bd2')"
      have tf: "in_graph bd (snd y)" using rel y by (cases y) (auto simp: rel_ok_def)
      show "extends bd2 bd2' \<and> states_ok out2' bd2' \<and> (\<forall>w e'. states_sem out2' bd2' w e' = (states_sem out2 bd2 w e'
          \<or> sat bd w f \<and> sat bd w (snd y) \<and> match_env env schemas a (b, ab) (fst y) = Some e'))"
        by (rule match_tuple_step [OF ok e2 o2 f tf]) (use run2 xs in simp)
    qed
    then show "extends bd1 bd1' \<and> states_ok out' bd1'
        \<and> (\<forall>w e'. states_sem out' bd1' w e' = (states_sem out bd1 w e' \<or> ?C x w e'))"
      by (auto simp: xs split_beta)
  qed
  then show ?thesis by (fastforce simp: states_sem_def rel_sem_def)
qed

subsection \<open>Negated literals\<close>

lemma collect_matches:
  "fold_res (collect_match a b) rel out = Inr out' \<Longrightarrow>
    set out' = set out \<union> {f. \<exists>t. (t, f) \<in> set rel \<and> unifies a b t}"
proof (induction rel arbitrary: out)
  case (Cons y rel)
  obtain t f where y: "y = (t, f)" by (cases y)
  obtain out1 where one: "collect_match a b (t, f) out = Inr out1"
    and rest: "fold_res (collect_match a b) rel out1 = Inr out'" using Cons.prems y by (auto simp: res_simps)
  obtain m where m: "unify_atom a t b = Inr m" and out1: "out1 = (case m of None \<Rightarrow> out | Some _ \<Rightarrow> out @ [f])"
    using one by (auto simp: collect_match_def res_simps)
  have "set out1 = set out \<union> {g. g = f \<and> unifies a b t}"
    by (cases m) (auto simp: out1 unifies_def m)
  then show ?case unfolding Cons.IH [OF rest] y by auto
qed simp

lemma collect_all_defined:
  "rel_ok rel bd \<Longrightarrow> fold_res (collect_match a b) rel [] = Inr fs \<Longrightarrow> \<forall>f \<in> set fs. in_graph bd f"
  using collect_matches [of a b rel "[]" fs] by (auto simp: rel_ok_def)

lemma negated_state_step:
  assumes ok: "builder_ok bd0" and rel: "rel_ok rel bd0" and ext: "extends bd0 bd" and out: "states_ok out bd"
    and f: "in_graph bd0 f" and run: "negated_state a rel (b, ab, f) (out, bd) = Inr (out', bd')"
  shows "extends bd bd' \<and> states_ok out' bd' \<and> (\<forall>w e. states_sem out' bd' w e = (states_sem out bd w e
      \<or> sat bd0 w f \<and> all_bound a b \<and> \<not> (\<exists>t. rel_sem rel bd0 w t \<and> unifies a b t) \<and> e = (b, ab)))"
proof (cases "all_bound a b")
  case False
  then show ?thesis using run out extends_ok [OF ext] by (auto simp: negated_state_def)
next
  case True
  have okb: "builder_ok bd" using ext by (rule extends_ok)
  have fb: "in_graph bd f" using extends_in_graph [OF ext f] .
  obtain fs where fs: "fold_res (collect_match a b) rel [] = Inr fs"
    using run True by (auto simp: negated_state_def res_simps)
  have matched: "(\<exists>t. rel_sem rel bd0 w t \<and> unifies a b t) = (\<exists>g \<in> set fs. sat bd w g)" for w
  proof -
    have same: "sat bd w g = sat bd0 w g" if "(t, g) \<in> set rel" for t g
      using extends_sat [OF ok ext] rel that by (simp add: rel_ok_def)
    have "set fs = {f. \<exists>t. (t, f) \<in> set rel \<and> unifies a b t}" using collect_matches [OF fs] by simp
    then show ?thesis using same unfolding rel_sem_def by blast
  qed
  show ?thesis
  proof (cases "fs = []")
    case True
    then have "out' = out @ [(b, ab, f)]" "bd' = bd" using run \<open>all_bound a b\<close> fs by (simp_all add: negated_state_def)
    then show ?thesis
      using states_snoc [OF okb extends_refl [OF okb] out fb] okb \<open>all_bound a b\<close> matched True extends_sat [OF ok ext f]
      by auto
  next
    case False
    obtain c bd1 n bd2 g where c: "build_or fs bd = Some (c, bd1)" and n: "negate_node c bd1 = Some (n, bd2)"
      and g: "build_and [f, n] bd2 = Some (g, bd')" and out': "out' = out @ [(b, ab, g)]"
      using run \<open>all_bound a b\<close> fs False by (auto simp: negated_state_def res_simps)
    have yc: "yields bd (c, bd1) (\<lambda>w. \<exists>g \<in> set fs. sat bd w g)"
      by (rule yields_or [OF okb _ c]) (use collect_all_defined [OF rel_ok_extends [OF rel ext] fs] in simp)
    have ok1: "builder_ok bd1" by (rule extends_ok [OF yieldsD(1) [OF yc]])
    have yn: "yields bd1 (n, bd2) (\<lambda>w. \<not> sat bd1 w c)"
      by (rule negate_yields [OF ok1 yieldsD(2) [OF yc] n [unfolded negate_node_def]])
    have ok2: "builder_ok bd2" by (rule extends_ok [OF yieldsD(1) [OF yn]])
    have e2: "extends bd bd2" using yieldsD(1) [OF yc] yieldsD(1) [OF yn] by (rule extends_trans)
    have yg: "yields bd2 (g, bd') (\<lambda>w. \<forall>h \<in> set [f, n]. sat bd2 w h)"
      by (rule yields_and [OF ok2 _ g]) (use extends_in_graph [OF e2 fb] yieldsD(2) [OF yn] in simp)
    have "sat bd' w g = (sat bd0 w f \<and> \<not> (\<exists>t. rel_sem rel bd0 w t \<and> unifies a b t))" for w
      using yieldsD(3) [OF yg] yieldsD(3) [OF yn] yieldsD(3) [OF yc] extends_sat [OF okb e2 fb]
        extends_sat [OF ok ext f] matched by simp
    moreover have e': "extends bd bd'" using e2 yieldsD(1) [OF yg] by (rule extends_trans)
    ultimately show ?thesis
      unfolding out' using states_snoc [OF okb e' out yieldsD(2) [OF yg]] \<open>all_bound a b\<close> by auto
  qed
qed

lemma eval_negated_sem:
  assumes ok: "builder_ok bd" and rel: "\<And>r. rel = Some r \<Longrightarrow> rel_ok r bd" and st: "states_ok states bd"
    and run: "eval_negated a rel states bd = Inr (states', bd')"
  shows "extends bd bd' \<and> states_ok states' bd'
    \<and> (\<forall>w e. states_sem states' bd' w e = (states_sem states bd w e \<and> all_bound a (fst e)
          \<and> \<not> (\<exists>t r. rel = Some r \<and> rel_sem r bd w t \<and> unifies a (fst e) t)))"
proof (cases rel)
  case None
  then show ?thesis using run st ok by (auto simp: eval_negated_def states_ok_def states_sem_def)
next
  case (Some r)
  let ?C = "\<lambda>(b, ab, f) w e. sat bd w f \<and> all_bound a b \<and> \<not> (\<exists>t. rel_sem r bd w t \<and> unifies a b t) \<and> e = (b, ab)"
  have "extends bd bd' \<and> states_ok states' bd'
      \<and> (\<forall>w e. states_sem states' bd' w e = (states_sem [] bd w e \<or> (\<exists>x \<in> set states. ?C x w e)))"
  proof (rule fold_additive [where ok = states_ok and sem = states_sem and contrib = ?C])
    show "fold_res (negated_state a r) states ([], bd) = Inr (states', bd')"
      using run Some by (simp add: eval_negated_def)
    show "extends bd bd" "states_ok [] bd" using ok by (simp_all add: states_ok_def)
    fix x out bd1 out' bd1'
    assume x: "x \<in> set states" and e1: "extends bd bd1" and o1: "states_ok out bd1"
      and run1: "negated_state a r x (out, bd1) = Inr (out', bd1')"
    obtain b ab f where xs: "x = (b, ab, f)" by (cases x) auto
    have f: "in_graph bd f" using st x xs by (auto simp: states_ok_def)
    show "extends bd1 bd1' \<and> states_ok out' bd1'
        \<and> (\<forall>w e. states_sem out' bd1' w e = (states_sem out bd1 w e \<or> ?C x w e))"
      using negated_state_step [OF ok rel [OF Some] e1 o1 f run1 [unfolded xs]] by (simp add: xs)
  qed
  moreover have "(\<exists>x \<in> set states. ?C x w e) = (states_sem states bd w e \<and> all_bound a (fst e)
      \<and> \<not> (\<exists>t r'. rel = Some r' \<and> rel_sem r' bd w t \<and> unifies a (fst e) t))" for w e
    unfolding states_sem_def Some by (cases e) (simp add: Bex_def split_paired_Ex, blast)
  moreover have "states_sem [] bd w e = False" for w e by (simp add: states_sem_def)
  ultimately show ?thesis by (simp only: simp_thms)
qed

subsection \<open>Comparisons and assignments\<close>

lemma eval_comparisons_set:
  assumes "eval_comparisons env c states = Inr states'"
  shows "set states' = {(b, ab, f). (b, ab, f) \<in> set states \<and> eval_comparison env c b ab = Inr True}"
proof -
  define g :: "prov_state \<Rightarrow> prov_state list \<Rightarrow> prov_error + prov_state list" where
    "g = (\<lambda>(b, ab, f) out. map_res (\<lambda>ok. if ok then out @ [(b, ab, f)] else out) (eval_comparison env c b ab))"
  have "set out' = set out \<union> {(b, ab, f). (b, ab, f) \<in> set states \<and> eval_comparison env c b ab = Inr True}"
    if "fold_res g states out = Inr out'" for out out'
    using that
  proof (induction states arbitrary: out)
    case (Cons x states)
    obtain b ab f where x: "x = (b, ab, f)" by (cases x) auto
    obtain out1 where one: "g x out = Inr out1" and rest: "fold_res g states out1 = Inr out'"
      using Cons.prems by (auto simp: bind_res_Inr_iff)
    obtain v where "eval_comparison env c b ab = Inr v" and "out1 = (if v then out @ [(b, ab, f)] else out)"
      using one by (auto simp: g_def x map_res_Inr_iff)
    then show ?case unfolding Cons.IH [OF rest] by (cases v) (auto simp: x)
  qed auto
  from this [of "[]" states'] show ?thesis using assms by (simp add: eval_comparisons_def g_def)
qed

lemma eval_is_set:
  assumes "eval_is env x states = Inr states'"
  shows "(b', ab', f) \<in> set states' \<longleftrightarrow> (\<exists>b ab. (b, ab, f) \<in> set states \<and> assign_env env x (b, ab) = Some (b', ab'))"
proof -
  let ?f = "\<lambda>(b, ab, prov). bind_res (eval_arithmetic_value env (is_rhs x) b ab) (\<lambda>v.
      map_res (\<lambda>(b', ab'). (b', ab', prov)) (bind_arithmetic_result env (is_target x) v b ab))"
  have "?f (b, ab, g) = Inr (b', ab', f) \<longleftrightarrow> g = f \<and> assign_env env x (b, ab) = Some (b', ab')" for b ab g
    by (cases "eval_arithmetic_value env (is_rhs x) b ab") (auto simp: assign_env_def map_res_Inr_iff split: sum.split)
  then show ?thesis
    using traverse_set [of ?f states states' "(b', ab', f)"] assms unfolding eval_is_def by fastforce
qed

subsection \<open>Bodies\<close>

definition store_ok :: "relation_store \<Rightarrow> pir_builder \<Rightarrow> bool" where
  "store_ok store bd = (bt_ok store \<and> (\<forall>p rel. map_of store p = Some rel \<longrightarrow> rel_ok rel bd))"

lemma store_ok_extends: "store_ok store bd \<Longrightarrow> extends bd bd' \<Longrightarrow> store_ok store bd'"
  unfolding store_ok_def using rel_ok_extends by blast

lemma store_ok_relation: "store_ok store bd \<Longrightarrow> rel_ok (store_relation store p) bd"
  by (simp add: store_ok_def store_relation_def split: option.split)

lemma store_ok_Nil [simp]: "store_ok [] bd"
  by (simp add: store_ok_def bt_ok_def)

lemma store_ok_insert: "store_ok store bd \<Longrightarrow> rel_ok rel bd \<Longrightarrow> store_ok (bt_insert p rel store) bd"
  by (simp add: store_ok_def)

lemma store_relation_insert: "store_relation (bt_insert p rel store) q = (if q = p then rel else store_relation store q)"
  by (simp add: store_relation_def)

definition current_relation :: "relation_store \<Rightarrow> relation_store \<Rightarrow> string \<Rightarrow> formula_relation" where
  "current_relation global full p =
     (case map_of full p of Some rel \<Rightarrow> rel | None \<Rightarrow> store_relation global p)"

definition read_relation ::
    "relation_store \<Rightarrow> relation_store \<Rightarrow> (nat \<times> relation_store) option \<Rightarrow> nat \<Rightarrow> string \<Rightarrow> formula_relation" where
  "read_relation global full delta i p =
     (case delta of
        Some (j, changes) \<Rightarrow> if j = i then store_relation changes p else current_relation global full p
      | None \<Rightarrow> current_relation global full p)"

definition rel_world :: "(string \<Rightarrow> formula_relation) \<Rightarrow> pir_builder \<Rightarrow> valuation \<Rightarrow> database" where
  "rel_world rels bd w p = {t. rel_sem (rels p) bd w t}"

lemma rel_world_extends:
  assumes "builder_ok bd" and "extends bd bd'" and "\<And>p. rel_ok (rels p) bd"
  shows "rel_world rels bd' w = rel_world rels bd w"
proof -
  have "rel_sem (rels p) bd' w t = rel_sem (rels p) bd w t" for p t by (rule rel_sem_extends [OF assms])
  then show ?thesis by (simp add: rel_world_def fun_eq_iff)
qed

definition inputs_ok ::
    "relation_store \<Rightarrow> relation_store \<Rightarrow> (nat \<times> relation_store) option \<Rightarrow> pir_builder \<Rightarrow> bool" where
  "inputs_ok global full delta bd =
     (store_ok global bd \<and> store_ok full bd \<and> (case delta of None \<Rightarrow> True | Some (_, changes) \<Rightarrow> store_ok changes bd))"

lemma inputs_ok_extends:
  assumes "inputs_ok global full delta bd" and ext: "extends bd bd'"
  shows "inputs_ok global full delta bd'"
proof -
  have "store_ok store bd'" if "store_ok store bd" for store by (rule store_ok_extends [OF that ext])
  then show ?thesis using assms(1) by (auto simp: inputs_ok_def split: option.splits)
qed

lemma current_ok: "inputs_ok global full delta bd \<Longrightarrow> rel_ok (current_relation global full p) bd"
  by (auto simp: inputs_ok_def current_relation_def store_ok_def store_relation_def split: option.split)

lemma read_ok: "inputs_ok global full delta bd \<Longrightarrow> rel_ok (read_relation global full delta i p) bd"
  using current_ok [of global full delta bd p]
  by (auto simp: read_relation_def inputs_ok_def store_ok_relation split: option.splits)

lemma select_read:
  "select_relation a i global full delta = Inr rel \<Longrightarrow> rel = read_relation global full delta i (predicate a)"
  by (auto simp: select_relation_def read_relation_def current_relation_def store_relation_def Let_def
      split: option.splits if_splits)

lemma eval_literal_sem:
  assumes ok: "builder_ok bd0" and ext: "extends bd0 bd" and st: "states_ok states bd"
    and inp: "inputs_ok global full delta bd0"
    and run: "eval_literal env schemas global full delta i l states bd = Inr (states', bd')"
  shows "extends bd bd' \<and> states_ok states' bd'
    \<and> (\<forall>w. {e. states_sem states' bd' w e} = (\<Union>e \<in> {e. states_sem states bd w e}.
          ref_literal env schemas (rel_world (read_relation global full delta i) bd0 w)
            (rel_world (current_relation global full) bd0 w) l e))"
proof -
  have okb: "builder_ok bd" using ext by (rule extends_ok)
  have inpb: "inputs_ok global full delta bd" by (rule inputs_ok_extends [OF inp ext])
  have rd: "rel_sem (read_relation global full delta i p) bd w t = rel_sem (read_relation global full delta i p) bd0 w t"
    for p w t by (rule rel_sem_extends [OF ok ext read_ok [OF inp]])
  have cur: "rel_sem (current_relation global full p) bd w t = rel_sem (current_relation global full p) bd0 w t"
    for p w t by (rule rel_sem_extends [OF ok ext current_ok [OF inp]])
  show ?thesis
  proof (cases l)
    case (Positive a)
    obtain rel where "select_relation a i global full delta = Inr rel"
      and ep: "eval_positive env schemas a rel states bd = Inr (states', bd')"
      using run by (auto simp: Positive eval_literal_def bind_res_Inr_iff)
    then have rel: "rel = read_relation global full delta i (predicate a)" by (intro select_read)
    have "extends bd bd' \<and> states_ok states' bd'
        \<and> (\<forall>w e'. states_sem states' bd' w e' = (\<exists>e t. states_sem states bd w e \<and> rel_sem rel bd w t
            \<and> match_env env schemas a e t = Some e'))"
      by (rule eval_positive_sem [OF okb _ st ep]) (simp add: rel read_ok [OF inpb])
    then show ?thesis unfolding Positive rel rd by (simp add: rel_world_def set_eq_iff)
  next
    case (Negated a)
    define nrel where "nrel = (case map_of full (predicate a) of
        Some rel \<Rightarrow> Some rel | None \<Rightarrow> map_of global (predicate a))"
    have nrel: "(\<exists>r. nrel = Some r \<and> rel_sem r bd w t) = rel_sem (current_relation global full (predicate a)) bd w t"
      for w t by (auto simp: nrel_def current_relation_def store_relation_def split: option.split)
    have "rel_ok r bd" if "nrel = Some r" for r
      using that inpb by (auto simp: nrel_def inputs_ok_def store_ok_def split: option.splits)
    moreover have "eval_negated a nrel states bd = Inr (states', bd')"
      using run by (simp add: Negated eval_literal_def nrel_def)
    ultimately have "extends bd bd' \<and> states_ok states' bd'
        \<and> (\<forall>w e. states_sem states' bd' w e = (states_sem states bd w e \<and> all_bound a (fst e)
          \<and> \<not> (\<exists>t r. nrel = Some r \<and> rel_sem r bd w t \<and> unifies a (fst e) t)))"
      by (intro eval_negated_sem [OF okb _ st])
    moreover have "(\<exists>t r. nrel = Some r \<and> rel_sem r bd w t \<and> unifies a b t)
        = (\<exists>t \<in> rel_world (current_relation global full) bd0 w (predicate a). unifies a b t)" for w b
    proof -
      have "(\<exists>t r. nrel = Some r \<and> rel_sem r bd w t \<and> unifies a b t)
          = (\<exists>t. (\<exists>r. nrel = Some r \<and> rel_sem r bd w t) \<and> unifies a b t)" by blast
      then show ?thesis unfolding nrel cur by (simp add: rel_world_def)
    qed
    ultimately show ?thesis by (auto simp: Negated split: if_splits)
  next
    case (Comparison c)
    then have "eval_comparisons env c states = Inr states'" and bd': "bd' = bd"
      using run by (auto simp: eval_literal_def map_res_Inr_iff)
    note set = eval_comparisons_set [OF this(1)]
    have "states_ok states' bd" using st unfolding states_ok_def set by blast
    moreover have "states_sem states' bd w e = (states_sem states bd w e \<and> eval_comparison env c (fst e) (snd e) = Inr True)"
      for w e unfolding states_sem_def set by auto
    ultimately show ?thesis using okb by (auto simp: Comparison bd' split: if_splits)
  next
    case (IsExpr x)
    then have "eval_is env x states = Inr states'" and bd': "bd' = bd"
      using run by (auto simp: eval_literal_def map_res_Inr_iff)
    note set = eval_is_set [OF this(1)]
    have "states_ok states' bd" using st unfolding states_ok_def set by blast
    moreover have "states_sem states' bd w e = (\<exists>e0. states_sem states bd w e0 \<and> assign_env env x e0 = Some e)"
      for w e unfolding states_sem_def set by force
    ultimately show ?thesis using okb by (auto simp: IsExpr bd')
  qed (use run in \<open>simp_all add: eval_literal_def\<close>)
qed

lemma eval_body_sem:
  assumes ok: "builder_ok bd0" and inp: "inputs_ok global full delta bd0"
  shows "extends bd0 bd \<Longrightarrow> states_ok states bd \<Longrightarrow>
    eval_body env schemas global full delta i ls states bd = Inr (states', bd') \<Longrightarrow>
    extends bd bd' \<and> states_ok states' bd'
    \<and> (\<forall>w. {e. states_sem states' bd' w e} = ref_body env schemas
          (\<lambda>i. rel_world (read_relation global full delta i) bd0 w)
          (rel_world (current_relation global full) bd0 w) i ls {e. states_sem states bd w e})"
proof (induction ls arbitrary: i states bd)
  case Nil
  then show ?case by (simp add: extends_ok)
next
  case (Cons l ls)
  obtain states1 bd1 where one: "eval_literal env schemas global full delta i l states bd = Inr (states1, bd1)"
    and rest: "(if states1 = [] then Inr ([], bd1)
        else eval_body env schemas global full delta (Suc i) ls states1 bd1) = Inr (states', bd')"
    using Cons.prems(3) by (auto simp: bind_res_Inr_iff)
  note lit = eval_literal_sem [OF ok Cons.prems(1,2) inp one]
  have ok1: "builder_ok bd1" using lit extends_ok by blast
  have step: "(\<Union>e \<in> {e. states_sem states bd w e}.
      ref_literal env schemas (rel_world (read_relation global full delta i) bd0 w)
        (rel_world (current_relation global full) bd0 w) l e) = {e. states_sem states1 bd1 w e}" for w
    using lit by blast
  show ?case
  proof (cases "states1 = []")
    case True
    then have "states' = []" "bd' = bd1" using rest by simp_all
    moreover have "Collect (states_sem [] bd1 w) = {}" for w by (simp add: states_sem_def)
    ultimately show ?thesis
      using conjunct1 [OF lit] True unfolding ref_body.simps step
      by (simp only: ref_body_empty simp_thms) (simp add: states_ok_def)
  next
    case False
    then have r: "eval_body env schemas global full delta (Suc i) ls states1 bd1 = Inr (states', bd')"
      using rest by simp
    have e1: "extends bd0 bd1" using extends_trans [OF Cons.prems(1) conjunct1 [OF lit]] .
    have st1: "states_ok states1 bd1" using lit by blast
    show ?thesis
      unfolding ref_body.simps step using Cons.IH [OF e1 st1 r] extends_trans [OF conjunct1 [OF lit]] by blast
  qed
qed

section \<open>One rule\<close>

lemma add_tuples_sem:
  assumes ok: "builder_ok bd" and rel: "rel_ok rel bd" and ts: "\<forall>(t, f) \<in> set ts. in_graph bd f"
    and run: "fold_res (\<lambda>(t, f) (rel, bd). insert_formula rel (g t) f bd) ts (rel, bd) = Inr (rel', bd')"
  shows "extends bd bd' \<and> rel_ok rel' bd' \<and> (\<forall>w t'. rel_sem rel' bd' w t'
      = (rel_sem rel bd w t' \<or> (\<exists>t f. (t, f) \<in> set ts \<and> sat bd w f \<and> t' = g t)))"
proof -
  have "extends bd bd' \<and> rel_ok rel' bd' \<and> (\<forall>w t'. rel_sem rel' bd' w t'
      = (rel_sem rel bd w t' \<or> (\<exists>x \<in> set ts. sat bd w (snd x) \<and> t' = g (fst x))))"
  proof (rule fold_additive [where ok = rel_ok and sem = rel_sem
        and contrib = "\<lambda>x w t'. sat bd w (snd x) \<and> t' = g (fst x)", OF run extends_refl [OF ok] rel])
    fix x out bd1 out' bd1'
    assume x: "x \<in> set ts" and e1: "extends bd bd1" and o1: "rel_ok out bd1"
      and r: "(case x of (t, f) \<Rightarrow> \<lambda>(rel, bd). insert_formula rel (g t) f bd) (out, bd1) = Inr (out', bd1')"
    have i: "insert_or out (g (fst x)) (snd x) bd1 = Some (out', bd1')"
      using r by (cases x) (simp add: insert_formula_def)
    have f: "in_graph bd (snd x)" using ts x by auto
    note ins = insert_or_sem [OF extends_ok [OF e1] o1 extends_in_graph [OF e1 f] i]
    show "extends bd1 bd1' \<and> rel_ok out' bd1' \<and> (\<forall>w t'. rel_sem out' bd1' w t'
        = (rel_sem out bd1 w t' \<or> sat bd w (snd x) \<and> t' = g (fst x)))"
      using ins extends_sat [OF ok e1 f] by auto
  qed
  then show ?thesis by fastforce
qed

text \<open>A step that may fail computes its tuple; the loop succeeds only when all of them do.\<close>

lemma fold_res_tuples:
  assumes "fold_res (\<lambda>x (rel, bd). bind_res (h x) (\<lambda>t. insert_formula rel t (snd x) bd)) xs (rel, bd) = Inr res"
  shows "fold_res (\<lambda>(t, f) (rel, bd). insert_formula rel t f bd) (map (\<lambda>x. (projr (h x), snd x)) xs) (rel, bd) = Inr res
    \<and> (\<forall>x \<in> set xs. \<exists>t. h x = Inr t)"
  using assms
proof (induction xs arbitrary: rel bd)
  case (Cons x xs)
  obtain t rel1 bd1 where t: "h x = Inr t" and i: "insert_formula rel t (snd x) bd = Inr (rel1, bd1)"
    and rest: "fold_res (\<lambda>x (rel, bd). bind_res (h x) (\<lambda>t. insert_formula rel t (snd x) bd)) xs (rel1, bd1) = Inr res"
    using Cons.prems by (auto simp: bind_res_Inr_iff)
  show ?case using Cons.IH [OF rest] t i by simp
qed simp

lemma fallible_tuples_sem:
  assumes ok: "builder_ok bd" and ts: "\<forall>x \<in> set xs. in_graph bd (snd x)"
    and run: "fold_res (\<lambda>x (rel, bd). bind_res (h x) (\<lambda>t. insert_formula rel t (snd x) bd)) xs ([], bd) = Inr (rel', bd')"
  shows "extends bd bd' \<and> rel_ok rel' bd'
    \<and> (\<forall>w t. rel_sem rel' bd' w t = (\<exists>x \<in> set xs. sat bd w (snd x) \<and> h x = Inr t))"
proof -
  note split = fold_res_tuples [OF run]
  have "extends bd bd' \<and> rel_ok rel' bd' \<and> (\<forall>w t'. rel_sem rel' bd' w t' = (rel_sem [] bd w t'
      \<or> (\<exists>t f. (t, f) \<in> set (map (\<lambda>x. (projr (h x), snd x)) xs) \<and> sat bd w f \<and> t' = t)))"
    by (rule add_tuples_sem [OF ok rel_ok_Nil _ conjunct1 [OF split]]) (use ts in auto)
  moreover have "(\<exists>t f. (t, f) \<in> set (map (\<lambda>x. (projr (h x), snd x)) xs) \<and> sat bd w f \<and> t' = t)
      = (\<exists>x \<in> set xs. sat bd w (snd x) \<and> h x = Inr t')" for w t'
    using conjunct2 [OF split] by fastforce
  ultimately show ?thesis by simp
qed

lemma eval_rule_sem:
  assumes ok: "builder_ok bd" and inp: "inputs_ok global full delta bd" and agg: "\<not> has_aggregation r"
    and run: "eval_rule env schemas r global full delta bd reports = Inr (out, bd', reports')"
  shows "extends bd bd' \<and> rel_ok out bd' \<and> reports' = reports
    \<and> (\<forall>w. {t. rel_sem out bd' w t} = ref_rule env schemas
          (\<lambda>i. rel_world (read_relation global full delta i) bd w) (rel_world (current_relation global full) bd w) r)"
proof -
  let ?D = "\<lambda>w i. rel_world (read_relation global full delta i) bd w"
  let ?N = "\<lambda>w. rel_world (current_relation global full) bd w"
  let ?h = "head r"
  obtain states bd1 where body: "eval_body env schemas global full delta 0 (body r)
        [([], Map.empty, bconst_true bd)] bd = Inr (states, bd1)"
    and rest: "bind_res (map_res (\<lambda>(out, bd). (out, bd, reports))
          (fold_res (head_output ?h) (map (\<lambda>(b, _, prov). (b, prov)) states) ([], bd1)))
        (\<lambda>(derived, bd, reports). map_res (\<lambda>(out, bd). (out, bd, reports))
          (fold_res (canonical_output env schemas (predicate ?h)) derived ([], bd))) = Inr (out, bd', reports')"
    using run agg by (auto simp: eval_rule_def bind_res_Inr_iff)
  obtain derived bd2 where heads: "fold_res (head_output ?h) (map (\<lambda>(b, _, prov). (b, prov)) states) ([], bd1)
        = Inr (derived, bd2)"
    and canon: "fold_res (canonical_output env schemas (predicate ?h)) derived ([], bd2) = Inr (out, bd')"
    and reports: "reports' = reports"
    using rest by (auto simp: bind_res_Inr_iff map_res_Inr_iff)
  have start: "states_ok [([], Map.empty, bconst_true bd)] bd"
    "{e. states_sem [([], Map.empty, bconst_true bd)] bd w e} = {([], Map.empty)}" for w
    using bsem_consts [OF ok] by (auto simp: states_ok_def states_sem_def sat_def)
  note b = eval_body_sem [OF ok inp extends_refl [OF ok] start(1) body, unfolded start(2)]
  have e1: "extends bd bd1" and st: "states_ok states bd1" using b by blast+
  have rows: "\<forall>x \<in> set (map (\<lambda>(b, _, prov). (b, prov)) states). in_graph bd1 (snd x)"
    using st by (auto simp: states_ok_def)
  have "extends bd1 bd2 \<and> rel_ok derived bd2 \<and> (\<forall>w t. rel_sem derived bd2 w t
      = (\<exists>x \<in> set (map (\<lambda>(b, _, prov). (b, prov)) states). sat bd1 w (snd x) \<and> materialize_head ?h (fst x) = Inr t))"
    by (rule fallible_tuples_sem [OF extends_ok [OF e1] rows])
      (use heads in \<open>simp add: head_output_def case_prod_unfold\<close>)
  then have e2: "extends bd1 bd2" and rd: "rel_ok derived bd2"
    and d: "\<And>w t. rel_sem derived bd2 w t = (\<exists>e. states_sem states bd1 w e \<and> materialize_head ?h (fst e) = Inr t)"
    unfolding states_sem_def by (blast, blast, force)
  have "extends bd2 bd' \<and> rel_ok out bd' \<and> (\<forall>w t. rel_sem out bd' w t
      = (\<exists>x \<in> set derived. sat bd2 w (snd x) \<and> canonicalize_public_values env schemas (predicate ?h) (fst x) = Inr t))"
    by (rule fallible_tuples_sem [OF extends_ok [OF e2]])
      (use rd canon in \<open>auto simp: canonical_output_def case_prod_unfold rel_ok_def\<close>)
  note canonical = this
  then have e3: "extends bd2 bd'" and ro: "rel_ok out bd'" by blast+
  have o: "rel_sem out bd' w t
      = (\<exists>t0. rel_sem derived bd2 w t0 \<and> canonicalize_public_values env schemas (predicate ?h) t0 = Inr t)" for w t
    using canonical by (simp add: rel_sem_def [of derived] Bex_def split_paired_Ex) blast
  have tuple: "(\<exists>t0. materialize_head ?h c = Inr t0 \<and> canonicalize_public_values env schemas (predicate ?h) t0 = Inr t)
      = (head_tuple env schemas ?h c = Some t)" for c t
    by (auto simp: head_tuple_def split: sum.splits)
  have "rel_sem out bd' w t = (t \<in> ref_rule env schemas (?D w) (?N w) r)" for w t
  proof -
    have "rel_sem out bd' w t = (\<exists>e. states_sem states bd1 w e \<and> head_tuple env schemas ?h (fst e) = Some t)"
      unfolding o d using tuple by blast
    also have "\<dots> = (\<exists>e \<in> {e. states_sem states bd1 w e}. head_tuple env schemas ?h (fst e) = Some t)" by blast
    finally show ?thesis unfolding ref_rule_def using b by simp
  qed
  then show ?thesis using extends_trans [OF extends_trans [OF e1 e2] e3] ro reports by (simp add: set_eq_iff)
qed

end
