(* ===== verification/Provenance_Correct.thy ===== *)
theory Provenance_Correct
  imports Provenance_Rule
begin

text \<open>
  The possible-worlds meaning of extraction. In one world the relations are sets of tuples, and a
  component is evaluated to the least extension of what lies below it: the semi-naive iteration over
  formulas (\<open>xlog-prob/src/provenance.rs\<close>) is correct in all worlds at once. The whole program then has,
  in every world, the stratified model over the base tuples of the world.
\<close>

section \<open>Rules over databases\<close>

lemma ref_literal_mono:
  assumes "\<And>a. l = Positive a \<Longrightarrow> D (predicate a) \<subseteq> D' (predicate a)"
    and "\<And>a. l = Negated a \<Longrightarrow> N (predicate a) = N' (predicate a)"
  shows "ref_literal env schemas D N l e \<subseteq> ref_literal env schemas D' N' l e"
  using assms by (cases l) auto

lemma ref_body_mono:
  "E \<subseteq> E' \<Longrightarrow>
    (\<And>k a. k < length ls \<Longrightarrow> ls ! k = Positive a \<Longrightarrow> D (i + k) (predicate a) \<subseteq> D' (i + k) (predicate a)) \<Longrightarrow>
    (\<And>a. Negated a \<in> set ls \<Longrightarrow> N (predicate a) = N' (predicate a)) \<Longrightarrow>
    ref_body env schemas D N i ls E \<subseteq> ref_body env schemas D' N' i ls E'"
proof (induction ls arbitrary: i E E')
  case (Cons l ls)
  have lit: "ref_literal env schemas (D i) N l e \<subseteq> ref_literal env schemas (D' i) N' l e" for e
    by (rule ref_literal_mono) (use Cons.prems(2) [of 0] Cons.prems(3) in auto)
  have "(\<Union>e\<in>E. ref_literal env schemas (D i) N l e) \<subseteq> (\<Union>e\<in>E'. ref_literal env schemas (D' i) N' l e)"
    using lit Cons.prems(1) by fast
  moreover have "D (Suc i + k) (predicate a) \<subseteq> D' (Suc i + k) (predicate a)"
    if "k < length ls" and "ls ! k = Positive a" for k a
    using Cons.prems(2) [of "Suc k" a] that by simp
  ultimately show ?case unfolding ref_body.simps
    by (rule Cons.IH) (use Cons.prems(3) in auto)
qed simp

lemma ref_body_Un:
  "ref_body env schemas D N i ls (A \<union> B) = ref_body env schemas D N i ls A \<union> ref_body env schemas D N i ls B"
  by (induction ls arbitrary: i A B) auto

text \<open>
  A result over \<open>G \<union> \<Delta>\<close> is a result over \<open>G\<close>, or some positive literal of the body reads a tuple of \<open>\<Delta>\<close>.\<close>

lemma ref_body_split:
  assumes F: "\<And>p. F p = G p \<union> \<Delta> p"
  shows "e \<in> ref_body env schemas (\<lambda>_. F) N i ls E \<Longrightarrow>
    e \<in> ref_body env schemas (\<lambda>_. G) N i ls E
    \<or> (\<exists>k a. k < length ls \<and> ls ! k = Positive a
        \<and> e \<in> ref_body env schemas (\<lambda>j. if j = i + k then \<Delta> else F) N i ls E)"
proof (induction ls arbitrary: i E)
  case (Cons l ls)
  let ?next = "\<lambda>D. \<Union>e \<in> E. ref_literal env schemas D N l e"
  have e: "e \<in> ref_body env schemas (\<lambda>_. F) N (Suc i) ls (?next F)" using Cons.prems by simp
  consider (old) "e \<in> ref_body env schemas (\<lambda>_. G) N (Suc i) ls (?next F)"
    | (later) k a where "k < length ls" "ls ! k = Positive a"
        "e \<in> ref_body env schemas (\<lambda>j. if j = Suc i + k then \<Delta> else F) N (Suc i) ls (?next F)"
    using Cons.IH [OF e] by blast
  then show ?case
  proof cases
    case later
    then have "Suc k < length (l # ls) \<and> (l # ls) ! Suc k = Positive a
        \<and> e \<in> ref_body env schemas (\<lambda>j. if j = i + Suc k then \<Delta> else F) N i (l # ls) E" by simp
    then show ?thesis by blast
  next
    case old
    show ?thesis
    proof (cases "\<exists>a. l = Positive a")
      case False
      then have "ref_literal env schemas F N l e' = ref_literal env schemas G N l e'" for e' by (cases l) auto
      then show ?thesis using old by simp
    next
      case True
      then obtain a where l: "l = Positive a" by blast
      have "?next F = ?next G \<union> ?next \<Delta>" by (auto simp: l F)
      then consider "e \<in> ref_body env schemas (\<lambda>_. G) N (Suc i) ls (?next G)"
        | "e \<in> ref_body env schemas (\<lambda>_. G) N (Suc i) ls (?next \<Delta>)"
        using old ref_body_Un by fastforce
      then show ?thesis
      proof cases
        case 2
        have "ref_body env schemas (\<lambda>_. G) N (Suc i) ls (?next \<Delta>)
            \<subseteq> ref_body env schemas (\<lambda>j. if j = i + 0 then \<Delta> else F) N (Suc i) ls (?next \<Delta>)"
          by (rule ref_body_mono) (auto simp: F)
        then have "e \<in> ref_body env schemas (\<lambda>j. if j = i + 0 then \<Delta> else F) N i (l # ls) E"
          using 2 by auto
        then show ?thesis using l by (intro disjI2 exI [of _ 0]) auto
      qed simp
    qed
  qed
qed simp

definition consequences :: "prob_env \<Rightarrow> schemas \<Rightarrow> database \<Rightarrow> rule \<Rightarrow> pvalue list set" where
  "consequences env schemas D r = ref_rule env schemas (\<lambda>_. D) D r"

definition negated_predicates :: "rule list \<Rightarrow> string set" where
  "negated_predicates rs = {predicate a | a r. r \<in> set rs \<and> Negated a \<in> set (body r)}"

lemma ref_rule_mono:
  assumes "\<And>k a. k < length (body r) \<Longrightarrow> body r ! k = Positive a \<Longrightarrow> D k (predicate a) \<subseteq> D' k (predicate a)"
    and "\<And>a. Negated a \<in> set (body r) \<Longrightarrow> N (predicate a) = N' (predicate a)"
  shows "ref_rule env schemas D N r \<subseteq> ref_rule env schemas D' N' r"
proof -
  have "ref_body env schemas D N 0 (body r) {([], Map.empty)} \<subseteq> ref_body env schemas D' N' 0 (body r) {([], Map.empty)}"
    by (rule ref_body_mono) (use assms in simp_all)
  then show ?thesis by (auto simp: ref_rule_def)
qed

lemma ref_rule_split:
  assumes "\<And>p. F p = G p \<union> \<Delta> p" and "t \<in> ref_rule env schemas (\<lambda>_. F) N r"
  shows "t \<in> ref_rule env schemas (\<lambda>_. G) N r
    \<or> (\<exists>k a. k < length (body r) \<and> body r ! k = Positive a
        \<and> t \<in> ref_rule env schemas (\<lambda>j. if j = k then \<Delta> else F) N r)"
proof -
  let ?E = "{([], Map.empty)}"
  obtain e where h: "head_tuple env schemas (head r) (fst e) = Some t"
    and "e \<in> ref_body env schemas (\<lambda>_. F) N 0 (body r) ?E" using assms(2) unfolding ref_rule_def by blast
  from ref_body_split [of F G \<Delta>, OF assms(1) this(2)]
  have "e \<in> ref_body env schemas (\<lambda>_. G) N 0 (body r) ?E
    \<or> (\<exists>k a. k < length (body r) \<and> body r ! k = Positive a
        \<and> e \<in> ref_body env schemas (\<lambda>j. if j = k then \<Delta> else F) N 0 (body r) ?E)" by simp
  then show ?thesis using h unfolding ref_rule_def by blast
qed

text \<open>A literal that reads an empty relation has no result.\<close>

lemma ref_body_blocked:
  "k < length ls \<Longrightarrow> ls ! k = Positive a \<Longrightarrow> D (i + k) (predicate a) = {} \<Longrightarrow> ref_body env schemas D N i ls E = {}"
proof (induction ls arbitrary: i k E)
  case (Cons l ls)
  show ?case
  proof (cases k)
    case 0
    then show ?thesis using Cons.prems by simp
  next
    case (Suc m)
    then show ?thesis unfolding ref_body.simps using Cons.prems by (intro Cons.IH [of m]) simp_all
  qed
qed simp

section \<open>Adding derived tuples\<close>

lemma add_relation_sem:
  assumes ok: "builder_ok bd" and rel: "rel_ok rel bd" and ts: "rel_ok derived bd"
    and run: "fold_res add_tuple derived (rel, bd) = Inr (rel', bd')"
  shows "extends bd bd' \<and> rel_ok rel' bd'
    \<and> (\<forall>w t. rel_sem rel' bd' w t = (rel_sem rel bd w t \<or> rel_sem derived bd w t))"
proof -
  have "add_tuple = (\<lambda>(t, f) (rel, bd). insert_formula rel (id t) f bd)" by (simp add: add_tuple_def)
  then have "fold_res (\<lambda>(t, f) (rel, bd). insert_formula rel (id t) f bd) derived (rel, bd) = Inr (rel', bd')"
    using run by simp
  note sem = add_tuples_sem [OF ok rel _ this]
  have "\<forall>(t, f) \<in> set derived. in_graph bd f" using ts by (auto simp: rel_ok_def)
  from sem [OF this] show ?thesis by (simp add: rel_sem_def [of derived])
qed

lemma rel_ok_update:
  assumes rel: "rel_ok rel bd" and i: "in_graph bd i"
  shows "rel_ok (bt_insert t i rel) bd"
proof -
  have bt: "bt_ok rel" "bt_ok (bt_insert t i rel)" using rel by (simp_all add: rel_ok_def)
  have "in_graph bd j" if "(t', j) \<in> set (bt_insert t i rel)" for t' j
  proof (cases "t' = t")
    case False
    then have "(t', j) \<in> set rel" using that unfolding bt_ok_lookup [OF bt(1), symmetric] bt_ok_lookup [OF bt(2), symmetric] by simp
    then show ?thesis using rel by (simp add: rel_ok_def)
  next
    case True
    then have "map_of (bt_insert t i rel) t = Some j" using that bt_ok_lookup [OF bt(2)] by blast
    then show ?thesis using i by simp
  qed
  then show ?thesis using bt by (simp add: rel_ok_def)
qed

lemma rel_sem_update:
  "rel_ok rel bd \<Longrightarrow> in_graph bd i \<Longrightarrow>
    rel_sem (bt_insert t i rel) bd w t' = (if t' = t then sat bd w i else rel_sem rel bd w t')"
  by (simp add: rel_sem_lookup rel_ok_update)

text \<open>
  One derived formula: the full relation grows by it, and the changes by what was missing. When the
  disjunction is the old formula, the proof already implies it in every world.\<close>

lemma merge_derived_sem:
  assumes ok: "builder_ok bd0" and ext: "extends bd0 bd" and full: "rel_ok full bd" and delta: "rel_ok delta bd"
    and f: "in_graph bd0 f" and run: "merge_derived (tuple, f) ((full, delta), bd) = Inr ((full', delta'), bd')"
  shows "extends bd bd'" and "rel_ok full' bd'" and "rel_ok delta' bd'"
    and "rel_sem full' bd' w t = (rel_sem full bd w t \<or> t = tuple \<and> sat bd0 w f)"
    and "rel_sem delta bd w t \<Longrightarrow> rel_sem delta' bd' w t"
    and "rel_sem delta' bd' w t \<Longrightarrow> rel_sem delta bd w t \<or> t = tuple \<and> sat bd0 w f"
    and "rel_sem full' bd' w t \<Longrightarrow> rel_sem full bd w t \<or> rel_sem delta' bd' w t"
proof -
  have okb: "builder_ok bd" using ext by (rule extends_ok)
  have fb: "in_graph bd f" by (rule extends_in_graph [OF ext f])
  have fsat: "sat bd w f = sat bd0 w f" for w by (rule extends_sat [OF ok ext f])
  define old where "old = (case map_of full tuple of Some i \<Rightarrow> i | None \<Rightarrow> bconst_false bd)"
  have old: "in_graph bd old" "\<And>w. sat bd w old = rel_sem full bd w tuple"
  proof -
    show "in_graph bd old"
      using full bsem_consts [OF okb] bt_ok_lookup [of full] by (auto simp: old_def rel_ok_def split: option.split)
    show "sat bd w old = rel_sem full bd w tuple" for w
      using bsem_consts [OF okb] by (simp add: rel_sem_lookup [OF full] old_def sat_def split: option.split)
  qed
  obtain c bd1 where c: "build_or [old, f] bd = Some (c, bd1)"
    and rest: "(if c \<noteq> old
        then map_res (\<lambda>(delta', bd'). ((bt_insert tuple c full, delta'), bd')) (insert_formula delta tuple f bd1)
        else Inr ((full, delta), bd1)) = Inr ((full', delta'), bd')"
    using run by (auto simp: merge_derived_def old_def [symmetric] Let_def bind_res_Inr_iff)
  have y: "yields bd (c, bd1) (\<lambda>w. \<exists>d \<in> set [old, f]. sat bd w d)"
    by (rule yields_or [OF okb _ c]) (use old fb in simp)
  note e1 = yieldsD(1) [OF y]
  have csat: "sat bd1 w c = (rel_sem full bd w tuple \<or> sat bd0 w f)" for w
    using yieldsD(3) [OF y] old(2) fsat by simp
  have full1: "rel_ok full bd1" by (rule rel_ok_extends [OF full e1])
  have delta1: "rel_ok delta bd1" by (rule rel_ok_extends [OF delta e1])
  have same: "rel_sem full bd1 w t = rel_sem full bd w t" "rel_sem delta bd1 w t = rel_sem delta bd w t" for w t
    by (rule rel_sem_extends [OF okb e1 full], rule rel_sem_extends [OF okb e1 delta])
  have "extends bd bd' \<and> rel_ok full' bd' \<and> rel_ok delta' bd'
      \<and> (\<forall>w t. rel_sem full' bd' w t = (rel_sem full bd w t \<or> t = tuple \<and> sat bd0 w f))
      \<and> (\<forall>w t. rel_sem delta bd w t \<longrightarrow> rel_sem delta' bd' w t)
      \<and> (\<forall>w t. rel_sem delta' bd' w t \<longrightarrow> rel_sem delta bd w t \<or> t = tuple \<and> sat bd0 w f)
      \<and> (\<forall>w t. rel_sem full' bd' w t \<longrightarrow> rel_sem full bd w t \<or> rel_sem delta' bd' w t)"
  proof (cases "c = old")
    case True
    then have eqs: "full' = full" "delta' = delta" "bd' = bd1" using rest by simp_all
    have "sat bd0 w f \<Longrightarrow> rel_sem full bd w tuple" for w
      using csat [of w] extends_sat [OF okb e1 old(1)] old(2) [of w] True by simp
    then show ?thesis unfolding eqs same using e1 full1 delta1 by blast
  next
    case False
    then have i: "insert_or delta tuple f bd1 = Some (delta', bd')" and full': "full' = bt_insert tuple c full"
      using rest by (auto simp: insert_formula_def map_res_Inr_iff)
    note ins = insert_or_sem [OF extends_ok [OF e1] delta1 extends_in_graph [OF e1 fb] i]
    have f1: "sat bd1 w f = sat bd0 w f" for w using extends_sat [OF okb e1 fb] fsat by simp
    have full2: "rel_ok full bd'" by (rule rel_ok_extends [OF full1 ins(1)])
    have c2: "in_graph bd' c" by (rule extends_in_graph [OF ins(1) yieldsD(2) [OF y]])
    have "rel_sem full' bd' w t = (rel_sem full bd w t \<or> t = tuple \<and> sat bd0 w f)" for w t
      using rel_sem_update [OF full2 c2] extends_sat [OF extends_ok [OF e1] ins(1) yieldsD(2) [OF y]] csat
        rel_sem_extends [OF extends_ok [OF e1] ins(1) full1] same by (simp add: full')
    then show ?thesis
      using extends_trans [OF e1 ins(1)] rel_ok_update [OF full2 c2] ins(2,3) same f1 by (simp add: full')
  qed
  then show "extends bd bd'" "rel_ok full' bd'" "rel_ok delta' bd'"
    "rel_sem full' bd' w t = (rel_sem full bd w t \<or> t = tuple \<and> sat bd0 w f)"
    "rel_sem delta bd w t \<Longrightarrow> rel_sem delta' bd' w t"
    "rel_sem delta' bd' w t \<Longrightarrow> rel_sem delta bd w t \<or> t = tuple \<and> sat bd0 w f"
    "rel_sem full' bd' w t \<Longrightarrow> rel_sem full bd w t \<or> rel_sem delta' bd' w t" by simp_all
qed

lemma merge_all_sem:
  assumes "fold_res merge_derived ts ((full, delta), bd) = Inr ((full', delta'), bd')"
    and ok: "builder_ok bd0" and "extends bd0 bd" and "rel_ok full bd" and "rel_ok delta bd"
    and ts: "\<forall>(t, f) \<in> set ts. in_graph bd0 f"
  shows "extends bd bd' \<and> rel_ok full' bd' \<and> rel_ok delta' bd' \<and> (\<forall>w t.
      rel_sem full' bd' w t = (rel_sem full bd w t \<or> (\<exists>f. (t, f) \<in> set ts \<and> sat bd0 w f))
      \<and> (rel_sem delta bd w t \<longrightarrow> rel_sem delta' bd' w t)
      \<and> (rel_sem delta' bd' w t \<longrightarrow> rel_sem delta bd w t \<or> (\<exists>f. (t, f) \<in> set ts \<and> sat bd0 w f))
      \<and> (rel_sem full' bd' w t \<longrightarrow> rel_sem full bd w t \<or> rel_sem delta' bd' w t))"
  using assms
proof (induction ts arbitrary: full delta bd)
  case Nil
  then show ?case by (simp add: extends_ok)
next
  case (Cons x ts)
  obtain tuple f where x: "x = (tuple, f)" by (cases x)
  obtain full1 delta1 bd1 where one: "merge_derived (tuple, f) ((full, delta), bd) = Inr ((full1, delta1), bd1)"
    and rest: "fold_res merge_derived ts ((full1, delta1), bd1) = Inr ((full', delta'), bd')"
    using Cons.prems(1) by (auto simp: x bind_res_Inr_iff)
  have f: "in_graph bd0 f" using Cons.prems(6) x by simp
  note m = merge_derived_sem [OF ok Cons.prems(3-5) f one]
  have IH: "extends bd1 bd' \<and> rel_ok full' bd' \<and> rel_ok delta' bd' \<and> (\<forall>w t.
      rel_sem full' bd' w t = (rel_sem full1 bd1 w t \<or> (\<exists>f. (t, f) \<in> set ts \<and> sat bd0 w f))
      \<and> (rel_sem delta1 bd1 w t \<longrightarrow> rel_sem delta' bd' w t)
      \<and> (rel_sem delta' bd' w t \<longrightarrow> rel_sem delta1 bd1 w t \<or> (\<exists>f. (t, f) \<in> set ts \<and> sat bd0 w f))
      \<and> (rel_sem full' bd' w t \<longrightarrow> rel_sem full1 bd1 w t \<or> rel_sem delta' bd' w t))"
    by (rule Cons.IH [OF rest ok extends_trans [OF Cons.prems(3) m(1)] m(2,3)]) (use Cons.prems(6) in simp)
  have "extends bd bd'" using extends_trans [OF m(1)] IH by blast
  moreover have "rel_sem full' bd' w t = (rel_sem full bd w t \<or> (\<exists>f. (t, f) \<in> set (x # ts) \<and> sat bd0 w f))" for w t
    using m(4) [of w t] IH by (auto simp: x)
  moreover have "rel_sem delta bd w t \<Longrightarrow> rel_sem delta' bd' w t" for w t using m(5) [of w t] IH by blast
  moreover have "rel_sem delta' bd' w t \<Longrightarrow> rel_sem delta bd w t \<or> (\<exists>f. (t, f) \<in> set (x # ts) \<and> sat bd0 w f)" for w t
    using m(6) [of w t] IH by (auto simp: x)
  moreover have "rel_sem full' bd' w t \<Longrightarrow> rel_sem full bd w t \<or> rel_sem delta' bd' w t" for w t
    using m(7) [of w t] IH by blast
  ultimately show ?case using IH by blast
qed

section \<open>Rounds of the iteration\<close>

text \<open>
  A round starts from the databases \<open>G w\<close> with no changes; what the full relations hold beyond \<open>G w\<close> is
  in the changes. The component's relations are read from \<open>full\<close>, the others from \<open>store\<close>.\<close>

definition full_world ::
    "relation_store \<Rightarrow> relation_store \<Rightarrow> pir_builder \<Rightarrow> valuation \<Rightarrow> database" where
  "full_world store full bd w = rel_world (current_relation store full) bd w"

definition store_world :: "relation_store \<Rightarrow> pir_builder \<Rightarrow> valuation \<Rightarrow> database" where
  "store_world store bd w = rel_world (store_relation store) bd w"

definition round_ok ::
    "relation_store \<Rightarrow> string list \<Rightarrow> pir_builder \<Rightarrow> relation_store \<Rightarrow> relation_store \<Rightarrow> pir_builder \<Rightarrow> bool" where
  "round_ok store scc bd0 full delta bd =
     (builder_ok bd0 \<and> store_ok store bd0 \<and> extends bd0 bd \<and> store_ok full bd \<and> store_ok delta bd
      \<and> dom (map_of full) = set scc \<and> dom (map_of delta) \<subseteq> set scc)"

definition round_sum ::
    "relation_store \<Rightarrow> relation_store \<Rightarrow> relation_store \<Rightarrow> pir_builder \<Rightarrow> (valuation \<Rightarrow> database) \<Rightarrow> bool" where
  "round_sum store full delta bd G =
     (\<forall>w p. full_world store full bd w p = G w p \<union> store_world delta bd w p)"

lemma full_world_mem: "t \<in> full_world store full bd w p = rel_sem (current_relation store full p) bd w t"
  by (simp add: full_world_def rel_world_def)

lemma store_world_mem: "t \<in> store_world store bd w p = rel_sem (store_relation store p) bd w t"
  by (simp add: store_world_def rel_world_def)

lemma round_okD:
  assumes "round_ok store scc bd0 full delta bd"
  shows "builder_ok bd0" and "builder_ok bd" and "store_ok store bd" and "store_ok full bd" and "store_ok delta bd"
    and "extends bd0 bd" and "store_ok store bd0"
  using assms store_ok_extends [of store bd0 bd] extends_ok [of bd0 bd] by (auto simp: round_ok_def)

lemma round_inputs:
  "round_ok store scc bd0 full delta bd \<Longrightarrow> inputs_ok store full None bd"
  "round_ok store scc bd0 full delta bd \<Longrightarrow> inputs_ok store full (Some (k, delta)) bd"
  using round_okD [of store scc bd0 full delta bd] by (simp_all add: inputs_ok_def)

lemma current_rel_ok: "round_ok store scc bd0 full delta bd \<Longrightarrow> rel_ok (current_relation store full p) bd"
  by (rule current_ok [OF round_inputs(1)])

text \<open>A rule's output enters the state.\<close>

lemma merge_rule_output_step:
  assumes ok: "round_ok store scc bd0 full delta bd" and p: "p \<in> set scc"
    and ext: "extends bd bd1" and der: "rel_ok derived bd1"
    and run: "merge_rule_output p (derived, bd1, reports) (full, delta) = Inr (full', delta', bd', reports')"
  shows "round_ok store scc bd0 full' delta' bd'" and "extends bd bd'" and "reports' = reports"
    and "full_world store full' bd' w q
      = full_world store full bd w q \<union> (if q = p then {t. rel_sem derived bd1 w t} else {})"
    and "store_world delta bd w q \<subseteq> store_world delta' bd' w q"
    and "store_world delta' bd' w q \<subseteq> store_world delta bd w q \<union> full_world store full' bd' w q"
    and "full_world store full' bd' w q \<subseteq> full_world store full bd w q \<union> store_world delta' bd' w q"
proof -
  have okb: "builder_ok bd" and ok1: "builder_ok bd1" using round_okD [OF ok] ext extends_ok by blast+
  have grow: "rel_sem (current_relation store full q) bd'' w t = rel_sem (current_relation store full q) bd w t"
    "rel_sem (store_relation delta q) bd'' w t = rel_sem (store_relation delta q) bd w t"
    if "extends bd bd''" for bd'' q w t
    using rel_sem_extends [OF okb that current_rel_ok [OF ok]]
      rel_sem_extends [OF okb that store_ok_relation [OF round_okD(5) [OF ok]]] by blast+
  have "round_ok store scc bd0 full' delta' bd' \<and> extends bd bd' \<and> reports' = reports \<and> (\<forall>w q.
      full_world store full' bd' w q = full_world store full bd w q \<union> (if q = p then {t. rel_sem derived bd1 w t} else {})
      \<and> store_world delta bd w q \<subseteq> store_world delta' bd' w q
      \<and> store_world delta' bd' w q \<subseteq> store_world delta bd w q \<union> full_world store full' bd' w q
      \<and> full_world store full' bd' w q \<subseteq> full_world store full bd w q \<union> store_world delta' bd' w q)"
  proof (cases "derived = []")
    case True
    then have eqs: "full' = full" "delta' = delta" "bd' = bd1" "reports' = reports"
      using run by (simp_all add: merge_rule_output_def)
    have "round_ok store scc bd0 full delta bd1"
      using ok ext round_okD [OF ok] store_ok_extends extends_trans unfolding round_ok_def by blast
    then show ?thesis using grow [OF ext] True ext
      by (auto simp: eqs full_world_mem store_world_mem)
  next
    case False
    obtain full_rel delta_rel where m: "fold_res merge_derived derived
          ((store_relation full p, store_relation delta p), bd1) = Inr ((full_rel, delta_rel), bd')"
      and full': "full' = bt_insert p full_rel full" and delta': "delta' = bt_insert p delta_rel delta"
      and reports: "reports' = reports"
      using run False by (auto simp: merge_rule_output_def map_res_Inr_iff)
    have cur: "current_relation store full p = store_relation full p"
      using ok p by (auto simp: round_ok_def current_relation_def store_relation_def split: option.split)
    have rels: "rel_ok (store_relation full p) bd1" "rel_ok (store_relation delta p) bd1"
      using store_ok_relation store_ok_extends round_okD(4,5) [OF ok] ext by blast+
    have ts: "\<forall>(t, f) \<in> set derived. in_graph bd1 f" using der by (auto simp: rel_ok_def)
    note sem = merge_all_sem [OF m ok1 extends_refl [OF ok1] rels ts]
    have e2: "extends bd bd'" using extends_trans [OF ext] sem by blast
    have ok': "round_ok store scc bd0 full' delta' bd'"
      using ok p sem round_okD [OF ok] store_ok_extends [OF _ e2] extends_trans [OF _ e2]
      by (auto simp: round_ok_def full' delta' intro!: store_ok_insert)
    have reads: "current_relation store full' q = (if q = p then full_rel else current_relation store full q)"
      "store_relation delta' q = (if q = p then delta_rel else store_relation delta q)" for q
      by (simp_all add: full' delta' current_relation_def store_relation_insert)
    have derived: "rel_sem derived bd1 w t = (\<exists>f. (t, f) \<in> set derived \<and> sat bd1 w f)" for w t
      by (simp add: rel_sem_def)
    have at_p: "rel_sem full_rel bd' w t = (rel_sem (current_relation store full p) bd w t \<or> rel_sem derived bd1 w t)"
      "rel_sem (store_relation delta p) bd w t \<Longrightarrow> rel_sem delta_rel bd' w t"
      "rel_sem delta_rel bd' w t \<Longrightarrow> rel_sem (store_relation delta p) bd w t \<or> rel_sem derived bd1 w t"
      "rel_sem full_rel bd' w t \<Longrightarrow> rel_sem (current_relation store full p) bd w t \<or> rel_sem delta_rel bd' w t" for w t
      using sem grow [OF ext, of p] unfolding cur derived by blast+
    show ?thesis
    proof (intro conjI allI)
      fix w q
      show "full_world store full' bd' w q
          = full_world store full bd w q \<union> (if q = p then {t. rel_sem derived bd1 w t} else {})"
        using at_p(1) grow(1) [OF e2] by (auto simp: full_world_mem reads)
      show "store_world delta bd w q \<subseteq> store_world delta' bd' w q"
        using at_p(2) grow(2) [OF e2] by (auto simp: store_world_mem reads)
      show "store_world delta' bd' w q \<subseteq> store_world delta bd w q \<union> full_world store full' bd' w q"
        using at_p(1) grow(2) [OF e2] by (cases "q = p") (auto simp: full_world_mem store_world_mem reads dest!: at_p(3))
      show "full_world store full' bd' w q \<subseteq> full_world store full bd w q \<union> store_world delta' bd' w q"
        using grow(1) [OF e2] by (cases "q = p") (auto simp: full_world_mem store_world_mem reads dest!: at_p(4))
    qed (use ok' e2 reports in simp_all)
  qed
  then show "round_ok store scc bd0 full' delta' bd'" and "extends bd bd'" and "reports' = reports"
    and "full_world store full' bd' w q
      = full_world store full bd w q \<union> (if q = p then {t. rel_sem derived bd1 w t} else {})"
    and "store_world delta bd w q \<subseteq> store_world delta' bd' w q"
    and "store_world delta' bd' w q \<subseteq> store_world delta bd w q \<union> full_world store full' bd' w q"
    and "full_world store full' bd' w q \<subseteq> full_world store full bd w q \<union> store_world delta' bd' w q" by blast+
qed

lemma round_sum_step:
  assumes sum: "round_sum store full delta bd G" and ok: "round_ok store scc bd0 full delta bd" and p: "p \<in> set scc"
    and ext: "extends bd bd1" and der: "rel_ok derived bd1"
    and run: "merge_rule_output p (derived, bd1, reports) (full, delta) = Inr (full', delta', bd', reports')"
  shows "round_sum store full' delta' bd' G"
proof -
  note step = merge_rule_output_step [OF ok p ext der run]
  have "full_world store full' bd' w q = G w q \<union> store_world delta' bd' w q" for w q
    using sum [unfolded round_sum_def, rule_format, of w q] step(4-7) [of w q] by blast
  then show ?thesis by (simp add: round_sum_def)
qed

section \<open>One round\<close>

definition closed_under :: "prob_env \<Rightarrow> schemas \<Rightarrow> rule list \<Rightarrow> database \<Rightarrow> bool" where
  "closed_under env schemas rs Y = (\<forall>r \<in> set rs. consequences env schemas Y r \<subseteq> Y (predicate (head r)))"

definition rule_heads :: "rule list \<Rightarrow> string set" where
  "rule_heads rs = (\<lambda>r. predicate (head r)) ` set rs"

definition rises :: "string set \<Rightarrow> database \<Rightarrow> database \<Rightarrow> bool" where
  "rises H X Y = (X \<le> Y \<and> (\<forall>p. p \<notin> H \<longrightarrow> Y p = X p))"

definition candidate :: "prob_env \<Rightarrow> schemas \<Rightarrow> rule list \<Rightarrow> database \<Rightarrow> database \<Rightarrow> bool" where
  "candidate env schemas rs X Y = (rises (rule_heads rs) X Y \<and> closed_under env schemas rs Y)"

definition component_model :: "prob_env \<Rightarrow> schemas \<Rightarrow> rule list \<Rightarrow> database \<Rightarrow> database \<Rightarrow> bool" where
  "component_model env schemas rs X Y =
     (candidate env schemas rs X Y \<and> (\<forall>Z. candidate env schemas rs X Z \<longrightarrow> Y \<le> Z))"

lemma rises_trans: "rises H X Y \<Longrightarrow> rises H Y Z \<Longrightarrow> rises H X Z"
  unfolding rises_def using order_trans by fastforce

text \<open>
  What all rounds share: every rule adds a set of tuples for its head, which contains a lower bound
  \<open>least\<close> and stays below every good database above the state.\<close>

definition rule_step ::
    "relation_store \<Rightarrow> string list \<Rightarrow> pir_builder \<Rightarrow> string set \<Rightarrow> (valuation \<Rightarrow> database)
     \<Rightarrow> (valuation \<Rightarrow> database \<Rightarrow> bool) \<Rightarrow> (valuation \<Rightarrow> rule \<Rightarrow> pvalue list set)
     \<Rightarrow> rule \<Rightarrow> (semi_naive \<Rightarrow> prov_error + semi_naive) \<Rightarrow> bool" where
  "rule_step store scc bd0 H G good least r f =
     (\<forall>full delta bd reports full' delta' bd' reports'.
        round_ok store scc bd0 full delta bd \<longrightarrow> (\<forall>w. rises H (G w) (full_world store full bd w)) \<longrightarrow>
        f (full, delta, bd, reports) = Inr (full', delta', bd', reports') \<longrightarrow>
        (\<exists>derived bd1. extends bd bd1 \<and> rel_ok derived bd1
          \<and> merge_rule_output (predicate (head r)) (derived, bd1, reports) (full, delta) = Inr (full', delta', bd', reports')
          \<and> (\<forall>w. least w r \<subseteq> {t. rel_sem derived bd1 w t}
               \<and> (\<forall>Z. good w Z \<and> full_world store full bd w \<le> Z \<longrightarrow> {t. rel_sem derived bd1 w t} \<subseteq> Z (predicate (head r))))))"

lemma rule_stepD:
  assumes "rule_step store scc bd0 H G good least r f" and "round_ok store scc bd0 full delta bd"
    and "\<And>w. rises H (G w) (full_world store full bd w)" and "f (full, delta, bd, reports) = Inr (full', delta', bd', reports')"
  obtains derived bd1 where "extends bd bd1" and "rel_ok derived bd1"
    and "merge_rule_output (predicate (head r)) (derived, bd1, reports) (full, delta) = Inr (full', delta', bd', reports')"
    and "\<And>w. least w r \<subseteq> {t. rel_sem derived bd1 w t}"
    and "\<And>w Z. good w Z \<Longrightarrow> full_world store full bd w \<le> Z \<Longrightarrow> {t. rel_sem derived bd1 w t} \<subseteq> Z (predicate (head r))"
proof -
  have "\<forall>w. rises H (G w) (full_world store full bd w)" using assms(3) by simp
  from assms(1) [unfolded rule_step_def, rule_format, OF assms(2) this [rule_format] assms(4)]
  show thesis by (elim exE conjE) (rule that, auto)
qed

lemma round_fold:
  assumes "fold_res step rs (full, delta, bd, reports) = Inr (full', delta', bd', reports')"
    and "round_ok store scc bd0 full delta bd" and "round_sum store full delta bd G"
    and "\<And>w. rises H (G w) (full_world store full bd w)"
    and "rule_heads rs \<subseteq> H" and "H \<subseteq> set scc"
    and step: "\<And>r. r \<in> set rs \<Longrightarrow> rule_step store scc bd0 H G good least r (step r)"
  shows "round_ok store scc bd0 full' delta' bd' \<and> round_sum store full' delta' bd' G \<and> extends bd bd' \<and> reports' = reports
    \<and> (\<forall>w. rises H (full_world store full bd w) (full_world store full' bd' w)
        \<and> (\<forall>r \<in> set rs. least w r \<subseteq> full_world store full' bd' w (predicate (head r)))
        \<and> (\<forall>Z. good w Z \<and> full_world store full bd w \<le> Z \<longrightarrow> full_world store full' bd' w \<le> Z))"
  using assms
proof (induction rs arbitrary: full delta bd reports)
  case Nil
  then show ?case using round_okD(2) by (auto simp: rises_def)
next
  case (Cons r rs)
  obtain full1 delta1 bd1 reports1 where one: "step r (full, delta, bd, reports) = Inr (full1, delta1, bd1, reports1)"
    and rest: "fold_res step rs (full1, delta1, bd1, reports1) = Inr (full', delta', bd', reports')"
    using Cons.prems(1) by (auto simp: bind_res_Inr_iff)
  have p: "predicate (head r) \<in> H" "predicate (head r) \<in> set scc" and heads: "rule_heads rs \<subseteq> H"
    using Cons.prems(5,6) by (auto simp: rule_heads_def)
  obtain derived bdm where e: "extends bd bdm" and d: "rel_ok derived bdm"
    and m: "merge_rule_output (predicate (head r)) (derived, bdm, reports) (full, delta) = Inr (full1, delta1, bd1, reports1)"
    and below: "\<And>w. least w r \<subseteq> {t. rel_sem derived bdm w t}"
    and above: "\<And>w Z. good w Z \<Longrightarrow> full_world store full bd w \<le> Z \<Longrightarrow> {t. rel_sem derived bdm w t} \<subseteq> Z (predicate (head r))"
    by (rule rule_stepD [where G = G and H = H, OF Cons.prems(7) Cons.prems(2,4) one]) simp_all
  note s = merge_rule_output_step [OF Cons.prems(2) p(2) e d m]
  have grow: "rises H (full_world store full bd w) (full_world store full1 bd1 w)" for w
    unfolding rises_def le_fun_def s(4) using p by auto
  have IH: "round_ok store scc bd0 full' delta' bd' \<and> round_sum store full' delta' bd' G \<and> extends bd1 bd' \<and> reports' = reports1
    \<and> (\<forall>w. rises H (full_world store full1 bd1 w) (full_world store full' bd' w)
        \<and> (\<forall>r \<in> set rs. least w r \<subseteq> full_world store full' bd' w (predicate (head r)))
        \<and> (\<forall>Z. good w Z \<and> full_world store full1 bd1 w \<le> Z \<longrightarrow> full_world store full' bd' w \<le> Z))"
    by (rule Cons.IH [OF rest s(1) round_sum_step [OF Cons.prems(3,2) p(2) e d m]
          rises_trans [OF Cons.prems(4) grow] heads Cons.prems(6)]) (rule Cons.prems(7), simp)
  have "rises H (full_world store full bd w) (full_world store full' bd' w)" for w
    using rises_trans [OF grow] IH by blast
  moreover have "least w r \<subseteq> full_world store full' bd' w (predicate (head r))" for w
    using below [of w] s(4) [of w "predicate (head r)"] IH unfolding rises_def le_fun_def by fastforce
  moreover have "full_world store full' bd' w \<le> Z" if "good w Z" and "full_world store full bd w \<le> Z" for w Z
  proof -
    have "full_world store full1 bd1 w \<le> Z" using above [OF that] that(2) unfolding le_fun_def s(4) by simp
    then show ?thesis using IH that by blast
  qed
  ultimately show ?case using IH extends_trans [OF s(2)] s(3) by auto
qed

lemma world_reads:
  "(\<lambda>i. rel_world (read_relation store full None i) bd w) = (\<lambda>_. full_world store full bd w)"
  "rel_world (current_relation store full) bd w = full_world store full bd w"
  by (simp_all add: full_world_def read_relation_def fun_eq_iff rel_world_def)

definition stable_negation :: "string set \<Rightarrow> rule list \<Rightarrow> bool" where
  "stable_negation H rs = (negated_predicates rs \<inter> H = {})"

lemma stable_negationD:
  "stable_negation H rs \<Longrightarrow> r \<in> set rs \<Longrightarrow> Negated a \<in> set (body r) \<Longrightarrow> predicate a \<notin> H"
  unfolding stable_negation_def negated_predicates_def by blast

lemma consequences_rise:
  assumes "rises H X Y" and "stable_negation H rs" and "r \<in> set rs"
  shows "consequences env schemas X r \<subseteq> consequences env schemas Y r"
  unfolding consequences_def
  by (rule ref_rule_mono) (use assms stable_negationD [OF assms(2,3)] in \<open>auto simp: le_fun_def rises_def\<close>)

subsection \<open>The first round\<close>

lemma seed_step:
  assumes r: "r \<in> set rs" "\<not> has_aggregation r" and neg: "stable_negation (rule_heads rs) rs"
  shows "rule_step store scc bd0 (rule_heads rs) G (\<lambda>w. candidate env schemas rs (G w)) (\<lambda>w. consequences env schemas (G w))
      r (seed_rule_delta env schemas store r)"
  unfolding rule_step_def
proof (intro allI impI)
  fix full delta bd reports full' delta' bd' reports'
  assume ok: "round_ok store scc bd0 full delta bd" and rise: "\<forall>w. rises (rule_heads rs) (G w) (full_world store full bd w)"
    and run: "seed_rule_delta env schemas store r (full, delta, bd, reports) = Inr (full', delta', bd', reports')"
  obtain derived bd1 reports1 where e: "eval_rule env schemas r store full None bd reports = Inr (derived, bd1, reports1)"
    and m: "merge_rule_output (predicate (head r)) (derived, bd1, reports1) (full, delta) = Inr (full', delta', bd', reports')"
    using run by (auto simp: seed_rule_delta_def bind_res_Inr_iff)
  note sem = eval_rule_sem [OF round_okD(2) [OF ok] round_inputs(1) [OF ok] r(2) e, unfolded world_reads]
  have tuples: "{t. rel_sem derived bd1 w t} = consequences env schemas (full_world store full bd w) r" for w
    using sem by (simp add: consequences_def)
  have "consequences env schemas (G w) r \<subseteq> {t. rel_sem derived bd1 w t}" for w
    unfolding tuples using consequences_rise [OF _ neg r(1)] rise by blast
  moreover have "{t. rel_sem derived bd1 w t} \<subseteq> Z (predicate (head r))"
    if "candidate env schemas rs (G w) Z \<and> full_world store full bd w \<le> Z" for w Z
  proof -
    have "rises (rule_heads rs) (full_world store full bd w) Z"
      using that rise by (simp add: candidate_def rises_def)
    then show ?thesis unfolding tuples
      using consequences_rise [OF _ neg r(1)] that r(1) unfolding candidate_def closed_under_def by blast
  qed
  ultimately show "\<exists>derived bd1. extends bd bd1 \<and> rel_ok derived bd1
      \<and> merge_rule_output (predicate (head r)) (derived, bd1, reports) (full, delta) = Inr (full', delta', bd', reports')
      \<and> (\<forall>w. consequences env schemas (G w) r \<subseteq> {t. rel_sem derived bd1 w t}
          \<and> (\<forall>Z. candidate env schemas rs (G w) Z \<and> full_world store full bd w \<le> Z
              \<longrightarrow> {t. rel_sem derived bd1 w t} \<subseteq> Z (predicate (head r))))"
    using sem m by blast
qed

subsection \<open>The other rounds\<close>

definition delta_consequences ::
    "prob_env \<Rightarrow> schemas \<Rightarrow> database \<Rightarrow> database \<Rightarrow> nat \<Rightarrow> rule \<Rightarrow> pvalue list set" where
  "delta_consequences env schemas F \<Delta> k r = ref_rule env schemas (\<lambda>i. if i = k then \<Delta> else F) F r"

lemma delta_reads:
  "(\<lambda>i. rel_world (read_relation store full (Some (k, delta)) i) bd w)
    = (\<lambda>i. if i = k then store_world delta bd w else full_world store full bd w)"
  by (simp add: full_world_def store_world_def read_relation_def fun_eq_iff rel_world_def)

lemma changed_fold:
  assumes "fold_res (eval_changed_literal env schemas r store fp dp) ks (out, bd, reports) = Inr (out', bd', reports')"
    and ok: "builder_ok bd0" and inp: "\<And>k. inputs_ok store fp (Some (k, dp)) bd0" and agg: "\<not> has_aggregation r"
    and "extends bd0 bd" and "rel_ok out bd"
  shows "extends bd bd' \<and> rel_ok out' bd' \<and> reports' = reports \<and> (\<forall>w t. rel_sem out' bd' w t =
      (rel_sem out bd w t \<or> (\<exists>k \<in> set ks.
        t \<in> delta_consequences env schemas (full_world store fp bd0 w) (store_world dp bd0 w) k r)))"
  using assms
proof (induction ks arbitrary: out bd reports)
  case Nil
  then show ?case by (simp add: extends_ok)
next
  case (Cons k ks)
  obtain derived bd1 reports1 out2 bd2 where
      e: "eval_rule env schemas r store fp (Some (k, dp)) bd reports = Inr (derived, bd1, reports1)"
    and a: "fold_res add_tuple derived (out, bd1) = Inr (out2, bd2)"
    and rest: "fold_res (eval_changed_literal env schemas r store fp dp) ks (out2, bd2, reports1) = Inr (out', bd', reports')"
    using Cons.prems(1)
    by (auto simp: eval_changed_literal_def [of env schemas r store fp dp k] bind_res_Inr_iff map_res_Inr_iff)
  have okb: "builder_ok bd" using Cons.prems(5) by (rule extends_ok)
  have inpb: "inputs_ok store fp (Some (k, dp)) bd" by (rule inputs_ok_extends [OF inp Cons.prems(5)])
  have worlds: "full_world store fp bd w = full_world store fp bd0 w" "store_world dp bd w = store_world dp bd0 w" for w
    unfolding full_world_def store_world_def
    using rel_world_extends [OF ok Cons.prems(5)] current_ok [OF inp] inp store_ok_relation [of dp bd0]
    by (auto simp: inputs_ok_def)
  note sem = eval_rule_sem [OF okb inpb agg e, unfolded delta_reads world_reads(2) worlds]
  have e1: "extends bd bd1" and d1: "rel_ok derived bd1" using sem by blast+
  note add = add_relation_sem [OF extends_ok [OF e1] rel_ok_extends [OF Cons.prems(6) e1] d1 a]
  have e2: "extends bd bd2" using extends_trans [OF e1] add by blast
  have out1: "rel_sem out bd1 w t = rel_sem out bd w t" for w t by (rule rel_sem_extends [OF okb e1 Cons.prems(6)])
  have derived: "rel_sem derived bd1 w t
      = (t \<in> delta_consequences env schemas (full_world store fp bd0 w) (store_world dp bd0 w) k r)" for w t
    using sem unfolding delta_consequences_def by blast
  have IH: "extends bd2 bd' \<and> rel_ok out' bd' \<and> reports' = reports1 \<and> (\<forall>w t. rel_sem out' bd' w t =
      (rel_sem out2 bd2 w t \<or> (\<exists>k \<in> set ks.
        t \<in> delta_consequences env schemas (full_world store fp bd0 w) (store_world dp bd0 w) k r)))"
    by (rule Cons.IH [OF rest ok inp agg extends_trans [OF Cons.prems(5) e2]]) (use add in blast)
  then show ?case using extends_trans [OF e2] add out1 derived sem by auto
qed

lemma iterate_step:
  assumes r: "r \<in> set rs" "\<not> has_aggregation r" and neg: "stable_negation (rule_heads rs) rs"
    and start: "round_ok store scc bd00 fp dp bd0" and sum: "round_sum store fp dp bd0 G0"
    and rise: "\<And>w. rises (rule_heads rs) (X w) (full_world store fp bd0 w)"
  shows "rule_step store scc bd0 (rule_heads rs) (full_world store fp bd0) (\<lambda>w. candidate env schemas rs (X w))
      (\<lambda>w r. \<Union>k \<in> set (changed_literals scc dp r).
        delta_consequences env schemas (full_world store fp bd0 w) (store_world dp bd0 w) k r)
      r (iterate_rule env schemas scc store fp dp r)"
  unfolding rule_step_def
proof (intro allI impI)
  fix full delta bd reports full' delta' bd' reports'
  let ?F = "full_world store fp bd0" and ?D = "store_world dp bd0"
  assume ok: "round_ok store scc bd0 full delta bd" and up: "\<forall>w. rises (rule_heads rs) (?F w) (full_world store full bd w)"
    and run: "iterate_rule env schemas scc store fp dp r (full, delta, bd, reports) = Inr (full', delta', bd', reports')"
  obtain derived bd1 reports1 where
      f: "fold_res (eval_changed_literal env schemas r store fp dp) (changed_literals scc dp r) ([], bd, reports)
        = Inr (derived, bd1, reports1)"
    and m: "merge_rule_output (predicate (head r)) (derived, bd1, reports1) (full, delta) = Inr (full', delta', bd', reports')"
    using run by (auto simp: iterate_rule_def bind_res_Inr_iff)
  note sem = changed_fold [OF f round_okD(2) [OF start] round_inputs(2) [OF start] r(2) round_okD(6) [OF ok] rel_ok_Nil]
  have tuples: "{t. rel_sem derived bd1 w t}
      = (\<Union>k \<in> set (changed_literals scc dp r). delta_consequences env schemas (?F w) (?D w) k r)" for w
    using sem by auto
  have sub: "delta_consequences env schemas (?F w) (?D w) k r \<subseteq> consequences env schemas (?F w) r" for w k
    unfolding delta_consequences_def consequences_def
    by (rule ref_rule_mono) (use sum in \<open>auto simp: round_sum_def\<close>)
  have "{t. rel_sem derived bd1 w t} \<subseteq> Z (predicate (head r))"
    if "candidate env schemas rs (X w) Z \<and> full_world store full bd w \<le> Z" for w Z
  proof -
    have "?F w \<le> Z" using up that unfolding rises_def using order_trans by blast
    then have "rises (rule_heads rs) (?F w) Z" using that rise [of w] by (simp add: candidate_def rises_def)
    then have "consequences env schemas (?F w) r \<subseteq> Z (predicate (head r))"
      using consequences_rise [OF _ neg r(1)] that r(1) unfolding candidate_def closed_under_def by blast
    then show ?thesis unfolding tuples using sub by blast
  qed
  then show "\<exists>derived bd1. extends bd bd1 \<and> rel_ok derived bd1
      \<and> merge_rule_output (predicate (head r)) (derived, bd1, reports) (full, delta) = Inr (full', delta', bd', reports')
      \<and> (\<forall>w. (\<Union>k \<in> set (changed_literals scc dp r). delta_consequences env schemas (?F w) (?D w) k r)
            \<subseteq> {t. rel_sem derived bd1 w t}
          \<and> (\<forall>Z. candidate env schemas rs (X w) Z \<and> full_world store full bd w \<le> Z
              \<longrightarrow> {t. rel_sem derived bd1 w t} \<subseteq> Z (predicate (head r))))"
    using sem m tuples by blast
qed

text \<open>A literal that reads a change is among the changed literals, as its relation of changes is not empty.\<close>

lemma changed_literal_found:
  assumes "dom (map_of dp) \<subseteq> set scc" and "k < length (body r)" and "body r ! k = Positive a"
    and "t \<in> delta_consequences env schemas F (store_world dp bd w) k r"
  shows "k \<in> set (changed_literals scc dp r)"
proof -
  have "store_world dp bd w (predicate a) \<noteq> {}"
  proof
    assume "store_world dp bd w (predicate a) = {}"
    then have "ref_body env schemas (\<lambda>i. if i = k then store_world dp bd w else F) F 0 (body r) {([], Map.empty)} = {}"
      by (intro ref_body_blocked [OF assms(2,3)]) simp
    then show False using assms(4) by (simp add: delta_consequences_def ref_rule_def)
  qed
  then have ne: "store_relation dp (predicate a) \<noteq> []"
    by (auto simp: store_world_def rel_world_def)
  then have "predicate a \<in> set scc"
    using assms(1) by (auto simp: store_relation_def split: option.splits)
  then have "(k, body r ! k) \<in> set (filter (\<lambda>(i, l). case l of
      Positive a \<Rightarrow> predicate a \<in> set scc \<and> store_relation dp (predicate a) \<noteq> [] | _ \<Rightarrow> False) (indexed (body r)))"
    using assms(2,3) ne by (simp add: in_indexed_iff)
  then show ?thesis unfolding changed_literals_def by force
qed

section \<open>Components without negative cycles\<close>

lemma store_world_Nil: "store_world [] bd w p = {}"
  by (simp add: store_world_def rel_world_def store_relation_def)

lemma rises_refl [simp]: "rises H X X"
  by (simp add: rises_def)

lemma next_round_closed:
  assumes neg: "stable_negation (rule_heads rs) rs" and r: "r \<in> set rs" and delta: "dom (map_of dp) \<subseteq> set scc"
    and sum: "\<And>p. F p = G p \<union> store_world dp bd w p"
    and G: "rises (rule_heads rs) X G" "rises (rule_heads rs) X F"
    and old: "consequences env schemas G r \<subseteq> F (predicate (head r))"
    and up: "rises (rule_heads rs) F F'"
    and new: "(\<Union>k \<in> set (changed_literals scc dp r). delta_consequences env schemas F (store_world dp bd w) k r)
        \<subseteq> F' (predicate (head r))"
  shows "consequences env schemas F r \<subseteq> F' (predicate (head r))"
proof
  fix t assume "t \<in> consequences env schemas F r"
  then have "t \<in> ref_rule env schemas (\<lambda>_. F) F r" by (simp add: consequences_def)
  from ref_rule_split [of F G "store_world dp bd w", OF sum this]
  consider "t \<in> ref_rule env schemas (\<lambda>_. G) F r"
    | k a where "k < length (body r)" "body r ! k = Positive a"
        "t \<in> delta_consequences env schemas F (store_world dp bd w) k r"
    unfolding delta_consequences_def by blast
  then show "t \<in> F' (predicate (head r))"
  proof cases
    case 1
    have "F (predicate a) = G (predicate a)" if "Negated a \<in> set (body r)" for a
      using stable_negationD [OF neg r that] G by (simp add: rises_def)
    then have "ref_rule env schemas (\<lambda>_. G) F r \<subseteq> ref_rule env schemas (\<lambda>_. G) G r"
      by (intro ref_rule_mono) auto
    then have "t \<in> F (predicate (head r))" using 1 old unfolding consequences_def by blast
    then show ?thesis using up unfolding rises_def le_fun_def by blast
  next
    case 2
    then show ?thesis using changed_literal_found [OF delta 2] new by blast
  qed
qed

lemma semi_naive_loop_model:
  assumes "semi_naive_loop env schemas scc rs store n (full, delta, bd, reports) = Inr (full', bd', reports')"
    and ok: "round_ok store scc bd0 full delta bd" and sum: "round_sum store full delta bd G"
    and G: "\<And>w. rises (rule_heads rs) (X w) (G w)"
    and F: "\<And>w. rises (rule_heads rs) (X w) (full_world store full bd w)"
    and T: "\<And>w r. r \<in> set rs \<Longrightarrow> consequences env schemas (G w) r \<subseteq> full_world store full bd w (predicate (head r))"
    and sound: "\<And>w Z. candidate env schemas rs (X w) Z \<Longrightarrow> full_world store full bd w \<le> Z"
    and neg: "stable_negation (rule_heads rs) rs" and heads: "rule_heads rs \<subseteq> set scc"
    and agg: "\<forall>r \<in> set rs. \<not> has_aggregation r"
  shows "extends bd bd' \<and> store_ok full' bd' \<and> reports' = reports
    \<and> (\<forall>w. component_model env schemas rs (X w) (full_world store full' bd' w))"
  using assms
proof (induction n arbitrary: full delta bd reports bd0 G)
  case (Suc n)
  note ok = Suc.prems(2) and sum = Suc.prems(3)
  show ?case
  proof (cases "list_all (\<lambda>(_, rel). rel = []) delta")
    case True
    then have eqs: "full' = full" "bd' = bd" "reports' = reports" using Suc.prems(1) by simp_all
    have "store_relation delta p = []" for p
      using True by (auto simp: store_relation_def list_all_iff split: option.split dest: map_of_SomeD)
    then have "store_world delta bd w p = {}" for w p by (simp add: store_world_def rel_world_def)
    then have "full_world store full bd w = G w" for w using sum by (simp add: round_sum_def fun_eq_iff)
    then have "candidate env schemas rs (X w) (full_world store full bd w)" for w
      using Suc.prems(5) [of w] Suc.prems(6) [of _ w] by (simp add: candidate_def closed_under_def)
    then show ?thesis unfolding eqs component_model_def
      using Suc.prems(7) round_okD [OF ok] ok by (auto simp: round_ok_def)
  next
    case False
    obtain full1 delta1 bd1 reports1 where
        f: "fold_res (iterate_rule env schemas scc store full delta) rs (full, [], bd, reports) = Inr (full1, delta1, bd1, reports1)"
      and rest: "semi_naive_loop env schemas scc rs store n (full1, delta1, bd1, reports1) = Inr (full', bd', reports')"
      using Suc.prems(1) False by (auto simp: bind_res_Inr_iff)
    have ok1: "round_ok store scc bd full [] bd"
      using ok round_okD [OF ok] by (simp add: round_ok_def)
    have sum1: "round_sum store full [] bd (full_world store full bd)"
      by (simp add: round_sum_def store_world_Nil)
    have round: "round_ok store scc bd full1 delta1 bd1 \<and> round_sum store full1 delta1 bd1 (full_world store full bd)
        \<and> extends bd bd1 \<and> reports1 = reports
        \<and> (\<forall>w. rises (rule_heads rs) (full_world store full bd w) (full_world store full1 bd1 w)
          \<and> (\<forall>r \<in> set rs. (\<Union>k \<in> set (changed_literals scc delta r).
                delta_consequences env schemas (full_world store full bd w) (store_world delta bd w) k r)
              \<subseteq> full_world store full1 bd1 w (predicate (head r)))
          \<and> (\<forall>Z. candidate env schemas rs (X w) Z \<and> full_world store full bd w \<le> Z \<longrightarrow> full_world store full1 bd1 w \<le> Z))"
    proof (rule round_fold [OF f ok1 sum1 rises_refl order_refl heads])
      fix r assume r: "r \<in> set rs"
      show "rule_step store scc bd (rule_heads rs) (full_world store full bd) (\<lambda>w. candidate env schemas rs (X w))
          (\<lambda>w r. \<Union>k \<in> set (changed_literals scc delta r).
            delta_consequences env schemas (full_world store full bd w) (store_world delta bd w) k r)
          r (iterate_rule env schemas scc store full delta r)"
        by (rule iterate_step [OF r _ neg ok sum]) (use agg r Suc.prems(5) in auto)
    qed
    have d: "dom (map_of delta) \<subseteq> set scc" using ok by (simp add: round_ok_def)
    have T1: "consequences env schemas (full_world store full bd w) r \<subseteq> full_world store full1 bd1 w (predicate (head r))"
      if "r \<in> set rs" for w r
    proof (rule next_round_closed [OF neg that d _ Suc.prems(4,5) Suc.prems(6) [OF that]])
      show "full_world store full bd w p = G w p \<union> store_world delta bd w p" for p
        using sum unfolding round_sum_def by blast
      show "rises (rule_heads rs) (full_world store full bd w) (full_world store full1 bd1 w)" using round by blast
      show "(\<Union>k \<in> set (changed_literals scc delta r).
            delta_consequences env schemas (full_world store full bd w) (store_world delta bd w) k r)
          \<subseteq> full_world store full1 bd1 w (predicate (head r))" using round that by blast
    qed
    have F1: "rises (rule_heads rs) (X w) (full_world store full1 bd1 w)" for w
      using rises_trans [OF Suc.prems(5)] round by blast
    have sound1: "full_world store full1 bd1 w \<le> Z" if "candidate env schemas rs (X w) Z" for w Z
      using Suc.prems(7) [OF that] round that by blast
    have "extends bd1 bd' \<and> store_ok full' bd' \<and> reports' = reports1
        \<and> (\<forall>w. component_model env schemas rs (X w) (full_world store full' bd' w))"
      by (rule Suc.IH [OF rest conjunct1 [OF round] conjunct1 [OF conjunct2 [OF round]] Suc.prems(5) F1 T1 sound1 neg heads agg])
    note fin = this
    have "extends bd bd1" and "reports1 = reports" using round by blast+
    then show ?thesis using fin extends_trans [of bd bd1 bd'] by simp
  qed
qed simp

lemma map_of_write_back:
  "distinct (map fst xs) \<Longrightarrow> map_of (foldl (\<lambda>store (p, rel). bt_insert p rel store) store xs) = map_of store ++ map_of xs"
proof (induction xs arbitrary: store)
  case (Cons x xs)
  then show ?case by (cases x) (simp add: map_add_upd_left dom_map_of_conv_image_fst del: fun_upd_apply)
qed simp

lemma bt_ok_write_back: "bt_ok store \<Longrightarrow> bt_ok (foldl (\<lambda>store (p, rel). bt_insert p rel store) store xs)"
  by (induction xs arbitrary: store) auto

lemma scc_snapshot:
  fixes store :: relation_store
  shows "map_of (foldl (\<lambda>full p. bt_insert p (store_relation store p) full) full scc)
      = map_of full ++ (\<lambda>p. if p \<in> set scc then Some (store_relation store p) else None)"
    and "bt_ok full \<Longrightarrow> bt_ok (foldl (\<lambda>full p. bt_insert p (store_relation store p) full) full scc)"
  by (induction scc arbitrary: full) (auto simp: map_add_def)

lemma eval_recursive_scc_model:
  assumes ok: "builder_ok bd" and st: "store_ok store bd" and agg: "\<forall>r \<in> set rs. \<not> has_aggregation r"
    and neg: "stable_negation (rule_heads rs) rs" and heads: "rule_heads rs \<subseteq> set scc"
    and run: "eval_recursive_scc env schemas scc rs (store, bd, reports) = Inr (store', bd', reports')"
  shows "extends bd bd' \<and> store_ok store' bd' \<and> reports' = reports
    \<and> (\<forall>w. component_model env schemas rs (store_world store bd w) (store_world store' bd' w))"
proof -
  define full where "full = foldl (\<lambda>full p. bt_insert p (store_relation store p) full) [] scc"
  have full: "map_of full = (\<lambda>p. if p \<in> set scc then Some (store_relation store p) else None)" "bt_ok full"
    unfolding full_def scc_snapshot(1) using scc_snapshot(2) [of "[]" store scc]
    by (simp_all add: fun_eq_iff map_add_def bt_ok_def)
  obtain full1 delta1 bd1 reports1 full2 where
      f: "fold_res (seed_rule_delta env schemas store) rs (full, [], bd, reports) = Inr (full1, delta1, bd1, reports1)"
    and loop: "semi_naive_loop env schemas scc rs store max_provenance_iterations (full1, delta1, bd1, reports1)
        = Inr (full2, bd', reports')"
    and store': "store' = foldl (\<lambda>store (p, rel). bt_insert p rel store) store full2"
    using run by (auto simp: eval_recursive_scc_def full_def Let_def bind_res_Inr_iff map_res_Inr_iff)
  have start: "full_world store full bd w = store_world store bd w" for w
    by (simp add: full_world_def store_world_def current_relation_def full fun_eq_iff rel_world_def)
  have "store_ok full bd"
    unfolding store_ok_def using store_ok_relation [OF st] full by simp
  then have ok1: "round_ok store scc bd full [] bd"
    using ok st full by (auto simp: round_ok_def dom_def)
  have sum1: "round_sum store full [] bd (store_world store bd)"
    by (simp add: round_sum_def store_world_Nil start)
  have up: "rises (rule_heads rs) (store_world store bd w) (full_world store full bd w)" for w by (simp add: start)
  have round: "round_ok store scc bd full1 delta1 bd1 \<and> round_sum store full1 delta1 bd1 (store_world store bd)
      \<and> extends bd bd1 \<and> reports1 = reports
      \<and> (\<forall>w. rises (rule_heads rs) (full_world store full bd w) (full_world store full1 bd1 w)
        \<and> (\<forall>r \<in> set rs. consequences env schemas (store_world store bd w) r \<subseteq> full_world store full1 bd1 w (predicate (head r)))
        \<and> (\<forall>Z. candidate env schemas rs (store_world store bd w) Z \<and> full_world store full bd w \<le> Z
            \<longrightarrow> full_world store full1 bd1 w \<le> Z))"
    by (rule round_fold [OF f ok1 sum1 up order_refl heads seed_step]) (use agg neg in simp_all)
  have rise1: "rises (rule_heads rs) (store_world store bd w) (full_world store full1 bd1 w)" for w
    using round start by simp
  have sound: "full_world store full1 bd1 w \<le> Z" if "candidate env schemas rs (store_world store bd w) Z" for w Z
    using round that start by (auto simp: candidate_def rises_def)
  have T: "consequences env schemas (store_world store bd w) r \<subseteq> full_world store full1 bd1 w (predicate (head r))"
    if "r \<in> set rs" for w r using round that by blast
  have fin: "extends bd1 bd' \<and> store_ok full2 bd' \<and> reports' = reports1
      \<and> (\<forall>w. component_model env schemas rs (store_world store bd w) (full_world store full2 bd' w))"
    by (rule semi_naive_loop_model [OF loop conjunct1 [OF round] conjunct1 [OF conjunct2 [OF round]] rises_refl rise1
          T sound neg heads agg])
  have e: "extends bd bd'" using round fin extends_trans by blast
  have look: "map_of store' = map_of store ++ map_of full2"
    unfolding store' by (rule map_of_write_back) (use fin bt_ok_distinct in \<open>auto simp: store_ok_def\<close>)
  have "store_world store' bd' w = full_world store full2 bd' w" for w
    by (simp add: store_world_def full_world_def fun_eq_iff rel_world_def store_relation_def current_relation_def look
        map_add_def split: option.split)
  moreover have "store_ok store' bd'"
    using fin store_ok_extends [OF st e] bt_ok_write_back [of store full2]
    by (auto simp: store_ok_def look map_add_def store' [symmetric] split: option.splits)
  ultimately show ?thesis using fin round e by simp
qed

end
