(* ===== verification/Possible_Worlds.thy ===== *)
theory Possible_Worlds
  imports Provenance_Correct
begin

text \<open>
  Extraction of a whole program (\<open>extract_from_program\<close> of \<open>xlog-prob/src/provenance.rs\<close>) in terms of
  worlds: the base tuples a world selects from facts, probabilistic facts and annotated disjunctions,
  the stratified model over them, and the theorem that the extracted formulas describe it.
\<close>

section \<open>Components without recursion\<close>

lemma full_world_Nil: "full_world store [] bd w = store_world store bd w"
  by (simp add: full_world_def store_world_def current_relation_def fun_eq_iff rel_world_def)

lemma store_world_insert:
  "store_world (bt_insert p rel store) bd w q = (if q = p then {t. rel_sem rel bd w t} else store_world store bd w q)"
  by (simp add: store_world_def rel_world_def store_relation_insert)

lemma store_world_extends:
  "builder_ok bd \<Longrightarrow> extends bd bd' \<Longrightarrow> store_ok store bd \<Longrightarrow> store_world store bd' w = store_world store bd w"
  unfolding store_world_def by (rule rel_world_extends) (simp_all add: store_ok_relation)

lemma eval_rule_into_store_sem:
  assumes ok: "builder_ok bd" and st: "store_ok store bd" and agg: "\<not> has_aggregation r"
    and run: "eval_rule_into_store env schemas r (store, bd, reports) = Inr (store', bd', reports')"
  shows "extends bd bd' \<and> store_ok store' bd' \<and> reports' = reports \<and> (\<forall>w q. store_world store' bd' w q =
      store_world store bd w q
      \<union> (if q = predicate (head r) then consequences env schemas (store_world store bd w) r else {}))"
proof -
  let ?p = "predicate (head r)"
  obtain derived bd1 rel where e: "eval_rule env schemas r store [] None bd reports = Inr (derived, bd1, reports')"
    and a: "fold_res add_tuple derived (store_relation store ?p, bd1) = Inr (rel, bd')"
    and store': "store' = bt_insert ?p rel store"
    using run by (auto simp: eval_rule_into_store_def bind_res_Inr_iff map_res_Inr_iff)
  have inp: "inputs_ok store [] None bd" using st by (simp add: inputs_ok_def)
  note sem = eval_rule_sem [OF ok inp agg e, unfolded world_reads full_world_Nil]
  have e1: "extends bd bd1" and d: "rel_ok derived bd1" using sem by blast+
  have st1: "store_ok store bd1" by (rule store_ok_extends [OF st e1])
  note add = add_relation_sem [OF extends_ok [OF e1] store_ok_relation [OF st1] d a]
  have e2: "extends bd bd'" using extends_trans [OF e1] add by blast
  have "rel_sem (store_relation store ?p) bd1 w t = rel_sem (store_relation store ?p) bd w t" for w t
    by (rule rel_sem_extends [OF ok e1 store_ok_relation [OF st]])
  then have new: "{t. rel_sem rel bd' w t} = store_world store bd w ?p \<union> consequences env schemas (store_world store bd w) r" for w
    using add sem by (auto simp: store_world_mem consequences_def set_eq_iff)
  have "store_world store' bd' w q = store_world store bd w q
      \<union> (if q = ?p then consequences env schemas (store_world store bd w) r else {})" for w q
    unfolding store' store_world_insert store_world_extends [OF ok e2 st] by (simp add: new)
  then show ?thesis using e2 sem store_ok_insert [OF store_ok_extends [OF st e2]] add by (simp add: store')
qed

lemma consequences_cong:
  assumes "\<And>a. Positive a \<in> set (body r) \<or> Negated a \<in> set (body r) \<Longrightarrow> X (predicate a) = Y (predicate a)"
  shows "consequences env schemas X r = consequences env schemas Y r"
proof -
  have "Positive a \<in> set (body r)" if "k < length (body r)" and "body r ! k = Positive a" for k a
    using that nth_mem by fastforce
  then show ?thesis unfolding consequences_def
    by (intro equalityI ref_rule_mono) (use assms in auto)
qed

definition reads_below :: "rule list \<Rightarrow> rule \<Rightarrow> bool" where
  "reads_below rs r = (\<forall>a. Positive a \<in> set (body r) \<or> Negated a \<in> set (body r) \<longrightarrow> predicate a \<notin> rule_heads rs)"

lemma rules_into_store_sem:
  assumes "fold_res (eval_rule_into_store env schemas) rs (store, bd, reports) = Inr (store', bd', reports')"
    and "builder_ok bd" and "store_ok store bd" and "\<forall>r \<in> set rs. \<not> has_aggregation r \<and> reads_below all r"
    and "rule_heads rs \<subseteq> rule_heads all" and "\<And>w. rises (rule_heads all) (X w) (store_world store bd w)"
  shows "extends bd bd' \<and> store_ok store' bd' \<and> reports' = reports \<and> (\<forall>w q. store_world store' bd' w q =
      store_world store bd w q \<union> (\<Union>r \<in> {r \<in> set rs. predicate (head r) = q}. consequences env schemas (X w) r))"
  using assms
proof (induction rs arbitrary: store bd reports)
  case Nil
  then show ?case by simp
next
  case (Cons r rs)
  obtain store1 bd1 reports1 where one: "eval_rule_into_store env schemas r (store, bd, reports) = Inr (store1, bd1, reports1)"
    and rest: "fold_res (eval_rule_into_store env schemas) rs (store1, bd1, reports1) = Inr (store', bd', reports')"
    using Cons.prems(1) by (auto simp: bind_res_Inr_iff)
  have r: "\<not> has_aggregation r" "reads_below all r" "predicate (head r) \<in> rule_heads all"
    using Cons.prems(4,5) by (auto simp: rule_heads_def)
  note s = eval_rule_into_store_sem [OF Cons.prems(2,3) r(1) one]
  have same: "consequences env schemas (store_world store bd w) r = consequences env schemas (X w) r" for w
    by (rule consequences_cong) (use r(2) Cons.prems(6) in \<open>auto simp: reads_below_def rises_def\<close>)
  have up: "rises (rule_heads all) (X w) (store_world store1 bd1 w)" for w
    using Cons.prems(6) [of w] s r(3) by (auto simp: rises_def le_fun_def)
  have "extends bd1 bd' \<and> store_ok store' bd' \<and> reports' = reports1 \<and> (\<forall>w q. store_world store' bd' w q =
      store_world store1 bd1 w q \<union> (\<Union>r \<in> {r \<in> set rs. predicate (head r) = q}. consequences env schemas (X w) r))"
    by (rule Cons.IH [OF rest _ _ _ _ up]) (use s extends_ok Cons.prems(4,5) in \<open>auto simp: rule_heads_def\<close>)
  then show ?case using extends_trans [of bd bd1 bd'] s same by auto
qed

lemma eval_non_recursive_scc_model:
  assumes ok: "builder_ok bd" and st: "store_ok store bd"
    and rs: "\<forall>r \<in> set rs. \<not> has_aggregation r \<and> reads_below rs r"
    and run: "eval_non_recursive_scc env schemas rs (store, bd, reports) = Inr (store', bd', reports')"
  shows "extends bd bd' \<and> store_ok store' bd' \<and> reports' = reports
    \<and> (\<forall>w. component_model env schemas rs (store_world store bd w) (store_world store' bd' w))"
proof -
  let ?X = "store_world store bd" and ?Y = "store_world store' bd'"
  have sem: "extends bd bd' \<and> store_ok store' bd' \<and> reports' = reports \<and> (\<forall>w q. ?Y w q =
      ?X w q \<union> (\<Union>r \<in> {r \<in> set rs. predicate (head r) = q}. consequences env schemas (?X w) r))"
    by (rule rules_into_store_sem [OF run [unfolded eval_non_recursive_scc_def] ok st rs order_refl]) simp
  have up: "rises (rule_heads rs) (?X w) (?Y w)" for w
    using sem by (auto simp: rises_def le_fun_def rule_heads_def)
  have same: "consequences env schemas Z r = consequences env schemas (?X w) r"
    if "rises (rule_heads rs) (?X w) Z" and "r \<in> set rs" for w Z r
    by (rule consequences_cong) (use rs that in \<open>auto simp: reads_below_def rises_def\<close>)
  have "candidate env schemas rs (?X w) (?Y w)" for w
    using up same [OF up] sem by (auto simp: candidate_def closed_under_def)
  moreover have "?Y w \<le> Z" if c: "candidate env schemas rs (?X w) Z" for w Z
  proof -
    have "?X w \<le> Z" and "\<And>r. r \<in> set rs \<Longrightarrow> consequences env schemas (?X w) r \<subseteq> Z (predicate (head r))"
      using c same [of w Z] by (auto simp: candidate_def rises_def closed_under_def)
    then show ?thesis using sem by (auto simp: le_fun_def)
  qed
  ultimately show ?thesis using sem unfolding component_model_def by blast
qed

section \<open>The components of a program\<close>

text \<open>The stratified model: every component is extended to its least model, dependencies first.\<close>

fun stratified_model :: "prob_env \<Rightarrow> schemas \<Rightarrow> rule list list \<Rightarrow> database \<Rightarrow> database \<Rightarrow> bool" where
  "stratified_model env schemas [] X Y = (Y = X)"
| "stratified_model env schemas (rs # rss) X Y =
     (\<exists>Z. component_model env schemas rs X Z \<and> stratified_model env schemas rss Z Y)"

lemma component_model_unique:
  "component_model env schemas rs X Y \<Longrightarrow> component_model env schemas rs X Z \<Longrightarrow> Y = Z"
  unfolding component_model_def by (simp add: order_antisym)

lemma stratified_model_unique:
  "stratified_model env schemas rss X Y \<Longrightarrow> stratified_model env schemas rss X Z \<Longrightarrow> Y = Z"
  by (induction rss arbitrary: X) (auto dest: component_model_unique)

lemma component_model_Nil: "component_model env schemas [] X X"
  by (simp add: component_model_def candidate_def closed_under_def rises_def)

text \<open>No negative or aggregate dependency lies on a cycle.\<close>

definition monotone_cycles :: "program \<Rightarrow> bool" where
  "monotone_cycles p = (\<forall>a b k. depends p a b k \<and> depends_on p b a \<longrightarrow> k = DepPositive)"

lemma scc_rules_heads: "rule_heads (scc_rules p scc) \<subseteq> set scc"
  by (auto simp: rule_heads_def scc_rules_def)

lemma in_scc_rules: "r \<in> set (scc_rules p scc) \<longleftrightarrow> r \<in> set (rules p) \<and> \<not> is_fact r \<and> predicate (head r) \<in> set scc"
  by (auto simp: scc_rules_def)

lemma scc_negation_stable:
  assumes mono: "monotone_cycles p" and cs: "find_sccs (build_dependency_graph p) = Some cs" and scc: "scc \<in> set cs"
    and r: "r \<in> set (scc_rules p scc)" and a: "Negated a \<in> set (body r)"
  shows "predicate a \<notin> set scc"
proof
  assume "predicate a \<in> set scc"
  then have "set scc = {y. depends_on p (predicate a) y \<and> depends_on p y (predicate a)}"
    by (rule scc_mutual [OF cs scc])
  then have "depends_on p (predicate a) (predicate (head r))" using r by (auto simp: in_scc_rules)
  moreover have "depends p (predicate (head r)) (predicate a) DepNegative"
    using r a by (auto simp: in_scc_rules depends_def literal_depends_def intro!: bexI [of _ r] bexI [of _ "Negated a"])
  ultimately show False using mono unfolding monotone_cycles_def by blast
qed

lemma non_recursive_reads:
  assumes not_rec: "\<not> is_recursive_scc scc (scc_rules p scc)" and r: "r \<in> set (scc_rules p scc)"
    and neg: "\<And>a. Negated a \<in> set (body r) \<Longrightarrow> predicate a \<notin> set scc"
  shows "reads_below (scc_rules p scc) r"
proof -
  obtain q where scc: "scc = [q]"
    using not_rec r by (cases scc) (auto simp: is_recursive_scc_def in_scc_rules split: if_splits)
  have "predicate a \<noteq> q" if "Positive a \<in> set (body r)" for a
    using not_rec r that by (force simp: is_recursive_scc_def scc list_ex_iff)
  then show ?thesis using scc_rules_heads [of p scc] neg by (auto simp: reads_below_def scc)
qed

lemma non_monotone_none:
  assumes mono: "monotone_cycles p" and cs: "find_sccs (build_dependency_graph p) = Some cs"
    and res: "analyze_stratification p = Some result"
  shows "non_monotone_predicates result = {}"
proof -
  have "non_monotone_sccs result = {i. i < length cs
      \<and> check_scc_for_negation_cycle (cs ! i) (build_dependency_graph p) \<noteq> None}"
    using analyze_Some [OF res] cs by auto
  moreover have "\<forall>scc \<in> set cs. check_scc_for_negation_cycle scc (build_dependency_graph p) = None"
    unfolding negation_cycle_iff [OF cs] using mono by (simp add: monotone_cycles_def)
  ultimately have "non_monotone_sccs result = {}" using nth_mem by blast
  then show ?thesis by (simp add: non_monotone_predicates_def)
qed

lemma eval_scc_model:
  assumes mono: "monotone_cycles p" and cs: "find_sccs (build_dependency_graph p) = Some cs" and scc: "scc \<in> set cs"
    and agg: "\<forall>r \<in> set (rules p). \<not> has_aggregation r" and ok: "builder_ok bd" and st: "store_ok store bd"
    and run: "eval_scc env schemas p {} scc (store, bd, reports) = Inr (store', bd', reports')"
  shows "extends bd bd' \<and> store_ok store' bd' \<and> reports' = reports
    \<and> (\<forall>w. component_model env schemas (scc_rules p scc) (store_world store bd w) (store_world store' bd' w))"
proof -
  let ?rs = "scc_rules p scc"
  have plain: "\<forall>r \<in> set ?rs. \<not> has_aggregation r" using agg by (simp add: in_scc_rules)
  have neg: "predicate a \<notin> set scc" if "r \<in> set ?rs" "Negated a \<in> set (body r)" for r a
    by (rule scc_negation_stable [OF mono cs scc that])
  consider (none) "?rs = []" | (rec) "?rs \<noteq> []" "is_recursive_scc scc ?rs" | (single) "?rs \<noteq> []" "\<not> is_recursive_scc scc ?rs"
    by blast
  then show ?thesis
  proof cases
    case none
    then show ?thesis using run ok st by (auto simp: eval_scc_def component_model_Nil)
  next
    case rec
    have "stable_negation (rule_heads ?rs) ?rs"
      using neg scc_rules_heads [of p scc] unfolding stable_negation_def negated_predicates_def by blast
    then show ?thesis
      using rec run by (intro eval_recursive_scc_model [OF ok st plain _ scc_rules_heads]) (simp_all add: eval_scc_def Let_def list_ex_iff)
  next
    case single
    have "\<forall>r \<in> set ?rs. \<not> has_aggregation r \<and> reads_below ?rs r"
      using plain non_recursive_reads [OF single(2)] neg by blast
    then show ?thesis
      using single run by (intro eval_non_recursive_scc_model [OF ok st]) (simp_all add: eval_scc_def Let_def list_ex_iff)
  qed
qed

lemma eval_sccs_model:
  assumes "fold_res (eval_scc env schemas p {}) sccs (store, bd, reports) = Inr (store', bd', reports')"
    and "builder_ok bd" and "store_ok store bd" and "set sccs \<subseteq> set cs"
    and mono: "monotone_cycles p" and cs: "find_sccs (build_dependency_graph p) = Some cs"
    and agg: "\<forall>r \<in> set (rules p). \<not> has_aggregation r"
  shows "extends bd bd' \<and> store_ok store' bd' \<and> reports' = reports
    \<and> (\<forall>w. stratified_model env schemas (map (scc_rules p) sccs) (store_world store bd w) (store_world store' bd' w))"
  using assms(1-4)
proof (induction sccs arbitrary: store bd reports)
  case Nil
  then show ?case by simp
next
  case (Cons scc sccs)
  obtain store1 bd1 reports1 where one: "eval_scc env schemas p {} scc (store, bd, reports) = Inr (store1, bd1, reports1)"
    and rest: "fold_res (eval_scc env schemas p {}) sccs (store1, bd1, reports1) = Inr (store', bd', reports')"
    using Cons.prems(1) by (auto simp: bind_res_Inr_iff)
  have scc: "scc \<in> set cs" using Cons.prems(4) by simp
  note m = eval_scc_model [OF mono cs scc agg Cons.prems(2,3) one]
  have ok1: "builder_ok bd1" using m extends_ok by blast
  have IH: "extends bd1 bd' \<and> store_ok store' bd' \<and> reports' = reports1
      \<and> (\<forall>w. stratified_model env schemas (map (scc_rules p) sccs) (store_world store1 bd1 w) (store_world store' bd' w))"
    by (rule Cons.IH [OF rest ok1]) (use m Cons.prems(4) in auto)
  have "extends bd bd'" using extends_trans [of bd bd1 bd'] m IH by blast
  then show ?case using m IH by auto
qed

lemma store_world_empty_relations:
  fixes store :: relation_store
  shows "store_world (fold (\<lambda>q store. if map_of store q = None then bt_insert q [] store else store) ps store) bd w
      = store_world store bd w"
    and "store_ok store bd \<Longrightarrow> store_ok (fold (\<lambda>q store. if map_of store q = None then bt_insert q [] store else store) ps store) bd"
proof (induction ps arbitrary: store)
  case (Cons q ps)
  {
    case 1
    have "store_world (bt_insert q [] store) bd w = store_world store bd w" if "map_of store q = None"
      using that by (auto simp: store_world_insert fun_eq_iff) (simp add: store_world_def rel_world_def store_relation_def)
    then show ?case using Cons.IH(1) by simp
  next
    case 2
    then show ?case using Cons.IH(2) by (simp add: store_ok_insert)
  }
qed simp_all

lemma eval_components_model:
  assumes run: "eval_components env schemas p (store, bd) = Inr (store', bd', reports')"
    and ok: "builder_ok bd" and st: "store_ok store bd" and mono: "monotone_cycles p"
    and cs: "find_sccs (build_dependency_graph p) = Some cs" and agg: "\<forall>r \<in> set (rules p). \<not> has_aggregation r"
  shows "extends bd bd' \<and> store_ok store' bd' \<and> reports' = []
    \<and> (\<forall>w. stratified_model env schemas (map (scc_rules p) cs) (store_world store bd w) (store_world store' bd' w))"
proof -
  define store0 where "store0 = fold (\<lambda>q store. if map_of store q = None then bt_insert q [] store else store)
      (sorted_list_of_set (dg_predicates (build_dependency_graph p))) store"
  obtain result where res: "analyze_stratification p = Some result"
    and f: "fold_res (eval_scc env schemas p (non_monotone_predicates result)) cs (store0, bd, []) = Inr (store', bd', reports')"
    using run cs by (auto simp: eval_components_def store0_def Let_def split: option.splits)
  note f' = f [unfolded non_monotone_none [OF mono cs res]]
  have "store_ok store0 bd" unfolding store0_def by (rule store_world_empty_relations(2) [OF st])
  from eval_sccs_model [OF f' ok this order_refl mono cs agg] show ?thesis
    by (simp add: store0_def store_world_empty_relations(1))
qed

section \<open>The base tuples of a world\<close>

text \<open>
  A world has the facts, the probabilistic facts whose leaf is true, and of each annotated disjunction
  the outcome that the chain of its decisions selects: the first decision that is true, or the last
  outcome when all are false and no probability is left over.\<close>

definition atom_tuple :: "atom \<Rightarrow> string \<Rightarrow> pvalue list \<Rightarrow> bool" where
  "atom_tuple a q t = (atom_key_from_ground_atom a = Inr \<lparr>ground_predicate = q, ground_args = t\<rparr>)"

definition fact_world :: "rule list \<Rightarrow> database" where
  "fact_world rs q = {t. \<exists>r \<in> set rs. is_fact r \<and> atom_tuple (head r) q t}"

definition prob_fact_world :: "prob_fact list \<Rightarrow> u32 \<Rightarrow> valuation \<Rightarrow> database" where
  "prob_fact_world pfs first w q =
     {t. \<exists>i < length pfs. leaf_value w (first + of_nat i) \<and> atom_tuple (pf_atom (pfs ! i)) q t}"

definition stage_count :: "prob_env \<Rightarrow> annotated_disjunction \<Rightarrow> nat" where
  "stage_count env ad = (case outcome_probs env (map pf_prob (choices ad)) of Inl _ \<Rightarrow> 0 | Inr ps \<Rightarrow> length ps - 1)"

definition outcome_selected :: "valuation \<Rightarrow> choice_var_id \<Rightarrow> nat \<Rightarrow> nat \<Rightarrow> bool" where
  "outcome_selected w first n k =
     ((\<forall>j < n. j < k \<longrightarrow> \<not> choice_value w (first + of_nat j)) \<and> (k < n \<longrightarrow> choice_value w (first + of_nat k)))"

definition disjunction_world ::
    "prob_env \<Rightarrow> annotated_disjunction \<Rightarrow> choice_var_id \<Rightarrow> valuation \<Rightarrow> database" where
  "disjunction_world env ad first w q =
     {t. \<exists>k < length (choices ad). outcome_selected w first (stage_count env ad) k
           \<and> atom_tuple (pf_atom (choices ad ! k)) q t}"

fun disjunctions_world ::
    "prob_env \<Rightarrow> annotated_disjunction list \<Rightarrow> choice_var_id \<Rightarrow> valuation \<Rightarrow> database" where
  "disjunctions_world env [] first w q = {}"
| "disjunctions_world env (ad # ads) first w q =
     disjunction_world env ad first w q \<union> disjunctions_world env ads (first + of_nat (stage_count env ad)) w q"

definition base_world :: "prob_env \<Rightarrow> program \<Rightarrow> valuation \<Rightarrow> database" where
  "base_world env p w q =
     fact_world (rules p) q \<union> prob_fact_world (prob_facts p) 0 w q
     \<union> disjunctions_world env (annotated_disjunctions p) 0 w q"

lemma insert_ground_sem:
  assumes ok: "builder_ok bd" and st: "store_ok store bd" and f: "in_graph bd f"
    and run: "insert_ground key f (store, bd) = Inr (store', bd')"
  shows "extends bd bd' \<and> store_ok store' bd' \<and> (\<forall>w q. store_world store' bd' w q = store_world store bd w q
      \<union> {t. sat bd w f \<and> key = \<lparr>ground_predicate = q, ground_args = t\<rparr>})"
proof -
  let ?p = "ground_predicate key"
  obtain rel where i: "insert_or (store_relation store ?p) (ground_args key) f bd = Some (rel, bd')"
    and store': "store' = bt_insert ?p rel store"
    using run by (auto simp: insert_ground_def insert_formula_def map_res_Inr_iff)
  note s = insert_or_sem [OF ok store_ok_relation [OF st] f i]
  have "store_world store' bd' w q = store_world store bd w q
      \<union> {t. sat bd w f \<and> key = \<lparr>ground_predicate = q, ground_args = t\<rparr>}" for w q
    using s(3) [of w] unfolding store' store_world_insert store_world_extends [OF ok s(1) st]
    by (cases key) (auto simp: store_world_mem set_eq_iff)
  then show ?thesis using s(1,2) store_ok_insert [OF store_ok_extends [OF st s(1)]] by (simp add: store')
qed

lemma add_facts_sem:
  assumes "fold_res add_fact rs (store, bd) = Inr (store', bd')" and "builder_ok bd" and "store_ok store bd"
    and "\<forall>r \<in> set rs. is_fact r"
  shows "extends bd bd' \<and> store_ok store' bd' \<and> (\<forall>w q. store_world store' bd' w q =
      store_world store bd w q \<union> fact_world rs q)"
  using assms
proof (induction rs arbitrary: store bd)
  case Nil
  then show ?case by (simp add: fact_world_def)
next
  case (Cons r rs)
  obtain key store1 bd1 where key: "atom_key_from_ground_atom (head r) = Inr key"
    and one: "insert_ground key (bconst_true bd) (store, bd) = Inr (store1, bd1)"
    and rest: "fold_res add_fact rs (store1, bd1) = Inr (store', bd')"
    using Cons.prems(1) by (auto simp: add_fact_def [of r] bind_res_Inr_iff)
  have t: "in_graph bd (bconst_true bd)" "\<And>w. sat bd w (bconst_true bd)"
    using bsem_consts [OF Cons.prems(2)] by (simp_all add: sat_def)
  note s = insert_ground_sem [OF Cons.prems(2,3) t(1) one]
  have IH: "extends bd1 bd' \<and> store_ok store' bd' \<and> (\<forall>w q. store_world store' bd' w q =
      store_world store1 bd1 w q \<union> fact_world rs q)"
    by (rule Cons.IH [OF rest]) (use s extends_ok Cons.prems(4) in auto)
  have "extends bd bd'" using extends_trans [of bd bd1 bd'] s IH by blast
  then show ?case using s IH t(2) Cons.prems(4) by (auto simp: fact_world_def atom_tuple_def key)
qed

lemma add_prob_facts_sem:
  assumes "fold_res (add_prob_fact schemas) xs (first, probs, atoms, store, bd) = Inr (nxt, probs', atoms', store', bd')"
    and "builder_ok bd" and "store_ok store bd"
  shows "extends bd bd' \<and> store_ok store' bd' \<and> nxt = first + of_nat (length xs)
    \<and> (\<forall>w q. store_world store' bd' w q = store_world store bd w q \<union> prob_fact_world (map fst xs) first w q)"
  using assms
proof (induction xs arbitrary: first probs atoms store bd)
  case Nil
  then show ?case by (simp add: prob_fact_world_def)
next
  case (Cons x xs)
  obtain pf source where x: "x = (pf, source)" by (cases x)
  obtain key f bd1 store2 bd2 probs2 atoms2 where key: "atom_key_from_ground_atom (pf_atom pf) = Inr key"
    and f: "build_lit first bd = Some (f, bd1)"
    and one: "insert_ground key f (store, bd1) = Inr (store2, bd2)"
    and rest: "fold_res (add_prob_fact schemas) xs (first + 1, probs2, atoms2, store2, bd2)
      = Inr (nxt, probs', atoms', store', bd')"
    using Cons.prems(1)
    by (auto simp: add_prob_fact_def x bind_res_Inr_iff map_res_Inr_iff split: if_splits)
  have y: "yields bd (f, bd1) (\<lambda>w. leaf_value w first)"
    by (rule yields_op) (use build_lit_ok [OF Cons.prems(2)] f in simp)
  note e1 = yieldsD(1) [OF y]
  have st1: "store_ok store bd1" by (rule store_ok_extends [OF Cons.prems(3) e1])
  note s = insert_ground_sem [OF extends_ok [OF e1] st1 yieldsD(2) [OF y] one]
  have e2: "extends bd bd2" using extends_trans [OF e1] s by blast
  have IH: "extends bd2 bd' \<and> store_ok store' bd' \<and> nxt = first + 1 + of_nat (length xs)
      \<and> (\<forall>w q. store_world store' bd' w q = store_world store2 bd2 w q \<union> prob_fact_world (map fst xs) (first + 1) w q)"
    by (rule Cons.IH [OF rest]) (use s extends_ok in auto)
  have head: "prob_fact_world (map fst (x # xs)) first w q
      = {t. leaf_value w first \<and> atom_tuple (pf_atom pf) q t} \<union> prob_fact_world (map fst xs) (first + 1) w q" for w q
    unfolding prob_fact_world_def by (auto simp: x less_Suc_eq_0_disj add.assoc)
  have "store_world store' bd' w q = store_world store bd w q \<union> prob_fact_world (map fst (x # xs)) first w q" for w q
    using IH s yieldsD(3) [OF y] store_world_extends [OF Cons.prems(2) e1 Cons.prems(3)]
    unfolding head by (auto simp: atom_tuple_def key)
  then show ?case using IH extends_trans [OF e2] by (simp add: algebra_simps)
qed

subsection \<open>Annotated disjunctions\<close>

lemma choice_lit_yields:
  assumes ok: "builder_ok bd" and run: "choice_lit v b bd = Some res"
  shows "yields bd res (\<lambda>w. choice_value w v = b)"
proof -
  let ?f = "if b then bconst_false bd else bconst_true bd" and ?t = "if b then bconst_true bd else bconst_false bd"
  note ends = bsem_consts [OF ok]
  have "build_decision v ?f ?t bd = Some res" using run by (simp add: choice_lit_def split: if_splits)
  moreover have "in_graph bd ?f" "in_graph bd ?t" using ends by simp_all
  ultimately have "op_ok bd res (\<lambda>\<nu> \<chi>. bsem bd \<nu> \<chi> (if \<chi> v then ?t else ?f))"
    by (intro build_decision_ok [OF ok])
  moreover have "bsem bd \<nu> \<chi> (if \<chi> v then ?t else ?f) = (\<chi> v = b)" for \<nu> \<chi> using ends by simp
  ultimately show ?thesis by (intro yields_op) simp
qed

lemma conditions_sem:
  assumes "map_state (\<lambda>(j, v). choice_lit v (j = i)) xs bd = Some (cs, bd')" and "builder_ok bd"
  shows "extends bd bd' \<and> (\<forall>c \<in> set cs. in_graph bd' c)
    \<and> (\<forall>w. (\<forall>c \<in> set cs. sat bd' w c) = (\<forall>(j, v) \<in> set xs. choice_value w v = (j = i)))"
  using assms
proof (induction xs arbitrary: bd cs)
  case (Cons x xs)
  obtain j v where x: "x = (j, v)" by (cases x)
  obtain c bd1 ds where one: "choice_lit v (j = i) bd = Some (c, bd1)"
    and rest: "map_state (\<lambda>(j, v). choice_lit v (j = i)) xs bd1 = Some (ds, bd')" and cs: "cs = c # ds"
    using Cons.prems(1) by (auto simp: x split: option.splits)
  have y: "yields bd (c, bd1) (\<lambda>w. choice_value w v = (j = i))" by (rule choice_lit_yields [OF Cons.prems(2) one])
  have ok1: "builder_ok bd1" by (rule extends_ok [OF yieldsD(1) [OF y]])
  have IH: "extends bd1 bd' \<and> (\<forall>c \<in> set ds. in_graph bd' c)
      \<and> (\<forall>w. (\<forall>c \<in> set ds. sat bd' w c) = (\<forall>(j, v) \<in> set xs. choice_value w v = (j = i)))"
    by (rule Cons.IH [OF rest ok1])
  have "in_graph bd' c" "sat bd' w c = (choice_value w v = (j = i))" for w
    using IH extends_in_graph [OF _ yieldsD(2) [OF y]] extends_sat [OF ok1 _ yieldsD(2) [OF y]] yieldsD(3) [OF y] by auto
  then show ?case using IH extends_trans [OF yieldsD(1) [OF y]] by (simp add: cs x)
qed simp

definition branch_taken :: "choice_var_id list \<Rightarrow> valuation \<Rightarrow> nat \<Rightarrow> bool" where
  "branch_taken vars w i = (\<forall>(j, v) \<in> set (take (Suc i) (indexed vars)). choice_value w v = (j = i))"

lemma outcome_formulas_sem:
  assumes "fold_res (outcome_formula vars) ks (out, bd) = Inr (out', bd')" and "builder_ok bd"
  shows "extends bd bd' \<and> (\<exists>fs. out' = out @ fs \<and> list_all2 (\<lambda>i f. in_graph bd' f \<and> (\<forall>w. sat bd' w f = branch_taken vars w i)) ks fs)"
  using assms
proof (induction ks arbitrary: out bd)
  case Nil
  then show ?case by simp
next
  case (Cons i ks)
  obtain cs bd1 f bd2 where c: "map_state (\<lambda>(j, v). choice_lit v (j = i)) (take (Suc i) (indexed vars)) bd = Some (cs, bd1)"
    and a: "build_and cs bd1 = Some (f, bd2)" and rest: "fold_res (outcome_formula vars) ks (out @ [f], bd2) = Inr (out', bd')"
    using Cons.prems(1) by (auto simp: outcome_formula_def [of vars i] bind_res_Inr_iff map_res_Inr_iff)
  note cond = conditions_sem [OF c Cons.prems(2)]
  have ok1: "builder_ok bd1" using cond extends_ok by blast
  have y: "yields bd1 (f, bd2) (\<lambda>w. \<forall>c \<in> set cs. sat bd1 w c)"
    by (rule yields_and [OF ok1 _ a]) (use cond in blast)
  have ok2: "builder_ok bd2" by (rule extends_ok [OF yieldsD(1) [OF y]])
  obtain fs where e: "extends bd2 bd'" and out': "out' = (out @ [f]) @ fs"
    and fs: "list_all2 (\<lambda>i f. in_graph bd' f \<and> (\<forall>w. sat bd' w f = branch_taken vars w i)) ks fs"
    using Cons.IH [OF rest ok2] by blast
  have "in_graph bd' f" "sat bd' w f = branch_taken vars w i" for w
    using extends_in_graph [OF e yieldsD(2) [OF y]] extends_sat [OF ok2 e yieldsD(2) [OF y]] yieldsD(3) [OF y] cond
    by (simp_all add: branch_taken_def)
  then have "list_all2 (\<lambda>i f. in_graph bd' f \<and> (\<forall>w. sat bd' w f = branch_taken vars w i)) (i # ks) (f # fs)"
    using fs by simp
  moreover have "extends bd bd'" using extends_trans [OF extends_trans [OF conjunct1 [OF cond] yieldsD(1) [OF y]] e] .
  ultimately show ?case using out' by auto
qed

lemma chain_vars:
  "fold_res (chain_step env explicit) xs (vars, nxt, remaining, probs, sources) = Inr (vars', nxt', rest') \<Longrightarrow>
    vars' = vars @ map (\<lambda>j. nxt + of_nat j) [0..<length xs] \<and> nxt' = nxt + of_nat (length xs)"
proof (induction xs arbitrary: vars nxt remaining probs sources)
  case (Cons x xs)
  obtain vars1 next1 remaining1 probs1 sources1 where
      one: "chain_step env explicit x (vars, nxt, remaining, probs, sources) = Inr (vars1, next1, remaining1, probs1, sources1)"
    and rest: "fold_res (chain_step env explicit) xs (vars1, next1, remaining1, probs1, sources1) = Inr (vars', nxt', rest')"
    using Cons.prems by (auto simp: bind_res_Inr_iff)
  have v: "vars1 = vars @ [nxt]" "next1 = nxt + 1"
    using one by (auto simp: chain_step_def bind_res_Inr_iff Let_def split: prod.splits if_splits)
  have "map (\<lambda>j. nxt + of_nat j) [0..<length (x # xs)] = nxt # map (\<lambda>j. nxt + 1 + of_nat j) [0..<length xs]"
    by (simp add: map_upt_Suc add.assoc del: upt_Suc)
  then show ?case using Cons.IH [OF rest] v by (simp add: algebra_simps)
qed simp

lemma in_take_indexed: "(j, v) \<in> set (take m (indexed xs)) \<longleftrightarrow> j < length xs \<and> j < m \<and> v = xs ! j"
  by (auto simp: in_set_conv_nth indexed_def intro: exI [of _ j])

lemma branch_taken_selected:
  "branch_taken (map (\<lambda>j. first + of_nat j) [0..<n]) w i = outcome_selected w first n i"
proof -
  have "branch_taken (map (\<lambda>j. first + of_nat j) [0..<n]) w i
      = (\<forall>j v. j < n \<and> j < Suc i \<and> v = first + of_nat j \<longrightarrow> choice_value w v = (j = i))"
    unfolding branch_taken_def by (auto simp: in_take_indexed)
  then show ?thesis unfolding outcome_selected_def by (auto simp: less_Suc_eq)
qed

lemma compile_disjunction_sem:
  assumes ok: "builder_ok bd" and ne: "choices ad \<noteq> []"
    and run: "compile_annotated_disjunction env schemas ad source (first, probs, sources) bd
      = Inr (fs, (nxt, probs', sources'), bd')"
  shows "extends bd bd' \<and> nxt = first + of_nat (stage_count env ad)
    \<and> list_all2 (\<lambda>k f. in_graph bd' f \<and> (\<forall>w. sat bd' w f = outcome_selected w first (stage_count env ad) k))
        [0..<length (choices ad)] fs"
proof -
  obtain explicit ps where ps: "outcome_probs env (map pf_prob (choices ad)) = Inr ps"
    and rest: "(if length ps = 1 then Inr ([bconst_true bd], (first, probs, sources), bd)
        else bind_res (fold_res (chain_step env explicit) (indexed (butlast ps)) ([], first, f64_one, probs, sources))
          (\<lambda>(vars, nxt, _, probs, sources). map_res (\<lambda>(out, bd). (out, (nxt, probs, sources), bd))
            (fold_res (outcome_formula vars) [0..<length (choices ad)] ([], bd))))
      = Inr (fs, (nxt, probs', sources'), bd')"
    using run by (auto simp: compile_annotated_disjunction_def bind_res_Inr_iff)
  have n: "stage_count env ad = length ps - 1" by (simp add: stage_count_def ps)
  show ?thesis
  proof (cases "length ps = 1")
    case True
    then have eqs: "fs = [bconst_true bd]" "nxt = first" "bd' = bd" using rest by auto
    have "length (choices ad) = 1"
      using ps True ne by (auto simp: outcome_probs_def Let_def split: if_splits)
    moreover have "in_graph bd (bconst_true bd)" "sat bd w (bconst_true bd)" for w
      using bsem_consts [OF ok] by (simp_all add: sat_def)
    ultimately show ?thesis using ok by (simp add: eqs n True outcome_selected_def)
  next
    case False
    obtain vars rem probs1 sources1 where
        c: "fold_res (chain_step env explicit) (indexed (butlast ps)) ([], first, f64_one, probs, sources)
          = Inr (vars, nxt, rem, probs1, sources1)"
      and o: "fold_res (outcome_formula vars) [0..<length (choices ad)] ([], bd) = Inr (fs, bd')"
      using rest False by (auto simp: bind_res_Inr_iff map_res_Inr_iff)
    have v: "vars = map (\<lambda>j. first + of_nat j) [0..<length ps - 1]" "nxt = first + of_nat (length ps - 1)"
      using chain_vars [OF c] by simp_all
    show ?thesis
      using outcome_formulas_sem [OF o ok] by (simp add: v n branch_taken_selected)
  qed
qed

lemma add_outcome_step:
  "add_outcome (pf, f) st = bind_res (atom_key_from_ground_atom (pf_atom pf)) (\<lambda>key. insert_ground key f st)"
  by (simp add: add_outcome_def)

lemma add_outcomes_sem:
  assumes "fold_res add_outcome xs (store, bd) = Inr (store', bd')"
    and ok: "builder_ok bd0" and "extends bd0 bd" and "store_ok store bd" and "\<forall>(pf, f) \<in> set xs. in_graph bd0 f"
  shows "extends bd bd' \<and> store_ok store' bd' \<and> (\<forall>w q. store_world store' bd' w q = store_world store bd w q
      \<union> {t. \<exists>(pf, f) \<in> set xs. sat bd0 w f \<and> atom_tuple (pf_atom pf) q t})"
  using assms
proof (induction xs arbitrary: store bd)
  case Nil
  then show ?case by (simp add: extends_ok)
next
  case (Cons x xs)
  obtain pf f where x: "x = (pf, f)" by (cases x)
  obtain key store1 bd1 where key: "atom_key_from_ground_atom (pf_atom pf) = Inr key"
    and one: "insert_ground key f (store, bd) = Inr (store1, bd1)"
    and rest: "fold_res add_outcome xs (store1, bd1) = Inr (store', bd')"
    using Cons.prems(1) by (auto simp: x add_outcome_step bind_res_Inr_iff)
  have f: "in_graph bd0 f" using Cons.prems(5) x by simp
  note s = insert_ground_sem [OF extends_ok [OF Cons.prems(3)] Cons.prems(4) extends_in_graph [OF Cons.prems(3) f] one]
  have e1: "extends bd0 bd1" using extends_trans [OF Cons.prems(3)] s by blast
  have IH: "extends bd1 bd' \<and> store_ok store' bd' \<and> (\<forall>w q. store_world store' bd' w q = store_world store1 bd1 w q
      \<union> {t. \<exists>(pf, f) \<in> set xs. sat bd0 w f \<and> atom_tuple (pf_atom pf) q t})"
    by (rule Cons.IH [OF rest ok e1]) (use s Cons.prems(5) in auto)
  have "store_world store' bd' w q = store_world store bd w q
      \<union> {t. \<exists>(pf, f) \<in> set (x # xs). sat bd0 w f \<and> atom_tuple (pf_atom pf) q t}" for w q
    using IH s extends_sat [OF ok Cons.prems(3) f] by (auto simp: x atom_tuple_def key)
  then show ?case using IH extends_trans [of bd bd1 bd'] s by blast
qed

lemma add_disjunctions_sem:
  assumes "fold_res (add_disjunction env schemas) xs ((first, probs, sources), store, bd) = Inr (st', store', bd')"
    and "builder_ok bd" and "store_ok store bd"
  shows "extends bd bd' \<and> store_ok store' bd' \<and> (\<forall>w q. store_world store' bd' w q =
      store_world store bd w q \<union> disjunctions_world env (map fst xs) first w q)"
  using assms
proof (induction xs arbitrary: first probs sources store bd)
  case Nil
  then show ?case by simp
next
  case (Cons x xs)
  obtain ad source where x: "x = (ad, source)" by (cases x)
  obtain fs nxt probs1 sources1 bd1 store2 bd2 where ne: "choices ad \<noteq> []"
    and c: "compile_annotated_disjunction env schemas ad source (first, probs, sources) bd
      = Inr (fs, (nxt, probs1, sources1), bd1)"
    and a: "fold_res add_outcome (zip (choices ad) fs) (store, bd1) = Inr (store2, bd2)"
    and rest: "fold_res (add_disjunction env schemas) xs ((nxt, probs1, sources1), store2, bd2) = Inr (st', store', bd')"
    using Cons.prems(1)
    by (auto simp: add_disjunction_def x bind_res_Inr_iff map_res_Inr_iff split: if_splits)
  note cs = compile_disjunction_sem [OF Cons.prems(2) ne c]
  have e1: "extends bd bd1" and nxt: "nxt = first + of_nat (stage_count env ad)" using cs by blast+
  have ok1: "builder_ok bd1" by (rule extends_ok [OF e1])
  have len: "length fs = length (choices ad)" using cs list_all2_lengthD by fastforce
  have fs: "in_graph bd1 (fs ! k)" "sat bd1 w (fs ! k) = outcome_selected w first (stage_count env ad) k"
    if "k < length (choices ad)" for k w
    using cs that list_all2_nthD [of _ "[0..<length (choices ad)]" fs k] by force+
  have defined: "\<forall>(pf, f) \<in> set (zip (choices ad) fs). in_graph bd1 f"
    using fs(1) len by (auto simp: in_set_zip)
  note o = add_outcomes_sem [OF a ok1 extends_refl [OF ok1] store_ok_extends [OF Cons.prems(3) e1] defined]
  have chosen: "{t. \<exists>(pf, f) \<in> set (zip (choices ad) fs). sat bd1 w f \<and> atom_tuple (pf_atom pf) q t}
      = disjunction_world env ad first w q" for w q
    using fs(2) len unfolding disjunction_world_def by (force simp: in_set_zip)
  have e2: "extends bd bd2" using extends_trans [OF e1] o by blast
  have IH: "extends bd2 bd' \<and> store_ok store' bd' \<and> (\<forall>w q. store_world store' bd' w q =
      store_world store2 bd2 w q \<union> disjunctions_world env (map fst xs) nxt w q)"
    by (rule Cons.IH [OF rest]) (use o extends_ok [OF e2] in auto)
  have "store_world store' bd' w q = store_world store bd w q \<union> disjunctions_world env (map fst (x # xs)) first w q" for w q
    using IH o store_world_extends [OF Cons.prems(2) e1 Cons.prems(3)] chosen by (simp add: x nxt Un_assoc)
  then show ?case using IH extends_trans [OF e2] by blast
qed

lemma initial_store_world:
  assumes run: "initial_store env schemas source p bd = Inr (leaves, st, store, bd')" and ok: "builder_ok bd"
    and len: "length (prob_facts source) = length (prob_facts p)"
      "length (annotated_disjunctions source) = length (annotated_disjunctions p)"
  shows "builder_ok bd' \<and> store_ok store bd' \<and> (\<forall>w. store_world store bd' w = base_world env p w)"
proof -
  obtain store1 bd1 nxt probs atoms store2 bd2 where
      f: "fold_res add_fact (filter is_fact (rules p)) ([], bd) = Inr (store1, bd1)"
    and pf: "fold_res (add_prob_fact schemas) (zip (prob_facts p) (prob_facts source)) (0, [], [], store1, bd1)
      = Inr (nxt, probs, atoms, store2, bd2)"
    and ad: "fold_res (add_disjunction env schemas) (zip (annotated_disjunctions p) (annotated_disjunctions source))
        ((0, [], []), store2, bd2) = Inr (st, store, bd')"
    using run by (auto simp: initial_store_def bind_res_Inr_iff map_res_Inr_iff)
  have facts: "extends bd bd1 \<and> store_ok store1 bd1
      \<and> (\<forall>w q. store_world store1 bd1 w q = store_world [] bd w q \<union> fact_world (filter is_fact (rules p)) q)"
    by (rule add_facts_sem [OF f ok]) simp_all
  have ok1: "builder_ok bd1" using facts extends_ok by blast
  have probs: "extends bd1 bd2 \<and> store_ok store2 bd2 \<and> nxt = 0 + of_nat (length (zip (prob_facts p) (prob_facts source)))
      \<and> (\<forall>w q. store_world store2 bd2 w q = store_world store1 bd1 w q
          \<union> prob_fact_world (map fst (zip (prob_facts p) (prob_facts source))) 0 w q)"
    by (rule add_prob_facts_sem [OF pf ok1]) (use facts in blast)
  have ok2: "builder_ok bd2" using probs extends_ok by blast
  have ads: "extends bd2 bd' \<and> store_ok store bd' \<and> (\<forall>w q. store_world store bd' w q = store_world store2 bd2 w q
      \<union> disjunctions_world env (map fst (zip (annotated_disjunctions p) (annotated_disjunctions source))) 0 w q)"
    by (rule add_disjunctions_sem [OF ad ok2]) (use probs in blast)
  have "fact_world (filter is_fact (rules p)) q = fact_world (rules p) q" for q by (auto simp: fact_world_def)
  then have "store_world store bd' w = base_world env p w" for w
    using facts probs ads len by (simp add: fun_eq_iff base_world_def store_world_Nil)
  then show ?thesis using ads extends_ok by blast
qed

section \<open>The extracted formulas\<close>

definition extraction_world :: "extraction \<Rightarrow> valuation \<Rightarrow> database" where
  "extraction_world ex w q =
     {t. \<exists>f. (\<lparr>ground_predicate = q, ground_args = t\<rparr>, f) \<in> set (tuple_formulas ex)
           \<and> holds (prov_pir ex) (leaf_value w) (choice_value w) f}"

lemma snapshot_world:
  assumes "store_ok store bd"
  shows "{t. \<exists>f. (\<lparr>ground_predicate = q, ground_args = t\<rparr>, f) \<in> set (snapshot_formulas store)
           \<and> holds (pir bd) (leaf_value w) (choice_value w) f} = store_world store bd w q"
proof -
  have bt: "bt_ok store" using assms by (simp add: store_ok_def)
  have "(\<lparr>ground_predicate = q, ground_args = t\<rparr>, f) \<in> set (snapshot_formulas store)
      \<longleftrightarrow> (\<exists>rel. (q, rel) \<in> set store \<and> (t, f) \<in> set rel)" for t f
    by (force simp: snapshot_formulas_def)
  also have "\<dots> t f \<longleftrightarrow> (t, f) \<in> set (store_relation store q)" for t f
    unfolding bt_ok_lookup [OF bt, symmetric] by (cases "map_of store q") (auto simp: store_relation_def)
  finally show ?thesis by (auto simp: store_world_mem rel_sem_def sat_def bsem_def set_eq_iff)
qed

lemma canonical_lengths:
  assumes "canonicalize_probabilistic_program env schemas source = Inr p"
  shows "length (prob_facts source) = length (prob_facts p)"
    and "length (annotated_disjunctions source) = length (annotated_disjunctions p)"
  using assms traverse_length
  by (fastforce simp: canonicalize_probabilistic_program_def bind_res_Inr_iff map_res_Inr_iff)+

lemma extraction_model:
  assumes run: "extract_from_program env infer source = Inr ex"
    and canon: "canonicalize_probabilistic_program env (prov_schemas ex) source = Inr p"
    and cs: "find_sccs (build_dependency_graph p) = Some sccs"
    and agg: "\<forall>r \<in> set (rules p). \<not> has_aggregation r" and mono: "monotone_cycles p"
  shows "stratified_model env (prov_schemas ex) (map (scc_rules p) sccs) (base_world env p w) (extraction_world ex w)"
proof -
  obtain schemas p' bd0 leaves st store bd store' bd' reports where
      canon': "canonicalize_probabilistic_program env schemas source = Inr p'" and new: "new_builder = Some bd0"
    and init: "initial_store env schemas source p' bd0 = Inr (leaves, st, store, bd)"
    and comp: "eval_components env schemas p' (store, bd) = Inr (store', bd', reports)"
    and ex: "prov_pir ex = pir bd'" "tuple_formulas ex = snapshot_formulas store'" "prov_schemas ex = schemas"
    using run by (auto simp: extract_from_program_def bind_res_Inr_iff split: option.splits)
  have p': "p' = p" using canon canon' ex(3) by simp
  have base: "builder_ok bd \<and> store_ok store bd \<and> (\<forall>w. store_world store bd w = base_world env p w)"
    using initial_store_world [OF init [unfolded p'] new_builder_ok [OF new] canonical_lengths [OF canon]] .
  have "store_ok store' bd' \<and>
      (\<forall>w. stratified_model env schemas (map (scc_rules p) sccs) (store_world store bd w) (store_world store' bd' w))"
    using eval_components_model [OF comp [unfolded p'] _ _ mono cs agg] base by blast
  moreover have "extraction_world ex w = store_world store' bd' w" if "store_ok store' bd'"
    unfolding extraction_world_def fun_eq_iff ex using snapshot_world [OF that] by blast
  ultimately show ?thesis using base by (simp add: ex(3))
qed

section \<open>Completion\<close>








lemma stage_count_bound:
  assumes "compile_annotated_disjunction env schemas ad source st bd = Inr res" and "choices ad \<noteq> []"
  shows "stage_count env ad = length (choices ad) \<or> Suc (stage_count env ad) = length (choices ad)"
proof -
  obtain ps where ps: "outcome_probs env (map pf_prob (choices ad)) = Inr ps"
    using assms(1) by (auto simp: compile_annotated_disjunction_def bind_res_Inr_iff split: prod.splits)
  then show ?thesis
    using assms(2) by (auto simp: stage_count_def outcome_probs_def Let_def split: if_splits)
qed

lemma selected_card:
  assumes n: "n = m \<or> Suc n = m"
  shows "card {k. k < m \<and> outcome_selected w first n k}
    = (if n = m \<and> (\<forall>j < m. \<not> choice_value w (first + of_nat j)) then 0 else 1)"
proof (cases "\<exists>j < n. choice_value w (first + of_nat j)")
  case True
  define k where "k = (LEAST j. choice_value w (first + of_nat j))"
  obtain j where j: "j < n" "choice_value w (first + of_nat j)" using True by blast
  have k: "choice_value w (first + of_nat k)" and least: "\<And>i. i < k \<Longrightarrow> \<not> choice_value w (first + of_nat i)"
    unfolding k_def
    using LeastI [of "\<lambda>j. choice_value w (first + of_nat j)" j, OF j(2)]
      not_less_Least [of _ "\<lambda>j. choice_value w (first + of_nat j)"] by blast+
  have "k < n" using least [of j] j by linarith
  then have "{k. k < m \<and> outcome_selected w first n k} = {k}"
    using n k least by (auto simp: outcome_selected_def) (metis linorder_neqE_nat)+
  then show ?thesis using True n by auto
next
  case False
  then have "{k. k < m \<and> outcome_selected w first n k} = (if n = m then {} else {n})"
    using n by (auto simp: outcome_selected_def less_Suc_eq)
  then show ?thesis using False n by auto
qed

section \<open>An example\<close>

text \<open>Two probabilistic edges, a path relation and a relation with negation. No operation on floats is used.\<close>

definition demo_scalars :: scalar_env where
  "demo_scalars = \<lparr>f32_operation = (\<lambda>_ a _. a), f64_operation = (\<lambda>_ a _. a), f64_of_int = (\<lambda>_. 0),
     f64_of_f32 = ucast, f32_of_f64 = ucast, symbol_of = (\<lambda>_. 0), symbol_text = (\<lambda>_. None)\<rparr>"

definition demo_env :: prob_env where
  "demo_env = \<lparr>scalars = demo_scalars, f64_exp = id, f64_ln = id, hash_order = id\<rparr>"

definition demo_schemas :: schemas where
  "demo_schemas = (\<lambda>_. Some [TyI64, TyI64])"

definition demo_infer :: "program \<Rightarrow> prov_error + schemas" where
  "demo_infer _ = Inr demo_schemas"

definition binary :: "string \<Rightarrow> ast_term \<Rightarrow> ast_term \<Rightarrow> atom" where
  "binary p a b = \<lparr>predicate = p, terms = [a, b]\<rparr>"

definition path_program :: program where
  "path_program = (plain_program
     [\<lparr>head = binary ''path'' (Variable ''X'') (Variable ''Y''),
       body = [Positive (binary ''edge'' (Variable ''X'') (Variable ''Y''))]\<rparr>,
      \<lparr>head = binary ''path'' (Variable ''X'') (Variable ''Z''),
       body = [Positive (binary ''path'' (Variable ''X'') (Variable ''Y'')),
               Positive (binary ''edge'' (Variable ''Y'') (Variable ''Z''))]\<rparr>,
      \<lparr>head = binary ''oneway'' (Variable ''X'') (Variable ''Y''),
       body = [Positive (binary ''path'' (Variable ''X'') (Variable ''Y'')),
               Negated (binary ''path'' (Variable ''Y'') (Variable ''X''))]\<rparr>])
     \<lparr>prob_facts := [\<lparr>pf_prob = 0x3fe0000000000000, pf_atom = binary ''edge'' (Integer 0) (Integer 1)\<rparr>,
                     \<lparr>pf_prob = 0x3fe0000000000000, pf_atom = binary ''edge'' (Integer 1) (Integer 2)\<rparr>]\<rparr>"

lemma path_canonical: "canonicalize_probabilistic_program demo_env demo_schemas path_program = Inr path_program"
  by code_simp

lemma path_runs: "map_res (\<lambda>_. ()) (extract_from_program demo_env demo_infer path_program) = Inr ()"
  by code_simp

lemma path_sccs: "find_sccs (build_dependency_graph path_program) = Some [[''edge''], [''path''], [''oneway'']]"
  by code_simp

lemma path_plain: "\<forall>r \<in> set (rules path_program). \<not> has_aggregation r"
  by code_simp

lemma path_monotone: "monotone_cycles path_program"
proof -
  have "\<forall>scc \<in> set [[''edge''], [''path''], [''oneway'']].
      check_scc_for_negation_cycle scc (build_dependency_graph path_program) = None" by code_simp
  then show ?thesis using negation_cycle_iff [OF path_sccs] by (simp add: monotone_cycles_def)
qed

lemma extraction_schemas:
  assumes "extract_from_program env infer source = Inr ex"
  shows "arithmetic_schemas infer source = Inr (prov_schemas ex)"
  using assms by (auto simp: extract_from_program_def bind_res_Inr_iff split: option.splits)

lemma path_extraction:
  obtains ex where "extract_from_program demo_env demo_infer path_program = Inr ex" and "prov_schemas ex = demo_schemas"
proof -
  obtain ex where ex: "extract_from_program demo_env demo_infer path_program = Inr ex"
    using path_runs by (auto simp: map_res_Inr_iff)
  have "arithmetic_schemas demo_infer path_program = Inr demo_schemas"
    by (simp add: arithmetic_schemas_def demo_infer_def path_program_def plain_program_def)
  then show thesis using that ex extraction_schemas [OF ex] by simp
qed

text \<open>A fair coin as an annotated disjunction; the additions and subtractions it needs are the IEEE ones.\<close>

definition coin_operation :: "binary_operation \<Rightarrow> u64 \<Rightarrow> u64 \<Rightarrow> u64" where
  "coin_operation operation a b =
     (let half = 0x3fe0000000000000; one = f64_one
      in case operation of
        OpAdd \<Rightarrow> if a = 0x8000000000000000 then b
                 else if a = half \<and> b = half then one else 0x3ff0000000001198
      | OpSubtract \<Rightarrow> if a = b then 0 else half
      | _ \<Rightarrow> a)"

definition coin_env :: prob_env where
  "coin_env = demo_env\<lparr>scalars := demo_scalars\<lparr>f64_operation := coin_operation\<rparr>\<rparr>"

definition coin :: annotated_disjunction where
  "coin = \<lparr>choices = [\<lparr>pf_prob = 0x3fe0000000000000, pf_atom = binary ''coin'' (Integer 0) (Integer 0)\<rparr>,
                      \<lparr>pf_prob = 0x3fe0000000000000, pf_atom = binary ''coin'' (Integer 0) (Integer 1)\<rparr>]\<rparr>"

lemma coin_compiles:
  "map_res (\<lambda>(fs, (nxt, _), _). (length fs, nxt))
     (compile_annotated_disjunction coin_env demo_schemas coin coin (7, [], []) demo_base) = Inr (2, 8)"
  by code_simp

section \<open>Properties\<close>

text \<open>C2: extraction is correct in every world: for a program without aggregate heads and without
  negation inside a cycle, the tuples whose formula holds under an assignment of the leaves and choices
  are the stratified model over the facts, the probabilistic facts with a true leaf and the outcomes of
  the annotated disjunctions that the choices select. Every component is a least model over the ones
  below it, so the semi-naive iteration over formulas misses nothing and derives nothing else.\<close>

theorem extraction_possible_worlds:
  assumes "extract_from_program env infer source = Inr ex"
    and "canonicalize_probabilistic_program env (prov_schemas ex) source = Inr p"
    and "find_sccs (build_dependency_graph p) = Some sccs"
    and "\<forall>r \<in> set (rules p). \<not> has_aggregation r" and "monotone_cycles p"
  shows "stratified_model env (prov_schemas ex) (map (scc_rules p) sccs) (base_world env p w) (extraction_world ex w)"
  by (rule extraction_model [OF assms])

theorem extraction_possible_worlds_witness:
  "\<exists>ex. extract_from_program demo_env demo_infer path_program = Inr ex
     \<and> stratified_model demo_env demo_schemas
         (map (scc_rules path_program) [[''edge''], [''path''], [''oneway'']])
         (base_world demo_env path_program (Valuation (\<lambda>i. i = 0) (\<lambda>_. False)))
         (extraction_world ex (Valuation (\<lambda>i. i = 0) (\<lambda>_. False)))"
proof -
  obtain ex where ex: "extract_from_program demo_env demo_infer path_program = Inr ex"
    and sch: "prov_schemas ex = demo_schemas" by (rule path_extraction)
  show ?thesis
    using extraction_possible_worlds [OF ex _ path_sccs path_plain path_monotone, unfolded sch, OF path_canonical] ex
    by blast
qed



text \<open>C38: the outcomes of an annotated disjunction exclude each other, and in every world exactly one of
  them holds unless probability is left over and all decisions are false.\<close>

theorem disjunction_outcomes_exclusive:
  assumes "builder_ok bd" and "choices ad \<noteq> []"
    and "compile_annotated_disjunction env schemas ad source (first, probs, sources) bd
      = Inr (fs, (nxt, probs', sources'), bd')"
  shows "length fs = length (choices ad)
    \<and> length (filter (sat bd' w) fs)
      = (if stage_count env ad = length (choices ad) \<and> (\<forall>j < length (choices ad). \<not> choice_value w (first + of_nat j))
         then 0 else 1)"
proof -
  let ?n = "stage_count env ad" and ?m = "length (choices ad)"
  have len: "length fs = ?m" and f: "\<And>k. k < ?m \<Longrightarrow> sat bd' w (fs ! k) = outcome_selected w first ?n k"
    using compile_disjunction_sem [OF assms] list_all2_nthD [of _ "[0..<?m]" fs] by (auto dest: list_all2_lengthD)
  have n: "?n = ?m \<or> Suc ?n = ?m" using stage_count_bound [OF assms(3)] assms(2) by simp
  have "length (filter (sat bd' w) fs) = card {k. k < ?m \<and> outcome_selected w first ?n k}"
    unfolding length_filter_conv_card len using f by (metis (mono_tags, lifting))
  then show ?thesis using len selected_card [OF n] by simp
qed

theorem disjunction_outcomes_exclusive_witness:
  "\<exists>fs st bd'. compile_annotated_disjunction coin_env demo_schemas coin coin (7, [], []) demo_base = Inr (fs, st, bd')
     \<and> length fs = 2
     \<and> length (filter (sat bd' (Valuation (\<lambda>_. False) (\<lambda>_. False))) fs) = 1"
proof -
  obtain fs nxt probs sources bd' where
      run: "compile_annotated_disjunction coin_env demo_schemas coin coin (7, [], []) demo_base
        = Inr (fs, (nxt, probs, sources), bd')"
    using coin_compiles by (auto simp: map_res_Inr_iff)
  have "builder_ok demo_base" by (rule new_builder_ok [OF demo_base_run])
  moreover have "choices coin \<noteq> []" and "length (choices coin) = 2" by (simp_all add: coin_def)
  moreover have "stage_count coin_env coin = 1" by code_simp
  ultimately show ?thesis
    using disjunction_outcomes_exclusive [OF _ _ run, of "Valuation (\<lambda>_. False) (\<lambda>_. False)"] run by auto
qed

end
