(* ===== verification/Aggregate_Correct.thy ===== *)
theory Aggregate_Correct
  imports Possible_Worlds
begin

text \<open>
  Aggregates over uncertain rows (\<open>count_lift_formulas\<close> and \<open>factorized_aggregate_outcomes\<close> of
  \<open>xlog-prob/src/provenance.rs\<close>): the formulas of the dynamic programs describe, in every world, the
  aggregate of the rows that are present in the world.
\<close>

section \<open>Formulas of a table\<close>

lemma yields_and2:
  assumes "builder_ok bd" and "in_graph bd a" and "in_graph bd b" and "build_and [a, b] bd = Some res"
  shows "yields bd res (\<lambda>w. sat bd w a \<and> sat bd w b)"
proof -
  have "yields bd res (\<lambda>w. \<forall>c \<in> set [a, b]. sat bd w c)" by (rule yields_and [OF assms(1) _ assms(4)]) (use assms in simp)
  then show ?thesis by simp
qed

lemma yields_or2:
  assumes "builder_ok bd" and "in_graph bd a" and "in_graph bd b" and "build_or [a, b] bd = Some res"
  shows "yields bd res (\<lambda>w. sat bd w a \<or> sat bd w b)"
proof -
  have "yields bd res (\<lambda>w. \<exists>c \<in> set [a, b]. sat bd w c)" by (rule yields_or [OF assms(1) _ assms(4)]) (use assms in simp)
  then show ?thesis by simp
qed

definition all_defined :: "node_id list \<Rightarrow> pir_builder \<Rightarrow> bool" where
  "all_defined fs bd = (\<forall>f \<in> set fs. in_graph bd f)"

lemma all_definedD: "all_defined fs bd \<Longrightarrow> k < length fs \<Longrightarrow> in_graph bd (fs ! k)"
  by (simp add: all_defined_def)

lemma all_defined_extends: "all_defined fs bd \<Longrightarrow> extends bd bd' \<Longrightarrow> all_defined fs bd'"
  unfolding all_defined_def using extends_in_graph by blast

lemma all_defined_update: "all_defined fs bd \<Longrightarrow> in_graph bd f \<Longrightarrow> all_defined (fs[k := f]) bd"
  unfolding all_defined_def using set_update_subset_insert [of fs k f] by blast

section \<open>Counting\<close>

text \<open>
  One step of the inner loop: the column keeps the count when the row is absent and the next one
  receives it when the row is present.\<close>

lemma count_columns_step:
  assumes ok: "builder_ok bd" and p: "in_graph bd present" and a: "in_graph bd absent"
    and d: "all_defined dp bd" "s < length dp" and n: "all_defined nxt bd" "Suc s < length nxt"
    and run: "count_columns present absent dp s (Suc left) nxt bd = Inr res"
  obtains nxt1 bd1 where "count_columns present absent dp (Suc s) left nxt1 bd1 = Inr res"
    and "extends bd bd1" and "all_defined nxt1 bd1" and "length nxt1 = length nxt"
    and "\<And>w k. k < length nxt \<Longrightarrow> sat bd1 w (nxt1 ! k) = (sat bd w (nxt ! k)
        \<or> k = s \<and> sat bd w (dp ! s) \<and> sat bd w absent \<or> k = Suc s \<and> sat bd w (dp ! s) \<and> sat bd w present)"
proof -
  obtain ac b1 keep b2 pc b3 more b4 where
      ac: "build_and [dp ! s, absent] bd = Some (ac, b1)" and keep: "build_or [nxt ! s, ac] b1 = Some (keep, b2)"
    and pc: "build_and [dp ! s, present] b2 = Some (pc, b3)" and more: "build_or [nxt ! Suc s, pc] b3 = Some (more, b4)"
    and rest: "count_columns present absent dp (Suc s) left (nxt[s := keep, Suc s := more]) b4 = Inr res"
    using run by (auto simp: bind_res_Inr_iff)
  note ds = all_definedD [OF d] and ns = all_definedD [OF n(1)]
  have y1: "yields bd (ac, b1) (\<lambda>w. sat bd w (dp ! s) \<and> sat bd w absent)" by (rule yields_and2 [OF ok ds a ac])
  note e1 = yieldsD(1) [OF y1] and ok1 = extends_ok [OF yieldsD(1) [OF y1]]
  have y2: "yields b1 (keep, b2) (\<lambda>w. sat b1 w (nxt ! s) \<or> sat b1 w ac)"
    by (rule yields_or2 [OF ok1 _ yieldsD(2) [OF y1] keep]) (use extends_in_graph [OF e1 ns] n(2) in simp)
  note e2 = extends_trans [OF e1 yieldsD(1) [OF y2]] and ok2 = extends_ok [OF yieldsD(1) [OF y2]]
  have y3: "yields b2 (pc, b3) (\<lambda>w. sat b2 w (dp ! s) \<and> sat b2 w present)"
    by (rule yields_and2 [OF ok2 extends_in_graph [OF e2 ds] extends_in_graph [OF e2 p] pc])
  note e3 = extends_trans [OF e2 yieldsD(1) [OF y3]] and ok3 = extends_ok [OF yieldsD(1) [OF y3]]
  have y4: "yields b3 (more, b4) (\<lambda>w. sat b3 w (nxt ! Suc s) \<or> sat b3 w pc)"
    by (rule yields_or2 [OF ok3 extends_in_graph [OF e3 ns [OF n(2)]] yieldsD(2) [OF y3] more])
  have e4: "extends bd b4" by (rule extends_trans [OF e3 yieldsD(1) [OF y4]])
  have e24: "extends b2 b4" by (rule extends_trans [OF yieldsD(1) [OF y3] yieldsD(1) [OF y4]])
  have old: "sat b w i = sat bd w i" if "in_graph bd i" "extends bd b" for b w i
    by (rule extends_sat [OF ok that(2,1)])
  have s: "s < length nxt" using n(2) by simp
  have kept: "sat b4 w keep = (sat bd w (nxt ! s) \<or> sat bd w (dp ! s) \<and> sat bd w absent)" for w
    using extends_sat [OF ok2 e24 yieldsD(2) [OF y2]] yieldsD(3) [OF y2] yieldsD(3) [OF y1] old [OF ns [OF s] e1] by simp
  have moved: "sat b4 w more = (sat bd w (nxt ! Suc s) \<or> sat bd w (dp ! s) \<and> sat bd w present)" for w
    using yieldsD(3) [OF y4] yieldsD(3) [OF y3] old [OF ns [OF n(2)] e3] old [OF ds e2] old [OF p e2] by simp
  show thesis
  proof (rule that [OF rest e4])
    show "all_defined (nxt[s := keep, Suc s := more]) b4"
      by (intro all_defined_update all_defined_extends [OF n(1) e4] extends_in_graph [OF e24 yieldsD(2) [OF y2]]
          yieldsD(2) [OF y4])
    show "sat b4 w (nxt[s := keep, Suc s := more] ! k) = (sat bd w (nxt ! k)
        \<or> k = s \<and> sat bd w (dp ! s) \<and> sat bd w absent \<or> k = Suc s \<and> sat bd w (dp ! s) \<and> sat bd w present)"
      if "k < length nxt" for w k
      using kept moved old [OF ns [OF that] e4] that n(2) by (auto simp: nth_list_update)
  qed simp
qed

lemma count_columns_sem:
  assumes "count_columns present absent dp s left nxt bd = Inr (nxt', bd')"
    and "builder_ok bd0" and "extends bd0 bd" and "in_graph bd0 present" and "in_graph bd0 absent"
    and "all_defined dp bd0" and "s + left \<le> length dp" and "all_defined nxt bd" and "s + left < length nxt"
  shows "extends bd bd' \<and> all_defined nxt' bd' \<and> length nxt' = length nxt
    \<and> (\<forall>w k. k < length nxt \<longrightarrow> sat bd' w (nxt' ! k) = (sat bd w (nxt ! k)
        \<or> s \<le> k \<and> k < s + left \<and> sat bd0 w (dp ! k) \<and> sat bd0 w absent
        \<or> s < k \<and> k \<le> s + left \<and> sat bd0 w (dp ! (k - 1)) \<and> sat bd0 w present))"
  using assms
proof (induction left arbitrary: s nxt bd)
  case 0
  then show ?case using extends_ok by auto
next
  case (Suc left)
  note e = Suc.prems(3) and ok = Suc.prems(2)
  have old: "sat bd w i = sat bd0 w i" if "in_graph bd0 i" for w i by (rule extends_sat [OF ok e that])
  obtain nxt1 bd1 where rest: "count_columns present absent dp (Suc s) left nxt1 bd1 = Inr (nxt', bd')"
    and e1: "extends bd bd1" and d1: "all_defined nxt1 bd1" and len: "length nxt1 = length nxt"
    and m: "\<And>w k. k < length nxt \<Longrightarrow> sat bd1 w (nxt1 ! k) = (sat bd w (nxt ! k)
        \<or> k = s \<and> sat bd w (dp ! s) \<and> sat bd w absent \<or> k = Suc s \<and> sat bd w (dp ! s) \<and> sat bd w present)"
    by (rule count_columns_step [OF extends_ok [OF e] extends_in_graph [OF e Suc.prems(4)]
          extends_in_graph [OF e Suc.prems(5)] all_defined_extends [OF Suc.prems(6) e] _ Suc.prems(8) _ Suc.prems(1)])
      (use Suc.prems(7,9) in simp_all)
  have IH: "extends bd1 bd' \<and> all_defined nxt' bd' \<and> length nxt' = length nxt1
      \<and> (\<forall>w k. k < length nxt1 \<longrightarrow> sat bd' w (nxt' ! k) = (sat bd1 w (nxt1 ! k)
          \<or> Suc s \<le> k \<and> k < Suc s + left \<and> sat bd0 w (dp ! k) \<and> sat bd0 w absent
          \<or> Suc s < k \<and> k \<le> Suc s + left \<and> sat bd0 w (dp ! (k - 1)) \<and> sat bd0 w present))"
    by (rule Suc.IH [OF rest ok extends_trans [OF e e1] Suc.prems(4-6) _ d1]) (use Suc.prems(7,9) len in simp_all)
  have dp: "sat bd w (dp ! s) = sat bd0 w (dp ! s)" for w
    using old [OF all_definedD [OF Suc.prems(6)]] Suc.prems(7) by simp
  have "sat bd' w (nxt' ! k) = (sat bd w (nxt ! k)
      \<or> s \<le> k \<and> k < s + Suc left \<and> sat bd0 w (dp ! k) \<and> sat bd0 w absent
      \<or> s < k \<and> k \<le> s + Suc left \<and> sat bd0 w (dp ! (k - 1)) \<and> sat bd0 w present)" if k: "k < length nxt" for w k
  proof -
    have "sat bd' w (nxt' ! k) = (sat bd1 w (nxt1 ! k)
          \<or> Suc s \<le> k \<and> k < Suc s + left \<and> sat bd0 w (dp ! k) \<and> sat bd0 w absent
          \<or> Suc s < k \<and> k \<le> Suc s + left \<and> sat bd0 w (dp ! (k - 1)) \<and> sat bd0 w present)"
      using IH k len by simp
    also have "sat bd1 w (nxt1 ! k) = (sat bd w (nxt ! k)
        \<or> k = s \<and> sat bd0 w (dp ! s) \<and> sat bd0 w absent \<or> k = Suc s \<and> sat bd0 w (dp ! s) \<and> sat bd0 w present)"
      using m [OF k] dp old [OF Suc.prems(4)] old [OF Suc.prems(5)] by simp
    finally show ?thesis by (cases "k = s"; cases "k = Suc s") auto
  qed
  then show ?case using IH extends_trans [OF e1] len by simp
qed

definition present_count :: "pir_builder \<Rightarrow> valuation \<Rightarrow> agg_row list \<Rightarrow> nat" where
  "present_count bd w rows = length (filter (\<lambda>row. sat bd w (snd row)) rows)"

definition rows_ok :: "agg_row list \<Rightarrow> pir_builder \<Rightarrow> bool" where
  "rows_ok rows bd = (\<forall>row \<in> set rows. in_graph bd (snd row))"

definition counts ::
    "pir_builder \<Rightarrow> agg_row list \<Rightarrow> nat \<Rightarrow> node_id list \<Rightarrow> pir_builder \<Rightarrow> bool" where
  "counts bd0 rows n dp bd =
     (length dp = n + 1 \<and> all_defined dp bd
      \<and> (\<forall>w k. k \<le> n \<longrightarrow> sat bd w (dp ! k) = (present_count bd0 w rows = k)))"

lemma present_count_le: "present_count bd w rows \<le> length rows"
  by (simp add: present_count_def)

lemma count_row_sem:
  assumes ok: "builder_ok bd0" and e: "extends bd0 bd" and row: "in_graph bd0 (snd row)"
    and c: "counts bd0 rows n dp bd" and i: "i = length rows" "i < n"
    and run: "count_row n (i, row) (dp, bd) = Inr (dp', bd')"
  shows "extends bd bd' \<and> counts bd0 (rows @ [row]) n dp' bd'"
proof -
  obtain absent bd1 where neg: "negate_node (snd row) bd = Some (absent, bd1)"
    and cols: "count_columns (snd row) absent dp 0 (Suc i) (replicate (n + 1) (bconst_false bd1)) bd1 = Inr (dp', bd')"
    using run by (auto simp: count_row_def bind_res_Inr_iff)
  have okb: "builder_ok bd" by (rule extends_ok [OF e])
  have rb: "in_graph bd (snd row)" "\<And>w. sat bd w (snd row) = sat bd0 w (snd row)"
    using extends_in_graph [OF e row] extends_sat [OF ok e row] by simp_all
  have y: "yields bd (absent, bd1) (\<lambda>w. \<not> sat bd w (snd row))"
    by (rule negate_yields [OF okb rb(1) neg [unfolded negate_node_def]])
  note e1 = yieldsD(1) [OF y]
  have ok1: "builder_ok bd1" by (rule extends_ok [OF e1])
  have no: "in_graph bd1 (bconst_false bd1)" "\<not> sat bd1 w (bconst_false bd1)" for w
    using bsem_consts [OF ok1] by (simp_all add: sat_def)
  have d: "length dp = n + 1" "all_defined dp bd" "\<And>w k. k \<le> n \<Longrightarrow> sat bd w (dp ! k) = (present_count bd0 w rows = k)"
    using c by (simp_all add: counts_def)
  have dsat: "sat bd1 w (dp ! k) = (present_count bd0 w rows = k)" if "k \<le> n" for w k
    using extends_sat [OF okb e1 all_definedD [OF d(2)]] d(1,3) that by simp
  have cs: "extends bd1 bd' \<and> all_defined dp' bd' \<and> length dp' = length (replicate (n + 1) (bconst_false bd1))
    \<and> (\<forall>w k. k < length (replicate (n + 1) (bconst_false bd1)) \<longrightarrow>
        sat bd' w (dp' ! k) = (sat bd1 w (replicate (n + 1) (bconst_false bd1) ! k)
        \<or> 0 \<le> k \<and> k < 0 + Suc i \<and> sat bd1 w (dp ! k) \<and> sat bd1 w absent
        \<or> 0 < k \<and> k \<le> 0 + Suc i \<and> sat bd1 w (dp ! (k - 1)) \<and> sat bd1 w (snd row)))"
    by (rule count_columns_sem [OF cols ok1 extends_refl [OF ok1] extends_in_graph [OF e1 rb(1)] yieldsD(2) [OF y]
          all_defined_extends [OF d(2) e1]]) (use no i d in \<open>auto simp: all_defined_def\<close>)
  have "sat bd' w (dp' ! k) = (present_count bd0 w (rows @ [row]) = k)" if k: "k \<le> n" for w k
  proof -
    have "sat bd' w (dp' ! k) = (k < Suc i \<and> sat bd1 w (dp ! k) \<and> sat bd1 w absent
        \<or> 0 < k \<and> k \<le> Suc i \<and> sat bd1 w (dp ! (k - 1)) \<and> sat bd1 w (snd row))"
      using cs k no by (simp del: replicate.simps)
    also have "\<dots> = (k < Suc i \<and> present_count bd0 w rows = k \<and> \<not> sat bd0 w (snd row)
        \<or> 0 < k \<and> k \<le> Suc i \<and> present_count bd0 w rows = k - 1 \<and> sat bd0 w (snd row))"
      using dsat [of k w] dsat [of "k - 1" w] k yieldsD(3) [OF y] rb extends_sat [OF okb e1 rb(1)] by simp
    also have "\<dots> = (present_count bd0 w (rows @ [row]) = k)"
      using i unfolding present_count_def by (auto simp: less_Suc_eq_le)
    finally show ?thesis .
  qed
  then show ?thesis using cs extends_trans [OF e1] by (simp add: counts_def)
qed

lemma count_rows_sem:
  assumes "fold_res (count_row (length rows)) (take m (indexed rows)) (dp, bd) = Inr (dp', bd')"
    and ok: "builder_ok bd" and "m \<le> length rows" and "rows_ok rows bd" and "counts bd [] (length rows) dp bd"
  shows "extends bd bd' \<and> counts bd (take m rows) (length rows) dp' bd'"
  using assms(1,3)
proof (induction m arbitrary: dp' bd')
  case 0
  then show ?case using assms ok by simp
next
  case (Suc m)
  have m: "m < length rows" using Suc.prems(2) by simp
  have "take (Suc m) (indexed rows) = take m (indexed rows) @ [(m, rows ! m)]"
    using m in_indexed_iff [of m "rows ! m" rows] by (simp add: take_Suc_conv_app_nth indexed_def)
  then obtain dp1 bd1 where one: "fold_res (count_row (length rows)) (take m (indexed rows)) (dp, bd) = Inr (dp1, bd1)"
    and step: "count_row (length rows) (m, rows ! m) (dp1, bd1) = Inr (dp', bd')"
    using Suc.prems(1) by (auto simp: fold_res_append bind_res_Inr_iff)
  have IH: "extends bd bd1 \<and> counts bd (take m rows) (length rows) dp1 bd1" using Suc.IH [OF one] m by simp
  have row: "in_graph bd (snd (rows ! m))" using assms(4) m by (simp add: rows_ok_def)
  have "extends bd1 bd' \<and> counts bd (take m rows @ [rows ! m]) (length rows) dp' bd'"
    by (rule count_row_sem [OF ok _ row _ _ m step]) (use IH m in simp_all)
  then show ?case using IH extends_trans m by (auto simp: take_Suc_conv_app_nth)
qed

lemma count_lift_sem:
  assumes ok: "builder_ok bd" and rows: "rows_ok rows bd" and run: "count_lift_formulas rows bd = Inr (fs, bd')"
  shows "extends bd bd' \<and> counts bd rows (length rows) fs bd'"
proof -
  let ?start = "(replicate (length rows + 1) (bconst_false bd))[0 := bconst_true bd]"
  note ends = bsem_consts [OF ok]
  have "sat bd w (?start ! k) = (present_count bd w [] = k)" if "k \<le> length rows" for w k
    using ends that by (cases k) (simp_all add: sat_def present_count_def)
  moreover have "all_defined ?start bd" using ends by (simp add: all_defined_def)
  ultimately have start: "counts bd [] (length rows) ?start bd" by (simp add: counts_def)
  have "fold_res (count_row (length rows)) (take (length rows) (indexed rows)) (?start, bd) = Inr (fs, bd')"
    using run by (simp add: count_lift_formulas_def)
  from count_rows_sem [OF this ok order_refl rows start] show ?thesis by simp
qed

section \<open>Other aggregates\<close>

text \<open>What a table of outcomes means: the key whose formula holds in a world.\<close>

definition table_ok :: "dp_table \<Rightarrow> pir_builder \<Rightarrow> bool" where
  "table_ok table bd = (bt_ok table
     \<and> (\<forall>key states f. (key, states, f) \<in> set table \<longrightarrow> fst key = map dp_key states \<and> in_graph bd f))"

definition table_sem ::
    "dp_table \<Rightarrow> pir_builder \<Rightarrow> valuation \<Rightarrow> agg_state_key list \<times> bool \<Rightarrow> bool" where
  "table_sem table bd w key = (\<exists>states f. (key, states, f) \<in> set table \<and> sat bd w f)"

lemma table_sem_lookup:
  "table_ok table bd \<Longrightarrow> table_sem table bd w key = (\<exists>states f. map_of table key = Some (states, f) \<and> sat bd w f)"
  by (simp add: table_sem_def table_ok_def bt_ok_lookup)

lemma table_ok_extends: "table_ok table bd \<Longrightarrow> extends bd bd' \<Longrightarrow> table_ok table bd'"
  unfolding table_ok_def using extends_in_graph by blast

lemma outcomes_sem_extends:
  assumes "builder_ok bd" and "extends bd bd'" and "table_ok table bd"
  shows "table_sem table bd' w key = table_sem table bd w key"
proof -
  have "sat bd' w f = sat bd w f" if "(key, states, f) \<in> set table" for states f
    using extends_sat [OF assms(1,2)] assms(3) that unfolding table_ok_def by blast
  then show ?thesis unfolding table_sem_def by blast
qed

lemma table_insert:
  assumes ok: "table_ok table bd" and key: "fst key = map dp_key states" and f: "in_graph bd f"
  shows "table_ok (bt_insert key (states, f) table) bd"
    and "table_sem (bt_insert key (states, f) table) bd w k = (if k = key then sat bd w f else table_sem table bd w k)"
proof -
  have bt: "bt_ok (bt_insert key (states, f) table)" "bt_ok table" using ok by (simp_all add: table_ok_def)
  have "fst k = map dp_key sts \<and> in_graph bd g" if "(k, sts, g) \<in> set (bt_insert key (states, f) table)" for k sts g
  proof (cases "k = key")
    case True
    have "map_of (bt_insert key (states, f) table) k = Some (sts, g)" using that bt_ok_lookup [OF bt(1)] by blast
    then show ?thesis using key f True by simp
  next
    case False
    have "map_of (bt_insert key (states, f) table) k = Some (sts, g)" using that bt_ok_lookup [OF bt(1)] by blast
    then have "(k, sts, g) \<in> set table" using False bt_ok_lookup [OF bt(2)] by simp
    then show ?thesis using ok unfolding table_ok_def by blast
  qed
  then show t: "table_ok (bt_insert key (states, f) table) bd" using bt(1) unfolding table_ok_def by blast
  show "table_sem (bt_insert key (states, f) table) bd w k = (if k = key then sat bd w f else table_sem table bd w k)"
    unfolding table_sem_lookup [OF t] table_sem_lookup [OF ok] by simp
qed

lemma merge_outcome_sem:
  assumes ok: "builder_ok bd" and t: "table_ok table bd" and key: "fst key = map dp_key states" and f: "in_graph bd f"
    and run: "merge_outcome key states f (table, bd) = Inr (table', bd')"
  shows "extends bd bd' \<and> table_ok table' bd'
    \<and> (\<forall>w k. table_sem table' bd' w k = (table_sem table bd w k \<or> k = key \<and> sat bd w f))"
proof (cases "map_of table key")
  case None
  then have eqs: "table' = bt_insert key (states, f) table" "bd' = bd" using run by (simp_all add: merge_outcome_def)
  have "\<not> table_sem table bd w key" for w unfolding table_sem_lookup [OF t] by (simp add: None)
  then show ?thesis using table_insert [OF t key f] ok by (auto simp: eqs)
next
  case (Some entry)
  obtain sts old where entry: "entry = (sts, old)" by (cases entry)
  obtain i where i: "build_or [old, f] bd = Some (i, bd')" and table': "table' = bt_insert key (sts, i) table"
    using run Some entry by (auto simp: merge_outcome_def map_res_Inr_iff)
  have mem: "(key, sts, old) \<in> set table" using Some entry by (simp add: map_of_SomeD)
  have old: "fst key = map dp_key sts" "in_graph bd old" using mem t unfolding table_ok_def by blast+
  have y: "yields bd (i, bd') (\<lambda>w. sat bd w old \<or> sat bd w f)" by (rule yields_or2 [OF ok old(2) f i])
  note e = yieldsD(1) [OF y] and t' = table_ok_extends [OF t yieldsD(1) [OF y]]
  have "table_sem table bd w key = sat bd w old" for w unfolding table_sem_lookup [OF t] by (simp add: Some entry)
  then show ?thesis
    using table_insert [OF t' old(1) yieldsD(2) [OF y]] e yieldsD(3) [OF y] outcomes_sem_extends [OF ok e t]
    by (auto simp: table')
qed

text \<open>The states a world reaches: the updates by the rows that are present in it.\<close>

definition world_states ::
    "prob_env \<Rightarrow> agg_spec list \<Rightarrow> pir_builder \<Rightarrow> valuation \<Rightarrow> agg_row list \<Rightarrow> agg_state list
     \<Rightarrow> prov_error + agg_state list" where
  "world_states env specs bd w rows =
     fold_res (\<lambda>(b, _). update_aggregate_states env specs b) (filter (\<lambda>row. sat bd w (snd row)) rows)"

definition some_present :: "pir_builder \<Rightarrow> valuation \<Rightarrow> agg_row list \<Rightarrow> bool" where
  "some_present bd w rows = (\<exists>row \<in> set rows. sat bd w (snd row))"

definition outcomes_ok ::
    "prob_env \<Rightarrow> agg_spec list \<Rightarrow> pir_builder \<Rightarrow> agg_state list \<Rightarrow> agg_row list \<Rightarrow> dp_table \<Rightarrow> pir_builder \<Rightarrow> bool" where
  "outcomes_ok env specs bd0 base rows table bd =
     (table_ok table bd \<and> (\<forall>w. \<exists>states. world_states env specs bd0 w rows base = Inr states
        \<and> (\<forall>k. table_sem table bd w k = (k = (map dp_key states, some_present bd0 w rows)))))"

lemma map_dp_key_inject: "map dp_key xs = map dp_key ys \<longleftrightarrow> xs = ys"
  by (simp add: inj_map_eq_map inj_def dp_key_inject)

text \<open>One entry of the table and one row: the two ways to go on.\<close>

definition entry_next ::
    "prob_env \<Rightarrow> agg_spec list \<Rightarrow> pir_builder \<Rightarrow> agg_row \<Rightarrow> (agg_state_key list \<times> bool) \<times> agg_state list \<times> node_id
     \<Rightarrow> valuation \<Rightarrow> agg_state_key list \<times> bool \<Rightarrow> bool" where
  "entry_next env specs bd row = (\<lambda>(key, states, f) w k. sat bd w f
     \<and> (if sat bd w (snd row)
        then \<exists>states'. update_aggregate_states env specs (fst row) states = Inr states' \<and> k = (map dp_key states', True)
        else k = key))"

lemma fold_outcome_sem:
  assumes ok: "builder_ok bd0" and e: "extends bd0 bd" and row: "in_graph bd0 (snd row)"
    and absent: "in_graph bd0 absent" "\<And>w. sat bd0 w absent = (\<not> sat bd0 w (snd row))"
    and entry: "fst key = map dp_key states" "in_graph bd0 f" and t: "table_ok table bd"
    and run: "fold_outcome env specs row absent (key, states, f) (table, bd) = Inr (table', bd')"
  shows "extends bd bd' \<and> table_ok table' bd' \<and> (\<forall>w k. table_sem table' bd' w k
      = (table_sem table bd w k \<or> entry_next env specs bd0 row (key, states, f) w k))"
    and "\<exists>states'. update_aggregate_states env specs (fst row) states = Inr states'"
proof -
  obtain keys flag where key: "key = (keys, flag)" by (cases key)
  obtain sts pp b1 t1 b2 ap b3 where u: "update_aggregate_states env specs (fst row) states = Inr sts"
    and pp: "build_and [f, snd row] bd = Some (pp, b1)"
    and m1: "merge_outcome (map dp_key sts, True) sts pp (table, b1) = Inr (t1, b2)"
    and ap: "build_and [f, absent] b2 = Some (ap, b3)" and m2: "merge_outcome key states ap (t1, b3) = Inr (table', bd')"
    using run by (auto simp: fold_outcome_def key bind_res_Inr_iff)
  have okb: "builder_ok bd" by (rule extends_ok [OF e])
  have y1: "yields bd (pp, b1) (\<lambda>w. sat bd w f \<and> sat bd w (snd row))"
    by (rule yields_and2 [OF okb extends_in_graph [OF e entry(2)] extends_in_graph [OF e row] pp])
  note e1 = yieldsD(1) [OF y1] and ok1 = extends_ok [OF yieldsD(1) [OF y1]]
  note s1 = merge_outcome_sem [OF ok1 table_ok_extends [OF t e1] fst_conv yieldsD(2) [OF y1] m1]
  have e2: "extends bd b2" using extends_trans [OF e1] s1 by blast
  have ok2: "builder_ok b2" by (rule extends_ok [OF e2])
  note e02 = extends_trans [OF e e2]
  have y2: "yields b2 (ap, b3) (\<lambda>w. sat b2 w f \<and> sat b2 w absent)"
    by (rule yields_and2 [OF ok2 extends_in_graph [OF e02 entry(2)] extends_in_graph [OF e02 absent(1)] ap])
  note e3 = yieldsD(1) [OF y2] and ok3 = extends_ok [OF yieldsD(1) [OF y2]]
  have t1: "table_ok t1 b3" using table_ok_extends [OF _ e3] s1 by blast
  note s2 = merge_outcome_sem [OF ok3 t1 entry(1) yieldsD(2) [OF y2] m2]
  have old: "sat b w i = sat bd0 w i" if "in_graph bd0 i" "extends bd0 b" for b w i by (rule extends_sat [OF ok that(2,1)])
  have "table_sem table' bd' w k = (table_sem table bd w k \<or> entry_next env specs bd0 row (key, states, f) w k)" for w k
  proof -
    have "table_sem table' bd' w k = (table_sem t1 b3 w k \<or> k = key \<and> sat b3 w ap)" using s2 by blast
    also have "sat b3 w ap = (sat bd0 w f \<and> \<not> sat bd0 w (snd row))"
      using yieldsD(3) [OF y2] old [OF entry(2) e02] old [OF absent(1) e02] absent(2) by simp
    also have "table_sem t1 b3 w k = table_sem t1 b2 w k" using outcomes_sem_extends [OF ok2 e3] s1 by blast
    also have "\<dots> = (table_sem table b1 w k \<or> k = (map dp_key sts, True) \<and> sat b1 w pp)" using s1 by blast
    also have "table_sem table b1 w k = table_sem table bd w k" by (rule outcomes_sem_extends [OF okb e1 t])
    also have "sat b1 w pp = (sat bd0 w f \<and> sat bd0 w (snd row))"
      using yieldsD(3) [OF y1] old [OF entry(2) e] old [OF row e] by simp
    finally show ?thesis by (auto simp: entry_next_def u)
  qed
  then show "extends bd bd' \<and> table_ok table' bd' \<and> (\<forall>w k. table_sem table' bd' w k
      = (table_sem table bd w k \<or> entry_next env specs bd0 row (key, states, f) w k))"
    using s2 extends_trans [OF extends_trans [OF e2 e3]] by blast
  show "\<exists>states'. update_aggregate_states env specs (fst row) states = Inr states'" using u by blast
qed

lemma fold_outcomes_sem:
  assumes "fold_res (fold_outcome env specs row absent) xs (table, bd) = Inr (table', bd')"
    and ok: "builder_ok bd0" and "extends bd0 bd" and row: "in_graph bd0 (snd row)"
    and absent: "in_graph bd0 absent" "\<And>w. sat bd0 w absent = (\<not> sat bd0 w (snd row))"
    and xs: "\<forall>(key, states, f) \<in> set xs. fst key = map dp_key states \<and> in_graph bd0 f" and "table_ok table bd"
  shows "extends bd bd' \<and> table_ok table' bd'
    \<and> (\<forall>(key, states, f) \<in> set xs. \<exists>states'. update_aggregate_states env specs (fst row) states = Inr states')
    \<and> (\<forall>w k. table_sem table' bd' w k = (table_sem table bd w k \<or> (\<exists>x \<in> set xs. entry_next env specs bd0 row x w k)))"
  using assms(1,3,7,8)
proof (induction xs arbitrary: table bd)
  case Nil
  then show ?case by (simp add: extends_ok)
next
  case (Cons x xs)
  obtain key states f where x: "x = (key, states, f)" by (cases x)
  obtain t1 bd1 where one: "fold_outcome env specs row absent (key, states, f) (table, bd) = Inr (t1, bd1)"
    and rest: "fold_res (fold_outcome env specs row absent) xs (t1, bd1) = Inr (table', bd')"
    using Cons.prems(1) by (auto simp: x bind_res_Inr_iff)
  have entry: "fst key = map dp_key states" "in_graph bd0 f" using Cons.prems(3) x by auto
  note s = fold_outcome_sem [OF ok Cons.prems(2) row absent entry Cons.prems(4) one]
  have e1: "extends bd0 bd1" using extends_trans [OF Cons.prems(2)] s(1) by blast
  have IH: "extends bd1 bd' \<and> table_ok table' bd'
      \<and> (\<forall>(key, states, f) \<in> set xs. \<exists>states'. update_aggregate_states env specs (fst row) states = Inr states')
      \<and> (\<forall>w k. table_sem table' bd' w k = (table_sem t1 bd1 w k \<or> (\<exists>x \<in> set xs. entry_next env specs bd0 row x w k)))"
    by (rule Cons.IH [OF rest e1]) (use Cons.prems(3) s(1) in auto)
  have "table_sem table' bd' w k
      = (table_sem table bd w k \<or> (\<exists>x \<in> set (x # xs). entry_next env specs bd0 row x w k))" for w k
  proof -
    have "table_sem table' bd' w k = (table_sem t1 bd1 w k \<or> (\<exists>x \<in> set xs. entry_next env specs bd0 row x w k))"
      using IH by blast
    moreover have "table_sem t1 bd1 w k
        = (table_sem table bd w k \<or> entry_next env specs bd0 row (key, states, f) w k)" using s(1) by blast
    ultimately show ?thesis by (simp add: x disj_assoc)
  qed
  moreover have "\<forall>(key, states, f) \<in> set (x # xs). \<exists>states'. update_aggregate_states env specs (fst row) states = Inr states'"
    using IH s(2) by (auto simp: x)
  ultimately show ?case using IH extends_trans [of bd bd1 bd'] s(1) by blast
qed

lemma world_states_snoc:
  "world_states env specs bd w (rows @ [row]) base = bind_res (world_states env specs bd w rows base)
     (\<lambda>states. if sat bd w (snd row) then update_aggregate_states env specs (fst row) states else Inr states)"
  by (cases row; cases "world_states env specs bd w rows base") (auto simp: world_states_def fold_res_append bind_res_def split: sum.split)

lemma fold_uncertain_row_sem:
  assumes ok: "builder_ok bd0" and e: "extends bd0 bd" and row: "in_graph bd0 (snd row)"
    and o: "outcomes_ok env specs bd0 base rows dp bd"
    and run: "fold_uncertain_row env specs row (dp, n, bd) = Inr (dp', n', bd')"
  shows "extends bd bd' \<and> outcomes_ok env specs bd0 base (rows @ [row]) dp' bd'"
proof -
  obtain absent bd1 where neg: "negate_node (snd row) bd = Some (absent, bd1)"
    and f: "fold_res (fold_outcome env specs row absent) dp ([], bd1) = Inr (dp', bd')"
    using run by (auto simp: fold_uncertain_row_def bind_res_Inr_iff map_res_Inr_iff)
  have okb: "builder_ok bd" by (rule extends_ok [OF e])
  have rb: "in_graph bd (snd row)" by (rule extends_in_graph [OF e row])
  have y: "yields bd (absent, bd1) (\<lambda>w. \<not> sat bd w (snd row))"
    by (rule negate_yields [OF okb rb neg [unfolded negate_node_def]])
  note e1 = yieldsD(1) [OF y]
  have ok1: "builder_ok bd1" by (rule extends_ok [OF e1])
  have t: "table_ok dp bd" using o by (simp add: outcomes_ok_def)
  have t1: "table_ok dp bd1" by (rule table_ok_extends [OF t e1])
  have rsat: "sat bd1 w (snd row) = sat bd0 w (snd row)" for w
    by (rule extends_sat [OF ok extends_trans [OF e e1] row])
  have fold: "extends bd1 bd' \<and> table_ok dp' bd'
    \<and> (\<forall>(key, states, f) \<in> set dp. \<exists>states'. update_aggregate_states env specs (fst row) states = Inr states')
    \<and> (\<forall>w k. table_sem dp' bd' w k = (table_sem [] bd1 w k \<or> (\<exists>x \<in> set dp. entry_next env specs bd1 row x w k)))"
  proof (rule fold_outcomes_sem [OF f ok1 extends_refl [OF ok1] extends_in_graph [OF e1 rb] yieldsD(2) [OF y]])
    show "sat bd1 w absent = (\<not> sat bd1 w (snd row))" for w
      using yieldsD(3) [OF y] extends_sat [OF okb e1 rb] by simp
    show "\<forall>(key, states, f) \<in> set dp. fst key = map dp_key states \<and> in_graph bd1 f" using t1 unfolding table_ok_def by blast
    show "table_ok [] bd1" by (simp add: table_ok_def bt_ok_def)
  qed
  have "\<exists>states. world_states env specs bd0 w (rows @ [row]) base = Inr states
      \<and> (\<forall>k. table_sem dp' bd' w k = (k = (map dp_key states, some_present bd0 w (rows @ [row]))))" for w
  proof -
    obtain states where st: "world_states env specs bd0 w rows base = Inr states"
      and k: "\<And>k. table_sem dp bd w k = (k = (map dp_key states, some_present bd0 w rows))"
      using o unfolding outcomes_ok_def by blast
    have k1: "table_sem dp bd1 w k = (k = (map dp_key states, some_present bd0 w rows))" for k
      using outcomes_sem_extends [OF okb e1 t] k by simp
    have states: "sts = states" if "(key, sts, f) \<in> set dp" "sat bd1 w f" for key sts f
    proof -
      have "table_sem dp bd1 w key" using that unfolding table_sem_def by blast
      then have "fst key = map dp_key states" using k1 by simp
      moreover have "fst key = map dp_key sts" using that(1) t unfolding table_ok_def by blast
      ultimately show ?thesis by (metis map_dp_key_inject)
    qed
    have entry: "\<exists>f. (((map dp_key states, some_present bd0 w rows), states, f) \<in> set dp \<and> sat bd1 w f)"
      using k1 [of "(map dp_key states, some_present bd0 w rows)"] states unfolding table_sem_def by blast
    obtain states' where u: "update_aggregate_states env specs (fst row) states = Inr states'"
      using fold entry by blast
    let ?now = "if sat bd0 w (snd row) then (map dp_key states', True) else (map dp_key states, some_present bd0 w rows)"
    have next_key: "(\<exists>x \<in> set dp. entry_next env specs bd1 row x w k) = (k = ?now)" for k
    proof
      assume "\<exists>x \<in> set dp. entry_next env specs bd1 row x w k"
      then obtain key sts f where x: "(key, sts, f) \<in> set dp" "entry_next env specs bd1 row (key, sts, f) w k" by (metis prod_cases3)
      then have f: "sat bd1 w f" by (simp add: entry_next_def)
      have "key = (map dp_key states, some_present bd0 w rows)" using k1 x(1) f unfolding table_sem_def by blast
      then show "k = ?now" using x(2) states [OF x(1) f] u by (auto simp: entry_next_def rsat)
    next
      assume k: "k = ?now"
      obtain f where f: "((map dp_key states, some_present bd0 w rows), states, f) \<in> set dp" "sat bd1 w f" using entry by blast
      have "entry_next env specs bd1 row ((map dp_key states, some_present bd0 w rows), states, f) w k"
        using f(2) u by (auto simp: entry_next_def rsat k)
      then show "\<exists>x \<in> set dp. entry_next env specs bd1 row x w k" using f(1) by blast
    qed
    have empty: "\<not> table_sem [] bd1 w k" for k by (simp add: table_sem_def)
    have sem: "table_sem dp' bd' w k = (k = ?now)" for k using fold next_key empty by blast
    show ?thesis unfolding sem using u st by (simp add: world_states_snoc some_present_def)
  qed
  then show ?thesis using fold extends_trans [OF e1] by (simp add: outcomes_ok_def)
qed

lemma fold_uncertain_rows_sem:
  assumes "fold_res (fold_uncertain_row env specs) rows (dp, n, bd) = Inr (dp', n', bd')"
    and ok: "builder_ok bd0" and "extends bd0 bd" and "rows_ok rows bd0" and "outcomes_ok env specs bd0 base before dp bd"
  shows "extends bd bd' \<and> outcomes_ok env specs bd0 base (before @ rows) dp' bd'"
  using assms(1,3-5)
proof (induction rows arbitrary: before dp n bd)
  case Nil
  then show ?case by (simp add: extends_ok)
next
  case (Cons row rows)
  obtain dp1 n1 bd1 where one: "fold_uncertain_row env specs row (dp, n, bd) = Inr (dp1, n1, bd1)"
    and rest: "fold_res (fold_uncertain_row env specs) rows (dp1, n1, bd1) = Inr (dp', n', bd')"
    using Cons.prems(1) by (auto simp: bind_res_Inr_iff)
  have row: "in_graph bd0 (snd row)" and rows: "rows_ok rows bd0" using Cons.prems(3) by (simp_all add: rows_ok_def)
  note s = fold_uncertain_row_sem [OF ok Cons.prems(2) row Cons.prems(4) one]
  have "extends bd1 bd' \<and> outcomes_ok env specs bd0 base ((before @ [row]) @ rows) dp' bd'"
    by (rule Cons.IH [OF rest _ rows]) (use s extends_trans [OF Cons.prems(2)] in blast)+
  then show ?case using s extends_trans [of bd bd1 bd'] by simp
qed

lemma outcome_members:
  "((sts, any, f) \<in> set (map (\<lambda>((_, selected_any), (states, proof)). (states, selected_any, proof)) dp))
    = (\<exists>keys. ((keys, any), sts, f) \<in> set dp)"
  by force

lemma factorized_outcomes_sem:
  assumes ok: "builder_ok bd" and rows: "rows_ok uncertain bd"
    and run: "factorized_aggregate_outcomes env specs always uncertain bd = Inr ((outcomes, n), bd')"
  shows "\<exists>states. fold_res (\<lambda>(b, _). update_aggregate_states env specs b)
        (always @ filter (\<lambda>row. sat bd w (snd row)) uncertain) (map (\<lambda>(aop, _). new_state aop) specs) = Inr states
    \<and> {(sts, any). \<exists>f. (sts, any, f) \<in> set outcomes \<and> sat bd' w f}
      = {(states, \<exists>row \<in> set uncertain. sat bd w (snd row))}"
proof -
  let ?start = "map (\<lambda>(aop, _). new_state aop) specs"
  obtain base dp where b: "fold_res (\<lambda>(b, _). update_aggregate_states env specs b) always ?start = Inr base"
    and f: "fold_res (fold_uncertain_row env specs) uncertain
        ([((map dp_key base, False), (base, bconst_true bd))], 1, bd) = Inr (dp, n, bd')"
    and out: "outcomes = map (\<lambda>((_, selected_any), (states, proof)). (states, selected_any, proof)) dp"
    using run by (auto simp: factorized_aggregate_outcomes_def bind_res_Inr_iff map_res_Inr_iff)
  have start: "outcomes_ok env specs bd base [] [((map dp_key base, False), (base, bconst_true bd))] bd"
    using bsem_consts [OF ok]
    by (auto simp: outcomes_ok_def table_ok_def bt_ok_def table_sem_def world_states_def some_present_def sat_def)
  have fin: "outcomes_ok env specs bd base uncertain dp bd'"
    using fold_uncertain_rows_sem [OF f ok extends_refl [OF ok] rows start] by simp
  obtain states where st: "world_states env specs bd w uncertain base = Inr states"
    and k: "\<And>k. table_sem dp bd' w k = (k = (map dp_key states, some_present bd w uncertain))"
    using fin unfolding outcomes_ok_def by blast
  have keys: "fst key = map dp_key sts" if "(key, sts, f) \<in> set dp" for key sts f
    using fin that unfolding outcomes_ok_def table_ok_def by blast
  have "(\<exists>f. (sts, any, f) \<in> set outcomes \<and> sat bd' w f) = (sts = states \<and> any = some_present bd w uncertain)" for sts any
  proof -
    have "(\<exists>f. (sts, any, f) \<in> set outcomes \<and> sat bd' w f)
        = (\<exists>f. ((map dp_key sts, any), sts, f) \<in> set dp \<and> sat bd' w f)"
      unfolding out outcome_members using keys by fastforce
    also have "\<dots> = table_sem dp bd' w (map dp_key sts, any)"
      unfolding table_sem_def using keys by (metis fst_conv map_dp_key_inject)
    finally show ?thesis by (simp add: k map_dp_key_inject)
  qed
  then have "{(sts, any). \<exists>f. (sts, any, f) \<in> set outcomes \<and> sat bd' w f} = {(states, some_present bd w uncertain)}" by auto
  moreover have "fold_res (\<lambda>(b, _). update_aggregate_states env specs b)
      (always @ filter (\<lambda>row. sat bd w (snd row)) uncertain) ?start = Inr states"
    using b st by (simp add: fold_res_append world_states_def)
  ultimately show ?thesis by (simp add: some_present_def)
qed

section \<open>An example\<close>

text \<open>Two uncertain rows, one for each of the leaves of \<open>demo_lits\<close>.\<close>

definition demo_rows :: "agg_row list" where
  "demo_rows = [([(''X'', PvI64 3)], 2), ([(''X'', PvI64 4)], 3)]"

lemma demo_rows_ok: "builder_ok demo_lits" "rows_ok demo_rows demo_lits"
proof -
  have ok0: "builder_ok demo_base" by (rule new_builder_ok [OF demo_base_run])
  have y0: "yields demo_base (2, snd (the (build_lit 0 demo_base))) (\<lambda>w. leaf_value w 0)"
    by (rule yields_op) (use build_lit_ok [OF ok0 demo_lit0_run] in simp)
  have y1: "yields (snd (the (build_lit 0 demo_base))) (3, demo_lits) (\<lambda>w. leaf_value w 1)"
    by (rule yields_op) (use build_lit_ok [OF extends_ok [OF yieldsD(1) [OF y0]] demo_lits_run] in simp)
  show "builder_ok demo_lits" by (rule extends_ok [OF yieldsD(1) [OF y1]])
  show "rows_ok demo_rows demo_lits"
    using yieldsD(2) [OF y1] extends_in_graph [OF yieldsD(1) [OF y1] yieldsD(2) [OF y0]]
    by (simp add: rows_ok_def demo_rows_def)
qed

section \<open>Properties\<close>

text \<open>C39: count lifting is exact: among the formulas it returns, the \<open>k\<close>-th holds in a world exactly when
  \<open>k\<close> of the uncertain rows are present in it.\<close>

theorem count_lift_exact:
  assumes "builder_ok bd" and "rows_ok rows bd" and "count_lift_formulas rows bd = Inr (fs, bd')" and "k \<le> length rows"
  shows "length fs = length rows + 1
    \<and> sat bd' w (fs ! k) = (length (filter (\<lambda>row. sat bd w (snd row)) rows) = k)"
  using count_lift_sem [OF assms(1-3)] assms(4) by (simp add: counts_def present_count_def)

theorem count_lift_exact_witness:
  "\<exists>fs bd'. count_lift_formulas demo_rows demo_lits = Inr (fs, bd')
     \<and> length fs = 3
     \<and> sat bd' (Valuation (\<lambda>i. i = 0) (\<lambda>_. False)) (fs ! 1)
       = (length (filter (\<lambda>row. sat demo_lits (Valuation (\<lambda>i. i = 0) (\<lambda>_. False)) (snd row)) demo_rows) = 1)"
proof -
  have "map_res (\<lambda>_. ()) (count_lift_formulas demo_rows demo_lits) = Inr ()" by code_simp
  then obtain fs bd' where run: "count_lift_formulas demo_rows demo_lits = Inr (fs, bd')"
    by (auto simp: map_res_Inr_iff)
  have "length demo_rows = 2" by (simp add: demo_rows_def)
  then show ?thesis using count_lift_exact [OF demo_rows_ok run, of 1] run by auto
qed

text \<open>C10: the folding of aggregate outcomes is exact: in every world exactly one outcome has a true formula,
  and its states are those of updating with the certain rows and then with the uncertain rows that are
  present, in order.\<close>

theorem aggregate_outcomes_exact:
  assumes "builder_ok bd" and "rows_ok uncertain bd"
    and "factorized_aggregate_outcomes env specs always uncertain bd = Inr ((outcomes, n), bd')"
  shows "\<exists>states. fold_res (\<lambda>(b, _). update_aggregate_states env specs b)
        (always @ filter (\<lambda>row. sat bd w (snd row)) uncertain) (map (\<lambda>(aop, _). new_state aop) specs) = Inr states
    \<and> {(sts, any). \<exists>f. (sts, any, f) \<in> set outcomes \<and> sat bd' w f}
      = {(states, \<exists>row \<in> set uncertain. sat bd w (snd row))}"
  by (rule factorized_outcomes_sem [OF assms])

theorem aggregate_outcomes_exact_witness:
  "\<exists>outcomes n bd' states.
     factorized_aggregate_outcomes demo_env [(AggSum, ''X'')] [] demo_rows demo_lits = Inr ((outcomes, n), bd')
     \<and> {(sts, any). \<exists>f. (sts, any, f) \<in> set outcomes \<and> sat bd' (Valuation (\<lambda>i. i = 0) (\<lambda>_. False)) f}
       = {(states, \<exists>row \<in> set demo_rows. sat demo_lits (Valuation (\<lambda>i. i = 0) (\<lambda>_. False)) (snd row))}"
proof -
  have "map_res (\<lambda>_. ()) (factorized_aggregate_outcomes demo_env [(AggSum, ''X'')] [] demo_rows demo_lits) = Inr ()"
    by code_simp
  then obtain outcomes n bd' where
      run: "factorized_aggregate_outcomes demo_env [(AggSum, ''X'')] [] demo_rows demo_lits = Inr ((outcomes, n), bd')"
    by (auto simp: map_res_Inr_iff)
  obtain states where
      "{(sts, any). \<exists>f. (sts, any, f) \<in> set outcomes \<and> sat bd' (Valuation (\<lambda>i. i = 0) (\<lambda>_. False)) f}
       = {(states, \<exists>row \<in> set demo_rows. sat demo_lits (Valuation (\<lambda>i. i = 0) (\<lambda>_. False)) (snd row))}"
    using aggregate_outcomes_exact [OF demo_rows_ok run, of "Valuation (\<lambda>i. i = 0) (\<lambda>_. False)"]
    by (elim exE conjE)
  then show ?thesis by (intro exI conjI) (rule run)
qed

end
