(* ===== verification/Rir.thy ===== *)
theory Rir
  imports Arithmetic "HOL-Library.Multiset"
begin

text \<open>
  Relational plans (\<open>xlog-ir/src/rir.rs\<close>) and what the executor computes from them
  (\<open>xlog-runtime/src/executor/node_dispatch.rs\<close>, \<open>expression.rs\<close>). A buffer is its column types and
  the list of its rows; the order of the rows stands for the order the device happens to produce. Two
  values are equal when their stored bytes are. The scalar kernels of the provider, and the operations
  that compiled rules do not use, are the record \<open>engine\<close>; \<open>None\<close> is an error of the executor.
  Limits on row counts and row capacities are not modelled.
\<close>

section \<open>Plans\<close>

type_synonym rel_id = u32

datatype join_type = InnerJoin | LeftOuterJoin | SemiJoin | AntiJoin

datatype compare_op = CmpEq | CmpNe | CmpLt | CmpLe | CmpGt | CmpGe

datatype core_agg_op = CoreCount | CoreSum | CoreMin | CoreMax | CoreLogSumExp

datatype rexpr =
    EColumn nat
  | EConst const_value
  | ECompare rexpr compare_op rexpr
  | EAnd "rexpr list"
  | EOr "rexpr list"
  | ENot rexpr
  | EAdd rexpr rexpr
  | ESub rexpr rexpr
  | EMul rexpr rexpr
  | EDiv rexpr rexpr
  | EMod rexpr rexpr
  | EAbs rexpr
  | EMin rexpr rexpr
  | EMax rexpr rexpr
  | EPow rexpr rexpr
  | ECast rexpr scalar_type
  | ECond rexpr rexpr rexpr

datatype project_expr = PColumn nat | Computed rexpr scalar_type

record lookup_perm =
  input_idx :: u8
  lookup_swap :: bool

record column_swap =
  edge_slot :: u8
  swap_cols :: bool

record sorted_layout_spec =
  layout_slots :: "u8 list"
  key_columns :: "u8 list list"

record helper_split_spec =
  helper_id :: u8
  split_variable :: u8
  helper_slots :: "u8 list"

record kclique_variable_order =
  clique_k :: u8
  variable_positions :: "u8 list"
  edge_permutation :: "u8 list"
  column_swaps :: "column_swap list"
  sorted_layout_requirements :: sorted_layout_spec
  helper_split_specs :: "helper_split_spec list"
  stream_group :: u8

datatype planned_hash_reason = PlannerPredictsHashWins | IncompleteStatsSafeDefault

record cost_prediction =
  wcoj_cost :: u64
  hash_cost :: u64

datatype multiway_plan =
    WcojWithPlan kclique_variable_order
  | PlannedHashRoute planned_hash_reason cost_prediction
  | FreeJoin

record plan_order =
  leader_idx :: u8
  lookup_perms :: "lookup_perm list"
  kernel_output_cols :: "project_expr list"
  kclique :: "kclique_variable_order option"

record tensor_join =
  mask_name :: string
  schema_size :: nat
  tensor_left_keys :: "nat list"
  tensor_right_keys :: "nat list"
  rel_index :: "(rel_id \<times> string) list"
  head_rel_name :: string
  head_rel_id :: rel_id
  max_active_rules :: nat
  head_projection :: "nat list"

datatype rir_node =
    UnitNode
  | ScanNode rel_id
  | FilterNode rir_node rexpr
  | ProjectNode rir_node "project_expr list"
  | JoinNode rir_node rir_node "nat list" "nat list" join_type
  | ChainJoinNode rir_node rir_node nat nat "project_expr list" rir_node
  | GroupByNode rir_node "nat list" "(nat \<times> core_agg_op) list"
  | UnionNode "rir_node list"
  | DistinctNode rir_node "nat list"
  | DiffNode rir_node rir_node
  | FixpointNode u32 rir_node rir_node rel_id rel_id
  | MultiWayJoinNode "rir_node list" "nat option list list" "project_expr list" rir_node
      "multiway_plan option" "plan_order option"
  | TensorMaskedJoinNode tensor_join

definition is_leaf :: "rir_node \<Rightarrow> bool" where
  "is_leaf n = (case n of ScanNode _ \<Rightarrow> True | _ \<Rightarrow> False)"

text \<open>A multiway join is visited through its inputs, since its fallback names the same relations.\<close>

fun referenced_relations :: "rir_node \<Rightarrow> rel_id list" where
  "referenced_relations UnitNode = []"
| "referenced_relations (ScanNode rel) = [rel]"
| "referenced_relations (FilterNode input p) = referenced_relations input"
| "referenced_relations (ProjectNode input cols) = referenced_relations input"
| "referenced_relations (JoinNode l r lk rk jt) = referenced_relations l @ referenced_relations r"
| "referenced_relations (ChainJoinNode l r lk rk cols fallback) = referenced_relations l @ referenced_relations r"
| "referenced_relations (DiffNode l r) = referenced_relations l @ referenced_relations r"
| "referenced_relations (UnionNode inputs) = concat (map referenced_relations inputs)"
| "referenced_relations (GroupByNode input ks aggs) = referenced_relations input"
| "referenced_relations (DistinctNode input ks) = referenced_relations input"
| "referenced_relations (FixpointNode scc base recursive delta full) =
     referenced_relations base @ referenced_relations recursive @ [delta, full]"
| "referenced_relations (TensorMaskedJoinNode t) = map fst (rel_index t)"
| "referenced_relations (MultiWayJoinNode inputs slots cols fallback plan order) =
     concat (map referenced_relations inputs)"

section \<open>The engine\<close>

record 'v buffer =
  btypes :: "scalar_type list"
  brows :: "'v list list"

text \<open>
  The kernels the executor calls: constant columns, arithmetic, casts and comparisons of columns of one
  type, aggregation of the values of a group, and the node kinds that stay outside the model.
\<close>

record 'v engine =
  const_column :: "const_value \<Rightarrow> 'v"
  type_of_val :: "'v \<Rightarrow> scalar_type"
  column_op :: "binary_operation \<Rightarrow> 'v \<Rightarrow> 'v \<Rightarrow> 'v option"
  abs_column :: "'v \<Rightarrow> 'v option"
  cast_column :: "'v \<Rightarrow> scalar_type \<Rightarrow> 'v option"
  compare_columns :: "compare_op \<Rightarrow> 'v \<Rightarrow> 'v \<Rightarrow> bool"
  group_aggregate :: "core_agg_op \<Rightarrow> 'v multiset \<Rightarrow> 'v"
  left_outer_join :: "'v buffer \<Rightarrow> 'v buffer \<Rightarrow> nat list \<Rightarrow> nat list \<Rightarrow> 'v buffer option"
  dedup_columns :: "'v buffer \<Rightarrow> nat list \<Rightarrow> 'v buffer option"
  other_node :: "rir_node \<Rightarrow> 'v buffer option"

section \<open>Expressions\<close>

fun float_type :: "scalar_type \<Rightarrow> bool" where
  "float_type TyF32 = True"
| "float_type TyF64 = True"
| "float_type _ = False"

fun float_const :: "const_value \<Rightarrow> bool" where
  "float_const (CvF32 _) = True"
| "float_const (CvF64 _) = True"
| "float_const _ = False"

fun expr_may_be_float :: "rexpr \<Rightarrow> scalar_type list \<Rightarrow> bool" where
  "expr_may_be_float (EColumn i) ts = (case get ts i of Some t \<Rightarrow> float_type t | None \<Rightarrow> False)"
| "expr_may_be_float (EConst c) ts = float_const c"
| "expr_may_be_float (ECast e t) ts = (float_type t \<or> expr_may_be_float e ts)"
| "expr_may_be_float (EAdd l r) ts = (expr_may_be_float l ts \<or> expr_may_be_float r ts)"
| "expr_may_be_float (ESub l r) ts = (expr_may_be_float l ts \<or> expr_may_be_float r ts)"
| "expr_may_be_float (EMul l r) ts = (expr_may_be_float l ts \<or> expr_may_be_float r ts)"
| "expr_may_be_float (EDiv l r) ts = (expr_may_be_float l ts \<or> expr_may_be_float r ts)"
| "expr_may_be_float (EMod l r) ts = (expr_may_be_float l ts \<or> expr_may_be_float r ts)"
| "expr_may_be_float (EMin l r) ts = (expr_may_be_float l ts \<or> expr_may_be_float r ts)"
| "expr_may_be_float (EMax l r) ts = (expr_may_be_float l ts \<or> expr_may_be_float r ts)"
| "expr_may_be_float (EPow l r) ts = (expr_may_be_float l ts \<or> expr_may_be_float r ts)"
| "expr_may_be_float (EAbs e) ts = expr_may_be_float e ts"
| "expr_may_be_float _ ts = False"

text \<open>Columns of different types cannot be compared, unless one side may be floating point: then both
  are cast to 64-bit floats.\<close>

definition compare_values :: "'v engine \<Rightarrow> bool \<Rightarrow> compare_op \<Rightarrow> 'v \<Rightarrow> 'v \<Rightarrow> bool option" where
  "compare_values E use_float op a b =
     (if use_float
      then Option.bind (cast_column E a TyF64) (\<lambda>a'. Option.bind (cast_column E b TyF64) (\<lambda>b'.
             if type_of_val E a' = type_of_val E b' then Some (compare_columns E op a' b') else None))
      else if type_of_val E a = type_of_val E b then Some (compare_columns E op a b) else None)"

definition select_value :: "'v engine \<Rightarrow> bool \<Rightarrow> 'v \<Rightarrow> 'v \<Rightarrow> 'v option" where
  "select_value E c a b =
     (if type_of_val E a = type_of_val E b then Some (if c then a else b) else None)"

text \<open>
  The tasks of the evaluator compute left to right with an operand stack; without effects this is the
  recursion below, on one row. \<open>eval_pred\<close> reads an expression as a predicate.
\<close>

fun eval_arith :: "'v engine \<Rightarrow> scalar_type list \<Rightarrow> 'v list \<Rightarrow> rexpr \<Rightarrow> 'v option"
and eval_pred :: "'v engine \<Rightarrow> scalar_type list \<Rightarrow> 'v list \<Rightarrow> rexpr \<Rightarrow> bool option"
and eval_preds :: "'v engine \<Rightarrow> scalar_type list \<Rightarrow> 'v list \<Rightarrow> rexpr list \<Rightarrow> bool list option" where
  "eval_arith E ts row (EColumn i) = get row i"
| "eval_arith E ts row (EConst c) = Some (const_column E c)"
| "eval_arith E ts row (EAdd l r) =
     Option.bind (eval_arith E ts row l) (\<lambda>a. Option.bind (eval_arith E ts row r) (column_op E OpAdd a))"
| "eval_arith E ts row (ESub l r) =
     Option.bind (eval_arith E ts row l) (\<lambda>a. Option.bind (eval_arith E ts row r) (column_op E OpSubtract a))"
| "eval_arith E ts row (EMul l r) =
     Option.bind (eval_arith E ts row l) (\<lambda>a. Option.bind (eval_arith E ts row r) (column_op E OpMultiply a))"
| "eval_arith E ts row (EDiv l r) =
     Option.bind (eval_arith E ts row l) (\<lambda>a. Option.bind (eval_arith E ts row r) (column_op E OpDivide a))"
| "eval_arith E ts row (EMod l r) =
     Option.bind (eval_arith E ts row l) (\<lambda>a. Option.bind (eval_arith E ts row r) (column_op E OpModulo a))"
| "eval_arith E ts row (EMin l r) =
     Option.bind (eval_arith E ts row l) (\<lambda>a. Option.bind (eval_arith E ts row r) (column_op E OpMinimum a))"
| "eval_arith E ts row (EMax l r) =
     Option.bind (eval_arith E ts row l) (\<lambda>a. Option.bind (eval_arith E ts row r) (column_op E OpMaximum a))"
| "eval_arith E ts row (EPow l r) =
     Option.bind (eval_arith E ts row l) (\<lambda>a. Option.bind (eval_arith E ts row r) (column_op E OpPower a))"
| "eval_arith E ts row (EAbs e) = Option.bind (eval_arith E ts row e) (abs_column E)"
| "eval_arith E ts row (ECast e t) = Option.bind (eval_arith E ts row e) (\<lambda>a. cast_column E a t)"
| "eval_arith E ts row (ECond c a b) =
     Option.bind (eval_pred E ts row c) (\<lambda>k. Option.bind (eval_arith E ts row a) (\<lambda>x.
       Option.bind (eval_arith E ts row b) (select_value E k x)))"
| "eval_arith E ts row (ECompare l op r) = None"
| "eval_arith E ts row (EAnd es) = None"
| "eval_arith E ts row (EOr es) = None"
| "eval_arith E ts row (ENot e) = None"

| "eval_pred E ts row (EColumn i) =
     Option.bind (get ts i) (\<lambda>t. Option.bind (get row i) (\<lambda>v.
       if t = TyBool then compare_values E False CmpNe v (const_column E (CvBool False)) else Some True))"
| "eval_pred E ts row (EConst c) = Some (case c of CvBool b \<Rightarrow> b | _ \<Rightarrow> True)"
| "eval_pred E ts row (ECompare l op r) =
     Option.bind (eval_arith E ts row l) (\<lambda>a. Option.bind (eval_arith E ts row r) (\<lambda>b.
       compare_values E (expr_may_be_float l ts \<or> expr_may_be_float r ts) op a b))"
| "eval_pred E ts row (EAnd es) = map_option (list_all id) (eval_preds E ts row es)"
| "eval_pred E ts row (EOr es) = map_option (list_ex id) (eval_preds E ts row es)"
| "eval_pred E ts row (ENot e) = map_option Not (eval_pred E ts row e)"
| "eval_pred E ts row _ = None"

| "eval_preds E ts row [] = Some []"
| "eval_preds E ts row (e # es) =
     Option.bind (eval_pred E ts row e) (\<lambda>b. map_option ((#) b) (eval_preds E ts row es))"

section \<open>Nodes\<close>

text \<open>Applying a fallible function to every row.\<close>

fun each_row :: "('a \<Rightarrow> 'b option) \<Rightarrow> 'a list \<Rightarrow> 'b list option" where
  "each_row f [] = Some []"
| "each_row f (x # xs) = Option.bind (f x) (\<lambda>y. map_option ((#) y) (each_row f xs))"

fun filter_rows :: "('a \<Rightarrow> bool option) \<Rightarrow> 'a list \<Rightarrow> 'a list option" where
  "filter_rows p [] = Some []"
| "filter_rows p (x # xs) =
     Option.bind (p x) (\<lambda>b. map_option (\<lambda>ys. if b then x # ys else ys) (filter_rows p xs))"

definition execute_filter :: "'v engine \<Rightarrow> 'v buffer \<Rightarrow> rexpr \<Rightarrow> 'v buffer option" where
  "execute_filter E b p =
     map_option (\<lambda>rows. \<lparr>btypes = btypes b, brows = rows\<rparr>)
       (filter_rows (\<lambda>row. eval_pred E (btypes b) row p) (brows b))"

definition project_type :: "scalar_type list \<Rightarrow> project_expr \<Rightarrow> scalar_type option" where
  "project_type ts c = (case c of PColumn i \<Rightarrow> get ts i | Computed e t \<Rightarrow> Some t)"

definition project_schema :: "scalar_type list \<Rightarrow> project_expr list \<Rightarrow> scalar_type list option" where
  "project_schema ts cols = each_row (project_type ts) cols"

definition project_value :: "'v engine \<Rightarrow> scalar_type list \<Rightarrow> 'v list \<Rightarrow> project_expr \<Rightarrow> 'v option" where
  "project_value E ts row c = (case c of PColumn i \<Rightarrow> get row i | Computed e t \<Rightarrow> eval_arith E ts row e)"

definition execute_project :: "'v engine \<Rightarrow> 'v buffer \<Rightarrow> project_expr list \<Rightarrow> 'v buffer option" where
  "execute_project E b cols =
     Option.bind (project_schema (btypes b) cols) (\<lambda>ts.
       map_option (\<lambda>rows. \<lparr>btypes = ts, brows = rows\<rparr>)
         (each_row (\<lambda>row. each_row (project_value E (btypes b) row) cols) (brows b)))"

definition keys_of :: "nat list \<Rightarrow> 'v list \<Rightarrow> 'v list" where
  "keys_of ks row = map (\<lambda>k. row ! k) ks"

definition join_keys_valid :: "'v buffer \<Rightarrow> 'v buffer \<Rightarrow> nat list \<Rightarrow> nat list \<Rightarrow> bool" where
  "join_keys_valid l r lk rk =
     (lk \<noteq> [] \<and> length lk = length rk
      \<and> list_all2 (\<lambda>i j. get (btypes l) i \<noteq> None \<and> get (btypes l) i = get (btypes r) j) lk rk)"

definition execute_join ::
    "'v engine \<Rightarrow> 'v buffer \<Rightarrow> 'v buffer \<Rightarrow> nat list \<Rightarrow> nat list \<Rightarrow> join_type \<Rightarrow> 'v buffer option" where
  "execute_join E l r lk rk jt =
     (let matches = (\<lambda>x y. keys_of lk x = keys_of rk y)
      in case jt of
        InnerJoin \<Rightarrow>
          if brows l = [] \<or> brows r = [] then Some \<lparr>btypes = btypes l @ btypes r, brows = []\<rparr>
          else if \<not> join_keys_valid l r lk rk then None
          else Some \<lparr>btypes = btypes l @ btypes r,
                     brows = concat (map (\<lambda>x. map (\<lambda>y. x @ y) (filter (matches x) (brows r))) (brows l))\<rparr>
      | SemiJoin \<Rightarrow>
          if brows l = [] \<or> brows r = [] then Some \<lparr>btypes = btypes l, brows = []\<rparr>
          else if \<not> join_keys_valid l r lk rk then None
          else Some \<lparr>btypes = btypes l, brows = filter (\<lambda>x. list_ex (matches x) (brows r)) (brows l)\<rparr>
      | AntiJoin \<Rightarrow>
          if brows l = [] \<or> brows r = [] then Some \<lparr>btypes = btypes l, brows = brows l\<rparr>
          else if \<not> join_keys_valid l r lk rk then None
          else Some \<lparr>btypes = btypes l, brows = filter (\<lambda>x. \<not> list_ex (matches x) (brows r)) (brows l)\<rparr>
      | LeftOuterJoin \<Rightarrow> left_outer_join E l r lk rk)"

definition aggregate_type :: "scalar_type list \<Rightarrow> nat \<times> core_agg_op \<Rightarrow> scalar_type" where
  "aggregate_type ts = (\<lambda>(col, op).
     case op of
       CoreCount \<Rightarrow> TyU64
     | CoreSum \<Rightarrow> TyU64
     | CoreLogSumExp \<Rightarrow> TyF64
     | _ \<Rightarrow> (if get ts col = Some TyU64 then TyU64 else TyU32))"

definition aggregate_column_ok :: "scalar_type list \<Rightarrow> nat \<times> core_agg_op \<Rightarrow> bool" where
  "aggregate_column_ok ts = (\<lambda>(col, op).
     case get ts col of
       None \<Rightarrow> False
     | Some t \<Rightarrow>
         (case op of
            CoreCount \<Rightarrow> True
          | CoreLogSumExp \<Rightarrow> t = TyF64
          | _ \<Rightarrow> t = TyU32 \<or> t = TyU64))"

text \<open>Groups come sorted by their keys; here they come in the order of their first rows.\<close>

definition group_row :: "'v engine \<Rightarrow> nat list \<Rightarrow> (nat \<times> core_agg_op) list \<Rightarrow> 'v list list \<Rightarrow> 'v list \<Rightarrow> 'v list" where
  "group_row E ks aggs rows key =
     key @ map (\<lambda>(col, op). group_aggregate E op
       (mset (map (\<lambda>row. row ! col) (filter (\<lambda>row. keys_of ks row = key) rows)))) aggs"

definition execute_groupby ::
    "'v engine \<Rightarrow> 'v buffer \<Rightarrow> nat list \<Rightarrow> (nat \<times> core_agg_op) list \<Rightarrow> 'v buffer option" where
  "execute_groupby E b ks aggs =
     (if aggs = [] then dedup_columns E b ks
      else let ts = map (\<lambda>i. btypes b ! i) (filter (\<lambda>i. i < length (btypes b)) ks)
                    @ map (aggregate_type (btypes b)) aggs
           in if brows b = [] then Some \<lparr>btypes = ts, brows = []\<rparr>
              else if ks = [] \<or> \<not> list_all (\<lambda>k. k < length (btypes b)) ks
                      \<or> \<not> list_all (aggregate_column_ok (btypes b)) aggs
                      \<or> sum_list (map (\<lambda>k. size_bytes (btypes b ! k)) ks) mod 4 \<noteq> 0
              then None
              else Some \<lparr>btypes = ts,
                         brows = map (group_row E ks aggs (brows b)) (remdups (map (keys_of ks) (brows b)))\<rparr>)"

definition execute_union :: "'v buffer list \<Rightarrow> 'v buffer option" where
  "execute_union bs =
     (case bs of
        [] \<Rightarrow> Some \<lparr>btypes = [], brows = []\<rparr>
      | [b] \<Rightarrow> Some b
      | b # rest \<Rightarrow>
          if \<not> list_all (\<lambda>b'. btypes b' = btypes b) rest then None
          else Some \<lparr>btypes = btypes b, brows = remdups (concat (map brows bs))\<rparr>)"

definition execute_diff :: "'v buffer \<Rightarrow> 'v buffer \<Rightarrow> 'v buffer option" where
  "execute_diff l r =
     (if brows l = [] then Some \<lparr>btypes = btypes l, brows = []\<rparr>
      else if btypes l \<noteq> btypes r then None
      else Some \<lparr>btypes = btypes l, brows = filter (\<lambda>x. x \<notin> set (brows r)) (remdups (brows l))\<rparr>)"

text \<open>Multiway and chain joins run their fallback unless a special kernel takes them, which must
  produce the same rows; chains of projections run one by one, as here.\<close>

fun execute_node :: "'v engine \<Rightarrow> (rel_id \<Rightarrow> 'v buffer option) \<Rightarrow> rir_node \<Rightarrow> 'v buffer option"
and execute_nodes :: "'v engine \<Rightarrow> (rel_id \<Rightarrow> 'v buffer option) \<Rightarrow> rir_node list \<Rightarrow> 'v buffer list option" where
  "execute_node E store UnitNode = Some \<lparr>btypes = [], brows = [[]]\<rparr>"
| "execute_node E store (ScanNode rel) = store rel"
| "execute_node E store (FilterNode input p) =
     Option.bind (execute_node E store input) (\<lambda>b. execute_filter E b p)"
| "execute_node E store (ProjectNode input cols) =
     Option.bind (execute_node E store input) (\<lambda>b. execute_project E b cols)"
| "execute_node E store (JoinNode l r lk rk jt) =
     Option.bind (execute_node E store l) (\<lambda>bl. Option.bind (execute_node E store r) (\<lambda>br.
       execute_join E bl br lk rk jt))"
| "execute_node E store (ChainJoinNode l r lk rk cols fallback) = execute_node E store fallback"
| "execute_node E store (GroupByNode input ks aggs) =
     Option.bind (execute_node E store input) (\<lambda>b. execute_groupby E b ks aggs)"
| "execute_node E store (UnionNode inputs) = Option.bind (execute_nodes E store inputs) execute_union"
| "execute_node E store (DistinctNode input ks) =
     Option.bind (execute_node E store input) (\<lambda>b. dedup_columns E b ks)"
| "execute_node E store (DiffNode l r) =
     Option.bind (execute_node E store l) (\<lambda>bl. Option.bind (execute_node E store r) (execute_diff bl))"
| "execute_node E store (MultiWayJoinNode inputs slots cols fallback plan order) =
     execute_node E store fallback"
| "execute_node E store (FixpointNode scc base recursive delta full) =
     other_node E (FixpointNode scc base recursive delta full)"
| "execute_node E store (TensorMaskedJoinNode t) = other_node E (TensorMaskedJoinNode t)"
| "execute_nodes E store [] = Some []"
| "execute_nodes E store (n # ns) =
     Option.bind (execute_node E store n) (\<lambda>b. map_option ((#) b) (execute_nodes E store ns))"

end
