(* ===== verification/Lower_Types.thy ===== *)
theory Lower_Types
  imports Rir
begin

text \<open>
  The static checks and the type inference that lowering performs before it builds plans
  (\<open>xlog-logic/src/lower.rs\<close>): which terms can be lowered, the binding order of \<open>is\<close> expressions, the
  types of arithmetic expressions and of rule variables, and the agreement of rule heads with the
  predicate schemas. A schema is the list of its column types. The code evaluates arithmetic types with
  a stack of tasks, left operand first; here this is a recursion.
\<close>

datatype arithmetic_type_operation = ArithStandard | ArithModulo | ArithMinMax | ArithPower

datatype type_source = FromColumn string nat | FromArithmetic

datatype lower_error =
    MissingSchema string
  | MissingColumnType string nat
  | BadLiteral arith_error
  | EmptyRuleBody
  | JoinPlanningFailed
  | VariableNotFound string
  | MissingVariableType string
  | WildcardComparison
  | AggregateComparison
  | NotLowerable string ast_term
  | UnnormalizedUniv
  | UnsafeVariable string
  | WildcardHead
  | AggregateInPlainHead
  | MissingHeadType string nat
  | NotConstant
  | NoAggregateTerm
  | EmptyHeadProjection
  | EpistemicBody epistemic_literal
  | UnexpandedFunction string
  | ArithTypeMismatch arithmetic_type_operation scalar_type scalar_type
  | ModuloFloat
  | ArithOperand arithmetic_type_operation "scalar_type list"
  | AbsOperand scalar_type
  | ConditionalTypes scalar_type scalar_type
  | UnknownArithVariable string
  | UnboundArithVariable string
  | AlreadyBound string
  | NotBound string
  | VariableTypes string string scalar_type type_source scalar_type type_source
  | AggregateInput string agg_expr scalar_type type_source
  | HeadVariableType string string scalar_type type_source scalar_type nat
  | HeadAggregateType string agg_expr scalar_type scalar_type nat
  | HeadLiteral string nat scalar_type arith_error
  | HeadTermType string nat scalar_type scalar_type
  | ConflictingSchema string nat scalar_type scalar_type
  | UnknownDomain string string nat
  | LearnableBodyLength string nat
  | LearnableBodyLiteral string nat
  | LearnableHeadVariable string string string
  | LearnableHeadConstant ast_term string

type_synonym schema_table = "string \<Rightarrow> scalar_type list option"

section \<open>Terms and bindings\<close>

definition validate_term_lowerable :: "string \<Rightarrow> ast_term \<Rightarrow> lower_error + unit" where
  "validate_term_lowerable ctx t =
     (case t of
        ListTerm _ \<Rightarrow> Inl (NotLowerable ctx t)
      | ConsTerm _ _ \<Rightarrow> Inl (NotLowerable ctx t)
      | Compound _ _ \<Rightarrow> Inl (NotLowerable ctx t)
      | PredRef _ \<Rightarrow> Inl (NotLowerable ctx t)
      | _ \<Rightarrow> Inr ())"

definition validate_atom_terms :: "string \<Rightarrow> atom \<Rightarrow> lower_error + unit" where
  "validate_atom_terms ctx a = fold_res (\<lambda>t _. validate_term_lowerable ctx t) (terms a) ()"

definition validate_literal_terms :: "body_literal \<Rightarrow> lower_error + unit" where
  "validate_literal_terms l =
     (case l of
        Positive a \<Rightarrow> validate_atom_terms ''positive body atom'' a
      | Negated a \<Rightarrow> validate_atom_terms ''negated body atom'' a
      | Epistemic _ \<Rightarrow> Inr ()
      | Comparison c \<Rightarrow>
          bind_res (validate_term_lowerable ''comparison left operand'' (cmp_left c))
            (\<lambda>_. validate_term_lowerable ''comparison right operand'' (cmp_right c))
      | IsExpr _ \<Rightarrow> Inr ()
      | Univ _ \<Rightarrow> Inl UnnormalizedUniv)"

definition validate_rule_terms :: "rule \<Rightarrow> lower_error + unit" where
  "validate_rule_terms r =
     bind_res (validate_atom_terms ''rule head'' (head r))
       (\<lambda>_. fold_res (\<lambda>l _. validate_literal_terms l) (body r) ())"

definition positive_body_bound_variables :: "body_literal list \<Rightarrow> string set" where
  "positive_body_bound_variables ls =
     set (filter (\<lambda>x. x \<noteq> ''_'')
       (concat (map (\<lambda>l. case l of Positive a \<Rightarrow> atom_variables a | _ \<Rightarrow> []) ls)))"

fun validate_bindings :: "string set \<Rightarrow> body_literal list \<Rightarrow> lower_error + unit" where
  "validate_bindings bound [] = Inr ()"
| "validate_bindings bound (IsExpr e # ls) =
     (if is_target e \<in> bound then Inl (AlreadyBound (is_target e))
      else case find (\<lambda>x. x \<notin> bound) (arith_variables (is_rhs e)) of
             Some x \<Rightarrow> Inl (NotBound x)
           | None \<Rightarrow> validate_bindings (insert (is_target e) bound) ls)"
| "validate_bindings bound (_ # ls) = validate_bindings bound ls"

definition validate_is_expression_bindings :: "rule list \<Rightarrow> lower_error + unit" where
  "validate_is_expression_bindings rs =
     fold_res (\<lambda>r _. validate_bindings (positive_body_bound_variables (body r)) (body r))
       (filter (\<lambda>r. \<not> is_fact r) rs) ()"

section \<open>Arithmetic types\<close>

datatype user_function_evidence = RequireExpansion | DeferFunctions

definition is_numeric_type :: "scalar_type \<Rightarrow> bool" where
  "is_numeric_type t = (case t of TyBool \<Rightarrow> False | TySymbol \<Rightarrow> False | _ \<Rightarrow> True)"

definition known :: "scalar_type option \<Rightarrow> scalar_type option \<Rightarrow> scalar_type list" where
  "known l r = (case l of Some t \<Rightarrow> [t] | None \<Rightarrow> []) @ (case r of Some t \<Rightarrow> [t] | None \<Rightarrow> [])"

definition left_if_both :: "scalar_type option \<Rightarrow> scalar_type option \<Rightarrow> scalar_type option" where
  "left_if_both l r = (case (l, r) of (Some t, Some _) \<Rightarrow> Some t | _ \<Rightarrow> None)"

definition matching_numeric ::
    "arithmetic_type_operation \<Rightarrow> scalar_type option \<Rightarrow> scalar_type option \<Rightarrow> lower_error + scalar_type option" where
  "matching_numeric aop l r =
     (if l \<noteq> None \<and> r \<noteq> None \<and> l \<noteq> r then Inl (ArithTypeMismatch aop (the l) (the r))
      else case find (\<lambda>t. \<not> is_numeric_type t) (known l r) of
             Some t \<Rightarrow> Inl (ArithOperand aop [t])
           | None \<Rightarrow> Inr (left_if_both l r))"

definition modulo_operand :: "scalar_type \<Rightarrow> unit \<Rightarrow> lower_error + unit" where
  "modulo_operand t _ =
     (if float_type t then Inl ModuloFloat
      else if \<not> is_numeric_type t then Inl (ArithOperand ArithModulo [t]) else Inr ())"

definition finish_binary_arithmetic_type ::
    "arithmetic_type_operation \<Rightarrow> scalar_type option \<Rightarrow> scalar_type option \<Rightarrow> lower_error + scalar_type option" where
  "finish_binary_arithmetic_type aop l r =
     (case aop of
        ArithStandard \<Rightarrow> matching_numeric ArithStandard l r
      | ArithModulo \<Rightarrow>
          if l \<noteq> None \<and> r \<noteq> None \<and> l \<noteq> r then Inl (ArithTypeMismatch ArithModulo (the l) (the r))
          else map_res (\<lambda>_. left_if_both l r) (fold_res modulo_operand (known l r) ())
      | ArithMinMax \<Rightarrow> matching_numeric ArithMinMax l r
      | ArithPower \<Rightarrow>
          (case find (\<lambda>t. \<not> is_numeric_type t) (known l r) of
             Some t \<Rightarrow> Inl (ArithOperand ArithPower (if l \<noteq> None \<and> r \<noteq> None then known l r else [t]))
           | None \<Rightarrow> Inr (if l \<noteq> None \<and> r \<noteq> None then Some TyF64 else None)))"

definition finish_abs_type :: "scalar_type option \<Rightarrow> lower_error + scalar_type option" where
  "finish_abs_type t =
     (case t of Some ty \<Rightarrow> if is_numeric_type ty then Inr t else Inl (AbsOperand ty) | None \<Rightarrow> Inr None)"

definition finish_conditional_type ::
    "scalar_type option \<Rightarrow> scalar_type option \<Rightarrow> lower_error + scalar_type option" where
  "finish_conditional_type t e =
     (case (t, e) of
        (Some tt, Some te) \<Rightarrow> if tt \<noteq> te then Inl (ConditionalTypes tt te) else Inr (Some tt)
      | _ \<Rightarrow> Inr None)"

fun infer_known :: "user_function_evidence \<Rightarrow> (string \<Rightarrow> scalar_type option) \<Rightarrow> arith_expr \<Rightarrow> lower_error + scalar_type option"
and infer_known_args :: "user_function_evidence \<Rightarrow> (string \<Rightarrow> scalar_type option) \<Rightarrow> arith_expr list \<Rightarrow> lower_error + unit" where
  "infer_known ev ty (AVariable x) = Inr (ty x)"
| "infer_known ev ty (AInteger _) = Inr (Some TyI64)"
| "infer_known ev ty (AFloat _) = Inr (Some TyF64)"
| "infer_known ev ty (Add l r) = bind_res (infer_known ev ty l) (\<lambda>a. bind_res (infer_known ev ty r)
     (finish_binary_arithmetic_type ArithStandard a))"
| "infer_known ev ty (Sub l r) = bind_res (infer_known ev ty l) (\<lambda>a. bind_res (infer_known ev ty r)
     (finish_binary_arithmetic_type ArithStandard a))"
| "infer_known ev ty (Mul l r) = bind_res (infer_known ev ty l) (\<lambda>a. bind_res (infer_known ev ty r)
     (finish_binary_arithmetic_type ArithStandard a))"
| "infer_known ev ty (Div l r) = bind_res (infer_known ev ty l) (\<lambda>a. bind_res (infer_known ev ty r)
     (finish_binary_arithmetic_type ArithStandard a))"
| "infer_known ev ty (Mod l r) = bind_res (infer_known ev ty l) (\<lambda>a. bind_res (infer_known ev ty r)
     (finish_binary_arithmetic_type ArithModulo a))"
| "infer_known ev ty (AMin l r) = bind_res (infer_known ev ty l) (\<lambda>a. bind_res (infer_known ev ty r)
     (finish_binary_arithmetic_type ArithMinMax a))"
| "infer_known ev ty (AMax l r) = bind_res (infer_known ev ty l) (\<lambda>a. bind_res (infer_known ev ty r)
     (finish_binary_arithmetic_type ArithMinMax a))"
| "infer_known ev ty (Pow l r) = bind_res (infer_known ev ty l) (\<lambda>a. bind_res (infer_known ev ty r)
     (finish_binary_arithmetic_type ArithPower a))"
| "infer_known ev ty (Abs e) = bind_res (infer_known ev ty e) finish_abs_type"
| "infer_known ev ty (Cast e t) = map_res (\<lambda>_. Some t) (infer_known ev ty e)"
| "infer_known ev ty (FuncCall f args) =
     (case ev of
        RequireExpansion \<Rightarrow> Inl (UnexpandedFunction f)
      | DeferFunctions \<Rightarrow> map_res (\<lambda>_. None) (infer_known_args ev ty args))"
| "infer_known ev ty (Conditional cl cop cr t e) = bind_res (infer_known ev ty t) (\<lambda>a.
     bind_res (infer_known ev ty e) (finish_conditional_type a))"
| "infer_known_args ev ty [] = Inr ()"
| "infer_known_args ev ty (a # as) = bind_res (infer_known ev ty a) (\<lambda>_. infer_known_args ev ty as)"

definition infer_arith_type :: "(string \<Rightarrow> scalar_type option) \<Rightarrow> arith_expr \<Rightarrow> lower_error + scalar_type" where
  "infer_arith_type ty e =
     bind_res (infer_known RequireExpansion ty e) (\<lambda>t.
       case t of
         Some t \<Rightarrow> Inr t
       | None \<Rightarrow> Inl (UnknownArithVariable
           (case find (\<lambda>x. ty x = None) (arith_variables e) of Some x \<Rightarrow> x | None \<Rightarrow> ''<unknown>'')))"

section \<open>Types of rule variables\<close>

type_synonym variable_types = "string \<Rightarrow> (scalar_type \<times> type_source) option"

definition record_rule_variable_type ::
    "rule \<Rightarrow> string \<Rightarrow> scalar_type \<Rightarrow> type_source \<Rightarrow> variable_types \<Rightarrow> lower_error + variable_types" where
  "record_rule_variable_type r x t src vts =
     (case vts x of
        Some (t', src') \<Rightarrow>
          if t' \<noteq> t then Inl (VariableTypes (predicate (head r)) x t' src' t src) else Inr vts
      | None \<Rightarrow> Inr (vts(x \<mapsto> (t, src))))"

definition record_column_type ::
    "rule \<Rightarrow> (atom \<Rightarrow> nat \<Rightarrow> scalar_type option) \<Rightarrow> atom \<Rightarrow> nat \<times> ast_term \<Rightarrow> variable_types
     \<Rightarrow> lower_error + variable_types" where
  "record_column_type r column_type a = (\<lambda>(i, t) vts.
     case t of
       Variable x \<Rightarrow>
         (case column_type a i of
            None \<Rightarrow> Inr vts
          | Some ty \<Rightarrow> record_rule_variable_type r x ty (FromColumn (predicate a) i) vts)
     | _ \<Rightarrow> Inr vts)"

definition record_literal_types ::
    "rule \<Rightarrow> (atom \<Rightarrow> nat \<Rightarrow> scalar_type option) \<Rightarrow> body_literal \<Rightarrow> variable_types \<Rightarrow> lower_error + variable_types" where
  "record_literal_types r column_type l vts =
     (case l of
        Positive a \<Rightarrow> fold_res (record_column_type r column_type a) (indexed (terms a)) vts
      | Negated a \<Rightarrow> fold_res (record_column_type r column_type a) (indexed (terms a)) vts
      | _ \<Rightarrow> Inr vts)"

definition record_is_type ::
    "rule \<Rightarrow> user_function_evidence \<Rightarrow> body_literal \<Rightarrow> variable_types \<Rightarrow> lower_error + variable_types" where
  "record_is_type r ev l vts =
     (case l of
        IsExpr e \<Rightarrow>
          bind_res (infer_known ev (map_option fst \<circ> vts) (is_rhs e)) (\<lambda>t.
            case t of
              Some ty \<Rightarrow> record_rule_variable_type r (is_target e) ty FromArithmetic vts
            | None \<Rightarrow> Inr vts)
      | _ \<Rightarrow> Inr vts)"

definition infer_rule_variable_types ::
    "rule \<Rightarrow> (atom \<Rightarrow> nat \<Rightarrow> scalar_type option) \<Rightarrow> user_function_evidence \<Rightarrow> lower_error + variable_types" where
  "infer_rule_variable_types r column_type ev =
     bind_res (fold_res (record_literal_types r column_type) (body r) Map.empty)
       (fold_res (record_is_type r ev) (body r))"

definition infer_aggregate_result_type ::
    "rule \<Rightarrow> agg_expr \<Rightarrow> variable_types \<Rightarrow> lower_error + scalar_type option" where
  "infer_aggregate_result_type r agg vts =
     (case vts (agg_variable agg) of
        None \<Rightarrow> Inr (input_independent_result_type agg)
      | Some (t, src) \<Rightarrow>
          (case result_type_for_input agg t of
             Some t' \<Rightarrow> Inr (Some t')
           | None \<Rightarrow> Inl (AggregateInput (predicate (head r)) agg t src)))"

definition infer_rule_head_column_types ::
    "rule \<Rightarrow> (atom \<Rightarrow> nat \<Rightarrow> scalar_type option) \<Rightarrow> user_function_evidence \<Rightarrow> lower_error + scalar_type option list" where
  "infer_rule_head_column_types r column_type ev =
     bind_res (infer_rule_variable_types r column_type ev) (\<lambda>vts.
       traverse (\<lambda>t. case t of
           Variable x \<Rightarrow> Inr (map_option fst (vts x))
         | Aggregate agg \<Rightarrow> infer_aggregate_result_type r agg vts
         | Anonymous \<Rightarrow> Inr None
         | _ \<Rightarrow> Inr (Some (inferred_scalar_type t))) (terms (head r)))"

section \<open>Rule heads\<close>

definition schema_column :: "schema_table \<Rightarrow> atom \<Rightarrow> nat \<Rightarrow> scalar_type option" where
  "schema_column schemas a i = Option.bind (schemas (predicate a)) (\<lambda>ts. get ts i)"

definition validate_head_term ::
    "scalar_env \<Rightarrow> string set \<Rightarrow> rule \<Rightarrow> variable_types \<Rightarrow> scalar_type list \<Rightarrow> nat \<times> ast_term \<Rightarrow> unit \<Rightarrow> lower_error + unit" where
  "validate_head_term env declared r vts ts = (\<lambda>(j, t) _.
     let p = predicate (head r)
     in case get ts j of
          None \<Rightarrow> Inr ()
        | Some head_ty \<Rightarrow>
            (let inferred =
               (if inferred_scalar_type t \<noteq> head_ty then Inl (HeadTermType p j (inferred_scalar_type t) head_ty)
                else Inr ())
             in if is_variable t then
                  (case Option.bind (variable_name t) vts of
                     None \<Rightarrow> Inr ()
                   | Some (ty, src) \<Rightarrow>
                       if ty \<noteq> head_ty
                       then Inl (HeadVariableType p (the (variable_name t)) ty src head_ty j) else Inr ())
                else case t of
                  Anonymous \<Rightarrow> Inr ()
                | Aggregate agg \<Rightarrow>
                    bind_res (infer_aggregate_result_type r agg vts) (\<lambda>res.
                      case res of
                        None \<Rightarrow> Inl (UnsafeVariable (agg_variable agg))
                      | Some ty \<Rightarrow> if ty \<noteq> head_ty then Inl (HeadAggregateType p agg ty head_ty j) else Inr ())
                | _ \<Rightarrow>
                    if is_constant t \<and> p \<in> declared
                    then map_res (\<lambda>_. ()) (map_err (HeadLiteral p j head_ty) (term_to_typed_const_value env t head_ty))
                    else inferred))"

definition validate_rule_types ::
    "scalar_env \<Rightarrow> schema_table \<Rightarrow> string set \<Rightarrow> rule list \<Rightarrow> lower_error + unit" where
  "validate_rule_types env schemas declared rs =
     fold_res (\<lambda>r _.
       bind_res (infer_rule_variable_types r (schema_column schemas) RequireExpansion) (\<lambda>vts.
         case schemas (predicate (head r)) of
           None \<Rightarrow> Inr ()
         | Some ts \<Rightarrow> fold_res (validate_head_term env declared r vts ts) (indexed (terms (head r))) ())) rs ()"

end
