(* ===== verification/Join_Planning.thy ===== *)
theory Join_Planning
  imports Lower_Types
begin

unbundle bit_operations_syntax

text \<open>
  Join planning of the lowerer (\<open>xlog-logic/src/lower.rs\<close>): the positive atoms of a rule body become
  filtered scans, and a search over join trees, dynamic programming for at most ten atoms and greedy
  above that, picks the cheapest tree by estimated cost. Costs are patterns of 64-bit floats. A map from
  variables to columns, or from names to relation numbers, is the list of its entries. \<open>usize\<close> masks are natural numbers.
\<close>

record lower_env =
  low_scalars :: scalar_env
  tenth_power :: "nat \<Rightarrow> u64"

record lowerer =
  low_schemas :: schema_table
  est_cardinality :: "string \<Rightarrow> u64 option"
  next_rel_id :: u32
  rel_ids :: "(string \<times> rel_id) list"

record join_plan =
  jp_node :: rir_node
  leaf_order :: "atom list"
  leaf_order_idx :: "nat list"
  var_pos :: "(string \<times> nat) list"
  jp_width :: nat
  est_rows :: u64
  total_cost :: u64

section \<open>Leaves\<close>

definition get_or_create_rel_id :: "string \<Rightarrow> lowerer \<Rightarrow> rel_id \<times> lowerer" where
  "get_or_create_rel_id name st =
     (case map_of (rel_ids st) name of
        Some i \<Rightarrow> (i, st)
      | None \<Rightarrow> (next_rel_id st, st\<lparr>next_rel_id := next_rel_id st + 1,
                                     rel_ids := rel_ids st @ [(name, next_rel_id st)]\<rparr>))"

text \<open>The constants \<open>1.0\<close>, \<open>0.5\<close>, \<open>1e6\<close>, \<open>1e12\<close> and \<open>1e-9\<close>.\<close>

definition cost_one :: u64 where "cost_one = 0x3ff0000000000000"
definition cost_half :: u64 where "cost_half = 0x3fe0000000000000"
definition cost_million :: u64 where "cost_million = 0x412e848000000000"
definition cost_trillion :: u64 where "cost_trillion = 0x426d1a94a2000000"
definition cost_epsilon :: u64 where "cost_epsilon = 0x3e112e0be826d695"

definition cost_abs :: "u64 \<Rightarrow> u64" where
  "cost_abs c = c AND 0x7fffffffffffffff"

definition is_scalar_constant :: "ast_term \<Rightarrow> bool" where
  "is_scalar_constant t = (case t of Integer _ \<Rightarrow> True | Float _ \<Rightarrow> True | Str _ \<Rightarrow> True | Symbol _ \<Rightarrow> True | _ \<Rightarrow> False)"

definition estimate_atom_rows :: "lower_env \<Rightarrow> lowerer \<Rightarrow> atom \<Rightarrow> u64" where
  "estimate_atom_rows env st a =
     (let base = f64_of_int (low_scalars env) (uint (max (case est_cardinality st (predicate a) of Some c \<Rightarrow> c | None \<Rightarrow> 1000) 1));
          const_count = length (filter is_scalar_constant (terms a))
      in f64_operation (low_scalars env) OpMaximum (f64_operation (low_scalars env) OpMultiply base (tenth_power env const_count)) cost_one)"

text \<open>
  The filters of one atom, term by term: equality with the first column of the same variable, and
  equality with a constant of the column's type. \<open>seen\<close> holds the first columns.\<close>

fun atom_filters ::
    "lower_env \<Rightarrow> string \<Rightarrow> scalar_type list \<Rightarrow> nat \<Rightarrow> (string \<times> nat) list \<Rightarrow> ast_term list
     \<Rightarrow> lower_error + rexpr list" where
  "atom_filters env p ts i seen [] = Inr []"
| "atom_filters env p ts i seen (t # rest) =
     (let (repeated, seen') =
        (case t of
           Variable name \<Rightarrow>
             if name = ''_'' then ([], seen)
             else (case map_of seen name of
                     Some j \<Rightarrow> ([ECompare (EColumn j) CmpEq (EColumn i)], seen)
                   | None \<Rightarrow> ([], seen @ [(name, i)]))
         | _ \<Rightarrow> ([], seen))
      in case get ts i of
           None \<Rightarrow> Inl (MissingColumnType p i)
         | Some ty \<Rightarrow>
             bind_res (map_err BadLiteral (term_to_typed_const_value (low_scalars env) t ty)) (\<lambda>c.
               map_res (\<lambda>fs. repeated @ (case c of Some v \<Rightarrow> [ECompare (EColumn i) CmpEq (EConst v)] | None \<Rightarrow> []) @ fs)
                 (atom_filters env p ts (Suc i) seen' rest)))"

definition apply_constant_filters :: "lower_env \<Rightarrow> lowerer \<Rightarrow> rir_node \<Rightarrow> atom \<Rightarrow> lower_error + rir_node" where
  "apply_constant_filters env st input a =
     (case low_schemas st (predicate a) of
        None \<Rightarrow> Inl (MissingSchema (predicate a))
      | Some ts \<Rightarrow>
          map_res (\<lambda>fs. if fs = [] then input
                        else FilterNode input (if length fs = 1 then hd fs else EAnd fs))
            (atom_filters env (predicate a) ts 0 [] (terms a)))"

fun first_positions :: "nat \<Rightarrow> ast_term list \<Rightarrow> (string \<times> nat) list \<Rightarrow> (string \<times> nat) list" where
  "first_positions i [] vs = vs"
| "first_positions i (t # rest) vs =
     first_positions (Suc i) rest
       (case t of
          Variable name \<Rightarrow> if name \<noteq> ''_'' \<and> map_of vs name = None then vs @ [(name, i)] else vs
        | _ \<Rightarrow> vs)"

definition make_leaf_plan :: "lower_env \<Rightarrow> atom \<Rightarrow> nat \<Rightarrow> lowerer \<Rightarrow> lower_error + join_plan \<times> lowerer" where
  "make_leaf_plan env a idx st =
     (let (rel, st') = get_or_create_rel_id (predicate a) st; est = estimate_atom_rows env st' a
      in map_res (\<lambda>node.
           (\<lparr>jp_node = node, leaf_order = [a], leaf_order_idx = [idx], var_pos = first_positions 0 (terms a) [],
             jp_width = length (terms a), est_rows = est, total_cost = est\<rparr>, st'))
         (apply_constant_filters env st' (ScanNode rel) a))"

section \<open>Joins\<close>

definition const_key :: project_expr where
  "const_key = Computed (EConst (CvU32 0)) TyU32"

definition build_cartesian_join :: "rir_node \<Rightarrow> rir_node \<Rightarrow> nat \<Rightarrow> nat \<Rightarrow> rir_node" where
  "build_cartesian_join left right left_width right_width =
     ProjectNode
       (JoinNode
         (ProjectNode left (map PColumn [0..<left_width] @ [const_key]))
         (ProjectNode right (map PColumn [0..<right_width] @ [const_key]))
         [left_width] [right_width] InnerJoin)
       (map PColumn [0..<left_width] @ map PColumn [left_width + 1..<left_width + 1 + right_width])"

definition shared_vars :: "join_plan \<Rightarrow> join_plan \<Rightarrow> string list" where
  "shared_vars l r = filter (\<lambda>v. map_of (var_pos r) v \<noteq> None) (map fst (var_pos l))"

definition join_node :: "join_plan \<Rightarrow> join_plan \<Rightarrow> rir_node" where
  "join_node l r =
     (let shared = shared_vars l r
      in if shared = [] then build_cartesian_join (jp_node l) (jp_node r) (jp_width l) (jp_width r)
         else let key_pairs = sort (map (\<lambda>v. (the (map_of (var_pos l) v), the (map_of (var_pos r) v))) shared)
              in JoinNode (jp_node l) (jp_node r) (map fst key_pairs) (map snd key_pairs) InnerJoin)"

definition join_plans :: "lower_env \<Rightarrow> join_plan \<Rightarrow> join_plan \<Rightarrow> join_plan" where
  "join_plans env l r =
     (let shared = length (shared_vars l r);
          mul = f64_operation (low_scalars env) OpMultiply; add = f64_operation (low_scalars env) OpAdd;
          selectivity = (if shared = 0 then mul cost_one cost_million else tenth_power env shared);
          output_rows = f64_operation (low_scalars env) OpMaximum (mul (mul (est_rows l) (est_rows r)) selectivity) cost_one;
          build_cost = est_rows r;
          probe_cost = mul (est_rows l) cost_half
      in \<lparr>jp_node = join_node l r,
          leaf_order = leaf_order l @ leaf_order r,
          leaf_order_idx = leaf_order_idx l @ leaf_order_idx r,
          var_pos = var_pos l
            @ map (\<lambda>(v, p). (v, jp_width l + p)) (filter (\<lambda>(v, _). map_of (var_pos l) v = None) (var_pos r)),
          jp_width = jp_width l + jp_width r,
          est_rows = output_rows,
          total_cost = add (add (add (add (total_cost l) (total_cost r)) build_cost) probe_cost) output_rows\<rparr>)"

fun lex_lt :: "nat list \<Rightarrow> nat list \<Rightarrow> bool" where
  "lex_lt (x # xs) (y # ys) = (if x \<noteq> y then x < y else lex_lt xs ys)"
| "lex_lt xs ys = (length xs < length ys)"

definition close_costs :: "lower_env \<Rightarrow> u64 \<Rightarrow> u64 \<Rightarrow> bool" where
  "close_costs env a b = f64_less (cost_abs (f64_operation (low_scalars env) OpSubtract a b)) cost_epsilon"

definition replaces :: "lower_env \<Rightarrow> join_plan \<Rightarrow> join_plan \<Rightarrow> bool" where
  "replaces env cand current =
     (if f64_less (total_cost cand) (total_cost current) then True
      else if close_costs env (total_cost cand) (total_cost current)
      then lex_lt (leaf_order_idx cand) (leaf_order_idx current)
      else False)"

section \<open>Dynamic programming\<close>

definition consider_split :: "lower_env \<Rightarrow> join_plan \<Rightarrow> join_plan \<Rightarrow> join_plan option \<Rightarrow> join_plan option" where
  "consider_split env l r best_for_mask =
     (let cand = join_plans env l r
      in case best_for_mask of
           None \<Rightarrow> Some cand
         | Some current \<Rightarrow> if replaces env cand current then Some cand else best_for_mask)"

lemma submask_decreases: "0 < sub \<Longrightarrow> (sub - 1) AND msk < (sub :: nat)"
proof -
  assume "0 < sub"
  have "(sub - 1) AND msk \<le> sub - 1" by (simp add: and_nat_def nat_le_iff of_nat_diff)
  with \<open>0 < sub\<close> show ?thesis by simp
qed

text \<open>The loop over the proper submasks of a mask, in decreasing order.\<close>

function best_split ::
    "lower_env \<Rightarrow> join_plan option list \<Rightarrow> nat \<Rightarrow> nat \<Rightarrow> join_plan option \<Rightarrow> join_plan option" where
  "best_split env best msk sub best_for_mask =
     (if sub = 0 then best_for_mask
      else
        let b = msk XOR sub; smaller = (sub - 1) AND msk
        in if b = 0 then best_split env best msk smaller best_for_mask
           else case (best ! sub, best ! b) of
                  (Some plan_a, Some plan_b) \<Rightarrow>
                    best_split env best msk smaller
                      (consider_split env plan_b plan_a (consider_split env plan_a plan_b best_for_mask))
                | _ \<Rightarrow> best_split env best msk smaller best_for_mask)"
  by pat_completeness auto
termination
  by (relation "measure (\<lambda>(env, best, msk, sub, best_for_mask). sub)") (auto simp: submask_decreases [simplified])

declare best_split.simps [simp del]

definition single_bit :: "nat \<Rightarrow> bool" where
  "single_bit msk = (msk AND (msk - 1) = 0)"

definition fill_mask :: "lower_env \<Rightarrow> nat \<Rightarrow> join_plan option list \<Rightarrow> join_plan option list" where
  "fill_mask env msk best =
     (if single_bit msk then best
      else best[msk := best_split env best msk ((msk - 1) AND msk) None])"

fun leaf_plans :: "lower_env \<Rightarrow> nat \<Rightarrow> atom list \<Rightarrow> lowerer \<Rightarrow> lower_error + join_plan list \<times> lowerer" where
  "leaf_plans env i [] st = Inr ([], st)"
| "leaf_plans env i (a # rest) st =
     bind_res (make_leaf_plan env a i st) (\<lambda>(p, st').
       map_res (\<lambda>(ps, st''). (p # ps, st'')) (leaf_plans env (Suc i) rest st'))"

definition initial_table :: "join_plan list \<Rightarrow> join_plan option list" where
  "initial_table leaves =
     fold (\<lambda>(i, p) best. best[2 ^ i := Some p]) (indexed leaves) (replicate (2 ^ length leaves) None)"

section \<open>Fallback order\<close>

text \<open>The left-deep plan used if the table had no plan for the full mask, which does not happen.\<close>

definition atom_vars :: "atom \<Rightarrow> string list" where
  "atom_vars a = remdups (filter (\<lambda>v. v \<noteq> ''_'') (atom_variables a))"

definition order_score :: "lower_env \<Rightarrow> lowerer \<Rightarrow> string list \<Rightarrow> bool \<Rightarrow> atom \<Rightarrow> u64" where
  "order_score env st bound first a =
     (let rows = estimate_atom_rows env st a; shared = length (filter (\<lambda>v. v \<in> set bound) (atom_vars a))
      in if first then rows
         else if shared = 0 then f64_operation (low_scalars env) OpMultiply rows cost_trillion
         else f64_operation (low_scalars env) OpDivide rows (f64_of_int (low_scalars env) (int shared)))"

fun first_minimal :: "('a \<Rightarrow> 'a \<Rightarrow> bool) \<Rightarrow> 'a \<Rightarrow> 'a list \<Rightarrow> 'a" where
  "first_minimal worse x [] = x"
| "first_minimal worse x (y # ys) = first_minimal worse (if worse x y then y else x) ys"

fun order_positive_atoms_greedy ::
    "lower_env \<Rightarrow> lowerer \<Rightarrow> nat \<Rightarrow> (nat \<times> atom) list \<Rightarrow> string list \<Rightarrow> bool \<Rightarrow> atom list" where
  "order_positive_atoms_greedy env st 0 remaining bound first = []"
| "order_positive_atoms_greedy env st (Suc left) remaining bound first =
     (case remaining of
        [] \<Rightarrow> []
      | x # xs \<Rightarrow>
          let score = (\<lambda>(i, a). order_score env st bound first a);
              worse = (\<lambda>p q. f64_less (score q) (score p) \<or> \<not> f64_less (score p) (score q) \<and> fst q < fst p);
              (i, a) = first_minimal worse x xs
          in a # order_positive_atoms_greedy env st left (filter (\<lambda>(j, _). j \<noteq> i) remaining)
                   (bound @ atom_vars a) False)"

definition collect_atom_vars :: "nat \<Rightarrow> atom \<Rightarrow> (string \<times> nat) list" where
  "collect_atom_vars base a =
     concat (map (\<lambda>(i, t). case t of Variable name \<Rightarrow> [(name, base + i)] | _ \<Rightarrow> []) (indexed (terms a)))"

definition compute_join_keys :: "(string \<times> nat) list \<Rightarrow> atom \<Rightarrow> (nat \<times> nat) list" where
  "compute_join_keys left_vars a =
     concat (map (\<lambda>(v, i). case map_of left_vars v of Some j \<Rightarrow> [(j, i)] | None \<Rightarrow> []) (collect_atom_vars 0 a))"

definition add_to_tree ::
    "lower_env \<Rightarrow> atom \<Rightarrow> rir_node \<times> (string \<times> nat) list \<times> nat \<times> lowerer
     \<Rightarrow> lower_error + rir_node \<times> (string \<times> nat) list \<times> nat \<times> lowerer" where
  "add_to_tree env a = (\<lambda>(result, vars, width, st).
     let (rel, st') = get_or_create_rel_id (predicate a) st
     in map_res (\<lambda>right.
          (JoinNode result right (map fst (compute_join_keys vars a)) (map snd (compute_join_keys vars a)) InnerJoin,
           vars @ collect_atom_vars width a, width + length (terms a), st'))
        (apply_constant_filters env st' (ScanNode rel) a))"

definition build_join_tree :: "lower_env \<Rightarrow> atom list \<Rightarrow> lowerer \<Rightarrow> lower_error + rir_node \<times> lowerer" where
  "build_join_tree env atoms st =
     (case atoms of
        [] \<Rightarrow> Inl EmptyRuleBody
      | a # rest \<Rightarrow>
          let (rel, st') = get_or_create_rel_id (predicate a) st
          in bind_res (apply_constant_filters env st' (ScanNode rel) a) (\<lambda>leaf.
             map_res (\<lambda>(result, _, _, st''). (result, st''))
               (fold_res (add_to_tree env) rest (leaf, collect_atom_vars 0 a, length (terms a), st'))))"

definition plan_positive_atoms_bushy ::
    "lower_env \<Rightarrow> atom list \<Rightarrow> lowerer \<Rightarrow> lower_error + (rir_node \<times> atom list) \<times> lowerer" where
  "plan_positive_atoms_bushy env atoms st =
     (case atoms of
        [] \<Rightarrow> Inl EmptyRuleBody
      | [a] \<Rightarrow> map_res (\<lambda>(p, st'). ((jp_node p, leaf_order p), st')) (make_leaf_plan env a 0 st)
      | _ \<Rightarrow>
          bind_res (leaf_plans env 0 atoms st) (\<lambda>(leaves, st').
            let table = fold (fill_mask env) [1..<2 ^ length atoms] (initial_table leaves)
            in case table ! (2 ^ length atoms - 1) of
                 Some p \<Rightarrow> Inr ((jp_node p, leaf_order p), st')
               | None \<Rightarrow>
                   let ordered = order_positive_atoms_greedy env st' (length atoms) (indexed atoms) [] True
                   in map_res (\<lambda>(node, st''). ((node, ordered), st'')) (build_join_tree env ordered st')))"

section \<open>Greedy planning\<close>

definition pair_candidate :: "lower_env \<Rightarrow> join_plan \<Rightarrow> join_plan \<Rightarrow> join_plan" where
  "pair_candidate env a b =
     (let ab = join_plans env a b; ba = join_plans env b a
      in if f64_less (total_cost ab) (total_cost ba)
            \<or> close_costs env (total_cost ab) (total_cost ba) \<and> lex_lt (leaf_order_idx ab) (leaf_order_idx ba)
         then ab else ba)"

definition better_pair ::
    "lower_env \<Rightarrow> join_plan list \<Rightarrow> nat \<times> nat \<Rightarrow> (nat \<times> nat \<times> join_plan) option \<Rightarrow> (nat \<times> nat \<times> join_plan) option"
  where
  "better_pair env plans = (\<lambda>(i, j) best.
     let cand = pair_candidate env (plans ! i) (plans ! j)
     in case best of
          None \<Rightarrow> Some (i, j, cand)
        | Some (_, _, current) \<Rightarrow> if replaces env cand current then Some (i, j, cand) else best)"

definition best_pair :: "lower_env \<Rightarrow> join_plan list \<Rightarrow> (nat \<times> nat \<times> join_plan) option" where
  "best_pair env plans =
     fold (better_pair env plans)
       (concat (map (\<lambda>i. map (Pair i) [Suc i..<length plans]) [0..<length plans])) None"

definition remove_at :: "nat \<Rightarrow> 'a list \<Rightarrow> 'a list" where
  "remove_at i xs = take i xs @ drop (Suc i) xs"

lemma best_pair_from:
  "fold (better_pair env plans) pairs best = Some (i, j, p) \<Longrightarrow>
   (i, j) \<in> set pairs \<and> p = pair_candidate env (plans ! i) (plans ! j) \<or> best = Some (i, j, p)"
proof (induction pairs arbitrary: best)
  case (Cons x pairs)
  obtain a b where x: "x = (a, b)" by (cases x)
  have step: "better_pair env plans x best = best
      \<or> better_pair env plans x best = Some (a, b, pair_candidate env (plans ! a) (plans ! b))"
    by (auto simp: x better_pair_def Let_def split: option.splits)
  have "(i, j) \<in> set pairs \<and> p = pair_candidate env (plans ! i) (plans ! j) \<or> better_pair env plans x best = Some (i, j, p)"
    using Cons by simp
  with step show ?case by (auto simp: x)
qed simp

lemma best_pair_Some:
  assumes "best_pair env plans = Some (i, j, p)"
  shows "i < j" and "j < length plans" and "p = pair_candidate env (plans ! i) (plans ! j)"
  using best_pair_from [OF assms [unfolded best_pair_def]] by auto

lemma length_remove_at: "i < length xs \<Longrightarrow> length (remove_at i xs) = length xs - 1"
  by (simp add: remove_at_def)

function greedy_plans :: "lower_env \<Rightarrow> join_plan list \<Rightarrow> join_plan list" where
  "greedy_plans env plans =
     (if length plans \<le> 1 then plans
      else case best_pair env plans of
             None \<Rightarrow> plans
           | Some (i, j, joined) \<Rightarrow> greedy_plans env (remove_at i (remove_at j plans) @ [joined]))"
  by pat_completeness auto
termination
proof (relation "measure (\<lambda>(env, plans). length plans)", goal_cases)
  case (2 env plans x i y j joined)
  then have "i < j" "j < length plans" using best_pair_Some by (metis prod.collapse)+
  with 2 show ?case by (simp add: length_remove_at)
qed simp

declare greedy_plans.simps [simp del]

definition plan_positive_atoms_bushy_greedy ::
    "lower_env \<Rightarrow> atom list \<Rightarrow> lowerer \<Rightarrow> lower_error + (rir_node \<times> atom list) \<times> lowerer" where
  "plan_positive_atoms_bushy_greedy env atoms st =
     (if atoms = [] then Inl EmptyRuleBody
      else bind_res (leaf_plans env 0 atoms st) (\<lambda>(leaves, st').
        let plans = greedy_plans env leaves
        in if plans = [] then Inl JoinPlanningFailed
           else Inr ((jp_node (last plans), leaf_order (last plans)), st')))"

definition max_bushy_dp_atoms :: nat where "max_bushy_dp_atoms = 10"

definition plan_positive_atoms ::
    "lower_env \<Rightarrow> atom list \<Rightarrow> lowerer \<Rightarrow> lower_error + (rir_node \<times> atom list) \<times> lowerer" where
  "plan_positive_atoms env atoms st =
     (if length atoms \<le> 1
      then (case atoms of
              [] \<Rightarrow> Inl EmptyRuleBody
            | a # _ \<Rightarrow> map_res (\<lambda>(p, st'). ((jp_node p, leaf_order p), st')) (make_leaf_plan env a 0 st))
      else if length atoms \<le> max_bushy_dp_atoms then plan_positive_atoms_bushy env atoms st
      else plan_positive_atoms_bushy_greedy env atoms st)"

end
