(* ===== verification/Lower_Rule.thy ===== *)
theory Lower_Rule
  imports Join_Planning
begin

text \<open>
  Lowering of one rule to a relational plan (\<open>xlog-logic/src/lower.rs\<close>): the planned join of the positive
  atoms, then a filter for each comparison, a computed column for each \<open>is\<close> expression, a difference and
  semijoin (or an antijoin on a constant key) for each negated atom, and the projection to the head, or the
  grouping of an aggregate head. The reservations of an allocation owner do not change the result and are
  left out; the task stack of \<open>arith_to_expr\<close> is a recursion.
\<close>

section \<open>Variable environments\<close>

record variable_env =
  occurrences :: "string \<Rightarrow> (string \<times> nat \<times> nat) list"
  total_cols :: nat
  env_types :: "string \<Rightarrow> scalar_type option"

definition new_variable_env :: variable_env where
  "new_variable_env = \<lparr>occurrences = (\<lambda>_. []), total_cols = 0, env_types = Map.empty\<rparr>"

definition add_occurrence :: "string \<Rightarrow> string \<Rightarrow> nat \<Rightarrow> nat \<Rightarrow> variable_env \<Rightarrow> variable_env" where
  "add_occurrence x p atom_pos col ve =
     ve\<lparr>occurrences := (occurrences ve)(x := occurrences ve x @ [(p, atom_pos, col)])\<rparr>"

definition get_column :: "variable_env \<Rightarrow> string \<Rightarrow> nat option" where
  "get_column ve x = (case occurrences ve x of [] \<Rightarrow> None | (_, _, col) # _ \<Rightarrow> Some col)"

definition bind_variable :: "string \<Rightarrow> nat \<Rightarrow> scalar_type \<Rightarrow> variable_env \<Rightarrow> variable_env" where
  "bind_variable x col t ve =
     \<lparr>occurrences = (occurrences ve)(x := occurrences ve x @ [([], 0, col)]),
      total_cols = (if total_cols ve \<le> col then col + 1 else total_cols ve),
      env_types = (env_types ve)(x \<mapsto> t)\<rparr>"

definition add_term_variable :: "schema_table \<Rightarrow> atom \<Rightarrow> nat \<Rightarrow> nat \<times> ast_term \<Rightarrow> variable_env \<Rightarrow> variable_env" where
  "add_term_variable schemas a current_col = (\<lambda>(i, t) ve.
     case t of
       Variable x \<Rightarrow>
         if x = ''_'' then ve
         else let ve' = add_occurrence x (predicate a) i (current_col + i) ve
              in if env_types ve' x = None
                 then ve'\<lparr>env_types := (env_types ve')
                   (x \<mapsto> (case schema_column schemas a i of Some ty \<Rightarrow> ty | None \<Rightarrow> TyI64))\<rparr>
                 else ve'
     | _ \<Rightarrow> ve)"

definition add_atom_variables :: "schema_table \<Rightarrow> atom \<Rightarrow> variable_env \<times> nat \<Rightarrow> variable_env \<times> nat" where
  "add_atom_variables schemas a = (\<lambda>(ve, current_col).
     (fold (add_term_variable schemas a current_col) (indexed (terms a)) ve, current_col + length (terms a)))"

definition build_variable_env :: "schema_table \<Rightarrow> atom list \<Rightarrow> variable_env" where
  "build_variable_env schemas leaf_atoms =
     (let (ve, current_col) = fold (add_atom_variables schemas) leaf_atoms (new_variable_env, 0)
      in ve\<lparr>total_cols := current_col\<rparr>)"

section \<open>Comparisons\<close>

definition term_to_expr :: "lower_env \<Rightarrow> ast_term \<Rightarrow> variable_env \<Rightarrow> lower_error + rexpr" where
  "term_to_expr env t ve =
     (case t of
        Variable x \<Rightarrow> (case get_column ve x of Some col \<Rightarrow> Inr (EColumn col) | None \<Rightarrow> Inl (VariableNotFound x))
      | Anonymous \<Rightarrow> Inl WildcardComparison
      | Integer i \<Rightarrow> Inr (EConst (CvI64 i))
      | Float f \<Rightarrow> Inr (EConst (CvF64 f))
      | Str s \<Rightarrow> Inr (EConst (CvSymbol s))
      | Symbol sid \<Rightarrow>
          (case symbol_text (low_scalars env) sid of
             Some s \<Rightarrow> Inr (EConst (CvSymbol s))
           | None \<Rightarrow> Inl (BadLiteral ArithPanic))
      | Aggregate _ \<Rightarrow> Inl AggregateComparison
      | _ \<Rightarrow> Inl (NotLowerable ''comparison'' t))"

definition compare_op_of :: "comp_op \<Rightarrow> compare_op" where
  "compare_op_of c = (case c of Eq \<Rightarrow> CmpEq | Ne \<Rightarrow> CmpNe | Lt \<Rightarrow> CmpLt | Le \<Rightarrow> CmpLe | Gt \<Rightarrow> CmpGt | Ge \<Rightarrow> CmpGe)"

definition variable_column_type :: "string \<Rightarrow> variable_env \<Rightarrow> lower_error + nat \<times> scalar_type" where
  "variable_column_type x ve =
     (case get_column ve x of
        None \<Rightarrow> Inl (VariableNotFound x)
      | Some col \<Rightarrow>
          (case env_types ve x of None \<Rightarrow> Inl (MissingVariableType x) | Some t \<Rightarrow> Inr (col, t)))"

definition comparison_exprs :: "lower_env \<Rightarrow> comparison \<Rightarrow> variable_env \<Rightarrow> lower_error + rexpr \<times> rexpr" where
  "comparison_exprs env c ve =
     (let both_terms = bind_res (term_to_expr env (cmp_left c) ve) (\<lambda>l.
            map_res (Pair l) (term_to_expr env (cmp_right c) ve));
          typed = (\<lambda>x t. bind_res (variable_column_type x ve) (\<lambda>(col, ty).
            map_res (map_option (Pair col)) (map_err BadLiteral (term_to_typed_const_value (low_scalars env) t ty))))
      in case (cmp_left c, cmp_right c) of
           (Variable x, t) \<Rightarrow>
             bind_res (typed x t) (\<lambda>res.
               case res of Some (col, v) \<Rightarrow> Inr (EColumn col, EConst v) | None \<Rightarrow> both_terms)
         | (t, Variable x) \<Rightarrow>
             bind_res (typed x t) (\<lambda>res.
               case res of Some (col, v) \<Rightarrow> Inr (EConst v, EColumn col) | None \<Rightarrow> both_terms)
         | _ \<Rightarrow> both_terms)"

definition apply_comparison :: "lower_env \<Rightarrow> variable_env \<Rightarrow> comparison \<Rightarrow> rir_node \<Rightarrow> lower_error + rir_node" where
  "apply_comparison env ve c input =
     map_res (\<lambda>(l, r). FilterNode input (ECompare l (compare_op_of (cmp_op c)) r)) (comparison_exprs env c ve)"

section \<open>Arithmetic\<close>

fun arith_to_expr :: "variable_env \<Rightarrow> arith_expr \<Rightarrow> lower_error + rexpr" where
  "arith_to_expr ve (AVariable x) =
     (case get_column ve x of Some col \<Rightarrow> Inr (EColumn col) | None \<Rightarrow> Inl (UnboundArithVariable x))"
| "arith_to_expr ve (AInteger i) = Inr (EConst (CvI64 i))"
| "arith_to_expr ve (AFloat f) = Inr (EConst (CvF64 f))"
| "arith_to_expr ve (Add l r) = bind_res (arith_to_expr ve l) (\<lambda>a. map_res (EAdd a) (arith_to_expr ve r))"
| "arith_to_expr ve (Sub l r) = bind_res (arith_to_expr ve l) (\<lambda>a. map_res (ESub a) (arith_to_expr ve r))"
| "arith_to_expr ve (Mul l r) = bind_res (arith_to_expr ve l) (\<lambda>a. map_res (EMul a) (arith_to_expr ve r))"
| "arith_to_expr ve (Div l r) = bind_res (arith_to_expr ve l) (\<lambda>a. map_res (EDiv a) (arith_to_expr ve r))"
| "arith_to_expr ve (Mod l r) = bind_res (arith_to_expr ve l) (\<lambda>a. map_res (EMod a) (arith_to_expr ve r))"
| "arith_to_expr ve (AMin l r) = bind_res (arith_to_expr ve l) (\<lambda>a. map_res (EMin a) (arith_to_expr ve r))"
| "arith_to_expr ve (AMax l r) = bind_res (arith_to_expr ve l) (\<lambda>a. map_res (EMax a) (arith_to_expr ve r))"
| "arith_to_expr ve (Pow l r) = bind_res (arith_to_expr ve l) (\<lambda>a. map_res (EPow a) (arith_to_expr ve r))"
| "arith_to_expr ve (Abs e) = map_res EAbs (arith_to_expr ve e)"
| "arith_to_expr ve (Cast e t) = map_res (\<lambda>a. ECast a t) (arith_to_expr ve e)"
| "arith_to_expr ve (FuncCall f args) = Inl (UnexpandedFunction f)"
| "arith_to_expr ve (Conditional cl cop cr t e) =
     bind_res (arith_to_expr ve cl) (\<lambda>l. bind_res (arith_to_expr ve cr) (\<lambda>r.
       bind_res (arith_to_expr ve t) (\<lambda>a. map_res (ECond (ECompare l (compare_op_of cop) r) a) (arith_to_expr ve e))))"

definition lower_is_expr :: "is_expr \<Rightarrow> rir_node \<times> variable_env \<Rightarrow> lower_error + rir_node \<times> variable_env" where
  "lower_is_expr e = (\<lambda>(input, ve).
     bind_res (infer_arith_type (env_types ve) (is_rhs e)) (\<lambda>t.
       map_res (\<lambda>ir.
         (ProjectNode input (map PColumn [0..<total_cols ve] @ [Computed ir t]),
          bind_variable (is_target e) (total_cols ve) t ve))
         (arith_to_expr ve (is_rhs e))))"

section \<open>Negation\<close>

definition negation_columns :: "variable_env \<Rightarrow> atom \<Rightarrow> (nat \<times> nat) list" where
  "negation_columns ve a =
     concat (map (\<lambda>(i, t). case t of
         Variable x \<Rightarrow> (case get_column ve x of Some col \<Rightarrow> [(col, i)] | None \<Rightarrow> [])
       | _ \<Rightarrow> []) (indexed (terms a)))"

definition existence_gate :: "nat \<Rightarrow> rir_node \<Rightarrow> rir_node \<Rightarrow> rir_node" where
  "existence_gate w input neg =
     ProjectNode
       (JoinNode (ProjectNode input (map PColumn [0..<w] @ [const_key])) (ProjectNode neg [const_key])
         [w] [0] AntiJoin)
       (map PColumn [0..<w])"

definition difference_filter :: "nat \<Rightarrow> (nat \<times> nat) list \<Rightarrow> rir_node \<Rightarrow> rir_node \<Rightarrow> rir_node" where
  "difference_filter arity pairs input neg =
     (let input_cols = map fst pairs; neg_cols = map snd pairs;
          neg_projected = (if length neg_cols < arity then ProjectNode neg (map PColumn neg_cols) else neg)
      in JoinNode input (DiffNode (ProjectNode input (map PColumn input_cols)) neg_projected)
           input_cols [0..<length input_cols] SemiJoin)"

definition apply_negation ::
    "lower_env \<Rightarrow> variable_env \<Rightarrow> atom \<Rightarrow> rir_node \<times> lowerer \<Rightarrow> lower_error + rir_node \<times> lowerer" where
  "apply_negation env ve a = (\<lambda>(input, st).
     let (rel, st') = get_or_create_rel_id (predicate a) st; pairs = negation_columns ve a
     in map_res (\<lambda>neg.
          (if pairs = [] then existence_gate (total_cols ve) input neg
           else difference_filter (length (terms a)) pairs input neg, st'))
        (apply_constant_filters env st' (ScanNode rel) a))"

section \<open>Bodies\<close>

definition positive_atoms :: "body_literal list \<Rightarrow> atom list" where
  "positive_atoms ls = concat (map (\<lambda>l. case l of Positive a \<Rightarrow> [a] | _ \<Rightarrow> []) ls)"

definition negated_atoms :: "body_literal list \<Rightarrow> atom list" where
  "negated_atoms ls = concat (map (\<lambda>l. case l of Negated a \<Rightarrow> [a] | _ \<Rightarrow> []) ls)"

definition body_comparisons :: "body_literal list \<Rightarrow> comparison list" where
  "body_comparisons ls = concat (map (\<lambda>l. case l of Comparison c \<Rightarrow> [c] | _ \<Rightarrow> []) ls)"

definition body_is_exprs :: "body_literal list \<Rightarrow> is_expr list" where
  "body_is_exprs ls = concat (map (\<lambda>l. case l of IsExpr e \<Rightarrow> [e] | _ \<Rightarrow> []) ls)"

definition split_body_literals ::
    "body_literal list \<Rightarrow> atom list \<times> atom list \<times> comparison list \<times> is_expr list" where
  "split_body_literals ls = (positive_atoms ls, negated_atoms ls, body_comparisons ls, body_is_exprs ls)"

definition lower_body_parts ::
    "lower_env \<Rightarrow> atom list \<Rightarrow> comparison list \<Rightarrow> is_expr list \<Rightarrow> rir_node \<Rightarrow> variable_env \<Rightarrow> lowerer
     \<Rightarrow> lower_error + rir_node \<times> variable_env \<times> lowerer" where
  "lower_body_parts env negated comparisons is_exprs root ve st =
     bind_res (fold_res (apply_comparison env ve) comparisons root) (\<lambda>filtered.
       bind_res (fold_res lower_is_expr is_exprs (filtered, ve)) (\<lambda>(bound, ve').
         map_res (\<lambda>(result, st'). (result, ve', st'))
           (fold_res (apply_negation env ve') negated (bound, st))))"

section \<open>Heads\<close>

definition is_identity_projection :: "project_expr list \<Rightarrow> nat \<Rightarrow> bool" where
  "is_identity_projection cols w =
     (length cols = w \<and> list_all (\<lambda>(i, c). c = PColumn i) (indexed cols))"

definition head_constant ::
    "lower_env \<Rightarrow> schema_table \<Rightarrow> atom \<Rightarrow> nat \<times> ast_term \<Rightarrow> lower_error + project_expr" where
  "head_constant env schemas hd_atom = (\<lambda>(index, t).
     case schema_column schemas hd_atom index of
       None \<Rightarrow> Inl (MissingHeadType (predicate hd_atom) index)
     | Some ty \<Rightarrow>
         bind_res (map_err BadLiteral (term_to_typed_const_value (low_scalars env) t ty)) (\<lambda>c.
           case c of None \<Rightarrow> Inl NotConstant | Some v \<Rightarrow> Inr (Computed (EConst v) ty)))"

definition head_column ::
    "lower_env \<Rightarrow> schema_table \<Rightarrow> atom \<Rightarrow> variable_env \<Rightarrow> nat \<times> ast_term \<Rightarrow> lower_error + project_expr" where
  "head_column env schemas hd_atom ve = (\<lambda>(index, t).
     if is_constant t then head_constant env schemas hd_atom (index, t)
     else case t of
            Variable x \<Rightarrow>
              (case get_column ve x of Some col \<Rightarrow> Inr (PColumn col) | None \<Rightarrow> Inl (UnsafeVariable x))
          | Anonymous \<Rightarrow> Inl WildcardHead
          | Aggregate _ \<Rightarrow> Inl AggregateInPlainHead
          | _ \<Rightarrow> Inl (NotLowerable ''rule head projection'' t))"

definition compute_head_projection ::
    "lower_env \<Rightarrow> schema_table \<Rightarrow> atom \<Rightarrow> variable_env \<Rightarrow> lower_error + project_expr list" where
  "compute_head_projection env schemas hd_atom ve =
     traverse (head_column env schemas hd_atom ve) (indexed (terms hd_atom))"

section \<open>Aggregate heads\<close>

definition convert_agg_op :: "agg_op \<Rightarrow> core_agg_op" where
  "convert_agg_op aop =
     (case aop of AggCount \<Rightarrow> CoreCount | AggSum \<Rightarrow> CoreSum | AggMin \<Rightarrow> CoreMin | AggMax \<Rightarrow> CoreMax
      | AggLogSumExp \<Rightarrow> CoreLogSumExp)"

definition position_of :: "'a \<Rightarrow> 'a list \<Rightarrow> nat option" where
  "position_of x xs = (if x \<in> set xs then Some (length (takeWhile (\<lambda>y. y \<noteq> x) xs)) else None)"

text \<open>Group keys and aggregated values with their columns in the body, and the aggregates, each without
  repetitions and in head order.\<close>

record group_spec =
  group_keys :: "(string \<times> nat) list"
  group_aggs :: "(agg_op \<times> string) list"
  group_values :: "(string \<times> nat) list"

definition collect_group_term ::
    "variable_env \<Rightarrow> ast_term \<Rightarrow> group_spec \<Rightarrow> lower_error + group_spec" where
  "collect_group_term ve t g =
     (case t of
        Variable x \<Rightarrow>
          if x \<in> set (map fst (group_keys g)) then Inr g
          else (case get_column ve x of
                  None \<Rightarrow> Inl (UnsafeVariable x)
                | Some col \<Rightarrow> Inr (g\<lparr>group_keys := group_keys g @ [(x, col)]\<rparr>))
      | Aggregate agg \<Rightarrow>
          let x = agg_variable agg
          in if (agg_op agg, x) \<in> set (group_aggs g) then Inr g
             else (case get_column ve x of
                     None \<Rightarrow> Inl (UnsafeVariable x)
                   | Some col \<Rightarrow>
                       Inr (g\<lparr>group_values := (if x \<in> set (map fst (group_values g)) then group_values g
                                               else group_values g @ [(x, col)]),
                              group_aggs := group_aggs g @ [(agg_op agg, x)]\<rparr>))
      | Anonymous \<Rightarrow> Inl WildcardHead
      | Integer _ \<Rightarrow> Inr g
      | Float _ \<Rightarrow> Inr g
      | Str _ \<Rightarrow> Inr g
      | Symbol _ \<Rightarrow> Inr g
      | _ \<Rightarrow> Inl (NotLowerable ''aggregate rule head'' t))"

definition group_input_columns :: "group_spec \<Rightarrow> project_expr list" where
  "group_input_columns g =
     (if group_keys g = [] then [const_key] else map (PColumn \<circ> snd) (group_keys g))
     @ map (PColumn \<circ> snd) (group_values g)"

definition group_key_count :: "group_spec \<Rightarrow> nat" where
  "group_key_count g = (if group_keys g = [] then 1 else length (group_keys g))"

definition group_agg_spec :: "group_spec \<Rightarrow> agg_op \<times> string \<Rightarrow> lower_error + nat \<times> core_agg_op" where
  "group_agg_spec g = (\<lambda>(aop, x).
     case position_of x (map fst (group_values g)) of
       None \<Rightarrow> Inl (UnsafeVariable x)
     | Some i \<Rightarrow> Inr (group_key_count g + i, convert_agg_op aop))"

definition group_head_column ::
    "lower_env \<Rightarrow> schema_table \<Rightarrow> atom \<Rightarrow> group_spec \<Rightarrow> nat \<times> ast_term \<Rightarrow> lower_error + project_expr" where
  "group_head_column env schemas hd_atom g = (\<lambda>(index, t).
     if is_constant t then head_constant env schemas hd_atom (index, t)
     else case t of
            Variable x \<Rightarrow>
              (case position_of x (map fst (group_keys g)) of
                 None \<Rightarrow> Inl (UnsafeVariable x)
               | Some i \<Rightarrow> Inr (PColumn i))
          | Aggregate agg \<Rightarrow>
              (case position_of (agg_op agg, agg_variable agg) (group_aggs g) of
                 None \<Rightarrow> Inl (UnsafeVariable (agg_variable agg))
               | Some i \<Rightarrow> Inr (PColumn (group_key_count g + i)))
          | Anonymous \<Rightarrow> Inl WildcardHead
          | _ \<Rightarrow> Inl (NotLowerable ''aggregate rule projection'' t))"

definition lower_aggregate_rule ::
    "lower_env \<Rightarrow> schema_table \<Rightarrow> atom \<Rightarrow> rir_node \<Rightarrow> variable_env \<Rightarrow> lower_error + rir_node" where
  "lower_aggregate_rule env schemas hd_atom body_node ve =
     bind_res (fold_res (collect_group_term ve) (terms hd_atom) \<lparr>group_keys = [], group_aggs = [], group_values = []\<rparr>)
       (\<lambda>g. if group_aggs g = [] then Inl NoAggregateTerm
            else bind_res (traverse (group_agg_spec g) (group_aggs g)) (\<lambda>aggs.
              bind_res (traverse (group_head_column env schemas hd_atom g) (indexed (terms hd_atom))) (\<lambda>cols.
                if cols = [] then Inl EmptyHeadProjection
                else Inr (ProjectNode
                  (GroupByNode (ProjectNode body_node (group_input_columns g)) [0..<group_key_count g] aggs) cols))))"

section \<open>Rules\<close>

definition allocate_literal :: "body_literal \<Rightarrow> lowerer \<Rightarrow> lowerer" where
  "allocate_literal l st =
     (case l of
        Positive a \<Rightarrow> snd (get_or_create_rel_id (predicate a) st)
      | Negated a \<Rightarrow> snd (get_or_create_rel_id (predicate a) st)
      | _ \<Rightarrow> st)"

definition find_epistemic :: "body_literal list \<Rightarrow> epistemic_literal option" where
  "find_epistemic ls = List.find (\<lambda>_. True) (concat (map (\<lambda>l. case l of Epistemic e \<Rightarrow> [e] | _ \<Rightarrow> []) ls))"

definition finish_rule ::
    "lower_env \<Rightarrow> rule \<Rightarrow> rir_node \<Rightarrow> variable_env \<Rightarrow> lowerer \<Rightarrow> lower_error + rir_node \<times> lowerer" where
  "finish_rule env r body_node ve st =
     (if has_aggregation r
      then map_res (\<lambda>n. (n, st)) (lower_aggregate_rule env (low_schemas st) (head r) body_node ve)
      else map_res (\<lambda>cols. (if is_identity_projection cols (total_cols ve) then body_node
                            else ProjectNode body_node cols, st))
             (compute_head_projection env (low_schemas st) (head r) ve))"

definition lower_rule :: "lower_env \<Rightarrow> rule \<Rightarrow> lowerer \<Rightarrow> lower_error + rir_node \<times> lowerer" where
  "lower_rule env r st =
     (case find_epistemic (body r) of
        Some l \<Rightarrow> Inl (EpistemicBody l)
      | None \<Rightarrow>
          let (pos, neg, comparisons, is_exprs) = split_body_literals (body r);
              st1 = fold allocate_literal (body r) st
          in bind_res (if pos = [] then Inr ((UnitNode, []), st1) else plan_positive_atoms env pos st1)
               (\<lambda>((root, leaf_atoms), st2).
                 bind_res (lower_body_parts env neg comparisons is_exprs root
                     (build_variable_env (low_schemas st2) leaf_atoms) st2)
                   (\<lambda>(body_node, ve, st3). finish_rule env r body_node ve st3)))"

end
