(* ===== verification/Pushdown.thy ===== *)
theory Pushdown
  imports Rir
begin

text \<open>
  Predicate pushdown, the rewriting of the optimizer (\<open>xlog-logic/src/optimizer.rs\<close>): filters move
  through projections and into the inputs of joins. The optimizer knows the arity of the relations
  whose schema it was given; for other relations it guesses from statistics.
\<close>

record optimizer =
  enable_pushdown :: bool
  opt_schemas :: "rel_id \<Rightarrow> nat option"
  opt_stats :: "rel_id \<Rightarrow> nat option"

section \<open>Expressions\<close>

fun map_option_all :: "'a option list \<Rightarrow> 'a list option" where
  "map_option_all [] = Some []"
| "map_option_all (x # xs) = Option.bind x (\<lambda>y. map_option ((#) y) (map_option_all xs))"

definition both :: "('a \<Rightarrow> 'a \<Rightarrow> 'a) \<Rightarrow> 'a option \<Rightarrow> 'a option \<Rightarrow> 'a option" where
  "both f x y = Option.bind x (\<lambda>a. map_option (f a) y)"

fun remap_expr :: "(nat \<Rightarrow> nat option) \<Rightarrow> rexpr \<Rightarrow> rexpr option" where
  "remap_expr m (EColumn i) = map_option EColumn (m i)"
| "remap_expr m (EConst c) = Some (EConst c)"
| "remap_expr m (ECompare l op r) = both (\<lambda>a b. ECompare a op b) (remap_expr m l) (remap_expr m r)"
| "remap_expr m (EAnd es) = map_option EAnd (map_option_all (map (remap_expr m) es))"
| "remap_expr m (EOr es) = map_option EOr (map_option_all (map (remap_expr m) es))"
| "remap_expr m (ENot e) = map_option ENot (remap_expr m e)"
| "remap_expr m (EAdd l r) = both EAdd (remap_expr m l) (remap_expr m r)"
| "remap_expr m (ESub l r) = both ESub (remap_expr m l) (remap_expr m r)"
| "remap_expr m (EMul l r) = both EMul (remap_expr m l) (remap_expr m r)"
| "remap_expr m (EDiv l r) = both EDiv (remap_expr m l) (remap_expr m r)"
| "remap_expr m (EMod l r) = both EMod (remap_expr m l) (remap_expr m r)"
| "remap_expr m (EAbs e) = map_option EAbs (remap_expr m e)"
| "remap_expr m (EMin l r) = both EMin (remap_expr m l) (remap_expr m r)"
| "remap_expr m (EMax l r) = both EMax (remap_expr m l) (remap_expr m r)"
| "remap_expr m (EPow l r) = both EPow (remap_expr m l) (remap_expr m r)"
| "remap_expr m (ECast e t) = map_option (\<lambda>a. ECast a t) (remap_expr m e)"
| "remap_expr m (ECond c a b) =
     Option.bind (remap_expr m c) (\<lambda>c'. both (ECond c') (remap_expr m a) (remap_expr m b))"

definition passed_column :: "project_expr list \<Rightarrow> nat \<Rightarrow> nat option" where
  "passed_column cols i = (case get cols i of Some (PColumn j) \<Rightarrow> Some j | _ \<Rightarrow> None)"

definition remap_predicate_through_project :: "rexpr \<Rightarrow> project_expr list \<Rightarrow> rexpr option" where
  "remap_predicate_through_project p cols = remap_expr (passed_column cols) p"

fun collect_columns :: "rexpr \<Rightarrow> nat list" where
  "collect_columns (EColumn i) = [i]"
| "collect_columns (EConst c) = []"
| "collect_columns (ECompare l op r) = collect_columns l @ collect_columns r"
| "collect_columns (EAnd es) = concat (map collect_columns es)"
| "collect_columns (EOr es) = concat (map collect_columns es)"
| "collect_columns (ENot e) = collect_columns e"
| "collect_columns (EAbs e) = collect_columns e"
| "collect_columns (ECast e t) = collect_columns e"
| "collect_columns (EAdd l r) = collect_columns l @ collect_columns r"
| "collect_columns (ESub l r) = collect_columns l @ collect_columns r"
| "collect_columns (EMul l r) = collect_columns l @ collect_columns r"
| "collect_columns (EDiv l r) = collect_columns l @ collect_columns r"
| "collect_columns (EMod l r) = collect_columns l @ collect_columns r"
| "collect_columns (EMin l r) = collect_columns l @ collect_columns r"
| "collect_columns (EMax l r) = collect_columns l @ collect_columns r"
| "collect_columns (EPow l r) = collect_columns l @ collect_columns r"
| "collect_columns (ECond c a b) = collect_columns c @ collect_columns a @ collect_columns b"

fun remap_columns :: "(nat \<Rightarrow> nat) \<Rightarrow> rexpr \<Rightarrow> rexpr" where
  "remap_columns f (EColumn i) = EColumn (f i)"
| "remap_columns f (EConst c) = EConst c"
| "remap_columns f (ECompare l op r) = ECompare (remap_columns f l) op (remap_columns f r)"
| "remap_columns f (EAnd es) = EAnd (map (remap_columns f) es)"
| "remap_columns f (EOr es) = EOr (map (remap_columns f) es)"
| "remap_columns f (ENot e) = ENot (remap_columns f e)"
| "remap_columns f (EAdd l r) = EAdd (remap_columns f l) (remap_columns f r)"
| "remap_columns f (ESub l r) = ESub (remap_columns f l) (remap_columns f r)"
| "remap_columns f (EMul l r) = EMul (remap_columns f l) (remap_columns f r)"
| "remap_columns f (EDiv l r) = EDiv (remap_columns f l) (remap_columns f r)"
| "remap_columns f (EMod l r) = EMod (remap_columns f l) (remap_columns f r)"
| "remap_columns f (EAbs e) = EAbs (remap_columns f e)"
| "remap_columns f (EMin l r) = EMin (remap_columns f l) (remap_columns f r)"
| "remap_columns f (EMax l r) = EMax (remap_columns f l) (remap_columns f r)"
| "remap_columns f (EPow l r) = EPow (remap_columns f l) (remap_columns f r)"
| "remap_columns f (ECast e t) = ECast (remap_columns f e) t"
| "remap_columns f (ECond c a b) = ECond (remap_columns f c) (remap_columns f a) (remap_columns f b)"

fun flatten_and :: "rexpr \<Rightarrow> rexpr list" where
  "flatten_and (EAnd es) = concat (map flatten_and es)"
| "flatten_and e = [e]"

definition conjoin :: "rexpr list \<Rightarrow> rexpr" where
  "conjoin ps = (case ps of [p] \<Rightarrow> p | _ \<Rightarrow> EAnd ps)"

text \<open>One conjunct goes to the left input, to the right input with shifted columns, or stays.\<close>

definition place_conjunct ::
    "nat \<Rightarrow> rexpr \<Rightarrow> rexpr list \<times> rexpr list \<times> rexpr list \<Rightarrow> rexpr list \<times> rexpr list \<times> rexpr list" where
  "place_conjunct left_width cj = (\<lambda>(left_preds, right_preds, remaining).
     let cols = collect_columns cj
     in if cols = [] then (left_preds @ [cj], right_preds, remaining)
        else if Max (set cols) < left_width then (left_preds @ [cj], right_preds, remaining)
        else if left_width \<le> Min (set cols)
        then (left_preds, right_preds @ [remap_columns (\<lambda>c. c - left_width) cj], remaining)
        else (left_preds, right_preds, remaining @ [cj]))"

definition split_predicate_for_join :: "rexpr \<Rightarrow> nat \<Rightarrow> rexpr list \<times> rexpr list \<times> rexpr list" where
  "split_predicate_for_join p left_width = fold (place_conjunct left_width) (flatten_and p) ([], [], [])"

section \<open>Nodes\<close>

fun estimate_width :: "optimizer \<Rightarrow> rir_node \<Rightarrow> nat" where
  "estimate_width O' UnitNode = 0"
| "estimate_width O' (ScanNode rel) =
     (case opt_schemas O' rel of
        Some n \<Rightarrow> n
      | None \<Rightarrow> (case opt_stats O' rel of Some n \<Rightarrow> max n 1 | None \<Rightarrow> 4))"
| "estimate_width O' (FilterNode input p) = estimate_width O' input"
| "estimate_width O' (ProjectNode input cols) = length cols"
| "estimate_width O' (JoinNode l r lk rk jt) = estimate_width O' l + estimate_width O' r"
| "estimate_width O' (ChainJoinNode l r lk rk cols fallback) = length cols"
| "estimate_width O' (GroupByNode input ks aggs) = length ks + length aggs"
| "estimate_width O' (UnionNode inputs) = (case inputs of [] \<Rightarrow> 0 | n # _ \<Rightarrow> estimate_width O' n)"
| "estimate_width O' (DistinctNode input ks) = estimate_width O' input"
| "estimate_width O' (DiffNode l r) = estimate_width O' l"
| "estimate_width O' (FixpointNode scc base recursive delta full) = estimate_width O' base"
| "estimate_width O' (TensorMaskedJoinNode t) =
     (case opt_schemas O' (head_rel_id t) of Some n \<Rightarrow> n | None \<Rightarrow> 2)"
| "estimate_width O' (MultiWayJoinNode inputs slots cols fallback plan order) = length cols"

definition filter_unless_empty :: "rexpr list \<Rightarrow> rir_node \<Rightarrow> rir_node" where
  "filter_unless_empty ps n = (if ps = [] then n else FilterNode n (conjoin ps))"

text \<open>A filter over an input that is already optimized.\<close>

definition push_filter :: "optimizer \<Rightarrow> rir_node \<Rightarrow> rexpr \<Rightarrow> rir_node" where
  "push_filter O' input p =
     (case input of
        FilterNode inner q \<Rightarrow> FilterNode inner (EAnd [q, p])
      | ProjectNode inner cols \<Rightarrow>
          (case remap_predicate_through_project p cols of
             Some p' \<Rightarrow> ProjectNode (FilterNode inner p') cols
           | None \<Rightarrow> FilterNode (ProjectNode inner cols) p)
      | JoinNode l r lk rk jt \<Rightarrow>
          (case split_predicate_for_join p (estimate_width O' l) of
             (left_preds, right_preds, remaining) \<Rightarrow>
               filter_unless_empty remaining
                 (JoinNode (filter_unless_empty left_preds l) (filter_unless_empty right_preds r) lk rk jt))
      | other \<Rightarrow> FilterNode other p)"

text \<open>A chain of projections is rebuilt over its optimized base, which is the structural recursion here.\<close>

fun predicate_pushdown :: "optimizer \<Rightarrow> rir_node \<Rightarrow> rir_node" where
  "predicate_pushdown O' UnitNode = UnitNode"
| "predicate_pushdown O' (ScanNode rel) = ScanNode rel"
| "predicate_pushdown O' (FilterNode input p) = push_filter O' (predicate_pushdown O' input) p"
| "predicate_pushdown O' (ProjectNode input cols) = ProjectNode (predicate_pushdown O' input) cols"
| "predicate_pushdown O' (JoinNode l r lk rk jt) =
     JoinNode (predicate_pushdown O' l) (predicate_pushdown O' r) lk rk jt"
| "predicate_pushdown O' (GroupByNode input ks aggs) = GroupByNode (predicate_pushdown O' input) ks aggs"
| "predicate_pushdown O' (UnionNode inputs) = UnionNode (map (predicate_pushdown O') inputs)"
| "predicate_pushdown O' (DistinctNode input ks) = DistinctNode (predicate_pushdown O' input) ks"
| "predicate_pushdown O' (DiffNode l r) = DiffNode (predicate_pushdown O' l) (predicate_pushdown O' r)"
| "predicate_pushdown O' (FixpointNode scc base recursive delta full) =
     FixpointNode scc (predicate_pushdown O' base) (predicate_pushdown O' recursive) delta full"
| "predicate_pushdown O' (TensorMaskedJoinNode t) = TensorMaskedJoinNode t"
| "predicate_pushdown O' (MultiWayJoinNode inputs slots cols fallback plan order) =
     MultiWayJoinNode inputs slots cols fallback plan order"
| "predicate_pushdown O' (ChainJoinNode l r lk rk cols fallback) = ChainJoinNode l r lk rk cols fallback"

definition optimize :: "optimizer \<Rightarrow> rir_node \<Rightarrow> rir_node" where
  "optimize O' n = (if enable_pushdown O' then predicate_pushdown O' n else n)"

end
