(* ===== verification/Pushdown_Correct.thy ===== *)
theory Pushdown_Correct
  imports Pushdown
begin

text \<open>
  Typing of relational plans and the correctness of predicate pushdown: a plan whose expressions fit
  the types of their inputs runs and yields rows of its types, and pushdown keeps both the types and
  the result, as long as the optimizer does not misjudge the width of the left input of a join.
\<close>

section \<open>Expressions under a renaming of columns\<close>

lemma eval_preds_each_row: "eval_preds E ts row es = each_row (eval_pred E ts row) es"
  by (induction es) auto

lemma each_row_cong: "(\<And>x. x \<in> set xs \<Longrightarrow> f x = g x) \<Longrightarrow> each_row f xs = each_row g xs"
  by (induction xs) auto

lemma each_row_map: "each_row f (map g xs) = each_row (\<lambda>x. f (g x)) xs"
  by (induction xs) auto

lemma each_row_Some: "each_row f xs = Some ys \<longleftrightarrow> list_all2 (\<lambda>x y. f x = Some y) xs ys"
  by (induction xs arbitrary: ys) (auto simp: list_all2_Cons1 bind_eq_Some_conv)

lemma each_row_total: "(\<And>x. x \<in> set xs \<Longrightarrow> f x \<noteq> None) \<Longrightarrow> each_row f xs = Some (map (\<lambda>x. the (f x)) xs)"
proof (induction xs)
  case (Cons x xs)
  then obtain y where "f x = Some y" by fastforce
  moreover have "each_row f xs = Some (map (\<lambda>x. the (f x)) xs)" using Cons by simp
  ultimately show ?case by simp
qed simp

lemma filter_rows_total:
  "(\<And>x. x \<in> set xs \<Longrightarrow> p x \<noteq> None) \<Longrightarrow> filter_rows p xs = Some (filter (\<lambda>x. p x = Some True) xs)"
proof (induction xs)
  case (Cons x xs)
  then obtain y where "p x = Some y" by fastforce
  moreover have "filter_rows p xs = Some (filter (\<lambda>x. p x = Some True) xs)" using Cons by simp
  ultimately show ?case by simp
qed simp

lemma may_be_float_remap:
  "(\<And>c. c \<in> set (collect_columns e) \<Longrightarrow> get ts' (f c) = get ts c)
   \<Longrightarrow> expr_may_be_float (remap_columns f e) ts' = expr_may_be_float e ts"
  by (induction e) auto

lemma eval_remap:
  assumes "\<And>c. c \<in> set (collect_columns e) \<Longrightarrow> get ts' (f c) = get ts c \<and> get row' (f c) = get row c"
  shows "eval_arith E ts' row' (remap_columns f e) = eval_arith E ts row e
    \<and> eval_pred E ts' row' (remap_columns f e) = eval_pred E ts row e"
  using assms
proof (induction e)
  case (ECompare l op r)
  have "expr_may_be_float (remap_columns f l) ts' = expr_may_be_float l ts"
       "expr_may_be_float (remap_columns f r) ts' = expr_may_be_float r ts"
    using ECompare.prems by (auto intro!: may_be_float_remap)
  then show ?case using ECompare by simp
next
  case (EAnd es)
  have "each_row (eval_pred E ts' row') (map (remap_columns f) es) = each_row (eval_pred E ts row) es"
    unfolding each_row_map by (rule each_row_cong) (use EAnd in auto)
  then show ?case by (simp add: eval_preds_each_row)
next
  case (EOr es)
  have "each_row (eval_pred E ts' row') (map (remap_columns f) es) = each_row (eval_pred E ts row) es"
    unfolding each_row_map by (rule each_row_cong) (use EOr in auto)
  then show ?case by (simp add: eval_preds_each_row)
qed simp_all

lemmas eval_pred_remap = eval_remap [THEN conjunct2]

lemma map_option_all_Some: "map_option_all xs = Some ys \<longleftrightarrow> xs = map Some ys"
  by (induction xs arbitrary: ys) (auto simp: bind_eq_Some_conv Cons_eq_map_conv)

lemma both_Some: "both f x y = Some z \<longleftrightarrow> (\<exists>a b. x = Some a \<and> y = Some b \<and> z = f a b)"
  by (auto simp: both_def bind_eq_Some_conv)

lemma remap_expr_columns:
  "remap_expr m e = Some e' \<Longrightarrow>
   e' = remap_columns (\<lambda>c. the (m c)) e \<and> (\<forall>c \<in> set (collect_columns e). m c \<noteq> None)"
proof (induction e arbitrary: e')
  case (EAnd es)
  then obtain es' where es': "map (remap_expr m) es = map Some es'" and e': "e' = EAnd es'"
    by (auto simp: map_option_all_Some)
  have len: "length es' = length es" using es' by (metis length_map)
  have at: "remap_expr m (es ! i) = Some (es' ! i)" if "i < length es" for i
    using es' that len by (metis nth_map)
  have "es' = map (remap_columns (\<lambda>c. the (m c))) es"
    using EAnd.IH at len by (intro nth_equalityI) auto
  moreover have "\<forall>c \<in> set (collect_columns (es ! i)). m c \<noteq> None" if "i < length es" for i
    using EAnd.IH [OF nth_mem [OF that] at [OF that]] by blast
  ultimately show ?case using e' by (fastforce simp: in_set_conv_nth)
next
  case (EOr es)
  then obtain es' where es': "map (remap_expr m) es = map Some es'" and e': "e' = EOr es'"
    by (auto simp: map_option_all_Some)
  have len: "length es' = length es" using es' by (metis length_map)
  have at: "remap_expr m (es ! i) = Some (es' ! i)" if "i < length es" for i
    using es' that len by (metis nth_map)
  have "es' = map (remap_columns (\<lambda>c. the (m c))) es"
    using EOr.IH at len by (intro nth_equalityI) auto
  moreover have "\<forall>c \<in> set (collect_columns (es ! i)). m c \<noteq> None" if "i < length es" for i
    using EOr.IH [OF nth_mem [OF that] at [OF that]] by blast
  ultimately show ?case using e' by (fastforce simp: in_set_conv_nth)
next
  case (ECond c a b)
  then show ?case by (fastforce simp: both_Some bind_eq_Some_conv)
qed (fastforce simp: both_Some)+

text \<open>What evaluates reads only columns of the row.\<close>

lemma eval_columns_in_range:
  "(eval_arith E ts row e \<noteq> None \<longrightarrow> (\<forall>c \<in> set (collect_columns e). c < length row))
   \<and> (eval_pred E ts row e \<noteq> None \<longrightarrow> (\<forall>c \<in> set (collect_columns e). c < length row))"
proof (induction e)
  case (EAnd es)
  then show ?case by (fastforce simp: eval_preds_each_row each_row_Some list_all2_conv_all_nth in_set_conv_nth)
next
  case (EOr es)
  then show ?case by (fastforce simp: eval_preds_each_row each_row_Some list_all2_conv_all_nth in_set_conv_nth)
qed (auto simp: bind_eq_Some_conv get_def split: if_splits)

section \<open>Conjunctions\<close>

lemma each_row_None: "each_row f xs = None \<longleftrightarrow> (\<exists>x \<in> set xs. f x = None)"
  by (induction xs) (auto simp: bind_eq_None_conv)

lemma eval_conjunction:
  "eval_pred E ts row (EAnd ps) =
     (if \<exists>p \<in> set ps. eval_pred E ts row p = None then None
      else Some (\<forall>p \<in> set ps. eval_pred E ts row p = Some True))"
proof (induction ps)
  case (Cons p ps)
  then show ?case
    by (cases "eval_pred E ts row p"; cases "eval_preds E ts row ps") (auto split: if_splits)
qed simp

lemma eval_conjoin:
  "eval_pred E ts row (conjoin ps) =
     (if \<exists>p \<in> set ps. eval_pred E ts row p = None then None
      else Some (\<forall>p \<in> set ps. eval_pred E ts row p = Some True))"
proof (cases "\<exists>p. ps = [p]")
  case True
  then obtain p where "ps = [p]" by blast
  then show ?thesis by (cases "eval_pred E ts row p") (auto simp: conjoin_def)
next
  case False
  then have "conjoin ps = EAnd ps" by (auto simp: conjoin_def split: list.splits)
  then show ?thesis by (simp only: eval_conjunction)
qed

lemma eval_flatten:
  "eval_pred E ts row p =
     (if \<exists>q \<in> set (flatten_and p). eval_pred E ts row q = None then None
      else Some (\<forall>q \<in> set (flatten_and p). eval_pred E ts row q = Some True))"
proof (induction p)
  case (EAnd es)
  have none: "eval_pred E ts row p = None \<longleftrightarrow> (\<exists>q \<in> set (flatten_and p). eval_pred E ts row q = None)"
    if "p \<in> set es" for p by (subst EAnd.IH [OF that]) simp
  have true: "eval_pred E ts row p = Some True \<longleftrightarrow> (\<forall>q \<in> set (flatten_and p). eval_pred E ts row q = Some True)"
    if "p \<in> set es" for p by (subst EAnd.IH [OF that]) (simp, metis option.distinct(1))
  have "(\<exists>p \<in> set es. eval_pred E ts row p = None)
      \<longleftrightarrow> (\<exists>q \<in> set (flatten_and (EAnd es)). eval_pred E ts row q = None)"
    using none by auto
  moreover have "(\<forall>p \<in> set es. eval_pred E ts row p = Some True)
      \<longleftrightarrow> (\<forall>q \<in> set (flatten_and (EAnd es)). eval_pred E ts row q = Some True)"
    using true by auto
  ultimately show ?case by (simp only: eval_conjunction)
qed (auto split: option.splits)


lemma eval_flatten_True:
  "eval_pred E ts row p = Some True \<longleftrightarrow> (\<forall>q \<in> set (flatten_and p). eval_pred E ts row q = Some True)"
  by (subst eval_flatten) (simp, metis option.distinct(1))

section \<open>Splitting a predicate\<close>

definition left_conjunct :: "nat \<Rightarrow> rexpr \<Rightarrow> bool" where
  "left_conjunct w p \<longleftrightarrow> (\<forall>c \<in> set (collect_columns p). c < w)"

definition right_conjunct :: "nat \<Rightarrow> rexpr \<Rightarrow> bool" where
  "right_conjunct w p \<longleftrightarrow> \<not> left_conjunct w p \<and> (\<forall>c \<in> set (collect_columns p). w \<le> c)"

lemma place_conjunct_cases:
  "place_conjunct w p (L, R, M) =
     (if left_conjunct w p then (L @ [p], R, M)
      else if right_conjunct w p then (L, R @ [remap_columns (\<lambda>c. c - w) p], M)
      else (L, R, M @ [p]))"
  by (auto simp: place_conjunct_def left_conjunct_def right_conjunct_def Let_def Max_less_iff Min_ge_iff not_less)
    (metis last_in_set leD)

lemma fold_place_conjunct:
  "fold (place_conjunct w) ps (L, R, M) =
     (L @ filter (left_conjunct w) ps,
      R @ map (remap_columns (\<lambda>c. c - w)) (filter (right_conjunct w) ps),
      M @ filter (\<lambda>p. \<not> left_conjunct w p \<and> \<not> right_conjunct w p) ps)"
  by (induction ps arbitrary: L R M) (auto simp: place_conjunct_cases right_conjunct_def)

lemma split_predicate:
  "split_predicate_for_join p w =
     (filter (left_conjunct w) (flatten_and p),
      map (remap_columns (\<lambda>c. c - w)) (filter (right_conjunct w) (flatten_and p)),
      filter (\<lambda>p. \<not> left_conjunct w p \<and> \<not> right_conjunct w p) (flatten_and p))"
  by (simp add: split_predicate_for_join_def fold_place_conjunct)

lemma remap_columns_id: "remap_columns (\<lambda>c. c) e = e"
  by (induction e) (auto intro: map_idI)

lemma eval_left_conjunct:
  assumes "left_conjunct (length ts) p" and "length x = length ts"
  shows "eval_pred E (ts @ us) (x @ y) p = eval_pred E ts x p"
proof -
  have "eval_pred E (ts @ us) (x @ y) (remap_columns (\<lambda>c. c) p) = eval_pred E ts x p"
    by (rule eval_pred_remap) (use assms in \<open>auto simp: left_conjunct_def get_def nth_append\<close>)
  then show ?thesis by (simp add: remap_columns_id)
qed

lemma eval_right_conjunct:
  assumes "right_conjunct (length ts) p" and "length x = length ts"
  shows "eval_pred E us y (remap_columns (\<lambda>c. c - length ts) p) = eval_pred E (ts @ us) (x @ y) p"
  by (rule eval_pred_remap) (use assms in \<open>auto simp: right_conjunct_def get_def nth_append\<close>)

section \<open>Typed plans\<close>

fun const_type :: "const_value \<Rightarrow> scalar_type" where
  "const_type (CvU32 _) = TyU32"
| "const_type (CvU64 _) = TyU64"
| "const_type (CvI32 _) = TyI32"
| "const_type (CvI64 _) = TyI64"
| "const_type (CvF32 _) = TyF32"
| "const_type (CvF64 _) = TyF64"
| "const_type (CvBool _) = TyBool"
| "const_type (CvSymbol _) = TySymbol"

fun default_const :: "scalar_type \<Rightarrow> const_value" where
  "default_const TyU32 = CvU32 0"
| "default_const TyU64 = CvU64 0"
| "default_const TyI32 = CvI32 0"
| "default_const TyI64 = CvI64 0"
| "default_const TyF32 = CvF32 0"
| "default_const TyF64 = CvF64 0"
| "default_const TyBool = CvBool False"
| "default_const TySymbol = CvSymbol []"

lemma const_type_default [simp]: "const_type (default_const t) = t"
  by (cases t) simp_all

text \<open>What the model relies on: a constant column has the type of the constant, and aggregating values
  of one type gives a value of the type the result schema declares.\<close>

definition typed_engine :: "'v engine \<Rightarrow> bool" where
  "typed_engine E \<longleftrightarrow>
     (\<forall>c. type_of_val E (const_column E c) = const_type c)
     \<and> (\<forall>aop ts col m. aggregate_column_ok ts (col, aop) \<longrightarrow> m \<noteq> {#}
          \<longrightarrow> (\<forall>v \<in># m. type_of_val E v = ts ! col)
          \<longrightarrow> type_of_val E (group_aggregate E aop m) = aggregate_type ts (col, aop))"

definition row_typed :: "'v engine \<Rightarrow> scalar_type list \<Rightarrow> 'v list \<Rightarrow> bool" where
  "row_typed E ts row \<longleftrightarrow> map (type_of_val E) row = ts"

definition buffer_typed :: "'v engine \<Rightarrow> scalar_type list \<Rightarrow> 'v buffer \<Rightarrow> bool" where
  "buffer_typed E ts b \<longleftrightarrow> btypes b = ts \<and> (\<forall>row \<in> set (brows b). row_typed E ts row)"

definition predicate_typed :: "'v engine \<Rightarrow> scalar_type list \<Rightarrow> rexpr \<Rightarrow> bool" where
  "predicate_typed E ts p \<longleftrightarrow> (\<forall>row. row_typed E ts row \<longrightarrow> eval_pred E ts row p \<noteq> None)"

definition column_typed :: "'v engine \<Rightarrow> scalar_type list \<Rightarrow> project_expr \<Rightarrow> bool" where
  "column_typed E ts c \<longleftrightarrow>
     (case c of
        PColumn i \<Rightarrow> i < length ts
      | Computed e t \<Rightarrow> \<forall>row. row_typed E ts row \<longrightarrow> (\<exists>v. eval_arith E ts row e = Some v \<and> type_of_val E v = t))"

definition column_result :: "scalar_type list \<Rightarrow> project_expr \<Rightarrow> scalar_type" where
  "column_result ts c = (case c of PColumn i \<Rightarrow> ts ! i | Computed e t \<Rightarrow> t)"

definition keys_typed :: "scalar_type list \<Rightarrow> scalar_type list \<Rightarrow> nat list \<Rightarrow> nat list \<Rightarrow> bool" where
  "keys_typed lts rts lk rk \<longleftrightarrow> lk \<noteq> []
     \<and> list_all2 (\<lambda>i j. i < length lts \<and> j < length rts \<and> lts ! i = rts ! j) lk rk"

definition grouping_typed :: "scalar_type list \<Rightarrow> nat list \<Rightarrow> (nat \<times> core_agg_op) list \<Rightarrow> bool" where
  "grouping_typed ts ks aggs \<longleftrightarrow> ks \<noteq> [] \<and> aggs \<noteq> [] \<and> (\<forall>k \<in> set ks. k < length ts)
     \<and> (\<forall>a \<in> set aggs. aggregate_column_ok ts a) \<and> sum_list (map (\<lambda>k. size_bytes (ts ! k)) ks) mod 4 = 0"

text \<open>\<open>cat\<close> gives the column types of the stored relations. Left outer joins, deduplication by some of the
  columns, fixpoints and tensor joins have no typing rule.\<close>

inductive plan_typed :: "'v engine \<Rightarrow> (rel_id \<Rightarrow> scalar_type list option) \<Rightarrow> rir_node \<Rightarrow> scalar_type list \<Rightarrow> bool"
  for E :: "'v engine" and cat where
  unit_typed: "plan_typed E cat UnitNode []"
| scan_typed: "cat r = Some ts \<Longrightarrow> plan_typed E cat (ScanNode r) ts"
| filter_typed: "plan_typed E cat n ts \<Longrightarrow> predicate_typed E ts p \<Longrightarrow> plan_typed E cat (FilterNode n p) ts"
| project_typed: "plan_typed E cat n ts \<Longrightarrow> \<forall>c \<in> set cols. column_typed E ts c
    \<Longrightarrow> plan_typed E cat (ProjectNode n cols) (map (column_result ts) cols)"
| inner_typed: "plan_typed E cat l lts \<Longrightarrow> plan_typed E cat r rts \<Longrightarrow> keys_typed lts rts lk rk
    \<Longrightarrow> plan_typed E cat (JoinNode l r lk rk InnerJoin) (lts @ rts)"
| half_typed: "plan_typed E cat l lts \<Longrightarrow> plan_typed E cat r rts \<Longrightarrow> keys_typed lts rts lk rk
    \<Longrightarrow> jt = SemiJoin \<or> jt = AntiJoin \<Longrightarrow> plan_typed E cat (JoinNode l r lk rk jt) lts"
| chain_typed: "plan_typed E cat fallback ts \<Longrightarrow> plan_typed E cat (ChainJoinNode l r lkey rkey cols fallback) ts"
| multiway_typed: "plan_typed E cat fallback ts
    \<Longrightarrow> plan_typed E cat (MultiWayJoinNode inputs slots cols fallback plan order) ts"
| groupby_typed: "plan_typed E cat n ts \<Longrightarrow> grouping_typed ts ks aggs
    \<Longrightarrow> plan_typed E cat (GroupByNode n ks aggs) (map (\<lambda>k. ts ! k) ks @ map (aggregate_type ts) aggs)"
| union_typed: "inputs \<noteq> [] \<Longrightarrow> \<forall>n \<in> set inputs. plan_typed E cat n ts \<Longrightarrow> plan_typed E cat (UnionNode inputs) ts"
| diff_typed: "plan_typed E cat l ts \<Longrightarrow> plan_typed E cat r ts \<Longrightarrow> plan_typed E cat (DiffNode l r) ts"

inductive_cases typed_cases: "plan_typed E cat (FilterNode n p) ts" "plan_typed E cat (ProjectNode n cols) ts"
  "plan_typed E cat (JoinNode l r lk rk jt) ts"

definition store_typed ::
    "'v engine \<Rightarrow> (rel_id \<Rightarrow> scalar_type list option) \<Rightarrow> (rel_id \<Rightarrow> 'v buffer option) \<Rightarrow> bool" where
  "store_typed E cat store \<longleftrightarrow> (\<forall>r ts. cat r = Some ts \<longrightarrow> (\<exists>b. store r = Some b \<and> buffer_typed E ts b))"


text \<open>Well-typed plans do not go wrong.\<close>

lemma row_typed_length: "row_typed E ts row \<Longrightarrow> length row = length ts"
  by (auto simp: row_typed_def)

lemma row_typed_append: "length x = length ts \<Longrightarrow>
    row_typed E (ts @ us) (x @ y) \<longleftrightarrow> row_typed E ts x \<and> row_typed E us y"
  by (auto simp: row_typed_def)

lemma row_typed_nth: "row_typed E ts row \<Longrightarrow> i < length ts \<Longrightarrow> type_of_val E (row ! i) = ts ! i"
  by (auto simp: row_typed_def)

lemma row_of_types: "typed_engine E \<Longrightarrow> row_typed E ts (map (\<lambda>t. const_column E (default_const t)) ts)"
  by (auto simp: typed_engine_def row_typed_def intro: map_idI)

lemma filter_sound:
  assumes "buffer_typed E ts b" and "predicate_typed E ts p"
  shows "execute_filter E b p = Some \<lparr>btypes = ts, brows = filter (\<lambda>row. eval_pred E ts row p = Some True) (brows b)\<rparr>"
  using assms by (simp add: execute_filter_def buffer_typed_def predicate_typed_def filter_rows_total)

lemma project_schema_sound:
  assumes "\<forall>c \<in> set cols. column_typed E ts c"
  shows "project_schema ts cols = Some (map (column_result ts) cols)"
proof -
  have "project_type ts c = Some (column_result ts c)" if "c \<in> set cols" for c
    using assms that by (auto simp: project_type_def column_typed_def column_result_def get_def split: project_expr.splits)
  then have "each_row (project_type ts) cols = Some (map (\<lambda>c. the (project_type ts c)) cols)"
    by (intro each_row_total) simp
  also have "map (\<lambda>c. the (project_type ts c)) cols = map (column_result ts) cols"
    using \<open>\<And>c. c \<in> set cols \<Longrightarrow> project_type ts c = Some (column_result ts c)\<close> by simp
  finally show ?thesis by (simp add: project_schema_def)
qed

lemma project_value_sound:
  assumes "column_typed E ts c" and "row_typed E ts row"
  shows "\<exists>v. project_value E ts row c = Some v \<and> type_of_val E v = column_result ts c"
  using assms row_typed_length [OF assms(2)] row_typed_nth [OF assms(2)]
  by (auto simp: project_value_def column_typed_def column_result_def get_def split: project_expr.splits)

definition project_row :: "'v engine \<Rightarrow> scalar_type list \<Rightarrow> project_expr list \<Rightarrow> 'v list \<Rightarrow> 'v list" where
  "project_row E ts cols row = map (\<lambda>c. the (project_value E ts row c)) cols"

lemma project_sound:
  assumes "buffer_typed E ts b" and "\<forall>c \<in> set cols. column_typed E ts c"
  shows "execute_project E b cols
      = Some \<lparr>btypes = map (column_result ts) cols, brows = map (project_row E ts cols) (brows b)\<rparr>"
    and "row_typed E ts row \<Longrightarrow> row_typed E (map (column_result ts) cols) (project_row E ts cols row)"
proof -
  have one: "each_row (project_value E ts row) cols = Some (project_row E ts cols row)" if "row_typed E ts row" for row
    unfolding project_row_def by (rule each_row_total) (use project_value_sound [OF _ that] assms(2) in fastforce)
  have "each_row (\<lambda>row. each_row (project_value E ts row) cols) (brows b)
      = Some (map (\<lambda>row. the (each_row (project_value E ts row) cols)) (brows b))"
    by (rule each_row_total) (use one assms(1) in \<open>auto simp: buffer_typed_def\<close>)
  also have "map (\<lambda>row. the (each_row (project_value E ts row) cols)) (brows b) = map (project_row E ts cols) (brows b)"
    using one assms(1) by (auto simp: buffer_typed_def)
  finally show "execute_project E b cols
      = Some \<lparr>btypes = map (column_result ts) cols, brows = map (project_row E ts cols) (brows b)\<rparr>"
    using assms by (simp add: execute_project_def project_schema_sound buffer_typed_def)
  show "row_typed E (map (column_result ts) cols) (project_row E ts cols row)" if "row_typed E ts row"
    using project_value_sound [OF _ that] assms(2) unfolding row_typed_def project_row_def by fastforce
qed

lemma keys_valid:
  assumes "keys_typed lts rts lk rk" and "btypes l = lts" and "btypes r = rts"
  shows "join_keys_valid l r lk rk"
  using assms by (auto simp: keys_typed_def join_keys_valid_def get_def list_all2_conv_all_nth)

lemma join_sound:
  assumes l: "buffer_typed E lts l" and r: "buffer_typed E rts r" and k: "keys_typed lts rts lk rk"
  shows "execute_join E l r lk rk InnerJoin
      = Some \<lparr>btypes = lts @ rts, brows = [x @ y. x \<leftarrow> brows l, y \<leftarrow> brows r, keys_of lk x = keys_of rk y]\<rparr>"
    and "execute_join E l r lk rk SemiJoin
      = Some \<lparr>btypes = lts, brows = filter (\<lambda>x. \<exists>y \<in> set (brows r). keys_of lk x = keys_of rk y) (brows l)\<rparr>"
    and "execute_join E l r lk rk AntiJoin
      = Some \<lparr>btypes = lts, brows = filter (\<lambda>x. \<forall>y \<in> set (brows r). keys_of lk x \<noteq> keys_of rk y) (brows l)\<rparr>"
proof -
  have v: "join_keys_valid l r lk rk" by (rule keys_valid [OF k]) (use l r in \<open>simp_all add: buffer_typed_def\<close>)
  have t: "btypes l = lts" "btypes r = rts" using l r by (simp_all add: buffer_typed_def)
  have eq: "[x @ y. x \<leftarrow> xs, y \<leftarrow> ys, P x y] = concat (map (\<lambda>x. map (\<lambda>y. x @ y) (filter (P x) ys)) xs)"
    for xs ys :: "'a list list" and P
  proof -
    have "[x @ y. y \<leftarrow> ys, P x y] = map (\<lambda>y. x @ y) (filter (P x) ys)" for x by (induction ys) auto
    then show ?thesis by simp
  qed
  show "execute_join E l r lk rk InnerJoin
      = Some \<lparr>btypes = lts @ rts, brows = [x @ y. x \<leftarrow> brows l, y \<leftarrow> brows r, keys_of lk x = keys_of rk y]\<rparr>"
    unfolding eq using v t by (auto simp: execute_join_def)
  show "execute_join E l r lk rk SemiJoin
      = Some \<lparr>btypes = lts, brows = filter (\<lambda>x. \<exists>y \<in> set (brows r). keys_of lk x = keys_of rk y) (brows l)\<rparr>"
    using v t by (auto simp: execute_join_def list_ex_iff)
  show "execute_join E l r lk rk AntiJoin
      = Some \<lparr>btypes = lts, brows = filter (\<lambda>x. \<forall>y \<in> set (brows r). keys_of lk x \<noteq> keys_of rk y) (brows l)\<rparr>"
    using v t by (auto simp: execute_join_def list_ex_iff)
qed


lemma groupby_sound:
  assumes e: "typed_engine E" and b: "buffer_typed E ts b" and g: "grouping_typed ts ks aggs"
  shows "\<exists>b'. execute_groupby E b ks aggs = Some b'
    \<and> buffer_typed E (map (\<lambda>k. ts ! k) ks @ map (aggregate_type ts) aggs) b'"
proof -
  have t: "btypes b = ts" and rows: "\<And>row. row \<in> set (brows b) \<Longrightarrow> row_typed E ts row"
    using b by (auto simp: buffer_typed_def)
  have ks: "filter (\<lambda>i. i < length ts) ks = ks" using g by (auto simp: grouping_typed_def intro: filter_True)
  define types where "types = map (\<lambda>k. ts ! k) ks @ map (aggregate_type ts) aggs"
  show ?thesis
  proof (cases "brows b = []")
    case True
    then show ?thesis using g t ks by (simp add: execute_groupby_def grouping_typed_def buffer_typed_def)
  next
    case False
    have run: "execute_groupby E b ks aggs = Some \<lparr>btypes = types,
        brows = map (group_row E ks aggs (brows b)) (remdups (map (keys_of ks) (brows b)))\<rparr>"
      using g False t ks by (simp add: execute_groupby_def grouping_typed_def list_all_iff types_def)
    have "row_typed E types (group_row E ks aggs (brows b) (keys_of ks row))" if row: "row \<in> set (brows b)" for row
    proof -
      have "map (type_of_val E) (keys_of ks row) = map (\<lambda>k. ts ! k) ks"
        using g row_typed_nth [OF rows [OF row]] by (auto simp: keys_of_def grouping_typed_def)
      moreover have "type_of_val E (group_aggregate E aop
            (mset (map (\<lambda>r. r ! col) (filter (\<lambda>r. keys_of ks r = keys_of ks row) (brows b)))))
          = aggregate_type ts (col, aop)" if a: "(col, aop) \<in> set aggs" for col aop
      proof -
        have ok: "aggregate_column_ok ts (col, aop)" using g a by (auto simp: grouping_typed_def)
        then have "col < length ts" by (auto simp: aggregate_column_ok_def get_def split: option.splits if_splits)
        then have "\<forall>v \<in># mset (map (\<lambda>r. r ! col) (filter (\<lambda>r. keys_of ks r = keys_of ks row) (brows b))).
            type_of_val E v = ts ! col"
          using row_typed_nth [OF rows] by auto
        moreover have "mset (map (\<lambda>r. r ! col) (filter (\<lambda>r. keys_of ks r = keys_of ks row) (brows b))) \<noteq> {#}"
          using row by (auto simp: filter_empty_conv)
        ultimately show ?thesis using e ok unfolding typed_engine_def by blast
      qed
      ultimately show ?thesis by (auto simp: row_typed_def group_row_def types_def)
    qed
    then have "buffer_typed E types \<lparr>btypes = types,
        brows = map (group_row E ks aggs (brows b)) (remdups (map (keys_of ks) (brows b)))\<rparr>"
      by (auto simp: buffer_typed_def)
    then show ?thesis using run types_def by blast
  qed
qed

lemma execute_nodes_list: "execute_nodes E store ns = each_row (execute_node E store) ns"
  by (induction ns) auto

lemma union_sound:
  assumes "bs \<noteq> []" and "\<forall>b \<in> set bs. buffer_typed E ts b"
  shows "\<exists>b. execute_union bs = Some b \<and> buffer_typed E ts b"
proof (cases bs)
  case (Cons b rest)
  show ?thesis
  proof (cases rest)
    case Nil
    then show ?thesis using assms Cons by (simp add: execute_union_def)
  next
    case (Cons c more)
    then have "execute_union bs = Some \<lparr>btypes = ts, brows = remdups (concat (map brows bs))\<rparr>"
      using assms \<open>bs = b # rest\<close> by (auto simp: execute_union_def list_all_iff buffer_typed_def)
    moreover have "buffer_typed E ts \<lparr>btypes = ts, brows = remdups (concat (map brows bs))\<rparr>"
      using assms by (auto simp: buffer_typed_def)
    ultimately show ?thesis by blast
  qed
qed (use assms in simp)

lemma plan_runs:
  assumes "plan_typed E cat n ts" and e: "typed_engine E" and st: "store_typed E cat store"
  shows "\<exists>b. execute_node E store n = Some b \<and> buffer_typed E ts b"
  using assms(1)
proof (induction rule: plan_typed.induct)
  case unit_typed
  show ?case by (simp add: buffer_typed_def row_typed_def)
next
  case (scan_typed r ts)
  then show ?case using st by (simp add: store_typed_def)
next
  case (filter_typed n ts p)
  then obtain b where b: "execute_node E store n = Some b" "buffer_typed E ts b" by blast
  then show ?case using filter_sound [OF b(2) filter_typed.hyps(2)] by (auto simp: buffer_typed_def)
next
  case (project_typed n ts cols)
  then obtain b where b: "execute_node E store n = Some b" "buffer_typed E ts b" by blast
  then show ?case using project_sound [OF b(2) project_typed.hyps(2)] by (auto simp: buffer_typed_def)
next
  case (inner_typed l lts r rts lk rk)
  then obtain bl br where bl: "execute_node E store l = Some bl" "buffer_typed E lts bl"
    and br: "execute_node E store r = Some br" "buffer_typed E rts br" by blast
  have "buffer_typed E (lts @ rts) \<lparr>btypes = lts @ rts,
      brows = [x @ y. x \<leftarrow> brows bl, y \<leftarrow> brows br, keys_of lk x = keys_of rk y]\<rparr>"
    using bl(2) br(2) by (auto simp: buffer_typed_def row_typed_def split: if_splits)
  then show ?case using bl(1) br(1) join_sound(1) [OF bl(2) br(2) inner_typed.hyps(3)] by simp
next
  case (half_typed l lts r rts lk rk jt)
  then obtain bl br where bl: "execute_node E store l = Some bl" "buffer_typed E lts bl"
    and br: "execute_node E store r = Some br" "buffer_typed E rts br" by blast
  show ?case
    using half_typed.hyps(4) bl br(1) join_sound(2,3) [OF bl(2) br(2) half_typed.hyps(3)]
    by (auto simp: buffer_typed_def)
next
  case (groupby_typed n ts ks aggs)
  then obtain b where b: "execute_node E store n = Some b" "buffer_typed E ts b" by blast
  then show ?case using groupby_sound [OF e b(2) groupby_typed.hyps(2)] by simp
next
  case (union_typed inputs ts)
  have "each_row (execute_node E store) inputs = Some (map (\<lambda>n. the (execute_node E store n)) inputs)"
    by (rule each_row_total) (use union_typed in fastforce)
  moreover have "\<exists>b. execute_union (map (\<lambda>n. the (execute_node E store n)) inputs) = Some b \<and> buffer_typed E ts b"
    by (rule union_sound) (use union_typed in fastforce)+
  ultimately show ?case by (simp add: execute_nodes_list)
next
  case (diff_typed l ts r)
  then obtain bl br where bl: "execute_node E store l = Some bl" "buffer_typed E ts bl"
    and br: "execute_node E store r = Some br" "buffer_typed E ts br" by blast
  then show ?case by (auto simp: execute_diff_def buffer_typed_def)
qed auto

section \<open>Pushdown\<close>

text \<open>
  Whether the optimizer's estimate of the number of columns of the left input of every join is the
  number of columns the executor finds there. Nodes that pushdown does not enter do not count.\<close>

definition width_right ::
    "'v engine \<Rightarrow> (rel_id \<Rightarrow> 'v buffer option) \<Rightarrow> optimizer \<Rightarrow> rir_node \<Rightarrow> bool" where
  "width_right E store opt n =
     (case execute_node E store n of None \<Rightarrow> True | Some b \<Rightarrow> length (btypes b) = estimate_width opt n)"

fun left_widths_right ::
    "'v engine \<Rightarrow> (rel_id \<Rightarrow> 'v buffer option) \<Rightarrow> optimizer \<Rightarrow> rir_node \<Rightarrow> bool" where
  "left_widths_right E store opt (FilterNode input p) = left_widths_right E store opt input"
| "left_widths_right E store opt (ProjectNode input cols) = left_widths_right E store opt input"
| "left_widths_right E store opt (JoinNode l r lk rk jt) =
     (width_right E store opt l \<and> left_widths_right E store opt l \<and> left_widths_right E store opt r)"
| "left_widths_right E store opt (GroupByNode input ks aggs) = left_widths_right E store opt input"
| "left_widths_right E store opt (UnionNode inputs) = list_all (left_widths_right E store opt) inputs"
| "left_widths_right E store opt (DiffNode l r) = (left_widths_right E store opt l \<and> left_widths_right E store opt r)"
| "left_widths_right E store opt _ = True"

lemma width_rightD:
  "width_right E store opt n \<Longrightarrow> execute_node E store n = Some b \<Longrightarrow> buffer_typed E ts b \<Longrightarrow>
    estimate_width opt n = length ts"
  by (simp add: width_right_def buffer_typed_def)

lemma estimate_width_filter_unless [simp]:
  "estimate_width opt (filter_unless_empty ps n) = estimate_width opt n"
  by (simp add: filter_unless_empty_def)

lemma estimate_width_push [simp]: "estimate_width opt (push_filter opt n p) = estimate_width opt n"
  by (cases n) (auto simp: push_filter_def split: option.splits prod.splits)

lemma estimate_width_pushdown [simp]: "estimate_width opt (predicate_pushdown opt n) = estimate_width opt n"
proof (induction n)
  case (UnionNode inputs)
  then show ?case by (cases inputs) auto
qed auto

lemma width_right_pushdown:
  "execute_node E store (predicate_pushdown opt n) = execute_node E store n \<Longrightarrow>
    width_right E store opt (predicate_pushdown opt n) = width_right E store opt n"
  unfolding width_right_def estimate_width_pushdown by (rule arg_cong)

lemma execute_filter_types: "execute_filter E b p = Some b' \<Longrightarrow> btypes b' = btypes b"
  by (auto simp: execute_filter_def)

lemma width_right_filter_unless:
  "width_right E store opt n \<Longrightarrow> width_right E store opt (filter_unless_empty ps n)"
  by (auto simp: width_right_def filter_unless_empty_def dest: execute_filter_types
      split: option.splits bind_splits)

lemma left_widths_filter_unless [simp]:
  "left_widths_right E store opt (filter_unless_empty ps n) = left_widths_right E store opt n"
  by (simp add: filter_unless_empty_def)

lemma left_widths_push:
  "left_widths_right E store opt n \<Longrightarrow> left_widths_right E store opt (push_filter opt n p)"
  by (cases n) (auto simp: push_filter_def width_right_filter_unless split: option.splits prod.splits)

text \<open>
  The estimates are right when the optimizer knows the schemas of the relations and no left input
  of a join gets its width from a semijoin or an antijoin, whose right columns the estimate counts
  although they are not in the result, or from a node whose columns are only declared.\<close>

fun width_guessed :: "rir_node \<Rightarrow> bool" where
  "width_guessed UnitNode = False"
| "width_guessed (ScanNode rel) = False"
| "width_guessed (FilterNode input p) = width_guessed input"
| "width_guessed (ProjectNode input cols) = False"
| "width_guessed (JoinNode l r lk rk jt) = (jt \<noteq> InnerJoin \<or> width_guessed l \<or> width_guessed r)"
| "width_guessed (GroupByNode input ks aggs) = False"
| "width_guessed (UnionNode inputs) = (case inputs of [] \<Rightarrow> False | n # _ \<Rightarrow> width_guessed n)"
| "width_guessed (DiffNode l r) = width_guessed l"
| "width_guessed _ = True"

fun left_inputs_known :: "rir_node \<Rightarrow> bool" where
  "left_inputs_known (FilterNode input p) = left_inputs_known input"
| "left_inputs_known (ProjectNode input cols) = left_inputs_known input"
| "left_inputs_known (JoinNode l r lk rk jt) = (\<not> width_guessed l \<and> left_inputs_known l \<and> left_inputs_known r)"
| "left_inputs_known (GroupByNode input ks aggs) = left_inputs_known input"
| "left_inputs_known (UnionNode inputs) = list_all left_inputs_known inputs"
| "left_inputs_known (DiffNode l r) = (left_inputs_known l \<and> left_inputs_known r)"
| "left_inputs_known _ = True"

definition schemas_known :: "optimizer \<Rightarrow> (rel_id \<Rightarrow> scalar_type list option) \<Rightarrow> bool" where
  "schemas_known opt cat \<longleftrightarrow> (\<forall>r ts. cat r = Some ts \<longrightarrow> opt_schemas opt r = Some (length ts))"

lemma estimate_width_exact:
  assumes "plan_typed E cat n ts" and "schemas_known opt cat" and "\<not> width_guessed n"
  shows "estimate_width opt n = length ts"
  using assms
proof (induction rule: plan_typed.induct)
  case (union_typed inputs ts)
  then show ?case by (cases inputs) auto
next
  case (half_typed l lts r rts lk rk jt)
  then show ?case by auto
qed (auto simp: schemas_known_def)

lemma width_known:
  assumes n: "plan_typed E cat n ts" and e: "typed_engine E" and st: "store_typed E cat store"
    and "schemas_known opt cat" and "\<not> width_guessed n"
  shows "width_right E store opt n"
  using plan_runs [OF n e st] estimate_width_exact [OF n assms(4,5)]
  by (auto simp: width_right_def buffer_typed_def)

lemma left_widths_known:
  assumes "plan_typed E cat n ts" and e: "typed_engine E" and st: "store_typed E cat store"
    and sch: "schemas_known opt cat" and "left_inputs_known n"
  shows "left_widths_right E store opt n"
  using assms(1,5)
proof (induction rule: plan_typed.induct)
  case (inner_typed l lts r rts lk rk)
  then show ?case using width_known [OF inner_typed.hyps(1) e st sch] by simp
next
  case (half_typed l lts r rts lk rk jt)
  then show ?case using width_known [OF half_typed.hyps(1) e st sch] by simp
qed (auto simp: list_all_iff)

lemma eval_typed_conjuncts:
  assumes "\<forall>p \<in> set ps. predicate_typed E ts p" and "row_typed E ts row"
  shows "eval_pred E ts row (conjoin ps) = Some (\<forall>p \<in> set ps. eval_pred E ts row p = Some True)"
proof -
  have "\<not> (\<exists>p \<in> set ps. eval_pred E ts row p = None)" using assms by (auto simp: predicate_typed_def)
  then show ?thesis by (simp only: eval_conjoin if_False)
qed

lemma filter_of_conjuncts:
  assumes "execute_node E store n = Some b" and "buffer_typed E ts b" and "\<forall>p \<in> set ps. predicate_typed E ts p"
  shows "execute_node E store (filter_unless_empty ps n)
    = Some \<lparr>btypes = ts, brows = filter (\<lambda>row. \<forall>p \<in> set ps. eval_pred E ts row p = Some True) (brows b)\<rparr>"
proof (cases "ps = []")
  case True
  have "b = \<lparr>btypes = ts, brows = brows b\<rparr>" using assms(2) by (simp add: buffer_typed_def)
  then show ?thesis using assms(1) True by (simp add: filter_unless_empty_def)
next
  case False
  note val = eval_typed_conjuncts [OF assms(3)]
  then have "predicate_typed E ts (conjoin ps)" by (simp add: predicate_typed_def)
  then have "execute_filter E b (conjoin ps)
      = Some \<lparr>btypes = ts, brows = filter (\<lambda>row. eval_pred E ts row (conjoin ps) = Some True) (brows b)\<rparr>"
    by (rule filter_sound [OF assms(2)])
  moreover have "filter (\<lambda>row. eval_pred E ts row (conjoin ps) = Some True) (brows b)
      = filter (\<lambda>row. \<forall>p \<in> set ps. eval_pred E ts row p = Some True) (brows b)"
    by (rule filter_cong) (use val assms(2) in \<open>auto simp: buffer_typed_def\<close>)
  ultimately show ?thesis using assms(1) False by (simp add: filter_unless_empty_def)
qed

lemma typed_filter_of_conjuncts:
  assumes "plan_typed E cat n ts" and "\<forall>p \<in> set ps. predicate_typed E ts p"
  shows "plan_typed E cat (filter_unless_empty ps n) ts"
proof (cases "ps = []")
  case False
  have "predicate_typed E ts (conjoin ps)"
    unfolding predicate_typed_def by (simp add: eval_typed_conjuncts [OF assms(2)])
  then show ?thesis using assms(1) False by (simp add: filter_unless_empty_def filter_typed)
qed (use assms in \<open>simp add: filter_unless_empty_def\<close>)

lemma conjuncts_typed: "predicate_typed E ts p \<Longrightarrow> q \<in> set (flatten_and p) \<Longrightarrow> predicate_typed E ts q"
  unfolding predicate_typed_def by (metis eval_flatten)

lemma left_conjunct_typed:
  assumes "typed_engine E" and "predicate_typed E (lts @ rts) p" and "left_conjunct (length lts) p"
  shows "predicate_typed E lts p"
  unfolding predicate_typed_def
proof (intro allI impI)
  fix x assume x: "row_typed E lts x"
  have "row_typed E (lts @ rts) (x @ map (\<lambda>t. const_column E (default_const t)) rts)"
    using x row_of_types [OF assms(1)] row_typed_length [OF x] by (simp add: row_typed_append)
  then show "eval_pred E lts x p \<noteq> None"
    using assms(2) eval_left_conjunct [OF assms(3) row_typed_length [OF x]] unfolding predicate_typed_def by metis
qed

lemma right_conjunct_typed:
  assumes "typed_engine E" and "predicate_typed E (lts @ rts) p" and "right_conjunct (length lts) p"
  shows "predicate_typed E rts (remap_columns (\<lambda>c. c - length lts) p)"
  unfolding predicate_typed_def
proof (intro allI impI)
  fix y assume y: "row_typed E rts y"
  define x where "x = map (\<lambda>t. const_column E (default_const t)) lts"
  have x: "row_typed E lts x" unfolding x_def by (rule row_of_types [OF assms(1)])
  have "row_typed E (lts @ rts) (x @ y)" using x y row_typed_length [OF x] by (simp add: row_typed_append)
  then show "eval_pred E rts y (remap_columns (\<lambda>c. c - length lts) p) \<noteq> None"
    using assms(2) eval_right_conjunct [OF assms(3) row_typed_length [OF x]] unfolding predicate_typed_def by metis
qed

lemma typed_columns_in_range:
  assumes "typed_engine E" and "predicate_typed E ts p"
  shows "left_conjunct (length ts) p"
proof -
  have "row_typed E ts (map (\<lambda>t. const_column E (default_const t)) ts)" by (rule row_of_types [OF assms(1)])
  then have "eval_pred E ts (map (\<lambda>t. const_column E (default_const t)) ts) p \<noteq> None"
    using assms(2) by (simp add: predicate_typed_def)
  then show ?thesis using eval_columns_in_range by (fastforce simp: left_conjunct_def)
qed

lemma filter_pairs:
  assumes "\<And>x y. x \<in> set xs \<Longrightarrow> y \<in> set ys \<Longrightarrow> P (x @ y) \<longleftrightarrow> L x \<and> R y \<and> M (x @ y)"
  shows "filter P [x @ y. x \<leftarrow> xs, y \<leftarrow> ys, m x y] = filter M [x @ y. x \<leftarrow> filter L xs, y \<leftarrow> filter R ys, m x y]"
  using assms
proof (induction xs)
  case (Cons x xs)
  have "filter P [x @ y. y \<leftarrow> ys', m x y]
      = (if L x then filter M [x @ y. y \<leftarrow> filter R ys', m x y] else [])" if "set ys' \<subseteq> set ys" for ys'
    using that Cons.prems by (induction ys') auto
  from this [OF subset_refl] show ?case using Cons by simp
qed simp

lemma push_into_join:
  assumes e: "typed_engine E" and st: "store_typed E cat store"
    and l: "plan_typed E cat l lts" and r: "plan_typed E cat r rts" and k: "keys_typed lts rts lk rk"
    and p: "predicate_typed E (lts @ rts) p" and w: "estimate_width opt l = length lts"
  shows "plan_typed E cat (push_filter opt (JoinNode l r lk rk InnerJoin) p) (lts @ rts)"
    and "execute_node E store (push_filter opt (JoinNode l r lk rk InnerJoin) p)
      = execute_node E store (FilterNode (JoinNode l r lk rk InnerJoin) p)"
proof -
  define ps where "ps = flatten_and p"
  define L where "L = filter (left_conjunct (length lts)) ps"
  define R where "R = map (remap_columns (\<lambda>c. c - length lts)) (filter (right_conjunct (length lts)) ps)"
  define M where "M = filter (\<lambda>q. \<not> left_conjunct (length lts) q \<and> \<not> right_conjunct (length lts) q) ps"
  define join where "join = JoinNode (filter_unless_empty L l) (filter_unless_empty R r) lk rk InnerJoin"
  have pushed: "push_filter opt (JoinNode l r lk rk InnerJoin) p = filter_unless_empty M join"
    by (simp add: push_filter_def split_predicate w L_def R_def M_def ps_def join_def)
  have typed: "predicate_typed E (lts @ rts) q" if "q \<in> set ps" for q
    using conjuncts_typed [OF p] that by (simp add: ps_def)
  have tL: "\<forall>q \<in> set L. predicate_typed E lts q"
    using left_conjunct_typed [OF e typed] by (auto simp: L_def)
  have tR: "\<forall>q \<in> set R. predicate_typed E rts q"
    using right_conjunct_typed [OF e typed] by (auto simp: R_def)
  have tM: "\<forall>q \<in> set M. predicate_typed E (lts @ rts) q" using typed by (auto simp: M_def)
  have tj: "plan_typed E cat join (lts @ rts)"
    unfolding join_def by (rule inner_typed [OF typed_filter_of_conjuncts [OF l tL] typed_filter_of_conjuncts [OF r tR] k])
  then show "plan_typed E cat (push_filter opt (JoinNode l r lk rk InnerJoin) p) (lts @ rts)"
    unfolding pushed by (rule typed_filter_of_conjuncts [OF _ tM])
  obtain bl where bl: "execute_node E store l = Some bl" "buffer_typed E lts bl" using plan_runs [OF l e st] by blast
  obtain br where br: "execute_node E store r = Some br" "buffer_typed E rts br" using plan_runs [OF r e st] by blast
  let ?L = "\<lambda>x. \<forall>q \<in> set L. eval_pred E lts x q = Some True"
  let ?R = "\<lambda>y. \<forall>q \<in> set R. eval_pred E rts y q = Some True"
  let ?M = "\<lambda>z. \<forall>q \<in> set M. eval_pred E (lts @ rts) z q = Some True"
  let ?P = "\<lambda>z. eval_pred E (lts @ rts) z p = Some True"
  have fl: "buffer_typed E lts \<lparr>btypes = lts, brows = filter ?L (brows bl)\<rparr>" using bl(2) by (auto simp: buffer_typed_def)
  have fr: "buffer_typed E rts \<lparr>btypes = rts, brows = filter ?R (brows br)\<rparr>" using br(2) by (auto simp: buffer_typed_def)
  have j: "execute_node E store join = Some \<lparr>btypes = lts @ rts,
      brows = [x @ y. x \<leftarrow> filter ?L (brows bl), y \<leftarrow> filter ?R (brows br), keys_of lk x = keys_of rk y]\<rparr>"
    using filter_of_conjuncts [OF bl tL] filter_of_conjuncts [OF br tR] join_sound(1) [OF fl fr k]
    by (simp add: join_def)
  have jt: "buffer_typed E (lts @ rts) \<lparr>btypes = lts @ rts,
      brows = [x @ y. x \<leftarrow> filter ?L (brows bl), y \<leftarrow> filter ?R (brows br), keys_of lk x = keys_of rk y]\<rparr>"
    using plan_runs [OF tj e st] j by simp
  have split: "?P (x @ y) \<longleftrightarrow> ?L x \<and> ?R y \<and> ?M (x @ y)" if "x \<in> set (brows bl)" "y \<in> set (brows br)" for x y
  proof -
    have x: "row_typed E lts x" and y: "row_typed E rts y" using that bl(2) br(2) by (auto simp: buffer_typed_def)
    have "?P (x @ y) \<longleftrightarrow> (\<forall>q \<in> set ps. eval_pred E (lts @ rts) (x @ y) q = Some True)"
      unfolding ps_def by (rule eval_flatten_True)
    also have "\<dots> \<longleftrightarrow> ?L x \<and> ?R y \<and> ?M (x @ y)"
      using eval_left_conjunct [OF _ row_typed_length [OF x], where us = rts and y = y]
        eval_right_conjunct [OF _ row_typed_length [OF x], where us = rts and y = y]
      by (auto simp: L_def R_def M_def)
    finally show ?thesis .
  qed
  have whole: "execute_node E store (JoinNode l r lk rk InnerJoin) = Some \<lparr>btypes = lts @ rts,
      brows = [x @ y. x \<leftarrow> brows bl, y \<leftarrow> brows br, keys_of lk x = keys_of rk y]\<rparr>"
    using bl(1) br(1) join_sound(1) [OF bl(2) br(2) k] by simp
  have "buffer_typed E (lts @ rts) \<lparr>btypes = lts @ rts,
      brows = [x @ y. x \<leftarrow> brows bl, y \<leftarrow> brows br, keys_of lk x = keys_of rk y]\<rparr>"
    using plan_runs [OF inner_typed [OF l r k] e st] whole by simp
  then have "execute_node E store (FilterNode (JoinNode l r lk rk InnerJoin) p) = Some \<lparr>btypes = lts @ rts,
      brows = filter ?P [x @ y. x \<leftarrow> brows bl, y \<leftarrow> brows br, keys_of lk x = keys_of rk y]\<rparr>"
    using whole filter_sound [OF _ p] by fastforce
  also have "filter ?P [x @ y. x \<leftarrow> brows bl, y \<leftarrow> brows br, keys_of lk x = keys_of rk y]
      = filter ?M [x @ y. x \<leftarrow> filter ?L (brows bl), y \<leftarrow> filter ?R (brows br), keys_of lk x = keys_of rk y]"
    by (rule filter_pairs) (rule split)
  finally show "execute_node E store (push_filter opt (JoinNode l r lk rk InnerJoin) p)
      = execute_node E store (FilterNode (JoinNode l r lk rk InnerJoin) p)"
    unfolding pushed using filter_of_conjuncts [OF j jt tM] by simp
qed

lemma push_into_half_join:
  assumes e: "typed_engine E" and st: "store_typed E cat store"
    and l: "plan_typed E cat l lts" and r: "plan_typed E cat r rts" and k: "keys_typed lts rts lk rk"
    and jt: "jt = SemiJoin \<or> jt = AntiJoin"
    and p: "predicate_typed E lts p" and w: "estimate_width opt l = length lts"
  shows "plan_typed E cat (push_filter opt (JoinNode l r lk rk jt) p) lts"
    and "execute_node E store (push_filter opt (JoinNode l r lk rk jt) p)
      = execute_node E store (FilterNode (JoinNode l r lk rk jt) p)"
proof -
  define ps where "ps = flatten_and p"
  have typed: "predicate_typed E lts q" if "q \<in> set ps" for q
    using conjuncts_typed [OF p] that by (simp add: ps_def)
  have all_left: "left_conjunct (length lts) q" if "q \<in> set ps" for q
    by (rule typed_columns_in_range [OF e typed [OF that]])
  have parts: "filter (left_conjunct (length lts)) ps = ps" "filter (right_conjunct (length lts)) ps = []"
      "filter (\<lambda>q. \<not> left_conjunct (length lts) q \<and> \<not> right_conjunct (length lts) q) ps = []"
    using all_left by (auto simp: right_conjunct_def filter_empty_conv intro: filter_True)
  have pushed: "push_filter opt (JoinNode l r lk rk jt) p = JoinNode (filter_unless_empty ps l) r lk rk jt"
    using parts by (simp add: push_filter_def split_predicate w ps_def [symmetric] filter_unless_empty_def)
  have tp: "\<forall>q \<in> set ps. predicate_typed E lts q" using typed by blast
  show "plan_typed E cat (push_filter opt (JoinNode l r lk rk jt) p) lts"
    unfolding pushed by (rule half_typed [OF typed_filter_of_conjuncts [OF l tp] r k jt])
  obtain bl where bl: "execute_node E store l = Some bl" "buffer_typed E lts bl" using plan_runs [OF l e st] by blast
  obtain br where br: "execute_node E store r = Some br" "buffer_typed E rts br" using plan_runs [OF r e st] by blast
  let ?L = "\<lambda>x. \<forall>q \<in> set ps. eval_pred E lts x q = Some True"
  have fl: "buffer_typed E lts \<lparr>btypes = lts, brows = filter ?L (brows bl)\<rparr>" using bl(2) by (auto simp: buffer_typed_def)
  have same: "?L x \<longleftrightarrow> eval_pred E lts x p = Some True" if "x \<in> set (brows bl)" for x
    unfolding ps_def by (rule eval_flatten_True [symmetric])
  have keep: "filter ?L (brows bl) = filter (\<lambda>x. eval_pred E lts x p = Some True) (brows bl)"
    by (rule filter_cong) (use same in auto)
  obtain b where b: "execute_node E store (JoinNode l r lk rk jt) = Some b" "buffer_typed E lts b"
    using plan_runs [OF half_typed [OF l r k jt] e st] by blast
  have "execute_node E store (JoinNode (filter_unless_empty ps l) r lk rk jt)
      = Some \<lparr>btypes = lts, brows = filter (\<lambda>x. eval_pred E lts x p = Some True) (brows b)\<rparr>"
    using jt b(1) filter_of_conjuncts [OF bl tp] br(1) join_sound(2,3) [OF fl br(2) k]
      join_sound(2,3) [OF bl(2) br(2) k] bl(1)
    by (elim disjE) (auto simp: keep conj_commute)
  then show "execute_node E store (push_filter opt (JoinNode l r lk rk jt) p)
      = execute_node E store (FilterNode (JoinNode l r lk rk jt) p)"
    unfolding pushed using b(1) filter_sound [OF b(2) p] by simp
qed


lemma push_through_project:
  assumes e: "typed_engine E" and st: "store_typed E cat store"
    and n: "plan_typed E cat n us" and cols: "\<forall>c \<in> set cols. column_typed E us c"
    and p: "predicate_typed E (map (column_result us) cols) p"
    and m: "remap_predicate_through_project p cols = Some p'"
  shows "predicate_typed E us p'"
    and "execute_node E store (ProjectNode (FilterNode n p') cols)
      = execute_node E store (FilterNode (ProjectNode n cols) p)"
proof -
  define f where "f c = the (passed_column cols c)" for c
  have p': "p' = remap_columns f p" and passed: "\<forall>c \<in> set (collect_columns p). passed_column cols c \<noteq> None"
    using remap_expr_columns m unfolding remap_predicate_through_project_def f_def by blast+
  have same: "eval_pred E us row p' = eval_pred E (map (column_result us) cols) (project_row E us cols row) p"
    if row: "row_typed E us row" for row
    unfolding p'
  proof (rule eval_pred_remap)
    fix c assume "c \<in> set (collect_columns p)"
    then obtain j where c: "c < length cols" "cols ! c = PColumn j" "f c = j"
      using passed by (fastforce simp: passed_column_def f_def get_def split: option.splits project_expr.splits if_splits)
    have "cols ! c \<in> set cols" using c(1) by simp
    then have j: "j < length us" using cols c(2) by (auto simp: column_typed_def)
    have "j < length row" using j row_typed_length [OF row] by simp
    then show "get us (f c) = get (map (column_result us) cols) c \<and> get row (f c) = get (project_row E us cols row) c"
      using c j by (simp add: get_def column_result_def project_row_def project_value_def)
  qed
  show tp: "predicate_typed E us p'"
    using p project_sound(2) [OF _ cols] same unfolding predicate_typed_def
    by (metis buffer_typed_def empty_iff list.set(1) buffer.select_convs)
  obtain b where b: "execute_node E store n = Some b" "buffer_typed E us b" using plan_runs [OF n e st] by blast
  have fb: "buffer_typed E us \<lparr>btypes = us, brows = filter (\<lambda>row. eval_pred E us row p' = Some True) (brows b)\<rparr>"
    using b(2) by (auto simp: buffer_typed_def)
  have pb: "buffer_typed E (map (column_result us) cols)
      \<lparr>btypes = map (column_result us) cols, brows = map (project_row E us cols) (brows b)\<rparr>"
    using b(2) project_sound(2) [OF b(2) cols] by (auto simp: buffer_typed_def)
  have "map (project_row E us cols) (filter (\<lambda>row. eval_pred E us row p' = Some True) (brows b))
      = filter (\<lambda>row. eval_pred E (map (column_result us) cols) row p = Some True) (map (project_row E us cols) (brows b))"
    unfolding filter_map comp_def
    by (rule arg_cong [where f = "map _"], rule filter_cong) (use b(2) same in \<open>auto simp: buffer_typed_def\<close>)
  then show "execute_node E store (ProjectNode (FilterNode n p') cols)
      = execute_node E store (FilterNode (ProjectNode n cols) p)"
    using b(1) filter_sound [OF b(2) tp] project_sound(1) [OF fb cols] project_sound(1) [OF b(2) cols]
      filter_sound [OF pb p] by simp
qed

lemma push_through_filter:
  assumes e: "typed_engine E" and st: "store_typed E cat store" and n: "plan_typed E cat n ts"
    and q: "predicate_typed E ts q" and p: "predicate_typed E ts p"
  shows "predicate_typed E ts (EAnd [q, p])"
    and "execute_node E store (FilterNode n (EAnd [q, p])) = execute_node E store (FilterNode (FilterNode n q) p)"
proof -
  have v: "eval_pred E ts row (EAnd [q, p]) = Some (eval_pred E ts row q = Some True \<and> eval_pred E ts row p = Some True)"
    if row: "row_typed E ts row" for row
  proof -
    obtain a b where "eval_pred E ts row q = Some a" "eval_pred E ts row p = Some b"
      using q p row unfolding predicate_typed_def by blast
    then show ?thesis by simp
  qed
  then show t: "predicate_typed E ts (EAnd [q, p])"
    unfolding predicate_typed_def by (metis option.distinct(1))
  obtain b where b: "execute_node E store n = Some b" "buffer_typed E ts b" using plan_runs [OF n e st] by blast
  have fb: "buffer_typed E ts \<lparr>btypes = ts, brows = filter (\<lambda>row. eval_pred E ts row q = Some True) (brows b)\<rparr>"
    using b(2) by (auto simp: buffer_typed_def)
  have "filter (\<lambda>row. eval_pred E ts row (EAnd [q, p]) = Some True) (brows b)
      = filter (\<lambda>row. eval_pred E ts row p = Some True) (filter (\<lambda>row. eval_pred E ts row q = Some True) (brows b))"
    unfolding filter_filter by (rule filter_cong) (use b(2) v in \<open>auto simp: buffer_typed_def simp del: eval_pred.simps\<close>)
  then show "execute_node E store (FilterNode n (EAnd [q, p])) = execute_node E store (FilterNode (FilterNode n q) p)"
    using b(1) filter_sound [OF b(2) t] filter_sound [OF b(2) q] filter_sound [OF fb p]
    by (simp del: eval_pred.simps)
qed

lemma push_filter_correct:
  assumes e: "typed_engine E" and st: "store_typed E cat store"
    and n: "plan_typed E cat n ts" and widths: "left_widths_right E store opt n" and p: "predicate_typed E ts p"
  shows "plan_typed E cat (push_filter opt n p) ts
    \<and> execute_node E store (push_filter opt n p) = execute_node E store (FilterNode n p)"
  using n
proof cases
  case (filter_typed m q)
  then show ?thesis
    using push_through_filter [OF e st filter_typed(2,3) p] plan_typed.filter_typed
    by (simp add: push_filter_def)
next
  case (project_typed m us cols)
  show ?thesis
  proof (cases "remap_predicate_through_project p cols")
    case None
    then show ?thesis using project_typed n p plan_typed.filter_typed by (simp add: push_filter_def)
  next
    case (Some p')
    note through = push_through_project [OF e st project_typed(3,4) p [unfolded project_typed(2)] Some]
    have "plan_typed E cat (ProjectNode (FilterNode m p') cols) ts"
      unfolding project_typed(2)
      by (rule plan_typed.project_typed [OF plan_typed.filter_typed [OF project_typed(3) through(1)] project_typed(4)])
    then show ?thesis using through(2) project_typed(1) Some by (simp add: push_filter_def)
  qed
next
  case (inner_typed l lts r rts lk rk)
  have "estimate_width opt l = length lts"
    using plan_runs [OF inner_typed(3) e st] width_rightD widths unfolding inner_typed(1) by fastforce
  from push_into_join [OF e st inner_typed(3,4,5) p [unfolded inner_typed(2)] this] show ?thesis
    unfolding inner_typed(1,2) by blast
next
  case (half_typed l r rts lk rk jt)
  have "estimate_width opt l = length ts"
    using plan_runs [OF half_typed(2) e st] width_rightD widths unfolding half_typed(1) by fastforce
  from push_into_half_join [OF e st half_typed(2,3,4,5) p this] show ?thesis
    unfolding half_typed(1) by blast
qed (use n p in \<open>simp_all add: push_filter_def plan_typed.filter_typed\<close>)

lemma pushdown_correct:
  assumes "plan_typed E cat n ts" and e: "typed_engine E" and st: "store_typed E cat store"
    and "left_widths_right E store opt n"
  shows "plan_typed E cat (predicate_pushdown opt n) ts
    \<and> execute_node E store (predicate_pushdown opt n) = execute_node E store n
    \<and> left_widths_right E store opt (predicate_pushdown opt n)"
  using assms(1,4)
proof (induction rule: plan_typed.induct)
  case (filter_typed n ts p)
  then have pushed: "plan_typed E cat (predicate_pushdown opt n) ts"
      "left_widths_right E store opt (predicate_pushdown opt n)"
    and "execute_node E store (predicate_pushdown opt n) = execute_node E store n" by simp_all
  with push_filter_correct [OF e st pushed filter_typed.hyps(2)] show ?case by (simp add: left_widths_push)
next
  case (union_typed inputs ts)
  have "each_row (\<lambda>n. execute_node E store (predicate_pushdown opt n)) inputs = each_row (execute_node E store) inputs"
    by (rule each_row_cong) (use union_typed in \<open>auto simp: list_all_iff\<close>)
  then show ?case using union_typed
    by (auto simp: execute_nodes_list each_row_map list_all_iff intro!: plan_typed.union_typed)
qed (auto intro: plan_typed.intros simp: width_right_pushdown)

text \<open>Pushdown reads the same relations in the same order.\<close>

lemma referenced_filter_unless [simp]: "referenced_relations (filter_unless_empty ps n) = referenced_relations n"
  by (simp add: filter_unless_empty_def)

lemma referenced_push [simp]: "referenced_relations (push_filter opt n p) = referenced_relations n"
  by (cases n) (auto simp: push_filter_def split: option.splits prod.splits)

lemma referenced_pushdown: "referenced_relations (predicate_pushdown opt n) = referenced_relations n"
  by (induction n) (auto intro: arg_cong [where f = concat])

section \<open>An example\<close>

text \<open>An engine whose values are typed constants, with addition, unsigned and signed comparison, and
  aggregates of unsigned values.\<close>

fun demo_number :: "const_value \<Rightarrow> int" where
  "demo_number (CvU32 n) = uint n"
| "demo_number (CvU64 n) = uint n"
| "demo_number (CvI32 n) = sint n"
| "demo_number (CvI64 n) = sint n"
| "demo_number _ = 0"

fun demo_op :: "binary_operation \<Rightarrow> const_value \<Rightarrow> const_value \<Rightarrow> const_value option" where
  "demo_op OpAdd (CvU32 a) (CvU32 b) = Some (CvU32 (a + b))"
| "demo_op OpAdd (CvI64 a) (CvI64 b) = Some (CvI64 (a + b))"
| "demo_op _ _ _ = None"

fun demo_compare :: "compare_op \<Rightarrow> const_value \<Rightarrow> const_value \<Rightarrow> bool" where
  "demo_compare CmpEq a b = (a = b)"
| "demo_compare CmpNe a b = (a \<noteq> b)"
| "demo_compare CmpLt a b = (demo_number a < demo_number b)"
| "demo_compare CmpLe a b = (demo_number a \<le> demo_number b)"
| "demo_compare CmpGt a b = (demo_number b < demo_number a)"
| "demo_compare CmpGe a b = (demo_number b \<le> demo_number a)"

definition demo_extreme :: "(int set \<Rightarrow> int) \<Rightarrow> const_value multiset \<Rightarrow> const_value" where
  "demo_extreme f m =
     (if \<exists>v \<in># m. const_type v = TyU64 then CvU64 (word_of_int (f (set_mset (image_mset demo_number m))))
      else CvU32 (word_of_int (f (set_mset (image_mset demo_number m)))))"

fun demo_aggregate :: "core_agg_op \<Rightarrow> const_value multiset \<Rightarrow> const_value" where
  "demo_aggregate CoreCount m = CvU64 (word_of_nat (size m))"
| "demo_aggregate CoreSum m = CvU64 (word_of_int (sum_mset (image_mset demo_number m)))"
| "demo_aggregate CoreMin m = demo_extreme Min m"
| "demo_aggregate CoreMax m = demo_extreme Max m"
| "demo_aggregate CoreLogSumExp m = CvF64 0"

definition demo_engine :: "const_value engine" where
  "demo_engine = \<lparr>const_column = (\<lambda>c. c), type_of_val = const_type, column_op = demo_op,
     abs_column = (\<lambda>_. None), cast_column = (\<lambda>v t. if const_type v = t then Some v else None),
     compare_columns = demo_compare, group_aggregate = demo_aggregate,
     left_outer_join = (\<lambda>_ _ _ _. None), dedup_columns = (\<lambda>_ _. None), other_node = (\<lambda>_. None)\<rparr>"

lemma demo_engine_typed: "typed_engine demo_engine"
proof -
  have "const_type (demo_aggregate aop m) = aggregate_type ts (col, aop)"
    if "aggregate_column_ok ts (col, aop)" "m \<noteq> {#}" "\<forall>v \<in># m. const_type v = ts ! col" for aop ts col m
    using that
    by (cases aop) (auto simp: aggregate_column_ok_def aggregate_type_def demo_extreme_def get_def
        split: option.splits if_splits)
  then show ?thesis by (simp add: typed_engine_def demo_engine_def)
qed

definition demo_cat :: "rel_id \<Rightarrow> scalar_type list option" where
  "demo_cat r = (if r = 0 \<or> r = 1 then Some [TyU32, TyU32] else if r = 2 then Some [TyU32] else None)"

definition demo_store :: "rel_id \<Rightarrow> const_value buffer option" where
  "demo_store r =
     (if r = 0 then Some \<lparr>btypes = [TyU32, TyU32], brows = map (map CvU32) [[1, 2], [5, 3], [7, 2]]\<rparr>
      else if r = 1 then Some \<lparr>btypes = [TyU32, TyU32], brows = map (map CvU32) [[2, 9], [2, 4], [3, 9]]\<rparr>
      else if r = 2 then Some \<lparr>btypes = [TyU32], brows = map (map CvU32) [[1], [5]]\<rparr> else None)"

definition demo_optimizer :: optimizer where
  "demo_optimizer = \<lparr>enable_pushdown = True, opt_schemas = (\<lambda>r. map_option length (demo_cat r)), opt_stats = (\<lambda>_. None)\<rparr>"

definition demo_filter :: rexpr where
  "demo_filter = EAnd [ECompare (EColumn 0) CmpLt (EConst (CvU32 6)), ECompare (EColumn 3) CmpEq (EConst (CvU32 9))]"

definition demo_plan :: rir_node where
  "demo_plan = ProjectNode (FilterNode (JoinNode (ScanNode 0) (ScanNode 1) [1] [0] InnerJoin) demo_filter) [PColumn 0, PColumn 3]"

lemma demo_store_typed: "store_typed demo_engine demo_cat demo_store"
  by (simp add: store_typed_def demo_cat_def demo_store_def demo_engine_def buffer_typed_def row_typed_def)

lemma demo_schemas_known: "schemas_known demo_optimizer demo_cat"
  by (simp add: schemas_known_def demo_optimizer_def)

lemma demo_plan_typed: "plan_typed demo_engine demo_cat demo_plan [TyU32, TyU32]"
proof -
  have "plan_typed demo_engine demo_cat (JoinNode (ScanNode 0) (ScanNode 1) [1] [0] InnerJoin) ([TyU32, TyU32] @ [TyU32, TyU32])"
    by (rule inner_typed) (auto simp: demo_cat_def keys_typed_def intro!: scan_typed)
  moreover have "predicate_typed demo_engine ([TyU32, TyU32] @ [TyU32, TyU32]) demo_filter"
    by (auto simp: predicate_typed_def row_typed_def demo_filter_def demo_engine_def get_def compare_values_def
        map_eq_Cons_conv)
  ultimately have "plan_typed demo_engine demo_cat
      (FilterNode (JoinNode (ScanNode 0) (ScanNode 1) [1] [0] InnerJoin) demo_filter) ([TyU32, TyU32] @ [TyU32, TyU32])"
    by (rule filter_typed)
  from project_typed [OF this, of "[PColumn 0, PColumn 3]"] show ?thesis
    by (simp add: demo_plan_def column_typed_def column_result_def)
qed

lemma demo_plan_widths: "left_widths_right demo_engine demo_store demo_optimizer demo_plan"
  by (rule left_widths_known [OF demo_plan_typed demo_engine_typed demo_store_typed demo_schemas_known])
    (simp add: demo_plan_def)

text \<open>The estimated width of a semijoin counts the columns of its right input. A filter over a join whose
  left input is a semijoin is pushed to the wrong side, and the rewritten plan fails.\<close>

definition semi_plan :: rir_node where
  "semi_plan = FilterNode (JoinNode (JoinNode (ScanNode 2) (ScanNode 0) [0] [0] SemiJoin) (ScanNode 0) [0] [0] InnerJoin)
     (ECompare (EColumn 1) CmpEq (EConst (CvU32 5)))"

lemma pushdown_misjudges_semijoin:
  "map_option brows (execute_node demo_engine demo_store semi_plan) = Some [[CvU32 5, CvU32 5, CvU32 3]]"
  "execute_node demo_engine demo_store (predicate_pushdown demo_optimizer semi_plan) = None"
  by code_simp+

text \<open>Without a schema or statistics a relation counts as four columns wide: a filter on the right input
  is pushed to the left one, and the rewritten plan fails.\<close>

definition blind_optimizer :: optimizer where
  "blind_optimizer = \<lparr>enable_pushdown = True, opt_schemas = (\<lambda>_. None), opt_stats = (\<lambda>_. None)\<rparr>"

lemma pushdown_misjudges_unknown:
  "map_option brows (execute_node demo_engine demo_store demo_plan)
     = Some [[CvU32 1, CvU32 9], [CvU32 5, CvU32 9]]"
  "execute_node demo_engine demo_store (optimize blind_optimizer demo_plan) = None"
  "\<not> left_widths_right demo_engine demo_store blind_optimizer demo_plan"
  by code_simp+

section \<open>Properties\<close>

text \<open>C8: predicate pushdown keeps the types and the result of every well-typed plan in which the
  optimizer's estimate of the number of columns of the left input of each join is right. A plan is
  well-typed when its predicates and computed columns evaluate on all rows of the column types of
  their inputs, and its join keys, groupings and set operations fit these types; left outer joins, deduplication by some of the columns, fixpoints and
  tensor joins have no typing rule, and a chain or multiway join is typed and run as its fallback.
  The estimates are right when the optimizer knows all schemas and no left input of a join takes its
  width from a semijoin, antijoin, chain join or multiway join (\<open>left_widths_known\<close>).\<close>

theorem pushdown_preserves:
  assumes "plan_typed E cat n ts" and "typed_engine E" and "store_typed E cat store"
    and "left_widths_right E store opt n"
  shows "plan_typed E cat (optimize opt n) ts \<and> execute_node E store (optimize opt n) = execute_node E store n"
  using pushdown_correct [OF assms] assms(1) by (simp add: optimize_def)

theorem pushdown_preserves_witness:
  "optimize demo_optimizer demo_plan \<noteq> demo_plan
   \<and> execute_node demo_engine demo_store (optimize demo_optimizer demo_plan)
     = execute_node demo_engine demo_store demo_plan"
proof -
  have "optimize demo_optimizer demo_plan \<noteq> demo_plan" by code_simp
  moreover have "left_widths_right demo_engine demo_store demo_optimizer demo_plan" by (rule demo_plan_widths)
  ultimately show ?thesis
    using pushdown_preserves [OF demo_plan_typed demo_engine_typed demo_store_typed] by blast
qed

end
