(* ===== verification/Join_Correct.thy ===== *)
theory Join_Correct
  imports Lower_Rule Pushdown_Correct
begin

text \<open>
  Correctness of join planning: whichever tree the cost model prefers, its leaves are the atoms of the
  body in some order, and executing it gives, in the layout of that order, exactly the combinations of
  rows that fit the constants of the atoms and agree on their variables.
\<close>

section \<open>Literals\<close>

lemma typed_const_type:
  "term_to_typed_const_value env t ty = Inr (Some c) \<Longrightarrow> const_type c = ty"
  by (cases t; cases ty) (auto simp: term_to_typed_const_value_def Let_def split: if_splits option.splits)

lemma float_const_type: "float_const c = float_type (const_type c)"
  by (cases c) auto

section \<open>First occurrences\<close>

definition first_index :: "string \<Rightarrow> ast_term list \<Rightarrow> nat" where
  "first_index x ts = length (takeWhile (\<lambda>t. t \<noteq> Variable x) ts)"

lemma first_index_Cons: "first_index x (t # ts) = (if t = Variable x then 0 else Suc (first_index x ts))"
  by (simp add: first_index_def)

lemma first_index_append:
  "first_index x (ts @ us) = (if Variable x \<in> set ts then first_index x ts else length ts + first_index x us)"
  by (induction ts) (auto simp: first_index_Cons)

lemma first_index_lookup:
  "Variable x \<in> set ts \<Longrightarrow> first_index x ts < length ts \<and> ts ! first_index x ts = Variable x"
  by (induction ts) (auto simp: first_index_Cons)

lemma map_of_snoc: "map_of (xs @ [(k, v)]) x = (case map_of xs x of Some y \<Rightarrow> Some y | None \<Rightarrow> if x = k then Some v else None)"
  by (simp add: map_add_def split: option.splits)

lemma first_positions_lookup:
  "map_of (first_positions i ts vs) x =
     (case map_of vs x of
        Some j \<Rightarrow> Some j
      | None \<Rightarrow> if x \<noteq> ''_'' \<and> Variable x \<in> set ts then Some (i + first_index x ts) else None)"
proof (induction ts arbitrary: i vs)
  case (Cons t ts)
  show ?case
  proof (cases "\<exists>y. t = Variable y")
    case True
    then obtain y where t: "t = Variable y" by blast
    show ?thesis
      by (auto simp: t Cons.IH first_index_Cons map_of_snoc split: option.splits)
  next
    case False
    then show ?thesis by (cases t) (auto simp: Cons.IH first_index_Cons split: option.splits)
  qed
qed (auto split: option.splits)

lemma first_positions_append:
  "first_positions i (ts @ us) vs = first_positions (i + length ts) us (first_positions i ts vs)"
  by (induction ts arbitrary: i vs) auto

lemma first_positions_shift:
  "first_positions (n + i) us (vs @ map (\<lambda>(v, p). (v, n + p)) (filter (\<lambda>(v, _). map_of vs v = None) ws)) =
     vs @ map (\<lambda>(v, p). (v, n + p)) (filter (\<lambda>(v, _). map_of vs v = None) (first_positions i us ws))"
proof (induction us arbitrary: i ws)
  case (Cons t us)
  let ?rest = "\<lambda>ws. vs @ map (\<lambda>(v, p). (v, n + p)) (filter (\<lambda>(v, _). map_of vs v = None) ws)"
  have look: "map_of (?rest ws) x = None \<longleftrightarrow> map_of vs x = None \<and> map_of ws x = None" for x ws
  proof -
    have "fst ` set (?rest ws) = fst ` set vs \<union> {v \<in> fst ` set ws. v \<notin> fst ` set vs}"
      by (force simp: map_of_eq_None_iff)
    then show ?thesis by (auto simp: map_of_eq_None_iff simp del: map_of_append)
  qed
  show ?case
  proof (cases "\<exists>x. t = Variable x \<and> x \<noteq> ''_''")
    case True
    then obtain x where t: "t = Variable x" and x: "x \<noteq> ''_''" by blast
    have left: "first_positions (n + i) (t # us) (?rest ws) =
        first_positions (n + Suc i) us (if map_of (?rest ws) x = None then ?rest ws @ [(x, n + i)] else ?rest ws)"
      using x by (simp add: t del: map_of_append append_assoc)
    have right: "first_positions i (t # us) ws =
        first_positions (Suc i) us (if map_of ws x = None then ws @ [(x, i)] else ws)"
      using x by (simp add: t)
    have "(if map_of (?rest ws) x = None then ?rest ws @ [(x, n + i)] else ?rest ws)
        = ?rest (if map_of ws x = None then ws @ [(x, i)] else ws)"
      unfolding look by simp
    then show ?thesis unfolding left right by (simp only: Cons.IH)
  next
    case False
    then show ?thesis using Cons.IH [of "Suc i" ws] by (cases t) auto
  qed
qed simp

lemma first_positions_join:
  "first_positions 0 (ts @ us) [] =
     first_positions 0 ts []
     @ map (\<lambda>(v, p). (v, length ts + p))
         (filter (\<lambda>(v, _). map_of (first_positions 0 ts []) v = None) (first_positions 0 us []))"
  using first_positions_shift [of "length ts" 0 us "first_positions 0 ts []" "[]"]
  by (simp add: first_positions_append)

text \<open>A row agrees with a list of terms when a variable has one value wherever it occurs.\<close>

definition agree :: "ast_term list \<Rightarrow> 'v list \<Rightarrow> bool" where
  "agree ts row \<longleftrightarrow>
     (\<forall>i < length ts. \<forall>x. ts ! i = Variable x \<and> x \<noteq> ''_'' \<longrightarrow> row ! i = row ! first_index x ts)"

lemma agreeD:
  "agree ts row \<Longrightarrow> ts ! i = Variable x \<Longrightarrow> x \<noteq> ''_'' \<Longrightarrow> i < length ts \<Longrightarrow> row ! i = row ! first_index x ts"
  by (simp add: agree_def)

lemma agree_append:
  assumes len: "length x = length ts" "length y = length us"
  shows "agree (ts @ us) (x @ y) \<longleftrightarrow> agree ts x \<and> agree us y
    \<and> (\<forall>v. v \<noteq> ''_'' \<and> Variable v \<in> set ts \<and> Variable v \<in> set us \<longrightarrow> x ! first_index v ts = y ! first_index v us)"
    (is "?l = ?r")
proof
  assume l: ?l
  have at: "(x @ y) ! i = (x @ y) ! first_index v (ts @ us)"
    if "(ts @ us) ! i = Variable v" "v \<noteq> ''_''" "i < length (ts @ us)" for i v
    using agreeD [OF l that] .
  have "agree ts x" unfolding agree_def
  proof (intro allI impI)
    fix i v assume i: "i < length ts" and v: "ts ! i = Variable v \<and> v \<noteq> ''_''"
    then have "Variable v \<in> set ts" by (metis nth_mem)
    with at [of i v] i v len first_index_lookup [of v ts] show "x ! i = x ! first_index v ts"
      by (simp add: nth_append first_index_append)
  qed
  moreover have key: "x ! first_index v ts = y ! first_index v us"
    if "v \<noteq> ''_''" "Variable v \<in> set ts" "Variable v \<in> set us" for v
    using at [of "length ts + first_index v us" v] that len first_index_lookup [of v us] first_index_lookup [of v ts]
    by (simp add: nth_append first_index_append)
  moreover have "agree us y" unfolding agree_def
  proof (intro allI impI)
    fix i v assume i: "i < length us" and v: "us ! i = Variable v \<and> v \<noteq> ''_''"
    then have us: "Variable v \<in> set us" by (metis nth_mem)
    have eq: "y ! i = (x @ y) ! first_index v (ts @ us)"
      using at [of "length ts + i" v] i v len by (simp add: nth_append)
    show "y ! i = y ! first_index v us"
    proof (cases "Variable v \<in> set ts")
      case True
      with eq key v us first_index_lookup [of v ts] len show ?thesis by (simp add: nth_append first_index_append)
    next
      case False
      with eq len show ?thesis by (simp add: nth_append first_index_append)
    qed
  qed
  ultimately show ?r by blast
next
  assume r: ?r
  show ?l unfolding agree_def
  proof (intro allI impI)
    fix i v assume i: "i < length (ts @ us)" and v: "(ts @ us) ! i = Variable v \<and> v \<noteq> ''_''"
    show "(x @ y) ! i = (x @ y) ! first_index v (ts @ us)"
    proof (cases "i < length ts")
      case True
      then have "Variable v \<in> set ts" using v by (metis nth_append nth_mem)
      with True r v len first_index_lookup [of v ts] show ?thesis
        by (simp add: nth_append first_index_append agreeD)
    next
      case False
      with i v have us: "us ! (i - length ts) = Variable v" "i - length ts < length us" by (auto simp: nth_append)
      then have mem: "Variable v \<in> set us" by (metis nth_mem)
      have "y ! (i - length ts) = y ! first_index v us" using r us v by (simp add: agreeD)
      with False r v mem len first_index_lookup [of v ts] show ?thesis
        by (auto simp: nth_append first_index_append)
    qed
  qed
qed


section \<open>Leaves\<close>

text \<open>
  What the model relies on: comparing two columns of one type for equality, 32-bit floats through 64-bit
  ones, tells whether the stored values are the same, as the total order on bit patterns does.\<close>

definition equality_faithful :: "'v engine \<Rightarrow> bool" where
  "equality_faithful E \<longleftrightarrow>
     (\<forall>a b. type_of_val E a = type_of_val E b
        \<longrightarrow> compare_values E (float_type (type_of_val E a)) CmpEq a b = Some (a = b))"

definition atom_schema :: "schema_table \<Rightarrow> atom \<Rightarrow> scalar_type list" where
  "atom_schema schemas a = (case schemas (predicate a) of Some ts \<Rightarrow> ts | None \<Rightarrow> [])"

text \<open>The atom's relation is stored under its number with the columns of its schema, and the variables of
  the atom have the types of their columns.\<close>

definition atom_ready ::
    "'v engine \<Rightarrow> lowerer \<Rightarrow> (string \<Rightarrow> 'v buffer) \<Rightarrow> (rel_id \<Rightarrow> 'v buffer option) \<Rightarrow> (string \<Rightarrow> scalar_type option)
     \<Rightarrow> atom \<Rightarrow> bool" where
  "atom_ready E st db store tys a \<longleftrightarrow>
     (\<exists>rel. map_of (rel_ids st) (predicate a) = Some rel \<and> store rel = Some (db (predicate a)))
     \<and> low_schemas st (predicate a) = Some (atom_schema (low_schemas st) a)
     \<and> length (terms a) = length (atom_schema (low_schemas st) a)
     \<and> buffer_typed E (atom_schema (low_schemas st) a) (db (predicate a))
     \<and> (\<forall>i < length (terms a). \<forall>x. terms a ! i = Variable x \<and> x \<noteq> ''_''
          \<longrightarrow> tys x = Some (atom_schema (low_schemas st) a ! i))"

definition constants_fit :: "'v engine \<Rightarrow> scalar_env \<Rightarrow> scalar_type list \<Rightarrow> ast_term list \<Rightarrow> 'v list \<Rightarrow> bool" where
  "constants_fit E env ts tms row \<longleftrightarrow>
     (\<forall>i < length tms. \<forall>c. term_to_typed_const_value env (tms ! i) (ts ! i) = Inr (Some c)
        \<longrightarrow> row ! i = const_column E c)"

lemma eval_equal_columns:
  assumes "equality_faithful E" and "row_typed E ts row" and "i < length ts" "j < length ts" "ts ! i = ts ! j"
  shows "eval_pred E ts row (ECompare (EColumn j) CmpEq (EColumn i)) = Some (row ! j = row ! i)"
  using assms row_typed_length [OF assms(2)] row_typed_nth [OF assms(2), of i] row_typed_nth [OF assms(2), of j]
    assms(1) [unfolded equality_faithful_def, rule_format, of "row ! j" "row ! i"]
  by (simp add: get_def)

lemma eval_equal_constant:
  assumes "typed_engine E" "equality_faithful E" and "row_typed E ts row" and "i < length ts" "const_type c = ts ! i"
  shows "eval_pred E ts row (ECompare (EColumn i) CmpEq (EConst c)) = Some (row ! i = const_column E c)"
  using assms row_typed_length [OF assms(3)] row_typed_nth [OF assms(3), of i]
    assms(2) [unfolded equality_faithful_def, rule_format, of "row ! i" "const_column E c"]
  by (simp add: get_def typed_engine_def float_const_type)

definition leaf_holds ::
    "'v engine \<Rightarrow> scalar_env \<Rightarrow> scalar_type list \<Rightarrow> 'v list \<Rightarrow> (string \<times> nat) list \<Rightarrow> nat \<Rightarrow> ast_term \<Rightarrow> bool" where
  "leaf_holds E env ts row seen i t \<longleftrightarrow>
     (\<forall>c. term_to_typed_const_value env t (ts ! i) = Inr (Some c) \<longrightarrow> row ! i = const_column E c)
     \<and> (\<forall>x. t = Variable x \<and> x \<noteq> ''_'' \<longrightarrow> row ! i = row ! the (map_of seen x))"

lemma atom_filters_hold:
  assumes "typed_engine E" "equality_faithful E"
  shows "atom_filters env p ts i seen rest = Inr fs \<Longrightarrow> row_typed E ts row
    \<Longrightarrow> \<forall>x j. map_of seen x = Some j \<longrightarrow> j < length ts \<and> tys x = Some (ts ! j)
    \<Longrightarrow> \<forall>k < length rest. \<forall>x. rest ! k = Variable x \<and> x \<noteq> ''_'' \<longrightarrow> tys x = Some (ts ! (i + k))
    \<Longrightarrow> (\<forall>f \<in> set fs. eval_pred E ts row f \<noteq> None)
      \<and> ((\<forall>f \<in> set fs. eval_pred E ts row f = Some True)
         \<longleftrightarrow> (\<forall>k < length rest. leaf_holds E (low_scalars env) ts row (first_positions i rest seen) (i + k) (rest ! k)))"
proof (induction env p ts i seen rest arbitrary: fs rule: atom_filters.induct)
  case (2 env p ts i seen t rest)
  let ?fs = "first_positions i (t # rest) seen"
  define step where "step = (case t of
      Variable x \<Rightarrow> if x = ''_'' then ([], seen)
        else (case map_of seen x of Some j \<Rightarrow> ([ECompare (EColumn j) CmpEq (EColumn i)], seen)
              | None \<Rightarrow> ([], seen @ [(x, i)]))
    | _ \<Rightarrow> ([], seen))"
  obtain repeated seen' where rs: "step = (repeated, seen')" by (cases step)
  obtain ty c fs' where ty: "get ts i = Some ty"
    and c: "term_to_typed_const_value (low_scalars env) t ty = Inr c"
    and fs': "atom_filters env p ts (Suc i) seen' rest = Inr fs'"
    and fs: "fs = repeated @ (case c of Some v \<Rightarrow> [ECompare (EColumn i) CmpEq (EConst v)] | None \<Rightarrow> []) @ fs'"
    using "2.prems"(1) rs unfolding atom_filters.simps Let_def step_def [symmetric] rs prod.case
    by (auto simp: res_simps split: option.splits)
  have i: "i < length ts" "ts ! i = ty" using ty by (auto simp: get_Some_iff)
  have first: "first_positions (Suc i) rest seen' = ?fs"
    using rs by (cases t) (auto simp: step_def split: if_splits option.splits)
  have tyx: "tys x = Some ty" if "t = Variable x" "x \<noteq> ''_''" for x
    using "2.prems"(4) [rule_format, of 0 x] that i by simp
  have IH: "(\<forall>f \<in> set fs'. eval_pred E ts row f \<noteq> None)
      \<and> ((\<forall>f \<in> set fs'. eval_pred E ts row f = Some True)
         \<longleftrightarrow> (\<forall>k < length rest. leaf_holds E (low_scalars env) ts row ?fs (Suc i + k) (rest ! k)))"
    unfolding first [symmetric]
  proof (rule "2.IH" [OF step_def rs [symmetric] ty fs' "2.prems"(2)])
    show "\<forall>x j. map_of seen' x = Some j \<longrightarrow> j < length ts \<and> tys x = Some (ts ! j)"
      using "2.prems"(3) rs tyx i
      by (cases t) (auto simp: step_def map_of_snoc simp del: map_of_append split: if_splits option.splits)
    show "\<forall>k < length rest. \<forall>x. rest ! k = Variable x \<and> x \<noteq> ''_'' \<longrightarrow> tys x = Some (ts ! (Suc i + k))"
      using "2.prems"(4) by (metis Suc_less_eq add_Suc_shift length_Cons nth_Cons_Suc)
  qed
  have rep: "(\<forall>f \<in> set repeated. eval_pred E ts row f \<noteq> None)
      \<and> ((\<forall>f \<in> set repeated. eval_pred E ts row f = Some True)
         \<longleftrightarrow> (\<forall>x. t = Variable x \<and> x \<noteq> ''_'' \<longrightarrow> row ! i = row ! the (map_of ?fs x)))"
  proof (cases "\<exists>x. t = Variable x \<and> x \<noteq> ''_''")
    case True
    then obtain x where t: "t = Variable x" and x: "x \<noteq> ''_''" by blast
    show ?thesis
    proof (cases "map_of seen x")
      case None
      then have "map_of ?fs x = Some i" "repeated = []"
        using x rs by (simp_all add: t first_positions_lookup first_index_Cons step_def del: first_positions.simps)
      then show ?thesis by (simp add: t del: first_positions.simps)
    next
      case (Some j)
      then have look: "map_of ?fs x = Some j" and rep: "repeated = [ECompare (EColumn j) CmpEq (EColumn i)]"
        using x rs by (simp_all add: t first_positions_lookup step_def del: first_positions.simps)
      have j: "j < length ts" "ts ! i = ts ! j" using "2.prems"(3) Some tyx t x i by auto
      have e: "eval_pred E ts row (ECompare (EColumn j) CmpEq (EColumn i)) = Some (row ! j = row ! i)"
        by (rule eval_equal_columns [OF assms(2) "2.prems"(2) i(1) j])
      have "(\<forall>y. t = Variable y \<and> y \<noteq> ''_'' \<longrightarrow> row ! i = row ! the (map_of ?fs y)) \<longleftrightarrow> row ! j = row ! i"
        using x look by (auto simp: t simp del: first_positions.simps)
      then show ?thesis by (simp add: rep e del: eval_pred.simps first_positions.simps)
    qed
  next
    case False
    then have "repeated = []" using rs by (cases t) (auto simp: step_def)
    with False show ?thesis by auto
  qed
  have const: "(\<forall>f \<in> set (case c of Some v \<Rightarrow> [ECompare (EColumn i) CmpEq (EConst v)] | None \<Rightarrow> []).
        eval_pred E ts row f \<noteq> None)
      \<and> ((\<forall>f \<in> set (case c of Some v \<Rightarrow> [ECompare (EColumn i) CmpEq (EConst v)] | None \<Rightarrow> []).
            eval_pred E ts row f = Some True)
         \<longleftrightarrow> (\<forall>c. term_to_typed_const_value (low_scalars env) t (ts ! i) = Inr (Some c) \<longrightarrow> row ! i = const_column E c))"
  proof (cases c)
    case (Some v)
    then have "const_type v = ts ! i" using c typed_const_type i by blast
    with eval_equal_constant [OF assms "2.prems"(2) i(1), of v] Some c i show ?thesis
      by (simp del: eval_pred.simps)
  qed (use c i in simp)
  have split: "(\<forall>k < length (t # rest). P (i + k) ((t # rest) ! k)) \<longleftrightarrow>
      P i t \<and> (\<forall>k < length rest. P (Suc i + k) (rest ! k))" for P
    by (simp add: All_less_Suc2)
  show ?case
    unfolding split fs set_append ball_Un leaf_holds_def [of E "low_scalars env" ts row ?fs i t]
    using IH rep const by blast
qed simp

lemma leaf_holds_all:
  assumes "length ts = length tms"
  shows "(\<forall>k < length tms. leaf_holds E env ts row (first_positions 0 tms []) k (tms ! k))
    \<longleftrightarrow> agree tms row \<and> constants_fit E env ts tms row"
proof -
  have first: "the (map_of (first_positions 0 tms []) x) = first_index x tms" if "tms ! k = Variable x" "x \<noteq> ''_''" "k < length tms" for k x
  proof -
    from that have "Variable x \<in> set tms" by (metis nth_mem)
    with that show ?thesis by (simp add: first_positions_lookup)
  qed
  show ?thesis unfolding leaf_holds_def agree_def constants_fit_def by (auto simp: first)
qed


section \<open>Rows of a conjunction\<close>

definition atom_rows :: "'v engine \<Rightarrow> scalar_env \<Rightarrow> schema_table \<Rightarrow> (string \<Rightarrow> 'v buffer) \<Rightarrow> atom \<Rightarrow> 'v list list" where
  "atom_rows E env schemas db a =
     filter (constants_fit E env (atom_schema schemas a) (terms a)) (brows (db (predicate a)))"

fun body_rows :: "(atom \<Rightarrow> 'v list list) \<Rightarrow> atom list \<Rightarrow> 'v list list" where
  "body_rows f [] = [[]]"
| "body_rows f (a # as) = concat (map (\<lambda>x. map ((@) x) (body_rows f as)) (f a))"

abbreviation body_terms :: "atom list \<Rightarrow> ast_term list" where
  "body_terms as \<equiv> concat (map terms as)"

abbreviation body_schema :: "schema_table \<Rightarrow> atom list \<Rightarrow> scalar_type list" where
  "body_schema schemas as \<equiv> concat (map (atom_schema schemas) as)"

definition join_rows :: "(atom \<Rightarrow> 'v list list) \<Rightarrow> atom list \<Rightarrow> 'v list list" where
  "join_rows f as = filter (agree (body_terms as)) (body_rows f as)"

lemma body_rows_append:
  "body_rows f (as @ bs) = concat (map (\<lambda>x. map ((@) x) (body_rows f bs)) (body_rows f as))"
proof (induction as)
  case (Cons a as)
  have "map ((@) x) (concat (map (\<lambda>y. map ((@) y) zs) ys)) = concat (map (\<lambda>y. map ((@) y) zs) (map ((@) x) ys))"
    for x :: "'a list" and ys zs by (induction ys) simp_all
  moreover have "concat (map (\<lambda>x. concat (map (h x) ys)) xs) = concat (concat (map (\<lambda>x. map (h x) ys) xs))"
    for h :: "'a list \<Rightarrow> 'a list \<Rightarrow> 'a list list" and xs ys by (induction xs) simp_all
  ultimately show ?case by (simp add: Cons.IH map_concat comp_def)
qed (simp add: map_idI)

lemma body_rows_single: "body_rows f [a] = f a"
  by (simp add: comp_def)

lemma product_filter:
  "(\<And>x y. x \<in> set X \<Longrightarrow> y \<in> set Y \<Longrightarrow> P (x @ y) \<longleftrightarrow> A x \<and> B y \<and> M x y)
   \<Longrightarrow> filter P (concat (map (\<lambda>x. map ((@) x) Y) X))
     = concat (map (\<lambda>x. map ((@) x) (filter (M x) (filter B Y))) (filter A X))"
proof (induction X)
  case (Cons x X)
  have "filter P (map ((@) x) Y) = (if A x then map ((@) x) (filter (M x) (filter B Y)) else [])"
    using Cons.prems [of x] by (auto simp: filter_map comp_def filter_empty_conv conj_commute cong: filter_cong)
  with Cons show ?case by simp
qed simp

lemma body_rows_typed:
  assumes "\<And>a. a \<in> set as \<Longrightarrow> \<forall>row \<in> set (f a). row_typed E (g a) row" and "row \<in> set (body_rows f as)"
  shows "row_typed E (concat (map g as)) row"
  using assms
proof (induction as arbitrary: row)
  case (Cons a as)
  then obtain x y where "row = x @ y" "x \<in> set (f a)" "y \<in> set (body_rows f as)" by auto
  with Cons show ?case by (fastforce simp: row_typed_def)
qed (simp add: row_typed_def)

lemma body_schema_variable:
  assumes "\<forall>a \<in> set as. atom_ready E st db store tys a"
    and "i < length (body_terms as)" "body_terms as ! i = Variable x" "x \<noteq> ''_''"
  shows "tys x = Some (body_schema (low_schemas st) as ! i)"
  using assms
proof (induction as arbitrary: i)
  case (Cons a as)
  have len: "length (atom_schema (low_schemas st) a) = length (terms a)"
    using Cons.prems(1) by (auto simp: atom_ready_def)
  show ?case
  proof (cases "i < length (terms a)")
    case True
    with Cons.prems len show ?thesis by (auto simp: atom_ready_def nth_append)
  next
    case False
    with Cons.prems len Cons.IH [of "i - length (terms a)"] show ?thesis by (simp add: nth_append)
  qed
qed simp

lemma body_schema_length:
  "\<forall>a \<in> set as. atom_ready E st db store tys a \<Longrightarrow> length (body_schema (low_schemas st) as) = length (body_terms as)"
  by (induction as) (auto simp: atom_ready_def)

lemma join_rows_typed:
  assumes "\<forall>a \<in> set as. atom_ready E st db store tys a"
    and "row \<in> set (join_rows (atom_rows E env (low_schemas st) db) as)"
  shows "row_typed E (body_schema (low_schemas st) as) row"
  by (rule body_rows_typed [where f = "atom_rows E env (low_schemas st) db"])
    (use assms in \<open>auto simp: join_rows_def atom_rows_def atom_ready_def buffer_typed_def\<close>)

lemma atom_rows_typed:
  "atom_ready E st db store tys a \<Longrightarrow> row \<in> set (atom_rows E env (low_schemas st) db a)
   \<Longrightarrow> row_typed E (atom_schema (low_schemas st) a) row"
  by (auto simp: atom_rows_def atom_ready_def buffer_typed_def)

text \<open>A filtered scan gives the rows that fit one atom.\<close>

lemma leaf_rows:
  assumes "typed_engine E" "equality_faithful E" and ready: "atom_ready E st db store tys a"
    and "map_of (rel_ids st) (predicate a) = Some rel"
    and filters: "apply_constant_filters env st (ScanNode rel) a = Inr node"
  shows "execute_node E store node =
    Some \<lparr>btypes = atom_schema (low_schemas st) a, brows = join_rows (atom_rows E (low_scalars env) (low_schemas st) db) [a]\<rparr>"
proof -
  let ?ts = "atom_schema (low_schemas st) a"
  let ?rows = "brows (db (predicate a))"
  let ?fits = "\<lambda>row. agree (terms a) row \<and> constants_fit E (low_scalars env) ?ts (terms a) row"
  have schema: "low_schemas st (predicate a) = Some ?ts" and len: "length ?ts = length (terms a)"
    and typed: "buffer_typed E ?ts (db (predicate a))" and store: "store rel = Some (db (predicate a))"
    using ready assms(4) by (auto simp: atom_ready_def)
  obtain fs where fs: "atom_filters env (predicate a) ?ts 0 [] (terms a) = Inr fs"
    and node: "node = (if fs = [] then ScanNode rel else FilterNode (ScanNode rel) (if length fs = 1 then hd fs else EAnd fs))"
    using filters schema by (auto simp: apply_constant_filters_def map_res_Inr_iff)
  have holds: "(\<forall>f \<in> set fs. eval_pred E ts row f \<noteq> None) \<and> ((\<forall>f \<in> set fs. eval_pred E ts row f = Some True) \<longleftrightarrow> ?fits row)"
    if "row \<in> set ?rows" "ts = ?ts" for row ts
    unfolding that(2) leaf_holds_all [OF len, symmetric]
    using atom_filters_hold [OF assms(1,2) fs, of row tys] that ready typed
    by (simp add: buffer_typed_def atom_ready_def)
  have rows: "join_rows (atom_rows E (low_scalars env) (low_schemas st) db) [a] = filter ?fits ?rows"
    by (simp add: join_rows_def body_rows_single atom_rows_def conj_commute del: body_rows.simps)
  have bt: "btypes (db (predicate a)) = ?ts" using typed by (simp add: buffer_typed_def)
  show ?thesis
  proof (cases "fs = []")
    case True
    then have "filter ?fits ?rows = ?rows" using holds by (auto intro!: filter_True)
    with True show ?thesis by (simp add: node store rows bt [symmetric])
  next
    case False
    have conjoin: "(if length fs = 1 then hd fs else EAnd fs) = conjoin fs"
      using False by (cases fs) (auto simp: conjoin_def split: list.splits)
    have fits: "eval_pred E ?ts row (conjoin fs) = Some (?fits row)" if "row \<in> set ?rows" for row
      unfolding eval_conjoin using holds [OF that refl] by simp
    have "filter_rows (\<lambda>row. eval_pred E ?ts row (conjoin fs)) ?rows
        = Some (filter (\<lambda>row. eval_pred E ?ts row (conjoin fs) = Some True) ?rows)"
      by (rule filter_rows_total) (simp add: fits)
    also have "filter (\<lambda>row. eval_pred E ?ts row (conjoin fs) = Some True) ?rows = filter ?fits ?rows"
      by (rule filter_cong) (simp_all add: fits)
    finally have run: "filter_rows (\<lambda>row. eval_pred E ?ts row (conjoin fs)) ?rows = Some (filter ?fits ?rows)" .
    have "node = FilterNode (ScanNode rel) (conjoin fs)" using False by (simp only: node conjoin if_False)
    then show ?thesis using run
      by (simp add: store execute_filter_def bt rows del: eval_pred.simps)
  qed
qed


section \<open>Projections\<close>

lemma each_row_append: "each_row f (xs @ ys) = Option.bind (each_row f xs) (\<lambda>as. map_option ((@) as) (each_row f ys))"
proof (induction xs)
  case Nil
  show ?case by (cases "each_row f ys") simp_all
next
  case (Cons x xs)
  then show ?case by (cases "f x"; cases "each_row f xs"; cases "each_row f ys") simp_all
qed

lemma each_row_eq_map: "(\<And>x. x \<in> set xs \<Longrightarrow> f x = Some (g x)) \<Longrightarrow> each_row f xs = Some (map g xs)"
  by (induction xs) auto

lemma project_pcolumns:
  "\<forall>k \<in> set ks. k < length row \<Longrightarrow> each_row (project_value E ts row) (map PColumn ks) = Some (map ((!) row) ks)"
  by (simp add: each_row_map each_row_eq_map project_value_def get_def)

lemma schema_pcolumns:
  "\<forall>k \<in> set ks. k < length ts \<Longrightarrow> each_row (project_type ts) (map PColumn ks) = Some (map ((!) ts) ks)"
  by (simp add: each_row_map each_row_eq_map project_type_def get_def)

text \<open>Keeping all columns and appending a computed one.\<close>

lemma project_extend:
  assumes "btypes b = ts" "\<forall>row \<in> set (brows b). length row = length ts"
    and "\<And>row. row \<in> set (brows b) \<Longrightarrow> eval_arith E ts row e = Some (v row)"
  shows "execute_project E b (map PColumn [0..<length ts] @ [Computed e t])
    = Some \<lparr>btypes = ts @ [t], brows = map (\<lambda>row. row @ [v row]) (brows b)\<rparr>"
proof -
  have schema: "project_schema ts (map PColumn [0..<length ts] @ [Computed e t]) = Some (ts @ [t])"
    by (simp add: project_schema_def each_row_append schema_pcolumns map_nth project_type_def)
  have "each_row (project_value E ts row) (map PColumn [0..<length ts] @ [Computed e t]) = Some (row @ [v row])"
    if "row \<in> set (brows b)" for row
  proof -
    have "map ((!) row) [0..<length ts] = row" using assms(2) that map_nth by metis
    then show ?thesis using assms(2) that assms(3) [OF that]
      by (simp add: each_row_append project_pcolumns project_value_def)
  qed
  then have "each_row (\<lambda>row. each_row (project_value E ts row) (map PColumn [0..<length ts] @ [Computed e t])) (brows b)
      = Some (map (\<lambda>row. row @ [v row]) (brows b))"
    by (rule each_row_eq_map)
  then show ?thesis by (simp add: execute_project_def assms(1) schema)
qed

lemma project_columns:
  assumes "btypes b = ts" "\<forall>row \<in> set (brows b). length row = length ts" "\<forall>k \<in> set ks. k < length ts"
  shows "execute_project E b (map PColumn ks) = Some \<lparr>btypes = map ((!) ts) ks, brows = map (keys_of ks) (brows b)\<rparr>"
proof -
  have "each_row (\<lambda>row. each_row (project_value E ts row) (map PColumn ks)) (brows b) = Some (map (keys_of ks) (brows b))"
    by (rule each_row_eq_map) (use assms in \<open>simp add: project_pcolumns keys_of_def\<close>)
  then show ?thesis using assms by (simp add: execute_project_def project_schema_def schema_pcolumns)
qed

section \<open>Joins\<close>

lemma execute_inner_join:
  assumes "join_keys_valid l r lk rk"
  shows "execute_join E l r lk rk InnerJoin = Some \<lparr>btypes = btypes l @ btypes r,
    brows = concat (map (\<lambda>x. map ((@) x) (filter (\<lambda>y. keys_of lk x = keys_of rk y) (brows r))) (brows l))\<rparr>"
proof -
  have "concat (map (\<lambda>x. map ((@) x) (filter (\<lambda>y. keys_of lk x = keys_of rk y) (brows r))) (brows l)) = []"
    if "brows l = [] \<or> brows r = []" using that by auto
  then show ?thesis using assms by (auto simp: execute_join_def)
qed

lemma keys_of_pairs:
  "keys_of (map fst kp) x = keys_of (map snd kp) y \<longleftrightarrow> (\<forall>(i, j) \<in> set kp. x ! i = y ! j)"
  by (auto simp: keys_of_def)

lemma cartesian_rows:
  assumes "execute_node E store l = Some bl" "execute_node E store r = Some br"
    and "\<forall>x \<in> set (brows bl). length x = length (btypes bl)" "\<forall>y \<in> set (brows br). length y = length (btypes br)"
    and "wl = length (btypes bl)" "wr = length (btypes br)"
  shows "execute_node E store (build_cartesian_join l r wl wr)
    = Some \<lparr>btypes = btypes bl @ btypes br, brows = concat (map (\<lambda>x. map ((@) x) (brows br)) (brows bl))\<rparr>"
proof -
  let ?k = "const_column E (CvU32 0)"
  let ?bl = "\<lparr>btypes = btypes bl @ [TyU32], brows = map (\<lambda>x. x @ [?k]) (brows bl)\<rparr>"
  let ?br = "\<lparr>btypes = btypes br @ [TyU32], brows = map (\<lambda>x. x @ [?k]) (brows br)\<rparr>"
  let ?joined = "\<lparr>btypes = btypes ?bl @ btypes ?br,
    brows = concat (map (\<lambda>x. map (\<lambda>y. (x @ [?k]) @ y @ [?k]) (brows br)) (brows bl))\<rparr>"
  let ?keep = "[0..<wl] @ [wl + 1..<wl + 1 + wr]"
  have left: "execute_project E bl (map PColumn [0..<wl] @ [const_key]) = Some ?bl"
    unfolding const_key_def assms(5) by (rule project_extend) (use assms in simp_all)
  have right: "execute_project E br (map PColumn [0..<wr] @ [const_key]) = Some ?br"
    unfolding const_key_def assms(6) by (rule project_extend) (use assms in simp_all)
  have valid: "join_keys_valid ?bl ?br [wl] [wr]"
    using assms(5,6) by (simp add: join_keys_valid_def get_def)
  have all: "filter (\<lambda>y. keys_of [wl] (x @ [?k]) = keys_of [wr] y) (map (\<lambda>x. x @ [?k]) (brows br)) = map (\<lambda>x. x @ [?k]) (brows br)"
    if "x \<in> set (brows bl)" for x
    using assms(3-6) that by (auto simp: keys_of_def nth_append intro!: filter_True)
  have "concat (map (\<lambda>x. map ((@) x) (filter (\<lambda>y. keys_of [wl] x = keys_of [wr] y) (brows ?br))) (brows ?bl)) = brows ?joined"
    by (simp add: comp_def all cong: map_cong)
  then have join: "execute_join E ?bl ?br [wl] [wr] InnerJoin = Some ?joined"
    using execute_inner_join [OF valid] by simp
  have segment: "[wl + 1..<wl + 1 + wr] = map (\<lambda>i. wl + 1 + i) [0..<wr]"
    by (rule nth_equalityI) (simp_all del: upt_Suc)
  have part: "map ((!) (u @ [c] @ v)) ?keep = u @ v'"
    if "length u = wl" "length v' = wr" "v = v' @ w" for u v v' w :: "'x list" and c
    using that unfolding segment by (intro nth_equalityI) (auto simp: nth_append comp_def)
  have pick: "keys_of ?keep ((x @ [?k]) @ y @ [?k]) = x @ y"
    if "x \<in> set (brows bl)" "y \<in> set (brows br)" for x y
    using part [of x y "y @ [?k]" "[?k]" ?k] assms(3-6) that by (simp add: keys_of_def del: upt_Suc)
  have types: "map ((!) (btypes ?joined)) ?keep = btypes bl @ btypes br"
    using part [of "btypes bl" "btypes br" "btypes br @ [TyU32]" "[TyU32]" TyU32] assms(5,6) by (simp del: upt_Suc)
  define keep where "keep = ?keep"
  note pick' = pick [folded keep_def] and types' = types [folded keep_def]
  have "\<forall>k \<in> set keep. k < length (btypes ?joined)" using assms(5,6) by (auto simp: keep_def)
  then have "execute_project E ?joined (map PColumn keep)
      = Some \<lparr>btypes = map ((!) (btypes ?joined)) keep, brows = map (keys_of keep) (brows ?joined)\<rparr>"
    by (intro project_columns) (use assms(3-6) in auto)
  moreover have "map (keys_of keep) (brows ?joined) = concat (map (\<lambda>x. map ((@) x) (brows br)) (brows bl))"
    by (auto simp: map_concat comp_def pick' simp del: append_assoc intro!: arg_cong [where f = concat])
  moreover have "map PColumn [0..<wl] @ map PColumn [wl + 1..<wl + 1 + wr] = map PColumn keep"
    by (simp add: keep_def del: upt_Suc)
  ultimately show ?thesis
    using left right join types' assms(1,2) unfolding build_cartesian_join_def by (simp del: upt_Suc)
qed


section \<open>Plans\<close>

text \<open>\<open>f\<close> gives the rows of an atom, \<open>ids\<close> the positions of the atoms a plan covers.\<close>

definition plan_sound ::
    "'v engine \<Rightarrow> schema_table \<Rightarrow> (rel_id \<Rightarrow> 'v buffer option) \<Rightarrow> (atom \<Rightarrow> 'v list list) \<Rightarrow> atom list \<Rightarrow> nat set
     \<Rightarrow> join_plan \<Rightarrow> bool" where
  "plan_sound E schemas store f atoms ids p \<longleftrightarrow>
     leaf_order p = map ((!) atoms) (leaf_order_idx p) \<and> distinct (leaf_order_idx p)
     \<and> set (leaf_order_idx p) = ids \<and> ids \<subseteq> {..<length atoms}
     \<and> jp_width p = length (body_terms (leaf_order p))
     \<and> var_pos p = first_positions 0 (body_terms (leaf_order p)) []
     \<and> execute_node E store (jp_node p)
         = Some \<lparr>btypes = body_schema schemas (leaf_order p), brows = join_rows f (leaf_order p)\<rparr>"

lemma plan_sound_leaves: "plan_sound E schemas store f atoms ids p \<Longrightarrow> set (leaf_order p) \<subseteq> set atoms"
  by (auto simp: plan_sound_def)

lemma shared_vars_iff:
  assumes "var_pos p = first_positions 0 ts []" "var_pos q = first_positions 0 us []"
  shows "v \<in> set (shared_vars p q) \<longleftrightarrow> v \<noteq> ''_'' \<and> Variable v \<in> set ts \<and> Variable v \<in> set us"
proof -
  have "v \<in> fst ` set (first_positions 0 ts []) \<longleftrightarrow> v \<noteq> ''_'' \<and> Variable v \<in> set ts"
    using first_positions_lookup [of 0 ts "[]" v] map_of_eq_None_iff [of "first_positions 0 ts []" v]
    by (auto split: if_splits)
  then show ?thesis
    by (auto simp: shared_vars_def assms first_positions_lookup)
qed

lemma position_lookup:
  assumes "v \<noteq> ''_''" "Variable v \<in> set ts"
  shows "the (map_of (first_positions 0 ts []) v) = first_index v ts"
  using assms by (simp add: first_positions_lookup)

lemma join_plans_sound:
  fixes f :: "atom \<Rightarrow> 'v list list"
  assumes ready: "\<forall>a \<in> set atoms. atom_ready E st db store tys a"
    and f: "f = atom_rows E (low_scalars env) (low_schemas st) db"
    and p: "plan_sound E (low_schemas st) store f atoms ids p"
    and q: "plan_sound E (low_schemas st) store f atoms ids' q" and disjoint: "ids \<inter> ids' = {}"
  shows "plan_sound E (low_schemas st) store f atoms (ids \<union> ids') (join_plans env p q)"
proof -
  let ?as = "leaf_order p" and ?bs = "leaf_order q"
  let ?ts = "body_terms ?as" and ?us = "body_terms ?bs"
  let ?schema = "body_schema (low_schemas st)"
  have ready_as: "\<forall>a \<in> set ?as. atom_ready E st db store tys a" and ready_bs: "\<forall>a \<in> set ?bs. atom_ready E st db store tys a"
    using ready plan_sound_leaves [OF p] plan_sound_leaves [OF q] by auto
  have lens: "length (?schema ?as) = length ?ts" "length (?schema ?bs) = length ?us"
    using body_schema_length ready_as ready_bs by metis+
  have typed_x: "row_typed E (?schema ?as) x" if "x \<in> set (body_rows f ?as)" for x
    using that ready_as by (intro body_rows_typed) (auto simp: f intro: atom_rows_typed)
  have typed_y: "row_typed E (?schema ?bs) y" if "y \<in> set (body_rows f ?bs)" for y
    using that ready_bs by (intro body_rows_typed) (auto simp: f intro: atom_rows_typed)
  have len_x: "length x = length ?ts" if "x \<in> set (body_rows f ?as)" for x
    using row_typed_length [OF typed_x [OF that]] lens by simp
  have len_y: "length y = length ?us" if "y \<in> set (body_rows f ?bs)" for y
    using row_typed_length [OF typed_y [OF that]] lens by simp
  have vp: "var_pos p = first_positions 0 ?ts []" "var_pos q = first_positions 0 ?us []"
    and widths: "jp_width p = length ?ts" "jp_width q = length ?us"
    and run_p: "execute_node E store (jp_node p) = Some \<lparr>btypes = ?schema ?as, brows = join_rows f ?as\<rparr>"
    and run_q: "execute_node E store (jp_node q) = Some \<lparr>btypes = ?schema ?bs, brows = join_rows f ?bs\<rparr>"
    using p q by (simp_all add: plan_sound_def)
  note shared = shared_vars_iff [OF vp]
  let ?match = "\<lambda>x y. \<forall>v. v \<noteq> ''_'' \<and> Variable v \<in> set ?ts \<and> Variable v \<in> set ?us
    \<longrightarrow> x ! first_index v ?ts = y ! first_index v ?us"
  have rows: "join_rows f (?as @ ?bs)
      = concat (map (\<lambda>x. map ((@) x) (filter (?match x) (join_rows f ?bs))) (join_rows f ?as))"
    unfolding join_rows_def body_rows_append map_append concat_append
    by (rule product_filter) (simp add: agree_append len_x len_y)
  have run: "execute_node E store (join_node p q)
      = Some \<lparr>btypes = ?schema (?as @ ?bs), brows = join_rows f (?as @ ?bs)\<rparr>"
  proof (cases "shared_vars p q = []")
    case True
    then have none: "\<not> (v \<noteq> ''_'' \<and> Variable v \<in> set ?ts \<and> Variable v \<in> set ?us)" for v
      unfolding shared [symmetric] by simp
    have "filter (?match x) zs = zs" for x :: "'v list" and zs
      by (rule filter_True) (use none in blast)
    then have "join_rows f (?as @ ?bs) = concat (map (\<lambda>x. map ((@) x) (join_rows f ?bs)) (join_rows f ?as))"
      unfolding rows by (simp only:)
    moreover have "execute_node E store (build_cartesian_join (jp_node p) (jp_node q) (jp_width p) (jp_width q))
        = Some \<lparr>btypes = ?schema ?as @ ?schema ?bs, brows = concat (map (\<lambda>x. map ((@) x) (join_rows f ?bs)) (join_rows f ?as))\<rparr>"
      using cartesian_rows [OF run_p run_q, of "jp_width p" "jp_width q"] lens widths len_x len_y
      by (simp add: join_rows_def)
    ultimately show ?thesis by (simp add: join_node_def True)
  next
    case False
    define kp where "kp = sort (map (\<lambda>v. (the (map_of (var_pos p) v), the (map_of (var_pos q) v))) (shared_vars p q))"
    have node: "join_node p q = JoinNode (jp_node p) (jp_node q) (map fst kp) (map snd kp) InnerJoin"
      by (simp add: join_node_def False kp_def Let_def)
    have kp: "set kp = {(first_index v ?ts, first_index v ?us) | v. v \<noteq> ''_'' \<and> Variable v \<in> set ?ts \<and> Variable v \<in> set ?us}"
    proof -
      have "map (\<lambda>v. (the (map_of (var_pos p) v), the (map_of (var_pos q) v))) (shared_vars p q)
          = map (\<lambda>v. (first_index v ?ts, first_index v ?us)) (shared_vars p q)"
      proof (rule map_cong [OF refl])
        fix v assume "v \<in> set (shared_vars p q)"
        then have v: "v \<noteq> ''_''" "Variable v \<in> set ?ts" "Variable v \<in> set ?us" using shared by blast+
        show "(the (map_of (var_pos p) v), the (map_of (var_pos q) v)) = (first_index v ?ts, first_index v ?us)"
          unfolding vp position_lookup [OF v(1,2)] position_lookup [OF v(1,3)] ..
      qed
      then have "set kp = {(first_index v ?ts, first_index v ?us) | v. v \<in> set (shared_vars p q)}"
        by (auto simp: kp_def)
      then show ?thesis unfolding shared .
    qed
    have match: "(\<lambda>y. keys_of (map fst kp) x = keys_of (map snd kp) y) = ?match x" for x :: "'v list"
      by (rule ext) (auto simp: keys_of_pairs kp)
    have key: "i < length (?schema ?as) \<and> j < length (?schema ?bs) \<and> ?schema ?as ! i = ?schema ?bs ! j"
      if kp_mem: "(i, j) \<in> set kp" for i j
    proof -
      from kp_mem obtain v where v: "v \<noteq> ''_''" "Variable v \<in> set ?ts" "Variable v \<in> set ?us"
        and ij: "i = first_index v ?ts" "j = first_index v ?us" by (auto simp: kp)
      have "tys v = Some (?schema ?as ! i)"
        using body_schema_variable [OF ready_as, of i v] first_index_lookup [OF v(2)] v ij by auto
      moreover have "tys v = Some (?schema ?bs ! j)"
        using body_schema_variable [OF ready_bs, of j v] first_index_lookup [OF v(3)] v ij by auto
      ultimately show ?thesis using first_index_lookup v ij lens by simp
    qed
    have "length kp = length (shared_vars p q)" by (simp add: kp_def)
    then have "kp \<noteq> []" using False by auto
    moreover have "list_all2 (\<lambda>i j. get (?schema ?as) i \<noteq> None \<and> get (?schema ?as) i = get (?schema ?bs) j) (map fst kp) (map snd kp)"
    proof (rule list_all2_all_nthI)
      fix n assume n: "n < length (map fst kp)"
      then have "(fst (kp ! n), snd (kp ! n)) \<in> set kp" by simp
      from key [OF this] n show "get (?schema ?as) (map fst kp ! n) \<noteq> None
          \<and> get (?schema ?as) (map fst kp ! n) = get (?schema ?bs) (map snd kp ! n)"
        by (simp add: get_def)
    qed simp
    ultimately have valid: "join_keys_valid \<lparr>btypes = ?schema ?as, brows = join_rows f ?as\<rparr>
        \<lparr>btypes = ?schema ?bs, brows = join_rows f ?bs\<rparr> (map fst kp) (map snd kp)"
      by (simp add: join_keys_valid_def)
    show ?thesis unfolding node
      by (simp add: run_p run_q execute_inner_join [OF valid] match rows)
  qed
  show ?thesis unfolding plan_sound_def
  proof (intro conjI)
    show "execute_node E store (jp_node (join_plans env p q))
        = Some \<lparr>btypes = ?schema (leaf_order (join_plans env p q)), brows = join_rows f (leaf_order (join_plans env p q))\<rparr>"
      using run by (simp add: join_plans_def Let_def)
    show "var_pos (join_plans env p q) = first_positions 0 (body_terms (leaf_order (join_plans env p q))) []"
      by (simp add: join_plans_def Let_def first_positions_join vp widths)
    show "jp_width (join_plans env p q) = length (body_terms (leaf_order (join_plans env p q)))"
      by (simp add: join_plans_def Let_def widths)
  qed (use p q disjoint in \<open>auto simp: join_plans_def Let_def plan_sound_def\<close>)
qed

end
