(* ===== verification/Plan_Correct.thy ===== *)
theory Plan_Correct
  imports Join_Correct
begin

text \<open>
  The searches over join trees keep every plan sound: the table of the dynamic program has a plan for
  every nonempty set of atoms when the loop has passed it, so the fallback order is never needed, and the
  greedy search joins plans of disjoint sets until one is left.
\<close>

section \<open>Masks\<close>

definition mask_atoms :: "nat \<Rightarrow> nat set" where
  "mask_atoms m = {i. bit m i}"

lemma mask_atoms_power: "mask_atoms (2 ^ i) = {i}"
  by (auto simp: mask_atoms_def bit_exp_iff)

lemma mask_atoms_bound: "m < 2 ^ n \<Longrightarrow> mask_atoms m \<subseteq> {..<n}"
proof
  fix i assume "m < 2 ^ n" "i \<in> mask_atoms m"
  then have "bit (take_bit n m) i" by (simp add: mask_atoms_def take_bit_nat_eq_self)
  then show "i \<in> {..<n}" by (simp add: bit_take_bit_iff)
qed

lemma mask_atoms_full: "mask_atoms (2 ^ n - 1) = {..<n}"
proof -
  have "(2 ^ n - 1 :: nat) = mask n" by (simp add: mask_eq_exp_minus_1)
  then show ?thesis by (auto simp: mask_atoms_def bit_mask_iff)
qed

lemma submask_split:
  assumes "sub AND m = (sub :: nat)"
  shows "mask_atoms sub \<inter> mask_atoms (m XOR sub) = {}" and "mask_atoms sub \<union> mask_atoms (m XOR sub) = mask_atoms m"
    and "m = sub + (m XOR sub)"
proof -
  have "bit sub i \<Longrightarrow> bit m i" for i using assms by (metis bit_and_iff)
  then show "mask_atoms sub \<inter> mask_atoms (m XOR sub) = {}" "mask_atoms sub \<union> mask_atoms (m XOR sub) = mask_atoms m"
    by (auto simp: mask_atoms_def bit_xor_iff)
  have disjoint: "sub AND (m XOR sub) = 0"
    by (rule bit_eqI) (use \<open>\<And>i. bit sub i \<Longrightarrow> bit m i\<close> in \<open>auto simp: bit_and_iff bit_xor_iff\<close>)
  have "sub OR (m XOR sub) = m"
    by (rule bit_eqI) (use \<open>\<And>i. bit sub i \<Longrightarrow> bit m i\<close> in \<open>auto simp: bit_or_iff bit_xor_iff\<close>)
  then show "m = sub + (m XOR sub)" using disjoint by (simp add: disjunctive_add_eq_or)
qed

lemma single_bit_power: "0 < m \<Longrightarrow> single_bit m \<Longrightarrow> \<exists>i. m = 2 ^ i"
proof (induction m rule: less_induct)
  case (less m)
  have "drop_bit 1 (m AND (m - 1)) = 0" using less.prems(2) by (simp add: single_bit_def)
  then have halves: "(m div 2) AND ((m - 1) div 2) = 0" by (simp add: drop_bit_and drop_bit_Suc)
  show ?case
  proof (cases "even m")
    case True
    then obtain k where k: "m = 2 * k" by blast
    have "(m - 1) div 2 = k - 1" using k by linarith
    with halves k have "single_bit k" by (simp add: single_bit_def)
    with less.IH [of k] less.prems(1) k obtain i where "k = 2 ^ i" by auto
    then show ?thesis using k by (metis power_Suc)
  next
    case False
    then obtain k where k: "m = 2 * k + 1" using oddE by blast
    with halves have "k = 0" by simp
    then show ?thesis using k by (auto intro: exI [of _ 0])
  qed
qed

section \<open>Leaves\<close>

lemma known_rel_id: "map_of (rel_ids st) name = Some rel \<Longrightarrow> get_or_create_rel_id name st = (rel, st)"
  by (simp add: get_or_create_rel_id_def)

lemma make_leaf_plan_sound:
  assumes "typed_engine E" "equality_faithful E" and ready: "atom_ready E st db store tys a"
    and leaf: "make_leaf_plan env a i st = Inr (p, st')" and i: "i < length atoms" "atoms ! i = a"
  shows "st' = st \<and> plan_sound E (low_schemas st) store (atom_rows E (low_scalars env) (low_schemas st) db) atoms {i} p"
proof -
  obtain rel where rel: "map_of (rel_ids st) (predicate a) = Some rel" using ready by (auto simp: atom_ready_def)
  obtain node where node: "apply_constant_filters env st (ScanNode rel) a = Inr node"
    and p: "p = \<lparr>jp_node = node, leaf_order = [a], leaf_order_idx = [i], var_pos = first_positions 0 (terms a) [],
             jp_width = length (terms a), est_rows = estimate_atom_rows env st a, total_cost = estimate_atom_rows env st a\<rparr>"
    and st': "st' = st"
    using leaf by (auto simp: make_leaf_plan_def known_rel_id [OF rel] map_res_Inr_iff Let_def)
  show ?thesis using leaf_rows [OF assms(1,2) ready rel node] i by (simp add: p st' plan_sound_def)
qed

lemma leaf_plans_sound:
  assumes "typed_engine E" "equality_faithful E" and ready: "\<forall>a \<in> set atoms. atom_ready E st db store tys a"
  shows "leaf_plans env i as st = Inr (ps, st') \<Longrightarrow> drop i atoms = as \<Longrightarrow> i \<le> length atoms
    \<Longrightarrow> st' = st \<and> length ps = length as
      \<and> (\<forall>k < length ps. plan_sound E (low_schemas st) store (atom_rows E (low_scalars env) (low_schemas st) db) atoms {i + k} (ps ! k))"
proof (induction as arbitrary: i ps st')
  case (Cons a as)
  have i: "i < length atoms" "atoms ! i = a" "drop (Suc i) atoms = as"
    using Cons.prems(2) by (metis drop_eq_Nil leI list.distinct(1), metis drop_eq_Nil hd_drop_conv_nth leI list.distinct(1) list.sel(1),
      metis drop_Suc list.sel(3) tl_drop)
  obtain p st1 ps' where p: "make_leaf_plan env a i st = Inr (p, st1)" and rest: "leaf_plans env (Suc i) as st1 = Inr (ps', st')"
    and ps: "ps = p # ps'"
    using Cons.prems(1) by (auto simp: bind_res_Inr_iff map_res_Inr_iff)
  have "atom_ready E st db store tys a" using ready i by auto
  note leaf = make_leaf_plan_sound [OF assms(1,2) this p i(1,2)]
  with Cons.IH [of "Suc i" ps' st'] rest i
  have "st' = st \<and> length ps' = length as
      \<and> (\<forall>k < length ps'. plan_sound E (low_schemas st) store (atom_rows E (low_scalars env) (low_schemas st) db) atoms {Suc i + k} (ps' ! k))"
    by simp
  then show ?case using leaf unfolding ps by (simp add: All_less_Suc2)
qed simp

section \<open>The table\<close>

lemma indexed_snoc: "indexed (xs @ [x]) = indexed xs @ [(length xs, x)]"
  by (simp add: indexed_def)

lemma fill_leaves:
  assumes "2 ^ length ps \<le> length tbl" and "m < length tbl"
  shows "length (fold (\<lambda>(i, p) best. best[2 ^ i := Some p]) (indexed ps) tbl) = length tbl
    \<and> fold (\<lambda>(i, p) best. best[2 ^ i := Some p]) (indexed ps) tbl ! m
      = (if \<exists>i < length ps. m = 2 ^ i then Some (ps ! (THE i. m = 2 ^ i)) else tbl ! m)"
  using assms
proof (induction ps rule: rev_induct)
  case (snoc p ps)
  let ?tbl = "fold (\<lambda>(i, p) best. best[2 ^ i := Some p]) (indexed ps) tbl"
  have IH: "length ?tbl = length tbl"
      "?tbl ! m = (if \<exists>i < length ps. m = 2 ^ i then Some (ps ! (THE i. m = 2 ^ i)) else tbl ! m)"
    using snoc by auto
  have the: "(THE i. (2 :: nat) ^ k = 2 ^ i) = k" for k by (rule the_equality) simp_all
  show ?case
  proof (cases "m = 2 ^ length ps")
    case True
    then show ?thesis using IH(1) snoc.prems by (auto simp: indexed_snoc the nth_append)
  next
    case False
    then have "(\<exists>i < length (ps @ [p]). m = 2 ^ i) \<longleftrightarrow> (\<exists>i < length ps. m = 2 ^ i)" by (auto simp: less_Suc_eq)
    with False IH show ?thesis by (auto simp: indexed_snoc the nth_append)
  qed
qed (simp add: indexed_def)

lemma initial_table_lookup:
  assumes "m < 2 ^ length leaves"
  shows "initial_table leaves ! m = Some p \<Longrightarrow> \<exists>i < length leaves. m = 2 ^ i \<and> p = leaves ! i"
    and "i < length leaves \<Longrightarrow> initial_table leaves ! (2 ^ i) = Some (leaves ! i)"
    and "length (initial_table leaves) = 2 ^ length leaves"
proof -
  have the: "(THE i. (2 :: nat) ^ k = 2 ^ i) = k" for k by (rule the_equality) simp_all
  note look = fill_leaves [where tbl = "replicate (2 ^ length leaves) None", simplified]
  show "initial_table leaves ! m = Some p \<Longrightarrow> \<exists>i < length leaves. m = 2 ^ i \<and> p = leaves ! i"
    using look [of leaves m] assms by (auto simp: initial_table_def the split: if_splits)
  show "i < length leaves \<Longrightarrow> initial_table leaves ! (2 ^ i) = Some (leaves ! i)"
    using look [of leaves "2 ^ i"] by (auto simp: initial_table_def the)
  show "length (initial_table leaves) = 2 ^ length leaves"
    using look [of leaves m] assms by (simp add: initial_table_def)
qed


text \<open>\<open>good m p\<close> says that \<open>p\<close> is a sound plan of the atoms of mask \<open>m\<close>; all that the search needs is that
  joining plans of disjoint masks gives such a plan.\<close>

definition joins_well :: "lower_env \<Rightarrow> (nat set \<Rightarrow> join_plan \<Rightarrow> bool) \<Rightarrow> bool" where
  "joins_well env good \<longleftrightarrow>
     (\<forall>ids ids' p q. good ids p \<longrightarrow> good ids' q \<longrightarrow> ids \<inter> ids' = {} \<longrightarrow> good (ids \<union> ids') (join_plans env p q))"

definition table_good :: "(nat set \<Rightarrow> join_plan \<Rightarrow> bool) \<Rightarrow> nat \<Rightarrow> join_plan option list \<Rightarrow> bool" where
  "table_good good n best \<longleftrightarrow>
     length best = 2 ^ n \<and> (\<forall>m < 2 ^ n. \<forall>p. best ! m = Some p \<longrightarrow> good (mask_atoms m) p)"

lemma consider_split_good:
  assumes "joins_well env good" "good ids l" "good ids' r" "ids \<inter> ids' = {}"
    and "\<And>p. b = Some p \<Longrightarrow> good (ids \<union> ids') p"
  shows "\<exists>p. consider_split env l r b = Some p \<and> good (ids \<union> ids') p"
proof -
  have "good (ids \<union> ids') (join_plans env l r)" using assms(1-4) by (simp add: joins_well_def)
  with assms(5) show ?thesis by (auto simp: consider_split_def Let_def split: option.splits)
qed

definition split_step :: "lower_env \<Rightarrow> join_plan option list \<Rightarrow> nat \<Rightarrow> nat \<Rightarrow> join_plan option \<Rightarrow> join_plan option" where
  "split_step env best m sub b =
     (if m XOR sub = 0 then b
      else case (best ! sub, best ! (m XOR sub)) of
             (Some pa, Some pb) \<Rightarrow> consider_split env pb pa (consider_split env pa pb b)
           | _ \<Rightarrow> b)"

lemma best_split_step:
  "best_split env best m sub b =
     (if sub = 0 then b else best_split env best m ((sub - 1) AND m) (split_step env best m sub b))"
  by (subst best_split.simps) (auto simp: split_step_def Let_def split: option.splits)

lemma consider_split_not_None: "consider_split env l r b \<noteq> None"
  by (auto simp: consider_split_def Let_def split: option.splits)

lemma split_step_not_None: "b \<noteq> None \<Longrightarrow> split_step env best m sub b \<noteq> None"
  using consider_split_not_None by (auto simp: split_step_def split: option.splits)

lemma split_step_good:
  assumes "joins_well env good" "table_good good n best" "m < 2 ^ n" "sub AND m = sub"
    and b: "\<And>p. b = Some p \<Longrightarrow> good (mask_atoms m) p" and step: "split_step env best m sub b = Some q"
  shows "good (mask_atoms m) q"
proof (cases "m XOR sub = 0 \<or> best ! sub = None \<or> best ! (m XOR sub) = None")
  case True
  with step have "b = Some q" by (auto simp: split_step_def split: if_splits option.splits)
  then show ?thesis by (rule b)
next
  case False
  then obtain pa pb where plans: "best ! sub = Some pa" "best ! (m XOR sub) = Some pb" by auto
  note parts = submask_split [OF assms(4)]
  have "sub < 2 ^ n" "m XOR sub < 2 ^ n" using parts(3) assms(3) by linarith+
  then have pa: "good (mask_atoms sub) pa" and pb: "good (mask_atoms (m XOR sub)) pb"
    using plans assms(2) by (auto simp: table_good_def)
  obtain p where p: "consider_split env pa pb b = Some p" "good (mask_atoms m) p"
  proof -
    have "\<exists>p. consider_split env pa pb b = Some p \<and> good (mask_atoms m) p"
      by (rule consider_split_good [OF assms(1) pa pb parts(1), of b, unfolded parts(2)]) (rule b)
    then show ?thesis using that by blast
  qed
  have flip: "mask_atoms (m XOR sub) \<inter> mask_atoms sub = {}" "mask_atoms (m XOR sub) \<union> mask_atoms sub = mask_atoms m"
    using parts by auto
  obtain p' where "consider_split env pb pa (Some p) = Some p'" "good (mask_atoms m) p'"
    using consider_split_good [OF assms(1) pb pa flip(1), of "Some p", unfolded flip(2)] p(2) by auto
  moreover have "split_step env best m sub b = consider_split env pb pa (consider_split env pa pb b)"
    using False plans by (simp add: split_step_def)
  ultimately show ?thesis using step p by simp
qed

lemma best_split_good:
  assumes "joins_well env good" "table_good good n best" "m < 2 ^ n"
  shows "sub AND m = sub \<Longrightarrow> (\<And>p. b = Some p \<Longrightarrow> good (mask_atoms m) p)
    \<Longrightarrow> best_split env best m sub b = Some q \<Longrightarrow> good (mask_atoms m) q"
proof (induction sub arbitrary: b rule: less_induct)
  case (less sub)
  show ?case
  proof (cases "sub = 0")
    case False
    then have next_sub: "best_split env best m ((sub - 1) AND m) (split_step env best m sub b) = Some q"
      using less.prems(3) by (simp add: best_split_step [of _ _ _ sub])
    show ?thesis
    proof (rule less.IH [OF _ _ _ next_sub])
      show "(sub - 1) AND m < sub" using submask_decreases False by blast
      show "((sub - 1) AND m) AND m = (sub - 1) AND m" by (simp add: and.assoc)
      show "good (mask_atoms m) p" if "split_step env best m sub b = Some p" for p
        using split_step_good [OF assms less.prems(1,2) that] .
    qed
  qed (use less.prems in \<open>simp add: best_split_step\<close>)
qed

lemma best_split_not_None: "b \<noteq> None \<Longrightarrow> best_split env best m sub b \<noteq> None"
proof (induction sub arbitrary: b rule: less_induct)
  case (less sub)
  show ?case
  proof (cases "sub = 0")
    case False
    have "best_split env best m ((sub - 1) AND m) (split_step env best m sub b) \<noteq> None"
    proof (rule less.IH)
      show "(sub - 1) AND m < sub" using submask_decreases False by blast
      show "split_step env best m sub b \<noteq> None" by (rule split_step_not_None [OF less.prems])
    qed
    with False show ?thesis by (simp add: best_split_step [of _ _ _ sub])
  qed (use less.prems in \<open>simp add: best_split_step\<close>)
qed

lemma best_split_found:
  assumes "0 < m" "\<not> single_bit m" "\<And>k. 0 < k \<Longrightarrow> k < m \<Longrightarrow> best ! k \<noteq> None"
  shows "best_split env best m ((m - 1) AND m) None \<noteq> None"
proof -
  let ?sub = "(m - 1) AND m"
  have sub: "0 < ?sub" "?sub < m" using assms(1,2) submask_decreases by (auto simp: single_bit_def and.commute)
  have "?sub AND m = ?sub" by (simp add: and.assoc)
  then have parts: "m = ?sub + (m XOR ?sub)" by (rule submask_split)
  then have "0 < m XOR ?sub" "m XOR ?sub < m" using sub by linarith+
  then obtain pa pb where "best ! ?sub = Some pa" "best ! (m XOR ?sub) = Some pb" using assms(3) sub by fastforce
  then have "split_step env best m ?sub None \<noteq> None"
    using \<open>0 < m XOR ?sub\<close> consider_split_not_None by (simp add: split_step_def)
  then have "best_split env best m ((?sub - 1) AND m) (split_step env best m ?sub None) \<noteq> None"
    by (rule best_split_not_None)
  then show ?thesis using sub(1) by (subst best_split_step) simp
qed

lemma fill_masks:
  assumes "joins_well env good" "k \<le> 2 ^ n" "0 < k"
    and start: "table_good good n best" "\<And>i. i < n \<Longrightarrow> best ! (2 ^ i) \<noteq> None"
  shows "table_good good n (fold (fill_mask env) [1..<k] best)
    \<and> (\<forall>m. 0 < m \<longrightarrow> m < 2 ^ n \<longrightarrow> m < k \<or> single_bit m \<longrightarrow> fold (fill_mask env) [1..<k] best ! m \<noteq> None)"
  using assms(2,3)
proof (induction k)
  case (Suc k)
  let ?best = "fold (fill_mask env) [1..<k] best"
  show ?case
  proof (cases "k = 0")
    case True
    have singles: "best ! m \<noteq> None" if m: "0 < m" "m < 2 ^ n" "single_bit m" for m
    proof -
      obtain i where i: "m = 2 ^ i" using single_bit_power [OF m(1,3)] by (elim exE)
      have "(2 :: nat) ^ i < 2 ^ n" using m(2) i by simp
      then have "i < n" by simp
      then show ?thesis unfolding i by (rule start(2))
    qed
    have "fold (fill_mask env) [1..<Suc k] best = best" using True by simp
    moreover have "0 < m \<longrightarrow> m < 2 ^ n \<longrightarrow> m < Suc k \<or> single_bit m \<longrightarrow> best ! m \<noteq> None" for m
      using singles True by blast
    ultimately show ?thesis using start(1) by simp
  next
    case False
    then have IH: "table_good good n ?best"
        "\<And>m. 0 < m \<Longrightarrow> m < 2 ^ n \<Longrightarrow> m < k \<or> single_bit m \<Longrightarrow> ?best ! m \<noteq> None"
      using Suc by auto
    have fold: "fold (fill_mask env) [1..<Suc k] best = fill_mask env k ?best" using False by simp
    show ?thesis
    proof (cases "single_bit k")
      case True
      then have "fill_mask env k ?best = ?best" by (simp add: fill_mask_def)
      with IH True show ?thesis unfolding fold by (auto simp: less_Suc_eq)
    next
      case notsingle: False
      let ?new = "best_split env ?best k ((k - 1) AND k) None"
      have eq: "fill_mask env k ?best = ?best[k := ?new]" using notsingle by (simp add: fill_mask_def)
      have k: "k < 2 ^ n" "k < length ?best" using Suc.prems IH(1) by (auto simp: table_good_def)
      have "?new = Some q \<Longrightarrow> good (mask_atoms k) q" for q
        by (rule best_split_good [OF assms(1) IH(1) k(1)]) (auto simp: and.assoc)
      then have "table_good good n (?best[k := ?new])"
        using IH(1) k(2) unfolding table_good_def by (metis length_list_update nth_list_update_eq nth_list_update_neq)
      moreover have "?new \<noteq> None"
        by (rule best_split_found) (use IH(2) k False notsingle in auto)
      ultimately show ?thesis unfolding fold eq using IH(2) k by (auto simp: nth_list_update less_Suc_eq)
    qed
  qed
qed simp


section \<open>The greedy search\<close>

definition covered :: "join_plan list \<Rightarrow> nat multiset" where
  "covered plans = (\<Sum>p\<leftarrow>plans. mset (leaf_order_idx p))"

lemma covered_remove: "i < length ps \<Longrightarrow> covered ps = mset (leaf_order_idx (ps ! i)) + covered (remove_at i ps)"
proof -
  assume "i < length ps"
  then have "covered ps = covered (take i ps @ ps ! i # drop (Suc i) ps)" by (simp add: id_take_nth_drop [symmetric])
  then show ?thesis by (simp add: covered_def remove_at_def)
qed

lemma nth_remove_at: "i < j \<Longrightarrow> j < length xs \<Longrightarrow> remove_at j xs ! i = xs ! i"
  by (simp add: remove_at_def nth_append)

lemma set_remove_at: "set (remove_at i xs) \<subseteq> set xs"
  by (auto simp: remove_at_def dest: in_set_takeD in_set_dropD)

lemma better_pair_not_None: "better_pair env plans ij b \<noteq> None"
  by (cases ij) (auto simp: better_pair_def Let_def split: option.splits)

lemma fold_better_pair_not_None: "pairs \<noteq> [] \<Longrightarrow> fold (better_pair env plans) pairs b \<noteq> None"
  by (induction pairs arbitrary: b) (metis better_pair_not_None fold_simps list.exhaust)+

lemma best_pair_not_None: "1 < length plans \<Longrightarrow> best_pair env plans \<noteq> None"
proof -
  assume "1 < length plans"
  then have "(0, 1) \<in> set (concat (map (\<lambda>i. map (Pair i) [Suc i..<length plans]) [0..<length plans]))" by force
  then have "concat (map (\<lambda>i. map (Pair i) [Suc i..<length plans]) [0..<length plans]) \<noteq> []" by (metis empty_iff list.set(1))
  then show ?thesis unfolding best_pair_def by (rule fold_better_pair_not_None)
qed

definition forest :: "(nat set \<Rightarrow> join_plan \<Rightarrow> bool) \<Rightarrow> nat \<Rightarrow> join_plan list \<Rightarrow> bool" where
  "forest good n plans \<longleftrightarrow> (\<forall>p \<in> set plans. good (set (leaf_order_idx p)) p) \<and> covered plans = mset [0..<n]"

lemma forest_join:
  assumes "joins_well env good" "forest good n plans" "best_pair env plans = Some (i, j, p)"
  shows "forest good n (remove_at i (remove_at j plans) @ [p])"
proof -
  have ij: "i < j" "j < length plans" and p: "p = pair_candidate env (plans ! i) (plans ! j)"
    using best_pair_Some [OF assms(3)] by auto
  let ?a = "plans ! i" and ?b = "plans ! j"
  let ?rest = "remove_at i (remove_at j plans)"
  have all: "covered plans = mset (leaf_order_idx ?b) + (mset (leaf_order_idx ?a) + covered ?rest)"
    using covered_remove [OF ij(2)] covered_remove [of i "remove_at j plans"] ij
    by (simp add: length_remove_at nth_remove_at)
  then have once: "count (mset (leaf_order_idx ?b) + (mset (leaf_order_idx ?a) + covered ?rest)) x \<le> 1" for x
    using assms(2) distinct_count_atmost_1 [of "[0..<n]"] by (auto simp: forest_def)
  have disjoint: "set (leaf_order_idx ?a) \<inter> set (leaf_order_idx ?b) = {}"
  proof (rule ccontr)
    assume "set (leaf_order_idx ?a) \<inter> set (leaf_order_idx ?b) \<noteq> {}"
    then obtain x where "x \<in># mset (leaf_order_idx ?a)" "x \<in># mset (leaf_order_idx ?b)" by auto
    then have "1 \<le> count (mset (leaf_order_idx ?a)) x" "1 \<le> count (mset (leaf_order_idx ?b)) x"
      by (simp_all add: Suc_le_eq)
    with once [of x] show False by simp
  qed
  have good: "good (set (leaf_order_idx ?a)) ?a" "good (set (leaf_order_idx ?b)) ?b"
    using assms(2) ij by (auto simp: forest_def)
  have joined: "good (set (leaf_order_idx p)) p \<and> mset (leaf_order_idx p) = mset (leaf_order_idx ?a) + mset (leaf_order_idx ?b)"
  proof -
    have ab: "good (set (leaf_order_idx ?a) \<union> set (leaf_order_idx ?b)) (join_plans env ?a ?b)"
      and ba: "good (set (leaf_order_idx ?b) \<union> set (leaf_order_idx ?a)) (join_plans env ?b ?a)"
      using assms(1) good disjoint Int_commute unfolding joins_well_def by blast+
    have idx: "leaf_order_idx (join_plans env q r) = leaf_order_idx q @ leaf_order_idx r" for q r
      by (simp add: join_plans_def Let_def)
    show ?thesis
      using ab ba by (cases "p = join_plans env ?a ?b") (auto simp: p pair_candidate_def Let_def idx split: if_splits)
  qed
  have "\<forall>q \<in> set (?rest @ [p]). good (set (leaf_order_idx q)) q"
    using assms(2) joined set_remove_at [of i "remove_at j plans"] set_remove_at [of j plans] by (auto simp: forest_def)
  moreover have "covered (?rest @ [p]) = covered plans"
    using joined all by (simp add: covered_def)
  ultimately show ?thesis using assms(2) by (simp add: forest_def)
qed

lemma greedy_plans_forest:
  assumes "joins_well env good"
  shows "forest good n plans \<Longrightarrow> forest good n (greedy_plans env plans)
    \<and> (plans \<noteq> [] \<longrightarrow> length (greedy_plans env plans) = 1)"
proof (induction "length plans" arbitrary: plans rule: less_induct)
  case less
  show ?case
  proof (cases "length plans \<le> 1")
    case True
    then have "greedy_plans env plans = plans" by (simp add: greedy_plans.simps [of _ plans])
    with True less.prems show ?thesis by (cases plans) auto
  next
    case False
    then obtain i j p where best: "best_pair env plans = Some (i, j, p)"
      using best_pair_not_None [of plans env] by fastforce
    let ?next = "remove_at i (remove_at j plans) @ [p]"
    have ij: "i < j" "j < length plans" using best_pair_Some [OF best] by auto
    have "greedy_plans env plans = greedy_plans env ?next"
      using False best by (simp add: greedy_plans.simps [of _ plans])
    moreover have "length ?next < length plans" using ij by (simp add: length_remove_at)
    ultimately show ?thesis using less.hyps [OF _ forest_join [OF assms less.prems best]] by simp
  qed
qed

section \<open>The chosen plan\<close>

lemma sound_plans_join_well:
  assumes "\<forall>a \<in> set atoms. atom_ready E st db store tys a"
  shows "joins_well env (plan_sound E (low_schemas st) store (atom_rows E (low_scalars env) (low_schemas st) db) atoms)"
  using join_plans_sound [OF assms refl] by (auto simp: joins_well_def)

lemma sound_full:
  assumes "plan_sound E schemas store f atoms {..<length atoms} p"
  shows "mset (leaf_order p) = mset atoms \<and> execute_node E store (jp_node p)
    = Some \<lparr>btypes = body_schema schemas (leaf_order p), brows = join_rows f (leaf_order p)\<rparr>"
proof -
  have "mset (leaf_order_idx p) = mset [0..<length atoms]"
    using assms by (intro set_eq_iff_mset_eq_distinct [THEN iffD1]) (auto simp: plan_sound_def atLeast0LessThan)
  then have "mset (map ((!) atoms) (leaf_order_idx p)) = mset (map ((!) atoms) [0..<length atoms])" by simp
  then have "mset (leaf_order p) = mset atoms" using assms by (simp add: plan_sound_def map_nth)
  then show ?thesis using assms by (simp add: plan_sound_def)
qed

lemma bushy_sound:
  assumes "typed_engine E" "equality_faithful E" and ready: "\<forall>a \<in> set atoms. atom_ready E st db store tys a"
    and many: "2 \<le> length atoms" and plan: "plan_positive_atoms_bushy env atoms st = Inr ((node, leaves), st')"
  shows "st' = st \<and> (\<exists>p. node = jp_node p \<and> leaves = leaf_order p
    \<and> plan_sound E (low_schemas st) store (atom_rows E (low_scalars env) (low_schemas st) db) atoms {..<length atoms} p)"
proof -
  let ?good = "plan_sound E (low_schemas st) store (atom_rows E (low_scalars env) (low_schemas st) db) atoms"
  let ?n = "length atoms"
  have shape: "\<exists>a b as. atoms = a # b # as" using many by (cases atoms; cases "tl atoms") auto
  obtain ps st1 where ps: "leaf_plans env 0 atoms st = Inr (ps, st1)"
    using plan shape by (auto simp: plan_positive_atoms_bushy_def bind_res_Inr_iff)
  have leaves: "st1 = st" "length ps = ?n" "\<And>k. k < ?n \<Longrightarrow> ?good {k} (ps ! k)"
    using leaf_plans_sound [OF assms(1-3) ps] by auto
  let ?table = "fold (fill_mask env) [1..<2 ^ ?n] (initial_table ps)"
  note look = initial_table_lookup [of _ ps, unfolded leaves(2)]
  have start: "table_good ?good ?n (initial_table ps)"
    unfolding table_good_def
  proof (intro conjI allI impI)
    show "length (initial_table ps) = 2 ^ ?n" by (rule look(3) [of 0]) simp
    fix m p assume "m < 2 ^ ?n" "initial_table ps ! m = Some p"
    then obtain i where "i < ?n" "m = 2 ^ i" "p = ps ! i" using look(1) by blast
    then show "?good (mask_atoms m) p" using leaves(3) by (simp only: mask_atoms_power)
  qed
  have singles: "initial_table ps ! (2 ^ i) \<noteq> None" if "i < ?n" for i using look(2) [of "2 ^ i" i] that by simp
  have filled: "table_good ?good ?n ?table" "\<And>m. 0 < m \<Longrightarrow> m < 2 ^ ?n \<Longrightarrow> ?table ! m \<noteq> None"
    using fill_masks [OF sound_plans_join_well [OF ready] le_refl _ start singles] by auto
  have "(2 :: nat) ^ 1 \<le> 2 ^ ?n" using many by (intro power_increasing) auto
  then have full: "0 < (2 :: nat) ^ ?n - 1" "(2 :: nat) ^ ?n - 1 < 2 ^ ?n" by simp_all
  then obtain p where p: "?table ! (2 ^ ?n - 1) = Some p" using filled(2) by blast
  then have "?good (mask_atoms (2 ^ ?n - 1)) p" using filled(1) full(2) unfolding table_good_def by blast
  then have "?good {..<?n} p" unfolding mask_atoms_full .
  moreover have "node = jp_node p \<and> leaves = leaf_order p \<and> st' = st"
    using plan shape p ps leaves(1) by (auto simp: plan_positive_atoms_bushy_def Let_def)
  ultimately show ?thesis by blast
qed

lemma distinct_set_singleton: "distinct xs \<Longrightarrow> set xs = {k} \<Longrightarrow> xs = [k]"
proof -
  assume xs: "distinct xs" "set xs = {k}"
  then have "length xs = 1" by (metis distinct_card is_singletonI is_singleton_altdef)
  then obtain y where "xs = [y]" by (metis One_nat_def length_0_conv length_Suc_conv)
  with xs show ?thesis by simp
qed

lemma greedy_sound:
  assumes "typed_engine E" "equality_faithful E" and ready: "\<forall>a \<in> set atoms. atom_ready E st db store tys a"
    and plan: "plan_positive_atoms_bushy_greedy env atoms st = Inr ((node, leaves), st')"
  shows "st' = st \<and> (\<exists>p. node = jp_node p \<and> leaves = leaf_order p
    \<and> plan_sound E (low_schemas st) store (atom_rows E (low_scalars env) (low_schemas st) db) atoms {..<length atoms} p)"
proof -
  let ?good = "plan_sound E (low_schemas st) store (atom_rows E (low_scalars env) (low_schemas st) db) atoms"
  have nonempty: "atoms \<noteq> []" using plan by (auto simp: plan_positive_atoms_bushy_greedy_def split: if_splits)
  obtain ps st1 where ps: "leaf_plans env 0 atoms st = Inr (ps, st1)"
    using plan nonempty by (auto simp: plan_positive_atoms_bushy_greedy_def bind_res_Inr_iff)
  have leaves: "st1 = st" "length ps = length atoms" "\<And>k. k < length atoms \<Longrightarrow> ?good {k} (ps ! k)"
    using leaf_plans_sound [OF assms(1-3) ps] by auto
  have idx: "leaf_order_idx (ps ! k) = [k]" if "k < length atoms" for k
    using leaves(3) [OF that] by (intro distinct_set_singleton) (simp_all add: plan_sound_def)
  have "covered ps = (\<Sum>k\<leftarrow>[0..<length atoms]. mset (leaf_order_idx (ps ! k)))"
  proof -
    have "covered ps = covered (map ((!) ps) [0..<length atoms])" using map_nth [of ps] leaves(2) by simp
    then show ?thesis by (simp add: covered_def comp_def)
  qed
  also have "\<dots> = (\<Sum>k\<leftarrow>[0..<length atoms]. {#k#})" by (rule arg_cong [where f = sum_list]) (simp add: idx)
  also have "\<dots> = mset [0..<length atoms]" by (induction "[0..<length atoms]") auto
  finally have "forest ?good (length atoms) ps"
    using leaves(2,3) idx by (auto simp: forest_def in_set_conv_nth)
  from greedy_plans_forest [OF sound_plans_join_well [OF ready] this]
  have forest: "forest ?good (length atoms) (greedy_plans env ps)" "length (greedy_plans env ps) = 1"
    using nonempty leaves(2) by auto
  then obtain p where p: "greedy_plans env ps = [p]" by (metis One_nat_def length_0_conv length_Suc_conv)
  have "mset (leaf_order_idx p) = mset [0..<length atoms]" using forest(1) by (simp add: p forest_def covered_def)
  then have "set (leaf_order_idx p) = {..<length atoms}" by (metis atLeast0LessThan atLeast_upt mset_eq_setD)
  then have "?good {..<length atoms} p" using forest(1) by (auto simp: p forest_def)
  moreover have "node = jp_node p \<and> leaves = leaf_order p \<and> st' = st"
    using plan nonempty ps p leaves(1) by (auto simp: plan_positive_atoms_bushy_greedy_def Let_def)
  ultimately show ?thesis by blast
qed

lemma plan_positive_atoms_sound:
  assumes "typed_engine E" "equality_faithful E" and ready: "\<forall>a \<in> set atoms. atom_ready E st db store tys a"
    and plan: "plan_positive_atoms env atoms st = Inr ((node, leaves), st')"
  shows "st' = st \<and> mset leaves = mset atoms \<and> execute_node E store node
    = Some \<lparr>btypes = body_schema (low_schemas st) leaves,
            brows = join_rows (atom_rows E (low_scalars env) (low_schemas st) db) leaves\<rparr>"
proof -
  have "st' = st \<and> (\<exists>p. node = jp_node p \<and> leaves = leaf_order p
    \<and> plan_sound E (low_schemas st) store (atom_rows E (low_scalars env) (low_schemas st) db) atoms {..<length atoms} p)"
  proof (cases "length atoms \<le> 1")
    case True
    then obtain a where a: "atoms = [a]"
      using plan by (cases atoms) (auto simp: plan_positive_atoms_def)
    then obtain p where p: "make_leaf_plan env a 0 st = Inr (p, st')" "node = jp_node p" "leaves = leaf_order p"
      using plan by (auto simp: plan_positive_atoms_def map_res_Inr_iff)
    have "{..<length atoms} = {0}" using a by auto
    with make_leaf_plan_sound [OF assms(1,2) _ p(1), of db store tys atoms] ready a p(2,3) show ?thesis by auto
  next
    case False
    then show ?thesis
      using plan bushy_sound [OF assms(1-3)] greedy_sound [OF assms(1-3)]
      by (auto simp: plan_positive_atoms_def split: if_splits)
  qed
  then show ?thesis using sound_full by metis
qed

end
