(* ===== verification/Rule_Meaning.thy ===== *)
theory Rule_Meaning
  imports Plan_Correct
begin

text \<open>
  What a rule means, without plans: its answers are the head tuples of the assignments to its variables
  under which every body literal holds. A positive atom holds when a row of its relation fits, a negated
  atom when no row fits any extension of the assignment, a comparison and an arithmetic binding when the
  engine's kernels say so. \<open>tys\<close> gives the types of the variables; they decide how literals in comparisons
  are read and when a comparison goes through 64-bit floats.
\<close>

type_synonym 'v assignment = "string \<Rightarrow> 'v option"

definition terms_fit :: "ast_term list \<Rightarrow> 'v assignment \<Rightarrow> 'v list \<Rightarrow> bool" where
  "terms_fit tms \<sigma> row \<longleftrightarrow>
     (\<forall>i < length tms. \<forall>x. tms ! i = Variable x \<and> x \<noteq> ''_'' \<longrightarrow> \<sigma> x = Some (row ! i))"

definition atom_holds ::
    "'v engine \<Rightarrow> scalar_env \<Rightarrow> schema_table \<Rightarrow> (string \<Rightarrow> 'v buffer) \<Rightarrow> 'v assignment \<Rightarrow> atom \<Rightarrow> bool" where
  "atom_holds E env schemas db \<sigma> a \<longleftrightarrow>
     (\<exists>row \<in> set (brows (db (predicate a))).
        constants_fit E env (atom_schema schemas a) (terms a) row \<and> terms_fit (terms a) \<sigma> row)"

definition plain_constant :: "scalar_env \<Rightarrow> ast_term \<Rightarrow> const_value option" where
  "plain_constant env t =
     (case t of
        Integer i \<Rightarrow> Some (CvI64 i)
      | Float f \<Rightarrow> Some (CvF64 f)
      | Str s \<Rightarrow> Some (CvSymbol s)
      | Symbol sid \<Rightarrow> map_option CvSymbol (symbol_text env sid)
      | _ \<Rightarrow> None)"

definition compared_constant ::
    "scalar_env \<Rightarrow> (string \<Rightarrow> scalar_type option) \<Rightarrow> ast_term \<Rightarrow> ast_term \<Rightarrow> const_value option" where
  "compared_constant env tys other t =
     (case other of
        Variable y \<Rightarrow>
          Option.bind (tys y) (\<lambda>ty. case term_to_typed_const_value env t ty of Inr c \<Rightarrow> c | Inl _ \<Rightarrow> None)
      | _ \<Rightarrow> plain_constant env t)"

text \<open>The value of one side of a comparison, and whether it may be a float.\<close>

definition operand ::
    "'v engine \<Rightarrow> scalar_env \<Rightarrow> (string \<Rightarrow> scalar_type option) \<Rightarrow> 'v assignment \<Rightarrow> ast_term \<Rightarrow> ast_term
     \<Rightarrow> ('v \<times> bool) option" where
  "operand E env tys \<sigma> other t =
     (case t of
        Variable x \<Rightarrow> Option.bind (\<sigma> x) (\<lambda>v. map_option (\<lambda>ty. (v, float_type ty)) (tys x))
      | _ \<Rightarrow> map_option (\<lambda>c. (const_column E c, float_const c)) (compared_constant env tys other t))"

definition comparison_holds ::
    "'v engine \<Rightarrow> scalar_env \<Rightarrow> (string \<Rightarrow> scalar_type option) \<Rightarrow> 'v assignment \<Rightarrow> comparison \<Rightarrow> bool" where
  "comparison_holds E env tys \<sigma> c \<longleftrightarrow>
     (case (operand E env tys \<sigma> (cmp_right c) (cmp_left c), operand E env tys \<sigma> (cmp_left c) (cmp_right c)) of
        (Some (a, fa), Some (b, fb)) \<Rightarrow> compare_values E (fa \<or> fb) (compare_op_of (cmp_op c)) a b = Some True
      | _ \<Rightarrow> False)"

fun arith_may_be_float :: "(string \<Rightarrow> scalar_type option) \<Rightarrow> arith_expr \<Rightarrow> bool" where
  "arith_may_be_float tys (AVariable x) = (case tys x of Some t \<Rightarrow> float_type t | None \<Rightarrow> False)"
| "arith_may_be_float tys (AInteger _) = False"
| "arith_may_be_float tys (AFloat _) = True"
| "arith_may_be_float tys (Add l r) = (arith_may_be_float tys l \<or> arith_may_be_float tys r)"
| "arith_may_be_float tys (Sub l r) = (arith_may_be_float tys l \<or> arith_may_be_float tys r)"
| "arith_may_be_float tys (Mul l r) = (arith_may_be_float tys l \<or> arith_may_be_float tys r)"
| "arith_may_be_float tys (Div l r) = (arith_may_be_float tys l \<or> arith_may_be_float tys r)"
| "arith_may_be_float tys (Mod l r) = (arith_may_be_float tys l \<or> arith_may_be_float tys r)"
| "arith_may_be_float tys (AMin l r) = (arith_may_be_float tys l \<or> arith_may_be_float tys r)"
| "arith_may_be_float tys (AMax l r) = (arith_may_be_float tys l \<or> arith_may_be_float tys r)"
| "arith_may_be_float tys (Pow l r) = (arith_may_be_float tys l \<or> arith_may_be_float tys r)"
| "arith_may_be_float tys (Abs e) = arith_may_be_float tys e"
| "arith_may_be_float tys (Cast e t) = (float_type t \<or> arith_may_be_float tys e)"
| "arith_may_be_float tys (FuncCall f args) = False"
| "arith_may_be_float tys (Conditional cl cop cr t e) = False"

definition both_values :: "('v \<Rightarrow> 'v \<Rightarrow> 'v option) \<Rightarrow> 'v option \<Rightarrow> 'v option \<Rightarrow> 'v option" where
  "both_values f x y = Option.bind x (\<lambda>a. Option.bind y (f a))"

fun arith_meaning :: "'v engine \<Rightarrow> (string \<Rightarrow> scalar_type option) \<Rightarrow> 'v assignment \<Rightarrow> arith_expr \<Rightarrow> 'v option" where
  "arith_meaning E tys \<sigma> (AVariable x) = \<sigma> x"
| "arith_meaning E tys \<sigma> (AInteger i) = Some (const_column E (CvI64 i))"
| "arith_meaning E tys \<sigma> (AFloat f) = Some (const_column E (CvF64 f))"
| "arith_meaning E tys \<sigma> (Add l r) = both_values (column_op E OpAdd) (arith_meaning E tys \<sigma> l) (arith_meaning E tys \<sigma> r)"
| "arith_meaning E tys \<sigma> (Sub l r) = both_values (column_op E OpSubtract) (arith_meaning E tys \<sigma> l) (arith_meaning E tys \<sigma> r)"
| "arith_meaning E tys \<sigma> (Mul l r) = both_values (column_op E OpMultiply) (arith_meaning E tys \<sigma> l) (arith_meaning E tys \<sigma> r)"
| "arith_meaning E tys \<sigma> (Div l r) = both_values (column_op E OpDivide) (arith_meaning E tys \<sigma> l) (arith_meaning E tys \<sigma> r)"
| "arith_meaning E tys \<sigma> (Mod l r) = both_values (column_op E OpModulo) (arith_meaning E tys \<sigma> l) (arith_meaning E tys \<sigma> r)"
| "arith_meaning E tys \<sigma> (AMin l r) = both_values (column_op E OpMinimum) (arith_meaning E tys \<sigma> l) (arith_meaning E tys \<sigma> r)"
| "arith_meaning E tys \<sigma> (AMax l r) = both_values (column_op E OpMaximum) (arith_meaning E tys \<sigma> l) (arith_meaning E tys \<sigma> r)"
| "arith_meaning E tys \<sigma> (Pow l r) = both_values (column_op E OpPower) (arith_meaning E tys \<sigma> l) (arith_meaning E tys \<sigma> r)"
| "arith_meaning E tys \<sigma> (Abs e) = Option.bind (arith_meaning E tys \<sigma> e) (abs_column E)"
| "arith_meaning E tys \<sigma> (Cast e t) = Option.bind (arith_meaning E tys \<sigma> e) (\<lambda>a. cast_column E a t)"
| "arith_meaning E tys \<sigma> (FuncCall f args) = None"
| "arith_meaning E tys \<sigma> (Conditional cl cop cr t e) =
     Option.bind (Option.bind (arith_meaning E tys \<sigma> cl) (\<lambda>a. Option.bind (arith_meaning E tys \<sigma> cr) (\<lambda>b.
         compare_values E (arith_may_be_float tys cl \<or> arith_may_be_float tys cr) (compare_op_of cop) a b)))
       (\<lambda>k. both_values (select_value E k) (arith_meaning E tys \<sigma> t) (arith_meaning E tys \<sigma> e))"

definition literal_holds ::
    "'v engine \<Rightarrow> scalar_env \<Rightarrow> schema_table \<Rightarrow> (string \<Rightarrow> 'v buffer) \<Rightarrow> (string \<Rightarrow> scalar_type option)
     \<Rightarrow> 'v assignment \<Rightarrow> body_literal \<Rightarrow> bool" where
  "literal_holds E env schemas db tys \<sigma> l \<longleftrightarrow>
     (case l of
        Positive a \<Rightarrow> atom_holds E env schemas db \<sigma> a
      | Negated a \<Rightarrow> \<not> (\<exists>\<sigma>'. \<sigma> \<subseteq>\<^sub>m \<sigma>' \<and> atom_holds E env schemas db \<sigma>' a)
      | Comparison c \<Rightarrow> comparison_holds E env tys \<sigma> c
      | IsExpr e \<Rightarrow> \<sigma> (is_target e) \<noteq> None \<and> arith_meaning E tys \<sigma> (is_rhs e) = \<sigma> (is_target e)
      | _ \<Rightarrow> True)"

definition rule_variables :: "rule \<Rightarrow> string set" where
  "rule_variables r = positive_body_bound_variables (body r) \<union> is_target ` set (body_is_exprs (body r))"

definition head_meaning :: "'v engine \<Rightarrow> scalar_env \<Rightarrow> schema_table \<Rightarrow> atom \<Rightarrow> 'v assignment \<Rightarrow> nat \<times> ast_term \<Rightarrow> 'v" where
  "head_meaning E env schemas a \<sigma> = (\<lambda>(i, t).
     case t of
       Variable x \<Rightarrow> the (\<sigma> x)
     | _ \<Rightarrow> const_column E (the (projr (term_to_typed_const_value env t (the (schema_column schemas a i))))))"

definition body_assignments ::
    "'v engine \<Rightarrow> scalar_env \<Rightarrow> schema_table \<Rightarrow> (string \<Rightarrow> 'v buffer) \<Rightarrow> (string \<Rightarrow> scalar_type option) \<Rightarrow> rule
     \<Rightarrow> 'v assignment set" where
  "body_assignments E env schemas db tys r =
     {\<sigma>. dom \<sigma> = rule_variables r \<and> (\<forall>l \<in> set (body r). literal_holds E env schemas db tys \<sigma> l)}"

definition rule_answers ::
    "'v engine \<Rightarrow> scalar_env \<Rightarrow> schema_table \<Rightarrow> (string \<Rightarrow> 'v buffer) \<Rightarrow> (string \<Rightarrow> scalar_type option) \<Rightarrow> rule
     \<Rightarrow> 'v list set" where
  "rule_answers E env schemas db tys r =
     (\<lambda>\<sigma>. map (head_meaning E env schemas (head r) \<sigma>) (indexed (terms (head r))))
       ` body_assignments E env schemas db tys r"

section \<open>What the meaning depends on\<close>

lemma arith_meaning_cong:
  "(\<And>x. x \<in> set (arith_variables e) \<Longrightarrow> \<sigma> x = \<sigma>' x) \<Longrightarrow> arith_meaning E tys \<sigma> e = arith_meaning E tys \<sigma>' e"
proof (induction e)
  case (Conditional cl cop cr t e)
  have "arith_meaning E tys \<sigma> cl = arith_meaning E tys \<sigma>' cl" "arith_meaning E tys \<sigma> cr = arith_meaning E tys \<sigma>' cr"
       "arith_meaning E tys \<sigma> t = arith_meaning E tys \<sigma>' t" "arith_meaning E tys \<sigma> e = arith_meaning E tys \<sigma>' e"
    using Conditional by auto
  then show ?case by simp
qed simp_all

lemma infer_known_cong:
  "(\<And>x. x \<in> set (arith_variables e) \<Longrightarrow> ty x = ty' x) \<Longrightarrow> infer_known RequireExpansion ty e = infer_known RequireExpansion ty' e"
proof (induction e)
  case (Conditional cl cop cr t e)
  have "infer_known RequireExpansion ty t = infer_known RequireExpansion ty' t"
       "infer_known RequireExpansion ty e = infer_known RequireExpansion ty' e"
    using Conditional by auto
  then show ?case by simp
qed simp_all

definition local_to :: "string set \<Rightarrow> ('v assignment \<Rightarrow> bool) \<Rightarrow> bool" where
  "local_to V P \<longleftrightarrow> (\<forall>\<sigma> \<sigma>'. (\<forall>x \<in> V. \<sigma> x = \<sigma>' x) \<longrightarrow> P \<sigma> = P \<sigma>')"

lemma local_to_mono: "local_to V P \<Longrightarrow> V \<subseteq> V' \<Longrightarrow> local_to V' P"
  by (auto simp: local_to_def)

lemma local_positive:
  fixes E :: "'v engine"
  assumes "\<And>x. Variable x \<in> set (terms a) \<Longrightarrow> x \<noteq> ''_'' \<Longrightarrow> x \<in> V"
  shows "local_to V (\<lambda>\<sigma>. literal_holds E env schemas db tys \<sigma> (Positive a))"
proof -
  have "terms_fit (terms a) \<sigma> row = terms_fit (terms a) \<sigma>' row" if "\<forall>x \<in> V. \<sigma> x = \<sigma>' x" for \<sigma> \<sigma>' and row :: "'v list"
    unfolding terms_fit_def using that assms by (metis nth_mem)
  then show ?thesis by (auto simp: local_to_def literal_holds_def atom_holds_def)
qed

lemma local_comparison:
  fixes E :: "'v engine"
  assumes "\<And>x. cmp_left c = Variable x \<or> cmp_right c = Variable x \<Longrightarrow> x \<in> V"
  shows "local_to V (\<lambda>\<sigma>. literal_holds E env schemas db tys \<sigma> (Comparison c))"
proof -
  have same: "operand E env tys \<sigma> other t = operand E env tys \<sigma>' other t"
    if "\<forall>x \<in> V. \<sigma> x = \<sigma>' x" "t = cmp_left c \<or> t = cmp_right c" for \<sigma> \<sigma>' :: "'v assignment" and other t
    using that assms by (cases t) (auto simp: operand_def)
  then have "comparison_holds E env tys \<sigma> c = comparison_holds E env tys \<sigma>' c"
    if "\<forall>x \<in> V. \<sigma> x = \<sigma>' x" for \<sigma> \<sigma>' :: "'v assignment"
    unfolding comparison_holds_def same [OF that disjI1 [OF refl]] same [OF that disjI2 [OF refl]] by (simp only:)
  then show ?thesis unfolding local_to_def literal_holds_def by simp
qed

lemma local_is_expr:
  fixes E :: "'v engine"
  assumes "set (arith_variables (is_rhs e)) \<subseteq> V" "is_target e \<in> V"
  shows "local_to V (\<lambda>\<sigma>. literal_holds E env schemas db tys \<sigma> (IsExpr e))"
proof -
  have "arith_meaning E tys \<sigma> (is_rhs e) = arith_meaning E tys \<sigma>' (is_rhs e)"
    if "\<forall>x \<in> V. \<sigma> x = \<sigma>' x" for \<sigma> \<sigma>' :: "'v assignment"
    using that assms by (intro arith_meaning_cong) auto
  then show ?thesis using assms(2) unfolding local_to_def literal_holds_def by (simp, metis)
qed

section \<open>Rows and assignments\<close>

lemma terms_fit_append:
  "length x = length ts \<Longrightarrow> terms_fit (ts @ us) \<sigma> (x @ y) \<longleftrightarrow> terms_fit ts \<sigma> x \<and> terms_fit us \<sigma> y"
  (is "?len \<Longrightarrow> ?l \<longleftrightarrow> ?r")
proof
  assume len: ?len and l: ?l
  have "terms_fit ts \<sigma> x" unfolding terms_fit_def
  proof (intro allI impI)
    fix i v assume "i < length ts" "ts ! i = Variable v \<and> v \<noteq> ''_''"
    with l [unfolded terms_fit_def, rule_format, of i v] len show "\<sigma> v = Some (x ! i)" by (simp add: nth_append)
  qed
  moreover have "terms_fit us \<sigma> y" unfolding terms_fit_def
  proof (intro allI impI)
    fix i v assume "i < length us" "us ! i = Variable v \<and> v \<noteq> ''_''"
    with l [unfolded terms_fit_def, rule_format, of "length ts + i" v] len show "\<sigma> v = Some (y ! i)" by (simp add: nth_append)
  qed
  ultimately show ?r ..
next
  assume ?len ?r
  then show ?l by (auto simp: terms_fit_def nth_append)
qed

definition row_assignment :: "ast_term list \<Rightarrow> 'v list \<Rightarrow> 'v assignment" where
  "row_assignment ts row = (\<lambda>x. if x \<noteq> ''_'' \<and> Variable x \<in> set ts then Some (row ! first_index x ts) else None)"

lemma agree_iff_fit: "agree ts row \<longleftrightarrow> terms_fit ts (row_assignment ts row) row"
proof -
  have "Variable x \<in> set ts" if "i < length ts" "ts ! i = Variable x" for i x using that by (metis nth_mem)
  then have "row_assignment ts row x = Some (row ! i) \<longleftrightarrow> row ! i = row ! first_index x ts"
    if "i < length ts" "ts ! i = Variable x" "x \<noteq> ''_''" for i x using that by (auto simp: row_assignment_def)
  then show ?thesis unfolding agree_def terms_fit_def by blast
qed

lemma fit_assignment:
  assumes "terms_fit ts \<sigma> row" "dom \<sigma> = {x. x \<noteq> ''_'' \<and> Variable x \<in> set ts}"
  shows "\<sigma> = row_assignment ts row"
proof
  fix x
  show "\<sigma> x = row_assignment ts row x"
  proof (cases "x \<noteq> ''_'' \<and> Variable x \<in> set ts")
    case True
    with assms(1) first_index_lookup [of x ts] show ?thesis by (simp add: terms_fit_def row_assignment_def)
  next
    case False
    then have "x \<notin> dom \<sigma>" using assms(2) by auto
    with False show ?thesis by (auto simp: row_assignment_def)
  qed
qed

lemma body_rows_fit:
  assumes "\<And>a row. a \<in> set as \<Longrightarrow> row \<in> set (f a) \<Longrightarrow> length row = length (terms a)"
  shows "(\<exists>row \<in> set (body_rows f as). terms_fit (body_terms as) \<sigma> row)
    \<longleftrightarrow> (\<forall>a \<in> set as. \<exists>row \<in> set (f a). terms_fit (terms a) \<sigma> row)"
  using assms
proof (induction as)
  case (Cons a as)
  have fit: "terms_fit (terms a @ body_terms as) \<sigma> (x @ y) \<longleftrightarrow> terms_fit (terms a) \<sigma> x \<and> terms_fit (body_terms as) \<sigma> y"
    if "x \<in> set (f a)" for x y using Cons.prems that by (intro terms_fit_append) auto
  have "(\<exists>row \<in> set (body_rows f (a # as)). terms_fit (body_terms (a # as)) \<sigma> row)
      \<longleftrightarrow> (\<exists>x \<in> set (f a). \<exists>y \<in> set (body_rows f as). terms_fit (terms a @ body_terms as) \<sigma> (x @ y))" by auto
  also have "\<dots> \<longleftrightarrow> (\<exists>x \<in> set (f a). terms_fit (terms a) \<sigma> x) \<and> (\<exists>y \<in> set (body_rows f as). terms_fit (body_terms as) \<sigma> y)"
    using fit by blast
  also have "\<dots> \<longleftrightarrow> (\<forall>b \<in> set (a # as). \<exists>row \<in> set (f b). terms_fit (terms b) \<sigma> row)"
    using Cons by simp
  finally show ?case .
qed (simp add: terms_fit_def)

text \<open>The rows of a join are the assignments that satisfy its atoms.\<close>

lemma join_rows_assignments:
  assumes ready: "\<forall>a \<in> set as. atom_ready E st db store tys a"
  shows "row_assignment (body_terms as) ` set (join_rows (atom_rows E env (low_schemas st) db) as)
    = {\<sigma>. dom \<sigma> = {x. x \<noteq> ''_'' \<and> Variable x \<in> set (body_terms as)} \<and> (\<forall>a \<in> set as. atom_holds E env (low_schemas st) db \<sigma> a)}"
    (is "?l = ?r")
proof -
  let ?f = "atom_rows E env (low_schemas st) db" and ?ts = "body_terms as"
  have len: "length row = length (terms a)" if "a \<in> set as" "row \<in> set (?f a)" for a row
    using that ready row_typed_length [OF atom_rows_typed, of E st db store tys a row env] by (auto simp: atom_ready_def)
  have holds: "atom_holds E env (low_schemas st) db \<sigma> a \<longleftrightarrow> (\<exists>row \<in> set (?f a). terms_fit (terms a) \<sigma> row)" for \<sigma> a
    by (auto simp: atom_holds_def atom_rows_def)
  have "?r = {\<sigma>. dom \<sigma> = {x. x \<noteq> ''_'' \<and> Variable x \<in> set ?ts} \<and> (\<exists>row \<in> set (body_rows ?f as). terms_fit ?ts \<sigma> row)}"
  proof -
    have "(\<forall>a \<in> set as. \<exists>row \<in> set (?f a). terms_fit (terms a) \<sigma> row)
        \<longleftrightarrow> (\<exists>row \<in> set (body_rows ?f as). terms_fit ?ts \<sigma> row)" for \<sigma>
      by (rule body_rows_fit [symmetric]) (rule len)
    then show ?thesis unfolding holds by (simp only:)
  qed
  also have "\<dots> = row_assignment ?ts ` {row \<in> set (body_rows ?f as). agree ?ts row}"
  proof (intro equalityI subsetI)
    fix \<sigma> assume "\<sigma> \<in> {\<sigma>. dom \<sigma> = {x. x \<noteq> ''_'' \<and> Variable x \<in> set ?ts} \<and> (\<exists>row \<in> set (body_rows ?f as). terms_fit ?ts \<sigma> row)}"
    then obtain row where row: "dom \<sigma> = {x. x \<noteq> ''_'' \<and> Variable x \<in> set ?ts}" "row \<in> set (body_rows ?f as)" "terms_fit ?ts \<sigma> row"
      by blast
    then have "\<sigma> = row_assignment ?ts row" by (intro fit_assignment)
    with row show "\<sigma> \<in> row_assignment ?ts ` {row \<in> set (body_rows ?f as). agree ?ts row}" by (auto simp: agree_iff_fit)
  next
    fix \<sigma> assume "\<sigma> \<in> row_assignment ?ts ` {row \<in> set (body_rows ?f as). agree ?ts row}"
    then obtain row where row: "row \<in> set (body_rows ?f as)" "agree ?ts row" "\<sigma> = row_assignment ?ts row" by blast
    have "dom \<sigma> = {x. x \<noteq> ''_'' \<and> Variable x \<in> set ?ts}"
      unfolding row(3) by (auto simp: row_assignment_def dom_def)
    moreover have "terms_fit ?ts \<sigma> row" using row(2) unfolding row(3) agree_iff_fit .
    ultimately show "\<sigma> \<in> {\<sigma>. dom \<sigma> = {x. x \<noteq> ''_'' \<and> Variable x \<in> set ?ts} \<and> (\<exists>row \<in> set (body_rows ?f as). terms_fit ?ts \<sigma> row)}"
      using row(1) by (intro CollectI conjI bexI)
  qed
  finally show ?thesis by (simp add: join_rows_def)
qed

text \<open>A row fits some extension of an assignment when it agrees with itself and with the assignment.\<close>

lemma extension_fits:
  "(\<exists>\<sigma>'. \<sigma> \<subseteq>\<^sub>m \<sigma>' \<and> terms_fit ts \<sigma>' row)
   \<longleftrightarrow> agree ts row \<and> (\<forall>i < length ts. \<forall>x v. ts ! i = Variable x \<and> x \<noteq> ''_'' \<and> \<sigma> x = Some v \<longrightarrow> row ! i = v)"
  (is "?l \<longleftrightarrow> ?r")
proof
  assume ?l
  then obtain \<sigma>' where sub: "\<sigma> \<subseteq>\<^sub>m \<sigma>'" and fit: "terms_fit ts \<sigma>' row" by blast
  have at: "\<sigma>' x = Some (row ! i)" if "i < length ts" "ts ! i = Variable x" "x \<noteq> ''_''" for i x
    using fit that by (simp add: terms_fit_def)
  have "agree ts row" unfolding agree_def
  proof (intro allI impI)
    fix i x assume i: "i < length ts" and x: "ts ! i = Variable x \<and> x \<noteq> ''_''"
    then have "Variable x \<in> set ts" by (metis nth_mem)
    with at [of i x] at [of "first_index x ts" x] first_index_lookup [of x ts] i x
    show "row ! i = row ! first_index x ts" by simp
  qed
  moreover have "row ! i = v" if "i < length ts" "ts ! i = Variable x \<and> x \<noteq> ''_'' \<and> \<sigma> x = Some v" for i x v
    using at [of i x] that sub by (auto simp: map_le_def dom_def)
  ultimately show ?r by blast
next
  assume r: ?r
  let ?\<sigma> = "row_assignment ts row ++ \<sigma>"
  have "terms_fit ts ?\<sigma> row" unfolding terms_fit_def
  proof (intro allI impI)
    fix i x assume "i < length ts" "ts ! i = Variable x \<and> x \<noteq> ''_''"
    with r show "?\<sigma> x = Some (row ! i)"
      using agree_iff_fit [of ts row] by (auto simp: map_add_def terms_fit_def split: option.splits)
  qed
  moreover have "\<sigma> \<subseteq>\<^sub>m ?\<sigma>" by (simp add: map_le_map_add)
  ultimately show ?l by blast
qed

end
