(* ===== verification/Lower_Stages.thy ===== *)
theory Lower_Stages
  imports Rule_Meaning
begin

text \<open>
  Lowering keeps the meaning of a rule: if the checks that precede lowering accept the rule and the plan
  runs, its rows are the answers of the rule. Each stage of \<open>lower_rule\<close> turns rows that stand for the
  assignments satisfying some of the body literals into rows for those that satisfy one literal more.
\<close>

section \<open>The environment of the planned atoms\<close>

lemma get_column_add_term:
  "get_column (add_term_variable schemas a c (i, t) ve) x =
     (case get_column ve x of
        Some k \<Rightarrow> Some k
      | None \<Rightarrow> if x \<noteq> ''_'' \<and> t = Variable x then Some (c + i) else None)"
  by (cases t) (auto simp: add_term_variable_def add_occurrence_def get_column_def Let_def split: list.splits)

lemma env_types_add_term:
  "env_types (add_term_variable schemas a c (i, t) ve) x =
     (case env_types ve x of
        Some ty \<Rightarrow> Some ty
      | None \<Rightarrow> if x \<noteq> ''_'' \<and> t = Variable x
                then Some (case schema_column schemas a i of Some ty \<Rightarrow> ty | None \<Rightarrow> TyI64) else None)"
  by (cases t) (auto simp: add_term_variable_def add_occurrence_def Let_def split: option.splits)

definition env_ok :: "(string \<Rightarrow> scalar_type option) \<Rightarrow> variable_env \<Rightarrow> bool" where
  "env_ok tys ve \<longleftrightarrow>
     (\<forall>x. env_types ve x = None \<longleftrightarrow> get_column ve x = None) \<and> (\<forall>x t. env_types ve x = Some t \<longrightarrow> tys x = Some t)"

lemma add_terms:
  assumes "\<And>k x. k < length ts \<Longrightarrow> ts ! k = Variable x \<Longrightarrow> x \<noteq> ''_'' \<Longrightarrow> \<exists>ty. schema_column schemas a (i + k) = Some ty \<and> tys x = Some ty"
    and "env_ok tys ve"
  shows "get_column (fold (add_term_variable schemas a c) (zip [i..<i + length ts] ts) ve) x =
     (case get_column ve x of
        Some k \<Rightarrow> Some k
      | None \<Rightarrow> if x \<noteq> ''_'' \<and> Variable x \<in> set ts then Some (c + i + first_index x ts) else None)
    \<and> env_ok tys (fold (add_term_variable schemas a c) (zip [i..<i + length ts] ts) ve)"
  using assms
proof (induction ts arbitrary: i ve)
  case (Cons t ts)
  let ?ve = "add_term_variable schemas a c (i, t) ve"
  have same: "env_types ve y = None \<longleftrightarrow> get_column ve y = None" and sub: "env_types ve y = Some ty \<Longrightarrow> tys y = Some ty"
    for y ty using Cons.prems(2) by (simp_all add: env_ok_def)
  have "env_types ?ve y = None \<longleftrightarrow> get_column ?ve y = None" for y
    using same [of y] by (auto simp: get_column_add_term env_types_add_term split: option.splits)
  moreover have "tys y = Some ty" if "env_types ?ve y = Some ty" for y ty
    using that sub [of y] Cons.prems(1) [of 0 y]
    by (cases "env_types ve y") (auto simp: env_types_add_term split: if_splits)
  ultimately have "env_ok tys ?ve" by (simp add: env_ok_def)
  moreover have "\<exists>ty. schema_column schemas a (Suc i + k) = Some ty \<and> tys y = Some ty"
    if "k < length ts" "ts ! k = Variable y" "y \<noteq> ''_''" for k y
    using Cons.prems(1) [of "Suc k" y] that by simp
  ultimately have IH: "get_column (fold (add_term_variable schemas a c) (zip [Suc i..<Suc i + length ts] ts) ?ve) x =
     (case get_column ?ve x of
        Some k \<Rightarrow> Some k
      | None \<Rightarrow> if x \<noteq> ''_'' \<and> Variable x \<in> set ts then Some (c + Suc i + first_index x ts) else None)
    \<and> env_ok tys (fold (add_term_variable schemas a c) (zip [Suc i..<Suc i + length ts] ts) ?ve)"
    by (intro Cons.IH)
  have "zip [i..<i + length (t # ts)] (t # ts) = (i, t) # zip [Suc i..<Suc i + length ts] ts"
    by (simp add: upt_rec)
  with IH show ?case by (auto simp: get_column_add_term first_index_Cons split: option.splits)
qed (auto split: option.splits)

lemma add_atoms:
  assumes "\<forall>a \<in> set as. atom_ready E st db store tys a" and "env_ok tys ve"
  shows "\<exists>ve'. fold (add_atom_variables (low_schemas st)) as (ve, c) = (ve', c + length (body_terms as))
    \<and> env_ok tys ve'
    \<and> (\<forall>x. get_column ve' x =
         (case get_column ve x of
            Some k \<Rightarrow> Some k
          | None \<Rightarrow> if x \<noteq> ''_'' \<and> Variable x \<in> set (body_terms as) then Some (c + first_index x (body_terms as)) else None))"
  using assms
proof (induction as arbitrary: ve c)
  case (Cons a as)
  have ready: "\<exists>ty. schema_column (low_schemas st) a (0 + k) = Some ty \<and> tys x = Some ty"
    if "k < length (terms a)" "terms a ! k = Variable x" "x \<noteq> ''_''" for k x
    using Cons.prems(1) that by (auto simp: atom_ready_def schema_column_def get_def)
  let ?ve = "fold (add_term_variable (low_schemas st) a c) (indexed (terms a)) ve"
  note step = add_terms [where ts = "terms a" and i = 0 and schemas = "low_schemas st" and a = a and c = c, OF ready Cons.prems(2)]
  have ve: "env_ok tys ?ve"
    and col: "get_column ?ve x = (case get_column ve x of
        Some k \<Rightarrow> Some k
      | None \<Rightarrow> if x \<noteq> ''_'' \<and> Variable x \<in> set (terms a) then Some (c + first_index x (terms a)) else None)" for x
    using step [unfolded add_0_right add_0_left] unfolding indexed_def by blast+
  obtain ve' where ve': "fold (add_atom_variables (low_schemas st)) as (?ve, c + length (terms a))
        = (ve', c + length (terms a) + length (body_terms as))" "env_ok tys ve'"
    and cols: "\<And>x. get_column ve' x = (case get_column ?ve x of
            Some k \<Rightarrow> Some k
          | None \<Rightarrow> if x \<noteq> ''_'' \<and> Variable x \<in> set (body_terms as)
                    then Some (c + length (terms a) + first_index x (body_terms as)) else None)"
    using Cons.IH [OF _ ve, of "c + length (terms a)"] Cons.prems(1) by auto
  have "get_column ve' x = (case get_column ve x of
            Some k \<Rightarrow> Some k
          | None \<Rightarrow> if x \<noteq> ''_'' \<and> Variable x \<in> set (body_terms (a # as)) then Some (c + first_index x (body_terms (a # as))) else None)" for x
    unfolding cols col by (auto simp: first_index_append split: option.splits)
  moreover have "fold (add_atom_variables (low_schemas st)) (a # as) (ve, c) = (ve', c + length (body_terms (a # as)))"
    using ve'(1) by (simp add: add_atom_variables_def add.assoc)
  ultimately show ?case using ve'(2) by blast
qed (auto split: option.splits)

section \<open>Stages\<close>

definition bind_row :: "variable_env \<Rightarrow> 'v list \<Rightarrow> 'v assignment" where
  "bind_row ve row = (\<lambda>x. map_option ((!) row) (get_column ve x))"

text \<open>The rows of \<open>node\<close>, if it runs, stand for the assignments to \<open>V\<close> under which \<open>P\<close> holds.\<close>

definition stage ::
    "'v engine \<Rightarrow> (rel_id \<Rightarrow> 'v buffer option) \<Rightarrow> (string \<Rightarrow> scalar_type option) \<Rightarrow> rir_node \<Rightarrow> variable_env
     \<Rightarrow> string set \<Rightarrow> ('v assignment \<Rightarrow> bool) \<Rightarrow> bool" where
  "stage E store tys node ve V P \<longleftrightarrow>
     {x. get_column ve x \<noteq> None} = V \<and> env_ok tys ve
     \<and> (\<forall>x col. get_column ve x = Some col \<longrightarrow> col < total_cols ve)
     \<and> (\<forall>b. execute_node E store node = Some b \<longrightarrow>
          length (btypes b) = total_cols ve
          \<and> (\<forall>x col. get_column ve x = Some col \<longrightarrow> env_types ve x = Some (btypes b ! col))
          \<and> (\<forall>row \<in> set (brows b). length row = total_cols ve)
          \<and> bind_row ve ` set (brows b) = {\<sigma>. dom \<sigma> = V \<and> P \<sigma>})"

lemma stage_positive:
  assumes ready: "\<forall>a \<in> set as. atom_ready E st db store tys a"
    and run: "execute_node E store node = Some \<lparr>btypes = body_schema (low_schemas st) as,
      brows = join_rows (atom_rows E env (low_schemas st) db) as\<rparr>"
  shows "stage E store tys node (build_variable_env (low_schemas st) as)
    {x. x \<noteq> ''_'' \<and> Variable x \<in> set (body_terms as)} (\<lambda>\<sigma>. \<forall>a \<in> set as. atom_holds E env (low_schemas st) db \<sigma> a)"
proof -
  have "env_ok tys new_variable_env" by (simp add: env_ok_def new_variable_env_def get_column_def)
  then obtain ve where ve: "fold (add_atom_variables (low_schemas st)) as (new_variable_env, 0) = (ve, length (body_terms as))"
      "env_ok tys ve"
    and cols: "\<And>x. get_column ve x = (if x \<noteq> ''_'' \<and> Variable x \<in> set (body_terms as)
        then Some (first_index x (body_terms as)) else None)"
    using add_atoms [OF ready, of new_variable_env 0] by (auto simp: new_variable_env_def get_column_def)
  define env' where "env' = build_variable_env (low_schemas st) as"
  have env': "env' = ve\<lparr>total_cols := length (body_terms as)\<rparr>" by (simp add: env'_def build_variable_env_def ve)
  have get: "get_column env' x = get_column ve x" for x by (simp add: env' get_column_def)
  have types: "env_types env' = env_types ve" "total_cols env' = length (body_terms as)" by (simp_all add: env')
  have ok: "env_ok tys env'" using ve(2) by (simp add: env_ok_def get types)
  have bind: "bind_row env' row = row_assignment (body_terms as) row" for row :: "'a list"
    by (auto simp: bind_row_def row_assignment_def get cols)
  have "env_types env' x = Some (body_schema (low_schemas st) as ! col)" if "get_column env' x = Some col" for x col
  proof -
    have x: "x \<noteq> ''_''" "Variable x \<in> set (body_terms as)" "col = first_index x (body_terms as)"
      using that by (auto simp: get cols split: if_splits)
    then have "tys x = Some (body_schema (low_schemas st) as ! col)"
      using body_schema_variable [OF ready, of col x] first_index_lookup [OF x(2)] by simp
    moreover have "env_types env' x \<noteq> None" using ok that unfolding env_ok_def by simp
    then obtain t where "env_types env' x = Some t" by blast
    ultimately show ?thesis using ok by (auto simp: env_ok_def)
  qed
  moreover have "col < length (body_terms as)" if "get_column env' x = Some col" for x col
    using that first_index_lookup [of x "body_terms as"] by (auto simp: get cols split: if_splits)
  moreover have "length row = length (body_terms as)" if "row \<in> set (join_rows (atom_rows E env (low_schemas st) db) as)" for row
    using row_typed_length [OF join_rows_typed [OF ready that]] body_schema_length [OF ready] by simp
  moreover have "{x. get_column env' x \<noteq> None} = {x. x \<noteq> ''_'' \<and> Variable x \<in> set (body_terms as)}"
    by (auto simp: get cols)
  ultimately show ?thesis
    unfolding stage_def env'_def [symmetric] using ok run join_rows_assignments [OF ready, of env] body_schema_length [OF ready]
    by (simp add: types bind)
qed


text \<open>The columns of the variables, as seen by one row.\<close>

definition columns_ok :: "variable_env \<Rightarrow> (string \<Rightarrow> scalar_type option) \<Rightarrow> scalar_type list \<Rightarrow> 'v list \<Rightarrow> bool" where
  "columns_ok ve tys ts row \<longleftrightarrow>
     length row = length ts \<and> env_ok tys ve
     \<and> (\<forall>x col. get_column ve x = Some col \<longrightarrow> col < length ts \<and> env_types ve x = Some (ts ! col))"

lemma columns_okD:
  assumes "columns_ok ve tys ts row" "get_column ve x = Some col"
  shows "get row col = Some (row ! col)" "get ts col = Some (ts ! col)" "tys x = Some (ts ! col)"
    "env_types ve x = Some (ts ! col)" "bind_row ve row x = Some (row ! col)"
  using assms by (auto simp: columns_ok_def get_def env_ok_def bind_row_def)

section \<open>Comparisons\<close>

definition reads :: "'v engine \<Rightarrow> scalar_type list \<Rightarrow> 'v list \<Rightarrow> rexpr \<Rightarrow> 'v \<times> bool \<Rightarrow> bool" where
  "reads E ts row e = (\<lambda>(v, fl). eval_arith E ts row e = Some v \<and> expr_may_be_float e ts = fl)"

lemma variable_operand:
  assumes "columns_ok ve tys ts row" "get_column ve x = Some col"
  shows "operand E env tys (bind_row ve row) other (Variable x) = Some (row ! col, float_type (ts ! col))"
    and "reads E ts row (EColumn col) (row ! col, float_type (ts ! col))"
  using columns_okD [OF assms] by (simp_all add: operand_def reads_def)

lemma constant_operand:
  assumes "\<not> is_variable t" "compared_constant env tys other t = Some c"
  shows "operand E env tys \<sigma> other t = Some (const_column E c, float_const c)"
    and "reads E ts row (EConst c) (const_column E c, float_const c)"
  using assms by (auto simp: operand_def reads_def is_variable_def split: ast_term.splits)

lemma plain_term:
  assumes "term_to_expr env t ve = Inr e" "\<not> is_variable t"
  shows "\<exists>c. plain_constant (low_scalars env) t = Some c \<and> e = EConst c"
  using assms by (cases t) (auto simp: term_to_expr_def plain_constant_def is_variable_def split: option.splits)

lemma untyped_term:
  assumes "term_to_typed_const_value env t ty = Inr None"
  shows "plain_constant env t = None"
  using assms by (cases t; cases ty) (auto simp: term_to_typed_const_value_def plain_constant_def Let_def split: if_splits option.splits)

lemma typed_term_not_variable: "term_to_typed_const_value env t ty = Inr (Some c) \<Longrightarrow> \<not> is_variable t"
  by (cases t) (auto simp: term_to_typed_const_value_def is_variable_def)

lemma variable_expr: "term_to_expr env (Variable x) ve = Inr e \<Longrightarrow> \<exists>col. get_column ve x = Some col \<and> e = EColumn col"
  by (auto simp: term_to_expr_def split: option.splits)

text \<open>One side of a comparison with a variable on the other side.\<close>

lemma side_of_variable:
  assumes ok: "columns_ok ve tys ts row" and y: "get_column ve y = Some col"
    and typed: "term_to_typed_const_value (low_scalars env) t (ts ! col) = Inr res"
    and e: "case res of Some v \<Rightarrow> e = EConst v | None \<Rightarrow> term_to_expr env t ve = Inr e"
  shows "\<exists>a. operand E (low_scalars env) tys (bind_row ve row) (Variable y) t = Some a \<and> reads E ts row e a"
proof (cases res)
  case None
  then have "plain_constant (low_scalars env) t = None" using typed untyped_term by simp
  with e None obtain x where x: "t = Variable x"
    using plain_term [of env t ve e] by (cases t) (auto simp: is_variable_def)
  then obtain c where "get_column ve x = Some c" "e = EColumn c" using e None variable_expr by fastforce
  with variable_operand [OF ok] x show ?thesis by blast
next
  case (Some v)
  have "compared_constant (low_scalars env) tys (Variable y) t = Some v"
    using columns_okD(3) [OF ok y] typed Some by (simp add: compared_constant_def)
  moreover have "\<not> is_variable t" using typed Some typed_term_not_variable by blast
  ultimately show ?thesis using constant_operand Some e by fastforce
qed

lemma comparison_sides:
  assumes ok: "columns_ok ve tys ts row" and exprs: "comparison_exprs env c ve = Inr (l, r)"
  shows "\<exists>a b. operand E (low_scalars env) tys (bind_row ve row) (cmp_right c) (cmp_left c) = Some a \<and> reads E ts row l a
    \<and> operand E (low_scalars env) tys (bind_row ve row) (cmp_left c) (cmp_right c) = Some b \<and> reads E ts row r b"
proof -
  let ?env = "low_scalars env"
  let ?op = "\<lambda>other t. operand E ?env tys (bind_row ve row) other t"
  have column: "\<exists>col. get_column ve x = Some col \<and> term_to_typed_const_value ?env t (ts ! col) = Inr res"
    if "bind_res (variable_column_type x ve) (\<lambda>(col, ty).
          map_res (map_option (Pair col)) (map_err BadLiteral (term_to_typed_const_value ?env t ty))) = Inr res'"
       "res = map_option snd res'" for x t res res'
    using that columns_okD(4) [OF ok, of x]
    by (auto simp: variable_column_type_def bind_res_Inr_iff map_res_Inr_iff map_err_Inr_iff option.map_comp comp_def
        option.map_ident split: option.splits)
  show ?thesis
  proof (cases "is_variable (cmp_left c)")
    case True
    then obtain x where x: "cmp_left c = Variable x" by (auto simp: is_variable_def split: ast_term.splits)
    obtain res where res: "bind_res (variable_column_type x ve) (\<lambda>(col, ty).
          map_res (map_option (Pair col)) (map_err BadLiteral (term_to_typed_const_value ?env (cmp_right c) ty))) = Inr res"
      and out: "case res of Some (col, v) \<Rightarrow> (l, r) = (EColumn col, EConst v)
        | None \<Rightarrow> term_to_expr env (Variable x) ve = Inr l \<and> term_to_expr env (cmp_right c) ve = Inr r"
      using exprs by (auto simp: comparison_exprs_def x bind_res_Inr_iff map_res_Inr_iff Let_def split: option.splits)
    obtain col where col: "get_column ve x = Some col" "term_to_typed_const_value ?env (cmp_right c) (ts ! col) = Inr (map_option snd res)"
      using column [OF res refl] by blast
    have first: "map_option fst res = map_option (\<lambda>_. col) res"
      using res col(1) by (auto simp: variable_column_type_def bind_res_Inr_iff map_res_Inr_iff option.map_comp comp_def split: option.splits)
    have l: "l = EColumn col"
      using out first col(1) by (cases res) (auto simp: term_to_expr_def)
    have "\<exists>b. ?op (Variable x) (cmp_right c) = Some b \<and> reads E ts row r b"
      by (rule side_of_variable [OF ok col]) (use out in \<open>auto split: option.splits\<close>)
    then show ?thesis using variable_operand [OF ok col(1)] unfolding x l by blast
  next
    case False
    show ?thesis
    proof (cases "is_variable (cmp_right c)")
      case True
      then obtain x where x: "cmp_right c = Variable x" by (auto simp: is_variable_def split: ast_term.splits)
      obtain res where res: "bind_res (variable_column_type x ve) (\<lambda>(col, ty).
            map_res (map_option (Pair col)) (map_err BadLiteral (term_to_typed_const_value ?env (cmp_left c) ty))) = Inr res"
        and out: "case res of Some (col, v) \<Rightarrow> (l, r) = (EConst v, EColumn col)
          | None \<Rightarrow> term_to_expr env (cmp_left c) ve = Inr l \<and> term_to_expr env (Variable x) ve = Inr r"
        using exprs False by (cases "cmp_left c")
          (auto simp: comparison_exprs_def x is_variable_def bind_res_Inr_iff map_res_Inr_iff Let_def split: option.splits)
      obtain col where col: "get_column ve x = Some col" "term_to_typed_const_value ?env (cmp_left c) (ts ! col) = Inr (map_option snd res)"
        using column [OF res refl] by blast
      have first: "map_option fst res = map_option (\<lambda>_. col) res"
        using res col(1) by (auto simp: variable_column_type_def bind_res_Inr_iff map_res_Inr_iff option.map_comp comp_def split: option.splits)
      have r: "r = EColumn col"
        using out first col(1) by (cases res) (auto simp: term_to_expr_def)
      have "\<exists>a. ?op (Variable x) (cmp_left c) = Some a \<and> reads E ts row l a"
        by (rule side_of_variable [OF ok col]) (use out in \<open>auto split: option.splits\<close>)
      then show ?thesis using variable_operand [OF ok col(1)] unfolding x r by blast
    next
      case right: False
      have terms: "term_to_expr env (cmp_left c) ve = Inr l" "term_to_expr env (cmp_right c) ve = Inr r"
        using exprs False right by (cases "cmp_left c"; cases "cmp_right c";
          auto simp: comparison_exprs_def is_variable_def bind_res_Inr_iff map_res_Inr_iff)+
      obtain cl cr where lits: "plain_constant ?env (cmp_left c) = Some cl" "l = EConst cl"
          "plain_constant ?env (cmp_right c) = Some cr" "r = EConst cr"
        using plain_term terms False right by metis
      then have "compared_constant ?env tys (cmp_right c) (cmp_left c) = Some cl"
          "compared_constant ?env tys (cmp_left c) (cmp_right c) = Some cr"
        using False right by (auto simp: compared_constant_def is_variable_def split: ast_term.splits)
      then show ?thesis using constant_operand False right lits by metis
    qed
  qed
qed

lemma comparison_meaning:
  assumes "columns_ok ve tys ts row" and "comparison_exprs env c ve = Inr (l, r)"
  shows "eval_pred E ts row (ECompare l (compare_op_of (cmp_op c)) r) = Some True
    \<longleftrightarrow> comparison_holds E (low_scalars env) tys (bind_row ve row) c"
proof -
  obtain a fa b fb where "operand E (low_scalars env) tys (bind_row ve row) (cmp_right c) (cmp_left c) = Some (a, fa)"
    "reads E ts row l (a, fa)" "operand E (low_scalars env) tys (bind_row ve row) (cmp_left c) (cmp_right c) = Some (b, fb)"
    "reads E ts row r (b, fb)"
    using comparison_sides [OF assms, of E] by auto
  then show ?thesis by (simp add: comparison_holds_def reads_def)
qed

section \<open>Arithmetic\<close>

lemma arith_to_expr_meaning:
  assumes ok: "columns_ok ve tys ts row"
  shows "arith_to_expr ve e = Inr ir \<Longrightarrow> eval_arith E ts row ir = arith_meaning E tys (bind_row ve row) e
    \<and> expr_may_be_float ir ts = arith_may_be_float tys e"
proof (induction e arbitrary: ir)
  case (AVariable x)
  then obtain col where "get_column ve x = Some col" "ir = EColumn col" by (auto split: option.splits)
  with columns_okD [OF ok] show ?case by simp
next
  case (Conditional cl cop cr t e)
  then show ?case
    by (fastforce simp: bind_res_Inr_iff map_res_Inr_iff both_values_def)
qed (fastforce simp: bind_res_Inr_iff map_res_Inr_iff both_values_def)+

lemma arith_to_expr_columns:
  "arith_to_expr ve e = Inr ir \<Longrightarrow> x \<in> set (arith_variables e) \<Longrightarrow> get_column ve x \<noteq> None"
  by (induction e arbitrary: ir) (fastforce simp: bind_res_Inr_iff map_res_Inr_iff split: option.splits)+


section \<open>Filters and computed columns\<close>

lemma stage_columns:
  assumes "stage E store tys node ve V P" "execute_node E store node = Some b" "row \<in> set (brows b)"
  shows "columns_ok ve tys (btypes b) row"
  using assms by (auto simp: stage_def columns_ok_def)

lemma filter_rows_Some: "filter_rows p xs = Some ys \<Longrightarrow> ys = filter (\<lambda>x. p x = Some True) xs"
  by (induction xs arbitrary: ys) (auto simp: bind_eq_Some_conv split: if_splits)

lemma stage_filter:
  assumes stage: "stage E store tys node ve V P"
    and eval: "\<And>ts row. columns_ok ve tys ts row \<Longrightarrow> eval_pred E ts row p = Some True \<longleftrightarrow> Q (bind_row ve row)"
  shows "stage E store tys (FilterNode node p) ve V (\<lambda>\<sigma>. P \<sigma> \<and> Q \<sigma>)"
proof -
  have "length (btypes b') = total_cols ve
      \<and> (\<forall>x col. get_column ve x = Some col \<longrightarrow> env_types ve x = Some (btypes b' ! col))
      \<and> (\<forall>row \<in> set (brows b'). length row = total_cols ve)
      \<and> bind_row ve ` set (brows b') = {\<sigma>. dom \<sigma> = V \<and> P \<sigma> \<and> Q \<sigma>}"
    if run: "execute_node E store (FilterNode node p) = Some b'" for b'
  proof -
    obtain b where b: "execute_node E store node = Some b" "execute_filter E b p = Some b'"
      using run by (auto simp: bind_eq_Some_conv)
    have types: "btypes b' = btypes b" and rows: "brows b' = filter (\<lambda>row. eval_pred E (btypes b) row p = Some True) (brows b)"
      using b(2) filter_rows_Some by (auto simp: execute_filter_def)
    have kept: "set (brows b') = {row \<in> set (brows b). Q (bind_row ve row)}"
      unfolding rows using eval stage_columns [OF stage b(1)] by auto
    have "bind_row ve ` set (brows b) = {\<sigma>. dom \<sigma> = V \<and> P \<sigma>}" using stage b(1) by (simp add: stage_def)
    moreover have "bind_row ve ` {row \<in> set (brows b). Q (bind_row ve row)} = {\<sigma> \<in> bind_row ve ` set (brows b). Q \<sigma>}"
      by blast
    ultimately have "bind_row ve ` {row \<in> set (brows b). Q (bind_row ve row)} = {\<sigma>. dom \<sigma> = V \<and> P \<sigma> \<and> Q \<sigma>}"
      by auto
    then show ?thesis unfolding kept types using stage b(1) by (auto simp: stage_def)
  qed
  then show ?thesis using stage unfolding stage_def by blast
qed

lemma execute_extend:
  assumes "execute_project E b (map PColumn [0..<n] @ [Computed e t]) = Some b'"
    and "n = length (btypes b)" "\<forall>row \<in> set (brows b). length row = length (btypes b)"
  shows "(\<forall>row \<in> set (brows b). eval_arith E (btypes b) row e \<noteq> None)
    \<and> b' = \<lparr>btypes = btypes b @ [t], brows = map (\<lambda>row. row @ [the (eval_arith E (btypes b) row e)]) (brows b)\<rparr>"
proof -
  have all: "eval_arith E (btypes b) row e \<noteq> None" if "row \<in> set (brows b)" for row
  proof
    assume "eval_arith E (btypes b) row e = None"
    then have "each_row (project_value E (btypes b) row) (map PColumn [0..<n] @ [Computed e t]) = None"
      by (simp add: each_row_append project_value_def)
    with that have "each_row (\<lambda>row. each_row (project_value E (btypes b) row) (map PColumn [0..<n] @ [Computed e t])) (brows b) = None"
      unfolding each_row_None [of _ "brows b"] by blast
    then show False using assms(1) by (simp add: execute_project_def bind_eq_Some_conv)
  qed
  then have "execute_project E b (map PColumn [0..<n] @ [Computed e t])
      = Some \<lparr>btypes = btypes b @ [t], brows = map (\<lambda>row. row @ [the (eval_arith E (btypes b) row e)]) (brows b)\<rparr>"
    unfolding assms(2) by (intro project_extend) (use assms(3) in auto)
  with all assms(1) show ?thesis by auto
qed

lemma get_column_bind: "get_column (bind_variable x c t ve) y =
    (if y = x then (case get_column ve x of None \<Rightarrow> Some c | Some k \<Rightarrow> Some k) else get_column ve y)"
  by (auto simp: get_column_def bind_variable_def split: list.splits)

lemma stage_is_expr:
  fixes E :: "'v engine"
  assumes stage: "stage E store tys node ve V P" and fresh: "is_target e \<notin> V"
    and ty: "tys (is_target e) = Some t" and ir: "arith_to_expr ve (is_rhs e) = Inr ir" and localP: "local_to V P"
  shows "stage E store tys (ProjectNode node (map PColumn [0..<total_cols ve] @ [Computed ir t]))
    (bind_variable (is_target e) (total_cols ve) t ve) (insert (is_target e) V)
    (\<lambda>\<sigma>. P \<sigma> \<and> literal_holds E env schemas db tys \<sigma> (IsExpr e))"
proof -
  let ?x = "is_target e" and ?w = "total_cols ve"
  let ?ve = "bind_variable ?x ?w t ve"
  let ?node = "ProjectNode node (map PColumn [0..<?w] @ [Computed ir t])"
  have V: "{x. get_column ve x \<noteq> None} = V" and ok: "env_ok tys ve"
    and bound: "\<And>x col. get_column ve x = Some col \<Longrightarrow> col < ?w"
    using stage by (auto simp: stage_def)
  have none: "get_column ve ?x = None" using V fresh by auto
  have get: "get_column ?ve y = (if y = ?x then Some ?w else get_column ve y)" for y
    by (simp add: get_column_bind none)
  have types: "env_types ?ve = (env_types ve)(?x \<mapsto> t)" "total_cols ?ve = ?w + 1" by (simp_all add: bind_variable_def)
  have vars: "set (arith_variables (is_rhs e)) \<subseteq> V" using arith_to_expr_columns [OF ir] V by auto
  have domain: "{x. get_column ?ve x \<noteq> None} = insert ?x V" using V by (auto simp: get)
  have ok': "env_ok tys ?ve" using ok ty by (auto simp: env_ok_def get types)
  have bound': "col < total_cols ?ve" if "get_column ?ve x = Some col" for x col
    using that bound [of x col] by (auto simp: get types split: if_splits)
  have "length (btypes b') = total_cols ?ve
      \<and> (\<forall>x col. get_column ?ve x = Some col \<longrightarrow> env_types ?ve x = Some (btypes b' ! col))
      \<and> (\<forall>row \<in> set (brows b'). length row = total_cols ?ve)
      \<and> bind_row ?ve ` set (brows b')
        = {\<sigma>. dom \<sigma> = insert ?x V \<and> P \<sigma> \<and> literal_holds E env schemas db tys \<sigma> (IsExpr e)}"
    if run: "execute_node E store ?node = Some b'" for b'
  proof -
    obtain b where b: "execute_node E store node = Some b"
        "execute_project E b (map PColumn [0..<?w] @ [Computed ir t]) = Some b'"
      using run by (auto simp: bind_eq_Some_conv)
    have w: "?w = length (btypes b)" and lens: "\<forall>row \<in> set (brows b). length row = length (btypes b)"
      and coltypes: "\<And>x col. get_column ve x = Some col \<Longrightarrow> env_types ve x = Some (btypes b ! col)"
      and image: "bind_row ve ` set (brows b) = {\<sigma>. dom \<sigma> = V \<and> P \<sigma>}"
      using stage b(1) by (auto simp: stage_def)
    let ?v = "\<lambda>row. the (eval_arith E (btypes b) row ir)"
    have all: "\<forall>row \<in> set (brows b). eval_arith E (btypes b) row ir \<noteq> None"
      and b': "b' = \<lparr>btypes = btypes b @ [t], brows = map (\<lambda>row. row @ [?v row]) (brows b)\<rparr>"
      using execute_extend [OF b(2) w lens] by auto
    have value_of: "arith_meaning E tys (bind_row ve row) (is_rhs e) = Some (?v row)" if "row \<in> set (brows b)" for row
    proof -
      have "eval_arith E (btypes b) row ir = arith_meaning E tys (bind_row ve row) (is_rhs e)"
        using arith_to_expr_meaning [OF stage_columns [OF stage b(1) that] ir] by (rule conjunct1)
      moreover have "eval_arith E (btypes b) row ir \<noteq> None" using all that by (rule bspec)
      ultimately show ?thesis by auto
    qed
    have extend: "bind_row ?ve (row @ [?v row]) = (bind_row ve row)(?x \<mapsto> ?v row)" if "row \<in> set (brows b)" for row
    proof
      fix y
      have "length row = ?w" using lens w that by simp
      then show "bind_row ?ve (row @ [?v row]) y = ((bind_row ve row)(?x \<mapsto> ?v row)) y"
        using bound [of y] by (auto simp: bind_row_def get nth_append split: option.splits)
          (cases "get_column ve y"; simp add: nth_append)
    qed
    have "bind_row ?ve ` set (brows b') = (\<lambda>row. (bind_row ve row)(?x \<mapsto> ?v row)) ` set (brows b)"
      unfolding b' using extend by (simp add: image_image)
    also have "\<dots> = {\<sigma>. dom \<sigma> = insert ?x V \<and> P \<sigma> \<and> literal_holds E env schemas db tys \<sigma> (IsExpr e)}" (is "?l = ?r")
    proof (intro equalityI subsetI)
      fix \<sigma> assume "\<sigma> \<in> ?l"
      then obtain row where row: "row \<in> set (brows b)" "\<sigma> = (bind_row ve row)(?x \<mapsto> ?v row)" by blast
      have "bind_row ve row \<in> {\<sigma>. dom \<sigma> = V \<and> P \<sigma>}" unfolding image [symmetric] using row(1) by (rule imageI)
      then have base: "dom (bind_row ve row) = V" "P (bind_row ve row)" by simp_all
      have same: "\<forall>y \<in> V. bind_row ve row y = \<sigma> y" using fresh row(2) by auto
      have "P \<sigma>" using localP same base(2) unfolding local_to_def by blast
      moreover have "arith_meaning E tys \<sigma> (is_rhs e) = arith_meaning E tys (bind_row ve row) (is_rhs e)"
      proof (rule arith_meaning_cong)
        fix y assume "y \<in> set (arith_variables (is_rhs e))"
        then have "y \<in> V" using vars by blast
        then show "\<sigma> y = bind_row ve row y" using same by simp
      qed
      then have "arith_meaning E tys \<sigma> (is_rhs e) = Some (?v row)" using value_of [OF row(1)] by simp
      ultimately show "\<sigma> \<in> ?r" using base(1) row(2) by (simp add: literal_holds_def)
    next
      fix \<sigma> assume \<sigma>: "\<sigma> \<in> ?r"
      define \<sigma>0 where "\<sigma>0 = \<sigma>(?x := None)"
      have same: "\<forall>y \<in> V. \<sigma>0 y = \<sigma> y" using fresh by (auto simp: \<sigma>0_def)
      have "dom \<sigma>0 = V" using \<sigma> fresh by (auto simp: \<sigma>0_def)
      moreover have "P \<sigma>0" using localP same \<sigma> unfolding local_to_def by blast
      ultimately have "\<sigma>0 \<in> bind_row ve ` set (brows b)" unfolding image by simp
      then obtain row where row: "row \<in> set (brows b)" "\<sigma>0 = bind_row ve row" by blast
      have "arith_meaning E tys \<sigma> (is_rhs e) = arith_meaning E tys \<sigma>0 (is_rhs e)"
        using vars same by (intro arith_meaning_cong) auto
      then have "\<sigma> ?x = Some (?v row)" using \<sigma> value_of [OF row(1)] row(2) by (simp add: literal_holds_def)
      then have "\<sigma> = (bind_row ve row)(?x \<mapsto> ?v row)" using row(2) by (auto simp: \<sigma>0_def fun_eq_iff split: if_splits)
      then show "\<sigma> \<in> ?l" using row(1) by blast
    qed
    finally have "bind_row ?ve ` set (brows b')
        = {\<sigma>. dom \<sigma> = insert ?x V \<and> P \<sigma> \<and> literal_holds E env schemas db tys \<sigma> (IsExpr e)}" .
    moreover have "env_types ?ve y = Some (btypes b' ! col)" if "get_column ?ve y = Some col" for y col
    proof (cases "y = ?x")
      case True
      then have "col = length (btypes b)" using that w unfolding get by simp
      then show ?thesis using True by (simp add: types b')
    next
      case False
      then have col: "get_column ve y = Some col" using that unfolding get by simp
      then show ?thesis unfolding types using False coltypes [OF col] bound [OF col] w by (simp add: b' nth_append)
    qed
    moreover have "length (btypes b') = total_cols ?ve" "\<forall>row \<in> set (brows b'). length row = total_cols ?ve"
      unfolding types(2) using w lens by (auto simp: b')
    ultimately show ?thesis by blast
  qed
  then show ?thesis using domain ok' bound' unfolding stage_def by blast
qed

end
