(* ===== verification/Lower_Negation.thy ===== *)
theory Lower_Negation
  imports Lower_Stages
begin

text \<open>
  The remaining stages of lowering: negated atoms, the loops over the literals of each kind with the
  types that inference records for arithmetic bindings, and the projection to the head.
\<close>

section \<open>Negated atoms\<close>

lemma negation_columns_iff:
  "(c, i) \<in> set (negation_columns ve a) \<longleftrightarrow>
     (\<exists>x. i < length (terms a) \<and> terms a ! i = Variable x \<and> get_column ve x = Some c)"
  by (force simp: negation_columns_def in_indexed_iff split: ast_term.splits option.splits)

lemma negation_columns_filter:
  "map snd (negation_columns ve a)
     = map fst (filter (\<lambda>(i, t). \<exists>x col. t = Variable x \<and> get_column ve x = Some col) (indexed (terms a)))"
proof -
  have "map snd (concat (map (\<lambda>(i, t). case t of
         Variable x \<Rightarrow> (case get_column ve x of Some col \<Rightarrow> [(col, i)] | None \<Rightarrow> [])
       | _ \<Rightarrow> []) its)) = map fst (filter (\<lambda>(i, t). \<exists>x col. t = Variable x \<and> get_column ve x = Some col) its)" for its
    by (induction its) (auto split: ast_term.splits option.splits)
  then show ?thesis by (simp add: negation_columns_def)
qed

lemma filter_full: "length (filter P xs) = length xs \<Longrightarrow> filter P xs = xs"
  by (rule filter_True) (metis length_filter_less less_irrefl)

lemma negation_columns_full:
  assumes "\<not> length (map snd (negation_columns ve a)) < length (terms a)"
  shows "map snd (negation_columns ve a) = [0..<length (terms a)]"
proof -
  let ?p = "\<lambda>(i, t). \<exists>x col. t = Variable x \<and> get_column ve x = Some col"
  have "length (filter ?p (indexed (terms a))) = length (indexed (terms a))"
    using assms length_filter_le [of ?p "indexed (terms a)"] unfolding negation_columns_filter by simp
  then have "filter ?p (indexed (terms a)) = indexed (terms a)" by (rule filter_full)
  then show ?thesis unfolding negation_columns_filter by (simp add: indexed_def)
qed

lemma keys_of_identity: "length row = n \<Longrightarrow> keys_of [0..<n] row = row"
  unfolding keys_of_def by (metis map_nth)

lemma keys_of_eq: "keys_of (map fst ps) x = keys_of (map snd ps) y \<longleftrightarrow> (\<forall>(c, i) \<in> set ps. x ! c = y ! i)"
  by (auto simp: keys_of_def)

lemma gate_rows:
  assumes b: "execute_node E store input = Some b" and neg: "execute_node E store neg = Some bn"
    and lens: "\<forall>row \<in> set (brows b). length row = length (btypes b)" and w: "w = length (btypes b)"
  shows "execute_node E store (existence_gate w input neg)
    = Some \<lparr>btypes = btypes b, brows = (if brows bn = [] then brows b else [])\<rparr>"
proof -
  let ?k = "const_column E (CvU32 0)"
  let ?b = "\<lparr>btypes = btypes b @ [TyU32], brows = map (\<lambda>x. x @ [?k]) (brows b)\<rparr>"
  let ?n = "\<lparr>btypes = [TyU32], brows = map (\<lambda>_. [?k]) (brows bn)\<rparr>"
  let ?kept = "if brows bn = [] then brows b else []"
  have left: "execute_project E b (map PColumn [0..<w] @ [const_key]) = Some ?b"
    unfolding const_key_def w by (rule project_extend) (use lens in simp_all)
  have right: "execute_project E bn [const_key] = Some ?n"
    by (simp add: execute_project_def project_schema_def const_key_def project_type_def project_value_def each_row_eq_map)
  have "list_ex (\<lambda>y. keys_of [w] (x @ [?k]) = keys_of [0] y) (map (\<lambda>_. [?k]) (brows bn))"
    if "x \<in> set (brows b)" "brows bn \<noteq> []" for x
  proof -
    have "length x = w" using that(1) lens w by simp
    then have "keys_of [w] (x @ [?k]) = keys_of [0] [?k]" by (simp add: keys_of_def nth_append)
    with that(2) show ?thesis by (auto simp: list_ex_iff neq_Nil_conv)
  qed
  then have none: "filter (\<lambda>x. \<not> list_ex (\<lambda>y. keys_of [w] x = keys_of [0] y) (brows ?n)) (brows ?b) = []"
    if "brows bn \<noteq> []" using that by (auto simp: filter_empty_conv)
  have valid: "join_keys_valid ?b ?n [w] [0]" using w by (simp add: join_keys_valid_def get_def)
  have join: "execute_join E ?b ?n [w] [0] AntiJoin = Some \<lparr>btypes = btypes ?b, brows = map (\<lambda>x. x @ [?k]) ?kept\<rparr>"
    using none valid by (auto simp: execute_join_def Let_def)
  let ?j = "\<lparr>btypes = btypes ?b, brows = map (\<lambda>x. x @ [?k]) ?kept\<rparr>"
  have "execute_project E ?j (map PColumn [0..<w])
      = Some \<lparr>btypes = map ((!) (btypes ?j)) [0..<w], brows = map (keys_of [0..<w]) (brows ?j)\<rparr>"
    by (rule project_columns [OF refl]) (use lens w in auto)
  moreover have "map ((!) (btypes ?b)) [0..<w] = btypes b" unfolding w by (intro nth_equalityI) (auto simp: nth_append)
  moreover have "map (keys_of [0..<w]) (map (\<lambda>x. x @ [?k]) ?kept) = ?kept"
  proof -
    have "keys_of [0..<w] (x @ [?k]) = x" if "x \<in> set (brows b)" for x
      using that lens w by (intro nth_equalityI) (auto simp: keys_of_def nth_append)
    then show ?thesis by (auto intro: map_idI)
  qed
  ultimately show ?thesis using b neg left right join by (simp add: existence_gate_def)
qed

lemma difference_rows:
  assumes b: "execute_node E store input = Some b" and neg: "execute_node E store neg = Some bn"
    and lens: "\<forall>row \<in> set (brows b). length row = length (btypes b)" and nlens: "\<forall>row \<in> set (brows bn). length row = length (btypes bn)"
    and pairs: "\<forall>(c, i) \<in> set ps. c < length (btypes b) \<and> i < length (btypes bn)"
    and full: "\<not> length (map snd ps) < length (btypes bn) \<Longrightarrow> map snd ps = [0..<length (btypes bn)]"
    and run: "execute_node E store (difference_filter (length (btypes bn)) ps input neg) = Some b'"
  shows "b' = \<lparr>btypes = btypes b,
    brows = filter (\<lambda>x. \<not> (\<exists>r \<in> set (brows bn). \<forall>(c, i) \<in> set ps. x ! c = r ! i)) (brows b)\<rparr>"
proof -
  let ?in = "map fst ps" and ?neg = "map snd ps"
  let ?proj = "if length ?neg < length (btypes bn) then ProjectNode neg (map PColumn ?neg) else neg"
  let ?gone = "\<lambda>x. \<exists>r \<in> set (brows bn). \<forall>(c, i) \<in> set ps. x ! c = r ! i"
  obtain bp where bp: "execute_node E store ?proj = Some bp" and bp_rows: "set (brows bp) = keys_of ?neg ` set (brows bn)"
  proof (cases "length ?neg < length (btypes bn)")
    case True
    have "execute_project E bn (map PColumn ?neg) = Some \<lparr>btypes = map ((!) (btypes bn)) ?neg, brows = map (keys_of ?neg) (brows bn)\<rparr>"
      by (rule project_columns) (use nlens pairs in auto)
    then show ?thesis using that True neg by simp
  next
    case False
    have "keys_of ?neg ` set (brows bn) = set (brows bn)"
    proof -
      have "keys_of [0..<length (btypes bn)] r = r" if "r \<in> set (brows bn)" for r
        using that nlens by (simp add: keys_of_identity)
      then show ?thesis unfolding full [OF False] by simp
    qed
    then show ?thesis using that False neg by simp
  qed
  have left: "execute_project E b (map PColumn ?in) = Some \<lparr>btypes = map ((!) (btypes b)) ?in, brows = map (keys_of ?in) (brows b)\<rparr>"
    by (rule project_columns) (use lens pairs in auto)
  obtain kept where diff: "execute_diff \<lparr>btypes = map ((!) (btypes b)) ?in, brows = map (keys_of ?in) (brows b)\<rparr> bp = Some kept"
    and join: "execute_join E b kept ?in [0..<length ?in] SemiJoin = Some b'"
    using run b bp left by (auto simp: difference_filter_def Let_def bind_eq_Some_conv)
  have kept: "set (brows kept) = {k \<in> keys_of ?in ` set (brows b). k \<notin> keys_of ?neg ` set (brows bn)}"
    using diff bp_rows by (auto simp: execute_diff_def split: if_splits)
  have gone: "keys_of ?in x \<in> keys_of ?neg ` set (brows bn) \<longleftrightarrow> ?gone x" for x
    by (auto simp: image_iff keys_of_eq)
  have semi: "b' = \<lparr>btypes = btypes b,
      brows = filter (\<lambda>x. list_ex (\<lambda>y. keys_of ?in x = keys_of [0..<length ?in] y) (brows kept)) (brows b)\<rparr>"
    using join by (auto simp: execute_join_def Let_def split: if_splits)
  have "list_ex (\<lambda>y. keys_of ?in x = keys_of [0..<length ?in] y) (brows kept) \<longleftrightarrow> \<not> ?gone x" if "x \<in> set (brows b)" for x
  proof -
    have "keys_of [0..<length ?in] y = y" if "y \<in> set (brows kept)" for y
      using that kept by (intro keys_of_identity) (auto simp: keys_of_def)
    then have "list_ex (\<lambda>y. keys_of ?in x = keys_of [0..<length ?in] y) (brows kept) \<longleftrightarrow> keys_of ?in x \<in> set (brows kept)"
      by (auto simp: list_ex_iff)
    with kept gone that show ?thesis by auto
  qed
  then show ?thesis unfolding semi by (auto cong: filter_cong)
qed


lemma negated_literal:
  assumes ok: "columns_ok ve tys ts row" and ready: "atom_ready E st db store tys a" and blank: "get_column ve ''_'' = None"
  shows "literal_holds E env (low_schemas st) db tys (bind_row ve row) (Negated a)
    \<longleftrightarrow> \<not> (\<exists>r \<in> set (join_rows (atom_rows E env (low_schemas st) db) [a]). \<forall>(c, i) \<in> set (negation_columns ve a). row ! c = r ! i)"
proof -
  have agree_row: "(\<forall>i < length (terms a). \<forall>x v. terms a ! i = Variable x \<and> x \<noteq> ''_'' \<and> bind_row ve row x = Some v \<longrightarrow> r ! i = v)
      \<longleftrightarrow> (\<forall>(c, i) \<in> set (negation_columns ve a). row ! c = r ! i)" (is "?l \<longleftrightarrow> ?r") for r
  proof
    assume l: ?l
    show ?r
    proof (intro ballI, clarify)
      fix c i assume "(c, i) \<in> set (negation_columns ve a)"
      then obtain x where x: "i < length (terms a)" "terms a ! i = Variable x" "get_column ve x = Some c"
        by (auto simp: negation_columns_iff)
      then have "x \<noteq> ''_''" using blank by auto
      then have "r ! i = row ! c" using l [rule_format, of i x "row ! c"] x by (simp add: bind_row_def)
      then show "row ! c = r ! i" by simp
    qed
  next
    assume r: ?r
    show ?l
    proof (intro allI impI)
      fix i x v assume i: "i < length (terms a)" and x: "terms a ! i = Variable x \<and> x \<noteq> ''_'' \<and> bind_row ve row x = Some v"
      then obtain c where c: "get_column ve x = Some c" "v = row ! c" by (auto simp: bind_row_def)
      then have "(c, i) \<in> set (negation_columns ve a)" using i x by (auto simp: negation_columns_iff)
      with r c(2) show "r ! i = v" by auto
    qed
  qed
  have "(\<exists>\<sigma>'. bind_row ve row \<subseteq>\<^sub>m \<sigma>' \<and> atom_holds E env (low_schemas st) db \<sigma>' a)
      \<longleftrightarrow> (\<exists>r \<in> set (atom_rows E env (low_schemas st) db a). \<exists>\<sigma>'. bind_row ve row \<subseteq>\<^sub>m \<sigma>' \<and> terms_fit (terms a) \<sigma>' r)"
    unfolding atom_holds_def atom_rows_def by auto
  also have "\<dots> \<longleftrightarrow> (\<exists>r \<in> set (atom_rows E env (low_schemas st) db a). agree (terms a) r
      \<and> (\<forall>(c, i) \<in> set (negation_columns ve a). row ! c = r ! i))"
    unfolding extension_fits agree_row ..
  finally show ?thesis by (auto simp: literal_holds_def join_rows_def body_rows_single simp del: body_rows.simps)
qed

lemma stage_negation:
  assumes engine: "typed_engine E" "equality_faithful E" and stage: "stage E store tys node ve V P"
    and ready: "atom_ready E st db store tys a" and blank: "''_'' \<notin> V"
    and lowered: "apply_negation env ve a (node, st) = Inr (node', st')"
  shows "st' = st \<and> stage E store tys node' ve V
    (\<lambda>\<sigma>. P \<sigma> \<and> literal_holds E (low_scalars env) (low_schemas st) db tys \<sigma> (Negated a))"
proof -
  let ?N = "join_rows (atom_rows E (low_scalars env) (low_schemas st) db) [a]"
  let ?ts = "atom_schema (low_schemas st) a" and ?ps = "negation_columns ve a"
  let ?Q = "\<lambda>\<sigma>. literal_holds E (low_scalars env) (low_schemas st) db tys \<sigma> (Negated a)"
  obtain rel where rel: "map_of (rel_ids st) (predicate a) = Some rel" using ready by (auto simp: atom_ready_def)
  obtain neg where filters: "apply_constant_filters env st (ScanNode rel) a = Inr neg"
    and node': "node' = (if ?ps = [] then existence_gate (total_cols ve) node neg
        else difference_filter (length (terms a)) ?ps node neg)" and st': "st' = st"
    using lowered by (auto simp: apply_negation_def known_rel_id [OF rel] map_res_Inr_iff Let_def)
  have neg: "execute_node E store neg = Some \<lparr>btypes = ?ts, brows = ?N\<rparr>"
    by (rule leaf_rows [OF engine ready rel filters])
  have len_ts: "length ?ts = length (terms a)" using ready by (auto simp: atom_ready_def)
  have ready1: "\<forall>b \<in> set [a]. atom_ready E st db store tys b" using ready by simp
  have nlens: "\<forall>row \<in> set ?N. length row = length ?ts"
    using row_typed_length [OF join_rows_typed [OF ready1]] by (auto simp del: body_rows.simps)
  have blank': "get_column ve ''_'' = None" using stage blank by (auto simp: stage_def)
  have "length (btypes b') = total_cols ve
      \<and> (\<forall>x col. get_column ve x = Some col \<longrightarrow> env_types ve x = Some (btypes b' ! col))
      \<and> (\<forall>row \<in> set (brows b'). length row = total_cols ve)
      \<and> bind_row ve ` set (brows b') = {\<sigma>. dom \<sigma> = V \<and> P \<sigma> \<and> ?Q \<sigma>}"
    if run: "execute_node E store node' = Some b'" for b'
  proof -
    have "execute_node E store node \<noteq> None"
    proof
      assume "execute_node E store node = None"
      then have "execute_node E store node' = None"
        by (auto simp: node' existence_gate_def difference_filter_def Let_def)
      with run show False by simp
    qed
    then obtain b where b: "execute_node E store node = Some b" by blast
    have w: "total_cols ve = length (btypes b)" and lens: "\<forall>row \<in> set (brows b). length row = length (btypes b)"
      and image: "bind_row ve ` set (brows b) = {\<sigma>. dom \<sigma> = V \<and> P \<sigma>}"
      and coltypes: "\<forall>x col. get_column ve x = Some col \<longrightarrow> env_types ve x = Some (btypes b ! col)"
      and bound: "\<And>x col. get_column ve x = Some col \<Longrightarrow> col < total_cols ve"
      using stage b by (auto simp: stage_def)
    have "b' = \<lparr>btypes = btypes b, brows = filter (\<lambda>x. \<not> (\<exists>r \<in> set ?N. \<forall>(c, i) \<in> set ?ps. x ! c = r ! i)) (brows b)\<rparr>"
    proof (cases "?ps = []")
      case True
      then have "b' = \<lparr>btypes = btypes b, brows = (if ?N = [] then brows b else [])\<rparr>"
        using run gate_rows [OF b neg lens w] by (simp add: node')
      moreover have "filter (\<lambda>x. \<not> (\<exists>r \<in> set ?N. \<forall>(c, i) \<in> set ?ps. x ! c = r ! i)) (brows b) = (if ?N = [] then brows b else [])"
      proof (cases "?N = []")
        case False
        then show ?thesis using True by (auto simp: filter_empty_conv neq_Nil_conv)
      qed simp
      ultimately show ?thesis by simp
    next
      case False
      have pairs: "\<forall>(c, i) \<in> set ?ps. c < length (btypes b) \<and> i < length (btypes \<lparr>btypes = ?ts, brows = ?N\<rparr>)"
        using bound w len_ts by (auto simp: negation_columns_iff)
      show ?thesis
        using difference_rows [OF b neg lens _ pairs, of b'] nlens negation_columns_full [of ve a] run len_ts False
        by (simp add: node')
    qed
    then have types: "btypes b' = btypes b"
      and rows: "brows b' = filter (\<lambda>x. \<not> (\<exists>r \<in> set ?N. \<forall>(c, i) \<in> set ?ps. x ! c = r ! i)) (brows b)" by simp_all
    have kept: "set (brows b') = {row \<in> set (brows b). ?Q (bind_row ve row)}"
      unfolding rows using negated_literal [OF stage_columns [OF stage b] ready blank', of _ "low_scalars env"] by auto
    have "bind_row ve ` {row \<in> set (brows b). ?Q (bind_row ve row)} = {\<sigma> \<in> bind_row ve ` set (brows b). ?Q \<sigma>}" by blast
    also have "\<dots> = {\<sigma>. dom \<sigma> = V \<and> P \<sigma> \<and> ?Q \<sigma>}" unfolding image by blast
    finally show ?thesis unfolding kept types using w lens coltypes kept by auto
  qed
  then have "stage E store tys node' ve V (\<lambda>\<sigma>. P \<sigma> \<and> ?Q \<sigma>)" using stage unfolding stage_def by blast
  then show ?thesis using st' by blast
qed


section \<open>Folding the stages\<close>

lemma comparison_variables:
  "comparison_exprs env c ve = Inr lr \<Longrightarrow> cmp_left c = Variable x \<or> cmp_right c = Variable x \<Longrightarrow> get_column ve x \<noteq> None"
  by (cases "cmp_left c"; cases "cmp_right c")
    (auto simp: comparison_exprs_def variable_column_type_def bind_res_Inr_iff map_res_Inr_iff map_err_Inr_iff term_to_expr_def
      term_to_typed_const_value_def split: option.splits)

lemma local_conj:
  fixes P Q :: "'v assignment \<Rightarrow> bool"
  assumes "local_to V P" "local_to V Q"
  shows "local_to V (\<lambda>\<sigma>. P \<sigma> \<and> Q \<sigma>)"
  unfolding local_to_def
proof (intro allI impI)
  fix \<sigma> \<sigma>' :: "'v assignment" assume same: "\<forall>x \<in> V. \<sigma> x = \<sigma>' x"
  then have "P \<sigma> = P \<sigma>'" "Q \<sigma> = Q \<sigma>'" using assms unfolding local_to_def by blast+
  then show "(P \<sigma> \<and> Q \<sigma>) = (P \<sigma>' \<and> Q \<sigma>')" by simp
qed

lemma stage_comparisons:
  assumes "fold_res (apply_comparison env ve) cs node = Inr node'" and "stage E store tys node ve V P" "local_to V P"
  shows "stage E store tys node' ve V (\<lambda>\<sigma>. P \<sigma> \<and> (\<forall>c \<in> set cs. literal_holds E (low_scalars env) schemas db tys \<sigma> (Comparison c)))
    \<and> local_to V (\<lambda>\<sigma>. P \<sigma> \<and> (\<forall>c \<in> set cs. literal_holds E (low_scalars env) schemas db tys \<sigma> (Comparison c)))"
  using assms
proof (induction cs arbitrary: node P)
  case (Cons c cs)
  let ?Q = "\<lambda>\<sigma>. literal_holds E (low_scalars env) schemas db tys \<sigma> (Comparison c)"
  obtain node1 where step: "apply_comparison env ve c node = Inr node1" and rest: "fold_res (apply_comparison env ve) cs node1 = Inr node'"
    using Cons.prems(1) by (auto simp: bind_res_Inr_iff)
  obtain l r where exprs: "comparison_exprs env c ve = Inr (l, r)" and node1: "node1 = FilterNode node (ECompare l (compare_op_of (cmp_op c)) r)"
    using step by (auto simp: apply_comparison_def map_res_Inr_iff)
  have filtered: "stage E store tys (FilterNode node (ECompare l (compare_op_of (cmp_op c)) r)) ve V (\<lambda>\<sigma>. P \<sigma> \<and> ?Q \<sigma>)"
    by (rule stage_filter [OF Cons.prems(2)]) (simp add: comparison_meaning [OF _ exprs] literal_holds_def del: eval_pred.simps)
  have "local_to V ?Q"
    by (rule local_comparison) (use comparison_variables [OF exprs] Cons.prems(2) in \<open>auto simp: stage_def\<close>)
  then have "local_to V (\<lambda>\<sigma>. P \<sigma> \<and> ?Q \<sigma>)" by (rule local_conj [OF Cons.prems(3)])
  from Cons.IH [OF rest [unfolded node1] filtered this] show ?case by (simp add: conj_assoc)
qed simp

definition types_extend :: "variable_types \<Rightarrow> variable_types \<Rightarrow> bool" where
  "types_extend vts vts' \<longleftrightarrow> (\<forall>x ty. map_option fst (vts x) = Some ty \<longrightarrow> map_option fst (vts' x) = Some ty)"

lemma types_extend_refl: "types_extend vts vts"
  by (simp add: types_extend_def)

lemma types_extend_trans: "types_extend a b \<Longrightarrow> types_extend b c \<Longrightarrow> types_extend a c"
  by (simp add: types_extend_def)

lemma record_variable:
  assumes "record_rule_variable_type r x t src vts = Inr vts'"
  shows "types_extend vts vts'" and "map_option fst (vts' x) = Some t"
  using assms by (auto simp: record_rule_variable_type_def types_extend_def split: option.splits if_splits)

lemma fold_record:
  assumes "\<And>l vts vts'. f l vts = Inr vts' \<Longrightarrow> types_extend vts vts'"
  shows "fold_res f ls vts = Inr vts' \<Longrightarrow> types_extend vts vts'"
  by (induction ls arbitrary: vts) (auto simp: bind_res_Inr_iff types_extend_refl intro: types_extend_trans dest!: assms)

lemma record_is_extends: "record_is_type r ev l vts = Inr vts' \<Longrightarrow> types_extend vts vts'"
  by (cases l) (auto simp: record_is_type_def bind_res_Inr_iff types_extend_refl record_variable(1) split: option.splits)

lemma record_column_extends: "record_column_type r ct a it vts = Inr vts' \<Longrightarrow> types_extend vts vts'"
  by (cases it; cases "snd it") (auto simp: record_column_type_def types_extend_refl record_variable(1) split: option.splits)

lemma record_literal_extends: "record_literal_types r ct l vts = Inr vts' \<Longrightarrow> types_extend vts vts'"
  by (cases l) (auto simp: record_literal_types_def types_extend_refl intro: fold_record [OF record_column_extends])

lemma fold_record_at:
  assumes extends: "\<And>l vts vts'. f l vts = Inr vts' \<Longrightarrow> types_extend vts vts'"
    and records: "\<And>vts vts'. f l vts = Inr vts' \<Longrightarrow> map_option fst (vts' x) = Some ty"
  shows "fold_res f ls vts = Inr vts' \<Longrightarrow> l \<in> set ls \<Longrightarrow> map_option fst (vts' x) = Some ty"
proof (induction ls arbitrary: vts)
  case (Cons k ls)
  then obtain vts1 where step: "f k vts = Inr vts1" and rest: "fold_res f ls vts1 = Inr vts'"
    by (auto simp: bind_res_Inr_iff)
  show ?case
  proof (cases "l \<in> set ls")
    case False
    then have "map_option fst (vts1 x) = Some ty" using step records Cons.prems(2) by auto
    then show ?thesis using fold_record [OF extends rest] by (simp add: types_extend_def)
  qed (use Cons.IH rest in blast)
qed simp

lemma recorded_column:
  assumes atoms: "fold_res (record_literal_types r ct) (body r) w0 = Inr vts"
    and l: "l \<in> set (body r)" "l = Positive a \<or> l = Negated a"
    and i: "i < length (terms a)" "terms a ! i = Variable x" "ct a i = Some ty"
  shows "map_option fst (vts x) = Some ty"
proof -
  have column: "map_option fst (w' x) = Some ty" if "record_column_type r ct a (i, Variable x) w = Inr w'" for w w'
    using that i(3) record_variable(2) by (fastforce simp: record_column_type_def)
  have "(i, Variable x) \<in> set (indexed (terms a))" using i by (simp add: in_indexed_iff)
  then have literal: "map_option fst (w' x) = Some ty" if "record_literal_types r ct l w = Inr w'" for w w'
  proof -
    have "fold_res (record_column_type r ct a) (indexed (terms a)) w = Inr w'"
      using that l(2) by (auto simp: record_literal_types_def)
    then show ?thesis
      by (rule fold_record_at [OF record_column_extends column, rotated 2]) fact
  qed
  show ?thesis
    by (rule fold_record_at [OF record_literal_extends literal atoms l(1)])
qed

lemma inferred_column:
  assumes types: "infer_rule_variable_types r ct ev = Inr vts" and l: "l \<in> set (body r)" "l = Positive a \<or> l = Negated a"
    and i: "i < length (terms a)" "terms a ! i = Variable x" "ct a i = Some ty"
  shows "map_option fst (vts x) = Some ty"
proof -
  obtain vts1 where atoms: "fold_res (record_literal_types r ct) (body r) Map.empty = Inr vts1"
    and iss: "fold_res (record_is_type r ev) (body r) vts1 = Inr vts"
    using types by (auto simp: infer_rule_variable_types_def bind_res_Inr_iff)
  show ?thesis
    using recorded_column [OF atoms l i] fold_record [OF record_is_extends iss] by (simp add: types_extend_def)
qed

lemma stage_is_exprs:
  assumes "fold_res lower_is_expr es (node, ve) = Inr (node', ve')"
    and "fold_res (record_is_type r RequireExpansion) (map IsExpr es) vts = Inr vtsF" and tys: "tys = map_option fst \<circ> vtsF"
    and "stage E store tys node ve V P" "local_to V P"
    and "validate_bindings V (map IsExpr es) = Inr ()"
    and "\<forall>x t. env_types ve x = Some t \<longrightarrow> map_option fst (vts x) = Some t"
  shows "stage E store tys node' ve' (V \<union> is_target ` set es)
    (\<lambda>\<sigma>. P \<sigma> \<and> (\<forall>e \<in> set es. literal_holds E env schemas db tys \<sigma> (IsExpr e)))"
  using assms(1,2,4-)
proof (induction es arbitrary: node ve vts V P)
  case (Cons e es)
  let ?x = "is_target e" and ?w = "total_cols ve"
  let ?Q = "\<lambda>\<sigma>. literal_holds E env schemas db tys \<sigma> (IsExpr e)"
  obtain t ir where t: "infer_arith_type (env_types ve) (is_rhs e) = Inr t" and ir: "arith_to_expr ve (is_rhs e) = Inr ir"
    and rest: "fold_res lower_is_expr es (ProjectNode node (map PColumn [0..<?w] @ [Computed ir t]), bind_variable ?x ?w t ve)
        = Inr (node', ve')"
  proof -
    obtain s1 where step: "lower_is_expr e (node, ve) = Inr s1" and rest: "fold_res lower_is_expr es s1 = Inr (node', ve')"
      using Cons.prems(1) by (auto simp: bind_res_Inr_iff)
    from step obtain t ir where "infer_arith_type (env_types ve) (is_rhs e) = Inr t" "arith_to_expr ve (is_rhs e) = Inr ir"
      "s1 = (ProjectNode node (map PColumn [0..<?w] @ [Computed ir t]), bind_variable ?x ?w t ve)"
      by (auto simp: lower_is_expr_def bind_res_Inr_iff map_res_Inr_iff)
    then show ?thesis using that rest by blast
  qed
  obtain vts1 where step: "record_is_type r RequireExpansion (IsExpr e) vts = Inr vts1"
    and rest_types: "fold_res (record_is_type r RequireExpansion) (map IsExpr es) vts1 = Inr vtsF"
    using Cons.prems(2) by (auto simp: bind_res_Inr_iff)
  have fresh: "?x \<notin> V" and vars: "set (arith_variables (is_rhs e)) \<subseteq> V" and rest_bind: "validate_bindings (insert ?x V) (map IsExpr es) = Inr ()"
    using Cons.prems(5) by (auto simp: find_None_iff split: if_splits option.splits)
  have V: "{x. get_column ve x \<noteq> None} = V" and ok: "env_ok tys ve" using Cons.prems(3) by (auto simp: stage_def)
  have known: "env_types ve x = map_option fst (vts x)" if "x \<in> set (arith_variables (is_rhs e))" for x
  proof -
    have "get_column ve x \<noteq> None" using that vars V by blast
    then have "env_types ve x \<noteq> None" using ok unfolding env_ok_def by simp
    then obtain t' where typed: "env_types ve x = Some t'" by blast
    show ?thesis unfolding typed using Cons.prems(6) [rule_format, OF typed] by (rule sym)
  qed
  have "infer_known RequireExpansion (env_types ve) (is_rhs e) = Inr (Some t)"
    using t by (auto simp: infer_arith_type_def bind_res_Inr_iff split: option.splits)
  moreover have "infer_known RequireExpansion (env_types ve) (is_rhs e) = infer_known RequireExpansion (map_option fst \<circ> vts) (is_rhs e)"
    by (rule infer_known_cong) (simp add: known)
  ultimately have recorded: "record_rule_variable_type r ?x t FromArithmetic vts = Inr vts1"
    using step by (simp add: record_is_type_def)
  note extend = fold_record [OF record_is_extends rest_types]
  have ty: "tys ?x = Some t" using record_variable(2) [OF recorded] extend by (simp add: tys types_extend_def)
  have bound: "stage E store tys (ProjectNode node (map PColumn [0..<?w] @ [Computed ir t])) (bind_variable ?x ?w t ve) (insert ?x V)
      (\<lambda>\<sigma>. P \<sigma> \<and> ?Q \<sigma>)"
    by (rule stage_is_expr [OF Cons.prems(3) fresh ty ir Cons.prems(4)])
  have locals: "local_to (insert ?x V) (\<lambda>\<sigma>. P \<sigma> \<and> ?Q \<sigma>)"
    by (intro local_conj local_to_mono [OF Cons.prems(4)] local_is_expr) (use vars in auto)
  have "\<forall>x t'. env_types (bind_variable ?x ?w t ve) x = Some t' \<longrightarrow> map_option fst (vts1 x) = Some t'"
    using Cons.prems(6) record_variable [OF recorded] by (auto simp: bind_variable_def types_extend_def)
  from Cons.IH [OF rest rest_types bound locals rest_bind this] show ?case by (simp add: conj_assoc)
qed simp

lemma stage_negations:
  assumes engine: "typed_engine E" "equality_faithful E"
    and "fold_res (apply_negation env ve) as (node, st) = Inr (node', st')"
    and "stage E store tys node ve V P" and "\<forall>a \<in> set as. atom_ready E st db store tys a" and "''_'' \<notin> V"
  shows "st' = st \<and> stage E store tys node' ve V
    (\<lambda>\<sigma>. P \<sigma> \<and> (\<forall>a \<in> set as. literal_holds E (low_scalars env) (low_schemas st) db tys \<sigma> (Negated a)))"
  using assms(3-)
proof (induction as arbitrary: node P)
  case (Cons a as)
  obtain node1 st1 where step: "apply_negation env ve a (node, st) = Inr (node1, st1)"
    and rest: "fold_res (apply_negation env ve) as (node1, st1) = Inr (node', st')"
    using Cons.prems(1) by (auto simp: bind_res_Inr_iff)
  have one: "st1 = st" "stage E store tys node1 ve V
      (\<lambda>\<sigma>. P \<sigma> \<and> literal_holds E (low_scalars env) (low_schemas st) db tys \<sigma> (Negated a))"
    using stage_negation [OF engine Cons.prems(2) _ Cons.prems(4) step] Cons.prems(3) by auto
  show ?case using Cons.IH [OF rest [unfolded one(1)] one(2)] Cons.prems(3,4) by (simp add: conj_assoc)
qed simp


section \<open>Heads\<close>

lemma head_column_meaning:
  assumes ok: "columns_ok ve tys ts row" and col: "head_column env schemas h ve (i, t) = Inr c"
  shows "project_value E ts row c = Some (head_meaning E (low_scalars env) schemas h (bind_row ve row) (i, t))"
proof (cases "is_constant t")
  case True
  then obtain ty v where "schema_column schemas h i = Some ty" "term_to_typed_const_value (low_scalars env) t ty = Inr (Some v)"
      "c = Computed (EConst v) ty"
    using col by (auto simp: head_column_def head_constant_def bind_res_Inr_iff map_err_Inr_iff split: option.splits)
  with True show ?thesis
    by (cases t) (auto simp: project_value_def head_meaning_def is_constant_def is_any_variable_def)
next
  case False
  then obtain x k where "t = Variable x" "get_column ve x = Some k" "c = PColumn k"
    using col by (cases t) (auto simp: head_column_def split: option.splits)
  with columns_okD [OF ok] show ?thesis by (simp add: project_value_def head_meaning_def)
qed

lemma stage_head:
  assumes stage: "stage E store tys node ve V P" and cols: "compute_head_projection env schemas h ve = Inr cols"
    and run: "execute_node E store (if is_identity_projection cols (total_cols ve) then node else ProjectNode node cols) = Some b'"
  shows "set (brows b') = (\<lambda>\<sigma>. map (head_meaning E (low_scalars env) schemas h \<sigma>) (indexed (terms h))) ` {\<sigma>. dom \<sigma> = V \<and> P \<sigma>}"
proof -
  let ?tuple = "\<lambda>\<sigma>. map (head_meaning E (low_scalars env) schemas h \<sigma>) (indexed (terms h))"
  obtain b where b: "execute_node E store node = Some b"
    using run by (cases "execute_node E store node") (auto split: if_splits)
  have image: "bind_row ve ` set (brows b) = {\<sigma>. dom \<sigma> = V \<and> P \<sigma>}" and lens: "\<forall>row \<in> set (brows b). length row = total_cols ve"
    using stage b by (auto simp: stage_def)
  have heads: "list_all2 (\<lambda>it c. head_column env schemas h ve it = Inr c) (indexed (terms h)) cols"
    using cols by (simp add: compute_head_projection_def traverse_Inr_iff)
  have value_of: "each_row (project_value E (btypes b) row) cols = Some (?tuple (bind_row ve row))" if "row \<in> set (brows b)" for row
  proof -
    have "list_all2 (\<lambda>c v. project_value E (btypes b) row c = Some v) cols (?tuple (bind_row ve row))"
    proof (rule list_all2_all_nthI)
      show "length cols = length (?tuple (bind_row ve row))" using list_all2_lengthD [OF heads] by simp
      fix k assume k: "k < length cols"
      obtain i t where it: "indexed (terms h) ! k = (i, t)" by fastforce
      have "head_column env schemas h ve (i, t) = Inr (cols ! k)"
        using list_all2_nthD2 [OF heads k] it by simp
      from head_column_meaning [OF stage_columns [OF stage b that] this]
      show "project_value E (btypes b) row (cols ! k) = Some (?tuple (bind_row ve row) ! k)"
        using k it list_all2_lengthD [OF heads] by auto
    qed
    then show ?thesis by (simp add: each_row_Some)
  qed
  have "set (brows b') = (\<lambda>row. ?tuple (bind_row ve row)) ` set (brows b)"
  proof (cases "is_identity_projection cols (total_cols ve)")
    case True
    then have "cols = map PColumn [0..<total_cols ve]"
      by (intro nth_equalityI) (auto simp: is_identity_projection_def list_all_iff set_indexed)
    then have "?tuple (bind_row ve row) = row" if "row \<in> set (brows b)" for row
      using value_of [OF that] project_pcolumns [of "[0..<total_cols ve]" row E "btypes b"] lens that map_nth [of row] by simp
    moreover have "b' = b" using run True b by simp
    ultimately show ?thesis by (simp add: image_def)
  next
    case False
    then have "execute_project E b cols = Some b'" using run b by simp
    then show ?thesis using each_row_eq_map [of "brows b", OF value_of]
      by (auto simp: execute_project_def bind_eq_Some_conv)
  qed
  then show ?thesis unfolding image [symmetric] by (simp add: image_image)
qed

end
