(* ===== verification/Lower_Correct.thy ===== *)
theory Lower_Correct
  imports Lower_Negation
begin

text \<open>
  Whole rules: a lowered rule that runs answers exactly what the rule means.
\<close>

section \<open>Whole rules\<close>

text \<open>Lowering only adds relation numbers.\<close>

definition ids_extend :: "lowerer \<Rightarrow> lowerer \<Rightarrow> bool" where
  "ids_extend st st' \<longleftrightarrow> map_of (rel_ids st) \<subseteq>\<^sub>m map_of (rel_ids st') \<and> low_schemas st' = low_schemas st"

lemma ids_extend_refl [simp]: "ids_extend st st"
  by (simp add: ids_extend_def)

lemma ids_extend_trans: "ids_extend a b \<Longrightarrow> ids_extend b c \<Longrightarrow> ids_extend a c"
  unfolding ids_extend_def using map_le_trans by fastforce

lemma create_extends: "get_or_create_rel_id p st = (rel, st') \<Longrightarrow> ids_extend st st'"
  by (auto simp: get_or_create_rel_id_def ids_extend_def map_le_def map_add_def split: option.splits)

lemma fold_res_extends:
  assumes "\<And>x s s'. f x s = Inr s' \<Longrightarrow> ids_extend (state s) (state s')"
  shows "fold_res f xs s = Inr s' \<Longrightarrow> ids_extend (state s) (state s')"
  by (induction xs arbitrary: s) (auto simp: bind_res_Inr_iff intro: ids_extend_trans assms)

lemma make_leaf_extends: "make_leaf_plan env a i st = Inr (p, st') \<Longrightarrow> ids_extend st st'"
  by (auto simp: make_leaf_plan_def map_res_Inr_iff Let_def intro: create_extends split: prod.splits)

lemma leaf_plans_extends: "leaf_plans env i as st = Inr (ps, st') \<Longrightarrow> ids_extend st st'"
  by (induction as arbitrary: i st ps)
    (auto simp: bind_res_Inr_iff map_res_Inr_iff intro: ids_extend_trans make_leaf_extends)

lemma add_to_tree_extends: "add_to_tree env a s = Inr s' \<Longrightarrow> ids_extend (snd (snd (snd s))) (snd (snd (snd s')))"
  by (auto simp: add_to_tree_def map_res_Inr_iff intro: create_extends split: prod.splits)

lemma build_join_tree_extends:
  assumes "build_join_tree env as st = Inr (node, st')"
  shows "ids_extend st st'"
proof -
  obtain a rest where shape: "as = a # rest" using assms by (cases as) (auto simp: build_join_tree_def)
  obtain rel st1 where rel: "get_or_create_rel_id (predicate a) st = (rel, st1)" by fastforce
  obtain s s' where fold: "fold_res (add_to_tree env) rest s = Inr s'" and ends: "snd (snd (snd s)) = st1" "snd (snd (snd s')) = st'"
    using assms by (auto simp: build_join_tree_def shape rel bind_res_Inr_iff map_res_Inr_iff)
  show ?thesis
    using create_extends [OF rel] fold_res_extends [where state = "\<lambda>s. snd (snd (snd s))", OF add_to_tree_extends fold]
    unfolding ends by (rule ids_extend_trans)
qed

lemma greedy_extends: "plan_positive_atoms_bushy_greedy env as st = Inr ((node, leaves), st') \<Longrightarrow> ids_extend st st'"
  by (auto simp: plan_positive_atoms_bushy_greedy_def bind_res_Inr_iff Let_def split: if_splits dest: leaf_plans_extends)

lemma bushy_extends:
  assumes "plan_positive_atoms_bushy env as st = Inr ((node, leaves), st')" "2 \<le> length as"
  shows "ids_extend st st'"
proof -
  obtain a b rest where shape: "as = a # b # rest" using assms(2) by (cases as; cases "tl as") auto
  obtain ps st1 where ps: "leaf_plans env 0 as st = Inr (ps, st1)"
    using assms(1) by (auto simp: plan_positive_atoms_bushy_def shape bind_res_Inr_iff simp del: leaf_plans.simps)
  have "ids_extend st1 st'"
    using assms(1) ps
    by (auto simp: plan_positive_atoms_bushy_def shape Let_def map_res_Inr_iff simp del: leaf_plans.simps
        split: option.splits dest: build_join_tree_extends)
  with leaf_plans_extends [OF ps] show ?thesis by (rule ids_extend_trans)
qed

lemma plan_extends:
  assumes "plan_positive_atoms env as st = Inr ((node, leaves), st')"
  shows "ids_extend st st'"
proof (cases "length as \<le> 1")
  case True
  then show ?thesis
    using assms by (auto simp: plan_positive_atoms_def map_res_Inr_iff split: list.splits dest: make_leaf_extends)
next
  case False
  then have "2 \<le> length as" by simp
  with False assms bushy_extends greedy_extends show ?thesis by (auto simp: plan_positive_atoms_def split: if_splits)
qed

lemma negation_extends: "apply_negation env ve a (node, st) = Inr (node', st') \<Longrightarrow> ids_extend st st'"
  by (auto simp: apply_negation_def map_res_Inr_iff Let_def intro: create_extends split: prod.splits)

lemma allocate_extends: "ids_extend st (fold allocate_literal ls st)"
proof (induction ls arbitrary: st)
  case (Cons l ls)
  have "ids_extend st (allocate_literal l st)"
    by (cases l) (auto simp: allocate_literal_def intro: create_extends [OF surjective_pairing])
  with Cons show ?case by (auto intro: ids_extend_trans)
qed simp

lemma allocate_all:
  "l \<in> set ls \<Longrightarrow> l = Positive a \<or> l = Negated a \<Longrightarrow> \<exists>rel. map_of (rel_ids (fold allocate_literal ls st)) (predicate a) = Some rel"
proof (induction ls arbitrary: st)
  case (Cons k ls)
  show ?case
  proof (cases "l = k")
    case True
    then obtain rel where "map_of (rel_ids (allocate_literal k st)) (predicate a) = Some rel"
      using Cons.prems(2)
      by (cases "map_of (rel_ids st) (predicate a)") (auto simp: allocate_literal_def get_or_create_rel_id_def map_add_def)
    then show ?thesis using allocate_extends [of "allocate_literal k st" ls] by (auto simp: ids_extend_def map_le_def dom_def)
  qed (use Cons in auto)
qed simp

lemma validated_atom_variables:
  assumes "validate_atom_terms ctx a = Inr ()"
  shows "set (atom_variables a) = {x. Variable x \<in> set (terms a)}"
proof -
  have "set (concat (map term_variables ts)) = {x. Variable x \<in> set ts}"
    if "fold_res (\<lambda>t _. validate_term_lowerable ctx t) ts () = Inr ()" for ts
    using that
  proof (induction ts)
    case (Cons t ts)
    then show ?case by (cases t) (auto simp: validate_term_lowerable_def bind_res_Inr_iff)
  qed simp
  then show ?thesis using assms by (simp add: atom_variables_def validate_atom_terms_def)
qed

lemma validated_literal:
  "fold_res (\<lambda>l _. validate_literal_terms l) ls () = Inr () \<Longrightarrow> l \<in> set ls \<Longrightarrow> validate_literal_terms l = Inr ()"
  by (induction ls) (auto simp: bind_res_Inr_iff)

lemma validated_rule: "validate_rule_terms r = Inr () \<Longrightarrow> l \<in> set (body r) \<Longrightarrow> validate_literal_terms l = Inr ()"
  by (rule validated_literal) (auto simp: validate_rule_terms_def bind_res_Inr_iff)

lemma validate_bindings_is: "validate_bindings bound ls = validate_bindings bound (map IsExpr (body_is_exprs ls))"
proof (induction ls arbitrary: bound)
  case (Cons l ls)
  then show ?case by (cases l) (auto simp: body_is_exprs_def split: option.splits)
qed (simp add: body_is_exprs_def)

lemma record_is_fold: "fold_res (record_is_type r ev) ls vts = fold_res (record_is_type r ev) (map IsExpr (body_is_exprs ls)) vts"
proof (induction ls arbitrary: vts)
  case (Cons l ls)
  show ?case
  proof (cases "\<exists>e. l = IsExpr e")
    case True
    then obtain e where "l = IsExpr e" by blast
    moreover have "fold_res (record_is_type r ev) ls = fold_res (record_is_type r ev) (map IsExpr (body_is_exprs ls))"
      by (rule ext) (rule Cons.IH)
    ultimately show ?thesis by (simp add: body_is_exprs_def)
  next
    case False
    then have "record_is_type r ev l vts = Inr vts" by (cases l) (auto simp: record_is_type_def)
    with False Cons.IH show ?thesis by (cases l) (auto simp: body_is_exprs_def)
  qed
qed (simp add: body_is_exprs_def)

lemma body_parts_iff:
  "a \<in> set (positive_atoms ls) \<longleftrightarrow> Positive a \<in> set ls"
  "a \<in> set (negated_atoms ls) \<longleftrightarrow> Negated a \<in> set ls"
  "c \<in> set (body_comparisons ls) \<longleftrightarrow> Comparison c \<in> set ls"
  "e \<in> set (body_is_exprs ls) \<longleftrightarrow> IsExpr e \<in> set ls"
  by (induction ls; auto simp: positive_atoms_def negated_atoms_def body_comparisons_def body_is_exprs_def split: body_literal.splits)+

text \<open>The relations of the body have the arities and types of their schemas and are stored under the
  numbers that lowering gave them.\<close>

definition rule_ready ::
    "'v engine \<Rightarrow> lowerer \<Rightarrow> (string \<Rightarrow> 'v buffer) \<Rightarrow> (rel_id \<Rightarrow> 'v buffer option) \<Rightarrow> rule \<Rightarrow> bool" where
  "rule_ready E st db store r \<longleftrightarrow>
     (\<forall>l \<in> set (body r). \<forall>a. l = Positive a \<or> l = Negated a \<longrightarrow>
        (\<exists>ts. low_schemas st (predicate a) = Some ts \<and> length (terms a) = length ts \<and> buffer_typed E ts (db (predicate a)))
        \<and> (\<forall>rel. map_of (rel_ids st) (predicate a) = Some rel \<longrightarrow> store rel = Some (db (predicate a))))"

lemma bound_variables:
  "positive_body_bound_variables ls = {x. x \<noteq> ''_'' \<and> (\<exists>a. Positive a \<in> set ls \<and> x \<in> set (atom_variables a))}"
proof (induction ls)
  case (Cons l ls)
  then show ?case by (cases l) (simp_all add: positive_body_bound_variables_def, blast)
qed (simp add: positive_body_bound_variables_def)

lemma bindings_positive:
  assumes "validate_rule_terms r = Inr ()" and "mset leaves = mset (positive_atoms (body r))"
  shows "{x. x \<noteq> ''_'' \<and> Variable x \<in> set (body_terms leaves)} = positive_body_bound_variables (body r)"
proof -
  have vars: "set (atom_variables a) = {x. Variable x \<in> set (terms a)}" if "Positive a \<in> set (body r)" for a
  proof -
    have "validate_literal_terms (Positive a) = Inr ()" by (rule validated_rule [OF assms(1) that])
    then have "validate_atom_terms ''positive body atom'' a = Inr ()" by (simp only: validate_literal_terms_def body_literal.case)
    then show ?thesis by (rule validated_atom_variables)
  qed
  have leaves: "set leaves = {a. Positive a \<in> set (body r)}" 
    unfolding mset_eq_setD [OF assms(2)] by (rule set_eqI) (simp only: body_parts_iff mem_Collect_eq)
  have "positive_body_bound_variables (body r) = {x. x \<noteq> ''_'' \<and> (\<exists>a. Positive a \<in> set (body r) \<and> x \<in> set (atom_variables a))}"
    by (rule bound_variables)
  also have "\<dots> = {x. x \<noteq> ''_'' \<and> (\<exists>a \<in> set leaves. Variable x \<in> set (terms a))}" 
  proof -
    have "(\<exists>a. Positive a \<in> set (body r) \<and> x \<in> set (atom_variables a))
        \<longleftrightarrow> (\<exists>a. Positive a \<in> set (body r) \<and> Variable x \<in> set (terms a))" for x
      by (intro iff_exI conj_cong refl) (simp add: vars)
    then show ?thesis unfolding leaves by simp
  qed
  also have "\<dots> = {x. x \<noteq> ''_'' \<and> Variable x \<in> set (body_terms leaves)}" by simp
  finally show ?thesis ..
qed

definition planned_atoms :: "lower_env \<Rightarrow> body_literal list \<Rightarrow> lowerer \<Rightarrow> lower_error + (rir_node \<times> atom list) \<times> lowerer" where
  "planned_atoms env ls st =
     (if positive_atoms ls = [] then Inr ((UnitNode, []), st) else plan_positive_atoms env (positive_atoms ls) st)"

lemma planned_atoms_sound:
  assumes "typed_engine E" "equality_faithful E" "\<forall>a \<in> set (positive_atoms ls). atom_ready E st db store tys a"
    and "planned_atoms env ls st = Inr ((root, leaves), st')"
  shows "st' = st \<and> mset leaves = mset (positive_atoms ls) \<and> execute_node E store root
    = Some \<lparr>btypes = body_schema (low_schemas st) leaves,
            brows = join_rows (atom_rows E (low_scalars env) (low_schemas st) db) leaves\<rparr>"
proof (cases "positive_atoms ls = []")
  case True
  then show ?thesis using assms(4) by (auto simp: planned_atoms_def join_rows_def agree_def)
next
  case False
  then show ?thesis using assms(4) plan_positive_atoms_sound [OF assms(1-3)] by (simp add: planned_atoms_def)
qed

lemma lower_rule_parts:
  assumes "lower_rule env r st = Inr (node, st')"
  shows "find_epistemic (body r) = None \<and> (\<exists>root leaves st2 filtered bound ve body_node st3.
    planned_atoms env (body r) (fold allocate_literal (body r) st) = Inr ((root, leaves), st2)
    \<and> fold_res (apply_comparison env (build_variable_env (low_schemas st2) leaves)) (body_comparisons (body r)) root = Inr filtered
    \<and> fold_res lower_is_expr (body_is_exprs (body r)) (filtered, build_variable_env (low_schemas st2) leaves) = Inr (bound, ve)
    \<and> fold_res (apply_negation env ve) (negated_atoms (body r)) (bound, st2) = Inr (body_node, st3)
    \<and> finish_rule env r body_node ve st3 = Inr (node, st'))"
proof -
  have none: "find_epistemic (body r) = None" using assms by (cases "find_epistemic (body r)") (auto simp: lower_rule_def)
  obtain root leaves st2 body_node ve st3 where "planned_atoms env (body r) (fold allocate_literal (body r) st) = Inr ((root, leaves), st2)"
    and parts: "lower_body_parts env (negated_atoms (body r)) (body_comparisons (body r)) (body_is_exprs (body r)) root
        (build_variable_env (low_schemas st2) leaves) st2 = Inr (body_node, ve, st3)"
    and "finish_rule env r body_node ve st3 = Inr (node, st')"
    using assms none
    by (auto simp: lower_rule_def split_body_literals_def Let_def planned_atoms_def [symmetric] bind_res_Inr_iff)
  then show ?thesis using none parts by (fastforce simp: lower_body_parts_def bind_res_Inr_iff map_res_Inr_iff)
qed

lemma no_other_literals:
  assumes "validate_rule_terms r = Inr ()" "find_epistemic (body r) = None" "l \<in> set (body r)"
  shows "(\<exists>a. l = Positive a) \<or> (\<exists>a. l = Negated a) \<or> (\<exists>c. l = Comparison c) \<or> (\<exists>e. l = IsExpr e)"
proof -
  have "validate_literal_terms l = Inr ()" by (rule validated_rule [OF assms(1,3)])
  moreover have "l \<noteq> Epistemic e" for e
    using assms(2,3) by (auto simp: find_epistemic_def find_None_iff split: body_literal.splits)
  ultimately show ?thesis by (cases l) (auto simp: validate_literal_terms_def)
qed

text \<open>The plan of a rule in its stages: the join of the positive atoms, filtered by the comparisons, extended
  by the arithmetic bindings, without the rows of negated atoms, and projected to the head.\<close>

record lowered_parts =
  part_root :: rir_node
  part_leaves :: "atom list"
  part_filtered :: rir_node
  part_bound :: rir_node
  part_env :: variable_env
  part_body :: rir_node
  part_cols :: "project_expr list"

abbreviation numbered :: "rule \<Rightarrow> lowerer \<Rightarrow> lowerer" where
  "numbered r st \<equiv> fold allocate_literal (body r) st"

abbreviation joined_env :: "rule \<Rightarrow> lowerer \<Rightarrow> lowered_parts \<Rightarrow> variable_env" where
  "joined_env r st p \<equiv> build_variable_env (low_schemas (numbered r st)) (part_leaves p)"

definition lowered_stages :: "lower_env \<Rightarrow> rule \<Rightarrow> lowerer \<Rightarrow> rir_node \<Rightarrow> lowerer \<Rightarrow> lowered_parts \<Rightarrow> bool" where
  "lowered_stages env r st node st' p \<longleftrightarrow>
     fold_res (apply_comparison env (joined_env r st p)) (body_comparisons (body r)) (part_root p) = Inr (part_filtered p)
     \<and> fold_res lower_is_expr (body_is_exprs (body r)) (part_filtered p, joined_env r st p) = Inr (part_bound p, part_env p)
     \<and> fold_res (apply_negation env (part_env p)) (negated_atoms (body r)) (part_bound p, numbered r st) = Inr (part_body p, st')
     \<and> compute_head_projection env (low_schemas st) (head r) (part_env p) = Inr (part_cols p)
     \<and> node = (if is_identity_projection (part_cols p) (total_cols (part_env p)) then part_body p
              else ProjectNode (part_body p) (part_cols p))
     \<and> low_schemas (numbered r st) = low_schemas st \<and> mset (part_leaves p) = mset (positive_atoms (body r))
     \<and> find_epistemic (body r) = None"

lemma lower_rule_setup:
  fixes E :: "'v engine"
  assumes engine: "typed_engine E" "equality_faithful E"
    and types: "infer_rule_variable_types r (schema_column (low_schemas st)) RequireExpansion = Inr vts"
    and plain: "\<not> has_aggregation r" and lowered: "lower_rule env r st = Inr (node, st')"
    and ready: "rule_ready E st' db store r"
  shows "\<exists>p. lowered_stages env r st node st' p
    \<and> (\<forall>a \<in> set (positive_atoms (body r)) \<union> set (negated_atoms (body r)).
         atom_ready E (numbered r st) db store (map_option fst \<circ> vts) a)
    \<and> execute_node E store (part_root p)
        = Some \<lparr>btypes = body_schema (low_schemas (numbered r st)) (part_leaves p),
            brows = join_rows (atom_rows E (low_scalars env) (low_schemas (numbered r st)) db) (part_leaves p)\<rparr>"
proof -
  let ?env = "low_scalars env" and ?schemas = "low_schemas st" and ?ls = "body r" and ?st = "numbered r st"
  let ?tys = "map_option fst \<circ> vts"
  obtain root leaves st2 filtered bound ve body_node st3 where
    planned: "planned_atoms env ?ls ?st = Inr ((root, leaves), st2)"
    and comparisons: "fold_res (apply_comparison env (build_variable_env (low_schemas st2) leaves)) (body_comparisons ?ls) root = Inr filtered"
    and is_exprs: "fold_res lower_is_expr (body_is_exprs ?ls) (filtered, build_variable_env (low_schemas st2) leaves) = Inr (bound, ve)"
    and negations: "fold_res (apply_negation env ve) (negated_atoms ?ls) (bound, st2) = Inr (body_node, st3)"
    and finished: "finish_rule env r body_node ve st3 = Inr (node, st')" and no_epistemic: "find_epistemic ?ls = None"
    using lower_rule_parts [OF lowered] by blast
  have st': "st' = st3" using finished plain by (auto simp: finish_rule_def map_res_Inr_iff)
  have "ids_extend ?st st2" using planned plan_extends by (fastforce simp: planned_atoms_def split: if_splits)
  moreover have "ids_extend st2 st3"
    using fold_res_extends [where state = snd, OF _ negations] negation_extends by fastforce
  ultimately have extends: "ids_extend ?st st'" unfolding st' by (rule ids_extend_trans)
  have schemas: "low_schemas ?st = ?schemas" "low_schemas st' = ?schemas"
    using allocate_extends [of st ?ls] extends by (simp_all add: ids_extend_def)
  have atom: "atom_ready E ?st db store ?tys a" if a: "l \<in> set ?ls" "l = Positive a \<or> l = Negated a" for l a
  proof -
    note this_ready = ready [unfolded rule_ready_def schemas, rule_format, OF a]
    obtain ts where ts: "?schemas (predicate a) = Some ts" "length (terms a) = length ts" "buffer_typed E ts (db (predicate a))"
      using this_ready by blast
    obtain rel where rel: "map_of (rel_ids ?st) (predicate a) = Some rel" using allocate_all [OF a] by blast
    then have "map_of (rel_ids st') (predicate a) = Some rel"
      using extends by (auto simp: ids_extend_def map_le_def dom_def)
    then have "store rel = Some (db (predicate a))" using this_ready by blast
    moreover have "?tys x = Some (ts ! i)" if "i < length (terms a)" "terms a ! i = Variable x" for i x
      using inferred_column [OF types a that] ts that(1) by (simp add: schema_column_def get_def)
    ultimately show ?thesis using ts rel by (simp add: atom_ready_def atom_schema_def schemas)
  qed
  have pos: "\<forall>a \<in> set (positive_atoms ?ls). atom_ready E ?st db store ?tys a" using atom by (auto simp: body_parts_iff)
  have plan: "st2 = ?st" "mset leaves = mset (positive_atoms ?ls)"
    "execute_node E store root = Some \<lparr>btypes = body_schema (low_schemas ?st) leaves,
       brows = join_rows (atom_rows E ?env (low_schemas ?st) db) leaves\<rparr>"
    using planned_atoms_sound [OF engine pos planned] by auto
  obtain cols where cols: "compute_head_projection env ?schemas (head r) ve = Inr cols"
      "node = (if is_identity_projection cols (total_cols ve) then body_node else ProjectNode body_node cols)"
    using finished plain schemas(2) by (auto simp: finish_rule_def map_res_Inr_iff)
  let ?p = "\<lparr>part_root = root, part_leaves = leaves, part_filtered = filtered, part_bound = bound, part_env = ve,
    part_body = body_node, part_cols = cols\<rparr>"
  have "lowered_stages env r st node st' ?p"
    using comparisons is_exprs negations cols plan(1,2) no_epistemic schemas(1) st' by (simp add: lowered_stages_def)
  moreover have "\<forall>a \<in> set (positive_atoms ?ls) \<union> set (negated_atoms ?ls). atom_ready E ?st db store ?tys a"
    using atom by (auto simp: body_parts_iff)
  ultimately show ?thesis using plan(3) by (intro exI [of _ ?p]) simp
qed

lemma lower_rule_stages:
  fixes E :: "'v engine"
  assumes engine: "typed_engine E" "equality_faithful E"
    and terms: "validate_rule_terms r = Inr ()"
    and bindings: "validate_bindings (positive_body_bound_variables (body r)) (body r) = Inr ()"
    and types: "infer_rule_variable_types r (schema_column (low_schemas st)) RequireExpansion = Inr vts"
    and blank: "''_'' \<notin> rule_variables r"
    and parts: "lowered_stages env r st node st' p"
    and atom: "\<forall>a \<in> set (positive_atoms (body r)) \<union> set (negated_atoms (body r)).
         atom_ready E (numbered r st) db store (map_option fst \<circ> vts) a"
    and root: "execute_node E store (part_root p)
        = Some \<lparr>btypes = body_schema (low_schemas (numbered r st)) (part_leaves p),
            brows = join_rows (atom_rows E (low_scalars env) (low_schemas (numbered r st)) db) (part_leaves p)\<rparr>"
  shows "stage E store (map_option fst \<circ> vts) (part_root p) (joined_env r st p) (positive_body_bound_variables (body r))
      (\<lambda>\<sigma>. \<forall>a \<in> set (part_leaves p). literal_holds E (low_scalars env) (low_schemas st) db (map_option fst \<circ> vts) \<sigma> (Positive a))"
    and "stage E store (map_option fst \<circ> vts) (part_body p) (part_env p) (rule_variables r)
      (\<lambda>\<sigma>. \<forall>l \<in> set (body r). literal_holds E (low_scalars env) (low_schemas st) db (map_option fst \<circ> vts) \<sigma> l)"
proof -
  let ?env = "low_scalars env" and ?schemas = "low_schemas st" and ?ls = "body r" and ?st = "numbered r st"
  let ?tys = "map_option fst \<circ> vts" 
  let ?holds = "literal_holds E ?env ?schemas db ?tys"
  let ?leaves = "part_leaves p" and ?ve = "joined_env r st p" and ?V = "positive_body_bound_variables ?ls"
  have comparisons: "fold_res (apply_comparison env ?ve) (body_comparisons ?ls) (part_root p) = Inr (part_filtered p)"
    and is_exprs: "fold_res lower_is_expr (body_is_exprs ?ls) (part_filtered p, ?ve) = Inr (part_bound p, part_env p)"
    and negations: "fold_res (apply_negation env (part_env p)) (negated_atoms ?ls) (part_bound p, ?st) = Inr (part_body p, st')"
    and schemas: "low_schemas ?st = ?schemas" and same: "mset ?leaves = mset (positive_atoms ?ls)"
    and no_epistemic: "find_epistemic ?ls = None"
    using parts by (auto simp: lowered_stages_def)
  have leaves: "set ?leaves = set (positive_atoms ?ls)" using same by (rule mset_eq_setD)
  have "stage E store ?tys (part_root p) ?ve {x. x \<noteq> ''_'' \<and> Variable x \<in> set (body_terms ?leaves)}
      (\<lambda>\<sigma>. \<forall>a \<in> set ?leaves. atom_holds E ?env (low_schemas ?st) db \<sigma> a)"
    by (rule stage_positive [OF _ root]) (use atom leaves in simp)
  then have s1: "stage E store ?tys (part_root p) ?ve ?V (\<lambda>\<sigma>. \<forall>a \<in> set ?leaves. ?holds \<sigma> (Positive a))"
    unfolding bindings_positive [OF terms same] schemas by (simp add: literal_holds_def)
  have l1: "local_to ?V (\<lambda>\<sigma>. \<forall>a \<in> set ?leaves. ?holds \<sigma> (Positive a))"
  proof -
    have "local_to ?V (\<lambda>\<sigma>. ?holds \<sigma> (Positive a))" if "a \<in> set ?leaves" for a
      by (rule local_positive) (use that bindings_positive [OF terms same] in auto)
    then show ?thesis unfolding local_to_def by (metis (no_types, lifting))
  qed
  note s2 = stage_comparisons [OF comparisons  s1 l1, of ?schemas db]
  obtain vts1 where atoms: "fold_res (record_literal_types r (schema_column ?schemas)) ?ls Map.empty = Inr vts1"
    and bound_types: "fold_res (record_is_type r RequireExpansion) (map IsExpr (body_is_exprs ?ls)) vts1 = Inr vts"
    using types unfolding infer_rule_variable_types_def bind_res_Inr_iff by (metis record_is_fold)
  have start: "\<forall>x t. env_types ?ve x = Some t \<longrightarrow> map_option fst (vts1 x) = Some t"
  proof (intro allI impI)
    fix x t assume t: "env_types ?ve x = Some t"
    then have tys: "?tys x = Some t" and "get_column ?ve x \<noteq> None"
      using s1 unfolding stage_def env_ok_def by (simp, metis option.distinct(1))
    then have "x \<in> ?V" using s1 unfolding stage_def by blast
    then obtain a where a: "a \<in> set ?leaves" "Variable x \<in> set (terms a)"
      unfolding bindings_positive [OF terms same, symmetric] by auto
    then obtain i where i: "i < length (terms a)" "terms a ! i = Variable x" by (auto simp: in_set_conv_nth)
    have member: "Positive a \<in> set ?ls" using a(1) leaves by (simp add: body_parts_iff)
    obtain ty where ty: "schema_column ?schemas a i = Some ty"
      using atom member i(1) by (auto simp: body_parts_iff atom_ready_def schema_column_def get_def schemas)
    have recorded: "map_option fst (vts1 x) = Some ty" by (rule recorded_column [OF atoms member _ i ty]) simp
    have "map_option fst (vts x) = Some ty" by (rule inferred_column [OF types member _ i ty]) simp
    then have "ty = t" using tys unfolding comp_apply by (rule option.inject [THEN iffD1, OF trans [OF sym]])
    then show "map_option fst (vts1 x) = Some t" using recorded by (simp only:)
  qed
  have s3: "stage E store ?tys (part_bound p) (part_env p) (?V \<union> is_target ` set (body_is_exprs ?ls))
      (\<lambda>\<sigma>. ((\<forall>a \<in> set ?leaves. ?holds \<sigma> (Positive a)) \<and> (\<forall>c \<in> set (body_comparisons ?ls). ?holds \<sigma> (Comparison c)))
        \<and> (\<forall>e \<in> set (body_is_exprs ?ls). ?holds \<sigma> (IsExpr e)))"
    by (rule stage_is_exprs [OF is_exprs  bound_types refl s2 [THEN conjunct1] s2 [THEN conjunct2] _ start])
      (use bindings validate_bindings_is in metis)
  have neg: "\<forall>a \<in> set (negated_atoms ?ls). atom_ready E ?st db store ?tys a" using atom by (auto simp: body_parts_iff)
  have s4: "stage E store ?tys (part_body p) (part_env p) (rule_variables r)
      (\<lambda>\<sigma>. (((\<forall>a \<in> set ?leaves. ?holds \<sigma> (Positive a)) \<and> (\<forall>c \<in> set (body_comparisons ?ls). ?holds \<sigma> (Comparison c)))
        \<and> (\<forall>e \<in> set (body_is_exprs ?ls). ?holds \<sigma> (IsExpr e))) \<and> (\<forall>a \<in> set (negated_atoms ?ls). ?holds \<sigma> (Negated a)))"
    using stage_negations [OF engine negations  s3 neg] blank
    unfolding rule_variables_def schemas by blast
  have "((((\<forall>a \<in> set ?leaves. ?holds \<sigma> (Positive a)) \<and> (\<forall>c \<in> set (body_comparisons ?ls). ?holds \<sigma> (Comparison c)))
        \<and> (\<forall>e \<in> set (body_is_exprs ?ls). ?holds \<sigma> (IsExpr e))) \<and> (\<forall>a \<in> set (negated_atoms ?ls). ?holds \<sigma> (Negated a)))
      \<longleftrightarrow> (\<forall>l \<in> set ?ls. ?holds \<sigma> l)" for \<sigma>
    unfolding leaves Ball_def body_parts_iff using no_other_literals [OF terms no_epistemic] by blast
  then show "stage E store ?tys (part_body p) (part_env p) (rule_variables r) (\<lambda>\<sigma>. \<forall>l \<in> set ?ls. ?holds \<sigma> l)"
    using s4 by simp
  show "stage E store ?tys (part_root p) ?ve ?V (\<lambda>\<sigma>. \<forall>a \<in> set ?leaves. ?holds \<sigma> (Positive a))" by (rule s1)
qed

lemma lower_rule_sound:
  fixes E :: "'v engine"
  assumes engine: "typed_engine E" "equality_faithful E"
    and terms: "validate_rule_terms r = Inr ()"
    and bindings: "validate_bindings (positive_body_bound_variables (body r)) (body r) = Inr ()"
    and types: "infer_rule_variable_types r (schema_column (low_schemas st)) RequireExpansion = Inr vts"
    and blank: "''_'' \<notin> rule_variables r" and plain: "\<not> has_aggregation r"
    and lowered: "lower_rule env r st = Inr (node, st')"
    and ready: "rule_ready E st' db store r"
    and run: "execute_node E store node = Some b"
  shows "set (brows b) = rule_answers E (low_scalars env) (low_schemas st) db (map_option fst \<circ> vts) r"
proof -
  obtain p where p: "lowered_stages env r st node st' p"
    "\<forall>a \<in> set (positive_atoms (body r)) \<union> set (negated_atoms (body r)).
       atom_ready E (numbered r st) db store (map_option fst \<circ> vts) a"
    "execute_node E store (part_root p)
        = Some \<lparr>btypes = body_schema (low_schemas (numbered r st)) (part_leaves p),
            brows = join_rows (atom_rows E (low_scalars env) (low_schemas (numbered r st)) db) (part_leaves p)\<rparr>"
    using lower_rule_setup [OF engine types plain lowered ready] by blast
  note stage = lower_rule_stages(2) [OF engine terms bindings types blank p]
  have cols: "compute_head_projection env (low_schemas st) (head r) (part_env p) = Inr (part_cols p)"
      "node = (if is_identity_projection (part_cols p) (total_cols (part_env p)) then part_body p
        else ProjectNode (part_body p) (part_cols p))"
    using p(1) by (auto simp: lowered_stages_def)
  show ?thesis
    using stage_head [OF stage cols(1), of b] run unfolding cols(2) rule_answers_def body_assignments_def by simp
qed

end
