(* ===== verification/Lower_Sound.thy ===== *)
theory Lower_Sound
  imports Lower_Correct
begin

text \<open>
  The properties of the lowerer, with an example: an engine whose values are typed constants, a rule with a
  join, a negated atom, a comparison and an arithmetic binding, and its lowered plan.
\<close>

section \<open>Join planning\<close>

text \<open>C9: whatever join order the lowerer picks for the positive atoms of a body - the only atom, the
  exhaustive search over bushy trees, the left-deep greedy order or the greedy pairing - the plan scans every
  atom exactly once, leaves the numbering of relations alone, and runs without an executor error to the join of
  the atoms' rows, over relations that have the declared columns.\<close>

theorem chosen_plan_joins:
  assumes "typed_engine E" "equality_faithful E" and "\<forall>a \<in> set atoms. atom_ready E st db store tys a"
    and "plan_positive_atoms env atoms st = Inr ((node, leaves), st')"
  shows "st' = st \<and> mset leaves = mset atoms \<and> execute_node E store node
    = Some \<lparr>btypes = body_schema (low_schemas st) leaves,
            brows = join_rows (atom_rows E (low_scalars env) (low_schemas st) db) leaves\<rparr>"
  using assms by (rule plan_positive_atoms_sound)

section \<open>Rules\<close>

text \<open>C7: the plan of a rule without aggregates computes the rule. When the checks of the lowerer accept the
  rule and lowering succeeds, every run of the plan over relations of the declared types that meets no
  arithmetic error returns exactly the answers of the rule: the head tuples of the assignments under which all
  positive atoms, negated atoms, comparisons and arithmetic bindings hold.\<close>

theorem lowered_rule_answers:
  assumes "typed_engine E" "equality_faithful E" and "validate_rule_terms r = Inr ()"
    and "validate_bindings (positive_body_bound_variables (body r)) (body r) = Inr ()"
    and "infer_rule_variable_types r (schema_column (low_schemas st)) RequireExpansion = Inr vts"
    and "''_'' \<notin> rule_variables r" and "\<not> has_aggregation r"
    and "lower_rule env r st = Inr (node, st')"
    and "rule_ready E st' db store r" and "execute_node E store node = Some b"
  shows "set (brows b) = rule_answers E (low_scalars env) (low_schemas st) db (map_option fst \<circ> vts) r"
  using assms by (rule lower_rule_sound)

section \<open>An example\<close>

definition widen_engine :: "const_value engine" where
  "widen_engine = demo_engine\<lparr>cast_column := (\<lambda>v t.
     if const_type v = t then Some v
     else case v of CvF32 w \<Rightarrow> if t = TyF64 then Some (CvF64 (ucast w)) else None | _ \<Rightarrow> None)\<rparr>"

lemma widen_engine_typed: "typed_engine widen_engine"
  using demo_engine_typed by (simp add: typed_engine_def widen_engine_def)

lemma ucast_u32_inj: "(ucast (a :: 32 word) :: 64 word) = ucast b \<longleftrightarrow> a = b"
proof -
  have "(ucast (ucast w :: 64 word) :: 32 word) = w" for w :: "32 word"
    by transfer simp
  then show ?thesis by metis
qed

lemma widen_engine_faithful: "equality_faithful widen_engine"
  unfolding equality_faithful_def
  apply (intro allI impI)
  subgoal for a b
    by (cases a; cases b) (simp_all add: widen_engine_def demo_engine_def compare_values_def ucast_u32_inj)
  done

definition sample_env :: lower_env where
  "sample_env = \<lparr>low_scalars = \<lparr>f32_operation = (\<lambda>_ a _. a), f64_operation = (\<lambda>_ a _. a), f64_of_int = (\<lambda>_. 0),
     f64_of_f32 = ucast, f32_of_f64 = ucast, symbol_of = (\<lambda>_. 0), symbol_text = (\<lambda>_. None)\<rparr>, tenth_power = (\<lambda>_. 0)\<rparr>"

definition sample_schemas :: schema_table where
  "sample_schemas p = (if p = ''edge'' \<or> p = ''reach'' then Some [TyI64, TyI64]
     else if p = ''blocked'' then Some [TyI64] else None)"

definition sample_lowerer :: lowerer where
  "sample_lowerer = \<lparr>low_schemas = sample_schemas, est_cardinality = (\<lambda>_. None), next_rel_id = 0, rel_ids = []\<rparr>"

abbreviation (input) sample_atom :: "string \<Rightarrow> ast_term list \<Rightarrow> atom" where
  "sample_atom p ts \<equiv> \<lparr>predicate = p, terms = ts\<rparr>"

text \<open>\<open>reach(X, W) :- edge(X, Y), edge(Y, Z), not blocked(Z), X < 6, W is Y + 1\<close>\<close>

definition sample_rule :: rule where
  "sample_rule = \<lparr>head = sample_atom ''reach'' [Variable ''X'', Variable ''W''],
     body = [Positive (sample_atom ''edge'' [Variable ''X'', Variable ''Y'']),
             Positive (sample_atom ''edge'' [Variable ''Y'', Variable ''Z'']),
             Negated (sample_atom ''blocked'' [Variable ''Z'']),
             Comparison \<lparr>cmp_left = Variable ''X'', cmp_op = Lt, cmp_right = Integer 6\<rparr>,
             IsExpr \<lparr>is_target = ''W'', is_rhs = Add (AVariable ''Y'') (AInteger 1)\<rparr>]\<rparr>"

definition sample_db :: "string \<Rightarrow> const_value buffer" where
  "sample_db p = (if p = ''edge'' then \<lparr>btypes = [TyI64, TyI64], brows = map (map CvI64) [[1, 2], [2, 3], [2, 4], [7, 2]]\<rparr>
     else \<lparr>btypes = [TyI64], brows = [[CvI64 4]]\<rparr>)"

definition sample_store :: "rel_id \<Rightarrow> const_value buffer option" where
  "sample_store r = (if r = 0 then Some (sample_db ''edge'') else if r = 1 then Some (sample_db ''blocked'') else None)"

definition sample_result :: "lower_error + rir_node \<times> lowerer" where
  "sample_result = lower_rule sample_env sample_rule sample_lowerer"

lemma sample_lowered:
  "map_res (\<lambda>(n, s). (map_option brows (execute_node widen_engine sample_store n), rel_ids s,
       map (low_schemas s) [''edge'', ''blocked''])) sample_result
     = Inr (Some [[CvI64 1, CvI64 3]], [(''edge'', 0), (''blocked'', 1)], [Some [TyI64, TyI64], Some [TyI64]])"
  by code_simp

definition sample_types :: "string \<Rightarrow> (scalar_type \<times> type_source) option" where
  "sample_types = projr (infer_rule_variable_types sample_rule (schema_column sample_schemas) RequireExpansion)"

lemma sample_typed:
  "infer_rule_variable_types sample_rule (schema_column (low_schemas sample_lowerer)) RequireExpansion = Inr sample_types"
proof -
  have "\<not> isl (infer_rule_variable_types sample_rule (schema_column sample_schemas) RequireExpansion)"
    by code_simp
  then show ?thesis by (simp add: sample_types_def sample_lowerer_def sum.collapse(2))
qed

lemma sample_db_typed:
  "buffer_typed widen_engine [TyI64, TyI64] (sample_db ''edge'')"
  "buffer_typed widen_engine [TyI64] (sample_db ''blocked'')"
  by (simp_all add: buffer_typed_def row_typed_def sample_db_def widen_engine_def demo_engine_def)

theorem chosen_plan_joins_witness:
  "\<exists>node leaves. execute_node widen_engine sample_store node
     = Some \<lparr>btypes = body_schema sample_schemas leaves,
             brows = join_rows (atom_rows widen_engine (low_scalars sample_env) sample_schemas sample_db) leaves\<rparr>
     \<and> mset leaves = mset [sample_atom ''edge'' [Variable ''X'', Variable ''Y''], sample_atom ''edge'' [Variable ''Y'', Variable ''Z'']]"
proof -
  let ?atoms = "[sample_atom ''edge'' [Variable ''X'', Variable ''Y''], sample_atom ''edge'' [Variable ''Y'', Variable ''Z'']]"
  let ?st = "sample_lowerer\<lparr>rel_ids := [(''edge'', 0)]\<rparr>"
  have "\<not> isl (plan_positive_atoms sample_env ?atoms ?st)" by code_simp
  then obtain node leaves st' where plan: "plan_positive_atoms sample_env ?atoms ?st = Inr ((node, leaves), st')"
    by (metis isl_def prod.exhaust sum.exhaust)
  have "atom_ready widen_engine ?st sample_db sample_store (\<lambda>_. Some TyI64) a" if "a \<in> set ?atoms" for a
    using that sample_db_typed
    by (auto simp: atom_ready_def atom_schema_def sample_lowerer_def sample_schemas_def sample_store_def less_Suc_eq)
  then show ?thesis
    using chosen_plan_joins [OF widen_engine_typed widen_engine_faithful _ plan, of sample_db sample_store "\<lambda>_. Some TyI64"]
    by (auto simp: sample_lowerer_def)
qed

theorem lowered_rule_answers_witness:
  "rule_answers widen_engine (low_scalars sample_env) sample_schemas sample_db (map_option fst \<circ> sample_types) sample_rule
     = {[CvI64 1, CvI64 3]}"
proof -
  obtain node st' where lowered: "lower_rule sample_env sample_rule sample_lowerer = Inr (node, st')"
    and run: "map_option brows (execute_node widen_engine sample_store node) = Some [[CvI64 1, CvI64 3]]"
    and ids: "rel_ids st' = [(''edge'', 0), (''blocked'', 1)]"
    and schemas: "low_schemas st' ''edge'' = Some [TyI64, TyI64]" "low_schemas st' ''blocked'' = Some [TyI64]"
    using sample_lowered unfolding sample_result_def map_res_Inr_iff by fastforce
  obtain b where b: "execute_node widen_engine sample_store node = Some b" "brows b = [[CvI64 1, CvI64 3]]"
    using run by auto
  have "rule_ready widen_engine st' sample_db sample_store sample_rule"
    using ids schemas sample_db_typed
    by (auto simp: rule_ready_def sample_rule_def sample_store_def split: if_splits)
  moreover have "validate_rule_terms sample_rule = Inr ()"
    "validate_bindings (positive_body_bound_variables (body sample_rule)) (body sample_rule) = Inr ()"
    by code_simp+
  moreover have "''_'' \<notin> rule_variables sample_rule" "\<not> has_aggregation sample_rule" by code_simp+
  ultimately show ?thesis
    using lowered_rule_answers [OF widen_engine_typed widen_engine_faithful _ _ sample_typed _ _ lowered _ b(1)] b(2)
    by (simp add: sample_lowerer_def)
qed

section \<open>Comparisons before bindings\<close>

text \<open>Comparisons are lowered before arithmetic bindings. \<open>p(X) :- q(Y), X is Y + 1, X > 3\<close> passes every check
  of the rule and is then refused, because the comparison does not find its variable.\<close>

definition late_rule :: rule where
  "late_rule = \<lparr>head = sample_atom ''p'' [Variable ''X''],
     body = [Positive (sample_atom ''q'' [Variable ''Y'']),
             IsExpr \<lparr>is_target = ''X'', is_rhs = Add (AVariable ''Y'') (AInteger 1)\<rparr>,
             Comparison \<lparr>cmp_left = Variable ''X'', cmp_op = Gt, cmp_right = Integer 3\<rparr>]\<rparr>"

lemma comparison_of_binding_refused:
  "validate_rule_terms late_rule = Inr ()"
  "validate_bindings (positive_body_bound_variables (body late_rule)) (body late_rule) = Inr ()"
  "map_res (\<lambda>_. ()) (lower_rule sample_env late_rule (sample_lowerer\<lparr>low_schemas := \<lambda>_. Some [TyI64]\<rparr>))
     = Inl (VariableNotFound ''X'')"
  by code_simp+

end
