(* ===== verification/Lower_Runs.thy ===== *)
theory Lower_Runs
  imports Lower_Sound
begin

text \<open>
  Lowered plans run: over kernels that are total on operands of the types the executor allows, the plan of a
  rule that passes the checks of the lowerer meets no executor error, its rows have the column types of the
  head's schema, and they are the answers of the rule. What the lowerer does not check is a hypothesis: the
  two sides of a comparison of two variables or two literals, and of the condition of a conditional, have
  the same type or one of them is a float.
\<close>

section \<open>Total kernels\<close>

text \<open>Arithmetic on two columns of one type other than Bool gives that type (wrapping, with fixed results for
  division by zero), powers are computed in 64-bit floats, and casts convert between any two types.\<close>

definition total_engine :: "'v engine \<Rightarrow> bool" where
  "total_engine E \<longleftrightarrow>
     (\<forall>aop a b. aop \<noteq> OpPower \<and> type_of_val E a = type_of_val E b \<and> type_of_val E a \<noteq> TyBool
        \<longrightarrow> (\<exists>v. column_op E aop a b = Some v \<and> type_of_val E v = type_of_val E a))
     \<and> (\<forall>a b. \<exists>v. column_op E OpPower a b = Some v \<and> type_of_val E v = TyF64)
     \<and> (\<forall>a. \<exists>v. abs_column E a = Some v \<and> type_of_val E v = type_of_val E a)
     \<and> (\<forall>a t. \<exists>v. cast_column E a t = Some v \<and> type_of_val E v = t)"

lemma total_column_op:
  "total_engine E \<Longrightarrow> aop \<noteq> OpPower \<Longrightarrow> type_of_val E a = type_of_val E b \<Longrightarrow> type_of_val E a \<noteq> TyBool
    \<Longrightarrow> \<exists>v. column_op E aop a b = Some v \<and> type_of_val E v = type_of_val E a"
  unfolding total_engine_def by blast

lemma total_power: "total_engine E \<Longrightarrow> \<exists>v. column_op E OpPower a b = Some v \<and> type_of_val E v = TyF64"
  unfolding total_engine_def by blast

lemma total_abs: "total_engine E \<Longrightarrow> \<exists>v. abs_column E a = Some v \<and> type_of_val E v = type_of_val E a"
  unfolding total_engine_def by blast

lemma total_cast: "total_engine E \<Longrightarrow> \<exists>v. cast_column E a t = Some v \<and> type_of_val E v = t"
  unfolding total_engine_def by blast

lemma compare_total:
  assumes "total_engine E" and "type_of_val E a = type_of_val E b \<or> fl"
  shows "\<exists>k. compare_values E fl aop a b = Some k"
proof -
  obtain a' b' where "cast_column E a TyF64 = Some a'" "type_of_val E a' = TyF64"
    "cast_column E b TyF64 = Some b'" "type_of_val E b' = TyF64"
    using total_cast [OF assms(1)] by blast
  then show ?thesis using assms(2) by (auto simp: compare_values_def)
qed

section \<open>Arithmetic\<close>

definition comparable_types :: "scalar_type option \<Rightarrow> scalar_type option \<Rightarrow> bool" where
  "comparable_types s t =
     (case (s, t) of (Some a, Some b) \<Rightarrow> a = b \<or> float_type a \<or> float_type b | _ \<Rightarrow> False)"

definition inferred_comparable ::
    "lower_error + scalar_type option \<Rightarrow> lower_error + scalar_type option \<Rightarrow> bool \<Rightarrow> bool" where
  "inferred_comparable s t fl = (case (s, t) of (Inr (Some a), Inr (Some b)) \<Rightarrow> a = b \<or> fl | _ \<Rightarrow> False)"

lemma inferred_comparableD:
  "inferred_comparable s t fl \<Longrightarrow> \<exists>a b. s = Inr (Some a) \<and> t = Inr (Some b) \<and> (a = b \<or> fl)"
  by (cases s; cases t) (auto simp: inferred_comparable_def split: option.splits)

text \<open>The condition of each conditional compares values of one type, or is computed in floats.\<close>

fun conditions_typed :: "(string \<Rightarrow> scalar_type option) \<Rightarrow> arith_expr \<Rightarrow> bool" where
  "conditions_typed tys (Conditional cl cop cr t e) =
     (inferred_comparable (infer_known RequireExpansion tys cl) (infer_known RequireExpansion tys cr)
        (arith_may_be_float tys cl \<or> arith_may_be_float tys cr)
      \<and> conditions_typed tys cl \<and> conditions_typed tys cr \<and> conditions_typed tys t \<and> conditions_typed tys e)"
| "conditions_typed tys (Add l r) = (conditions_typed tys l \<and> conditions_typed tys r)"
| "conditions_typed tys (Sub l r) = (conditions_typed tys l \<and> conditions_typed tys r)"
| "conditions_typed tys (Mul l r) = (conditions_typed tys l \<and> conditions_typed tys r)"
| "conditions_typed tys (Div l r) = (conditions_typed tys l \<and> conditions_typed tys r)"
| "conditions_typed tys (Mod l r) = (conditions_typed tys l \<and> conditions_typed tys r)"
| "conditions_typed tys (AMin l r) = (conditions_typed tys l \<and> conditions_typed tys r)"
| "conditions_typed tys (AMax l r) = (conditions_typed tys l \<and> conditions_typed tys r)"
| "conditions_typed tys (Pow l r) = (conditions_typed tys l \<and> conditions_typed tys r)"
| "conditions_typed tys (Abs e) = conditions_typed tys e"
| "conditions_typed tys (Cast e t) = conditions_typed tys e"
| "conditions_typed tys _ = True"

lemma may_be_float_cong:
  "(\<And>x. x \<in> set (arith_variables e) \<Longrightarrow> ty x = ty' x) \<Longrightarrow> arith_may_be_float ty e = arith_may_be_float ty' e"
  by (induction e) auto

lemma conditions_typed_cong:
  "(\<And>x. x \<in> set (arith_variables e) \<Longrightarrow> ty x = ty' x) \<Longrightarrow> conditions_typed ty e = conditions_typed ty' e"
proof (induction e)
  case (Conditional cl cop cr t e)
  have "infer_known RequireExpansion ty cl = infer_known RequireExpansion ty' cl"
       "infer_known RequireExpansion ty cr = infer_known RequireExpansion ty' cr"
    by (rule infer_known_cong, use Conditional.prems in simp)+
  moreover have "arith_may_be_float ty cl = arith_may_be_float ty' cl" "arith_may_be_float ty cr = arith_may_be_float ty' cr"
    by (rule may_be_float_cong, use Conditional.prems in simp)+
  moreover have "conditions_typed ty cl = conditions_typed ty' cl" "conditions_typed ty cr = conditions_typed ty' cr"
    "conditions_typed ty t = conditions_typed ty' t" "conditions_typed ty e = conditions_typed ty' e"
    using Conditional by auto
  ultimately show ?case by simp
qed simp_all

lemma finish_binary_op:
  assumes "total_engine E" "aop \<noteq> OpPower" "k \<noteq> ArithPower"
    and "finish_binary_arithmetic_type k (Some (type_of_val E a)) (Some (type_of_val E b)) = Inr res"
  shows "\<exists>v. column_op E aop a b = Some v \<and> res = Some (type_of_val E v)"
proof -
  have "type_of_val E a = type_of_val E b \<and> type_of_val E a \<noteq> TyBool \<and> res = Some (type_of_val E a)"
    using assms(3,4)
    by (cases k) (auto simp: finish_binary_arithmetic_type_def matching_numeric_def known_def left_if_both_def
        is_numeric_type_def modulo_operand_def map_res_Inr_iff bind_res_Inr_iff split: if_splits)
  then show ?thesis using total_column_op [OF assms(1,2)] by metis
qed

lemma binary_typed:
  assumes "total_engine E" "aop \<noteq> OpPower" "k \<noteq> ArithPower"
    and "\<And>res. infer_known RequireExpansion tys l = Inr res \<Longrightarrow> \<exists>v. arith_meaning E tys \<sigma> l = Some v \<and> res = Some (type_of_val E v)"
    and "\<And>res. infer_known RequireExpansion tys r = Inr res \<Longrightarrow> \<exists>v. arith_meaning E tys \<sigma> r = Some v \<and> res = Some (type_of_val E v)"
    and "bind_res (infer_known RequireExpansion tys l) (\<lambda>a. bind_res (infer_known RequireExpansion tys r)
      (finish_binary_arithmetic_type k a)) = Inr res"
  shows "\<exists>v. both_values (column_op E aop) (arith_meaning E tys \<sigma> l) (arith_meaning E tys \<sigma> r) = Some v
    \<and> res = Some (type_of_val E v)"
proof -
  obtain a b where "infer_known RequireExpansion tys l = Inr a" "infer_known RequireExpansion tys r = Inr b"
    and fin: "finish_binary_arithmetic_type k a b = Inr res"
    using assms(6) by (auto simp: bind_res_Inr_iff)
  then obtain v w where v: "arith_meaning E tys \<sigma> l = Some v" "a = Some (type_of_val E v)"
    and w: "arith_meaning E tys \<sigma> r = Some w" "b = Some (type_of_val E w)"
    using assms(4,5) by blast
  show ?thesis
    using finish_binary_op [OF assms(1-3) fin [unfolded v(2) w(2)]] by (simp add: v(1) w(1) both_values_def)
qed

text \<open>Type inference is sound: an expression with typed variables has a value of the inferred type.\<close>

lemma arith_meaning_typed:
  assumes total: "total_engine E" and typed: "typed_engine E"
    and "\<And>x. x \<in> set (arith_variables e) \<Longrightarrow> \<exists>v. \<sigma> x = Some v \<and> tys x = Some (type_of_val E v)"
    and "infer_known RequireExpansion tys e = Inr res" and "conditions_typed tys e"
  shows "\<exists>v. arith_meaning E tys \<sigma> e = Some v \<and> res = Some (type_of_val E v)"
  using assms(3-)
proof (induction e arbitrary: res)
  case (AVariable x)
  then show ?case by fastforce
next
  case (Pow l r)
  obtain a b where a: "infer_known RequireExpansion tys l = Inr a" and b: "infer_known RequireExpansion tys r = Inr b"
    and fin: "finish_binary_arithmetic_type ArithPower a b = Inr res"
    using Pow.prems(2) by (auto simp: bind_res_Inr_iff)
  obtain v w where v: "arith_meaning E tys \<sigma> l = Some v" "a = Some (type_of_val E v)"
    and w: "arith_meaning E tys \<sigma> r = Some w" "b = Some (type_of_val E w)"
    using Pow.IH(1) [OF _ a] Pow.IH(2) [OF _ b] Pow.prems by auto
  have "res = Some TyF64"
    using fin by (auto simp: v w finish_binary_arithmetic_type_def known_def split: if_splits)
  then show ?case using total_power [OF total] by (simp add: v(1) w(1) both_values_def) metis
next
  case (Abs e)
  obtain a where a: "infer_known RequireExpansion tys e = Inr a" and fin: "finish_abs_type a = Inr res"
    using Abs.prems(2) by (auto simp: bind_res_Inr_iff)
  obtain v where v: "arith_meaning E tys \<sigma> e = Some v" "a = Some (type_of_val E v)"
    using Abs.IH [OF _ a] Abs.prems by auto
  have "res = Some (type_of_val E v)" using fin by (auto simp: v finish_abs_type_def split: if_splits)
  then show ?case using total_abs [OF total, of v] by (auto simp: v(1))
next
  case (Cast e t)
  obtain a where a: "infer_known RequireExpansion tys e = Inr a" and res: "res = Some t"
    using Cast.prems(2) by (auto simp: map_res_Inr_iff)
  obtain v where v: "arith_meaning E tys \<sigma> e = Some v" using Cast.IH [OF _ a] Cast.prems by auto
  then show ?case using total_cast [OF total, of v t] by (auto simp: v res)
next
  case (Conditional cl cop cr t e)
  have vars: "\<exists>v. \<sigma> x = Some v \<and> tys x = Some (type_of_val E v)"
    if "x \<in> set (arith_variables cl) \<union> set (arith_variables cr) \<union> set (arith_variables t) \<union> set (arith_variables e)" for x
    using that Conditional.prems(1) by auto
  obtain a b where a: "infer_known RequireExpansion tys cl = Inr (Some a)" and b: "infer_known RequireExpansion tys cr = Inr (Some b)"
    and ab: "a = b \<or> arith_may_be_float tys cl \<or> arith_may_be_float tys cr"
    and sub: "conditions_typed tys cl" "conditions_typed tys cr" "conditions_typed tys t" "conditions_typed tys e"
    using Conditional.prems(3) by (auto dest!: inferred_comparableD)
  obtain x y where x: "arith_meaning E tys \<sigma> cl = Some x" "a = type_of_val E x"
    and y: "arith_meaning E tys \<sigma> cr = Some y" "b = type_of_val E y"
    using Conditional.IH(1) [OF vars a sub(1)] Conditional.IH(2) [OF vars b sub(2)] by auto
  have "type_of_val E x = type_of_val E y \<or> (arith_may_be_float tys cl \<or> arith_may_be_float tys cr)"
    using ab unfolding x(2) y(2) .
  from compare_total [OF total this]
  obtain k where k: "compare_values E (arith_may_be_float tys cl \<or> arith_may_be_float tys cr) (compare_op_of cop) x y = Some k" ..
  obtain c d where c: "infer_known RequireExpansion tys t = Inr c" and d: "infer_known RequireExpansion tys e = Inr d"
    and fin: "finish_conditional_type c d = Inr res"
    using Conditional.prems(2) by (auto simp: bind_res_Inr_iff)
  obtain v w where v: "arith_meaning E tys \<sigma> t = Some v" "c = Some (type_of_val E v)"
    and w: "arith_meaning E tys \<sigma> e = Some w" "d = Some (type_of_val E w)"
    using Conditional.IH(3) [OF vars c sub(3)] Conditional.IH(4) [OF vars d sub(4)] by auto
  have "type_of_val E v = type_of_val E w" "res = Some (type_of_val E v)"
    using fin by (auto simp: v w finish_conditional_type_def split: if_splits)
  then show ?case by (simp add: x y k v w both_values_def select_value_def)
next
  case (AInteger i)
  then show ?case using typed by (auto simp: typed_engine_def)
next
  case (AFloat f)
  then show ?case using typed by (auto simp: typed_engine_def)
next
  case (FuncCall f args)
  then show ?case by simp
next
  case (Add l r)
  then show ?case unfolding arith_meaning.simps by (intro binary_typed [OF total, where k = ArithStandard]) auto
next
  case (Sub l r)
  then show ?case unfolding arith_meaning.simps by (intro binary_typed [OF total, where k = ArithStandard]) auto
next
  case (Mul l r)
  then show ?case unfolding arith_meaning.simps by (intro binary_typed [OF total, where k = ArithStandard]) auto
next
  case (Div l r)
  then show ?case unfolding arith_meaning.simps by (intro binary_typed [OF total, where k = ArithStandard]) auto
next
  case (Mod l r)
  then show ?case unfolding arith_meaning.simps by (intro binary_typed [OF total, where k = ArithModulo]) auto
next
  case (AMin l r)
  then show ?case unfolding arith_meaning.simps by (intro binary_typed [OF total, where k = ArithMinMax]) auto
next
  case (AMax l r)
  then show ?case unfolding arith_meaning.simps by (intro binary_typed [OF total, where k = ArithMinMax]) auto
qed

section \<open>Comparisons\<close>

text \<open>A literal beside a variable is read at the type of the variable, so only two variables and two literals
  can differ in type.\<close>

definition comparable :: "scalar_env \<Rightarrow> (string \<Rightarrow> scalar_type option) \<Rightarrow> comparison \<Rightarrow> bool" where
  "comparable env tys c =
     (case (cmp_left c, cmp_right c) of
        (Variable x, Variable y) \<Rightarrow> comparable_types (tys x) (tys y)
      | (Variable _, _) \<Rightarrow> True
      | (_, Variable _) \<Rightarrow> True
      | (s, t) \<Rightarrow> comparable_types (map_option const_type (plain_constant env s)) (map_option const_type (plain_constant env t)))"

definition operand_type ::
    "scalar_env \<Rightarrow> (string \<Rightarrow> scalar_type option) \<Rightarrow> ast_term \<Rightarrow> ast_term \<Rightarrow> scalar_type option" where
  "operand_type env tys other t =
     (case t of Variable x \<Rightarrow> tys x | _ \<Rightarrow> map_option const_type (compared_constant env tys other t))"

lemma operand_typed:
  assumes "typed_engine E" and ok: "columns_ok ve tys ts row" and row: "row_typed E ts row"
    and a: "operand E env tys (bind_row ve row) other t = Some (a, fa)"
  shows "operand_type env tys other t = Some (type_of_val E a) \<and> fa = float_type (type_of_val E a)"
proof (cases "is_variable t")
  case True
  then obtain x where x: "t = Variable x" by (auto simp: is_variable_def split: ast_term.splits)
  then obtain col where col: "get_column ve x = Some col" "a = row ! col"
    using a by (auto simp: operand_def bind_row_def bind_eq_Some_conv)
  have "col < length ts" using ok col(1) by (simp add: columns_ok_def)
  then show ?thesis
    using a columns_okD [OF ok col(1)] row_typed_nth [OF row] col(2) by (simp add: operand_def x operand_type_def)
next
  case False
  then obtain k where k: "compared_constant env tys other t = Some k" "a = const_column E k" "fa = float_const k"
    using a by (cases t) (auto simp: operand_def is_variable_def)
  then show ?thesis
    using False assms(1) by (cases t) (auto simp: operand_type_def is_variable_def typed_engine_def float_const_type)
qed

lemma compared_constant_type:
  assumes "compared_constant env tys (Variable x) t = Some k"
  shows "tys x = Some (const_type k)"
proof -
  obtain ty where ty: "tys x = Some ty" and "term_to_typed_const_value env t ty = Inr (Some k)"
    using assms by (cases "tys x"; cases "term_to_typed_const_value env t (the (tys x))") (auto simp: compared_constant_def)
  then show ?thesis using typed_const_type by simp
qed

lemma compared_constant_plain:
  "\<not> is_variable other \<Longrightarrow> compared_constant env tys other t = plain_constant env t"
  by (cases other) (auto simp: compared_constant_def is_variable_def)

lemma comparable_operands:
  assumes "comparable env tys c"
    and l: "operand_type env tys (cmp_right c) (cmp_left c) = Some s"
    and r: "operand_type env tys (cmp_left c) (cmp_right c) = Some t"
  shows "s = t \<or> float_type s \<or> float_type t"
proof (cases "is_variable (cmp_left c)")
  case True
  then obtain x where x: "cmp_left c = Variable x" by (auto simp: is_variable_def split: ast_term.splits)
  have s: "tys x = Some s" using l by (simp add: x operand_type_def)
  show ?thesis
  proof (cases "is_variable (cmp_right c)")
    case True
    then obtain y where "cmp_right c = Variable y" by (auto simp: is_variable_def split: ast_term.splits)
    then show ?thesis using assms(1) r s by (simp add: comparable_def x operand_type_def comparable_types_def)
  next
    case False
    then obtain k where "compared_constant env tys (Variable x) (cmp_right c) = Some k" "t = const_type k"
      using r by (cases "cmp_right c") (auto simp: x operand_type_def is_variable_def)
    then show ?thesis using compared_constant_type s by fastforce
  qed
next
  case left: False
  show ?thesis
  proof (cases "is_variable (cmp_right c)")
    case True
    then obtain y where y: "cmp_right c = Variable y" by (auto simp: is_variable_def split: ast_term.splits)
    obtain k where "compared_constant env tys (Variable y) (cmp_left c) = Some k" "s = const_type k"
      using l left by (cases "cmp_left c") (auto simp: y operand_type_def is_variable_def)
    then show ?thesis using compared_constant_type r by (fastforce simp: y operand_type_def)
  next
    case right: False
    have "comparable_types (map_option const_type (plain_constant env (cmp_left c)))
        (map_option const_type (plain_constant env (cmp_right c)))"
      using assms(1) left right
      by (cases "cmp_left c"; cases "cmp_right c") (simp_all add: comparable_def is_variable_def)
    moreover have "map_option const_type (plain_constant env (cmp_left c)) = Some s"
      using l left compared_constant_plain [OF right, of env tys "cmp_left c"]
      by (cases "cmp_left c") (simp_all add: operand_type_def is_variable_def)
    moreover have "map_option const_type (plain_constant env (cmp_right c)) = Some t"
      using r right compared_constant_plain [OF left, of env tys "cmp_right c"]
      by (cases "cmp_right c") (simp_all add: operand_type_def is_variable_def)
    ultimately show ?thesis by (simp add: comparable_types_def)
  qed
qed

lemma comparison_runs:
  assumes "total_engine E" "typed_engine E" and ok: "columns_ok ve tys ts row" and row: "row_typed E ts row"
    and exprs: "comparison_exprs env c ve = Inr (l, r)" and cmp: "comparable (low_scalars env) tys c"
  shows "eval_pred E ts row (ECompare l aop r) \<noteq> None"
proof -
  obtain a fa b fb where a: "operand E (low_scalars env) tys (bind_row ve row) (cmp_right c) (cmp_left c) = Some (a, fa)"
    "reads E ts row l (a, fa)" and b: "operand E (low_scalars env) tys (bind_row ve row) (cmp_left c) (cmp_right c) = Some (b, fb)"
    "reads E ts row r (b, fb)"
    using comparison_sides [OF ok exprs, of E] by auto
  note ta = operand_typed [OF assms(2) ok row a(1)] and tb = operand_typed [OF assms(2) ok row b(1)]
  have "type_of_val E a = type_of_val E b \<or> (fa \<or> fb)"
    using comparable_operands [OF cmp ta [THEN conjunct1] tb [THEN conjunct1]] ta tb by auto
  from compare_total [OF assms(1) this] obtain k where "compare_values E (fa \<or> fb) aop a b = Some k" ..
  then show ?thesis using a(2) b(2) by (simp add: reads_def)
qed

section \<open>Typed runs\<close>

text \<open>The node runs to rows of its column types, and the columns of the variables have their types.\<close>

definition typed_run ::
    "'v engine \<Rightarrow> (rel_id \<Rightarrow> 'v buffer option) \<Rightarrow> rir_node \<Rightarrow> variable_env \<Rightarrow> bool" where
  "typed_run E store node ve \<longleftrightarrow>
     (\<forall>x. env_types ve x = None \<longleftrightarrow> get_column ve x = None)
     \<and> (\<exists>b. execute_node E store node = Some b \<and> buffer_typed E (btypes b) b \<and> length (btypes b) = total_cols ve
         \<and> (\<forall>x col. get_column ve x = Some col \<longrightarrow> col < total_cols ve \<and> env_types ve x = Some (btypes b ! col)))"

lemma typed_runI:
  assumes "execute_node E store node = Some b" "buffer_typed E (btypes b) b" "length (btypes b) = total_cols ve"
    and "\<And>x col. get_column ve x = Some col \<Longrightarrow> col < total_cols ve"
    and "\<And>x col. get_column ve x = Some col \<Longrightarrow> env_types ve x = Some (btypes b ! col)"
    and "\<And>x. env_types ve x = None \<longleftrightarrow> get_column ve x = None"
  shows "typed_run E store node ve"
  using assms unfolding typed_run_def by blast

lemma stage_typed_run:
  assumes "stage E store tys node ve V P" and "execute_node E store node = Some b" and "buffer_typed E (btypes b) b"
  shows "typed_run E store node ve"
  by (rule typed_runI [OF assms(2,3)]) (use assms(1,2) in \<open>auto simp: stage_def env_ok_def\<close>)

text \<open>\<open>tys\<close> extends the types of the environment.\<close>

definition types_in :: "variable_env \<Rightarrow> (string \<Rightarrow> scalar_type option) \<Rightarrow> bool" where
  "types_in ve tys \<longleftrightarrow> (\<forall>x t. env_types ve x = Some t \<longrightarrow> tys x = Some t)"

lemma typed_columns:
  assumes "typed_run E store node ve" and "execute_node E store node = Some b"
    and "types_in ve tys" and row: "row \<in> set (brows b)"
  shows "columns_ok ve tys (btypes b) row" "row_typed E (btypes b) row"
proof -
  show typed: "row_typed E (btypes b) row"
    using assms(1,2) row by (simp add: typed_run_def buffer_typed_def)
  show "columns_ok ve tys (btypes b) row"
    unfolding columns_ok_def env_ok_def
    using row_typed_length [OF typed] assms(1-3) by (simp add: typed_run_def types_in_def)
qed

lemma typed_run_fewer:
  assumes run: "typed_run E store node ve" and b: "execute_node E store node = Some b"
    and node': "execute_node E store node' = Some b'" "btypes b' = btypes b" "set (brows b') \<subseteq> set (brows b)"
  shows "typed_run E store node' ve"
  using run b node' unfolding typed_run_def buffer_typed_def by (auto dest: subsetD)

lemma run_filter:
  assumes run: "typed_run E store node ve" and tys: "types_in ve tys"
    and eval: "\<And>ts row. columns_ok ve tys ts row \<Longrightarrow> row_typed E ts row \<Longrightarrow> eval_pred E ts row p \<noteq> None"
  shows "typed_run E store (FilterNode node p) ve"
proof -
  obtain b where b: "execute_node E store node = Some b" using run unfolding typed_run_def by blast
  have "eval_pred E (btypes b) row p \<noteq> None" if "row \<in> set (brows b)" for row
    using typed_columns [OF run b tys that] by (rule eval)
  then have "execute_filter E b p
      = Some \<lparr>btypes = btypes b, brows = filter (\<lambda>row. eval_pred E (btypes b) row p = Some True) (brows b)\<rparr>"
    by (simp add: execute_filter_def filter_rows_total)
  then have "execute_node E store (FilterNode node p)
      = Some \<lparr>btypes = btypes b, brows = filter (\<lambda>row. eval_pred E (btypes b) row p = Some True) (brows b)\<rparr>"
    using b by simp
  then show ?thesis by (rule typed_run_fewer [OF run b]) auto
qed

lemma run_comparisons:
  assumes engine: "total_engine E" "typed_engine E"
    and "fold_res (apply_comparison env ve) cs node = Inr node'" and "typed_run E store node ve" and tys: "types_in ve tys"
    and "\<forall>c \<in> set cs. comparable (low_scalars env) tys c"
  shows "typed_run E store node' ve"
  using assms(3,4,6)
proof (induction cs arbitrary: node)
  case (Cons c cs)
  obtain node1 where step: "apply_comparison env ve c node = Inr node1" and rest: "fold_res (apply_comparison env ve) cs node1 = Inr node'"
    using Cons.prems(1) by (auto simp: bind_res_Inr_iff)
  obtain l r where exprs: "comparison_exprs env c ve = Inr (l, r)" and node1: "node1 = FilterNode node (ECompare l (compare_op_of (cmp_op c)) r)"
    using step by (auto simp: apply_comparison_def map_res_Inr_iff)
  have cmp: "comparable (low_scalars env) tys c" using Cons.prems(3) by simp
  have "typed_run E store node1 ve"
    unfolding node1
    by (rule run_filter [OF Cons.prems(2) tys]) (rule comparison_runs [OF engine _ _ exprs cmp])
  then show ?case using Cons.IH [OF rest] Cons.prems(3) by simp
qed simp

section \<open>Computed columns\<close>

lemma run_is_expr:
  assumes engine: "total_engine E" "typed_engine E" and run: "typed_run E store node ve" and tys: "types_in ve tys"
    and fresh: "get_column ve (is_target e) = None"
    and t: "infer_arith_type (env_types ve) (is_rhs e) = Inr t" and ir: "arith_to_expr ve (is_rhs e) = Inr ir"
    and conds: "conditions_typed tys (is_rhs e)"
  shows "typed_run E store (ProjectNode node (map PColumn [0..<total_cols ve] @ [Computed ir t]))
    (bind_variable (is_target e) (total_cols ve) t ve)"
proof -
  let ?x = "is_target e" and ?w = "total_cols ve"
  let ?ve = "bind_variable ?x ?w t ve"
  obtain b where b: "execute_node E store node = Some b" "buffer_typed E (btypes b) b" "length (btypes b) = ?w"
    "\<And>x col. get_column ve x = Some col \<Longrightarrow> col < ?w"
    "\<And>x col. get_column ve x = Some col \<Longrightarrow> env_types ve x = Some (btypes b ! col)"
    "\<And>x. env_types ve x = None \<longleftrightarrow> get_column ve x = None"
    using run unfolding typed_run_def by blast
  have known: "env_types ve x = tys x" if "x \<in> set (arith_variables (is_rhs e))" for x
    using arith_to_expr_columns [OF ir that] b(6) [of x] tys unfolding types_in_def by (metis option.exhaust)
  have inferred: "infer_known RequireExpansion tys (is_rhs e) = Inr (Some t)"
  proof -
    have "infer_known RequireExpansion (env_types ve) (is_rhs e) = Inr (Some t)"
      using t by (auto simp: infer_arith_type_def bind_res_Inr_iff split: option.splits)
    then show ?thesis using infer_known_cong [of "is_rhs e" "env_types ve" tys] known by simp
  qed
  have value_of: "\<exists>v. eval_arith E (btypes b) row ir = Some v \<and> type_of_val E v = t" if row: "row \<in> set (brows b)" for row
  proof -
    note cols = typed_columns [OF run b(1) tys row]
    have "\<exists>v. bind_row ve row x = Some v \<and> tys x = Some (type_of_val E v)" if x: "x \<in> set (arith_variables (is_rhs e))" for x
    proof -
      obtain col where col: "get_column ve x = Some col" using arith_to_expr_columns [OF ir x] by auto
      then show ?thesis
        using columns_okD [OF cols(1) col] row_typed_nth [OF cols(2), of col] b(3) b(4) [OF col] by simp
    qed
    from arith_meaning_typed [OF engine this inferred conds] show ?thesis
      using arith_to_expr_meaning [OF cols(1) ir, of E] by auto
  qed
  have lens: "\<forall>row \<in> set (brows b). length row = length (btypes b)"
    using b(2) row_typed_length by (auto simp: buffer_typed_def)
  let ?b = "\<lparr>btypes = btypes b @ [t], brows = map (\<lambda>row. row @ [the (eval_arith E (btypes b) row ir)]) (brows b)\<rparr>"
  have "execute_project E b (map PColumn [0..<?w] @ [Computed ir t]) = Some ?b"
    unfolding b(3) [symmetric]
  proof (rule project_extend [OF refl lens])
    show "eval_arith E (btypes b) row ir = Some (the (eval_arith E (btypes b) row ir))" if "row \<in> set (brows b)" for row
      using value_of [OF that] by auto
  qed
  then have node: "execute_node E store (ProjectNode node (map PColumn [0..<?w] @ [Computed ir t])) = Some ?b"
    using b(1) by simp
  have get: "get_column ?ve y = (if y = ?x then Some ?w else get_column ve y)" for y
    by (simp add: get_column_bind fresh)
  have types: "env_types ?ve = (env_types ve)(?x \<mapsto> t)" "total_cols ?ve = ?w + 1" by (simp_all add: bind_variable_def)
  show ?thesis
  proof (rule typed_runI [OF node])
    show "buffer_typed E (btypes ?b) ?b"
      using b(2) value_of by (fastforce simp: buffer_typed_def row_typed_def)
    show "length (btypes ?b) = total_cols ?ve" using b(3) types by simp
    show "col < total_cols ?ve" if "get_column ?ve x = Some col" for x col
      using that b(4) [of x col] by (auto simp: get types split: if_splits)
    show "env_types ?ve x = Some (btypes ?b ! col)" if "get_column ?ve x = Some col" for x col
    proof (cases "x = ?x")
      case True
      then have "col = length (btypes b)" using that b(3) by (simp add: get)
      then show ?thesis using True by (simp add: types)
    next
      case False
      then have col: "get_column ve x = Some col" using that by (simp add: get)
      then show ?thesis using False b(5) [OF col] b(4) [OF col] b(3) by (simp add: types nth_append)
    qed
    show "env_types ?ve x = None \<longleftrightarrow> get_column ?ve x = None" for x
      using b(6) [of x] by (simp add: types get)
  qed
qed

lemma lower_is_exprE:
  assumes "fold_res lower_is_expr (e # es) (node, ve) = Inr (node', ve')"
  obtains t ir where "infer_arith_type (env_types ve) (is_rhs e) = Inr t" "arith_to_expr ve (is_rhs e) = Inr ir"
    "fold_res lower_is_expr es (ProjectNode node (map PColumn [0..<total_cols ve] @ [Computed ir t]),
       bind_variable (is_target e) (total_cols ve) t ve) = Inr (node', ve')"
proof -
  obtain s1 where step: "lower_is_expr e (node, ve) = Inr s1" and rest: "fold_res lower_is_expr es s1 = Inr (node', ve')"
    using assms by (auto simp: bind_res_Inr_iff)
  from step obtain t ir where "infer_arith_type (env_types ve) (is_rhs e) = Inr t" "arith_to_expr ve (is_rhs e) = Inr ir"
    "s1 = (ProjectNode node (map PColumn [0..<total_cols ve] @ [Computed ir t]), bind_variable (is_target e) (total_cols ve) t ve)"
    by (auto simp: lower_is_expr_def bind_res_Inr_iff map_res_Inr_iff)
  then show ?thesis using that rest by blast
qed

lemma fresh_bindings:
  assumes "validate_bindings V (map IsExpr (e # es)) = Inr ()"
  shows "is_target e \<notin> V" "validate_bindings (insert (is_target e) V) (map IsExpr es) = Inr ()"
  using assms by (auto split: if_splits option.splits)

lemma bound_columns:
  "{x. get_column ve x \<noteq> None} = V \<Longrightarrow> {y. get_column (bind_variable x c t ve) y \<noteq> None} = insert x V"
  by (auto simp: get_column_bind split: option.splits if_splits)

lemma is_exprs_keep_types:
  assumes "fold_res lower_is_expr es (node, ve) = Inr (node', ve')" and "validate_bindings V (map IsExpr es) = Inr ()"
    and "x \<in> V"
  shows "env_types ve' x = env_types ve x"
  using assms
proof (induction es arbitrary: node ve V)
  case (Cons e es)
  obtain t ir where rest: "fold_res lower_is_expr es (ProjectNode node (map PColumn [0..<total_cols ve] @ [Computed ir t]),
       bind_variable (is_target e) (total_cols ve) t ve) = Inr (node', ve')"
    by (rule lower_is_exprE [OF Cons.prems(1)])
  note fresh = fresh_bindings [OF Cons.prems(2)]
  have "env_types ve' x = env_types (bind_variable (is_target e) (total_cols ve) t ve) x"
    using Cons.IH [OF rest fresh(2)] Cons.prems(3) by simp
  then show ?case using fresh(1) Cons.prems(3) by (auto simp: bind_variable_def)
qed simp

lemma run_is_exprs:
  assumes engine: "total_engine E" "typed_engine E"
    and "fold_res lower_is_expr es (node, ve) = Inr (node', ve')" and "typed_run E store node ve"
    and "{x. get_column ve x \<noteq> None} = V" and "validate_bindings V (map IsExpr es) = Inr ()"
    and tys: "types_in ve' tys" and "\<forall>e \<in> set es. conditions_typed tys (is_rhs e)"
  shows "typed_run E store node' ve'"
  using assms(3-6,8)
proof (induction es arbitrary: node ve V)
  case (Cons e es)
  obtain t ir where t: "infer_arith_type (env_types ve) (is_rhs e) = Inr t" and ir: "arith_to_expr ve (is_rhs e) = Inr ir"
    and rest: "fold_res lower_is_expr es (ProjectNode node (map PColumn [0..<total_cols ve] @ [Computed ir t]),
       bind_variable (is_target e) (total_cols ve) t ve) = Inr (node', ve')"
    by (rule lower_is_exprE [OF Cons.prems(1)])
  note fresh = fresh_bindings [OF Cons.prems(4)]
  have none: "get_column ve (is_target e) = None" using fresh(1) Cons.prems(3) by auto
  have "types_in ve tys"
    unfolding types_in_def
  proof (intro allI impI)
    fix x s assume x: "env_types ve x = Some s"
    then have "get_column ve x \<noteq> None" using Cons.prems(2) unfolding typed_run_def by (metis option.distinct(1))
    then have "x \<in> V" using Cons.prems(3) by blast
    from is_exprs_keep_types [OF Cons.prems(1,4) this] show "tys x = Some s"
      using tys x unfolding types_in_def by simp
  qed
  then have "typed_run E store (ProjectNode node (map PColumn [0..<total_cols ve] @ [Computed ir t]))
      (bind_variable (is_target e) (total_cols ve) t ve)"
    using Cons.prems(5) by (intro run_is_expr [OF engine Cons.prems(2) _ none t ir]) auto
  from Cons.IH [OF rest this bound_columns [OF Cons.prems(3)] fresh(2)] show ?case using Cons.prems(5) by simp
qed simp

section \<open>Negated atoms\<close>

lemma difference_runs:
  assumes b: "execute_node E store input = Some b" and neg: "execute_node E store neg = Some bn"
    and lens: "\<forall>row \<in> set (brows b). length row = length (btypes b)" and nlens: "\<forall>row \<in> set (brows bn). length row = length (btypes bn)"
    and pairs: "\<forall>(c, i) \<in> set ps. c < length (btypes b) \<and> i < length (btypes bn) \<and> btypes b ! c = btypes bn ! i"
    and full: "\<not> length (map snd ps) < length (btypes bn) \<Longrightarrow> map snd ps = [0..<length (btypes bn)]" and "ps \<noteq> []"
  shows "execute_node E store (difference_filter (length (btypes bn)) ps input neg) \<noteq> None"
proof -
  let ?in = "map fst ps" and ?neg = "map snd ps" and ?types = "map ((!) (btypes b)) (map fst ps)"
  let ?proj = "if length ?neg < length (btypes bn) then ProjectNode neg (map PColumn ?neg) else neg"
  have types: "?types = map ((!) (btypes bn)) ?neg" using pairs by (auto simp: comp_def)
  obtain bp where bp: "execute_node E store ?proj = Some bp" and bp_types: "btypes bp = ?types"
  proof (cases "length ?neg < length (btypes bn)")
    case True
    have "execute_project E bn (map PColumn ?neg) = Some \<lparr>btypes = map ((!) (btypes bn)) ?neg, brows = map (keys_of ?neg) (brows bn)\<rparr>"
      by (rule project_columns) (use nlens pairs in auto)
    then show ?thesis using that True neg types by simp
  next
    case False
    have "map ((!) (btypes bn)) ?neg = btypes bn" unfolding full [OF False] by (rule map_nth)
    then show ?thesis using that False neg types by simp
  qed
  have left: "execute_project E b (map PColumn ?in) = Some \<lparr>btypes = ?types, brows = map (keys_of ?in) (brows b)\<rparr>"
    by (rule project_columns) (use lens pairs in auto)
  obtain kept where kept: "execute_diff \<lparr>btypes = ?types, brows = map (keys_of ?in) (brows b)\<rparr> bp = Some kept" "btypes kept = ?types"
  proof (rule that)
    let ?b = "\<lparr>btypes = ?types, brows = map (keys_of ?in) (brows b)\<rparr>"
    show "execute_diff ?b bp = Some \<lparr>btypes = ?types,
        brows = if brows b = [] then [] else filter (\<lambda>x. x \<notin> set (brows bp)) (remdups (brows ?b))\<rparr>"
      by (simp add: execute_diff_def bp_types del: map_map)
  qed simp
  have "fst (ps ! i) < length (btypes b)" if "i < length ps" for i
    using pairs nth_mem [OF that] by (auto simp: case_prod_beta)
  then have "join_keys_valid b kept ?in [0..<length ?in]"
    using \<open>ps \<noteq> []\<close> by (auto simp: join_keys_valid_def kept(2) list_all2_conv_all_nth get_def)
  then have "execute_join E b kept ?in [0..<length ?in] SemiJoin \<noteq> None" by (simp add: execute_join_def)
  then show ?thesis using b bp left kept(1) by (simp add: difference_filter_def Let_def)
qed

lemma run_negation:
  assumes engine: "typed_engine E" "equality_faithful E" and run: "typed_run E store node ve" and tys: "types_in ve tys"
    and ready: "atom_ready E st db store tys a" and blank: "get_column ve ''_'' = None"
    and lowered: "apply_negation env ve a (node, st) = Inr (node', st')"
  shows "st' = st \<and> typed_run E store node' ve"
proof -
  let ?N = "join_rows (atom_rows E (low_scalars env) (low_schemas st) db) [a]"
  let ?ts = "atom_schema (low_schemas st) a" and ?ps = "negation_columns ve a"
  obtain rel where rel: "map_of (rel_ids st) (predicate a) = Some rel" using ready by (auto simp: atom_ready_def)
  obtain neg where filters: "apply_constant_filters env st (ScanNode rel) a = Inr neg"
    and node': "node' = (if ?ps = [] then existence_gate (total_cols ve) node neg
        else difference_filter (length (terms a)) ?ps node neg)" and st': "st' = st"
    using lowered by (auto simp: apply_negation_def known_rel_id [OF rel] map_res_Inr_iff Let_def)
  have neg: "execute_node E store neg = Some \<lparr>btypes = ?ts, brows = ?N\<rparr>"
    by (rule leaf_rows [OF engine ready rel filters])
  have len_ts: "length ?ts = length (terms a)" using ready by (auto simp: atom_ready_def)
  have nlens: "\<forall>row \<in> set ?N. length row = length ?ts"
    using row_typed_length [OF join_rows_typed [of "[a]"]] ready by (auto simp del: body_rows.simps)
  obtain b where b: "execute_node E store node = Some b" and typed: "buffer_typed E (btypes b) b"
    and w: "total_cols ve = length (btypes b)" using run unfolding typed_run_def by metis
  have lens: "\<forall>row \<in> set (brows b). length row = length (btypes b)"
    using typed row_typed_length by (auto simp: buffer_typed_def)
  obtain b' where b': "execute_node E store node' = Some b'" "btypes b' = btypes b" "set (brows b') \<subseteq> set (brows b)"
  proof (cases "?ps = []")
    case True
    then have "execute_node E store node' = Some \<lparr>btypes = btypes b, brows = (if ?N = [] then brows b else [])\<rparr>"
      using gate_rows [OF b neg lens w] by (simp add: node')
    then show ?thesis by (rule that) auto
  next
    case False
    have pairs: "\<forall>(c, i) \<in> set ?ps. c < length (btypes b) \<and> i < length ?ts \<and> btypes b ! c = ?ts ! i"
    proof (intro ballI, clarify)
      fix c i assume "(c, i) \<in> set ?ps"
      then obtain x where x: "i < length (terms a)" "terms a ! i = Variable x" "get_column ve x = Some c"
        by (auto simp: negation_columns_iff)
      have "x \<noteq> ''_''" using x(3) blank by auto
      then have "tys x = Some (?ts ! i)" using ready x by (simp add: atom_ready_def)
      moreover have "c < total_cols ve" "env_types ve x = Some (btypes b ! c)"
        using run b x(3) unfolding typed_run_def by auto
      ultimately show "c < length (btypes b) \<and> i < length ?ts \<and> btypes b ! c = ?ts ! i"
        using tys x(1) w len_ts by (simp add: types_in_def)
    qed
    then have bounds: "\<forall>(c, i) \<in> set ?ps. c < length (btypes b) \<and> i < length (btypes \<lparr>btypes = ?ts, brows = ?N\<rparr>)"
      by auto
    have "execute_node E store node' \<noteq> None"
      using difference_runs [OF b neg lens _ _ _ False] pairs nlens negation_columns_full [of ve a] len_ts False
      by (simp add: node')
    then obtain b' where run': "execute_node E store node' = Some b'" by blast
    have "b' = \<lparr>btypes = btypes b, brows = filter (\<lambda>x. \<not> (\<exists>r \<in> set ?N. \<forall>(c, i) \<in> set ?ps. x ! c = r ! i)) (brows b)\<rparr>"
      using difference_rows [OF b neg lens _ bounds, of b'] nlens negation_columns_full [of ve a] run' len_ts False
      by (simp add: node')
    then show ?thesis using that [OF run'] by auto
  qed
  show ?thesis using typed_run_fewer [OF run b b'] st' by simp
qed

lemma run_negations:
  assumes engine: "typed_engine E" "equality_faithful E"
    and "fold_res (apply_negation env ve) as (node, st) = Inr (node', st')" and "typed_run E store node ve"
    and tys: "types_in ve tys" and "\<forall>a \<in> set as. atom_ready E st db store tys a" and blank: "get_column ve ''_'' = None"
  shows "typed_run E store node' ve"
  using assms(3,4,6)
proof (induction as arbitrary: node)
  case (Cons a as)
  obtain node1 st1 where step: "apply_negation env ve a (node, st) = Inr (node1, st1)"
    and rest: "fold_res (apply_negation env ve) as (node1, st1) = Inr (node', st')"
    using Cons.prems(1) by (auto simp: bind_res_Inr_iff)
  have "st1 = st \<and> typed_run E store node1 ve"
    using run_negation [OF engine Cons.prems(2) tys _ blank step, of db] Cons.prems(3) by simp
  then show ?case using Cons.IH rest Cons.prems(3) by simp
qed simp

section \<open>Heads\<close>

lemma fold_unit: "fold_res f xs () = Inr () \<Longrightarrow> x \<in> set xs \<Longrightarrow> f x () = Inr ()"
  by (induction xs) (auto simp: bind_res_Inr_iff)

lemma validated_head:
  assumes "validate_rule_types env schemas declared [r] = Inr ()"
    and "infer_rule_variable_types r (schema_column schemas) RequireExpansion = Inr vts"
    and "schemas (predicate (head r)) = Some ts" and i: "i < length ts" "i < length (terms (head r))" "terms (head r) ! i = Variable x"
    and "vts x = Some (ty, src)"
  shows "ty = ts ! i"
proof -
  have fold: "fold_res (validate_head_term env declared r vts ts) (indexed (terms (head r))) () = Inr ()"
    using assms(1-3) by (simp add: validate_rule_types_def bind_res_Inr_iff)
  have "(i, Variable x) \<in> set (indexed (terms (head r)))" using i by (simp add: in_indexed_iff)
  from fold_unit [OF fold this] show ?thesis
    using i assms(7) by (simp add: validate_head_term_def get_def is_variable_def variable_name_def split: if_splits)
qed

lemma head_column_typed:
  assumes "typed_engine E" and col: "head_column env schemas h ve (i, t) = Inr c"
    and schema: "schemas (predicate h) = Some ts" "i < length ts"
    and cols: "\<And>x k. get_column ve x = Some k \<Longrightarrow> k < length bts \<and> (t = Variable x \<longrightarrow> bts ! k = ts ! i)"
  shows "project_type bts c = Some (ts ! i)"
    and "row_typed E bts row \<Longrightarrow> \<exists>v. project_value E bts row c = Some v \<and> type_of_val E v = ts ! i"
proof (atomize (full), cases "is_constant t")
  case True
  then obtain v where v: "term_to_typed_const_value (low_scalars env) t (ts ! i) = Inr (Some v)" "c = Computed (EConst v) (ts ! i)"
    using col schema
    by (auto simp: head_column_def head_constant_def schema_column_def get_def bind_res_Inr_iff map_err_Inr_iff split: option.splits)
  then have "type_of_val E (const_column E v) = ts ! i"
    using assms(1) typed_const_type [OF v(1)] by (simp add: typed_engine_def)
  then show "project_type bts c = Some (ts ! i) \<and> (row_typed E bts row \<longrightarrow>
      (\<exists>v. project_value E bts row c = Some v \<and> type_of_val E v = ts ! i))"
    by (simp add: v(2) project_type_def project_value_def)
next
  case False
  then obtain x k where x: "t = Variable x" "get_column ve x = Some k" "c = PColumn k"
    using col by (cases t) (auto simp: head_column_def split: option.splits)
  then have "k < length bts" "bts ! k = ts ! i" using cols by auto
  then show "project_type bts c = Some (ts ! i) \<and> (row_typed E bts row \<longrightarrow>
      (\<exists>v. project_value E bts row c = Some v \<and> type_of_val E v = ts ! i))"
    using row_typed_nth row_typed_length by (fastforce simp: x project_type_def project_value_def get_def)
qed

lemma each_row_all:
  assumes "length ys = length xs" "\<And>i. i < length xs \<Longrightarrow> f (xs ! i) = Some (ys ! i)"
  shows "each_row f xs = Some ys"
  using assms by (simp add: each_row_Some list_all2_conv_all_nth)

lemma run_head:
  assumes "typed_engine E" and run: "typed_run E store node ve" and tys: "types_in ve tys"
    and cols: "compute_head_projection env schemas h ve = Inr cols"
    and schema: "schemas (predicate h) = Some ts" "length (terms h) = length ts"
    and types: "\<And>i x t. i < length ts \<Longrightarrow> terms h ! i = Variable x \<Longrightarrow> tys x = Some t \<Longrightarrow> t = ts ! i"
  shows "\<exists>b. execute_node E store (if is_identity_projection cols (total_cols ve) then node else ProjectNode node cols) = Some b
    \<and> btypes b = ts \<and> buffer_typed E ts b"
proof -
  obtain b where b: "execute_node E store node = Some b" and typed: "buffer_typed E (btypes b) b"
    and w: "length (btypes b) = total_cols ve" using run unfolding typed_run_def by metis
  have heads: "length cols = length ts" "\<And>i. i < length ts \<Longrightarrow> head_column env schemas h ve (i, terms h ! i) = Inr (cols ! i)"
    using cols schema(2)
    by (auto simp: compute_head_projection_def traverse_Inr_iff list_all2_conv_all_nth indexed_def)
  have columns: "k < length (btypes b) \<and> (terms h ! i = Variable x \<longrightarrow> btypes b ! k = ts ! i)"
    if "i < length ts" "get_column ve x = Some k" for i x k
    using run b w tys types [OF that(1), of x] that(2) unfolding typed_run_def types_in_def by auto
  have column: "project_type (btypes b) (cols ! i) = Some (ts ! i)"
    "row_typed E (btypes b) row \<Longrightarrow> \<exists>v. project_value E (btypes b) row (cols ! i) = Some v \<and> type_of_val E v = ts ! i"
    if "i < length ts" for i row
    using head_column_typed [OF assms(1) heads(2) [OF that] schema(1) that] columns [OF that] by metis+
  have schema_b: "project_schema (btypes b) cols = Some ts"
    unfolding project_schema_def by (rule each_row_all) (use heads column(1) in auto)
  show ?thesis
  proof (cases "is_identity_projection cols (total_cols ve)")
    case True
    then have "cols = map PColumn [0..<total_cols ve]"
      by (intro nth_equalityI) (auto simp: is_identity_projection_def list_all_iff set_indexed)
    then have "btypes b = ts"
      using schema_b by (simp add: project_schema_def schema_pcolumns w [symmetric] map_nth)
    then show ?thesis using True b typed by auto
  next
    case False
    let ?row = "\<lambda>row. map (\<lambda>c. the (project_value E (btypes b) row c)) cols"
    have value_of: "each_row (project_value E (btypes b) row) cols = Some (?row row)" "row_typed E ts (?row row)"
      if "row \<in> set (brows b)" for row
    proof -
      have row: "row_typed E (btypes b) row" using that typed by (simp add: buffer_typed_def)
      show "each_row (project_value E (btypes b) row) cols = Some (?row row)"
        by (rule each_row_all) (use heads(1) column(2) [OF _ row] in fastforce)+
      show "row_typed E ts (?row row)"
        unfolding row_typed_def
      proof (rule nth_equalityI)
        show "map (type_of_val E) (?row row) ! i = ts ! i" if "i < length (map (type_of_val E) (?row row))" for i
          using that heads(1) column(2) [OF _ row, of i] by fastforce
      qed (simp add: heads(1))
    qed
    then have "execute_project E b cols = Some \<lparr>btypes = ts, brows = map ?row (brows b)\<rparr>"
      using each_row_eq_map [of "brows b", OF value_of(1)] schema_b by (simp add: execute_project_def)
    then show ?thesis using False b value_of(2) by (auto simp: buffer_typed_def)
  qed
qed

section \<open>Rules\<close>

lemma stage_env: "stage E store tys node ve V P \<Longrightarrow> env_ok tys ve \<and> {x. get_column ve x \<noteq> None} = V"
  by (simp add: stage_def)

lemma lower_rule_runs:
  fixes E :: "'v engine"
  assumes total: "total_engine E" and engine: "typed_engine E" "equality_faithful E"
    and terms: "validate_rule_terms r = Inr ()"
    and bindings: "validate_bindings (positive_body_bound_variables (body r)) (body r) = Inr ()"
    and types: "infer_rule_variable_types r (schema_column (low_schemas st)) RequireExpansion = Inr vts"
    and head_types: "validate_rule_types (low_scalars env) (low_schemas st) declared [r] = Inr ()"
    and schema: "low_schemas st (predicate (head r)) = Some ts" "length (Ast.terms (head r)) = length ts"
    and blank: "''_'' \<notin> rule_variables r" and plain: "\<not> has_aggregation r"
    and compared: "\<forall>c \<in> set (body_comparisons (body r)). comparable (low_scalars env) (map_option fst \<circ> vts) c"
    and conditions: "\<forall>e \<in> set (body_is_exprs (body r)). conditions_typed (map_option fst \<circ> vts) (is_rhs e)"
    and lowered: "lower_rule env r st = Inr (node, st')"
    and ready: "rule_ready E st' db store r"
  shows "\<exists>b. execute_node E store node = Some b \<and> btypes b = ts \<and> buffer_typed E ts b"
proof -
  let ?tys = "map_option fst \<circ> vts" and ?st = "numbered r st"
  obtain p where p: "lowered_stages env r st node st' p"
    "\<forall>a \<in> set (positive_atoms (body r)) \<union> set (negated_atoms (body r)). atom_ready E ?st db store ?tys a"
    "execute_node E store (part_root p) = Some \<lparr>btypes = body_schema (low_schemas ?st) (part_leaves p),
        brows = join_rows (atom_rows E (low_scalars env) (low_schemas ?st) db) (part_leaves p)\<rparr>"
    using lower_rule_setup [OF engine types plain lowered ready] by blast
  note parts = p(1) [unfolded lowered_stages_def]
  note stages = lower_rule_stages [OF engine terms bindings types blank p]
  have root_ok: "types_in (joined_env r st p) ?tys" and end_ok: "types_in (part_env p) ?tys"
    using stages [THEN stage_env] unfolding env_ok_def types_in_def by blast+
  have leaves: "\<forall>a \<in> set (part_leaves p). atom_ready E ?st db store ?tys a"
    using p(2) parts by (auto dest!: mset_eq_setD)
  have "typed_run E store (part_root p) (joined_env r st p)"
    by (rule stage_typed_run [OF stages(1) p(3)])
      (use join_rows_typed [OF leaves] in \<open>auto simp: buffer_typed_def\<close>)
  then have "typed_run E store (part_filtered p) (joined_env r st p)"
    using run_comparisons [OF total engine(1) _ _ root_ok compared] parts by blast
  then have "typed_run E store (part_bound p) (part_env p)"
    using run_is_exprs [OF total engine(1) _ _ stages(1) [THEN stage_env, THEN conjunct2] _ end_ok conditions] parts
      bindings validate_bindings_is by metis
  then have "typed_run E store (part_body p) (part_env p)"
    using run_negations [OF engine _ _ end_ok] p(2) parts stages(2) [THEN stage_env] blank by blast
  moreover have "compute_head_projection env (low_schemas st) (head r) (part_env p) = Inr (part_cols p)"
    using parts by blast
  moreover have "t = ts ! i" if i: "i < length ts" and x: "Ast.terms (head r) ! i = Variable x" and t: "?tys x = Some t" for i x t
  proof -
    obtain src where "vts x = Some (t, src)" using t by auto
    with validated_head [OF head_types types schema(1) i _ x] show ?thesis using i schema(2) by simp
  qed
  ultimately have "\<exists>b. execute_node E store (if is_identity_projection (part_cols p) (total_cols (part_env p)) then part_body p
      else ProjectNode (part_body p) (part_cols p)) = Some b \<and> btypes b = ts \<and> buffer_typed E ts b"
    using run_head [where h = "head r" and schemas = "low_schemas st", OF engine(1) _ end_ok] schema by blast
  then show ?thesis using parts by simp
qed

text \<open>C40: the plan of a rule that the lowerer accepts runs. Over kernels that are total on operands of the
  types the executor allows, the plan of a rule without aggregates meets no executor error - no comparison,
  join, difference, projection or arithmetic column finds a type it does not expect - and returns rows of the
  head's schema, the answers of the rule. The checks of the lowerer discharge every type but those of the two
  sides of a comparison and of the condition of a conditional, which are hypotheses.\<close>

theorem lowered_rule_runs:
  assumes "total_engine E" "typed_engine E" "equality_faithful E" and "validate_rule_terms r = Inr ()"
    and "validate_bindings (positive_body_bound_variables (body r)) (body r) = Inr ()"
    and "infer_rule_variable_types r (schema_column (low_schemas st)) RequireExpansion = Inr vts"
    and "validate_rule_types (low_scalars env) (low_schemas st) declared [r] = Inr ()"
    and "low_schemas st (predicate (head r)) = Some ts" "length (Ast.terms (head r)) = length ts"
    and "''_'' \<notin> rule_variables r" and "\<not> has_aggregation r"
    and "\<forall>c \<in> set (body_comparisons (body r)). comparable (low_scalars env) (map_option fst \<circ> vts) c"
    and "\<forall>e \<in> set (body_is_exprs (body r)). conditions_typed (map_option fst \<circ> vts) (is_rhs e)"
    and "lower_rule env r st = Inr (node, st')" and "rule_ready E st' db store r"
  shows "\<exists>b. execute_node E store node = Some b \<and> buffer_typed E ts b
    \<and> set (brows b) = rule_answers E (low_scalars env) (low_schemas st) db (map_option fst \<circ> vts) r"
  using lower_rule_runs [OF assms] lower_rule_sound [OF assms(2-6,10,11,14,15)] by blast

section \<open>An example\<close>

definition total_op :: "binary_operation \<Rightarrow> const_value \<Rightarrow> const_value \<Rightarrow> const_value option" where
  "total_op aop a b =
     (if aop = OpPower then Some (CvF64 0)
      else if const_type a = const_type b \<and> const_type a \<noteq> TyBool
           then Some (case demo_op aop a b of Some v \<Rightarrow> v | None \<Rightarrow> a) else None)"

definition full_engine :: "const_value engine" where
  "full_engine = widen_engine\<lparr>column_op := total_op, abs_column := Some,
     cast_column := (\<lambda>v t. Some (case cast_column widen_engine v t of Some w \<Rightarrow> w | None \<Rightarrow> default_const t))\<rparr>"

lemma demo_op_type: "demo_op aop a b = Some v \<Longrightarrow> const_type v = const_type a"
  by (cases "(aop, a, b)" rule: demo_op.cases) auto

lemma full_engine_total: "total_engine full_engine"
  using demo_op_type
  by (auto simp: total_engine_def full_engine_def widen_engine_def demo_engine_def total_op_def split: option.splits const_value.splits)

lemma full_engine_typed: "typed_engine full_engine"
  using widen_engine_typed by (simp add: typed_engine_def full_engine_def)

lemma full_engine_faithful: "equality_faithful full_engine"
  unfolding equality_faithful_def
  apply (intro allI impI)
  subgoal for a b
    by (cases a; cases b) (simp_all add: full_engine_def widen_engine_def demo_engine_def compare_values_def ucast_u32_inj)
  done

theorem lowered_rule_runs_witness:
  "\<exists>node st' b. lower_rule sample_env sample_rule sample_lowerer = Inr (node, st')
     \<and> execute_node full_engine sample_store node = Some b \<and> buffer_typed full_engine [TyI64, TyI64] b
     \<and> set (brows b) = rule_answers full_engine (low_scalars sample_env) sample_schemas sample_db (map_option fst \<circ> sample_types) sample_rule"
proof -
  obtain node st' where lowered: "lower_rule sample_env sample_rule sample_lowerer = Inr (node, st')"
    and ids: "rel_ids st' = [(''edge'', 0), (''blocked'', 1)]"
    and schemas: "low_schemas st' ''edge'' = Some [TyI64, TyI64]" "low_schemas st' ''blocked'' = Some [TyI64]"
    using sample_lowered unfolding sample_result_def map_res_Inr_iff by fastforce
  have "buffer_typed full_engine [TyI64, TyI64] (sample_db ''edge'')" "buffer_typed full_engine [TyI64] (sample_db ''blocked'')"
    using sample_db_typed by (simp_all add: buffer_typed_def row_typed_def full_engine_def)
  then have "rule_ready full_engine st' sample_db sample_store sample_rule"
    using ids schemas by (auto simp: rule_ready_def sample_rule_def sample_store_def split: if_splits)
  moreover have "validate_rule_terms sample_rule = Inr ()"
    "validate_bindings (positive_body_bound_variables (body sample_rule)) (body sample_rule) = Inr ()"
    "''_'' \<notin> rule_variables sample_rule" "\<not> has_aggregation sample_rule"
    "validate_rule_types (low_scalars sample_env) (low_schemas sample_lowerer) {} [sample_rule] = Inr ()"
    "low_schemas sample_lowerer (predicate (head sample_rule)) = Some [TyI64, TyI64]"
    "length (Ast.terms (head sample_rule)) = length [TyI64, TyI64]"
    "\<forall>c \<in> set (body_comparisons (body sample_rule)). comparable (low_scalars sample_env) (map_option fst \<circ> sample_types) c"
    "\<forall>e \<in> set (body_is_exprs (body sample_rule)). conditions_typed (map_option fst \<circ> sample_types) (is_rhs e)"
    by code_simp+
  ultimately have "\<exists>b. execute_node full_engine sample_store node = Some b \<and> buffer_typed full_engine [TyI64, TyI64] b
     \<and> set (brows b) = rule_answers full_engine (low_scalars sample_env) (low_schemas sample_lowerer) sample_db
         (map_option fst \<circ> sample_types) sample_rule"
    using lowered_rule_runs [OF full_engine_total full_engine_typed full_engine_faithful _ _ sample_typed _ _ _ _ _ _ _ lowered]
    by blast
  then show ?thesis using lowered by (auto simp: sample_lowerer_def)
qed

section \<open>Comparisons of different types\<close>

text \<open>The lowerer does not compare the types of two variables in a comparison. \<open>less(X, Y) :- small(X), big(Y),
  X < Y\<close> with a 32-bit and a 64-bit column passes every check, and its plan then fails.\<close>

definition mixed_rule :: rule where
  "mixed_rule = \<lparr>head = sample_atom ''less'' [Variable ''X'', Variable ''Y''],
     body = [Positive (sample_atom ''small'' [Variable ''X'']), Positive (sample_atom ''big'' [Variable ''Y'']),
             Comparison \<lparr>cmp_left = Variable ''X'', cmp_op = Lt, cmp_right = Variable ''Y''\<rparr>]\<rparr>"

definition mixed_lowerer :: lowerer where
  "mixed_lowerer = sample_lowerer\<lparr>low_schemas := (\<lambda>p. if p = ''small'' then Some [TyI32] else if p = ''big'' then Some [TyI64]
     else if p = ''less'' then Some [TyI32, TyI64] else None)\<rparr>"

definition mixed_store :: "rel_id \<Rightarrow> const_value buffer option" where
  "mixed_store r = (if r = 0 then Some \<lparr>btypes = [TyI32], brows = [[CvI32 1]]\<rparr> else Some \<lparr>btypes = [TyI64], brows = [[CvI64 2]]\<rparr>)"

lemma mixed_comparison_fails:
  "validate_rule_terms mixed_rule = Inr ()"
  "validate_bindings (positive_body_bound_variables (body mixed_rule)) (body mixed_rule) = Inr ()"
  "validate_rule_types (low_scalars sample_env) (low_schemas mixed_lowerer) {''less''} [mixed_rule] = Inr ()"
  "map_res (\<lambda>(n, s). (execute_node full_engine mixed_store n, rel_ids s)) (lower_rule sample_env mixed_rule mixed_lowerer)
     = Inr (None, [(''small'', 0), (''big'', 1)])"
  by code_simp+

text \<open>The condition of a conditional is not inferred at all: \<open>less(X, Z) :- small(X), big(Y), Z is if X < Y
  then 1 else 0\<close> is accepted too, and fails in the same way.\<close>

definition mixed_condition_rule :: rule where
  "mixed_condition_rule = \<lparr>head = sample_atom ''less'' [Variable ''X'', Variable ''Z''],
     body = [Positive (sample_atom ''small'' [Variable ''X'']), Positive (sample_atom ''big'' [Variable ''Y'']),
             IsExpr \<lparr>is_target = ''Z'',
               is_rhs = Conditional (AVariable ''X'') Lt (AVariable ''Y'') (AInteger 1) (AInteger 0)\<rparr>]\<rparr>"

lemma mixed_condition_fails:
  "validate_rule_terms mixed_condition_rule = Inr ()"
  "validate_bindings (positive_body_bound_variables (body mixed_condition_rule)) (body mixed_condition_rule) = Inr ()"
  "validate_rule_types (low_scalars sample_env) (low_schemas mixed_lowerer) {''less''} [mixed_condition_rule] = Inr ()"
  "map_res (\<lambda>(n, s). (execute_node full_engine mixed_store n, rel_ids s)) (lower_rule sample_env mixed_condition_rule mixed_lowerer)
     = Inr (None, [(''small'', 0), (''big'', 1)])"
  by code_simp+

end
