(* ===== verification/Spec2Isabelle.thy ===== *)
theory Spec2Isabelle
  imports Rule_Plan Stratify_Correct Wfs_Correct Cnf_Correct Cnf_Hash Decision_Order Sat_Service Solve_Proof Magic_Correct Float_Order Arithmetic_Correct Aggregate_Correct Lower_Runs
begin

text \<open>
  A verification development for XLOG, a Datalog engine with negation, aggregates, probabilities and
  constraint solving (\<open>src/crates\<close>). A program is parsed into an abstract syntax, analysed, rewritten,
  lowered to relational plans and run on the GPU; the probabilistic engine instead extracts one
  propositional formula per tuple, encodes the formulas as clauses and counts models; a solver service
  answers satisfiability questions for both. The development models the parts of this path that decide
  what the answers are, up to the point where kernels take over.

  Parts of the program, and the theories that model them:

  \<^item> Abstract syntax, \<open>xlog-logic/src/ast.rs\<close>: \<open>Ast\<close>. Records and datatypes carry the constructors and
    fields of the source; names are strings, integers are words of their width, floats are bit patterns.

  \<^item> The multiway planner and its CPU oracle, \<open>xlog-logic/src/hypergraph\<close>: \<open>Hypergraph_IR\<close> (\<open>ir.rs\<close>),
    \<open>Eligibility\<close> (\<open>eligibility.rs\<close>), \<open>Var_Order\<close> (\<open>var_order.rs\<close>), \<open>Reference_Eval\<close> and
    \<open>Reference_Correct\<close> (\<open>reference.rs\<close>), \<open>Fixpoint_Eval\<close> (\<open>fixpoint.rs\<close>, \<open>scc.rs\<close>), \<open>Type_Inference\<close>
    (\<open>inference.rs\<close>), \<open>Typed_Gate\<close> (\<open>typed.rs\<close>), \<open>Rule_Plan\<close> (\<open>plan.rs\<close>). A rule evaluates to exactly its
    declarative answers along every lawful variable order, fixpoints are least models, the type gate and
    the planner accept the same rules and what they accept is evaluated without an error.

  \<^item> Stratification, \<open>xlog-logic/src/stratify.rs\<close>: \<open>Tarjan\<close>, \<open>Stratify\<close>, \<open>Stratify_Correct\<close>. The
    components are the strongly connected ones, dependencies first; a program is rejected exactly when a
    negative or aggregate dependency lies on a cycle; strata order every dependency.

  \<^item> Magic sets, \<open>xlog-logic/src/magic_sets.rs\<close>: \<open>Magic_Sets\<close>, \<open>Magic_Correct\<close>. The rewriting keeps the
    answers of the queries that seeded it when no rewritten predicate reads another one through a
    predicate that is not rewritten; two lemmas show answers that are lost otherwise.

  \<^item> Relational plans, \<open>xlog-ir/src/rir.rs\<close>, and what the executor computes from them
    (\<open>xlog-runtime/src/executor/node_dispatch.rs\<close>, \<open>expression.rs\<close>, and the contracts of the operations in
    \<open>xlog-cuda/src/provider\<close>): \<open>Rir\<close>. Rows are lists, relations lists of rows; the scalar kernels are the
    record \<open>engine\<close>. Predicate pushdown, \<open>xlog-logic/src/optimizer.rs\<close>: \<open>Pushdown\<close>, \<open>Pushdown_Correct\<close>:
    pushdown keeps the types and results of well-typed plans when the optimizer estimates the widths of
    the left inputs of joins rightly.

  \<^item> The lowerer, \<open>xlog-logic/src/lower.rs\<close>. \<open>Lower_Types\<close>: the checks of terms, bindings and types before a
    rule is lowered. \<open>Join_Planning\<close>: leaf plans and the search for a join tree. \<open>Lower_Rule\<close>: variable
    environments, comparisons, arithmetic, negation, heads, aggregates. \<open>Rule_Meaning\<close> says what a rule means
    without plans. \<open>Join_Correct\<close> and \<open>Plan_Correct\<close>: every join tree computes the join of the atoms.
    \<open>Lower_Stages\<close> and \<open>Lower_Negation\<close> follow one plan through the stages of a body, with the invariant that
    its rows are the assignments that satisfy the literals so far; \<open>Lower_Correct\<close> and \<open>Lower_Sound\<close> conclude
    that the plan of a rule returns exactly the answers of the rule. \<open>Lower_Runs\<close>: the inference of types is
    sound, so over total kernels the plan of a rule that passes the checks meets no executor error and returns
    rows of the head's schema; the comparisons whose types the lowerer does not check are named as a
    condition, with two rules that show what happens without it.

  \<^item> Arithmetic, \<open>xlog-logic/src/arithmetic_eval.rs\<close>: \<open>Arithmetic\<close>, \<open>Arithmetic_Correct\<close>; order keys of
    floats, \<open>xlog-core/src/float_order.rs\<close>: \<open>Float_Order\<close>.

  \<^item> Provenance, \<open>xlog-prob/src/pir.rs\<close> and \<open>provenance.rs\<close>: \<open>Pir\<close>, \<open>Pir_Levels\<close>, \<open>Pir_Builder\<close> (the
    formula graph, its levels and its hash-consing builder), \<open>Prob_Values\<close>, \<open>Aggregates\<close>
    (\<open>aggregates.rs\<close>), \<open>Provenance_Eval\<close> (extraction), \<open>Provenance_Rule\<close>, \<open>Provenance_Correct\<close>,
    \<open>Possible_Worlds\<close> and \<open>Aggregate_Correct\<close>: in every possible world the extracted formulas are the
    stratified model of the program of that world. Components with negation inside a cycle go through
    \<open>xlog-prob/src/wfs.rs\<close>: \<open>Wfs\<close>, \<open>Wfs_Model\<close>, \<open>Wfs_Correct\<close>, the well-founded model.

  \<^item> Encoding, \<open>xlog-prob/src/cnf.rs\<close> and \<open>decision_order.rs\<close>: \<open>Cnf_Encode\<close>, \<open>Cnf_Correct\<close>, \<open>Cnf_Hash\<close>,
    \<open>Decision_Order\<close>. Models of the clauses correspond one to one to assignments of the leaves.

  \<^item> Solving, \<open>xlog-solve/src\<close>: \<open>Sat_Instance\<close> (\<open>instance.rs\<close>), \<open>Solve_Proof\<close> (\<open>proof.rs\<close>), \<open>Sat_Service\<close>
    (\<open>service.rs\<close>): answers stay right under assumptions, retractions and transfer of learned
    clauses between services over one instance.

  \<open>Xlog_Prelude\<close> holds what they share: the result type, with \<open>Inl\<close> for an error or a panic, traversals
  that stop at the first error, maps kept as ordered association lists, and their lemmas.

  Termination and fuel. Loops recurse structurally or on a measure where the code's own argument gives
  one (the visiting loops, the adornment worklist, the task stack of arithmetic). Where it does not, the
  function takes fuel, and a theorem shows that the fuel given is enough: the number of vertices plus one
  for the component search, the number of nodes plus one for levels and negation. The iteration limits
  of the code (rounds of a fixpoint, of type inference, of the semi-naive iteration) are the code's own
  and are part of the model, with the error they lead to.

  Conventions. A panic is a constructor of the error type or \<open>None\<close>. Integers wrap as in a release
  build; debug assertions are left out. The iteration order of a hash table is a parameter, and the
  theorems hold for all orders. Texts of diagnostics are constructors with their arguments.

  Not modelled: the accounting of host allocations that accompanies compilation; rendering and
  parsing of text; rounding of floating-point operations, exponentials and logarithms (arguments of the
  definitions that use them, as is the symbol table); the cost models of
  the optimizer, statistics, multiway-join promotion and scheduling (the join search of the lowerer is modelled,
  with its floating-point operations as arguments); GPU kernels, device memory, Python bindings and the command line.
\<close>

end
